(* ===== verification/Prelude.thy ===== *)
theory Prelude
  imports Main "HOL-Library.Word" "HOL-Library.Monad_Syntax"
begin

text \<open>
  Shared vocabulary of the development: machine integers at their C width, checked array
  access, C strings, kernel error codes and tick arithmetic.

  A computation of the C code that performs an undefined operation (an access outside an
  array, a read of a byte nobody wrote, a failed assertion) has the value \<^const>\<open>None\<close>;
  every other computation has a value \<open>Some _\<close>. Statements of the form
  \<open>\<exists>y. f x = Some y\<close> are therefore statements of memory safety and of termination at once.
\<close>

unbundle bit_operations_syntax

type_synonym u8 = "8 word"
type_synonym u16 = "16 word"
type_synonym u32 = "32 word"

text \<open>Rewrite rules for checked accesses, and the unfolding sets of the components.\<close>

named_theorems access_simps
named_theorems code_defs

section \<open>Kernel error codes\<close>

definition RT_EOK :: int where "RT_EOK = 0"
definition RT_ERROR :: int where "RT_ERROR = 1"
definition RT_ETIMEOUT :: int where "RT_ETIMEOUT = 2"
definition RT_EFULL :: int where "RT_EFULL = 3"
definition RT_EEMPTY :: int where "RT_EEMPTY = 4"
definition RT_ENOMEM :: int where "RT_ENOMEM = 5"

lemmas rt_errs [simp] =
  RT_EOK_def RT_ERROR_def RT_ETIMEOUT_def RT_EFULL_def RT_EEMPTY_def RT_ENOMEM_def

section \<open>Checked access to arrays\<close>

definition rd :: "'a list \<Rightarrow> nat \<Rightarrow> 'a option" where
  "rd xs i = (if i < length xs then Some (xs ! i) else None)"

definition wr :: "'a list \<Rightarrow> nat \<Rightarrow> 'a \<Rightarrow> 'a list option" where
  "wr xs i v = (if i < length xs then Some (xs[i := v]) else None)"

text \<open>The same with a C \<open>int\<close> index, which may be negative.\<close>

definition rdi :: "'a list \<Rightarrow> int \<Rightarrow> 'a option" where
  "rdi xs i = (if i < 0 then None else rd xs (nat i))"

definition wri :: "'a list \<Rightarrow> int \<Rightarrow> 'a \<Rightarrow> 'a list option" where
  "wri xs i v = (if i < 0 then None else wr xs (nat i) v)"

text \<open>\<open>rd_n\<close> reads and \<open>wr_n\<close> writes a block, as \<open>memcpy\<close> and \<open>memset\<close> do.\<close>

definition rd_n :: "'a list \<Rightarrow> nat \<Rightarrow> nat \<Rightarrow> 'a list option" where
  "rd_n xs i n = (if i + n \<le> length xs then Some (take n (drop i xs)) else None)"

definition wr_n :: "'a list \<Rightarrow> nat \<Rightarrow> 'a list \<Rightarrow> 'a list option" where
  "wr_n xs i ys = (if i + length ys \<le> length xs
     then Some (take i xs @ ys @ drop (i + length ys) xs) else None)"

text \<open>
  A buffer that is filled from the front is the list of the bytes written so far; \<open>push\<close>
  appends one byte and \<open>append_buf\<close> a block, within the capacity of the array.
\<close>

definition push :: "nat \<Rightarrow> 'a list \<Rightarrow> 'a \<Rightarrow> 'a list option" where
  "push cap xs v = (if length xs < cap then Some (xs @ [v]) else None)"

definition append_buf :: "nat \<Rightarrow> 'a list \<Rightarrow> 'a list \<Rightarrow> 'a list option" where
  "append_buf cap xs ys = (if length xs + length ys \<le> cap then Some (xs @ ys) else None)"

lemma rd_Some [access_simps]: "i < length xs \<Longrightarrow> rd xs i = Some (xs ! i)"
  by (simp add: rd_def)

lemma rd_None [access_simps]: "length xs \<le> i \<Longrightarrow> rd xs i = None"
  by (simp add: rd_def)

lemma rd_eq_Some_iff: "rd xs i = Some v \<longleftrightarrow> i < length xs \<and> v = xs ! i"
  by (auto simp: rd_def)

lemma wr_Some [access_simps]: "i < length xs \<Longrightarrow> wr xs i v = Some (xs[i := v])"
  by (simp add: wr_def)

lemma wr_eq_Some_iff: "wr xs i v = Some ys \<longleftrightarrow> i < length xs \<and> ys = xs[i := v]"
  by (auto simp: wr_def)

lemma rdi_Some [access_simps]: "0 \<le> i \<Longrightarrow> nat i < length xs \<Longrightarrow> rdi xs i = Some (xs ! nat i)"
  by (simp add: rdi_def rd_def)

lemma rdi_neg [access_simps]: "i < 0 \<Longrightarrow> rdi xs i = None"
  by (simp add: rdi_def)

lemma wri_Some [access_simps]:
  "0 \<le> i \<Longrightarrow> nat i < length xs \<Longrightarrow> wri xs i v = Some (xs[nat i := v])"
  by (simp add: wri_def wr_def)

lemma wri_neg [access_simps]: "i < 0 \<Longrightarrow> wri xs i v = None"
  by (simp add: wri_def)

lemma wri_eq_Some_iff: "wri xs i v = Some ys \<longleftrightarrow> 0 \<le> i \<and> nat i < length xs \<and> ys = xs[nat i := v]"
  by (auto simp: wri_def wr_def)

lemma rd_n_Some [access_simps]: "i + n \<le> length xs \<Longrightarrow> rd_n xs i n = Some (take n (drop i xs))"
  by (simp add: rd_n_def)

lemma wr_n_Some [access_simps]:
  "i + length ys \<le> length xs \<Longrightarrow> wr_n xs i ys = Some (take i xs @ ys @ drop (i + length ys) xs)"
  by (simp add: wr_n_def)

lemma wr_n_length: "wr_n xs i ys = Some zs \<Longrightarrow> length zs = length xs"
  by (auto simp: wr_n_def split: if_splits)

lemma wr_n_eq_Some_iff:
  "wr_n xs i ys = Some zs \<longleftrightarrow>
     i + length ys \<le> length xs \<and> zs = take i xs @ ys @ drop (i + length ys) xs"
  by (auto simp: wr_n_def)

lemma push_Some [access_simps]: "length xs < cap \<Longrightarrow> push cap xs v = Some (xs @ [v])"
  by (simp add: push_def)

lemma push_eq_Some_iff: "push cap xs v = Some ys \<longleftrightarrow> length xs < cap \<and> ys = xs @ [v]"
  by (auto simp: push_def)

lemma append_buf_Some [access_simps]:
  "length xs + length ys \<le> cap \<Longrightarrow> append_buf cap xs ys = Some (xs @ ys)"
  by (simp add: append_buf_def)

lemma append_buf_eq_Some_iff:
  "append_buf cap xs ys = Some zs \<longleftrightarrow> length xs + length ys \<le> cap \<and> zs = xs @ ys"
  by (auto simp: append_buf_def)

end
