(* ===== verification/Modbus_Data.thy ===== *)
theory Modbus_Data
  imports Prelude
begin

text \<open>
  \<open>packages/libmodbus-latest/src/modbus-data.c\<close>: bit packing and the conversions between a
  pair of 16-bit registers and a 32-bit quantity in the four byte orders. A \<open>float\<close> is its
  32-bit representation, which is what \<open>memcpy\<close> moves; \<open>long\<close> has 32 bits on the target.
\<close>

section \<open>Byte swapping\<close>

definition bswap_16 :: "u16 \<Rightarrow> u16" where
  "bswap_16 x = drop_bit 8 x OR push_bit 8 x"

definition bswap_32 :: "u32 \<Rightarrow> u32" where
  "bswap_32 x = push_bit 16 (ucast (bswap_16 (ucast (x AND 0xffff))))
                OR ucast (bswap_16 (ucast (drop_bit 16 x)))"

lemma bswap_16_bit: "bit (bswap_16 x) n \<longleftrightarrow> (n < 8 \<and> bit x (n + 8)) \<or> (8 \<le> n \<and> n < 16 \<and> bit x (n - 8))"
  by (auto simp: bswap_16_def bit_simps add.commute dest: bit_imp_le_length)

lemma bswap_16_involution [simp]: "bswap_16 (bswap_16 x) = x"
  by (rule bit_word_eqI) (auto simp: bswap_16_bit)

lemma ucast_mask16: "ucast (i AND 0xFFFF :: u32) = (ucast i :: u16)"
proof -
  have "i AND 0xFFFF = take_bit 16 i"
    by (simp add: take_bit_eq_mask mask_eq_exp_minus_1)
  then show ?thesis
    by (auto intro!: bit_word_eqI simp: bit_simps)
qed

lemma bswap_32_bit:
  "bit (bswap_32 x) n \<longleftrightarrow> (n < 32 \<and> bit x (if n < 8 then n + 24 else if n < 16 then n + 8
      else if n < 24 then n - 8 else n - 24))"
  by (auto simp: bswap_32_def ucast_mask16 bswap_16_bit bit_simps add.commute)

lemma bswap_32_involution [simp]: "bswap_32 (bswap_32 x) = x"
  by (rule bit_word_eqI) (auto simp: bswap_32_bit)

section \<open>Bits and bytes\<close>

primrec set_bits_from_byte_loop :: "nat \<Rightarrow> u8 list \<Rightarrow> nat \<Rightarrow> nat \<Rightarrow> u8 \<Rightarrow> u8 list option" where
  "set_bits_from_byte_loop 0 dest idx i value = Some dest"
| "set_bits_from_byte_loop (Suc n) dest idx i value =
     do { dest' \<leftarrow> wr dest (idx + i) (if value AND push_bit i 1 \<noteq> 0 then 1 else 0);
          set_bits_from_byte_loop n dest' idx (Suc i) value }"

definition modbus_set_bits_from_byte :: "u8 list \<Rightarrow> nat \<Rightarrow> u8 \<Rightarrow> u8 list option" where
  "modbus_set_bits_from_byte dest idx value = set_bits_from_byte_loop 8 dest idx 0 value"

text \<open>The loop runs over the bit numbers \<open>k = i - idx\<close>, with \<open>shift = k mod 8\<close>.\<close>

primrec set_bits_from_bytes_loop :: "nat \<Rightarrow> u8 list \<Rightarrow> nat \<Rightarrow> nat \<Rightarrow> u8 list \<Rightarrow> nat \<Rightarrow> u8 list option" where
  "set_bits_from_bytes_loop 0 dest idx k tab_byte shift = Some dest"
| "set_bits_from_bytes_loop (Suc n) dest idx k tab_byte shift =
     do { b \<leftarrow> rd tab_byte (k div 8);
          dest' \<leftarrow> wr dest (idx + k) (if b AND push_bit shift 1 \<noteq> 0 then 1 else 0);
          set_bits_from_bytes_loop n dest' idx (Suc k) tab_byte ((shift + 1) mod 8) }"

definition modbus_set_bits_from_bytes :: "u8 list \<Rightarrow> nat \<Rightarrow> nat \<Rightarrow> u8 list \<Rightarrow> u8 list option" where
  "modbus_set_bits_from_bytes dest idx nb_bits tab_byte =
     set_bits_from_bytes_loop nb_bits dest idx 0 tab_byte 0"

primrec get_byte_from_bits_loop :: "nat \<Rightarrow> u8 list \<Rightarrow> nat \<Rightarrow> nat \<Rightarrow> u8 \<Rightarrow> u8 option" where
  "get_byte_from_bits_loop 0 src idx i value = Some value"
| "get_byte_from_bits_loop (Suc n) src idx i value =
     do { b \<leftarrow> rd src (idx + i);
          get_byte_from_bits_loop n src idx (Suc i) (value OR push_bit i b) }"

text \<open>A failed \<open>RT_ASSERT\<close> stops the thread: with \<open>nb_bits > 8\<close> the assertion
  \<open>nb_bits < 8\<close> fails, so the following assignment is never reached.\<close>

definition modbus_get_byte_from_bits :: "u8 list \<Rightarrow> nat \<Rightarrow> nat \<Rightarrow> u8 option" where
  "modbus_get_byte_from_bits src idx nb_bits =
     (if nb_bits > 8 then None else get_byte_from_bits_loop nb_bits src idx 0 0)"

section \<open>32-bit values in two registers\<close>

definition modbus_get_float_abcd :: "u16 list \<Rightarrow> u32 option" where
  "modbus_get_float_abcd src =
     do { a \<leftarrow> rd src 0; b \<leftarrow> rd src 1; Some (push_bit 16 (ucast a) + ucast b) }"

definition modbus_get_long_abcd :: "u16 list \<Rightarrow> u32 option" where
  "modbus_get_long_abcd src =
     do { a \<leftarrow> rd src 0; b \<leftarrow> rd src 1; Some (push_bit 16 (ucast a) + ucast b) }"

definition modbus_get_float_dcba :: "u16 list \<Rightarrow> u32 option" where
  "modbus_get_float_dcba src =
     do { a \<leftarrow> rd src 0; b \<leftarrow> rd src 1; Some (bswap_32 (push_bit 16 (ucast a) + ucast b)) }"

definition modbus_get_long_dcba :: "u16 list \<Rightarrow> u32 option" where
  "modbus_get_long_dcba src =
     do { a \<leftarrow> rd src 0; b \<leftarrow> rd src 1; Some (bswap_32 (push_bit 16 (ucast a) + ucast b)) }"

definition modbus_get_float_badc :: "u16 list \<Rightarrow> u32 option" where
  "modbus_get_float_badc src =
     do { a \<leftarrow> rd src 0; b \<leftarrow> rd src 1;
          Some (push_bit 16 (ucast (bswap_16 a)) + ucast (bswap_16 b)) }"

definition modbus_get_long_badc :: "u16 list \<Rightarrow> u32 option" where
  "modbus_get_long_badc src =
     do { a \<leftarrow> rd src 0; b \<leftarrow> rd src 1;
          Some (push_bit 16 (ucast (bswap_16 a)) + ucast (bswap_16 b)) }"

definition modbus_get_float_cdab :: "u16 list \<Rightarrow> u32 option" where
  "modbus_get_float_cdab src =
     do { a \<leftarrow> rd src 0; b \<leftarrow> rd src 1; Some (push_bit 16 (ucast b) + ucast a) }"

definition modbus_get_long_cdab :: "u16 list \<Rightarrow> u32 option" where
  "modbus_get_long_cdab src =
     do { a \<leftarrow> rd src 0; b \<leftarrow> rd src 1; Some (push_bit 16 (ucast b) + ucast a) }"

definition modbus_get_float :: "u16 list \<Rightarrow> u32 option" where
  "modbus_get_float src =
     do { a \<leftarrow> rd src 0; b \<leftarrow> rd src 1; Some (push_bit 16 (ucast b) + ucast a) }"

definition modbus_set_float_abcd :: "u32 \<Rightarrow> u16 list \<Rightarrow> u16 list option" where
  "modbus_set_float_abcd i dest =
     do { d \<leftarrow> wr dest 0 (ucast (drop_bit 16 i)); wr d 1 (ucast i) }"

definition modbus_set_long_abcd :: "u32 \<Rightarrow> u16 list \<Rightarrow> u16 list option" where
  "modbus_set_long_abcd i dest =
     do { d \<leftarrow> wr dest 0 (ucast (drop_bit 16 i)); wr d 1 (ucast i) }"

definition modbus_set_float_dcba :: "u32 \<Rightarrow> u16 list \<Rightarrow> u16 list option" where
  "modbus_set_float_dcba f dest =
     (let i = bswap_32 f in
      do { d \<leftarrow> wr dest 0 (ucast (drop_bit 16 i)); wr d 1 (ucast i) })"

definition modbus_set_long_dcba :: "u32 \<Rightarrow> u16 list \<Rightarrow> u16 list option" where
  "modbus_set_long_dcba l dest =
     (let i = bswap_32 l in
      do { d \<leftarrow> wr dest 0 (ucast (drop_bit 16 i)); wr d 1 (ucast i) })"

definition modbus_set_float_badc :: "u32 \<Rightarrow> u16 list \<Rightarrow> u16 list option" where
  "modbus_set_float_badc i dest =
     do { d \<leftarrow> wr dest 0 (bswap_16 (ucast (drop_bit 16 i)));
          wr d 1 (bswap_16 (ucast (i AND 0xFFFF))) }"

definition modbus_set_long_badc :: "u32 \<Rightarrow> u16 list \<Rightarrow> u16 list option" where
  "modbus_set_long_badc i dest =
     do { d \<leftarrow> wr dest 0 (bswap_16 (ucast (drop_bit 16 i)));
          wr d 1 (bswap_16 (ucast (i AND 0xFFFF))) }"

definition modbus_set_float_cdab :: "u32 \<Rightarrow> u16 list \<Rightarrow> u16 list option" where
  "modbus_set_float_cdab i dest =
     do { d \<leftarrow> wr dest 0 (ucast i); wr d 1 (ucast (drop_bit 16 i)) }"

definition modbus_set_long_cdab :: "u32 \<Rightarrow> u16 list \<Rightarrow> u16 list option" where
  "modbus_set_long_cdab i dest =
     do { d \<leftarrow> wr dest 0 (ucast i); wr d 1 (ucast (drop_bit 16 i)) }"

definition modbus_set_float :: "u32 \<Rightarrow> u16 list \<Rightarrow> u16 list option" where
  "modbus_set_float i dest =
     do { d \<leftarrow> wr dest 0 (ucast i); wr d 1 (ucast (drop_bit 16 i)) }"

lemmas modbus_get32_defs =
  modbus_get_float_abcd_def modbus_get_long_abcd_def modbus_get_float_dcba_def
  modbus_get_long_dcba_def modbus_get_float_badc_def modbus_get_long_badc_def
  modbus_get_float_cdab_def modbus_get_long_cdab_def modbus_get_float_def

lemmas modbus_set32_defs =
  modbus_set_float_abcd_def modbus_set_long_abcd_def modbus_set_float_dcba_def
  modbus_set_long_dcba_def modbus_set_float_badc_def modbus_set_long_badc_def
  modbus_set_float_cdab_def modbus_set_long_cdab_def modbus_set_float_def

lemma word_join_split: "push_bit 16 (ucast (ucast (drop_bit 16 i) :: u16)) + ucast (ucast i :: u16) = (i :: u32)"
proof -
  let ?a = "push_bit 16 (ucast (ucast (drop_bit 16 i) :: u16)) :: u32"
  let ?b = "ucast (ucast i :: u16) :: u32"
  have "?a AND ?b = 0"
    by (rule bit_word_eqI) (auto simp: bit_simps)
  then have "?a + ?b = ?a OR ?b"
    by (rule disjunctive_add_eq_or)
  also have "\<dots> = i"
    by (rule bit_word_eqI) (auto simp: bit_simps)
  finally show ?thesis .
qed

text \<open>A pair of registers written in one byte order is read back in the same order.\<close>

lemma length_ge_2_conv: "2 \<le> length xs \<longleftrightarrow> (\<exists>a b ys. xs = a # b # ys)"
  by (cases xs; cases "tl xs") auto

lemma modbus_set_get_float:
  "2 \<le> length dest \<Longrightarrow> (modbus_set_float_abcd i dest \<bind> modbus_get_float_abcd) = Some i"
  "2 \<le> length dest \<Longrightarrow> (modbus_set_float_dcba i dest \<bind> modbus_get_float_dcba) = Some i"
  "2 \<le> length dest \<Longrightarrow> (modbus_set_float_badc i dest \<bind> modbus_get_float_badc) = Some i"
  "2 \<le> length dest \<Longrightarrow> (modbus_set_float_cdab i dest \<bind> modbus_get_float_cdab) = Some i"
  by (auto simp: length_ge_2_conv modbus_set32_defs modbus_get32_defs Let_def wr_def rd_def
      ucast_mask16 word_join_split)

section \<open>Packing and unpacking of bits\<close>

lemma and_push_bit_neq_0_iff: "v AND push_bit i 1 \<noteq> 0 \<longleftrightarrow> bit (v :: u8) i"
  by (simp add: bit_iff_and_push_bit_not_eq_0)

text \<open>The coil (0 or 1) that bit number \<open>j\<close> of a table of bytes stands for.\<close>

definition coil_of :: "u8 list \<Rightarrow> nat \<Rightarrow> u8" where
  "coil_of tab j = (if bit (tab ! (j div 8)) (j mod 8) then 1 else 0)"

lemma map_upt_Suc: "map f [k..<k + Suc n] = f k # map f [Suc k..<Suc k + n]"
  by (subst upt_conv_Cons) auto

lemma set_bits_from_bytes_loop_spec:
  assumes "idx + (k + n) \<le> length dest" and "k + n \<le> 8 * length tab"
  shows "set_bits_from_bytes_loop n dest idx k tab (k mod 8) =
    Some (take (idx + k) dest @ map (coil_of tab) [k..<k + n] @ drop (idx + k + n) dest)"
  using assms
proof (induction n arbitrary: dest k)
  case 0
  then show ?case by simp
next
  case (Suc n)
  let ?d = "dest[idx + k := coil_of tab k]"
  have "k div 8 < length tab" using Suc.prems by auto
  then have "set_bits_from_bytes_loop (Suc n) dest idx k tab (k mod 8) =
      set_bits_from_bytes_loop n ?d idx (Suc k) tab (Suc k mod 8)"
    using Suc.prems unfolding set_bits_from_bytes_loop.simps coil_of_def and_push_bit_neq_0_iff
    by (simp add: rd_def wr_def mod_Suc_eq)
  also have "\<dots> = Some (take (idx + Suc k) ?d @ map (coil_of tab) [Suc k..<Suc k + n]
        @ drop (idx + Suc k + n) ?d)"
    by (rule Suc.IH) (use Suc.prems in auto)
  also have "take (idx + Suc k) ?d = take (idx + k) dest @ [coil_of tab k]"
    using Suc.prems by (simp add: take_Suc_conv_app_nth)
  also have "drop (idx + Suc k + n) ?d = drop (idx + k + Suc n) dest"
    by simp
  finally show ?case
    unfolding map_upt_Suc by simp
qed

lemma modbus_set_bits_from_bytes_spec:
  assumes "idx + nb \<le> length dest" and "nb \<le> 8 * length tab"
  shows "modbus_set_bits_from_bytes dest idx nb tab =
    Some (take idx dest @ map (coil_of tab) [0..<nb] @ drop (idx + nb) dest)"
  using set_bits_from_bytes_loop_spec [of idx 0 nb dest tab] assms
  by (simp add: modbus_set_bits_from_bytes_def)

end
