(* ===== verification/Modbus_Core.thy ===== *)
theory Modbus_Core
  imports Modbus_Data
begin

text \<open>
  \<open>packages/libmodbus-latest\<close>: the context, the TCP backend (\<open>modbus-tcp.c\<close>) and the part of
  \<open>modbus.c\<close> shared by client and server: sending, receiving step by step, and matching a
  confirmation with its request.

  The socket calls are parameters (\<open>sock_ops\<close>): they stand for the network stack and the peer,
  and act on a world of type \<open>'w\<close>. The functions of the library act on \<open>'w mbs\<close>, which holds
  the context (with the fields of its TCP backend data), \<open>errno\<close> and the world. Debug output
  is left out.
\<close>

section \<open>Error numbers and the socket interface\<close>

datatype errno = EOK | EINVAL | EBADF | EPIPE | EINTR | ECONNRESET | ECONNREFUSED | ETIMEDOUT
  | EINPROGRESS | ENOPROTOOPT | EOTHER int | EMB int

text \<open>\<open>EMB n\<close> is \<open>MODBUS_ENOBASE + n\<close>, a range disjoint from the system's error numbers.\<close>

definition MODBUS_EXCEPTION_ILLEGAL_FUNCTION :: int where "MODBUS_EXCEPTION_ILLEGAL_FUNCTION = 1"
definition MODBUS_EXCEPTION_ILLEGAL_DATA_ADDRESS :: int where
  "MODBUS_EXCEPTION_ILLEGAL_DATA_ADDRESS = 2"
definition MODBUS_EXCEPTION_ILLEGAL_DATA_VALUE :: int where
  "MODBUS_EXCEPTION_ILLEGAL_DATA_VALUE = 3"
definition MODBUS_EXCEPTION_MAX :: int where "MODBUS_EXCEPTION_MAX = 12"
definition EMBBADDATA :: errno where "EMBBADDATA = EMB (11 + 2)"
definition EMBBADEXC :: errno where "EMBBADEXC = EMB (11 + 3)"
definition EMBMDATA :: errno where "EMBMDATA = EMB (11 + 5)"

lemmas modbus_exception_defs [simp] =
  MODBUS_EXCEPTION_ILLEGAL_FUNCTION_def MODBUS_EXCEPTION_ILLEGAL_DATA_ADDRESS_def
  MODBUS_EXCEPTION_ILLEGAL_DATA_VALUE_def MODBUS_EXCEPTION_MAX_def

datatype 'a sysres = SysOk 'a | SysErr errno

type_synonym timeval = "u32 \<times> u32"

record 'w sock_ops =
  sk_socket :: "int \<Rightarrow> 'w \<Rightarrow> int sysres \<times> 'w"
  sk_connect :: "int \<Rightarrow> u8 list \<Rightarrow> int \<Rightarrow> 'w \<Rightarrow> unit sysres \<times> 'w"
  sk_so_error :: "int \<Rightarrow> 'w \<Rightarrow> int sysres \<times> 'w"
  sk_close :: "int \<Rightarrow> 'w \<Rightarrow> 'w"
  sk_send :: "int \<Rightarrow> u8 list \<Rightarrow> 'w \<Rightarrow> nat sysres \<times> 'w"
  sk_recv :: "int \<Rightarrow> nat \<Rightarrow> bool \<Rightarrow> 'w \<Rightarrow> u8 list sysres \<times> 'w"
  sk_select_read :: "int \<Rightarrow> timeval option \<Rightarrow> 'w \<Rightarrow> nat sysres \<times> 'w"
  sk_select_write :: "int \<Rightarrow> timeval \<Rightarrow> 'w \<Rightarrow> nat sysres \<times> 'w"
  sk_mdelay :: "u32 \<Rightarrow> 'w \<Rightarrow> 'w"

text \<open>
  What POSIX says of \<open>recv\<close> and \<open>send\<close>: neither moves more bytes than it was asked to. And
  \<open>select\<close> is never interrupted: the target has no signals.
\<close>

definition sock_ok :: "'w sock_ops \<Rightarrow> bool" where
  "sock_ok io \<longleftrightarrow>
     (\<forall>s n d w bs w'. sk_recv io s n d w = (SysOk bs, w') \<longrightarrow> length bs \<le> n) \<and>
     (\<forall>s m w k w'. sk_send io s m w = (SysOk k, w') \<longrightarrow> k \<le> length m) \<and>
     (\<forall>s tv w e w'. sk_select_read io s tv w = (SysErr e, w') \<longrightarrow> e \<noteq> EINTR)"

lemma sock_ok_recv: "sock_ok io \<Longrightarrow> sk_recv io s n d w = (SysOk bs, w') \<Longrightarrow> length bs \<le> n"
  unfolding sock_ok_def by blast

lemma sock_ok_send: "sock_ok io \<Longrightarrow> sk_send io s m w = (SysOk k, w') \<Longrightarrow> k \<le> length m"
  unfolding sock_ok_def by blast

lemma sock_ok_select: "sock_ok io \<Longrightarrow> sk_select_read io s tv w \<noteq> (SysErr EINTR, w')"
  unfolding sock_ok_def by blast

section \<open>Context\<close>

text \<open>\<open>mb_null\<close> says that the context pointer the caller holds is \<open>NULL\<close>.\<close>

record 'w mbs =
  mb_null :: bool
  mb_slave :: int
  mb_s :: int
  mb_debug :: int
  mb_error_recovery :: int
  mb_response_timeout :: timeval
  mb_byte_timeout :: timeval
  tcp_domain :: int
  tcp_ip :: "u8 list"
  tcp_port :: int
  tcp_t_id :: u16
  mb_errno :: errno
  mb_world :: 'w

record sft =
  sft_slave :: int
  sft_function :: int
  sft_t_id :: int

datatype msg_type = MSG_INDICATION | MSG_CONFIRMATION

datatype step_t = STEP_FUNCTION | STEP_META | STEP_DATA

record 'w modbus_backend =
  header_length :: nat
  checksum_length :: nat
  max_adu_length :: nat
  be_set_slave :: "'w mbs \<Rightarrow> int \<Rightarrow> int \<times> 'w mbs"
  be_build_request_basis :: "'w mbs \<Rightarrow> int \<Rightarrow> int \<Rightarrow> int \<Rightarrow> u8 list \<times> 'w mbs"
  be_build_response_basis :: "sft \<Rightarrow> u8 list"
  be_prepare_response_tid :: "u8 list \<Rightarrow> int \<Rightarrow> (int \<times> int) option"
  be_send_msg_pre :: "u8 list \<Rightarrow> u8 list option"
  be_send :: "'w sock_ops \<Rightarrow> 'w mbs \<Rightarrow> u8 list \<Rightarrow> int \<times> 'w mbs"
  be_recv :: "'w sock_ops \<Rightarrow> 'w mbs \<Rightarrow> int \<Rightarrow> int \<times> u8 list \<times> 'w mbs"
  be_check_integrity :: "'w mbs \<Rightarrow> u8 list \<Rightarrow> int \<times> 'w mbs"
  be_pre_check_confirmation :: "'w mbs \<Rightarrow> u8 list \<Rightarrow> u8 list \<Rightarrow> (int \<times> 'w mbs) option"
  be_connect :: "'w sock_ops \<Rightarrow> 'w mbs \<Rightarrow> int \<times> 'w mbs"
  be_close :: "'w sock_ops \<Rightarrow> 'w mbs \<Rightarrow> 'w mbs"
  be_flush :: "'w sock_ops \<Rightarrow> 'w mbs \<Rightarrow> (int \<times> 'w mbs) option"
  be_select :: "'w sock_ops \<Rightarrow> 'w mbs \<Rightarrow> timeval option \<Rightarrow> (int \<times> 'w mbs) option"

definition MAX_MESSAGE_LENGTH :: nat where "MAX_MESSAGE_LENGTH = 260"
definition MSG_LENGTH_UNDEFINED :: int where "MSG_LENGTH_UNDEFINED = - 1"
definition MODBUS_TCP_SLAVE :: int where "MODBUS_TCP_SLAVE = 0xFF"
definition MODBUS_BROADCAST_ADDRESS :: int where "MODBUS_BROADCAST_ADDRESS = 0"
definition MODBUS_ERROR_RECOVERY_LINK :: int where "MODBUS_ERROR_RECOVERY_LINK = 2"
definition MODBUS_ERROR_RECOVERY_PROTOCOL :: int where "MODBUS_ERROR_RECOVERY_PROTOCOL = 4"

lemmas modbus_const_defs [simp] =
  MAX_MESSAGE_LENGTH_def MSG_LENGTH_UNDEFINED_def MODBUS_TCP_SLAVE_def
  MODBUS_BROADCAST_ADDRESS_def MODBUS_ERROR_RECOVERY_LINK_def MODBUS_ERROR_RECOVERY_PROTOCOL_def

text \<open>Function codes of the protocol.\<close>

definition FC_READ_COILS :: int where "FC_READ_COILS = 0x01"
definition FC_READ_DISCRETE_INPUTS :: int where "FC_READ_DISCRETE_INPUTS = 0x02"
definition FC_READ_HOLDING_REGISTERS :: int where "FC_READ_HOLDING_REGISTERS = 0x03"
definition FC_READ_INPUT_REGISTERS :: int where "FC_READ_INPUT_REGISTERS = 0x04"
definition FC_WRITE_SINGLE_COIL :: int where "FC_WRITE_SINGLE_COIL = 0x05"
definition FC_WRITE_SINGLE_REGISTER :: int where "FC_WRITE_SINGLE_REGISTER = 0x06"
definition FC_READ_EXCEPTION_STATUS :: int where "FC_READ_EXCEPTION_STATUS = 0x07"
definition FC_WRITE_MULTIPLE_COILS :: int where "FC_WRITE_MULTIPLE_COILS = 0x0F"
definition FC_WRITE_MULTIPLE_REGISTERS :: int where "FC_WRITE_MULTIPLE_REGISTERS = 0x10"
definition FC_REPORT_SLAVE_ID :: int where "FC_REPORT_SLAVE_ID = 0x11"
definition FC_MASK_WRITE_REGISTER :: int where "FC_MASK_WRITE_REGISTER = 0x16"
definition FC_WRITE_AND_READ_REGISTERS :: int where "FC_WRITE_AND_READ_REGISTERS = 0x17"

lemmas fc_defs [simp] =
  FC_READ_COILS_def FC_READ_DISCRETE_INPUTS_def FC_READ_HOLDING_REGISTERS_def
  FC_READ_INPUT_REGISTERS_def FC_WRITE_SINGLE_COIL_def FC_WRITE_SINGLE_REGISTER_def
  FC_READ_EXCEPTION_STATUS_def FC_WRITE_MULTIPLE_COILS_def FC_WRITE_MULTIPLE_REGISTERS_def
  FC_REPORT_SLAVE_ID_def FC_MASK_WRITE_REGISTER_def FC_WRITE_AND_READ_REGISTERS_def

text \<open>
  Two bytes of a message as a big-endian number: \<open>(b[i] << 8) + b[i + 1]\<close>, which is also
  \<open>(b[i] << 8) | b[i + 1]\<close> since the two operands share no bit.
\<close>

definition be16 :: "u8 \<Rightarrow> u8 \<Rightarrow> int" where
  "be16 h l = uint h * 256 + uint l"

definition rd16 :: "u8 list \<Rightarrow> nat \<Rightarrow> int option" where
  "rd16 b i = do { h \<leftarrow> rd b i; l \<leftarrow> rd b (i + 1); Some (be16 h l) }"

text \<open>The byte that assigning a C \<open>int\<close> to a \<open>uint8_t\<close> stores.\<close>

definition byte :: "int \<Rightarrow> u8" where
  "byte n = word_of_int n"

lemma be16_range: "0 \<le> be16 h l" "be16 h l < 65536"
proof -
  have "0 \<le> uint h" "uint h < 256" "0 \<le> uint l" "uint l < 256"
    using uint_lt2p [of h] uint_lt2p [of l] by auto
  then show "0 \<le> be16 h l" "be16 h l < 65536"
    by (auto simp: be16_def)
qed

lemma uint_byte: "uint (byte n) = n mod 256"
  by (simp add: byte_def uint_word_of_int)

lemma be16_byte: "0 \<le> n \<Longrightarrow> n < 65536 \<Longrightarrow> be16 (byte (n div 256)) (byte n) = n"
  by (simp add: be16_def uint_byte)

lemma byte_of_uint [simp]: "byte (uint b) = b"
  by (simp add: byte_def)

lemma rd16_Some [access_simps]: "Suc i < length b \<Longrightarrow> rd16 b i = Some (be16 (b ! i) (b ! Suc i))"
  by (simp add: rd16_def rd_def)

section \<open>The TCP backend\<close>

definition modbus_tcp_set_slave :: "'w mbs \<Rightarrow> int \<Rightarrow> int \<times> 'w mbs" where
  "modbus_tcp_set_slave st slave =
     (if slave \<ge> 0 \<and> slave \<le> 247 then (0, st\<lparr>mb_slave := slave\<rparr>)
      else if slave = MODBUS_TCP_SLAVE then (0, st\<lparr>mb_slave := slave\<rparr>)
      else (- 1, st\<lparr>mb_errno := EINVAL\<rparr>))"

text \<open>Bytes 4 and 5 (the length) are set by \<open>send_msg_pre\<close>; until then they hold 0 here.\<close>

definition modbus_tcp_build_request_basis ::
  "'w mbs \<Rightarrow> int \<Rightarrow> int \<Rightarrow> int \<Rightarrow> u8 list \<times> 'w mbs" where
  "modbus_tcp_build_request_basis st function addr nb =
     (let t_id = (if tcp_t_id st < 0xFFFF then tcp_t_id st + 1 else 0);
          st = st\<lparr>tcp_t_id := t_id\<rparr>
      in ([ucast (drop_bit 8 t_id), ucast (t_id AND 0x00ff), 0, 0, 0, 0,
           byte (mb_slave st), byte function,
           byte (addr div 256), byte addr, byte (nb div 256), byte nb], st))"

definition modbus_tcp_build_response_basis :: "sft \<Rightarrow> u8 list" where
  "modbus_tcp_build_response_basis sft =
     [byte (sft_t_id sft div 256), byte (sft_t_id sft), 0, 0, 0, 0,
      byte (sft_slave sft), byte (sft_function sft)]"

definition modbus_tcp_prepare_response_tid :: "u8 list \<Rightarrow> int \<Rightarrow> (int \<times> int) option" where
  "modbus_tcp_prepare_response_tid req req_length =
     do { t \<leftarrow> rd16 req 0; Some (t, req_length) }"

definition modbus_tcp_send_msg_pre :: "u8 list \<Rightarrow> u8 list option" where
  "modbus_tcp_send_msg_pre req =
     (let mbap_length = int (length req) - 6
      in do { req \<leftarrow> wr req 4 (byte (mbap_length div 256)); wr req 5 (byte mbap_length) })"

definition modbus_tcp_send :: "'w sock_ops \<Rightarrow> 'w mbs \<Rightarrow> u8 list \<Rightarrow> int \<times> 'w mbs" where
  "modbus_tcp_send io st req =
     (case sk_send io (mb_s st) req (mb_world st) of
        (SysOk n, w) \<Rightarrow> (int n, st\<lparr>mb_world := w\<rparr>)
      | (SysErr e, w) \<Rightarrow> (- 1, st\<lparr>mb_world := w, mb_errno := e\<rparr>))"

definition modbus_tcp_recv :: "'w sock_ops \<Rightarrow> 'w mbs \<Rightarrow> int \<Rightarrow> int \<times> u8 list \<times> 'w mbs" where
  "modbus_tcp_recv io st rsp_length =
     (case sk_recv io (mb_s st) (nat rsp_length) False (mb_world st) of
        (SysOk bs, w) \<Rightarrow> (int (length bs), bs, st\<lparr>mb_world := w\<rparr>)
      | (SysErr e, w) \<Rightarrow> (- 1, [], st\<lparr>mb_world := w, mb_errno := e\<rparr>))"

definition modbus_tcp_check_integrity :: "'w mbs \<Rightarrow> u8 list \<Rightarrow> int \<times> 'w mbs" where
  "modbus_tcp_check_integrity st msg = (int (length msg), st)"

definition modbus_tcp_pre_check_confirmation ::
  "'w mbs \<Rightarrow> u8 list \<Rightarrow> u8 list \<Rightarrow> (int \<times> 'w mbs) option" where
  "modbus_tcp_pre_check_confirmation st req rsp =
     do { req0 \<leftarrow> rd req 0; req1 \<leftarrow> rd req 1; rsp0 \<leftarrow> rd rsp 0; rsp1 \<leftarrow> rd rsp 1;
          if req0 \<noteq> rsp0 \<or> req1 \<noteq> rsp1 then Some (- 1, st\<lparr>mb_errno := EMBBADDATA\<rparr>)
          else do { rsp2 \<leftarrow> rd rsp 2; rsp3 \<leftarrow> rd rsp 3;
                    if rsp2 \<noteq> 0 \<and> rsp3 \<noteq> 0 then Some (- 1, st\<lparr>mb_errno := EMBBADDATA\<rparr>)
                    else Some (0, st) } }"

text \<open>\<open>_connect\<close>: a connection in progress is awaited with \<open>select\<close> and read from \<open>SO_ERROR\<close>.\<close>

definition modbus_sk_connect :: "'w sock_ops \<Rightarrow> 'w mbs \<Rightarrow> int \<times> 'w mbs" where
  "modbus_sk_connect io st =
     (case sk_connect io (mb_s st) (tcp_ip st) (tcp_port st) (mb_world st) of
        (SysOk _, w) \<Rightarrow> (0, st\<lparr>mb_world := w\<rparr>)
      | (SysErr e, w) \<Rightarrow>
          if e = EINPROGRESS then
            (case sk_select_write io (mb_s st) (mb_response_timeout st) w of
               (SysErr e', w') \<Rightarrow> (- 1, st\<lparr>mb_world := w', mb_errno := e'\<rparr>)
             | (SysOk n, w') \<Rightarrow>
                 if n = 0 then (- 1, st\<lparr>mb_world := w', mb_errno := e\<rparr>)
                 else (case sk_so_error io (mb_s st) w' of
                         (SysOk optval, w'') \<Rightarrow>
                           if optval = 0 then (0, st\<lparr>mb_world := w'', mb_errno := e\<rparr>)
                           else (- 1, st\<lparr>mb_world := w'', mb_errno := ECONNREFUSED\<rparr>)
                       | (SysErr _, w'') \<Rightarrow> (- 1, st\<lparr>mb_world := w'', mb_errno := ECONNREFUSED\<rparr>)))
          else (- 1, st\<lparr>mb_world := w, mb_errno := e\<rparr>))"

definition modbus_tcp_connect :: "'w sock_ops \<Rightarrow> 'w mbs \<Rightarrow> int \<times> 'w mbs" where
  "modbus_tcp_connect io st =
     (case sk_socket io (tcp_domain st) (mb_world st) of
        (SysErr e, w) \<Rightarrow> (- 1, st\<lparr>mb_world := w, mb_errno := e, mb_s := - 1\<rparr>)
      | (SysOk fd, w) \<Rightarrow>
          (case modbus_sk_connect io (st\<lparr>mb_world := w, mb_s := fd\<rparr>) of
             (rc, st') \<Rightarrow>
               if rc = - 1 then (- 1, st'\<lparr>mb_world := sk_close io (mb_s st') (mb_world st'), mb_s := - 1\<rparr>)
               else (0, st')))"

definition modbus_tcp_close :: "'w sock_ops \<Rightarrow> 'w mbs \<Rightarrow> 'w mbs" where
  "modbus_tcp_close io st =
     (if mb_s st \<noteq> - 1
      then st\<lparr>mb_world := sk_close io (mb_s st) (mb_world st), mb_s := - 1\<rparr> else st)"

partial_function (option) modbus_tcp_flush_loop ::
  "'w sock_ops \<Rightarrow> int \<Rightarrow> 'w mbs \<Rightarrow> (int \<times> 'w mbs) option" where
  "modbus_tcp_flush_loop io rc_sum st =
     (case sk_recv io (mb_s st) 260 True (mb_world st) of
        (SysErr e, w) \<Rightarrow> Some (rc_sum, st\<lparr>mb_world := w, mb_errno := e\<rparr>)
      | (SysOk bs, w) \<Rightarrow>
          (if length bs = 260 then modbus_tcp_flush_loop io (rc_sum + 260) (st\<lparr>mb_world := w\<rparr>)
           else Some (rc_sum + int (length bs), st\<lparr>mb_world := w\<rparr>)))"

definition modbus_tcp_flush :: "'w sock_ops \<Rightarrow> 'w mbs \<Rightarrow> (int \<times> 'w mbs) option" where
  "modbus_tcp_flush io st = modbus_tcp_flush_loop io 0 st"

partial_function (option) modbus_tcp_select ::
  "'w sock_ops \<Rightarrow> 'w mbs \<Rightarrow> timeval option \<Rightarrow> (int \<times> 'w mbs) option" where
  "modbus_tcp_select io st tv =
     (case sk_select_read io (mb_s st) tv (mb_world st) of
        (SysErr e, w) \<Rightarrow>
          (if e = EINTR then modbus_tcp_select io (st\<lparr>mb_world := w, mb_errno := e\<rparr>) tv
           else Some (- 1, st\<lparr>mb_world := w, mb_errno := e\<rparr>))
      | (SysOk n, w) \<Rightarrow>
          (if n = 0 then Some (- 1, st\<lparr>mb_world := w, mb_errno := ETIMEDOUT\<rparr>)
           else Some (int n, st\<lparr>mb_world := w\<rparr>)))"

definition modbus_tcp_backend :: "'w modbus_backend" where
  "modbus_tcp_backend = \<lparr>
     header_length = 7, checksum_length = 0, max_adu_length = 260,
     be_set_slave = modbus_tcp_set_slave,
     be_build_request_basis = modbus_tcp_build_request_basis,
     be_build_response_basis = modbus_tcp_build_response_basis,
     be_prepare_response_tid = modbus_tcp_prepare_response_tid,
     be_send_msg_pre = modbus_tcp_send_msg_pre,
     be_send = modbus_tcp_send,
     be_recv = modbus_tcp_recv,
     be_check_integrity = modbus_tcp_check_integrity,
     be_pre_check_confirmation = modbus_tcp_pre_check_confirmation,
     be_connect = modbus_tcp_connect,
     be_close = modbus_tcp_close,
     be_flush = modbus_tcp_flush,
     be_select = modbus_tcp_select\<rparr>"

lemma modbus_tcp_backend_simps [simp]:
  "header_length modbus_tcp_backend = 7"
  "checksum_length modbus_tcp_backend = 0"
  "max_adu_length modbus_tcp_backend = 260"
  "be_set_slave modbus_tcp_backend = modbus_tcp_set_slave"
  "be_build_request_basis modbus_tcp_backend = modbus_tcp_build_request_basis"
  "be_build_response_basis modbus_tcp_backend = modbus_tcp_build_response_basis"
  "be_prepare_response_tid modbus_tcp_backend = modbus_tcp_prepare_response_tid"
  "be_send_msg_pre modbus_tcp_backend = modbus_tcp_send_msg_pre"
  "be_send modbus_tcp_backend = modbus_tcp_send"
  "be_recv modbus_tcp_backend = modbus_tcp_recv"
  "be_check_integrity modbus_tcp_backend = modbus_tcp_check_integrity"
  "be_pre_check_confirmation modbus_tcp_backend = modbus_tcp_pre_check_confirmation"
  "be_connect modbus_tcp_backend = modbus_tcp_connect"
  "be_close modbus_tcp_backend = modbus_tcp_close"
  "be_flush modbus_tcp_backend = modbus_tcp_flush"
  "be_select modbus_tcp_backend = modbus_tcp_select"
  by (simp_all add: modbus_tcp_backend_def)

end
