(* ===== verification/Modbus_Msg.thy ===== *)
theory Modbus_Msg
  imports Modbus_Core
begin

text \<open>
  \<open>packages/libmodbus-latest/src/modbus.c\<close>, the part client and server share: the lengths of
  messages, sending with the optional link recovery, receiving a message in three steps
  (function code, meta information, data), and checking a confirmation against its request.
  The functions are parameterised by the backend, as the C code is through \<open>ctx->backend\<close>.
\<close>

section \<open>Connection management\<close>

definition modbus_connect :: "'w modbus_backend \<Rightarrow> 'w sock_ops \<Rightarrow> 'w mbs \<Rightarrow> int \<times> 'w mbs" where
  "modbus_connect be io st =
     (if mb_null st then (- 1, st\<lparr>mb_errno := EINVAL\<rparr>) else be_connect be io st)"

definition modbus_close :: "'w modbus_backend \<Rightarrow> 'w sock_ops \<Rightarrow> 'w mbs \<Rightarrow> 'w mbs" where
  "modbus_close be io st = (if mb_null st then st else be_close be io st)"

definition modbus_flush :: "'w modbus_backend \<Rightarrow> 'w sock_ops \<Rightarrow> 'w mbs \<Rightarrow> (int \<times> 'w mbs) option" where
  "modbus_flush be io st =
     (if mb_null st then Some (- 1, st\<lparr>mb_errno := EINVAL\<rparr>) else be_flush be io st)"

definition sleep_response_timeout :: "'w sock_ops \<Rightarrow> 'w mbs \<Rightarrow> 'w mbs" where
  "sleep_response_timeout io st =
     st\<lparr>mb_world := sk_mdelay io (fst (mb_response_timeout st) * 1000
                                 + snd (mb_response_timeout st) div 1000) (mb_world st)\<rparr>"

text \<open>The two flags of \<open>ctx->error_recovery\<close>.\<close>

definition recovery_link :: "'w mbs \<Rightarrow> bool" where
  "recovery_link st \<longleftrightarrow> mb_error_recovery st AND MODBUS_ERROR_RECOVERY_LINK \<noteq> 0"

definition recovery_protocol :: "'w mbs \<Rightarrow> bool" where
  "recovery_protocol st \<longleftrightarrow> mb_error_recovery st AND MODBUS_ERROR_RECOVERY_PROTOCOL \<noteq> 0"

section \<open>Lengths\<close>

definition compute_response_length_from_request :: "'w modbus_backend \<Rightarrow> u8 list \<Rightarrow> int option" where
  "compute_response_length_from_request be req =
     (let offset = header_length be in
      do { f \<leftarrow> rd req offset;
           let function = uint f;
           let whole = (\<lambda>n. int offset + n + int (checksum_length be));
           if function \<in> {FC_READ_COILS, FC_READ_DISCRETE_INPUTS} then
             do { nb \<leftarrow> rd16 req (offset + 3);
                  Some (whole (2 + nb div 8 + (if nb mod 8 \<noteq> 0 then 1 else 0))) }
           else if function \<in> {FC_WRITE_AND_READ_REGISTERS, FC_READ_HOLDING_REGISTERS,
                               FC_READ_INPUT_REGISTERS} then
             do { nb \<leftarrow> rd16 req (offset + 3); Some (whole (2 + 2 * nb)) }
           else if function = FC_READ_EXCEPTION_STATUS then Some (whole 3)
           else if function = FC_REPORT_SLAVE_ID then Some MSG_LENGTH_UNDEFINED
           else if function = FC_MASK_WRITE_REGISTER then Some (whole 7)
           else Some (whole 5) })"

definition compute_meta_length_after_function :: "int \<Rightarrow> msg_type \<Rightarrow> int" where
  "compute_meta_length_after_function function msg_type =
     (if msg_type = MSG_INDICATION then
        (if function \<le> FC_WRITE_SINGLE_REGISTER then 4
         else if function = FC_WRITE_MULTIPLE_COILS \<or> function = FC_WRITE_MULTIPLE_REGISTERS then 5
         else if function = FC_MASK_WRITE_REGISTER then 6
         else if function = FC_WRITE_AND_READ_REGISTERS then 9
         else 0)
      else
        (if function \<in> {FC_WRITE_SINGLE_COIL, FC_WRITE_SINGLE_REGISTER,
                        FC_WRITE_MULTIPLE_COILS, FC_WRITE_MULTIPLE_REGISTERS} then 4
         else if function = FC_MASK_WRITE_REGISTER then 6
         else 1))"

definition compute_data_length_after_meta ::
  "'w modbus_backend \<Rightarrow> u8 list \<Rightarrow> msg_type \<Rightarrow> int option" where
  "compute_data_length_after_meta be msg msg_type =
     do { f \<leftarrow> rd msg (header_length be);
          let function = uint f;
          n \<leftarrow>
            (if msg_type = MSG_INDICATION then
               (if function \<in> {FC_WRITE_MULTIPLE_COILS, FC_WRITE_MULTIPLE_REGISTERS}
                then map_option uint (rd msg (header_length be + 5))
                else if function = FC_WRITE_AND_READ_REGISTERS
                then map_option uint (rd msg (header_length be + 9))
                else Some 0)
             else
               (if function \<le> FC_READ_INPUT_REGISTERS \<or> function = FC_REPORT_SLAVE_ID \<or>
                   function = FC_WRITE_AND_READ_REGISTERS
                then map_option uint (rd msg (header_length be + 1))
                else Some 0));
          Some (n + int (checksum_length be)) }"

section \<open>Sending\<close>

partial_function (option) send_msg_loop ::
  "'w modbus_backend \<Rightarrow> 'w sock_ops \<Rightarrow> u8 list \<Rightarrow> 'w mbs \<Rightarrow> (int \<times> 'w mbs) option" where
  "send_msg_loop be io msg st =
     (case be_send be io st msg of
        (rc, st) \<Rightarrow>
          (if rc = - 1 \<and> recovery_link st then
             (let saved_errno = mb_errno st in
              do { st \<leftarrow> (if saved_errno = EBADF \<or> saved_errno = ECONNRESET \<or> saved_errno = EPIPE
                          then Some (snd (modbus_connect be io
                                 (sleep_response_timeout io (modbus_close be io st))))
                          else map_option snd (modbus_flush be io (sleep_response_timeout io st)));
                   send_msg_loop be io msg (st\<lparr>mb_errno := saved_errno\<rparr>) })
           else Some (rc, st)))"

definition send_msg ::
  "'w modbus_backend \<Rightarrow> 'w sock_ops \<Rightarrow> u8 list \<Rightarrow> 'w mbs \<Rightarrow> (int \<times> 'w mbs) option" where
  "send_msg be io msg st =
     do { msg \<leftarrow> be_send_msg_pre be msg;
          (rc, st) \<leftarrow> send_msg_loop be io msg st;
          if rc > 0 \<and> rc \<noteq> int (length msg) then Some (- 1, st\<lparr>mb_errno := EMBBADDATA\<rparr>)
          else Some (rc, st) }"

definition modbus_send_raw_request ::
  "'w modbus_backend \<Rightarrow> 'w sock_ops \<Rightarrow> u8 list \<Rightarrow> int \<Rightarrow> 'w mbs \<Rightarrow> (int \<times> 'w mbs) option" where
  "modbus_send_raw_request be io raw_req raw_req_length st =
     (if mb_null st then Some (- 1, st\<lparr>mb_errno := EINVAL\<rparr>)
      else if raw_req_length < 2 \<or> raw_req_length > 253 + 1 then Some (- 1, st\<lparr>mb_errno := EINVAL\<rparr>)
      else do { slave \<leftarrow> rd raw_req 0; function \<leftarrow> rd raw_req 1;
                let req = be_build_response_basis be
                      \<lparr>sft_slave = uint slave, sft_function = uint function, sft_t_id = 0\<rparr>;
                req \<leftarrow> (if raw_req_length > 2
                        then do { d \<leftarrow> rd_n raw_req 2 (nat raw_req_length - 2);
                                  append_buf MAX_MESSAGE_LENGTH req d }
                        else Some req);
                send_msg be io req st })"

section \<open>Receiving\<close>

text \<open>
  What to do when a step is complete: the next step, the bytes to read for it, or the error
  \<open>EMBBADDATA\<close> (\<open>None\<close> inside) when the message would exceed the backend's ADU. The fall
  through from the first to the second case of the C switch is the \<open>0\<close> case.
\<close>

definition receive_after_meta ::
  "'w modbus_backend \<Rightarrow> msg_type \<Rightarrow> u8 list \<Rightarrow> (step_t \<times> int) option option" where
  "receive_after_meta be msg_type msg =
     do { n \<leftarrow> compute_data_length_after_meta be msg msg_type;
          Some (if int (length msg) + n > int (max_adu_length be) then None
                else Some (STEP_DATA, n)) }"

definition receive_next_step ::
  "'w modbus_backend \<Rightarrow> msg_type \<Rightarrow> step_t \<Rightarrow> u8 list \<Rightarrow> (step_t \<times> int) option option" where
  "receive_next_step be msg_type step msg =
     (case step of
        STEP_FUNCTION \<Rightarrow>
          do { f \<leftarrow> rd msg (header_length be);
               let n = compute_meta_length_after_function (uint f) msg_type;
               if n \<noteq> 0 then Some (Some (STEP_META, n)) else receive_after_meta be msg_type msg }
      | STEP_META \<Rightarrow> receive_after_meta be msg_type msg
      | STEP_DATA \<Rightarrow> Some (Some (STEP_DATA, 0)))"

text \<open>\<open>select\<close> failed: with link recovery, flush after a timeout, reconnect a bad socket.\<close>

definition receive_select_failed ::
  "'w modbus_backend \<Rightarrow> 'w sock_ops \<Rightarrow> 'w mbs \<Rightarrow> 'w mbs option" where
  "receive_select_failed be io st =
     (if recovery_link st then
        (let saved_errno = mb_errno st in
         do { st \<leftarrow> (if saved_errno = ETIMEDOUT
                     then map_option snd (modbus_flush be io (sleep_response_timeout io st))
                     else if saved_errno = EBADF
                     then Some (snd (modbus_connect be io (modbus_close be io st)))
                     else Some st);
              Some (st\<lparr>mb_errno := saved_errno\<rparr>) })
      else Some st)"

definition receive_read_failed :: "'w modbus_backend \<Rightarrow> 'w sock_ops \<Rightarrow> 'w mbs \<Rightarrow> 'w mbs" where
  "receive_read_failed be io st =
     (let saved_errno = mb_errno st in
      if recovery_link st \<and>
         (saved_errno = ECONNRESET \<or> saved_errno = ECONNREFUSED \<or> saved_errno = EBADF)
      then (snd (modbus_connect be io (modbus_close be io st)))\<lparr>mb_errno := saved_errno\<rparr>
      else st)"

text \<open>
  The loop of \<open>_modbus_receive_msg\<close>. \<open>msg\<close> holds the bytes received so far; the array they are
  stored in has \<open>MAX_MESSAGE_LENGTH\<close> bytes, and storing past its end is undefined.
\<close>

partial_function (option) receive_msg_loop ::
  "'w modbus_backend \<Rightarrow> 'w sock_ops \<Rightarrow> msg_type \<Rightarrow> u8 list \<Rightarrow> step_t \<Rightarrow> int \<Rightarrow> timeval option \<Rightarrow>
   'w mbs \<Rightarrow> (int \<times> u8 list \<times> 'w mbs) option" where
  "receive_msg_loop be io msg_type msg step length_to_read p_tv st =
     (if length_to_read = 0 then
        (case be_check_integrity be st msg of (rc, st) \<Rightarrow> Some (rc, msg, st))
      else
        do { (rc, st) \<leftarrow> be_select be io st p_tv;
             if rc = - 1 then do { st \<leftarrow> receive_select_failed be io st; Some (- 1, msg, st) }
             else
               (case be_recv be io st length_to_read of
                  (rc, bs, st) \<Rightarrow>
                    let (rc, st) = (if rc = 0 then (- 1, st\<lparr>mb_errno := ECONNRESET\<rparr>) else (rc, st)) in
                    if rc = - 1 then Some (- 1, msg, receive_read_failed be io st)
                    else
                      do { msg \<leftarrow> append_buf MAX_MESSAGE_LENGTH msg bs;
                           next \<leftarrow> (if length_to_read - rc = 0
                                    then receive_next_step be msg_type step msg
                                    else Some (Some (step, length_to_read - rc)));
                           case next of
                             None \<Rightarrow> Some (- 1, msg, st\<lparr>mb_errno := EMBBADDATA\<rparr>)
                           | Some (step, n) \<Rightarrow>
                               receive_msg_loop be io msg_type msg step n
                                 (if n > 0 \<and> (fst (mb_byte_timeout st) > 0 \<or> snd (mb_byte_timeout st) > 0)
                                  then Some (mb_byte_timeout st) else p_tv) st }) })"

definition modbus_receive_msg ::
  "'w modbus_backend \<Rightarrow> 'w sock_ops \<Rightarrow> msg_type \<Rightarrow> 'w mbs \<Rightarrow> (int \<times> u8 list \<times> 'w mbs) option" where
  "modbus_receive_msg be io msg_type st =
     receive_msg_loop be io msg_type [] STEP_FUNCTION (int (header_length be) + 1)
       (if msg_type = MSG_INDICATION then None else Some (mb_response_timeout st)) st"

definition modbus_receive ::
  "'w modbus_backend \<Rightarrow> 'w sock_ops \<Rightarrow> 'w mbs \<Rightarrow> (int \<times> u8 list \<times> 'w mbs) option" where
  "modbus_receive be io st =
     (if mb_null st then Some (- 1, [], st\<lparr>mb_errno := EINVAL\<rparr>)
      else modbus_receive_msg be io MSG_INDICATION st)"

definition modbus_receive_confirmation ::
  "'w modbus_backend \<Rightarrow> 'w sock_ops \<Rightarrow> 'w mbs \<Rightarrow> (int \<times> u8 list \<times> 'w mbs) option" where
  "modbus_receive_confirmation be io st =
     (if mb_null st then Some (- 1, [], st\<lparr>mb_errno := EINVAL\<rparr>)
      else modbus_receive_msg be io MSG_CONFIRMATION st)"

section \<open>Matching a confirmation with its request\<close>

text \<open>The recovery that \<open>check_confirmation\<close> runs before it reports a protocol error.\<close>

definition recover_protocol :: "'w modbus_backend \<Rightarrow> 'w sock_ops \<Rightarrow> 'w mbs \<Rightarrow> 'w mbs option" where
  "recover_protocol be io st =
     (if recovery_protocol st
      then map_option snd (modbus_flush be io (sleep_response_timeout io st)) else Some st)"

text \<open>The numbers of values that request and response announce, by function code.\<close>

definition confirmation_quantities ::
  "'w modbus_backend \<Rightarrow> int \<Rightarrow> u8 list \<Rightarrow> u8 list \<Rightarrow> (int \<times> int) option" where
  "confirmation_quantities be function req rsp =
     (let offset = header_length be in
      if function \<in> {FC_READ_COILS, FC_READ_DISCRETE_INPUTS} then
        do { nb \<leftarrow> rd16 req (offset + 3); r \<leftarrow> rd rsp (offset + 1);
             Some (nb div 8 + (if nb mod 8 \<noteq> 0 then 1 else 0), uint r) }
      else if function \<in> {FC_WRITE_AND_READ_REGISTERS, FC_READ_HOLDING_REGISTERS,
                          FC_READ_INPUT_REGISTERS} then
        do { nb \<leftarrow> rd16 req (offset + 3); r \<leftarrow> rd rsp (offset + 1); Some (nb, uint r div 2) }
      else if function \<in> {FC_WRITE_MULTIPLE_COILS, FC_WRITE_MULTIPLE_REGISTERS} then
        do { nb \<leftarrow> rd16 req (offset + 3); r \<leftarrow> rd16 rsp (offset + 3); Some (nb, r) }
      else if function = FC_REPORT_SLAVE_ID then
        do { r \<leftarrow> rd rsp (offset + 1); Some (uint r, uint r) }
      else Some (1, 1))"

definition check_confirmation ::
  "'w modbus_backend \<Rightarrow> 'w sock_ops \<Rightarrow> u8 list \<Rightarrow> u8 list \<Rightarrow> int \<Rightarrow> 'w mbs \<Rightarrow> (int \<times> 'w mbs) option" where
  "check_confirmation be io req rsp rsp_length st =
     (let offset = header_length be;
          bad_data = (\<lambda>st. do { st \<leftarrow> recover_protocol be io st;
                               Some (- 1, st\<lparr>mb_errno := EMBBADDATA\<rparr>) }) in
      do { f \<leftarrow> rd rsp offset;
           let function = uint f;
           (rc, st) \<leftarrow> be_pre_check_confirmation be st req rsp;
           if rc = - 1 then do { st \<leftarrow> recover_protocol be io st; Some (- 1, st) }
           else
             do { rsp_length_computed \<leftarrow> compute_response_length_from_request be req;
                  req_f \<leftarrow> rd req offset;
                  if function \<ge> 0x80 then
                    (if rsp_length = int offset + 2 + int (checksum_length be) \<and>
                        uint req_f = function - 0x80
                     then do { e \<leftarrow> rd rsp (offset + 1);
                               Some (- 1, st\<lparr>mb_errno := if uint e < MODBUS_EXCEPTION_MAX
                                                        then EMB (uint e) else EMBBADEXC\<rparr>) }
                     else Some (- 1, st\<lparr>mb_errno := EMBBADEXC\<rparr>))
                  else if rsp_length = rsp_length_computed \<or>
                          rsp_length_computed = MSG_LENGTH_UNDEFINED then
                    (if function \<noteq> uint req_f then bad_data st
                     else do { (req_nb_value, rsp_nb_value) \<leftarrow>
                                 confirmation_quantities be function req rsp;
                               if req_nb_value = rsp_nb_value then Some (rsp_nb_value, st)
                               else bad_data st })
                  else bad_data st } })"


section \<open>What a backend promises\<close>

text \<open>The configuration of a context: everything but the socket, \<open>errno\<close> and the world.\<close>

definition same_config :: "'w mbs \<Rightarrow> 'w mbs \<Rightarrow> bool" where
  "same_config st st' \<longleftrightarrow>
     mb_null st' = mb_null st \<and> mb_slave st' = mb_slave st \<and>
     mb_error_recovery st' = mb_error_recovery st \<and>
     mb_response_timeout st' = mb_response_timeout st \<and> mb_byte_timeout st' = mb_byte_timeout st \<and>
     tcp_domain st' = tcp_domain st \<and> tcp_ip st' = tcp_ip st \<and> tcp_port st' = tcp_port st \<and>
     tcp_t_id st' = tcp_t_id st"

lemma same_config_refl [simp]: "same_config st st"
  by (simp add: same_config_def)

lemma same_config_trans [trans]: "same_config a b \<Longrightarrow> same_config b c \<Longrightarrow> same_config a c"
  by (simp add: same_config_def)

lemma same_config_upd [simp]:
  "same_config st (st'\<lparr>mb_errno := e\<rparr>) = same_config st st'"
  "same_config st (st'\<lparr>mb_world := w\<rparr>) = same_config st st'"
  "same_config st (st'\<lparr>mb_s := i\<rparr>) = same_config st st'"
  by (auto simp: same_config_def)

text \<open>A message is complete when its length is what its own function code and counts announce.\<close>

definition msg_complete :: "'w modbus_backend \<Rightarrow> msg_type \<Rightarrow> u8 list \<Rightarrow> bool" where
  "msg_complete be ty msg \<longleftrightarrow>
     header_length be < length msg \<and> length msg \<le> max_adu_length be \<and>
     (\<exists>n. compute_data_length_after_meta be msg ty = Some n \<and>
        int (length msg) = int (header_length be) + 1
          + compute_meta_length_after_function (uint (msg ! header_length be)) ty + n)"

text \<open>The loop invariant of \<open>_modbus_receive_msg\<close>, step by step.\<close>

definition receive_inv :: "'w modbus_backend \<Rightarrow> msg_type \<Rightarrow> u8 list \<Rightarrow> step_t \<Rightarrow> int \<Rightarrow> bool" where
  "receive_inv be ty msg step n \<longleftrightarrow> 0 \<le> n \<and>
     (case step of
        STEP_FUNCTION \<Rightarrow> 0 < n \<and> int (length msg) + n = int (header_length be) + 1
      | STEP_META \<Rightarrow> 0 < n \<and> header_length be < length msg \<and>
          int (length msg) + n = int (header_length be) + 1
            + compute_meta_length_after_function (uint (msg ! header_length be)) ty
      | STEP_DATA \<Rightarrow> header_length be < length msg \<and>
          int (length msg) + n \<le> int (max_adu_length be) \<and>
          (\<exists>k. compute_data_length_after_meta be msg ty = Some k \<and>
             int (length msg) + n = int (header_length be) + 1
               + compute_meta_length_after_function (uint (msg ! header_length be)) ty + k))"

text \<open>What decreases in the receive loop: the step, then the bytes left to read in it.\<close>

definition receive_rank :: "step_t \<Rightarrow> int \<Rightarrow> nat" where
  "receive_rank step n =
     (case step of STEP_FUNCTION \<Rightarrow> 600 | STEP_META \<Rightarrow> 300 | STEP_DATA \<Rightarrow> 0) + nat n"

lemma meta_length_range: "0 \<le> compute_meta_length_after_function f ty"
    "compute_meta_length_after_function f ty \<le> 9"
  by (auto simp: compute_meta_length_after_function_def)

lemma meta_length_confirmation: "1 \<le> compute_meta_length_after_function f MSG_CONFIRMATION"
  by (auto simp: compute_meta_length_after_function_def)

lemma data_length_append:
  assumes "compute_data_length_after_meta be msg ty = Some n"
  shows "compute_data_length_after_meta be (msg @ bs) ty = Some n"
  using assms
  by (auto simp: compute_data_length_after_meta_def rd_def nth_append Let_def
      split: if_splits Option.bind_splits)

lemma data_length_nonneg: "compute_data_length_after_meta be msg ty = Some n \<Longrightarrow> 0 \<le> n"
  by (auto simp: compute_data_length_after_meta_def Let_def split: if_splits Option.bind_splits)

text \<open>Once the meta information is there, the announced data length can be read.\<close>

lemma data_length_defined:
  assumes "header_length be < length msg"
    and "int (length msg) = int (header_length be) + 1
           + compute_meta_length_after_function (uint (msg ! header_length be)) ty"
  shows "\<exists>n. compute_data_length_after_meta be msg ty = Some n"
  using assms
  by (cases ty)
     (auto simp: compute_data_length_after_meta_def compute_meta_length_after_function_def
       rd_def Let_def split: if_splits)

text \<open>
  The interface \<open>_modbus_receive_msg\<close> relies on: the sizes of the backend, that waiting for
  data returns, that a read delivers between one and the requested number of bytes, and that
  none of it touches the configuration.
\<close>

locale modbus_receiver =
  fixes be :: "'w modbus_backend"
  assumes adu_room: "header_length be + 10 \<le> max_adu_length be"
    and adu_buffer: "max_adu_length be \<le> MAX_MESSAGE_LENGTH"
    and select_returns: "sock_ok io \<Longrightarrow>
          \<exists>rc st'. be_select be io st tv = Some (rc, st') \<and> same_config st st'"
    and recv_bounded: "sock_ok io \<Longrightarrow> be_recv be io st n = (rc, bs, st') \<Longrightarrow> 0 < n \<Longrightarrow>
          (rc = - 1 \<or> (rc = int (length bs) \<and> rc \<le> n)) \<and> same_config st st'"
    and integrity_bounded: "be_check_integrity be st msg = (rc, st') \<Longrightarrow>
          (rc = - 1 \<or> rc = int (length msg)) \<and> same_config st st'"
begin

lemma receive_next_step_inv:
  assumes inv: "receive_inv be ty msg step n" and bs: "int (length bs) = n" "0 < n"
  obtains "receive_next_step be ty step (msg @ bs) = Some None"
    | step' n' where "receive_next_step be ty step (msg @ bs) = Some (Some (step', n'))"
      "receive_inv be ty (msg @ bs) step' n'" "step = STEP_DATA \<longrightarrow> step' = STEP_DATA \<and> n' = 0"
      "step = STEP_META \<longrightarrow> step' = STEP_DATA" "step = STEP_FUNCTION \<longrightarrow> step' \<noteq> STEP_FUNCTION"
proof -
  let ?msg = "msg @ bs"
  let ?meta = "compute_meta_length_after_function (uint (?msg ! header_length be)) ty"
  have after_meta: "receive_after_meta be ty ?msg = Some None \<or>
      (\<exists>k. receive_after_meta be ty ?msg = Some (Some (STEP_DATA, k)) \<and> receive_inv be ty ?msg STEP_DATA k)"
    if h: "header_length be < length ?msg"
      and m: "int (length ?msg) = int (header_length be) + 1 + ?meta"
  proof -
    obtain k where k: "compute_data_length_after_meta be ?msg ty = Some k"
      using data_length_defined [OF h m] by blast
    with data_length_nonneg [OF k] h m show ?thesis
      by (auto simp: receive_after_meta_def receive_inv_def)
  qed
  show ?thesis
  proof (cases step)
    case STEP_FUNCTION
    with inv bs have len: "header_length be < length ?msg"
      "int (length ?msg) = int (header_length be) + 1"
      by (auto simp: receive_inv_def)
    have "receive_next_step be ty step ?msg =
        (if ?meta \<noteq> 0 then Some (Some (STEP_META, ?meta)) else receive_after_meta be ty ?msg)"
      using STEP_FUNCTION len(1) by (simp add: receive_next_step_def rd_def Let_def)
    then show ?thesis
      using after_meta len meta_length_range(1) [of "uint (?msg ! header_length be)" ty] STEP_FUNCTION that
      by (cases "?meta = 0") (auto simp: receive_inv_def)
  next
    case STEP_META
    with inv bs have len: "header_length be < length ?msg"
      "int (length ?msg) = int (header_length be) + 1 + ?meta"
      by (auto simp: receive_inv_def nth_append)
    from STEP_META have "receive_next_step be ty step ?msg = receive_after_meta be ty ?msg"
      by (simp add: receive_next_step_def)
    then show ?thesis
      using after_meta [OF len] STEP_META that by auto
  next
    case STEP_DATA
    with inv bs have "receive_inv be ty ?msg STEP_DATA 0"
      by (auto simp: receive_inv_def nth_append dest: data_length_append)
    then show ?thesis
      using STEP_DATA that by (simp add: receive_next_step_def)
  qed
qed

lemma receive_inv_bound:
  assumes "receive_inv be ty msg step n"
  shows "int (length msg) + n \<le> int (max_adu_length be)" "n \<le> 260" "0 \<le> n"
proof -
  note meta_length_range(2) [of "uint (msg ! header_length be)" ty]
  then show "int (length msg) + n \<le> int (max_adu_length be)"
    using assms adu_room by (auto simp: receive_inv_def split: step_t.splits)
  then show "n \<le> 260" using adu_buffer by simp
  show "0 \<le> n" using assms by (simp add: receive_inv_def)
qed

lemma receive_inv_done:
  "receive_inv be ty msg step 0 \<Longrightarrow> msg_complete be ty msg"
  by (auto simp: receive_inv_def msg_complete_def split: step_t.splits)

lemma receive_inv_partial:
  assumes "receive_inv be ty msg step n" "int (length bs) < n"
  shows "receive_inv be ty (msg @ bs) step (n - int (length bs))"
  using assms by (auto simp: receive_inv_def nth_append dest: data_length_append split: step_t.splits)

text \<open>One turn of the loop: it fails, or it goes on with a smaller rank.\<close>

lemma receive_msg_turn:
  assumes io: "sock_ok io" and inv: "receive_inv be ty msg step n" and n: "0 < n"
    and nolink: "\<not> recovery_link st"
  obtains (fails) msg' st' where "receive_msg_loop be io ty msg step n tv st = Some (- 1, msg', st')"
      "same_config st st'"
    | (goes_on) msg' step' k tv' st' where
      "receive_msg_loop be io ty msg step n tv st = receive_msg_loop be io ty msg' step' k tv' st'"
      "receive_inv be ty msg' step' k" "same_config st st'"
      "receive_rank step' k < receive_rank step n"
proof -
  obtain src st1 where sel: "be_select be io st tv = Some (src, st1)" "same_config st st1"
    using select_returns [OF io, of st tv] by blast
  obtain rc bs st2 where rcv: "be_recv be io st1 n = (rc, bs, st2)"
    by (cases "be_recv be io st1 n")
  note rb = recv_bounded [OF io rcv n]
  have cfg: "same_config st st2" using sel(2) rb same_config_trans by blast
  have nl: "\<not> recovery_link st1" "\<not> recovery_link st2"
    using nolink sel(2) cfg by (auto simp: recovery_link_def same_config_def)
  show thesis
  proof (cases "src = - 1 \<or> rc = - 1 \<or> rc = 0")
    case True
    have "\<exists>st'. receive_msg_loop be io ty msg step n tv st = Some (- 1, msg, st') \<and> same_config st st'"
      using n sel cfg nl rcv True
      by (subst receive_msg_loop.simps)
         (auto simp: receive_select_failed_def receive_read_failed_def recovery_link_def Let_def)
    then show thesis using fails by blast
  next
    case ok: False
    then have rc: "rc = int (length bs)" "0 < rc" "rc \<le> n" using rb by auto
    have room: "append_buf MAX_MESSAGE_LENGTH msg bs = Some (msg @ bs)"
      using rc receive_inv_bound(1) [OF inv] adu_buffer by (simp add: append_buf_def)
    define tv' where "tv' k = (if k > 0 \<and> (fst (mb_byte_timeout st2) > 0 \<or> snd (mb_byte_timeout st2) > 0)
        then Some (mb_byte_timeout st2) else tv)" for k :: int
    have unf: "receive_msg_loop be io ty msg step n tv st =
        (do { next \<leftarrow> (if n - rc = 0 then receive_next_step be ty step (msg @ bs)
                       else Some (Some (step, n - rc)));
              case next of None \<Rightarrow> Some (- 1, msg @ bs, st2\<lparr>mb_errno := EMBBADDATA\<rparr>)
           | Some (step', k) \<Rightarrow> receive_msg_loop be io ty (msg @ bs) step' k (tv' k) st2 })"
      using n sel(1) rcv ok room unfolding tv'_def
      by (subst receive_msg_loop.simps) (simp add: Let_def)
    show thesis
    proof (cases "n = rc")
      case False
      then have "receive_inv be ty (msg @ bs) step (n - rc)"
        using receive_inv_partial [OF inv] rc by simp
      then show thesis
        using goes_on unf cfg False rc by (auto simp: receive_rank_def)
    next
      case True
      then have len: "int (length bs) = n" using rc by simp
      from inv len n show thesis
      proof (cases rule: receive_next_step_inv)
        case 1
        then show thesis using fails unf cfg True by simp
      next
        case (2 step' k)
        have "receive_rank step' k < receive_rank step n"
          using 2(3-5) receive_inv_bound(2) [OF 2(2)] n
          by (cases step; cases step') (auto simp: receive_rank_def)
        then show thesis using goes_on unf cfg 2(1,2) True by simp
      qed
    qed
  qed
qed

text \<open>
  Without link recovery the loop returns, stays inside the message buffer, and what it reports
  as received is a complete message.
\<close>

lemma receive_msg_loop_total:
  assumes io: "sock_ok io"
  shows "receive_inv be ty msg step n \<Longrightarrow> \<not> recovery_link st \<Longrightarrow>
    \<exists>rc msg' st'. receive_msg_loop be io ty msg step n tv st = Some (rc, msg', st') \<and>
      same_config st st' \<and> (rc = - 1 \<or> rc = int (length msg') \<and> msg_complete be ty msg')"
proof (induction "receive_rank step n" arbitrary: msg step n tv st rule: less_induct)
  case less
  note inv = less.prems(1) and nolink = less.prems(2)
  show ?case
  proof (cases "n = 0")
    case True
    obtain rc st' where "be_check_integrity be st msg = (rc, st')"
      by (cases "be_check_integrity be st msg")
    with True integrity_bounded [OF this] receive_inv_done inv show ?thesis
      by (subst receive_msg_loop.simps) auto
  next
    case False
    then have "0 < n" using receive_inv_bound(3) [OF inv] by simp
    from io inv this nolink show ?thesis
    proof (cases rule: receive_msg_turn [where tv = tv])
      case (fails msg' st')
      then show ?thesis by blast
    next
      case (goes_on msg' step' k tv' st')
      then have "\<not> recovery_link st'"
        using nolink by (simp add: recovery_link_def same_config_def)
      from less.hyps [OF goes_on(4,2) this, of tv'] goes_on(1,3) same_config_trans show ?thesis
        by auto blast+
    qed
  qed
qed

lemma modbus_receive_msg_total:
  assumes "sock_ok io" and "\<not> recovery_link st"
  shows "\<exists>rc msg st'. modbus_receive_msg be io ty st = Some (rc, msg, st') \<and>
    same_config st st' \<and> (rc = - 1 \<or> rc = int (length msg) \<and> msg_complete be ty msg)"
proof -
  have "receive_inv be ty [] STEP_FUNCTION (int (header_length be) + 1)"
    by (simp add: receive_inv_def)
  from receive_msg_loop_total [OF assms(1) this assms(2)] show ?thesis
    unfolding modbus_receive_msg_def by blast
qed

end


section \<open>The TCP backend keeps the promise\<close>

lemma modbus_tcp_select_returns:
  assumes "sock_ok io"
  shows "\<exists>rc st'. modbus_tcp_select io st tv = Some (rc, st') \<and> same_config st st'"
  by (subst modbus_tcp_select.simps)
     (auto simp: sock_ok_select [OF assms] split: prod.split sysres.split)

lemma modbus_tcp_recv_bounded:
  assumes "sock_ok io" "modbus_tcp_recv io st n = (rc, bs, st')" "0 < n"
  shows "(rc = - 1 \<or> (rc = int (length bs) \<and> rc \<le> n)) \<and> same_config st st'"
  using assms(2,3) sock_ok_recv [OF assms(1)]
  by (fastforce simp: modbus_tcp_recv_def split: prod.splits sysres.splits)

interpretation tcp_receiver: modbus_receiver modbus_tcp_backend
proof (unfold_locales, goal_cases)
  case (3 io st tv)
  then show ?case using modbus_tcp_select_returns by simp
next
  case (4 io st n rc bs st')
  then show ?case using modbus_tcp_recv_bounded by simp
qed (auto simp: modbus_tcp_check_integrity_def)

end
