(* ===== verification/Modbus_Confirm.thy ===== *)
theory Modbus_Confirm
  imports Modbus_Msg
begin

text \<open>
  Lemmas on \<open>send_msg\<close> and \<open>check_confirmation\<close> over the TCP backend: both return without the
  recovery modes, and an accepted confirmation has the transaction id, the function code, the
  length and the quantity the request asked for.
\<close>

section \<open>Sending without link recovery\<close>

lemma modbus_tcp_send_same_config:
  "modbus_tcp_send io st msg = (rc, st') \<Longrightarrow> same_config st st'"
  by (auto simp: modbus_tcp_send_def split: prod.splits sysres.splits)

lemma recovery_same_config:
  assumes "same_config st st'"
  shows "recovery_link st' = recovery_link st" "recovery_protocol st' = recovery_protocol st"
  using assms by (auto simp: recovery_link_def recovery_protocol_def same_config_def)

lemma send_msg_tcp_returns:
  assumes io: "sock_ok io" and nolink: "\<not> recovery_link st" and len: "6 \<le> length msg"
  shows "\<exists>rc st'. send_msg modbus_tcp_backend io msg st = Some (rc, st') \<and> same_config st st' \<and>
    (rc = - 1 \<or> rc = 0 \<or> rc = int (length msg))"
proof -
  obtain m where m: "modbus_tcp_send_msg_pre msg = Some m" "length m = length msg"
    using len by (auto simp: modbus_tcp_send_msg_pre_def wr_def Let_def)
  obtain rc st' where s: "modbus_tcp_send io st m = (rc, st')"
    by (cases "modbus_tcp_send io st m")
  note cfg = modbus_tcp_send_same_config [OF s]
  have "send_msg_loop modbus_tcp_backend io m st = Some (rc, st')"
    using s recovery_same_config(1) [OF cfg] nolink by (subst send_msg_loop.simps) simp
  then have "send_msg modbus_tcp_backend io msg st =
      (if rc > 0 \<and> rc \<noteq> int (length msg) then Some (- 1, st'\<lparr>mb_errno := EMBBADDATA\<rparr>)
       else Some (rc, st'))"
    using m by (simp add: send_msg_def)
  moreover have "rc = - 1 \<or> 0 \<le> rc"
    using s by (auto simp: modbus_tcp_send_def split: prod.splits sysres.splits)
  ultimately show ?thesis using cfg by auto
qed

section \<open>Checking a confirmation\<close>

lemma recover_protocol_off: "\<not> recovery_protocol st \<Longrightarrow> recover_protocol be io st = Some st"
  by (simp add: recover_protocol_def)

lemma response_length_defined:
  "12 \<le> length req \<or> 8 \<le> length req \<and> uint (req ! 7) = FC_REPORT_SLAVE_ID \<Longrightarrow>
    \<exists>n. compute_response_length_from_request modbus_tcp_backend req = Some n"
  by (auto simp add: compute_response_length_from_request_def rd_def rd16_def Let_def)

lemma msg_complete_confirmation:
  assumes "msg_complete (modbus_tcp_backend :: 'w modbus_backend) MSG_CONFIRMATION rsp"
  shows "9 \<le> length rsp" "length rsp \<le> 260"
proof -
  obtain n where n: "compute_data_length_after_meta (modbus_tcp_backend :: 'w modbus_backend) rsp MSG_CONFIRMATION = Some n"
    "int (length rsp) = 8 + compute_meta_length_after_function (uint (rsp ! 7)) MSG_CONFIRMATION + n"
    using assms unfolding msg_complete_def by (elim conjE exE) (rule that, auto)
  then show "9 \<le> length rsp"
    using data_length_nonneg [OF n(1)] meta_length_confirmation [of "uint (rsp ! 7)"] by linarith
  show "length rsp \<le> 260"
    using assms by (simp add: msg_complete_def)
qed

lemma confirmation_quantities_defined:
  assumes "12 \<le> length req \<or> 8 \<le> length req \<and> uint (req ! 7) = FC_REPORT_SLAVE_ID" "9 \<le> length rsp"
    and "compute_response_length_from_request (modbus_tcp_backend :: 'w modbus_backend) req = Some n"
    and "uint (rsp ! 7) = uint (req ! 7)" and "int (length rsp) = n \<or> n = MSG_LENGTH_UNDEFINED"
  shows "\<exists>a b. confirmation_quantities (modbus_tcp_backend :: 'w modbus_backend) (uint (rsp ! 7)) req rsp = Some (a, b)"
  using assms
  by (auto simp: confirmation_quantities_def compute_response_length_from_request_def
      rd_def rd16_def Let_def split: if_splits)

text \<open>\<open>check_confirmation\<close> over TCP without protocol recovery, as one case distinction.\<close>

lemma check_confirmation_tcp:
  fixes st :: "'w mbs"
  assumes noproto: "\<not> recovery_protocol st"
    and req: "8 \<le> length req" and rsp: "9 \<le> length rsp"
    and n: "compute_response_length_from_request (modbus_tcp_backend :: 'w modbus_backend) req = Some n"
  shows "check_confirmation modbus_tcp_backend io req rsp rlen st =
    (if req ! 0 \<noteq> rsp ! 0 \<or> req ! 1 \<noteq> rsp ! 1 \<or> rsp ! 2 \<noteq> 0 \<and> rsp ! 3 \<noteq> 0
     then Some (- 1, st\<lparr>mb_errno := EMBBADDATA\<rparr>)
     else if uint (rsp ! 7) \<ge> 0x80
     then Some (- 1, st\<lparr>mb_errno :=
            if rlen = 9 \<and> uint (req ! 7) = uint (rsp ! 7) - 0x80 \<and> uint (rsp ! 8) < MODBUS_EXCEPTION_MAX
            then EMB (uint (rsp ! 8)) else EMBBADEXC\<rparr>)
     else if (rlen = n \<or> n = MSG_LENGTH_UNDEFINED) \<and> rsp ! 7 = req ! 7
     then do { (a, b) \<leftarrow> confirmation_quantities (modbus_tcp_backend :: 'w modbus_backend) (uint (rsp ! 7)) req rsp;
               if a = b then Some (b, st) else Some (- 1, st\<lparr>mb_errno := EMBBADDATA\<rparr>) }
     else Some (- 1, st\<lparr>mb_errno := EMBBADDATA\<rparr>))"
proof -
  have off: "recover_protocol modbus_tcp_backend io st = Some st"
    "recover_protocol modbus_tcp_backend io (st\<lparr>mb_errno := e\<rparr>) = Some (st\<lparr>mb_errno := e\<rparr>)" for e
    using noproto by (simp_all add: recover_protocol_def recovery_protocol_def)
  have "req \<noteq> []" "rsp \<noteq> []" using req rsp by auto
  then have acc: "rd req 0 = Some (req ! 0)" "rd req 1 = Some (req ! 1)" "rd req 7 = Some (req ! 7)"
    "rd rsp 0 = Some (rsp ! 0)" "rd rsp 1 = Some (rsp ! 1)" "rd rsp 2 = Some (rsp ! 2)"
    "rd rsp 3 = Some (rsp ! 3)" "rd rsp 7 = Some (rsp ! 7)" "rd rsp 8 = Some (rsp ! 8)"
    using req rsp by (simp_all add: rd_def)
  have pre: "modbus_tcp_pre_check_confirmation st req rsp =
      (if req ! 0 \<noteq> rsp ! 0 \<or> req ! 1 \<noteq> rsp ! 1 \<or> rsp ! 2 \<noteq> 0 \<and> rsp ! 3 \<noteq> 0
       then Some (- 1, st\<lparr>mb_errno := EMBBADDATA\<rparr>) else Some (0, st))"
    using acc by (simp add: modbus_tcp_pre_check_confirmation_def)
  show ?thesis
    by (simp add: check_confirmation_def pre acc n off Let_def word_uint_eq_iff
        cong: if_cong Option.bind_cong)
qed

lemma check_confirmation_returns:
  fixes st :: "'w mbs"
  assumes noproto: "\<not> recovery_protocol st"
    and req: "12 \<le> length req \<or> 8 \<le> length req \<and> uint (req ! 7) = FC_REPORT_SLAVE_ID"
    and rsp: "9 \<le> length rsp"
  shows "\<exists>rc st'. check_confirmation modbus_tcp_backend io req rsp (int (length rsp)) st = Some (rc, st')
    \<and> same_config st st'"
proof -
  obtain n where n: "compute_response_length_from_request (modbus_tcp_backend :: 'w modbus_backend) req = Some n"
    using response_length_defined [OF req] by blast
  have "8 \<le> length req" using req by auto
  note eval = check_confirmation_tcp [OF noproto this rsp n]
  show ?thesis
  proof (cases "uint (rsp ! 7) = uint (req ! 7) \<and> (int (length rsp) = n \<or> n = MSG_LENGTH_UNDEFINED)")
    case True
    then obtain a b where "confirmation_quantities (modbus_tcp_backend :: 'w modbus_backend) (uint (rsp ! 7)) req rsp = Some (a, b)"
      using confirmation_quantities_defined [OF req rsp n] by blast
    with True show ?thesis by (auto simp: eval)
  next
    case False
    then show ?thesis by (auto simp: eval)
  qed
qed

lemma check_confirmation_accepts:
  fixes st :: "'w mbs"
  assumes noproto: "\<not> recovery_protocol st"
    and req: "8 \<le> length req" and rsp: "9 \<le> length rsp"
    and n: "compute_response_length_from_request (modbus_tcp_backend :: 'w modbus_backend) req = Some n"
    and ok: "check_confirmation modbus_tcp_backend io req rsp (int (length rsp)) st = Some (rc, st')"
      "rc \<noteq> - 1"
  shows "rsp ! 0 = req ! 0" "rsp ! 1 = req ! 1" "rsp ! 7 = req ! 7" "uint (rsp ! 7) < 0x80"
    "int (length rsp) = n \<or> n = MSG_LENGTH_UNDEFINED"
    "confirmation_quantities (modbus_tcp_backend :: 'w modbus_backend) (uint (rsp ! 7)) req rsp = Some (rc, rc)"
    "st' = st"
  using ok unfolding check_confirmation_tcp [OF noproto req rsp n]
  by (auto split: if_splits Option.bind_splits)

end
