(* ===== verification/Modbus_Client.thy ===== *)
theory Modbus_Client
  imports Modbus_Confirm "HOL-Library.Signed_Division"
begin

text \<open>
  \<open>packages/libmodbus-latest/src/modbus.c\<close>, the client: the requests \<open>modbus_read_bits\<close>,
  \<open>modbus_read_registers\<close>, \<open>modbus_write_bits\<close> and the rest, and the accessors of the
  context. An array the caller passes is the list of its elements; a request that is given
  more values than its arrays hold has the value \<^const>\<open>None\<close>.
\<close>

section \<open>One exchange\<close>

text \<open>
  What every request does after its message is built: send it, receive the confirmation and
  check it. The response is returned only when it was accepted. \<open>send_msg\<close> writes the length
  into bytes 4 and 5 of the caller's array, which \<open>check_confirmation\<close> does not read.
\<close>

definition exchange :: "'w modbus_backend \<Rightarrow> 'w sock_ops \<Rightarrow> u8 list \<Rightarrow> 'w mbs \<Rightarrow>
    (int \<times> u8 list option \<times> 'w mbs) option" where
  "exchange be io req st =
     do { (rc, st) \<leftarrow> send_msg be io req st;
          if rc > 0 then
            do { (rc, rsp, st) \<leftarrow> modbus_receive_msg be io MSG_CONFIRMATION st;
                 if rc = - 1 then Some (- 1, None, st)
                 else do { (rc, st) \<leftarrow> check_confirmation be io req rsp rc st;
                           Some (rc, if rc = - 1 then None else Some rsp, st) } }
          else Some (rc, None, st) }"

definition MODBUS_MAX_READ_BITS :: int where "MODBUS_MAX_READ_BITS = 2000"
definition MODBUS_MAX_WRITE_BITS :: int where "MODBUS_MAX_WRITE_BITS = 1968"
definition MODBUS_MAX_READ_REGISTERS :: int where "MODBUS_MAX_READ_REGISTERS = 125"
definition MODBUS_MAX_WRITE_REGISTERS :: int where "MODBUS_MAX_WRITE_REGISTERS = 123"
definition MODBUS_MAX_WR_WRITE_REGISTERS :: int where "MODBUS_MAX_WR_WRITE_REGISTERS = 121"
definition MODBUS_MAX_WR_READ_REGISTERS :: int where "MODBUS_MAX_WR_READ_REGISTERS = 125"

lemmas modbus_max_defs [simp] =
  MODBUS_MAX_READ_BITS_def MODBUS_MAX_WRITE_BITS_def MODBUS_MAX_READ_REGISTERS_def
  MODBUS_MAX_WRITE_REGISTERS_def MODBUS_MAX_WR_WRITE_REGISTERS_def MODBUS_MAX_WR_READ_REGISTERS_def

section \<open>Reading\<close>

text \<open>The two loops of \<open>read_io_status\<close>: the bits of a byte, and the bytes of the response.\<close>

function read_status_bits :: "u8 \<Rightarrow> nat \<Rightarrow> nat \<Rightarrow> int \<Rightarrow> u8 list \<Rightarrow> (nat \<times> u8 list) option" where
  "read_status_bits temp k pos nb dest =
     (if k < 8 \<and> int pos < nb then
        do { dest \<leftarrow> wr dest pos (if temp AND push_bit k 1 \<noteq> 0 then 1 else 0);
             read_status_bits temp (k + 1) (pos + 1) nb dest }
      else Some (pos, dest))"
  by pat_completeness auto
termination by (relation "measure (\<lambda>(_, k, _). 8 - k)") auto

declare read_status_bits.simps [simp del]

fun read_status_bytes :: "u8 list \<Rightarrow> nat list \<Rightarrow> nat \<Rightarrow> int \<Rightarrow> u8 list \<Rightarrow> u8 list option" where
  "read_status_bytes rsp [] pos nb dest = Some dest"
| "read_status_bytes rsp (i # is) pos nb dest =
     do { temp \<leftarrow> rd rsp i;
          (pos, dest) \<leftarrow> read_status_bits temp 0 pos nb dest;
          read_status_bytes rsp is pos nb dest }"

definition read_io_status :: "'w modbus_backend \<Rightarrow> 'w sock_ops \<Rightarrow> int \<Rightarrow> int \<Rightarrow> int \<Rightarrow> u8 list \<Rightarrow> 'w mbs \<Rightarrow>
    (int \<times> u8 list \<times> 'w mbs) option" where
  "read_io_status be io function addr nb dest st =
     (case be_build_request_basis be st function addr nb of
        (req, st) \<Rightarrow>
          do { (rc, rsp, st) \<leftarrow> exchange be io req st;
               case rsp of
                 None \<Rightarrow> Some (rc, dest, st)
               | Some rsp \<Rightarrow>
                   let offset = header_length be + 2 in
                   do { dest \<leftarrow> read_status_bytes rsp [offset..<offset + nat rc] 0 nb dest;
                        Some (rc, dest, st) } })"

definition modbus_read_bits :: "'w modbus_backend \<Rightarrow> 'w sock_ops \<Rightarrow> int \<Rightarrow> int \<Rightarrow> u8 list \<Rightarrow> 'w mbs \<Rightarrow>
    (int \<times> u8 list \<times> 'w mbs) option" where
  "modbus_read_bits be io addr nb dest st =
     (if mb_null st then Some (- 1, dest, st\<lparr>mb_errno := EINVAL\<rparr>)
      else if nb > MODBUS_MAX_READ_BITS then Some (- 1, dest, st\<lparr>mb_errno := EMBMDATA\<rparr>)
      else do { (rc, dest, st) \<leftarrow> read_io_status be io FC_READ_COILS addr nb dest st;
                if rc = - 1 then Some (- 1, dest, st) else Some (nb, dest, st) })"

definition modbus_read_input_bits ::
  "'w modbus_backend \<Rightarrow> 'w sock_ops \<Rightarrow> int \<Rightarrow> int \<Rightarrow> u8 list \<Rightarrow> 'w mbs \<Rightarrow>
    (int \<times> u8 list \<times> 'w mbs) option" where
  "modbus_read_input_bits be io addr nb dest st =
     (if mb_null st then Some (- 1, dest, st\<lparr>mb_errno := EINVAL\<rparr>)
      else if nb > MODBUS_MAX_READ_BITS then Some (- 1, dest, st\<lparr>mb_errno := EMBMDATA\<rparr>)
      else do { (rc, dest, st) \<leftarrow> read_io_status be io FC_READ_DISCRETE_INPUTS addr nb dest st;
                if rc = - 1 then Some (- 1, dest, st) else Some (nb, dest, st) })"

text \<open>\<open>dest[i] = (rsp[offset + 2 + (i << 1)] << 8) | rsp[offset + 3 + (i << 1)]\<close>.\<close>

fun read_register_values :: "nat \<Rightarrow> u8 list \<Rightarrow> nat list \<Rightarrow> u16 list \<Rightarrow> u16 list option" where
  "read_register_values offset rsp [] dest = Some dest"
| "read_register_values offset rsp (i # is) dest =
     do { v \<leftarrow> rd16 rsp (offset + 2 + 2 * i);
          dest \<leftarrow> wr dest i (word_of_int v);
          read_register_values offset rsp is dest }"

definition read_registers :: "'w modbus_backend \<Rightarrow> 'w sock_ops \<Rightarrow> int \<Rightarrow> int \<Rightarrow> int \<Rightarrow> u16 list \<Rightarrow> 'w mbs \<Rightarrow>
    (int \<times> u16 list \<times> 'w mbs) option" where
  "read_registers be io function addr nb dest st =
     (if nb > MODBUS_MAX_READ_REGISTERS then Some (- 1, dest, st\<lparr>mb_errno := EMBMDATA\<rparr>)
      else
        (case be_build_request_basis be st function addr nb of
           (req, st) \<Rightarrow>
             do { (rc, rsp, st) \<leftarrow> exchange be io req st;
                  case rsp of
                    None \<Rightarrow> Some (rc, dest, st)
                  | Some rsp \<Rightarrow>
                      do { dest \<leftarrow> read_register_values (header_length be) rsp [0..<nat rc] dest;
                           Some (rc, dest, st) } }))"

definition modbus_read_registers ::
  "'w modbus_backend \<Rightarrow> 'w sock_ops \<Rightarrow> int \<Rightarrow> int \<Rightarrow> u16 list \<Rightarrow> 'w mbs \<Rightarrow>
    (int \<times> u16 list \<times> 'w mbs) option" where
  "modbus_read_registers be io addr nb dest st =
     (if mb_null st then Some (- 1, dest, st\<lparr>mb_errno := EINVAL\<rparr>)
      else if nb > MODBUS_MAX_READ_REGISTERS then Some (- 1, dest, st\<lparr>mb_errno := EMBMDATA\<rparr>)
      else read_registers be io FC_READ_HOLDING_REGISTERS addr nb dest st)"

definition modbus_read_input_registers ::
  "'w modbus_backend \<Rightarrow> 'w sock_ops \<Rightarrow> int \<Rightarrow> int \<Rightarrow> u16 list \<Rightarrow> 'w mbs \<Rightarrow>
    (int \<times> u16 list \<times> 'w mbs) option" where
  "modbus_read_input_registers be io addr nb dest st =
     (if mb_null st then Some (- 1, dest, st\<lparr>mb_errno := EINVAL\<rparr>)
      else if nb > MODBUS_MAX_READ_REGISTERS then Some (- 1, dest, st\<lparr>mb_errno := EMBMDATA\<rparr>)
      else read_registers be io FC_READ_INPUT_REGISTERS addr nb dest st)"

section \<open>Writing\<close>

definition write_single :: "'w modbus_backend \<Rightarrow> 'w sock_ops \<Rightarrow> int \<Rightarrow> int \<Rightarrow> int \<Rightarrow> 'w mbs \<Rightarrow>
    (int \<times> 'w mbs) option" where
  "write_single be io function addr v st =
     (if mb_null st then Some (- 1, st\<lparr>mb_errno := EINVAL\<rparr>)
      else (case be_build_request_basis be st function addr v of
              (req, st) \<Rightarrow> do { (rc, _, st) \<leftarrow> exchange be io req st; Some (rc, st) }))"

definition modbus_write_bit :: "'w modbus_backend \<Rightarrow> 'w sock_ops \<Rightarrow> int \<Rightarrow> int \<Rightarrow> 'w mbs \<Rightarrow>
    (int \<times> 'w mbs) option" where
  "modbus_write_bit be io addr status st =
     (if mb_null st then Some (- 1, st\<lparr>mb_errno := EINVAL\<rparr>)
      else write_single be io FC_WRITE_SINGLE_COIL addr (if status \<noteq> 0 then 0xFF00 else 0) st)"

definition modbus_write_register :: "'w modbus_backend \<Rightarrow> 'w sock_ops \<Rightarrow> int \<Rightarrow> int \<Rightarrow> 'w mbs \<Rightarrow>
    (int \<times> 'w mbs) option" where
  "modbus_write_register be io addr v st =
     (if mb_null st then Some (- 1, st\<lparr>mb_errno := EINVAL\<rparr>)
      else write_single be io FC_WRITE_SINGLE_REGISTER addr v st)"

text \<open>
  The inner loop of \<open>modbus_write_bits\<close>, with its counter \<open>bit_check\<close>, which is incremented
  whenever it is compared; \<open>one\<close> is the byte \<open>req[req_length]\<close> that is being composed.
\<close>

function write_bits_byte :: "u8 list \<Rightarrow> int \<Rightarrow> nat \<Rightarrow> u8 \<Rightarrow> int \<Rightarrow> nat \<Rightarrow> (u8 \<times> int \<times> nat) option" where
  "write_bits_byte src nb k one bit_check pos =
     (if k < 8 then
        (if bit_check < nb then
           do { b \<leftarrow> rd src pos;
                write_bits_byte src nb (k + 1)
                  (if b \<noteq> 0 then one OR push_bit k 1 else one AND NOT (push_bit k 1))
                  (bit_check + 1) (pos + 1) }
         else Some (one, bit_check + 1, pos))
      else Some (one, bit_check, pos))"
  by pat_completeness auto
termination by (relation "measure (\<lambda>(_, _, k, _). 8 - k)") auto

declare write_bits_byte.simps [simp del]

fun write_bits_bytes :: "u8 list \<Rightarrow> int \<Rightarrow> nat \<Rightarrow> int \<Rightarrow> nat \<Rightarrow> u8 list \<Rightarrow> u8 list option" where
  "write_bits_bytes src nb 0 bit_check pos req = Some req"
| "write_bits_bytes src nb (Suc n) bit_check pos req =
     do { (one, bit_check, pos) \<leftarrow> write_bits_byte src nb 0 0 bit_check pos;
          req \<leftarrow> push MAX_MESSAGE_LENGTH req one;
          write_bits_bytes src nb n bit_check pos req }"

definition modbus_write_bits :: "'w modbus_backend \<Rightarrow> 'w sock_ops \<Rightarrow> int \<Rightarrow> int \<Rightarrow> u8 list \<Rightarrow> 'w mbs \<Rightarrow>
    (int \<times> 'w mbs) option" where
  "modbus_write_bits be io addr nb src st =
     (if mb_null st then Some (- 1, st\<lparr>mb_errno := EINVAL\<rparr>)
      else if nb > MODBUS_MAX_WRITE_BITS then Some (- 1, st\<lparr>mb_errno := EMBMDATA\<rparr>)
      else
        (case be_build_request_basis be st FC_WRITE_MULTIPLE_COILS addr nb of
           (req, st) \<Rightarrow>
             let byte_count = nb sdiv 8 + (if nb smod 8 \<noteq> 0 then 1 else 0) in
             do { req \<leftarrow> push MAX_MESSAGE_LENGTH req (byte byte_count);
                  req \<leftarrow> write_bits_bytes src nb (nat byte_count) 0 0 req;
                  (rc, _, st) \<leftarrow> exchange be io req st;
                  Some (rc, st) }))"

text \<open>\<open>req[req_length++] = src[i] >> 8; req[req_length++] = src[i] & 0x00FF;\<close>\<close>

fun put_register_values :: "u16 list \<Rightarrow> nat list \<Rightarrow> u8 list \<Rightarrow> u8 list option" where
  "put_register_values src [] req = Some req"
| "put_register_values src (i # is) req =
     do { v \<leftarrow> rd src i;
          req \<leftarrow> push MAX_MESSAGE_LENGTH req (byte (uint v div 256));
          req \<leftarrow> push MAX_MESSAGE_LENGTH req (byte (uint v));
          put_register_values src is req }"

definition modbus_write_registers ::
  "'w modbus_backend \<Rightarrow> 'w sock_ops \<Rightarrow> int \<Rightarrow> int \<Rightarrow> u16 list \<Rightarrow> 'w mbs \<Rightarrow> (int \<times> 'w mbs) option" where
  "modbus_write_registers be io addr nb src st =
     (if mb_null st then Some (- 1, st\<lparr>mb_errno := EINVAL\<rparr>)
      else if nb > MODBUS_MAX_WRITE_REGISTERS then Some (- 1, st\<lparr>mb_errno := EMBMDATA\<rparr>)
      else
        (case be_build_request_basis be st FC_WRITE_MULTIPLE_REGISTERS addr nb of
           (req, st) \<Rightarrow>
             do { req \<leftarrow> push MAX_MESSAGE_LENGTH req (byte (nb * 2));
                  req \<leftarrow> put_register_values src [0..<nat nb] req;
                  (rc, _, st) \<leftarrow> exchange be io req st;
                  Some (rc, st) }))"

text \<open>
  The array of this request has two bytes more than \<open>_MIN_REQ_LENGTH\<close>. Alone among the requests
  it does not check the context pointer before it follows it.
\<close>

definition modbus_mask_write_register ::
  "'w modbus_backend \<Rightarrow> 'w sock_ops \<Rightarrow> int \<Rightarrow> u16 \<Rightarrow> u16 \<Rightarrow> 'w mbs \<Rightarrow> (int \<times> 'w mbs) option" where
  "modbus_mask_write_register be io addr and_mask or_mask st =
     (if mb_null st then None else case be_build_request_basis be st FC_MASK_WRITE_REGISTER addr 0 of
        (req, st) \<Rightarrow>
          let req = take (length req - 2) req in
          do { req \<leftarrow> append_buf 14 req [byte (uint and_mask div 256), byte (uint and_mask),
                                         byte (uint or_mask div 256), byte (uint or_mask)];
               (rc, _, st) \<leftarrow> exchange be io req st;
               Some (rc, st) })"

definition modbus_write_and_read_registers ::
  "'w modbus_backend \<Rightarrow> 'w sock_ops \<Rightarrow> int \<Rightarrow> int \<Rightarrow> u16 list \<Rightarrow> int \<Rightarrow> int \<Rightarrow> u16 list \<Rightarrow> 'w mbs \<Rightarrow>
    (int \<times> u16 list \<times> 'w mbs) option" where
  "modbus_write_and_read_registers be io write_addr write_nb src read_addr read_nb dest st =
     (if mb_null st then Some (- 1, dest, st\<lparr>mb_errno := EINVAL\<rparr>)
      else if write_nb > MODBUS_MAX_WR_WRITE_REGISTERS then Some (- 1, dest, st\<lparr>mb_errno := EMBMDATA\<rparr>)
      else if read_nb > MODBUS_MAX_WR_READ_REGISTERS then Some (- 1, dest, st\<lparr>mb_errno := EMBMDATA\<rparr>)
      else
        (case be_build_request_basis be st FC_WRITE_AND_READ_REGISTERS read_addr read_nb of
           (req, st) \<Rightarrow>
             do { req \<leftarrow> append_buf MAX_MESSAGE_LENGTH req
                     [byte (write_addr div 256), byte write_addr,
                      byte (write_nb div 256), byte write_nb, byte (write_nb * 2)];
                  req \<leftarrow> put_register_values src [0..<nat write_nb] req;
                  (rc, rsp, st) \<leftarrow> exchange be io req st;
                  case rsp of
                    None \<Rightarrow> Some (rc, dest, st)
                  | Some rsp \<Rightarrow>
                      do { dest \<leftarrow> read_register_values (header_length be) rsp [0..<nat rc] dest;
                           Some (rc, dest, st) } }))"

text \<open>The copy of the slave id stops at the size of the caller's buffer.\<close>

fun copy_slave_id :: "nat \<Rightarrow> u8 list \<Rightarrow> nat list \<Rightarrow> u8 list \<Rightarrow> u8 list option" where
  "copy_slave_id offset rsp [] dest = Some dest"
| "copy_slave_id offset rsp (i # is) dest =
     do { b \<leftarrow> rd rsp (offset + i); dest \<leftarrow> wr dest i b; copy_slave_id offset rsp is dest }"

definition modbus_report_slave_id ::
  "'w modbus_backend \<Rightarrow> 'w sock_ops \<Rightarrow> int \<Rightarrow> u8 list \<Rightarrow> 'w mbs \<Rightarrow> (int \<times> u8 list \<times> 'w mbs) option" where
  "modbus_report_slave_id be io max_dest dest st =
     (if mb_null st \<or> max_dest \<le> 0 then Some (- 1, dest, st\<lparr>mb_errno := EINVAL\<rparr>)
      else
        (case be_build_request_basis be st FC_REPORT_SLAVE_ID 0 0 of
           (req, st) \<Rightarrow>
             let req = take (length req - 4) req in
             do { (rc, rsp, st) \<leftarrow> exchange be io req st;
                  case rsp of
                    None \<Rightarrow> Some (rc, dest, st)
                  | Some rsp \<Rightarrow>
                      do { dest \<leftarrow> copy_slave_id (header_length be + 2) rsp [0..<nat (min rc max_dest)] dest;
                           Some (rc, dest, st) } }))"

section \<open>The context\<close>

definition modbus_init_common :: "'w mbs \<Rightarrow> 'w mbs" where
  "modbus_init_common st =
     st\<lparr>mb_slave := - 1, mb_s := - 1, mb_debug := 0, mb_error_recovery := 0,
        mb_response_timeout := (0, 500000), mb_byte_timeout := (0, 500000)\<rparr>"

definition modbus_set_slave :: "'w modbus_backend \<Rightarrow> 'w mbs \<Rightarrow> int \<Rightarrow> int \<times> 'w mbs" where
  "modbus_set_slave be st slave =
     (if mb_null st then (- 1, st\<lparr>mb_errno := EINVAL\<rparr>) else be_set_slave be st slave)"

definition modbus_set_error_recovery :: "'w mbs \<Rightarrow> u32 \<Rightarrow> int \<times> 'w mbs" where
  "modbus_set_error_recovery st error_recovery =
     (if mb_null st then (- 1, st\<lparr>mb_errno := EINVAL\<rparr>)
      else (0, st\<lparr>mb_error_recovery := uint (ucast error_recovery :: u8)\<rparr>))"

definition modbus_set_socket :: "'w mbs \<Rightarrow> int \<Rightarrow> int \<times> 'w mbs" where
  "modbus_set_socket st s =
     (if mb_null st then (- 1, st\<lparr>mb_errno := EINVAL\<rparr>) else (0, st\<lparr>mb_s := s\<rparr>))"

definition modbus_get_socket :: "'w mbs \<Rightarrow> int \<times> 'w mbs" where
  "modbus_get_socket st =
     (if mb_null st then (- 1, st\<lparr>mb_errno := EINVAL\<rparr>) else (mb_s st, st))"

text \<open>The getters of the timeouts store through the caller's pointers only when they return 0.\<close>

definition modbus_get_response_timeout :: "'w mbs \<Rightarrow> timeval \<Rightarrow> int \<times> timeval \<times> 'w mbs" where
  "modbus_get_response_timeout st to =
     (if mb_null st then (- 1, to, st\<lparr>mb_errno := EINVAL\<rparr>) else (0, mb_response_timeout st, st))"

definition modbus_set_response_timeout :: "'w mbs \<Rightarrow> u32 \<Rightarrow> u32 \<Rightarrow> int \<times> 'w mbs" where
  "modbus_set_response_timeout st to_sec to_usec =
     (if mb_null st \<or> (to_sec = 0 \<and> to_usec = 0) \<or> to_usec > 999999
      then (- 1, st\<lparr>mb_errno := EINVAL\<rparr>)
      else (0, st\<lparr>mb_response_timeout := (to_sec, to_usec)\<rparr>))"

definition modbus_get_byte_timeout :: "'w mbs \<Rightarrow> timeval \<Rightarrow> int \<times> timeval \<times> 'w mbs" where
  "modbus_get_byte_timeout st to =
     (if mb_null st then (- 1, to, st\<lparr>mb_errno := EINVAL\<rparr>) else (0, mb_byte_timeout st, st))"

definition modbus_set_byte_timeout :: "'w mbs \<Rightarrow> u32 \<Rightarrow> u32 \<Rightarrow> int \<times> 'w mbs" where
  "modbus_set_byte_timeout st to_sec to_usec =
     (if mb_null st \<or> to_usec > 999999 then (- 1, st\<lparr>mb_errno := EINVAL\<rparr>)
      else (0, st\<lparr>mb_byte_timeout := (to_sec, to_usec)\<rparr>))"

definition modbus_get_header_length :: "'w modbus_backend \<Rightarrow> 'w mbs \<Rightarrow> int \<times> 'w mbs" where
  "modbus_get_header_length be st =
     (if mb_null st then (- 1, st\<lparr>mb_errno := EINVAL\<rparr>) else (int (header_length be), st))"

definition modbus_set_debug :: "'w mbs \<Rightarrow> int \<Rightarrow> int \<times> 'w mbs" where
  "modbus_set_debug st flag =
     (if mb_null st then (- 1, st\<lparr>mb_errno := EINVAL\<rparr>) else (0, st\<lparr>mb_debug := flag\<rparr>))"

text \<open>
  \<open>strlcpy\<close>: the copying loop (with the bytes left to copy and the position of \<open>s\<close> and \<open>d\<close>,
  which move together), then the loop that walks to the end of the source.
\<close>

function strlcpy_copy :: "u8 list \<Rightarrow> u8 list \<Rightarrow> nat \<Rightarrow> nat \<Rightarrow> (u8 list \<times> nat \<times> nat) option" where
  "strlcpy_copy dest src i n =
     do { c \<leftarrow> rd src i;
          dest \<leftarrow> wr dest i c;
          if c = 0 then Some (dest, i + 1, n)
          else if n - 1 = 0 then Some (dest, i + 1, 0)
          else strlcpy_copy dest src (i + 1) (n - 1) }"
  by pat_completeness auto
termination by (relation "measure (\<lambda>(_, src, i, _). length src - i)") (auto simp: rd_def split: if_splits)

function strlcpy_scan :: "u8 list \<Rightarrow> nat \<Rightarrow> nat option" where
  "strlcpy_scan src i =
     do { c \<leftarrow> rd src i; if c = 0 then Some (i + 1) else strlcpy_scan src (i + 1) }"
  by pat_completeness auto
termination by (relation "measure (\<lambda>(src, i). length src - i)") (auto simp: rd_def split: if_splits)

declare strlcpy_copy.simps [simp del] strlcpy_scan.simps [simp del]

definition strlcpy :: "u8 list \<Rightarrow> u8 list \<Rightarrow> nat \<Rightarrow> (nat \<times> u8 list) option" where
  "strlcpy dest src dest_size =
     do { (dest, s, n) \<leftarrow>
            (if dest_size \<noteq> 0 \<and> dest_size - 1 \<noteq> 0 then strlcpy_copy dest src 0 (dest_size - 1)
             else Some (dest, 0, 0));
          (dest, s) \<leftarrow>
            (if n = 0 then
               do { dest \<leftarrow> (if dest_size \<noteq> 0 then wr dest s 0 else Some dest);
                    s \<leftarrow> strlcpy_scan src s;
                    Some (dest, s) }
             else Some (dest, s));
          Some (s - 1, dest) }"

text \<open>
  \<open>modbus_new_tcp\<close>: the two allocations are not checked, so a failing one is undefined. The
  array for the address starts with whatever the memory held (\<open>tcp_ip\<close> of the given state);
  a \<open>NULL\<close> address stores the character \<open>'0'\<close> and no terminator. \<open>None\<close> inside is the
  \<open>NULL\<close> result.
\<close>

definition modbus_new_tcp :: "bool \<Rightarrow> bool \<Rightarrow> 'w mbs \<Rightarrow> u8 list option \<Rightarrow> int \<Rightarrow> int \<Rightarrow>
    (bool \<times> 'w mbs) option" where
  "modbus_new_tcp malloc_ctx malloc_tcp st ip port domain =
     (if \<not> malloc_ctx \<or> \<not> malloc_tcp then None
      else
        let st = (modbus_init_common st)\<lparr>mb_null := False, mb_slave := MODBUS_TCP_SLAVE, tcp_domain := domain\<rparr>
        in
        do { (ok, st) \<leftarrow>
               (case ip of
                  Some ip \<Rightarrow>
                    do { (ret_size, d) \<leftarrow> strlcpy (tcp_ip st) ip 16;
                         if ret_size = 0 then Some (False, st\<lparr>mb_null := True, mb_errno := EINVAL\<rparr>)
                         else if ret_size \<ge> 16 then Some (False, st\<lparr>mb_null := True, mb_errno := EINVAL\<rparr>)
                         else Some (True, st\<lparr>tcp_ip := d\<rparr>) }
                | None \<Rightarrow> do { d \<leftarrow> wr (tcp_ip st) 0 48; Some (True, st\<lparr>tcp_ip := d\<rparr>) });
             if ok then Some (True, st\<lparr>tcp_port := port, tcp_t_id := 0\<rparr>) else Some (False, st) })"

section \<open>What the copying loops compute\<close>

text \<open>The 16-bit value of register \<open>i\<close> in a message whose values start at \<open>offset\<close>.\<close>

definition register_at :: "nat \<Rightarrow> u8 list \<Rightarrow> nat \<Rightarrow> u16" where
  "register_at offset msg i = word_of_int (be16 (msg ! (offset + 2 * i)) (msg ! (offset + 2 * i + 1)))"

lemma fill_step: "i < length dest \<Longrightarrow> take (Suc i) (dest[i := v]) = take i dest @ [v]"
  by (simp add: take_Suc_conv_app_nth)

lemma read_register_values_spec:
  assumes "k + n \<le> length dest" and "offset + 2 + 2 * (k + n) \<le> length rsp"
  shows "read_register_values offset rsp [k..<k + n] dest =
    Some (take k dest @ map (register_at (offset + 2) rsp) [k..<k + n] @ drop (k + n) dest)"
  using assms
proof (induction n arbitrary: dest k)
  case 0
  then show ?case by simp
next
  case (Suc n)
  let ?d = "dest[k := register_at (offset + 2) rsp k]"
  have "read_register_values offset rsp [k..<k + Suc n] dest =
      read_register_values offset rsp [Suc k..<Suc k + n] ?d"
    using Suc.prems by (subst upt_conv_Cons) (auto simp: rd16_Some wr_def register_at_def)
  also have "\<dots> = Some (take (Suc k) ?d @ map (register_at (offset + 2) rsp) [Suc k..<Suc k + n]
      @ drop (Suc k + n) ?d)"
    by (rule Suc.IH) (use Suc.prems in auto)
  finally show ?case
    using Suc.prems unfolding map_upt_Suc by (simp add: fill_step)
qed

text \<open>The bytes that carry a list of registers, and reading them back.\<close>

definition reg_bytes :: "u16 list \<Rightarrow> u8 list" where
  "reg_bytes vs = concat (map (\<lambda>v. [byte (uint v div 256), byte (uint v)]) vs)"

lemma length_reg_bytes [simp]: "length (reg_bytes vs) = 2 * length vs"
  by (induction vs) (auto simp: reg_bytes_def)

lemma reg_bytes_nth:
  "i < length vs \<Longrightarrow> reg_bytes vs ! (2 * i) = byte (uint (vs ! i) div 256)"
  "i < length vs \<Longrightarrow> reg_bytes vs ! Suc (2 * i) = byte (uint (vs ! i))"
  by (induction vs arbitrary: i) (auto simp: reg_bytes_def nth_Cons split: nat.splits)

lemma register_at_reg_bytes:
  assumes "i < length vs" and "length pre = offset"
  shows "register_at offset (pre @ reg_bytes vs @ post) i = vs ! i"
proof -
  have "uint (vs ! i) < 65536" using uint_lt2p [of "vs ! i"] by simp
  then show ?thesis
    using assms by (simp add: register_at_def nth_append reg_bytes_nth be16_byte)
qed

lemma put_register_values_spec:
  assumes "k + n \<le> length src" and "length req + 2 * n \<le> 260"
  shows "put_register_values src [k..<k + n] req = Some (req @ reg_bytes (take n (drop k src)))"
  using assms
proof (induction n arbitrary: req k)
  case 0
  then show ?case by (simp add: reg_bytes_def)
next
  case (Suc n)
  have "drop k src = src ! k # drop (Suc k) src"
    using Suc.prems by (simp add: Cons_nth_drop_Suc)
  moreover have "put_register_values src [k..<k + Suc n] req =
      put_register_values src [Suc k..<Suc k + n] (req @ reg_bytes [src ! k])"
    using Suc.prems by (subst upt_conv_Cons) (auto simp: rd_def push_def reg_bytes_def)
  moreover have "\<dots> = Some ((req @ reg_bytes [src ! k]) @ reg_bytes (take n (drop (Suc k) src)))"
    by (rule Suc.IH) (use Suc.prems in auto)
  ultimately show ?case by (simp add: reg_bytes_def)
qed

text \<open>The status bits: byte \<open>b\<close> of the data fills the places from \<open>8 b\<close> on.\<close>

lemma read_status_bits_spec:
  assumes "k + m \<le> 8" and "m = 0 \<or> int (pos + m) \<le> nb" and "k + m = 8 \<or> nb \<le> int (pos + m)"
    and "pos + m \<le> length dest"
  shows "read_status_bits temp k pos nb dest =
    Some (pos + m, take pos dest @ map (\<lambda>j. if bit temp (k + j) then 1 else 0) [0..<m] @ drop (pos + m) dest)"
  using assms
proof (induction m arbitrary: k pos dest)
  case 0
  then have "\<not> (k < 8 \<and> int pos < nb)" by auto
  then show ?case by (subst read_status_bits.simps, subst if_not_P) auto
next
  case (Suc m)
  let ?d = "dest[pos := if bit temp k then 1 else 0]"
  have "k < 8" "int pos < nb" using Suc.prems by auto
  then have "read_status_bits temp k pos nb dest = read_status_bits temp (Suc k) (Suc pos) nb ?d"
    using Suc.prems
    by (subst read_status_bits.simps, unfold and_push_bit_neq_0_iff) (simp add: wr_def)
  also have "\<dots> = Some (Suc pos + m, take (Suc pos) ?d
      @ map (\<lambda>j. if bit temp (Suc k + j) then 1 else 0) [0..<m] @ drop (Suc pos + m) ?d)"
    by (rule Suc.IH) (use Suc.prems in auto)
  also have "take (Suc pos) ?d = take pos dest @ [if bit temp k then 1 else 0]"
    using Suc.prems by (simp add: fill_step)
  finally show ?case
    by (simp add: List.map_upt_Suc del: upt_Suc)
qed

lemma read_status_bytes_spec:
  assumes "b + n = B" and "N \<le> 8 * B" and "N \<le> length dest" and "off + B \<le> length rsp"
    and "p \<le> 8 * b" and "p \<le> N" and "p = 8 * b \<or> p = N"
  shows "read_status_bytes rsp [off + b..<off + B] p (int N) dest =
    Some (take p dest @ map (coil_of (drop off rsp)) [p..<N] @ drop N dest)"
  using assms
proof (induction n arbitrary: b p dest)
  case 0
  then have "p = N" by auto
  with 0 show ?case by simp
next
  case (Suc n)
  let ?t = "rsp ! (off + b)" and ?coils = "coil_of (drop off rsp)"
  define m where "m = (if N - p \<le> 8 then N - p else 8)"
  have m: "m \<le> 8" "p + m \<le> N" "p + m \<le> 8 * Suc b" "p + m = 8 * Suc b \<or> p + m = N" "m = 8 \<or> p + m = N"
    using Suc.prems unfolding m_def by auto
  have coils: "map (\<lambda>j. if bit ?t (0 + j) then 1 else 0) [0..<m] = map ?coils [p..<p + m]"
  proof (rule nth_equalityI)
    fix j assume "j < length (map (\<lambda>j. if bit ?t (0 + j) then 1 else 0) [0..<m])"
    then have j: "j < m" "p = 8 * b" using m Suc.prems(5-7) by auto
    then have "(p + j) div 8 = b" "(p + j) mod 8 = j" using m(1) by auto
    then show "map (\<lambda>j. if bit ?t (0 + j) then 1 else 0) [0..<m] ! j = map ?coils [p..<p + m] ! j"
      using j(1) Suc.prems(1,4) by (simp add: coil_of_def)
  qed simp
  have bits: "read_status_bits ?t 0 p (int N) dest =
      Some (p + m, take p dest @ map ?coils [p..<p + m] @ drop (p + m) dest)" (is "_ = Some (_, ?d)")
    unfolding coils [symmetric] by (rule read_status_bits_spec) (use m Suc.prems(3) in auto)
  have all: "map ?coils [p..<N] = map ?coils [p..<p + m] @ map ?coils [p + m..<N]"
    using m(2) upt_add_eq_append [of p "p + m" "N - (p + m)"] by (simp flip: map_append)
  have "read_status_bytes rsp [off + b..<off + B] p (int N) dest =
      read_status_bytes rsp [off + Suc b..<off + B] (p + m) (int N) ?d"
    using Suc.prems(1,4) bits by (subst upt_conv_Cons) (auto simp: rd_def)
  also have "\<dots> = Some (take (p + m) ?d @ map ?coils [p + m..<N] @ drop N ?d)"
    by (rule Suc.IH) (use Suc.prems m in auto)
  also have "take (p + m) ?d = take p dest @ map ?coils [p..<p + m]"
    using Suc.prems(3) m by simp
  also have "drop N ?d = drop N dest" using Suc.prems(3) m by simp
  finally show ?case unfolding all by simp
qed

text \<open>
  The byte of a coil write request that holds the coils from \<open>base\<close> on: bit \<open>j\<close> is set when
  there is a coil \<open>base + j\<close> and it is on.
\<close>

definition pack_byte :: "u8 list \<Rightarrow> nat \<Rightarrow> nat \<Rightarrow> u8" where
  "pack_byte src n base = horner_sum of_bool 2 (map (\<lambda>j. base + j < n \<and> src ! (base + j) \<noteq> 0) [0..<8])"

lemma bit_pack_byte: "bit (pack_byte src n base) j \<longleftrightarrow> j < 8 \<and> base + j < n \<and> src ! (base + j) \<noteq> 0"
  unfolding pack_byte_def bit_horner_sum_bit_iff by auto

lemma write_bits_byte_spec:
  assumes "k \<le> 8" and "base + k \<le> n" and "n \<le> length src"
    and "\<And>j. bit one j \<longleftrightarrow> j < k \<and> src ! (base + j) \<noteq> 0"
  shows "\<exists>bc p. write_bits_byte src (int n) k one (int (base + k)) (base + k) =
      Some (pack_byte src n base, bc, p) \<and> (base + 8 \<le> n \<longrightarrow> bc = int (base + 8) \<and> p = base + 8)"
  using assms
proof (induction "8 - k" arbitrary: k one)
  case 0
  then have k: "k = 8" by simp
  have "one = pack_byte src n base"
    by (rule bit_eqI) (use 0 k in \<open>auto simp: bit_pack_byte\<close>)
  with k show ?case by (subst write_bits_byte.simps) auto
next
  case (Suc d)
  then have k: "k < 8" by simp
  show ?case
  proof (cases "base + k < n")
    case False
    then have n: "n = base + k" using Suc.prems(2) by simp
    have "one = pack_byte src n base"
      by (rule bit_eqI) (use k in \<open>auto simp: bit_pack_byte Suc.prems(4) n\<close>)
    with False k show ?thesis
      by (subst write_bits_byte.simps) auto
  next
    case True
    let ?one = "if src ! (base + k) \<noteq> 0 then one OR push_bit k 1 else one AND NOT (push_bit k 1)"
    have "write_bits_byte src (int n) k one (int (base + k)) (base + k) =
        write_bits_byte src (int n) (Suc k) ?one (int (base + Suc k)) (base + Suc k)"
      using k True Suc.prems(3) by (subst write_bits_byte.simps) (auto simp: rd_def add.commute)
    moreover have "bit ?one j \<longleftrightarrow> j < Suc k \<and> src ! (base + j) \<noteq> 0" for j
      using k Suc.prems(4) [of j] by (auto simp: bit_simps less_Suc_eq)
    ultimately show ?thesis
      using Suc.hyps(1) [of "Suc k" ?one] Suc.hyps(2) k True Suc.prems(3) by simp
  qed
qed

lemma write_bits_bytes_spec:
  assumes "b + m = B" and "n \<le> 8 * B" and "8 * B < n + 8" and "n \<le> length src" and "length req + m \<le> 260"
  shows "write_bits_bytes src (int n) m (int (8 * b)) (8 * b) req =
    Some (req @ map (\<lambda>i. pack_byte src n (8 * i)) [b..<B])"
  using assms
proof (induction m arbitrary: b req)
  case 0
  then show ?case by simp
next
  case (Suc m)
  obtain bc p where one: "write_bits_byte src (int n) 0 0 (int (8 * b)) (8 * b) =
      Some (pack_byte src n (8 * b), bc, p)" and p: "8 * b + 8 \<le> n \<longrightarrow> bc = int (8 * Suc b) \<and> p = 8 * Suc b"
    using write_bits_byte_spec [of 0 "8 * b" n src 0] Suc.prems by auto
  have step: "write_bits_bytes src (int n) (Suc m) (int (8 * b)) (8 * b) req =
      write_bits_bytes src (int n) m bc p (req @ [pack_byte src n (8 * b)])"
    using one Suc.prems(5) by (simp add: push_def)
  have cons: "[b..<B] = b # [Suc b..<B]" using Suc.prems(1) by (simp add: upt_conv_Cons)
  show ?case
  proof (cases "m = 0")
    case True
    then show ?thesis using step cons Suc.prems(1) by simp
  next
    case False
    then have "8 * b + 8 \<le> n" using Suc.prems(1,3) by auto
    then show ?thesis
      using step cons p Suc.IH [of "Suc b" "req @ [pack_byte src n (8 * b)]"] Suc.prems by simp
  qed
qed

section \<open>Exchanges over TCP\<close>

text \<open>
  A response is acceptable for a request when it is a complete message, carries the request's transaction id and
  function code, has the length the request asked for (or the length is open), and announces
  the same number of values, \<open>rc\<close>. The world type of the backend plays no role in it.
\<close>

definition response_accepted :: "u8 list \<Rightarrow> u8 list \<Rightarrow> int \<Rightarrow> bool" where
  "response_accepted req rsp rc \<longleftrightarrow>
     9 \<le> length rsp \<and> msg_complete (modbus_tcp_backend :: unit modbus_backend) MSG_CONFIRMATION rsp \<and>
     rsp ! 0 = req ! 0 \<and> rsp ! 1 = req ! 1 \<and> rsp ! 7 = req ! 7 \<and> uint (rsp ! 7) < 0x80 \<and>
     (\<exists>n. compute_response_length_from_request (modbus_tcp_backend :: unit modbus_backend) req = Some n \<and>
        (int (length rsp) = n \<or> n = MSG_LENGTH_UNDEFINED)) \<and>
     confirmation_quantities (modbus_tcp_backend :: unit modbus_backend) (uint (rsp ! 7)) req rsp = Some (rc, rc)"

lemma tcp_world_irrelevant:
  "compute_response_length_from_request (modbus_tcp_backend :: 'w modbus_backend) req =
     compute_response_length_from_request (modbus_tcp_backend :: unit modbus_backend) req"
  "confirmation_quantities (modbus_tcp_backend :: 'w modbus_backend) f req rsp =
     confirmation_quantities (modbus_tcp_backend :: unit modbus_backend) f req rsp"
  "msg_complete (modbus_tcp_backend :: 'w modbus_backend) ty rsp =
     msg_complete (modbus_tcp_backend :: unit modbus_backend) ty rsp"
  unfolding compute_response_length_from_request_def confirmation_quantities_def msg_complete_def
    compute_data_length_after_meta_def modbus_tcp_backend_simps by (rule refl)+

text \<open>The modes that can keep a request waiting for ever are off; this is how a context starts.\<close>

definition no_recovery :: "'w mbs \<Rightarrow> bool" where
  "no_recovery st \<longleftrightarrow> \<not> recovery_link st \<and> \<not> recovery_protocol st"

lemma no_recovery_same_config: "same_config st st' \<Longrightarrow> no_recovery st' = no_recovery st"
  by (simp add: no_recovery_def recovery_same_config)

lemma exchange_tcp:
  fixes st :: "'w mbs"
  assumes io: "sock_ok io" and nr: "no_recovery st"
    and req: "12 \<le> length req \<or> 8 \<le> length req \<and> uint (req ! 7) = FC_REPORT_SLAVE_ID"
  shows "\<exists>rc rsp st'. exchange modbus_tcp_backend io req st = Some (rc, rsp, st') \<and> same_config st st' \<and>
    (rsp = None \<and> (rc = - 1 \<or> rc = 0) \<or> (\<exists>r. rsp = Some r \<and> rc \<noteq> - 1 \<and> response_accepted req r rc))"
proof -
  have "6 \<le> length req" using req by auto
  with io nr obtain rc1 st1 where s: "send_msg modbus_tcp_backend io req st = Some (rc1, st1)"
    and c1: "same_config st st1" and rc1: "rc1 = - 1 \<or> rc1 = 0 \<or> rc1 = int (length req)"
    using send_msg_tcp_returns unfolding no_recovery_def by blast
  have nr1: "no_recovery st1" using no_recovery_same_config [OF c1] nr by simp
  obtain rc2 rsp st2 where r: "modbus_receive_msg modbus_tcp_backend io MSG_CONFIRMATION st1 = Some (rc2, rsp, st2)"
    and c2: "same_config st1 st2"
    and rc2: "rc2 = - 1 \<or> rc2 = int (length rsp) \<and>
      msg_complete (modbus_tcp_backend :: 'w modbus_backend) MSG_CONFIRMATION rsp"
    using tcp_receiver.modbus_receive_msg_total [OF io, of st1] nr1 unfolding no_recovery_def by blast
  show ?thesis
  proof (cases "rc1 > 0 \<and> rc2 \<noteq> - 1")
    case False
    then show ?thesis
      using s r rc1 c1 same_config_trans [OF c1 c2] by (auto simp: exchange_def)
  next
    case True
    then have rlen: "rc2 = int (length rsp)" "9 \<le> length rsp"
      and compl: "msg_complete (modbus_tcp_backend :: 'w modbus_backend) MSG_CONFIRMATION rsp"
      using rc2 msg_complete_confirmation(1) by blast+
    have nr2: "\<not> recovery_protocol st2"
      using no_recovery_same_config [OF c2] nr1 unfolding no_recovery_def by simp
    obtain rc3 st3 where k: "check_confirmation modbus_tcp_backend io req rsp (int (length rsp)) st2 = Some (rc3, st3)"
      and c3: "same_config st2 st3"
      using check_confirmation_returns [OF nr2 req rlen(2)] by blast
    obtain n where n: "compute_response_length_from_request (modbus_tcp_backend :: 'w modbus_backend) req = Some n"
      using response_length_defined [OF req] by blast
    have "8 \<le> length req" using req by auto
    from check_confirmation_accepts [OF nr2 this rlen(2) n k] n rlen compl
    have "rc3 \<noteq> - 1 \<Longrightarrow> response_accepted req rsp rc3"
      unfolding response_accepted_def tcp_world_irrelevant [where 'w = 'w] by blast
    then show ?thesis
      using True s r k rlen(1) same_config_trans [OF same_config_trans [OF c1 c2] c3]
      by (auto simp: exchange_def)
  qed
qed

text \<open>What a request keeps: all settings of the context, but not the transaction id.\<close>

definition same_settings :: "'w mbs \<Rightarrow> 'w mbs \<Rightarrow> bool" where
  "same_settings st st' \<longleftrightarrow> same_config st (st'\<lparr>tcp_t_id := tcp_t_id st\<rparr>)"

lemma same_config_settings: "same_config st st' \<Longrightarrow> same_settings st st'"
  by (simp add: same_settings_def same_config_def)

lemma same_settings_trans: "same_settings a b \<Longrightarrow> same_settings b c \<Longrightarrow> same_settings a c"
  by (simp add: same_settings_def same_config_def)

lemma same_settingsD:
  "same_settings st st' \<Longrightarrow> mb_null st' = mb_null st \<and> mb_slave st' = mb_slave st \<and>
     mb_response_timeout st' = mb_response_timeout st \<and> no_recovery st' = no_recovery st"
  by (simp add: same_settings_def same_config_def no_recovery_def recovery_link_def recovery_protocol_def)

text \<open>The request as the TCP backend builds it.\<close>

lemma tcp_request_basis:
  assumes "modbus_tcp_build_request_basis st function addr nb = (req, st')"
  shows "length req = 12" "req ! 7 = byte function" "be16 (req ! 10) (req ! 11) = nb mod 65536"
    "be16 (req ! 8) (req ! 9) = addr mod 65536" "mb_null st' = mb_null st" "no_recovery st' = no_recovery st"
    "same_settings st st'"
proof -
  have split: "be16 (byte (n div 256)) (byte n) = n mod 65536" for n :: int
  proof -
    have "n mod 65536 = n mod (256 * 256)" by simp
    also have "\<dots> = 256 * (n div 256 mod 256) + n mod 256" by (simp only: zmod_zmult2_eq)
    finally show ?thesis by (simp add: be16_def uint_byte)
  qed
  show "length req = 12" "req ! 7 = byte function" "be16 (req ! 10) (req ! 11) = nb mod 65536"
    "be16 (req ! 8) (req ! 9) = addr mod 65536" "mb_null st' = mb_null st" "no_recovery st' = no_recovery st"
    "same_settings st st'"
    using assms
    by (auto simp: modbus_tcp_build_request_basis_def Let_def split no_recovery_def recovery_link_def
        recovery_protocol_def same_settings_def same_config_def)
qed

section \<open>The requests\<close>

text \<open>The length and the count of an accepted response to a read request.\<close>

lemma accepted_registers:
  assumes acc: "response_accepted req rsp rc" and len: "length req = 12"
    and f: "uint (req ! 7) = FC_READ_HOLDING_REGISTERS \<or> uint (req ! 7) = FC_READ_INPUT_REGISTERS"
  shows "rc = be16 (req ! 10) (req ! 11)" "int (length rsp) = 9 + 2 * rc"
proof -
  obtain n where n: "compute_response_length_from_request (modbus_tcp_backend :: unit modbus_backend) req = Some n"
      "int (length rsp) = n \<or> n = - 1" and same: "rsp ! 7 = req ! 7"
    and q: "confirmation_quantities (modbus_tcp_backend :: unit modbus_backend) (uint (req ! 7)) req rsp = Some (rc, rc)"
    using acc unfolding response_accepted_def by auto
  have "n = 9 + 2 * be16 (req ! 10) (req ! 11)"
    using n(1) f len unfolding compute_response_length_from_request_def
    by (auto simp: rd16_Some rd_def Let_def)
  moreover show "rc = be16 (req ! 10) (req ! 11)"
    using q f len unfolding confirmation_quantities_def
    by (auto simp: rd16_Some rd_def Let_def split: Option.bind_splits)
  ultimately show "int (length rsp) = 9 + 2 * rc"
    using n(2) be16_range(1) [of "req ! 10" "req ! 11"] by linarith
qed

text \<open>The number of bytes that hold \<open>nb\<close> bits, as the code computes it.\<close>

lemma bytes_of_bits: "nb div 8 + (if nb mod 8 \<noteq> 0 then 1 else 0) = (nb + 7) div (8 :: int)"
proof -
  define q r where "q = nb div 8" and "r = nb mod 8"
  have "nb = 8 * q + r" "0 \<le> r" "r < 8" unfolding q_def r_def by auto
  then have "(nb + 7) div 8 = q + (if r \<noteq> 0 then 1 else 0)"
    by (intro div_pos_geq int_div_pos_eq [of _ _ _ "if r \<noteq> 0 then r - 1 else 7"]) auto
  then show ?thesis unfolding q_def r_def by simp
qed

lemma bytes_of_bits_c:
  "0 \<le> nb \<Longrightarrow> nb sdiv 8 + (if nb smod 8 \<noteq> 0 then 1 else 0) = (nb + 7) div (8 :: int)"
  unfolding bytes_of_bits [symmetric]
  by (cases "nb = 0") (auto simp: signed_divide_int_def signed_modulo_int_def sgn_if)

lemma accepted_bits:
  assumes acc: "response_accepted req rsp rc" and len: "length req = 12"
    and f: "uint (req ! 7) = FC_READ_COILS \<or> uint (req ! 7) = FC_READ_DISCRETE_INPUTS"
  shows "rc = (be16 (req ! 10) (req ! 11) + 7) div 8" "int (length rsp) = 9 + rc"
proof -
  have bytes: "2 + nb div 8 + (if nb mod 8 \<noteq> 0 then 1 else 0) = 2 + (nb + 7) div 8" for nb :: int
    by (simp only: bytes_of_bits add.assoc)
  obtain n where n: "compute_response_length_from_request (modbus_tcp_backend :: unit modbus_backend) req = Some n"
      "int (length rsp) = n \<or> n = - 1" and same: "rsp ! 7 = req ! 7"
    and q: "confirmation_quantities (modbus_tcp_backend :: unit modbus_backend) (uint (req ! 7)) req rsp = Some (rc, rc)"
    using acc unfolding response_accepted_def by auto
  have "n = 9 + (be16 (req ! 10) (req ! 11) + 7) div 8"
    using n(1) f len unfolding compute_response_length_from_request_def bytes
    by (auto simp: rd16_Some rd_def Let_def)
  moreover show "rc = (be16 (req ! 10) (req ! 11) + 7) div 8"
    using q f len unfolding confirmation_quantities_def bytes_of_bits
    by (auto simp: rd16_Some rd_def Let_def split: Option.bind_splits)
  ultimately show "int (length rsp) = 9 + rc"
    using n(2) be16_range(1) [of "req ! 10" "req ! 11"] by linarith
qed

lemma byte_fc: "0 \<le> f \<Longrightarrow> f < 256 \<Longrightarrow> uint (byte f) = f"
  by (simp add: uint_byte)

text \<open>
  A register read over TCP returns: it fails, or the peer accepted no byte of the request, or
  \<open>dest\<close> holds the values of an accepted response, and exactly the first \<open>nb\<close> places changed.
\<close>

lemma read_registers_tcp:
  assumes io: "sock_ok io" and nr: "no_recovery st" and nb: "0 \<le> nb" "nb \<le> MODBUS_MAX_READ_REGISTERS"
    and dest: "nat nb \<le> length dest"
    and f: "f = FC_READ_HOLDING_REGISTERS \<or> f = FC_READ_INPUT_REGISTERS"
  shows "\<exists>rc dest' st'. read_registers modbus_tcp_backend io f addr nb dest st = Some (rc, dest', st') \<and>
    same_settings st st' \<and>
    (dest' = dest \<and> (rc = - 1 \<or> rc = 0) \<or>
     rc = nb \<and> (\<exists>rsp. response_accepted (fst (modbus_tcp_build_request_basis st f addr nb)) rsp nb \<and>
       dest' = map (register_at 9 rsp) [0..<nat nb] @ drop (nat nb) dest))"
proof -
  obtain req st1 where b: "modbus_tcp_build_request_basis st f addr nb = (req, st1)"
    by (cases "modbus_tcp_build_request_basis st f addr nb")
  note basis = tcp_request_basis [OF b]
  obtain rc rsp st2 where e: "exchange modbus_tcp_backend io req st1 = Some (rc, rsp, st2)"
    and cfg: "same_config st1 st2" and cases: "rsp = None \<and> (rc = - 1 \<or> rc = 0) \<or> (\<exists>r. rsp = Some r \<and> rc \<noteq> - 1 \<and> response_accepted req r rc)"
    using exchange_tcp [OF io, of st1 req] basis nr by auto
  have keep: "same_settings st st2"
    using same_settings_trans [OF basis(7) same_config_settings [OF cfg]] .
  show ?thesis
  proof (cases rsp)
    case None
    then show ?thesis using b e cases nb keep by (auto simp: read_registers_def)
  next
    case (Some r)
    then have acc: "response_accepted req r rc" using cases by simp
    have "uint (req ! 7) = FC_READ_HOLDING_REGISTERS \<or> uint (req ! 7) = FC_READ_INPUT_REGISTERS"
      using f basis(2) by (auto simp: byte_fc)
    from accepted_registers [OF acc basis(1) this] nb basis(3)
    have rc: "rc = nb" "length r = 9 + 2 * nat nb" by auto
    then have "read_register_values 7 r [0..<nat rc] dest =
        Some (map (register_at 9 r) [0..<nat nb] @ drop (nat nb) dest)"
      using read_register_values_spec [of 0 "nat nb" dest 7 r] dest by simp
    then show ?thesis using b e Some acc nb rc(1) keep by (auto simp: read_registers_def)
  qed
qed

lemma read_io_status_tcp:
  assumes io: "sock_ok io" and nr: "no_recovery st" and nb: "0 \<le> nb" "nb \<le> MODBUS_MAX_READ_BITS"
    and dest: "nat nb \<le> length dest"
    and f: "f = FC_READ_COILS \<or> f = FC_READ_DISCRETE_INPUTS"
  shows "\<exists>rc dest' st'. read_io_status modbus_tcp_backend io f addr nb dest st = Some (rc, dest', st') \<and>
    same_settings st st' \<and>
    (dest' = dest \<and> (rc = - 1 \<or> rc = 0) \<or>
     rc = (nb + 7) div 8 \<and> (\<exists>rsp. response_accepted (fst (modbus_tcp_build_request_basis st f addr nb)) rsp rc \<and>
       dest' = map (coil_of (drop 9 rsp)) [0..<nat nb] @ drop (nat nb) dest))"
proof -
  obtain req st1 where b: "modbus_tcp_build_request_basis st f addr nb = (req, st1)"
    by (cases "modbus_tcp_build_request_basis st f addr nb")
  note basis = tcp_request_basis [OF b]
  obtain rc rsp st2 where e: "exchange modbus_tcp_backend io req st1 = Some (rc, rsp, st2)"
    and cfg: "same_config st1 st2" and cases: "rsp = None \<and> (rc = - 1 \<or> rc = 0) \<or> (\<exists>r. rsp = Some r \<and> rc \<noteq> - 1 \<and> response_accepted req r rc)"
    using exchange_tcp [OF io, of st1 req] basis nr by auto
  have keep: "same_settings st st2"
    using same_settings_trans [OF basis(7) same_config_settings [OF cfg]] .
  show ?thesis
  proof (cases rsp)
    case None
    then show ?thesis using b e cases keep by (auto simp: read_io_status_def)
  next
    case (Some r)
    then have acc: "response_accepted req r rc" using cases by simp
    have "uint (req ! 7) = FC_READ_COILS \<or> uint (req ! 7) = FC_READ_DISCRETE_INPUTS"
      using f basis(2) by (auto simp: byte_fc)
    from accepted_bits [OF acc basis(1) this] nb basis(3)
    have rc: "rc = (nb + 7) div 8" "int (length r) = 9 + rc" by auto
    have "nat nb \<le> 8 * nat rc" "9 + nat rc \<le> length r" using rc nb by linarith+
    then have "read_status_bytes r [9..<9 + nat rc] 0 nb dest =
        Some (map (coil_of (drop 9 r)) [0..<nat nb] @ drop (nat nb) dest)"
      using read_status_bytes_spec [of 0 "nat rc" "nat rc" "nat nb" dest 9 r 0] dest nb by simp
    then show ?thesis using b e Some acc rc(1) keep by (auto simp: read_io_status_def)
  qed
qed

text \<open>The message of the multiple-value writes, and their result.\<close>

lemma modbus_write_registers_message:
  assumes "0 \<le> nb" "nb \<le> MODBUS_MAX_WRITE_REGISTERS" "nat nb \<le> length src" "\<not> mb_null st"
    and b: "modbus_tcp_build_request_basis st FC_WRITE_MULTIPLE_REGISTERS addr nb = (req, st')"
  shows "modbus_write_registers modbus_tcp_backend io addr nb src st =
    map_option (\<lambda>(rc, _, st). (rc, st))
      (exchange modbus_tcp_backend io (req @ byte (nb * 2) # reg_bytes (take (nat nb) src)) st')"
proof -
  have "put_register_values src [0..<nat nb] (req @ [byte (nb * 2)]) =
      Some (req @ byte (nb * 2) # reg_bytes (take (nat nb) src))"
    using put_register_values_spec [of 0 "nat nb" src "req @ [byte (nb * 2)]"] tcp_request_basis(1) [OF b] assms
    by simp
  then show ?thesis
    using assms tcp_request_basis(1) [OF b]
    by (simp add: modbus_write_registers_def push_def split_def map_conv_bind_option comp_def)
qed

lemma modbus_write_bits_message:
  assumes "0 \<le> nb" "nb \<le> MODBUS_MAX_WRITE_BITS" "nat nb \<le> length src" "\<not> mb_null st"
    and b: "modbus_tcp_build_request_basis st FC_WRITE_MULTIPLE_COILS addr nb = (req, st')"
  shows "modbus_write_bits modbus_tcp_backend io addr nb src st =
    map_option (\<lambda>(rc, _, st). (rc, st))
      (exchange modbus_tcp_backend io (req @ byte ((nb + 7) div 8) #
         map (\<lambda>i. pack_byte src (nat nb) (8 * i)) [0..<nat ((nb + 7) div 8)]) st')"
proof -
  have bnd: "nat nb \<le> 8 * nat ((nb + 7) div 8)" "8 * nat ((nb + 7) div 8) < nat nb + 8"
    using assms(1) by linarith+
  have "write_bits_bytes src nb (nat ((nb + 7) div 8)) 0 0 (req @ [byte ((nb + 7) div 8)]) =
      Some (req @ byte ((nb + 7) div 8) # map (\<lambda>i. pack_byte src (nat nb) (8 * i)) [0..<nat ((nb + 7) div 8)])"
    using write_bits_bytes_spec [of 0 "nat ((nb + 7) div 8)" _ "nat nb" src "req @ [byte ((nb + 7) div 8)]"]
      bnd tcp_request_basis(1) [OF b] assms by simp
  then show ?thesis
    using assms tcp_request_basis(1) [OF b]
    by (simp add: modbus_write_bits_def bytes_of_bits_c push_def split_def map_conv_bind_option comp_def Let_def)
qed

text \<open>\<open>strlcpy\<close> of a terminated string: the prefix that fits, a terminator, and the full length.\<close>

lemma strlcpy_scan_spec:
  "0 \<notin> set s \<Longrightarrow> i \<le> length s \<Longrightarrow> strlcpy_scan (s @ 0 # t) i = Some (length s + 1)"
proof (induction "length s - i" arbitrary: i)
  case 0
  then show ?case by (subst strlcpy_scan.simps) (simp add: rd_def nth_append)
next
  case (Suc d)
  then have i: "i < length s" by simp
  then have "s ! i \<noteq> 0" using Suc.prems(1) nth_mem by metis
  with i show ?case using Suc by (subst strlcpy_scan.simps) (simp add: rd_def nth_append)
qed

lemma strlcpy_copy_spec:
  assumes "0 \<notin> set s" and "i \<le> length s" and "0 < n" and "i + n < length dest"
  shows "strlcpy_copy dest (s @ 0 # t) i n =
    (if length s < i + n
     then Some (take i dest @ drop i s @ 0 # drop (length s + 1) dest, length s + 1, i + n - length s)
     else Some (take i dest @ take n (drop i s) @ drop (i + n) dest, i + n, 0))"
  using assms
proof (induction n arbitrary: i dest)
  case 0
  then show ?case by simp
next
  case (Suc n)
  show ?case
  proof (cases "i = length s")
    case True
    then show ?thesis
      using Suc.prems by (subst strlcpy_copy.simps) (simp add: rd_def wr_def upd_conv_take_nth_drop)
  next
    case False
    let ?d = "dest[i := s ! i]"
    have i: "i < length s" using False Suc.prems by simp
    then have "s ! i \<noteq> 0" using Suc.prems(1) nth_mem by metis
    note i = i this
    have step: "strlcpy_copy dest (s @ 0 # t) i (Suc n) =
        (if n = 0 then Some (?d, i + 1, 0) else strlcpy_copy ?d (s @ 0 # t) (Suc i) n)"
      using i Suc.prems by (subst strlcpy_copy.simps) (simp add: rd_def wr_def nth_append)
    have d: "drop i s = s ! i # drop (Suc i) s" using i by (simp add: Cons_nth_drop_Suc)
    show ?thesis
    proof (cases "n = 0")
      case True
      then show ?thesis using step i d Suc.prems by (simp add: upd_conv_take_nth_drop)
    next
      case n: False
      then have "strlcpy_copy ?d (s @ 0 # t) (Suc i) n =
          (if length s < Suc i + n
           then Some (take (Suc i) ?d @ drop (Suc i) s @ 0 # drop (length s + 1) ?d, length s + 1, Suc i + n - length s)
           else Some (take (Suc i) ?d @ take n (drop (Suc i) s) @ drop (Suc i + n) ?d, Suc i + n, 0))"
        by (intro Suc.IH) (use i Suc.prems in auto)
      then show ?thesis using step n i d Suc.prems by (auto simp: fill_step)
    qed
  qed
qed

lemma strlcpy_spec:
  assumes "0 \<notin> set s" and "1 < n" and "n \<le> length dest"
  shows "strlcpy dest (s @ 0 # t) n =
    Some (length s, take (n - 1) s @ 0 # drop (min (length s) (n - 1) + 1) dest)"
proof -
  note copy = strlcpy_copy_spec [of s 0 "n - 1" dest t]
  show ?thesis
  proof (cases "length s < n - 1")
    case True
    then show ?thesis using copy assms by (auto simp: strlcpy_def)
  next
    case False
    then have "strlcpy_scan (s @ 0 # t) (n - 1) = Some (length s + 1)"
      using strlcpy_scan_spec assms(1) by auto
    then show ?thesis
      using False copy assms by (simp add: strlcpy_def wr_def upd_conv_take_nth_drop min_def)
  qed
qed

end
