(* ===== verification/Modbus_Server.thy ===== *)
theory Modbus_Server
  imports Modbus_Client
begin

text \<open>
  \<open>packages/libmodbus-latest/src/modbus.c\<close>, the server: the tables of coils and registers
  (\<open>modbus_mapping_t\<close>) and \<open>modbus_reply\<close>, which decodes a request, reads or writes the
  tables and answers. One definition per case of its switch.
\<close>

section \<open>The mapping\<close>

record modbus_mapping =
  nb_bits :: int
  start_bits :: int
  nb_input_bits :: int
  start_input_bits :: int
  nb_input_registers :: int
  start_input_registers :: int
  nb_registers :: int
  start_registers :: int
  tab_bits :: "u8 list"
  tab_input_bits :: "u8 list"
  tab_input_registers :: "u16 list"
  tab_registers :: "u16 list"

text \<open>
  The constructor. \<open>malloc\<close> says of each call, by its number, whether it succeeds for a number
  of bytes (a C \<open>unsigned\<close>, so that the product wraps); an empty table is not allocated, and
  \<^const>\<open>None\<close> is the \<open>NULL\<close> result. The counts are stored in \<open>int\<close> fields.
\<close>

definition alloc_table :: "(u32 \<Rightarrow> bool) \<Rightarrow> u32 \<Rightarrow> u32 \<Rightarrow> 'a::zero list option" where
  "alloc_table malloc n elem_size =
     (if n = 0 then Some [] else if malloc (n * elem_size) then Some (replicate (unat (n * elem_size) div unat elem_size) 0) else None)"

definition modbus_mapping_new_start_address ::
  "(nat \<Rightarrow> u32 \<Rightarrow> bool) \<Rightarrow> u32 \<Rightarrow> u32 \<Rightarrow> u32 \<Rightarrow> u32 \<Rightarrow> u32 \<Rightarrow> u32 \<Rightarrow> u32 \<Rightarrow> u32 \<Rightarrow> modbus_mapping option" where
  "modbus_mapping_new_start_address malloc s_bits n_bits s_in_bits n_in_bits s_regs n_regs s_in_regs n_in_regs =
     (if \<not> malloc 0 48 then None
      else
        do { bits \<leftarrow> alloc_table (malloc 1) n_bits 1;
             in_bits \<leftarrow> alloc_table (malloc 2) n_in_bits 1;
             regs \<leftarrow> alloc_table (malloc 3) n_regs 2;
             in_regs \<leftarrow> alloc_table (malloc 4) n_in_regs 2;
             Some \<lparr>nb_bits = sint n_bits, start_bits = sint s_bits,
                   nb_input_bits = sint n_in_bits, start_input_bits = sint s_in_bits,
                   nb_input_registers = sint n_in_regs, start_input_registers = sint s_in_regs,
                   nb_registers = sint n_regs, start_registers = sint s_regs,
                   tab_bits = bits, tab_input_bits = in_bits,
                   tab_input_registers = in_regs, tab_registers = regs\<rparr> })"

definition modbus_mapping_new ::
  "(nat \<Rightarrow> u32 \<Rightarrow> bool) \<Rightarrow> int \<Rightarrow> int \<Rightarrow> int \<Rightarrow> int \<Rightarrow> modbus_mapping option" where
  "modbus_mapping_new malloc n_bits n_in_bits n_regs n_in_regs =
     modbus_mapping_new_start_address malloc
       0 (word_of_int n_bits) 0 (word_of_int n_in_bits) 0 (word_of_int n_regs) 0 (word_of_int n_in_regs)"

section \<open>Building responses\<close>

text \<open>\<open>response_io_status\<close>: \<open>i\<close> is the position in the table, \<open>one_byte\<close> the byte being filled.\<close>

primrec response_io_status_loop :: "nat \<Rightarrow> u8 list \<Rightarrow> int \<Rightarrow> nat \<Rightarrow> int \<Rightarrow> u8 list \<Rightarrow> u8 list option" where
  "response_io_status_loop 0 tab_io_status i shift one_byte rsp =
     (if shift \<noteq> 0 then push MAX_MESSAGE_LENGTH rsp (byte one_byte) else Some rsp)"
| "response_io_status_loop (Suc n) tab_io_status i shift one_byte rsp =
     do { v \<leftarrow> rdi tab_io_status i;
          let one_byte = one_byte OR push_bit shift (uint v);
          if shift = 7 then
            do { rsp \<leftarrow> push MAX_MESSAGE_LENGTH rsp (byte one_byte);
                 response_io_status_loop n tab_io_status (i + 1) 0 0 rsp }
          else response_io_status_loop n tab_io_status (i + 1) (shift + 1) one_byte rsp }"

definition response_io_status :: "u8 list \<Rightarrow> int \<Rightarrow> int \<Rightarrow> u8 list \<Rightarrow> u8 list option" where
  "response_io_status tab_io_status address nb rsp =
     response_io_status_loop (nat nb) tab_io_status address 0 0 rsp"

definition response_exception :: "'w modbus_backend \<Rightarrow> 'w sock_ops \<Rightarrow> sft \<Rightarrow> int \<Rightarrow> bool \<Rightarrow> 'w mbs \<Rightarrow>
    (u8 list \<times> 'w mbs) option" where
  "response_exception be io sft exception_code to_flush st =
     do { st \<leftarrow> (if to_flush then map_option snd (modbus_flush be io (sleep_response_timeout io st))
                 else Some st);
          rsp \<leftarrow> push MAX_MESSAGE_LENGTH
            (be_build_response_basis be (sft\<lparr>sft_function := sft_function sft + 0x80\<rparr>)) (byte exception_code);
          Some (rsp, st) }"

text \<open>The loops over registers: appending them to a response, and storing them from a request.\<close>

primrec append_registers :: "nat \<Rightarrow> u16 list \<Rightarrow> int \<Rightarrow> u8 list \<Rightarrow> u8 list option" where
  "append_registers 0 tab i rsp = Some rsp"
| "append_registers (Suc n) tab i rsp =
     do { v \<leftarrow> rdi tab i;
          rsp \<leftarrow> push MAX_MESSAGE_LENGTH rsp (byte (uint v div 256));
          rsp \<leftarrow> push MAX_MESSAGE_LENGTH rsp (byte (uint v));
          append_registers n tab (i + 1) rsp }"

primrec store_registers :: "nat \<Rightarrow> u16 list \<Rightarrow> int \<Rightarrow> u8 list \<Rightarrow> nat \<Rightarrow> u16 list option" where
  "store_registers 0 tab i req j = Some tab"
| "store_registers (Suc n) tab i req j =
     do { v \<leftarrow> rd16 req j;
          tab \<leftarrow> wri tab i (word_of_int v);
          store_registers n tab (i + 1) req (j + 2) }"

text \<open>\<open>memcpy(rsp, req, req_length)\<close>, and the copy of four bytes of the request.\<close>

definition echo_request :: "u8 list \<Rightarrow> int \<Rightarrow> u8 list option" where
  "echo_request req req_length =
     do { d \<leftarrow> rd_n req 0 (nat req_length); append_buf MAX_MESSAGE_LENGTH [] d }"

definition echo_address_quantity :: "u8 list \<Rightarrow> u8 list \<Rightarrow> u8 list option" where
  "echo_address_quantity rsp req =
     do { d \<leftarrow> rd_n req (length rsp) 4; append_buf MAX_MESSAGE_LENGTH rsp d }"

section \<open>The cases of the reply\<close>

text \<open>A case yields the response and the changed tables. \<open>ADDR\<close>, \<open>VAL\<close>, \<open>FUN\<close> name exceptions.\<close>

definition reply_exception :: "'w modbus_backend \<Rightarrow> 'w sock_ops \<Rightarrow> sft \<Rightarrow> int \<Rightarrow> bool \<Rightarrow> modbus_mapping \<Rightarrow>
    'w mbs \<Rightarrow> (u8 list \<times> modbus_mapping \<times> 'w mbs) option" where
  "reply_exception be io sft code to_flush mapping st =
     do { (rsp, st) \<leftarrow> response_exception be io sft code to_flush st; Some (rsp, mapping, st) }"

definition reply_read_bits :: "'w modbus_backend \<Rightarrow> 'w sock_ops \<Rightarrow> u8 list \<Rightarrow> sft \<Rightarrow> modbus_mapping \<Rightarrow>
    'w mbs \<Rightarrow> (u8 list \<times> modbus_mapping \<times> 'w mbs) option" where
  "reply_read_bits be io req sft mapping st =
     (let is_input = (sft_function sft = FC_READ_DISCRETE_INPUTS);
          start = (if is_input then start_input_bits mapping else start_bits mapping);
          nb_tab = (if is_input then nb_input_bits mapping else nb_bits mapping);
          tab = (if is_input then tab_input_bits mapping else tab_bits mapping) in
      do { address \<leftarrow> rd16 req (header_length be + 1);
           nb \<leftarrow> rd16 req (header_length be + 3);
           let mapping_address = address - start;
           if nb < 1 \<or> MODBUS_MAX_READ_BITS < nb
           then reply_exception be io sft MODBUS_EXCEPTION_ILLEGAL_DATA_VALUE True mapping st
           else if mapping_address < 0 \<or> mapping_address + nb > nb_tab
           then reply_exception be io sft MODBUS_EXCEPTION_ILLEGAL_DATA_ADDRESS False mapping st
           else do { rsp \<leftarrow> push MAX_MESSAGE_LENGTH (be_build_response_basis be sft)
                            (byte (nb div 8 + (if nb mod 8 \<noteq> 0 then 1 else 0)));
                     rsp \<leftarrow> response_io_status tab mapping_address nb rsp;
                     Some (rsp, mapping, st) } })"

definition reply_read_registers :: "'w modbus_backend \<Rightarrow> 'w sock_ops \<Rightarrow> u8 list \<Rightarrow> sft \<Rightarrow> modbus_mapping \<Rightarrow>
    'w mbs \<Rightarrow> (u8 list \<times> modbus_mapping \<times> 'w mbs) option" where
  "reply_read_registers be io req sft mapping st =
     (let is_input = (sft_function sft = FC_READ_INPUT_REGISTERS);
          start = (if is_input then start_input_registers mapping else start_registers mapping);
          nb_tab = (if is_input then nb_input_registers mapping else nb_registers mapping);
          tab = (if is_input then tab_input_registers mapping else tab_registers mapping) in
      do { address \<leftarrow> rd16 req (header_length be + 1);
           nb \<leftarrow> rd16 req (header_length be + 3);
           let mapping_address = address - start;
           if nb < 1 \<or> MODBUS_MAX_READ_REGISTERS < nb
           then reply_exception be io sft MODBUS_EXCEPTION_ILLEGAL_DATA_VALUE True mapping st
           else if mapping_address < 0 \<or> mapping_address + nb > nb_tab
           then reply_exception be io sft MODBUS_EXCEPTION_ILLEGAL_DATA_ADDRESS False mapping st
           else do { rsp \<leftarrow> push MAX_MESSAGE_LENGTH (be_build_response_basis be sft) (byte (nb * 2));
                     rsp \<leftarrow> append_registers (nat nb) tab mapping_address rsp;
                     Some (rsp, mapping, st) } })"

definition reply_write_coil :: "'w modbus_backend \<Rightarrow> 'w sock_ops \<Rightarrow> u8 list \<Rightarrow> int \<Rightarrow> sft \<Rightarrow> modbus_mapping \<Rightarrow>
    'w mbs \<Rightarrow> (u8 list \<times> modbus_mapping \<times> 'w mbs) option" where
  "reply_write_coil be io req req_length sft mapping st =
     do { address \<leftarrow> rd16 req (header_length be + 1);
          let mapping_address = address - start_bits mapping;
          if mapping_address < 0 \<or> mapping_address \<ge> nb_bits mapping
          then reply_exception be io sft MODBUS_EXCEPTION_ILLEGAL_DATA_ADDRESS False mapping st
          else do { data \<leftarrow> rd16 req (header_length be + 3);
                    if data = 0xFF00 \<or> data = 0
                    then do { tab \<leftarrow> wri (tab_bits mapping) mapping_address (if data \<noteq> 0 then 1 else 0);
                              rsp \<leftarrow> echo_request req req_length;
                              Some (rsp, mapping\<lparr>tab_bits := tab\<rparr>, st) }
                    else reply_exception be io sft MODBUS_EXCEPTION_ILLEGAL_DATA_VALUE False mapping st } }"

definition reply_write_register :: "'w modbus_backend \<Rightarrow> 'w sock_ops \<Rightarrow> u8 list \<Rightarrow> int \<Rightarrow> sft \<Rightarrow> modbus_mapping \<Rightarrow>
    'w mbs \<Rightarrow> (u8 list \<times> modbus_mapping \<times> 'w mbs) option" where
  "reply_write_register be io req req_length sft mapping st =
     do { address \<leftarrow> rd16 req (header_length be + 1);
          let mapping_address = address - start_registers mapping;
          if mapping_address < 0 \<or> mapping_address \<ge> nb_registers mapping
          then reply_exception be io sft MODBUS_EXCEPTION_ILLEGAL_DATA_ADDRESS False mapping st
          else do { data \<leftarrow> rd16 req (header_length be + 3);
                    tab \<leftarrow> wri (tab_registers mapping) mapping_address (word_of_int data);
                    rsp \<leftarrow> echo_request req req_length;
                    Some (rsp, mapping\<lparr>tab_registers := tab\<rparr>, st) } }"

definition reply_write_coils :: "'w modbus_backend \<Rightarrow> 'w sock_ops \<Rightarrow> u8 list \<Rightarrow> sft \<Rightarrow> modbus_mapping \<Rightarrow>
    'w mbs \<Rightarrow> (u8 list \<times> modbus_mapping \<times> 'w mbs) option" where
  "reply_write_coils be io req sft mapping st =
     do { address \<leftarrow> rd16 req (header_length be + 1);
          nb \<leftarrow> rd16 req (header_length be + 3);
          let mapping_address = address - start_bits mapping;
          if nb < 1 \<or> MODBUS_MAX_WRITE_BITS < nb
          then reply_exception be io sft MODBUS_EXCEPTION_ILLEGAL_DATA_VALUE True mapping st
          else if mapping_address < 0 \<or> mapping_address + nb > nb_bits mapping
          then reply_exception be io sft MODBUS_EXCEPTION_ILLEGAL_DATA_ADDRESS False mapping st
          else do { tab \<leftarrow> modbus_set_bits_from_bytes (tab_bits mapping) (nat mapping_address) (nat nb)
                            (drop (header_length be + 6) req);
                    rsp \<leftarrow> echo_address_quantity (be_build_response_basis be sft) req;
                    Some (rsp, mapping\<lparr>tab_bits := tab\<rparr>, st) } }"

definition reply_write_registers :: "'w modbus_backend \<Rightarrow> 'w sock_ops \<Rightarrow> u8 list \<Rightarrow> sft \<Rightarrow> modbus_mapping \<Rightarrow>
    'w mbs \<Rightarrow> (u8 list \<times> modbus_mapping \<times> 'w mbs) option" where
  "reply_write_registers be io req sft mapping st =
     do { address \<leftarrow> rd16 req (header_length be + 1);
          nb \<leftarrow> rd16 req (header_length be + 3);
          let mapping_address = address - start_registers mapping;
          if nb < 1 \<or> MODBUS_MAX_WRITE_REGISTERS < nb
          then reply_exception be io sft MODBUS_EXCEPTION_ILLEGAL_DATA_VALUE True mapping st
          else if mapping_address < 0 \<or> mapping_address + nb > nb_registers mapping
          then reply_exception be io sft MODBUS_EXCEPTION_ILLEGAL_DATA_ADDRESS False mapping st
          else do { tab \<leftarrow> store_registers (nat nb) (tab_registers mapping) mapping_address req
                            (header_length be + 6);
                    rsp \<leftarrow> echo_address_quantity (be_build_response_basis be sft) req;
                    Some (rsp, mapping\<lparr>tab_registers := tab\<rparr>, st) } }"

text \<open>The report: the byte count, the slave id 180, the run indicator and \<open>"LMB3.1.4"\<close>.\<close>

definition LMB_VERSION :: "u8 list" where
  "LMB_VERSION = [76, 77, 66, 51, 46, 49, 46, 52]"

definition reply_report_slave_id :: "'w modbus_backend \<Rightarrow> sft \<Rightarrow> modbus_mapping \<Rightarrow>
    'w mbs \<Rightarrow> (u8 list \<times> modbus_mapping \<times> 'w mbs) option" where
  "reply_report_slave_id be sft mapping st =
     (let rsp = be_build_response_basis be sft; byte_count_pos = length rsp in
      do { rsp \<leftarrow> append_buf MAX_MESSAGE_LENGTH rsp [0, 180, 0xFF];
           rsp \<leftarrow> append_buf MAX_MESSAGE_LENGTH rsp LMB_VERSION;
           rsp \<leftarrow> wr rsp byte_count_pos (byte (int (length rsp) - int byte_count_pos - 1));
           Some (rsp, mapping, st) })"

definition reply_mask_write_register ::
  "'w modbus_backend \<Rightarrow> 'w sock_ops \<Rightarrow> u8 list \<Rightarrow> int \<Rightarrow> sft \<Rightarrow> modbus_mapping \<Rightarrow>
    'w mbs \<Rightarrow> (u8 list \<times> modbus_mapping \<times> 'w mbs) option" where
  "reply_mask_write_register be io req req_length sft mapping st =
     do { address \<leftarrow> rd16 req (header_length be + 1);
          let mapping_address = address - start_registers mapping;
          if mapping_address < 0 \<or> mapping_address \<ge> nb_registers mapping
          then reply_exception be io sft MODBUS_EXCEPTION_ILLEGAL_DATA_ADDRESS False mapping st
          else do { data \<leftarrow> rdi (tab_registers mapping) mapping_address;
                    a \<leftarrow> rd16 req (header_length be + 3);
                    r \<leftarrow> rd16 req (header_length be + 5);
                    let and_mask = (word_of_int a :: u16);
                    let or_mask = (word_of_int r :: u16);
                    tab \<leftarrow> wri (tab_registers mapping) mapping_address
                            ((data AND and_mask) OR (or_mask AND NOT and_mask));
                    rsp \<leftarrow> echo_request req req_length;
                    Some (rsp, mapping\<lparr>tab_registers := tab\<rparr>, st) } }"

text \<open>The address check of this case tests \<open>mapping_address\<close> twice, never \<open>mapping_address_write\<close>.\<close>

definition reply_write_and_read_registers ::
  "'w modbus_backend \<Rightarrow> 'w sock_ops \<Rightarrow> u8 list \<Rightarrow> sft \<Rightarrow> modbus_mapping \<Rightarrow>
    'w mbs \<Rightarrow> (u8 list \<times> modbus_mapping \<times> 'w mbs) option" where
  "reply_write_and_read_registers be io req sft mapping st =
     do { address \<leftarrow> rd16 req (header_length be + 1);
          nb \<leftarrow> rd16 req (header_length be + 3);
          address_write \<leftarrow> rd16 req (header_length be + 5);
          nb_write \<leftarrow> rd16 req (header_length be + 7);
          nb_write_bytes \<leftarrow> map_option uint (rd req (header_length be + 9));
          let mapping_address = address - start_registers mapping;
          let mapping_address_write = address_write - start_registers mapping;
          if nb_write < 1 \<or> MODBUS_MAX_WR_WRITE_REGISTERS < nb_write \<or>
             nb < 1 \<or> MODBUS_MAX_WR_READ_REGISTERS < nb \<or> nb_write_bytes \<noteq> nb_write * 2
          then reply_exception be io sft MODBUS_EXCEPTION_ILLEGAL_DATA_VALUE True mapping st
          else if mapping_address < 0 \<or> mapping_address + nb > nb_registers mapping \<or>
                  mapping_address < 0 \<or> mapping_address_write + nb_write > nb_registers mapping
          then reply_exception be io sft MODBUS_EXCEPTION_ILLEGAL_DATA_ADDRESS False mapping st
          else do { rsp \<leftarrow> push MAX_MESSAGE_LENGTH (be_build_response_basis be sft) (byte (nb * 2));
                    tab \<leftarrow> store_registers (nat nb_write) (tab_registers mapping) mapping_address_write req
                            (header_length be + 10);
                    rsp \<leftarrow> append_registers (nat nb) tab mapping_address rsp;
                    Some (rsp, mapping\<lparr>tab_registers := tab\<rparr>, st) } }"

section \<open>The reply\<close>

text \<open>
  The C code reads the address bytes of every request before it looks at the function code;
  for the functions that carry no address nothing depends on them, and the model reads them
  in the cases that use them.
\<close>

definition reply_switch :: "'w modbus_backend \<Rightarrow> 'w sock_ops \<Rightarrow> u8 list \<Rightarrow> int \<Rightarrow> sft \<Rightarrow> modbus_mapping \<Rightarrow>
    'w mbs \<Rightarrow> (u8 list \<times> modbus_mapping \<times> 'w mbs) option" where
  "reply_switch be io req req_length sft mapping st =
     (let function = sft_function sft in
      if function = FC_READ_COILS \<or> function = FC_READ_DISCRETE_INPUTS
      then reply_read_bits be io req sft mapping st
      else if function = FC_READ_HOLDING_REGISTERS \<or> function = FC_READ_INPUT_REGISTERS
      then reply_read_registers be io req sft mapping st
      else if function = FC_WRITE_SINGLE_COIL then reply_write_coil be io req req_length sft mapping st
      else if function = FC_WRITE_SINGLE_REGISTER then reply_write_register be io req req_length sft mapping st
      else if function = FC_WRITE_MULTIPLE_COILS then reply_write_coils be io req sft mapping st
      else if function = FC_WRITE_MULTIPLE_REGISTERS then reply_write_registers be io req sft mapping st
      else if function = FC_REPORT_SLAVE_ID then reply_report_slave_id be sft mapping st
      else if function = FC_MASK_WRITE_REGISTER then reply_mask_write_register be io req req_length sft mapping st
      else if function = FC_WRITE_AND_READ_REGISTERS then reply_write_and_read_registers be io req sft mapping st
      else reply_exception be io sft MODBUS_EXCEPTION_ILLEGAL_FUNCTION True mapping st)"

definition modbus_reply :: "'w modbus_backend \<Rightarrow> 'w sock_ops \<Rightarrow> u8 list \<Rightarrow> int \<Rightarrow> modbus_mapping \<Rightarrow> 'w mbs \<Rightarrow>
    (int \<times> modbus_mapping \<times> 'w mbs) option" where
  "modbus_reply be io req req_length mapping st =
     (if mb_null st then Some (- 1, mapping, st\<lparr>mb_errno := EINVAL\<rparr>)
      else
        do { slave \<leftarrow> map_option uint (rd req (header_length be - 1));
             function \<leftarrow> map_option uint (rd req (header_length be));
             (t_id, req_length) \<leftarrow> be_prepare_response_tid be req req_length;
             let sft = \<lparr>sft_slave = slave, sft_function = function, sft_t_id = t_id\<rparr>;
             if function = FC_READ_EXCEPTION_STATUS then Some (- 1, mapping, st\<lparr>mb_errno := ENOPROTOOPT\<rparr>)
             else do { (rsp, mapping, st) \<leftarrow> reply_switch be io req req_length sft mapping st;
                       if slave = MODBUS_BROADCAST_ADDRESS then Some (0, mapping, st)
                       else do { (rc, st) \<leftarrow> send_msg be io rsp st; Some (rc, mapping, st) } } })"

definition modbus_reply_exception :: "'w modbus_backend \<Rightarrow> 'w sock_ops \<Rightarrow> u8 list \<Rightarrow> u32 \<Rightarrow> 'w mbs \<Rightarrow>
    (int \<times> 'w mbs) option" where
  "modbus_reply_exception be io req exception_code st =
     (if mb_null st then Some (- 1, st\<lparr>mb_errno := EINVAL\<rparr>)
      else
        do { slave \<leftarrow> map_option uint (rd req (header_length be - 1));
             function \<leftarrow> map_option uint (rd req (header_length be));
             (t_id, _) \<leftarrow> be_prepare_response_tid be req 99;
             let rsp = be_build_response_basis be
                   \<lparr>sft_slave = slave, sft_function = function + 0x80, sft_t_id = t_id\<rparr>;
             if uint exception_code < MODBUS_EXCEPTION_MAX
             then do { rsp \<leftarrow> push MAX_MESSAGE_LENGTH rsp (byte (uint exception_code));
                       send_msg be io rsp st }
             else Some (- 1, st\<lparr>mb_errno := EINVAL\<rparr>) })"

section \<open>What the loops compute\<close>

lemma append_registers_spec:
  assumes "0 \<le> i" "nat i + n \<le> length tab" "length rsp + 2 * n \<le> 260"
  shows "append_registers n tab i rsp = Some (rsp @ reg_bytes (take n (drop (nat i) tab)))"
  using assms
proof (induction n arbitrary: i rsp)
  case 0
  then show ?case by (simp add: reg_bytes_def)
next
  case (Suc n)
  have "drop (nat i) tab = tab ! nat i # drop (nat (i + 1)) tab"
    using Suc.prems by (simp add: Cons_nth_drop_Suc nat_add_distrib)
  moreover have "append_registers (Suc n) tab i rsp =
      append_registers n tab (i + 1) (rsp @ reg_bytes [tab ! nat i])"
    using Suc.prems by (simp add: rdi_Some push_def reg_bytes_def)
  ultimately show ?case
    using Suc.IH [of "i + 1" "rsp @ reg_bytes [tab ! nat i]"] Suc.prems
    by (simp add: reg_bytes_def nat_add_distrib)
qed

lemma store_registers_spec:
  assumes "0 \<le> i" "nat i + n \<le> length tab" "j + 2 * n \<le> length req"
  shows "store_registers n tab i req j =
    Some (take (nat i) tab @ map (register_at j req) [0..<n] @ drop (nat i + n) tab)"
  using assms
proof (induction n arbitrary: i j tab)
  case 0
  then show ?case by simp
next
  case (Suc n)
  let ?t = "tab[nat i := register_at j req 0]"
  have "store_registers (Suc n) tab i req j = store_registers n ?t (i + 1) req (j + 2)"
    using Suc.prems by (simp add: rd16_Some wri_Some register_at_def)
  also have "\<dots> = Some (take (nat (i + 1)) ?t @ map (register_at (j + 2) req) [0..<n] @ drop (nat (i + 1) + n) ?t)"
    by (rule Suc.IH) (use Suc.prems in auto)
  also have "take (nat (i + 1)) ?t = take (nat i) tab @ [register_at j req 0]"
    using Suc.prems by (simp add: nat_add_distrib fill_step)
  also have "map (register_at (j + 2) req) [0..<n] = map (\<lambda>k. register_at j req (Suc k)) [0..<n]"
    by (simp add: register_at_def)
  finally show ?case
    using Suc.prems by (simp add: nat_add_distrib List.map_upt_Suc del: upt_Suc)
qed

text \<open>The coils of a table hold 0 or 1, and then the response packs them eight to a byte.\<close>

abbreviation coils_ok :: "u8 list \<Rightarrow> bool" where
  "coils_ok tab \<equiv> set tab \<subseteq> {0, 1}"

lemma coil_bit: "coils_ok tab \<Longrightarrow> k < length tab \<Longrightarrow> bit (uint (tab ! k)) j \<longleftrightarrow> j = 0 \<and> tab ! k \<noteq> 0"
proof -
  assume "coils_ok tab" "k < length tab"
  then have "tab ! k = 0 \<or> tab ! k = 1" using nth_mem by blast
  then show ?thesis by (auto simp: bit_1_iff)
qed

lemma response_io_status_loop_spec:
  assumes "coils_ok tab" and "a + N \<le> length tab" and "8 * b + shift + n = N" and "shift < 8"
    and "length rsp + ((N + 7) div 8 - b) \<le> 260"
    and "\<And>j. bit one j \<longleftrightarrow> j < shift \<and> tab ! (a + (8 * b + j)) \<noteq> 0"
  shows "response_io_status_loop n tab (int (a + (8 * b + shift))) shift one rsp =
    Some (rsp @ map (\<lambda>i. pack_byte (drop a tab) N (8 * i)) [b..<(N + 7) div 8])"
  using assms(3-)
proof (induction n arbitrary: b shift one rsp)
  case 0
  have N: "N = 8 * b + shift" "a \<le> length tab" using 0(1) assms(2) by simp_all
  have "byte one = pack_byte (drop a tab) N (8 * b)"
    by (rule bit_eqI) (use 0(2) in \<open>auto simp: byte_def bit_pack_byte bit_word_of_int_iff 0(4) N\<close>)
  moreover have "shift \<noteq> 0 \<Longrightarrow> (N + 7) div 8 = Suc b" "shift = 0 \<Longrightarrow> (N + 7) div 8 = b"
    using 0 by auto
  ultimately show ?case using 0(3) by (cases "shift = 0") (auto simp: push_def)
next
  case (Suc n)
  let ?k = "a + (8 * b + shift)"
  let ?one = "one OR push_bit shift (uint (tab ! ?k))"
  have k: "?k < length tab" using Suc.prems(1) assms(2) by simp
  have one: "bit ?one j \<longleftrightarrow> j < Suc shift \<and> tab ! (a + (8 * b + j)) \<noteq> 0" for j
    unfolding bit_or_iff bit_push_bit_iff Suc.prems(4) coil_bit [OF assms(1) k]
    by (cases "j = shift") auto
  have rd: "rdi tab (int ?k) = Some (tab ! ?k)"
    using rdi_Some [of "int ?k" tab] k by (simp only: of_nat_0_le_iff nat_int simp_thms)
  show ?case
  proof (cases "shift = 7")
    case False
    then show ?thesis
      using Suc.IH [of b "Suc shift" rsp ?one] Suc.prems(1-3) one rd by (simp add: add.commute)
  next
    case True
    have N: "N = 8 * b + 8 + n" "a \<le> length tab" using True Suc.prems(1) assms(2) by simp_all
    have B: "byte ?one = pack_byte (drop a tab) N (8 * b)"
      unfolding byte_def by (rule bit_eqI, unfold bit_word_of_int_iff one) (auto simp: True N bit_pack_byte)
    have b: "b < (N + 7) div 8" using Suc.prems(1) True by auto
    then have room: "length rsp < 260" using Suc.prems(3) by linarith
    let ?rsp = "rsp @ [pack_byte (drop a tab) N (8 * b)]"
    have "response_io_status_loop (Suc n) tab (int ?k) shift one rsp =
        response_io_status_loop n tab (int (a + (8 * Suc b + 0))) 0 0 ?rsp"
      using True rd B room by (simp add: push_Some add_ac)
    also have "\<dots> = Some (?rsp @ map (\<lambda>i. pack_byte (drop a tab) N (8 * i)) [Suc b..<(N + 7) div 8])"
      by (rule Suc.IH) (use True Suc.prems(1,3) b in auto)
    finally show ?thesis using b by (simp add: upt_conv_Cons)
  qed
qed

lemma response_io_status_spec:
  assumes "coils_ok tab" and "0 \<le> a" "1 \<le> nb" and "a + nb \<le> int (length tab)" and "length rsp + nat ((nb + 7) div 8) \<le> 260"
  shows "response_io_status tab a nb rsp =
    Some (rsp @ map (\<lambda>i. pack_byte (drop (nat a) tab) (nat nb) (8 * i)) [0..<nat ((nb + 7) div 8)])"
proof -
  have "nat ((nb + 7) div 8) = (nat nb + 7) div 8"
    using assms(3) by (simp add: nat_div_distrib nat_add_distrib)
  then show ?thesis
    using response_io_status_loop_spec [of tab "nat a" "nat nb" 0 0 "nat nb" rsp 0] assms
    by (simp add: response_io_status_def)
qed

text \<open>Unpacking what was packed gives the coils back.\<close>

lemma coil_of_pack:
  assumes "k < n" and "n \<le> length src" and "coils_ok src"
  shows "coil_of (map (\<lambda>i. pack_byte src n (8 * i)) [0..<(n + 7) div 8]) k = src ! k"
proof -
  have "k div 8 < (n + 7) div 8" "8 * (k div 8) + k mod 8 = k" using assms(1) by auto
  moreover have "src ! k \<in> {0, 1}" using assms nth_mem [of k src] by (meson less_le_trans subsetD)
  ultimately show ?thesis using assms(1) by (auto simp: coil_of_def bit_pack_byte)
qed

section \<open>Flushing ends\<close>

text \<open>
  A non-blocking read takes from a buffer the network stack holds, so only finitely many reads
  in a row can fill the caller's array: some measure of the world goes down with each.
\<close>

definition finite_input :: "'w sock_ops \<Rightarrow> ('w \<Rightarrow> nat) \<Rightarrow> bool" where
  "finite_input io m \<longleftrightarrow>
     (\<forall>s w bs w'. sk_recv io s 260 True w = (SysOk bs, w') \<longrightarrow> length bs = 260 \<longrightarrow> m w' < m w)"

lemma modbus_tcp_flush_loop_returns:
  assumes fin: "finite_input io m"
  shows "\<exists>rc st'. modbus_tcp_flush_loop io rc_sum st = Some (rc, st') \<and> same_config st st'"
proof (induction "m (mb_world st)" arbitrary: rc_sum st rule: less_induct)
  case less
  obtain r w where r: "sk_recv io (mb_s st) 260 True (mb_world st) = (r, w)"
    by (cases "sk_recv io (mb_s st) 260 True (mb_world st)")
  show ?case
  proof (cases r)
    case (SysErr e)
    with r show ?thesis by (subst modbus_tcp_flush_loop.simps) simp
  next
    case (SysOk bs)
    then have "length bs = 260 \<Longrightarrow> m w < m (mb_world st)"
      using fin r unfolding finite_input_def by blast
    then show ?thesis
      using less [of "st\<lparr>mb_world := w\<rparr>" "rc_sum + 260"] r SysOk
      by (subst modbus_tcp_flush_loop.simps) (auto simp: same_config_def)
  qed
qed

lemma modbus_tcp_flush_returns:
  assumes "finite_input io m"
  shows "\<exists>rc st'. modbus_flush modbus_tcp_backend io st = Some (rc, st') \<and> same_config st st'"
  using modbus_tcp_flush_loop_returns [OF assms, of 0 st]
  by (auto simp: modbus_flush_def modbus_tcp_flush_def)

lemma sleep_same_config [simp]: "same_config st (sleep_response_timeout io st)"
  by (simp add: sleep_response_timeout_def)

lemma tcp_response_basis_length [simp]: "length (modbus_tcp_build_response_basis sft) = 8"
  by (simp add: modbus_tcp_build_response_basis_def)

lemma reply_exception_tcp:
  assumes "finite_input io m"
  shows "\<exists>st'. reply_exception modbus_tcp_backend io sft code to_flush mapping st =
      Some (modbus_tcp_build_response_basis (sft\<lparr>sft_function := sft_function sft + 0x80\<rparr>) @ [byte code],
        mapping, st') \<and> same_config st st'"
  using modbus_tcp_flush_returns [OF assms, of "sleep_response_timeout io st"]
    same_config_trans [OF sleep_same_config]
  by (auto simp: reply_exception_def response_exception_def push_def)

section \<open>Every request is answered\<close>

text \<open>The tables have the sizes the mapping says, and coils hold 0 or 1.\<close>

definition mapping_ok :: "modbus_mapping \<Rightarrow> bool" where
  "mapping_ok m \<longleftrightarrow>
     nb_bits m = int (length (tab_bits m)) \<and> nb_input_bits m = int (length (tab_input_bits m)) \<and>
     nb_registers m = int (length (tab_registers m)) \<and>
     nb_input_registers m = int (length (tab_input_registers m)) \<and>
     coils_ok (tab_bits m) \<and> coils_ok (tab_input_bits m)"

text \<open>
  What the code takes for granted of a request: the multiple writes carry the bytes their
  quantity needs, and the combined write does not start below the table. Neither is checked.
\<close>

definition request_trusted :: "modbus_mapping \<Rightarrow> u8 list \<Rightarrow> bool" where
  "request_trusted m req \<longleftrightarrow>
     (uint (req ! 7) = FC_WRITE_MULTIPLE_COILS \<longrightarrow> be16 (req ! 10) (req ! 11) \<le> 8 * int (length req - 13)) \<and>
     (uint (req ! 7) = FC_WRITE_MULTIPLE_REGISTERS \<longrightarrow> 2 * be16 (req ! 10) (req ! 11) \<le> int (length req - 13)) \<and>
     (uint (req ! 7) = FC_WRITE_AND_READ_REGISTERS \<longrightarrow> start_registers m \<le> be16 (req ! 12) (req ! 13))"

text \<open>What a case of the switch delivers: a response that fits the buffer, and good tables.\<close>

definition reply_good :: "'w mbs \<Rightarrow> modbus_mapping \<Rightarrow> (u8 list \<times> modbus_mapping \<times> 'w mbs) option \<Rightarrow> bool" where
  "reply_good st m r \<longleftrightarrow>
     (\<exists>rsp m' st'. r = Some (rsp, m', st') \<and> 8 \<le> length rsp \<and> length rsp \<le> 260 \<and> same_config st st' \<and>
        mapping_ok m' \<and> start_registers m' = start_registers m \<and> start_bits m' = start_bits m)"

lemma reply_good_exception:
  assumes "finite_input io m" and "mapping_ok mp"
  shows "reply_good st mp (reply_exception modbus_tcp_backend io sft code to_flush mp st)"
  using reply_exception_tcp [OF assms(1), of sft code to_flush mp st] assms(2)
  by (auto simp: reply_good_def)

lemma indication_length:
  assumes "msg_complete (modbus_tcp_backend :: 'w modbus_backend) MSG_INDICATION req"
  shows "8 \<le> length req" "length req \<le> 260"
    "uint (req ! 7) \<le> FC_WRITE_SINGLE_REGISTER \<Longrightarrow> length req = 12"
    "uint (req ! 7) = FC_WRITE_MULTIPLE_COILS \<or> uint (req ! 7) = FC_WRITE_MULTIPLE_REGISTERS \<Longrightarrow> 13 \<le> length req"
    "uint (req ! 7) = FC_MASK_WRITE_REGISTER \<Longrightarrow> length req = 14"
    "uint (req ! 7) = FC_WRITE_AND_READ_REGISTERS \<Longrightarrow>
       17 \<le> length req \<and> int (length req) = 17 + uint (req ! 16)"
proof -
  obtain n where n: "compute_data_length_after_meta (modbus_tcp_backend :: 'w modbus_backend) req MSG_INDICATION = Some n"
    and len: "int (length req) = 8 + compute_meta_length_after_function (uint (req ! 7)) MSG_INDICATION + n"
    using assms unfolding msg_complete_def by (elim conjE exE) (rule that, auto)
  show "8 \<le> length req" "length req \<le> 260" using assms by (auto simp: msg_complete_def)
  note [simp] = compute_meta_length_after_function_def compute_data_length_after_meta_def
  show "uint (req ! 7) \<le> FC_WRITE_SINGLE_REGISTER \<Longrightarrow> length req = 12"
    "uint (req ! 7) = FC_WRITE_MULTIPLE_COILS \<or> uint (req ! 7) = FC_WRITE_MULTIPLE_REGISTERS \<Longrightarrow> 13 \<le> length req"
    "uint (req ! 7) = FC_MASK_WRITE_REGISTER \<Longrightarrow> length req = 14"
    "uint (req ! 7) = FC_WRITE_AND_READ_REGISTERS \<Longrightarrow>
       17 \<le> length req \<and> int (length req) = 17 + uint (req ! 16)"
    using n len by (auto simp: rd_def Let_def split: if_splits)
qed

text \<open>The cases that read tables, when the request is in range.\<close>

lemma reply_read_registers_tcp:
  assumes "length req = 12" and "mapping_ok mp"
    and tab: "tab = (if sft_function sft = FC_READ_INPUT_REGISTERS then tab_input_registers mp else tab_registers mp)"
    and start: "start = (if sft_function sft = FC_READ_INPUT_REGISTERS then start_input_registers mp else start_registers mp)"
    and nb: "nb = be16 (req ! 10) (req ! 11)" "1 \<le> nb" "nb \<le> 125"
    and a: "a = be16 (req ! 8) (req ! 9) - start" "0 \<le> a" "a + nb \<le> int (length tab)"
  shows "reply_read_registers modbus_tcp_backend io req sft mp st =
    Some (modbus_tcp_build_response_basis sft @ byte (nb * 2) # reg_bytes (take (nat nb) (drop (nat a) tab)), mp, st)"
proof -
  have "append_registers (nat nb) tab a (modbus_tcp_build_response_basis sft @ [byte (nb * 2)]) =
      Some (modbus_tcp_build_response_basis sft @ byte (nb * 2) # reg_bytes (take (nat nb) (drop (nat a) tab)))"
    using append_registers_spec [of a "nat nb" tab] nb a by auto
  moreover have "rd16 req 8 = Some (a + start)" "rd16 req 10 = Some nb"
    using assms(1) nb(1) a(1) by (simp_all add: rd16_Some)
  moreover have "int (length tab) =
      (if sft_function sft = FC_READ_INPUT_REGISTERS then nb_input_registers mp else nb_registers mp)"
    using assms(2) tab by (simp add: mapping_ok_def)
  ultimately show ?thesis
    using nb a unfolding reply_read_registers_def tab [symmetric] start [symmetric] Let_def
    by (simp add: push_def)
qed

lemma reply_read_bits_tcp:
  assumes "length req = 12" and "mapping_ok mp"
    and tab: "tab = (if sft_function sft = FC_READ_DISCRETE_INPUTS then tab_input_bits mp else tab_bits mp)"
    and start: "start = (if sft_function sft = FC_READ_DISCRETE_INPUTS then start_input_bits mp else start_bits mp)"
    and nb: "nb = be16 (req ! 10) (req ! 11)" "1 \<le> nb" "nb \<le> 2000"
    and a: "a = be16 (req ! 8) (req ! 9) - start" "0 \<le> a" "a + nb \<le> int (length tab)"
  shows "reply_read_bits modbus_tcp_backend io req sft mp st =
    Some (modbus_tcp_build_response_basis sft @ byte ((nb + 7) div 8) #
      map (\<lambda>i. pack_byte (drop (nat a) tab) (nat nb) (8 * i)) [0..<nat ((nb + 7) div 8)], mp, st)"
proof -
  have ok: "coils_ok tab" "int (length tab) =
      (if sft_function sft = FC_READ_DISCRETE_INPUTS then nb_input_bits mp else nb_bits mp)"
    using assms(2) tab by (auto simp: mapping_ok_def)
  have "response_io_status tab a nb (modbus_tcp_build_response_basis sft @ [byte ((nb + 7) div 8)]) =
      Some ((modbus_tcp_build_response_basis sft @ [byte ((nb + 7) div 8)]) @
        map (\<lambda>i. pack_byte (drop (nat a) tab) (nat nb) (8 * i)) [0..<nat ((nb + 7) div 8)])"
    by (rule response_io_status_spec) (use nb a ok in auto)
  moreover have "rd16 req 8 = Some (a + start)" "rd16 req 10 = Some nb"
    using assms(1) nb(1) a(1) by (simp_all add: rd16_Some)
  ultimately show ?thesis
    using nb a ok(2) unfolding reply_read_bits_def tab [symmetric] start [symmetric] Let_def bytes_of_bits
    by (simp add: push_def)
qed

lemma reply_good_read_registers:
  assumes fin: "finite_input io m" and len: "length req = 12" and ok: "mapping_ok mp"
  shows "reply_good st mp (reply_read_registers modbus_tcp_backend io req sft mp st)"
proof -
  define tab where "tab = (if sft_function sft = FC_READ_INPUT_REGISTERS then tab_input_registers mp else tab_registers mp)"
  define start where "start = (if sft_function sft = FC_READ_INPUT_REGISTERS then start_input_registers mp else start_registers mp)"
  define nb where "nb = be16 (req ! 10) (req ! 11)"
  define a where "a = be16 (req ! 8) (req ! 9) - start"
  have n: "(if sft_function sft = FC_READ_INPUT_REGISTERS then nb_input_registers mp else nb_registers mp) =
      int (length tab)"
    using ok by (simp add: mapping_ok_def tab_def)
  show ?thesis
  proof (cases "1 \<le> nb \<and> nb \<le> 125 \<and> 0 \<le> a \<and> a + nb \<le> int (length tab)")
    case True
    then show ?thesis
      using reply_read_registers_tcp [where io = io and st = st, OF len ok tab_def start_def nb_def _ _ a_def] ok
      by (auto simp: reply_good_def)
  next
    case False
    then have "\<exists>code fl. reply_read_registers modbus_tcp_backend io req sft mp st =
        reply_exception modbus_tcp_backend io sft code fl mp st"
      using len unfolding reply_read_registers_def Let_def tab_def [symmetric] start_def [symmetric] n
      by (auto simp: rd16_Some nb_def a_def)
    then show ?thesis using reply_good_exception [OF fin ok] by auto
  qed
qed

lemma reply_good_read_bits:
  assumes fin: "finite_input io m" and len: "length req = 12" and ok: "mapping_ok mp"
  shows "reply_good st mp (reply_read_bits modbus_tcp_backend io req sft mp st)"
proof -
  define tab where "tab = (if sft_function sft = FC_READ_DISCRETE_INPUTS then tab_input_bits mp else tab_bits mp)"
  define start where "start = (if sft_function sft = FC_READ_DISCRETE_INPUTS then start_input_bits mp else start_bits mp)"
  define nb where "nb = be16 (req ! 10) (req ! 11)"
  define a where "a = be16 (req ! 8) (req ! 9) - start"
  have n: "(if sft_function sft = FC_READ_DISCRETE_INPUTS then nb_input_bits mp else nb_bits mp) =
      int (length tab)"
    using ok by (simp add: mapping_ok_def tab_def)
  show ?thesis
  proof (cases "1 \<le> nb \<and> nb \<le> 2000 \<and> 0 \<le> a \<and> a + nb \<le> int (length tab)")
    case True
    then show ?thesis
      using reply_read_bits_tcp [where io = io and st = st, OF len ok tab_def start_def nb_def _ _ a_def] ok
      by (auto simp: reply_good_def)
  next
    case False
    then have "\<exists>code fl. reply_read_bits modbus_tcp_backend io req sft mp st =
        reply_exception modbus_tcp_backend io sft code fl mp st"
      using len unfolding reply_read_bits_def Let_def tab_def [symmetric] start_def [symmetric] n
      by (auto simp: rd16_Some nb_def a_def)
    then show ?thesis using reply_good_exception [OF fin ok] by auto
  qed
qed

text \<open>The cases that write.\<close>

lemma echo_request_all: "length req \<le> 260 \<Longrightarrow> echo_request req (int (length req)) = Some req"
  by (simp add: echo_request_def rd_n_def append_buf_def)

lemma echo_address_quantity_tcp:
  "12 \<le> length req \<Longrightarrow> echo_address_quantity (modbus_tcp_build_response_basis sft) req =
     Some (modbus_tcp_build_response_basis sft @ take 4 (drop 8 req))"
  by (simp add: echo_address_quantity_def rd_n_def append_buf_def)

lemma coils_ok_update: "coils_ok tab \<Longrightarrow> v \<in> {0, 1} \<Longrightarrow> coils_ok (tab[i := v])"
  using set_update_subset_insert [of tab i v] by auto

lemma reply_good_write_coil:
  assumes fin: "finite_input io m" and len: "length req = 12" and ok: "mapping_ok mp"
  shows "reply_good st mp (reply_write_coil modbus_tcp_backend io req (int (length req)) sft mp st)"
proof -
  define a where "a = be16 (req ! 8) (req ! 9) - start_bits mp"
  define d where "d = be16 (req ! 10) (req ! 11)"
  show ?thesis
  proof (cases "0 \<le> a \<and> a < nb_bits mp \<and> (d = 0xFF00 \<or> d = 0)")
    case True
    then have "reply_write_coil modbus_tcp_backend io req (int (length req)) sft mp st =
        Some (req, mp\<lparr>tab_bits := (tab_bits mp)[nat a := if d \<noteq> 0 then 1 else 0]\<rparr>, st)"
      using len ok echo_request_all [of req]
      by (simp add: reply_write_coil_def rd16_Some a_def d_def mapping_ok_def wri_Some nat_less_iff)
    then show ?thesis
      using ok len coils_ok_update by (auto simp: reply_good_def mapping_ok_def)
  next
    case False
    then have "\<exists>code fl. reply_write_coil modbus_tcp_backend io req (int (length req)) sft mp st =
        reply_exception modbus_tcp_backend io sft code fl mp st"
      using len by (auto simp: reply_write_coil_def rd16_Some Let_def a_def d_def)
    then show ?thesis using reply_good_exception [OF fin ok] by auto
  qed
qed

lemma reply_write_register_tcp:
  assumes "length req = 12" and "mapping_ok mp"
    and a: "a = be16 (req ! 8) (req ! 9) - start_registers mp" "0 \<le> a" "a < nb_registers mp"
  shows "reply_write_register modbus_tcp_backend io req (int (length req)) sft mp st =
    Some (req, mp\<lparr>tab_registers := (tab_registers mp)[nat a := word_of_int (be16 (req ! 10) (req ! 11))]\<rparr>, st)"
  using assms echo_request_all [of req]
  by (simp add: reply_write_register_def rd16_Some mapping_ok_def wri_Some nat_less_iff)

lemma reply_good_write_register:
  assumes fin: "finite_input io m" and len: "length req = 12" and ok: "mapping_ok mp"
  shows "reply_good st mp (reply_write_register modbus_tcp_backend io req (int (length req)) sft mp st)"
proof -
  define a where "a = be16 (req ! 8) (req ! 9) - start_registers mp"
  show ?thesis
  proof (cases "0 \<le> a \<and> a < nb_registers mp")
    case True
    then show ?thesis
      using reply_write_register_tcp [where io = io and st = st, OF len ok a_def] ok len by (auto simp: reply_good_def mapping_ok_def)
  next
    case False
    then have "reply_write_register modbus_tcp_backend io req (int (length req)) sft mp st =
        reply_exception modbus_tcp_backend io sft 2 False mp st"
      using len by (auto simp: reply_write_register_def rd16_Some Let_def a_def)
    then show ?thesis using reply_good_exception [OF fin ok] by simp
  qed
qed

lemma reply_write_coils_tcp:
  assumes "13 \<le> length req" and "mapping_ok mp"
    and nb: "nb = be16 (req ! 10) (req ! 11)" "1 \<le> nb" "nb \<le> 1968" "nb \<le> 8 * int (length req - 13)"
    and a: "a = be16 (req ! 8) (req ! 9) - start_bits mp" "0 \<le> a" "a + nb \<le> nb_bits mp"
  shows "reply_write_coils modbus_tcp_backend io req sft mp st =
    Some (modbus_tcp_build_response_basis sft @ take 4 (drop 8 req),
      mp\<lparr>tab_bits := take (nat a) (tab_bits mp) @ map (coil_of (drop 13 req)) [0..<nat nb]
           @ drop (nat a + nat nb) (tab_bits mp)\<rparr>, st)"
proof -
  have "modbus_set_bits_from_bytes (tab_bits mp) (nat a) (nat nb) (drop 13 req) =
      Some (take (nat a) (tab_bits mp) @ map (coil_of (drop 13 req)) [0..<nat nb] @ drop (nat a + nat nb) (tab_bits mp))"
    by (rule modbus_set_bits_from_bytes_spec) (use nb a assms(2) in \<open>auto simp: mapping_ok_def\<close>)
  moreover have "rd16 req 8 = Some (a + start_bits mp)" "rd16 req 10 = Some nb"
    using assms(1) nb(1) a(1) by (simp_all add: rd16_Some)
  ultimately show ?thesis
    using nb a assms(1) by (simp add: reply_write_coils_def echo_address_quantity_tcp Let_def)
qed

lemma reply_write_registers_tcp:
  assumes "13 \<le> length req" and "mapping_ok mp"
    and nb: "nb = be16 (req ! 10) (req ! 11)" "1 \<le> nb" "nb \<le> 123" "2 * nb \<le> int (length req - 13)"
    and a: "a = be16 (req ! 8) (req ! 9) - start_registers mp" "0 \<le> a" "a + nb \<le> nb_registers mp"
  shows "reply_write_registers modbus_tcp_backend io req sft mp st =
    Some (modbus_tcp_build_response_basis sft @ take 4 (drop 8 req),
      mp\<lparr>tab_registers := take (nat a) (tab_registers mp) @ map (register_at 13 req) [0..<nat nb]
           @ drop (nat a + nat nb) (tab_registers mp)\<rparr>, st)"
proof -
  have "store_registers (nat nb) (tab_registers mp) a req 13 =
      Some (take (nat a) (tab_registers mp) @ map (register_at 13 req) [0..<nat nb] @ drop (nat a + nat nb) (tab_registers mp))"
    by (rule store_registers_spec) (use nb a assms(1,2) in \<open>auto simp: mapping_ok_def\<close>)
  moreover have "rd16 req 8 = Some (a + start_registers mp)" "rd16 req 10 = Some nb"
    using assms(1) nb(1) a(1) by (simp_all add: rd16_Some)
  ultimately show ?thesis
    using nb a assms(1) by (simp add: reply_write_registers_def echo_address_quantity_tcp Let_def)
qed

lemma coils_ok_coil_of: "coils_ok tab \<Longrightarrow> coils_ok (take i tab @ map (coil_of bs) ks @ drop j tab)"
  using set_take_subset [of i tab] set_drop_subset [of j tab] by (auto simp: coil_of_def)

lemma mapping_ok_bits:
  "mapping_ok mp \<Longrightarrow> coils_ok tab \<Longrightarrow> length tab = length (tab_bits mp) \<Longrightarrow> mapping_ok (mp\<lparr>tab_bits := tab\<rparr>)"
  by (simp add: mapping_ok_def)

lemma reply_good_write_coils:
  assumes fin: "finite_input io m" and len: "13 \<le> length req" and ok: "mapping_ok mp"
    and trust: "be16 (req ! 10) (req ! 11) \<le> 8 * int (length req - 13)"
  shows "reply_good st mp (reply_write_coils modbus_tcp_backend io req sft mp st)"
proof -
  define nb where "nb = be16 (req ! 10) (req ! 11)"
  define a where "a = be16 (req ! 8) (req ! 9) - start_bits mp"
  show ?thesis
  proof (cases "1 \<le> nb \<and> nb \<le> 1968 \<and> 0 \<le> a \<and> a + nb \<le> nb_bits mp")
    case True
    then have "reply_write_coils modbus_tcp_backend io req sft mp st =
      Some (modbus_tcp_build_response_basis sft @ take 4 (drop 8 req),
        mp\<lparr>tab_bits := take (nat a) (tab_bits mp) @ map (coil_of (drop 13 req)) [0..<nat nb]
           @ drop (nat a + nat nb) (tab_bits mp)\<rparr>, st)"
      using reply_write_coils_tcp [OF len ok nb_def _ _ _ a_def] trust nb_def by auto
    moreover have "nat a + nat nb \<le> length (tab_bits mp)"
      using True ok by (auto simp: mapping_ok_def)
    ultimately show ?thesis
      using mapping_ok_bits [OF ok coils_ok_coil_of] ok unfolding reply_good_def
      by (auto simp: mapping_ok_def [of mp])
  next
    case False
    then have "\<exists>code fl. reply_write_coils modbus_tcp_backend io req sft mp st =
        reply_exception modbus_tcp_backend io sft code fl mp st"
      using len by (auto simp: reply_write_coils_def rd16_Some Let_def nb_def a_def)
    then show ?thesis using reply_good_exception [OF fin ok] by auto
  qed
qed

lemma reply_good_write_registers:
  assumes fin: "finite_input io m" and len: "13 \<le> length req" and ok: "mapping_ok mp"
    and trust: "2 * be16 (req ! 10) (req ! 11) \<le> int (length req - 13)"
  shows "reply_good st mp (reply_write_registers modbus_tcp_backend io req sft mp st)"
proof -
  define nb where "nb = be16 (req ! 10) (req ! 11)"
  define a where "a = be16 (req ! 8) (req ! 9) - start_registers mp"
  show ?thesis
  proof (cases "1 \<le> nb \<and> nb \<le> 123 \<and> 0 \<le> a \<and> a + nb \<le> nb_registers mp")
    case True
    then have "reply_write_registers modbus_tcp_backend io req sft mp st =
      Some (modbus_tcp_build_response_basis sft @ take 4 (drop 8 req),
        mp\<lparr>tab_registers := take (nat a) (tab_registers mp) @ map (register_at 13 req) [0..<nat nb]
           @ drop (nat a + nat nb) (tab_registers mp)\<rparr>, st)"
      using reply_write_registers_tcp [OF len ok nb_def _ _ _ a_def] trust nb_def by auto
    moreover have "nat a + nat nb \<le> length (tab_registers mp)"
      using True ok by (auto simp: mapping_ok_def)
    ultimately show ?thesis
      using ok by (auto simp: reply_good_def mapping_ok_def)
  next
    case False
    then have "\<exists>code fl. reply_write_registers modbus_tcp_backend io req sft mp st =
        reply_exception modbus_tcp_backend io sft code fl mp st"
      using len by (auto simp: reply_write_registers_def rd16_Some Let_def nb_def a_def)
    then show ?thesis using reply_good_exception [OF fin ok] by auto
  qed
qed

lemma reply_good_report_slave_id:
  "mapping_ok mp \<Longrightarrow> reply_good st mp (reply_report_slave_id modbus_tcp_backend sft mp st)"
  by (simp add: reply_good_def reply_report_slave_id_def append_buf_def LMB_VERSION_def wr_def Let_def)

lemma reply_mask_write_register_tcp:
  assumes "length req = 14" and "mapping_ok mp"
    and a: "a = be16 (req ! 8) (req ! 9) - start_registers mp" "0 \<le> a" "a < nb_registers mp"
    and masks: "am = word_of_int (be16 (req ! 10) (req ! 11))" "om = word_of_int (be16 (req ! 12) (req ! 13))"
  shows "reply_mask_write_register modbus_tcp_backend io req (int (length req)) sft mp st =
    Some (req, mp\<lparr>tab_registers := (tab_registers mp)[nat a :=
      (tab_registers mp ! nat a AND am) OR (om AND NOT am)]\<rparr>, st)"
proof -
  have "rd16 req 8 = Some (a + start_registers mp)" "rd16 req 10 = Some (be16 (req ! 10) (req ! 11))"
    "rd16 req 12 = Some (be16 (req ! 12) (req ! 13))"
    using assms(1) a(1) by (simp_all add: rd16_Some)
  then show ?thesis
    using assms echo_request_all [of req]
    by (simp add: reply_mask_write_register_def mapping_ok_def wri_Some rdi_Some nat_less_iff Let_def)
qed

lemma reply_good_mask_write_register:
  assumes fin: "finite_input io m" and len: "length req = 14" and ok: "mapping_ok mp"
  shows "reply_good st mp (reply_mask_write_register modbus_tcp_backend io req (int (length req)) sft mp st)"
proof -
  define a where "a = be16 (req ! 8) (req ! 9) - start_registers mp"
  show ?thesis
  proof (cases "0 \<le> a \<and> a < nb_registers mp")
    case True
    then show ?thesis
      using reply_mask_write_register_tcp [where io = io and st = st, OF len ok a_def _ _ refl refl] ok len
      by (auto simp: reply_good_def mapping_ok_def)
  next
    case False
    then have "reply_mask_write_register modbus_tcp_backend io req (int (length req)) sft mp st =
        reply_exception modbus_tcp_backend io sft 2 False mp st"
      using len by (auto simp: reply_mask_write_register_def rd16_Some Let_def a_def)
    then show ?thesis using reply_good_exception [OF fin ok] by simp
  qed
qed

lemma reply_good_write_and_read_registers:
  assumes fin: "finite_input io m" and ok: "mapping_ok mp"
    and len: "17 \<le> length req" "int (length req) = 17 + uint (req ! 16)"
    and trust: "start_registers mp \<le> be16 (req ! 12) (req ! 13)"
  shows "reply_good st mp (reply_write_and_read_registers modbus_tcp_backend io req sft mp st)"
proof -
  define nb where "nb = be16 (req ! 10) (req ! 11)"
  define a where "a = be16 (req ! 8) (req ! 9) - start_registers mp"
  define nw where "nw = be16 (req ! 14) (req ! 15)"
  define w where "w = be16 (req ! 12) (req ! 13) - start_registers mp"
  have rds: "rd16 req 8 = Some (a + start_registers mp)" "rd16 req 10 = Some nb"
    "rd16 req 12 = Some (w + start_registers mp)" "rd16 req 14 = Some nw" "rd req 16 = Some (req ! 16)"
    using len by (simp_all add: rd16_Some rd_def a_def nb_def w_def nw_def)
  have n: "nb_registers mp = int (length (tab_registers mp))" using ok by (simp add: mapping_ok_def)
  show ?thesis
  proof (cases "1 \<le> nw \<and> nw \<le> 121 \<and> 1 \<le> nb \<and> nb \<le> 125 \<and> uint (req ! 16) = nw * 2 \<and>
      0 \<le> a \<and> a + nb \<le> nb_registers mp \<and> w + nw \<le> nb_registers mp")
    case True
    have w0: "0 \<le> w" using trust by (simp add: w_def)
    then obtain tab where store: "store_registers (nat nw) (tab_registers mp) w req 17 = Some tab"
      and tab: "length tab = length (tab_registers mp)"
      using store_registers_spec [of w "nat nw" "tab_registers mp" 17 req] True n len by auto
    have "append_registers (nat nb) tab a (modbus_tcp_build_response_basis sft @ [byte (nb * 2)]) =
        Some ((modbus_tcp_build_response_basis sft @ [byte (nb * 2)]) @ reg_bytes (take (nat nb) (drop (nat a) tab)))"
      by (rule append_registers_spec) (use True n tab in auto)
    with store have "reply_write_and_read_registers modbus_tcp_backend io req sft mp st =
        Some ((modbus_tcp_build_response_basis sft @ [byte (nb * 2)]) @ reg_bytes (take (nat nb) (drop (nat a) tab)),
          mp\<lparr>tab_registers := tab\<rparr>, st)"
      using True by (simp add: reply_write_and_read_registers_def rds push_def Let_def)
    moreover have "length (take (nat nb) (drop (nat a) tab)) \<le> 125" using True by (auto simp: min_def)
    ultimately show ?thesis
      using ok tab unfolding reply_good_def by (auto simp: mapping_ok_def)
  next
    case False
    then have "\<exists>code fl. reply_write_and_read_registers modbus_tcp_backend io req sft mp st =
        reply_exception modbus_tcp_backend io sft code fl mp st"
      by (auto simp: reply_write_and_read_registers_def rds Let_def)
    then show ?thesis using reply_good_exception [OF fin ok] by auto
  qed
qed

lemma reply_switch_good:
  assumes fin: "finite_input io m" and ok: "mapping_ok mp"
    and req: "msg_complete (modbus_tcp_backend :: 'w modbus_backend) MSG_INDICATION req"
    and trust: "request_trusted mp req" and f: "sft_function sft = uint (req ! 7)"
  shows "reply_good st mp (reply_switch modbus_tcp_backend io req (int (length req)) sft mp st)"
proof -
  note len = indication_length [OF req]
  define rl where "rl = int (length req)"
  note goods = reply_good_read_bits [OF fin _ ok] reply_good_read_registers [OF fin _ ok]
    reply_good_write_coil [OF fin _ ok, of req, folded rl_def]
    reply_good_write_register [OF fin _ ok, of req, folded rl_def]
    reply_good_write_coils [OF fin _ ok] reply_good_write_registers [OF fin _ ok]
    reply_good_report_slave_id [OF ok] reply_good_mask_write_register [OF fin _ ok, of req, folded rl_def]
    reply_good_write_and_read_registers [OF fin ok] reply_good_exception [OF fin ok]
  show ?thesis
    unfolding reply_switch_def Let_def f rl_def [symmetric]
    using len trust unfolding request_trusted_def by (simp add: goods)
qed

theorem reply_total:
  assumes io: "sock_ok io" "finite_input io m" and st: "no_recovery st" and ok: "mapping_ok mp"
    and req: "msg_complete (modbus_tcp_backend :: 'w modbus_backend) MSG_INDICATION req"
    and trust: "request_trusted mp req"
  shows "\<exists>rc mp' st'. modbus_reply modbus_tcp_backend io req (int (length req)) mp st = Some (rc, mp', st') \<and>
    mapping_ok mp' \<and> same_config st st'"
proof -
  have len: "8 \<le> length req" using indication_length(1) [OF req] .
  have rds: "rd req 6 = Some (req ! 6)" "rd req 7 = Some (req ! 7)"
    "modbus_tcp_prepare_response_tid req (int (length req)) = Some (be16 (req ! 0) (req ! 1), int (length req))"
    using len by (auto simp: rd_def rd16_Some modbus_tcp_prepare_response_tid_def)
  define sft where "sft = \<lparr>sft_slave = uint (req ! 6), sft_function = uint (req ! 7), sft_t_id = be16 (req ! 0) (req ! 1)\<rparr>"
  have "reply_good st mp (reply_switch modbus_tcp_backend io req (int (length req)) sft mp st)"
    by (rule reply_switch_good [OF io(2) ok req trust]) (simp add: sft_def)
  then obtain rsp mp' st' where sw: "reply_switch modbus_tcp_backend io req (int (length req)) sft mp st = Some (rsp, mp', st')"
    and good: "8 \<le> length rsp" "same_config st st'" "mapping_ok mp'"
    unfolding reply_good_def by auto
  have "\<not> recovery_link st'"
    using no_recovery_same_config [OF good(2)] st unfolding no_recovery_def by simp
  moreover have "6 \<le> length rsp" using good(1) by simp
  ultimately obtain rc st'' where "send_msg modbus_tcp_backend io rsp st' = Some (rc, st'')" "same_config st' st''"
    using send_msg_tcp_returns [OF io(1)] by blast
  then show ?thesis
    using sw good(2,3) ok same_config_trans unfolding sft_def by (auto simp: modbus_reply_def rds)
qed

end
