(* ===== verification/Modbus_System.thy ===== *)
theory Modbus_System
  imports Modbus_Server
begin

text \<open>
  Client and server of libmodbus together. A client talks over a stream socket to a server
  that runs \<open>modbus_reply\<close> on its tables; what the client writes is what it reads back.
\<close>

section \<open>Receiving from a stream\<close>

text \<open>
  A socket with input waiting: \<open>select\<close> reports it ready and \<open>recv\<close> takes the first bytes of
  what has arrived, leaving the rest.
\<close>

definition next_timeout :: "'w mbs \<Rightarrow> timeval option \<Rightarrow> int \<Rightarrow> timeval option" where
  "next_timeout st tv k =
     (if k > 0 \<and> (fst (mb_byte_timeout st) > 0 \<or> snd (mb_byte_timeout st) > 0)
      then Some (mb_byte_timeout st) else tv)"

locale stream_socket =
  fixes io :: "'w sock_ops" and inbuf :: "'w \<Rightarrow> u8 list" and take_in :: "nat \<Rightarrow> 'w \<Rightarrow> 'w"
  assumes ready: "inbuf w \<noteq> [] \<Longrightarrow> sk_select_read io s tv w = (SysOk 1, w)"
    and recv: "0 < n \<Longrightarrow> inbuf w \<noteq> [] \<Longrightarrow> sk_recv io s n d w = (SysOk (take n (inbuf w)), take_in n w)"
    and inbuf_take: "inbuf (take_in n w) = drop n (inbuf w)"
    and take_in_0: "take_in 0 w = w"
    and take_in_add: "take_in m (take_in n w) = take_in (n + m) w"
begin

lemma receive_turn:
  assumes n: "0 < n" "length msg + n \<le> 260" and buf: "inbuf (mb_world st) = bs @ rest" "length bs = n"
  shows "receive_msg_loop modbus_tcp_backend io ty msg step (int n) tv st =
    (do { next \<leftarrow> receive_next_step (modbus_tcp_backend :: 'w modbus_backend) ty step (msg @ bs);
          case next of
            None \<Rightarrow> Some (- 1, msg @ bs, st\<lparr>mb_world := take_in n (mb_world st), mb_errno := EMBBADDATA\<rparr>)
          | Some (step', k) \<Rightarrow>
              receive_msg_loop modbus_tcp_backend io ty (msg @ bs) step' k (next_timeout st tv k)
                (st\<lparr>mb_world := take_in n (mb_world st)\<rparr>) })"
proof -
  have ne: "inbuf (mb_world st) \<noteq> []" using n buf by auto
  have sel: "modbus_tcp_select io st tv = Some (1, st)"
    using ready [OF ne] by (subst modbus_tcp_select.simps) simp
  have rcv: "modbus_tcp_recv io st (int n) = (int n, bs, st\<lparr>mb_world := take_in n (mb_world st)\<rparr>)"
    using recv [OF n(1) ne] buf by (simp add: modbus_tcp_recv_def)
  show ?thesis
    by (subst receive_msg_loop.simps)
       (use n buf(2) sel rcv in \<open>simp add: append_buf_def next_timeout_def cong: if_cong\<close>)
qed

lemma receive_rest:
  assumes k: "compute_data_length_after_meta (modbus_tcp_backend :: 'w modbus_backend) msg ty = Some k"
    and len: "int (length msg) + k \<le> 260" and buf: "inbuf (mb_world st) = bs @ rest" "int (length bs) = k"
  shows "receive_msg_loop modbus_tcp_backend io ty msg STEP_DATA k tv st =
      Some (int (length msg) + k, msg @ bs, st\<lparr>mb_world := take_in (nat k) (mb_world st)\<rparr>)"
proof (cases "k = 0")
  case True
  then show ?thesis
    using buf by (subst receive_msg_loop.simps) (simp add: modbus_tcp_check_integrity_def take_in_0)
next
  case False
  let ?st = "st\<lparr>mb_world := take_in (nat k) (mb_world st)\<rparr>"
  have n: "0 < nat k" "length msg + nat k \<le> 260" "length bs = nat k" "int (nat k) = k"
    using False buf len by auto
  have "receive_msg_loop modbus_tcp_backend io ty msg STEP_DATA k tv st =
      receive_msg_loop modbus_tcp_backend io ty (msg @ bs) STEP_DATA 0 (next_timeout st tv 0) ?st"
    using receive_turn [OF n(1,2) buf(1) n(3), of ty STEP_DATA tv] n(4) by (simp add: receive_next_step_def)
  also have "\<dots> = Some (int (length msg) + k, msg @ bs, ?st)"
    using buf(2) by (subst receive_msg_loop.simps) (simp add: modbus_tcp_check_integrity_def)
  finally show ?thesis .
qed

text \<open>A complete message at the head of the input is received whole, and nothing more is taken.\<close>

lemma receive_whole:
  assumes compl: "msg_complete (modbus_tcp_backend :: 'w modbus_backend) ty msg"
    and buf: "inbuf (mb_world st) = msg @ rest"
  shows "modbus_receive_msg modbus_tcp_backend io ty st =
      Some (int (length msg), msg, st\<lparr>mb_world := take_in (length msg) (mb_world st)\<rparr>)"
proof -
  define meta where "meta = compute_meta_length_after_function (uint (msg ! 7)) ty"
  obtain k where k: "compute_data_length_after_meta (modbus_tcp_backend :: 'w modbus_backend) msg ty = Some k"
    and len: "int (length msg) = 8 + meta + k" and max: "length msg \<le> 260"
    using compl unfolding msg_complete_def by (elim conjE exE) (rule that, auto simp: meta_def)
  have m0: "0 \<le> meta" "meta \<le> 9" and k0: "0 \<le> k"
    using meta_length_range data_length_nonneg [OF k] by (auto simp: meta_def)
  define pre where "pre = take (8 + nat meta) msg"
  define bs where "bs = drop (8 + nat meta) msg"
  have msg: "msg = pre @ bs" "length pre = 8 + nat meta" "int (length bs) = k"
    using len m0 k0 by (auto simp: pre_def bs_def)
  have f: "take 8 msg ! 7 = msg ! 7" "pre ! 7 = msg ! 7" using msg len m0 k0 by (auto simp: pre_def)
  have kpre: "compute_data_length_after_meta (modbus_tcp_backend :: 'w modbus_backend) pre ty = Some k"
  proof -
    obtain k' where k': "compute_data_length_after_meta (modbus_tcp_backend :: 'w modbus_backend) pre ty = Some k'"
      using data_length_defined [of "modbus_tcp_backend :: 'w modbus_backend" pre ty] msg(2) f(2) m0 meta_def by auto
    with data_length_append [OF k', of bs] k msg(1) show ?thesis by simp
  qed
  have after: "receive_after_meta (modbus_tcp_backend :: 'w modbus_backend) ty pre = Some (Some (STEP_DATA, k))"
    using kpre msg len max m0 by (simp add: receive_after_meta_def)
  have n8: "8 \<le> length msg" using len m0 k0 by linarith
  let ?st = "st\<lparr>mb_world := take_in 8 (mb_world st)\<rparr>"
  have buf0: "inbuf (mb_world st) = take 8 msg @ drop 8 msg @ rest" and buf1: "inbuf (mb_world ?st) = drop 8 msg @ rest"
    using inbuf_take buf n8 by simp_all
  note turn1 = receive_turn [of 8 "[]" st, OF _ _ buf0, simplified]
  show ?thesis
  proof (cases "meta = 0")
    case True
    then have p: "take 8 msg = pre" "drop 8 msg = bs" by (simp_all add: pre_def bs_def)
    then have "receive_next_step (modbus_tcp_backend :: 'w modbus_backend) ty STEP_FUNCTION pre = Some (Some (STEP_DATA, k))"
      using after True f n8 msg(2) by (simp add: receive_next_step_def rd_def meta_def)
    then obtain tv1 where t1: "modbus_receive_msg modbus_tcp_backend io ty st =
        receive_msg_loop modbus_tcp_backend io ty pre STEP_DATA k tv1 ?st"
      using turn1 n8 p by (auto simp: modbus_receive_msg_def)
    have "int (length pre) + k = int (length msg)" "length msg = length pre + nat k" using msg(1,3) by auto
    then show ?thesis
      using receive_rest [OF kpre _ buf1 [unfolded p(2)] msg(3), of tv1] max msg(1,2) True unfolding t1 by (simp add: take_in_add)
  next
    case False
    let ?st2 = "?st\<lparr>mb_world := take_in (nat meta) (mb_world ?st)\<rparr>"
    define mb where "mb = take (nat meta) (drop 8 msg)"
    have "length mb = nat meta" using n8 len m0 k0 by (auto simp: mb_def)
    moreover have "take 8 msg @ mb = pre" by (simp only: mb_def pre_def take_add)
    moreover have "drop 8 msg = mb @ bs" unfolding mb_def bs_def by (metis append_take_drop_id drop_drop add.commute)
    ultimately have mb: "length mb = nat meta" "take 8 msg @ mb = pre" "drop 8 msg = mb @ bs" .
    have s1: "receive_next_step (modbus_tcp_backend :: 'w modbus_backend) ty STEP_FUNCTION (take 8 msg) = Some (Some (STEP_META, int (nat meta)))"
      using False f n8 m0 by (simp add: receive_next_step_def rd_def meta_def)
    obtain tv1 where t1: "modbus_receive_msg modbus_tcp_backend io ty st =
        receive_msg_loop modbus_tcp_backend io ty (take 8 msg) STEP_META (int (nat meta)) tv1 ?st"
      using turn1 n8 s1 by (auto simp: modbus_receive_msg_def)
    have buf2: "inbuf (mb_world ?st) = mb @ bs @ rest" using buf1 mb(3) by simp
    have t2: "receive_msg_loop modbus_tcp_backend io ty (take 8 msg) STEP_META (int (nat meta)) tv1 ?st =
        receive_msg_loop modbus_tcp_backend io ty pre STEP_DATA k (next_timeout ?st tv1 k) ?st2"
      by (subst receive_turn [OF _ _ buf2 mb(1)])
         (use False m0 n8 after in \<open>simp_all add: mb(2) receive_next_step_def\<close>)
    have buf3: "inbuf (mb_world ?st2) = bs @ rest"
      using inbuf_take [of "nat meta" "mb_world ?st"] buf2 mb(1) by simp
    have "int (length pre) + k = int (length msg)" "length msg = length pre + nat k" using msg(1,3) by auto
    then show ?thesis
      using receive_rest [OF kpre _ buf3 msg(3), of "next_timeout ?st tv1 k"] max msg(1,2) m0(1) unfolding t1 t2 by (simp add: take_in_add)
  qed
qed

end

section \<open>A client and a server\<close>

text \<open>
  The server's side of the connection: what it sends is collected, and nothing more is waiting
  when it flushes. The client's side: sending a message runs \<open>modbus_reply\<close> on the server's
  tables and makes the answer available for reading.
\<close>

definition server_io :: "u8 list sock_ops" where
  "server_io = \<lparr>
     sk_socket = (\<lambda>dom w. (SysOk 1, w)), sk_connect = (\<lambda>s ip port w. (SysOk (), w)),
     sk_so_error = (\<lambda>s w. (SysOk 0, w)), sk_close = (\<lambda>s w. w),
     sk_send = (\<lambda>s m w. (SysOk (length m), w @ m)),
     sk_recv = (\<lambda>s n dontwait w. (SysErr (EOTHER 11), w)),
     sk_select_read = (\<lambda>s tv w. (SysOk 0, w)), sk_select_write = (\<lambda>s tv w. (SysOk 1, w)),
     sk_mdelay = (\<lambda>ms w. w)\<rparr>"

definition server_ctx :: "u8 list mbs" where
  "server_ctx = modbus_init_common
     \<lparr>mb_null = False, mb_slave = 255, mb_s = 1, mb_debug = 0, mb_error_recovery = 0,
      mb_response_timeout = (0, 0), mb_byte_timeout = (0, 0), tcp_domain = 2, tcp_ip = [], tcp_port = 502,
      tcp_t_id = 0, mb_errno = EOK, mb_world = []\<rparr>"

definition serve :: "modbus_mapping \<Rightarrow> u8 list \<Rightarrow> modbus_mapping \<times> u8 list" where
  "serve mp req =
     (case modbus_reply modbus_tcp_backend server_io req (int (length req)) mp server_ctx of
        Some (rc, mp', st) \<Rightarrow> (mp', mb_world st)
      | None \<Rightarrow> (mp, []))"

record loop_world =
  lw_mapping :: modbus_mapping
  lw_in :: "u8 list"

definition loop_io :: "loop_world sock_ops" where
  "loop_io = \<lparr>
     sk_socket = (\<lambda>dom w. (SysOk 1, w)), sk_connect = (\<lambda>s ip port w. (SysOk (), w)),
     sk_so_error = (\<lambda>s w. (SysOk 0, w)), sk_close = (\<lambda>s w. w),
     sk_send = (\<lambda>s m w. (SysOk (length m),
       w\<lparr>lw_mapping := fst (serve (lw_mapping w) m), lw_in := lw_in w @ snd (serve (lw_mapping w) m)\<rparr>)),
     sk_recv = (\<lambda>s n dontwait w.
       if lw_in w = [] then (SysErr (EOTHER 11), w)
       else (SysOk (take n (lw_in w)), w\<lparr>lw_in := drop n (lw_in w)\<rparr>)),
     sk_select_read = (\<lambda>s tv w. (SysOk (if lw_in w = [] then 0 else 1), w)),
     sk_select_write = (\<lambda>s tv w. (SysOk 1, w)),
     sk_mdelay = (\<lambda>ms w. w)\<rparr>"

interpretation loop: stream_socket loop_io lw_in "\<lambda>n w. w\<lparr>lw_in := drop n (lw_in w)\<rparr>"
  by unfold_locales (simp_all add: loop_io_def add.commute)

lemma sock_ok_loop: "sock_ok loop_io"
  by (auto simp: sock_ok_def loop_io_def split: if_splits)

lemma sock_ok_server: "sock_ok server_io" "finite_input server_io (\<lambda>_. 0)"
  by (simp_all add: sock_ok_def finite_input_def server_io_def)

text \<open>The message with the length that \<open>send_msg_pre\<close> writes into it.\<close>

definition mbap :: "u8 list \<Rightarrow> u8 list" where
  "mbap msg = msg[4 := byte ((int (length msg) - 6) div 256), 5 := byte (int (length msg) - 6)]"

lemma mbap_simps [simp]:
  "length (mbap msg) = length msg" "i \<noteq> 4 \<Longrightarrow> i \<noteq> 5 \<Longrightarrow> mbap msg ! i = msg ! i"
  "6 \<le> n \<Longrightarrow> drop n (mbap msg) = drop n msg"
  by (simp_all add: mbap_def)

lemma send_msg_pre_mbap: "6 \<le> length msg \<Longrightarrow> modbus_tcp_send_msg_pre msg = Some (mbap msg)"
  by (simp add: modbus_tcp_send_msg_pre_def wr_def mbap_def Let_def)

lemma server_ctx_simps [simp]:
  "mb_null server_ctx = False" "recovery_link server_ctx = False" "mb_world server_ctx = []"
  by (simp_all add: server_ctx_def modbus_init_common_def recovery_link_def)

lemma send_msg_server:
  "6 \<le> length msg \<Longrightarrow> send_msg modbus_tcp_backend server_io msg server_ctx =
     Some (int (length msg), server_ctx\<lparr>mb_world := mbap msg\<rparr>)"
  by (simp add: send_msg_def send_msg_pre_mbap, subst send_msg_loop.simps)
     (simp add: modbus_tcp_send_def server_io_def recovery_link_def)

text \<open>The server answers a request that its switch handles without touching the context.\<close>

lemma serve_switch:
  assumes len: "8 \<le> length req" and slave: "req ! 6 \<noteq> 0" and f: "uint (req ! 7) \<noteq> FC_READ_EXCEPTION_STATUS"
    and sw: "reply_switch modbus_tcp_backend server_io req (int (length req))
        \<lparr>sft_slave = uint (req ! 6), sft_function = uint (req ! 7), sft_t_id = be16 (req ! 0) (req ! 1)\<rparr>
        mp server_ctx = Some (rsp, mp', server_ctx)"
    and rsp: "6 \<le> length rsp"
  shows "serve mp req = (mp', mbap rsp)"
proof -
  have "rd req 6 = Some (req ! 6)" "rd req 7 = Some (req ! 7)"
    "modbus_tcp_prepare_response_tid req (int (length req)) = Some (be16 (req ! 0) (req ! 1), int (length req))"
    using len by (auto simp: rd_def rd16_Some modbus_tcp_prepare_response_tid_def)
  moreover have "uint (req ! 6) \<noteq> 0" using slave by (simp add: uint_0_iff)
  ultimately show ?thesis
    using f sw send_msg_server [OF rsp] by (simp add: serve_def modbus_reply_def)
qed

lemma be16_bytes: "byte (be16 h l div 256) = h" "byte (be16 h l) = l"
proof -
  have "0 \<le> uint h" "uint h < 256" "0 \<le> uint l" "uint l < 256"
    using uint_lt2p [of h] uint_lt2p [of l] by simp_all
  then show "byte (be16 h l div 256) = h" "byte (be16 h l) = l"
    unfolding word_uint_eq_iff uint_byte be16_def by simp_all
qed

lemma response_basis_nth:
  "modbus_tcp_build_response_basis \<lparr>sft_slave = uint s, sft_function = uint f, sft_t_id = be16 h l\<rparr> =
     [h, l, 0, 0, 0, 0, s, f]"
  by (simp add: modbus_tcp_build_response_basis_def be16_bytes)

text \<open>One exchange with the server, when it answers with an acceptable response.\<close>

lemma exchange_loop:
  fixes st :: "loop_world mbs"
  assumes nr: "no_recovery st" and w: "mb_world st = \<lparr>lw_mapping = mp, lw_in = []\<rparr>"
    and req: "8 \<le> length req" and srv: "serve mp (mbap req) = (mp', rsp)"
    and compl: "msg_complete (modbus_tcp_backend :: loop_world modbus_backend) MSG_CONFIRMATION rsp"
    and ids: "rsp ! 0 = req ! 0" "rsp ! 1 = req ! 1" "rsp ! 2 = 0" "rsp ! 7 = req ! 7" "uint (req ! 7) < 0x80"
    and n: "compute_response_length_from_request (modbus_tcp_backend :: loop_world modbus_backend) req = Some (int (length rsp))"
    and q: "confirmation_quantities (modbus_tcp_backend :: loop_world modbus_backend) (uint (req ! 7)) req rsp = Some (rc, rc)"
    and rc: "rc \<noteq> - 1"
  shows "exchange modbus_tcp_backend loop_io req st = Some (rc, Some rsp, st\<lparr>mb_world := \<lparr>lw_mapping = mp', lw_in = []\<rparr>\<rparr>)"
proof -
  let ?st = "st\<lparr>mb_world := \<lparr>lw_mapping = mp', lw_in = rsp\<rparr>\<rparr>"
  have nolink: "\<not> recovery_link ?st" "\<not> recovery_link st" and noproto: "\<not> recovery_protocol (st\<lparr>mb_world := w\<rparr>)" for w
    using nr by (auto simp: no_recovery_def recovery_link_def recovery_protocol_def)
  have send: "send_msg modbus_tcp_backend loop_io req st = Some (int (length req), ?st)"
    using req w srv nolink by (simp add: send_msg_def send_msg_pre_mbap, subst send_msg_loop.simps)
      (simp add: modbus_tcp_send_def loop_io_def)
  have rcv: "modbus_receive_msg modbus_tcp_backend loop_io MSG_CONFIRMATION ?st =
      Some (int (length rsp), rsp, st\<lparr>mb_world := \<lparr>lw_mapping = mp', lw_in = []\<rparr>\<rparr>)"
    using loop.receive_whole [OF compl, of ?st "[]"] by simp
  have "9 \<le> length rsp" using msg_complete_confirmation(1) [OF compl] .
  then have "check_confirmation modbus_tcp_backend loop_io req rsp (int (length rsp))
      (st\<lparr>mb_world := \<lparr>lw_mapping = mp', lw_in = []\<rparr>\<rparr>) = Some (rc, st\<lparr>mb_world := \<lparr>lw_mapping = mp', lw_in = []\<rparr>\<rparr>)"
    using check_confirmation_tcp [OF noproto req _ n] ids q by simp
  then show ?thesis
    using send rcv req rc by (cases req) (auto simp: exchange_def)
qed

section \<open>Reading and writing registers end to end\<close>

text \<open>The request of a client, as the server sees it.\<close>

lemma request_bytes:
  assumes b: "modbus_tcp_build_request_basis st f addr nb = (req, st')"
    and f: "0 \<le> f" "f < 256" and a: "0 \<le> addr" "addr < 65536" and n: "0 \<le> nb" "nb < 65536"
    and slave: "0 < mb_slave st" "mb_slave st < 256"
  shows "length req = 12" "req ! 2 = 0" "req ! 6 \<noteq> 0" "uint (req ! 7) = f"
    "be16 (req ! 8) (req ! 9) = addr" "be16 (req ! 10) (req ! 11) = nb"
    "no_recovery st' = no_recovery st" "mb_world st' = mb_world st" "mb_slave st' = mb_slave st"
    "mb_null st' = mb_null st"
proof -
  have "byte (mb_slave st) \<noteq> 0"
    using slave by (simp add: byte_def word_uint_eq_iff uint_word_of_int)
  then show "req ! 2 = 0" "req ! 6 \<noteq> 0" "mb_world st' = mb_world st" "mb_slave st' = mb_slave st"
    using b unfolding modbus_tcp_build_request_basis_def Let_def by auto
  show "length req = 12" "uint (req ! 7) = f" "be16 (req ! 8) (req ! 9) = addr" "be16 (req ! 10) (req ! 11) = nb"
    "no_recovery st' = no_recovery st" "mb_null st' = mb_null st"
    using tcp_request_basis [OF b] f a n by (simp_all add: byte_fc)
qed

lemma loop_read_registers:
  fixes st :: "loop_world mbs"
  assumes nr: "no_recovery st" "\<not> mb_null st" and w: "mb_world st = \<lparr>lw_mapping = mp, lw_in = []\<rparr>"
    and slave: "0 < mb_slave st" "mb_slave st < 256"
    and ok: "mapping_ok mp" and nb: "1 \<le> nb" "nb \<le> 125" and addr: "0 \<le> addr" "addr < 65536"
    and a: "start_registers mp \<le> addr" "addr - start_registers mp + nb \<le> nb_registers mp"
    and dest: "nat nb \<le> length dest"
  shows "\<exists>st'. modbus_read_registers modbus_tcp_backend loop_io addr nb dest st =
      Some (nb, take (nat nb) (drop (nat (addr - start_registers mp)) (tab_registers mp)) @ drop (nat nb) dest, st')
    \<and> mb_world st' = mb_world st \<and> no_recovery st' \<and> mb_slave st' = mb_slave st \<and> \<not> mb_null st'"
proof -
  define vs where "vs = take (nat nb) (drop (nat (addr - start_registers mp)) (tab_registers mp))"
  have vs: "length vs = nat nb" using a nb ok by (auto simp: vs_def mapping_ok_def)
  obtain req st1 where b: "modbus_tcp_build_request_basis st FC_READ_HOLDING_REGISTERS addr nb = (req, st1)"
    by (cases "modbus_tcp_build_request_basis st FC_READ_HOLDING_REGISTERS addr nb")
  have "0 \<le> FC_READ_HOLDING_REGISTERS" "FC_READ_HOLDING_REGISTERS < 256" "0 \<le> nb" "nb < 65536" using nb by simp_all
  note rq = request_bytes [OF b this(1,2) addr this(3,4) slave]
  let ?h = "[req ! 0, req ! 1, 0, 0, 0, 0, req ! 6, req ! 7]"
  define rsp where "rsp = mbap (?h @ byte (nb * 2) # reg_bytes vs)"
  have mlen: "length (mbap req) = 12" using rq(1) by simp
  have srv: "serve mp (mbap req) = (mp, rsp)"
    unfolding rsp_def
  proof (rule serve_switch)
    have "modbus_tcp_build_response_basis \<lparr>sft_slave = uint (req ! 6), sft_function = 3,
        sft_t_id = be16 (req ! 0) (req ! 1)\<rparr> = ?h"
      using response_basis_nth [of "req ! 6" "req ! 7" "req ! 0" "req ! 1"] rq(4) by simp
    then have "reply_read_registers modbus_tcp_backend server_io (mbap req)
        \<lparr>sft_slave = uint (mbap req ! 6), sft_function = uint (mbap req ! 7), sft_t_id = be16 (mbap req ! 0) (mbap req ! 1)\<rparr>
        mp server_ctx = Some (?h @ byte (nb * 2) # reg_bytes vs, mp, server_ctx)"
      by (subst reply_read_registers_tcp [OF mlen ok refl refl _ nb refl])
         (use rq a nb ok in \<open>simp_all add: vs_def mapping_ok_def\<close>)
    then show "reply_switch modbus_tcp_backend server_io (mbap req) (int (length (mbap req)))
        \<lparr>sft_slave = uint (mbap req ! 6), sft_function = uint (mbap req ! 7), sft_t_id = be16 (mbap req ! 0) (mbap req ! 1)\<rparr>
        mp server_ctx = Some (?h @ byte (nb * 2) # reg_bytes vs, mp, server_ctx)"
      using rq(4) by (simp add: reply_switch_def)
  qed (use rq in auto)
  have u: "uint (byte (nb * 2)) = nb * 2" using nb by (simp add: uint_byte)
  have rspn: "rsp ! 7 = req ! 7" "rsp ! 8 = byte (nb * 2)" "length rsp = 9 + 2 * nat nb"
    using vs by (simp_all add: rsp_def)
  have ex: "exchange modbus_tcp_backend loop_io req st1 =
      Some (nb, Some rsp, st1\<lparr>mb_world := \<lparr>lw_mapping = mp, lw_in = []\<rparr>\<rparr>)"
  proof (rule exchange_loop [OF _ _ _ srv])
    show "msg_complete (modbus_tcp_backend :: loop_world modbus_backend) MSG_CONFIRMATION rsp"
      using rspn rq(4) u nb
      by (simp add: msg_complete_def compute_data_length_after_meta_def rd_def compute_meta_length_after_function_def)
    show "compute_response_length_from_request (modbus_tcp_backend :: loop_world modbus_backend) req = Some (int (length rsp))"
      using rq rspn nb by (simp add: compute_response_length_from_request_def rd_def rd16_Some)
    show "confirmation_quantities (modbus_tcp_backend :: loop_world modbus_backend) (uint (req ! 7)) req rsp = Some (nb, nb)"
      using rq rspn u by (simp add: confirmation_quantities_def rd_def rd16_Some)
  qed (use nr w rq rspn nb in \<open>simp_all add: rsp_def\<close>)
  have regs: "map (register_at 9 rsp) [0..<nat nb] = vs"
  proof (rule nth_equalityI)
    fix i assume "i < length (map (register_at 9 rsp) [0..<nat nb])"
    then have "register_at 9 rsp i = register_at 9 ((?h @ [byte (nb * 2)]) @ reg_bytes vs @ []) i"
      by (simp add: register_at_def rsp_def)
    also have "\<dots> = vs ! i"
      by (rule register_at_reg_bytes) (use \<open>i < _\<close> vs in simp_all)
    finally show "map (register_at 9 rsp) [0..<nat nb] ! i = vs ! i" using \<open>i < _\<close> by simp
  qed (simp add: vs)
  have "read_register_values 7 rsp [0..<nat nb] dest = Some (vs @ drop (nat nb) dest)"
    using read_register_values_spec [of 0 "nat nb" dest 7 rsp] dest rspn(3) regs by simp
  then show ?thesis
    using b ex nr nb rq(7-10) w slave
    by (simp add: modbus_read_registers_def read_registers_def vs_def [symmetric] no_recovery_def recovery_link_def recovery_protocol_def)
qed

lemma take4_drop8: "12 \<le> length xs \<Longrightarrow> take 4 (drop 8 xs) = [xs ! 8, xs ! 9, xs ! 10, xs ! 11]"
proof -
  assume "12 \<le> length xs"
  then have "take 4 (drop 8 xs) = map (\<lambda>i. xs ! (8 + i)) [0..<4]"
    by (intro nth_equalityI) auto
  then show ?thesis by (simp add: upt_conv_Cons)
qed

lemma loop_write_registers:
  fixes st :: "loop_world mbs"
  assumes nr: "no_recovery st" "\<not> mb_null st" and w: "mb_world st = \<lparr>lw_mapping = mp, lw_in = []\<rparr>"
    and slave: "0 < mb_slave st" "mb_slave st < 256"
    and ok: "mapping_ok mp" and nb: "1 \<le> nb" "nb \<le> 123" and addr: "0 \<le> addr" "addr < 65536"
    and a: "a = addr - start_registers mp" "0 \<le> a" "a + nb \<le> nb_registers mp"
    and src: "nat nb \<le> length src"
  shows "\<exists>st'. modbus_write_registers modbus_tcp_backend loop_io addr nb src st = Some (nb, st')
    \<and> mb_world st' = \<lparr>lw_mapping = mp\<lparr>tab_registers := take (nat a) (tab_registers mp) @ take (nat nb) src
         @ drop (nat a + nat nb) (tab_registers mp)\<rparr>, lw_in = []\<rparr>
    \<and> no_recovery st' \<and> mb_slave st' = mb_slave st \<and> \<not> mb_null st'"
proof -
  obtain basis st1 where b: "modbus_tcp_build_request_basis st FC_WRITE_MULTIPLE_REGISTERS addr nb = (basis, st1)"
    by (cases "modbus_tcp_build_request_basis st FC_WRITE_MULTIPLE_REGISTERS addr nb")
  have "0 \<le> FC_WRITE_MULTIPLE_REGISTERS" "FC_WRITE_MULTIPLE_REGISTERS < 256" "0 \<le> nb" "nb < 65536" using nb by simp_all
  note rq = request_bytes [OF b this(1,2) addr this(3,4) slave]
  define req where "req = basis @ byte (nb * 2) # reg_bytes (take (nat nb) src)"
  have nth: "i < 12 \<Longrightarrow> req ! i = basis ! i" for i using rq(1) by (simp add: req_def nth_append)
  have len: "length req = 13 + 2 * nat nb" using rq(1) src by (simp add: req_def)
  let ?h = "[req ! 0, req ! 1, 0, 0, 0, 0, req ! 6, req ! 7]"
  define rsp where "rsp = mbap (?h @ [req ! 8, req ! 9, req ! 10, req ! 11])"
  define mp' where "mp' = mp\<lparr>tab_registers := take (nat a) (tab_registers mp) @ take (nat nb) src
         @ drop (nat a + nat nb) (tab_registers mp)\<rparr>"
  have mlen: "13 \<le> length (mbap req)" using len by simp
  have regs: "map (register_at 13 (mbap req)) [0..<nat nb] = take (nat nb) src"
  proof (rule nth_equalityI)
    fix i assume "i < length (map (register_at 13 (mbap req)) [0..<nat nb])"
    then have i: "i < nat nb" by simp
    have "register_at 13 (mbap req) i = register_at 13 ((basis @ [byte (nb * 2)]) @ reg_bytes (take (nat nb) src) @ []) i"
      by (simp add: register_at_def req_def)
    also have "\<dots> = take (nat nb) src ! i"
      by (rule register_at_reg_bytes) (use i src rq(1) in simp_all)
    finally show "map (register_at 13 (mbap req)) [0..<nat nb] ! i = take (nat nb) src ! i" using i by simp
  qed (use src in simp)
  have f: "uint (req ! 7) = 16" using rq(4) nth by simp
  have basis: "modbus_tcp_build_response_basis \<lparr>sft_slave = uint (req ! 6), sft_function = 16,
      sft_t_id = be16 (req ! 0) (req ! 1)\<rparr> = ?h"
    using response_basis_nth [of "req ! 6" "req ! 7" "req ! 0" "req ! 1"] f by simp
  have srv: "serve mp (mbap req) = (mp', rsp)"
    unfolding rsp_def
  proof (rule serve_switch)
    have "take 4 (drop 8 (mbap req)) = [req ! 8, req ! 9, req ! 10, req ! 11]"
      using take4_drop8 [of req] len by simp
    then have "reply_write_registers modbus_tcp_backend server_io (mbap req)
        \<lparr>sft_slave = uint (mbap req ! 6), sft_function = uint (mbap req ! 7), sft_t_id = be16 (mbap req ! 0) (mbap req ! 1)\<rparr>
        mp server_ctx = Some (?h @ [req ! 8, req ! 9, req ! 10, req ! 11], mp', server_ctx)"
      by (subst reply_write_registers_tcp [OF mlen ok _ nb _ _ a(2,3)])
         (use rq nth a(1) nb len basis f regs in \<open>simp_all add: mp'_def\<close>)
    then show "reply_switch modbus_tcp_backend server_io (mbap req) (int (length (mbap req)))
        \<lparr>sft_slave = uint (mbap req ! 6), sft_function = uint (mbap req ! 7), sft_t_id = be16 (mbap req ! 0) (mbap req ! 1)\<rparr>
        mp server_ctx = Some (?h @ [req ! 8, req ! 9, req ! 10, req ! 11], mp', server_ctx)"
      using f by (simp add: reply_switch_def)
  qed (use rq nth len f in auto)
  have rspn: "rsp ! 7 = req ! 7" "rsp ! 10 = req ! 10" "rsp ! 11 = req ! 11" "length rsp = 12"
    by (simp_all add: rsp_def)
  have q: "be16 (req ! 10) (req ! 11) = nb" using rq(6) nth by simp
  have "exchange modbus_tcp_backend loop_io req st1 = Some (nb, Some rsp, st1\<lparr>mb_world := \<lparr>lw_mapping = mp', lw_in = []\<rparr>\<rparr>)"
  proof (rule exchange_loop [OF _ _ _ srv])
    show "msg_complete (modbus_tcp_backend :: loop_world modbus_backend) MSG_CONFIRMATION rsp"
      using rspn f
      by (simp add: msg_complete_def compute_data_length_after_meta_def rd_def compute_meta_length_after_function_def)
    show "compute_response_length_from_request (modbus_tcp_backend :: loop_world modbus_backend) req = Some (int (length rsp))"
      using f rspn len by (simp add: compute_response_length_from_request_def rd_def)
    show "confirmation_quantities (modbus_tcp_backend :: loop_world modbus_backend) (uint (req ! 7)) req rsp = Some (nb, nb)"
      using f rspn q len by (simp add: confirmation_quantities_def rd16_Some)
  qed (use nr w rq nb f len in \<open>simp_all add: rsp_def\<close>)
  then show ?thesis
    using modbus_write_registers_message [OF _ _ src nr(2) b, of loop_io] nb rq(7-10) slave nr
    by (simp add: req_def [symmetric] mp'_def [symmetric] no_recovery_def recovery_link_def recovery_protocol_def)
qed

section \<open>Properties\<close>

text \<open>A client context and a server's tables, for concrete instances.\<close>

definition demo_mapping :: modbus_mapping where
  "demo_mapping = \<lparr>nb_bits = 0, start_bits = 0, nb_input_bits = 0, start_input_bits = 0,
     nb_input_registers = 0, start_input_registers = 0, nb_registers = 4, start_registers = 10,
     tab_bits = [], tab_input_bits = [], tab_input_registers = [], tab_registers = [1, 2, 3, 4]\<rparr>"

definition demo_client :: "loop_world mbs" where
  "demo_client = \<lparr>mb_null = False, mb_slave = 255, mb_s = 1, mb_debug = 0, mb_error_recovery = 0,
     mb_response_timeout = (0, 500000), mb_byte_timeout = (0, 500000), tcp_domain = 2, tcp_ip = [],
     tcp_port = 502, tcp_t_id = 0, mb_errno = EOK, mb_world = \<lparr>lw_mapping = demo_mapping, lw_in = []\<rparr>\<rparr>"

lemma demo_simps [simp]:
  "no_recovery demo_client" "mb_null demo_client = False" "mb_slave demo_client = 255"
  "mb_world demo_client = \<lparr>lw_mapping = demo_mapping, lw_in = []\<rparr>" "mapping_ok demo_mapping"
  "start_registers demo_mapping = 10" "nb_registers demo_mapping = 4" "no_recovery server_ctx"
  by (simp_all add: demo_client_def demo_mapping_def no_recovery_def recovery_link_def recovery_protocol_def
      mapping_ok_def server_ctx_def modbus_init_common_def)

text \<open>
  (C1) What a client writes with \<open>modbus_write_registers\<close> to a libmodbus server, it reads back
  with \<open>modbus_read_registers\<close>: both requests return the quantity asked for, and the values
  come back in order, through the encoding, the transaction ids, the step-wise reception and
  the checks of both sides.
\<close>

theorem write_then_read:
  fixes st :: "loop_world mbs"
  assumes st: "no_recovery st" "\<not> mb_null st" "mb_world st = \<lparr>lw_mapping = mp, lw_in = []\<rparr>"
      "0 < mb_slave st" "mb_slave st < 256"
    and mp: "mapping_ok mp" and nb: "1 \<le> nb" "nb \<le> 123" and addr: "0 \<le> addr" "addr < 65536"
    and range: "start_registers mp \<le> addr" "addr - start_registers mp + nb \<le> nb_registers mp"
    and bufs: "nat nb \<le> length src" "nat nb \<le> length dest"
  shows "\<exists>st1 st2. modbus_write_registers modbus_tcp_backend loop_io addr nb src st = Some (nb, st1) \<and>
    modbus_read_registers modbus_tcp_backend loop_io addr nb dest st1 =
      Some (nb, take (nat nb) src @ drop (nat nb) dest, st2)"
proof -
  define a where "a = addr - start_registers mp"
  define mp' where "mp' = mp\<lparr>tab_registers := take (nat a) (tab_registers mp) @ take (nat nb) src
         @ drop (nat a + nat nb) (tab_registers mp)\<rparr>"
  have a: "0 \<le> a" "a + nb \<le> nb_registers mp" using range by (simp_all add: a_def)
  obtain st1 where wr: "modbus_write_registers modbus_tcp_backend loop_io addr nb src st = Some (nb, st1)"
    and st1: "mb_world st1 = \<lparr>lw_mapping = mp', lw_in = []\<rparr>" "no_recovery st1" "mb_slave st1 = mb_slave st" "\<not> mb_null st1"
    using loop_write_registers [OF st mp nb addr a_def a bufs(1)] unfolding mp'_def by blast
  have len: "nat a + nat nb \<le> length (tab_registers mp)" using a mp nb by (auto simp: mapping_ok_def)
  then have ok: "mapping_ok mp'" using mp bufs(1) by (auto simp: mp'_def mapping_ok_def)
  have vals: "take (nat nb) (drop (nat a) (tab_registers mp')) = take (nat nb) src"
    using len bufs(1) by (simp add: mp'_def)
  have "nb \<le> 125" "start_registers mp' \<le> addr" "addr - start_registers mp' + nb \<le> nb_registers mp'"
    using nb range by (simp_all add: mp'_def)
  note rd = loop_read_registers [OF st1(2,4,1) _ _ ok nb(1) this(1) addr this(2,3) bufs(2)]
  show ?thesis
    using wr rd st(4,5) st1(3) vals by (auto simp: a_def mp'_def)
qed

theorem write_then_read_witness:
  "\<exists>st1 st2. modbus_write_registers modbus_tcp_backend loop_io 11 2 [7, 9] demo_client = Some (2, st1) \<and>
    modbus_read_registers modbus_tcp_backend loop_io 11 2 [0, 0, 5] st1 = Some (2, [7, 9, 5], st2)"
  using write_then_read [of demo_client demo_mapping 2 11 "[7, 9]" "[0, 0, 5]"] by simp



text \<open>
  Whatever the peer sends, \<open>modbus_read_bits\<close> returns and stays inside the caller's
  array: it fails and leaves the array alone, or it returns the quantity asked for, and either
  nothing was sent and the array is untouched, or the first places hold the bits of an
  accepted response, one coil to a place.
\<close>

theorem modbus_read_bits_any_peer:
  assumes "sock_ok io" "no_recovery st" "\<not> mb_null st" "0 \<le> nb" "nb \<le> 2000" "nat nb \<le> length dest"
  shows "\<exists>rc dest' st'. modbus_read_bits modbus_tcp_backend io addr nb dest st = Some (rc, dest', st') \<and>
    (dest' = dest \<and> (rc = - 1 \<or> rc = nb) \<or>
     rc = nb \<and> (\<exists>rsp. response_accepted
         (fst (modbus_tcp_build_request_basis st FC_READ_COILS addr nb)) rsp ((nb + 7) div 8) \<and>
       dest' = map (coil_of (drop 9 rsp)) [0..<nat nb] @ drop (nat nb) dest))"
  using read_io_status_tcp [of io st nb dest FC_READ_COILS addr] assms
  by (auto simp: modbus_read_bits_def)

theorem modbus_read_bits_any_peer_witness:
  "\<exists>rc dest' st'. modbus_read_bits modbus_tcp_backend server_io 0 3 [0, 0, 0] server_ctx = Some (rc, dest', st') \<and>
    (dest' = [0, 0, 0] \<and> (rc = - 1 \<or> rc = 3) \<or>
     rc = 3 \<and> (\<exists>rsp. response_accepted
         (fst (modbus_tcp_build_request_basis server_ctx FC_READ_COILS 0 3)) rsp ((3 + 7) div 8) \<and>
       dest' = map (coil_of (drop 9 rsp)) [0..<nat 3] @ drop (nat 3) [0, 0, 0]))"
  by (rule modbus_read_bits_any_peer) (simp_all add: sock_ok_server)




end
