(* ===== verification/Collect.thy ===== *)
theory Collect
  imports Modbus_System
begin

text \<open>
  \<open>applications/collect.c\<close>: the thread that polls the device over Modbus TCP and keeps the
  latest values in \<open>collect_items\<close>. The thread never ends, so it is a transition system: one
  step connects, reads one item, or closes the connection.
\<close>

section \<open>The items\<close>

definition COLLECT_ITEM_TYPE_FLOAT :: u8 where "COLLECT_ITEM_TYPE_FLOAT = 0"
definition COLLECT_ITEM_TYPE_SHORT :: u8 where "COLLECT_ITEM_TYPE_SHORT = 1"

lemmas collect_type_defs [simp] = COLLECT_ITEM_TYPE_FLOAT_def COLLECT_ITEM_TYPE_SHORT_def

record collect_item =
  ci_name :: string
  ci_value :: "u8 list"
  ci_type :: u8
  ci_addr :: u32

definition collect_items :: "collect_item list" where
  "collect_items =
     [\<lparr>ci_name = ''Ua'', ci_value = [0, 0, 0, 0], ci_type = COLLECT_ITEM_TYPE_FLOAT, ci_addr = 0\<rparr>,
      \<lparr>ci_name = ''Ub'', ci_value = [0, 0, 0, 0], ci_type = COLLECT_ITEM_TYPE_FLOAT, ci_addr = 2\<rparr>,
      \<lparr>ci_name = ''Uc'', ci_value = [0, 0, 0, 0], ci_type = COLLECT_ITEM_TYPE_FLOAT, ci_addr = 4\<rparr>,
      \<lparr>ci_name = ''DO1'', ci_value = [0, 0, 0, 0], ci_type = COLLECT_ITEM_TYPE_SHORT, ci_addr = 6\<rparr>,
      \<lparr>ci_name = ''DO2'', ci_value = [0, 0, 0, 0], ci_type = COLLECT_ITEM_TYPE_SHORT, ci_addr = 7\<rparr>]"

text \<open>The cast \<open>(uint16_t *)value\<close> on the little-endian target: two bytes to a register.\<close>

fun le_regs :: "u8 list \<Rightarrow> u16 list" where
  "le_regs (a # b # bs) = (push_bit 8 (ucast b) OR ucast a) # le_regs bs"
| "le_regs _ = []"

fun le_bytes :: "u16 list \<Rightarrow> u8 list" where
  "le_bytes [] = []"
| "le_bytes (r # rs) = ucast r # ucast (drop_bit 8 r) # le_bytes rs"

lemma le_regs_bytes [simp]: "le_regs (le_bytes rs) = rs"
proof (induction rs)
  case (Cons r rs)
  have "push_bit 8 (ucast (ucast (drop_bit 8 r) :: u8)) OR ucast (ucast r :: u8) = r"
    by (rule bit_eqI) (auto simp: bit_simps)
  with Cons show ?case by simp
qed simp

lemma length_le_bytes [simp]: "length (le_bytes rs) = 2 * length rs"
  by (induction rs) auto

lemma length_le_regs [simp]: "length (le_regs bs) = length bs div 2"
  by (induction bs rule: le_regs.induct) auto

lemma le_bytes_append: "le_bytes (xs @ ys) = le_bytes xs @ le_bytes ys"
  by (induction xs) auto

section \<open>The thread\<close>

datatype collect_pc = COLLECT_START | COLLECT_READ nat | COLLECT_RESTART

type_synonym 'w collect_state = "collect_pc \<times> collect_item list \<times> 'w mbs"

text \<open>The address \<open>"192.168.1.104"\<close>, with its terminator.\<close>

definition collect_ip :: "u8 list" where
  "collect_ip = [49, 57, 50, 46, 49, 54, 56, 46, 49, 46, 49, 48, 52, 0]"

text \<open>
  What happens before the loop: the context is created (from memory with any contents), and the
  results of the two configuration calls are ignored.
\<close>

definition collect_setup :: "'w mbs \<Rightarrow> 'w mbs option" where
  "collect_setup st =
     do { (_, st) \<leftarrow> modbus_new_tcp True True st (Some collect_ip) 601 2;
          let st = snd (modbus_set_slave modbus_tcp_backend st 1);
          let st = snd (modbus_set_response_timeout st 0 1000000);
          Some st }"

definition collect_nb :: "u8 \<Rightarrow> int" where
  "collect_nb type =
     (if type = COLLECT_ITEM_TYPE_FLOAT then 2 else if type = COLLECT_ITEM_TYPE_SHORT then 1 else 0)"

definition collect_delay :: "'w sock_ops \<Rightarrow> u32 \<Rightarrow> 'w mbs \<Rightarrow> 'w mbs" where
  "collect_delay io ms st = st\<lparr>mb_world := sk_mdelay io ms (mb_world st)\<rparr>"

definition collect_read :: "'w sock_ops \<Rightarrow> nat \<Rightarrow> collect_item list \<Rightarrow> 'w mbs \<Rightarrow>
    (int \<times> collect_item list \<times> 'w mbs) option" where
  "collect_read io i items st =
     do { item \<leftarrow> rd items i;
          (rc, regs, st) \<leftarrow> modbus_read_registers modbus_tcp_backend io (uint (ci_addr item))
             (collect_nb (ci_type item)) (le_regs (ci_value item)) st;
          items \<leftarrow> wr items i (item\<lparr>ci_value := le_bytes regs\<rparr>);
          Some (rc, items, st) }"

definition collect_step :: "'w sock_ops \<Rightarrow> 'w collect_state \<Rightarrow> 'w collect_state option" where
  "collect_step io s =
     (case s of (pc, items, st) \<Rightarrow>
        (case pc of
           COLLECT_START \<Rightarrow>
             (case modbus_connect modbus_tcp_backend io st of
                (rc, st) \<Rightarrow> Some (if rc < 0 then COLLECT_RESTART else COLLECT_READ 0, items, st))
         | COLLECT_READ i \<Rightarrow>
             do { (rc, items, st) \<leftarrow> collect_read io i items st;
                  if rc < 0 then Some (COLLECT_RESTART, items, st)
                  else Some (COLLECT_READ (if i + 1 < length items then i + 1 else 0), items,
                             collect_delay io 300 st) }
         | COLLECT_RESTART \<Rightarrow>
             Some (COLLECT_START, items,
                   collect_delay io 2000 (modbus_close modbus_tcp_backend io st))))"

text \<open>The states the thread can be in, on a network \<open>io\<close>.\<close>

inductive collect_reachable :: "'w sock_ops \<Rightarrow> 'w mbs \<Rightarrow> 'w collect_state \<Rightarrow> bool" for io st0 where
  init: "collect_setup st0 = Some st \<Longrightarrow> collect_reachable io st0 (COLLECT_START, collect_items, st)"
| step: "collect_reachable io st0 s \<Longrightarrow> collect_step io s = Some s' \<Longrightarrow> collect_reachable io st0 s'"

inductive_cases collect_reachableE: "collect_reachable io st0 s"

section \<open>Setting up\<close>

lemma collect_setup_result:
  assumes "length (tcp_ip st) = 16"
  shows "\<exists>st'. collect_setup st = Some st' \<and> \<not> mb_null st' \<and> no_recovery st' \<and> mb_slave st' = 1 \<and>
    mb_response_timeout st' = (0, 500000) \<and> tcp_port st' = 601 \<and> take 14 (tcp_ip st') = collect_ip \<and>
    mb_world st' = mb_world st"
proof -
  have s: "0 \<notin> set (butlast collect_ip)" "collect_ip = butlast collect_ip @ [0]" "length collect_ip = 14"
    by (simp_all add: collect_ip_def)
  have cp: "strlcpy (tcp_ip st) collect_ip 16 = Some (13, collect_ip @ drop 14 (tcp_ip st))"
    using strlcpy_spec [OF s(1), of 16 "tcp_ip st" "[]"] assms s(3)
    by (simp flip: s(2))
  show ?thesis
    unfolding collect_setup_def modbus_new_tcp_def Let_def
    by (simp add: cp modbus_init_common_def modbus_set_slave_def modbus_tcp_set_slave_def s(3)
        modbus_set_response_timeout_def no_recovery_def recovery_link_def recovery_protocol_def)
qed

section \<open>The thread is never stuck\<close>

text \<open>The items keep their names, types and addresses, and four bytes of value.\<close>

definition collect_ok :: "collect_item list \<Rightarrow> bool" where
  "collect_ok items \<longleftrightarrow>
     map (\<lambda>c. (ci_name c, ci_type c, ci_addr c)) items = map (\<lambda>c. (ci_name c, ci_type c, ci_addr c)) collect_items \<and>
     (\<forall>c \<in> set items. length (ci_value c) = 4)"

lemma collect_ok_init: "collect_ok collect_items"
  by (simp add: collect_ok_def collect_items_def)

lemma collect_ok_length: "collect_ok items \<Longrightarrow> length items = 5"
  unfolding collect_ok_def by (drule conjunct1, drule arg_cong [where f = length]) (simp add: collect_items_def)

lemma collect_ok_update:
  assumes ok: "collect_ok items" and i: "i < length items" and v: "length v = 4"
  shows "collect_ok (items[i := (items ! i)\<lparr>ci_value := v\<rparr>])"
proof -
  have "map (\<lambda>c. (ci_name c, ci_type c, ci_addr c)) (items[i := (items ! i)\<lparr>ci_value := v\<rparr>]) =
      map (\<lambda>c. (ci_name c, ci_type c, ci_addr c)) items"
    using i by (intro nth_equalityI) (auto simp: nth_list_update)
  moreover have "\<forall>c \<in> set (items[i := (items ! i)\<lparr>ci_value := v\<rparr>]). length (ci_value c) = 4"
    using ok v set_update_subset_insert [of items i "(items ! i)\<lparr>ci_value := v\<rparr>"] unfolding collect_ok_def by auto
  ultimately show ?thesis using ok unfolding collect_ok_def by simp
qed

lemma collect_ok_item:
  assumes "collect_ok items" "i < 5"
  shows "length (ci_value (items ! i)) = 4" "1 \<le> collect_nb (ci_type (items ! i))"
    "collect_nb (ci_type (items ! i)) \<le> 2" "uint (ci_addr (items ! i)) + collect_nb (ci_type (items ! i)) \<le> 8"
proof -
  have "(ci_name (items ! i), ci_type (items ! i), ci_addr (items ! i)) =
      (ci_name (collect_items ! i), ci_type (collect_items ! i), ci_addr (collect_items ! i))"
    using assms collect_ok_length [OF assms(1)] unfolding collect_ok_def
    by (metis (mono_tags, lifting) length_map nth_map)
  moreover have "i \<in> {0, 1, 2, 3, 4}" using assms(2) by auto
  ultimately show "1 \<le> collect_nb (ci_type (items ! i))" "collect_nb (ci_type (items ! i)) \<le> 2"
    "uint (ci_addr (items ! i)) + collect_nb (ci_type (items ! i)) \<le> 8"
    by (auto simp: collect_items_def collect_nb_def)
  show "length (ci_value (items ! i)) = 4"
    using assms collect_ok_length [OF assms(1)] by (auto simp: collect_ok_def)
qed

definition collect_inv :: "'w collect_state \<Rightarrow> bool" where
  "collect_inv s \<longleftrightarrow>
     (case s of (pc, items, st) \<Rightarrow>
        collect_ok items \<and> \<not> mb_null st \<and> no_recovery st \<and> mb_slave st = 1 \<and>
        mb_response_timeout st = (0, 500000) \<and> (case pc of COLLECT_READ i \<Rightarrow> i < 5 | _ \<Rightarrow> True))"

lemma modbus_connect_same_config:
  "modbus_connect modbus_tcp_backend io st = (rc, st') \<Longrightarrow> \<not> mb_null st \<Longrightarrow> same_config st st'"
  by (auto simp: modbus_connect_def modbus_tcp_connect_def modbus_sk_connect_def
      split: prod.splits sysres.splits if_splits)

lemma modbus_close_same_config: "same_config st (modbus_close modbus_tcp_backend io st)"
  by (simp add: modbus_close_def modbus_tcp_close_def)

lemma collect_delay_settings [simp]: "same_config st (collect_delay io ms st)"
  by (simp add: collect_delay_def)

text \<open>One read: it returns, and changes nothing but the value of its item.\<close>

lemma collect_read_returns:
  assumes io: "sock_ok io" and inv: "collect_inv (COLLECT_READ i, items, st)"
  obtains rc v st' where "collect_read io i items st = Some (rc, items[i := (items ! i)\<lparr>ci_value := v\<rparr>], st')"
    "length v = 4" "same_settings st st'"
proof -
  have ok: "collect_ok items" "i < 5" "\<not> mb_null st" "no_recovery st"
    using inv by (auto simp: collect_inv_def)
  note item = collect_ok_item [OF ok(1,2)] and len = collect_ok_length [OF ok(1)]
  let ?nb = "collect_nb (ci_type (items ! i))"
  have nb: "0 \<le> ?nb" "?nb \<le> MODBUS_MAX_READ_REGISTERS" "nat ?nb \<le> length (le_regs (ci_value (items ! i)))"
    using item by auto
  obtain rc regs st' where r: "read_registers modbus_tcp_backend io FC_READ_HOLDING_REGISTERS
      (uint (ci_addr (items ! i))) ?nb (le_regs (ci_value (items ! i))) st = Some (rc, regs, st')"
    and keep: "same_settings st st'" and res: "regs = le_regs (ci_value (items ! i)) \<or>
      (\<exists>rsp. regs = map (register_at 9 rsp) [0..<nat ?nb] @ drop (nat ?nb) (le_regs (ci_value (items ! i))))"
    using read_registers_tcp [OF io ok(4) _ _ _ disjI1 [OF refl], of ?nb "le_regs (ci_value (items ! i))"
        "uint (ci_addr (items ! i))", OF nb] by blast
  have "length regs = 2" using res item by auto
  then show thesis
    using that [of rc "le_bytes regs" st'] r keep ok item len
    by (auto simp: collect_read_def modbus_read_registers_def rd_def wr_def)
qed

lemma collect_step_inv:
  assumes io: "sock_ok io" and inv: "collect_inv s"
  shows "\<exists>s'. collect_step io s = Some s' \<and> collect_inv s'"
proof -
  obtain pc items st where s: "s = (pc, items, st)" by (cases s)
  have keep: "collect_inv (pc', items', st')" if "same_settings st st'" "collect_ok items'"
      "case pc' of COLLECT_READ i \<Rightarrow> i < 5 | _ \<Rightarrow> True" for pc' items' st'
    using inv same_settingsD [OF that(1)] that(2,3) by (simp add: collect_inv_def s)
  have ok: "collect_ok items" "\<not> mb_null st" using inv by (auto simp: collect_inv_def s)
  show ?thesis
  proof (cases pc)
    case COLLECT_START
    obtain rc st' where c: "modbus_connect modbus_tcp_backend io st = (rc, st')"
      by (cases "modbus_connect modbus_tcp_backend io st")
    note cfg = same_config_settings [OF modbus_connect_same_config [OF c ok(2)]]
    show ?thesis
      using c keep [OF cfg ok(1), of "if rc < 0 then COLLECT_RESTART else COLLECT_READ 0"] COLLECT_START
      by (simp add: collect_step_def s)
  next
    case (COLLECT_READ i)
    obtain rc v st' where r: "collect_read io i items st = Some (rc, items[i := (items ! i)\<lparr>ci_value := v\<rparr>], st')"
      and v: "length v = 4" and set: "same_settings st st'"
      using collect_read_returns [OF io inv [unfolded s COLLECT_READ]] by blast
    have "collect_ok (items[i := (items ! i)\<lparr>ci_value := v\<rparr>])"
      using collect_ok_update [OF ok(1) _ v] by (cases "i < length items") (auto simp: ok(1) list_update_beyond)
    then show ?thesis
      using r keep [OF set] keep [OF same_settings_trans [OF set same_config_settings [OF collect_delay_settings]]]
        collect_ok_length [OF ok(1)] COLLECT_READ
      by (auto simp: collect_step_def s)
  next
    case COLLECT_RESTART
    have "same_settings st (collect_delay io 2000 (modbus_close modbus_tcp_backend io st))"
      by (rule same_config_settings, rule same_config_trans [OF modbus_close_same_config collect_delay_settings])
    then show ?thesis
      using keep ok(1) COLLECT_RESTART by (simp add: collect_step_def s)
  qed
qed

lemma collect_reachable_inv:
  assumes io: "sock_ok io" and mem: "length (tcp_ip st0) = 16"
  shows "collect_reachable io st0 s \<Longrightarrow> collect_inv s"
proof (induction rule: collect_reachable.induct)
  case (init st)
  then show ?case
    using collect_setup_result [OF mem] collect_ok_init by (auto simp: collect_inv_def)
next
  case (step s s')
  then show ?case using collect_step_inv [OF io] by fastforce
qed

section \<open>A round against a server\<close>

text \<open>What a successful read makes of an item, given the registers of the device.\<close>

definition polled :: "u16 list \<Rightarrow> collect_item \<Rightarrow> collect_item" where
  "polled tab c =
     c\<lparr>ci_value := le_bytes (take (nat (collect_nb (ci_type c))) (drop (nat (uint (ci_addr c))) tab)
         @ drop (nat (collect_nb (ci_type c))) (le_regs (ci_value c)))\<rparr>"

primrec collect_steps :: "'w sock_ops \<Rightarrow> nat \<Rightarrow> 'w collect_state \<Rightarrow> 'w collect_state option" where
  "collect_steps io 0 s = Some s"
| "collect_steps io (Suc n) s = collect_steps io n s \<bind> collect_step io"

lemma collect_read_loop:
  fixes st :: "loop_world mbs"
  assumes ok: "collect_ok items" "i < 5" and st: "no_recovery st" "\<not> mb_null st" "mb_slave st = 1"
      "mb_world st = \<lparr>lw_mapping = mp, lw_in = []\<rparr>"
    and mp: "mapping_ok mp" "start_registers mp = 0" "8 \<le> nb_registers mp"
  shows "\<exists>st'. collect_step loop_io (COLLECT_READ i, items, st) =
      Some (COLLECT_READ (if i + 1 < 5 then i + 1 else 0), items[i := polled (tab_registers mp) (items ! i)], st') \<and>
    no_recovery st' \<and> \<not> mb_null st' \<and> mb_slave st' = 1 \<and> mb_world st' = \<lparr>lw_mapping = mp, lw_in = []\<rparr>"
proof -
  note item = collect_ok_item [OF ok] and len = collect_ok_length [OF ok(1)]
  let ?c = "items ! i"
  let ?nb = "collect_nb (ci_type ?c)" and ?a = "uint (ci_addr ?c)"
  let ?v = "take (nat ?nb) (drop (nat (?a - start_registers mp)) (tab_registers mp)) @ drop (nat ?nb) (le_regs (ci_value ?c))"
  have "?nb \<le> 125" "0 \<le> ?a" "?a < 65536" "start_registers mp \<le> ?a"
    "?a - start_registers mp + ?nb \<le> nb_registers mp" "0 < mb_slave st" "mb_slave st < 256"
    "nat ?nb \<le> length (le_regs (ci_value ?c))"
    using item mp(2,3) st(3) by auto
  then obtain st' where r: "modbus_read_registers modbus_tcp_backend loop_io ?a ?nb (le_regs (ci_value ?c)) st =
      Some (?nb, ?v, st')"
    and st': "mb_world st' = mb_world st" "no_recovery st'" "mb_slave st' = mb_slave st" "\<not> mb_null st'"
    using loop_read_registers [OF st(1,2,4) _ _ mp(1) item(2), of ?a "le_regs (ci_value ?c)"] by blast
  have "polled (tab_registers mp) ?c = ?c\<lparr>ci_value := le_bytes ?v\<rparr>"
    using mp(2) by (simp add: polled_def)
  then have "collect_read loop_io i items st = Some (?nb, items[i := polled (tab_registers mp) ?c], st')"
    using r ok(2) len by (simp add: collect_read_def rd_def wr_def)
  then have "collect_step loop_io (COLLECT_READ i, items, st) =
      Some (COLLECT_READ (if i + 1 < 5 then i + 1 else 0), items[i := polled (tab_registers mp) ?c], collect_delay loop_io 300 st')"
    using item(2) len by (simp add: collect_step_def)
  then show ?thesis
    using st' st(3,4) by (auto simp: collect_delay_def loop_io_def no_recovery_def recovery_link_def recovery_protocol_def)
qed

lemma polled_ok:
  assumes ok: "collect_ok items" "i < 5" and tab: "8 \<le> length tab"
  shows "collect_ok (items[i := polled tab (items ! i)])"
proof -
  define a nb where "a = nat (uint (ci_addr (items ! i)))" and "nb = nat (collect_nb (ci_type (items ! i)))"
  have "a + nb \<le> 8"
    using collect_ok_item(2,4) [OF ok] uint_ge_0 [of "ci_addr (items ! i)"] unfolding a_def nb_def by linarith
  moreover have "nb \<le> 2" "length (le_regs (ci_value (items ! i))) = 2"
    using collect_ok_item [OF ok] unfolding nb_def by simp_all
  ultimately have "length (le_bytes (take nb (drop a tab) @ drop nb (le_regs (ci_value (items ! i))))) = 4"
    using tab by simp
  then show ?thesis
    using collect_ok_update [OF ok(1), of i] ok(2) collect_ok_length [OF ok(1)]
    unfolding polled_def a_def nb_def by simp
qed

lemma collect_steps_loop:
  fixes st :: "loop_world mbs"
  assumes ok: "collect_ok items" and st: "no_recovery st" "\<not> mb_null st" "mb_slave st = 1"
      "mb_world st = \<lparr>lw_mapping = mp, lw_in = []\<rparr>"
    and mp: "mapping_ok mp" "start_registers mp = 0" "8 \<le> nb_registers mp"
  shows "k \<le> 5 \<Longrightarrow> \<exists>st'. collect_steps loop_io k (COLLECT_READ 0, items, st) =
      Some (COLLECT_READ (k mod 5), map (polled (tab_registers mp)) (take k items) @ drop k items, st') \<and>
    collect_ok (map (polled (tab_registers mp)) (take k items) @ drop k items) \<and>
    no_recovery st' \<and> \<not> mb_null st' \<and> mb_slave st' = 1 \<and> mb_world st' = \<lparr>lw_mapping = mp, lw_in = []\<rparr>"
proof (induction k)
  case 0
  then show ?case using ok st by simp
next
  case (Suc k)
  let ?items = "map (polled (tab_registers mp)) (take k items) @ drop k items"
  have k: "k < 5" using Suc.prems by simp
  obtain st' where s: "collect_steps loop_io k (COLLECT_READ 0, items, st) = Some (COLLECT_READ k, ?items, st')"
    "collect_ok ?items" and st': "no_recovery st'" "\<not> mb_null st'" "mb_slave st' = 1" "mb_world st' = \<lparr>lw_mapping = mp, lw_in = []\<rparr>"
    using Suc k by auto
  have len: "length items = 5" using collect_ok_length [OF ok] .
  have nxt: "?items[k := polled (tab_registers mp) (?items ! k)] =
      map (polled (tab_registers mp)) (take (Suc k) items) @ drop (Suc k) items"
    using k len by (simp add: nth_append list_update_append take_Suc_conv_app_nth Cons_nth_drop_Suc [symmetric] upd_conv_take_nth_drop)
  have "8 \<le> length (tab_registers mp)" using mp by (simp add: mapping_ok_def)
  from polled_ok [OF s(2) k this] collect_read_loop [OF s(2) k st' mp] s(1) k show ?case
    unfolding nxt by (auto simp: mod_Suc)
qed

section \<open>Properties\<close>


definition demo_memory :: "loop_world mbs" where
  "demo_memory = demo_client\<lparr>tcp_ip := replicate 16 0\<rparr>"


text \<open>
  (C6) One round of the thread against a libmodbus server whose table starts at 0 and has eight
  registers leaves in every item the registers at its address, in the order the server holds
  them, and comes back to the first item without a reconnect.
\<close>

theorem collect_round:
  fixes st :: "loop_world mbs"
  assumes "collect_ok items" "no_recovery st" "\<not> mb_null st" "mb_slave st = 1"
    "mb_world st = \<lparr>lw_mapping = mp, lw_in = []\<rparr>" "mapping_ok mp" "start_registers mp = 0" "8 \<le> nb_registers mp"
  shows "\<exists>st'. collect_steps loop_io 5 (COLLECT_READ 0, items, st) =
    Some (COLLECT_READ 0, map (polled (tab_registers mp)) items, st')"
  using collect_steps_loop [OF assms, of 5] collect_ok_length [OF assms(1)] by auto

theorem collect_round_witness:
  "\<exists>st'. collect_steps loop_io 5 (COLLECT_READ 0, collect_items, demo_client\<lparr>mb_slave := 1, mb_world :=
      \<lparr>lw_mapping = demo_mapping\<lparr>start_registers := 0, nb_registers := 8,
         tab_registers := [0x4366, 0x8000, 3, 4, 5, 6, 1, 0]\<rparr>, lw_in = []\<rparr>\<rparr>) =
    Some (COLLECT_READ 0, map (polled [0x4366, 0x8000, 3, 4, 5, 6, 1, 0]) collect_items, st')"
  using collect_round [OF collect_ok_init, of "demo_client\<lparr>mb_slave := 1, mb_world :=
      \<lparr>lw_mapping = demo_mapping\<lparr>start_registers := 0, nb_registers := 8,
         tab_registers := [0x4366, 0x8000, 3, 4, 5, 6, 1, 0]\<rparr>, lw_in = []\<rparr>\<rparr>"]
  by (simp add: demo_client_def demo_mapping_def no_recovery_def recovery_link_def recovery_protocol_def mapping_ok_def)

text \<open>
  The second of timeout that the thread asks for never takes effect: the call is refused,
  because a second has to be given in the seconds field, and its result is ignored, so the
  context waits for the default half second.
\<close>

theorem collect_timeout_ignored:
  assumes "length (tcp_ip st0) = 16"
  shows "\<exists>st. collect_setup st0 = Some st \<and> mb_response_timeout st = (0, 500000) \<and>
    fst (modbus_set_response_timeout st 0 1000000) = - 1 \<and> fst (modbus_set_response_timeout st 1 0) = 0"
  using collect_setup_result [OF assms] by (auto simp: modbus_set_response_timeout_def)

theorem collect_timeout_ignored_witness:
  "\<exists>st. collect_setup demo_memory = Some st \<and> mb_response_timeout st = (0, 500000) \<and>
    fst (modbus_set_response_timeout st 0 1000000) = - 1 \<and> fst (modbus_set_response_timeout st 1 0) = 0"
  by (rule collect_timeout_ignored) (simp add: demo_memory_def)

end
