(* ===== verification/Rt_Mq.thy ===== *)
theory Rt_Mq
  imports Prelude
begin

text \<open>
  \<open>rt-thread/src/ipc.c\<close>: the message queues of the kernel, with which the threads of the
  application talk to each other. A queue owns a pool of nodes; each node is either linked in
  the queue, linked in the free list, or held by a thread that is copying a message into it or
  out of it. Node numbers stand for the addresses \<open>msg_pool + i * (msg_size + sizeof(node))\<close>.

  The sections between disabling and enabling the interrupts are atomic; \<open>mq_take_free\<close>,
  \<open>mq_link\<close>, \<open>mq_unlink\<close> and \<open>mq_release\<close> are these sections, and the copies between them
  (\<open>mq_fill\<close>, \<open>mq_fetch\<close>) can interleave with other threads.
\<close>

section \<open>The queue\<close>

record 'b mq =
  msg_size :: nat
  max_msgs :: nat
  entry :: nat
  msg_queue_head :: "nat option"
  msg_queue_tail :: "nat option"
  msg_queue_free :: "nat option"
  msg_next :: "nat \<Rightarrow> nat option"
  msg_body :: "nat \<Rightarrow> 'b list"
  suspend_thread :: "nat list"

definition rt_align :: "nat \<Rightarrow> nat \<Rightarrow> nat" where
  "rt_align sz align = (sz + align - 1) div align * align"

text \<open>The loop that threads all nodes into the free list.\<close>

primrec mq_free_list :: "nat \<Rightarrow> 'b mq \<Rightarrow> 'b mq" where
  "mq_free_list 0 mq = mq"
| "mq_free_list (Suc temp) mq =
     (let mq = mq_free_list temp mq in
      mq\<lparr>msg_next := (msg_next mq)(temp := msg_queue_free mq), msg_queue_free := Some temp\<rparr>)"

text \<open>
  \<open>rt_mq_create\<close>, once its two allocations have succeeded; the sizes are stored in 16 bits. What
  the nodes contain at first (\<open>next0\<close>, \<open>body0\<close>) is whatever the memory held.
\<close>

definition rt_mq_create :: "bool \<Rightarrow> bool \<Rightarrow> (nat \<Rightarrow> nat option) \<Rightarrow> (nat \<Rightarrow> 'b list) \<Rightarrow> nat \<Rightarrow> nat \<Rightarrow> 'b mq option" where
  "rt_mq_create object_ok malloc_ok next0 body0 sz msgs =
     (if \<not> object_ok then None
      else if \<not> malloc_ok then None
      else
        let mq = \<lparr>msg_size = rt_align sz 4 mod 65536, max_msgs = msgs mod 65536, entry = 0,
                  msg_queue_head = None, msg_queue_tail = None, msg_queue_free = None,
                  msg_next = next0, msg_body = body0, suspend_thread = []\<rparr>
        in Some (mq_free_list (max_msgs mq) mq))"

section \<open>The atomic sections\<close>

definition mq_take_free :: "'b mq \<Rightarrow> (nat \<times> 'b mq) option" where
  "mq_take_free mq =
     (case msg_queue_free mq of
        None \<Rightarrow> None
      | Some msg \<Rightarrow> Some (msg, mq\<lparr>msg_queue_free := msg_next mq msg\<rparr>))"

text \<open>Filling a node: its \<open>next\<close> becomes \<open>RT_NULL\<close> and the buffer is copied into its body.\<close>

definition mq_fill :: "nat \<Rightarrow> 'b list \<Rightarrow> nat \<Rightarrow> 'b mq \<Rightarrow> 'b mq option" where
  "mq_fill msg buffer sz mq =
     do { d \<leftarrow> rd_n buffer 0 sz;
          body \<leftarrow> wr_n (msg_body mq msg) 0 d;
          Some (mq\<lparr>msg_next := (msg_next mq)(msg := None), msg_body := (msg_body mq)(msg := body)\<rparr>) }"

definition mq_link :: "nat \<Rightarrow> 'b mq \<Rightarrow> 'b mq" where
  "mq_link msg mq =
     (let mq = (case msg_queue_tail mq of
                  Some t \<Rightarrow> mq\<lparr>msg_next := (msg_next mq)(t := Some msg)\<rparr> | None \<Rightarrow> mq);
          mq = mq\<lparr>msg_queue_tail := Some msg\<rparr>;
          mq = (if msg_queue_head mq = None then mq\<lparr>msg_queue_head := Some msg\<rparr> else mq);
          mq = mq\<lparr>entry := (entry mq + 1) mod 65536\<rparr>
      in mq\<lparr>suspend_thread := tl (suspend_thread mq)\<rparr>)"

definition mq_link_urgent :: "nat \<Rightarrow> 'b mq \<Rightarrow> 'b mq" where
  "mq_link_urgent msg mq =
     (let mq = mq\<lparr>msg_next := (msg_next mq)(msg := msg_queue_head mq), msg_queue_head := Some msg\<rparr>;
          mq = (if msg_queue_tail mq = None then mq\<lparr>msg_queue_tail := Some msg\<rparr> else mq);
          mq = mq\<lparr>entry := (entry mq + 1) mod 65536\<rparr>
      in mq\<lparr>suspend_thread := tl (suspend_thread mq)\<rparr>)"

text \<open>Taking the first message; with \<open>entry > 0\<close> and no head the C code follows a null pointer.\<close>

definition mq_unlink :: "'b mq \<Rightarrow> (nat \<times> 'b mq) option" where
  "mq_unlink mq =
     (case msg_queue_head mq of
        None \<Rightarrow> None
      | Some msg \<Rightarrow>
          let mq = mq\<lparr>msg_queue_head := msg_next mq msg\<rparr>;
              mq = (if msg_queue_tail mq = Some msg then mq\<lparr>msg_queue_tail := None\<rparr> else mq)
          in Some (msg, mq\<lparr>entry := (entry mq + 65535) mod 65536\<rparr>))"

definition mq_fetch :: "nat \<Rightarrow> nat \<Rightarrow> 'b mq \<Rightarrow> 'b list option" where
  "mq_fetch msg sz mq =
     rd_n (msg_body mq msg) 0 (if sz > msg_size mq then msg_size mq else sz)"

definition mq_release :: "nat \<Rightarrow> 'b mq \<Rightarrow> 'b mq" where
  "mq_release msg mq =
     mq\<lparr>msg_next := (msg_next mq)(msg := msg_queue_free mq), msg_queue_free := Some msg\<rparr>"

section \<open>The operations\<close>

text \<open>\<open>None\<close> is a failed assertion or an access outside an array.\<close>

definition rt_mq_send :: "'b mq \<Rightarrow> 'b list \<Rightarrow> nat \<Rightarrow> (int \<times> 'b mq) option" where
  "rt_mq_send mq buffer sz =
     (if sz = 0 then None
      else if sz > msg_size mq then Some (- RT_ERROR, mq)
      else (case mq_take_free mq of
              None \<Rightarrow> Some (- RT_EFULL, mq)
            | Some (msg, mq) \<Rightarrow>
                do { mq \<leftarrow> mq_fill msg buffer sz mq; Some (RT_EOK, mq_link msg mq) }))"

text \<open>\<open>rt_mq_urgent\<close> copies the buffer without clearing \<open>next\<close>, which the linking sets anyway.\<close>

definition rt_mq_urgent :: "'b mq \<Rightarrow> 'b list \<Rightarrow> nat \<Rightarrow> (int \<times> 'b mq) option" where
  "rt_mq_urgent mq buffer sz =
     (if sz = 0 then None
      else if sz > msg_size mq then Some (- RT_ERROR, mq)
      else (case mq_take_free mq of
              None \<Rightarrow> Some (- RT_EFULL, mq)
            | Some (msg, mq) \<Rightarrow>
                do { d \<leftarrow> rd_n buffer 0 sz;
                     body \<leftarrow> wr_n (msg_body mq msg) 0 d;
                     Some (RT_EOK, mq_link_urgent msg (mq\<lparr>msg_body := (msg_body mq)(msg := body)\<rparr>)) }))"

text \<open>
  One pass of \<open>rt_mq_recv\<close> by thread \<open>self\<close>: the error for an empty queue without waiting, the
  suspension of the caller (\<open>MQ_SUSPEND\<close>: the pass is repeated when it is woken up), or the
  first message.
\<close>

datatype 'b mq_recv_result = MQ_ERR int | MQ_SUSPEND | MQ_MSG "'b list"

definition rt_mq_recv :: "'b mq \<Rightarrow> nat \<Rightarrow> nat \<Rightarrow> int \<Rightarrow> ('b mq_recv_result \<times> 'b mq) option" where
  "rt_mq_recv mq self sz timeout =
     (if sz = 0 then None
      else if entry mq = 0 then
        (if timeout = 0 then Some (MQ_ERR (- RT_ETIMEOUT), mq)
         else Some (MQ_SUSPEND, mq\<lparr>suspend_thread := suspend_thread mq @ [self]\<rparr>))
      else do { (msg, mq) \<leftarrow> mq_unlink mq;
                buffer \<leftarrow> mq_fetch msg sz mq;
                Some (MQ_MSG buffer, mq_release msg mq) })"

text \<open>\<open>rt_mq_control\<close>, and its loop that releases every queued message.\<close>

partial_function (option) mq_reset_loop :: "'b mq \<Rightarrow> 'b mq option" where
  "mq_reset_loop mq =
     (case msg_queue_head mq of
        None \<Rightarrow> Some mq
      | Some msg \<Rightarrow>
          (let mq = mq\<lparr>msg_queue_head := msg_next mq msg\<rparr>;
               mq = (if msg_queue_tail mq = Some msg then mq\<lparr>msg_queue_tail := None\<rparr> else mq)
           in mq_reset_loop (mq_release msg mq)))"

definition RT_IPC_CMD_RESET :: nat where "RT_IPC_CMD_RESET = 1"

definition rt_mq_control :: "'b mq \<Rightarrow> nat \<Rightarrow> (int \<times> 'b mq) option" where
  "rt_mq_control mq cmd =
     (if cmd = RT_IPC_CMD_RESET then
        do { mq \<leftarrow> mq_reset_loop (mq\<lparr>suspend_thread := []\<rparr>); Some (RT_EOK, mq\<lparr>entry := 0\<rparr>) }
      else Some (- RT_ERROR, mq))"

section \<open>The representation invariant\<close>

text \<open>\<open>chain nx p ns\<close>: following \<open>nx\<close> from \<open>p\<close> visits the nodes \<open>ns\<close> and ends.\<close>

fun chain :: "(nat \<Rightarrow> nat option) \<Rightarrow> nat option \<Rightarrow> nat list \<Rightarrow> bool" where
  "chain nx p [] \<longleftrightarrow> p = None"
| "chain nx p (n # ns) \<longleftrightarrow> p = Some n \<and> chain nx (nx n) ns"

text \<open>
  \<open>mq_rep mq q f held\<close>: \<open>q\<close> are the nodes of the queue in order, \<open>f\<close> those of the free list,
  and \<open>held\<close> those in the hands of threads. Together they are all nodes, each once.
\<close>

definition mq_rep :: "'b mq \<Rightarrow> nat list \<Rightarrow> nat list \<Rightarrow> nat set \<Rightarrow> bool" where
  "mq_rep mq q f held \<longleftrightarrow>
     chain (msg_next mq) (msg_queue_head mq) q \<and> chain (msg_next mq) (msg_queue_free mq) f \<and>
     msg_queue_tail mq = (if q = [] then None else Some (last q)) \<and>
     entry mq = length q \<and> max_msgs mq < 65536 \<and>
     distinct q \<and> distinct f \<and> set q \<inter> set f = {} \<and> held \<inter> (set q \<union> set f) = {} \<and>
     set q \<union> set f \<union> held = {..<max_msgs mq} \<and>
     (\<forall>n < max_msgs mq. length (msg_body mq n) = msg_size mq)"

text \<open>The messages of the queue, first to last.\<close>

definition mq_msgs :: "'b mq \<Rightarrow> nat list \<Rightarrow> 'b list list" where
  "mq_msgs mq q = map (msg_body mq) q"

lemma chain_fun_upd: "n \<notin> set ns \<Longrightarrow> chain (nx(n := p)) s ns = chain nx s ns"
  by (induction ns arbitrary: s) auto

lemma chain_unique: "chain nx p ns \<Longrightarrow> chain nx p ms \<Longrightarrow> ns = ms"
proof (induction ns arbitrary: p ms)
  case Nil
  then show ?case by (cases ms) auto
next
  case (Cons n ns)
  then show ?case by (cases ms) auto
qed

lemma chain_snoc:
  "chain nx p ns \<Longrightarrow> ns \<noteq> [] \<Longrightarrow> distinct ns \<Longrightarrow> n \<notin> set ns \<Longrightarrow> nx n = None \<Longrightarrow>
    chain (nx(last ns := Some n)) p (ns @ [n])"
proof (induction ns arbitrary: p)
  case Nil
  then show ?case by simp
next
  case (Cons a ns)
  show ?case
  proof (cases "ns = []")
    case True
    with Cons.prems show ?thesis by simp
  next
    case False
    then have "last ns \<noteq> a" using Cons.prems(3) last_in_set by fastforce
    with Cons False show ?thesis by simp
  qed
qed

section \<open>The atomic sections keep the invariant\<close>

lemma mq_free_list_fields:
  "msg_size (mq_free_list k mq) = msg_size mq" "max_msgs (mq_free_list k mq) = max_msgs mq"
  "entry (mq_free_list k mq) = entry mq" "msg_queue_head (mq_free_list k mq) = msg_queue_head mq"
  "msg_queue_tail (mq_free_list k mq) = msg_queue_tail mq" "msg_body (mq_free_list k mq) = msg_body mq"
  "suspend_thread (mq_free_list k mq) = suspend_thread mq"
  by (induction k) (simp_all add: Let_def)

lemma mq_free_list_chain:
  "msg_queue_free mq = None \<Longrightarrow>
    chain (msg_next (mq_free_list k mq)) (msg_queue_free (mq_free_list k mq)) (rev [0..<k])"
  by (induction k) (simp_all add: Let_def chain_fun_upd)

lemma rt_mq_create_rep:
  assumes "rt_mq_create True True next0 body0 sz msgs = Some mq"
    and "\<And>n. length (body0 n) = rt_align sz 4 mod 65536"
  shows "mq_rep mq [] (rev [0..<msgs mod 65536]) {}" "msg_size mq = rt_align sz 4 mod 65536"
    "max_msgs mq = msgs mod 65536"
  using assms(1) mq_free_list_chain [of "\<lparr>msg_size = rt_align sz 4 mod 65536, max_msgs = msgs mod 65536, entry = 0,
      msg_queue_head = None, msg_queue_tail = None, msg_queue_free = None,
      msg_next = next0, msg_body = body0, suspend_thread = []\<rparr>" "msgs mod 65536"]
  by (auto simp: rt_mq_create_def mq_rep_def mq_free_list_fields assms(2) Let_def)

lemma mq_take_free_rep:
  assumes rep: "mq_rep mq q f H"
  shows "case mq_take_free mq of
      None \<Rightarrow> f = []
    | Some (n, mq') \<Rightarrow> n \<notin> H \<and> n < max_msgs mq \<and> (\<exists>f'. f = n # f' \<and> mq_rep mq' q f' (insert n H)) \<and>
        msg_body mq' = msg_body mq \<and> msg_size mq' = msg_size mq \<and> suspend_thread mq' = suspend_thread mq"
  using rep by (cases f) (auto simp: mq_take_free_def mq_rep_def)

lemma mq_fill_rep:
  assumes rep: "mq_rep mq q f H" and n: "n \<in> H" and sz: "sz \<le> msg_size mq" "sz \<le> length buffer"
  obtains mq' where "mq_fill n buffer sz mq = Some mq'" "mq_rep mq' q f H" "msg_next mq' n = None"
    "msg_body mq' = (msg_body mq)(n := take sz buffer @ drop sz (msg_body mq n))"
    "msg_size mq' = msg_size mq" "suspend_thread mq' = suspend_thread mq"
proof -
  have b: "n < max_msgs mq" "length (msg_body mq n) = msg_size mq" "n \<notin> set q" "n \<notin> set f"
    using rep n by (auto simp: mq_rep_def)
  define mq' where "mq' = mq\<lparr>msg_next := (msg_next mq)(n := None),
    msg_body := (msg_body mq)(n := take sz buffer @ drop sz (msg_body mq n))\<rparr>"
  have fill: "mq_fill n buffer sz mq = Some mq'"
    using b sz by (simp add: mq_fill_def rd_n_def wr_n_def mq'_def)
  have rep': "mq_rep mq' q f H"
    using rep b sz by (simp add: mq_rep_def mq'_def chain_fun_upd)
  show thesis by (rule that [OF fill rep']) (simp_all add: mq'_def)
qed

lemma mq_rep_room: "mq_rep mq q f H \<Longrightarrow> n \<in> H \<Longrightarrow> length q + 1 \<le> max_msgs mq"
proof -
  assume rep: "mq_rep mq q f H" and n: "n \<in> H"
  then have "set q \<subseteq> {..<max_msgs mq} - {n}" "distinct q" "n < max_msgs mq" by (auto simp: mq_rep_def)
  then have "card (set q) \<le> max_msgs mq - 1" using card_mono [of "{..<max_msgs mq} - {n}" "set q"] by simp
  then show ?thesis using \<open>distinct q\<close> \<open>n < max_msgs mq\<close> by (simp add: distinct_card)
qed

lemma mq_link_rep:
  assumes rep: "mq_rep mq q f H" and n: "n \<in> H" "msg_next mq n = None"
  shows "mq_rep (mq_link n mq) (q @ [n]) f (H - {n})" "msg_body (mq_link n mq) = msg_body mq"
    "msg_size (mq_link n mq) = msg_size mq"
proof -
  have out: "n \<notin> set q" "n \<notin> set f" "n < max_msgs mq" using rep n by (auto simp: mq_rep_def)
  have room: "(entry mq + 1) mod 65536 = length q + 1"
    using mq_rep_room [OF rep n(1)] rep by (auto simp: mq_rep_def)
  show "mq_rep (mq_link n mq) (q @ [n]) f (H - {n})"
  proof (cases "q = []")
    case True
    then show ?thesis using rep n out room by (auto simp: mq_rep_def mq_link_def Let_def)
  next
    case False
    have head: "msg_queue_head mq \<noteq> None" using rep False by (cases q) (auto simp: mq_rep_def)
    have "set q \<inter> set f = {}" using rep by (simp add: mq_rep_def)
    then have "last q \<notin> set f" using last_in_set [OF False] by blast
    moreover have "chain ((msg_next mq)(last q := Some n)) (msg_queue_head mq) (q @ [n])"
      using rep False out n by (intro chain_snoc) (auto simp: mq_rep_def)
    moreover have "mq_link n mq = mq\<lparr>msg_next := (msg_next mq)(last q := Some n), msg_queue_tail := Some n,
        entry := length q + 1, suspend_thread := tl (suspend_thread mq)\<rparr>"
      using rep False head room by (simp add: mq_link_def mq_rep_def Let_def)
    moreover have "set q \<union> set f \<union> H = {..<max_msgs mq}" "H \<inter> (set q \<union> set f) = {}"
      using rep by (simp_all add: mq_rep_def)
    then have "set (q @ [n]) \<union> set f \<union> (H - {n}) = {..<max_msgs mq}" "(H - {n}) \<inter> (set (q @ [n]) \<union> set f) = {}"
      using n(1) by auto
    ultimately show ?thesis
      using rep out by (simp add: mq_rep_def chain_fun_upd)
  qed
  show "msg_body (mq_link n mq) = msg_body mq" "msg_size (mq_link n mq) = msg_size mq"
    by (simp_all add: mq_link_def Let_def split: option.split)
qed

lemma mq_unlink_rep:
  assumes rep: "mq_rep mq (n # q) f H"
  obtains mq' where "mq_unlink mq = Some (n, mq')" "mq_rep mq' q f (insert n H)" "n \<notin> H" "n < max_msgs mq"
    "msg_body mq' = msg_body mq" "msg_size mq' = msg_size mq" "suspend_thread mq' = suspend_thread mq"
proof -
  have head: "msg_queue_head mq = Some n" and e: "entry mq = Suc (length q)" "Suc (length q) \<le> max_msgs mq" "max_msgs mq < 65536"
    and out: "n \<notin> H" "n < max_msgs mq" "n \<notin> set q"
  proof -
    show "msg_queue_head mq = Some n" "entry mq = Suc (length q)" "max_msgs mq < 65536"
      "n \<notin> H" "n < max_msgs mq" "n \<notin> set q"
      using rep by (auto simp: mq_rep_def)
    have "set (n # q) \<subseteq> {..<max_msgs mq}" "distinct (n # q)" using rep by (auto simp: mq_rep_def)
    then show "Suc (length q) \<le> max_msgs mq"
      using card_mono [of "{..<max_msgs mq}" "set (n # q)"] distinct_card [of "n # q"] by simp
  qed
  have dec: "(Suc (length q) + 65535) mod 65536 = length q" using e by (simp add: mod_if)
  define mq' where "mq' = (let mq = mq\<lparr>msg_queue_head := msg_next mq n\<rparr>;
      mq = (if msg_queue_tail mq = Some n then mq\<lparr>msg_queue_tail := None\<rparr> else mq)
      in mq\<lparr>entry := (entry mq + 65535) mod 65536\<rparr>)"
  have un: "mq_unlink mq = Some (n, mq')" using head by (simp add: mq_unlink_def mq'_def Let_def)
  have tail: "msg_queue_tail mq = Some (last (n # q))" using rep by (simp add: mq_rep_def)
  then have "msg_queue_tail mq' = (if q = [] then None else Some (last q))"
    using out by (auto simp: mq'_def Let_def split: if_splits)
  then have "mq_rep mq' q f (insert n H)"
    using rep e dec by (auto simp: mq_rep_def mq'_def Let_def)
  then show thesis
    by (rule that [OF un]) (use out in \<open>auto simp: mq'_def Let_def\<close>)
qed

lemma mq_release_rep:
  assumes rep: "mq_rep mq q f H" and n: "n \<in> H"
  shows "mq_rep (mq_release n mq) q (n # f) (H - {n})" "msg_body (mq_release n mq) = msg_body mq"
    "msg_size (mq_release n mq) = msg_size mq" "suspend_thread (mq_release n mq) = suspend_thread mq"
proof -
  have "n \<notin> set q" "n \<notin> set f" "n < max_msgs mq" using rep n by (auto simp: mq_rep_def)
  then show "mq_rep (mq_release n mq) q (n # f) (H - {n})"
    using rep n by (auto simp: mq_rep_def mq_release_def chain_fun_upd)
qed (simp_all add: mq_release_def)

section \<open>A bounded FIFO queue\<close>

text \<open>
  What the users of a queue rely on: a message is appended while there is room, refused when
  there is none, and messages leave in the order they came. \<open>fits\<close> says which messages the
  queue takes.
\<close>

locale bounded_fifo =
  fixes inv :: "'q \<Rightarrow> bool" and contents :: "'q \<Rightarrow> 'm list" and cap :: "'q \<Rightarrow> nat" and fits :: "'m \<Rightarrow> bool"
    and send :: "'q \<Rightarrow> 'm \<Rightarrow> (int \<times> 'q) option" and recv :: "'q \<Rightarrow> ('m option \<times> 'q) option"
  assumes bound: "inv q \<Longrightarrow> length (contents q) \<le> cap q"
    and send_room: "inv q \<Longrightarrow> fits m \<Longrightarrow> length (contents q) < cap q \<Longrightarrow>
          \<exists>q'. send q m = Some (RT_EOK, q') \<and> inv q' \<and> contents q' = contents q @ [m] \<and> cap q' = cap q"
    and send_full: "inv q \<Longrightarrow> fits m \<Longrightarrow> length (contents q) = cap q \<Longrightarrow> send q m = Some (- RT_EFULL, q)"
    and recv_first: "inv q \<Longrightarrow> contents q = m # ms \<Longrightarrow>
          \<exists>q'. recv q = Some (Some m, q') \<and> inv q' \<and> contents q' = ms \<and> cap q' = cap q"
    and recv_none: "inv q \<Longrightarrow> contents q = [] \<Longrightarrow> recv q = Some (None, q)"
begin

primrec send_all :: "'q \<Rightarrow> 'm list \<Rightarrow> 'q option" where
  "send_all q [] = Some q"
| "send_all q (m # ms) = do { (rc, q) \<leftarrow> send q m; if rc = RT_EOK then send_all q ms else None }"

primrec recv_all :: "nat \<Rightarrow> 'q \<Rightarrow> ('m list \<times> 'q) option" where
  "recv_all 0 q = Some ([], q)"
| "recv_all (Suc n) q =
     do { (m, q) \<leftarrow> recv q;
          case m of None \<Rightarrow> Some ([], q)
          | Some m \<Rightarrow> do { (ms, q) \<leftarrow> recv_all n q; Some (m # ms, q) } }"

lemma send_all_appends:
  "inv q \<Longrightarrow> list_all fits ms \<Longrightarrow> length (contents q) + length ms \<le> cap q \<Longrightarrow>
    \<exists>q'. send_all q ms = Some q' \<and> inv q' \<and> contents q' = contents q @ ms \<and> cap q' = cap q"
proof (induction ms arbitrary: q)
  case Nil
  then show ?case by simp
next
  case (Cons m ms)
  then obtain q' where "send q m = Some (RT_EOK, q')" "inv q'" "contents q' = contents q @ [m]" "cap q' = cap q"
    using send_room [of q m] by auto
  with Cons.IH [of q'] Cons.prems show ?case by auto
qed

lemma recv_all_takes:
  "inv q \<Longrightarrow> contents q = ms @ rest \<Longrightarrow>
    \<exists>q'. recv_all (length ms) q = Some (ms, q') \<and> inv q' \<and> contents q' = rest"
proof (induction ms arbitrary: q)
  case Nil
  then show ?case by simp
next
  case (Cons m ms)
  then obtain q' where "recv q = Some (Some m, q')" "inv q'" "contents q' = ms @ rest"
    using recv_first [of q m "ms @ rest"] by auto
  with Cons.IH [of q'] show ?case by auto
qed

text \<open>First in, first out: what is sent into an empty queue comes out in the same order.\<close>

lemma fifo:
  assumes "inv q" "contents q = []" "list_all fits ms" "length ms \<le> cap q"
  shows "\<exists>q' q''. send_all q ms = Some q' \<and> recv_all (length ms) q' = Some (ms, q'') \<and> contents q'' = []"
proof -
  obtain q' where q': "send_all q ms = Some q'" "inv q'" "contents q' = ms @ []"
    using send_all_appends [OF assms(1,3)] assms(2,4) by auto
  then show ?thesis using recv_all_takes [OF q'(2,3)] by auto
qed

end

section \<open>The kernel's queue is one\<close>

primrec mq_walk :: "nat \<Rightarrow> (nat \<Rightarrow> nat option) \<Rightarrow> nat option \<Rightarrow> nat list" where
  "mq_walk 0 nx p = []"
| "mq_walk (Suc k) nx p = (case p of None \<Rightarrow> [] | Some n \<Rightarrow> n # mq_walk k nx (nx n))"

lemma mq_walk_chain: "chain nx p ns \<Longrightarrow> length ns \<le> k \<Longrightarrow> mq_walk k nx p = ns"
proof (induction ns arbitrary: p k)
  case Nil
  then show ?case by (cases k) auto
next
  case (Cons n ns)
  then show ?case by (cases k) auto
qed

text \<open>The queue at rest, used for messages of \<open>sz\<close> units: no node is in a thread's hands.\<close>

definition mq_ok :: "nat \<Rightarrow> 'b mq \<Rightarrow> bool" where
  "mq_ok sz mq \<longleftrightarrow> 0 < sz \<and> sz \<le> msg_size mq \<and> (\<exists>q f. mq_rep mq q f {})"

definition mq_contents :: "nat \<Rightarrow> 'b mq \<Rightarrow> 'b list list" where
  "mq_contents sz mq = map (\<lambda>n. take sz (msg_body mq n)) (mq_walk (max_msgs mq) (msg_next mq) (msg_queue_head mq))"

definition mq_send_op :: "nat \<Rightarrow> 'b mq \<Rightarrow> 'b list \<Rightarrow> (int \<times> 'b mq) option" where
  "mq_send_op sz mq m = rt_mq_send mq m sz"

definition mq_recv_op :: "nat \<Rightarrow> 'b mq \<Rightarrow> ('b list option \<times> 'b mq) option" where
  "mq_recv_op sz mq =
     do { (r, mq) \<leftarrow> rt_mq_recv mq 0 sz 0; Some (case r of MQ_MSG m \<Rightarrow> Some m | _ \<Rightarrow> None, mq) }"

lemma mq_rep_count: "mq_rep mq q f {} \<Longrightarrow> length q + length f = max_msgs mq"
proof -
  assume "mq_rep mq q f {}"
  then have d: "distinct (q @ f)" "set (q @ f) = {..<max_msgs mq}" by (auto simp: mq_rep_def)
  show ?thesis using distinct_card [OF d(1)] d(2) by simp
qed

lemma mq_rep_contents:
  "mq_rep mq q f {} \<Longrightarrow> mq_contents sz mq = map (\<lambda>n. take sz (msg_body mq n)) q"
proof -
  assume rep: "mq_rep mq q f {}"
  then have "mq_walk (max_msgs mq) (msg_next mq) (msg_queue_head mq) = q"
    using mq_walk_chain mq_rep_count [OF rep] by (auto simp: mq_rep_def)
  then show ?thesis by (simp add: mq_contents_def)
qed

lemma rt_mq_send_room:
  assumes ok: "mq_ok sz mq" and m: "length m = sz" and room: "length (mq_contents sz mq) < max_msgs mq"
  shows "\<exists>mq'. rt_mq_send mq m sz = Some (RT_EOK, mq') \<and> mq_ok sz mq' \<and>
    mq_contents sz mq' = mq_contents sz mq @ [m] \<and> max_msgs mq' = max_msgs mq"
proof -
  from ok obtain q f where rep: "mq_rep mq q f {}" and sz: "0 < sz" "sz \<le> msg_size mq" by (auto simp: mq_ok_def)
  note nodes = mq_rep_count [OF rep] mq_rep_contents [OF rep, of sz]
  then obtain n f' where f: "f = n # f'" using room by (cases f) auto
  obtain mq1 where t: "mq_take_free mq = Some (n, mq1)" and rep1: "mq_rep mq1 q f' {n}"
    and keep1: "msg_body mq1 = msg_body mq" "msg_size mq1 = msg_size mq"
    using mq_take_free_rep [OF rep] f by (auto split: option.splits)
  obtain mq2 where fl: "mq_fill n m sz mq1 = Some mq2" and rep2: "mq_rep mq2 q f' {n}" "msg_next mq2 n = None"
    and body: "msg_body mq2 = (msg_body mq1)(n := take sz m @ drop sz (msg_body mq1 n))" "msg_size mq2 = msg_size mq1"
    using mq_fill_rep [OF rep1, of n sz m] sz keep1 m by auto
  note l = mq_link_rep [OF rep2(1) _ rep2(2)]
  have rep3: "mq_rep (mq_link n mq2) (q @ [n]) f' {}" using l(1) by simp
  have max: "max_msgs (mq_link n mq2) = max_msgs mq"
    using mq_rep_count [OF rep3] nodes(1) f by simp
  have out: "n \<notin> set q" using rep f by (auto simp: mq_rep_def)
  have "mq_contents sz (mq_link n mq2) = mq_contents sz mq @ [m]"
    unfolding nodes(2) mq_rep_contents [OF rep3] using l(2) body keep1 out m by (auto intro!: map_cong)
  then show ?thesis
    using t fl sz rep3 l(3) body(2) keep1(2) max by (auto simp: rt_mq_send_def mq_ok_def)
qed

lemma rt_mq_send_full:
  assumes ok: "mq_ok sz mq" and full: "length (mq_contents sz mq) = max_msgs mq"
  shows "rt_mq_send mq m sz = Some (- RT_EFULL, mq)"
proof -
  from ok obtain q f where rep: "mq_rep mq q f {}" and sz: "0 < sz" "sz \<le> msg_size mq" by (auto simp: mq_ok_def)
  then have "f = []" using mq_rep_count [OF rep] mq_rep_contents [OF rep, of sz] full by simp
  then have "mq_take_free mq = None" using rep by (simp add: mq_rep_def mq_take_free_def)
  then show ?thesis using sz by (simp add: rt_mq_send_def)
qed

lemma rt_mq_recv_first:
  assumes ok: "mq_ok sz mq" and c: "mq_contents sz mq = m # ms"
  shows "\<exists>mq'. rt_mq_recv mq self sz timeout = Some (MQ_MSG m, mq') \<and> mq_ok sz mq' \<and>
    mq_contents sz mq' = ms \<and> max_msgs mq' = max_msgs mq"
proof -
  from ok obtain q0 f where rep0: "mq_rep mq q0 f {}" and sz: "0 < sz" "sz \<le> msg_size mq" by (auto simp: mq_ok_def)
  note nodes0 = mq_rep_count [OF rep0] mq_rep_contents [OF rep0, of sz]
  then obtain n q where q: "q0 = n # q" "m = take sz (msg_body mq n)" "ms = map (\<lambda>n. take sz (msg_body mq n)) q"
    using c by (cases q0) auto
  note rep = rep0 [unfolded q(1)]
  obtain mq1 where u: "mq_unlink mq = Some (n, mq1)" "mq_rep mq1 q f {n}" "n < max_msgs mq"
    "msg_body mq1 = msg_body mq" "msg_size mq1 = msg_size mq"
    using mq_unlink_rep [OF rep] by auto
  note r = mq_release_rep [OF u(2), of n]
  have rep2: "mq_rep (mq_release n mq1) q (n # f) {}" using r(1) by simp
  have "length (msg_body mq n) = msg_size mq" using rep u(3) by (simp add: mq_rep_def)
  then have "mq_fetch n sz mq1 = Some m" using u q(2) sz by (simp add: mq_fetch_def rd_n_def)
  moreover have "entry mq \<noteq> 0" using rep by (simp add: mq_rep_def)
  moreover have "mq_contents sz (mq_release n mq1) = ms"
    unfolding mq_rep_contents [OF rep2] using r(2) u(4) q(3) by simp
  moreover have "max_msgs (mq_release n mq1) = max_msgs mq"
    using mq_rep_count [OF rep2] nodes0(1) q(1) by simp
  ultimately show ?thesis
    using sz u r rep2 by (auto simp: rt_mq_recv_def mq_ok_def)
qed

lemma rt_mq_recv_none:
  assumes ok: "mq_ok sz mq" and c: "mq_contents sz mq = []"
  shows "rt_mq_recv mq self sz 0 = Some (MQ_ERR (- RT_ETIMEOUT), mq)"
    "timeout \<noteq> 0 \<Longrightarrow> rt_mq_recv mq self sz timeout = Some (MQ_SUSPEND, mq\<lparr>suspend_thread := suspend_thread mq @ [self]\<rparr>)"
proof -
  from ok obtain q f where rep: "mq_rep mq q f {}" and sz: "0 < sz" by (auto simp: mq_ok_def)
  then have "q = []" using mq_rep_count [OF rep] mq_rep_contents [OF rep, of sz] c by simp
  then have "entry mq = 0" using rep by (simp add: mq_rep_def)
  then show "rt_mq_recv mq self sz 0 = Some (MQ_ERR (- RT_ETIMEOUT), mq)"
    "timeout \<noteq> 0 \<Longrightarrow> rt_mq_recv mq self sz timeout = Some (MQ_SUSPEND, mq\<lparr>suspend_thread := suspend_thread mq @ [self]\<rparr>)"
    using sz by (simp_all add: rt_mq_recv_def)
qed

lemma mq_link_urgent_rep:
  assumes rep: "mq_rep mq q f H" and n: "n \<in> H"
  shows "mq_rep (mq_link_urgent n mq) (n # q) f (H - {n})" "msg_body (mq_link_urgent n mq) = msg_body mq"
    "msg_size (mq_link_urgent n mq) = msg_size mq"
proof -
  have out: "n \<notin> set q" "n \<notin> set f" "n < max_msgs mq" using rep n by (auto simp: mq_rep_def)
  have room: "(entry mq + 1) mod 65536 = length q + 1"
    using mq_rep_room [OF rep n] rep by (auto simp: mq_rep_def)
  show "mq_rep (mq_link_urgent n mq) (n # q) f (H - {n})"
    using rep n out room by (auto simp: mq_rep_def mq_link_urgent_def Let_def chain_fun_upd)
  show "msg_body (mq_link_urgent n mq) = msg_body mq" "msg_size (mq_link_urgent n mq) = msg_size mq"
    by (simp_all add: mq_link_urgent_def Let_def)
qed

lemma mq_reset_loop_ends:
  assumes "chain (msg_next mq) (msg_queue_head mq) q" "chain (msg_next mq) (msg_queue_free mq) f"
    "distinct q" "set q \<inter> set f = {}" "msg_queue_tail mq = (if q = [] then None else Some (last q))"
  shows "\<exists>mq'. mq_reset_loop mq = Some mq' \<and> msg_queue_head mq' = None \<and> msg_queue_tail mq' = None \<and>
    chain (msg_next mq') (msg_queue_free mq') (rev q @ f) \<and> msg_body mq' = msg_body mq \<and>
    msg_size mq' = msg_size mq \<and> max_msgs mq' = max_msgs mq \<and> suspend_thread mq' = suspend_thread mq"
  using assms
proof (induction q arbitrary: mq f)
  case Nil
  then show ?case by (subst mq_reset_loop.simps) simp
next
  case (Cons n q)
  define mq1 where "mq1 = (let mq = mq\<lparr>msg_queue_head := msg_next mq n\<rparr>;
    mq = (if msg_queue_tail mq = Some n then mq\<lparr>msg_queue_tail := None\<rparr> else mq) in mq_release n mq)"
  have head: "msg_queue_head mq = Some n" using Cons.prems(1) by simp
  have step: "mq_reset_loop mq = mq_reset_loop mq1"
    by (subst mq_reset_loop.simps) (simp add: head mq1_def Let_def)
  have "last q = n \<Longrightarrow> q = []" using Cons.prems(3) by (metis distinct.simps(2) last_in_set)
  then have "msg_queue_tail mq1 = (if q = [] then None else Some (last q))"
    using Cons.prems(5) by (auto simp: mq1_def mq_release_def Let_def split: if_splits)
  moreover have "chain (msg_next mq1) (msg_queue_head mq1) q" "chain (msg_next mq1) (msg_queue_free mq1) (n # f)"
    using Cons.prems by (auto simp: mq1_def mq_release_def Let_def chain_fun_upd)
  ultimately have "\<exists>mq'. mq_reset_loop mq1 = Some mq' \<and> msg_queue_head mq' = None \<and> msg_queue_tail mq' = None \<and>
      chain (msg_next mq') (msg_queue_free mq') (rev q @ n # f) \<and> msg_body mq' = msg_body mq1 \<and>
      msg_size mq' = msg_size mq1 \<and> max_msgs mq' = max_msgs mq1 \<and> suspend_thread mq' = suspend_thread mq1"
    using Cons.prems by (intro Cons.IH) auto
  moreover have "msg_body mq1 = msg_body mq" "msg_size mq1 = msg_size mq" "max_msgs mq1 = max_msgs mq"
    "suspend_thread mq1 = suspend_thread mq"
    by (simp_all add: mq1_def mq_release_def Let_def)
  ultimately show ?case by (simp add: step)
qed

lemma rt_mq_control_reset:
  assumes ok: "mq_ok sz mq"
  shows "\<exists>mq'. rt_mq_control mq RT_IPC_CMD_RESET = Some (RT_EOK, mq') \<and> mq_ok sz mq' \<and> mq_contents sz mq' = [] \<and>
    max_msgs mq' = max_msgs mq \<and> suspend_thread mq' = []"
proof -
  from ok obtain q f where rep: "mq_rep mq q f {}" and sz: "0 < sz" "sz \<le> msg_size mq" by (auto simp: mq_ok_def)
  obtain mq' where l: "mq_reset_loop (mq\<lparr>suspend_thread := []\<rparr>) = Some mq'" "msg_queue_head mq' = None"
    "msg_queue_tail mq' = None" "chain (msg_next mq') (msg_queue_free mq') (rev q @ f)"
    "msg_body mq' = msg_body mq" "msg_size mq' = msg_size mq" "max_msgs mq' = max_msgs mq" "suspend_thread mq' = []"
    using mq_reset_loop_ends [of "mq\<lparr>suspend_thread := []\<rparr>" q f] rep by (auto simp: mq_rep_def)
  have "mq_rep (mq'\<lparr>entry := 0\<rparr>) [] (rev q @ f) {}"
    using rep l by (auto simp: mq_rep_def)
  then show ?thesis
    using l sz mq_rep_contents [of "mq'\<lparr>entry := 0\<rparr>" "[]" "rev q @ f" sz]
    by (auto simp: rt_mq_control_def mq_ok_def)
qed

lemma rt_mq_urgent_room:
  assumes ok: "mq_ok sz mq" and m: "length m = sz" and room: "length (mq_contents sz mq) < max_msgs mq"
  shows "\<exists>mq'. rt_mq_urgent mq m sz = Some (RT_EOK, mq') \<and> mq_ok sz mq' \<and>
    mq_contents sz mq' = m # mq_contents sz mq \<and> max_msgs mq' = max_msgs mq"
proof -
  from ok obtain q f where rep: "mq_rep mq q f {}" and sz: "0 < sz" "sz \<le> msg_size mq" by (auto simp: mq_ok_def)
  note nodes = mq_rep_count [OF rep] mq_rep_contents [OF rep, of sz]
  then obtain n f' where f: "f = n # f'" using room by (cases f) auto
  obtain mq1 where t: "mq_take_free mq = Some (n, mq1)" and rep1: "mq_rep mq1 q f' {n}"
    and keep1: "msg_body mq1 = msg_body mq" "msg_size mq1 = msg_size mq"
    using mq_take_free_rep [OF rep] f by (auto split: option.splits)
  define mq2 where "mq2 = mq1\<lparr>msg_body := (msg_body mq1)(n := m @ drop sz (msg_body mq1 n))\<rparr>"
  have len: "length (msg_body mq1 n) = msg_size mq1" "n \<notin> set q" using rep1 by (auto simp: mq_rep_def)
  have w: "rd_n m 0 sz = Some m" "wr_n (msg_body mq1 n) 0 m = Some (m @ drop sz (msg_body mq1 n))"
    using m sz len keep1 by (simp_all add: rd_n_def wr_n_def)
  have rep2: "mq_rep mq2 q f' {n}" using rep1 m sz keep1 by (auto simp: mq_rep_def mq2_def)
  note l = mq_link_urgent_rep [OF rep2, of n]
  have rep3: "mq_rep (mq_link_urgent n mq2) (n # q) f' {}" using l(1) by simp
  have "mq_contents sz (mq_link_urgent n mq2) = m # mq_contents sz mq"
    unfolding nodes(2) mq_rep_contents [OF rep3] using l(2) len m keep1 by (auto simp: mq2_def intro!: map_cong)
  moreover have "max_msgs (mq_link_urgent n mq2) = max_msgs mq" using mq_rep_count [OF rep3] nodes(1) f by simp
  ultimately show ?thesis
    using t w sz rep3 l(3) keep1 by (auto simp: rt_mq_urgent_def mq_ok_def mq2_def)
qed

interpretation rt_mq: bounded_fifo "mq_ok sz" "mq_contents sz" max_msgs "\<lambda>m. length m = sz" "mq_send_op sz" "mq_recv_op sz"
  for sz
proof (unfold_locales, goal_cases)
  case (1 q)
  then obtain qs f where "mq_rep q qs f {}" by (auto simp: mq_ok_def)
  then show ?case using mq_rep_count [of q qs f] mq_rep_contents [of q qs f sz] by simp
next
  case (2 q m)
  then show ?case using rt_mq_send_room by (simp add: mq_send_op_def)
next
  case (3 q m)
  then show ?case using rt_mq_send_full by (simp add: mq_send_op_def)
next
  case (4 q m ms)
  then show ?case using rt_mq_recv_first [of sz q m ms 0 0] by (auto simp: mq_recv_op_def)
next
  case (5 q)
  then show ?case using rt_mq_recv_none(1) [of sz q 0] by (simp add: mq_recv_op_def)
qed

section \<open>Threads interleaving in the queue\<close>

text \<open>
  Where a thread can be between two atomic sections: holding a free node it is about to fill,
  a node it has filled, or a node it has taken from the queue and is copying from. The ghost
  logs record the messages in the order they were linked and in the order they were taken.
\<close>

datatype 'b mq_pc = MQ_IDLE | MQ_FILLING nat "'b list" | MQ_FILLED nat | MQ_FETCHING nat "'b list"

record 'b mq_sys =
  sys_mq :: "'b mq"
  sys_pc :: "nat \<Rightarrow> 'b mq_pc"
  sys_linked :: "'b list list"
  sys_taken :: "'b list list"

inductive mq_step :: "nat \<Rightarrow> 'b mq_sys \<Rightarrow> 'b mq_sys \<Rightarrow> bool" for sz where
  send_take: "sys_pc s t = MQ_IDLE \<Longrightarrow> sz \<le> msg_size (sys_mq s) \<Longrightarrow> sz \<le> length buf \<Longrightarrow>
    mq_take_free (sys_mq s) = Some (n, mq') \<Longrightarrow>
    mq_step sz s (s\<lparr>sys_mq := mq', sys_pc := (sys_pc s)(t := MQ_FILLING n buf)\<rparr>)"
| send_fill: "sys_pc s t = MQ_FILLING n buf \<Longrightarrow> mq_fill n buf sz (sys_mq s) = Some mq' \<Longrightarrow>
    mq_step sz s (s\<lparr>sys_mq := mq', sys_pc := (sys_pc s)(t := MQ_FILLED n)\<rparr>)"
| send_link: "sys_pc s t = MQ_FILLED n \<Longrightarrow>
    mq_step sz s (s\<lparr>sys_mq := mq_link n (sys_mq s), sys_pc := (sys_pc s)(t := MQ_IDLE),
      sys_linked := sys_linked s @ [msg_body (sys_mq s) n]\<rparr>)"
| recv_wait: "sys_pc s t = MQ_IDLE \<Longrightarrow> entry (sys_mq s) = 0 \<Longrightarrow>
    mq_step sz s (s\<lparr>sys_mq := (sys_mq s)\<lparr>suspend_thread := suspend_thread (sys_mq s) @ [t]\<rparr>\<rparr>)"
| recv_take: "sys_pc s t = MQ_IDLE \<Longrightarrow> entry (sys_mq s) \<noteq> 0 \<Longrightarrow> mq_unlink (sys_mq s) = Some (n, mq') \<Longrightarrow>
    mq_step sz s (s\<lparr>sys_mq := mq', sys_pc := (sys_pc s)(t := MQ_FETCHING n (msg_body (sys_mq s) n)),
      sys_taken := sys_taken s @ [msg_body (sys_mq s) n]\<rparr>)"
| recv_release: "sys_pc s t = MQ_FETCHING n m \<Longrightarrow> mq_fetch n sz (sys_mq s) = Some buf \<Longrightarrow>
    mq_step sz s (s\<lparr>sys_mq := mq_release n (sys_mq s), sys_pc := (sys_pc s)(t := MQ_IDLE)\<rparr>)"

inductive_cases mq_stepE: "mq_step sz s s'"

inductive mq_reach :: "nat \<Rightarrow> 'b mq \<Rightarrow> 'b mq_sys \<Rightarrow> bool" for sz mq0 where
  start: "mq_reach sz mq0 \<lparr>sys_mq = mq0, sys_pc = (\<lambda>_. MQ_IDLE), sys_linked = [], sys_taken = []\<rparr>"
| further: "mq_reach sz mq0 s \<Longrightarrow> mq_step sz s s' \<Longrightarrow> mq_reach sz mq0 s'"

fun pc_node :: "'b mq_pc \<Rightarrow> nat option" where
  "pc_node MQ_IDLE = None"
| "pc_node (MQ_FILLING n buf) = Some n"
| "pc_node (MQ_FILLED n) = Some n"
| "pc_node (MQ_FETCHING n m) = Some n"

definition held_nodes :: "(nat \<Rightarrow> 'b mq_pc) \<Rightarrow> nat set" where
  "held_nodes pcs = {n. \<exists>t. pc_node (pcs t) = Some n}"

text \<open>
  The invariant of the interleaving: the nodes the threads hold are all different and are
  neither queued nor free; a filled node ends its chain; a node being fetched still holds what
  was taken; and the logs agree with the queue.
\<close>

definition mq_sys_inv :: "nat \<Rightarrow> 'b mq_sys \<Rightarrow> bool" where
  "mq_sys_inv sz s \<longleftrightarrow>
     (\<exists>q f. mq_rep (sys_mq s) q f (held_nodes (sys_pc s)) \<and> sys_linked s = sys_taken s @ mq_msgs (sys_mq s) q) \<and>
     (\<forall>t t' n. pc_node (sys_pc s t) = Some n \<longrightarrow> pc_node (sys_pc s t') = Some n \<longrightarrow> t = t') \<and>
     (\<forall>t n. sys_pc s t = MQ_FILLED n \<longrightarrow> msg_next (sys_mq s) n = None) \<and>
     (\<forall>t n buf. sys_pc s t = MQ_FILLING n buf \<longrightarrow> sz \<le> msg_size (sys_mq s) \<and> sz \<le> length buf) \<and>
     (\<forall>t n m. sys_pc s t = MQ_FETCHING n m \<longrightarrow> msg_body (sys_mq s) n = m)"

lemma held_nodes_upd:
  assumes "\<forall>t t' n. pc_node (pcs t) = Some n \<longrightarrow> pc_node (pcs t') = Some n \<longrightarrow> t = t'"
  shows "held_nodes (pcs(t := p)) = (held_nodes pcs - set_option (pc_node (pcs t))) \<union> set_option (pc_node p)"
  using assms unfolding held_nodes_def by (auto split: if_splits)

lemma held_nodes_idle: "held_nodes (\<lambda>_. MQ_IDLE) = {}"
  by (simp add: held_nodes_def)

lemma pc_node_held: "pc_node (pcs t) = Some n \<Longrightarrow> n \<in> held_nodes pcs"
  by (auto simp: held_nodes_def)

text \<open>What the sections leave alone.\<close>

lemma mq_take_free_next: "mq_take_free mq = Some (n, mq') \<Longrightarrow> msg_next mq' = msg_next mq"
  by (auto simp: mq_take_free_def split: option.splits)

lemma mq_fill_frame:
  "mq_fill n buf sz mq = Some mq' \<Longrightarrow> m \<noteq> n \<Longrightarrow> msg_next mq' m = msg_next mq m \<and> msg_body mq' m = msg_body mq m"
  by (auto simp: mq_fill_def split: Option.bind_splits)

lemma mq_link_next: "msg_queue_tail mq \<noteq> Some m \<Longrightarrow> msg_next (mq_link n mq) m = msg_next mq m"
  by (auto simp: mq_link_def Let_def split: option.split)

lemma mq_unlink_next: "mq_unlink mq = Some (n, mq') \<Longrightarrow> msg_next mq' = msg_next mq"
  by (auto simp: mq_unlink_def Let_def split: option.splits)

lemma mq_release_next: "m \<noteq> n \<Longrightarrow> msg_next (mq_release n mq) m = msg_next mq m"
  by (simp add: mq_release_def)

lemma mq_sys_invE:
  assumes "mq_sys_inv sz s"
  obtains q f where "mq_rep (sys_mq s) q f (held_nodes (sys_pc s))" "sys_linked s = sys_taken s @ mq_msgs (sys_mq s) q"
    "\<forall>t t' n. pc_node (sys_pc s t) = Some n \<longrightarrow> pc_node (sys_pc s t') = Some n \<longrightarrow> t = t'"
    "\<forall>t n. sys_pc s t = MQ_FILLED n \<longrightarrow> msg_next (sys_mq s) n = None"
    "\<forall>t n buf. sys_pc s t = MQ_FILLING n buf \<longrightarrow> sz \<le> msg_size (sys_mq s) \<and> sz \<le> length buf"
    "\<forall>t n m. sys_pc s t = MQ_FETCHING n m \<longrightarrow> msg_body (sys_mq s) n = m"
  using assms unfolding mq_sys_inv_def by blast

lemma mq_sys_invI:
  assumes "mq_rep (sys_mq s) q f (held_nodes (sys_pc s))" "sys_linked s = sys_taken s @ mq_msgs (sys_mq s) q"
    "\<And>t t' n. pc_node (sys_pc s t) = Some n \<Longrightarrow> pc_node (sys_pc s t') = Some n \<Longrightarrow> t = t'"
    "\<And>t n. sys_pc s t = MQ_FILLED n \<Longrightarrow> msg_next (sys_mq s) n = None"
    "\<And>t n buf. sys_pc s t = MQ_FILLING n buf \<Longrightarrow> sz \<le> msg_size (sys_mq s) \<and> sz \<le> length buf"
    "\<And>t n m. sys_pc s t = MQ_FETCHING n m \<Longrightarrow> msg_body (sys_mq s) n = m"
  shows "mq_sys_inv sz s"
  using assms unfolding mq_sys_inv_def by blast

lemma mq_inv_take:
  assumes inv: "mq_sys_inv sz s" and idle: "sys_pc s t = MQ_IDLE" and sz: "sz \<le> msg_size (sys_mq s)" "sz \<le> length buf"
    and take: "mq_take_free (sys_mq s) = Some (n, mq')"
  shows "mq_sys_inv sz (s\<lparr>sys_mq := mq', sys_pc := (sys_pc s)(t := MQ_FILLING n buf)\<rparr>)"
proof -
  obtain q f where rep: "mq_rep (sys_mq s) q f (held_nodes (sys_pc s))" and log: "sys_linked s = sys_taken s @ mq_msgs (sys_mq s) q"
    and inj: "\<forall>t t' n. pc_node (sys_pc s t) = Some n \<longrightarrow> pc_node (sys_pc s t') = Some n \<longrightarrow> t = t'"
    and rest: "\<forall>t n. sys_pc s t = MQ_FILLED n \<longrightarrow> msg_next (sys_mq s) n = None"
      "\<forall>t n buf. sys_pc s t = MQ_FILLING n buf \<longrightarrow> sz \<le> msg_size (sys_mq s) \<and> sz \<le> length buf"
      "\<forall>t n m. sys_pc s t = MQ_FETCHING n m \<longrightarrow> msg_body (sys_mq s) n = m"
    using inv by (rule mq_sys_invE)
  obtain f' where n: "n \<notin> held_nodes (sys_pc s)" and rep': "mq_rep mq' q f' (insert n (held_nodes (sys_pc s)))"
    and keep: "msg_body mq' = msg_body (sys_mq s)" "msg_size mq' = msg_size (sys_mq s)"
    using mq_take_free_rep [OF rep] take by auto
  have held: "held_nodes ((sys_pc s)(t := MQ_FILLING n buf)) = insert n (held_nodes (sys_pc s))"
    using held_nodes_upd [OF inj] idle by simp
  have other: "pc_node (sys_pc s t') \<noteq> Some n" for t' using n pc_node_held by blast
  show ?thesis
    by (rule mq_sys_invI [of _ q f'])
       (use rep' log keep held inj rest sz mq_take_free_next [OF take] other
         in \<open>auto simp: mq_msgs_def split: if_splits\<close>)
qed

lemma mq_inv_fill:
  assumes inv: "mq_sys_inv sz s" and pc: "sys_pc s t = MQ_FILLING n buf" and fill: "mq_fill n buf sz (sys_mq s) = Some mq'"
  shows "mq_sys_inv sz (s\<lparr>sys_mq := mq', sys_pc := (sys_pc s)(t := MQ_FILLED n)\<rparr>)"
proof -
  obtain q f where rep: "mq_rep (sys_mq s) q f (held_nodes (sys_pc s))" and log: "sys_linked s = sys_taken s @ mq_msgs (sys_mq s) q"
    and inj: "\<forall>t t' n. pc_node (sys_pc s t) = Some n \<longrightarrow> pc_node (sys_pc s t') = Some n \<longrightarrow> t = t'"
    and rest: "\<forall>t n. sys_pc s t = MQ_FILLED n \<longrightarrow> msg_next (sys_mq s) n = None"
      "\<forall>t n buf. sys_pc s t = MQ_FILLING n buf \<longrightarrow> sz \<le> msg_size (sys_mq s) \<and> sz \<le> length buf"
      "\<forall>t n m. sys_pc s t = MQ_FETCHING n m \<longrightarrow> msg_body (sys_mq s) n = m"
    using inv by (rule mq_sys_invE)
  have n: "n \<in> held_nodes (sys_pc s)" using pc_node_held [of "sys_pc s" t n] pc by simp
  then have out: "n \<notin> set q" using rep by (auto simp: mq_rep_def)
  have rep': "mq_rep mq' q f (held_nodes (sys_pc s))" "msg_next mq' n = None" "msg_size mq' = msg_size (sys_mq s)"
    using mq_fill_rep [OF rep n, of sz buf] rest(2) pc fill by auto
  note frame = mq_fill_frame [OF fill]
  have held: "held_nodes ((sys_pc s)(t := MQ_FILLED n)) = held_nodes (sys_pc s)"
    using held_nodes_upd [OF inj, of t "MQ_FILLED n"] pc n by auto
  have other: "t' \<noteq> t \<Longrightarrow> pc_node (sys_pc s t') \<noteq> Some n" for t'
    using inj pc by (metis pc_node.simps(2))
  have filled: "msg_next mq' m = None" if "sys_pc s t' = MQ_FILLED m" "t' \<noteq> t" for t' m
    using other [OF that(2)] frame [of m] rest(1) that(1) by auto
  have fetch: "msg_body mq' m = b" if "sys_pc s t' = MQ_FETCHING m b" "t' \<noteq> t" for t' m b
    using other [OF that(2)] frame [of m] rest(3) that(1) by auto
  have msgs: "mq_msgs mq' q = mq_msgs (sys_mq s) q"
    using frame out unfolding mq_msgs_def by (metis map_eq_conv)
  show ?thesis
    by (rule mq_sys_invI [of _ q f])
       (use rep' log held inj rest msgs other filled fetch in \<open>auto split: if_splits\<close>)
qed

lemma mq_inv_link:
  assumes inv: "mq_sys_inv sz s" and pc: "sys_pc s t = MQ_FILLED n"
  shows "mq_sys_inv sz (s\<lparr>sys_mq := mq_link n (sys_mq s), sys_pc := (sys_pc s)(t := MQ_IDLE),
      sys_linked := sys_linked s @ [msg_body (sys_mq s) n]\<rparr>)"
proof -
  obtain q f where rep: "mq_rep (sys_mq s) q f (held_nodes (sys_pc s))" and log: "sys_linked s = sys_taken s @ mq_msgs (sys_mq s) q"
    and inj: "\<forall>t t' n. pc_node (sys_pc s t) = Some n \<longrightarrow> pc_node (sys_pc s t') = Some n \<longrightarrow> t = t'"
    and rest: "\<forall>t n. sys_pc s t = MQ_FILLED n \<longrightarrow> msg_next (sys_mq s) n = None"
      "\<forall>t n buf. sys_pc s t = MQ_FILLING n buf \<longrightarrow> sz \<le> msg_size (sys_mq s) \<and> sz \<le> length buf"
      "\<forall>t n m. sys_pc s t = MQ_FETCHING n m \<longrightarrow> msg_body (sys_mq s) n = m"
    using inv by (rule mq_sys_invE)
  have n: "n \<in> held_nodes (sys_pc s)" using pc_node_held [of "sys_pc s" t n] pc by simp
  note l = mq_link_rep [OF rep n]
  have next_n: "msg_next (sys_mq s) n = None" using rest(1) pc by simp
  have held: "held_nodes ((sys_pc s)(t := MQ_IDLE)) = held_nodes (sys_pc s) - {n}"
    using held_nodes_upd [OF inj, of t MQ_IDLE] pc by simp
  have frame: "m \<in> held_nodes (sys_pc s) \<Longrightarrow> msg_next (mq_link n (sys_mq s)) m = msg_next (sys_mq s) m" for m
    using rep mq_link_next [of "sys_mq s" m n] last_in_set by (fastforce simp: mq_rep_def split: if_splits)
  have filled: "msg_next (mq_link n (sys_mq s)) m = None" if "sys_pc s t' = MQ_FILLED m" for t' m
    using frame rest(1) that pc_node_held [of "sys_pc s" t' m] by simp
  show ?thesis
    by (rule mq_sys_invI [of _ "q @ [n]" f])
       (use l [OF next_n] log held inj rest filled in \<open>auto simp: mq_msgs_def split: if_splits\<close>)
qed

lemma mq_inv_unlink:
  assumes inv: "mq_sys_inv sz s" and idle: "sys_pc s t = MQ_IDLE" and e: "entry (sys_mq s) \<noteq> 0"
  shows "\<exists>n mq'. mq_unlink (sys_mq s) = Some (n, mq') \<and>
    mq_sys_inv sz (s\<lparr>sys_mq := mq', sys_pc := (sys_pc s)(t := MQ_FETCHING n (msg_body (sys_mq s) n)),
      sys_taken := sys_taken s @ [msg_body (sys_mq s) n]\<rparr>)"
proof -
  obtain q0 f where rep0: "mq_rep (sys_mq s) q0 f (held_nodes (sys_pc s))" and log0: "sys_linked s = sys_taken s @ mq_msgs (sys_mq s) q0"
    and inj: "\<forall>t t' n. pc_node (sys_pc s t) = Some n \<longrightarrow> pc_node (sys_pc s t') = Some n \<longrightarrow> t = t'"
    and rest: "\<forall>t n. sys_pc s t = MQ_FILLED n \<longrightarrow> msg_next (sys_mq s) n = None"
      "\<forall>t n buf. sys_pc s t = MQ_FILLING n buf \<longrightarrow> sz \<le> msg_size (sys_mq s) \<and> sz \<le> length buf"
      "\<forall>t n m. sys_pc s t = MQ_FETCHING n m \<longrightarrow> msg_body (sys_mq s) n = m"
    using inv by (rule mq_sys_invE)
  obtain n q where q: "q0 = n # q" using rep0 e by (cases q0) (auto simp: mq_rep_def)
  obtain mq' where un: "mq_unlink (sys_mq s) = Some (n, mq')" and rep: "mq_rep mq' q f (insert n (held_nodes (sys_pc s)))"
    and n: "n \<notin> held_nodes (sys_pc s)" and keep: "msg_body mq' = msg_body (sys_mq s)" "msg_size mq' = msg_size (sys_mq s)"
    using mq_unlink_rep [OF rep0 [unfolded q]] by auto
  have held: "held_nodes ((sys_pc s)(t := MQ_FETCHING n m)) = insert n (held_nodes (sys_pc s))" for m
    using held_nodes_upd [OF inj] idle by simp
  have other: "pc_node (sys_pc s t') \<noteq> Some n" for t' using n pc_node_held by blast
  have "mq_sys_inv sz (s\<lparr>sys_mq := mq', sys_pc := (sys_pc s)(t := MQ_FETCHING n (msg_body (sys_mq s) n)),
      sys_taken := sys_taken s @ [msg_body (sys_mq s) n]\<rparr>)"
    by (rule mq_sys_invI [of _ q f])
       (use rep log0 q keep held inj rest mq_unlink_next [OF un] other
         in \<open>auto simp: mq_msgs_def split: if_splits\<close>)
  with un show ?thesis by blast
qed

lemma mq_inv_release:
  assumes inv: "mq_sys_inv sz s" and pc: "sys_pc s t = MQ_FETCHING n m"
  shows "mq_sys_inv sz (s\<lparr>sys_mq := mq_release n (sys_mq s), sys_pc := (sys_pc s)(t := MQ_IDLE)\<rparr>)"
proof -
  obtain q f where rep: "mq_rep (sys_mq s) q f (held_nodes (sys_pc s))" and log: "sys_linked s = sys_taken s @ mq_msgs (sys_mq s) q"
    and inj: "\<forall>t t' n. pc_node (sys_pc s t) = Some n \<longrightarrow> pc_node (sys_pc s t') = Some n \<longrightarrow> t = t'"
    and rest: "\<forall>t n. sys_pc s t = MQ_FILLED n \<longrightarrow> msg_next (sys_mq s) n = None"
      "\<forall>t n buf. sys_pc s t = MQ_FILLING n buf \<longrightarrow> sz \<le> msg_size (sys_mq s) \<and> sz \<le> length buf"
      "\<forall>t n m. sys_pc s t = MQ_FETCHING n m \<longrightarrow> msg_body (sys_mq s) n = m"
    using inv by (rule mq_sys_invE)
  have n: "n \<in> held_nodes (sys_pc s)" using pc_node_held [of "sys_pc s" t n] pc by simp
  note r = mq_release_rep [OF rep n]
  have held: "held_nodes ((sys_pc s)(t := MQ_IDLE)) = held_nodes (sys_pc s) - {n}"
    using held_nodes_upd [OF inj, of t MQ_IDLE] pc by simp
  have other: "t' \<noteq> t \<Longrightarrow> pc_node (sys_pc s t') \<noteq> Some n" for t'
    using inj pc by (metis pc_node.simps(4))
  have filled: "msg_next (mq_release n (sys_mq s)) k = None" if "sys_pc s t' = MQ_FILLED k" "t' \<noteq> t" for t' k
    using other [OF that(2)] rest(1) that(1) by (simp add: mq_release_next)
  show ?thesis
    by (rule mq_sys_invI [of _ q "n # f"])
       (use r log held inj rest filled in \<open>auto simp: mq_msgs_def split: if_splits\<close>)
qed

lemma mq_step_inv: "mq_step sz s s' \<Longrightarrow> mq_sys_inv sz s \<Longrightarrow> mq_sys_inv sz s'"
proof (induction rule: mq_step.induct)
  case (recv_take s t n mq')
  then show ?case using mq_inv_unlink [of sz s t] by auto
next
  case (recv_wait s t)
  then show ?case by (simp add: mq_sys_inv_def mq_rep_def mq_msgs_def)
qed (blast intro: mq_inv_take mq_inv_fill mq_inv_link mq_inv_release)+

lemma mq_reach_inv:
  assumes "mq_rep mq0 [] f0 {}"
  shows "mq_reach sz mq0 s \<Longrightarrow> mq_sys_inv sz s"
proof (induction rule: mq_reach.induct)
  case start
  show ?case
    by (rule mq_sys_invI [of _ "[]" f0]) (use assms in \<open>auto simp: mq_msgs_def held_nodes_idle\<close>)
next
  case (further s s')
  then show ?case using mq_step_inv by blast
qed

section \<open>Properties\<close>

text \<open>
  (C7) The kernel's queue refines a FIFO: after \<open>rt_mq_create\<close>, any messages of the declared
  size, up to the declared number, are accepted one after the other by \<open>rt_mq_send\<close>, and
  \<open>rt_mq_recv\<close> hands them out in the order they were sent, until the queue is empty again.
\<close>

theorem rt_mq_fifo:
  assumes mq: "rt_mq_create True True next0 body0 sz msgs = Some mq"
    and mem: "\<And>n. length (body0 n) = rt_align sz 4 mod 65536"
    and sz: "0 < sz" "sz \<le> 65532" and ms: "\<forall>m \<in> set ms. length m = sz" "length ms \<le> msgs" "msgs < 65536"
  shows "\<exists>mq' mq''. rt_mq.send_all sz mq ms = Some mq' \<and> mq_contents sz mq' = ms \<and>
    rt_mq.recv_all sz (length ms) mq' = Some (ms, mq'') \<and> mq_contents sz mq'' = []"
proof -
  have al: "sz \<le> rt_align sz 4" "rt_align sz 4 < 65536" using sz by (auto simp: rt_align_def)
  note c = rt_mq_create_rep [OF mq mem]
  have ok: "mq_ok sz mq" using c sz al by (auto simp: mq_ok_def)
  have empty: "mq_contents sz mq = []" using mq_rep_contents [OF c(1)] by simp
  have fit: "list_all (\<lambda>m. length m = sz) ms" "length ms \<le> max_msgs mq" using ms c(3) by (auto simp: list_all_iff)
  obtain mq' where s: "rt_mq.send_all sz mq ms = Some mq'" "mq_ok sz mq'" "mq_contents sz mq' = ms"
    using rt_mq.send_all_appends [OF ok fit(1)] empty fit(2) by auto
  then show ?thesis using rt_mq.recv_all_takes [OF s(2), of ms "[]"] by auto
qed

theorem rt_mq_fifo_witness:
  "\<exists>mq mq' mq''. rt_mq_create True True (\<lambda>_. None) (\<lambda>_. [0, 0, 0, 0 :: nat]) 2 3 = Some mq \<and>
    rt_mq.send_all 2 mq [[1, 2], [3, 4]] = Some mq' \<and> mq_contents 2 mq' = [[1, 2], [3, 4]] \<and>
    rt_mq.recv_all 2 2 mq' = Some ([[1, 2], [3, 4]], mq'') \<and> mq_contents 2 mq'' = []"
proof -
  obtain mq where mq: "rt_mq_create True True (\<lambda>_. None) (\<lambda>_. [0, 0, 0, 0 :: nat]) 2 3 = Some mq"
    by (simp add: rt_mq_create_def Let_def)
  have "\<exists>mq' mq''. rt_mq.send_all 2 mq [[1, 2], [3, 4]] = Some mq' \<and> mq_contents 2 mq' = [[1, 2], [3, 4]] \<and>
      rt_mq.recv_all 2 (length [[1, 2], [3, 4 :: nat]]) mq' = Some ([[1, 2], [3, 4]], mq'') \<and> mq_contents 2 mq'' = []"
    by (rule rt_mq_fifo [OF mq]) (simp_all add: rt_align_def)
  moreover have "length [[1, 2], [3, 4 :: nat]] = 2" by simp
  ultimately show ?thesis using mq by metis
qed

text \<open>
  (C8) With any number of threads inside \<open>rt_mq_send\<close> and \<open>rt_mq_recv\<close> at once, interleaved
  between their critical sections: the messages linked so far are those taken so far followed
  by those in the queue, so messages leave in the order they were linked; a receiver that sees
  \<open>entry \<noteq> 0\<close> finds a message; and what a receiver copies out is what it took, untouched by
  the other threads.
\<close>

theorem mq_interleaving_safe:
  assumes "mq_rep mq0 [] f0 {}" "mq_reach sz mq0 s"
  shows "(\<exists>q f. mq_rep (sys_mq s) q f (held_nodes (sys_pc s)) \<and> sys_linked s = sys_taken s @ mq_msgs (sys_mq s) q) \<and>
    (entry (sys_mq s) \<noteq> 0 \<longrightarrow> mq_unlink (sys_mq s) \<noteq> None) \<and>
    (\<forall>t n m. sys_pc s t = MQ_FETCHING n m \<longrightarrow> msg_body (sys_mq s) n = m)"
proof -
  have inv: "mq_sys_inv sz s" using mq_reach_inv [OF assms] .
  obtain q f where rep: "mq_rep (sys_mq s) q f (held_nodes (sys_pc s))" and log: "sys_linked s = sys_taken s @ mq_msgs (sys_mq s) q"
    and rest: "\<forall>t n m. sys_pc s t = MQ_FETCHING n m \<longrightarrow> msg_body (sys_mq s) n = m"
    using inv by (rule mq_sys_invE)
  have "entry (sys_mq s) \<noteq> 0 \<Longrightarrow> mq_unlink (sys_mq s) \<noteq> None"
    using rep by (cases q) (auto simp: mq_rep_def mq_unlink_def Let_def)
  with rep log rest show ?thesis by blast
qed

definition demo_mq :: "nat mq" where
  "demo_mq = \<lparr>msg_size = 4, max_msgs = 2, entry = 0, msg_queue_head = None, msg_queue_tail = None,
     msg_queue_free = Some 1, msg_next = (\<lambda>n. if n = 1 then Some 0 else None), msg_body = (\<lambda>_. [0, 0, 0, 0]),
     suspend_thread = []\<rparr>"

theorem mq_interleaving_safe_witness:
  "\<exists>s. mq_reach 1 demo_mq s \<and> sys_pc s 7 = MQ_FILLING 1 [5] \<and>
    (\<exists>q f. mq_rep (sys_mq s) q f (held_nodes (sys_pc s)) \<and> sys_linked s = sys_taken s @ mq_msgs (sys_mq s) q) \<and>
    (entry (sys_mq s) \<noteq> 0 \<longrightarrow> mq_unlink (sys_mq s) \<noteq> None) \<and>
    (\<forall>t n m. sys_pc s t = MQ_FETCHING n m \<longrightarrow> msg_body (sys_mq s) n = m)"
proof -
  let ?a = "\<lparr>sys_mq = demo_mq, sys_pc = (\<lambda>_. MQ_IDLE), sys_linked = [], sys_taken = []\<rparr>"
  let ?b = "?a\<lparr>sys_mq := demo_mq\<lparr>msg_queue_free := Some 0\<rparr>, sys_pc := (sys_pc ?a)(7 := MQ_FILLING 1 [5])\<rparr>"
  have "mq_step 1 ?a ?b"
    by (rule mq_step.send_take) (simp_all add: demo_mq_def mq_take_free_def)
  then have r: "mq_reach 1 demo_mq ?b" using mq_reach.further [OF mq_reach.start] by blast
  have "mq_rep demo_mq [] [1, 0] {}" by (auto simp: mq_rep_def demo_mq_def)
  from mq_interleaving_safe [OF this r] r show ?thesis by (intro exI [of _ ?b]) simp
qed

text \<open>
  An urgent message overtakes: after \<open>rt_mq_urgent\<close> into a queue with room, the next
  \<open>rt_mq_recv\<close> returns it and leaves the earlier messages in their order. Resetting the queue
  with \<open>rt_mq_control\<close> terminates, empties it, and wakes every waiting thread.
\<close>

theorem rt_mq_urgent_and_reset:
  assumes "mq_ok sz mq" "length m = sz" "length (mq_contents sz mq) < max_msgs mq"
  shows "\<exists>mq1 mq2 mq3. rt_mq_urgent mq m sz = Some (RT_EOK, mq1) \<and>
    rt_mq_recv mq1 self sz timeout = Some (MQ_MSG m, mq2) \<and> mq_contents sz mq2 = mq_contents sz mq \<and>
    rt_mq_control mq1 RT_IPC_CMD_RESET = Some (RT_EOK, mq3) \<and> mq_ok sz mq3 \<and> mq_contents sz mq3 = [] \<and>
    suspend_thread mq3 = []"
proof -
  obtain mq1 where u: "rt_mq_urgent mq m sz = Some (RT_EOK, mq1)" "mq_ok sz mq1"
    "mq_contents sz mq1 = m # mq_contents sz mq"
    using rt_mq_urgent_room [OF assms] by blast
  then show ?thesis
    using rt_mq_recv_first [OF u(2,3), of self timeout] rt_mq_control_reset [OF u(2)] by auto
qed

lemma demo_mq_ok: "mq_ok 1 demo_mq" "mq_contents 1 demo_mq = []" "max_msgs demo_mq = 2"
proof -
  have r: "mq_rep demo_mq [] [1, 0] {}" by (auto simp: mq_rep_def demo_mq_def)
  show "mq_ok 1 demo_mq" using r by (auto simp: mq_ok_def demo_mq_def)
  show "mq_contents 1 demo_mq = []" using mq_rep_contents [OF r] by simp
  show "max_msgs demo_mq = 2" by (simp add: demo_mq_def)
qed

theorem rt_mq_urgent_and_reset_witness:
  "\<exists>mq1 mq2 mq3. rt_mq_urgent demo_mq [7] 1 = Some (RT_EOK, mq1) \<and>
    rt_mq_recv mq1 3 1 (- 1) = Some (MQ_MSG [7], mq2) \<and> mq_contents 1 mq2 = mq_contents 1 demo_mq \<and>
    rt_mq_control mq1 RT_IPC_CMD_RESET = Some (RT_EOK, mq3) \<and> mq_ok 1 mq3 \<and> mq_contents 1 mq3 = [] \<and>
    suspend_thread mq3 = []"
  by (rule rt_mq_urgent_and_reset) (simp_all only: demo_mq_ok, simp_all)

end
