(* ===== verification/Zmq.thy ===== *)
theory Zmq
  imports Rt_Mq
begin

text \<open>
  \<open>func/zmq.c\<close>: the message bus of the application. Each thread that receives messages binds an
  option; \<open>zmq_create\<close> then makes one kernel queue for every bound option. A message carries a
  pointer to a payload, which \<open>zmq_publish\<close> copies into a block of its own that the receiver
  frees.

  The message structure is stored in a queue as the sequence of its four fields, each of them
  one unit of storage, so that its size is four units. \<open>zmq_heap\<close> holds the payload blocks by
  address.
\<close>

section \<open>Messages\<close>

datatype zmq_opt = ZMQ_OPT_NULL | ZMQ_OPT_LED | ZMQ_OPT_KEY | ZMQ_OPT_DCU | ZMQ_OPT_WEB

datatype ipc_msg_type = MSG_TYPE_NULL | MSG_TYPE_RESET

record ipc_msg =
  msg_src :: zmq_opt
  msg_type :: ipc_msg_type
  msg_len :: u16
  msg_data :: "nat option"

definition IPC_MSG_INITIALIZER :: ipc_msg where
  "IPC_MSG_INITIALIZER = \<lparr>msg_src = ZMQ_OPT_NULL, msg_type = MSG_TYPE_NULL, msg_len = 0, msg_data = None\<rparr>"

datatype ipc_cell = CELL_SRC zmq_opt | CELL_TYPE ipc_msg_type | CELL_LEN u16 | CELL_DATA "nat option"

definition ipc_cells :: "ipc_msg \<Rightarrow> ipc_cell list" where
  "ipc_cells m = [CELL_SRC (msg_src m), CELL_TYPE (msg_type m), CELL_LEN (msg_len m), CELL_DATA (msg_data m)]"

fun ipc_of_cells :: "ipc_cell list \<Rightarrow> ipc_msg option" where
  "ipc_of_cells [CELL_SRC s, CELL_TYPE t, CELL_LEN l, CELL_DATA d] =
     Some \<lparr>msg_src = s, msg_type = t, msg_len = l, msg_data = d\<rparr>"
| "ipc_of_cells _ = None"

definition ipc_size :: nat where "ipc_size = 4"

lemma ipc_of_cells_cells [simp]: "ipc_of_cells (ipc_cells m) = Some m"
  by (simp add: ipc_cells_def)

lemma length_ipc_cells [simp]: "length (ipc_cells m) = ipc_size"
  by (simp add: ipc_cells_def ipc_size_def)

section \<open>The bus\<close>

record zmq_mq =
  zmq_key :: zmq_opt
  zmq_queue :: "ipc_cell mq option"

record zmq_bus =
  zmq_mq_list :: "zmq_mq list"
  zmq_heap :: "nat \<Rightarrow> u8 list option"

definition zmq_init :: "zmq_bus \<Rightarrow> int \<times> zmq_bus" where
  "zmq_init st = (RT_EOK, st\<lparr>zmq_mq_list := []\<rparr>)"

text \<open>The position of the first node for an option.\<close>

primrec zmq_get_by_opt :: "zmq_mq list \<Rightarrow> zmq_opt \<Rightarrow> nat option" where
  "zmq_get_by_opt [] opt = None"
| "zmq_get_by_opt (z # zs) opt = (if zmq_key z = opt then Some 0 else map_option Suc (zmq_get_by_opt zs opt))"

definition zmq_bind :: "bool \<Rightarrow> zmq_opt \<Rightarrow> zmq_bus \<Rightarrow> int \<times> zmq_bus" where
  "zmq_bind malloc_ok opt st =
     (if zmq_get_by_opt (zmq_mq_list st) opt \<noteq> None then (- RT_ERROR, st)
      else if \<not> malloc_ok then (- RT_ERROR, st)
      else (RT_EOK, st\<lparr>zmq_mq_list := zmq_mq_list st @ [\<lparr>zmq_key = opt, zmq_queue = None\<rparr>]\<rparr>))"

text \<open>
  The memory that \<open>rt_mq_create\<close> gets for the \<open>index\<close>-th queue: whether its two allocations
  succeed, and what the pool contains. The name given to a queue is a label only.
\<close>

type_synonym zmq_pools = "nat \<Rightarrow> bool \<times> bool \<times> (nat \<Rightarrow> nat option) \<times> (nat \<Rightarrow> ipc_cell list)"

definition zmq_new_queue :: "zmq_pools \<Rightarrow> nat \<Rightarrow> ipc_cell mq option" where
  "zmq_new_queue pools index =
     (case pools index of (obj, mem, next0, body0) \<Rightarrow> rt_mq_create obj mem next0 body0 ipc_size 10)"

primrec zmq_create_loop :: "zmq_pools \<Rightarrow> nat \<Rightarrow> zmq_mq list \<Rightarrow> int \<times> zmq_mq list" where
  "zmq_create_loop pools index [] = (RT_EOK, [])"
| "zmq_create_loop pools index (z # zs) =
     (if zmq_queue z = None then
        (case zmq_new_queue pools index of
           None \<Rightarrow> (- RT_ENOMEM, z # zs)
         | Some q \<Rightarrow> (case zmq_create_loop pools (index + 1) zs of (rc, zs) \<Rightarrow> (rc, z\<lparr>zmq_queue := Some q\<rparr> # zs)))
      else (case zmq_create_loop pools index zs of (rc, zs) \<Rightarrow> (rc, z # zs)))"

text \<open>On failure every node is taken out of the list, its queue deleted and its memory freed.\<close>

definition zmq_create :: "zmq_pools \<Rightarrow> zmq_bus \<Rightarrow> int \<times> zmq_bus" where
  "zmq_create pools st =
     (case zmq_create_loop pools 0 (zmq_mq_list st) of
        (rc, zs) \<Rightarrow> if rc \<noteq> RT_EOK then (rc, st\<lparr>zmq_mq_list := []\<rparr>) else (rc, st\<lparr>zmq_mq_list := zs\<rparr>))"

definition zmq_load_msg :: "zmq_opt \<Rightarrow> ipc_msg_type \<Rightarrow> nat option \<Rightarrow> u16 \<Rightarrow> ipc_msg \<Rightarrow> ipc_msg" where
  "zmq_load_msg src type buf len m = m\<lparr>msg_src := src, msg_type := type, msg_data := buf, msg_len := len\<rparr>"

text \<open>\<open>rt_free\<close>: freeing the null pointer does nothing, freeing a block that is not there is undefined.\<close>

definition zmq_free :: "nat option \<Rightarrow> zmq_bus \<Rightarrow> zmq_bus option" where
  "zmq_free a st =
     (case a of None \<Rightarrow> Some st
      | Some p \<Rightarrow> if zmq_heap st p = None then None else Some (st\<lparr>zmq_heap := (zmq_heap st)(p := None)\<rparr>))"

text \<open>The payload part of \<open>zmq_publish\<close>; \<open>m\<close> is the address that \<open>rt_malloc\<close> returns.\<close>

definition zmq_copy_payload :: "nat option \<Rightarrow> ipc_msg \<Rightarrow> zmq_bus \<Rightarrow> ((nat option \<times> zmq_bus) option) option" where
  "zmq_copy_payload m msg st =
     (case msg_data msg of
        Some a \<Rightarrow>
          if msg_len msg \<noteq> 0 then
            (case m of
               None \<Rightarrow> Some None
             | Some p \<Rightarrow>
                 do { src \<leftarrow> zmq_heap st a;
                      d \<leftarrow> rd_n src 0 (unat (msg_len msg));
                      Some (Some (Some p, st\<lparr>zmq_heap := (zmq_heap st)(p := Some d)\<rparr>)) })
          else Some (Some (None, st))
      | None \<Rightarrow> Some (Some (None, st)))"

definition zmq_set_queue :: "nat \<Rightarrow> ipc_cell mq \<Rightarrow> zmq_bus \<Rightarrow> zmq_bus" where
  "zmq_set_queue i q st = st\<lparr>zmq_mq_list := (zmq_mq_list st)[i := (zmq_mq_list st ! i)\<lparr>zmq_queue := Some q\<rparr>]\<rparr>"

text \<open>A null queue fails the assertion of \<open>rt_mq_send\<close> and \<open>rt_mq_recv\<close>.\<close>

definition zmq_publish :: "nat option \<Rightarrow> ipc_msg \<Rightarrow> zmq_opt \<Rightarrow> zmq_bus \<Rightarrow> (int \<times> zmq_bus) option" where
  "zmq_publish m msg dest st =
     (case zmq_get_by_opt (zmq_mq_list st) dest of
        None \<Rightarrow> Some (- RT_ERROR, st)
      | Some i \<Rightarrow>
          do { copied \<leftarrow> zmq_copy_payload m msg st;
               case copied of
                 None \<Rightarrow> Some (- RT_ENOMEM, st)
               | Some (d, st) \<Rightarrow>
                   do { let send_msg = IPC_MSG_INITIALIZER\<lparr>msg_src := msg_src msg, msg_type := msg_type msg,
                              msg_len := msg_len msg, msg_data := d\<rparr>;
                        q \<leftarrow> zmq_queue (zmq_mq_list st ! i);
                        (rc, q) \<leftarrow> rt_mq_send q (ipc_cells send_msg) ipc_size;
                        let st = zmq_set_queue i q st;
                        if rc \<noteq> RT_EOK then
                          do { st \<leftarrow> zmq_free d st; Some (- RT_ERROR, st) }
                        else Some (RT_EOK, st) } })"

text \<open>
  \<open>zmq_subscribe\<close> by thread \<open>self\<close>: one pass of \<open>rt_mq_recv\<close>, which may suspend the caller. The
  message is left alone unless one is received.
\<close>

definition zmq_subscribe :: "zmq_opt \<Rightarrow> nat \<Rightarrow> int \<Rightarrow> ipc_msg \<Rightarrow> zmq_bus \<Rightarrow> (ipc_cell mq_recv_result \<times> ipc_msg \<times> zmq_bus) option" where
  "zmq_subscribe opt self timeout msg st =
     (case zmq_get_by_opt (zmq_mq_list st) opt of
        None \<Rightarrow> Some (MQ_ERR (- RT_ERROR), msg, st)
      | Some i \<Rightarrow>
          do { q \<leftarrow> zmq_queue (zmq_mq_list st ! i);
               (r, q) \<leftarrow> rt_mq_recv q self ipc_size timeout;
               msg \<leftarrow> (case r of MQ_MSG cells \<Rightarrow> ipc_of_cells cells | _ \<Rightarrow> Some msg);
               Some (r, msg, zmq_set_queue i q st) })"

section \<open>The bus as queues of messages\<close>

definition queue_ok :: "ipc_cell mq \<Rightarrow> bool" where
  "queue_ok q \<longleftrightarrow> mq_ok ipc_size q \<and> max_msgs q = 10 \<and> (\<forall>c \<in> set (mq_contents ipc_size q). \<exists>m. c = ipc_cells m)"

definition zmq_ok :: "zmq_bus \<Rightarrow> bool" where
  "zmq_ok st \<longleftrightarrow> (\<forall>z \<in> set (zmq_mq_list st). \<forall>q. zmq_queue z = Some q \<longrightarrow> queue_ok q)"

definition queue_msgs :: "ipc_cell mq \<Rightarrow> ipc_msg list" where
  "queue_msgs q = map (the \<circ> ipc_of_cells) (mq_contents ipc_size q)"

text \<open>The queue an option has, and the messages waiting in it.\<close>

definition zmq_find :: "zmq_bus \<Rightarrow> zmq_opt \<Rightarrow> ipc_cell mq option" where
  "zmq_find st opt = do { i \<leftarrow> zmq_get_by_opt (zmq_mq_list st) opt; zmq_queue (zmq_mq_list st ! i) }"

definition zmq_pending :: "zmq_bus \<Rightarrow> zmq_opt \<Rightarrow> ipc_msg list" where
  "zmq_pending st opt = (case zmq_find st opt of None \<Rightarrow> [] | Some q \<Rightarrow> queue_msgs q)"

lemma zmq_get_by_opt_Some: "zmq_get_by_opt l opt = Some i \<Longrightarrow> i < length l \<and> zmq_key (l ! i) = opt"
  by (induction l arbitrary: i) (auto split: if_splits)

lemma zmq_get_by_opt_keys: "map zmq_key l = map zmq_key l' \<Longrightarrow> zmq_get_by_opt l opt = zmq_get_by_opt l' opt"
proof (induction l arbitrary: l')
  case Nil
  then show ?case by simp
next
  case (Cons z zs)
  then show ?case by (cases l') auto
qed

lemma zmq_get_by_opt_distinct:
  "distinct (map zmq_key l) \<Longrightarrow> i < length l \<Longrightarrow> zmq_get_by_opt l (zmq_key (l ! i)) = Some i"
proof (induction l arbitrary: i)
  case Nil
  then show ?case by simp
next
  case (Cons z zs)
  then show ?case by (cases i) auto
qed

lemma zmq_set_queue_keys [simp]: "map zmq_key (zmq_mq_list (zmq_set_queue i q st)) = map zmq_key (zmq_mq_list st)"
  by (cases "i < length (zmq_mq_list st)") (simp_all add: zmq_set_queue_def map_update list_update_same_conv list_update_beyond)

lemma zmq_get_set_queue [simp]:
  "zmq_get_by_opt (zmq_mq_list (zmq_set_queue i q st)) opt = zmq_get_by_opt (zmq_mq_list st) opt"
  using zmq_get_by_opt_keys [OF zmq_set_queue_keys] .

lemma zmq_heap_set_queue [simp]: "zmq_heap (zmq_set_queue i q st) = zmq_heap st"
  by (simp add: zmq_set_queue_def)

lemma zmq_find_set_queue:
  assumes "zmq_get_by_opt (zmq_mq_list st) opt = Some i"
  shows "zmq_find (zmq_set_queue i q st) opt' = (if opt' = opt then Some q else zmq_find st opt')"
proof -
  note i = zmq_get_by_opt_Some [OF assms]
  show ?thesis
  proof (cases "opt' = opt")
    case True
    then show ?thesis using assms i by (simp add: zmq_find_def) (simp add: zmq_set_queue_def)
  next
    case False
    then have "zmq_get_by_opt (zmq_mq_list st) opt' = Some j \<Longrightarrow> j \<noteq> i" for j
      using zmq_get_by_opt_Some i by blast
    then have "zmq_find (zmq_set_queue i q st) opt' = zmq_find st opt'"
      unfolding zmq_find_def zmq_get_set_queue
      by (cases "zmq_get_by_opt (zmq_mq_list st) opt'") (auto simp: zmq_set_queue_def)
    then show ?thesis using False by simp
  qed
qed

lemma zmq_ok_set_queue: "zmq_ok st \<Longrightarrow> queue_ok q \<Longrightarrow> zmq_ok (zmq_set_queue i q st)"
  unfolding zmq_ok_def zmq_set_queue_def
  by (auto dest!: set_update_subset_insert [THEN subsetD])

lemma zmq_find_Some:
  assumes "zmq_find st opt = Some q"
  obtains i where "zmq_get_by_opt (zmq_mq_list st) opt = Some i" "zmq_queue (zmq_mq_list st ! i) = Some q"
  using assms by (auto simp: zmq_find_def bind_eq_Some_conv)

lemma zmq_ok_find: "zmq_ok st \<Longrightarrow> zmq_find st opt = Some q \<Longrightarrow> queue_ok q"
  by (auto simp: zmq_find_def zmq_ok_def bind_eq_Some_conv dest!: zmq_get_by_opt_Some)

lemma queue_msgs_length: "length (queue_msgs q) = length (mq_contents ipc_size q)"
  by (simp add: queue_msgs_def)

lemma queue_send_room:
  assumes ok: "queue_ok q" and room: "length (queue_msgs q) < 10"
  shows "\<exists>q'. rt_mq_send q (ipc_cells m) ipc_size = Some (RT_EOK, q') \<and> queue_ok q' \<and> queue_msgs q' = queue_msgs q @ [m]"
proof -
  have "mq_ok ipc_size q" "length (mq_contents ipc_size q) < max_msgs q"
    using ok room by (auto simp: queue_ok_def queue_msgs_def)
  then obtain q' where q': "rt_mq_send q (ipc_cells m) ipc_size = Some (RT_EOK, q')" "mq_ok ipc_size q'"
    "mq_contents ipc_size q' = mq_contents ipc_size q @ [ipc_cells m]" "max_msgs q' = max_msgs q"
    using rt_mq_send_room [of ipc_size q "ipc_cells m"] by auto
  then show ?thesis using ok by (auto simp: queue_ok_def queue_msgs_def)
qed

lemma queue_send_full:
  assumes ok: "queue_ok q" and full: "length (queue_msgs q) = 10"
  shows "rt_mq_send q (ipc_cells m) ipc_size = Some (- RT_EFULL, q)"
  using rt_mq_send_full [of ipc_size q "ipc_cells m"] ok full by (auto simp: queue_ok_def queue_msgs_def)

lemma queue_bound: "queue_ok q \<Longrightarrow> length (queue_msgs q) \<le> 10"
  using rt_mq.bound [of ipc_size q] by (simp add: queue_ok_def queue_msgs_def)

lemma queue_recv_first:
  assumes ok: "queue_ok q" and c: "queue_msgs q = m # ms"
  shows "\<exists>q'. rt_mq_recv q self ipc_size timeout = Some (MQ_MSG (ipc_cells m), q') \<and> queue_ok q' \<and> queue_msgs q' = ms"
proof -
  obtain c cs where cs: "mq_contents ipc_size q = c # cs" "the (ipc_of_cells c) = m" "ms = map (the \<circ> ipc_of_cells) cs"
    using c by (auto simp: queue_msgs_def)
  then have c': "c = ipc_cells m" using ok by (auto simp: queue_ok_def)
  then obtain q' where "rt_mq_recv q self ipc_size timeout = Some (MQ_MSG c, q')" "mq_ok ipc_size q'"
    "mq_contents ipc_size q' = cs" "max_msgs q' = max_msgs q"
    using rt_mq_recv_first [of ipc_size q c cs self timeout] cs ok by (auto simp: queue_ok_def)
  then show ?thesis using ok cs c' by (auto simp: queue_ok_def queue_msgs_def)
qed

section \<open>The operations on the queues\<close>

text \<open>Sending a message once the payload has been dealt with.\<close>

lemma zmq_frame:
  assumes "zmq_mq_list st1 = zmq_mq_list st"
  shows "zmq_ok st1 = zmq_ok st" "zmq_find st1 opt = zmq_find st opt" "zmq_pending st1 opt = zmq_pending st opt"
  using assms by (simp_all add: zmq_ok_def zmq_find_def zmq_pending_def)

lemma zmq_publish_room:
  assumes ok: "zmq_ok st" and q: "zmq_find st dest = Some q" and room: "length (zmq_pending st dest) < 10"
    and copy: "zmq_copy_payload m msg st = Some (Some (d, st1))" and l: "zmq_mq_list st1 = zmq_mq_list st"
  shows "\<exists>st'. zmq_publish m msg dest st = Some (RT_EOK, st') \<and> zmq_ok st' \<and> zmq_heap st' = zmq_heap st1 \<and>
    (\<forall>opt. zmq_find st' opt = None \<longleftrightarrow> zmq_find st opt = None) \<and>
    (\<forall>opt. zmq_pending st' opt = zmq_pending st opt @ (if opt = dest then [msg\<lparr>msg_data := d\<rparr>] else []))"
proof -
  let ?m = "IPC_MSG_INITIALIZER\<lparr>msg_src := msg_src msg, msg_type := msg_type msg, msg_len := msg_len msg, msg_data := d\<rparr>"
  obtain i where i: "zmq_get_by_opt (zmq_mq_list st) dest = Some i" "zmq_queue (zmq_mq_list st ! i) = Some q"
    using q by (rule zmq_find_Some)
  obtain q' where q': "rt_mq_send q (ipc_cells ?m) ipc_size = Some (RT_EOK, q')" "queue_ok q'" "queue_msgs q' = queue_msgs q @ [?m]"
    using queue_send_room [OF zmq_ok_find [OF ok q]] room q by (auto simp: zmq_pending_def)
  have same: "?m = msg\<lparr>msg_data := d\<rparr>" by (simp add: IPC_MSG_INITIALIZER_def)
  have "zmq_publish m msg dest st = Some (RT_EOK, zmq_set_queue i q' st1)"
    using i q' copy l by (simp add: zmq_publish_def)
  moreover have "zmq_find (zmq_set_queue i q' st1) opt = (if opt = dest then Some q' else zmq_find st opt)" for opt
    using zmq_find_set_queue [of st1 dest i q' opt] i l zmq_frame(2) [OF l] by simp
  ultimately show ?thesis
    using zmq_ok_set_queue [of st1 q' i] ok zmq_frame(1) [OF l] q q'(2,3) same by (auto simp: zmq_pending_def)
qed

lemma zmq_publish_full:
  assumes ok: "zmq_ok st" and q: "zmq_find st dest = Some q" and full: "length (zmq_pending st dest) = 10"
    and copy: "zmq_copy_payload m msg st = Some (Some (d, st1))" and l: "zmq_mq_list st1 = zmq_mq_list st"
    and heap: "zmq_free d st1 = Some (st\<lparr>zmq_heap := h\<rparr>)"
  shows "\<exists>st'. zmq_publish m msg dest st = Some (- RT_ERROR, st') \<and> zmq_heap st' = h \<and>
    zmq_ok st' \<and> (\<forall>opt. zmq_pending st' opt = zmq_pending st opt)"
proof -
  obtain i where i: "zmq_get_by_opt (zmq_mq_list st) dest = Some i" "zmq_queue (zmq_mq_list st ! i) = Some q"
    using q by (rule zmq_find_Some)
  have s: "rt_mq_send q (ipc_cells m) ipc_size = Some (- RT_EFULL, q)" for m
    using queue_send_full [OF zmq_ok_find [OF ok q]] full q by (simp add: zmq_pending_def)
  have "(zmq_mq_list st ! i)\<lparr>zmq_queue := Some q\<rparr> = zmq_mq_list st ! i"
    using i(2) by (cases "zmq_mq_list st ! i") simp
  then have "zmq_set_queue i q st1 = st1" using l by (simp add: zmq_set_queue_def)
  then have "zmq_publish m msg dest st = Some (- RT_ERROR, st\<lparr>zmq_heap := h\<rparr>)"
    using i s copy l heap by (simp add: zmq_publish_def)
  then show ?thesis using ok zmq_frame [of "st\<lparr>zmq_heap := h\<rparr>" st] by auto
qed

lemma zmq_copy_none:
  "msg_data msg = None \<or> msg_len msg = 0 \<Longrightarrow> zmq_copy_payload m msg st = Some (Some (None, st))"
  by (auto simp: zmq_copy_payload_def split: option.splits)

lemma zmq_copy_some:
  "msg_data msg = Some a \<Longrightarrow> msg_len msg \<noteq> 0 \<Longrightarrow> zmq_heap st a = Some src \<Longrightarrow> unat (msg_len msg) \<le> length src \<Longrightarrow>
    zmq_copy_payload (Some p) msg st =
      Some (Some (Some p, st\<lparr>zmq_heap := (zmq_heap st)(p := Some (take (unat (msg_len msg)) src))\<rparr>))"
  by (simp add: zmq_copy_payload_def rd_n_def)

lemma zmq_subscribe_first:
  assumes ok: "zmq_ok st" and p: "zmq_pending st opt = m # ms"
  shows "\<exists>st'. zmq_subscribe opt self timeout m0 st = Some (MQ_MSG (ipc_cells m), m, st') \<and> zmq_ok st' \<and>
    zmq_heap st' = zmq_heap st \<and> (\<forall>opt'. zmq_find st' opt' = None \<longleftrightarrow> zmq_find st opt' = None) \<and>
    (\<forall>opt'. zmq_pending st' opt' = (if opt' = opt then ms else zmq_pending st opt'))"
proof -
  obtain q where q: "zmq_find st opt = Some q" "queue_msgs q = m # ms"
    using p by (auto simp: zmq_pending_def split: option.splits)
  obtain i where i: "zmq_get_by_opt (zmq_mq_list st) opt = Some i" "zmq_queue (zmq_mq_list st ! i) = Some q"
    using q(1) by (rule zmq_find_Some)
  obtain q' where q': "rt_mq_recv q self ipc_size timeout = Some (MQ_MSG (ipc_cells m), q')" "queue_ok q'" "queue_msgs q' = ms"
    using queue_recv_first [OF zmq_ok_find [OF ok q(1)] q(2)] by blast
  have "zmq_subscribe opt self timeout m0 st = Some (MQ_MSG (ipc_cells m), m, zmq_set_queue i q' st)"
    using i q'(1) by (simp add: zmq_subscribe_def)
  then show ?thesis
    using zmq_ok_set_queue [OF ok q'(2)] zmq_find_set_queue [OF i(1)] q q'(3) by (auto simp: zmq_pending_def)
qed

text \<open>Creating the queues.\<close>

definition pools_ok :: "zmq_pools \<Rightarrow> bool" where
  "pools_ok pools \<longleftrightarrow> (\<forall>i. case pools i of (obj, mem, next0, body0) \<Rightarrow> \<forall>n. length (body0 n) = 4)"

lemma zmq_new_queue_ok:
  assumes pools: "pools_ok pools" and q: "zmq_new_queue pools i = Some q"
  shows "queue_ok q \<and> queue_msgs q = []"
proof -
  obtain obj mem next0 body0 where p: "pools i = (obj, mem, next0, body0)" by (cases "pools i") auto
  have al: "rt_align ipc_size 4 mod 65536 = 4" by (simp add: rt_align_def ipc_size_def)
  have body: "length (body0 n) = rt_align ipc_size 4 mod 65536" for n
    using pools [unfolded pools_ok_def, rule_format, of i] p al by simp
  have c: "rt_mq_create True True next0 body0 ipc_size 10 = Some q"
    using q p by (auto simp: zmq_new_queue_def rt_mq_create_def split: if_splits)
  note r = rt_mq_create_rep [OF c body]
  have e: "mq_contents ipc_size q = []" using mq_rep_contents [OF r(1)] by simp
  have "mq_ok ipc_size q" using r(1,2) al by (auto simp: mq_ok_def ipc_size_def)
  then show ?thesis using e r(3) by (simp add: queue_ok_def queue_msgs_def)
qed

lemma zmq_create_loop_keys: "map zmq_key (snd (zmq_create_loop pools k zs)) = map zmq_key zs"
  by (induction zs arbitrary: k) (auto split: option.splits prod.splits, (metis snd_conv)+)

lemma zmq_create_loop_ok:
  assumes pools: "pools_ok pools"
  shows "zmq_create_loop pools k zs = (RT_EOK, zs') \<Longrightarrow> \<forall>z \<in> set zs. \<forall>q. zmq_queue z = Some q \<longrightarrow> queue_ok q \<Longrightarrow>
    list_all2 (\<lambda>z z'. zmq_key z' = zmq_key z \<and> (\<exists>q. zmq_queue z' = Some q \<and> queue_ok q \<and>
      (zmq_queue z = None \<longrightarrow> queue_msgs q = []) \<and> (zmq_queue z \<noteq> None \<longrightarrow> zmq_queue z = Some q))) zs zs'"
proof (induction zs arbitrary: k zs')
  case Nil
  then show ?case by simp
next
  case (Cons z zs)
  show ?case
  proof (cases "zmq_queue z")
    case None
    then obtain q zs1 where "zmq_new_queue pools k = Some q" "zmq_create_loop pools (k + 1) zs = (RT_EOK, zs1)"
      "zs' = z\<lparr>zmq_queue := Some q\<rparr> # zs1"
      using Cons.prems(1) by (auto split: option.splits prod.splits)
    then show ?thesis using Cons.IH Cons.prems(2) zmq_new_queue_ok [OF pools] None by auto
  next
    case (Some q)
    then obtain zs1 where "zmq_create_loop pools k zs = (RT_EOK, zs1)" "zs' = z # zs1"
      using Cons.prems(1) by (auto split: prod.splits)
    then show ?thesis using Cons.IH Cons.prems(2) Some by auto
  qed
qed

lemma zmq_create_loop_rc: "fst (zmq_create_loop pools k zs) = RT_EOK \<or> fst (zmq_create_loop pools k zs) = - RT_ENOMEM"
  by (induction zs arbitrary: k) (auto split: option.splits prod.splits, (metis fst_conv)+)

lemma zmq_create_loop_succeeds:
  "(\<And>i. zmq_new_queue pools i \<noteq> None) \<Longrightarrow> fst (zmq_create_loop pools k zs) = RT_EOK"
  by (induction zs arbitrary: k) (auto split: option.splits prod.splits, (metis fst_conv option.exhaust)+)

lemma zmq_create_outcome:
  assumes ok: "zmq_ok st" and pools: "pools_ok pools" and run: "zmq_create pools st = (rc, st')"
  shows "rc = RT_EOK \<and> map zmq_key (zmq_mq_list st') = map zmq_key (zmq_mq_list st) \<and>
      (\<forall>opt. zmq_get_by_opt (zmq_mq_list st) opt \<noteq> None \<longrightarrow>
        (\<exists>q. zmq_find st' opt = Some q \<and> queue_ok q \<and> zmq_pending st' opt = zmq_pending st opt)) \<or>
    rc = - RT_ENOMEM \<and> zmq_mq_list st' = []"
proof (cases "fst (zmq_create_loop pools 0 (zmq_mq_list st)) = RT_EOK")
  case False
  then have "fst (zmq_create_loop pools 0 (zmq_mq_list st)) = - RT_ENOMEM" using zmq_create_loop_rc by blast
  then show ?thesis using run False by (auto simp: zmq_create_def split: prod.splits)
next
  case True
  then obtain zs where loop: "zmq_create_loop pools 0 (zmq_mq_list st) = (RT_EOK, zs)" by (metis prod.collapse)
  then have rc: "rc = RT_EOK" and l: "zmq_mq_list st' = zs" using run by (auto simp: zmq_create_def)
  have keys: "map zmq_key zs = map zmq_key (zmq_mq_list st)"
    using zmq_create_loop_keys [of pools 0 "zmq_mq_list st"] loop by simp
  have all: "list_all2 (\<lambda>z z'. zmq_key z' = zmq_key z \<and> (\<exists>q. zmq_queue z' = Some q \<and> queue_ok q \<and>
      (zmq_queue z = None \<longrightarrow> queue_msgs q = []) \<and> (zmq_queue z \<noteq> None \<longrightarrow> zmq_queue z = Some q))) (zmq_mq_list st) zs"
    using zmq_create_loop_ok [OF pools loop] ok by (simp add: zmq_ok_def)
  have "\<exists>q. zmq_find st' opt = Some q \<and> queue_ok q \<and> zmq_pending st' opt = zmq_pending st opt"
    if "zmq_get_by_opt (zmq_mq_list st) opt = Some i" for opt i
  proof -
    have i: "i < length (zmq_mq_list st)" using zmq_get_by_opt_Some [OF that] by simp
    have g: "zmq_get_by_opt (zmq_mq_list st') opt = Some i" using zmq_get_by_opt_keys [of zs "zmq_mq_list st"] keys l that by simp
    show ?thesis
      using list_all2_nthD [OF all i] g that l
      by (cases "zmq_queue (zmq_mq_list st ! i)") (auto simp: zmq_find_def zmq_pending_def)
  qed
  then show ?thesis using rc l keys by auto
qed

section \<open>Properties\<close>

text \<open>
  (C18) A message arrives with its payload: publishing a message to an option that has an empty
  queue succeeds, and subscribing there gives the same source, type and length with a private
  copy of the payload. The sender's buffer, the other blocks and the other queues are untouched,
  and the copy is the only new block.
\<close>

theorem zmq_publish_subscribe:
  assumes ok: "zmq_ok st" and q: "zmq_find st dest = Some q" and empty: "zmq_pending st dest = []"
    and data: "msg_data msg = Some a" "msg_len msg \<noteq> 0" "zmq_heap st a = Some src" "unat (msg_len msg) \<le> length src"
  shows "\<exists>st' st''. zmq_publish (Some p) msg dest st = Some (RT_EOK, st') \<and>
    zmq_subscribe dest self timeout m0 st' = Some (MQ_MSG (ipc_cells (msg\<lparr>msg_data := Some p\<rparr>)), msg\<lparr>msg_data := Some p\<rparr>, st'') \<and>
    zmq_heap st'' = (zmq_heap st)(p := Some (take (unat (msg_len msg)) src)) \<and>
    (\<forall>opt. zmq_pending st'' opt = zmq_pending st opt)"
proof -
  obtain st' where s: "zmq_publish (Some p) msg dest st = Some (RT_EOK, st')" "zmq_ok st'"
    "zmq_heap st' = (zmq_heap st)(p := Some (take (unat (msg_len msg)) src))"
    "\<forall>opt. zmq_pending st' opt = zmq_pending st opt @ (if opt = dest then [msg\<lparr>msg_data := Some p\<rparr>] else [])"
    using zmq_publish_room [OF ok q _ zmq_copy_some [OF data, of p]] empty by auto
  have "zmq_pending st' dest = [msg\<lparr>msg_data := Some p\<rparr>]" using s(4) empty by simp
  then show ?thesis
    using zmq_subscribe_first [OF s(2), of dest "msg\<lparr>msg_data := Some p\<rparr>" "[]" self timeout m0] s empty by fastforce
qed

definition demo_pools :: zmq_pools where
  "demo_pools i = (True, True, (\<lambda>_. None), (\<lambda>_. replicate 4 (CELL_DATA None)))"

definition demo_bus :: "ipc_cell mq \<Rightarrow> zmq_bus" where
  "demo_bus q = \<lparr>zmq_mq_list = [\<lparr>zmq_key = ZMQ_OPT_LED, zmq_queue = None\<rparr>, \<lparr>zmq_key = ZMQ_OPT_DCU, zmq_queue = Some q\<rparr>],
     zmq_heap = (\<lambda>a. if a = 1 then Some [7, 8, 9] else None)\<rparr>"

lemma demo_pools_ok: "pools_ok demo_pools"
  by (simp add: pools_ok_def demo_pools_def)

lemma demo_queue: "\<exists>q. queue_ok q \<and> length (queue_msgs q) = n" if "n \<le> 10" for n
  using that
proof (induction n)
  case 0
  obtain q where "zmq_new_queue demo_pools 0 = Some q"
    by (simp add: zmq_new_queue_def demo_pools_def rt_mq_create_def Let_def)
  then show ?case using zmq_new_queue_ok [OF demo_pools_ok] by fastforce
next
  case (Suc n)
  then obtain q where "queue_ok q" "length (queue_msgs q) = n" by auto
  then show ?case using queue_send_room [of q IPC_MSG_INITIALIZER] Suc.prems by fastforce
qed

lemma demo_bus_ok:
  assumes "queue_ok q"
  shows "zmq_ok (demo_bus q)" "zmq_find (demo_bus q) ZMQ_OPT_DCU = Some q" "zmq_pending (demo_bus q) ZMQ_OPT_DCU = queue_msgs q"
  using assms by (simp_all add: demo_bus_def zmq_ok_def zmq_find_def zmq_pending_def)

definition demo_msg :: ipc_msg where
  "demo_msg = \<lparr>msg_src = ZMQ_OPT_WEB, msg_type = MSG_TYPE_RESET, msg_len = 2, msg_data = Some 1\<rparr>"

theorem zmq_publish_subscribe_witness:
  "\<exists>q st' st''. queue_ok q \<and> zmq_publish (Some 5) demo_msg ZMQ_OPT_DCU (demo_bus q) = Some (RT_EOK, st') \<and>
    zmq_subscribe ZMQ_OPT_DCU 0 (- 1) IPC_MSG_INITIALIZER st' =
      Some (MQ_MSG (ipc_cells (demo_msg\<lparr>msg_data := Some 5\<rparr>)), demo_msg\<lparr>msg_data := Some 5\<rparr>, st'') \<and>
    zmq_heap st'' 5 = Some [7, 8] \<and> zmq_heap st'' 1 = Some [7, 8, 9]"
proof -
  obtain q where q: "queue_ok q" "queue_msgs q = []" using demo_queue [of 0] by auto
  have m: "msg_data demo_msg = Some 1" "msg_len demo_msg \<noteq> 0" "zmq_heap (demo_bus q) 1 = Some [7, 8, 9]"
    "unat (msg_len demo_msg) \<le> length [7, 8, 9 :: u8]" by (simp_all add: demo_msg_def demo_bus_def)
  have e: "zmq_pending (demo_bus q) ZMQ_OPT_DCU = []" using demo_bus_ok(3) [OF q(1)] q(2) by simp
  have t: "take (unat (msg_len demo_msg)) [7, 8, 9 :: u8] = [7, 8]" by (simp add: demo_msg_def)
  show ?thesis
    using zmq_publish_subscribe [OF demo_bus_ok(1,2) [OF q(1)] e m, of 5 0 "- 1" IPC_MSG_INITIALIZER] q(1) t m(3)
    by (fastforce simp: t)
qed

text \<open>
  Nothing leaks when a queue is full: publishing to it fails with \<open>-RT_ERROR\<close>, frees the
  copy it made, and leaves every queue as it was.
\<close>

theorem zmq_publish_full_no_leak:
  assumes ok: "zmq_ok st" and q: "zmq_find st dest = Some q" and full: "length (zmq_pending st dest) = 10"
    and data: "msg_data msg = Some a" "msg_len msg \<noteq> 0" "zmq_heap st a = Some src" "unat (msg_len msg) \<le> length src"
    and fresh: "zmq_heap st p = None"
  shows "\<exists>st'. zmq_publish (Some p) msg dest st = Some (- RT_ERROR, st') \<and> zmq_heap st' = zmq_heap st \<and>
    (\<forall>opt. zmq_pending st' opt = zmq_pending st opt)"
proof -
  have "(zmq_heap st)(p := None) = zmq_heap st" using fresh by auto
  then have "zmq_free (Some p) (st\<lparr>zmq_heap := (zmq_heap st)(p := Some (take (unat (msg_len msg)) src))\<rparr>) = Some (st\<lparr>zmq_heap := zmq_heap st\<rparr>)"
    by (simp add: zmq_free_def)
  from zmq_publish_full [OF ok q full zmq_copy_some [OF data] _ this] show ?thesis by auto
qed

theorem zmq_publish_full_no_leak_witness:
  "\<exists>q st'. queue_ok q \<and> length (queue_msgs q) = 10 \<and>
    zmq_publish (Some 5) demo_msg ZMQ_OPT_DCU (demo_bus q) = Some (- RT_ERROR, st') \<and> zmq_heap st' = zmq_heap (demo_bus q) \<and>
    (\<forall>opt. zmq_pending st' opt = zmq_pending (demo_bus q) opt)"
proof -
  obtain q where q: "queue_ok q" "length (queue_msgs q) = 10" using demo_queue [of 10] by auto
  have m: "msg_data demo_msg = Some 1" "msg_len demo_msg \<noteq> 0" "zmq_heap (demo_bus q) 1 = Some [7, 8, 9]"
    "unat (msg_len demo_msg) \<le> length [7, 8, 9 :: u8]" "zmq_heap (demo_bus q) 5 = None"
    by (simp_all add: demo_msg_def demo_bus_def)
  have "length (zmq_pending (demo_bus q) ZMQ_OPT_DCU) = 10" using demo_bus_ok(3) [OF q(1)] q(2) by simp
  from zmq_publish_full_no_leak [OF demo_bus_ok(1,2) [OF q(1)] this m] show ?thesis using q by blast
qed

text \<open>
  \<open>zmq_create\<close> is all or nothing: either it returns \<open>RT_EOK\<close> and every bound option has a
  working queue for ten messages, empty when it is new and as it was when it existed, or it
  returns \<open>-RT_ENOMEM\<close> and nothing is bound any more.
\<close>

theorem zmq_create_all_or_nothing:
  assumes ok: "zmq_ok st" and pools: "pools_ok pools" and run: "zmq_create pools st = (rc, st')"
  shows "rc = RT_EOK \<and> map zmq_key (zmq_mq_list st') = map zmq_key (zmq_mq_list st) \<and>
      (\<forall>opt. zmq_get_by_opt (zmq_mq_list st) opt \<noteq> None \<longrightarrow>
        (\<exists>q. zmq_find st' opt = Some q \<and> queue_ok q \<and> zmq_pending st' opt = zmq_pending st opt)) \<or>
    rc = - RT_ENOMEM \<and> zmq_mq_list st' = []"
  using assms by (rule zmq_create_outcome)

theorem zmq_create_all_or_nothing_witness:
  "\<exists>q rc st'. queue_ok q \<and> zmq_create demo_pools (demo_bus q) = (rc, st') \<and>
    (rc = RT_EOK \<and> map zmq_key (zmq_mq_list st') = [ZMQ_OPT_LED, ZMQ_OPT_DCU] \<and>
      (\<forall>opt. zmq_get_by_opt (zmq_mq_list (demo_bus q)) opt \<noteq> None \<longrightarrow>
        (\<exists>q'. zmq_find st' opt = Some q' \<and> queue_ok q' \<and> zmq_pending st' opt = zmq_pending (demo_bus q) opt)) \<or>
    rc = - RT_ENOMEM \<and> zmq_mq_list st' = [])"
proof -
  obtain q where q: "queue_ok q" using demo_queue [of 0] by auto
  obtain rc st' where r: "zmq_create demo_pools (demo_bus q) = (rc, st')" by (cases "zmq_create demo_pools (demo_bus q)")
  have "map zmq_key (zmq_mq_list (demo_bus q)) = [ZMQ_OPT_LED, ZMQ_OPT_DCU]" by (simp add: demo_bus_def)
  with zmq_create_all_or_nothing [OF demo_bus_ok(1) [OF q] demo_pools_ok r] show ?thesis
    using q r by (intro exI [of _ q] exI [of _ rc] exI [of _ st']) simp
qed

end
