(* ===== verification/Rt_Kernel.thy ===== *)
theory Rt_Kernel
  imports Prelude
begin

text \<open>
  Services of the kernel that the packages of the application share: the tick counter and its
  conversions (\<open>rt-thread/src/clock.c\<close>), the singly linked lists of \<open>rtservice.h\<close>, and the pin
  device (\<open>rt-thread/components/drivers/misc/pin.c\<close>) seen from its users.
\<close>

section \<open>Ticks\<close>

definition RT_TICK_MAX :: u32 where "RT_TICK_MAX = 0xffffffff"
definition RT_TICK_PER_SECOND :: u32 where "RT_TICK_PER_SECOND = 1000"
definition RT_WAITING_FOREVER :: u32 where "RT_WAITING_FOREVER = 0xffffffff"

text \<open>
  \<open>rt_tick_from_millisecond\<close> takes a signed number; \<open>/\<close> and \<open>%\<close> are those of C, which agree
  with \<open>div\<close> and \<open>mod\<close> on the values that reach them.
\<close>

definition rt_tick_from_millisecond :: "u32 \<Rightarrow> u32" where
  "rt_tick_from_millisecond ms =
     (if sint ms < 0 then RT_WAITING_FOREVER
      else RT_TICK_PER_SECOND * (ms div 1000) + (RT_TICK_PER_SECOND * (ms mod 1000) + 999) div 1000)"

text \<open>The idiom with which the packages ask whether the tick \<open>t\<close> has been reached.\<close>

definition tick_reached :: "u32 \<Rightarrow> u32 \<Rightarrow> bool" where
  "tick_reached now t \<longleftrightarrow> now - t < RT_TICK_MAX div 2"

lemma tick_half: "RT_TICK_MAX div 2 = 0x7fffffff"
proof -
  have "unat (RT_TICK_MAX div 2) = unat (0x7fffffff :: u32)" by (simp add: unat_div RT_TICK_MAX_def)
  then show ?thesis by (simp add: word_unat_eq_iff)
qed

lemma word32_nonneg: "\<not> sint (ms :: u32) < 0 \<longleftrightarrow> unat ms < 2 ^ 31"
proof -
  have u: "uint ms < 2 ^ 32" "0 \<le> uint ms" using uint_lt2p [of ms] by simp_all
  have d: "uint ms div 2 ^ 31 = (if uint ms < 2 ^ 31 then 0 else 1)"
    using u int_div_pos_eq [of "uint ms" "2 ^ 31" 1 "uint ms - 2 ^ 31"] by (simp add: div_pos_pos_trivial)
  have "sint ms < 0 \<longleftrightarrow> odd (uint ms div 2 ^ 31)"
    by (simp add: sint_uint signed_take_bit_negative_iff bit_iff_odd)
  then have "\<not> sint ms < 0 \<longleftrightarrow> uint ms < 2 ^ 31" using d by simp
  moreover have "int (unat ms) < int (2 ^ 31) \<longleftrightarrow> unat ms < 2 ^ 31" by (rule of_nat_less_iff)
  ultimately show ?thesis unfolding uint_nat by (metis of_nat_numeral of_nat_power)
qed

text \<open>With a tick of one millisecond the conversion changes nothing on non-negative times.\<close>

lemma rt_tick_from_millisecond_id:
  assumes "unat ms < 2 ^ 31"
  shows "rt_tick_from_millisecond ms = ms"
proof -
  define q r where "q = unat ms div 1000" and "r = unat ms mod 1000"
  have m: "unat ms = 1000 * q + r" "r < 1000" by (simp_all add: q_def r_def)
  have d: "unat (ms div 1000) = q" "unat (ms mod 1000) = r" by (simp_all add: unat_div unat_mod q_def r_def)
  have "unat (1000 * (ms div 1000)) = 1000 * q"
    using d m assms by (simp add: unat_word_ariths)
  moreover have "unat (1000 * (ms mod 1000) + 999) = 1000 * r + 999"
    using d m by (simp add: unat_word_ariths)
  then have "unat ((1000 * (ms mod 1000) + 999) div 1000) = r"
    using m by (simp add: unat_div)
  ultimately have "unat (1000 * (ms div 1000) + (1000 * (ms mod 1000) + 999) div 1000) = unat ms"
    using m assms by (simp add: unat_word_ariths)
  then have "1000 * (ms div 1000) + (1000 * (ms mod 1000) + 999) div 1000 = ms"
    by (simp add: word_unat_eq_iff)
  then show ?thesis
    using assms word32_nonneg [of ms] by (simp add: rt_tick_from_millisecond_def RT_TICK_PER_SECOND_def)
qed

lemma tick_reached_self: "tick_reached t t"
  unfolding tick_reached_def tick_half by simp

lemma tick_reached_after: "tick_reached (t + d) t \<longleftrightarrow> unat d < 0x7fffffff"
  unfolding tick_reached_def tick_half by (simp add: word_less_nat_alt)

section \<open>Singly linked lists\<close>

text \<open>
  A list of \<open>rt_slist_t\<close> nodes is the sequence of the nodes' addresses. \<open>rt_slist_remove\<close> takes
  out the first occurrence and changes nothing when there is none. \<open>slist_next\<close> follows the
  \<open>next\<close> field; the packages clear it in a node they take out, so that it ends a walk there.
\<close>

definition rt_slist_append :: "nat list \<Rightarrow> nat \<Rightarrow> nat list" where
  "rt_slist_append l n = l @ [n]"

definition rt_slist_remove :: "nat list \<Rightarrow> nat \<Rightarrow> nat list" where
  "rt_slist_remove l n = remove1 n l"

fun rt_slist_next :: "nat list \<Rightarrow> nat \<Rightarrow> nat option" where
  "rt_slist_next [] n = None"
| "rt_slist_next [m] n = None"
| "rt_slist_next (m # m' # l) n = (if m = n then Some m' else rt_slist_next (m' # l) n)"

definition rt_slist_first :: "nat list \<Rightarrow> nat option" where
  "rt_slist_first l = (case l of [] \<Rightarrow> None | n # _ \<Rightarrow> Some n)"

lemma rt_slist_next_split: "n \<notin> set xs \<Longrightarrow> rt_slist_next (xs @ n # ys) n = rt_slist_first ys"
proof (induction xs)
  case Nil
  then show ?case by (cases ys) (auto simp: rt_slist_first_def)
next
  case (Cons x xs)
  then show ?case by (cases xs) auto
qed

lemma rt_slist_next_absent: "n \<notin> set l \<Longrightarrow> rt_slist_next l n = None"
  by (induction l n rule: rt_slist_next.induct) auto

section \<open>Pins\<close>

text \<open>
  The pin device: the level each pin shows, and the log of the writes. Reading a pin gives its
  level; the level of an input pin is set from outside.
\<close>

record pin_dev =
  pin_level :: "int \<Rightarrow> int"
  pin_log :: "(int \<times> int) list"

definition PIN_LOW :: int where "PIN_LOW = 0"
definition PIN_HIGH :: int where "PIN_HIGH = 1"

definition rt_pin_write :: "int \<Rightarrow> int \<Rightarrow> pin_dev \<Rightarrow> pin_dev" where
  "rt_pin_write pin v d = d\<lparr>pin_level := (pin_level d)(pin := v), pin_log := pin_log d @ [(pin, v)]\<rparr>"

definition rt_pin_read :: "int \<Rightarrow> pin_dev \<Rightarrow> int" where
  "rt_pin_read pin d = pin_level d pin"

text \<open>C's logical negation.\<close>

definition c_not :: "int \<Rightarrow> int" where
  "c_not v = (if v = 0 then 1 else 0)"

end
