(* ===== verification/C_Mem.thy ===== *)
theory C_Mem
  imports Prelude
begin

text \<open>
  C strings and little-endian words in byte arrays. A pointer to a string is an array together
  with a position, or the suffix of the array that starts there. A string function that finds no
  terminator inside the array is undefined.
\<close>

section \<open>The string functions of the C library\<close>

function strchr :: "u8 list \<Rightarrow> nat \<Rightarrow> u8 \<Rightarrow> nat option option" where
  "strchr s i c =
     (if i < length s then
        if s ! i = c then Some (Some i) else if s ! i = 0 then Some None else strchr s (i + 1) c
      else None)"
  by pat_completeness auto
termination by (relation "measure (\<lambda>(s, i, c). length s - i)") auto

declare strchr.simps [simp del]

primrec strlen :: "u8 list \<Rightarrow> nat option" where
  "strlen [] = None"
| "strlen (c # s) = (if c = 0 then Some 0 else map_option Suc (strlen s))"

text \<open>Whether \<open>strcmp\<close> and \<open>strncmp\<close> return 0.\<close>

fun strcmp_eq :: "u8 list \<Rightarrow> u8 list \<Rightarrow> bool option" where
  "strcmp_eq (a # s) (b # t) = (if a \<noteq> b then Some False else if a = 0 then Some True else strcmp_eq s t)"
| "strcmp_eq _ _ = None"

fun strncmp_eq :: "nat \<Rightarrow> u8 list \<Rightarrow> u8 list \<Rightarrow> bool option" where
  "strncmp_eq 0 s t = Some True"
| "strncmp_eq (Suc n) (a # s) (b # t) =
     (if a \<noteq> b then Some False else if a = 0 then Some True else strncmp_eq n s t)"
| "strncmp_eq (Suc n) _ _ = None"

text \<open>A string as the characters before its terminator.\<close>

abbreviation cstr :: "u8 list \<Rightarrow> bool" where
  "cstr s \<equiv> 0 \<notin> set s"

lemma strlen_cstr [simp]: "cstr s \<Longrightarrow> strlen (s @ 0 # r) = Some (length s)"
  by (induction s) auto

lemma strcmp_eq_cstr [simp]: "cstr s \<Longrightarrow> cstr t \<Longrightarrow> strcmp_eq (s @ 0 # r) (t @ 0 # r') = Some (s = t)"
proof (induction s arbitrary: t)
  case Nil
  then show ?case by (cases t) auto
next
  case (Cons a s)
  then show ?case by (cases t) auto
qed

lemma strncmp_eq_cstr:
  "cstr s \<Longrightarrow> cstr t \<Longrightarrow> strncmp_eq (length t) (s @ 0 # r) (t @ r') = Some (t = take (length t) s)"
proof (induction t arbitrary: s)
  case (Cons b t)
  then show ?case by (cases s) auto
qed simp

lemma strncmp_eq_name:
  "cstr s \<Longrightarrow> cstr t \<Longrightarrow> length s < n \<Longrightarrow> strncmp_eq n (s @ 0 # r) (t @ 0 # r') = Some (s = t)"
proof (induction s arbitrary: t n)
  case Nil
  then show ?case by (cases n; cases t) auto
next
  case (Cons a s)
  then show ?case by (cases n; cases t) auto
qed

lemma strncmp_eq_total: "n \<le> length s \<Longrightarrow> n \<le> length t \<Longrightarrow> \<exists>b. strncmp_eq n s t = Some b"
proof (induction n arbitrary: s t)
  case 0
  show ?case by (rule exI [of _ True]) simp
next
  case (Suc n)
  then show ?case by (cases s; cases t) auto
qed

lemma strchr_found:
  "cstr ds \<Longrightarrow> c \<notin> set ds \<Longrightarrow> strchr (pre @ ds @ c # rest) (length pre) c = Some (Some (length pre + length ds))"
proof (induction ds arbitrary: pre)
  case Nil
  then show ?case by (subst strchr.simps) simp
next
  case (Cons d ds)
  then show ?case using Cons.IH [of "pre @ [d]"] by (subst strchr.simps) auto
qed

lemma strchr_absent:
  "cstr ds \<Longrightarrow> c \<notin> set ds \<Longrightarrow> c \<noteq> 0 \<Longrightarrow> strchr (pre @ ds @ 0 # rest) (length pre) c = Some None"
proof (induction ds arbitrary: pre)
  case Nil
  then show ?case by (subst strchr.simps) simp
next
  case (Cons d ds)
  then show ?case using Cons.IH [of "pre @ [d]"] by (subst strchr.simps) auto
qed

lemma strchr_first:
  assumes "cstr ds" "c \<noteq> 0"
  shows "strchr (ds @ 0 # rest) 0 c = Some None \<longleftrightarrow> c \<notin> set ds"
    and "\<exists>q. strchr (ds @ 0 # rest) 0 c = Some q"
proof -
  have "c \<in> set ds \<Longrightarrow> \<exists>i. strchr (ds @ 0 # rest) 0 c = Some (Some i)"
  proof -
    assume "c \<in> set ds"
    then obtain p q where "ds = p @ c # q" "c \<notin> set p" by (metis split_list_first)
    then show ?thesis using strchr_found [of p c "[]" "q @ 0 # rest"] assms by auto
  qed
  then show "strchr (ds @ 0 # rest) 0 c = Some None \<longleftrightarrow> c \<notin> set ds"
    and "\<exists>q. strchr (ds @ 0 # rest) 0 c = Some q"
    using strchr_absent [of ds c "[]" rest] assms by auto
qed

section \<open>Little-endian words\<close>

fun le32 :: "u8 list \<Rightarrow> u32" where
  "le32 (a # b # c # d # _) =
     ucast a OR push_bit 8 (ucast b) OR push_bit 16 (ucast c) OR push_bit 24 (ucast d)"
| "le32 _ = 0"

definition le32_bytes :: "u32 \<Rightarrow> u8 list" where
  "le32_bytes w = [ucast w, ucast (drop_bit 8 w), ucast (drop_bit 16 w), ucast (drop_bit 24 w)]"

lemma le32_bytes_length [simp]: "length (le32_bytes w) = 4"
  by (simp add: le32_bytes_def)

lemma le32_le32_bytes [simp]: "le32 (le32_bytes w @ r) = w"
proof (rule bit_word_eqI)
  fix n
  assume n: "n < LENGTH(32)"
  consider "n < 8" | "8 \<le> n" "n < 16" | "16 \<le> n" "n < 24" | "24 \<le> n" using n by linarith
  then show "bit (le32 (le32_bytes w @ r)) n \<longleftrightarrow> bit w n"
    by cases (use n in \<open>auto simp: le32_bytes_def bit_simps bit_ucast_iff\<close>)
qed

lemma le32_take [simp]: "le32 (take 4 bs) = le32 bs"
proof -
  consider "length bs < 4" | "\<exists>a b c d r. bs = a # b # c # d # r"
    by (cases bs rule: le32.cases) auto
  then show ?thesis
  proof cases
    case 1
    then show ?thesis by simp
  next
    case 2
    then show ?thesis by auto
  qed
qed

lemma le32_prefix: "4 \<le> length a \<Longrightarrow> le32 (a @ b) = le32 a"
  using le32_take [of "a @ b"] by simp

lemma le32_bytes_le32:
  assumes "4 \<le> length bs"
  shows "le32_bytes (le32 bs) = take 4 bs"
proof -
  obtain a b c d r where bs: "bs = a # b # c # d # r"
    using assms by (cases bs rule: le32.cases) auto
  have "ucast (le32 bs) = a" "ucast (drop_bit 8 (le32 bs)) = b" "ucast (drop_bit 16 (le32 bs)) = c"
    "ucast (drop_bit 24 (le32 bs)) = d"
    unfolding bs by (rule bit_word_eqI; auto simp: bit_simps dest: bit_imp_le_length)+
  then show ?thesis by (simp add: le32_bytes_def bs)
qed

end
