(* ===== verification/C_Text.thy ===== *)
theory C_Text
  imports C_Mem
begin

text \<open>Decimal numbers in C strings: \<open>atoi\<close>, the text of a number as \<open>sprintf\<close> writes it, and their round trip.\<close>

section \<open>Reading a number\<close>

text \<open>\<open>isspace\<close> and \<open>atoi\<close> of the C library, on an array of characters.\<close>

definition c_isspace :: "u8 \<Rightarrow> bool" where
  "c_isspace c \<longleftrightarrow> c = 32 \<or> 9 \<le> c \<and> c \<le> 13"

definition c_isdigit :: "u8 \<Rightarrow> bool" where
  "c_isdigit c \<longleftrightarrow> 48 \<le> c \<and> c \<le> 57"

function atoi_skip :: "u8 list \<Rightarrow> nat \<Rightarrow> nat option" where
  "atoi_skip s i = (if i < length s then if c_isspace (s ! i) then atoi_skip s (i + 1) else Some i else None)"
  by pat_completeness auto
termination by (relation "measure (\<lambda>(s, i). length s - i)") auto

function atoi_digits :: "u8 list \<Rightarrow> nat \<Rightarrow> int \<Rightarrow> int option" where
  "atoi_digits s i acc =
     (if i < length s then
        if c_isdigit (s ! i) then atoi_digits s (i + 1) (acc * 10 + (uint (s ! i) - 48)) else Some acc
      else None)"
  by pat_completeness auto
termination by (relation "measure (\<lambda>(s, i, acc). length s - i)") auto

text \<open>A number that an \<open>int\<close> cannot hold is undefined.\<close>

definition atoi :: "u8 list \<Rightarrow> nat \<Rightarrow> int option" where
  "atoi s ptr =
     do { i \<leftarrow> atoi_skip s ptr;
          c \<leftarrow> rd s i;
          v \<leftarrow> atoi_digits s (if c = 45 \<or> c = 43 then i + 1 else i) 0;
          let v = (if c = 45 then - v else v) in
          if - (2 ^ 31) \<le> v \<and> v < 2 ^ 31 then Some v else None }"

declare atoi_skip.simps [simp del] atoi_digits.simps [simp del]

section \<open>Writing a number\<close>

fun dec_text :: "nat \<Rightarrow> u8 list" where
  "dec_text n = (if n < 10 then [] else dec_text (n div 10)) @ [48 + word_of_nat (n mod 10)]"

declare dec_text.simps [simp del]

lemma digit_char:
  assumes "k < 10"
  shows "c_isdigit (48 + word_of_nat k)" "uint (48 + word_of_nat k :: u8) = 48 + int k"
proof -
  have "k \<in> {0, 1, 2, 3, 4, 5, 6, 7, 8, 9}" using assms by auto
  then show "c_isdigit (48 + word_of_nat k)" "uint (48 + word_of_nat k :: u8) = 48 + int k"
    by (auto simp: c_isdigit_def)
qed

lemma dec_text_digits: "list_all c_isdigit (dec_text n)"
  by (induction n rule: dec_text.induct) (subst dec_text.simps, simp add: digit_char)

lemma dec_text_nonempty: "dec_text n \<noteq> []"
  by (subst dec_text.simps) simp

lemma dec_text_value: "foldl (\<lambda>a c. a * 10 + (uint c - 48)) 0 (dec_text n) = int n"
proof (induction n rule: dec_text.induct)
  case (1 n)
  have "int n = int (n div 10) * 10 + int (n mod 10)" by (simp add: zdiv_int zmod_int)
  then show ?case using 1 by (subst dec_text.simps) (simp add: digit_char)
qed

lemma digit_not: "c_isdigit c \<Longrightarrow> c \<noteq> 44 \<and> c \<noteq> 45 \<and> c \<noteq> 43 \<and> c \<noteq> 0 \<and> \<not> c_isspace c"
  by (auto simp: c_isdigit_def c_isspace_def word_le_nat_alt)

lemma atoi_digits_run:
  "list_all c_isdigit ds \<Longrightarrow> \<not> c_isdigit c \<Longrightarrow>
    atoi_digits (pre @ ds @ c # rest) (length pre) acc = Some (foldl (\<lambda>a c. a * 10 + (uint c - 48)) acc ds)"
proof (induction ds arbitrary: pre acc)
  case Nil
  then show ?case by (subst atoi_digits.simps) simp
next
  case (Cons d ds)
  show ?case
    using Cons.prems Cons.IH [of "pre @ [d]" "acc * 10 + (uint d - 48)"]
    by (subst atoi_digits.simps) simp
qed

lemma atoi_dec:
  assumes "n < 2 ^ 31" "\<not> c_isdigit c"
  shows "atoi (pre @ dec_text n @ c # rest) (length pre) = Some (int n)"
proof -
  obtain d ds where ds: "dec_text n = d # ds" using dec_text_nonempty by (cases "dec_text n") auto
  then have d: "c_isdigit d" using dec_text_digits [of n] by simp
  have "atoi_skip (pre @ dec_text n @ c # rest) (length pre) = Some (length pre)"
    using digit_not [OF d] by (subst atoi_skip.simps) (simp add: ds)
  moreover have "rd (pre @ dec_text n @ c # rest) (length pre) = Some d" by (simp add: ds rd_def)
  moreover have "atoi_digits (pre @ dec_text n @ c # rest) (length pre) 0 = Some (int n)"
    using atoi_digits_run [OF dec_text_digits assms(2)] dec_text_value by simp
  ultimately show ?thesis using digit_not [OF d] assms(1) by (simp add: atoi_def)
qed

lemma dec_text_chars:
  "0 \<notin> set (dec_text n)" "filter (\<lambda>c. c = 44) (dec_text n) = []"
  using dec_text_digits [of n] digit_not by (fastforce simp: list_all_iff filter_empty_conv)+

end
