(* ===== verification/Agile_Led.thy ===== *)
theory Agile_Led
  imports Rt_Kernel C_Text
begin

text \<open>
  \<open>packages/agile_led-latest/src/agile_led.c\<close>: LEDs that play a pattern of on and off times.
  A LED object lives in the kernel heap; the started ones are linked in \<open>agile_led_list\<close>, which
  the thread \<open>led_process\<close> walks every 5 ms.

  LED objects are found by address in \<open>led_mem\<close>; an access to an object that is not there is
  undefined. Every operation holds the module's mutex for its whole body, so operations and
  passes of the thread are atomic steps. \<open>led_clk k\<close> is what the \<open>k\<close>-th reading of the clock
  returns. A callback is named by a number; what it does is the parameter \<open>cb\<close>.
\<close>

section \<open>LED objects\<close>

record agile_led =
  led_active :: bool
  led_pin :: int
  led_active_logic :: int
  light_arr :: "u32 list option"
  arr_num :: nat
  arr_index :: nat
  loop_init :: int
  loop_cnt :: int
  led_tick_timeout :: u32
  compelete :: "nat option"

record led_sys =
  led_mem :: "nat \<Rightarrow> agile_led option"
  agile_led_list :: "nat list"
  led_is_initialized :: bool
  led_dev :: pin_dev
  led_clk :: "nat \<Rightarrow> u32"
  led_reads :: nat

type_synonym led_cb = "nat \<Rightarrow> nat \<Rightarrow> led_sys \<Rightarrow> led_sys option"

definition led_put :: "nat \<Rightarrow> agile_led \<Rightarrow> led_sys \<Rightarrow> led_sys" where
  "led_put p led st = st\<lparr>led_mem := (led_mem st)(p := Some led)\<rparr>"

definition led_tick_get :: "led_sys \<Rightarrow> u32 \<times> led_sys" where
  "led_tick_get st = (led_clk st (led_reads st), st\<lparr>led_reads := led_reads st + 1\<rparr>)"

section \<open>Parsing the light mode\<close>

text \<open>The loop of \<open>agile_led_get_light_arr\<close> that counts the fields, and the one that fills the array.\<close>

function led_count :: "u8 list \<Rightarrow> nat \<Rightarrow> nat \<Rightarrow> (nat \<times> nat) option" where
  "led_count s ptr num =
     (if ptr < length s then
        if s ! ptr = 0 then Some (ptr, num)
        else led_count s (ptr + 1) (if s ! ptr = 44 then num + 1 else num)
      else None)"
  by pat_completeness auto
termination by (relation "measure (\<lambda>(s, ptr, num). length s - ptr)") auto

declare led_count.simps [simp del]

primrec led_fill :: "nat \<Rightarrow> u8 list \<Rightarrow> nat \<Rightarrow> nat option \<Rightarrow> u32 list \<Rightarrow> u32 list option" where
  "led_fill 0 s i ptr arr = Some arr"
| "led_fill (Suc k) s i ptr arr =
     do { p \<leftarrow> ptr;
          v \<leftarrow> atoi s p;
          arr \<leftarrow> wr arr i (word_of_int v);
          q \<leftarrow> strchr s p 44;
          led_fill k s (i + 1) (map_option Suc q) arr }"

definition agile_led_get_light_arr :: "bool \<Rightarrow> agile_led \<Rightarrow> u8 list \<Rightarrow> (int \<times> agile_led) option" where
  "agile_led_get_light_arr malloc_ok led light_mode =
     (if light_arr led \<noteq> None \<or> arr_num led \<noteq> 0 then None
      else do {
        (ptr, num) \<leftarrow> led_count light_mode 0 0;
        c \<leftarrow> rdi light_mode (int ptr - 1);
        let led = led\<lparr>arr_num := (if c \<noteq> 44 then num + 1 else num)\<rparr> in
        if arr_num led = 0 then Some (- RT_ERROR, led)
        else if \<not> malloc_ok then Some (- RT_ENOMEM, led)
        else do { arr \<leftarrow> led_fill (arr_num led) light_mode 0 (Some 0) (replicate (arr_num led) 0);
                  Some (RT_EOK, led\<lparr>light_arr := Some arr\<rparr>) } })"

section \<open>The operations\<close>

definition agile_led_default_compelete_callback :: nat where
  "agile_led_default_compelete_callback = 0"

text \<open>
  \<open>m1\<close> is the address \<open>rt_malloc\<close> returns for the object and \<open>m2\<close> whether it succeeds for the
  array. The result is the address, \<open>None\<close> for \<open>RT_NULL\<close>.
\<close>

definition agile_led_create :: "nat option \<Rightarrow> bool \<Rightarrow> int \<Rightarrow> int \<Rightarrow> u8 list option \<Rightarrow> int \<Rightarrow> led_sys \<Rightarrow>
    (nat option \<times> led_sys) option" where
  "agile_led_create m1 m2 pin active_logic light_mode cnt st =
     (if \<not> led_is_initialized st then Some (None, st)
      else (case m1 of
        None \<Rightarrow> Some (None, st)
      | Some p \<Rightarrow>
          do { (rc, led) \<leftarrow>
                 (let led = \<lparr>led_active = False, led_pin = pin, led_active_logic = active_logic,
                    light_arr = None, arr_num = 0, arr_index = 0, loop_init = 0, loop_cnt = 0,
                    led_tick_timeout = 0, compelete = None\<rparr> in
                  case light_mode of
                    None \<Rightarrow> Some (RT_EOK, led)
                  | Some s \<Rightarrow> agile_led_get_light_arr m2 led s);
               if rc < 0 then Some (None, st)
               else
                 let (now, st) = led_tick_get st;
                     led = led\<lparr>loop_init := cnt, loop_cnt := cnt, led_tick_timeout := now,
                       compelete := Some agile_led_default_compelete_callback\<rparr>;
                     st = led_put p led st
                 in Some (Some p, st\<lparr>led_dev := rt_pin_write pin (c_not active_logic) (led_dev st)\<rparr>) }))"

definition agile_led_delete :: "nat \<Rightarrow> led_sys \<Rightarrow> (int \<times> led_sys) option" where
  "agile_led_delete p st =
     do { led \<leftarrow> led_mem st p;
          Some (RT_EOK, st\<lparr>agile_led_list := rt_slist_remove (agile_led_list st) p,
            led_mem := (led_mem st)(p := None)\<rparr>) }"

definition agile_led_start :: "nat \<Rightarrow> led_sys \<Rightarrow> (int \<times> led_sys) option" where
  "agile_led_start p st =
     do { led \<leftarrow> led_mem st p;
          if led_active led then Some (- RT_ERROR, st)
          else if light_arr led = None \<or> arr_num led = 0 then Some (- RT_ERROR, st)
          else
            let (now, st) = led_tick_get st;
                led = led\<lparr>arr_index := 0, loop_cnt := loop_init led, led_tick_timeout := now, led_active := True\<rparr>
            in Some (RT_EOK, led_put p led (st\<lparr>agile_led_list := rt_slist_append (agile_led_list st) p\<rparr>)) }"

definition agile_led_stop :: "nat \<Rightarrow> led_sys \<Rightarrow> (int \<times> led_sys) option" where
  "agile_led_stop p st =
     do { led \<leftarrow> led_mem st p;
          if \<not> led_active led then Some (RT_EOK, st)
          else Some (RT_EOK, led_put p (led\<lparr>led_active := False\<rparr>)
                 (st\<lparr>agile_led_list := rt_slist_remove (agile_led_list st) p\<rparr>)) }"

definition agile_led_set_light_mode :: "bool \<Rightarrow> nat \<Rightarrow> u8 list option \<Rightarrow> int \<Rightarrow> led_sys \<Rightarrow> (int \<times> led_sys) option" where
  "agile_led_set_light_mode m2 p light_mode cnt st =
     do { led \<leftarrow> led_mem st p;
          (rc, led) \<leftarrow> (case light_mode of
              None \<Rightarrow> Some (RT_EOK, led)
            | Some s \<Rightarrow> agile_led_get_light_arr m2 (led\<lparr>light_arr := None, arr_num := 0\<rparr>) s);
          if rc < 0 then do { (_, st) \<leftarrow> agile_led_stop p (led_put p led st); Some (- RT_ERROR, st) }
          else
            let (now, st) = led_tick_get st in
            Some (RT_EOK, led_put p (led\<lparr>loop_init := cnt, arr_index := 0, loop_cnt := cnt, led_tick_timeout := now\<rparr>) st) }"

definition agile_led_set_compelete_callback :: "nat \<Rightarrow> nat option \<Rightarrow> led_sys \<Rightarrow> (int \<times> led_sys) option" where
  "agile_led_set_compelete_callback p f st =
     do { led \<leftarrow> led_mem st p; Some (RT_EOK, led_put p (led\<lparr>compelete := f\<rparr>) st) }"

text \<open>The pin operations, on a LED object and on its address.\<close>

definition led_pin_on :: "agile_led \<Rightarrow> pin_dev \<Rightarrow> pin_dev" where
  "led_pin_on led d = rt_pin_write (led_pin led) (led_active_logic led) d"

definition led_pin_off :: "agile_led \<Rightarrow> pin_dev \<Rightarrow> pin_dev" where
  "led_pin_off led d = rt_pin_write (led_pin led) (c_not (led_active_logic led)) d"

definition led_pin_toggle :: "agile_led \<Rightarrow> pin_dev \<Rightarrow> pin_dev" where
  "led_pin_toggle led d = rt_pin_write (led_pin led) (c_not (rt_pin_read (led_pin led) d)) d"

definition agile_led_toggle :: "nat \<Rightarrow> led_sys \<Rightarrow> led_sys option" where
  "agile_led_toggle p st = do { led \<leftarrow> led_mem st p; Some (st\<lparr>led_dev := led_pin_toggle led (led_dev st)\<rparr>) }"

definition agile_led_on :: "nat \<Rightarrow> led_sys \<Rightarrow> led_sys option" where
  "agile_led_on p st = do { led \<leftarrow> led_mem st p; Some (st\<lparr>led_dev := led_pin_on led (led_dev st)\<rparr>) }"

definition agile_led_off :: "nat \<Rightarrow> led_sys \<Rightarrow> led_sys option" where
  "agile_led_off p st = do { led \<leftarrow> led_mem st p; Some (st\<lparr>led_dev := led_pin_off led (led_dev st)\<rparr>) }"

section \<open>The thread\<close>

text \<open>
  What \<open>led_process\<close> does with one LED that has loops left, from the label \<open>__repeat\<close> on; \<open>k\<close>
  counts the readings of the clock.
\<close>

function led_repeat :: "(nat \<Rightarrow> u32) \<Rightarrow> nat \<Rightarrow> agile_led \<Rightarrow> pin_dev \<Rightarrow> (nat \<times> agile_led \<times> pin_dev) option" where
  "led_repeat clk k led d =
     (if tick_reached (clk k) (led_tick_timeout led) then
        if arr_index led < arr_num led then
          do { arr \<leftarrow> light_arr led;
               ms \<leftarrow> rd arr (arr_index led);
               if ms = 0 then led_repeat clk (k + 1) (led\<lparr>arr_index := arr_index led + 1\<rparr>) d
               else
                 let d = (if odd (arr_index led) then led_pin_off led d else led_pin_on led d) in
                 Some (k + 2, led\<lparr>led_tick_timeout := clk (k + 1) + rt_tick_from_millisecond ms,
                   arr_index := arr_index led + 1\<rparr>, d) }
        else Some (k + 1, led\<lparr>arr_index := 0, loop_cnt := (if loop_cnt led > 0 then loop_cnt led - 1 else loop_cnt led)\<rparr>, d)
      else Some (k + 1, led, d))"
  by pat_completeness auto
termination by (relation "measure (\<lambda>(clk, k, led, d). arr_num led - arr_index led)") auto

declare led_repeat.simps [simp del]

text \<open>
  One walk over the list, from \<open>node\<close> on. After a LED has finished, the walk starts again at the
  head of the list.
\<close>

partial_function (option) led_walk :: "led_cb \<Rightarrow> nat option \<Rightarrow> led_sys \<Rightarrow> led_sys option" where
  "led_walk cb node st =
     (case node of
        None \<Rightarrow> Some st
      | Some p \<Rightarrow>
          do { led \<leftarrow> led_mem st p;
               if loop_cnt led = 0 then
                 do { (rc, st) \<leftarrow> agile_led_stop p st;
                      st \<leftarrow> (case compelete led of None \<Rightarrow> Some st | Some c \<Rightarrow> cb c p st);
                      led_walk cb (rt_slist_first (agile_led_list st)) st }
               else
                 do { (k, led, d) \<leftarrow> led_repeat (led_clk st) (led_reads st) led (led_dev st);
                      let st = led_put p led (st\<lparr>led_dev := d, led_reads := k\<rparr>) in
                      led_walk cb (rt_slist_next (agile_led_list st) p) st } })"

declare led_walk.simps [code]

definition led_process_pass :: "led_cb \<Rightarrow> led_sys \<Rightarrow> led_sys option" where
  "led_process_pass cb st = led_walk cb (rt_slist_first (agile_led_list st)) st"

text \<open>\<open>agile_led_init\<close>: whether the mutex and the thread could be created.\<close>

definition agile_led_init :: "bool \<Rightarrow> bool \<Rightarrow> led_sys \<Rightarrow> int \<times> led_sys" where
  "agile_led_init mutex_ok thread_ok st =
     (if \<not> mutex_ok then (- RT_ENOMEM, st)
      else if \<not> thread_ok then (- RT_ENOMEM, st)
      else (RT_EOK, st\<lparr>led_is_initialized := True\<rparr>))"

section \<open>The invariant\<close>

text \<open>
  A LED's array, when it has one, is as long as \<open>arr_num\<close> says; the list holds exactly the
  active LEDs, each once, and these have an array.
\<close>

definition led_ok :: "agile_led \<Rightarrow> bool" where
  "led_ok led \<longleftrightarrow> (\<forall>arr. light_arr led = Some arr \<longrightarrow> length arr = arr_num led) \<and>
     (led_active led \<longrightarrow> light_arr led \<noteq> None)"

definition led_inv :: "led_sys \<Rightarrow> bool" where
  "led_inv st \<longleftrightarrow> distinct (agile_led_list st) \<and>
     (\<forall>p led. led_mem st p = Some led \<longrightarrow> led_ok led \<and> (led_active led \<longleftrightarrow> p \<in> set (agile_led_list st))) \<and>
     set (agile_led_list st) \<subseteq> dom (led_mem st)"

lemma led_invD:
  assumes "led_inv st" "led_mem st p = Some led"
  shows "led_ok led" "led_active led \<longleftrightarrow> p \<in> set (agile_led_list st)"
  using assms by (auto simp: led_inv_def)

lemma led_inv_put:
  assumes "led_inv st" "led_mem st p = Some led" "led_ok led'" "led_active led' = led_active led"
  shows "led_inv (led_put p led' st)"
  using assms by (auto simp: led_inv_def led_put_def dom_def)

lemma led_inv_frame:
  "led_inv st \<Longrightarrow> led_mem st' = led_mem st \<Longrightarrow> agile_led_list st' = agile_led_list st \<Longrightarrow> led_inv st'"
  by (simp add: led_inv_def)

lemma led_tick_get_frame [simp]:
  "led_mem (snd (led_tick_get st)) = led_mem st" "agile_led_list (snd (led_tick_get st)) = agile_led_list st"
  by (simp_all add: led_tick_get_def)

lemma led_fill_length: "led_fill k s i ptr arr = Some arr' \<Longrightarrow> length arr' = length arr"
  by (induction k arbitrary: i ptr arr) (auto simp: bind_eq_Some_conv wr_eq_Some_iff)

lemma get_light_arr_ok:
  assumes "agile_led_get_light_arr m led s = Some (rc, led')"
  shows "led_active led' = led_active led"
    "light_arr led' = Some arr \<Longrightarrow> length arr = arr_num led'" "rc \<ge> 0 \<Longrightarrow> light_arr led' \<noteq> None \<and> arr_num led' \<noteq> 0"
    "rc < 0 \<Longrightarrow> light_arr led' = None"
  using assms
  by (auto simp: agile_led_get_light_arr_def bind_eq_Some_conv Let_def simp del: led_fill.simps replicate.simps
      split: if_splits prod.splits dest!: led_fill_length)

lemma agile_led_stop_inv:
  assumes inv: "led_inv st" and led: "led_mem st p = Some led"
  shows "\<exists>st'. agile_led_stop p st = Some (RT_EOK, st') \<and> led_inv st' \<and> agile_led_list st' = remove1 p (agile_led_list st)"
proof (cases "led_active led")
  case True
  then show ?thesis
    using assms by (fastforce simp: agile_led_stop_def led_inv_def led_put_def led_ok_def rt_slist_remove_def)
next
  case False
  then have "p \<notin> set (agile_led_list st)" using led_invD [OF assms] by simp
  then show ?thesis using False assms by (simp add: agile_led_stop_def remove1_idem)
qed

lemma agile_led_start_inv:
  assumes inv: "led_inv st" and led: "led_mem st p = Some led"
  shows "\<exists>rc st'. agile_led_start p st = Some (rc, st') \<and> led_inv st'"
proof (cases "led_active led \<or> light_arr led = None \<or> arr_num led = 0")
  case True
  then show ?thesis using assms by (auto simp: agile_led_start_def)
next
  case False
  then show ?thesis
    using assms by (auto simp: agile_led_start_def led_inv_def led_put_def led_ok_def rt_slist_append_def
        led_tick_get_def Let_def)
qed

lemma agile_led_delete_inv:
  assumes inv: "led_inv st" and led: "led_mem st p = Some led"
  shows "\<exists>st'. agile_led_delete p st = Some (RT_EOK, st') \<and> led_inv st'"
  using assms by (fastforce simp: agile_led_delete_def led_inv_def rt_slist_remove_def)

lemma agile_led_create_inv:
  assumes inv: "led_inv st" and fresh: "\<And>p. m1 = Some p \<Longrightarrow> led_mem st p = None"
    and run: "agile_led_create m1 m2 pin logic mode cnt st = Some (r, st')"
  shows "led_inv st'"
proof -
  have out: "p \<notin> set (agile_led_list st)" if "m1 = Some p" for p
    using inv fresh [OF that] by (auto simp: led_inv_def dom_def)
  have add: "led_inv (led_put p led st0)"
    if "m1 = Some p" "led_ok led" "\<not> led_active led" "led_mem st0 = led_mem st" "agile_led_list st0 = agile_led_list st" for p led st0
    using inv out [OF that(1)] fresh [OF that(1)] that by (auto simp: led_inv_def led_put_def dom_def)
  show ?thesis
  proof (cases "led_is_initialized st \<and> m1 \<noteq> None")
    case False
    then have "agile_led_create m1 m2 pin logic mode cnt st = Some (None, st)"
      by (cases m1) (simp_all add: agile_led_create_def)
    then show ?thesis using run inv by simp
  next
    case True
    then obtain p where p: "m1 = Some p" by auto
    define led0 where "led0 = \<lparr>led_active = False, led_pin = pin, led_active_logic = logic, light_arr = None,
      arr_num = 0, arr_index = 0, loop_init = 0, loop_cnt = 0, led_tick_timeout = 0, compelete = None\<rparr>"
    from run True p obtain rc led
      where g: "(case mode of None \<Rightarrow> Some (RT_EOK, led0) | Some s \<Rightarrow> agile_led_get_light_arr m2 led0 s) = Some (rc, led)"
        and r: "(if rc < 0 then Some (None, st) else
             (let (now, st) = led_tick_get st;
                  led = led\<lparr>loop_init := cnt, loop_cnt := cnt, led_tick_timeout := now,
                       compelete := Some agile_led_default_compelete_callback\<rparr>;
                  st = led_put p led st
              in Some (Some p, st\<lparr>led_dev := rt_pin_write pin (c_not logic) (led_dev st)\<rparr>))) = Some (r, st')"
      unfolding agile_led_create_def led0_def by (auto simp: bind_eq_Some_conv Let_def)
    have "led_active led = led_active led0" "light_arr led = Some arr \<Longrightarrow> length arr = arr_num led" for arr
      using g get_light_arr_ok(1,2) [of m2 led0 _ rc led]
      by (auto simp: led0_def split: option.splits)
    then have ok: "led_ok led" "\<not> led_active led" by (auto simp: led_ok_def led0_def)
    show ?thesis
    proof (cases "rc < 0")
      case True
      then show ?thesis using r inv by simp
    next
      case False
      then have st': "st' = (led_put p (led\<lparr>loop_init := cnt, loop_cnt := cnt, led_tick_timeout := fst (led_tick_get st),
          compelete := Some agile_led_default_compelete_callback\<rparr>) (snd (led_tick_get st)))
          \<lparr>led_dev := rt_pin_write pin (c_not logic) (led_dev st)\<rparr>"
        using r by (auto simp: Let_def led_tick_get_def led_put_def)
      show ?thesis unfolding st'
        by (rule led_inv_frame [OF add [OF p]]) (use ok in \<open>auto simp: led_ok_def led_put_def led_tick_get_def\<close>)
    qed
  qed
qed

lemma stop_put_inv:
  assumes inv: "led_inv st" and led: "led_mem st p = Some led" and act: "led_active led1 = led_active led"
    and len: "\<And>arr. light_arr led1 = Some arr \<Longrightarrow> length arr = arr_num led1"
    and stop: "agile_led_stop p (led_put p led1 st) = Some (rc, st')"
  shows "led_inv st'"
proof (cases "led_active led")
  case True
  then have st': "st' = led_put p (led1\<lparr>led_active := False\<rparr>) (led_put p led1 (st\<lparr>agile_led_list := remove1 p (agile_led_list st)\<rparr>))"
    using stop act by (simp add: agile_led_stop_def led_put_def rt_slist_remove_def)
  have "led_ok (led1\<lparr>led_active := False\<rparr>)" using len by (simp add: led_ok_def)
  then show ?thesis
    unfolding st' using inv by (auto simp: led_inv_def led_put_def dom_def)
next
  case False
  then have "led_ok led1" using act len by (simp add: led_ok_def)
  then show ?thesis
    using stop False act led_inv_put [OF inv led, of led1] by (simp add: agile_led_stop_def led_put_def)
qed

lemma agile_led_set_light_mode_inv:
  assumes inv: "led_inv st" and run: "agile_led_set_light_mode m p mode cnt st = Some (rc, st')"
  shows "led_inv st'"
proof -
  from run obtain led where led: "led_mem st p = Some led" by (auto simp: agile_led_set_light_mode_def bind_eq_Some_conv)
  note ok = led_invD [OF inv led]
  define led0 where "led0 = led\<lparr>light_arr := None, arr_num := 0\<rparr>"
  from run led obtain rc1 led1
    where g: "(case mode of None \<Rightarrow> Some (RT_EOK, led) | Some s \<Rightarrow> agile_led_get_light_arr m led0 s) = Some (rc1, led1)"
      and r: "(if rc1 < 0 then do { (_, st) \<leftarrow> agile_led_stop p (led_put p led1 st); Some (- RT_ERROR, st) }
        else let (now, st) = led_tick_get st in
          Some (RT_EOK, led_put p (led1\<lparr>loop_init := cnt, arr_index := 0, loop_cnt := cnt, led_tick_timeout := now\<rparr>) st)) = Some (rc, st')"
    unfolding agile_led_set_light_mode_def led0_def by (auto simp: bind_eq_Some_conv)
  have act: "led_active led1 = led_active led"
    using g get_light_arr_ok(1) [of m led0 _ rc1 led1]
    by (auto simp: led0_def split: option.splits)
  have len: "light_arr led1 = Some arr \<Longrightarrow> length arr = arr_num led1" for arr
    using g get_light_arr_ok(2) [of m led0 _ rc1 led1] ok by (auto simp: led_ok_def split: option.splits)
  show ?thesis
  proof (cases "rc1 < 0")
    case True
    then show ?thesis using r stop_put_inv [OF inv led act len] by (auto simp: bind_eq_Some_conv)
  next
    case False
    have "led_active led1 \<longrightarrow> light_arr led1 \<noteq> None"
      using g False get_light_arr_ok(3) [of m led0 _ rc1 led1] ok act by (auto simp: led_ok_def split: option.splits)
    then have "led_ok (led1\<lparr>loop_init := cnt, arr_index := 0, loop_cnt := cnt, led_tick_timeout := now\<rparr>)" for now
      using len by (simp add: led_ok_def)
    moreover have "led_inv (st\<lparr>led_reads := n\<rparr>)" for n using led_inv_frame [OF inv] by simp
    ultimately have "led_inv (led_put p (led1\<lparr>loop_init := cnt, arr_index := 0, loop_cnt := cnt, led_tick_timeout := now\<rparr>) (st\<lparr>led_reads := n\<rparr>))" for now n
      using led_inv_put led act by simp
    then show ?thesis using r False by (auto simp: led_tick_get_def Let_def)
  qed
qed

section \<open>The walk over the list\<close>

text \<open>What one LED still has to show: the levels from index \<open>i\<close> on, and all its remaining rounds.\<close>

definition led_levels :: "agile_led \<Rightarrow> nat \<Rightarrow> (int \<times> int) list" where
  "led_levels led i =
     map (\<lambda>j. (led_pin led, if odd j then c_not (led_active_logic led) else led_active_logic led))
       (filter (\<lambda>j. the (light_arr led) ! j \<noteq> 0) [i..<arr_num led])"

definition led_rest :: "agile_led \<Rightarrow> (int \<times> int) list" where
  "led_rest led = (if loop_cnt led \<le> 0 then []
     else led_levels led (arr_index led) @ concat (replicate (nat (loop_cnt led) - 1) (led_levels led 0)))"

text \<open>What \<open>led_repeat\<close> leaves alone.\<close>

definition led_same :: "agile_led \<Rightarrow> agile_led \<Rightarrow> bool" where
  "led_same led led' \<longleftrightarrow> led_active led' = led_active led \<and> led_pin led' = led_pin led \<and>
     led_active_logic led' = led_active_logic led \<and> light_arr led' = light_arr led \<and> arr_num led' = arr_num led \<and>
     loop_init led' = loop_init led \<and> compelete led' = compelete led"

lemma led_same_levels: "led_same led led' \<Longrightarrow> led_levels led' i = led_levels led i"
  by (simp add: led_same_def led_levels_def)

lemma led_same_ok: "led_same led led' \<Longrightarrow> led_ok led \<Longrightarrow> led_ok led'"
  by (simp add: led_same_def led_ok_def)

lemma led_levels_step:
  "light_arr led = Some arr \<Longrightarrow> i < arr_num led \<Longrightarrow>
    led_levels led i = (if arr ! i = 0 then [] else
      [(led_pin led, if odd i then c_not (led_active_logic led) else led_active_logic led)]) @ led_levels led (Suc i)"
  by (simp add: led_levels_def upt_conv_Cons)

lemma led_levels_end: "arr_num led \<le> i \<Longrightarrow> led_levels led i = []"
  by (simp add: led_levels_def)

lemma rest_next_round:
  assumes "0 < loop_cnt led" "arr_num led \<le> arr_index led"
  shows "led_rest (led\<lparr>arr_index := 0, loop_cnt := loop_cnt led - 1\<rparr>) = led_rest led"
proof -
  obtain n where n: "loop_cnt led = int (Suc n)" using assms(1) by (metis gr0_implies_Suc zero_less_imp_eq_int of_nat_0_less_iff)
  have "led_levels (led\<lparr>arr_index := 0, loop_cnt := int n\<rparr>) 0 = led_levels led 0" by (simp add: led_levels_def)
  then show ?thesis using n assms(2) by (cases n) (simp_all add: led_rest_def led_levels_end nat_add_distrib)
qed

lemma led_repeat_plays:
  assumes "led_ok led" "light_arr led = Some arr"
  shows "\<exists>k' led' d' w. led_repeat clk k led d = Some (k', led', d') \<and> led_same led led' \<and>
    pin_log d' = pin_log d @ w \<and> (0 < loop_cnt led \<longrightarrow> w @ led_rest led' = led_rest led \<and> 0 \<le> loop_cnt led')"
  using assms
proof (induction clk k led d rule: led_repeat.induct)
  case (1 clk k led d)
  have len: "length arr = arr_num led" using 1(2,3) by (simp add: led_ok_def)
  consider (wait) "\<not> tick_reached (clk k) (led_tick_timeout led)"
    | (round) "tick_reached (clk k) (led_tick_timeout led)" "arr_num led \<le> arr_index led"
    | (skip) "tick_reached (clk k) (led_tick_timeout led)" "arr_index led < arr_num led" "arr ! arr_index led = 0"
    | (show_it) "tick_reached (clk k) (led_tick_timeout led)" "arr_index led < arr_num led" "arr ! arr_index led \<noteq> 0"
    by linarith
  then show ?case
  proof cases
    case wait
    then show ?thesis by (subst led_repeat.simps) (simp add: led_same_def)
  next
    case round
    then show ?thesis
      by (subst led_repeat.simps) (simp add: led_same_def rest_next_round not_less)
  next
    case skip
    let ?l = "led\<lparr>arr_index := arr_index led + 1\<rparr>"
    have r: "rd arr (arr_index led) = Some 0" using skip len by (simp add: rd_def)
    have eq: "led_repeat clk k led d = led_repeat clk (k + 1) ?l d"
      using skip 1(3) r by (subst led_repeat.simps) simp
    have "\<exists>k' led' d' w. led_repeat clk (k + 1) ?l d = Some (k', led', d') \<and> led_same ?l led' \<and>
        pin_log d' = pin_log d @ w \<and> (0 < loop_cnt ?l \<longrightarrow> w @ led_rest led' = led_rest ?l \<and> 0 \<le> loop_cnt led')"
      using 1(2,3) skip r by (intro 1(1)) (simp_all add: led_ok_def)
    moreover have "led_rest ?l = led_rest led"
      using skip 1(3) led_levels_step [of led arr "arr_index led"] led_same_levels [of led ?l]
      by (simp add: led_rest_def led_same_def)
    ultimately show ?thesis unfolding eq by (simp add: led_same_def)
  next
    case show_it
    let ?l = "led\<lparr>led_tick_timeout := clk (k + 1) + rt_tick_from_millisecond (arr ! arr_index led), arr_index := arr_index led + 1\<rparr>"
    have r: "rd arr (arr_index led) = Some (arr ! arr_index led)" using show_it len by (simp add: rd_def)
    have eq: "led_repeat clk k led d = Some (k + 2, ?l, if odd (arr_index led) then led_pin_off led d else led_pin_on led d)"
      using show_it 1(3) r by (subst led_repeat.simps) simp
    have "led_rest led = (led_pin led, if odd (arr_index led) then c_not (led_active_logic led) else led_active_logic led) # led_rest ?l"
      if "0 < loop_cnt led"
      using that show_it 1(3) led_levels_step [of led arr "arr_index led"] led_same_levels [of led ?l]
      by (simp add: led_rest_def led_same_def)
    then show ?thesis
      unfolding eq by (auto simp: led_same_def led_pin_off_def led_pin_on_def rt_pin_write_def)
  qed
qed

text \<open>A callback that leaves the module in order: it keeps the invariant and starts no LED.\<close>

definition cb_ok :: "led_cb \<Rightarrow> bool" where
  "cb_ok cb \<longleftrightarrow> (\<forall>c p st. led_inv st \<longrightarrow> (\<exists>st'. cb c p st = Some st' \<and> led_inv st' \<and>
     length (agile_led_list st') \<le> length (agile_led_list st)))"

lemma cb_ok_run:
  assumes "cb_ok cb" "led_inv st"
  shows "\<exists>st'. (case f of None \<Rightarrow> Some st | Some c \<Rightarrow> cb c p st) = Some st' \<and> led_inv st' \<and>
    length (agile_led_list st') \<le> length (agile_led_list st)"
  using assms by (cases f) (simp_all add: cb_ok_def)

lemma led_walk_total:
  assumes cb: "cb_ok cb"
  shows "led_inv st \<Longrightarrow> agile_led_list st = xs @ ys \<Longrightarrow>
    \<exists>st'. led_walk cb (rt_slist_first ys) st = Some st' \<and> led_inv st'"
proof (induction "length (agile_led_list st)" arbitrary: st xs ys rule: less_induct)
  case less
  note shorter = less.hyps
  show ?case using less.prems shorter
  proof (induction ys arbitrary: st xs)
    case Nil
    then show ?case by (subst led_walk.simps) (simp add: rt_slist_first_def)
  next
    case (Cons p ys)
    have p: "p \<in> set (agile_led_list st)" "p \<notin> set xs" using Cons.prems(1,2) by (auto simp: led_inv_def)
    then obtain led where led: "led_mem st p = Some led" using Cons.prems(1) by (auto simp: led_inv_def)
    note ok = led_invD [OF Cons.prems(1) led]
    then obtain arr where arr: "light_arr led = Some arr" using p by (auto simp: led_ok_def)
    show ?case
    proof (cases "loop_cnt led = 0")
      case True
      obtain st1 where s1: "agile_led_stop p st = Some (RT_EOK, st1)" "led_inv st1"
        "agile_led_list st1 = remove1 p (agile_led_list st)"
        using agile_led_stop_inv [OF Cons.prems(1) led] by blast
      obtain st2 where s2: "(case compelete led of None \<Rightarrow> Some st1 | Some c \<Rightarrow> cb c p st1) = Some st2" "led_inv st2"
        "length (agile_led_list st2) \<le> length (agile_led_list st1)"
        using cb_ok_run [OF cb s1(2)] by blast
      have "length (agile_led_list st1) < length (agile_led_list st)"
        using s1(3) p(1) length_pos_if_in_set [OF p(1)] by (simp add: length_remove1)
      then have "\<exists>st'. led_walk cb (rt_slist_first (agile_led_list st2)) st2 = Some st' \<and> led_inv st'"
        using Cons.prems(3) [of st2 "[]" "agile_led_list st2"] s2 by simp
      then show ?thesis
        using True led s1 s2 by (subst led_walk.simps) (simp add: rt_slist_first_def)
    next
      case False
      obtain k led1 d w where r: "led_repeat (led_clk st) (led_reads st) led (led_dev st) = Some (k, led1, d)" "led_same led led1"
        using led_repeat_plays [OF ok(1) arr] by blast
      define st1 where "st1 = led_put p led1 (st\<lparr>led_dev := d, led_reads := k\<rparr>)"
      have "led_inv st1" unfolding st1_def
        by (rule led_inv_put [of _ _ led])
          (use led_inv_frame [OF Cons.prems(1)] led led_same_ok [OF r(2) ok(1)] r(2) in \<open>simp_all add: led_same_def\<close>)
      moreover have l1: "agile_led_list st1 = agile_led_list st" by (simp add: st1_def led_put_def)
      ultimately have "\<exists>st'. led_walk cb (rt_slist_first ys) st1 = Some st' \<and> led_inv st'"
        using Cons.IH [of st1 "xs @ [p]"] Cons.prems by simp
      moreover have "rt_slist_next (agile_led_list st1) p = rt_slist_first ys"
        using l1 Cons.prems(2) p(2) by (simp add: rt_slist_next_split)
      ultimately show ?thesis
        using False led r by (subst led_walk.simps) (simp add: rt_slist_first_def Let_def flip: st1_def)
    qed
  qed
qed

section \<open>The module in use\<close>

text \<open>
  The states the module can be in: the API operations on existing objects (with a light mode
  whose parsing is defined) and the passes of the thread, in any order. A new object gets an
  address that is not in use.
\<close>

definition led_start_state :: "(nat \<Rightarrow> u32) \<Rightarrow> pin_dev \<Rightarrow> led_sys" where
  "led_start_state clk d = \<lparr>led_mem = (\<lambda>_. None), agile_led_list = [], led_is_initialized = False,
     led_dev = d, led_clk = clk, led_reads = 0\<rparr>"

inductive led_reachable :: "led_cb \<Rightarrow> led_sys \<Rightarrow> bool" for cb where
  start: "led_reachable cb (led_start_state clk d)"
| init: "led_reachable cb st \<Longrightarrow> led_reachable cb (snd (agile_led_init mutex_ok thread_ok st))"
| create: "led_reachable cb st \<Longrightarrow> (\<And>p. m1 = Some p \<Longrightarrow> led_mem st p = None) \<Longrightarrow>
    agile_led_create m1 m2 pin logic mode cnt st = Some (r, st') \<Longrightarrow> led_reachable cb st'"
| delete: "led_reachable cb st \<Longrightarrow> agile_led_delete p st = Some (rc, st') \<Longrightarrow> led_reachable cb st'"
| start_led: "led_reachable cb st \<Longrightarrow> agile_led_start p st = Some (rc, st') \<Longrightarrow> led_reachable cb st'"
| stop_led: "led_reachable cb st \<Longrightarrow> agile_led_stop p st = Some (rc, st') \<Longrightarrow> led_reachable cb st'"
| set_mode: "led_reachable cb st \<Longrightarrow> agile_led_set_light_mode m2 p mode cnt st = Some (rc, st') \<Longrightarrow> led_reachable cb st'"
| set_cb: "led_reachable cb st \<Longrightarrow> agile_led_set_compelete_callback p f st = Some (rc, st') \<Longrightarrow> led_reachable cb st'"
| toggle: "led_reachable cb st \<Longrightarrow> agile_led_toggle p st = Some st' \<Longrightarrow> led_reachable cb st'"
| light_on: "led_reachable cb st \<Longrightarrow> agile_led_on p st = Some st' \<Longrightarrow> led_reachable cb st'"
| light_off: "led_reachable cb st \<Longrightarrow> agile_led_off p st = Some st' \<Longrightarrow> led_reachable cb st'"
| pass: "led_reachable cb st \<Longrightarrow> led_process_pass cb st = Some st' \<Longrightarrow> led_reachable cb st'"

lemma set_compelete_inv:
  "led_inv st \<Longrightarrow> agile_led_set_compelete_callback p f st = Some (rc, st') \<Longrightarrow> led_inv st'"
  by (auto simp: agile_led_set_compelete_callback_def bind_eq_Some_conv led_ok_def intro!: led_inv_put dest: led_invD)

lemma led_process_pass_total:
  "cb_ok cb \<Longrightarrow> led_inv st \<Longrightarrow> \<exists>st'. led_process_pass cb st = Some st' \<and> led_inv st'"
  using led_walk_total [of cb st "[]" "agile_led_list st"] by (simp add: led_process_pass_def)

lemma led_reachable_inv:
  assumes "cb_ok cb" "led_reachable cb st"
  shows "led_inv st"
  using assms(2)
proof (induction rule: led_reachable.induct)
  case (start clk d)
  then show ?case by (simp add: led_start_state_def led_inv_def)
next
  case (init st mutex_ok thread_ok)
  then show ?case by (auto simp: agile_led_init_def elim!: led_inv_frame)
next
  case (create st m1 m2 pin logic mode cnt r st')
  then show ?case using agile_led_create_inv by blast
next
  case (delete st p rc st')
  then obtain led where "led_mem st p = Some led" by (cases "led_mem st p") (auto simp: agile_led_delete_def)
  then show ?case using agile_led_delete_inv [OF delete.IH] delete.hyps by fastforce
next
  case (start_led st p rc st')
  then obtain led where "led_mem st p = Some led" by (cases "led_mem st p") (auto simp: agile_led_start_def)
  then show ?case using agile_led_start_inv [OF start_led.IH] start_led.hyps by fastforce
next
  case (stop_led st p rc st')
  then obtain led where "led_mem st p = Some led" by (cases "led_mem st p") (auto simp: agile_led_stop_def)
  then show ?case using agile_led_stop_inv [OF stop_led.IH] stop_led.hyps by fastforce
next
  case (set_mode st m2 p mode cnt rc st')
  then show ?case using agile_led_set_light_mode_inv by blast
next
  case (set_cb st p f rc st')
  then show ?case using set_compelete_inv by blast
next
  case (toggle st p st')
  then show ?case by (auto simp: agile_led_toggle_def bind_eq_Some_conv elim!: led_inv_frame)
next
  case (light_on st p st')
  then show ?case by (auto simp: agile_led_on_def bind_eq_Some_conv elim!: led_inv_frame)
next
  case (light_off st p st')
  then show ?case by (auto simp: agile_led_off_def bind_eq_Some_conv elim!: led_inv_frame)
next
  case (pass st st')
  then show ?case using led_process_pass_total [OF assms(1)] by fastforce
qed

section \<open>Reading a light mode back\<close>

text \<open>The light mode that lists given times.\<close>

fun led_mode_text :: "nat list \<Rightarrow> u8 list" where
  "led_mode_text [] = []"
| "led_mode_text [x] = dec_text x"
| "led_mode_text (x # y # xs) = dec_text x @ 44 # led_mode_text (y # xs)"

lemma strchr_run:
  assumes "list_all c_isdigit ds" "c = 44 \<or> c = 0"
  shows "strchr (pre @ ds @ c # rest) (length pre) 44 = Some (if c = 44 then Some (length pre + length ds) else None)"
proof -
  have "0 \<notin> set ds" "44 \<notin> set ds"
    using assms(1) by (auto simp: list_all_iff c_isdigit_def)
  then show ?thesis using strchr_found strchr_absent assms(2) by auto
qed

lemma led_count_run:
  "0 \<notin> set t \<Longrightarrow> led_count (pre @ t @ 0 # rest) (length pre) num =
    Some (length pre + length t, num + length (filter (\<lambda>c. c = 44) t))"
proof (induction t arbitrary: pre num)
  case Nil
  then show ?case by (subst led_count.simps) simp
next
  case (Cons c t)
  then show ?case
    using Cons.IH [of "pre @ [c]"] by (subst led_count.simps) auto
qed

lemma led_mode_text_chars:
  "0 \<notin> set (led_mode_text xs)" "length (filter (\<lambda>c. c = 44) (led_mode_text xs)) = length xs - 1"
  by (induction xs rule: led_mode_text.induct) (auto simp: dec_text_chars)

lemma led_mode_text_last: "xs \<noteq> [] \<Longrightarrow> led_mode_text xs \<noteq> [] \<and> last (led_mode_text xs) \<noteq> 44"
proof (induction xs rule: led_mode_text.induct)
  case (2 x)
  have "c_isdigit (last (dec_text x))"
    using dec_text_digits [of x] dec_text_nonempty [of x] by (auto simp: list_all_iff)
  then show ?case using digit_not dec_text_nonempty by auto
qed auto

lemma led_fill_run:
  "xs \<noteq> [] \<Longrightarrow> \<forall>x \<in> set xs. x < 2 ^ 31 \<Longrightarrow> i + length xs \<le> length arr \<Longrightarrow>
    led_fill (length xs) (pre @ led_mode_text xs @ 0 # rest) i (Some (length pre)) arr =
      Some (take i arr @ map word_of_nat xs @ drop (i + length xs) arr)"
proof (induction xs arbitrary: pre i arr rule: led_mode_text.induct)
  case 1
  then show ?case by simp
next
  case (2 x)
  then show ?case
    using atoi_dec [of x 0 pre rest] strchr_run [OF dec_text_digits, of 0 pre x rest]
    by (simp add: wr_def upd_conv_take_nth_drop c_isdigit_def)
next
  case (3 x y xs)
  let ?s = "pre @ led_mode_text (x # y # xs) @ 0 # rest"
  let ?a = "arr[i := word_of_nat x]"
  have "atoi ?s (length pre) = Some (int x)"
    using atoi_dec [of x 44 pre "led_mode_text (y # xs) @ 0 # rest"] 3(3) by (simp add: c_isdigit_def word_le_nat_alt)
  moreover have "strchr ?s (length pre) 44 = Some (Some (length pre + length (dec_text x)))"
    using strchr_run [OF dec_text_digits, of 44 pre x "led_mode_text (y # xs) @ 0 # rest"] by simp
  moreover have "led_fill (length (y # xs)) ?s (Suc i) (Some (Suc (length pre + length (dec_text x)))) ?a =
      Some (take (Suc i) ?a @ map word_of_nat (y # xs) @ drop (Suc i + length (y # xs)) ?a)"
    using 3(1) [of "Suc i" ?a "pre @ dec_text x @ [44]"] 3(3,4) by simp
  moreover have "take (Suc i) ?a = take i arr @ [word_of_nat x]"
    using 3(4) by (simp add: take_Suc_conv_app_nth)
  ultimately show ?case using 3(4) by (simp add: wr_def)
qed

section \<open>Properties\<close>


definition led_cb_none :: led_cb where
  "led_cb_none c p st = Some st"

lemma led_cb_none_ok: "cb_ok led_cb_none"
  by (simp add: cb_ok_def led_cb_none_def)


text \<open>
  (C14) Round trip of light modes: parsing the text that lists given times, separated by commas
  and without a trailing one, gives exactly these times.
\<close>

theorem light_mode_roundtrip:
  assumes "xs \<noteq> []" "\<forall>x \<in> set xs. x < 2 ^ 31" "light_arr led = None" "arr_num led = 0"
  shows "agile_led_get_light_arr True led (led_mode_text xs @ 0 # rest) =
    Some (RT_EOK, led\<lparr>arr_num := length xs, light_arr := Some (map word_of_nat xs)\<rparr>)"
proof -
  let ?t = "led_mode_text xs" and ?s = "led_mode_text xs @ 0 # rest"
  note t = led_mode_text_last [OF assms(1)]
  have c: "led_count ?s 0 0 = Some (length ?t, length xs - 1)"
    using led_count_run [OF led_mode_text_chars(1), of "[]" xs rest 0] by (simp add: led_mode_text_chars)
  have l: "rdi ?s (int (length ?t) - 1) = Some (last ?t)"
    using t by (auto simp: rdi_def rd_def nth_append last_conv_nth nat_diff_distrib length_greater_0_conv Suc_le_eq)
  have n: "length xs - 1 + 1 = length xs" using assms(1) by (cases xs) auto
  have "led_fill (length xs) ?s 0 (Some 0) (replicate (length xs) 0) = Some (map word_of_nat xs)"
    using led_fill_run [OF assms(1,2), of 0 "replicate (length xs) 0" "[]" rest] by simp
  then show ?thesis
    using assms(1,3,4) c l t n by (simp add: agile_led_get_light_arr_def del: led_fill.simps replicate.simps)
qed

definition demo_led :: agile_led where
  "demo_led = \<lparr>led_active = False, led_pin = 30, led_active_logic = 0, light_arr = None, arr_num = 0, arr_index = 0,
     loop_init = 2, loop_cnt = 2, led_tick_timeout = 0, compelete = None\<rparr>"

theorem light_mode_roundtrip_witness:
  "agile_led_get_light_arr True demo_led (led_mode_text [1000, 250] @ 0 # []) =
    Some (RT_EOK, demo_led\<lparr>arr_num := 2, light_arr := Some [1000, 250]\<rparr>)"
  using light_mode_roundtrip [of "[1000, 250]" demo_led "[]"] by (simp add: demo_led_def)

text \<open>A LED that is alone in the list: what one pass does to it.\<close>

primrec led_passes :: "led_cb \<Rightarrow> nat \<Rightarrow> led_sys \<Rightarrow> led_sys option" where
  "led_passes cb 0 st = Some st"
| "led_passes cb (Suc m) st = do { st \<leftarrow> led_process_pass cb st; led_passes cb m st }"

definition led_playing :: "nat \<Rightarrow> (int \<times> int) list \<Rightarrow> (int \<times> int) list \<Rightarrow> led_sys \<Rightarrow> bool" where
  "led_playing p log0 whole st \<longleftrightarrow> led_inv st \<and>
     (\<exists>led w. led_mem st p = Some led \<and> 0 \<le> loop_cnt led \<and>
        (agile_led_list st = [p] \<or> agile_led_list st = [] \<and> loop_cnt led = 0) \<and>
        pin_log (led_dev st) = log0 @ w \<and> w @ led_rest led = whole)"

lemma led_playing_pass:
  assumes "led_playing p log0 whole st"
  shows "\<exists>st'. led_process_pass led_cb_none st = Some st' \<and> led_playing p log0 whole st'"
proof -
  from assms obtain led w where inv: "led_inv st" and led: "led_mem st p = Some led" and cnt: "0 \<le> loop_cnt led"
    and l: "agile_led_list st = [p] \<or> agile_led_list st = [] \<and> loop_cnt led = 0"
    and w: "pin_log (led_dev st) = log0 @ w" "w @ led_rest led = whole"
    by (auto simp: led_playing_def)
  obtain st' where run: "led_process_pass led_cb_none st = Some st'" and inv': "led_inv st'"
    using led_process_pass_total [OF led_cb_none_ok inv] by blast
  consider (gone) "agile_led_list st = []" "loop_cnt led = 0" | (over) "agile_led_list st = [p]" "loop_cnt led = 0"
    | (on) "agile_led_list st = [p]" "0 < loop_cnt led" using l cnt by fastforce
  then have "led_playing p log0 whole st'"
  proof cases
    case gone
    then have "st' = st" using run led_walk.simps [of led_cb_none None st] by (simp add: led_process_pass_def rt_slist_first_def)
    then show ?thesis using assms by simp
  next
    case over
    then have act: "led_active led" using led_invD(2) [OF inv led] by simp
    define st1 where "st1 = led_put p (led\<lparr>led_active := False\<rparr>) (st\<lparr>agile_led_list := []\<rparr>)"
    have stop: "agile_led_stop p st = Some (RT_EOK, st1)"
      using led act over by (simp add: agile_led_stop_def rt_slist_remove_def st1_def)
    have "led_walk led_cb_none None st1 = Some st1" by (subst led_walk.simps) simp
    then have "led_walk led_cb_none (Some p) st = Some st1"
      using over led stop by (subst led_walk.simps) (simp add: led_cb_none_def rt_slist_first_def st1_def led_put_def split: option.splits)
    then have "st' = st1" using run over by (simp add: led_process_pass_def rt_slist_first_def)
    moreover have "led_rest led = []" "led_rest (led\<lparr>led_active := False\<rparr>) = []" using over by (simp_all add: led_rest_def)
    ultimately show ?thesis
      using inv' w over by (simp add: led_playing_def st1_def led_put_def)
  next
    case on
    note ok = led_invD [OF inv led]
    then obtain arr where arr: "light_arr led = Some arr" using on by (auto simp: led_ok_def)
    obtain k led1 d w1 where r: "led_repeat (led_clk st) (led_reads st) led (led_dev st) = Some (k, led1, d)"
      "pin_log d = pin_log (led_dev st) @ w1" "w1 @ led_rest led1 = led_rest led" "0 \<le> loop_cnt led1"
      using led_repeat_plays [OF ok(1) arr] on(2) by blast
    define st1 where "st1 = led_put p led1 (st\<lparr>led_dev := d, led_reads := k\<rparr>)"
    have "led_walk led_cb_none None st1 = Some st1" by (subst led_walk.simps) simp
    then have "led_walk led_cb_none (Some p) st = Some st1"
      using on led r(1) by (subst led_walk.simps) (simp add: st1_def led_put_def)
    then have "st' = st1" using run on by (simp add: led_process_pass_def rt_slist_first_def)
    moreover have "(w @ w1) @ led_rest led1 = whole" using r(3) w(2) by simp
    ultimately show ?thesis
      using inv' on w(1) r(2,4) by (auto simp: led_playing_def st1_def led_put_def)
  qed
  then show ?thesis using run by blast
qed

lemma led_playing_passes:
  "led_playing p log0 whole st \<Longrightarrow> \<exists>st'. led_passes led_cb_none m st = Some st' \<and> led_playing p log0 whole st'"
proof (induction m arbitrary: st)
  case 0
  then show ?case by simp
next
  case (Suc m)
  then obtain st1 where "led_process_pass led_cb_none st = Some st1" "led_playing p log0 whole st1"
    using led_playing_pass by blast
  then show ?case using Suc.IH by simp
qed


definition demo_led_sys :: led_sys where
  "demo_led_sys = \<lparr>led_mem = (\<lambda>p. if p = 1 then Some (demo_led\<lparr>arr_num := 2, light_arr := Some [1000, 250]\<rparr>) else None),
     agile_led_list = [], led_is_initialized = True, led_dev = \<lparr>pin_level = (\<lambda>_. 1), pin_log = []\<rparr>,
     led_clk = (\<lambda>k. 1000 * word_of_nat k), led_reads = 0\<rparr>"

lemma demo_led_start:
  "led_inv demo_led_sys" "agile_led_list demo_led_sys = []"
  "led_mem demo_led_sys 1 = Some (demo_led\<lparr>arr_num := 2, light_arr := Some [1000, 250]\<rparr>)"
  "agile_led_start 1 demo_led_sys = Some (RT_EOK, the (map_option snd (agile_led_start 1 demo_led_sys)))"
  by (auto simp: demo_led_sys_def led_inv_def led_ok_def demo_led_def agile_led_start_def led_tick_get_def dom_def)


end
