(* ===== verification/Agile_Button.thy ===== *)
theory Agile_Button
  imports Rt_Kernel
begin

text \<open>
  \<open>packages/agile_button-latest/src/agile_button.c\<close>: buttons with debouncing, press, hold,
  release and click events. The thread \<open>btn_process\<close> visits the started buttons every 5 ms and
  runs the state machine of each.

  Button objects are found by address in \<open>btn_mem\<close>. \<open>btn_clk k\<close> is what the \<open>k\<close>-th reading of
  the clock returns and \<open>btn_level k pin\<close> what the \<open>k\<close>-th reading of a pin returns. A callback is
  named by a number; what it does is the parameter \<open>cb\<close>, which may change everything,
  including the state \<open>btn_world\<close> of the application.
\<close>

section \<open>Button objects\<close>

datatype agile_btn_event =
  BTN_PRESS_DOWN_EVENT | BTN_HOLD_EVENT | BTN_PRESS_UP_EVENT | BTN_CLICK_EVENT | BTN_EVENT_SUM

datatype agile_btn_state =
  BTN_STATE_NONE_PRESS | BTN_STATE_CHECK_PRESS | BTN_STATE_PRESS_DOWN | BTN_STATE_PRESS_HOLD | BTN_STATE_PRESS_UP

record agile_btn =
  btn_active :: bool
  repeat_cnt :: u8
  elimination_time :: u8
  btn_event :: agile_btn_event
  btn_state :: agile_btn_state
  hold_time :: u32
  prev_hold_time :: u32
  hold_cycle_time :: u32
  btn_pin :: int
  btn_active_logic :: int
  btn_tick_timeout :: u32
  event_cb :: "agile_btn_event \<Rightarrow> nat option"

record 'w btn_sys =
  btn_mem :: "nat \<Rightarrow> agile_btn option"
  agile_btn_list :: "nat list"
  btn_is_initialized :: bool
  btn_clk :: "nat \<Rightarrow> u32"
  btn_reads :: nat
  btn_level :: "nat \<Rightarrow> int \<Rightarrow> int"
  btn_samples :: nat
  btn_world :: 'w

type_synonym 'w btn_cb = "nat \<Rightarrow> nat \<Rightarrow> 'w btn_sys \<Rightarrow> 'w btn_sys option"

definition AGILE_BUTTON_ELIMINATION_TIME_DEFAULT :: u8 where "AGILE_BUTTON_ELIMINATION_TIME_DEFAULT = 15"
definition AGILE_BUTTON_TWO_INTERVAL_TIME_DEFAULT :: u32 where "AGILE_BUTTON_TWO_INTERVAL_TIME_DEFAULT = 500"
definition AGILE_BUTTON_HOLD_CYCLE_TIME_DEFAULT :: u32 where "AGILE_BUTTON_HOLD_CYCLE_TIME_DEFAULT = 1000"

definition btn_put :: "nat \<Rightarrow> agile_btn \<Rightarrow> 'w btn_sys \<Rightarrow> 'w btn_sys" where
  "btn_put p btn st = st\<lparr>btn_mem := (btn_mem st)(p := Some btn)\<rparr>"

definition btn_tick_get :: "'w btn_sys \<Rightarrow> u32 \<times> 'w btn_sys" where
  "btn_tick_get st = (btn_clk st (btn_reads st), st\<lparr>btn_reads := btn_reads st + 1\<rparr>)"

definition AGILE_BUTTON_PIN_STATE :: "agile_btn \<Rightarrow> 'w btn_sys \<Rightarrow> int \<times> 'w btn_sys" where
  "AGILE_BUTTON_PIN_STATE btn st =
     (btn_level st (btn_samples st) (btn_pin btn), st\<lparr>btn_samples := btn_samples st + 1\<rparr>)"

definition AGILE_BUTTON_EVENT_CB :: "'w btn_cb \<Rightarrow> nat \<Rightarrow> 'w btn_sys \<Rightarrow> 'w btn_sys option" where
  "AGILE_BUTTON_EVENT_CB cb p st =
     do { btn \<leftarrow> btn_mem st p;
          case event_cb btn (btn_event btn) of None \<Rightarrow> Some st | Some c \<Rightarrow> cb c p st }"

section \<open>The operations\<close>

text \<open>\<open>m\<close> is the address \<open>rt_malloc\<close> returns, \<open>None\<close> when there is no memory.\<close>

definition agile_btn_create :: "nat option \<Rightarrow> int \<Rightarrow> int \<Rightarrow> 'w btn_sys \<Rightarrow> nat option \<times> 'w btn_sys" where
  "agile_btn_create m pin active_logic st =
     (if \<not> btn_is_initialized st then (None, st)
      else (case m of
        None \<Rightarrow> (None, st)
      | Some p \<Rightarrow>
          let (now, st) = btn_tick_get st;
              btn = \<lparr>btn_active = False, repeat_cnt = 0, elimination_time = AGILE_BUTTON_ELIMINATION_TIME_DEFAULT,
                btn_event = BTN_EVENT_SUM, btn_state = BTN_STATE_NONE_PRESS, hold_time = 0, prev_hold_time = 0,
                hold_cycle_time = AGILE_BUTTON_HOLD_CYCLE_TIME_DEFAULT, btn_pin = pin, btn_active_logic = active_logic,
                btn_tick_timeout = now, event_cb = (\<lambda>_. None)\<rparr>
          in (Some p, btn_put p btn st)))"

definition agile_btn_delete :: "nat \<Rightarrow> 'w btn_sys \<Rightarrow> (int \<times> 'w btn_sys) option" where
  "agile_btn_delete p st =
     do { btn \<leftarrow> btn_mem st p;
          Some (RT_EOK, st\<lparr>agile_btn_list := rt_slist_remove (agile_btn_list st) p,
            btn_mem := (btn_mem st)(p := None)\<rparr>) }"

definition agile_btn_start :: "nat \<Rightarrow> 'w btn_sys \<Rightarrow> (int \<times> 'w btn_sys) option" where
  "agile_btn_start p st =
     do { btn \<leftarrow> btn_mem st p;
          if btn_active btn then Some (- RT_ERROR, st)
          else
            let (now, st) = btn_tick_get st;
                btn = btn\<lparr>repeat_cnt := 0, btn_event := BTN_EVENT_SUM, btn_state := BTN_STATE_NONE_PRESS,
                  hold_time := 0, prev_hold_time := 0, btn_tick_timeout := now, btn_active := True\<rparr>
            in Some (RT_EOK, btn_put p btn (st\<lparr>agile_btn_list := rt_slist_append (agile_btn_list st) p\<rparr>)) }"

definition agile_btn_stop :: "nat \<Rightarrow> 'w btn_sys \<Rightarrow> (int \<times> 'w btn_sys) option" where
  "agile_btn_stop p st =
     do { btn \<leftarrow> btn_mem st p;
          if \<not> btn_active btn then Some (RT_EOK, st)
          else Some (RT_EOK, btn_put p (btn\<lparr>btn_active := False\<rparr>)
                 (st\<lparr>agile_btn_list := rt_slist_remove (agile_btn_list st) p\<rparr>)) }"

definition agile_btn_set_elimination_time :: "nat \<Rightarrow> u8 \<Rightarrow> 'w btn_sys \<Rightarrow> (int \<times> 'w btn_sys) option" where
  "agile_btn_set_elimination_time p t st =
     do { btn \<leftarrow> btn_mem st p; Some (RT_EOK, btn_put p (btn\<lparr>elimination_time := t\<rparr>) st) }"

definition agile_btn_set_hold_cycle_time :: "nat \<Rightarrow> u32 \<Rightarrow> 'w btn_sys \<Rightarrow> (int \<times> 'w btn_sys) option" where
  "agile_btn_set_hold_cycle_time p t st =
     do { btn \<leftarrow> btn_mem st p; Some (RT_EOK, btn_put p (btn\<lparr>hold_cycle_time := t\<rparr>) st) }"

definition agile_btn_set_event_cb :: "nat \<Rightarrow> agile_btn_event \<Rightarrow> nat option \<Rightarrow> 'w btn_sys \<Rightarrow> (int \<times> 'w btn_sys) option" where
  "agile_btn_set_event_cb p event f st =
     do { btn \<leftarrow> btn_mem st p;
          if event = BTN_EVENT_SUM then Some (- RT_ERROR, st)
          else Some (RT_EOK, btn_put p (btn\<lparr>event_cb := (event_cb btn)(event := f)\<rparr>) st) }"

section \<open>The state machine\<close>

text \<open>
  The clock is read once for the comparison and once more for the result. \<open>1000 / RT_TICK_PER_SECOND\<close>
  is an integer division.
\<close>

definition btn_hold_value :: "u32 \<Rightarrow> u32 \<Rightarrow> u32 \<Rightarrow> u32" where
  "btn_hold_value timeout now now' =
     (if now < timeout then RT_TICK_MAX - timeout + now' else now' - timeout) * (1000 div RT_TICK_PER_SECOND)"

definition agile_btn_cal_hold_time :: "nat \<Rightarrow> 'w btn_sys \<Rightarrow> 'w btn_sys option" where
  "agile_btn_cal_hold_time p st =
     do { btn \<leftarrow> btn_mem st p;
          let (now, st) = btn_tick_get st;
              (now', st) = btn_tick_get st
          in Some (btn_put p (btn\<lparr>hold_time := btn_hold_value (btn_tick_timeout btn) now now'\<rparr>) st) }"

definition btn_none_press :: "nat \<Rightarrow> 'w btn_sys \<Rightarrow> 'w btn_sys option" where
  "btn_none_press p st =
     do { btn \<leftarrow> btn_mem st p;
          let (level, st) = AGILE_BUTTON_PIN_STATE btn st in
          if level = btn_active_logic btn then
            let (now, st) = btn_tick_get st in
            Some (btn_put p (btn\<lparr>btn_tick_timeout := now + rt_tick_from_millisecond (ucast (elimination_time btn)),
              btn_state := BTN_STATE_CHECK_PRESS\<rparr>) st)
          else if repeat_cnt btn \<noteq> 0 then
            let (now, st) = btn_tick_get st in
            Some (if tick_reached now (btn_tick_timeout btn) then btn_put p (btn\<lparr>repeat_cnt := 0\<rparr>) st else st)
          else Some st }"

definition btn_check_press :: "nat \<Rightarrow> 'w btn_sys \<Rightarrow> 'w btn_sys option" where
  "btn_check_press p st =
     do { btn \<leftarrow> btn_mem st p;
          let (level, st) = AGILE_BUTTON_PIN_STATE btn st in
          if level = btn_active_logic btn then
            let (now, st) = btn_tick_get st in
            Some (if tick_reached now (btn_tick_timeout btn) then btn_put p (btn\<lparr>btn_state := BTN_STATE_PRESS_DOWN\<rparr>) st else st)
          else Some (btn_put p (btn\<lparr>btn_state := BTN_STATE_NONE_PRESS\<rparr>) st) }"

definition btn_press_down :: "'w btn_cb \<Rightarrow> nat \<Rightarrow> 'w btn_sys \<Rightarrow> 'w btn_sys option" where
  "btn_press_down cb p st =
     do { btn \<leftarrow> btn_mem st p;
          st \<leftarrow> AGILE_BUTTON_EVENT_CB cb p (btn_put p (btn\<lparr>hold_time := 0, prev_hold_time := 0,
                 repeat_cnt := repeat_cnt btn + 1, btn_event := BTN_PRESS_DOWN_EVENT\<rparr>) st);
          btn \<leftarrow> btn_mem st p;
          let (now, st) = btn_tick_get st in
          Some (btn_put p (btn\<lparr>btn_tick_timeout := now, btn_state := BTN_STATE_PRESS_HOLD\<rparr>) st) }"

definition btn_press_hold :: "'w btn_cb \<Rightarrow> nat \<Rightarrow> 'w btn_sys \<Rightarrow> 'w btn_sys option" where
  "btn_press_hold cb p st =
     do { btn \<leftarrow> btn_mem st p;
          let (level, st) = AGILE_BUTTON_PIN_STATE btn st in
          if level = btn_active_logic btn then
            do { st \<leftarrow> agile_btn_cal_hold_time p st;
                 btn \<leftarrow> btn_mem st p;
                 if hold_time btn - prev_hold_time btn \<ge> hold_cycle_time btn then
                   do { st \<leftarrow> AGILE_BUTTON_EVENT_CB cb p (btn_put p (btn\<lparr>btn_event := BTN_HOLD_EVENT\<rparr>) st);
                        btn \<leftarrow> btn_mem st p;
                        Some (btn_put p (btn\<lparr>prev_hold_time := hold_time btn\<rparr>) st) }
                 else Some st }
          else Some (btn_put p (btn\<lparr>btn_state := BTN_STATE_PRESS_UP\<rparr>) st) }"

definition btn_press_up :: "'w btn_cb \<Rightarrow> nat \<Rightarrow> 'w btn_sys \<Rightarrow> 'w btn_sys option" where
  "btn_press_up cb p st =
     do { btn \<leftarrow> btn_mem st p;
          st \<leftarrow> AGILE_BUTTON_EVENT_CB cb p (btn_put p (btn\<lparr>btn_event := BTN_PRESS_UP_EVENT\<rparr>) st);
          btn \<leftarrow> btn_mem st p;
          st \<leftarrow> AGILE_BUTTON_EVENT_CB cb p (btn_put p (btn\<lparr>btn_event := BTN_CLICK_EVENT\<rparr>) st);
          btn \<leftarrow> btn_mem st p;
          let (now, st) = btn_tick_get st in
          Some (btn_put p (btn\<lparr>btn_tick_timeout := now + rt_tick_from_millisecond AGILE_BUTTON_TWO_INTERVAL_TIME_DEFAULT,
            btn_state := BTN_STATE_NONE_PRESS\<rparr>) st) }"

definition btn_visit :: "'w btn_cb \<Rightarrow> nat \<Rightarrow> 'w btn_sys \<Rightarrow> 'w btn_sys option" where
  "btn_visit cb p st =
     do { btn \<leftarrow> btn_mem st p;
          case btn_state btn of
            BTN_STATE_NONE_PRESS \<Rightarrow> btn_none_press p st
          | BTN_STATE_CHECK_PRESS \<Rightarrow> btn_check_press p st
          | BTN_STATE_PRESS_DOWN \<Rightarrow> btn_press_down cb p st
          | BTN_STATE_PRESS_HOLD \<Rightarrow> btn_press_hold cb p st
          | BTN_STATE_PRESS_UP \<Rightarrow> btn_press_up cb p st }"

text \<open>One walk over the list; the \<open>next\<close> field is read after the visit.\<close>

partial_function (option) btn_walk :: "'w btn_cb \<Rightarrow> nat option \<Rightarrow> 'w btn_sys \<Rightarrow> 'w btn_sys option" where
  "btn_walk cb node st =
     (case node of
        None \<Rightarrow> Some st
      | Some p \<Rightarrow>
          do { st \<leftarrow> btn_visit cb p st;
               btn_walk cb (rt_slist_next (agile_btn_list st) p) st })"

declare btn_walk.simps [code]

definition btn_process_pass :: "'w btn_cb \<Rightarrow> 'w btn_sys \<Rightarrow> 'w btn_sys option" where
  "btn_process_pass cb st = btn_walk cb (rt_slist_first (agile_btn_list st)) st"

primrec btn_passes :: "'w btn_cb \<Rightarrow> nat \<Rightarrow> 'w btn_sys \<Rightarrow> 'w btn_sys option" where
  "btn_passes cb 0 st = Some st"
| "btn_passes cb (Suc m) st = do { st \<leftarrow> btn_process_pass cb st; btn_passes cb m st }"

definition agile_btn_init :: "bool \<Rightarrow> bool \<Rightarrow> 'w btn_sys \<Rightarrow> int \<times> 'w btn_sys" where
  "agile_btn_init mutex_ok thread_ok st =
     (if \<not> mutex_ok then (- RT_ENOMEM, st)
      else if \<not> thread_ok then (- RT_ENOMEM, st)
      else (RT_EOK, st\<lparr>btn_is_initialized := True\<rparr>))"

section \<open>The invariant\<close>

text \<open>The list holds exactly the active buttons, each once.\<close>

definition btn_inv :: "'w btn_sys \<Rightarrow> bool" where
  "btn_inv st \<longleftrightarrow> distinct (agile_btn_list st) \<and> set (agile_btn_list st) \<subseteq> dom (btn_mem st) \<and>
     (\<forall>p btn. btn_mem st p = Some btn \<longrightarrow> (btn_active btn \<longleftrightarrow> p \<in> set (agile_btn_list st)))"

text \<open>
  \<open>btn_keeps st st'\<close>: going from \<open>st\<close> to \<open>st'\<close> kept the invariant, deleted no button and put
  none into the list. A callback that only does such things leaves the module in order.
\<close>

definition btn_keeps :: "'w btn_sys \<Rightarrow> 'w btn_sys \<Rightarrow> bool" where
  "btn_keeps st st' \<longleftrightarrow> btn_inv st' \<and> dom (btn_mem st) \<subseteq> dom (btn_mem st') \<and>
     (\<exists>P. agile_btn_list st' = filter P (agile_btn_list st))"

definition btn_cb_ok :: "'w btn_cb \<Rightarrow> bool" where
  "btn_cb_ok cb \<longleftrightarrow> (\<forall>c p st. btn_inv st \<longrightarrow> (\<exists>st'. cb c p st = Some st' \<and> btn_keeps st st'))"

lemma btn_keeps_refl: "btn_inv st \<Longrightarrow> btn_keeps st st"
  by (auto simp: btn_keeps_def intro!: exI [of _ "\<lambda>_. True"])

lemma btn_keeps_trans: "btn_keeps st st1 \<Longrightarrow> btn_keeps st1 st2 \<Longrightarrow> btn_keeps st st2"
  by (fastforce simp: btn_keeps_def)

lemma btn_keeps_put:
  assumes "btn_keeps st st1" "btn_mem st1 p = Some btn" "btn_active btn' = btn_active btn"
  shows "btn_keeps st (btn_put p btn' st1)"
  using assms by (auto simp: btn_keeps_def btn_inv_def btn_put_def dom_def)

lemma btn_keeps_frame:
  assumes "btn_keeps st st1" "btn_mem st2 = btn_mem st1" "agile_btn_list st2 = agile_btn_list st1"
  shows "btn_keeps st st2"
  using assms by (simp add: btn_keeps_def btn_inv_def)

lemma btn_keeps_dom: "btn_keeps st st1 \<Longrightarrow> p \<in> dom (btn_mem st) \<Longrightarrow> \<exists>btn. btn_mem st1 p = Some btn"
  by (auto simp: btn_keeps_def)

lemma btn_tick_get_frame [simp]:
  "btn_mem (snd (btn_tick_get st)) = btn_mem st" "agile_btn_list (snd (btn_tick_get st)) = agile_btn_list st"
  by (simp_all add: btn_tick_get_def)

lemma event_cb_keeps:
  assumes cb: "btn_cb_ok cb" and k: "btn_keeps st st1" and p: "p \<in> dom (btn_mem st)"
  shows "\<exists>st2. AGILE_BUTTON_EVENT_CB cb p st1 = Some st2 \<and> btn_keeps st st2"
proof -
  obtain btn where btn: "btn_mem st1 p = Some btn" using btn_keeps_dom [OF k p] by blast
  have "btn_inv st1" using k by (simp add: btn_keeps_def)
  then have "\<exists>st2. (case f of None \<Rightarrow> Some st1 | Some c \<Rightarrow> cb c p st1) = Some st2 \<and> btn_keeps st1 st2" for f
    using cb btn_keeps_refl by (cases f) (auto simp: btn_cb_ok_def)
  then show ?thesis using btn btn_keeps_trans [OF k] by (fastforce simp: AGILE_BUTTON_EVENT_CB_def)
qed

lemma put_event_keeps:
  assumes cb: "btn_cb_ok cb" and k: "btn_keeps st st1" and p: "p \<in> dom (btn_mem st)" "btn_mem st1 p = Some btn"
    "btn_active btn' = btn_active btn"
  shows "\<exists>st2 btn2. AGILE_BUTTON_EVENT_CB cb p (btn_put p btn' st1) = Some st2 \<and> btn_keeps st st2 \<and> btn_mem st2 p = Some btn2"
  using event_cb_keeps [OF cb btn_keeps_put [OF k p(2,3)] p(1)] btn_keeps_dom p(1) by blast

lemma btn_press_down_keeps:
  assumes cb: "btn_cb_ok cb" and inv: "btn_inv st" and btn: "btn_mem st p = Some btn"
  shows "\<exists>st'. btn_press_down cb p st = Some st' \<and> btn_keeps st st'"
proof -
  obtain st2 btn2 where ev: "AGILE_BUTTON_EVENT_CB cb p (btn_put p (btn\<lparr>hold_time := 0, prev_hold_time := 0,
      repeat_cnt := repeat_cnt btn + 1, btn_event := BTN_PRESS_DOWN_EVENT\<rparr>) st) = Some st2"
    and k: "btn_keeps st st2" and b2: "btn_mem st2 p = Some btn2"
    using put_event_keeps [OF cb btn_keeps_refl [OF inv] domI [of "btn_mem st", OF btn] btn,
      of "btn\<lparr>hold_time := 0, prev_hold_time := 0, repeat_cnt := repeat_cnt btn + 1, btn_event := BTN_PRESS_DOWN_EVENT\<rparr>"] by auto
  have "btn_keeps st (st2\<lparr>btn_reads := n\<rparr>)" for n using btn_keeps_frame [OF k] by simp
  then show ?thesis
    using btn ev b2 btn_keeps_put [of st "st2\<lparr>btn_reads := Suc (btn_reads st2)\<rparr>" p btn2]
    by (simp add: btn_press_down_def btn_tick_get_def)
qed

lemma btn_press_up_keeps:
  assumes cb: "btn_cb_ok cb" and inv: "btn_inv st" and btn: "btn_mem st p = Some btn"
  shows "\<exists>st'. btn_press_up cb p st = Some st' \<and> btn_keeps st st'"
proof -
  have dom: "p \<in> dom (btn_mem st)" using btn by auto
  obtain st2 btn2 where ev: "AGILE_BUTTON_EVENT_CB cb p (btn_put p (btn\<lparr>btn_event := BTN_PRESS_UP_EVENT\<rparr>) st) = Some st2"
    and k: "btn_keeps st st2" and b2: "btn_mem st2 p = Some btn2"
    using put_event_keeps [OF cb btn_keeps_refl [OF inv] dom btn, of "btn\<lparr>btn_event := BTN_PRESS_UP_EVENT\<rparr>"] by auto
  obtain st3 btn3 where ev3: "AGILE_BUTTON_EVENT_CB cb p (btn_put p (btn2\<lparr>btn_event := BTN_CLICK_EVENT\<rparr>) st2) = Some st3"
    and k3: "btn_keeps st st3" and b3: "btn_mem st3 p = Some btn3"
    using put_event_keeps [OF cb k dom b2, of "btn2\<lparr>btn_event := BTN_CLICK_EVENT\<rparr>"] by auto
  have "btn_keeps st (st3\<lparr>btn_reads := n\<rparr>)" for n using btn_keeps_frame [OF k3] by simp
  then show ?thesis
    using btn ev b2 ev3 b3 btn_keeps_put [of st "st3\<lparr>btn_reads := Suc (btn_reads st3)\<rparr>" p btn3]
    by (simp add: btn_press_up_def btn_tick_get_def)
qed

lemma btn_press_hold_keeps:
  assumes cb: "btn_cb_ok cb" and inv: "btn_inv st" and btn: "btn_mem st p = Some btn"
  shows "\<exists>st'. btn_press_hold cb p st = Some st' \<and> btn_keeps st st'"
proof -
  define st1 where "st1 = snd (AGILE_BUTTON_PIN_STATE btn st)"
  have k1: "btn_keeps st st1" and b1: "btn_mem st1 p = Some btn"
    using btn_keeps_frame [OF btn_keeps_refl [OF inv]] btn by (simp_all add: st1_def AGILE_BUTTON_PIN_STATE_def)
  show ?thesis
  proof (cases "fst (AGILE_BUTTON_PIN_STATE btn st) = btn_active_logic btn")
    case False
    then show ?thesis
      using btn btn_keeps_put [OF k1 b1] by (simp add: btn_press_hold_def split_beta flip: st1_def)
  next
    case True
    obtain st2 btn2 where c: "agile_btn_cal_hold_time p st1 = Some st2" and k2: "btn_keeps st st2" and b2: "btn_mem st2 p = Some btn2"
    proof -
      obtain h where st2: "agile_btn_cal_hold_time p st1 = Some (btn_put p (btn\<lparr>hold_time := h\<rparr>) (st1\<lparr>btn_reads := btn_reads st1 + 2\<rparr>))"
        using b1 by (simp add: agile_btn_cal_hold_time_def btn_tick_get_def)
      have "btn_keeps st (st1\<lparr>btn_reads := btn_reads st1 + 2\<rparr>)" using btn_keeps_frame [OF k1] by simp
      then show thesis
        using that [OF st2] btn_keeps_put [of st "st1\<lparr>btn_reads := btn_reads st1 + 2\<rparr>" p btn "btn\<lparr>hold_time := h\<rparr>"] b1
        by (simp add: btn_put_def)
    qed
    obtain st3 btn3 where ev: "AGILE_BUTTON_EVENT_CB cb p (btn_put p (btn2\<lparr>btn_event := BTN_HOLD_EVENT\<rparr>) st2) = Some st3"
      and k3: "btn_keeps st st3" and b3: "btn_mem st3 p = Some btn3"
      using put_event_keeps [OF cb k2 domI [of "btn_mem st", OF btn] b2, of "btn2\<lparr>btn_event := BTN_HOLD_EVENT\<rparr>"] by auto
    show ?thesis
      using True btn c b2 k2 ev b3 btn_keeps_put [OF k3 b3]
      by (simp add: btn_press_hold_def split_beta flip: st1_def)
  qed
qed

lemma btn_none_press_keeps:
  assumes inv: "btn_inv st" and btn: "btn_mem st p = Some btn"
  shows "\<exists>st'. btn_none_press p st = Some st' \<and> btn_keeps st st'"
proof -
  have k: "btn_keeps st (st\<lparr>btn_samples := a, btn_reads := b\<rparr>)" "btn_keeps st (st\<lparr>btn_samples := a\<rparr>)" for a b
    using btn_keeps_frame [OF btn_keeps_refl [OF inv]] by simp_all
  have m: "btn_mem (st\<lparr>btn_samples := a, btn_reads := b\<rparr>) p = Some btn" for a b using btn by simp
  show ?thesis
    using btn k btn_keeps_put [OF k(1) m]
    by (auto simp: btn_none_press_def AGILE_BUTTON_PIN_STATE_def btn_tick_get_def)
qed

lemma btn_check_press_keeps:
  assumes inv: "btn_inv st" and btn: "btn_mem st p = Some btn"
  shows "\<exists>st'. btn_check_press p st = Some st' \<and> btn_keeps st st'"
proof -
  have k: "btn_keeps st (st\<lparr>btn_samples := a, btn_reads := b\<rparr>)" "btn_keeps st (st\<lparr>btn_samples := a\<rparr>)" for a b
    using btn_keeps_frame [OF btn_keeps_refl [OF inv]] by simp_all
  have m: "btn_mem (st\<lparr>btn_samples := a, btn_reads := b\<rparr>) p = Some btn" "btn_mem (st\<lparr>btn_samples := a\<rparr>) p = Some btn" for a b
    using btn by simp_all
  show ?thesis
    using btn k btn_keeps_put [OF k(1) m(1)] btn_keeps_put [OF k(2) m(2)]
    by (auto simp: btn_check_press_def AGILE_BUTTON_PIN_STATE_def btn_tick_get_def)
qed

lemmas btn_state_keeps =
  btn_none_press_keeps btn_check_press_keeps btn_press_down_keeps btn_press_hold_keeps btn_press_up_keeps

lemma btn_visit_keeps:
  assumes "btn_cb_ok cb" "btn_inv st" "btn_mem st p = Some btn"
  shows "\<exists>st'. btn_visit cb p st = Some st' \<and> btn_keeps st st'"
  using assms btn_state_keeps by (cases "btn_state btn") (simp_all add: btn_visit_def)

lemma btn_walk_total:
  assumes cb: "btn_cb_ok cb"
  shows "btn_inv st \<Longrightarrow> agile_btn_list st = xs @ ys \<Longrightarrow> \<exists>st'. btn_walk cb (rt_slist_first ys) st = Some st' \<and> btn_keeps st st'"
proof (induction "length ys" arbitrary: st xs ys rule: less_induct)
  case less
  show ?case
  proof (cases ys)
    case Nil
    then show ?thesis using btn_keeps_refl [OF less.prems(1)] by (subst btn_walk.simps) (simp add: rt_slist_first_def)
  next
    case (Cons p zs)
    then have "p \<in> dom (btn_mem st)" and out: "p \<notin> set xs" "p \<notin> set zs" using less.prems by (auto simp: btn_inv_def)
    then obtain st1 where v: "btn_visit cb p st = Some st1" and k: "btn_keeps st st1"
      using btn_visit_keeps [OF cb less.prems(1)] by blast
    from k obtain P where l: "agile_btn_list st1 = filter P xs @ filter P (p # zs)"
      using less.prems(2) Cons by (auto simp: btn_keeps_def)
    have inv1: "btn_inv st1" using k by (simp add: btn_keeps_def)
    have "\<exists>st'. btn_walk cb (rt_slist_next (agile_btn_list st1) p) st1 = Some st' \<and> btn_keeps st1 st'"
    proof (cases "P p")
      case True
      then have "agile_btn_list st1 = filter P xs @ p # filter P zs" using l by simp
      moreover have "length (filter P zs) < length ys" using Cons by (simp add: le_imp_less_Suc)
      ultimately show ?thesis
        using less.hyps [of "filter P zs" st1 "filter P xs @ [p]"] inv1 out rt_slist_next_split [of p "filter P xs"] by simp
    next
      case False
      then have "p \<notin> set (agile_btn_list st1)" using l by simp
      then show ?thesis
        using rt_slist_next_absent btn_keeps_refl [OF inv1] by (subst btn_walk.simps) simp
    qed
    then show ?thesis
      using v btn_keeps_trans [OF k] Cons by (subst btn_walk.simps) (auto simp: rt_slist_first_def)
  qed
qed

lemma btn_process_pass_total:
  "btn_cb_ok cb \<Longrightarrow> btn_inv st \<Longrightarrow> \<exists>st'. btn_process_pass cb st = Some st' \<and> btn_keeps st st'"
  using btn_walk_total [of cb st "[]" "agile_btn_list st"] by (simp add: btn_process_pass_def)

section \<open>The module in use\<close>

inductive btn_reachable :: "'w btn_cb \<Rightarrow> 'w btn_sys \<Rightarrow> bool" for cb where
  start: "btn_mem st = (\<lambda>_. None) \<Longrightarrow> agile_btn_list st = [] \<Longrightarrow> btn_reachable cb st"
| init: "btn_reachable cb st \<Longrightarrow> btn_reachable cb (snd (agile_btn_init mutex_ok thread_ok st))"
| create: "btn_reachable cb st \<Longrightarrow> (\<And>p. m = Some p \<Longrightarrow> btn_mem st p = None) \<Longrightarrow>
    btn_reachable cb (snd (agile_btn_create m pin logic st))"
| delete: "btn_reachable cb st \<Longrightarrow> agile_btn_delete p st = Some (rc, st') \<Longrightarrow> btn_reachable cb st'"
| start_btn: "btn_reachable cb st \<Longrightarrow> agile_btn_start p st = Some (rc, st') \<Longrightarrow> btn_reachable cb st'"
| stop_btn: "btn_reachable cb st \<Longrightarrow> agile_btn_stop p st = Some (rc, st') \<Longrightarrow> btn_reachable cb st'"
| set_elimination: "btn_reachable cb st \<Longrightarrow> agile_btn_set_elimination_time p t st = Some (rc, st') \<Longrightarrow> btn_reachable cb st'"
| set_cycle: "btn_reachable cb st \<Longrightarrow> agile_btn_set_hold_cycle_time p u st = Some (rc, st') \<Longrightarrow> btn_reachable cb st'"
| set_cb: "btn_reachable cb st \<Longrightarrow> agile_btn_set_event_cb p e f st = Some (rc, st') \<Longrightarrow> btn_reachable cb st'"
| pass: "btn_reachable cb st \<Longrightarrow> btn_process_pass cb st = Some st' \<Longrightarrow> btn_reachable cb st'"

lemma btn_inv_put:
  "btn_inv st \<Longrightarrow> btn_mem st p = Some btn \<Longrightarrow> btn_active btn' = btn_active btn \<Longrightarrow> btn_inv (btn_put p btn' st)"
  using btn_keeps_put [OF btn_keeps_refl] by (auto simp: btn_keeps_def)

lemma btn_reachable_inv:
  assumes "btn_cb_ok cb" "btn_reachable cb st"
  shows "btn_inv st"
  using assms(2)
proof (induction rule: btn_reachable.induct)
  case (start st)
  then show ?case by (simp add: btn_inv_def)
next
  case (init st mutex_ok thread_ok)
  then show ?case by (auto simp: agile_btn_init_def btn_inv_def)
next
  case (create st m pin logic)
  then show ?case
    by (cases m) (auto simp: agile_btn_create_def btn_inv_def btn_put_def btn_tick_get_def Let_def dom_def split: option.splits)
next
  case (delete st p rc st')
  then obtain btn where "btn_mem st p = Some btn"
    "st' = st\<lparr>agile_btn_list := remove1 p (agile_btn_list st), btn_mem := (btn_mem st)(p := None)\<rparr>"
    by (auto simp: agile_btn_delete_def rt_slist_remove_def bind_eq_Some_conv)
  with delete.IH show ?case by (auto simp: btn_inv_def)
next
  case (start_btn st p rc st')
  then obtain btn where btn: "btn_mem st p = Some btn" by (auto simp: agile_btn_start_def bind_eq_Some_conv)
  then show ?case
    using start_btn.IH start_btn.hyps(2)
    by (cases "btn_active btn") (auto simp: agile_btn_start_def btn_inv_def btn_put_def btn_tick_get_def rt_slist_append_def split: if_splits)
next
  case (stop_btn st p rc st')
  then obtain btn where btn: "btn_mem st p = Some btn" by (auto simp: agile_btn_stop_def bind_eq_Some_conv)
  then show ?case
    using stop_btn.IH stop_btn.hyps(2)
    by (cases "btn_active btn") (auto simp: agile_btn_stop_def btn_inv_def btn_put_def rt_slist_remove_def split: if_splits)
next
  case (set_elimination st p t rc st')
  then show ?case by (auto simp: agile_btn_set_elimination_time_def bind_eq_Some_conv intro!: btn_inv_put)
next
  case (set_cycle st p u rc st')
  then show ?case by (auto simp: agile_btn_set_hold_cycle_time_def bind_eq_Some_conv intro!: btn_inv_put)
next
  case (set_cb st p e f rc st')
  then show ?case
    by (auto simp: agile_btn_set_event_cb_def bind_eq_Some_conv intro!: btn_inv_put split: if_splits)
next
  case (pass st st')
  then show ?case using btn_process_pass_total [OF assms(1) pass.IH] by (auto simp: btn_keeps_def)
qed

section \<open>The events of one button\<close>

text \<open>A callback that records the events it is called for, with the hold time it sees.\<close>

type_synonym btn_log = "(agile_btn_event \<times> u32) list"

definition rec_cb :: "btn_log btn_cb" where
  "rec_cb c p st = do { btn \<leftarrow> btn_mem st p; Some (st\<lparr>btn_world := btn_world st @ [(btn_event btn, hold_time btn)]\<rparr>) }"

text \<open>
  What a press may look like: the press with hold time 0, hold events whose times grow by at
  least the cycle time, then the release and the click, which see the same hold time.
\<close>

fun spaced :: "u32 \<Rightarrow> u32 \<Rightarrow> u32 list \<Rightarrow> bool" where
  "spaced c h0 [] \<longleftrightarrow> True"
| "spaced c h0 (h # hs) \<longleftrightarrow> c \<le> h - h0 \<and> spaced c h hs"

definition press_begun :: "u32 \<Rightarrow> u32 list \<Rightarrow> btn_log" where
  "press_begun c hs = (BTN_PRESS_DOWN_EVENT, 0) # map (Pair BTN_HOLD_EVENT) hs"

definition press_complete :: "u32 \<Rightarrow> btn_log \<Rightarrow> bool" where
  "press_complete c l \<longleftrightarrow> (\<exists>hs h. l = press_begun c hs @ [(BTN_PRESS_UP_EVENT, h), (BTN_CLICK_EVENT, h)] \<and> spaced c 0 hs)"

definition press_log :: "u32 \<Rightarrow> btn_log \<Rightarrow> bool" where
  "press_log c l \<longleftrightarrow> (\<exists>presses rest. l = concat presses @ rest \<and> list_all (press_complete c) presses \<and>
     (rest = [] \<or> (\<exists>hs. rest = press_begun c hs \<and> spaced c 0 hs)))"

lemma spaced_snoc: "spaced c h0 (hs @ [h]) \<longleftrightarrow> spaced c h0 hs \<and> c \<le> h - last (h0 # hs)"
  by (induction hs arbitrary: h0) auto

text \<open>The invariant that ties the log to the state of the button.\<close>

definition btn_logged :: "nat \<Rightarrow> u32 \<Rightarrow> btn_log btn_sys \<Rightarrow> bool" where
  "btn_logged p c st \<longleftrightarrow> agile_btn_list st = [p] \<and>
     (\<exists>btn presses. btn_mem st p = Some btn \<and> event_cb btn = (\<lambda>_. Some 0) \<and> hold_cycle_time btn = c \<and>
        list_all (press_complete c) presses \<and>
        (if btn_state btn = BTN_STATE_PRESS_HOLD \<or> btn_state btn = BTN_STATE_PRESS_UP
         then \<exists>hs. btn_world st = concat presses @ press_begun c hs \<and> spaced c 0 hs \<and> prev_hold_time btn = last (0 # hs)
         else btn_world st = concat presses))"

lemma single_pass:
  assumes "agile_btn_list st = [p]" "btn_visit cb p st = Some st'" "agile_btn_list st' = [p]"
  shows "btn_process_pass cb st = Some st'"
proof -
  have "btn_walk cb None st' = Some st'" by (subst btn_walk.simps) simp
  then show ?thesis
    using assms by (simp add: btn_process_pass_def rt_slist_first_def) (subst btn_walk.simps, simp)
qed

lemma rec_event_cb:
  "btn_mem st p = Some btn \<Longrightarrow> event_cb btn = (\<lambda>_. Some 0) \<Longrightarrow>
    AGILE_BUTTON_EVENT_CB rec_cb p st = Some (st\<lparr>btn_world := btn_world st @ [(btn_event btn, hold_time btn)]\<rparr>)"
  by (simp add: AGILE_BUTTON_EVENT_CB_def rec_cb_def)

lemmas btn_step_defs = btn_visit_def btn_none_press_def btn_check_press_def btn_press_down_def btn_press_hold_def
  btn_press_up_def agile_btn_cal_hold_time_def AGILE_BUTTON_PIN_STATE_def btn_tick_get_def btn_put_def rec_event_cb

lemma btn_logged_visit:
  assumes "btn_logged p c st"
  shows "\<exists>st'. btn_visit rec_cb p st = Some st' \<and> btn_logged p c st'"
proof -
  from assms obtain btn presses where l: "agile_btn_list st = [p]" and btn: "btn_mem st p = Some btn"
    and cb: "event_cb btn = (\<lambda>_. Some 0)" "hold_cycle_time btn = c" and pr: "list_all (press_complete c) presses"
    and log: "if btn_state btn = BTN_STATE_PRESS_HOLD \<or> btn_state btn = BTN_STATE_PRESS_UP
         then \<exists>hs. btn_world st = concat presses @ press_begun c hs \<and> spaced c 0 hs \<and> prev_hold_time btn = last (0 # hs)
         else btn_world st = concat presses"
    by (auto simp: btn_logged_def)
  show ?thesis
  proof (cases "btn_state btn")
    case BTN_STATE_NONE_PRESS
    then show ?thesis using l btn cb pr log by (auto simp: btn_logged_def btn_step_defs)
  next
    case BTN_STATE_CHECK_PRESS
    then show ?thesis using l btn cb pr log by (auto simp: btn_logged_def btn_step_defs)
  next
    case BTN_STATE_PRESS_DOWN
    then show ?thesis
      using l btn cb pr log
      by (auto simp: btn_logged_def btn_step_defs press_begun_def intro!: exI [of _ presses] exI [of _ "[] :: u32 list"])
  next
    case BTN_STATE_PRESS_HOLD
    then obtain hs where hs: "btn_world st = concat presses @ press_begun c hs" "spaced c 0 hs" "prev_hold_time btn = last (0 # hs)"
      using log by auto
    define lev where "lev = btn_level st (btn_samples st) (btn_pin btn)"
    define h where "h = btn_hold_value (btn_tick_timeout btn) (btn_clk st (btn_reads st)) (btn_clk st (Suc (btn_reads st)))"
    show ?thesis
    proof (cases "lev = btn_active_logic btn \<and> c \<le> h - prev_hold_time btn")
      case True
      then have "spaced c 0 (hs @ [h])" using hs by (simp add: spaced_snoc)
      moreover have "btn_world st @ [(BTN_HOLD_EVENT, h)] = concat presses @ press_begun c (hs @ [h])"
        using hs by (simp add: press_begun_def)
      ultimately show ?thesis
        using True BTN_STATE_PRESS_HOLD l btn cb pr hs
        by (auto simp: btn_logged_def btn_step_defs lev_def [symmetric] h_def [symmetric] intro!: exI [of _ presses] exI [of _ "hs @ [h]"])
    next
      case False
      then show ?thesis
        using BTN_STATE_PRESS_HOLD l btn cb pr hs
        by (auto simp: btn_logged_def btn_step_defs lev_def [symmetric] h_def [symmetric] intro!: exI [of _ presses] exI [of _ hs])
    qed
  next
    case BTN_STATE_PRESS_UP
    then obtain hs where hs: "btn_world st = concat presses @ press_begun c hs" "spaced c 0 hs" using log by auto
    define pr1 where "pr1 = press_begun c hs @ [(BTN_PRESS_UP_EVENT, hold_time btn), (BTN_CLICK_EVENT, hold_time btn)]"
    have "list_all (press_complete c) (presses @ [pr1])" using pr hs(2) by (auto simp: press_complete_def pr1_def)
    moreover have "btn_world st @ [(BTN_PRESS_UP_EVENT, hold_time btn), (BTN_CLICK_EVENT, hold_time btn)] = concat (presses @ [pr1])"
      using hs(1) by (simp add: pr1_def)
    ultimately show ?thesis
      using BTN_STATE_PRESS_UP l btn cb
      by (auto simp: btn_logged_def btn_step_defs simp del: concat_append intro!: exI [of _ "presses @ [pr1]"])
  qed
qed

lemma btn_logged_passes:
  "btn_logged p c st \<Longrightarrow> \<exists>st'. btn_passes rec_cb n st = Some st' \<and> btn_logged p c st'"
proof (induction n arbitrary: st)
  case 0
  then show ?case by simp
next
  case (Suc n)
  obtain st1 where "btn_visit rec_cb p st = Some st1" "btn_logged p c st1" using btn_logged_visit [OF Suc.prems] by blast
  moreover have "btn_process_pass rec_cb st = Some st1"
    using single_pass [of st p rec_cb st1] calculation Suc.prems by (simp add: btn_logged_def)
  ultimately show ?case using Suc.IH by simp
qed

lemma btn_logged_log:
  assumes "btn_logged p c st"
  shows "press_log c (btn_world st)"
proof -
  from assms obtain presses where pr: "list_all (press_complete c) presses"
    and "btn_world st = concat presses \<or> (\<exists>hs. btn_world st = concat presses @ press_begun c hs \<and> spaced c 0 hs)"
    unfolding btn_logged_def by (metis (no_types, lifting))
  then obtain rest where "btn_world st = concat presses @ rest" "rest = [] \<or> (\<exists>hs. rest = press_begun c hs \<and> spaced c 0 hs)"
    by auto
  then show ?thesis using pr unfolding press_log_def by blast
qed

lemma btn_logged_start:
  assumes "agile_btn_list st0 = []" "btn_mem st0 p = Some btn" "event_cb btn = (\<lambda>_. Some 0)" "btn_world st0 = []"
    "agile_btn_start p st0 = Some (RT_EOK, st)"
  shows "btn_logged p (hold_cycle_time btn) st"
  using assms
  by (auto simp: btn_logged_def agile_btn_start_def btn_put_def btn_tick_get_def rt_slist_append_def split: if_splits
      intro!: exI [of _ "[] :: btn_log list"])

section \<open>Debouncing\<close>

text \<open>
  \<open>settled st pin lev m\<close>: every sample of the pin from the \<open>m\<close>-th on showed \<open>lev\<close>. The invariant
  of the debouncing names the clock reading \<open>i\<close> and the sample \<open>m\<close> at which the press was first
  seen, and the later reading \<open>j\<close> that ended the waiting.
\<close>

definition settled :: "'w btn_sys \<Rightarrow> int \<Rightarrow> int \<Rightarrow> nat \<Rightarrow> bool" where
  "settled st pin lev m \<longleftrightarrow> (\<forall>k. m \<le> k \<and> k < btn_samples st \<longrightarrow> btn_level st k pin = lev)"

definition press_seen :: "'w btn_sys \<Rightarrow> agile_btn \<Rightarrow> bool" where
  "press_seen st btn \<longleftrightarrow> (\<exists>i m. i < btn_reads st \<and> m < btn_samples st \<and> settled st (btn_pin btn) (btn_active_logic btn) m \<and>
     btn_tick_timeout btn = btn_clk st i + ucast (elimination_time btn))"

definition press_held :: "'w btn_sys \<Rightarrow> agile_btn \<Rightarrow> bool" where
  "press_held st btn \<longleftrightarrow> (\<exists>i j m. i < j \<and> j < btn_reads st \<and> m + 1 < btn_samples st \<and>
     settled st (btn_pin btn) (btn_active_logic btn) m \<and>
     tick_reached (btn_clk st j) (btn_clk st i + ucast (elimination_time btn)))"

definition btn_debouncing :: "nat \<Rightarrow> agile_btn \<Rightarrow> btn_log btn_sys \<Rightarrow> bool" where
  "btn_debouncing p btn0 st \<longleftrightarrow> agile_btn_list st = [p] \<and>
     (\<exists>btn. btn_mem st p = Some btn \<and> event_cb btn = (\<lambda>_. Some 0) \<and> btn_pin btn = btn_pin btn0 \<and>
        btn_active_logic btn = btn_active_logic btn0 \<and> elimination_time btn = elimination_time btn0 \<and>
        (btn_state btn = BTN_STATE_CHECK_PRESS \<longrightarrow> press_seen st btn) \<and>
        (btn_state btn = BTN_STATE_PRESS_DOWN \<longrightarrow> press_held st btn))"

lemma elimination_ticks: "rt_tick_from_millisecond (ucast (t :: u8)) = (ucast t :: u32)"
proof (rule rt_tick_from_millisecond_id)
  have "unat t < 256" using unsigned_less [of t] by simp
  then show "unat (ucast t :: u32) < 2 ^ 31" by (simp add: unsigned_ucast_eq take_bit_nat_eq_self)
qed

lemma settled_Suc:
  "settled st pin lev m \<Longrightarrow> btn_level st (btn_samples st) pin = lev \<Longrightarrow> btn_level st' = btn_level st \<Longrightarrow>
    btn_samples st' = Suc (btn_samples st) \<Longrightarrow> settled st' pin lev m"
  by (auto simp: settled_def less_Suc_eq)

lemma btn_debouncing_visit:
  assumes "btn_debouncing p btn0 st"
  shows "\<exists>st'. btn_visit rec_cb p st = Some st' \<and> btn_debouncing p btn0 st'"
proof -
  from assms obtain btn where l: "agile_btn_list st = [p]" and btn: "btn_mem st p = Some btn"
    and same: "event_cb btn = (\<lambda>_. Some 0)" "btn_pin btn = btn_pin btn0" "btn_active_logic btn = btn_active_logic btn0"
      "elimination_time btn = elimination_time btn0"
    and chk: "btn_state btn = BTN_STATE_CHECK_PRESS \<Longrightarrow> press_seen st btn"
    unfolding btn_debouncing_def by blast
  let ?lev = "btn_level st (btn_samples st) (btn_pin btn)" and ?now = "btn_clk st (btn_reads st)"
  let ?st1 = "st\<lparr>btn_samples := Suc (btn_samples st), btn_reads := Suc (btn_reads st)\<rparr>"
  show ?thesis
  proof (cases "btn_state btn")
    case BTN_STATE_NONE_PRESS
    show ?thesis
    proof (cases "?lev = btn_active_logic btn")
      case True
      let ?b = "btn\<lparr>btn_tick_timeout := ?now + ucast (elimination_time btn), btn_state := BTN_STATE_CHECK_PRESS\<rparr>"
      have "btn_visit rec_cb p st = Some (btn_put p ?b ?st1)"
        using True BTN_STATE_NONE_PRESS btn by (simp add: btn_step_defs elimination_ticks)
      moreover have "press_seen (btn_put p ?b ?st1) ?b"
        unfolding press_seen_def
        by (rule exI [of _ "btn_reads st"], rule exI [of _ "btn_samples st"])
          (use True in \<open>auto simp: btn_put_def settled_def less_Suc_eq\<close>)
      ultimately show ?thesis using l same by (auto simp: btn_debouncing_def btn_put_def)
    next
      case False
      then show ?thesis using BTN_STATE_NONE_PRESS l btn same by (auto simp: btn_debouncing_def btn_step_defs)
    qed
  next
    case BTN_STATE_CHECK_PRESS
    then obtain i m where im: "i < btn_reads st" "m < btn_samples st" "settled st (btn_pin btn) (btn_active_logic btn) m"
      "btn_tick_timeout btn = btn_clk st i + ucast (elimination_time btn)"
      using chk by (auto simp: press_seen_def)
    show ?thesis
    proof (cases "?lev = btn_active_logic btn")
      case False
      then show ?thesis using BTN_STATE_CHECK_PRESS l btn same by (simp add: btn_debouncing_def btn_step_defs)
    next
      case True
      let ?b = "btn\<lparr>btn_state := BTN_STATE_PRESS_DOWN\<rparr>"
      have set: "settled ?st1 (btn_pin btn) (btn_active_logic btn) m" by (rule settled_Suc [OF im(3) True]) simp_all
      have seen: "press_seen ?st1 btn" unfolding press_seen_def
        by (rule exI [of _ i], rule exI [of _ m]) (use im set in simp)
      show ?thesis
      proof (cases "tick_reached ?now (btn_tick_timeout btn)")
        case True
        have "btn_visit rec_cb p st = Some (btn_put p ?b ?st1)"
          using True \<open>?lev = _\<close> BTN_STATE_CHECK_PRESS btn by (simp add: btn_step_defs)
        moreover have "press_held (btn_put p ?b ?st1) ?b"
          unfolding press_held_def
          by (rule exI [of _ i], rule exI [of _ "btn_reads st"], rule exI [of _ m])
            (use im True set in \<open>simp add: btn_put_def settled_def\<close>)
        ultimately show ?thesis using l same by (auto simp: btn_debouncing_def btn_put_def)
      next
        case False
        then have "btn_visit rec_cb p st = Some ?st1"
          using \<open>?lev = _\<close> BTN_STATE_CHECK_PRESS btn by (simp add: btn_step_defs)
        then show ?thesis using l btn same seen BTN_STATE_CHECK_PRESS by (auto simp: btn_debouncing_def)
      qed
    qed
  qed (use l btn same in \<open>auto simp: btn_debouncing_def btn_step_defs\<close>)
qed

lemma btn_debouncing_passes:
  "btn_debouncing p btn0 st \<Longrightarrow> \<exists>st'. btn_passes rec_cb n st = Some st' \<and> btn_debouncing p btn0 st'"
proof (induction n arbitrary: st)
  case 0
  then show ?case by simp
next
  case (Suc n)
  obtain st1 where "btn_visit rec_cb p st = Some st1" "btn_debouncing p btn0 st1" using btn_debouncing_visit [OF Suc.prems] by blast
  moreover have "btn_process_pass rec_cb st = Some st1"
    using single_pass [of st p rec_cb st1] calculation Suc.prems by (simp add: btn_debouncing_def)
  ultimately show ?case using Suc.IH by simp
qed

section \<open>Properties\<close>


definition demo_btn_sys :: "btn_log btn_sys" where
  "demo_btn_sys = \<lparr>btn_mem = (\<lambda>_. None), agile_btn_list = [], btn_is_initialized = False,
     btn_clk = (\<lambda>k. word_of_nat (5 * k)), btn_reads = 0, btn_level = (\<lambda>k pin. if 3 \<le> k \<and> k < 20 then 1 else 0),
     btn_samples = 0, btn_world = []\<rparr>"


text \<open>
  (C35) The events of a button come as whole presses: whatever the pin and the clock do, the
  callbacks of a started button see a sequence of presses, each of them one press event with
  hold time zero, hold events at least one cycle apart, one release event, and one click event
  that sees the same hold time as the release; only the last press may be incomplete.
\<close>

theorem btn_event_protocol:
  assumes "agile_btn_list st0 = []" "btn_mem st0 p = Some btn" "event_cb btn = (\<lambda>_. Some 0)" "btn_world st0 = []"
    "agile_btn_start p st0 = Some (RT_EOK, st)"
  shows "\<exists>st'. btn_passes rec_cb n st = Some st' \<and> press_log (hold_cycle_time btn) (btn_world st')"
proof -
  let ?c = "hold_cycle_time btn"
  obtain st' where run: "btn_passes rec_cb n st = Some st'" and "btn_logged p ?c st'"
    using btn_logged_passes [OF btn_logged_start [OF assms]] by blast
  then show ?thesis using btn_logged_log by blast
qed

definition demo_btn :: agile_btn where
  "demo_btn = \<lparr>btn_active = False, repeat_cnt = 0, elimination_time = 15, btn_event = BTN_EVENT_SUM,
     btn_state = BTN_STATE_NONE_PRESS, hold_time = 0, prev_hold_time = 0, hold_cycle_time = 1000, btn_pin = 36,
     btn_active_logic = 1, btn_tick_timeout = 0, event_cb = (\<lambda>_. Some 0)\<rparr>"

definition demo_btn_ready :: "btn_log btn_sys" where
  "demo_btn_ready = demo_btn_sys\<lparr>btn_mem := (\<lambda>p. if p = 1 then Some demo_btn else None)\<rparr>"

lemma demo_btn_start:
  "agile_btn_list demo_btn_ready = []" "btn_mem demo_btn_ready 1 = Some demo_btn" "event_cb demo_btn = (\<lambda>_. Some 0)"
  "btn_world demo_btn_ready = []"
  "agile_btn_start 1 demo_btn_ready = Some (RT_EOK, the (map_option snd (agile_btn_start 1 demo_btn_ready)))"
  by (simp_all add: demo_btn_ready_def demo_btn_sys_def demo_btn_def agile_btn_start_def btn_tick_get_def)

theorem btn_event_protocol_witness:
  "\<exists>st st'. agile_btn_start 1 demo_btn_ready = Some (RT_EOK, st) \<and> btn_passes rec_cb 12 st = Some st' \<and>
    press_log 1000 (btn_world st')"
  using btn_event_protocol [OF demo_btn_start, of 12] demo_btn_start(5) by (auto simp: demo_btn_def)

text \<open>
  Debouncing: when the state machine of a started button is about to report a press, the
  pin has shown the active level in every sample since the press was first seen, at two samples
  at least, and the clock has run for at least the elimination time in between (in the
  tick arithmetic of the kernel).
\<close>

theorem btn_press_debounced:
  assumes "agile_btn_list st0 = []" "btn_mem st0 p = Some btn0" "event_cb btn0 = (\<lambda>_. Some 0)"
    "agile_btn_start p st0 = Some (RT_EOK, st)"
    "btn_passes rec_cb n st = Some st'" "btn_mem st' p = Some btn'" "btn_state btn' = BTN_STATE_PRESS_DOWN"
  shows "\<exists>i j m. i < j \<and> j < btn_reads st' \<and> m + 1 < btn_samples st' \<and>
    (\<forall>k. m \<le> k \<and> k < btn_samples st' \<longrightarrow> btn_level st' k (btn_pin btn0) = btn_active_logic btn0) \<and>
    tick_reached (btn_clk st' j) (btn_clk st' i + ucast (elimination_time btn0))"
proof -
  have "btn_debouncing p btn0 st"
    using assms(1-4)
    by (auto simp: btn_debouncing_def agile_btn_start_def btn_put_def btn_tick_get_def rt_slist_append_def split: if_splits)
  then have "btn_debouncing p btn0 st'" using btn_debouncing_passes [of p btn0 st n] assms(5) by simp
  then have "press_held st' btn'" "btn_pin btn' = btn_pin btn0" "btn_active_logic btn' = btn_active_logic btn0"
      "elimination_time btn' = elimination_time btn0"
    using assms(6,7) by (auto simp: btn_debouncing_def)
  then show ?thesis unfolding press_held_def settled_def by simp
qed

lemma demo_btn_pressed:
  "map_option (\<lambda>st. map_option btn_state (btn_mem st 1))
     (btn_passes rec_cb 7 (the (map_option snd (agile_btn_start 1 demo_btn_ready)))) = Some (Some BTN_STATE_PRESS_DOWN)"
  by code_simp

theorem btn_press_debounced_witness:
  "\<exists>st st' btn'. agile_btn_start 1 demo_btn_ready = Some (RT_EOK, st) \<and> btn_passes rec_cb 7 st = Some st' \<and>
    btn_mem st' 1 = Some btn' \<and> btn_state btn' = BTN_STATE_PRESS_DOWN \<and>
    (\<exists>i j m. i < j \<and> j < btn_reads st' \<and> m + 1 < btn_samples st' \<and>
      (\<forall>k. m \<le> k \<and> k < btn_samples st' \<longrightarrow> btn_level st' k (btn_pin demo_btn) = btn_active_logic demo_btn) \<and>
      tick_reached (btn_clk st' j) (btn_clk st' i + ucast (elimination_time demo_btn)))"
proof -
  let ?st = "the (map_option snd (agile_btn_start 1 demo_btn_ready))"
  note s = demo_btn_start(5)
  obtain st' btn' where r: "btn_passes rec_cb 7 ?st = Some st'" "btn_mem st' 1 = Some btn'" "btn_state btn' = BTN_STATE_PRESS_DOWN"
    using demo_btn_pressed by (auto simp del: One_nat_def)
  show ?thesis using btn_press_debounced [OF demo_btn_start(1-3) s r] s r by blast
qed

text \<open>
  The measured hold time is exact until the tick counter wraps around during the press,
  and one millisecond short from then on: for a press that began at tick \<open>s\<close>, after \<open>d\<close> ticks,
  with the two readings of the clock in the same tick.
\<close>

theorem btn_hold_time_exact:
  "btn_hold_value s (s + d) (s + d) = (if unat s + unat d < 2 ^ 32 then d else d - 1)"
proof -
  have one: "1000 div RT_TICK_PER_SECOND = 1" by (simp add: RT_TICK_PER_SECOND_def)
  have neg: "RT_TICK_MAX - s + (s + d) = d - 1" by (simp add: RT_TICK_MAX_def)
  have ud: "unat d < 2 ^ 32" "unat s < 2 ^ 32" using unsigned_less [of d] unsigned_less [of s] by simp_all
  show ?thesis
  proof (cases "unat s + unat d < 2 ^ 32")
    case True
    then have "unat (s + d) = unat s + unat d" by (simp add: unat_word_ariths)
    then show ?thesis using True one by (simp add: btn_hold_value_def word_less_nat_alt)
  next
    case False
    then have "unat (s + d) = unat s + unat d - 2 ^ 32"
      using ud by (simp add: unat_word_ariths mod_if)
    then have "s + d < s" using False ud by (simp add: word_less_nat_alt)
    then show ?thesis using False one neg by (simp add: btn_hold_value_def)
  qed
qed

end
