(* ===== verification/App.thy ===== *)
theory App
  imports Zmq Agile_Led Agile_Button
begin

text \<open>
  The application's own threads around the message bus: \<open>applications/dcu.c\<close> (the reset
  coordinator), \<open>applications/led.c\<close> (the signal lights), \<open>applications/key.c\<close> (the button),
  the reset page of \<open>func/wn_cgi.c\<close>, and the bus set-up of \<open>applications/main.c\<close>.

  \<open>app_trace\<close> records the calls that leave the program (delays, the reset of the processor, the
  wireless configuration, the answers of the web server) in order. The local variables of the
  two message threads are part of the state. One iteration of a thread's endless loop is a step.
\<close>

section \<open>State\<close>

datatype app_event =
  APP_DELAY nat | APP_CPU_RESET | APP_SMARTCONFIG | APP_AUTORECONNECT bool | APP_HTTP nat string

record app =
  app_bus :: zmq_bus
  app_leds :: led_sys
  led_r :: "nat option"
  led_g :: "nat option"
  led_b :: "nat option"
  led_msg_buf :: ipc_msg
  reset_lock :: u8
  dcu_msg_buf :: ipc_msg
  app_trace :: "app_event list"

definition app_emit :: "app_event \<Rightarrow> app \<Rightarrow> app" where
  "app_emit e a = a\<lparr>app_trace := app_trace a @ [e]\<rparr>"

definition PIN_LED_R :: int where "PIN_LED_R = 30"
definition PIN_LED_G :: int where "PIN_LED_G = 31"
definition PIN_LED_B :: int where "PIN_LED_B = 32"
definition PIN_WK_UP :: int where "PIN_WK_UP = 36"

section \<open>Bus set-up\<close>

text \<open>
  \<open>dcu_zmq_init\<close> works inside assertions, which this configuration compiles in; \<open>ms\<close> are the
  outcomes of the allocations of the four nodes.
\<close>

definition dcu_zmq_init :: "bool \<times> bool \<times> bool \<times> bool \<Rightarrow> zmq_pools \<Rightarrow> zmq_bus \<Rightarrow> zmq_bus option" where
  "dcu_zmq_init ms pools st =
     (case ms of (m1, m2, m3, m4) \<Rightarrow>
      let (rc, st) = zmq_bind m1 ZMQ_OPT_KEY st in
      if rc \<noteq> RT_EOK then None else
      let (rc, st) = zmq_bind m2 ZMQ_OPT_LED st in
      if rc \<noteq> RT_EOK then None else
      let (rc, st) = zmq_bind m3 ZMQ_OPT_DCU st in
      if rc \<noteq> RT_EOK then None else
      let (rc, st) = zmq_bind m4 ZMQ_OPT_WEB st in
      if rc \<noteq> RT_EOK then None else
      let (rc, st) = zmq_create pools st in
      if rc \<noteq> RT_EOK then None else Some st)"

section \<open>Lights\<close>

text \<open>The LED operations on a pointer that may be null, which their assertions reject.\<close>

definition on_led :: "nat option \<Rightarrow> (nat \<Rightarrow> led_sys \<Rightarrow> led_sys option) \<Rightarrow> app \<Rightarrow> app option" where
  "on_led ptr f a = do { p \<leftarrow> ptr; l \<leftarrow> f p (app_leds a); Some (a\<lparr>app_leds := l\<rparr>) }"

definition led_stop_ptr :: "nat \<Rightarrow> led_sys \<Rightarrow> led_sys option" where
  "led_stop_ptr p l = map_option snd (agile_led_stop p l)"

primrec led_toggle_loop :: "nat \<Rightarrow> app \<Rightarrow> app option" where
  "led_toggle_loop 0 a = Some a"
| "led_toggle_loop (Suc count) a =
     do { a \<leftarrow> on_led (led_r a) agile_led_toggle a; led_toggle_loop count (app_emit (APP_DELAY 250) a) }"

definition sys_led_reset :: "app \<Rightarrow> app option" where
  "sys_led_reset a =
     do { a \<leftarrow> on_led (led_r a) led_stop_ptr a;
          a \<leftarrow> on_led (led_g a) led_stop_ptr a;
          a \<leftarrow> on_led (led_b a) led_stop_ptr a;
          a \<leftarrow> on_led (led_r a) agile_led_off a;
          a \<leftarrow> on_led (led_g a) agile_led_off a;
          a \<leftarrow> on_led (led_b a) agile_led_off a;
          led_toggle_loop 6 (app_emit (APP_DELAY 100) a) }"

definition led_msg_step :: "nat \<Rightarrow> app \<Rightarrow> app option" where
  "led_msg_step self a =
     do { (r, msg, bus) \<leftarrow> zmq_subscribe ZMQ_OPT_LED self (- 1) (led_msg_buf a) (app_bus a);
          let a = a\<lparr>app_bus := bus, led_msg_buf := msg\<rparr>;
          case r of
            MQ_MSG _ \<Rightarrow>
              do { a \<leftarrow> (case msg_type msg of
                     MSG_TYPE_RESET \<Rightarrow>
                       if reset_lock a = 0 then do { a \<leftarrow> sys_led_reset a; Some (a\<lparr>reset_lock := 1\<rparr>) } else Some a
                   | _ \<Rightarrow> Some a);
                   bus \<leftarrow> zmq_free (msg_data msg) (app_bus a);
                   Some (a\<lparr>app_bus := bus, led_msg_buf := msg\<lparr>msg_data := None\<rparr>\<rparr>) }
          | _ \<Rightarrow> Some a }"

definition led_control :: "nat option \<Rightarrow> zmq_opt \<Rightarrow> ipc_msg_type \<Rightarrow> nat option \<Rightarrow> u16 \<Rightarrow> app \<Rightarrow> app option" where
  "led_control m src type payload payload_len a =
     do { (rc, bus) \<leftarrow> zmq_publish m (zmq_load_msg src type payload payload_len IPC_MSG_INITIALIZER) ZMQ_OPT_LED (app_bus a);
          Some (a\<lparr>app_bus := bus\<rparr>) }"

text \<open>\<open>m1\<close> to \<open>m3\<close> are the addresses for the three objects, \<open>m\<close> whether the array gets memory.\<close>

definition LED_RUN_LIGHT_MODE :: "u8 list" where
  "LED_RUN_LIGHT_MODE = [49, 48, 48, 48, 44, 49, 48, 48, 48, 0]"

definition led_create :: "nat option \<Rightarrow> nat option \<Rightarrow> bool \<Rightarrow> nat option \<Rightarrow> bool \<Rightarrow> app \<Rightarrow> (int \<times> app) option" where
  "led_create m1 m2 m m3 thread_ok a =
     do { (r, l) \<leftarrow> agile_led_create m1 True PIN_LED_R PIN_LOW None 0 (app_leds a);
          (g, l) \<leftarrow> agile_led_create m2 m PIN_LED_G PIN_LOW (Some LED_RUN_LIGHT_MODE) (- 1) l;
          (b, l) \<leftarrow> agile_led_create m3 True PIN_LED_B PIN_LOW None 0 l;
          p \<leftarrow> g;
          (rc, l) \<leftarrow> agile_led_start p l;
          if \<not> thread_ok then None
          else Some (RT_EOK, a\<lparr>app_leds := l, led_r := r, led_g := g, led_b := b,
                 led_msg_buf := IPC_MSG_INITIALIZER, reset_lock := 0\<rparr>) }"

section \<open>Coordinator\<close>

definition dcu_msg_step :: "nat \<Rightarrow> app \<Rightarrow> app option" where
  "dcu_msg_step self a =
     do { (r, msg, bus) \<leftarrow> zmq_subscribe ZMQ_OPT_DCU self (- 1) (dcu_msg_buf a) (app_bus a);
          let a = a\<lparr>app_bus := bus, dcu_msg_buf := msg\<rparr>;
          case r of
            MQ_MSG _ \<Rightarrow>
              do { a \<leftarrow> (case msg_type msg of
                     MSG_TYPE_RESET \<Rightarrow>
                       do { a \<leftarrow> led_control None ZMQ_OPT_DCU MSG_TYPE_RESET None 0 a;
                            Some (app_emit APP_CPU_RESET (app_emit (APP_DELAY 2000) a)) }
                   | _ \<Rightarrow> Some a);
                   bus \<leftarrow> zmq_free (msg_data msg) (app_bus a);
                   Some (a\<lparr>app_bus := bus, dcu_msg_buf := msg\<lparr>msg_data := None\<rparr>\<rparr>) }
          | _ \<Rightarrow> Some a }"

section \<open>Button\<close>

definition RESET_TIME :: u32 where "RESET_TIME = 2000"

definition btn_click_event_cb :: "agile_btn \<Rightarrow> app \<Rightarrow> app option" where
  "btn_click_event_cb btn a =
     (if hold_time btn \<ge> RESET_TIME then
        do { (rc, bus) \<leftarrow> zmq_publish None (zmq_load_msg ZMQ_OPT_KEY MSG_TYPE_RESET None 0 IPC_MSG_INITIALIZER) ZMQ_OPT_DCU (app_bus a);
             Some (a\<lparr>app_bus := bus\<rparr>) }
      else if hold_time btn > 100 then
        Some (app_emit (APP_AUTORECONNECT False) (app_emit APP_SMARTCONFIG a))
      else Some a)"

text \<open>The number 1 names \<open>btn_click_event_cb\<close> in the button package.\<close>

definition app_btn_cb :: "app btn_cb" where
  "app_btn_cb c p st =
     (if c = 1 then do { btn \<leftarrow> btn_mem st p; a \<leftarrow> btn_click_event_cb btn (btn_world st); Some (st\<lparr>btn_world := a\<rparr>) }
      else None)"

definition key_create :: "nat option \<Rightarrow> app btn_sys \<Rightarrow> (int \<times> app btn_sys) option" where
  "key_create m st =
     do { let (b, st) = agile_btn_create m PIN_WK_UP PIN_HIGH st;
          p \<leftarrow> b;
          (rc, st) \<leftarrow> agile_btn_start p st;
          (rc, st) \<leftarrow> agile_btn_set_event_cb p BTN_CLICK_EVENT (Some 1) st;
          Some (RT_EOK, st) }"

section \<open>Web page\<close>

definition cgi_sysreset_handler :: "app \<Rightarrow> app option" where
  "cgi_sysreset_handler a =
     do { let a = app_emit (APP_HTTP 200 ''{\"code\":0}'') a;
          (rc, bus) \<leftarrow> zmq_publish None (zmq_load_msg ZMQ_OPT_WEB MSG_TYPE_RESET None 0 IPC_MSG_INITIALIZER) ZMQ_OPT_DCU (app_bus a);
          Some (a\<lparr>app_bus := bus\<rparr>) }"

section \<open>The reset sequence of the lights\<close>

lemma led_stop_ptr_spec:
  assumes "led_mem l p = Some led"
  shows "\<exists>l'. led_stop_ptr p l = Some l' \<and> led_dev l' = led_dev l \<and> led_mem l' = (led_mem l)(p := Some (led\<lparr>led_active := False\<rparr>))"
proof (cases "led_active led")
  case True
  then show ?thesis using assms by (simp add: led_stop_ptr_def agile_led_stop_def led_put_def)
next
  case False
  then have "led\<lparr>led_active := False\<rparr> = led" by (cases led) simp
  then show ?thesis using assms False by (auto simp: led_stop_ptr_def agile_led_stop_def)
qed

text \<open>The three LEDs of the application: their objects exist and use different pins.\<close>

definition lights_ok :: "app \<Rightarrow> nat \<Rightarrow> nat \<Rightarrow> nat \<Rightarrow> agile_led \<Rightarrow> agile_led \<Rightarrow> agile_led \<Rightarrow> bool" where
  "lights_ok a r g b lr lg lb \<longleftrightarrow> led_r a = Some r \<and> led_g a = Some g \<and> led_b a = Some b \<and> distinct [r, g, b] \<and>
     led_mem (app_leds a) r = Some lr \<and> led_mem (app_leds a) g = Some lg \<and> led_mem (app_leds a) b = Some lb \<and>
     distinct [led_pin lr, led_pin lg, led_pin lb]"

text \<open>The writes of \<open>n\<close> toggles of a pin that shows \<open>lev\<close>.\<close>

primrec toggles :: "int \<Rightarrow> int \<Rightarrow> nat \<Rightarrow> (int \<times> int) list" where
  "toggles pin lev 0 = []"
| "toggles pin lev (Suc n) = (pin, c_not lev) # toggles pin (c_not lev) n"

lemma toggle_loop_spec:
  assumes "led_r a = Some r" "led_mem (app_leds a) r = Some led"
  shows "\<exists>d. led_toggle_loop n a = Some (a\<lparr>app_leds := (app_leds a)\<lparr>led_dev := d\<rparr>,
      app_trace := app_trace a @ replicate n (APP_DELAY 250)\<rparr>) \<and>
    pin_log d = pin_log (led_dev (app_leds a)) @ toggles (led_pin led) (pin_level (led_dev (app_leds a)) (led_pin led)) n"
  using assms
proof (induction n arbitrary: a)
  case 0
  show ?case by (intro exI [of _ "led_dev (app_leds a)"]) simp
next
  case (Suc n)
  let ?a = "app_emit (APP_DELAY 250) (a\<lparr>app_leds := (app_leds a)\<lparr>led_dev := led_pin_toggle led (led_dev (app_leds a))\<rparr>\<rparr>)"
  have "led_toggle_loop (Suc n) a = led_toggle_loop n ?a"
    using Suc.prems by (simp add: on_led_def agile_led_toggle_def)
  then show ?case
    using Suc.IH [of ?a] Suc.prems by (simp add: app_emit_def led_pin_toggle_def rt_pin_write_def rt_pin_read_def)
qed

lemma sys_led_reset_spec:
  assumes ok: "lights_ok a r g b lr lg lb"
  shows "\<exists>a'. sys_led_reset a = Some a' \<and> app_bus a' = app_bus a \<and> led_msg_buf a' = led_msg_buf a \<and>
    reset_lock a' = reset_lock a \<and> dcu_msg_buf a' = dcu_msg_buf a \<and>
    lights_ok a' r g b (lr\<lparr>led_active := False\<rparr>) (lg\<lparr>led_active := False\<rparr>) (lb\<lparr>led_active := False\<rparr>) \<and>
    app_trace a' = app_trace a @ APP_DELAY 100 # replicate 6 (APP_DELAY 250) \<and>
    pin_log (led_dev (app_leds a')) = pin_log (led_dev (app_leds a)) @
      [(led_pin lr, c_not (led_active_logic lr)), (led_pin lg, c_not (led_active_logic lg)), (led_pin lb, c_not (led_active_logic lb))] @
      toggles (led_pin lr) (c_not (led_active_logic lr)) 6"
proof -
  let ?l = "app_leds a"
  have m: "led_r a = Some r" "led_g a = Some g" "led_b a = Some b" "r \<noteq> g" "r \<noteq> b" "g \<noteq> b"
    "led_mem ?l r = Some lr" "led_mem ?l g = Some lg" "led_mem ?l b = Some lb" "led_pin lr \<noteq> led_pin lg"
    "led_pin lr \<noteq> led_pin lb" "led_pin lg \<noteq> led_pin lb"
    using ok by (simp_all add: lights_ok_def)
  obtain l1 where l1: "led_stop_ptr r ?l = Some l1" "led_dev l1 = led_dev ?l" "led_mem l1 = (led_mem ?l)(r := Some (lr\<lparr>led_active := False\<rparr>))"
    using led_stop_ptr_spec [OF m(7)] by blast
  obtain l2 where l2: "led_stop_ptr g l1 = Some l2" "led_dev l2 = led_dev l1" "led_mem l2 = (led_mem l1)(g := Some (lg\<lparr>led_active := False\<rparr>))"
    using led_stop_ptr_spec [of l1 g lg] l1(3) m by auto
  obtain l3 where l3: "led_stop_ptr b l2 = Some l3" "led_dev l3 = led_dev l2" "led_mem l3 = (led_mem l2)(b := Some (lb\<lparr>led_active := False\<rparr>))"
    using led_stop_ptr_spec [of l2 b lb] l1(3) l2(3) m by auto
  have mem: "led_mem l3 r = Some (lr\<lparr>led_active := False\<rparr>)" "led_mem l3 g = Some (lg\<lparr>led_active := False\<rparr>)"
    "led_mem l3 b = Some (lb\<lparr>led_active := False\<rparr>)" "led_dev l3 = led_dev ?l"
    using l1 l2 l3 m by simp_all
  define d where "d = led_pin_off lb (led_pin_off lg (led_pin_off lr (led_dev ?l)))"
  define a4 where "a4 = app_emit (APP_DELAY 100) (a\<lparr>app_leds := l3\<lparr>led_dev := d\<rparr>\<rparr>)"
  have run: "sys_led_reset a = led_toggle_loop 6 a4"
    using m l1(1) l2(1) l3(1) mem
    by (simp add: sys_led_reset_def on_led_def agile_led_off_def a4_def d_def led_pin_off_def)
  have "led_r a4 = Some r" "led_mem (app_leds a4) r = Some (lr\<lparr>led_active := False\<rparr>)"
    using m mem by (simp_all add: a4_def app_emit_def)
  then obtain d' where d': "led_toggle_loop 6 a4 = Some (a4\<lparr>app_leds := (app_leds a4)\<lparr>led_dev := d'\<rparr>,
      app_trace := app_trace a4 @ replicate 6 (APP_DELAY 250)\<rparr>)"
    "pin_log d' = pin_log (led_dev (app_leds a4)) @ toggles (led_pin lr) (pin_level (led_dev (app_leds a4)) (led_pin lr)) 6"
    using toggle_loop_spec [of a4 r "lr\<lparr>led_active := False\<rparr>" 6] by auto
  have "pin_level d (led_pin lr) = c_not (led_active_logic lr)"
    using m by (simp add: d_def led_pin_off_def rt_pin_write_def)
  then show ?thesis
    using run d' m mem
    by (simp add: a4_def app_emit_def lights_ok_def) (simp add: d_def led_pin_off_def rt_pin_write_def)
qed

section \<open>Messages between the threads\<close>

definition reset_msg :: "zmq_opt \<Rightarrow> ipc_msg" where
  "reset_msg src = \<lparr>msg_src = src, msg_type = MSG_TYPE_RESET, msg_len = 0, msg_data = None\<rparr>"

text \<open>The bus is in order and the two receiving threads have their queues.\<close>

definition bus_ok :: "zmq_bus \<Rightarrow> bool" where
  "bus_ok st \<longleftrightarrow> zmq_ok st \<and> zmq_find st ZMQ_OPT_DCU \<noteq> None \<and> zmq_find st ZMQ_OPT_LED \<noteq> None"

lemma load_reset: "zmq_load_msg src MSG_TYPE_RESET None 0 IPC_MSG_INITIALIZER = reset_msg src"
  by (simp add: zmq_load_msg_def IPC_MSG_INITIALIZER_def reset_msg_def)

lemma reset_msg_fields:
  "msg_type (reset_msg src) = MSG_TYPE_RESET" "msg_data (reset_msg src) = None" "(reset_msg src)\<lparr>msg_data := None\<rparr> = reset_msg src"
  by (simp_all add: reset_msg_def)

lemma publish_reset:
  assumes "bus_ok st" "dest = ZMQ_OPT_DCU \<or> dest = ZMQ_OPT_LED" "length (zmq_pending st dest) < 10"
  shows "\<exists>st'. zmq_publish m (reset_msg src) dest st = Some (RT_EOK, st') \<and> bus_ok st' \<and> zmq_heap st' = zmq_heap st \<and>
    (\<forall>opt. zmq_pending st' opt = zmq_pending st opt @ (if opt = dest then [reset_msg src] else []))"
proof -
  obtain q where q: "zmq_find st dest = Some q" using assms(1,2) by (auto simp: bus_ok_def)
  have c: "zmq_copy_payload m (reset_msg src) st = Some (Some (None, st))" by (rule zmq_copy_none) (simp add: reset_msg_def)
  have e: "(reset_msg src)\<lparr>msg_data := None\<rparr> = reset_msg src" by (simp add: reset_msg_def)
  have ok: "zmq_ok st" using assms(1) by (simp add: bus_ok_def)
  obtain st' where "zmq_publish m (reset_msg src) dest st = Some (RT_EOK, st')" "zmq_ok st'" "zmq_heap st' = zmq_heap st"
    "\<forall>opt. zmq_find st' opt = None \<longleftrightarrow> zmq_find st opt = None"
    "\<forall>opt. zmq_pending st' opt = zmq_pending st opt @ (if opt = dest then [reset_msg src] else [])"
    using zmq_publish_room [OF ok q assms(3) c refl] unfolding e by blast
  then show ?thesis using assms(1) unfolding bus_ok_def by (intro exI [of _ st']) simp
qed

lemma subscribe_next:
  assumes "bus_ok st" "zmq_pending st opt = m # ms"
  shows "\<exists>st'. zmq_subscribe opt self timeout m0 st = Some (MQ_MSG (ipc_cells m), m, st') \<and> bus_ok st' \<and>
    (\<forall>opt'. zmq_pending st' opt' = (if opt' = opt then ms else zmq_pending st opt'))"
proof -
  have ok: "zmq_ok st" using assms(1) by (simp add: bus_ok_def)
  obtain st' where "zmq_subscribe opt self timeout m0 st = Some (MQ_MSG (ipc_cells m), m, st')" "zmq_ok st'"
    "\<forall>opt'. zmq_find st' opt' = None \<longleftrightarrow> zmq_find st opt' = None"
    "\<forall>opt'. zmq_pending st' opt' = (if opt' = opt then ms else zmq_pending st opt')"
    using zmq_subscribe_first [OF ok assms(2)] by blast
  then show ?thesis using assms(1) unfolding bus_ok_def by (intro exI [of _ st']) simp
qed

lemma dcu_step_reset:
  assumes ok: "bus_ok (app_bus a)" and p: "zmq_pending (app_bus a) ZMQ_OPT_DCU = reset_msg src # ms"
    and room: "length (zmq_pending (app_bus a) ZMQ_OPT_LED) < 10"
  shows "\<exists>bus. dcu_msg_step self a = Some (a\<lparr>app_bus := bus, dcu_msg_buf := reset_msg src,
      app_trace := app_trace a @ [APP_DELAY 2000, APP_CPU_RESET]\<rparr>) \<and> bus_ok bus \<and>
    zmq_pending bus ZMQ_OPT_DCU = ms \<and> zmq_pending bus ZMQ_OPT_LED = zmq_pending (app_bus a) ZMQ_OPT_LED @ [reset_msg ZMQ_OPT_DCU]"
proof -
  obtain b1 where b1: "zmq_subscribe ZMQ_OPT_DCU self (- 1) (dcu_msg_buf a) (app_bus a) =
      Some (MQ_MSG (ipc_cells (reset_msg src)), reset_msg src, b1)" "bus_ok b1"
    "\<forall>opt. zmq_pending b1 opt = (if opt = ZMQ_OPT_DCU then ms else zmq_pending (app_bus a) opt)"
    using subscribe_next [OF ok p] by blast
  obtain b2 where b2: "zmq_publish None (reset_msg ZMQ_OPT_DCU) ZMQ_OPT_LED b1 = Some (RT_EOK, b2)" "bus_ok b2"
    "\<forall>opt. zmq_pending b2 opt = zmq_pending b1 opt @ (if opt = ZMQ_OPT_LED then [reset_msg ZMQ_OPT_DCU] else [])"
    using publish_reset [OF b1(2), of ZMQ_OPT_LED None ZMQ_OPT_DCU] b1(3) room by auto
  have lc: "led_control None ZMQ_OPT_DCU MSG_TYPE_RESET None 0 x = Some (x\<lparr>app_bus := b2\<rparr>)" if "app_bus x = b1" for x
    using b2(1) that by (simp add: led_control_def load_reset)
  have "dcu_msg_step self a = Some (a\<lparr>app_bus := b2, dcu_msg_buf := reset_msg src,
      app_trace := app_trace a @ [APP_DELAY 2000, APP_CPU_RESET]\<rparr>)"
    using b1(1) reset_msg_fields [of src] by (simp add: dcu_msg_step_def lc zmq_free_def app_emit_def)
  then show ?thesis using b1(3) b2(2,3) by auto
qed

lemma led_step_reset:
  assumes ok: "bus_ok (app_bus a)" and p: "zmq_pending (app_bus a) ZMQ_OPT_LED = reset_msg src # ms"
    and lights: "lights_ok a r g b lr lg lb" and lock: "reset_lock a = 0"
  shows "\<exists>a'. led_msg_step self a = Some a' \<and> bus_ok (app_bus a') \<and> zmq_pending (app_bus a') ZMQ_OPT_LED = ms \<and>
    reset_lock a' = 1 \<and> app_trace a' = app_trace a @ APP_DELAY 100 # replicate 6 (APP_DELAY 250) \<and>
    lights_ok a' r g b (lr\<lparr>led_active := False\<rparr>) (lg\<lparr>led_active := False\<rparr>) (lb\<lparr>led_active := False\<rparr>) \<and>
    pin_log (led_dev (app_leds a')) = pin_log (led_dev (app_leds a)) @
      [(led_pin lr, c_not (led_active_logic lr)), (led_pin lg, c_not (led_active_logic lg)), (led_pin lb, c_not (led_active_logic lb))] @
      toggles (led_pin lr) (c_not (led_active_logic lr)) 6"
proof -
  obtain b1 where b1: "zmq_subscribe ZMQ_OPT_LED self (- 1) (led_msg_buf a) (app_bus a) =
      Some (MQ_MSG (ipc_cells (reset_msg src)), reset_msg src, b1)" "bus_ok b1" "zmq_pending b1 ZMQ_OPT_LED = ms"
    using subscribe_next [OF ok p] by fastforce
  define a1 where "a1 = a\<lparr>app_bus := b1, led_msg_buf := reset_msg src\<rparr>"
  have l1: "lights_ok a1 r g b lr lg lb" using lights by (simp add: a1_def lights_ok_def)
  obtain a2 where a2: "sys_led_reset a1 = Some a2" "app_bus a2 = app_bus a1" "reset_lock a2 = reset_lock a1"
    "lights_ok a2 r g b (lr\<lparr>led_active := False\<rparr>) (lg\<lparr>led_active := False\<rparr>) (lb\<lparr>led_active := False\<rparr>)"
    "app_trace a2 = app_trace a1 @ APP_DELAY 100 # replicate 6 (APP_DELAY 250)"
    "pin_log (led_dev (app_leds a2)) = pin_log (led_dev (app_leds a1)) @
      [(led_pin lr, c_not (led_active_logic lr)), (led_pin lg, c_not (led_active_logic lg)), (led_pin lb, c_not (led_active_logic lb))] @
      toggles (led_pin lr) (c_not (led_active_logic lr)) 6"
    using sys_led_reset_spec [OF l1] by blast
  have "led_msg_step self a = Some (a2\<lparr>reset_lock := 1, app_bus := b1, led_msg_buf := reset_msg src\<rparr>)"
    using b1(1) a2(1,2) lock reset_msg_fields [of src] by (simp add: led_msg_step_def zmq_free_def flip: a1_def) (simp add: a1_def)
  then show ?thesis
    using b1 a2 by (simp add: a1_def lights_ok_def)
qed

section \<open>The button of the application\<close>

text \<open>A started button with the callback of \<open>key_create\<close>, held down, whose press began at \<open>t0\<close>.\<close>

definition key_held :: "nat \<Rightarrow> agile_btn \<Rightarrow> 'w btn_sys \<Rightarrow> bool" where
  "key_held p btn st \<longleftrightarrow> agile_btn_list st = [p] \<and> btn_mem st p = Some btn \<and>
     event_cb btn = (\<lambda>_. None)(BTN_CLICK_EVENT := Some 1)"

lemma no_event_cb:
  "btn_mem st p = Some btn \<Longrightarrow> event_cb btn (btn_event btn) = None \<Longrightarrow> AGILE_BUTTON_EVENT_CB cb p st = Some st"
  by (simp add: AGILE_BUTTON_EVENT_CB_def)

lemma key_hold_visit:
  assumes k: "key_held p btn st" and s: "btn_state btn = BTN_STATE_PRESS_HOLD"
    and lev: "btn_level st (btn_samples st) (btn_pin btn) = btn_active_logic btn"
    and h: "h = btn_hold_value (btn_tick_timeout btn) (btn_clk st (btn_reads st)) (btn_clk st (Suc (btn_reads st)))"
  shows "\<exists>st' btn'. btn_process_pass cb st = Some st' \<and> key_held p btn' st' \<and> btn_state btn' = BTN_STATE_PRESS_HOLD \<and>
    hold_time btn' = h \<and> btn_pin btn' = btn_pin btn \<and> btn_active_logic btn' = btn_active_logic btn \<and>
    btn_world st' = btn_world st \<and> btn_level st' = btn_level st \<and> btn_samples st' = Suc (btn_samples st)"
proof -
  let ?st = "st\<lparr>btn_samples := Suc (btn_samples st), btn_reads := Suc (Suc (btn_reads st))\<rparr>"
  let ?b = "if hold_cycle_time btn \<le> h - prev_hold_time btn then btn\<lparr>hold_time := h, btn_event := BTN_HOLD_EVENT, prev_hold_time := h\<rparr>
    else btn\<lparr>hold_time := h\<rparr>"
  have "btn_visit cb p st = Some (btn_put p ?b ?st)"
    using k s lev unfolding h [symmetric]
    by (simp add: key_held_def btn_visit_def btn_press_hold_def agile_btn_cal_hold_time_def AGILE_BUTTON_PIN_STATE_def
        btn_tick_get_def AGILE_BUTTON_EVENT_CB_def btn_put_def flip: h)
  moreover have "key_held p ?b (btn_put p ?b ?st)" using k by (simp add: key_held_def btn_put_def)
  ultimately show ?thesis
    using k s single_pass [of st p cb "btn_put p ?b ?st"]
    by (intro exI [of _ "btn_put p ?b ?st"] exI [of _ ?b]) (auto simp: key_held_def btn_put_def)
qed

lemma key_release_visit:
  assumes k: "key_held p btn st" and s: "btn_state btn = BTN_STATE_PRESS_HOLD"
    and lev: "btn_level st (btn_samples st) (btn_pin btn) \<noteq> btn_active_logic btn"
  shows "\<exists>st' btn'. btn_process_pass cb st = Some st' \<and> key_held p btn' st' \<and> btn_state btn' = BTN_STATE_PRESS_UP \<and>
    hold_time btn' = hold_time btn \<and> btn_world st' = btn_world st"
proof -
  let ?st = "btn_put p (btn\<lparr>btn_state := BTN_STATE_PRESS_UP\<rparr>) (st\<lparr>btn_samples := Suc (btn_samples st)\<rparr>)"
  have "btn_visit cb p st = Some ?st"
    using k s lev by (simp add: key_held_def btn_visit_def btn_press_hold_def AGILE_BUTTON_PIN_STATE_def)
  then show ?thesis
    using k s single_pass [of st p cb ?st]
    by (intro exI [of _ ?st] exI [of _ "btn\<lparr>btn_state := BTN_STATE_PRESS_UP\<rparr>"]) (auto simp: key_held_def btn_put_def)
qed

lemma key_click_visit:
  assumes k: "key_held p btn st" and s: "btn_state btn = BTN_STATE_PRESS_UP"
    and cb: "btn_click_event_cb (btn\<lparr>btn_event := BTN_CLICK_EVENT\<rparr>) (btn_world st) = Some a"
  shows "\<exists>st'. btn_process_pass app_btn_cb st = Some st' \<and> btn_world st' = a"
proof -
  let ?b = "btn\<lparr>btn_event := BTN_CLICK_EVENT, btn_tick_timeout := btn_clk st (btn_reads st) +
    rt_tick_from_millisecond AGILE_BUTTON_TWO_INTERVAL_TIME_DEFAULT, btn_state := BTN_STATE_NONE_PRESS\<rparr>"
  let ?st = "btn_put p ?b (st\<lparr>btn_world := a, btn_reads := Suc (btn_reads st)\<rparr>)"
  have "btn_visit app_btn_cb p st = Some ?st"
    using k s cb
    by (simp add: key_held_def btn_visit_def btn_press_up_def AGILE_BUTTON_EVENT_CB_def app_btn_cb_def btn_put_def btn_tick_get_def)
  then show ?thesis
    using k single_pass [of st p app_btn_cb ?st] by (intro exI [of _ ?st]) (simp add: key_held_def btn_put_def)
qed

lemma click_cb_outcome:
  assumes "bus_ok (app_bus a)" "length (zmq_pending (app_bus a) ZMQ_OPT_DCU) < 10" "hold_time btn = h"
  shows "\<exists>a'. btn_click_event_cb btn a = Some a' \<and> bus_ok (app_bus a') \<and>
    zmq_pending (app_bus a') ZMQ_OPT_DCU = zmq_pending (app_bus a) ZMQ_OPT_DCU @ (if RESET_TIME \<le> h then [reset_msg ZMQ_OPT_KEY] else []) \<and>
    app_trace a' = app_trace a @ (if \<not> RESET_TIME \<le> h \<and> 100 < h then [APP_SMARTCONFIG, APP_AUTORECONNECT False] else [])"
proof (cases "RESET_TIME \<le> h")
  case True
  obtain bus where "zmq_publish None (reset_msg ZMQ_OPT_KEY) ZMQ_OPT_DCU (app_bus a) = Some (RT_EOK, bus)" "bus_ok bus"
    "\<forall>opt. zmq_pending bus opt = zmq_pending (app_bus a) opt @ (if opt = ZMQ_OPT_DCU then [reset_msg ZMQ_OPT_KEY] else [])"
    using publish_reset [OF assms(1) _ assms(2)] by blast
  then show ?thesis using True assms(3) by (simp add: btn_click_event_cb_def load_reset)
next
  case False
  then show ?thesis using assms by (simp add: btn_click_event_cb_def app_emit_def)
qed

section \<open>The bus after set-up\<close>

lemma four_binds:
  assumes "zmq_mq_list st = []" "dcu_zmq_init ms pools st = Some st'"
  shows "zmq_create pools (st\<lparr>zmq_mq_list := map (\<lambda>opt. \<lparr>zmq_key = opt, zmq_queue = None\<rparr>)
    [ZMQ_OPT_KEY, ZMQ_OPT_LED, ZMQ_OPT_DCU, ZMQ_OPT_WEB]\<rparr>) = (RT_EOK, st')"
  using assms by (cases ms) (auto simp: dcu_zmq_init_def zmq_bind_def split: if_splits prod.splits)

lemma dcu_zmq_init_bus:
  assumes "zmq_mq_list st = []" "pools_ok pools" "dcu_zmq_init ms pools st = Some st'"
  shows "zmq_ok st'" "opt \<noteq> ZMQ_OPT_NULL \<Longrightarrow> zmq_find st' opt \<noteq> None" "zmq_pending st' opt = []"
proof -
  let ?st = "st\<lparr>zmq_mq_list := map (\<lambda>opt. \<lparr>zmq_key = opt, zmq_queue = None\<rparr>) [ZMQ_OPT_KEY, ZMQ_OPT_LED, ZMQ_OPT_DCU, ZMQ_OPT_WEB]\<rparr>"
  have ok: "zmq_ok ?st" by (simp add: zmq_ok_def)
  have none: "zmq_pending ?st opt = []" for opt by (cases opt) (simp_all add: zmq_pending_def zmq_find_def)
  have bound: "opt \<noteq> ZMQ_OPT_NULL \<Longrightarrow> zmq_get_by_opt (zmq_mq_list ?st) opt \<noteq> None" for opt by (cases opt) simp_all
  note run = four_binds [OF assms(1,3)]
  have keys: "map zmq_key (zmq_mq_list st') = [ZMQ_OPT_KEY, ZMQ_OPT_LED, ZMQ_OPT_DCU, ZMQ_OPT_WEB]"
    and q: "\<forall>opt. zmq_get_by_opt (zmq_mq_list ?st) opt \<noteq> None \<longrightarrow>
        (\<exists>q. zmq_find st' opt = Some q \<and> queue_ok q \<and> zmq_pending st' opt = zmq_pending ?st opt)"
    using zmq_create_outcome [OF ok assms(2) run] by auto
  show find: "zmq_find st' opt \<noteq> None" if "opt \<noteq> ZMQ_OPT_NULL" for opt using q bound [OF that] by auto
  show "zmq_pending st' opt = []"
  proof (cases "opt = ZMQ_OPT_NULL")
    case True
    have "zmq_get_by_opt (zmq_mq_list st') opt = zmq_get_by_opt (zmq_mq_list ?st) opt"
      using zmq_get_by_opt_keys [of "zmq_mq_list st'" "zmq_mq_list ?st"] keys by simp
    then show ?thesis using True by (simp add: zmq_pending_def zmq_find_def)
  next
    case False
    then show ?thesis using q bound [OF False] none by auto
  qed
  show "zmq_ok st'" unfolding zmq_ok_def
  proof (intro ballI allI impI)
    fix z q assume z: "z \<in> set (zmq_mq_list st')" "zmq_queue z = Some q"
    then obtain i where i: "i < length (zmq_mq_list st')" "z = zmq_mq_list st' ! i" by (auto simp: in_set_conv_nth)
    have "distinct (map zmq_key (zmq_mq_list st'))" using keys by simp
    then have "zmq_get_by_opt (zmq_mq_list st') (zmq_key z) = Some i" using i zmq_get_by_opt_distinct by blast
    then have f: "zmq_find st' (zmq_key z) = Some q" using i z by (simp add: zmq_find_def)
    have "zmq_key z \<in> set [ZMQ_OPT_KEY, ZMQ_OPT_LED, ZMQ_OPT_DCU, ZMQ_OPT_WEB]" using z(1) keys by (metis image_eqI list.set_map)
    then have "zmq_get_by_opt (zmq_mq_list ?st) (zmq_key z) \<noteq> None" using bound by auto
    then show "queue_ok q" using q f by auto
  qed
qed

section \<open>Properties\<close>

lemma dcu_zmq_init_succeeds:
  assumes "zmq_mq_list st = []" "\<forall>i. fst (pools i) \<and> fst (snd (pools i))"
  shows "\<exists>st'. dcu_zmq_init (True, True, True, True) pools st = Some st'"
proof -
  have "zmq_new_queue pools i \<noteq> None" for i
    using assms(2) [rule_format, of i] by (cases "pools i") (auto simp: zmq_new_queue_def rt_mq_create_def Let_def)
  then have "fst (zmq_create_loop pools 0 zs) = RT_EOK" for zs by (rule zmq_create_loop_succeeds)
  then show ?thesis
    using assms(1) by (simp add: dcu_zmq_init_def zmq_bind_def zmq_create_def split_beta del: zmq_create_loop.simps)
qed

text \<open>
  The bus the program starts with: when every allocation succeeds, \<open>dcu_zmq_init\<close> passes its
  assertions, and whenever it does, all four options of the application have an empty working
  queue.
\<close>

theorem dcu_zmq_init_ready:
  assumes "zmq_mq_list st = []" "pools_ok pools"
  shows "((\<forall>i. fst (pools i) \<and> fst (snd (pools i))) \<longrightarrow> dcu_zmq_init (True, True, True, True) pools st \<noteq> None) \<and>
    (\<forall>ms st'. dcu_zmq_init ms pools st = Some st' \<longrightarrow> bus_ok st' \<and>
      (\<forall>opt. (opt \<noteq> ZMQ_OPT_NULL \<longrightarrow> zmq_find st' opt \<noteq> None) \<and> zmq_pending st' opt = []))"
  using dcu_zmq_init_succeeds [OF assms(1), of pools] dcu_zmq_init_bus [OF assms]
  by (fastforce simp: bus_ok_def)

definition demo_empty_bus :: zmq_bus where
  "demo_empty_bus = \<lparr>zmq_mq_list = [], zmq_heap = (\<lambda>_. None)\<rparr>"

lemma demo_init: "\<exists>bus. dcu_zmq_init (True, True, True, True) demo_pools demo_empty_bus = Some bus"
  by (rule dcu_zmq_init_succeeds) (simp_all add: demo_empty_bus_def demo_pools_def)

theorem dcu_zmq_init_ready_witness:
  "\<exists>bus. dcu_zmq_init (True, True, True, True) demo_pools demo_empty_bus = Some bus \<and> bus_ok bus \<and>
    zmq_find bus ZMQ_OPT_WEB \<noteq> None \<and> zmq_pending bus ZMQ_OPT_WEB = []"
proof -
  obtain bus where b: "dcu_zmq_init (True, True, True, True) demo_pools demo_empty_bus = Some bus" using demo_init by blast
  have "zmq_mq_list demo_empty_bus = []" by (simp add: demo_empty_bus_def)
  from dcu_zmq_init_ready [OF this demo_pools_ok] b show ?thesis by blast
qed

text \<open>An application state: the bus just set up, the three LEDs created, the green one started.\<close>

definition demo_app :: "zmq_bus \<Rightarrow> app" where
  "demo_app bus = \<lparr>app_bus = bus,
     app_leds = \<lparr>led_mem = (\<lambda>p. if p = 1 then Some (demo_led\<lparr>led_pin := PIN_LED_R\<rparr>) else
         if p = 2 then Some (demo_led\<lparr>led_pin := PIN_LED_G, led_active := True, arr_num := 2, light_arr := Some [1000, 1000]\<rparr>) else
         if p = 3 then Some (demo_led\<lparr>led_pin := PIN_LED_B\<rparr>) else None),
       agile_led_list = [2], led_is_initialized = True, led_dev = \<lparr>pin_level = (\<lambda>_. 1), pin_log = []\<rparr>,
       led_clk = (\<lambda>_. 0), led_reads = 0\<rparr>,
     led_r = Some 1, led_g = Some 2, led_b = Some 3, led_msg_buf = IPC_MSG_INITIALIZER, reset_lock = 0,
     dcu_msg_buf = IPC_MSG_INITIALIZER, app_trace = []\<rparr>"

lemma demo_app_lights:
  "lights_ok (demo_app bus) 1 2 3 (demo_led\<lparr>led_pin := PIN_LED_R\<rparr>)
     (demo_led\<lparr>led_pin := PIN_LED_G, led_active := True, arr_num := 2, light_arr := Some [1000, 1000]\<rparr>) (demo_led\<lparr>led_pin := PIN_LED_B\<rparr>)"
  by (simp add: lights_ok_def demo_app_def PIN_LED_R_def PIN_LED_G_def PIN_LED_B_def)

lemma demo_app_bus:
  "\<exists>bus. bus_ok bus \<and> zmq_pending bus ZMQ_OPT_DCU = [] \<and> zmq_pending bus ZMQ_OPT_LED = []"
  using demo_init dcu_zmq_init_bus [OF _ demo_pools_ok, of demo_empty_bus] by (fastforce simp: bus_ok_def demo_empty_bus_def)

text \<open>
  (C17) What a press of the button does. The button is held down, seen down once more and then
  released: the thread reports the click within three passes. A press of at least two
  seconds sends one reset message to the coordinator, a shorter one of more than 100 ms starts
  the wireless configuration and turns the automatic reconnection off, and a still shorter one
  does nothing; the hold time counted is the one at the last pass that saw the button down.
\<close>

theorem key_press_outcome:
  assumes k: "key_held p btn st" and s: "btn_state btn = BTN_STATE_PRESS_HOLD"
    and down: "btn_level st (btn_samples st) (btn_pin btn) = btn_active_logic btn"
    and up: "btn_level st (Suc (btn_samples st)) (btn_pin btn) \<noteq> btn_active_logic btn"
    and h: "h = btn_hold_value (btn_tick_timeout btn) (btn_clk st (btn_reads st)) (btn_clk st (Suc (btn_reads st)))"
    and bus: "bus_ok (app_bus (btn_world st))" "length (zmq_pending (app_bus (btn_world st)) ZMQ_OPT_DCU) < 10"
  shows "\<exists>st'. btn_passes app_btn_cb 3 st = Some st' \<and>
    zmq_pending (app_bus (btn_world st')) ZMQ_OPT_DCU = zmq_pending (app_bus (btn_world st)) ZMQ_OPT_DCU @
      (if 2000 \<le> h then [reset_msg ZMQ_OPT_KEY] else []) \<and>
    app_trace (btn_world st') = app_trace (btn_world st) @
      (if \<not> 2000 \<le> h \<and> 100 < h then [APP_SMARTCONFIG, APP_AUTORECONNECT False] else [])"
proof -
  obtain st1 b1 where 1: "btn_process_pass app_btn_cb st = Some st1" "key_held p b1 st1" "btn_state b1 = BTN_STATE_PRESS_HOLD"
    "hold_time b1 = h" "btn_pin b1 = btn_pin btn" "btn_active_logic b1 = btn_active_logic btn" "btn_world st1 = btn_world st"
    "btn_level st1 = btn_level st" "btn_samples st1 = Suc (btn_samples st)"
    using key_hold_visit [OF k s down h] by blast
  obtain st2 b2 where 2: "btn_process_pass app_btn_cb st1 = Some st2" "key_held p b2 st2" "btn_state b2 = BTN_STATE_PRESS_UP"
    "hold_time b2 = h" "btn_world st2 = btn_world st"
    using key_release_visit [OF 1(2,3), of app_btn_cb] 1 up by auto
  obtain a where a: "btn_click_event_cb (b2\<lparr>btn_event := BTN_CLICK_EVENT\<rparr>) (btn_world st2) = Some a"
    "zmq_pending (app_bus a) ZMQ_OPT_DCU = zmq_pending (app_bus (btn_world st)) ZMQ_OPT_DCU @ (if RESET_TIME \<le> h then [reset_msg ZMQ_OPT_KEY] else [])"
    "app_trace a = app_trace (btn_world st) @ (if \<not> RESET_TIME \<le> h \<and> 100 < h then [APP_SMARTCONFIG, APP_AUTORECONNECT False] else [])"
    using click_cb_outcome [OF bus, of "b2\<lparr>btn_event := BTN_CLICK_EVENT\<rparr>" h] 2(4,5) by auto
  obtain st3 where 3: "btn_process_pass app_btn_cb st2 = Some st3" "btn_world st3 = a"
    using key_click_visit [OF 2(2,3) a(1)] by blast
  have "btn_passes app_btn_cb 3 st = Some st3" using 1(1) 2(1) 3(1) by (simp add: numeral_3_eq_3)
  then show ?thesis using 3(2) a(2,3) by (simp add: RESET_TIME_def)
qed

theorem key_press_outcome_witness:
  "\<exists>st st'. btn_passes app_btn_cb 3 st = Some st' \<and> zmq_pending (app_bus (btn_world st)) ZMQ_OPT_DCU = [] \<and>
    zmq_pending (app_bus (btn_world st')) ZMQ_OPT_DCU = [reset_msg ZMQ_OPT_KEY] \<and> app_trace (btn_world st') = []"
proof -
  obtain bus where bus: "bus_ok bus" "zmq_pending bus ZMQ_OPT_DCU = []" using demo_app_bus by blast
  define btn where "btn = demo_btn\<lparr>btn_active := True, btn_state := BTN_STATE_PRESS_HOLD, event_cb := (\<lambda>_. None)(BTN_CLICK_EVENT := Some 1)\<rparr>"
  define st where "st = \<lparr>btn_mem = (\<lambda>p. if p = 1 then Some btn else None), agile_btn_list = [1], btn_is_initialized = True,
    btn_clk = (\<lambda>_. 2500), btn_reads = 0, btn_level = (\<lambda>k _. if k = 0 then 1 else 0), btn_samples = 0, btn_world = demo_app bus\<rparr>"
  have "btn_hold_value (btn_tick_timeout btn) (btn_clk st (btn_reads st)) (btn_clk st (Suc (btn_reads st))) = 2500"
    by (simp add: btn_hold_value_def btn_def st_def demo_btn_def RT_TICK_PER_SECOND_def)
  then have h: "2500 = btn_hold_value (btn_tick_timeout btn) (btn_clk st (btn_reads st)) (btn_clk st (Suc (btn_reads st)))" by simp
  have "key_held 1 btn st" "btn_state btn = BTN_STATE_PRESS_HOLD" "btn_level st (btn_samples st) (btn_pin btn) = btn_active_logic btn"
    "btn_level st (Suc (btn_samples st)) (btn_pin btn) \<noteq> btn_active_logic btn" "bus_ok (app_bus (btn_world st))"
    "length (zmq_pending (app_bus (btn_world st)) ZMQ_OPT_DCU) < 10"
    using bus by (simp_all add: key_held_def st_def btn_def demo_btn_def demo_app_def)
  moreover have w: "zmq_pending (app_bus (btn_world st)) ZMQ_OPT_DCU = []" "app_trace (btn_world st) = []"
    using bus(2) by (simp_all add: st_def demo_app_def)
  ultimately obtain st' where "btn_passes app_btn_cb 3 st = Some st'"
    "zmq_pending (app_bus (btn_world st')) ZMQ_OPT_DCU = [reset_msg ZMQ_OPT_KEY]" "app_trace (btn_world st') = []"
    using key_press_outcome [OF _ _ _ _ h, of 1] by auto
  then show ?thesis using w(1) by blast
qed



text \<open>
  The lights react to the first reset message only: once \<open>reset_lock\<close> is set, a further one is
  taken from the queue and freed, and neither the lights nor anything outside the program
  see it.
\<close>

theorem led_reset_once:
  assumes "bus_ok (app_bus a)" "zmq_pending (app_bus a) ZMQ_OPT_LED = reset_msg src # ms" "reset_lock a \<noteq> 0"
  shows "\<exists>a'. led_msg_step self a = Some a' \<and> app_leds a' = app_leds a \<and> app_trace a' = app_trace a \<and>
    reset_lock a' = reset_lock a \<and> zmq_pending (app_bus a') ZMQ_OPT_LED = ms"
proof -
  obtain b1 where b1: "zmq_subscribe ZMQ_OPT_LED self (- 1) (led_msg_buf a) (app_bus a) =
      Some (MQ_MSG (ipc_cells (reset_msg src)), reset_msg src, b1)" "zmq_pending b1 ZMQ_OPT_LED = ms"
    using subscribe_next [OF assms(1,2)] by fastforce
  then show ?thesis
    using assms(3) reset_msg_fields [of src] by (simp add: led_msg_step_def zmq_free_def)
qed

theorem led_reset_once_witness:
  "\<exists>a a'. reset_lock a = 1 \<and> zmq_pending (app_bus a) ZMQ_OPT_LED = [reset_msg ZMQ_OPT_DCU] \<and> led_msg_step 1 a = Some a' \<and>
    app_leds a' = app_leds a \<and> app_trace a' = app_trace a \<and> reset_lock a' = reset_lock a \<and> zmq_pending (app_bus a') ZMQ_OPT_LED = []"
proof -
  obtain bus where bus: "bus_ok bus" "zmq_pending bus ZMQ_OPT_LED = []" using demo_app_bus by blast
  obtain bus1 where bus1: "bus_ok bus1" "zmq_pending bus1 ZMQ_OPT_LED = [reset_msg ZMQ_OPT_DCU]"
    using publish_reset [OF bus(1), of ZMQ_OPT_LED None ZMQ_OPT_DCU] bus(2) by auto
  define a where "a = (demo_app bus1)\<lparr>reset_lock := 1\<rparr>"
  have "bus_ok (app_bus a)" "zmq_pending (app_bus a) ZMQ_OPT_LED = [reset_msg ZMQ_OPT_DCU]" "reset_lock a \<noteq> 0" "reset_lock a = 1"
    using bus1 by (simp_all add: a_def demo_app_def)
  then show ?thesis using led_reset_once [of a ZMQ_OPT_DCU "[]" 1] by blast
qed

end
