(* ===== verification/Spi.thy ===== *)
theory Spi
  imports Prelude
begin

text \<open>
  \<open>rt-thread/components/drivers/spi/spi_core.c\<close> and the SPI port of the serial flash library in
  \<open>spi_flash_sfud.c\<close>: how the bytes of a command reach a device on the SPI bus.

  The bus driver is a parameter, the functions of \<open>rt_spi_ops\<close> over a state \<open>'w\<close> of the hardware:
  \<open>xfer\<close> returns the number of bytes transferred and what the receive buffer then holds. The model
  has one device; \<open>bus_owner\<close> says whether the bus is configured for it, which another device may
  have changed. The lock of the bus is waited for without a time limit, so taking it succeeds.
  \<open>rt_spi_delay\<close> is what happens to the hardware while a thread sleeps between two polls.
\<close>

definition RT_EIO :: int where "RT_EIO = 8"

record spi_message =
  send_buf :: "u8 list option"
  recv_buf :: "u8 list option"
  msg_len :: u32
  cs_take :: bool
  cs_release :: bool

record 'w rt_spi_ops =
  spi_configure :: "'w \<Rightarrow> int \<times> 'w"
  xfer :: "spi_message \<Rightarrow> 'w \<Rightarrow> u32 \<times> u8 list \<times> 'w"
  rt_spi_delay :: "'w \<Rightarrow> 'w"

record 'w spi_dev =
  bus_owner :: bool
  spi_world :: 'w

definition len32 :: "u8 list \<Rightarrow> u32" where
  "len32 buf = word_of_nat (length buf)"

section \<open>Transfers\<close>

text \<open>Configuring the bus when it was last used for another device.\<close>

definition spi_own :: "'w rt_spi_ops \<Rightarrow> 'w spi_dev \<Rightarrow> bool \<times> 'w spi_dev" where
  "spi_own ops dev =
     (if bus_owner dev then (True, dev)
      else case spi_configure ops (spi_world dev) of
        (rc, w) \<Rightarrow> if rc = RT_EOK then (True, dev\<lparr>spi_world := w, bus_owner := True\<rparr>)
                   else (False, dev\<lparr>spi_world := w\<rparr>))"

definition spi_xfer :: "'w rt_spi_ops \<Rightarrow> spi_message \<Rightarrow> 'w spi_dev \<Rightarrow> u32 \<times> u8 list \<times> 'w spi_dev" where
  "spi_xfer ops m dev = (case xfer ops m (spi_world dev) of (n, buf, w) \<Rightarrow> (n, buf, dev\<lparr>spi_world := w\<rparr>))"

definition rt_spi_send_then_recv ::
    "'w rt_spi_ops \<Rightarrow> u8 list \<Rightarrow> u8 list \<Rightarrow> 'w spi_dev \<Rightarrow> int \<times> u8 list \<times> 'w spi_dev" where
  "rt_spi_send_then_recv ops sbuf rbuf dev =
     (case spi_own ops dev of (ok, dev) \<Rightarrow>
      if \<not> ok then (- RT_EIO, rbuf, dev)
      else case spi_xfer ops \<lparr>send_buf = Some sbuf, recv_buf = None, msg_len = len32 sbuf, cs_take = True, cs_release = False\<rparr> dev of
        (n, _, dev) \<Rightarrow>
          if n = 0 then (- RT_EIO, rbuf, dev)
          else case spi_xfer ops \<lparr>send_buf = None, recv_buf = Some rbuf, msg_len = len32 rbuf, cs_take = False, cs_release = True\<rparr> dev of
            (n, rbuf, dev) \<Rightarrow> (if n = 0 then - RT_EIO else RT_EOK, rbuf, dev))"

definition rt_spi_send_then_send ::
    "'w rt_spi_ops \<Rightarrow> u8 list \<Rightarrow> u8 list \<Rightarrow> 'w spi_dev \<Rightarrow> int \<times> 'w spi_dev" where
  "rt_spi_send_then_send ops sbuf1 sbuf2 dev =
     (case spi_own ops dev of (ok, dev) \<Rightarrow>
      if \<not> ok then (- RT_EIO, dev)
      else case spi_xfer ops \<lparr>send_buf = Some sbuf1, recv_buf = None, msg_len = len32 sbuf1, cs_take = True, cs_release = False\<rparr> dev of
        (n, _, dev) \<Rightarrow>
          if n = 0 then (- RT_EIO, dev)
          else case spi_xfer ops \<lparr>send_buf = Some sbuf2, recv_buf = None, msg_len = len32 sbuf2, cs_take = False, cs_release = True\<rparr> dev of
            (n, _, dev) \<Rightarrow> (if n = 0 then - RT_EIO else RT_EOK, dev))"

definition rt_spi_transfer ::
    "'w rt_spi_ops \<Rightarrow> u8 list option \<Rightarrow> u8 list option \<Rightarrow> u32 \<Rightarrow> 'w spi_dev \<Rightarrow> u32 \<times> u8 list \<times> 'w spi_dev" where
  "rt_spi_transfer ops sbuf rbuf n dev =
     (case spi_own ops dev of (ok, dev) \<Rightarrow>
      if \<not> ok then (0, case rbuf of None \<Rightarrow> [] | Some b \<Rightarrow> b, dev)
      else spi_xfer ops \<lparr>send_buf = sbuf, recv_buf = rbuf, msg_len = n, cs_take = True, cs_release = True\<rparr> dev)"

definition rt_spi_send :: "'w rt_spi_ops \<Rightarrow> u8 list \<Rightarrow> 'w spi_dev \<Rightarrow> u32 \<times> 'w spi_dev" where
  "rt_spi_send ops sbuf dev = (case rt_spi_transfer ops (Some sbuf) None (len32 sbuf) dev of (n, _, dev) \<Rightarrow> (n, dev))"

definition rt_spi_recv :: "'w rt_spi_ops \<Rightarrow> u8 list \<Rightarrow> 'w spi_dev \<Rightarrow> u32 \<times> u8 list \<times> 'w spi_dev" where
  "rt_spi_recv ops rbuf dev = rt_spi_transfer ops None (Some rbuf) (len32 rbuf) dev"

section \<open>The port of the serial flash library\<close>

definition SFUD_SUCCESS :: int where "SFUD_SUCCESS = 0"
definition SFUD_ERR_NOT_FOUND :: int where "SFUD_ERR_NOT_FOUND = 1"
definition SFUD_ERR_WRITE :: int where "SFUD_ERR_WRITE = 2"
definition SFUD_ERR_READ :: int where "SFUD_ERR_READ = 3"
definition SFUD_ERR_TIMEOUT :: int where "SFUD_ERR_TIMEOUT = 4"
definition SFUD_ERR_ADDR_OUT_OF_BOUND :: int where "SFUD_ERR_ADDR_OUT_OF_BOUND = 5"

lemmas sfud_errs =
  SFUD_SUCCESS_def SFUD_ERR_NOT_FOUND_def SFUD_ERR_WRITE_def SFUD_ERR_READ_def SFUD_ERR_TIMEOUT_def
  SFUD_ERR_ADDR_OUT_OF_BOUND_def

definition spi_write_read ::
    "'w rt_spi_ops \<Rightarrow> u8 list \<Rightarrow> u8 list \<Rightarrow> 'w spi_dev \<Rightarrow> int \<times> u8 list \<times> 'w spi_dev" where
  "spi_write_read ops wbuf rbuf dev =
     (if wbuf \<noteq> [] \<and> rbuf \<noteq> [] then
        (case rt_spi_send_then_recv ops wbuf rbuf dev of
           (rc, rbuf, dev) \<Rightarrow> (if rc \<noteq> RT_EOK then SFUD_ERR_TIMEOUT else SFUD_SUCCESS, rbuf, dev))
      else if wbuf \<noteq> [] then
        (case rt_spi_send ops wbuf dev of
           (n, dev) \<Rightarrow> (if n = 0 then SFUD_ERR_TIMEOUT else SFUD_SUCCESS, rbuf, dev))
      else
        (case rt_spi_recv ops rbuf dev of
           (n, rbuf, dev) \<Rightarrow> (if n = 0 then SFUD_ERR_TIMEOUT else SFUD_SUCCESS, rbuf, dev)))"

section \<open>Commands\<close>

text \<open>
  What a device on the bus sees: one command, the bytes sent while it is selected, and the bytes it
  answers. \<open>bus_cmd\<close> is the sequence of transfers for a command; the port performs exactly it once
  the bus is configured.
\<close>

definition bus_cmd :: "'w rt_spi_ops \<Rightarrow> u8 list \<Rightarrow> u8 list \<Rightarrow> 'w \<Rightarrow> bool \<times> u8 list \<times> 'w" where
  "bus_cmd ops cmd rbuf w =
     (if rbuf = [] then
        (case xfer ops \<lparr>send_buf = Some cmd, recv_buf = None, msg_len = len32 cmd, cs_take = True, cs_release = True\<rparr> w of
           (n, _, w) \<Rightarrow> (n \<noteq> 0, [], w))
      else
        (case xfer ops \<lparr>send_buf = Some cmd, recv_buf = None, msg_len = len32 cmd, cs_take = True, cs_release = False\<rparr> w of
           (n, _, w) \<Rightarrow> if n = 0 then (False, rbuf, w)
             else case xfer ops \<lparr>send_buf = None, recv_buf = Some rbuf, msg_len = len32 rbuf, cs_take = False, cs_release = True\<rparr> w of
               (n, rbuf, w) \<Rightarrow> (n \<noteq> 0, rbuf, w)))"

lemma spi_write_read_cmd:
  assumes "cmd \<noteq> []" "spi_own ops dev = (True, dev1)" "bus_cmd ops cmd rbuf (spi_world dev1) = (ok, rbuf', w)"
  shows "spi_write_read ops cmd rbuf dev =
    (if ok then SFUD_SUCCESS else SFUD_ERR_TIMEOUT, rbuf', dev1\<lparr>spi_world := w\<rparr>)"
  using assms
  by (auto simp: spi_write_read_def bus_cmd_def rt_spi_send_then_recv_def rt_spi_send_def rt_spi_transfer_def
      spi_xfer_def RT_EIO_def split: prod.splits if_splits)

end
