(* ===== verification/Fal_Flash.thy ===== *)
theory Fal_Flash
  imports C_Mem Spi "HOL-Library.Signed_Division"
begin

text \<open>
  The flash devices under the flash abstraction layer: the on-chip flash (\<open>drivers/drv_flash.c\<close>,
  \<open>ports/fal/fal_flash_port.c\<close>), the SPI flash (\<open>ports/fal/fal_flash_sfud_port.c\<close>) and the device
  table of \<open>packages/fal-v0.3.0/src/fal_flash.c\<close>.

  The drivers of the two chips are parameters, the functions of \<open>flash_hw\<close>, over a state \<open>'w\<close> of
  the hardware; \<open>nor_read_op\<close>, \<open>nor_write_op\<close> and \<open>nor_erase_op\<close> stand for \<open>sfud_read\<close>, \<open>sfud_write\<close> and
  \<open>sfud_erase\<close>, which the theory \<open>Sfud\<close> provides. \<open>chip_cells\<close> and \<open>nor_cells\<close> are what the chips hold, and
  \<open>nor_idle\<close> says that the serial chip is not busy; no operation reads them, only the laws of the
  drivers do. A C \<open>long\<close> and a \<open>size_t\<close> have 32 bits. Taking and releasing the
  SPI bus around each access changes nothing the model shows.
\<close>

section \<open>The drivers\<close>

record 'w flash_hw =
  flashtotalsize :: "'w \<Rightarrow> u32"
  tls_fls_read :: "u32 \<Rightarrow> u8 list \<Rightarrow> 'w \<Rightarrow> int \<times> u8 list \<times> 'w"
  tls_fls_write :: "u32 \<Rightarrow> u8 list \<Rightarrow> 'w \<Rightarrow> int \<times> 'w"
  tls_fls_erase :: "u32 \<Rightarrow> 'w \<Rightarrow> int \<times> 'w"
  sfud_flash_found :: bool
  nor_read_op :: "u32 \<Rightarrow> u8 list \<Rightarrow> 'w \<Rightarrow> int \<times> u8 list \<times> 'w"
  nor_write_op :: "u32 \<Rightarrow> u8 list \<Rightarrow> 'w \<Rightarrow> int \<times> 'w"
  nor_erase_op :: "u32 \<Rightarrow> u32 \<Rightarrow> 'w \<Rightarrow> int \<times> 'w"
  chip_cells :: "'w \<Rightarrow> u32 \<Rightarrow> u8"
  nor_cells :: "'w \<Rightarrow> nat \<Rightarrow> u8"
  nor_idle :: "'w \<Rightarrow> bool"

definition TLS_FLS_STATUS_OK :: int where "TLS_FLS_STATUS_OK = 0"
definition FLASH_BASE_ADDR :: u32 where "FLASH_BASE_ADDR = 0x8000000"
definition FLASH_SECTOR :: nat where "FLASH_SECTOR = 4096"

text \<open>The number of bytes of a buffer as a \<open>size_t\<close>, and the \<open>int\<close> that a function returns for it.\<close>

definition buf_size :: "u8 list \<Rightarrow> u32" where
  "buf_size buf = word_of_nat (length buf)"

definition wm_flash_total :: "'w flash_hw \<Rightarrow> 'w \<Rightarrow> u32" where
  "wm_flash_total hw w = (if flashtotalsize hw w = 0x200000 then 0x200000 else 0x100000)"

definition wm_flash_addr :: u32 where "wm_flash_addr = FLASH_BASE_ADDR"
definition wm_flash_blksize :: u32 where "wm_flash_blksize = 4096"

definition wm_flash_read :: "'w flash_hw \<Rightarrow> u32 \<Rightarrow> u8 list \<Rightarrow> 'w \<Rightarrow> int \<times> u8 list \<times> 'w" where
  "wm_flash_read hw offset data w =
     (case tls_fls_read hw (offset + FLASH_BASE_ADDR) data w of
        (rc, data', w) \<Rightarrow> (if rc \<noteq> TLS_FLS_STATUS_OK then - 1 else sint (buf_size data), data', w))"

definition wm_flash_write :: "'w flash_hw \<Rightarrow> u32 \<Rightarrow> u8 list \<Rightarrow> 'w \<Rightarrow> int \<times> 'w" where
  "wm_flash_write hw offset data w =
     (case tls_fls_write hw (offset + FLASH_BASE_ADDR) data w of
        (rc, w) \<Rightarrow> (if rc \<noteq> TLS_FLS_STATUS_OK then - 1 else sint (buf_size data), w))"

text \<open>
  The loop \<open>while (count)\<close> counts a negative \<open>count\<close> down as well: it then ends only when an erase
  fails. \<open>/\<close> rounds towards zero.
\<close>

partial_function (option) wm_erase_loop :: "'w flash_hw \<Rightarrow> int \<Rightarrow> int \<Rightarrow> int \<Rightarrow> 'w \<Rightarrow> (int \<times> 'w) option" where
  "wm_erase_loop hw rsize count sector w =
     (if count = 0 then Some (rsize, w)
      else case tls_fls_erase hw (word_of_int sector) w of
        (rc, w) \<Rightarrow> if rc \<noteq> TLS_FLS_STATUS_OK then Some (- 1, w)
                   else wm_erase_loop hw rsize (count - 1) (sector + 1) w)"

declare wm_erase_loop.simps [code]

definition wm_flash_erase :: "'w flash_hw \<Rightarrow> u32 \<Rightarrow> u32 \<Rightarrow> 'w \<Rightarrow> (int \<times> 'w) option" where
  "wm_flash_erase hw offset n w =
     wm_erase_loop hw (sint n) (sint n sdiv int FLASH_SECTOR)
       (sint (offset + FLASH_BASE_ADDR) sdiv int FLASH_SECTOR) w"

section \<open>Flash devices\<close>

text \<open>
  The function pointers of a device, named by the functions they point to: \<open>read\<close>, \<open>write\<close> and
  \<open>erase\<close> of the on-chip port, the \<open>chip_\<close> variants behind the first megabyte, and those of the
  SPI flash. The three pointers of a device are always set together. \<open>sfud_norflash0\<close> is set
  whenever a device points to the functions that use it.
\<close>

datatype flash_drv = ONCHIP_DRV | CHIP_DRV | SFUD_DRV
datatype flash_init = ONCHIP_INIT | NOR_INIT

record fal_flash_dev =
  dev_name :: "u8 list"
  dev_addr :: u32
  dev_len :: u32
  blk_size :: u32
  dev_init :: flash_init
  dev_drv :: flash_drv

definition FAL_DEV_NAME_MAX :: nat where "FAL_DEV_NAME_MAX = 24"

text \<open>A name in its array of 24 characters.\<close>

definition name24 :: "u8 list \<Rightarrow> u8 list" where
  "name24 s = s @ replicate (FAL_DEV_NAME_MAX - length s) 0"

definition onchip_name :: "u8 list" where
  "onchip_name = [119, 54, 48, 120, 95, 111, 110, 99, 104, 105, 112]"

definition nor_name :: "u8 list" where
  "nor_name = [110, 111, 114, 102, 108, 97, 115, 104]"

definition w60x_onchip_init :: fal_flash_dev where
  "w60x_onchip_init = \<lparr>dev_name = name24 onchip_name, dev_addr = 0, dev_len = 0, blk_size = 0,
     dev_init = ONCHIP_INIT, dev_drv = ONCHIP_DRV\<rparr>"

definition nor_flash0_init :: fal_flash_dev where
  "nor_flash0_init = \<lparr>dev_name = name24 nor_name, dev_addr = 0, dev_len = 0, blk_size = 0,
     dev_init = NOR_INIT, dev_drv = ONCHIP_DRV\<rparr>"

record 'w flash_sys =
  w60x_onchip :: fal_flash_dev
  nor_flash0 :: fal_flash_dev
  flash_init_ok :: bool
  flash_world :: 'w

definition device_table :: "'w flash_sys \<Rightarrow> fal_flash_dev list" where
  "device_table st = [w60x_onchip st, nor_flash0 st]"

text \<open>Reading, writing and erasing through the pointers of a device.\<close>

definition dev_read :: "'w flash_hw \<Rightarrow> flash_drv \<Rightarrow> u32 \<Rightarrow> u8 list \<Rightarrow> 'w flash_sys \<Rightarrow> int \<times> u8 list \<times> 'w flash_sys" where
  "dev_read hw drv offset buf st =
     (case drv of
        ONCHIP_DRV \<Rightarrow> (case wm_flash_read hw offset buf (flash_world st) of
           (rc, buf, w) \<Rightarrow> (rc, buf, st\<lparr>flash_world := w\<rparr>))
      | CHIP_DRV \<Rightarrow> (case wm_flash_read hw (offset + 0x100000) buf (flash_world st) of
           (rc, buf, w) \<Rightarrow> (rc, buf, st\<lparr>flash_world := w\<rparr>))
      | SFUD_DRV \<Rightarrow> (case nor_read_op hw (dev_addr (nor_flash0 st) + offset) buf (flash_world st) of
           (rc, buf', w) \<Rightarrow> (sint (buf_size buf), buf', st\<lparr>flash_world := w\<rparr>)))"

definition dev_write :: "'w flash_hw \<Rightarrow> flash_drv \<Rightarrow> u32 \<Rightarrow> u8 list \<Rightarrow> 'w flash_sys \<Rightarrow> int \<times> 'w flash_sys" where
  "dev_write hw drv offset buf st =
     (case drv of
        ONCHIP_DRV \<Rightarrow> (case wm_flash_write hw offset buf (flash_world st) of
           (rc, w) \<Rightarrow> (rc, st\<lparr>flash_world := w\<rparr>))
      | CHIP_DRV \<Rightarrow> (case wm_flash_write hw (offset + 0x100000) buf (flash_world st) of
           (rc, w) \<Rightarrow> (rc, st\<lparr>flash_world := w\<rparr>))
      | SFUD_DRV \<Rightarrow> (case nor_write_op hw (dev_addr (nor_flash0 st) + offset) buf (flash_world st) of
           (rc, w) \<Rightarrow> (if rc \<noteq> SFUD_SUCCESS then - 1 else sint (buf_size buf), st\<lparr>flash_world := w\<rparr>)))"

definition dev_erase :: "'w flash_hw \<Rightarrow> flash_drv \<Rightarrow> u32 \<Rightarrow> u32 \<Rightarrow> 'w flash_sys \<Rightarrow> (int \<times> 'w flash_sys) option" where
  "dev_erase hw drv offset n st =
     (case drv of
        ONCHIP_DRV \<Rightarrow> do { (rc, w) \<leftarrow> wm_flash_erase hw offset n (flash_world st); Some (rc, st\<lparr>flash_world := w\<rparr>) }
      | CHIP_DRV \<Rightarrow> do { (rc, w) \<leftarrow> wm_flash_erase hw (offset + 0x100000) n (flash_world st); Some (rc, st\<lparr>flash_world := w\<rparr>) }
      | SFUD_DRV \<Rightarrow> (case nor_erase_op hw (dev_addr (nor_flash0 st) + offset) n (flash_world st) of
           (rc, w) \<Rightarrow> Some (if rc \<noteq> SFUD_SUCCESS then - 1 else sint n, st\<lparr>flash_world := w\<rparr>)))"

section \<open>Initialising the devices\<close>

definition onchip_init :: "'w flash_hw \<Rightarrow> 'w flash_sys \<Rightarrow> int \<times> 'w flash_sys" where
  "onchip_init hw st =
     (0, st\<lparr>w60x_onchip := (w60x_onchip st)\<lparr>dev_len := wm_flash_total hw (flash_world st),
              blk_size := wm_flash_blksize, dev_addr := wm_flash_addr\<rparr>\<rparr>)"

definition fal_sfud_init :: "'w flash_hw \<Rightarrow> 'w flash_sys \<Rightarrow> int \<times> 'w flash_sys" where
  "fal_sfud_init hw st =
     (if \<not> sfud_flash_found hw then (- 1, st)
      else (0, st\<lparr>nor_flash0 := (nor_flash0 st)\<lparr>dev_len := 16 * 1024 * 1024, blk_size := 4096, dev_addr := 0,
                    dev_drv := SFUD_DRV\<rparr>\<rparr>))"

definition nor_init :: "'w flash_hw \<Rightarrow> 'w flash_sys \<Rightarrow> int \<times> 'w flash_sys" where
  "nor_init hw st =
     (if wm_flash_total hw (flash_world st) = 0x200000 then
        (0, st\<lparr>nor_flash0 := (nor_flash0 st)\<lparr>dev_len := wm_flash_total hw (flash_world st) - 0x100000,
                 blk_size := wm_flash_blksize, dev_addr := 0, dev_drv := CHIP_DRV\<rparr>\<rparr>)
      else fal_sfud_init hw st)"

definition dev_run_init :: "'w flash_hw \<Rightarrow> flash_init \<Rightarrow> 'w flash_sys \<Rightarrow> int \<times> 'w flash_sys" where
  "dev_run_init hw i st = (case i of ONCHIP_INIT \<Rightarrow> onchip_init hw st | NOR_INIT \<Rightarrow> nor_init hw st)"

text \<open>\<open>fal_flash_init\<close> does not look at what the initialisation of a device returns.\<close>

definition fal_flash_init :: "'w flash_hw \<Rightarrow> 'w flash_sys \<Rightarrow> int \<times> 'w flash_sys" where
  "fal_flash_init hw st =
     (if flash_init_ok st then (0, st)
      else let st = snd (dev_run_init hw (dev_init (w60x_onchip st)) st);
               st = snd (dev_run_init hw (dev_init (nor_flash0 st)) st)
           in (0, st\<lparr>flash_init_ok := True\<rparr>))"

fun flash_find :: "u8 list \<Rightarrow> fal_flash_dev list \<Rightarrow> fal_flash_dev option option" where
  "flash_find name [] = Some None"
| "flash_find name (d # ds) =
     do { eq \<leftarrow> strncmp_eq FAL_DEV_NAME_MAX name (dev_name d);
          if eq then Some (Some d) else flash_find name ds }"

definition fal_flash_device_find :: "u8 list \<Rightarrow> 'w flash_sys \<Rightarrow> fal_flash_dev option option" where
  "fal_flash_device_find name st = (if flash_init_ok st then flash_find name (device_table st) else None)"

section \<open>What the on-chip flash does\<close>

text \<open>A read of the on-chip flash changes nothing and, when it succeeds, delivers what the chip holds.\<close>

definition chip_read_law :: "'w flash_hw \<Rightarrow> bool" where
  "chip_read_law hw \<longleftrightarrow>
     (\<forall>a buf w. case tls_fls_read hw a buf w of (rc, buf', w') \<Rightarrow>
        length buf' = length buf \<and> chip_cells hw w' = chip_cells hw w \<and>
        (rc = TLS_FLS_STATUS_OK \<longrightarrow> (\<forall>i < length buf. buf' ! i = chip_cells hw w (a + word_of_nat i))))"

lemma chip_readD:
  assumes "chip_read_law hw" "tls_fls_read hw a buf w = (rc, buf', w')"
  shows "length buf' = length buf" "chip_cells hw w' = chip_cells hw w"
    "rc = TLS_FLS_STATUS_OK \<Longrightarrow> i < length buf \<Longrightarrow> buf' ! i = chip_cells hw w (a + word_of_nat i)"
  using assms unfolding chip_read_law_def by (metis (mono_tags, lifting) case_prod_conv)+

section \<open>What a working SPI flash does\<close>

text \<open>
  The laws of a chip of \<open>NOR_SIZE\<close> bytes behind \<open>nor_read_op\<close>, \<open>nor_write_op\<close> and \<open>nor_erase_op\<close>, called
  when the chip is idle: a read
  inside the chip succeeds and changes nothing; an erase touches the sectors that meet its range
  and, when it succeeds, leaves all their bits set; a write touches its range and, when it
  succeeds, clears the bits that are clear in the data. Erases and writes may fail; all leave the chip
  idle.
\<close>

definition NOR_SIZE :: nat where "NOR_SIZE = 16 * 1024 * 1024"

definition sector_cover :: "nat \<Rightarrow> nat \<Rightarrow> nat \<Rightarrow> bool" where
  "sector_cover a n i \<longleftrightarrow> (\<exists>j. a \<le> j \<and> j < a + n \<and> i div FLASH_SECTOR = j div FLASH_SECTOR)"

definition nor_read_law :: "'w flash_hw \<Rightarrow> bool" where
  "nor_read_law hw \<longleftrightarrow>
     (\<forall>a buf w. nor_idle hw w \<and> unat a + length buf \<le> NOR_SIZE \<longrightarrow>
        (case nor_read_op hw a buf w of (rc, buf', w') \<Rightarrow> nor_idle hw w' \<and>
           rc = SFUD_SUCCESS \<and> buf' = map (nor_cells hw w) [unat a..<unat a + length buf] \<and>
           nor_cells hw w' = nor_cells hw w))"

definition nor_erase_law :: "'w flash_hw \<Rightarrow> bool" where
  "nor_erase_law hw \<longleftrightarrow>
     (\<forall>a n w. nor_idle hw w \<and> unat a + unat n \<le> NOR_SIZE \<longrightarrow>
        (case nor_erase_op hw a n w of (rc, w') \<Rightarrow> nor_idle hw w' \<and>
           (\<forall>i. \<not> sector_cover (unat a) (unat n) i \<longrightarrow> nor_cells hw w' i = nor_cells hw w i) \<and>
           (rc = SFUD_SUCCESS \<longrightarrow> (\<forall>i. sector_cover (unat a) (unat n) i \<longrightarrow> nor_cells hw w' i = 0xFF))))"

definition nor_write_law :: "'w flash_hw \<Rightarrow> bool" where
  "nor_write_law hw \<longleftrightarrow>
     (\<forall>a buf w. nor_idle hw w \<and> unat a + length buf \<le> NOR_SIZE \<longrightarrow>
        (case nor_write_op hw a buf w of (rc, w') \<Rightarrow> nor_idle hw w' \<and>
           (\<forall>i. \<not> (unat a \<le> i \<and> i < unat a + length buf) \<longrightarrow> nor_cells hw w' i = nor_cells hw w i) \<and>
           (rc = SFUD_SUCCESS \<longrightarrow>
              (\<forall>i < length buf. nor_cells hw w' (unat a + i) = nor_cells hw w (unat a + i) AND buf ! i))))"

definition nor_laws :: "'w flash_hw \<Rightarrow> bool" where
  "nor_laws hw \<longleftrightarrow> nor_read_law hw \<and> nor_erase_law hw \<and> nor_write_law hw"

lemma nor_readD:
  assumes "nor_laws hw" "nor_idle hw w" "unat a + length buf \<le> NOR_SIZE" "nor_read_op hw a buf w = (rc, buf', w')"
  shows "nor_idle hw w'" "rc = SFUD_SUCCESS" "buf' = map (nor_cells hw w) [unat a..<unat a + length buf]"
    "nor_cells hw w' = nor_cells hw w"
  using assms unfolding nor_laws_def nor_read_law_def by (metis (mono_tags, lifting) case_prod_conv)+

lemma nor_eraseD:
  assumes "nor_laws hw" "nor_idle hw w" "unat a + unat n \<le> NOR_SIZE" "nor_erase_op hw a n w = (rc, w')"
  shows "nor_idle hw w'" and "\<not> sector_cover (unat a) (unat n) i \<Longrightarrow> nor_cells hw w' i = nor_cells hw w i"
    "rc = SFUD_SUCCESS \<Longrightarrow> sector_cover (unat a) (unat n) i \<Longrightarrow> nor_cells hw w' i = 0xFF"
  using assms unfolding nor_laws_def nor_erase_law_def by (metis (mono_tags, lifting) case_prod_conv)+

lemma nor_writeD:
  assumes "nor_laws hw" "nor_idle hw w" "unat a + length buf \<le> NOR_SIZE" "nor_write_op hw a buf w = (rc, w')"
  shows "nor_idle hw w'" and "\<not> (unat a \<le> i \<and> i < unat a + length buf) \<Longrightarrow> nor_cells hw w' i = nor_cells hw w i"
    "rc = SFUD_SUCCESS \<Longrightarrow> i < length buf \<Longrightarrow>
      nor_cells hw w' (unat a + i) = nor_cells hw w (unat a + i) AND buf ! i"
  using assms unfolding nor_laws_def nor_write_law_def by (metis (mono_tags, lifting) case_prod_conv)+

lemma sector_cover_aligned:
  assumes "a mod FLASH_SECTOR = 0" "n mod FLASH_SECTOR = 0"
  shows "sector_cover a n i \<longleftrightarrow> a \<le> i \<and> i < a + n"
proof -
  obtain p q where pq: "a = FLASH_SECTOR * p" "n = FLASH_SECTOR * q"
    using assms by (metis mod_0_imp_dvd dvdE)
  have pos: "0 < FLASH_SECTOR" by (simp add: FLASH_SECTOR_def)
  show ?thesis
  proof
    assume "sector_cover a n i"
    then obtain j where j: "a \<le> j" "j < a + n" "i div FLASH_SECTOR = j div FLASH_SECTOR"
      by (auto simp: sector_cover_def)
    have "p \<le> j div FLASH_SECTOR" "j div FLASH_SECTOR < p + q"
      using j pos pq div_le_mono [of a j FLASH_SECTOR] by (simp_all add: div_less_iff_less_mult algebra_simps)
    then have "p \<le> i div FLASH_SECTOR" "i div FLASH_SECTOR < p + q" using j by simp_all
    then show "a \<le> i \<and> i < a + n"
      using pos pq by (simp add: div_less_iff_less_mult less_eq_div_iff_mult_less_eq algebra_simps)
  qed (auto simp: sector_cover_def)
qed

lemma sector_cover_self: "a \<le> i \<Longrightarrow> i < a + n \<Longrightarrow> sector_cover a n i"
  by (auto simp: sector_cover_def)

lemma sector_cover_mono: "sector_cover a n i \<Longrightarrow> b \<le> a \<Longrightarrow> a + n \<le> b + m \<Longrightarrow> sector_cover b m i"
  unfolding sector_cover_def by (meson le_trans less_le_trans)

lemma sector_cover_iff:
  assumes "0 < n"
  shows "sector_cover a n i \<longleftrightarrow> a div FLASH_SECTOR \<le> i div FLASH_SECTOR \<and> i div FLASH_SECTOR \<le> (a + n - 1) div FLASH_SECTOR"
proof
  assume "sector_cover a n i"
  then obtain j where j: "a \<le> j" "j \<le> a + n - 1" "i div FLASH_SECTOR = j div FLASH_SECTOR"
    using assms by (auto simp: sector_cover_def)
  then show "a div FLASH_SECTOR \<le> i div FLASH_SECTOR \<and> i div FLASH_SECTOR \<le> (a + n - 1) div FLASH_SECTOR"
    using div_le_mono by metis
next
  assume h: "a div FLASH_SECTOR \<le> i div FLASH_SECTOR \<and> i div FLASH_SECTOR \<le> (a + n - 1) div FLASH_SECTOR"
  define j where "j = max a (min i (a + n - 1))"
  have "i div FLASH_SECTOR = j div FLASH_SECTOR"
    using h div_le_mono [of i a FLASH_SECTOR] div_le_mono [of "a + n - 1" i FLASH_SECTOR] assms
    by (auto simp: j_def max_def min_def)
  moreover have "a \<le> j" "j < a + n" using assms by (auto simp: j_def)
  ultimately show "sector_cover a n i" by (auto simp: sector_cover_def)
qed

end
