(* ===== verification/Fal.thy ===== *)
theory Fal
  imports Fal_Flash
begin

text \<open>
  \<open>packages/fal-v0.3.0/src/fal_partition.c\<close> and \<open>fal.c\<close>: partitions of the flash devices. The
  table of partitions is found in the on-chip flash, below \<open>FAL_PART_TABLE_END_OFFSET\<close>, by its
  magic word, and its items are read at decreasing addresses.

  A partition is the record that the code reads from flash; the positions of its fields are those
  of the 64-byte structure. \<open>malloc_ok\<close> and \<open>realloc_ok\<close> say which allocations succeed, \<open>junk\<close> is
  what an uninitialised buffer holds. The printing of the table is left out.
\<close>

section \<open>Partitions\<close>

record fal_partition =
  magic_word :: u32
  part_name :: "u8 list"
  flash_name :: "u8 list"
  part_offset :: u32
  part_len :: u32
  reserved :: u32

definition PART_SIZE :: nat where "PART_SIZE = 64"
definition FAL_PART_MAGIC_WROD :: u32 where "FAL_PART_MAGIC_WROD = 0x45503130"
definition FAL_PART_TABLE_END_OFFSET :: nat where "FAL_PART_TABLE_END_OFFSET = 65536"

definition part_of_bytes :: "u8 list \<Rightarrow> fal_partition" where
  "part_of_bytes b = \<lparr>magic_word = le32 b, part_name = take 24 (drop 4 b), flash_name = take 24 (drop 28 b),
     part_offset = le32 (drop 52 b), part_len = le32 (drop 56 b), reserved = le32 (drop 60 b)\<rparr>"

record 'w fal =
  fal_flash :: "'w flash_sys"
  partition_table :: "fal_partition list option"
  partition_table_len :: nat
  part_init_ok :: bool
  fal_init_ok :: bool

definition fal_boot :: "'w \<Rightarrow> 'w fal" where
  "fal_boot w = \<lparr>fal_flash = \<lparr>w60x_onchip = w60x_onchip_init, nor_flash0 = nor_flash0_init, flash_init_ok = False,
     flash_world = w\<rparr>, partition_table = None, partition_table_len = 0, part_init_ok = False, fal_init_ok = False\<rparr>"

section \<open>Loading the table\<close>

text \<open>The search for the magic word, from position \<open>k - 1\<close> downwards.\<close>

primrec fal_scan :: "'w flash_hw \<Rightarrow> flash_drv \<Rightarrow> nat \<Rightarrow> u8 list \<Rightarrow> 'w flash_sys \<Rightarrow> nat option \<times> 'w flash_sys" where
  "fal_scan hw drv 0 buf fs = (None, fs)"
| "fal_scan hw drv (Suc off) buf fs =
     (case dev_read hw drv (word_of_nat off) buf fs of
        (rc, buf, fs) \<Rightarrow>
          if rc > 0 then if le32 buf = FAL_PART_MAGIC_WROD then (Some off, fs) else fal_scan hw drv off buf fs
          else (None, fs))"

text \<open>
  The loop that loads the items. \<open>memset\<close> clears \<open>table_num\<close> bytes of the item's buffer, which is
  undefined once \<open>table_num\<close> exceeds its 64 bytes.
\<close>

function fal_load :: "'w flash_hw \<Rightarrow> flash_drv \<Rightarrow> (nat \<Rightarrow> bool) \<Rightarrow> u32 \<Rightarrow> nat \<Rightarrow> u8 list \<Rightarrow>
    fal_partition list option \<Rightarrow> 'w flash_sys \<Rightarrow> (nat \<times> fal_partition list option \<times> 'w flash_sys) option" where
  "fal_load hw drv realloc_ok off table_num new_part table fs =
     (if table_num > PART_SIZE then None
      else
        let new_part = replicate table_num 0 @ drop table_num new_part in
        case dev_read hw drv (off - word_of_nat (PART_SIZE * table_num)) new_part fs of
          (rc, new_part, fs) \<Rightarrow>
            if rc < 0 then Some (0, table, fs)
            else if magic_word (part_of_bytes new_part) \<noteq> FAL_PART_MAGIC_WROD then Some (table_num, table, fs)
            else if \<not> realloc_ok table_num then Some (0, None, fs)
            else fal_load hw drv realloc_ok off (table_num + 1) new_part
                   (Some (take table_num (case table of None \<Rightarrow> [] | Some ps \<Rightarrow> ps) @ [part_of_bytes new_part])) fs)"
  by pat_completeness auto
termination by (relation "measure (\<lambda>(hw, drv, mem, off, k, b, t, fs). PART_SIZE + 1 - k)") auto

declare fal_load.simps [simp del]

text \<open>The check that every partition lies on a device. The comparison with the length is signed.\<close>

fun fal_check :: "fal_partition list \<Rightarrow> 'w flash_sys \<Rightarrow> bool option" where
  "fal_check [] fs = Some True"
| "fal_check (p # ps) fs =
     do { d \<leftarrow> fal_flash_device_find (flash_name p) fs;
          case d of
            None \<Rightarrow> Some False
          | Some dev \<Rightarrow> if sint (part_offset p) \<ge> sint (dev_len dev) then Some False else fal_check ps fs }"

text \<open>The part of \<open>fal_partition_init\<close> behind the checks of the device and of the memory.\<close>

definition fal_partition_load ::
  "'w flash_hw \<Rightarrow> (nat \<Rightarrow> bool) \<Rightarrow> u8 list \<Rightarrow> u8 list \<Rightarrow> fal_flash_dev \<Rightarrow> 'w fal \<Rightarrow> 'w fal option" where
  "fal_partition_load hw realloc_ok magic_junk item_junk dev st =
     (case fal_scan hw (dev_drv dev) (FAL_PART_TABLE_END_OFFSET + 1) magic_junk (fal_flash st) of
        (None, fs) \<Rightarrow> Some (st\<lparr>fal_flash := fs\<rparr>)
      | (Some off, fs) \<Rightarrow>
          do { (table_num, table, fs) \<leftarrow>
                 fal_load hw (dev_drv dev) realloc_ok (word_of_nat off) 0 item_junk (partition_table st) fs;
               let st = st\<lparr>fal_flash := fs, partition_table := table\<rparr> in
               if table_num = 0 then Some st
               else do {
                 ps \<leftarrow> table;
                 ok \<leftarrow> fal_check (take table_num ps) fs;
                 Some (if ok then st\<lparr>partition_table_len := table_num, part_init_ok := True\<rparr>
                       else st\<lparr>partition_table_len := 0\<rparr>) } })"

definition fal_partition_init ::
  "'w flash_hw \<Rightarrow> bool \<Rightarrow> (nat \<Rightarrow> bool) \<Rightarrow> u8 list \<Rightarrow> u8 list \<Rightarrow> 'w fal \<Rightarrow> (int \<times> 'w fal) option" where
  "fal_partition_init hw malloc_ok realloc_ok magic_junk item_junk st =
     (if part_init_ok st then Some (int (partition_table_len st), st)
      else do {
        d \<leftarrow> fal_flash_device_find (onchip_name @ [0]) (fal_flash st);
        case d of
          None \<Rightarrow> Some (int (partition_table_len st), st)
        | Some dev \<Rightarrow>
            if int FAL_PART_TABLE_END_OFFSET \<ge> sint (dev_len dev) then Some (int (partition_table_len st), st)
            else if \<not> malloc_ok then Some (int (partition_table_len st), st)
            else do { st \<leftarrow> fal_partition_load hw realloc_ok magic_junk item_junk dev st;
                      Some (int (partition_table_len st), st) } })"

definition fal_init ::
  "'w flash_hw \<Rightarrow> bool \<Rightarrow> (nat \<Rightarrow> bool) \<Rightarrow> u8 list \<Rightarrow> u8 list \<Rightarrow> 'w fal \<Rightarrow> (int \<times> 'w fal) option" where
  "fal_init hw malloc_ok realloc_ok magic_junk item_junk st =
     (case fal_flash_init hw (fal_flash st) of
        (result, fs) \<Rightarrow>
          do { (result, st) \<leftarrow> (if result < 0 then Some (result, st\<lparr>fal_flash := fs\<rparr>)
                 else fal_partition_init hw malloc_ok realloc_ok magic_junk item_junk (st\<lparr>fal_flash := fs\<rparr>));
               Some (result, if result > 0 then st\<lparr>fal_init_ok := True\<rparr> else st\<lparr>fal_init_ok := False\<rparr>) })"

section \<open>Using the partitions\<close>

fun part_find :: "u8 list \<Rightarrow> fal_partition list \<Rightarrow> fal_partition option option" where
  "part_find name [] = Some None"
| "part_find name (p # ps) =
     do { eq \<leftarrow> strcmp_eq name (part_name p); if eq then Some (Some p) else part_find name ps }"

definition fal_partition_find :: "u8 list \<Rightarrow> 'w fal \<Rightarrow> fal_partition option option" where
  "fal_partition_find name st =
     (if \<not> part_init_ok st then None
      else if partition_table_len st = 0 then Some None
      else do { ps \<leftarrow> partition_table st;
                if partition_table_len st \<le> length ps then part_find name (take (partition_table_len st) ps) else None })"

definition fal_get_partition_table :: "'w fal \<Rightarrow> (fal_partition list option \<times> nat) option" where
  "fal_get_partition_table st =
     (if part_init_ok st then Some (partition_table st, partition_table_len st) else None)"

definition fal_set_partition_table_temp :: "fal_partition list \<Rightarrow> nat \<Rightarrow> 'w fal \<Rightarrow> 'w fal option" where
  "fal_set_partition_table_temp table n st =
     (if part_init_ok st then Some (st\<lparr>partition_table_len := n, partition_table := Some table\<rparr>) else None)"

definition fal_partition_read :: "'w flash_hw \<Rightarrow> fal_partition \<Rightarrow> u32 \<Rightarrow> u8 list \<Rightarrow> 'w fal \<Rightarrow> (int \<times> u8 list \<times> 'w fal) option" where
  "fal_partition_read hw part addr buf st =
     (if addr + buf_size buf > part_len part then Some (- 1, buf, st)
      else do {
        d \<leftarrow> fal_flash_device_find (flash_name part) (fal_flash st);
        case d of
          None \<Rightarrow> Some (- 1, buf, st)
        | Some dev \<Rightarrow>
            (case dev_read hw (dev_drv dev) (part_offset part + addr) buf (fal_flash st) of
               (ret, buf, fs) \<Rightarrow> Some (ret, buf, st\<lparr>fal_flash := fs\<rparr>)) })"

definition fal_partition_write :: "'w flash_hw \<Rightarrow> fal_partition \<Rightarrow> u32 \<Rightarrow> u8 list \<Rightarrow> 'w fal \<Rightarrow> (int \<times> 'w fal) option" where
  "fal_partition_write hw part addr buf st =
     (if addr + buf_size buf > part_len part then Some (- 1, st)
      else do {
        d \<leftarrow> fal_flash_device_find (flash_name part) (fal_flash st);
        case d of
          None \<Rightarrow> Some (- 1, st)
        | Some dev \<Rightarrow>
            (case dev_write hw (dev_drv dev) (part_offset part + addr) buf (fal_flash st) of
               (ret, fs) \<Rightarrow> Some (ret, st\<lparr>fal_flash := fs\<rparr>)) })"

definition fal_partition_erase :: "'w flash_hw \<Rightarrow> fal_partition \<Rightarrow> u32 \<Rightarrow> u32 \<Rightarrow> 'w fal \<Rightarrow> (int \<times> 'w fal) option" where
  "fal_partition_erase hw part addr n st =
     (if addr + n > part_len part then Some (- 1, st)
      else do {
        d \<leftarrow> fal_flash_device_find (flash_name part) (fal_flash st);
        case d of
          None \<Rightarrow> Some (- 1, st)
        | Some dev \<Rightarrow>
            do { (ret, fs) \<leftarrow> dev_erase hw (dev_drv dev) (part_offset part + addr) n (fal_flash st);
                 Some (ret, st\<lparr>fal_flash := fs\<rparr>) } })"

definition fal_partition_erase_all :: "'w flash_hw \<Rightarrow> fal_partition \<Rightarrow> 'w fal \<Rightarrow> (int \<times> 'w fal) option" where
  "fal_partition_erase_all hw part st = fal_partition_erase hw part 0 (part_len part) st"

section \<open>A partition of the SPI flash\<close>

text \<open>
  \<open>nor_part\<close>: the partition lies on the SPI flash, inside the chip and on whole sectors, and the
  devices have been initialised. \<open>part_cell\<close> and \<open>part_bytes\<close>: what the chip and the partition hold.
\<close>

abbreviation part_start :: "fal_partition \<Rightarrow> nat" where
  "part_start part \<equiv> unat (part_offset part)"

definition nor_part :: "'w flash_hw \<Rightarrow> fal_partition \<Rightarrow> 'w fal \<Rightarrow> bool" where
  "nor_part hw part st \<longleftrightarrow>
     nor_laws hw \<and> nor_idle hw (flash_world (fal_flash st)) \<and>
     fal_flash_device_find (flash_name part) (fal_flash st) = Some (Some (nor_flash0 (fal_flash st))) \<and>
     dev_drv (nor_flash0 (fal_flash st)) = SFUD_DRV \<and> dev_addr (nor_flash0 (fal_flash st)) = 0 \<and>
     part_start part + unat (part_len part) \<le> NOR_SIZE \<and>
     part_start part mod FLASH_SECTOR = 0 \<and> unat (part_len part) mod FLASH_SECTOR = 0"

definition part_cell :: "'w flash_hw \<Rightarrow> 'w fal \<Rightarrow> nat \<Rightarrow> u8" where
  "part_cell hw st = nor_cells hw (flash_world (fal_flash st))"

definition part_bytes :: "'w flash_hw \<Rightarrow> fal_partition \<Rightarrow> 'w fal \<Rightarrow> u8 list" where
  "part_bytes hw part st = map (part_cell hw st) [part_start part..<part_start part + unat (part_len part)]"

lemma part_bytes_length [simp]: "length (part_bytes hw part st) = unat (part_len part)"
  by (simp add: part_bytes_def)

lemma part_bytes_nth: "i < unat (part_len part) \<Longrightarrow> part_bytes hw part st ! i = part_cell hw st (part_start part + i)"
  by (simp add: part_bytes_def)

lemma find_world [simp]:
  "fal_flash_device_find name (fs\<lparr>flash_world := w\<rparr>) = fal_flash_device_find name fs"
  by (simp add: fal_flash_device_find_def device_table_def)

lemma nor_part_world:
  "nor_part hw part st \<Longrightarrow> nor_idle hw w \<Longrightarrow> nor_part hw part (st\<lparr>fal_flash := (fal_flash st)\<lparr>flash_world := w\<rparr>\<rparr>)"
  by (simp add: nor_part_def)

lemma NOR_SIZE_less: "n \<le> NOR_SIZE \<Longrightarrow> n < 2 ^ 31"
  by (simp add: NOR_SIZE_def)

lemma part_addr:
  assumes "nor_part hw part st" "unat addr + n \<le> unat (part_len part)"
  shows "unat (part_offset part + addr) = part_start part + unat addr"
    and "part_start part + unat addr + n \<le> NOR_SIZE"
proof -
  show s: "part_start part + unat addr + n \<le> NOR_SIZE" using assms by (simp add: nor_part_def)
  then have "part_start part + unat addr < 2 ^ 32" by (simp add: NOR_SIZE_def)
  then show "unat (part_offset part + addr) = part_start part + unat addr" by (simp add: unat_word_ariths)
qed

lemma buf_size_small:
  assumes "length buf < 2 ^ 31"
  shows "unat (buf_size buf) = length buf" "sint (buf_size buf) = int (length buf)"
proof -
  show u: "unat (buf_size buf) = length buf"
    using assms by (simp add: buf_size_def unat_of_nat)
  then have "uint (buf_size buf) = int (length buf)" by (metis uint_nat)
  then show "sint (buf_size buf) = int (length buf)"
    using assms by (simp add: sint_uint signed_take_bit_int_eq_self_iff)
qed

lemma buf_size_plus:
  assumes "unat addr + length buf < 2 ^ 32"
  shows "unat (addr + buf_size buf) = unat addr + length buf"
  using assms by (simp add: unat_word_ariths buf_size_def unat_of_nat)

text \<open>Inside a partition the bounds check passes and the device is reached.\<close>

lemma part_check_passes:
  assumes "unat addr + length buf \<le> unat (part_len part)"
  shows "\<not> part_len part < addr + buf_size buf"
proof -
  have "unat addr + length buf < 2 ^ 32" using assms unsigned_less [where ?'a = nat, of "part_len part"] by simp
  from buf_size_plus [OF this] show ?thesis using assms by (simp add: word_less_nat_alt)
qed

lemma nor_part_write:
  assumes "nor_part hw part st" "unat addr + length buf \<le> unat (part_len part)"
  shows "\<exists>rc st'. fal_partition_write hw part addr buf st = Some (rc, st') \<and> nor_part hw part st' \<and>
    (\<forall>i. \<not> (part_start part + unat addr \<le> i \<and> i < part_start part + unat addr + length buf) \<longrightarrow>
       part_cell hw st' i = part_cell hw st i) \<and>
    (0 \<le> rc \<longrightarrow> rc = int (length buf) \<and> (\<forall>i < length buf. part_cell hw st' (part_start part + unat addr + i) =
       part_cell hw st (part_start part + unat addr + i) AND buf ! i))"
proof -
  note a = part_addr [OF assms]
  have "length buf < 2 ^ 31" using a(2) by (simp add: NOR_SIZE_def)
  note bs = buf_size_small [OF this]
  obtain rc w where r: "nor_write_op hw (part_offset part + addr) buf (flash_world (fal_flash st)) = (rc, w)"
    using prod.exhaust by blast
  have n: "nor_laws hw" "nor_idle hw (flash_world (fal_flash st))" using assms(1) by (simp_all add: nor_part_def)
  define st' where "st' = st\<lparr>fal_flash := (fal_flash st)\<lparr>flash_world := w\<rparr>\<rparr>"
  have "fal_partition_write hw part addr buf st =
      Some (if rc \<noteq> SFUD_SUCCESS then - 1 else int (length buf), st')"
    using assms part_check_passes [OF assms(2)] r bs
    by (auto simp: fal_partition_write_def dev_write_def nor_part_def st'_def)
  moreover have "nor_part hw part st'" unfolding st'_def using nor_writeD(1) [OF n _ r] by (intro nor_part_world assms(1)) (auto simp: a)
  moreover have "part_cell hw st' = nor_cells hw w" by (simp add: part_cell_def st'_def)
  ultimately show ?thesis
    using nor_writeD [OF n _ r] a by (auto simp: part_cell_def)
qed

lemma nor_part_erase:
  assumes "nor_part hw part st" "unat addr + unat n \<le> unat (part_len part)"
  shows "\<exists>rc st'. fal_partition_erase hw part addr n st = Some (rc, st') \<and> nor_part hw part st' \<and>
    (\<forall>i. \<not> sector_cover (part_start part + unat addr) (unat n) i \<longrightarrow> part_cell hw st' i = part_cell hw st i) \<and>
    (0 \<le> rc \<longrightarrow> (\<forall>i. sector_cover (part_start part + unat addr) (unat n) i \<longrightarrow> part_cell hw st' i = 0xFF))"
proof -
  note a = part_addr [OF assms]
  obtain rc w where r: "nor_erase_op hw (part_offset part + addr) n (flash_world (fal_flash st)) = (rc, w)"
    using prod.exhaust by blast
  have n: "nor_laws hw" "nor_idle hw (flash_world (fal_flash st))" using assms(1) by (simp_all add: nor_part_def)
  have "unat addr + unat n < 2 ^ 32" using assms(2) unsigned_less [where ?'a = nat, of "part_len part"] by simp
  then have c: "\<not> part_len part < addr + n" using assms(2) by (simp add: word_less_nat_alt unat_word_ariths)
  define st' where "st' = st\<lparr>fal_flash := (fal_flash st)\<lparr>flash_world := w\<rparr>\<rparr>"
  have "fal_partition_erase hw part addr n st = Some (if rc \<noteq> SFUD_SUCCESS then - 1 else sint n, st')"
    using assms c r by (auto simp: fal_partition_erase_def dev_erase_def nor_part_def st'_def)
  moreover have "nor_part hw part st'" unfolding st'_def using nor_eraseD(1) [OF n _ r] by (intro nor_part_world assms(1)) (auto simp: a)
  moreover have "part_cell hw st' = nor_cells hw w" by (simp add: part_cell_def st'_def)
  ultimately show ?thesis
    using nor_eraseD [OF n _ r] a by (auto simp: part_cell_def)
qed

lemma nor_part_read:
  assumes "nor_part hw part st" "unat addr + length buf \<le> unat (part_len part)"
  shows "\<exists>st'. fal_partition_read hw part addr buf st =
      Some (int (length buf), take (length buf) (drop (unat addr) (part_bytes hw part st)), st') \<and>
    nor_part hw part st' \<and> part_cell hw st' = part_cell hw st"
proof -
  note a = part_addr [OF assms]
  have "length buf < 2 ^ 31" using a(2) by (simp add: NOR_SIZE_def)
  note bs = buf_size_small [OF this]
  obtain rc b w where r: "nor_read_op hw (part_offset part + addr) buf (flash_world (fal_flash st)) = (rc, b, w)"
    using prod_cases3 by blast
  have l: "b = map (part_cell hw st) [part_start part + unat addr..<part_start part + unat addr + length buf]"
    "nor_cells hw w = part_cell hw st" "nor_idle hw w"
    using nor_readD [OF _ _ _ r] assms(1) a by (auto simp: nor_part_def part_cell_def)
  have "b = take (length buf) (drop (unat addr) (part_bytes hw part st))"
    unfolding l(1) part_bytes_def using assms(2) by (simp add: drop_map take_map drop_upt take_upt)
  then show ?thesis
    using assms part_check_passes [OF assms(2)] r bs l(2) nor_part_world [OF assms(1) l(3)]
    by (auto simp: fal_partition_read_def dev_read_def nor_part_def part_cell_def)
qed

section \<open>The table after initialisation\<close>

text \<open>
  \<open>part_well\<close>: a partition has the magic word, names of full length, and a device it starts on.
  \<open>table_ends\<close>: wherever a magic word is, one of the 65 items from there on downwards has none.
\<close>

definition part_well :: "'w flash_sys \<Rightarrow> fal_partition \<Rightarrow> bool" where
  "part_well fs p \<longleftrightarrow> magic_word p = FAL_PART_MAGIC_WROD \<and>
     (\<exists>dev. fal_flash_device_find (flash_name p) fs = Some (Some dev) \<and> sint (part_offset p) < sint (dev_len dev))"

definition chip_word :: "'w flash_hw \<Rightarrow> 'w \<Rightarrow> u32 \<Rightarrow> u32" where
  "chip_word hw w a = le32 (map (\<lambda>i. chip_cells hw w (a + FLASH_BASE_ADDR + word_of_nat i)) [0..<4])"

definition table_ends :: "'w flash_hw \<Rightarrow> 'w \<Rightarrow> bool" where
  "table_ends hw w \<longleftrightarrow> (\<forall>off \<le> FAL_PART_TABLE_END_OFFSET. \<exists>k \<le> PART_SIZE.
     chip_word hw w (word_of_nat off - word_of_nat (PART_SIZE * k)) \<noteq> FAL_PART_MAGIC_WROD)"

lemma onchip_read:
  assumes "chip_read_law hw"
  shows "\<exists>rc b w. dev_read hw ONCHIP_DRV off buf fs = (rc, b, fs\<lparr>flash_world := w\<rparr>) \<and> length b = length buf \<and>
    chip_cells hw w = chip_cells hw (flash_world fs) \<and>
    (0 \<le> rc \<longrightarrow> 4 \<le> length buf \<longrightarrow> le32 b = chip_word hw (flash_world fs) off)"
proof -
  obtain rc b w where r: "tls_fls_read hw (off + FLASH_BASE_ADDR) buf (flash_world fs) = (rc, b, w)"
    using prod_cases3 by blast
  note c = chip_readD [OF assms r]
  have "le32 b = chip_word hw (flash_world fs) off" if "rc = TLS_FLS_STATUS_OK" "4 \<le> length buf"
  proof -
    have "take 4 b = map (\<lambda>i. chip_cells hw (flash_world fs) (off + FLASH_BASE_ADDR + word_of_nat i)) [0..<4]"
      using that c by (intro nth_equalityI) auto
    then show ?thesis unfolding chip_word_def by (metis le32_take)
  qed
  then show ?thesis using r c(1,2) by (auto simp: dev_read_def wm_flash_read_def)
qed

lemma fal_scan_result:
  assumes "chip_read_law hw" "length buf = 4"
  shows "\<exists>r w. fal_scan hw ONCHIP_DRV n buf fs = (r, fs\<lparr>flash_world := w\<rparr>) \<and>
    chip_cells hw w = chip_cells hw (flash_world fs) \<and> (\<forall>off. r = Some off \<longrightarrow> off < n)"
  using assms(2)
proof (induction n arbitrary: buf fs)
  case 0
  show ?case by (rule exI [of _ None], rule exI [of _ "flash_world fs"]) simp
next
  case (Suc n)
  obtain rc b w where r: "dev_read hw ONCHIP_DRV (word_of_nat n) buf fs = (rc, b, fs\<lparr>flash_world := w\<rparr>)"
    and b: "length b = 4" and c: "chip_cells hw w = chip_cells hw (flash_world fs)"
    using onchip_read [OF assms(1), of "word_of_nat n" buf fs] Suc.prems by auto
  obtain r' w' where ih: "fal_scan hw ONCHIP_DRV n b (fs\<lparr>flash_world := w\<rparr>) = (r', fs\<lparr>flash_world := w'\<rparr>)"
    "chip_cells hw w' = chip_cells hw w" "\<forall>off. r' = Some off \<longrightarrow> off < n"
    using Suc.IH [OF b, of "fs\<lparr>flash_world := w\<rparr>"] by auto
  show ?case
    using r c ih by (auto simp: less_Suc_eq)
qed

declare fal_scan.simps [simp del]

definition part_read :: "fal_partition \<Rightarrow> bool" where
  "part_read p \<longleftrightarrow> magic_word p = FAL_PART_MAGIC_WROD \<and> length (flash_name p) = FAL_DEV_NAME_MAX"

definition table_of :: "nat \<Rightarrow> fal_partition list option \<Rightarrow> bool" where
  "table_of n table \<longleftrightarrow> n = 0 \<or> (\<exists>ps. table = Some ps \<and> length ps = n \<and> list_all part_read ps)"

lemma table_of_snoc:
  assumes "table_of n table" "part_read p"
  shows "table_of (n + 1) (Some (take n (case table of None \<Rightarrow> [] | Some ps \<Rightarrow> ps) @ [p]))"
  using assms by (auto simp: table_of_def)

lemma fal_load_result:
  assumes "chip_read_law hw" "k \<le> PART_SIZE"
  shows "length new_part = PART_SIZE \<Longrightarrow> table_num \<le> k \<Longrightarrow> table_of table_num table \<Longrightarrow>
    chip_word hw (flash_world fs) (off - word_of_nat (PART_SIZE * k)) \<noteq> FAL_PART_MAGIC_WROD \<Longrightarrow>
    \<exists>n t w. fal_load hw ONCHIP_DRV realloc_ok off table_num new_part table fs = Some (n, t, fs\<lparr>flash_world := w\<rparr>) \<and>
      table_of n t"
proof (induction "k - table_num" arbitrary: table_num new_part table fs)
  case (0 table_num new_part table fs)
  then have k: "table_num = k" by simp
  let ?b = "replicate table_num 0 @ drop table_num new_part"
  have "length ?b = PART_SIZE" using 0 k assms(2) by simp
  then obtain rc b w where r: "dev_read hw ONCHIP_DRV (off - word_of_nat (PART_SIZE * table_num)) ?b fs = (rc, b, fs\<lparr>flash_world := w\<rparr>)"
    and l: "0 \<le> rc \<longrightarrow> le32 b = chip_word hw (flash_world fs) (off - word_of_nat (PART_SIZE * table_num))"
    using onchip_read [OF assms(1), of "off - word_of_nat (PART_SIZE * table_num)" ?b fs] by (auto simp: PART_SIZE_def)
  then show ?case
    using 0 k assms(2) by (subst fal_load.simps) (auto simp: Let_def part_of_bytes_def table_of_def)
next
  case (Suc d table_num new_part table fs)
  let ?b = "replicate table_num 0 @ drop table_num new_part"
  have lb: "length ?b = PART_SIZE" using Suc assms(2) by simp
  then obtain rc b w where r: "dev_read hw ONCHIP_DRV (off - word_of_nat (PART_SIZE * table_num)) ?b fs = (rc, b, fs\<lparr>flash_world := w\<rparr>)"
    and b: "length b = PART_SIZE" and c: "chip_cells hw w = chip_cells hw (flash_world fs)"
    using onchip_read [OF assms(1), of "off - word_of_nat (PART_SIZE * table_num)" ?b fs] by (auto simp: PART_SIZE_def)
  let ?p = "part_of_bytes b"
  let ?t = "Some (take table_num (case table of None \<Rightarrow> [] | Some ps \<Rightarrow> ps) @ [?p])"
  have small: "\<not> PART_SIZE < table_num" using Suc assms(2) by simp
  have go: "\<exists>n t w'. fal_load hw ONCHIP_DRV realloc_ok off (table_num + 1) b ?t (fs\<lparr>flash_world := w\<rparr>) =
      Some (n, t, fs\<lparr>flash_world := w'\<rparr>) \<and> table_of n t"
    if "magic_word ?p = FAL_PART_MAGIC_WROD"
  proof -
    have "part_read ?p" using that b by (simp add: part_read_def part_of_bytes_def PART_SIZE_def FAL_DEV_NAME_MAX_def)
    then have "table_of (table_num + 1) ?t" by (rule table_of_snoc [OF Suc.prems(3)])
    moreover have "chip_word hw w = chip_word hw (flash_world fs)" by (simp add: chip_word_def c fun_eq_iff)
    ultimately show ?thesis
      using Suc.hyps(1) [of "table_num + 1" b ?t "fs\<lparr>flash_world := w\<rparr>"] Suc.hyps(2) Suc.prems b by simp
  qed
  show ?case
    using r small go Suc.prems(3) by (subst fal_load.simps) (auto simp: Let_def table_of_def)
qed

lemma flash_find_total:
  "length name = FAL_DEV_NAME_MAX \<Longrightarrow> \<forall>d \<in> set ds. length (dev_name d) = FAL_DEV_NAME_MAX \<Longrightarrow>
    \<exists>d. flash_find name ds = Some d"
proof (induction ds)
  case (Cons d ds)
  obtain e where "strncmp_eq FAL_DEV_NAME_MAX name (dev_name d) = Some e"
    using strncmp_eq_total [of FAL_DEV_NAME_MAX name "dev_name d"] Cons.prems by auto
  then show ?case using Cons by auto
qed simp

lemma fal_check_result:
  "list_all part_read ps \<Longrightarrow> flash_init_ok fs \<Longrightarrow>
    \<forall>d \<in> set (device_table fs). length (dev_name d) = FAL_DEV_NAME_MAX \<Longrightarrow>
    \<exists>ok. fal_check ps fs = Some ok \<and> (ok \<longrightarrow> list_all (part_well fs) ps)"
proof (induction ps)
  case Nil
  show ?case by (rule exI [of _ True]) simp
next
  case (Cons p ps)
  obtain d where d: "fal_flash_device_find (flash_name p) fs = Some d"
    using flash_find_total [of "flash_name p" "device_table fs"] Cons.prems
    by (auto simp: fal_flash_device_find_def part_read_def)
  obtain ok where "fal_check ps fs = Some ok" "ok \<longrightarrow> list_all (part_well fs) ps" using Cons by auto
  then show ?case
    using d Cons.prems by (cases d) (auto simp: part_well_def [of fs p] part_read_def [of p])
qed

text \<open>The devices after \<open>fal_flash_init\<close>.\<close>

lemma dev_names: "length (name24 onchip_name) = FAL_DEV_NAME_MAX" "length (name24 nor_name) = FAL_DEV_NAME_MAX"
  by (simp_all add: name24_def onchip_name_def nor_name_def FAL_DEV_NAME_MAX_def)

lemma flash_init_boot:
  "\<exists>fs. fal_flash_init hw (fal_flash (fal_boot w)) = (0, fs) \<and> flash_init_ok fs \<and> flash_world fs = w \<and>
     dev_drv (w60x_onchip fs) = ONCHIP_DRV \<and> dev_name (w60x_onchip fs) = name24 onchip_name \<and>
     dev_name (nor_flash0 fs) = name24 nor_name \<and> dev_len (w60x_onchip fs) = wm_flash_total hw w"
  by (auto simp: fal_flash_init_def fal_boot_def w60x_onchip_init_def nor_flash0_init_def dev_run_init_def
      onchip_init_def nor_init_def fal_sfud_init_def Let_def)

lemma onchip_found:
  assumes "flash_init_ok fs" "dev_name (w60x_onchip fs) = name24 onchip_name"
  shows "fal_flash_device_find (onchip_name @ [0]) fs = Some (Some (w60x_onchip fs))"
proof -
  have "strncmp_eq FAL_DEV_NAME_MAX (onchip_name @ [0]) (name24 onchip_name) = Some True"
    by (simp add: name24_def onchip_name_def FAL_DEV_NAME_MAX_def numeral_eq_Suc)
  then show ?thesis using assms by (simp add: fal_flash_device_find_def device_table_def)
qed


text \<open>
  A device for the witnesses: two chips, one of bytes by address and one of 16 MB, which do what
  they are asked to. The on-chip flash holds nothing but ones, so that there is no table in it.
\<close>

type_synonym demo_chip = "(u32 \<Rightarrow> u8) \<times> (nat \<Rightarrow> u8)"

definition demo_hw :: "demo_chip flash_hw" where
  "demo_hw = \<lparr>flashtotalsize = (\<lambda>w. 0x100000),
     tls_fls_read = (\<lambda>a buf w. (0, map (\<lambda>i. fst w (a + word_of_nat i)) [0..<length buf], w)),
     tls_fls_write = (\<lambda>a buf w. (1, w)), tls_fls_erase = (\<lambda>s w. (1, w)), sfud_flash_found = True,
     nor_read_op = (\<lambda>a buf w. (0, map (snd w) [unat a..<unat a + length buf], w)),
     nor_write_op = (\<lambda>a buf w. (0, fst w, \<lambda>i. if unat a \<le> i \<and> i < unat a + length buf then snd w i AND buf ! (i - unat a) else snd w i)),
     nor_erase_op = (\<lambda>a n w. (0, fst w, \<lambda>i. if n \<noteq> 0 \<and> unat a div FLASH_SECTOR \<le> i div FLASH_SECTOR \<and>
        i div FLASH_SECTOR \<le> (unat a + unat n - 1) div FLASH_SECTOR then 0xFF else snd w i)),
     chip_cells = fst, nor_cells = snd, nor_idle = (\<lambda>w. True)\<rparr>"

lemma demo_hw_idle [simp]: "nor_idle demo_hw w"
  by (simp add: demo_hw_def)

lemma demo_hw_laws: "nor_laws demo_hw" "chip_read_law demo_hw"
proof -
  have cov: "(n \<noteq> 0 \<and> a div FLASH_SECTOR \<le> i div FLASH_SECTOR \<and> i div FLASH_SECTOR \<le> (a + unat n - 1) div FLASH_SECTOR) \<longleftrightarrow>
      sector_cover a (unat n) i" for a i and n :: u32
  proof (cases "n = 0")
    case True
    then show ?thesis by (simp add: sector_cover_def)
  next
    case False
    then show ?thesis using sector_cover_iff [of "unat n" a i] by (simp add: unat_gt_0)
  qed
  then have "nor_erase_law demo_hw"
    by (simp add: nor_erase_law_def demo_hw_def)
  moreover have "nor_read_law demo_hw" by (simp add: nor_read_law_def demo_hw_def SFUD_SUCCESS_def)
  moreover have "nor_write_law demo_hw" by (simp add: nor_write_law_def demo_hw_def)
  ultimately show "nor_laws demo_hw" by (simp add: nor_laws_def)
  show "chip_read_law demo_hw" by (simp add: chip_read_law_def demo_hw_def)
qed

text \<open>A chip whose table has the item of the EasyFlash partition: the first megabyte of the SPI flash.\<close>

definition ef_name :: "u8 list" where
  "ef_name = [101, 97, 115, 121, 102, 108, 97, 115, 104]"

definition demo_item :: "u8 list" where
  "demo_item = le32_bytes FAL_PART_MAGIC_WROD @ name24 ef_name @ name24 nor_name @
     le32_bytes 0 @ le32_bytes 0x100000 @ le32_bytes 0"

definition demo_flash :: demo_chip where
  "demo_flash = ((\<lambda>a. if a - 0x8010000 < 64 then demo_item ! unat (a - 0x8010000) else 0xFF), \<lambda>i. 0xFF)"

definition demo_part :: fal_partition where
  "demo_part = \<lparr>magic_word = FAL_PART_MAGIC_WROD, part_name = name24 ef_name, flash_name = name24 nor_name,
     part_offset = 0, part_len = 0x100000, reserved = 0\<rparr>"

lemma neg_word_large:
  assumes "0 < n" "n \<le> 65600"
  shows "\<not> - (word_of_nat n :: u32) < 64"
proof -
  have "uint (word_of_nat n :: u32) = int n" using assms by (simp add: uint_nat unat_of_nat)
  then have "uint (- (word_of_nat n :: u32)) = 2 ^ 32 - int n"
    using assms by (simp add: uint_word_ariths zmod_zminus1_eq_if)
  then show ?thesis using assms by (simp add: word_less_alt)
qed

lemma demo_table_ends: "table_ends demo_hw demo_flash"
proof -
  have "chip_word demo_hw demo_flash (word_of_nat off - 64) = 0xFFFFFFFF" if "off \<le> 65536" for off
  proof -
    have far: "\<not> word_of_nat off - 64 + FLASH_BASE_ADDR + word_of_nat i - 0x8010000 < (64 :: u32)" if "i < 4" for i
    proof -
      define n where "n = 65600 - off - i"
      have n: "0 < n" "n \<le> 65600" using that \<open>off \<le> 65536\<close> by (simp_all add: n_def)
      have "word_of_nat off - 64 + FLASH_BASE_ADDR + word_of_nat i - 0x8010000 = - (word_of_nat n :: u32)"
        using that \<open>off \<le> 65536\<close> by (simp add: n_def FLASH_BASE_ADDR_def of_nat_diff algebra_simps)
      then show ?thesis using neg_word_large [OF n] by simp
    qed
    then show ?thesis
      using far [of 0] far [of 1] far [of 2] far [of 3]
      by (simp add: chip_word_def demo_hw_def demo_flash_def upt_rec add.assoc)
  qed
  then show ?thesis
    by (auto simp: table_ends_def FAL_PART_MAGIC_WROD_def FAL_PART_TABLE_END_OFFSET_def PART_SIZE_def intro!: exI [of _ 1])
qed


section \<open>Partitions are separate\<close>

text \<open>
  (C27) As long as address and size do not wrap around at 32 bits, no read, write or erase of a
  partition, whatever its arguments, changes a byte of the flash outside the partition; requests
  beyond the end of the partition are refused and change nothing; a read inside it delivers its bytes.
\<close>

theorem fal_partition_confined:
  assumes "nor_part hw part st" "unat addr + length buf < 2 ^ 32" "unat addr + unat n < 2 ^ 32"
  shows "(\<exists>rc st'. fal_partition_write hw part addr buf st = Some (rc, st') \<and>
           (unat (part_len part) < unat addr + length buf \<longrightarrow> rc = - 1 \<and> st' = st) \<and>
           (\<forall>i. \<not> (part_start part \<le> i \<and> i < part_start part + unat (part_len part)) \<longrightarrow>
              part_cell hw st' i = part_cell hw st i)) \<and>
         (\<exists>rc st'. fal_partition_erase hw part addr n st = Some (rc, st') \<and>
           (unat (part_len part) < unat addr + unat n \<longrightarrow> rc = - 1 \<and> st' = st) \<and>
           (\<forall>i. \<not> (part_start part \<le> i \<and> i < part_start part + unat (part_len part)) \<longrightarrow>
              part_cell hw st' i = part_cell hw st i)) \<and>
         (\<exists>rc buf' st'. fal_partition_read hw part addr buf st = Some (rc, buf', st') \<and>
           part_cell hw st' = part_cell hw st \<and>
           (if unat (part_len part) < unat addr + length buf then rc = - 1
            else buf' = take (length buf) (drop (unat addr) (part_bytes hw part st))))"
    (is "?wr \<and> ?er \<and> ?rd")
proof (intro conjI)
  have big: "part_len part < addr + buf_size buf \<longleftrightarrow> unat (part_len part) < unat addr + length buf"
    using buf_size_plus [OF assms(2)] by (simp add: word_less_nat_alt)
  have bign: "part_len part < addr + n \<longleftrightarrow> unat (part_len part) < unat addr + unat n"
    using assms(3) by (simp add: word_less_nat_alt unat_word_ariths)
  have al: "part_start part mod FLASH_SECTOR = 0" "unat (part_len part) mod FLASH_SECTOR = 0"
    using assms(1) by (simp_all add: nor_part_def)
  show ?wr
  proof (cases "unat (part_len part) < unat addr + length buf")
    case True
    then show ?thesis using big by (simp add: fal_partition_write_def)
  next
    case False
    then show ?thesis using nor_part_write [OF assms(1), of addr buf] by fastforce
  qed
  show ?er
  proof (cases "unat (part_len part) < unat addr + unat n")
    case True
    then show ?thesis using bign by (simp add: fal_partition_erase_def)
  next
    case False
    have "sector_cover (part_start part + unat addr) (unat n) i \<Longrightarrow>
        part_start part \<le> i \<and> i < part_start part + unat (part_len part)" for i
      using sector_cover_mono [of "part_start part + unat addr" "unat n" i "part_start part" "unat (part_len part)"] False
      by (simp add: sector_cover_aligned [OF al])
    then show ?thesis using nor_part_erase [OF assms(1), of addr n] False by fastforce
  qed
  show ?rd
  proof (cases "unat (part_len part) < unat addr + length buf")
    case True
    then show ?thesis using big by (simp add: fal_partition_read_def)
  next
    case False
    then show ?thesis using nor_part_read [OF assms(1), of addr buf] by auto
  qed
qed

definition demo_fal :: "demo_chip fal" where
  "demo_fal = \<lparr>fal_flash = \<lparr>w60x_onchip = w60x_onchip_init\<lparr>dev_len := 0x100000, blk_size := 4096, dev_addr := 0x8000000\<rparr>,
      nor_flash0 = nor_flash0_init\<lparr>dev_len := 0x1000000, blk_size := 4096, dev_drv := SFUD_DRV\<rparr>,
      flash_init_ok = True, flash_world = demo_flash\<rparr>,
     partition_table = Some [demo_part], partition_table_len = 1, part_init_ok = True, fal_init_ok = True\<rparr>"

lemma demo_nor_part: "nor_part demo_hw demo_part demo_fal"
proof -
  have "strncmp_eq FAL_DEV_NAME_MAX (name24 nor_name) (name24 onchip_name) = Some False"
    "strncmp_eq FAL_DEV_NAME_MAX (name24 nor_name) (name24 nor_name) = Some True"
    by code_simp+
  then have "fal_flash_device_find (name24 nor_name) (fal_flash demo_fal) = Some (Some (nor_flash0 (fal_flash demo_fal)))"
    by (simp add: fal_flash_device_find_def device_table_def demo_fal_def w60x_onchip_init_def nor_flash0_init_def)
  then show ?thesis
    using demo_hw_laws(1)
    by (simp add: nor_part_def demo_part_def demo_fal_def nor_flash0_init_def NOR_SIZE_def FLASH_SECTOR_def)
qed

theorem fal_partition_confined_witness:
  "(\<exists>rc st'. fal_partition_write demo_hw demo_part 16 [1, 2] demo_fal = Some (rc, st') \<and>
     (unat (part_len demo_part) < unat (16 :: u32) + length [1 :: u8, 2] \<longrightarrow> rc = - 1 \<and> st' = demo_fal) \<and>
     (\<forall>i. \<not> (part_start demo_part \<le> i \<and> i < part_start demo_part + unat (part_len demo_part)) \<longrightarrow>
        part_cell demo_hw st' i = part_cell demo_hw demo_fal i))"
  using fal_partition_confined [OF demo_nor_part, of 16 "[1, 2]" 4096] by simp

text \<open>
  The bounds check adds in 32 bits: a write to an address \<open>k\<close> bytes before the wrap-around, of
  at least \<open>k\<close> bytes, passes it and goes to the device \<open>k\<close> bytes in front of the partition.
\<close>

theorem fal_bounds_wrap:
  assumes "nor_part hw part st" "0 < k" "k \<le> length buf" "length buf - k \<le> unat (part_len part)"
  shows "fal_partition_write hw part (- word_of_nat k) buf st =
    (case nor_write_op hw (part_offset part - word_of_nat k) buf (flash_world (fal_flash st)) of
       (rc, w) \<Rightarrow> Some (if rc \<noteq> SFUD_SUCCESS then - 1 else sint (buf_size buf),
                        st\<lparr>fal_flash := (fal_flash st)\<lparr>flash_world := w\<rparr>\<rparr>))"
proof -
  have "- word_of_nat k + buf_size buf = word_of_nat (length buf - k)"
    using assms(3) by (simp add: buf_size_def of_nat_diff)
  moreover have "unat (word_of_nat (length buf - k) :: u32) = length buf - k"
    using assms(4) unsigned_less [where ?'a = nat, of "part_len part"] by (simp add: unat_of_nat)
  ultimately have "\<not> part_len part < - word_of_nat k + buf_size buf"
    using assms(4) by (simp add: word_less_nat_alt)
  then show ?thesis
    using assms(1) by (auto simp: fal_partition_write_def dev_write_def nor_part_def split: prod.splits)
qed

theorem fal_bounds_wrap_witness:
  "fal_partition_write demo_hw demo_part (- word_of_nat 1) [7, 8] demo_fal =
    (case nor_write_op demo_hw (part_offset demo_part - word_of_nat 1) [7, 8] (flash_world (fal_flash demo_fal)) of
       (rc, w) \<Rightarrow> Some (if rc \<noteq> SFUD_SUCCESS then - 1 else sint (buf_size [7, 8]),
                        demo_fal\<lparr>fal_flash := (fal_flash demo_fal)\<lparr>flash_world := w\<rparr>\<rparr>))"
  by (rule fal_bounds_wrap [OF demo_nor_part]) (simp_all add: demo_part_def)

end
