(* ===== verification/Ef_Port.thy ===== *)
theory Ef_Port
  imports Fal
begin

text \<open>
  \<open>ports/easyflash/ef_fal_port.c\<close>: what EasyFlash uses of the flash, on the partition \<open>easyflash\<close>.
  The interface is the locale \<open>flash_store\<close>, an area of bytes that can be read, erased and
  programmed; the port is an interpretation of it. A failed \<open>EF_ASSERT\<close> never returns.
\<close>

lemma slice_eqI:
  assumes "a + length ys \<le> length xs" "\<And>i. i < length ys \<Longrightarrow> xs ! (a + i) = ys ! i"
  shows "take (length ys) (drop a xs) = ys"
  using assms by (intro nth_equalityI) auto

section \<open>The interface\<close>

datatype ef_err = EF_NO_ERR | EF_ERASE_ERR | EF_READ_ERR | EF_WRITE_ERR | EF_ENV_NAME_ERR | EF_ENV_NAME_EXIST
  | EF_ENV_FULL | EF_ENV_INIT_FAILED

locale flash_store =
  fixes store_ok :: "'s \<Rightarrow> bool"
    and store_bytes :: "'s \<Rightarrow> u8 list"
    and store_read :: "u32 \<Rightarrow> u8 list \<Rightarrow> 's \<Rightarrow> (ef_err \<times> u8 list \<times> 's) option"
    and store_erase :: "u32 \<Rightarrow> u32 \<Rightarrow> 's \<Rightarrow> (ef_err \<times> 's) option"
    and store_write :: "u32 \<Rightarrow> u8 list \<Rightarrow> 's \<Rightarrow> (ef_err \<times> 's) option"
  assumes read_law: "store_ok s \<Longrightarrow> unat a + length buf \<le> length (store_bytes s) \<Longrightarrow>
      \<exists>s'. store_read a buf s = Some (EF_NO_ERR, take (length buf) (drop (unat a) (store_bytes s)), s') \<and>
        store_ok s' \<and> store_bytes s' = store_bytes s"
    and erase_law: "store_ok s \<Longrightarrow> unat a mod FLASH_SECTOR = 0 \<Longrightarrow> unat a + unat n \<le> length (store_bytes s) \<Longrightarrow>
      \<exists>rc s'. store_erase a n s = Some (rc, s') \<and> store_ok s' \<and> length (store_bytes s') = length (store_bytes s) \<and>
        (rc = EF_NO_ERR \<or> rc = EF_ERASE_ERR) \<and>
        (rc = EF_NO_ERR \<longrightarrow> (\<forall>i < unat n. store_bytes s' ! (unat a + i) = 0xFF))"
    and write_law: "store_ok s \<Longrightarrow> unat a + length buf \<le> length (store_bytes s) \<Longrightarrow>
      \<exists>rc s'. store_write a buf s = Some (rc, s') \<and> store_ok s' \<and> length (store_bytes s') = length (store_bytes s) \<and>
        (rc = EF_NO_ERR \<or> rc = EF_WRITE_ERR) \<and>
        (rc = EF_NO_ERR \<longrightarrow>
           (\<forall>i < length buf. store_bytes s' ! (unat a + i) = store_bytes s ! (unat a + i) AND buf ! i))"
begin

text \<open>Erasing an area and writing to it: the outcomes, and what the area then holds.\<close>

lemma rewrite_outcome:
  assumes "store_ok s" "unat a mod FLASH_SECTOR = 0" "unat a + length buf \<le> length (store_bytes s)"
    "unat n = length buf"
  shows "\<exists>rc s'. store_erase a n s = Some (rc, s') \<and> store_ok s' \<and> length (store_bytes s') = length (store_bytes s) \<and>
    (rc = EF_ERASE_ERR \<or> rc = EF_NO_ERR \<and>
      (\<exists>rc' s''. store_write a buf s' = Some (rc', s'') \<and> store_ok s'' \<and> length (store_bytes s'') = length (store_bytes s) \<and>
        (rc' = EF_WRITE_ERR \<or> rc' = EF_NO_ERR \<and> take (length buf) (drop (unat a) (store_bytes s'')) = buf)))"
proof -
  obtain rc s' where e: "store_erase a n s = Some (rc, s')" "store_ok s'" "length (store_bytes s') = length (store_bytes s)"
    "rc = EF_NO_ERR \<or> rc = EF_ERASE_ERR" and ff: "rc = EF_NO_ERR \<longrightarrow> (\<forall>i < unat n. store_bytes s' ! (unat a + i) = 0xFF)"
    using erase_law [of s a n] assms by auto
  obtain rc' s'' where w: "store_write a buf s' = Some (rc', s'')" "store_ok s''"
    "length (store_bytes s'') = length (store_bytes s')" "rc' = EF_NO_ERR \<or> rc' = EF_WRITE_ERR"
    and st: "rc' = EF_NO_ERR \<longrightarrow>
      (\<forall>i < length buf. store_bytes s'' ! (unat a + i) = store_bytes s' ! (unat a + i) AND buf ! i)"
    using write_law [of s' a buf] assms(3) e(2,3) by auto
  have m: "(255 :: u8) AND x = x" for x
  proof -
    have "(255 :: u8) = - 1" by simp
    then show ?thesis by (metis and.left_neutral)
  qed
  have "take (length buf) (drop (unat a) (store_bytes s'')) = buf" if "rc = EF_NO_ERR" "rc' = EF_NO_ERR"
    using that ff st assms(3,4) w(3) e(3) m by (intro slice_eqI) auto
  then show ?thesis using e w by auto
qed

text \<open>What was read back after a completed rewrite.\<close>

lemma read_back:
  assumes "store_ok s" "unat a + m \<le> length (store_bytes s)" "take m (drop (unat a) (store_bytes s)) = data"
    "unat b = unat a + d" "d + length buf \<le> m"
  shows "\<exists>s'. store_read b buf s = Some (EF_NO_ERR, take (length buf) (drop d data), s') \<and>
    store_ok s' \<and> store_bytes s' = store_bytes s"
proof -
  have "take (length buf) (drop d data) = take (length buf) (drop (unat b) (store_bytes s))"
    using assms(4,5) unfolding assms(3) [symmetric] by (simp add: drop_take min_def add.commute)
  then show ?thesis using read_law [of s b buf] assms by simp
qed

end

section \<open>The port\<close>

record 'w ef_port =
  port_hw :: "'w flash_hw"
  port_part :: "fal_partition option"
  port_fal :: "'w fal"

definition EF_ERASE_MIN_SIZE :: u32 where "EF_ERASE_MIN_SIZE = 4096"

definition FAL_EF_PART_NAME :: "u8 list" where "FAL_EF_PART_NAME = ef_name @ [0]"

definition ef_default_env_set :: "(u8 list \<times> u8 list) list" where
  "ef_default_env_set = [([98, 111, 111, 116, 95, 116, 105, 109, 101, 115, 0], [48, 0])]"

definition ef_port_init :: "'w ef_port \<Rightarrow> (ef_err \<times> (u8 list \<times> u8 list) list \<times> 'w ef_port) option" where
  "ef_port_init st =
     do { p \<leftarrow> fal_partition_find FAL_EF_PART_NAME (port_fal st);
          if p = None then None else Some (EF_NO_ERR, ef_default_env_set, st\<lparr>port_part := p\<rparr>) }"

definition ef_port_read :: "u32 \<Rightarrow> u8 list \<Rightarrow> 'w ef_port \<Rightarrow> (ef_err \<times> u8 list \<times> 'w ef_port) option" where
  "ef_port_read addr buf st =
     do { part \<leftarrow> port_part st;
          (rc, buf, f) \<leftarrow> fal_partition_read (port_hw st) part addr buf (port_fal st);
          Some (EF_NO_ERR, buf, st\<lparr>port_fal := f\<rparr>) }"

definition ef_port_erase :: "u32 \<Rightarrow> u32 \<Rightarrow> 'w ef_port \<Rightarrow> (ef_err \<times> 'w ef_port) option" where
  "ef_port_erase addr n st =
     (if addr mod EF_ERASE_MIN_SIZE \<noteq> 0 then None
      else do { part \<leftarrow> port_part st;
                (rc, f) \<leftarrow> fal_partition_erase (port_hw st) part addr n (port_fal st);
                Some (if rc < 0 then EF_ERASE_ERR else EF_NO_ERR, st\<lparr>port_fal := f\<rparr>) })"

definition ef_port_write :: "u32 \<Rightarrow> u8 list \<Rightarrow> 'w ef_port \<Rightarrow> (ef_err \<times> 'w ef_port) option" where
  "ef_port_write addr buf st =
     do { part \<leftarrow> port_part st;
          (rc, f) \<leftarrow> fal_partition_write (port_hw st) part addr buf (port_fal st);
          Some (if rc < 0 then EF_WRITE_ERR else EF_NO_ERR, st\<lparr>port_fal := f\<rparr>) }"

text \<open>The port is in order: its partition has been found and lies on the SPI flash.\<close>

definition ef_port_ok :: "'w ef_port \<Rightarrow> bool" where
  "ef_port_ok st \<longleftrightarrow> (\<exists>part. port_part st = Some part \<and> nor_part (port_hw st) part (port_fal st))"

definition ef_port_bytes :: "'w ef_port \<Rightarrow> u8 list" where
  "ef_port_bytes st = (case port_part st of None \<Rightarrow> [] | Some part \<Rightarrow> part_bytes (port_hw st) part (port_fal st))"

interpretation ef: flash_store ef_port_ok ef_port_bytes ef_port_read ef_port_erase ef_port_write
proof
  fix s :: "'w ef_port" and a n :: u32 and buf :: "u8 list"
  assume ok: "ef_port_ok s"
  then obtain part where p: "port_part s = Some part" "nor_part (port_hw s) part (port_fal s)"
    by (auto simp: ef_port_ok_def)
  have bytes: "ef_port_bytes s = part_bytes (port_hw s) part (port_fal s)" by (simp add: ef_port_bytes_def p)
  show "\<exists>s'. ef_port_read a buf s = Some (EF_NO_ERR, take (length buf) (drop (unat a) (ef_port_bytes s)), s') \<and>
      ef_port_ok s' \<and> ef_port_bytes s' = ef_port_bytes s"
    if r: "unat a + length buf \<le> length (ef_port_bytes s)"
  proof -
    obtain f where e: "fal_partition_read (port_hw s) part a buf (port_fal s) =
        Some (int (length buf), take (length buf) (drop (unat a) (ef_port_bytes s)), f)"
      "nor_part (port_hw s) part f" "part_cell (port_hw s) f = part_cell (port_hw s) (port_fal s)"
      using nor_part_read [OF p(2), of a buf] r bytes by auto
    have "ef_port_read a buf s = Some (EF_NO_ERR, take (length buf) (drop (unat a) (ef_port_bytes s)), s\<lparr>port_fal := f\<rparr>)"
      using p e by (simp add: ef_port_read_def)
    moreover have "ef_port_ok (s\<lparr>port_fal := f\<rparr>)" using p e by (simp add: ef_port_ok_def)
    moreover have "ef_port_bytes (s\<lparr>port_fal := f\<rparr>) = ef_port_bytes s"
      using p e by (simp add: ef_port_bytes_def part_bytes_def)
    ultimately show ?thesis by blast
  qed
  show "\<exists>rc s'. ef_port_erase a n s = Some (rc, s') \<and> ef_port_ok s' \<and>
      length (ef_port_bytes s') = length (ef_port_bytes s) \<and> (rc = EF_NO_ERR \<or> rc = EF_ERASE_ERR) \<and>
      (rc = EF_NO_ERR \<longrightarrow> (\<forall>i < unat n. ef_port_bytes s' ! (unat a + i) = 0xFF))"
    if al: "unat a mod FLASH_SECTOR = 0" and r: "unat a + unat n \<le> length (ef_port_bytes s)"
  proof -
    have "a mod EF_ERASE_MIN_SIZE = 0"
      using al by (simp add: EF_ERASE_MIN_SIZE_def FLASH_SECTOR_def word_unat_eq_iff unat_mod)
    moreover obtain rc f where e: "fal_partition_erase (port_hw s) part a n (port_fal s) = Some (rc, f)"
      "nor_part (port_hw s) part f" and ff: "0 \<le> rc \<Longrightarrow>
        sector_cover (part_start part + unat a) (unat n) i \<Longrightarrow> part_cell (port_hw s) f i = 0xFF" for i
      using nor_part_erase [OF p(2), of a n] r bytes by auto
    ultimately have "ef_port_erase a n s = Some (if rc < 0 then EF_ERASE_ERR else EF_NO_ERR, s\<lparr>port_fal := f\<rparr>)"
      using p by (simp add: ef_port_erase_def)
    moreover have "ef_port_ok (s\<lparr>port_fal := f\<rparr>)" using p e by (simp add: ef_port_ok_def)
    moreover have "ef_port_bytes (s\<lparr>port_fal := f\<rparr>) = part_bytes (port_hw s) part f" using p by (simp add: ef_port_bytes_def)
    moreover have "part_bytes (port_hw s) part f ! (unat a + i) = 0xFF" if "i < unat n" "0 \<le> rc" for i
      using that ff sector_cover_self [of "part_start part + unat a" "part_start part + unat a + i" "unat n"]
        r bytes by (simp add: part_bytes_nth add.assoc)
    ultimately show ?thesis using bytes by auto
  qed
  show "\<exists>rc s'. ef_port_write a buf s = Some (rc, s') \<and> ef_port_ok s' \<and>
      length (ef_port_bytes s') = length (ef_port_bytes s) \<and> (rc = EF_NO_ERR \<or> rc = EF_WRITE_ERR) \<and>
      (rc = EF_NO_ERR \<longrightarrow> (\<forall>i < length buf. ef_port_bytes s' ! (unat a + i) = ef_port_bytes s ! (unat a + i) AND buf ! i))"
    if r: "unat a + length buf \<le> length (ef_port_bytes s)"
  proof -
    obtain rc f where e: "fal_partition_write (port_hw s) part a buf (port_fal s) = Some (rc, f)"
      "nor_part (port_hw s) part f" and ff: "0 \<le> rc \<Longrightarrow> i < length buf \<Longrightarrow>
        part_cell (port_hw s) f (part_start part + unat a + i) =
        part_cell (port_hw s) (port_fal s) (part_start part + unat a + i) AND buf ! i" for i
      using nor_part_write [OF p(2), of a buf] r bytes by auto
    have "ef_port_write a buf s = Some (if rc < 0 then EF_WRITE_ERR else EF_NO_ERR, s\<lparr>port_fal := f\<rparr>)"
      using p e by (simp add: ef_port_write_def)
    moreover have "ef_port_ok (s\<lparr>port_fal := f\<rparr>)" using p e by (simp add: ef_port_ok_def)
    moreover have "ef_port_bytes (s\<lparr>port_fal := f\<rparr>) = part_bytes (port_hw s) part f" using p by (simp add: ef_port_bytes_def)
    moreover have "part_bytes (port_hw s) part f ! (unat a + i) = part_bytes (port_hw s) part (port_fal s) ! (unat a + i) AND buf ! i"
      if "i < length buf" "0 \<le> rc" for i
      using ff [OF that(2,1)] that r bytes by (simp add: part_bytes_nth add.assoc)
    ultimately show ?thesis using bytes by auto
  qed
qed

end
