(* ===== verification/Ef_Crc.thy ===== *)
theory Ef_Crc
  imports Prelude
begin

text \<open>
  \<open>packages/EasyFlash-v3.3.0/src/ef_utils.c\<close>: the table-driven CRC-32 with which EasyFlash protects
  the environment, its equivalence with the bit-serial CRC-32, and the changes it detects.
\<close>

definition crc32_table :: "u32 list" where
  "crc32_table =
    [0x00000000, 0x77073096, 0xee0e612c, 0x990951ba, 0x076dc419, 0x706af48f,
     0xe963a535, 0x9e6495a3, 0x0edb8832, 0x79dcb8a4, 0xe0d5e91e, 0x97d2d988,
     0x09b64c2b, 0x7eb17cbd, 0xe7b82d07, 0x90bf1d91, 0x1db71064, 0x6ab020f2,
     0xf3b97148, 0x84be41de, 0x1adad47d, 0x6ddde4eb, 0xf4d4b551, 0x83d385c7,
     0x136c9856, 0x646ba8c0, 0xfd62f97a, 0x8a65c9ec, 0x14015c4f, 0x63066cd9,
     0xfa0f3d63, 0x8d080df5, 0x3b6e20c8, 0x4c69105e, 0xd56041e4, 0xa2677172,
     0x3c03e4d1, 0x4b04d447, 0xd20d85fd, 0xa50ab56b, 0x35b5a8fa, 0x42b2986c,
     0xdbbbc9d6, 0xacbcf940, 0x32d86ce3, 0x45df5c75, 0xdcd60dcf, 0xabd13d59,
     0x26d930ac, 0x51de003a, 0xc8d75180, 0xbfd06116, 0x21b4f4b5, 0x56b3c423,
     0xcfba9599, 0xb8bda50f, 0x2802b89e, 0x5f058808, 0xc60cd9b2, 0xb10be924,
     0x2f6f7c87, 0x58684c11, 0xc1611dab, 0xb6662d3d, 0x76dc4190, 0x01db7106,
     0x98d220bc, 0xefd5102a, 0x71b18589, 0x06b6b51f, 0x9fbfe4a5, 0xe8b8d433,
     0x7807c9a2, 0x0f00f934, 0x9609a88e, 0xe10e9818, 0x7f6a0dbb, 0x086d3d2d,
     0x91646c97, 0xe6635c01, 0x6b6b51f4, 0x1c6c6162, 0x856530d8, 0xf262004e,
     0x6c0695ed, 0x1b01a57b, 0x8208f4c1, 0xf50fc457, 0x65b0d9c6, 0x12b7e950,
     0x8bbeb8ea, 0xfcb9887c, 0x62dd1ddf, 0x15da2d49, 0x8cd37cf3, 0xfbd44c65,
     0x4db26158, 0x3ab551ce, 0xa3bc0074, 0xd4bb30e2, 0x4adfa541, 0x3dd895d7,
     0xa4d1c46d, 0xd3d6f4fb, 0x4369e96a, 0x346ed9fc, 0xad678846, 0xda60b8d0,
     0x44042d73, 0x33031de5, 0xaa0a4c5f, 0xdd0d7cc9, 0x5005713c, 0x270241aa,
     0xbe0b1010, 0xc90c2086, 0x5768b525, 0x206f85b3, 0xb966d409, 0xce61e49f,
     0x5edef90e, 0x29d9c998, 0xb0d09822, 0xc7d7a8b4, 0x59b33d17, 0x2eb40d81,
     0xb7bd5c3b, 0xc0ba6cad, 0xedb88320, 0x9abfb3b6, 0x03b6e20c, 0x74b1d29a,
     0xead54739, 0x9dd277af, 0x04db2615, 0x73dc1683, 0xe3630b12, 0x94643b84,
     0x0d6d6a3e, 0x7a6a5aa8, 0xe40ecf0b, 0x9309ff9d, 0x0a00ae27, 0x7d079eb1,
     0xf00f9344, 0x8708a3d2, 0x1e01f268, 0x6906c2fe, 0xf762575d, 0x806567cb,
     0x196c3671, 0x6e6b06e7, 0xfed41b76, 0x89d32be0, 0x10da7a5a, 0x67dd4acc,
     0xf9b9df6f, 0x8ebeeff9, 0x17b7be43, 0x60b08ed5, 0xd6d6a3e8, 0xa1d1937e,
     0x38d8c2c4, 0x4fdff252, 0xd1bb67f1, 0xa6bc5767, 0x3fb506dd, 0x48b2364b,
     0xd80d2bda, 0xaf0a1b4c, 0x36034af6, 0x41047a60, 0xdf60efc3, 0xa867df55,
     0x316e8eef, 0x4669be79, 0xcb61b38c, 0xbc66831a, 0x256fd2a0, 0x5268e236,
     0xcc0c7795, 0xbb0b4703, 0x220216b9, 0x5505262f, 0xc5ba3bbe, 0xb2bd0b28,
     0x2bb45a92, 0x5cb36a04, 0xc2d7ffa7, 0xb5d0cf31, 0x2cd99e8b, 0x5bdeae1d,
     0x9b64c2b0, 0xec63f226, 0x756aa39c, 0x026d930a, 0x9c0906a9, 0xeb0e363f,
     0x72076785, 0x05005713, 0x95bf4a82, 0xe2b87a14, 0x7bb12bae, 0x0cb61b38,
     0x92d28e9b, 0xe5d5be0d, 0x7cdcefb7, 0x0bdbdf21, 0x86d3d2d4, 0xf1d4e242,
     0x68ddb3f8, 0x1fda836e, 0x81be16cd, 0xf6b9265b, 0x6fb077e1, 0x18b74777,
     0x88085ae6, 0xff0f6a70, 0x66063bca, 0x11010b5c, 0x8f659eff, 0xf862ae69,
     0x616bffd3, 0x166ccf45, 0xa00ae278, 0xd70dd2ee, 0x4e048354, 0x3903b3c2,
     0xa7672661, 0xd06016f7, 0x4969474d, 0x3e6e77db, 0xaed16a4a, 0xd9d65adc,
     0x40df0b66, 0x37d83bf0, 0xa9bcae53, 0xdebb9ec5, 0x47b2cf7f, 0x30b5ffe9,
     0xbdbdf21c, 0xcabac28a, 0x53b39330, 0x24b4a3a6, 0xbad03605, 0xcdd70693,
     0x54de5729, 0x23d967bf, 0xb3667a2e, 0xc4614ab8, 0x5d681b02, 0x2a6f2b94,
     0xb40bbe37, 0xc30c8ea1, 0x5a05df1b, 0x2d02ef8d]"

primrec ef_crc_loop :: "u32 \<Rightarrow> u8 list \<Rightarrow> u32 option" where
  "ef_crc_loop crc [] = Some crc"
| "ef_crc_loop crc (p # ps) =
     do { t \<leftarrow> rd crc32_table (unat ((crc XOR ucast p) AND 0xFF)); ef_crc_loop (t XOR drop_bit 8 crc) ps }"

definition ef_calc_crc32 :: "u32 \<Rightarrow> u8 list \<Rightarrow> u32 option" where
  "ef_calc_crc32 crc buf = do { crc \<leftarrow> ef_crc_loop (crc XOR 0xFFFFFFFF) buf; Some (crc XOR 0xFFFFFFFF) }"

section \<open>The bit-serial CRC-32\<close>

text \<open>One step of the shift register with the reflected polynomial, and a byte as eight of them.\<close>

definition crc_bit :: "u32 \<Rightarrow> u32" where
  "crc_bit c = (if bit c 0 then drop_bit 1 c XOR 0xEDB88320 else drop_bit 1 c)"

definition crc_byte :: "u32 \<Rightarrow> u8 \<Rightarrow> u32" where
  "crc_byte c b = (crc_bit ^^ 8) (c XOR ucast b)"

definition crc32_serial :: "u32 \<Rightarrow> u8 list \<Rightarrow> u32" where
  "crc32_serial crc buf = foldl crc_byte (crc XOR 0xFFFFFFFF) buf XOR 0xFFFFFFFF"

lemma crc_bit_xor: "crc_bit (x XOR y) = crc_bit x XOR crc_bit y"
  by (rule bit_word_eqI) (auto simp: crc_bit_def bit_simps)

lemma xor_cancel: "a XOR c = b XOR c \<longleftrightarrow> a = b" "a XOR b = 0 \<longleftrightarrow> a = b" for a b c :: u32
proof -
  have "(a XOR c) XOR c = a" for a c :: u32 by (simp add: xor.assoc)
  then show r: "a XOR c = b XOR c \<longleftrightarrow> a = b" for a b c :: u32 by metis
  show "a XOR b = 0 \<longleftrightarrow> a = b" using r [of a b b] by simp
qed

lemma crc_pow_xor: "(crc_bit ^^ n) (x XOR y) = (crc_bit ^^ n) x XOR (crc_bit ^^ n) y"
  by (induction n) (simp_all add: crc_bit_xor)

text \<open>Low zeros only shift.\<close>

lemma crc_pow_zeros: "(\<And>i. i < n \<Longrightarrow> \<not> bit y i) \<Longrightarrow> (crc_bit ^^ n) y = drop_bit n y"
proof (induction n)
  case (Suc n)
  then have "(crc_bit ^^ n) y = drop_bit n y" "\<not> bit (drop_bit n y) 0" by (simp_all add: bit_simps)
  then show ?case by (simp add: crc_bit_def [of "drop_bit n y"])
qed simp

text \<open>
  The table doubles by its entries at the powers of two, because the shift register is linear.
\<close>

primrec crc_double :: "u32 list \<Rightarrow> u32 list \<Rightarrow> u32 list" where
  "crc_double [] xs = xs"
| "crc_double (b # bs) xs = crc_double bs (xs @ map (\<lambda>x. b XOR x) xs)"

lemma crc_double_step:
  assumes "k < 32"
  shows "map (\<lambda>i. (crc_bit ^^ 8) (word_of_nat i)) [0..<2 ^ Suc k] =
    map (\<lambda>i. (crc_bit ^^ 8) (word_of_nat i)) [0..<2 ^ k] @
    map (\<lambda>x. (crc_bit ^^ 8) (2 ^ k) XOR x) (map (\<lambda>i. (crc_bit ^^ 8) (word_of_nat i)) [0..<2 ^ k])"
proof -
  have "word_of_nat i + 2 ^ k = (2 ^ k :: u32) XOR word_of_nat i" if "i < 2 ^ k" for i
  proof -
    have "\<not> bit i k" using that by (simp add: bit_iff_odd)
    then have "\<not> bit (word_of_nat i :: u32) k" by (simp add: bit_simps)
    then have "(2 ^ k :: u32) AND word_of_nat i = 0"
      by (intro bit_word_eqI) (auto simp: bit_simps bit_exp_iff)
    then show ?thesis by (simp add: disjunctive_add_eq_xor [symmetric] add.commute)
  qed
  then show ?thesis by (simp add: mult_2 upt_add_eq_append crc_pow_xor flip: map_add_upt)
qed

lemma crc_double_map:
  "k + length bs \<le> 32 \<Longrightarrow> bs = map (\<lambda>j. (crc_bit ^^ 8) (2 ^ j)) [k..<k + length bs] \<Longrightarrow>
    crc_double bs (map (\<lambda>i. (crc_bit ^^ 8) (word_of_nat i)) [0..<2 ^ k]) =
    map (\<lambda>i. (crc_bit ^^ 8) (word_of_nat i)) [0..<2 ^ (k + length bs)]"
proof (induction bs arbitrary: k)
  case (Cons b bs)
  have "[k..<k + length (b # bs)] = k # [Suc k..<k + length (b # bs)]" by (rule upt_conv_Cons) simp
  moreover have "k + length (b # bs) = Suc k + length bs" by simp
  ultimately have "[k..<k + length (b # bs)] = k # [Suc k..<Suc k + length bs]" by metis
  then have "b = (crc_bit ^^ 8) (2 ^ k)" "bs = map (\<lambda>j. (crc_bit ^^ 8) (2 ^ j)) [Suc k..<Suc k + length bs]"
    using Cons.prems(2) by simp_all
  then show ?case using Cons.IH [of "Suc k"] Cons.prems(1) crc_double_step [of k] by simp
qed simp

lemma crc_pow8: "(crc_bit ^^ 8) x = crc_bit (crc_bit (crc_bit (crc_bit (crc_bit (crc_bit (crc_bit (crc_bit x)))))))"
  by (simp add: eval_nat_numeral)

lemma crc32_table_serial: "crc32_table = map (\<lambda>i. (crc_bit ^^ 8) (word_of_nat i)) [0..<256]"
proof -
  let ?bs = "[0x77073096, 0xee0e612c, 0x076dc419, 0x0edb8832, 0x1db71064, 0x3b6e20c8, 0x76dc4190, 0xedb88320]"
  have "?bs = map (\<lambda>j. (crc_bit ^^ 8) (2 ^ j)) [0..<0 + length ?bs]"
    by (simp add: upt_rec crc_pow8) (simp add: crc_bit_def)
  moreover have "crc32_table = crc_double ?bs [0]" by (simp add: crc32_table_def)
  moreover have "(crc_bit ^^ 8) 0 = 0" using crc_pow_zeros [of 8 0] by simp
  ultimately show ?thesis using crc_double_map [of 0 ?bs] by simp
qed

lemma crc_table_step:
  "rd crc32_table (unat ((c XOR ucast p) AND 0xFF)) = Some (crc_byte c p XOR drop_bit 8 c)"
proof -
  define x where "x = c XOR (ucast p :: u32)"
  have "x AND 0xFF = take_bit 8 x" by (simp add: take_bit_eq_mask mask_eq_decr_exp)
  then have u: "unat (x AND 0xFF) < 256" using take_bit_nat_less_exp [of 8 "unat x"] by (simp add: unsigned_take_bit_eq)
  have "x = (x AND 0xFF) XOR (x AND NOT 0xFF)" by (rule bit_word_eqI) (auto simp: bit_simps)
  then have "crc_byte c p = (crc_bit ^^ 8) (x AND 0xFF) XOR (crc_bit ^^ 8) (x AND NOT 0xFF)"
    unfolding crc_byte_def x_def [symmetric] by (metis crc_pow_xor)
  moreover have "(crc_bit ^^ 8) (x AND NOT 0xFF) = drop_bit 8 c"
  proof -
    have m: "(0xFF :: u32) = mask 8" by (simp add: mask_eq_decr_exp)
    have "(crc_bit ^^ 8) (x AND NOT 0xFF) = drop_bit 8 (x AND NOT 0xFF)"
      unfolding m by (rule crc_pow_zeros) (simp add: bit_simps)
    also have "\<dots> = drop_bit 8 c"
    proof (rule bit_word_eqI)
      fix n
      have "\<not> bit p (8 + n)" using bit_imp_le_length [of p "8 + n"] by auto
      then show "bit (drop_bit 8 (x AND NOT 0xFF)) n \<longleftrightarrow> bit (drop_bit 8 c) n"
        unfolding m x_def by (auto simp: bit_simps dest: bit_imp_le_length)
    qed
    finally show ?thesis .
  qed
  ultimately have "(crc_bit ^^ 8) (x AND 0xFF) = crc_byte c p XOR drop_bit 8 c" by (simp add: xor.assoc)
  moreover have "rd crc32_table (unat (x AND 0xFF)) = Some ((crc_bit ^^ 8) (x AND 0xFF))"
    using u by (simp add: crc32_table_serial rd_def)
  ultimately show ?thesis by (simp add: x_def)
qed

lemma ef_crc_loop_serial: "ef_crc_loop c buf = Some (foldl crc_byte c buf)"
  by (induction buf arbitrary: c) (simp_all add: crc_table_step xor.assoc)

lemma ef_calc_crc32_serial: "ef_calc_crc32 crc buf = Some (crc32_serial crc buf)"
  by (simp add: ef_calc_crc32_def ef_crc_loop_serial crc32_serial_def)

lemma crc32_serial_append: "crc32_serial (crc32_serial c xs) ys = crc32_serial c (xs @ ys)"
  by (simp add: crc32_serial_def xor.assoc)

text \<open>
  (C37) The table-driven routine computes the bit-serial CRC-32, for every buffer, and reads the
  table inside its bounds; a CRC can be continued over the parts of a buffer.
\<close>

theorem ef_crc_is_crc32:
  "ef_calc_crc32 crc buf = Some (crc32_serial crc buf) \<and>
   Option.bind (ef_calc_crc32 crc xs) (\<lambda>c. ef_calc_crc32 c ys) = ef_calc_crc32 crc (xs @ ys)"
  by (simp add: ef_calc_crc32_serial crc32_serial_append)

section \<open>The changes it detects\<close>

lemma crc_bit_zero: "crc_bit z = 0 \<Longrightarrow> z = 0"
proof -
  assume z: "crc_bit z = 0"
  have "\<not> bit z 0"
  proof
    assume "bit z 0"
    then have "drop_bit 1 z XOR 0xEDB88320 = 0" using z by (simp add: crc_bit_def)
    then have "\<not> bit (drop_bit 1 z XOR (0xEDB88320 :: u32)) 31" by simp
    moreover have "\<not> bit (drop_bit 1 z) 31" using bit_imp_le_length [of z 32] by (auto simp: bit_simps)
    ultimately show False by (simp add: bit_simps)
  qed
  then have d: "drop_bit 1 z = 0" using z by (simp add: crc_bit_def)
  have "\<not> bit z n" for n
  proof (cases n)
    case (Suc m)
    then show ?thesis using arg_cong [OF d, of "\<lambda>x. bit x m"] by (simp add: bit_simps)
  qed (use \<open>\<not> bit z 0\<close> in simp)
  then show "z = 0" by (intro bit_word_eqI) simp
qed

lemma crc_pow_inj: "(crc_bit ^^ n) x = (crc_bit ^^ n) y \<longleftrightarrow> x = y"
proof (induction n)
  case (Suc n)
  have "crc_bit a = crc_bit b \<longleftrightarrow> a = b" for a b
    using crc_bit_zero [of "a XOR b"] by (auto simp: crc_bit_xor xor_cancel)
  then show ?case using Suc by simp
qed simp

lemma crc_foldl_inj: "foldl crc_byte c xs = foldl crc_byte c' xs \<longleftrightarrow> c = c'"
  by (induction xs arbitrary: c c') (simp_all add: crc_byte_def crc_pow_inj xor_cancel)

text \<open>Up to four bytes enter the register as one word.\<close>

primrec le_word :: "nat \<Rightarrow> u8 list \<Rightarrow> u32" where
  "le_word n [] = 0"
| "le_word n (b # bs) = push_bit n (ucast b) XOR le_word (n + 8) bs"

lemma crc_byte_push:
  assumes "n + 8 \<le> 32"
  shows "crc_byte ((crc_bit ^^ n) x) b = (crc_bit ^^ (n + 8)) (x XOR push_bit n (ucast b))"
proof -
  have "(crc_bit ^^ n) (push_bit n (ucast b)) = drop_bit n (push_bit n (ucast b))"
    by (rule crc_pow_zeros) (simp add: bit_simps)
  also have "\<dots> = ucast b"
    using assms by (intro bit_word_eqI) (auto simp: bit_simps dest: bit_imp_le_length)
  finally show ?thesis by (simp add: crc_byte_def crc_pow_xor add.commute [of n] funpow_add)
qed

lemma crc_foldl_word:
  "n + 8 * length bs \<le> 32 \<Longrightarrow>
    foldl crc_byte ((crc_bit ^^ n) x) bs = (crc_bit ^^ (n + 8 * length bs)) (x XOR le_word n bs)"
proof (induction bs arbitrary: n x)
  case (Cons b bs)
  then show ?case using Cons.IH [of "n + 8" "x XOR push_bit n (ucast b)"]
    by (simp add: crc_byte_push xor.assoc add.assoc)
qed simp

lemma le_word_low: "i < n \<Longrightarrow> \<not> bit (le_word n bs) i"
  by (induction bs arbitrary: n) (simp_all add: bit_simps)

lemma le_word_inj:
  "length xs = length ys \<Longrightarrow> n + 8 * length xs \<le> 32 \<Longrightarrow> le_word n xs = le_word n ys \<Longrightarrow> xs = ys"
proof (induction xs ys arbitrary: n rule: list_induct2)
  case (Cons a xs b ys)
  have "bit a i \<longleftrightarrow> bit b i" if "i < 8" for i
  proof -
    have "bit (le_word n (a # xs)) (n + i) = bit (le_word n (b # ys)) (n + i)" using Cons.prems(2) by simp
    then show ?thesis using that Cons.prems(1) le_word_low [of "n + i" "n + 8"] by (simp add: bit_simps)
  qed
  then have ab: "a = b" by (intro bit_word_eqI) simp
  then have "le_word (n + 8) xs = le_word (n + 8) ys"
    using arg_cong [OF Cons.prems(2), of "\<lambda>w. push_bit n (ucast a) XOR w"] by (simp flip: xor.assoc)
  then show ?case using Cons.IH [of "n + 8"] Cons.prems(1) ab by simp
qed simp

lemma crc_burst:
  assumes "length xs = length ys" "length xs \<le> 4" "xs \<noteq> ys"
  shows "ef_calc_crc32 crc (pre @ xs @ post) \<noteq> ef_calc_crc32 crc (pre @ ys @ post)"
proof
  assume "ef_calc_crc32 crc (pre @ xs @ post) = ef_calc_crc32 crc (pre @ ys @ post)"
  then have "foldl crc_byte c xs = foldl crc_byte c ys" if "c = foldl crc_byte (crc XOR 0xFFFFFFFF) pre" for c
    using that by (simp add: ef_calc_crc32_serial crc32_serial_def crc_foldl_inj xor_cancel)
  then obtain c where "foldl crc_byte c xs = foldl crc_byte c ys" by blast
  then have "le_word 0 xs XOR c = le_word 0 ys XOR c"
    using crc_foldl_word [of 0 xs c] crc_foldl_word [of 0 ys c] assms(1,2) by (simp add: crc_pow_inj xor.commute)
  then have "le_word 0 xs = le_word 0 ys" by (simp add: xor_cancel)
  then show False using le_word_inj [of xs ys 0] assms by simp
qed

text \<open>
  A change of the buffer that is confined to four consecutive bytes always changes the CRC.
\<close>

theorem ef_crc_detects_burst:
  assumes "length xs = length ys" "length xs \<le> 4" "xs \<noteq> ys"
  shows "ef_calc_crc32 crc (pre @ xs @ post) \<noteq> ef_calc_crc32 crc (pre @ ys @ post)"
  by (rule crc_burst [OF assms])

theorem ef_crc_detects_burst_witness:
  "ef_calc_crc32 0 ([1, 2] @ [3, 4] @ [5]) \<noteq> ef_calc_crc32 0 ([1, 2] @ [7, 4] @ [5])"
  by (rule ef_crc_detects_burst) simp_all

end
