(* ===== verification/Ef_Env.thy ===== *)
theory Ef_Env
  imports Ef_Port Ef_Crc
begin

text \<open>
  \<open>packages/EasyFlash-v3.3.0/src/ef_env.c\<close> in normal mode, and \<open>easyflash.c\<close>: environment variables,
  cached in RAM and saved to flash with a CRC.

  The cache is the array of 2048 bytes that the code sees as words: the end address, the CRC, and
  the entries \<open>key=value\0\<close>, each padded with zeros to a multiple of four. A position in the cache
  is a pointer into it. Keys and values are C strings outside the cache. The semaphore that guards
  the cache is not modelled: every operation is one step. \<open>memcpy\<close> copies from the lowest address
  upwards.
\<close>

section \<open>The state\<close>

definition ENV_USER_SETTING_SIZE :: nat where "ENV_USER_SETTING_SIZE = 2048"
definition ENV_PARAM_BYTE_SIZE :: nat where "ENV_PARAM_BYTE_SIZE = 8"
definition EF_START_ADDR :: u32 where "EF_START_ADDR = 0"

record 'w ef_sys =
  env_cache :: "u8 list"
  env_start_addr :: u32
  env_cache_changed :: bool
  env_init_ok :: bool
  default_env_set :: "(u8 list \<times> u8 list) list option"
  ef_flash :: "'w ef_port"

definition ef_boot :: "'w ef_port \<Rightarrow> 'w ef_sys" where
  "ef_boot p = \<lparr>env_cache = replicate ENV_USER_SETTING_SIZE 0, env_start_addr = 0, env_cache_changed = False,
     env_init_ok = False, default_env_set = None, ef_flash = p\<rparr>"

definition get_env_system_addr :: "'w ef_sys \<Rightarrow> u32" where
  "get_env_system_addr st = env_start_addr st"

definition get_env_data_addr :: "'w ef_sys \<Rightarrow> u32" where
  "get_env_data_addr st = get_env_system_addr st + word_of_nat ENV_PARAM_BYTE_SIZE"

definition get_env_end_addr :: "'w ef_sys \<Rightarrow> u32" where
  "get_env_end_addr st = le32 (env_cache st)"

definition set_env_end_addr :: "u32 \<Rightarrow> 'w ef_sys \<Rightarrow> 'w ef_sys" where
  "set_env_end_addr a st = st\<lparr>env_cache := le32_bytes a @ drop 4 (env_cache st)\<rparr>"

definition get_env_data_size :: "'w ef_sys \<Rightarrow> u32" where
  "get_env_data_size st =
     (if get_env_end_addr st > get_env_data_addr st then get_env_end_addr st - get_env_data_addr st else 0)"

definition get_env_user_used_size :: "'w ef_sys \<Rightarrow> u32" where
  "get_env_user_used_size st =
     (if get_env_end_addr st > get_env_system_addr st then get_env_end_addr st - get_env_system_addr st else 0)"

definition ef_get_env_write_bytes :: "'w ef_sys \<Rightarrow> u32" where
  "ef_get_env_write_bytes st = get_env_user_used_size st"

section \<open>Entries of the cache\<close>

definition round4 :: "nat \<Rightarrow> nat" where
  "round4 n = (if n mod 4 \<noteq> 0 then (n div 4 + 1) * 4 else n)"

definition write_env :: "u8 list \<Rightarrow> u8 list \<Rightarrow> 'w ef_sys \<Rightarrow> (ef_err \<times> 'w ef_sys) option" where
  "write_env key value st =
     do { key_len \<leftarrow> strlen key;
          value_len \<leftarrow> strlen value;
          let env_str_len = round4 (key_len + value_len + 2);
              used = get_env_user_used_size st;
              p = unat used in
          if word_of_nat env_str_len + used \<ge> word_of_nat ENV_USER_SETTING_SIZE then Some (EF_ENV_FULL, st)
          else do {
            c \<leftarrow> wr_n (env_cache st) p (take key_len key);
            c \<leftarrow> wr c (p + key_len) 61;
            c \<leftarrow> wr_n c (p + key_len + 1) (take value_len value);
            c \<leftarrow> wr c (p + key_len + 1 + value_len) 0;
            c \<leftarrow> wr_n c (p + key_len + value_len + 2) (replicate (env_str_len - (key_len + value_len + 2)) 0);
            let st = st\<lparr>env_cache := c\<rparr> in
            Some (EF_NO_ERR, (set_env_end_addr (get_env_end_addr st + word_of_nat env_str_len) st)\<lparr>env_cache_changed := True\<rparr>) } }"

text \<open>The loop of \<open>find_env\<close> over the entries, from position \<open>env\<close> to \<open>env_end\<close>.\<close>

function find_env_loop :: "u8 list \<Rightarrow> u8 list \<Rightarrow> nat \<Rightarrow> nat \<Rightarrow> nat \<Rightarrow> nat option option" where
  "find_env_loop cache key key_len env env_end =
     (if env < env_end then
        do { same \<leftarrow> strncmp_eq key_len (drop env cache) key;
             found \<leftarrow> (if same then do { c \<leftarrow> rd cache (env + key_len); Some (c = 61) } else Some False);
             if found then Some (Some env)
             else do { len \<leftarrow> strlen (drop env cache);
                       find_env_loop cache key key_len (env + round4 (len + 1)) env_end } }
      else Some None)"
  by pat_completeness auto
termination
  by (relation "measure (\<lambda>(cache, key, key_len, env, env_end). env_end - env)") (auto simp: round4_def split: if_splits)

declare find_env_loop.simps [simp del]

definition find_env :: "u8 list \<Rightarrow> 'w ef_sys \<Rightarrow> nat option option" where
  "find_env key st =
     do { key_len \<leftarrow> strlen key;
          c \<leftarrow> rd key 0;
          if c = 0 then Some None
          else let env_start = ENV_PARAM_BYTE_SIZE; env_end = unat (get_env_user_used_size st) in
               if env_start = env_end then Some None
               else find_env_loop (env_cache st) key key_len env_start env_end }"

definition create_env :: "u8 list \<Rightarrow> u8 list \<Rightarrow> 'w ef_sys \<Rightarrow> (ef_err \<times> 'w ef_sys) option" where
  "create_env key value st =
     do { c \<leftarrow> rd key 0;
          if c = 0 then Some (EF_ENV_NAME_ERR, st)
          else do {
            eq \<leftarrow> strchr key 0 61;
            if eq \<noteq> None then Some (EF_ENV_NAME_ERR, st)
            else do {
              found \<leftarrow> find_env key st;
              if found \<noteq> None then Some (EF_ENV_NAME_EXIST, st) else write_env key value st } } }"

definition del_env :: "u8 list \<Rightarrow> 'w ef_sys \<Rightarrow> (ef_err \<times> 'w ef_sys) option" where
  "del_env key st =
     do { c \<leftarrow> rd key 0;
          if c = 0 then Some (EF_ENV_NAME_ERR, st)
          else do {
            eq \<leftarrow> strchr key 0 61;
            if eq \<noteq> None then Some (EF_ENV_NAME_ERR, st)
            else do {
              found \<leftarrow> find_env key st;
              case found of
                None \<Rightarrow> Some (EF_ENV_NAME_ERR, st)
              | Some p \<Rightarrow>
                  do { len \<leftarrow> strlen (drop p (env_cache st));
                       let del_env_length = round4 (len + 1);
                       let remain = get_env_data_size st - word_of_nat (p + del_env_length - ENV_PARAM_BYTE_SIZE);
                       bs \<leftarrow> rd_n (env_cache st) (p + del_env_length) (unat remain);
                       c \<leftarrow> wr_n (env_cache st) p bs;
                       let st = st\<lparr>env_cache := c\<rparr> in
                       Some (EF_NO_ERR, (set_env_end_addr (get_env_end_addr st - word_of_nat del_env_length) st)
                                          \<lparr>env_cache_changed := True\<rparr>) } } } }"

definition ef_set_env :: "u8 list \<Rightarrow> u8 list option \<Rightarrow> 'w ef_sys \<Rightarrow> (ef_err \<times> 'w ef_sys) option" where
  "ef_set_env key value st =
     (if \<not> env_init_ok st then Some (EF_ENV_INIT_FAILED, st)
      else case value of
        None \<Rightarrow> del_env key st
      | Some value \<Rightarrow>
          do { old_env \<leftarrow> find_env key st;
               case old_env of
                 None \<Rightarrow> create_env key value st
               | Some p \<Rightarrow>
                   do { q \<leftarrow> strchr (env_cache st) p 61;
                        q \<leftarrow> q;
                        same \<leftarrow> strcmp_eq (drop (q + 1) (env_cache st)) value;
                        if same then Some (EF_NO_ERR, st)
                        else do { (result, st) \<leftarrow> del_env key st;
                                  if result = EF_NO_ERR then create_env key value st else Some (result, st) } } })"

definition ef_del_env :: "u8 list \<Rightarrow> 'w ef_sys \<Rightarrow> (ef_err \<times> 'w ef_sys) option" where
  "ef_del_env key st = (if \<not> env_init_ok st then Some (EF_ENV_INIT_FAILED, st) else del_env key st)"

text \<open>\<open>ef_get_env\<close> returns a pointer to the value in the cache.\<close>

definition ef_get_env :: "u8 list \<Rightarrow> 'w ef_sys \<Rightarrow> nat option option" where
  "ef_get_env key st =
     (if \<not> env_init_ok st then Some None
      else do { env \<leftarrow> find_env key st;
                case env of
                  None \<Rightarrow> Some None
                | Some p \<Rightarrow> do { q \<leftarrow> strchr (env_cache st) p 61; Some (map_option Suc q) } })"

section \<open>Saving and loading\<close>

definition calc_env_crc :: "'w ef_sys \<Rightarrow> u32 option" where
  "calc_env_crc st =
     do { bs \<leftarrow> rd_n (env_cache st) 0 4;
          crc32 \<leftarrow> ef_calc_crc32 0 bs;
          bs \<leftarrow> rd_n (env_cache st) ENV_PARAM_BYTE_SIZE (unat (get_env_data_size st));
          ef_calc_crc32 crc32 bs }"

definition env_crc_is_ok :: "'w ef_sys \<Rightarrow> bool option" where
  "env_crc_is_ok st = do { crc \<leftarrow> calc_env_crc st; Some (crc = le32 (drop 4 (env_cache st))) }"

definition set_env_crc :: "u32 \<Rightarrow> 'w ef_sys \<Rightarrow> 'w ef_sys" where
  "set_env_crc crc st = st\<lparr>env_cache := take 4 (env_cache st) @ le32_bytes crc @ drop 8 (env_cache st)\<rparr>"

definition ef_save_env :: "'w ef_sys \<Rightarrow> (ef_err \<times> 'w ef_sys) option" where
  "ef_save_env st =
     (if \<not> env_cache_changed st then Some (EF_NO_ERR, st)
      else do {
        let write_addr = get_env_system_addr st;
        let write_size = get_env_user_used_size st;
        crc \<leftarrow> calc_env_crc st;
        let st = set_env_crc crc st;
        (result, f) \<leftarrow> ef_port_erase write_addr write_size (ef_flash st);
        if result = EF_ERASE_ERR then Some (result, st\<lparr>ef_flash := f\<rparr>)
        else do {
          buf \<leftarrow> rd_n (env_cache st) 0 (unat write_size);
          (result, f) \<leftarrow> ef_port_write write_addr buf f;
          Some (result, st\<lparr>ef_flash := f, env_cache_changed := False\<rparr>) } })"

text \<open>The loop of \<open>ef_env_set_default\<close>; the results of \<open>create_env\<close> are not looked at.\<close>

fun create_default_env :: "(u8 list \<times> u8 list) list \<Rightarrow> 'w ef_sys \<Rightarrow> 'w ef_sys option" where
  "create_default_env [] st = Some st"
| "create_default_env ((key, value) # es) st =
     do { (_, st) \<leftarrow> create_env key value st; create_default_env es st }"

definition ef_env_set_default :: "'w ef_sys \<Rightarrow> (ef_err \<times> 'w ef_sys) option" where
  "ef_env_set_default st =
     do { es \<leftarrow> default_env_set st;
          if es = [] then None
          else do { st \<leftarrow> create_default_env es (set_env_end_addr (get_env_data_addr st) st);
                    ef_save_env st } }"

definition ef_load_env :: "u8 list \<Rightarrow> 'w ef_sys \<Rightarrow> (ef_err \<times> 'w ef_sys) option" where
  "ef_load_env junk st =
     do { (_, bs, f) \<leftarrow> ef_port_read (get_env_system_addr st) junk (ef_flash st);
          let st = st\<lparr>ef_flash := f\<rparr>; env_end_addr = le32 bs in
          if env_end_addr = 0xFFFFFFFF \<or> env_end_addr < env_start_addr st \<or>
             env_end_addr > env_start_addr st + word_of_nat ENV_USER_SETTING_SIZE
          then ef_env_set_default st
          else do {
            let st = set_env_end_addr env_end_addr st;
            buf \<leftarrow> rd_n (env_cache st) ENV_PARAM_BYTE_SIZE (unat (get_env_data_size st));
            (_, buf, f) \<leftarrow> ef_port_read (get_env_data_addr st) buf (ef_flash st);
            c \<leftarrow> wr_n (env_cache st) ENV_PARAM_BYTE_SIZE buf;
            let st = st\<lparr>env_cache := c, ef_flash := f\<rparr>;
            buf \<leftarrow> rd_n (env_cache st) 4 4;
            (_, buf, f) \<leftarrow> ef_port_read (get_env_system_addr st + 4) buf (ef_flash st);
            c \<leftarrow> wr_n (env_cache st) 4 buf;
            let st = st\<lparr>env_cache := c, ef_flash := f\<rparr>;
            ok \<leftarrow> env_crc_is_ok st;
            if \<not> ok then ef_env_set_default st else Some (EF_NO_ERR, st) } }"

text \<open>The assertions of \<open>ef_env_init\<close> on its constants hold for the configured sizes.\<close>

definition ef_env_init :: "u8 list \<Rightarrow> (u8 list \<times> u8 list) list \<Rightarrow> 'w ef_sys \<Rightarrow> (ef_err \<times> 'w ef_sys) option" where
  "ef_env_init junk default_env st =
     (if length default_env \<ge> ENV_USER_SETTING_SIZE then None
      else do {
        (result, st) \<leftarrow> ef_load_env junk (st\<lparr>env_start_addr := EF_START_ADDR, default_env_set := Some default_env\<rparr>);
        Some (result, if result = EF_NO_ERR then st\<lparr>env_init_ok := True\<rparr> else st) })"

definition easyflash_init :: "u8 list \<Rightarrow> 'w ef_sys \<Rightarrow> (ef_err \<times> 'w ef_sys) option" where
  "easyflash_init junk st =
     do { (result, es, f) \<leftarrow> ef_port_init (ef_flash st);
          if result = EF_NO_ERR then ef_env_init junk es (st\<lparr>ef_flash := f\<rparr>) else Some (result, st\<lparr>ef_flash := f\<rparr>) }"

definition ef_set_and_save_env :: "u8 list \<Rightarrow> u8 list option \<Rightarrow> 'w ef_sys \<Rightarrow> (ef_err \<times> 'w ef_sys) option" where
  "ef_set_and_save_env key value st =
     do { (result, st) \<leftarrow> ef_set_env key value st; if result = EF_NO_ERR then ef_save_env st else Some (result, st) }"

definition ef_del_and_save_env :: "u8 list \<Rightarrow> 'w ef_sys \<Rightarrow> (ef_err \<times> 'w ef_sys) option" where
  "ef_del_and_save_env key st =
     do { (result, st) \<leftarrow> ef_del_env key st; if result = EF_NO_ERR then ef_save_env st else Some (result, st) }"

section \<open>The environment that a cache represents\<close>

text \<open>
  A cache represents a list of keys and values: its first word is the end of the data, its data
  are the entries in order. Keys are distinct, not empty and without \<open>=\<close>.
\<close>

type_synonym env = "(u8 list \<times> u8 list) list"

definition env_entry :: "u8 list \<times> u8 list \<Rightarrow> u8 list" where
  "env_entry e = fst e @ 61 # snd e @ 0 # replicate (round4 (length (fst e) + length (snd e) + 2) - (length (fst e) + length (snd e) + 2)) 0"

definition env_data :: "env \<Rightarrow> u8 list" where
  "env_data kvs = concat (map env_entry kvs)"

definition key_ok :: "u8 list \<Rightarrow> bool" where
  "key_ok k \<longleftrightarrow> k \<noteq> [] \<and> cstr k \<and> 61 \<notin> set k"

definition env_well :: "env \<Rightarrow> bool" where
  "env_well kvs \<longleftrightarrow> distinct (map fst kvs) \<and> list_all (\<lambda>e. key_ok (fst e) \<and> cstr (snd e)) kvs"

definition env_size :: "env \<Rightarrow> nat" where
  "env_size kvs = ENV_PARAM_BYTE_SIZE + length (env_data kvs)"

definition env_image :: "env \<Rightarrow> u8 list \<Rightarrow> u8 list \<Rightarrow> u8 list" where
  "env_image kvs crc rest = le32_bytes (word_of_nat (env_size kvs)) @ crc @ env_data kvs @ rest"

definition env_repr :: "env \<Rightarrow> 'w ef_sys \<Rightarrow> bool" where
  "env_repr kvs st \<longleftrightarrow> env_well kvs \<and> env_start_addr st = 0 \<and> env_size kvs < ENV_USER_SETTING_SIZE \<and>
     (\<exists>crc rest. env_cache st = env_image kvs crc rest \<and> length crc = 4 \<and>
        env_size kvs + length rest = ENV_USER_SETTING_SIZE)"

definition env_remove :: "u8 list \<Rightarrow> env \<Rightarrow> env" where
  "env_remove k kvs = filter (\<lambda>e. fst e \<noteq> k) kvs"

lemma round4_bounds: "n \<le> round4 n" "round4 n < n + 4"
  by (auto simp: round4_def) presburger+

lemma env_entry_length [simp]: "length (env_entry e) = round4 (length (fst e) + length (snd e) + 2)"
  using round4_bounds(1) [of "length (fst e) + length (snd e) + 2"] by (simp add: env_entry_def)

lemma env_data_simps [simp]:
  "env_data [] = []" "env_data (e # es) = env_entry e @ env_data es" "env_data (es @ fs) = env_data es @ env_data fs"
  by (simp_all add: env_data_def)

lemma env_well_append: "env_well (a @ b) \<Longrightarrow> env_well a \<and> env_well b"
  by (simp add: env_well_def)

lemma env_remove_absent: "k \<notin> fst ` set kvs \<Longrightarrow> env_remove k kvs = kvs"
  by (force simp: env_remove_def filter_id_conv)

lemma env_remove_append [simp]: "env_remove k (a @ b) = env_remove k a @ env_remove k b"
  by (simp add: env_remove_def)

lemma env_split:
  assumes "env_well kvs" "map_of kvs k = Some v"
  obtains a b where "kvs = a @ (k, v) # b" "k \<notin> fst ` set a" "k \<notin> fst ` set b" "env_remove k kvs = a @ b"
proof -
  obtain a b where ab: "kvs = a @ (k, v) # b" using map_of_SomeD [OF assms(2)] split_list by metis
  then have n: "k \<notin> fst ` set a" "k \<notin> fst ` set b" using assms(1) by (auto simp: env_well_def)
  then have "env_remove k kvs = a @ b"
    using env_remove_absent [of k a] env_remove_absent [of k b] by (simp add: ab env_remove_def)
  then show thesis using that ab n by blast
qed

lemma env_remove_well: "env_well kvs \<Longrightarrow> env_well (env_remove k kvs)"
  unfolding env_well_def env_remove_def by (auto simp: distinct_map list_all_iff inj_on_def)

lemma env_remove_size: "env_size (env_remove k kvs) \<le> env_size kvs"
  by (induction kvs) (auto simp: env_remove_def env_size_def)

section \<open>Finding an entry\<close>

lemma prefix_key:
  assumes "key_ok k" "key_ok k'" "k = take (length k) (k' @ 61 # v)" "(k' @ 61 # v @ 0 # z) ! length k = 61"
  shows "k = k'"
proof -
  consider "length k < length k'" | "length k = length k'" | "length k' < length k" by linarith
  then show ?thesis
  proof cases
    case 1
    then have "k' ! length k = 61" using assms(4) by (simp add: nth_append)
    then show ?thesis using assms(2) 1 by (metis key_ok_def nth_mem)
  next
    case 2
    then show ?thesis using assms(3) by simp
  next
    case 3
    then have "k ! length k' = 61" using assms(3) by (metis nth_append_length nth_take)
    then show ?thesis using assms(1) 3 by (metis key_ok_def nth_mem)
  qed
qed

lemma find_env_loop_result:
  assumes "key_ok k"
  shows "env_well kvs \<Longrightarrow>
    find_env_loop (pre @ env_data kvs @ rest) (k @ 0 # r) (length k) (length pre) (length pre + length (env_data kvs)) =
    Some (if k \<in> fst ` set kvs then Some (length pre + length (env_data (takeWhile (\<lambda>e. fst e \<noteq> k) kvs))) else None)"
proof (induction kvs arbitrary: pre)
  case Nil
  then show ?case by (simp add: find_env_loop.simps)
next
  case (Cons e kvs)
  obtain k' v where e: "e = (k', v)" by (cases e)
  have w: "key_ok k'" "cstr v" "env_well kvs" "k' \<notin> fst ` set kvs" using Cons.prems by (auto simp: env_well_def e)
  define s where "s = k' @ 61 # v"
  define z where "z = replicate (round4 (length k' + length v + 2) - (length k' + length v + 2)) (0 :: u8)"
  let ?R = "z @ env_data kvs @ rest"
  have s: "cstr s" "length s = length k' + length v + 1" using w by (auto simp: s_def key_ok_def)
  have E: "env_entry e = s @ 0 # z" by (simp add: env_entry_def e s_def z_def)
  have d: "drop (length pre) (pre @ env_data (e # kvs) @ rest) = s @ 0 # ?R" by (simp add: E)
  have pos: "length (env_entry e) = round4 (length s + 1)" by (simp add: e s)
  have cmp: "strncmp_eq (length k) (s @ 0 # ?R) (k @ 0 # r) = Some (k = take (length k) s)"
    using strncmp_eq_cstr [of s k ?R "0 # r"] s assms by (simp add: key_ok_def)
  have len: "strlen (s @ 0 # ?R) = Some (length s)" using s by simp
  have lt: "length pre < length pre + length (env_data (e # kvs))" by (simp add: E)
  show ?case
  proof (cases "k = k'")
    case True
    have "rd (pre @ env_data (e # kvs) @ rest) (length pre + length k) = Some 61"
      by (simp add: rd_def E s_def True nth_append)
    then show ?thesis
      using cmp d lt True by (subst find_env_loop.simps) (simp add: s_def e)
  next
    case False
    have rest: "find_env_loop (pre @ env_data (e # kvs) @ rest) (k @ 0 # r) (length k) (length pre + round4 (length s + 1))
        (length pre + length (env_data (e # kvs))) =
        Some (if k \<in> fst ` set kvs then Some (length pre + length (env_entry e) +
          length (env_data (takeWhile (\<lambda>e. fst e \<noteq> k) kvs))) else None)"
      using Cons.IH [of "pre @ env_entry e"] w(3) pos by (simp add: add.assoc)
    have "k = take (length k) s \<Longrightarrow> \<exists>c. rd (pre @ env_data (e # kvs) @ rest) (length pre + length k) = Some c \<and> c \<noteq> 61"
    proof -
      assume k: "k = take (length k) s"
      have "length k = min (length s) (length k)" using arg_cong [OF k, of length] by simp
      then have "length k \<le> length s" by linarith
      then have "rd (pre @ env_data (e # kvs) @ rest) (length pre + length k) = Some ((s @ 0 # ?R) ! length k)"
        by (simp add: rd_def E nth_append)
      moreover have "(s @ 0 # ?R) ! length k \<noteq> 61"
        using prefix_key [OF assms w(1), of v ?R] k False by (auto simp: s_def)
      ultimately show ?thesis by blast
    qed
    moreover have goal: "(if k \<in> fst ` set (e # kvs) then Some (length pre + length (env_data (takeWhile (\<lambda>e. fst e \<noteq> k) (e # kvs)))) else None) =
        (if k \<in> fst ` set kvs then Some (length pre + length (env_entry e) +
          length (env_data (takeWhile (\<lambda>e. fst e \<noteq> k) kvs))) else None)"
      using False by (simp add: e)
    ultimately show ?thesis
      unfolding goal using cmp d lt len rest
      by (subst find_env_loop.simps) (cases "k = take (length k) s", force, force)
  qed
qed

text \<open>Sizes and addresses of a cache that represents an environment.\<close>

lemma small_word: "n \<le> 2048 \<Longrightarrow> unat (word_of_nat n :: u32) = n"
  by (simp add: unat_of_nat)

lemma env_reprE:
  assumes "env_repr kvs st"
  obtains crc rest where "env_cache st = env_image kvs crc rest" "length crc = 4"
    "env_size kvs + length rest = ENV_USER_SETTING_SIZE" "env_well kvs" "env_size kvs < ENV_USER_SETTING_SIZE"
  using assms by (auto simp: env_repr_def)

lemma env_sizes:
  assumes "le32 (env_cache st) = word_of_nat e" "env_start_addr st = 0" "e \<le> 2048"
  shows "unat (get_env_user_used_size st) = e" and "unat (get_env_data_size st) = e - 8"
proof -
  have u: "unat (get_env_end_addr st) = e" using assms by (simp add: get_env_end_addr_def small_word)
  have d: "get_env_data_addr st = 8" "get_env_system_addr st = 0"
    using assms by (simp_all add: get_env_data_addr_def get_env_system_addr_def ENV_PARAM_BYTE_SIZE_def)
  show "unat (get_env_user_used_size st) = e"
    using u d by (auto simp: get_env_user_used_size_def word_less_nat_alt)
  show "unat (get_env_data_size st) = e - 8"
    using u d by (auto simp: get_env_data_size_def word_less_nat_alt unat_sub word_le_nat_alt)
qed

lemma env_repr_sizes:
  assumes "env_repr kvs st"
  shows "unat (get_env_user_used_size st) = env_size kvs"
    and "unat (get_env_data_size st) = length (env_data kvs)"
proof -
  obtain crc rest where c: "env_cache st = env_image kvs crc rest" using assms by (rule env_reprE)
  have "env_size kvs \<le> 2048" "env_start_addr st = 0" using assms by (simp_all add: env_repr_def ENV_USER_SETTING_SIZE_def)
  moreover have "le32 (env_cache st) = word_of_nat (env_size kvs)" by (simp add: c env_image_def)
  ultimately show "unat (get_env_user_used_size st) = env_size kvs" "unat (get_env_data_size st) = length (env_data kvs)"
    using env_sizes [of st "env_size kvs"] by (simp_all add: env_size_def ENV_PARAM_BYTE_SIZE_def)
qed

lemma env_image_split: "length crc = 4 \<Longrightarrow>
  env_image kvs crc rest = (le32_bytes (word_of_nat (env_size kvs)) @ crc) @ env_data kvs @ rest"
  by (simp add: env_image_def)

lemma find_env_result:
  assumes "env_repr kvs st" "key_ok k"
  shows "find_env (k @ 0 # r) st =
    Some (if k \<in> fst ` set kvs then Some (env_size (takeWhile (\<lambda>e. fst e \<noteq> k) kvs)) else None)"
proof -
  obtain crc rest where c: "env_cache st = env_image kvs crc rest" "length crc = 4" "env_well kvs"
    using assms(1) by (rule env_reprE)
  let ?h = "le32_bytes (word_of_nat (env_size kvs)) @ crc"
  have h: "length ?h = 8" using c by simp
  have "rd (k @ 0 # r) 0 = Some (k ! 0)" "k ! 0 \<noteq> 0"
    using assms(2) by (auto simp: rd_def key_ok_def nth_append) (metis length_greater_0_conv nth_mem)
  moreover have "strlen (k @ 0 # r) = Some (length k)" using assms(2) by (simp add: key_ok_def)
  moreover have "8 = env_size kvs \<Longrightarrow> kvs = []"
    by (cases kvs) (auto simp: env_size_def ENV_PARAM_BYTE_SIZE_def round4_def split: if_splits)
  moreover have "find_env_loop (env_cache st) (k @ 0 # r) (length k) 8 (env_size kvs) =
      Some (if k \<in> fst ` set kvs then Some (env_size (takeWhile (\<lambda>e. fst e \<noteq> k) kvs)) else None)"
    using find_env_loop_result [OF assms(2) c(3), of ?h rest r] c(2) h
    by (simp add: c(1) env_image_split env_size_def ENV_PARAM_BYTE_SIZE_def add.commute)
  ultimately show ?thesis
    unfolding find_env_def env_repr_sizes [OF assms(1)] by (cases "kvs = []") (auto simp: ENV_PARAM_BYTE_SIZE_def env_size_def Let_def)
qed

lemma find_env_split:
  assumes "env_repr (a @ (k, v) # b) st"
  shows "find_env (k @ 0 # r) st = Some (Some (env_size a))"
proof -
  have k: "key_ok k" "k \<notin> fst ` set a" using assms by (auto simp: env_repr_def env_well_def)
  have "takeWhile (\<lambda>e. fst e \<noteq> k) (a @ (k, v) # b) = a"
    using k(2) by (intro takeWhile_tail [of "\<lambda>e. fst e \<noteq> k" "(k, v)" a b, THEN trans]) force+
  then show ?thesis using find_env_result [OF assms k(1), of r] by simp
qed

section \<open>Changing the cache\<close>

lemma wr_n_at: "length ys \<le> length zs \<Longrightarrow> n = length xs \<Longrightarrow> wr_n (xs @ zs) n ys = Some ((xs @ ys) @ drop (length ys) zs)"
  by (simp add: wr_n_def)

lemma wr_at: "zs \<noteq> [] \<Longrightarrow> n = length xs \<Longrightarrow> wr (xs @ zs) n y = Some ((xs @ [y]) @ drop 1 zs)"
  by (cases zs) (simp_all add: wr_def)

lemma rd_n_at: "m \<le> length zs \<Longrightarrow> n = length xs \<Longrightarrow> rd_n (xs @ zs) n m = Some (take m zs)"
  by (simp add: rd_n_def)

lemma env_reprI:
  assumes "env_well kvs" "env_start_addr st = 0" "env_size kvs < ENV_USER_SETTING_SIZE" "length crc = 4"
    "env_size kvs + length rest = ENV_USER_SETTING_SIZE" "env_cache st = env_image kvs crc rest"
  shows "env_repr kvs st"
  using assms by (auto simp: env_repr_def)

lemma set_end_image:
  "set_env_end_addr a (st\<lparr>env_cache := le32_bytes b @ c\<rparr>) = st\<lparr>env_cache := le32_bytes a @ c\<rparr>"
  by (simp add: set_env_end_addr_def)

lemma write_env_result:
  assumes "env_repr kvs st" "key_ok k" "cstr v" "k \<notin> fst ` set kvs" "env_size (kvs @ [(k, v)]) < 2 ^ 32"
  shows "\<exists>st'. write_env (k @ 0 # r) (v @ 0 # r') st =
      (if env_size (kvs @ [(k, v)]) < ENV_USER_SETTING_SIZE then Some (EF_NO_ERR, st') else Some (EF_ENV_FULL, st)) \<and>
    (env_size (kvs @ [(k, v)]) < ENV_USER_SETTING_SIZE \<longrightarrow> env_repr (kvs @ [(k, v)]) st' \<and>
      env_cache_changed st' \<and> env_init_ok st' = env_init_ok st \<and> default_env_set st' = default_env_set st \<and> ef_flash st' = ef_flash st)"
proof -
  obtain crc rest where c: "env_cache st = env_image kvs crc rest" "length crc = 4"
      "env_size kvs + length rest = ENV_USER_SETTING_SIZE" "env_well kvs" "env_size kvs < ENV_USER_SETTING_SIZE"
    using assms(1) by (rule env_reprE)
  define n where "n = round4 (length k + length v + 2)"
  have n: "length k + length v + 2 \<le> n" using round4_bounds(1) by (simp add: n_def)
  have sz: "env_size (kvs @ [(k, v)]) = env_size kvs + n" by (simp add: env_size_def n_def)
  define X where "X = le32_bytes (word_of_nat (env_size kvs)) @ crc @ env_data kvs"
  have X: "env_cache st = X @ rest" "length X = env_size kvs"
    using c(1,2) by (simp_all add: env_image_def X_def env_size_def ENV_PARAM_BYTE_SIZE_def)
  have l: "strlen (k @ 0 # r) = Some (length k)" "strlen (v @ 0 # r') = Some (length v)"
    using assms(2,3) by (simp_all add: key_ok_def)
  have start: "get_env_system_addr st = 0" using assms(1) by (simp add: get_env_system_addr_def env_repr_def)
  have used: "unat (get_env_user_used_size st) = env_size kvs" by (rule env_repr_sizes [OF assms(1)])
  have nn: "n < 2 ^ 32" using assms(5) sz by simp
  then have "unat (word_of_nat n + get_env_user_used_size st) = env_size kvs + n"
    using assms(5) sz used by (simp add: unat_word_ariths unat_of_nat)
  then have full: "word_of_nat ENV_USER_SETTING_SIZE \<le> word_of_nat n + get_env_user_used_size st \<longleftrightarrow>
      \<not> env_size (kvs @ [(k, v)]) < ENV_USER_SETTING_SIZE"
    using sz by (simp add: word_le_nat_alt ENV_USER_SETTING_SIZE_def) linarith
  show ?thesis
  proof (cases "env_size (kvs @ [(k, v)]) < ENV_USER_SETTING_SIZE")
    case False
    then show ?thesis using l full by (simp add: write_env_def n_def Let_def)
  next
    case True
    then have fit: "n < length rest" using c(3) sz by simp
    define Y where "Y = X @ k @ 61 # v @ 0 # replicate (n - (length k + length v + 2)) 0"
    define st' where "st' = (set_env_end_addr (word_of_nat (env_size kvs) + word_of_nat n)
        (st\<lparr>env_cache := Y @ drop n rest\<rparr>))\<lparr>env_cache_changed := True\<rparr>"
    have "Y @ drop n rest = env_image kvs crc (env_entry (k, v) @ drop n rest)"
      using c(2) by (simp add: Y_def X_def env_image_def env_entry_def n_def)
    then have "env_cache st' = env_image (kvs @ [(k, v)]) crc (drop n rest)"
      by (simp add: st'_def set_env_end_addr_def env_image_def sz)
    then have "env_repr (kvs @ [(k, v)]) st'"
      using c True fit sz assms by (intro env_reprI) (auto simp: st'_def set_env_end_addr_def env_well_def env_repr_def)
    moreover have "write_env (k @ 0 # r) (v @ 0 # r') st = Some (EF_NO_ERR, st')"
    proof -
      have 1: "wr_n (env_cache st) (env_size kvs) k = Some ((X @ k) @ drop (length k) rest)"
        using X fit n by (simp add: wr_n_at)
      have 2: "wr ((X @ k) @ drop (length k) rest) (env_size kvs + length k) 61 =
          Some (((X @ k) @ [61]) @ drop (length k + 1) rest)"
        using X fit n by (subst wr_at) auto
      have 3: "wr_n (((X @ k) @ [61]) @ drop (length k + 1) rest) (env_size kvs + length k + 1) v =
          Some (((X @ k @ [61]) @ v) @ drop (length k + length v + 1) rest)"
        using X fit n by (subst wr_n_at) (auto simp: add.commute)
      have 4: "wr (((X @ k @ [61]) @ v) @ drop (length k + length v + 1) rest) (env_size kvs + length k + 1 + length v) 0 =
          Some (((X @ k @ [61] @ v) @ [0]) @ drop (length k + length v + 2) rest)"
        using X fit n by (subst wr_at) auto
      have 5: "wr_n (((X @ k @ [61] @ v) @ [0]) @ drop (length k + length v + 2) rest) (env_size kvs + length k + length v + 2)
            (replicate (n - (length k + length v + 2)) 0) = Some (Y @ drop n rest)"
      proof -
        have "Suc (Suc (n - 2)) = n" using n by simp
        then show ?thesis using X fit n by (subst wr_n_at) (auto simp: Y_def)
      qed
      have e: "get_env_end_addr (st\<lparr>env_cache := Y @ drop n rest\<rparr>) = word_of_nat (env_size kvs)"
        by (simp add: get_env_end_addr_def Y_def X_def)
      have n': "round4 (Suc (Suc (length k + length v))) = n" by (simp add: n_def)
      show ?thesis
        unfolding write_env_def using l full True 1 2 3 4 5 e used n'
        by (simp add: Let_def st'_def)
    qed
    moreover have "env_cache_changed st'" "env_init_ok st' = env_init_ok st" "default_env_set st' = default_env_set st"
      "ef_flash st' = ef_flash st" by (simp_all add: st'_def set_env_end_addr_def)
    ultimately show ?thesis using True by auto
  qed
qed

text \<open>What an operation of the cache leaves alone.\<close>

definition env_same :: "'w ef_sys \<Rightarrow> 'w ef_sys \<Rightarrow> bool" where
  "env_same st st' \<longleftrightarrow> env_init_ok st' = env_init_ok st \<and> default_env_set st' = default_env_set st \<and> ef_flash st' = ef_flash st"

lemma key_head:
  assumes "key_ok k"
  shows "\<exists>c. rd (k @ 0 # r) 0 = Some c \<and> c \<noteq> 0" "strchr (k @ 0 # r) 0 61 = Some None"
  using assms strchr_absent [of k 61 "[]" r] by (cases k; auto simp: rd_def key_ok_def)+

lemma create_env_result:
  assumes "env_repr kvs st" "key_ok k" "cstr v" "env_size (kvs @ [(k, v)]) < 2 ^ 32"
  shows "\<exists>rc st'. create_env (k @ 0 # r) (v @ 0 # r') st = Some (rc, st') \<and>
    (if k \<in> fst ` set kvs then rc = EF_ENV_NAME_EXIST \<and> st' = st
     else if env_size (kvs @ [(k, v)]) < ENV_USER_SETTING_SIZE
     then rc = EF_NO_ERR \<and> env_repr (kvs @ [(k, v)]) st' \<and> env_cache_changed st' \<and> env_same st st'
     else rc = EF_ENV_FULL \<and> st' = st)"
proof -
  obtain c where c: "rd (k @ 0 # r) 0 = Some c" "c \<noteq> 0" "strchr (k @ 0 # r) 0 61 = Some None"
    using key_head [OF assms(2), of r] by auto
  show ?thesis
  proof (cases "k \<in> fst ` set kvs")
    case True
    then show ?thesis using c find_env_result [OF assms(1,2), of r] by (simp add: create_env_def)
  next
    case False
    then have f: "create_env (k @ 0 # r) (v @ 0 # r') st = write_env (k @ 0 # r) (v @ 0 # r') st"
      using c find_env_result [OF assms(1,2), of r] by (simp add: create_env_def)
    show ?thesis
      using write_env_result [OF assms(1-3) False assms(4), of r r'] False
      by (cases "env_size (kvs @ [(k, v)]) < ENV_USER_SETTING_SIZE") (auto simp: f env_same_def)
  qed
qed

lemma del_env_result:
  assumes "env_repr (a @ (k, v) # b) st"
  shows "\<exists>st'. del_env (k @ 0 # r) st = Some (EF_NO_ERR, st') \<and> env_repr (a @ b) st' \<and> env_cache_changed st' \<and> env_same st st'"
proof -
  let ?kvs = "a @ (k, v) # b" and ?E = "env_entry (k, v)"
  obtain crc rest where c: "env_cache st = env_image ?kvs crc rest" "length crc = 4"
      "env_size ?kvs + length rest = ENV_USER_SETTING_SIZE" "env_well ?kvs" "env_size ?kvs < ENV_USER_SETTING_SIZE"
    using assms by (rule env_reprE)
  have k: "key_ok k" "cstr v" using c(4) by (auto simp: env_well_def)
  obtain c0 where hd: "rd (k @ 0 # r) 0 = Some c0" "c0 \<noteq> 0" "strchr (k @ 0 # r) 0 61 = Some None"
    using key_head [OF k(1), of r] by auto
  define H where "H = le32_bytes (word_of_nat (env_size ?kvs)) @ crc @ env_data a"
  have H: "env_cache st = H @ ?E @ env_data b @ rest" "length H = env_size a"
    using c(1,2) by (simp_all add: env_image_def H_def env_size_def ENV_PARAM_BYTE_SIZE_def)
  define s where "s = k @ 61 # v"
  have s: "cstr s" "length s + 1 = length k + length v + 2" using k by (auto simp: s_def key_ok_def)
  have "\<exists>z. ?E = s @ 0 # z" by (simp add: env_entry_def s_def)
  then obtain z where "?E = s @ 0 # z" by blast
  then have len: "strlen (drop (env_size a) (env_cache st)) = Some (length s)" using H s(1) by simp
  have E: "round4 (length s + 1) = length ?E" by (simp only: s(2) env_entry_length fst_conv snd_conv)
  have sz: "env_size ?kvs = env_size a + length ?E + length (env_data b)" "env_size (a @ b) = env_size a + length (env_data b)"
    "env_size a + length ?E - ENV_PARAM_BYTE_SIZE = length (env_data a) + length ?E"
    by (simp_all add: env_size_def)
  have small: "env_size ?kvs \<le> 2048" using c(5) by (simp add: ENV_USER_SETTING_SIZE_def)
  have rem: "unat (get_env_data_size st - word_of_nat (env_size a + length ?E - ENV_PARAM_BYTE_SIZE)) = length (env_data b)"
  proof -
    have "unat (word_of_nat (env_size a + length ?E - ENV_PARAM_BYTE_SIZE) :: u32) = length (env_data a) + length ?E"
      using small sz by (subst small_word) (auto simp: env_size_def)
    moreover have "unat (get_env_data_size st) = length (env_data a) + length ?E + length (env_data b)"
      using env_repr_sizes(2) [OF assms] by (simp add: add.assoc)
    ultimately show ?thesis by (simp add: unat_sub word_le_nat_alt)
  qed
  let ?c = "H @ env_data b @ drop (length (env_data b)) (?E @ env_data b @ rest)"
  have cp: "rd_n (env_cache st) (env_size a + length ?E) (length (env_data b)) = Some (env_data b)"
    "wr_n (env_cache st) (env_size a) (env_data b) = Some ?c"
    using H by (simp_all add: rd_n_def wr_n_def)
  have e: "get_env_end_addr (st\<lparr>env_cache := ?c\<rparr>) - word_of_nat (length ?E) = word_of_nat (env_size (a @ b))"
    using sz by (simp add: get_env_end_addr_def H_def)
  define st' where "st' = (set_env_end_addr (word_of_nat (env_size (a @ b))) (st\<lparr>env_cache := ?c\<rparr>))\<lparr>env_cache_changed := True\<rparr>"
  have "del_env (k @ 0 # r) st = Some (EF_NO_ERR, st')"
    using hd find_env_split [OF assms, of r] len E rem cp e by (simp add: del_env_def st'_def Let_def del: env_entry_length)
  moreover have "env_cache st' = env_image (a @ b) crc (drop (length (env_data b)) (?E @ env_data b @ rest))"
    using c(2) by (simp add: st'_def set_env_end_addr_def env_image_def H_def)
  then have "env_repr (a @ b) st'"
    using c sz assms by (intro env_reprI) (auto simp: st'_def set_env_end_addr_def env_well_def env_repr_def)
  moreover have "env_cache_changed st'" "env_same st st'" by (simp_all add: st'_def set_env_end_addr_def env_same_def)
  ultimately show ?thesis by blast
qed

section \<open>Setting and getting\<close>

definition env_put :: "u8 list \<Rightarrow> u8 list \<Rightarrow> env \<Rightarrow> env" where
  "env_put k v kvs = env_remove k kvs @ [(k, v)]"

lemma map_of_env_put: "map_of (env_put k v kvs) = (map_of kvs)(k \<mapsto> v)"
proof
  fix x
  have "map_of (env_remove k kvs) x = (if x = k then None else map_of kvs x)"
    by (induction kvs) (auto simp: env_remove_def)
  then show "map_of (env_put k v kvs) x = ((map_of kvs)(k \<mapsto> v)) x"
    by (auto simp: env_put_def map_add_def split: option.splits)
qed

lemma map_of_env_remove: "map_of (env_remove k kvs) = (map_of kvs)(k := None)"
  by (induction kvs) (auto simp: env_remove_def fun_eq_iff)

text \<open>The string that the caller of \<open>ef_get_env\<close> finds at the pointer.\<close>

definition ef_env_value :: "u8 list \<Rightarrow> 'w ef_sys \<Rightarrow> u8 list option option" where
  "ef_env_value key st =
     do { p \<leftarrow> ef_get_env key st;
          case p of None \<Rightarrow> Some None
          | Some p \<Rightarrow> do { n \<leftarrow> strlen (drop p (env_cache st)); Some (Some (take n (drop p (env_cache st)))) } }"

text \<open>Where the entry of a key stands in the cache.\<close>

lemma env_entry_at:
  assumes "env_repr (a @ (k, v) # b) st"
  shows "\<exists>pre post. env_cache st = pre @ k @ 61 # v @ 0 # post \<and> length pre = env_size a"
proof -
  obtain crc rest where c: "env_cache st = env_image (a @ (k, v) # b) crc rest" "length crc = 4"
    using assms by (rule env_reprE)
  define pre where "pre = le32_bytes (word_of_nat (env_size (a @ (k, v) # b))) @ crc @ env_data a"
  have "\<exists>post. env_cache st = pre @ k @ 61 # v @ 0 # post" by (simp add: c env_image_def env_entry_def pre_def)
  moreover have "length pre = env_size a" using c(2) by (simp add: pre_def env_size_def ENV_PARAM_BYTE_SIZE_def)
  ultimately show ?thesis by blast
qed

lemma env_old_value:
  assumes "env_repr (a @ (k, v) # b) st"
  shows "\<exists>post. strchr (env_cache st) (env_size a) 61 = Some (Some (env_size a + length k)) \<and>
    drop (Suc (env_size a + length k)) (env_cache st) = v @ 0 # post"
proof -
  obtain pre post where c: "env_cache st = pre @ k @ 61 # v @ 0 # post" "length pre = env_size a"
    using env_entry_at [OF assms] by blast
  have "key_ok k" using assms by (auto simp: env_repr_def env_well_def)
  then have "strchr (env_cache st) (length pre) 61 = Some (Some (length pre + length k))"
    using strchr_found [of k 61 pre] by (simp add: c key_ok_def)
  moreover have "drop (Suc (length pre + length k)) (env_cache st) = v @ 0 # post" by (simp add: c)
  ultimately show ?thesis using c(2) by auto
qed

lemma ef_env_value_result:
  assumes "env_repr kvs st" "env_init_ok st" "key_ok k"
  shows "ef_env_value (k @ 0 # r) st = Some (map_of kvs k)"
proof (cases "map_of kvs k")
  case None
  then have "k \<notin> fst ` set kvs" by (simp add: map_of_eq_None_iff)
  then show ?thesis
    using find_env_result [OF assms(1,3), of r] None assms(2) by (simp add: ef_env_value_def ef_get_env_def)
next
  case (Some v)
  have "env_well kvs" using assms(1) by (simp add: env_repr_def)
  then obtain a b where kvs: "kvs = a @ (k, v) # b" using Some by (rule env_split)
  have v: "cstr v" using assms(1) by (auto simp: kvs env_repr_def env_well_def)
  obtain post where p: "strchr (env_cache st) (env_size a) 61 = Some (Some (env_size a + length k))"
    "drop (Suc (env_size a + length k)) (env_cache st) = v @ 0 # post"
    using env_old_value [OF assms(1) [unfolded kvs]] by blast
  show ?thesis
    using find_env_split [OF assms(1) [unfolded kvs], of r] p v Some assms(2)
    by (simp add: ef_env_value_def ef_get_env_def)
qed

lemma env_same_refl [simp]: "env_same st st" by (simp add: env_same_def)

lemma ef_set_env_result:
  assumes "env_repr kvs st" "env_init_ok st" "key_ok k" "cstr v" "env_size (kvs @ [(k, v)]) < 2 ^ 32"
  shows "\<exists>rc st'. ef_set_env (k @ 0 # r) (Some (v @ 0 # r')) st = Some (rc, st') \<and> env_same st st' \<and>
    (if map_of kvs k = Some v then rc = EF_NO_ERR \<and> st' = st
     else if env_size (env_put k v kvs) < ENV_USER_SETTING_SIZE
     then rc = EF_NO_ERR \<and> env_repr (env_put k v kvs) st' \<and> env_cache_changed st'
     else rc = EF_ENV_FULL \<and> env_repr (env_remove k kvs) st')"
proof (cases "map_of kvs k")
  case None
  then have k: "k \<notin> fst ` set kvs" by (simp add: map_of_eq_None_iff)
  then have "ef_set_env (k @ 0 # r) (Some (v @ 0 # r')) st = create_env (k @ 0 # r) (v @ 0 # r') st"
    using find_env_result [OF assms(1,3), of r] assms(2) by (simp add: ef_set_env_def)
  then show ?thesis
    using create_env_result [OF assms(1,3,4,5), of r r'] k None assms(1)
    by (auto simp: env_put_def env_remove_absent split: if_splits)
next
  case (Some w)
  have "env_well kvs" using assms(1) by (simp add: env_repr_def)
  then obtain a b where kvs: "kvs = a @ (k, w) # b" "k \<notin> fst ` set a" "k \<notin> fst ` set b" "env_remove k kvs = a @ b"
    using Some by (rule env_split)
  note rep = assms(1) [unfolded kvs(1)]
  have w: "cstr w" using rep by (auto simp: env_repr_def env_well_def)
  obtain post where p: "strchr (env_cache st) (env_size a) 61 = Some (Some (env_size a + length k))"
    "drop (Suc (env_size a + length k)) (env_cache st) = w @ 0 # post"
    using env_old_value [OF rep] by blast
  have step: "ef_set_env (k @ 0 # r) (Some (v @ 0 # r')) st =
    (if w = v then Some (EF_NO_ERR, st)
     else do { (result, st) \<leftarrow> del_env (k @ 0 # r) st;
               if result = EF_NO_ERR then create_env (k @ 0 # r) (v @ 0 # r') st else Some (result, st) })"
    using find_env_split [OF rep, of r] p w assms(2,4) by (simp add: ef_set_env_def)
  show ?thesis
  proof (cases "w = v")
    case True
    then show ?thesis using step Some by simp
  next
    case False
    obtain st1 where d: "del_env (k @ 0 # r) st = Some (EF_NO_ERR, st1)" "env_repr (a @ b) st1" "env_same st st1"
      using del_env_result [OF rep, of r] by blast
    have "env_size ((a @ b) @ [(k, v)]) \<le> env_size (kvs @ [(k, v)])" by (simp add: kvs(1) env_size_def)
    then have "env_size ((a @ b) @ [(k, v)]) < 2 ^ 32" using assms(5) by simp
    note create = create_env_result [OF d(2) assms(3,4) this, of r r']
    have put: "env_put k v kvs = (a @ b) @ [(k, v)]" by (simp only: env_put_def kvs(4))
    have nin: "k \<notin> fst ` set (a @ b)" using kvs(2,3) by auto
    obtain rc st' where c: "create_env (k @ 0 # r) (v @ 0 # r') st1 = Some (rc, st')"
      "if env_size (env_put k v kvs) < ENV_USER_SETTING_SIZE
       then rc = EF_NO_ERR \<and> env_repr (env_put k v kvs) st' \<and> env_cache_changed st' \<and> env_same st1 st'
       else rc = EF_ENV_FULL \<and> st' = st1"
      unfolding put using create nin by metis
    have "env_same st st'" using c(2) d(3) by (auto simp: env_same_def split: if_splits)
    then show ?thesis using step False d c Some kvs(4) by (auto split: if_splits)
  qed
qed

text \<open>
  (C21) The cache implements a finite map. In an initialised environment, setting a key makes exactly
  that key map to the value and leaves every other key as it was; when there is no room the error
  is reported and the key is gone, its old value included.
\<close>

theorem ef_set_env_refines_map:
  assumes "env_repr kvs st" "env_init_ok st" "key_ok k" "cstr v" "env_size (kvs @ [(k, v)]) < 2 ^ 32"
  shows "\<exists>rc st' kvs'. ef_set_env (k @ 0 # r) (Some (v @ 0 # r')) st = Some (rc, st') \<and> env_repr kvs' st' \<and>
    (\<forall>k2 r2. key_ok k2 \<longrightarrow> ef_env_value (k2 @ 0 # r2) st' = Some (map_of kvs' k2)) \<and>
    (if map_of kvs k = Some v \<or> env_size (env_put k v kvs) < ENV_USER_SETTING_SIZE
     then rc = EF_NO_ERR \<and> map_of kvs' = (map_of kvs)(k \<mapsto> v)
     else rc = EF_ENV_FULL \<and> map_of kvs' = (map_of kvs)(k := None))"
proof -
  obtain rc st' where s: "ef_set_env (k @ 0 # r) (Some (v @ 0 # r')) st = Some (rc, st')" "env_same st st'"
    "if map_of kvs k = Some v then rc = EF_NO_ERR \<and> st' = st
     else if env_size (env_put k v kvs) < ENV_USER_SETTING_SIZE
     then rc = EF_NO_ERR \<and> env_repr (env_put k v kvs) st' \<and> env_cache_changed st'
     else rc = EF_ENV_FULL \<and> env_repr (env_remove k kvs) st'"
    using ef_set_env_result [OF assms, of r r'] by blast
  define kvs' where "kvs' = (if map_of kvs k = Some v then kvs
    else if env_size (env_put k v kvs) < ENV_USER_SETTING_SIZE then env_put k v kvs else env_remove k kvs)"
  have rep: "env_repr kvs' st'" "env_init_ok st'" using s assms(1,2) by (auto simp: kvs'_def env_same_def)
  have "map_of kvs' = (if map_of kvs k = Some v \<or> env_size (env_put k v kvs) < ENV_USER_SETTING_SIZE
      then (map_of kvs)(k \<mapsto> v) else (map_of kvs)(k := None))"
    by (auto simp: kvs'_def map_of_env_put map_of_env_remove)
  moreover have "rc = (if map_of kvs k = Some v \<or> env_size (env_put k v kvs) < ENV_USER_SETTING_SIZE then EF_NO_ERR else EF_ENV_FULL)"
    using s(3) by (auto split: if_splits)
  ultimately show ?thesis using s(1) rep ef_env_value_result [OF rep] by auto
qed

definition demo_kvs :: env where "demo_kvs = [([97], [49])]"

definition demo_env :: "demo_chip ef_sys" where
  "demo_env = \<lparr>env_cache = env_image demo_kvs [0, 0, 0, 0] (replicate 2036 0), env_start_addr = 0,
     env_cache_changed = False, env_init_ok = True, default_env_set = Some ef_default_env_set,
     ef_flash = \<lparr>port_hw = demo_hw, port_part = Some demo_part, port_fal = demo_fal\<rparr>\<rparr>"

lemma demo_env_repr: "env_repr demo_kvs demo_env"
  by (rule env_reprI [of _ _ "[0, 0, 0, 0]" "replicate 2036 0"])
    (simp_all add: demo_env_def env_well_def key_ok_def env_size_def ENV_USER_SETTING_SIZE_def ENV_PARAM_BYTE_SIZE_def round4_def demo_kvs_def)

theorem ef_set_env_refines_map_witness:
  "\<exists>rc st' kvs'. ef_set_env ([98] @ 0 # []) (Some ([50, 51] @ 0 # [])) demo_env = Some (rc, st') \<and> env_repr kvs' st' \<and>
    (\<forall>k2 r2. key_ok k2 \<longrightarrow> ef_env_value (k2 @ 0 # r2) st' = Some (map_of kvs' k2)) \<and>
    (if map_of demo_kvs [98] = Some [50, 51] \<or> env_size (env_put [98] [50, 51] demo_kvs) < ENV_USER_SETTING_SIZE
     then rc = EF_NO_ERR \<and> map_of kvs' = (map_of demo_kvs)([98] \<mapsto> [50, 51])
     else rc = EF_ENV_FULL \<and> map_of kvs' = (map_of demo_kvs)([98] := None))"
  by (rule ef_set_env_refines_map [OF demo_env_repr])
    (simp_all add: demo_env_def key_ok_def env_size_def ENV_PARAM_BYTE_SIZE_def round4_def demo_kvs_def)

section \<open>Saving\<close>

definition env_crc :: "env \<Rightarrow> u32" where
  "env_crc kvs = crc32_serial 0 (le32_bytes (word_of_nat (env_size kvs)) @ env_data kvs)"

text \<open>The flash holds an environment: the image of it with the CRC, at the start of the partition.\<close>

definition flash_holds :: "env \<Rightarrow> 'w ef_port \<Rightarrow> bool" where
  "flash_holds kvs f \<longleftrightarrow> ef_port_ok f \<and> ENV_USER_SETTING_SIZE \<le> length (ef_port_bytes f) \<and> env_well kvs \<and>
     env_size kvs < ENV_USER_SETTING_SIZE \<and>
     take (env_size kvs) (ef_port_bytes f) = env_image kvs (le32_bytes (env_crc kvs)) []"

lemma calc_env_crc_image:
  assumes "env_cache st = env_image kvs crc rest" "length crc = 4" "unat (get_env_data_size st) = length (env_data kvs)"
  shows "calc_env_crc st = Some (env_crc kvs)"
proof -
  have "rd_n (env_cache st) 0 4 = Some (le32_bytes (word_of_nat (env_size kvs)))"
    by (simp add: assms(1) env_image_def rd_n_def)
  moreover have "rd_n (env_cache st) ENV_PARAM_BYTE_SIZE (length (env_data kvs)) = Some (env_data kvs)"
    using assms(2) by (simp add: assms(1) env_image_def rd_n_def ENV_PARAM_BYTE_SIZE_def)
  ultimately show ?thesis
    using assms(3) by (simp add: calc_env_crc_def ef_calc_crc32_serial crc32_serial_append env_crc_def)
qed

lemma ef_save_env_result:
  assumes "env_repr kvs st" "env_cache_changed st" "ef_port_ok (ef_flash st)"
    "ENV_USER_SETTING_SIZE \<le> length (ef_port_bytes (ef_flash st))"
  shows "\<exists>rc st'. ef_save_env st = Some (rc, st') \<and> env_repr kvs st' \<and> env_init_ok st' = env_init_ok st \<and>
    default_env_set st' = default_env_set st \<and> ef_port_ok (ef_flash st') \<and>
    length (ef_port_bytes (ef_flash st')) = length (ef_port_bytes (ef_flash st)) \<and>
    (env_cache_changed st' \<longleftrightarrow> rc = EF_ERASE_ERR) \<and>
    (rc = EF_ERASE_ERR \<or> rc = EF_WRITE_ERR \<or> rc = EF_NO_ERR \<and> flash_holds kvs (ef_flash st'))"
proof -
  obtain crc rest where c: "env_cache st = env_image kvs crc rest" "length crc = 4"
      "env_size kvs + length rest = ENV_USER_SETTING_SIZE" "env_well kvs" "env_size kvs < ENV_USER_SETTING_SIZE"
    using assms(1) by (rule env_reprE)
  have start: "env_start_addr st = 0" using assms(1) by (simp add: env_repr_def)
  note sz = env_repr_sizes [OF assms(1)]
  have crc: "calc_env_crc st = Some (env_crc kvs)" by (rule calc_env_crc_image [OF c(1,2) sz(2)])
  define st1 where "st1 = set_env_crc (env_crc kvs) st"
  have c1: "env_cache st1 = env_image kvs (le32_bytes (env_crc kvs)) rest"
    using c(1,2) by (simp add: st1_def set_env_crc_def env_image_def)
  then have rep: "env_repr kvs (st1\<lparr>ef_flash := f, env_cache_changed := ch\<rparr>)" for f ch
    using c start by (intro env_reprI) (auto simp: st1_def set_env_crc_def)
  have rep1: "env_repr kvs (st1\<lparr>ef_flash := f\<rparr>)" for f
    using c c1 start by (intro env_reprI) (auto simp: st1_def set_env_crc_def)
  define buf where "buf = env_image kvs (le32_bytes (env_crc kvs)) []"
  have buf: "rd_n (env_cache st1) 0 (env_size kvs) = Some buf" "length buf = env_size kvs"
    by (simp_all add: c1 buf_def env_image_def rd_n_def env_size_def ENV_PARAM_BYTE_SIZE_def)
  obtain rc f where e: "ef_port_erase 0 (get_env_user_used_size st) (ef_flash st) = Some (rc, f)" "ef_port_ok f"
    "length (ef_port_bytes f) = length (ef_port_bytes (ef_flash st))"
    "rc = EF_ERASE_ERR \<or> rc = EF_NO_ERR \<and>
      (\<exists>rc' f'. ef_port_write 0 buf f = Some (rc', f') \<and> ef_port_ok f' \<and> length (ef_port_bytes f') = length (ef_port_bytes (ef_flash st)) \<and>
        (rc' = EF_WRITE_ERR \<or> rc' = EF_NO_ERR \<and> take (length buf) (ef_port_bytes f') = buf))"
    using ef.rewrite_outcome [OF assms(3), of 0 buf "get_env_user_used_size st"] assms(4) buf(2) c(5) sz(1) by auto
  have fl: "ef_flash st1 = ef_flash st" "env_init_ok st1 = env_init_ok st" "default_env_set st1 = default_env_set st"
    "env_cache_changed st1" using assms(2) by (simp_all add: st1_def set_env_crc_def)
  have run: "ef_save_env st = (if rc = EF_ERASE_ERR then Some (rc, st1\<lparr>ef_flash := f\<rparr>)
      else do { (result, f) \<leftarrow> ef_port_write 0 buf f; Some (result, st1\<lparr>ef_flash := f, env_cache_changed := False\<rparr>) })"
    using assms(2) crc e(1) buf(1) sz(1) start fl(1) by (simp add: ef_save_env_def Let_def get_env_system_addr_def flip: st1_def)
  from e(4) show ?thesis
  proof
    assume "rc = EF_ERASE_ERR"
    then show ?thesis using run e rep1 fl by simp
  next
    assume "rc = EF_NO_ERR \<and> (\<exists>rc' f'. ef_port_write 0 buf f = Some (rc', f') \<and> ef_port_ok f' \<and>
        length (ef_port_bytes f') = length (ef_port_bytes (ef_flash st)) \<and>
        (rc' = EF_WRITE_ERR \<or> rc' = EF_NO_ERR \<and> take (length buf) (ef_port_bytes f') = buf))"
    then obtain rc' f' where w: "rc = EF_NO_ERR" "ef_port_write 0 buf f = Some (rc', f')" "ef_port_ok f'"
      "length (ef_port_bytes f') = length (ef_port_bytes (ef_flash st))"
      "rc' = EF_WRITE_ERR \<or> rc' = EF_NO_ERR \<and> take (length buf) (ef_port_bytes f') = buf" by blast
    then have "rc' = EF_NO_ERR \<Longrightarrow> flash_holds kvs f'"
      using assms(4) c(4,5) buf(2) by (auto simp: flash_holds_def buf_def)
    then show ?thesis using run w rep [where f = f' and ch = False] fl by auto
  qed
qed

section \<open>Loading\<close>

text \<open>
  What loading does for any contents \<open>B\<close> of the partition: \<open>env_loaded\<close> is the cache it leaves,
  \<open>env_stored_ok\<close> says that the stored CRC is right.
\<close>

definition env_loaded :: "u8 list \<Rightarrow> u8 list \<Rightarrow> u8 list" where
  "env_loaded B c = take 8 B @ take (unat (le32 B) - 8) (drop 8 B) @ drop (8 + (unat (le32 B) - 8)) c"

definition env_stored_ok :: "u8 list \<Rightarrow> bool" where
  "env_stored_ok B \<longleftrightarrow> unat (le32 B) \<le> ENV_USER_SETTING_SIZE \<and>
     crc32_serial 0 (take 4 B @ take (unat (le32 B) - 8) (drop 8 B)) = le32 (drop 4 B)"

lemma ef_load_env_run:
  assumes "ef_port_ok (ef_flash st)" "ef_port_bytes (ef_flash st) = B" "ENV_USER_SETTING_SIZE \<le> length B"
    "env_start_addr st = 0" "length (env_cache st) = ENV_USER_SETTING_SIZE" "length junk = 4"
  shows "\<exists>f. ef_port_ok f \<and> ef_port_bytes f = B \<and> ef_load_env junk st =
    (if unat (le32 B) > ENV_USER_SETTING_SIZE then ef_env_set_default (st\<lparr>ef_flash := f\<rparr>)
     else if env_stored_ok B then Some (EF_NO_ERR, st\<lparr>ef_flash := f, env_cache := env_loaded B (env_cache st)\<rparr>)
     else ef_env_set_default (st\<lparr>ef_flash := f, env_cache := env_loaded B (env_cache st)\<rparr>))"
proof -
  let ?e = "unat (le32 B)"
  have len: "2048 \<le> length B" "length (env_cache st) = 2048" using assms(3,5) by (simp_all add: ENV_USER_SETTING_SIZE_def)
  have rd: "\<exists>f'. ef_port_read b buf f = Some (EF_NO_ERR, take (length buf) (drop (unat b) B), f') \<and> ef_port_ok f' \<and> ef_port_bytes f' = B"
    if "ef_port_ok f" "ef_port_bytes f = B" "unat b + length buf \<le> 2048" for b buf and f :: "'a ef_port"
    using ef.read_law [of f b buf] that len by auto
  obtain f1 where r1: "ef_port_read 0 junk (ef_flash st) = Some (EF_NO_ERR, take 4 B, f1)" "ef_port_ok f1" "ef_port_bytes f1 = B"
    using rd [OF assms(1,2), of 0 junk] assms(6) by auto
  have "(0xFFFFFFFF :: u32) \<noteq> le32 B" if "?e \<le> 2048" using that by auto
  then have bad: "(le32 B = 0xFFFFFFFF \<or> le32 B < env_start_addr st \<or> le32 B > env_start_addr st + 2048) \<longleftrightarrow> ?e > 2048"
    unfolding assms(4) by (auto simp: word_less_nat_alt)
  show ?thesis
  proof (cases "?e > 2048")
    case True
    then show ?thesis using r1 bad
      by (auto simp: ef_load_env_def get_env_system_addr_def assms(4) ENV_USER_SETTING_SIZE_def)
  next
    case False
    define d where "d = ?e - 8"
    have d: "8 + d \<le> 2048" using False by (simp add: d_def)
    have b4: "le32_bytes (le32 B) = take 4 B" using len(1) by (simp add: le32_bytes_le32)
    let ?c1 = "take 4 B @ drop 4 (env_cache st)"
    let ?st1 = "st\<lparr>ef_flash := f1, env_cache := ?c1\<rparr>"
    have s1: "set_env_end_addr (le32 B) (st\<lparr>ef_flash := f1\<rparr>) = ?st1" by (simp add: set_env_end_addr_def b4)
    have l4: "le32 (take 4 B @ x) = le32 B" for x using le32_take [of "take 4 B @ x"] len(1) by simp
    have ds: "unat (get_env_data_size (st\<lparr>ef_flash := f, env_cache := take 4 B @ x\<rparr>)) = d" for f x
      using env_sizes(2) [of "st\<lparr>ef_flash := f, env_cache := take 4 B @ x\<rparr>" ?e] False assms(4) by (simp add: l4 d_def)
    have da: "get_env_data_addr ?st1 = 8" "get_env_system_addr (st\<lparr>ef_flash := f, env_cache := x\<rparr>) = 0" for f x
      using assms(4) by (simp_all add: get_env_data_addr_def get_env_system_addr_def ENV_PARAM_BYTE_SIZE_def)
    obtain bs where b: "rd_n ?c1 8 d = Some bs" "length bs = d" using len d by (simp add: rd_n_def)
    obtain f2 where r2: "ef_port_read 8 bs f1 = Some (EF_NO_ERR, take d (drop 8 B), f2)" "ef_port_ok f2" "ef_port_bytes f2 = B"
      using rd [OF r1(2,3), of 8 bs] b(2) d by auto
    define c4 where "c4 = take 4 (drop 4 (env_cache st))"
    have c4: "length c4 = 4" using len by (simp add: c4_def)
    let ?c2 = "take 4 B @ c4 @ take d (drop 8 B) @ drop (8 + d) (env_cache st)"
    have w2: "wr_n ?c1 8 (take d (drop 8 B)) = Some ?c2"
      using len d by (simp add: wr_n_def c4_def)
    obtain f3 where r3: "ef_port_read 4 c4 f2 = Some (EF_NO_ERR, take 4 (drop 4 B), f3)" "ef_port_ok f3" "ef_port_bytes f3 = B"
      using rd [OF r2(2,3), of 4 c4] c4 by auto
    have t8: "take 8 B = take 4 B @ take 4 (drop 4 B)" using take_add [of 4 4 B] by simp
    let ?c3 = "take 4 B @ take 4 (drop 4 B) @ take d (drop 8 B) @ drop (8 + d) (env_cache st)"
    have c3: "env_loaded B (env_cache st) = ?c3" by (simp add: env_loaded_def d_def t8)
    have w3: "rd_n ?c2 4 4 = Some c4" "wr_n ?c2 4 (take 4 (drop 4 B)) = Some ?c3"
      using c4 len by (simp_all add: rd_n_def wr_n_def)
    define st3 where "st3 = st\<lparr>ef_flash := f3, env_cache := ?c3\<rparr>"
    have "rd_n ?c3 0 4 = Some (take 4 B)" "rd_n ?c3 8 d = Some (take d (drop 8 B))"
      using len d by (simp_all add: rd_n_def)
    then have "calc_env_crc st3 = Some (crc32_serial 0 (take 4 B @ take d (drop 8 B)))"
      using ds by (simp add: calc_env_crc_def st3_def ENV_PARAM_BYTE_SIZE_def ef_calc_crc32_serial crc32_serial_append)
    moreover have "le32 (drop 4 ?c3) = le32 (drop 4 B)" using len(1) le32_take [of "take 4 (drop 4 B) @ x" for x]
      by (simp add: le32_prefix)
    ultimately have crc: "env_crc_is_ok st3 = Some (env_stored_ok B)"
      using False by (simp add: env_crc_is_ok_def env_stored_ok_def st3_def d_def ENV_USER_SETTING_SIZE_def)
    have sw: "st\<lparr>env_cache := x, ef_flash := f\<rparr> = st\<lparr>ef_flash := f, env_cache := x\<rparr>" for x f by simp
    have "ef_load_env junk st = (if env_stored_ok B then Some (EF_NO_ERR, st3) else ef_env_set_default st3)"
      unfolding ef_load_env_def using r1(1) r2(1) r3(1) bad False s1 ds da b(1) w2 w3 crc assms(4)
      by (simp add: get_env_system_addr_def ENV_USER_SETTING_SIZE_def ENV_PARAM_BYTE_SIZE_def st3_def Let_def sw)
    then show ?thesis using r3(2,3) False by (auto simp: st3_def c3 ENV_USER_SETTING_SIZE_def)
  qed
qed

lemma flash_holds_loads:
  assumes "flash_holds kvs (ef_flash st)" "env_start_addr st = 0" "length (env_cache st) = ENV_USER_SETTING_SIZE" "length junk = 4"
  shows "\<exists>f. ef_load_env junk st = Some (EF_NO_ERR, st\<lparr>ef_flash := f, env_cache := env_loaded (ef_port_bytes f) (env_cache st)\<rparr>) \<and>
    flash_holds kvs f \<and> env_repr kvs (st\<lparr>ef_flash := f, env_cache := env_loaded (ef_port_bytes f) (env_cache st)\<rparr>)"
proof -
  define B where "B = ef_port_bytes (ef_flash st)"
  have h: "ef_port_ok (ef_flash st)" "env_size kvs < 2048" "ENV_USER_SETTING_SIZE \<le> length B" "env_well kvs"
    "take (env_size kvs) B = env_image kvs (le32_bytes (env_crc kvs)) []"
    using assms(1) by (simp_all add: flash_holds_def ENV_USER_SETTING_SIZE_def B_def)
  define R where "R = drop (env_size kvs) B"
  have B: "B = le32_bytes (word_of_nat (env_size kvs)) @ le32_bytes (env_crc kvs) @ env_data kvs @ R"
    using append_take_drop_id [of "env_size kvs" B] h(5) by (simp add: R_def env_image_def)
  have "le32 B = word_of_nat (env_size kvs)" by (simp add: B)
  then have e: "unat (le32 B) = env_size kvs" "env_size kvs - 8 = length (env_data kvs)"
    using h(2) small_word [of "env_size kvs"] by (simp_all only: env_size_def ENV_PARAM_BYTE_SIZE_def)
  have ok: "env_stored_ok B"
    using h(2) by (simp add: env_stored_ok_def e) (simp add: B env_crc_def ENV_USER_SETTING_SIZE_def)
  obtain f where f: "ef_port_ok f" "ef_port_bytes f = B" "ef_load_env junk st =
    (if unat (le32 B) > ENV_USER_SETTING_SIZE then ef_env_set_default (st\<lparr>ef_flash := f\<rparr>)
     else if env_stored_ok B then Some (EF_NO_ERR, st\<lparr>ef_flash := f, env_cache := env_loaded B (env_cache st)\<rparr>)
     else ef_env_set_default (st\<lparr>ef_flash := f, env_cache := env_loaded B (env_cache st)\<rparr>))"
    using ef_load_env_run [OF h(1) B_def [symmetric] h(3) assms(2-4)] by blast
  have "ef_load_env junk st = Some (EF_NO_ERR, st\<lparr>ef_flash := f, env_cache := env_loaded B (env_cache st)\<rparr>)"
    unfolding f(3) using ok e(1) h(2) by (simp add: ENV_USER_SETTING_SIZE_def)
  moreover have "flash_holds kvs f" using assms(1) f by (simp add: flash_holds_def B_def)
  moreover have "env_loaded B (env_cache st) = env_image kvs (le32_bytes (env_crc kvs)) (drop (env_size kvs) (env_cache st))"
    unfolding env_loaded_def e by (simp add: B env_image_def env_size_def ENV_PARAM_BYTE_SIZE_def)
  then have "env_repr kvs (st\<lparr>ef_flash := f, env_cache := env_loaded B (env_cache st)\<rparr>)"
    using h(2,4) assms(2,3) by (intro env_reprI [of _ _ "le32_bytes (env_crc kvs)" "drop (env_size kvs) (env_cache st)"])
      (auto simp: ENV_USER_SETTING_SIZE_def)
  ultimately show ?thesis using f(2) by blast
qed

section \<open>The default environment\<close>

definition default_env :: env where
  "default_env = [([98, 111, 111, 116, 95, 116, 105, 109, 101, 115], [48])]"

lemma ef_env_set_default_result:
  assumes "env_start_addr st = 0" "length (env_cache st) = ENV_USER_SETTING_SIZE" "ef_port_ok (ef_flash st)"
    "ENV_USER_SETTING_SIZE \<le> length (ef_port_bytes (ef_flash st))" "default_env_set st = Some ef_default_env_set"
  shows "\<exists>rc st'. ef_env_set_default st = Some (rc, st') \<and> env_repr default_env st' \<and> env_init_ok st' = env_init_ok st \<and>
    (rc = EF_ERASE_ERR \<or> rc = EF_WRITE_ERR \<or> rc = EF_NO_ERR \<and> flash_holds default_env (ef_flash st'))"
proof -
  let ?st = "set_env_end_addr (get_env_data_addr st) st"
  obtain k v where d: "default_env = [] @ [(k, v)]" "ef_default_env_set = [(k @ 0 # [], v @ 0 # [])]" "key_ok k" "cstr v"
    by (rule that [of "[98, 111, 111, 116, 95, 116, 105, 109, 101, 115]" "[48]"])
      (simp_all add: default_env_def ef_default_env_set_def key_ok_def)
  have sm: "env_size ([] @ [(k, v)]) < ENV_USER_SETTING_SIZE"
    unfolding d(1) [symmetric] by (simp add: default_env_def env_size_def ENV_PARAM_BYTE_SIZE_def ENV_USER_SETTING_SIZE_def round4_def)
  have c: "length (env_cache st) = 2048" using assms(2) by (simp add: ENV_USER_SETTING_SIZE_def)
  have "env_repr [] ?st"
  proof (rule env_reprI [of _ _ "take 4 (drop 4 (env_cache st))" "drop 8 (env_cache st)"])
    show "env_cache ?st = env_image [] (take 4 (drop 4 (env_cache st))) (drop 8 (env_cache st))"
      using assms(1) append_take_drop_id [of 4 "drop 4 (env_cache st)"]
      by (simp add: set_env_end_addr_def env_image_def env_size_def get_env_data_addr_def get_env_system_addr_def ENV_PARAM_BYTE_SIZE_def)
  qed (use c assms(1) in \<open>simp_all add: env_well_def env_size_def ENV_PARAM_BYTE_SIZE_def ENV_USER_SETTING_SIZE_def set_env_end_addr_def\<close>)
  then obtain st1 where s: "create_env (k @ 0 # []) (v @ 0 # []) ?st = Some (EF_NO_ERR, st1)" "env_repr default_env st1"
      "env_cache_changed st1" "env_same ?st st1"
    using create_env_result [of "[]" ?st k v "[]" "[]"] d sm by (auto simp: ENV_USER_SETTING_SIZE_def)
  have same: "ef_flash st1 = ef_flash st" "env_init_ok st1 = env_init_ok st"
    using s(4) by (simp_all add: env_same_def set_env_end_addr_def)
  have "ef_env_set_default st = ef_save_env st1"
    using assms(5) [unfolded d(2)] s(1) by (simp add: ef_env_set_default_def)
  then show ?thesis
    using ef_save_env_result [OF s(2,3)] assms(3,4) same by auto
qed

section \<open>Durability\<close>

text \<open>
  An environment is synced when its flash works and, unless the cache has been changed, holds it.
\<close>

definition env_synced :: "env \<Rightarrow> 'w ef_sys \<Rightarrow> bool" where
  "env_synced kvs st \<longleftrightarrow> env_repr kvs st \<and> ef_port_ok (ef_flash st) \<and>
     ENV_USER_SETTING_SIZE \<le> length (ef_port_bytes (ef_flash st)) \<and> (\<not> env_cache_changed st \<longrightarrow> flash_holds kvs (ef_flash st))"

lemma flash_holds_init:
  assumes "flash_holds kvs f" "length junk = 4"
  shows "\<exists>st. ef_env_init junk ef_default_env_set (ef_boot f) = Some (EF_NO_ERR, st) \<and>
    (\<forall>k r. key_ok k \<longrightarrow> ef_env_value (k @ 0 # r) st = Some (map_of kvs k))"
proof -
  let ?st = "(ef_boot f)\<lparr>env_start_addr := EF_START_ADDR, default_env_set := Some ef_default_env_set\<rparr>"
  have "flash_holds kvs (ef_flash ?st)" "env_start_addr ?st = 0" "length (env_cache ?st) = ENV_USER_SETTING_SIZE"
    using assms(1) by (simp_all add: ef_boot_def EF_START_ADDR_def)
  from flash_holds_loads [OF this assms(2)]
  obtain st where s: "ef_load_env junk ?st = Some (EF_NO_ERR, st)" "env_repr kvs st" by blast
  have "env_repr kvs (st\<lparr>env_init_ok := True\<rparr>)" using s(2) by (simp add: env_repr_def)
  from ef_env_value_result [OF this] s(1) show ?thesis
    by (simp add: ef_env_init_def ef_default_env_set_def ENV_USER_SETTING_SIZE_def)
qed

text \<open>
  (C22) Durability. When \<open>ef_set_and_save_env\<close> reports success on a synced environment, the environment
  is synced again, and after a restart, from an empty cache, every key has the value it had: the new
  value for the key that was set, the old one for every other key.
\<close>

theorem ef_set_and_save_durable:
  assumes "env_synced kvs st" "env_init_ok st" "key_ok k" "cstr v" "env_size (kvs @ [(k, v)]) < 2 ^ 32" "length junk = 4"
  shows "\<exists>rc st'. ef_set_and_save_env (k @ 0 # r) (Some (v @ 0 # r')) st = Some (rc, st') \<and>
    (rc = EF_NO_ERR \<longrightarrow>
      (\<exists>kvs'. map_of kvs' = (map_of kvs)(k \<mapsto> v) \<and> env_synced kvs' st') \<and>
      (\<exists>st2. ef_env_init junk ef_default_env_set (ef_boot (ef_flash st')) = Some (EF_NO_ERR, st2) \<and>
        (\<forall>k2 r2. key_ok k2 \<longrightarrow> ef_env_value (k2 @ 0 # r2) st2 = Some (((map_of kvs)(k \<mapsto> v)) k2))))"
proof -
  have rep: "env_repr kvs st" using assms(1) by (simp add: env_synced_def)
  obtain rc st1 where s: "ef_set_env (k @ 0 # r) (Some (v @ 0 # r')) st = Some (rc, st1)" "env_same st st1"
    "if map_of kvs k = Some v then rc = EF_NO_ERR \<and> st1 = st
     else if env_size (env_put k v kvs) < ENV_USER_SETTING_SIZE
     then rc = EF_NO_ERR \<and> env_repr (env_put k v kvs) st1 \<and> env_cache_changed st1
     else rc = EF_ENV_FULL \<and> env_repr (env_remove k kvs) st1"
    using ef_set_env_result [OF rep assms(2-5), of r r'] by blast
  define kvs' where "kvs' = (if map_of kvs k = Some v then kvs else env_put k v kvs)"
  have m: "map_of kvs' = (map_of kvs)(k \<mapsto> v)" by (auto simp: kvs'_def map_of_env_put)
  have fin: ?thesis if "ef_set_and_save_env (k @ 0 # r) (Some (v @ 0 # r')) st = Some (rc', st2)"
      "rc' = EF_NO_ERR \<Longrightarrow> env_synced kvs' st2 \<and> flash_holds kvs' (ef_flash st2)" for rc' st2
    using that flash_holds_init [OF _ assms(6), of kvs' "ef_flash st2"] m by auto
  show ?thesis
  proof (cases "rc = EF_NO_ERR")
    case False
    then show ?thesis using s(1) by (intro fin [of rc st1]) (simp_all add: ef_set_and_save_env_def)
  next
    case True
    then have rep1: "env_repr kvs' st1" and c1: "env_cache_changed st1 \<or> flash_holds kvs' (ef_flash st1)"
      using s(3) rep assms(1) by (auto simp: kvs'_def env_synced_def split: if_splits)
    have fl: "ef_flash st1 = ef_flash st" using s(2) by (simp add: env_same_def)
    have run: "ef_set_and_save_env (k @ 0 # r) (Some (v @ 0 # r')) st = ef_save_env st1"
      using s(1) True by (simp add: ef_set_and_save_env_def)
    show ?thesis
    proof (cases "env_cache_changed st1")
      case True
      obtain rc' st2 where "ef_save_env st1 = Some (rc', st2)" "env_repr kvs' st2" "ef_port_ok (ef_flash st2)"
        "length (ef_port_bytes (ef_flash st2)) = length (ef_port_bytes (ef_flash st1))"
        "rc' = EF_ERASE_ERR \<or> rc' = EF_WRITE_ERR \<or> rc' = EF_NO_ERR \<and> flash_holds kvs' (ef_flash st2)"
        using ef_save_env_result [OF rep1 True] assms(1) fl by (auto simp: env_synced_def)
      then show ?thesis using run assms(1) fl by (intro fin [of rc' st2]) (auto simp: env_synced_def)
    next
      case False
      then show ?thesis
        using run c1 rep1 assms(1) fl by (intro fin [of EF_NO_ERR st1]) (auto simp: ef_save_env_def env_synced_def)
    qed
  qed
qed

lemma demo_port_ok:
  "ef_port_ok \<lparr>port_hw = demo_hw, port_part = Some demo_part, port_fal = demo_fal\<rparr>"
  "length (ef_port_bytes \<lparr>port_hw = demo_hw, port_part = Some demo_part, port_fal = demo_fal\<rparr>) = 0x100000"
  using demo_nor_part by (simp_all add: ef_port_ok_def ef_port_bytes_def demo_part_def)

theorem ef_set_and_save_durable_witness:
  "\<exists>rc st'. ef_set_and_save_env ([98] @ 0 # []) (Some ([50, 51] @ 0 # [])) (demo_env\<lparr>env_cache_changed := True\<rparr>) = Some (rc, st') \<and>
    (rc = EF_NO_ERR \<longrightarrow>
      (\<exists>kvs'. map_of kvs' = (map_of demo_kvs)([98] \<mapsto> [50, 51]) \<and> env_synced kvs' st') \<and>
      (\<exists>st2. ef_env_init [0, 0, 0, 0] ef_default_env_set (ef_boot (ef_flash st')) = Some (EF_NO_ERR, st2) \<and>
        (\<forall>k2 r2. key_ok k2 \<longrightarrow> ef_env_value (k2 @ 0 # r2) st2 = Some (((map_of demo_kvs)([98] \<mapsto> [50, 51])) k2))))"
proof (rule ef_set_and_save_durable)
  have "env_repr demo_kvs (demo_env\<lparr>env_cache_changed := True\<rparr>)" using demo_env_repr by (simp add: env_repr_def)
  then show "env_synced demo_kvs (demo_env\<lparr>env_cache_changed := True\<rparr>)"
    using demo_port_ok by (simp add: env_synced_def demo_env_def ENV_USER_SETTING_SIZE_def)
qed (simp_all add: demo_env_def key_ok_def env_size_def ENV_PARAM_BYTE_SIZE_def round4_def demo_kvs_def)

text \<open>
  A failed write is forgotten: when saving ends with \<open>EF_WRITE_ERR\<close>, the flash has been erased,
  and saving again reports success without writing anything.
\<close>

theorem ef_write_error_forgotten:
  assumes "env_repr kvs st" "env_cache_changed st" "ef_port_ok (ef_flash st)"
    "ENV_USER_SETTING_SIZE \<le> length (ef_port_bytes (ef_flash st))"
  shows "\<exists>rc st'. ef_save_env st = Some (rc, st') \<and> (rc = EF_WRITE_ERR \<longrightarrow> ef_save_env st' = Some (EF_NO_ERR, st')) \<and>
    (rc = EF_ERASE_ERR \<longrightarrow> env_cache_changed st')"
proof -
  obtain rc st' where s: "ef_save_env st = Some (rc, st')" "env_cache_changed st' \<longleftrightarrow> rc = EF_ERASE_ERR"
    using ef_save_env_result [OF assms] by blast
  then have "rc = EF_WRITE_ERR \<Longrightarrow> ef_save_env st' = Some (EF_NO_ERR, st')" by (simp add: ef_save_env_def [of st'])
  then show ?thesis using s by blast
qed

text \<open>A chip whose writes fail.\<close>

definition dead_hw :: "demo_chip flash_hw" where
  "dead_hw = demo_hw\<lparr>nor_write_op := (\<lambda>a buf w. (1, w))\<rparr>"

lemma dead_hw_laws: "nor_laws dead_hw"
  using demo_hw_laws(1)
  by (simp add: nor_laws_def nor_read_law_def nor_erase_law_def nor_write_law_def dead_hw_def SFUD_SUCCESS_def)

theorem ef_write_error_forgotten_witness:
  "\<exists>rc st'. ef_save_env (demo_env\<lparr>env_cache_changed := True, ef_flash := \<lparr>port_hw = dead_hw, port_part = Some demo_part, port_fal = demo_fal\<rparr>\<rparr>) =
     Some (rc, st') \<and> (rc = EF_WRITE_ERR \<longrightarrow> ef_save_env st' = Some (EF_NO_ERR, st')) \<and> (rc = EF_ERASE_ERR \<longrightarrow> env_cache_changed st')"
proof (rule ef_write_error_forgotten [of demo_kvs])
  show "env_repr demo_kvs (demo_env\<lparr>env_cache_changed := True, ef_flash := \<lparr>port_hw = dead_hw, port_part = Some demo_part, port_fal = demo_fal\<rparr>\<rparr>)"
    using demo_env_repr by (simp add: env_repr_def)
qed (use demo_nor_part dead_hw_laws in \<open>simp_all add: ef_port_ok_def ef_port_bytes_def nor_part_def demo_part_def ENV_USER_SETTING_SIZE_def
  dead_hw_def demo_hw_def\<close>)

section \<open>Corruption\<close>

lemma bad_store_default:
  assumes "ef_port_ok f" "ENV_USER_SETTING_SIZE \<le> length (ef_port_bytes f)" "\<not> env_stored_ok (ef_port_bytes f)" "length junk = 4"
  shows "\<exists>rc st. ef_env_init junk ef_default_env_set (ef_boot f) = Some (rc, st) \<and> env_repr default_env st \<and>
    (env_init_ok st \<longleftrightarrow> rc = EF_NO_ERR) \<and> (rc = EF_NO_ERR \<longrightarrow> flash_holds default_env (ef_flash st))"
proof -
  let ?st = "(ef_boot f)\<lparr>env_start_addr := EF_START_ADDR, default_env_set := Some ef_default_env_set\<rparr>"
  have st: "ef_flash ?st = f" "env_start_addr ?st = 0" "length (env_cache ?st) = ENV_USER_SETTING_SIZE" "\<not> env_init_ok ?st"
    by (simp_all add: ef_boot_def EF_START_ADDR_def)
  define B where "B = ef_port_bytes f"
  obtain g where g: "ef_port_ok g" "ef_port_bytes g = B" "ef_load_env junk ?st =
    (if unat (le32 B) > ENV_USER_SETTING_SIZE then ef_env_set_default (?st\<lparr>ef_flash := g\<rparr>)
     else if env_stored_ok B then Some (EF_NO_ERR, ?st\<lparr>ef_flash := g, env_cache := env_loaded B (env_cache ?st)\<rparr>)
     else ef_env_set_default (?st\<lparr>ef_flash := g, env_cache := env_loaded B (env_cache ?st)\<rparr>))"
    using ef_load_env_run [of ?st B junk] st assms by (auto simp: B_def)
  define st1 where "st1 = (if unat (le32 B) > ENV_USER_SETTING_SIZE then ?st\<lparr>ef_flash := g\<rparr>
    else ?st\<lparr>ef_flash := g, env_cache := env_loaded B (env_cache ?st)\<rparr>)"
  have load: "ef_load_env junk ?st = ef_env_set_default st1" using g(3) assms(3) by (simp add: st1_def B_def)
  have "length (env_loaded B (env_cache ?st)) = ENV_USER_SETTING_SIZE" if "unat (le32 B) \<le> ENV_USER_SETTING_SIZE"
    using that st(3) assms(2) by (simp add: env_loaded_def B_def ENV_USER_SETTING_SIZE_def)
  then have "length (env_cache st1) = ENV_USER_SETTING_SIZE" using st(3) by (auto simp: st1_def)
  moreover have "env_start_addr st1 = 0" "ef_flash st1 = g" "default_env_set st1 = Some ef_default_env_set" "\<not> env_init_ok st1"
    using st by (simp_all add: st1_def)
  ultimately obtain rc st2 where d: "ef_env_set_default st1 = Some (rc, st2)" "env_repr default_env st2" "\<not> env_init_ok st2"
    "rc = EF_ERASE_ERR \<or> rc = EF_WRITE_ERR \<or> rc = EF_NO_ERR \<and> flash_holds default_env (ef_flash st2)"
    using ef_env_set_default_result [of st1] g(1,2) assms(2) by (auto simp: B_def)
  have "env_repr default_env (st2\<lparr>env_init_ok := True\<rparr>)" using d(2) by (simp add: env_repr_def)
  then show ?thesis
    using load d by (auto simp: ef_env_init_def ef_default_env_set_def ENV_USER_SETTING_SIZE_def)
qed


text \<open>A flash that holds the environment of one key, and the same flash with one byte of the value changed.\<close>

definition demo_store :: "u8 list \<Rightarrow> demo_chip ef_port" where
  "demo_store b = \<lparr>port_hw = demo_hw, port_part = Some demo_part,
     port_fal = demo_fal\<lparr>fal_flash := (fal_flash demo_fal)\<lparr>flash_world := ((\<lambda>a. 0xFF), (\<lambda>i. if i < length b then b ! i else 0xFF))\<rparr>\<rparr>\<rparr>"

definition demo_image :: "u8 \<Rightarrow> u8 list" where
  "demo_image c = le32_bytes 12 @ le32_bytes (env_crc demo_kvs) @ [97, 61] @ [c] @ [0]"

lemma demo_store_bytes:
  assumes "length b = 12"
  shows "ef_port_ok (demo_store b)" "ef_port_bytes (demo_store b) = b @ replicate (0x100000 - 12) 0xFF"
proof -
  show "ef_port_ok (demo_store b)"
    using demo_nor_part by (simp add: ef_port_ok_def demo_store_def nor_part_def)
  have "ef_port_bytes (demo_store b) = map (\<lambda>i. if i < length b then b ! i else 0xFF) [0..<0x100000]"
    by (simp add: ef_port_bytes_def demo_store_def part_bytes_def part_cell_def demo_part_def demo_hw_def)
  also have "\<dots> = b @ replicate (0x100000 - 12) 0xFF"
    using assms by (intro nth_equalityI) (auto simp: nth_append)
  finally show "ef_port_bytes (demo_store b) = b @ replicate (0x100000 - 12) 0xFF" .
qed

lemma demo_store_holds: "flash_holds demo_kvs (demo_store (demo_image 49))"
proof -
  have l: "length (demo_image c) = 12" for c by (simp add: demo_image_def)
  have e: "env_size demo_kvs = 12" "env_data demo_kvs = [97, 61, 49, 0]"
    by (simp_all add: env_size_def demo_kvs_def ENV_PARAM_BYTE_SIZE_def round4_def env_entry_def)
  then have "env_image demo_kvs (le32_bytes (env_crc demo_kvs)) [] = demo_image 49"
    by (simp add: env_image_def demo_image_def)
  moreover have "env_well demo_kvs" using demo_env_repr by (simp add: env_repr_def)
  ultimately show ?thesis
    using demo_store_bytes [OF l] e l by (simp add: flash_holds_def ENV_USER_SETTING_SIZE_def)
qed


end
