(* ===== verification/Wifi_Config.thy ===== *)
theory Wifi_Config
  imports Ef_Env C_Text
begin

text \<open>
  \<open>ports/wifi/wifi_config.c\<close>: the WLAN settings in the environment, as a length in decimal and the
  bytes in base 64. Characters are signed (\<open>-fsigned-char\<close> in \<open>rtconfig.py\<close>). A pointer into the cache of the
  environment is the cache and a position.
\<close>

section \<open>Base 64\<close>

definition base64_table :: "u8 list" where
  "base64_table =
    [65, 66, 67, 68, 69, 70, 71, 72, 73, 74, 75, 76, 77, 78, 79, 80,
     81, 82, 83, 84, 85, 86, 87, 88, 89, 90, 97, 98, 99, 100, 101, 102,
     103, 104, 105, 106, 107, 108, 109, 110, 111, 112, 113, 114, 115, 116, 117, 118,
     119, 120, 121, 122, 48, 49, 50, 51, 52, 53, 54, 55, 56, 57, 43, 47,
     0]"

definition base64_decode_table :: "u8 list" where
  "base64_decode_table =
    [0, 0, 0, 0, 0, 0, 0, 0, 0, 0, 0, 0, 0, 0, 0, 0,
     0, 0, 0, 0, 0, 0, 0, 0, 0, 0, 0, 0, 0, 0, 0, 0,
     0, 0, 0, 0, 0, 0, 0, 0, 0, 0, 0, 62, 0, 0, 0, 63,
     52, 53, 54, 55, 56, 57, 58, 59, 60, 61, 0, 0, 0, 0, 0, 0,
     0, 0, 1, 2, 3, 4, 5, 6, 7, 8, 9, 10, 11, 12, 13, 14,
     15, 16, 17, 18, 19, 20, 21, 22, 23, 24, 25, 0, 0, 0, 0, 0,
     0, 26, 27, 28, 29, 30, 31, 32, 33, 34, 35, 36, 37, 38, 39, 40,
     41, 42, 43, 44, 45, 46, 47, 48, 49, 50, 51, 0, 0, 0, 0, 0,
     0, 0, 0, 0, 0, 0, 0, 0, 0, 0, 0, 0, 0, 0, 0, 0,
     0, 0, 0, 0, 0, 0, 0, 0, 0, 0, 0, 0, 0, 0, 0, 0,
     0, 0, 0, 0, 0, 0, 0, 0, 0, 0, 0, 0, 0, 0, 0, 0,
     0, 0, 0, 0, 0, 0, 0, 0, 0, 0, 0, 0, 0, 0, 0, 0,
     0, 0, 0, 0, 0, 0, 0, 0, 0, 0, 0, 0, 0, 0, 0, 0,
     0, 0, 0, 0, 0, 0, 0, 0, 0, 0, 0, 0, 0, 0, 0, 0,
     0, 0, 0, 0, 0, 0, 0, 0, 0, 0, 0, 0, 0, 0, 0, 0,
     0, 0, 0, 0, 0, 0, 0, 0, 0, 0, 0, 0, 0, 0, 0, 0]"

text \<open>
  The loop of \<open>str_base64_encode_len\<close> over the remaining input; the output is filled from the front
  of an array of \<open>cap\<close> bytes.
\<close>

fun base64_encode_loop :: "nat \<Rightarrow> u8 list \<Rightarrow> u8 list \<Rightarrow> u8 list option" where
  "base64_encode_loop cap (a # b # c # ins) out =
     do { w \<leftarrow> rd base64_table (unat (drop_bit 2 a));
          x \<leftarrow> rd base64_table (unat (push_bit 4 (a AND 3) OR drop_bit 4 b));
          y \<leftarrow> rd base64_table (unat (push_bit 2 (b AND 15) OR drop_bit 6 c));
          z \<leftarrow> rd base64_table (unat (c AND 63));
          out \<leftarrow> append_buf cap out [w, x, y, z];
          base64_encode_loop cap ins out }"
| "base64_encode_loop cap [a, b] out =
     do { w \<leftarrow> rd base64_table (unat (drop_bit 2 a));
          x \<leftarrow> rd base64_table (unat (push_bit 4 (a AND 3) OR drop_bit 4 b));
          y \<leftarrow> rd base64_table (unat (push_bit 2 (b AND 15)));
          out \<leftarrow> append_buf cap out [w, x, y, 61];
          push cap out 0 }"
| "base64_encode_loop cap [a] out =
     do { w \<leftarrow> rd base64_table (unat (drop_bit 2 a));
          x \<leftarrow> rd base64_table (unat (push_bit 4 (a AND 3)));
          out \<leftarrow> append_buf cap out [w, x, 61, 61];
          push cap out 0 }"
| "base64_encode_loop cap [] out = push cap out 0"

definition str_base64_encode_len :: "nat \<Rightarrow> u8 list \<Rightarrow> u8 list option" where
  "str_base64_encode_len cap src = base64_encode_loop cap src []"

text \<open>Decoding. A character is looked up unless it is \<open>=\<close>, and one above 127 is a negative index; a byte is stored while there is room.\<close>

definition base64_sextet :: "u8 list \<Rightarrow> nat \<Rightarrow> u32 option" where
  "base64_sextet data i =
     do { c \<leftarrow> rd data i; if c = 61 then Some 0 else do { v \<leftarrow> rdi base64_decode_table (sint c); Some (ucast v) } }"

definition base64_put :: "int \<Rightarrow> u8 \<Rightarrow> nat \<times> u8 list \<Rightarrow> (nat \<times> u8 list) option" where
  "base64_put out_len v jd =
     (case jd of (j, decoded) \<Rightarrow>
        if int j < out_len then do { decoded \<leftarrow> wr decoded j v; Some (j + 1, decoded) } else Some (j, decoded))"

definition base64_triple :: "u32 \<Rightarrow> u32 \<Rightarrow> u32 \<Rightarrow> u32 \<Rightarrow> u32" where
  "base64_triple a b c d = push_bit 18 a + push_bit 12 b + push_bit 6 c + d"

function base64_decode_loop :: "u8 list \<Rightarrow> nat \<Rightarrow> nat \<Rightarrow> int \<Rightarrow> nat \<Rightarrow> nat \<times> u8 list \<Rightarrow> (nat \<times> u8 list) option" where
  "base64_decode_loop data p n out_len i jd =
     (if i < n then
        do { a \<leftarrow> base64_sextet data (p + i);
             b \<leftarrow> base64_sextet data (p + i + 1);
             c \<leftarrow> base64_sextet data (p + i + 2);
             d \<leftarrow> base64_sextet data (p + i + 3);
             let triple = base64_triple a b c d;
             jd \<leftarrow> base64_put out_len (ucast (drop_bit 16 triple AND 0xFF)) jd;
             jd \<leftarrow> base64_put out_len (ucast (drop_bit 8 triple AND 0xFF)) jd;
             jd \<leftarrow> base64_put out_len (ucast (triple AND 0xFF)) jd;
             base64_decode_loop data p n out_len (i + 4) jd }
      else Some jd)"
  by pat_completeness auto
termination by (relation "measure (\<lambda>(data, p, n, out_len, i, jd). n - i)") auto

declare base64_decode_loop.simps [simp del]

definition str_base64_decode :: "u8 list \<Rightarrow> nat \<Rightarrow> nat \<Rightarrow> u8 list \<Rightarrow> (int \<times> u8 list) option" where
  "str_base64_decode data p input_length decoded =
     (if input_length mod 4 \<noteq> 0 then Some (0, decoded)
      else do {
        c1 \<leftarrow> rdi data (int p + int input_length - 1);
        c2 \<leftarrow> rdi data (int p + int input_length - 2);
        let out_len = int (input_length div 4 * 3) - (if c1 = 61 then 1 else 0) - (if c2 = 61 then 1 else 0);
        (j, decoded) \<leftarrow> base64_decode_loop data p input_length out_len 0 (0, decoded);
        Some (out_len, decoded) })"

section \<open>The settings\<close>

definition wlan_cfg_info_key :: "u8 list" where
  "wlan_cfg_info_key = [119, 108, 97, 110, 95, 99, 102, 103, 95, 105, 110, 102, 111]"

definition wlan_cfg_len_key :: "u8 list" where
  "wlan_cfg_len_key = [119, 108, 97, 110, 95, 99, 102, 103, 95, 108, 101, 110]"

definition read_cfg :: "u8 list \<Rightarrow> int \<Rightarrow> 'w ef_sys \<Rightarrow> (int \<times> u8 list) option" where
  "read_cfg buff len st =
     do { info \<leftarrow> ef_get_env (wlan_cfg_info_key @ [0]) st;
          case info of
            None \<Rightarrow> Some (0, buff)
          | Some p \<Rightarrow>
              do { n \<leftarrow> strlen (drop p (env_cache st));
                   (_, buff) \<leftarrow> str_base64_decode (env_cache st) p n buff;
                   Some (len, buff) } }"

definition get_len :: "'w ef_sys \<Rightarrow> int option" where
  "get_len st =
     do { v \<leftarrow> ef_get_env (wlan_cfg_len_key @ [0]) st;
          case v of None \<Rightarrow> Some 0 | Some p \<Rightarrow> atoi (env_cache st) p }"

text \<open>
  \<open>write_cfg\<close>: the size of the buffer is computed as an \<open>int\<close>, undefined when it overflows; \<open>rt_memset\<close>
  clears \<open>len\<close> bytes of it. The results of the environment are not looked at.
\<close>

definition sprintf_d :: "int \<Rightarrow> u8 list" where
  "sprintf_d n = (if n < 0 then 45 # dec_text (nat (- n)) else dec_text (nat n)) @ [0]"

definition write_cfg :: "bool \<Rightarrow> u8 list \<Rightarrow> int \<Rightarrow> 'w ef_sys \<Rightarrow> (int \<times> 'w ef_sys) option" where
  "write_cfg malloc_ok buff len st =
     (if \<not> (- (2 ^ 31) \<le> len * 4 \<and> len * 4 < 2 ^ 31) then None
      else if \<not> malloc_ok then Some (- RT_ENOMEM, st)
      else
        let base64_size = len * 4 sdiv 3 + 4 in
        if len < 0 \<or> base64_size < len \<or> length buff < nat len then None
        else do {
          (_, st) \<leftarrow> ef_set_env (wlan_cfg_len_key @ [0]) (Some (sprintf_d len)) st;
          base64_buf \<leftarrow> str_base64_encode_len (nat base64_size) (take (nat len) buff);
          (_, st) \<leftarrow> ef_set_env (wlan_cfg_info_key @ [0]) (Some base64_buf) st;
          (_, st) \<leftarrow> ef_save_env st;
          Some (len, st) })"

section \<open>Base 64 reads back what it wrote\<close>

definition b64_char :: "u8 \<Rightarrow> u8" where
  "b64_char s = base64_table ! unat s"

declare push_bit_and [simp del]

text \<open>The text without its terminator.\<close>

fun b64 :: "u8 list \<Rightarrow> u8 list" where
  "b64 (a # b # c # ins) = [b64_char (drop_bit 2 a), b64_char (push_bit 4 (a AND 3) OR drop_bit 4 b),
     b64_char (push_bit 2 (b AND 15) OR drop_bit 6 c), b64_char (c AND 63)] @ b64 ins"
| "b64 [a, b] = [b64_char (drop_bit 2 a), b64_char (push_bit 4 (a AND 3) OR drop_bit 4 b), b64_char (push_bit 2 (b AND 15)), 61]"
| "b64 [a] = [b64_char (drop_bit 2 a), b64_char (push_bit 4 (a AND 3)), 61, 61]"
| "b64 [] = []"

lemma base64_tables: "list_all (\<lambda>i. base64_table ! i \<noteq> 61 \<and> base64_table ! i \<noteq> 0 \<and>
    base64_decode_table ! unat (base64_table ! i) = word_of_nat i) [0..<64]"
  by code_simp

lemma base64_lengths: "length base64_table = 65" "length base64_decode_table = 256"
  by (simp_all add: base64_table_def base64_decode_table_def)

text \<open>A sextet: a byte whose two upper bits are clear.\<close>

definition sextet :: "u8 \<Rightarrow> bool" where "sextet s \<longleftrightarrow> \<not> bit s 6 \<and> \<not> bit s 7"

lemma sextets:
  "sextet (drop_bit 2 a)" "sextet (push_bit 4 (a AND 3) OR drop_bit 4 b)" "sextet (push_bit 4 (a AND 3))"
  "sextet (push_bit 2 (b AND 15) OR drop_bit 6 c)" "sextet (push_bit 2 (b AND 15))" "sextet (c AND 63)"
proof -
  have m: "(3 :: u8) = mask 2" "(15 :: u8) = mask 4" "(63 :: u8) = mask 6" by (simp_all add: mask_eq_decr_exp)
  have h: "\<not> bit x n" if "8 \<le> n" for x :: u8 and n using that bit_imp_le_length [of x n] by auto
  show "sextet (drop_bit 2 a)" "sextet (push_bit 4 (a AND 3) OR drop_bit 4 b)" "sextet (push_bit 4 (a AND 3))"
    "sextet (push_bit 2 (b AND 15) OR drop_bit 6 c)" "sextet (push_bit 2 (b AND 15))" "sextet (c AND 63)"
    unfolding m sextet_def by (auto simp: bit_simps h)
qed

lemma sextet_less: "sextet s \<Longrightarrow> unat s < 64"
proof -
  assume s: "sextet s"
  have "s = take_bit 6 s"
  proof (rule bit_word_eqI)
    fix n assume "n < LENGTH(8)"
    then have "n < 6 \<or> n = 6 \<or> n = 7" by auto
    then show "bit s n \<longleftrightarrow> bit (take_bit 6 s) n" using s by (auto simp: sextet_def bit_simps)
  qed
  then have "unat s = take_bit 6 (unat s)" by (metis unsigned_take_bit_eq)
  then show ?thesis using take_bit_nat_less_exp [of 6 "unat s"] by simp
qed

lemma sint_char: "c < 128 \<Longrightarrow> sint (c :: u8) = int (unat c)"
proof -
  assume "c < 128"
  then have "uint c < 128" by (simp add: word_less_def)
  then have "signed_take_bit 7 (uint c) = uint c" by (intro signed_take_bit_int_eq_self) (simp_all add: order_trans [of _ 0])
  then show ?thesis by (simp add: sint_uint)
qed

lemma base64_ascii: "list_all (\<lambda>c. c < 128) base64_table"
  by (simp add: base64_table_def)

lemma b64_char_sextet:
  assumes "sextet s"
  shows "rd base64_table (unat s) = Some (b64_char s)" "b64_char s \<noteq> 61" "b64_char s \<noteq> 0"
    "rdi base64_decode_table (sint (b64_char s)) = Some s"
proof -
  note u = sextet_less [OF assms]
  show "rd base64_table (unat s) = Some (b64_char s)" using u by (simp add: rd_def base64_lengths b64_char_def)
  have t: "base64_table ! unat s \<noteq> 61 \<and> base64_table ! unat s \<noteq> 0 \<and>
      base64_decode_table ! unat (base64_table ! unat s) = word_of_nat (unat s)"
    using base64_tables u by (auto simp: list_all_iff)
  then show "b64_char s \<noteq> 61" "b64_char s \<noteq> 0" by (simp_all add: b64_char_def)
  have "b64_char s < 128" using base64_ascii u by (auto simp: list_all_length b64_char_def base64_lengths)
  then show "rdi base64_decode_table (sint (b64_char s)) = Some s"
    using t by (simp add: sint_char rdi_def rd_def base64_lengths b64_char_def word_less_nat_alt)
qed

lemmas b64_chars [simp] = b64_char_sextet [OF sextets(1)] b64_char_sextet [OF sextets(2)] b64_char_sextet [OF sextets(3)]
  b64_char_sextet [OF sextets(4)] b64_char_sextet [OF sextets(5)] b64_char_sextet [OF sextets(6)]

lemma b64_length: "length (b64 xs) = 4 * ((length xs + 2) div 3)"
proof (induction xs rule: b64.induct)
  case (1 a b c ins)
  have "(length (a # b # c # ins) + 2) div 3 = (length ins + 2) div 3 + 1" by simp
  then show ?case using 1 by simp
qed simp_all

lemma b64_cstr: "cstr (b64 xs)"
  by (induction xs rule: b64.induct) auto

lemma base64_encode_loop_result:
  "length out + length (b64 ins) < cap \<Longrightarrow> base64_encode_loop cap ins out = Some (out @ b64 ins @ [0])"
  by (induction cap ins out rule: base64_encode_loop.induct) (auto simp: append_buf_def push_def)

text \<open>The buffer of \<open>write_cfg\<close> is large enough.\<close>

lemma base64_fits: "length (b64 xs) < nat (int (length xs) * 4 sdiv 3 + 4)"
proof -
  have "int (length xs) * 4 sdiv 3 = int (length xs * 4 div 3)" by (simp add: signed_divide_int_def sgn_if abs_if zdiv_int)
  then show ?thesis by (simp add: b64_length nat_add_distrib)
qed

lemma base64_triple_bytes:
  "base64_triple (ucast (drop_bit 2 x)) (ucast (push_bit 4 (x AND 3) OR drop_bit 4 y))
     (ucast (push_bit 2 (y AND 15) OR drop_bit 6 z)) (ucast (z AND 63)) =
   push_bit 16 (ucast x) OR push_bit 8 (ucast y) OR ucast (z :: u8)"
proof -
  have m: "(3 :: u8) = mask 2" "(15 :: u8) = mask 4" "(63 :: u8) = mask 6" by (simp_all add: mask_eq_decr_exp)
  have h: "\<not> bit w n" if "8 \<le> n" for w :: u8 and n using that bit_imp_le_length [of w n] by auto
  let ?a = "push_bit 18 (ucast (drop_bit 2 x)) :: u32" and ?b = "push_bit 12 (ucast (push_bit 4 (x AND 3) OR drop_bit 4 y)) :: u32"
    and ?c = "push_bit 6 (ucast (push_bit 2 (y AND 15) OR drop_bit 6 z)) :: u32" and ?d = "ucast (z AND 63) :: u32"
  have "?a AND ?b = 0" by (rule bit_word_eqI) (auto simp: m bit_simps h)
  then have ab: "?a + ?b = ?a OR ?b" by (rule disjunctive_add_eq_or)
  have "(?a OR ?b) AND ?c = 0" by (rule bit_word_eqI) (auto simp: m bit_simps h)
  then have abc: "(?a OR ?b) + ?c = ?a OR ?b OR ?c" by (simp add: disjunctive_add_eq_or or.assoc)
  have "(?a OR ?b OR ?c) AND ?d = 0" by (rule bit_word_eqI) (auto simp: m bit_simps h)
  then have abcd: "(?a OR ?b OR ?c) + ?d = ?a OR ?b OR ?c OR ?d" by (simp add: disjunctive_add_eq_or or.assoc)
  show ?thesis
    unfolding base64_triple_def ab abc abcd
  proof (rule bit_word_eqI)
    fix n
    assume "n < LENGTH(32)"
    have sh: "18 \<le> n \<Longrightarrow> Suc (Suc (n - 18)) = n - 16" by simp
    from \<open>n < LENGTH(32)\<close> consider "n < 6" | "6 \<le> n" "n < 8" | "8 \<le> n" "n < 12" | "12 \<le> n" "n < 16" | "16 \<le> n" "n < 18" | "18 \<le> n" "n < 24" | "24 \<le> n"
      by linarith
    then show "bit (?a OR ?b OR ?c OR ?d) n \<longleftrightarrow> bit (push_bit 16 (ucast x) OR push_bit 8 (ucast y) OR ucast z :: u32) n"
      by cases (auto simp: m bit_simps h sh)
  qed
qed

text \<open>The three bytes of a block.\<close>

lemma triple_parts:
  fixes x y z :: u8
  defines "t \<equiv> push_bit 16 (ucast x) OR push_bit 8 (ucast y) OR ucast z :: u32"
  shows "ucast (drop_bit 16 t AND 0xFF) = x" "ucast (drop_bit 8 t AND 0xFF) = y" "ucast (t AND 0xFF) = z"
proof -
  have m: "(0xFF :: u32) = mask 8" by (simp add: mask_eq_decr_exp)
  have h: "\<not> bit w n" if "8 \<le> n" for w :: u8 and n using that bit_imp_le_length [of w n] by auto
  show "ucast (drop_bit 16 t AND 0xFF) = x" "ucast (drop_bit 8 t AND 0xFF) = y" "ucast (t AND 0xFF) = z"
    unfolding m t_def by (rule bit_word_eqI; auto simp: bit_simps h)+
qed

lemma base64_put_room:
  "int j < out_len \<Longrightarrow> j < length d \<Longrightarrow> base64_put out_len v (j, d) = Some (j + 1, d[j := v])"
  "\<not> int j < out_len \<Longrightarrow> base64_put out_len v (j, d) = Some (j, d)"
  by (simp_all add: base64_put_def wr_def)

lemma base64_sextet_at:
  assumes "data = pre @ c # post"
  shows "base64_sextet data (length pre) = (if c = 61 then Some 0 else do { v \<leftarrow> rdi base64_decode_table (sint c); Some (ucast v) })"
  by (simp add: base64_sextet_def rd_def assms)

lemma base64_block:
  assumes "data = pre @ w # x # y # z # post" "length pre = p + i" "i < n"
    "base64_sextet data (length pre) = Some (ucast (drop_bit 2 a))"
    "base64_sextet data (length pre + 1) = Some (ucast (push_bit 4 (a AND 3) OR drop_bit 4 b))"
    "base64_sextet data (length pre + 2) = Some (ucast (push_bit 2 (b AND 15) OR drop_bit 6 c))"
    "base64_sextet data (length pre + 3) = Some (ucast (c AND 63))"
  shows "base64_decode_loop data p n out_len i jd =
    do { jd \<leftarrow> base64_put out_len a jd; jd \<leftarrow> base64_put out_len b jd; jd \<leftarrow> base64_put out_len (c :: u8) jd;
         base64_decode_loop data p n out_len (i + 4) jd }"
proof -
  have "p + i + 1 = length pre + 1" "p + i + 2 = length pre + 2" "p + i + 3 = length pre + 3" "p + i = length pre"
    using assms(2) by simp_all
  then show ?thesis
    using assms(3-7) by (subst base64_decode_loop.simps) (simp add: base64_triple_bytes triple_parts Let_def del: One_nat_def drop_bit_or)
qed

lemma base64_decode_loop_result:
  "length pre = p + i \<Longrightarrow> n = i + length (b64 xs) \<Longrightarrow> j = length dn \<Longrightarrow> out_len = int j + int (length xs) \<Longrightarrow>
    length xs \<le> length buf \<Longrightarrow>
    base64_decode_loop (pre @ b64 xs @ rest) p n out_len i (j, dn @ buf) =
    Some (j + length xs, dn @ xs @ drop (length xs) buf)"
proof (induction xs arbitrary: pre i dn j buf rule: b64.induct)
  case (1 a b c ins)
  let ?w = "b64_char (drop_bit 2 a)" and ?x = "b64_char (push_bit 4 (a AND 3) OR drop_bit 4 b)"
    and ?y = "b64_char (push_bit 2 (b AND 15) OR drop_bit 6 c)" and ?z = "b64_char (c AND 63)"
  let ?data = "pre @ b64 (a # b # c # ins) @ rest"
  have s: "base64_sextet ?data (length pre) = Some (ucast (drop_bit 2 a))"
    "base64_sextet ?data (length pre + 1) = Some (ucast (push_bit 4 (a AND 3) OR drop_bit 4 b))"
    "base64_sextet ?data (length pre + 2) = Some (ucast (push_bit 2 (b AND 15) OR drop_bit 6 c))"
    "base64_sextet ?data (length pre + 3) = Some (ucast (c AND 63))"
    using base64_sextet_at [of ?data pre ?w] base64_sextet_at [of ?data "pre @ [?w]" ?x]
      base64_sextet_at [of ?data "pre @ [?w, ?x]" ?y] base64_sextet_at [of ?data "pre @ [?w, ?x, ?y]" ?z]
    by (simp_all add: numeral_3_eq_3)
  obtain u v w bs where buf: "buf = u # v # w # bs" using 1(6) by (cases buf rule: b64.cases) auto
  have run: "base64_decode_loop ?data p n out_len i (j, dn @ buf) = base64_decode_loop ?data p n out_len (i + 4) (j + 3, (dn @ [a, b, c]) @ bs)"
    using 1(2-6) by (subst base64_block [OF _ _ _ s])
      (simp_all add: base64_put_room buf list_update_append numeral_3_eq_3)
  show ?case
    unfolding run using 1(1) [of "pre @ [?w, ?x, ?y, ?z]" "i + 4" "j + 3" "dn @ [a, b, c]" bs] 1(2-6)
    by (simp add: buf)
next
  case (2 a b)
  let ?w = "b64_char (drop_bit 2 a)" and ?x = "b64_char (push_bit 4 (a AND 3) OR drop_bit 4 b)"
    and ?y = "b64_char (push_bit 2 (b AND 15))"
  let ?data = "pre @ b64 [a, b] @ rest"
  have s: "base64_sextet ?data (length pre) = Some (ucast (drop_bit 2 a))"
    "base64_sextet ?data (length pre + 1) = Some (ucast (push_bit 4 (a AND 3) OR drop_bit 4 b))"
    "base64_sextet ?data (length pre + 2) = Some (ucast (push_bit 2 (b AND 15) OR drop_bit 6 (0 :: u8)))"
    "base64_sextet ?data (length pre + 3) = Some (ucast ((0 :: u8) AND 63))"
    using base64_sextet_at [of ?data pre ?w] base64_sextet_at [of ?data "pre @ [?w]" ?x]
      base64_sextet_at [of ?data "pre @ [?w, ?x]" ?y] base64_sextet_at [of ?data "pre @ [?w, ?x, ?y]" 61]
    by (simp_all add: numeral_3_eq_3)
  obtain u v bs where buf: "buf = u # v # bs" using 2(5) by (cases buf rule: b64.cases) auto
  show ?case
    using 2(1-5) by (subst base64_block [OF _ _ _ s])
      (simp_all add: base64_put_room buf list_update_append base64_decode_loop.simps [of _ _ _ _ "i + 4"])
next
  case (3 a)
  let ?w = "b64_char (drop_bit 2 a)" and ?x = "b64_char (push_bit 4 (a AND 3))"
  let ?data = "pre @ b64 [a] @ rest"
  have s: "base64_sextet ?data (length pre) = Some (ucast (drop_bit 2 a))"
    "base64_sextet ?data (length pre + 1) = Some (ucast (push_bit 4 (a AND 3) OR drop_bit 4 (0 :: u8)))"
    "base64_sextet ?data (length pre + 2) = Some (ucast (push_bit 2 ((0 :: u8) AND 15) OR drop_bit 6 (0 :: u8)))"
    "base64_sextet ?data (length pre + 3) = Some (ucast ((0 :: u8) AND 63))"
    using base64_sextet_at [of ?data pre ?w] base64_sextet_at [of ?data "pre @ [?w]" ?x]
      base64_sextet_at [of ?data "pre @ [?w, ?x]" 61] base64_sextet_at [of ?data "pre @ [?w, ?x, 61]" 61]
    by (simp_all add: numeral_3_eq_3)
  obtain u bs where buf: "buf = u # bs" using 3(5) by (cases buf) auto
  show ?case
    using 3(1-5) by (subst base64_block [OF _ _ _ s])
      (simp_all add: base64_put_room buf list_update_append base64_decode_loop.simps [of _ _ _ _ "i + 4"])
next
  case 4
  then show ?case by (simp add: base64_decode_loop.simps)
qed

lemma b64_tail:
  "xs \<noteq> [] \<Longrightarrow> (b64 xs ! (length (b64 xs) - 1) = 61 \<longleftrightarrow> length xs mod 3 \<noteq> 0) \<and>
    (b64 xs ! (length (b64 xs) - 2) = 61 \<longleftrightarrow> length xs mod 3 = 1) \<and> 4 \<le> length (b64 xs)"
proof (induction xs rule: b64.induct)
  case (1 a b c ins)
  show ?case
  proof (cases "ins = []")
    case False
    then have "4 \<le> length (b64 ins)" using 1 by simp
    then obtain m where m: "length (b64 ins) = Suc (Suc m)" by (metis add_2_eq_Suc le_Suc_ex numeral_Bit0 add.assoc)
    have "b64 (a # b # c # ins) ! (length (b64 (a # b # c # ins)) - 1) = b64 ins ! (length (b64 ins) - 1)"
      "b64 (a # b # c # ins) ! (length (b64 (a # b # c # ins)) - 2) = b64 ins ! (length (b64 ins) - 2)"
      using m by (simp_all add: numeral_2_eq_2)
    moreover have "length (a # b # c # ins) mod 3 = length ins mod 3" by simp
    ultimately show ?thesis using 1 False by simp
  qed simp
qed simp_all

lemma str_base64_decode_result:
  assumes "xs \<noteq> []" "length buf = length xs"
  shows "str_base64_decode (pre @ b64 xs @ rest) (length pre) (length (b64 xs)) buf = Some (int (length xs), xs)"
proof -
  let ?data = "pre @ b64 xs @ rest" and ?n = "length (b64 xs)"
  have n: "?n mod 4 = 0" "?n div 4 * 3 = (length xs + 2) div 3 * 3" by (simp_all add: b64_length)
  note t = b64_tail [OF assms(1)]
  have c: "rdi ?data (int (length pre) + int ?n - 1) = Some (b64 xs ! (?n - 1))"
    "rdi ?data (int (length pre) + int ?n - 2) = Some (b64 xs ! (?n - 2))"
  proof -
    have "nat (int (length pre) + int ?n - 1) = length pre + (?n - 1)" "nat (int (length pre) + int ?n - 2) = length pre + (?n - 2)"
      using t by linarith+
    then show "rdi ?data (int (length pre) + int ?n - 1) = Some (b64 xs ! (?n - 1))"
      "rdi ?data (int (length pre) + int ?n - 2) = Some (b64 xs ! (?n - 2))"
      using t by (auto simp: rdi_def rd_def nth_append)
  qed
  have out: "int ((length xs + 2) div 3 * 3) - (if length xs mod 3 \<noteq> 0 then 1 else 0) - (if length xs mod 3 = 1 then 1 else 0) =
      int (length xs)" by presburger
  have "base64_decode_loop ?data (length pre) ?n (int (length xs)) 0 (0, buf) = Some (length xs, xs)"
    using base64_decode_loop_result [of pre "length pre" 0 ?n xs 0 "[]" "int (length xs)" buf rest] assms(2) by simp
  then show ?thesis
    using n c t out by (simp add: str_base64_decode_def Let_def)
qed

section \<open>Writing and reading the settings\<close>

lemma wlan_keys: "key_ok wlan_cfg_info_key" "key_ok wlan_cfg_len_key" "wlan_cfg_info_key \<noteq> wlan_cfg_len_key"
  by (simp_all add: key_ok_def wlan_cfg_info_key_def wlan_cfg_len_key_def)

text \<open>The pointer of \<open>ef_get_env\<close> and what is behind it.\<close>

lemma ef_get_env_at:
  assumes "env_repr kvs st" "env_init_ok st" "key_ok k" "map_of kvs k = Some v"
  shows "\<exists>pre post. ef_get_env (k @ 0 # r) st = Some (Some (length pre)) \<and> env_cache st = pre @ v @ 0 # post"
proof -
  have "env_well kvs" using assms(1) by (simp add: env_repr_def)
  then obtain a b where kvs: "kvs = a @ (k, v) # b" using assms(4) by (rule env_split)
  obtain pre post where c: "env_cache st = pre @ k @ 61 # v @ 0 # post" "length pre = env_size a"
    using env_entry_at [OF assms(1) [unfolded kvs]] by blast
  have "strchr (env_cache st) (env_size a) 61 = Some (Some (length pre + length k))"
    using env_old_value [OF assms(1) [unfolded kvs]] c(2) by auto
  then have "ef_get_env (k @ 0 # r) st = Some (Some (length (pre @ k @ [61])))"
    using find_env_split [OF assms(1) [unfolded kvs], of r] assms(2) by (simp add: ef_get_env_def)
  moreover have "env_cache st = (pre @ k @ [61]) @ v @ 0 # post" using c(1) by simp
  ultimately show ?thesis by blast
qed

lemma env_put_size: "env_size (env_put k v kvs) \<le> env_size (kvs @ [(k, v)])"
  using env_remove_size [of k kvs] by (simp add: env_put_def env_size_def)

lemma ef_set_env_stores:
  assumes "env_repr kvs st" "env_init_ok st" "key_ok k" "cstr v" "env_size (kvs @ [(k, v)]) < ENV_USER_SETTING_SIZE"
  shows "\<exists>st' kvs'. ef_set_env (k @ 0 # r) (Some (v @ 0 # r')) st = Some (EF_NO_ERR, st') \<and> env_same st st' \<and>
    env_repr kvs' st' \<and> map_of kvs' = (map_of kvs)(k \<mapsto> v) \<and> env_size kvs' \<le> env_size (kvs @ [(k, v)])"
proof -
  have "env_size (kvs @ [(k, v)]) < 2 ^ 32" using assms(5) by (simp add: ENV_USER_SETTING_SIZE_def)
  from ef_set_env_result [OF assms(1-4) this, of r r'] obtain rc st' where
    s: "ef_set_env (k @ 0 # r) (Some (v @ 0 # r')) st = Some (rc, st')" "env_same st st'"
    "if map_of kvs k = Some v then rc = EF_NO_ERR \<and> st' = st
     else rc = EF_NO_ERR \<and> env_repr (env_put k v kvs) st'"
    using assms(5) env_put_size [of k v kvs] by auto
  show ?thesis
  proof (cases "map_of kvs k = Some v")
    case True
    then have "map_of kvs = (map_of kvs)(k \<mapsto> v)" by auto
    moreover have "env_size kvs \<le> env_size (kvs @ [(k, v)])" by (simp add: env_size_def)
    ultimately show ?thesis using s True assms(1) by auto
  next
    case False
    then show ?thesis using s map_of_env_put [of k v kvs] env_put_size [of k v kvs] by auto
  qed
qed

lemma ef_save_env_keeps:
  assumes "env_repr kvs st" "ef_port_ok (ef_flash st)" "ENV_USER_SETTING_SIZE \<le> length (ef_port_bytes (ef_flash st))"
  shows "\<exists>rc st'. ef_save_env st = Some (rc, st') \<and> env_repr kvs st' \<and> env_init_ok st' = env_init_ok st"
proof (cases "env_cache_changed st")
  case True
  then show ?thesis using ef_save_env_result [OF assms(1) True assms(2,3)] by blast
next
  case False
  then show ?thesis using assms(1) by (simp add: ef_save_env_def)
qed

text \<open>
  (C23) WLAN settings. When the environment has room, \<open>write_cfg\<close> of any settings completes inside the
  buffer it allocates; afterwards \<open>get_len\<close> returns their length and \<open>read_cfg\<close> their bytes, and
  every other variable is what it was.
\<close>

theorem wlan_cfg_roundtrip:
  assumes "env_repr kvs st" "env_init_ok st" "ef_port_ok (ef_flash st)"
    "ENV_USER_SETTING_SIZE \<le> length (ef_port_bytes (ef_flash st))" "xs \<noteq> []" "length buf = length xs"
    "env_size (kvs @ [(wlan_cfg_len_key, dec_text (length xs)), (wlan_cfg_info_key, b64 xs)]) < ENV_USER_SETTING_SIZE"
  shows "\<exists>st'. write_cfg True xs (int (length xs)) st = Some (int (length xs), st') \<and>
    get_len st' = Some (int (length xs)) \<and> read_cfg buf (int (length xs)) st' = Some (int (length xs), xs) \<and>
    (\<forall>k r. key_ok k \<longrightarrow> k \<noteq> wlan_cfg_len_key \<longrightarrow> k \<noteq> wlan_cfg_info_key \<longrightarrow>
      ef_env_value (k @ 0 # r) st' = ef_env_value (k @ 0 # r) st)"
proof -
  let ?n = "length xs" and ?L = "(wlan_cfg_len_key, dec_text (length xs))" and ?I = "(wlan_cfg_info_key, b64 xs)"
  have "length (env_entry ?I) < 2048"
    using assms(7) by (simp add: env_size_def ENV_USER_SETTING_SIZE_def)
  then have "length (b64 xs) < 2048" using round4_bounds(1) [of "length wlan_cfg_info_key + length (b64 xs) + 2"] by simp
  then have n: "?n < 2048" by (simp add: b64_length)
  have e1: "env_size (kvs @ [?L]) < ENV_USER_SETTING_SIZE" using assms(7) by (simp add: env_size_def)
  obtain st1 kvs1 where s1: "ef_set_env (wlan_cfg_len_key @ 0 # []) (Some (dec_text ?n @ 0 # [])) st = Some (EF_NO_ERR, st1)"
    "env_same st st1" "env_repr kvs1 st1" "map_of kvs1 = (map_of kvs)(wlan_cfg_len_key \<mapsto> dec_text ?n)"
    "env_size kvs1 \<le> env_size (kvs @ [?L])"
    using ef_set_env_stores [OF assms(1,2) wlan_keys(2) dec_text_chars(1) e1, of "[]" "[]"] by blast
  have i1: "env_init_ok st1" using s1(2) assms(2) by (simp add: env_same_def)
  have e2: "env_size (kvs1 @ [?I]) < ENV_USER_SETTING_SIZE" using assms(7) s1(5) by (simp add: env_size_def)
  obtain st2 kvs2 where s2: "ef_set_env (wlan_cfg_info_key @ 0 # []) (Some (b64 xs @ 0 # [])) st1 = Some (EF_NO_ERR, st2)"
    "env_same st1 st2" "env_repr kvs2 st2" "map_of kvs2 = (map_of kvs1)(wlan_cfg_info_key \<mapsto> b64 xs)"
    using ef_set_env_stores [OF s1(3) i1 wlan_keys(1) b64_cstr e2, of "[]" "[]"] by blast
  have "ef_flash st2 = ef_flash st" using s1(2) s2(2) by (simp add: env_same_def)
  then obtain rc st3 where s3: "ef_save_env st2 = Some (rc, st3)" "env_repr kvs2 st3" "env_init_ok st3 = env_init_ok st2"
    using ef_save_env_keeps [OF s2(3)] assms(3,4) by auto
  have i3: "env_init_ok st3" using s3(3) s2(2) i1 by (simp add: env_same_def)
  have w: "write_cfg True xs (int ?n) st = Some (int ?n, st3)"
  proof -
    have "str_base64_encode_len (nat (int ?n * 4 sdiv 3 + 4)) xs = Some (b64 xs @ [0])"
      using base64_encode_loop_result [of "[]" xs "nat (int ?n * 4 sdiv 3 + 4)"] base64_fits [of xs]
      by (simp add: str_base64_encode_len_def)
    moreover have "\<not> int ?n * 4 sdiv 3 + 4 < int ?n" by (simp add: signed_divide_int_def sgn_if) presburger
    ultimately show ?thesis
      using n s1(1) s2(1) s3(1) by (simp add: write_cfg_def sprintf_d_def Let_def)
  qed
  have m: "map_of kvs2 wlan_cfg_len_key = Some (dec_text ?n)" "map_of kvs2 wlan_cfg_info_key = Some (b64 xs)"
    using s1(4) s2(4) wlan_keys(3) by auto
  obtain p q where g: "ef_get_env (wlan_cfg_len_key @ 0 # []) st3 = Some (Some (length p))" "env_cache st3 = p @ dec_text ?n @ 0 # q"
    using ef_get_env_at [OF s3(2) i3 wlan_keys(2) m(1)] by blast
  have gl: "get_len st3 = Some (int ?n)"
    using g atoi_dec [of ?n 0 p q] n by (simp add: get_len_def c_isdigit_def)
  obtain p' q' where h: "ef_get_env (wlan_cfg_info_key @ 0 # []) st3 = Some (Some (length p'))" "env_cache st3 = p' @ b64 xs @ 0 # q'"
    using ef_get_env_at [OF s3(2) i3 wlan_keys(1) m(2)] by blast
  have "read_cfg buf (int ?n) st3 = Some (int ?n, xs)"
    using h str_base64_decode_result [OF assms(5,6), of p' "0 # q'"] b64_cstr by (simp add: read_cfg_def)
  moreover have "ef_env_value (k @ 0 # r) st3 = ef_env_value (k @ 0 # r) st"
    if "key_ok k" "k \<noteq> wlan_cfg_len_key" "k \<noteq> wlan_cfg_info_key" for k r
    using ef_env_value_result [OF s3(2) i3 that(1), of r] ef_env_value_result [OF assms(1,2) that(1), of r] s1(4) s2(4) that by simp
  ultimately show ?thesis using w gl by blast
qed

theorem wlan_cfg_roundtrip_witness:
  "\<exists>st'. write_cfg True [1, 200, 3, 4] (int (length [1 :: u8, 200, 3, 4])) demo_env = Some (int (length [1 :: u8, 200, 3, 4]), st') \<and>
    get_len st' = Some (int (length [1 :: u8, 200, 3, 4])) \<and>
    read_cfg [0, 0, 0, 0] (int (length [1 :: u8, 200, 3, 4])) st' = Some (int (length [1 :: u8, 200, 3, 4]), [1, 200, 3, 4]) \<and>
    (\<forall>k r. key_ok k \<longrightarrow> k \<noteq> wlan_cfg_len_key \<longrightarrow> k \<noteq> wlan_cfg_info_key \<longrightarrow>
      ef_env_value (k @ 0 # r) st' = ef_env_value (k @ 0 # r) demo_env)"
  by (rule wlan_cfg_roundtrip [OF demo_env_repr])
    (use demo_port_ok in \<open>simp_all add: demo_env_def demo_kvs_def ENV_USER_SETTING_SIZE_def env_size_def ENV_PARAM_BYTE_SIZE_def
      round4_def wlan_cfg_len_key_def wlan_cfg_info_key_def dec_text.simps\<close>)

end
