(* ===== verification/Firm_Upload.thy ===== *)
theory Firm_Upload
  imports Fal
begin

text \<open>
  \<open>func/wn_firm_upload.c\<close>: a firmware image uploaded to the web server is written to the partition
  \<open>download\<close>. What the web server keeps for the upload (the file name, the value that
  \<open>upload_open\<close> returned, whether the session was closed) is part of the state; printing is left out.
\<close>

section \<open>The upload\<close>

record 'w upload =
  up_hw :: "'w flash_hw"
  up_fal :: "'w fal"
  file_size :: u32
  up_filename :: "u8 list option"
  up_userdata :: "fal_partition option"
  up_closed :: bool

definition download_name :: "u8 list" where
  "download_name = [100, 111, 119, 110, 108, 111, 97, 100, 0]"

text \<open>\<open>strrchr\<close>: the last position of a character before the terminator.\<close>

fun strrchr :: "u8 list \<Rightarrow> u8 \<Rightarrow> nat option option" where
  "strrchr [] c = None"
| "strrchr (x # s) c =
     (if x = 0 then Some (if c = 0 then Some 0 else None)
      else do { r \<leftarrow> strrchr s c;
                Some (case r of Some i \<Rightarrow> Some (Suc i) | None \<Rightarrow> if x = c then Some 0 else None) })"

definition after_last :: "u8 \<Rightarrow> u8 list \<Rightarrow> u8 list option" where
  "after_last c s = do { r \<leftarrow> strrchr s c; Some (case r of None \<Rightarrow> s | Some i \<Rightarrow> drop (Suc i) s) }"

definition get_file_name :: "'w upload \<Rightarrow> u8 list option option" where
  "get_file_name st =
     (case up_filename st of
        None \<Rightarrow> Some None
      | Some path \<Rightarrow> do { path \<leftarrow> after_last 92 path; path \<leftarrow> after_last 47 path; Some (Some path) })"

definition upload_open :: "'w upload \<Rightarrow> (fal_partition option \<times> 'w upload) option" where
  "upload_open st =
     do { _ \<leftarrow> get_file_name st;
          if up_filename st \<noteq> None then
            do { part \<leftarrow> fal_partition_find download_name (up_fal st);
                 case part of
                   None \<Rightarrow> Some (None, st\<lparr>up_closed := True\<rparr>)
                 | Some p \<Rightarrow>
                     do { (_, f) \<leftarrow> fal_partition_erase_all (up_hw st) p (up_fal st);
                          Some (Some p, st\<lparr>up_fal := f, file_size := 0\<rparr>) } }
          else Some (None, st\<lparr>file_size := 0\<rparr>) }"

definition upload_close :: "'w upload \<Rightarrow> int \<times> 'w upload" where
  "upload_close st = (0, st)"

definition upload_write :: "u8 list \<Rightarrow> 'w upload \<Rightarrow> (int \<times> 'w upload) option" where
  "upload_write data st =
     (case up_userdata st of
        None \<Rightarrow> Some (0, st)
      | Some part \<Rightarrow>
          do { (_, f) \<leftarrow> fal_partition_write (up_hw st) part (file_size st) data (up_fal st);
               Some (sint (buf_size data), st\<lparr>up_fal := f, file_size := file_size st + buf_size data\<rparr>) })"

text \<open>
  An upload: the web server opens it, keeps the result for the session, and hands over the parts of
  the file in order.
\<close>

fun upload_parts :: "u8 list list \<Rightarrow> 'w upload \<Rightarrow> 'w upload option" where
  "upload_parts [] st = Some st"
| "upload_parts (d # ds) st = do { (_, st) \<leftarrow> upload_write d st; upload_parts ds st }"

definition upload_file :: "u8 list list \<Rightarrow> 'w upload \<Rightarrow> 'w upload option" where
  "upload_file ds st = do { (u, st) \<leftarrow> upload_open st; upload_parts ds (st\<lparr>up_userdata := u\<rparr>) }"

section \<open>What arrives in the partition\<close>

text \<open>A chip that carries out every erase and every write.\<close>

definition nor_reliable :: "'w flash_hw \<Rightarrow> bool" where
  "nor_reliable hw \<longleftrightarrow> 
     (\<forall>a buf w. nor_idle hw w \<and> unat a + length buf \<le> NOR_SIZE \<longrightarrow> fst (nor_write_op hw a buf w) = SFUD_SUCCESS) \<and>
     (\<forall>a n w. nor_idle hw w \<and> unat a + unat n \<le> NOR_SIZE \<longrightarrow> fst (nor_erase_op hw a n w) = SFUD_SUCCESS)"

lemma reliable_write:
  assumes "nor_reliable hw" "nor_part hw part st" "unat addr + length buf \<le> unat (part_len part)"
  shows "\<exists>st'. fal_partition_write hw part addr buf st = Some (int (length buf), st') \<and> nor_part hw part st' \<and>
    (\<forall>i < unat (part_len part). part_bytes hw part st' ! i =
       (if unat addr \<le> i \<and> i < unat addr + length buf then part_bytes hw part st ! i AND buf ! (i - unat addr)
        else part_bytes hw part st ! i))"
proof -
  obtain rc st' where w: "fal_partition_write hw part addr buf st = Some (rc, st')" "nor_part hw part st'"
    and frame: "\<And>i. \<not> (part_start part + unat addr \<le> i \<and> i < part_start part + unat addr + length buf) \<Longrightarrow>
       part_cell hw st' i = part_cell hw st i"
    and stored: "0 \<le> rc \<Longrightarrow> rc = int (length buf) \<and> (\<forall>i < length buf. part_cell hw st' (part_start part + unat addr + i) =
       part_cell hw st (part_start part + unat addr + i) AND buf ! i)"
    using nor_part_write [OF assms(2,3)] by blast
  have l: "length buf < 2 ^ 31" using part_addr(2) [OF assms(2,3)] by (simp add: NOR_SIZE_def)
  have "fst (nor_write_op hw (part_offset part + addr) buf (flash_world (fal_flash st))) = SFUD_SUCCESS"
    using assms part_addr [OF assms(2,3)] by (simp add: nor_reliable_def nor_part_def)
  then have rc: "0 \<le> rc"
    using w(1) assms(2) part_check_passes [OF assms(3)] buf_size_small [OF l]
    by (auto simp: fal_partition_write_def dev_write_def nor_part_def split: prod.splits)
  have "part_bytes hw part st' ! i = (if unat addr \<le> i \<and> i < unat addr + length buf
      then part_bytes hw part st ! i AND buf ! (i - unat addr) else part_bytes hw part st ! i)" if "i < unat (part_len part)" for i
  proof (cases "unat addr \<le> i \<and> i < unat addr + length buf")
    case True
    then have "part_cell hw st' (part_start part + unat addr + (i - unat addr)) =
        part_cell hw st (part_start part + unat addr + (i - unat addr)) AND buf ! (i - unat addr)"
      using stored [OF rc] True by (metis add_diff_inverse_nat not_less nat_add_left_cancel_less)
    then show ?thesis using True that by (simp add: part_bytes_nth)
  next
    case False
    then show ?thesis using frame [of "part_start part + i"] that by (auto simp: part_bytes_nth)
  qed
  then show ?thesis using w stored [OF rc] by auto
qed

lemma byte_ones: "(0xFF :: u8) AND x = x"
proof -
  have "(0xFF :: u8) = - 1" by simp
  then show ?thesis by (metis and.left_neutral)
qed

lemma upload_parts_result:
  "nor_reliable (up_hw st) \<Longrightarrow> up_userdata st = Some part \<Longrightarrow> nor_part (up_hw st) part (up_fal st) \<Longrightarrow>
    unat (file_size st) + length (concat ds) \<le> unat (part_len part) \<Longrightarrow>
    (\<And>i. unat (file_size st) \<le> i \<Longrightarrow> i < unat (part_len part) \<Longrightarrow> part_bytes (up_hw st) part (up_fal st) ! i = 0xFF) \<Longrightarrow>
    \<exists>st'. upload_parts ds st = Some st' \<and> nor_part (up_hw st) part (up_fal st') \<and>
      unat (file_size st') = unat (file_size st) + length (concat ds) \<and>
      (\<forall>i < unat (part_len part). part_bytes (up_hw st) part (up_fal st') ! i =
         (if unat (file_size st) \<le> i \<and> i < unat (file_size st) + length (concat ds) then concat ds ! (i - unat (file_size st))
          else part_bytes (up_hw st) part (up_fal st) ! i))"
proof (induction ds arbitrary: st)
  case Nil
  then show ?case by auto
next
  case (Cons d ds)
  let ?hw = "up_hw st" and ?a = "unat (file_size st)"
  have fit: "?a + length d \<le> unat (part_len part)" using Cons.prems(4) by simp
  obtain f where w: "fal_partition_write ?hw part (file_size st) d (up_fal st) = Some (int (length d), f)" "nor_part ?hw part f"
    and b: "\<And>i. i < unat (part_len part) \<Longrightarrow> part_bytes ?hw part f ! i =
       (if ?a \<le> i \<and> i < ?a + length d then part_bytes ?hw part (up_fal st) ! i AND d ! (i - ?a) else part_bytes ?hw part (up_fal st) ! i)"
    using reliable_write [OF Cons.prems(1,3) fit] by blast
  define st1 where "st1 = st\<lparr>up_fal := f, file_size := file_size st + buf_size d\<rparr>"
  have run: "upload_parts (d # ds) st = upload_parts ds st1"
    using w Cons.prems(2) by (simp add: upload_write_def st1_def)
  have "unat (part_len part) < 2 ^ 32" using unsigned_less [where ?'a = nat, of "part_len part"] by simp
  then have fs: "unat (file_size st1) = ?a + length d" using buf_size_plus [of "file_size st" d] fit by (simp add: st1_def)
  have blank: "part_bytes ?hw part f ! i = 0xFF" if "unat (file_size st1) \<le> i" "i < unat (part_len part)" for i
    using b [OF that(2)] Cons.prems(5) [of i] that fs by simp
  have p1: "up_hw st1 = up_hw st" "up_fal st1 = f" "up_userdata st1 = Some part" using Cons.prems(2) by (simp_all add: st1_def)
  have len1: "unat (file_size st1) + length (concat ds) \<le> unat (part_len part)" using Cons.prems(4) fs by simp
  note ih = Cons.IH [of st1, unfolded p1(1,2), OF Cons.prems(1) p1(3) w(2) len1 blank]
  obtain st' where s: "upload_parts ds st1 = Some st'" "nor_part ?hw part (up_fal st')"
      "unat (file_size st') = unat (file_size st1) + length (concat ds)"
    and c: "\<And>i. i < unat (part_len part) \<Longrightarrow> part_bytes ?hw part (up_fal st') ! i =
         (if unat (file_size st1) \<le> i \<and> i < unat (file_size st1) + length (concat ds) then concat ds ! (i - unat (file_size st1))
          else part_bytes ?hw part f ! i)"
    using ih by blast
  have "part_bytes ?hw part (up_fal st') ! i =
      (if ?a \<le> i \<and> i < ?a + length (concat (d # ds)) then concat (d # ds) ! (i - ?a) else part_bytes ?hw part (up_fal st) ! i)"
    if "i < unat (part_len part)" for i
    using c [OF that] b [OF that] Cons.prems(5) [of i] that fs byte_ones
    by (auto simp: nth_append)
  then show ?case using run s fs by auto
qed

lemma sint_small:
  assumes "unat (w :: u32) < 2 ^ 31"
  shows "sint w = int (unat w)"
proof -
  have "int (unat w) < int (2 ^ 31)" using assms by (simp only: of_nat_less_iff)
  then have "uint w < 2147483648" by simp
  moreover have "- 2147483648 \<le> uint w" using uint_ge_0 [of w] by linarith
  ultimately show ?thesis by (simp add: sint_uint signed_take_bit_int_eq_self_iff)
qed

lemma download_erased:
  assumes "nor_reliable hw" "nor_part hw part st"
  shows "\<exists>rc st'. fal_partition_erase_all hw part st = Some (rc, st') \<and> nor_part hw part st' \<and>
    (\<forall>i < unat (part_len part). part_bytes hw part st' ! i = 0xFF)"
proof -
  obtain rc st' where e: "fal_partition_erase hw part 0 (part_len part) st = Some (rc, st')" "nor_part hw part st'"
    and ff: "\<And>i. 0 \<le> rc \<Longrightarrow> sector_cover (part_start part + unat (0 :: u32)) (unat (part_len part)) i \<Longrightarrow> part_cell hw st' i = 0xFF"
    using nor_part_erase [OF assms(2), of 0 "part_len part"] by auto
  have "unat (part_len part) < 2 ^ 31" using assms(2) by (simp add: nor_part_def NOR_SIZE_def)
  then have "0 \<le> sint (part_len part)" by (simp add: sint_small)
  moreover have "fst (nor_erase_op hw (part_offset part + 0) (part_len part) (flash_world (fal_flash st))) = SFUD_SUCCESS"
    using assms by (simp add: nor_reliable_def nor_part_def)
  ultimately have "0 \<le> rc"
    using e(1) assms(2) by (auto simp: fal_partition_erase_def dev_erase_def nor_part_def split: prod.splits)
  then have "part_bytes hw part st' ! i = 0xFF" if "i < unat (part_len part)" for i
    using ff [of "part_start part + i"] sector_cover_self [of "part_start part" "part_start part + i" "unat (part_len part)"] that
    by (simp add: part_bytes_nth)
  then show ?thesis using e by (auto simp: fal_partition_erase_all_def)
qed

lemma strrchr_suffix: "strrchr s c = Some (Some i) \<Longrightarrow> c \<noteq> 0 \<Longrightarrow> 0 \<in> set (drop (Suc i) s)"
proof (induction s arbitrary: i)
  case (Cons x s)
  show ?case
  proof (cases "x = 0")
    case False
    then obtain r where r: "strrchr s c = Some r" using Cons.prems by (auto simp: bind_eq_Some_conv)
    show ?thesis
    proof (cases r)
      case None
      have "0 \<in> set s" using r by (induction s arbitrary: r) (auto simp: bind_eq_Some_conv split: if_splits)
      then show ?thesis using None Cons.prems False r by (auto split: if_splits)
    next
      case (Some k)
      then show ?thesis using Cons.IH [of k] Cons.prems False r by auto
    qed
  qed (use Cons.prems in simp)
qed simp

lemma after_last_total:
  assumes "0 \<in> set s" "c \<noteq> 0"
  shows "\<exists>t. after_last c s = Some t \<and> 0 \<in> set t"
proof -
  have "\<exists>r. strrchr s c = Some r" using assms(1) by (induction s) auto
  then show ?thesis using strrchr_suffix [of s c] assms by (auto simp: after_last_def split: option.splits)
qed

lemma get_file_name_total:
  assumes "up_filename st = Some name" "0 \<in> set name"
  shows "\<exists>n. get_file_name st = Some n"
  using after_last_total [OF assms(2), of 92] after_last_total [of _ 47] assms(1) by (fastforce simp: get_file_name_def)

text \<open>
  (C29) A firmware upload. When the partition \<open>download\<close> is found and the image fits into it, an upload
  in any parts, on a chip that does its work, leaves the partition with exactly the image followed
  by erased bytes, and \<open>file_size\<close> is the size of the image.
\<close>

theorem upload_stores_image:
  assumes "nor_reliable (up_hw st)" "up_filename st = Some name" "0 \<in> set name"
    "fal_partition_find download_name (up_fal st) = Some (Some part)" "nor_part (up_hw st) part (up_fal st)"
    "length (concat ds) \<le> unat (part_len part)"
  shows "\<exists>st'. upload_file ds st = Some st' \<and> unat (file_size st') = length (concat ds) \<and>
    part_bytes (up_hw st) part (up_fal st') = concat ds @ replicate (unat (part_len part) - length (concat ds)) 0xFF"
proof -
  obtain fn where fn: "get_file_name st = Some fn" using get_file_name_total [OF assms(2,3)] by blast
  obtain rc f where e: "fal_partition_erase_all (up_hw st) part (up_fal st) = Some (rc, f)" "nor_part (up_hw st) part f"
    and ff: "\<And>i. i < unat (part_len part) \<Longrightarrow> part_bytes (up_hw st) part f ! i = 0xFF"
    using download_erased [OF assms(1,5)] by blast
  define st1 where "st1 = st\<lparr>up_fal := f, file_size := 0, up_userdata := Some part\<rparr>"
  have run: "upload_file ds st = upload_parts ds st1"
    using fn assms(2,4) e(1) by (simp add: upload_file_def upload_open_def st1_def)
  have p1: "up_hw st1 = up_hw st" "up_fal st1 = f" "up_userdata st1 = Some part" "unat (file_size st1) = 0"
    by (simp_all add: st1_def)
  have "\<exists>st'. upload_parts ds st1 = Some st' \<and> nor_part (up_hw st) part (up_fal st') \<and> unat (file_size st') = 0 + length (concat ds) \<and>
      (\<forall>i < unat (part_len part). part_bytes (up_hw st) part (up_fal st') ! i =
         (if 0 \<le> i \<and> i < 0 + length (concat ds) then concat ds ! (i - 0) else part_bytes (up_hw st) part f ! i))"
    by (rule upload_parts_result [of st1 part ds, unfolded p1]) (use assms e(2) ff in auto)
  then obtain st' where s: "upload_parts ds st1 = Some st'" "unat (file_size st') = length (concat ds)"
    "\<And>i. i < unat (part_len part) \<Longrightarrow> part_bytes (up_hw st) part (up_fal st') ! i = (if i < length (concat ds) then concat ds ! i else 0xFF)"
    using ff by auto
  have "part_bytes (up_hw st) part (up_fal st') = concat ds @ replicate (unat (part_len part) - length (concat ds)) 0xFF"
    using s(3) assms(6) by (intro nth_equalityI) (auto simp: nth_append)
  then show ?thesis by (simp add: run s(1,2))
qed

definition demo_download :: fal_partition where
  "demo_download = demo_part\<lparr>part_name := name24 (butlast download_name), part_offset := 0x100000\<rparr>"

definition demo_upload :: "demo_chip upload" where
  "demo_upload = \<lparr>up_hw = demo_hw,
     up_fal = demo_fal\<lparr>partition_table := Some [demo_part, demo_download], partition_table_len := 2\<rparr>,
     file_size = 0, up_filename = Some [97, 47, 98, 0], up_userdata = None, up_closed = False\<rparr>"

lemma demo_upload_part:
  "fal_partition_find download_name (up_fal demo_upload) = Some (Some demo_download)"
  "nor_part (up_hw demo_upload) demo_download (up_fal demo_upload)"
proof -
  have "strcmp_eq download_name (part_name demo_part) = Some False" "strcmp_eq download_name (part_name demo_download) = Some True"
    by code_simp+
  then show "fal_partition_find download_name (up_fal demo_upload) = Some (Some demo_download)"
    by (simp add: fal_partition_find_def demo_upload_def demo_fal_def)
  show "nor_part (up_hw demo_upload) demo_download (up_fal demo_upload)"
    using demo_nor_part
    by (simp add: nor_part_def demo_upload_def demo_download_def demo_part_def NOR_SIZE_def FLASH_SECTOR_def)
qed

theorem upload_stores_image_witness:
  "\<exists>st'. upload_file [[1, 2], [3]] demo_upload = Some st' \<and> unat (file_size st') = length (concat [[1 :: u8, 2], [3]]) \<and>
    part_bytes (up_hw demo_upload) demo_download (up_fal st') =
    concat [[1, 2], [3]] @ replicate (unat (part_len demo_download) - length (concat [[1 :: u8, 2], [3]])) 0xFF"
  by (rule upload_stores_image [where name = "[97, 47, 98, 0]", OF _ _ _ demo_upload_part])
    (simp_all add: nor_reliable_def demo_upload_def demo_hw_def SFUD_SUCCESS_def demo_download_def demo_part_def)

text \<open>
  The result of the flash is not looked at: a part of the image that does not fit into the
  partition is dropped, and the web server is told that all of it was written.
\<close>

theorem upload_write_unchecked:
  assumes "up_userdata st = Some part" "unat (part_len part) < unat (file_size st) + length data"
    "unat (file_size st) + length data < 2 ^ 32"
  shows "upload_write data st = Some (sint (buf_size data), st\<lparr>file_size := file_size st + buf_size data\<rparr>)"
proof -
  have "part_len part < file_size st + buf_size data"
    using buf_size_plus [OF assms(3)] assms(2) by (simp add: word_less_nat_alt)
  then show ?thesis using assms(1) by (simp add: upload_write_def fal_partition_write_def)
qed

theorem upload_write_unchecked_witness:
  "upload_write [7, 8] (demo_upload\<lparr>up_userdata := Some demo_download, file_size := 0x100000\<rparr>) =
    Some (sint (buf_size [7, 8]),
      demo_upload\<lparr>up_userdata := Some demo_download, file_size := 0x100000,
        file_size := file_size (demo_upload\<lparr>up_userdata := Some demo_download, file_size := 0x100000\<rparr>) + buf_size [7, 8]\<rparr>)"
  by (rule upload_write_unchecked [where part = demo_download]) (simp_all add: demo_download_def demo_part_def)

end
