(* ===== verification/Sfud.thy ===== *)
theory Sfud
  imports Fal_Flash
begin

text \<open>
  \<open>rt-thread/components/drivers/spi/sfud\<close>: the serial flash library, with \<open>src/sfud.c\<close> (reading, erasing
  and writing a chip by commands on the SPI bus, and its initialisation) and \<open>src/sfud_sfdp.c\<close> (the
  parameters that a chip reports of itself). It provides the operations of the serial flash device
  in the theory \<open>Fal_Flash\<close>.

  Assertions of the library are empty in this configuration, and the lock around each operation
  changes nothing the model shows. The file is compiled with the table of known chips and with the
  reported parameters, without QSPI.
\<close>

section \<open>Data\<close>

definition SFUD_CMD_WRITE_ENABLE :: u8 where "SFUD_CMD_WRITE_ENABLE = 0x06"
definition SFUD_CMD_WRITE_DISABLE :: u8 where "SFUD_CMD_WRITE_DISABLE = 0x04"
definition SFUD_CMD_READ_STATUS_REGISTER :: u8 where "SFUD_CMD_READ_STATUS_REGISTER = 0x05"
definition SFUD_VOLATILE_SR_WRITE_ENABLE :: u8 where "SFUD_VOLATILE_SR_WRITE_ENABLE = 0x50"
definition SFUD_CMD_WRITE_STATUS_REGISTER :: u8 where "SFUD_CMD_WRITE_STATUS_REGISTER = 0x01"
definition SFUD_CMD_PAGE_PROGRAM :: u8 where "SFUD_CMD_PAGE_PROGRAM = 0x02"
definition SFUD_CMD_AAI_WORD_PROGRAM :: u8 where "SFUD_CMD_AAI_WORD_PROGRAM = 0xAD"
definition SFUD_CMD_ERASE_CHIP :: u8 where "SFUD_CMD_ERASE_CHIP = 0xC7"
definition SFUD_CMD_READ_DATA :: u8 where "SFUD_CMD_READ_DATA = 0x03"
definition SFUD_CMD_JEDEC_ID :: u8 where "SFUD_CMD_JEDEC_ID = 0x9F"
definition SFUD_CMD_READ_SFDP_REGISTER :: u8 where "SFUD_CMD_READ_SFDP_REGISTER = 0x5A"
definition SFUD_CMD_ENABLE_RESET :: u8 where "SFUD_CMD_ENABLE_RESET = 0x66"
definition SFUD_CMD_RESET :: u8 where "SFUD_CMD_RESET = 0x99"
definition SFUD_CMD_ENTER_4B_ADDRESS_MODE :: u8 where "SFUD_CMD_ENTER_4B_ADDRESS_MODE = 0xB7"
definition SFUD_CMD_EXIT_4B_ADDRESS_MODE :: u8 where "SFUD_CMD_EXIT_4B_ADDRESS_MODE = 0xE9"
definition SFUD_DUMMY_DATA :: u8 where "SFUD_DUMMY_DATA = 0xFF"
definition SFUD_WRITE_MAX_PAGE_SIZE :: nat where "SFUD_WRITE_MAX_PAGE_SIZE = 256"

lemmas sfud_cmds =
  SFUD_CMD_WRITE_ENABLE_def SFUD_CMD_WRITE_DISABLE_def SFUD_CMD_READ_STATUS_REGISTER_def
  SFUD_VOLATILE_SR_WRITE_ENABLE_def SFUD_CMD_WRITE_STATUS_REGISTER_def SFUD_CMD_PAGE_PROGRAM_def
  SFUD_CMD_AAI_WORD_PROGRAM_def SFUD_CMD_ERASE_CHIP_def SFUD_CMD_READ_DATA_def SFUD_CMD_JEDEC_ID_def
  SFUD_CMD_READ_SFDP_REGISTER_def SFUD_CMD_ENABLE_RESET_def SFUD_CMD_RESET_def
  SFUD_CMD_ENTER_4B_ADDRESS_MODE_def SFUD_CMD_EXIT_4B_ADDRESS_MODE_def

definition SFUD_STATUS_REGISTER_BUSY :: u8 where "SFUD_STATUS_REGISTER_BUSY = 1"
definition SFUD_STATUS_REGISTER_WEL :: u8 where "SFUD_STATUS_REGISTER_WEL = 2"

definition SFUD_WM_PAGE_256B :: u16 where "SFUD_WM_PAGE_256B = 1"
definition SFUD_WM_BYTE :: u16 where "SFUD_WM_BYTE = 2"
definition SFUD_WM_AAI :: u16 where "SFUD_WM_AAI = 4"
definition SFUD_WM_DUAL_BUFFER :: u16 where "SFUD_WM_DUAL_BUFFER = 8"

lemmas sfud_wms = SFUD_WM_PAGE_256B_def SFUD_WM_BYTE_def SFUD_WM_AAI_def SFUD_WM_DUAL_BUFFER_def

record sfud_flash_chip =
  chip_name :: "string option"
  mf_id :: u8
  type_id :: u8
  capacity_id :: u8
  capacity :: u32
  write_mode :: u16
  erase_gran :: u32
  erase_gran_cmd :: u8

text \<open>The erasers are the pairs of a size and a command; a size of 0 marks an unused entry.\<close>

record sfud_sfdp =
  sfdp_available :: bool
  sfdp_major_rev :: u8
  sfdp_minor_rev :: u8
  write_gran :: u16
  erase_4k :: bool
  erase_4k_cmd :: u8
  sr_is_non_vola :: bool
  vola_sr_we_cmd :: u8
  addr_3_byte :: bool
  addr_4_byte :: bool
  sfdp_capacity :: u32
  eraser :: "(u32 \<times> u8) list"

record sfud_flash =
  chip :: sfud_flash_chip
  sfud_init_ok :: bool
  addr_in_4_byte :: bool
  retry_times :: nat
  sfdp :: sfud_sfdp

definition SFUD_SFDP_ERASE_TYPE_MAX_NUM :: nat where "SFUD_SFDP_ERASE_TYPE_MAX_NUM = 4"

text \<open>A device as \<open>rt_sfud_flash_probe\<close> allocates it, all bytes zero.\<close>

definition sfud_flash_zero :: sfud_flash where
  "sfud_flash_zero = \<lparr>chip = \<lparr>chip_name = None, mf_id = 0, type_id = 0, capacity_id = 0, capacity = 0,
       write_mode = 0, erase_gran = 0, erase_gran_cmd = 0\<rparr>,
     sfud_init_ok = False, addr_in_4_byte = False, retry_times = 0,
     sfdp = \<lparr>sfdp_available = False, sfdp_major_rev = 0, sfdp_minor_rev = 0, write_gran = 0, erase_4k = False,
       erase_4k_cmd = 0, sr_is_non_vola = False, vola_sr_we_cmd = 0, addr_3_byte = False, addr_4_byte = False,
       sfdp_capacity = 0, eraser = replicate SFUD_SFDP_ERASE_TYPE_MAX_NUM (0, 0)\<rparr>\<rparr>"

section \<open>Status, write enable, waiting\<close>

text \<open>
  \<open>make_adress_byte_array\<close>, with the bytes it stores as the result.
\<close>

definition make_adress_byte_array :: "sfud_flash \<Rightarrow> u32 \<Rightarrow> u8 list" where
  "make_adress_byte_array flash addr =
     (let len = (if addr_in_4_byte flash then 4 else 3)
      in map (\<lambda>i. ucast (drop_bit ((len - (i + 1)) * 8) addr AND 0xFF)) [0..<len])"

text \<open>The byte of the status is the second result; it is \<open>junk\<close> when the transfer fails before it is received.\<close>

definition sfud_read_status :: "'w rt_spi_ops \<Rightarrow> u8 \<Rightarrow> 'w spi_dev \<Rightarrow> int \<times> u8 list \<times> 'w spi_dev" where
  "sfud_read_status ops junk dev = spi_write_read ops [SFUD_CMD_READ_STATUS_REGISTER] [junk] dev"

definition sfud_delay :: "'w rt_spi_ops \<Rightarrow> 'w spi_dev \<Rightarrow> 'w spi_dev" where
  "sfud_delay ops dev = dev\<lparr>spi_world := rt_spi_delay ops (spi_world dev)\<rparr>"

text \<open>The loop of \<open>wait_busy\<close> with its remaining retries and the status byte.\<close>

function wait_busy_loop :: "'w rt_spi_ops \<Rightarrow> nat \<Rightarrow> u8 \<Rightarrow> 'w spi_dev \<Rightarrow> (int \<times> 'w spi_dev) option" where
  "wait_busy_loop ops retry status dev =
     (case sfud_read_status ops status dev of (result, buf, dev) \<Rightarrow>
      do { status \<leftarrow> rd buf 0;
           if result = SFUD_SUCCESS \<and> status AND SFUD_STATUS_REGISTER_BUSY = 0 then Some (result, dev)
           else if retry = 0 then Some (SFUD_ERR_TIMEOUT, dev)
           else wait_busy_loop ops (retry - 1) status (sfud_delay ops dev) })"
  by pat_completeness auto
termination by (relation "measure (\<lambda>(ops, retry, status, dev). retry)") auto

definition wait_busy :: "'w rt_spi_ops \<Rightarrow> sfud_flash \<Rightarrow> 'w spi_dev \<Rightarrow> (int \<times> 'w spi_dev) option" where
  "wait_busy ops flash dev = wait_busy_loop ops (retry_times flash) 0 dev"

text \<open>
  The check after a write disable compares the bit of value 2 with 1, which never holds.
\<close>

definition set_write_enabled :: "'w rt_spi_ops \<Rightarrow> bool \<Rightarrow> 'w spi_dev \<Rightarrow> (int \<times> 'w spi_dev) option" where
  "set_write_enabled ops enabled dev =
     (case spi_write_read ops [if enabled then SFUD_CMD_WRITE_ENABLE else SFUD_CMD_WRITE_DISABLE] [] dev of
        (result, _, dev) \<Rightarrow>
          if result \<noteq> SFUD_SUCCESS then Some (result, dev)
          else case sfud_read_status ops 0 dev of (result, buf, dev) \<Rightarrow>
            if result \<noteq> SFUD_SUCCESS then Some (result, dev)
            else do { status \<leftarrow> rd buf 0;
                      Some (if enabled \<and> status AND SFUD_STATUS_REGISTER_WEL = 0 then SFUD_ERR_WRITE
                            else if \<not> enabled \<and> status AND SFUD_STATUS_REGISTER_WEL = 1 then SFUD_ERR_WRITE
                            else result, dev) })"

definition set_4_byte_address_mode :: "'w rt_spi_ops \<Rightarrow> bool \<Rightarrow> sfud_flash \<Rightarrow> 'w spi_dev \<Rightarrow> (int \<times> sfud_flash \<times> 'w spi_dev) option" where
  "set_4_byte_address_mode ops enabled flash dev =
     do { (result, dev) \<leftarrow> set_write_enabled ops True dev;
          if result \<noteq> SFUD_SUCCESS then Some (result, flash, dev)
          else case spi_write_read ops [if enabled then SFUD_CMD_ENTER_4B_ADDRESS_MODE else SFUD_CMD_EXIT_4B_ADDRESS_MODE] [] dev of
            (result, _, dev) \<Rightarrow>
              Some (result, if result = SFUD_SUCCESS then flash\<lparr>addr_in_4_byte := enabled\<rparr> else flash, dev) }"

definition sfud_write_status :: "'w rt_spi_ops \<Rightarrow> bool \<Rightarrow> u8 \<Rightarrow> 'w spi_dev \<Rightarrow> (int \<times> 'w spi_dev) option" where
  "sfud_write_status ops is_volatile status dev =
     do { (result, dev) \<leftarrow>
            (if is_volatile then
               (case spi_write_read ops [SFUD_VOLATILE_SR_WRITE_ENABLE] [] dev of (result, _, dev) \<Rightarrow> Some (result, dev))
             else set_write_enabled ops True dev);
          if result \<noteq> SFUD_SUCCESS then Some (result, dev)
          else case spi_write_read ops [SFUD_CMD_WRITE_STATUS_REGISTER, status] [] dev of (result, _, dev) \<Rightarrow> Some (result, dev) }"

section \<open>Reading and erasing\<close>

definition sfud_read :: "'w rt_spi_ops \<Rightarrow> sfud_flash \<Rightarrow> u32 \<Rightarrow> u8 list \<Rightarrow> 'w spi_dev \<Rightarrow> (int \<times> u8 list \<times> 'w spi_dev) option" where
  "sfud_read ops flash addr buf dev =
     (if addr + buf_size buf > capacity (chip flash) then Some (SFUD_ERR_ADDR_OUT_OF_BOUND, buf, dev)
      else do { (result, dev) \<leftarrow> wait_busy ops flash dev;
                if result \<noteq> SFUD_SUCCESS then Some (result, buf, dev)
                else Some (spi_write_read ops (SFUD_CMD_READ_DATA # make_adress_byte_array flash addr) buf dev) })"

text \<open>What every operation that changes the chip does at its end; the result of the disable is dropped.\<close>

definition sfud_exit :: "'w rt_spi_ops \<Rightarrow> int \<Rightarrow> 'w spi_dev \<Rightarrow> (int \<times> 'w spi_dev) option" where
  "sfud_exit ops result dev = do { (_, dev) \<leftarrow> set_write_enabled ops False dev; Some (result, dev) }"

text \<open>One command that changes the chip: enable writing, send the command, wait until it is done.\<close>

definition sfud_modify :: "'w rt_spi_ops \<Rightarrow> sfud_flash \<Rightarrow> u8 list \<Rightarrow> 'w spi_dev \<Rightarrow> (int \<times> 'w spi_dev) option" where
  "sfud_modify ops flash cmd dev =
     do { (result, dev) \<leftarrow> set_write_enabled ops True dev;
          if result \<noteq> SFUD_SUCCESS then Some (result, dev)
          else case spi_write_read ops cmd [] dev of (result, _, dev) \<Rightarrow>
            if result \<noteq> SFUD_SUCCESS then Some (result, dev) else wait_busy ops flash dev }"

definition sfud_chip_erase :: "'w rt_spi_ops \<Rightarrow> sfud_flash \<Rightarrow> 'w spi_dev \<Rightarrow> (int \<times> 'w spi_dev) option" where
  "sfud_chip_erase ops flash dev =
     do { (result, dev) \<leftarrow> sfud_modify ops flash
            (if write_mode (chip flash) AND SFUD_WM_DUAL_BUFFER \<noteq> 0 then [SFUD_CMD_ERASE_CHIP, 0x94, 0x80, 0x9A]
             else [SFUD_CMD_ERASE_CHIP]) dev;
          sfud_exit ops result dev }"

text \<open>\<open>sfud_sfdp_get_suitable_eraser\<close>: from the largest eraser down, the first that fits. A division by zero is undefined.\<close>

fun eraser_scan :: "(u32 \<times> u8) list \<Rightarrow> u32 \<Rightarrow> u32 \<Rightarrow> nat \<Rightarrow> nat" where
  "eraser_scan es addr n 0 = 0"
| "eraser_scan es addr n (Suc i) =
     (let s = fst (es ! Suc i) in
      if s \<noteq> 0 \<and> n \<ge> s \<and> addr mod s = 0 then Suc i else eraser_scan es addr n i)"

definition sfud_sfdp_get_suitable_eraser :: "sfud_flash \<Rightarrow> u32 \<Rightarrow> u32 \<Rightarrow> nat option" where
  "sfud_sfdp_get_suitable_eraser flash addr n =
     do { (s0, _) \<leftarrow> rd (eraser (sfdp flash)) 0;
          if s0 = 0 then None
          else if addr mod s0 \<noteq> 0 then Some 0
          else Some (eraser_scan (eraser (sfdp flash)) addr n (SFUD_SFDP_ERASE_TYPE_MAX_NUM - 1)) }"

definition cur_eraser :: "sfud_flash \<Rightarrow> u32 \<Rightarrow> u32 \<Rightarrow> (u32 \<times> u8) option" where
  "cur_eraser flash addr n =
     (if sfdp_available (sfdp flash) then
        do { i \<leftarrow> sfud_sfdp_get_suitable_eraser flash addr n; rd (eraser (sfdp flash)) i }
      else Some (erase_gran (chip flash), erase_gran_cmd (chip flash)))"

lemma next_step:
  assumes "g \<noteq> 0"
  shows "0 < unat (g - addr mod g)" and "unat (g - addr mod g) = unat g - unat addr mod unat g"
proof -
  have l: "unat (addr mod g) < unat g" using assms by (simp add: unat_mod unat_gt_0)
  then have "addr mod g \<le> g" by (simp add: word_le_nat_alt)
  then show "unat (g - addr mod g) = unat g - unat addr mod unat g" by (simp add: unat_sub unat_mod)
  then show "0 < unat (g - addr mod g)" using l by (simp add: unat_mod)
qed

text \<open>
  The loop of \<open>sfud_erase\<close>: both branches that align the address go on by the distance to the next
  multiple of the size of the eraser, or leave the loop.
\<close>

function sfud_erase_loop :: "'w rt_spi_ops \<Rightarrow> sfud_flash \<Rightarrow> u32 \<Rightarrow> u32 \<Rightarrow> int \<Rightarrow> 'w spi_dev \<Rightarrow> (int \<times> 'w spi_dev) option" where
  "sfud_erase_loop ops flash addr n result dev =
     (if n = 0 then Some (result, dev)
      else do {
        (cur_erase_size, cur_erase_cmd) \<leftarrow> cur_eraser flash addr n;
        (result, dev) \<leftarrow> sfud_modify ops flash (cur_erase_cmd # make_adress_byte_array flash addr) dev;
        if result \<noteq> SFUD_SUCCESS then Some (result, dev)
        else if cur_erase_size = 0 then None
        else let step = cur_erase_size - addr mod cur_erase_size in
             if n > step then sfud_erase_loop ops flash (addr + step) (n - step) result dev
             else Some (result, dev) })"
  by pat_completeness auto
termination
proof (relation "measure (\<lambda>(ops, flash, addr, n, result, dev). unat n)", goal_cases)
  case (2 ops flash addr n result dev e g c r res dev' step)
  then show ?case using next_step [of g addr] by (simp add: word_less_nat_alt unat_sub word_le_nat_alt)
qed simp

definition sfud_erase :: "'w rt_spi_ops \<Rightarrow> sfud_flash \<Rightarrow> u32 \<Rightarrow> u32 \<Rightarrow> 'w spi_dev \<Rightarrow> (int \<times> 'w spi_dev) option" where
  "sfud_erase ops flash addr n dev =
     (if addr + n > capacity (chip flash) then Some (SFUD_ERR_ADDR_OUT_OF_BOUND, dev)
      else if addr = 0 \<and> n = capacity (chip flash) then sfud_chip_erase ops flash dev
      else do { (result, dev) \<leftarrow> sfud_erase_loop ops flash addr n SFUD_SUCCESS dev; sfud_exit ops result dev })"

section \<open>Writing\<close>

text \<open>
  \<open>page256_or_1_byte_write\<close>: the bytes from position \<open>p\<close> of \<open>data\<close> on, a page at a time. \<open>write_gran\<close> is 1
  or 256; both branches that align the address take the bytes up to the end of the page, or all that
  are left.
\<close>

function page_write_loop :: "'w rt_spi_ops \<Rightarrow> sfud_flash \<Rightarrow> u32 \<Rightarrow> u8 list \<Rightarrow> nat \<Rightarrow> u32 \<Rightarrow> u32 \<Rightarrow> int \<Rightarrow> 'w spi_dev \<Rightarrow>
    (int \<times> 'w spi_dev) option" where
  "page_write_loop ops flash gran data p addr n result dev =
     (if n = 0 then Some (result, dev)
      else if gran = 0 then None
      else do {
        (result, dev) \<leftarrow> set_write_enabled ops True dev;
        if result \<noteq> SFUD_SUCCESS then Some (result, dev)
        else do {
          let room = gran - addr mod gran;
          let data_size = (if n > room then room else n);
          bs \<leftarrow> rd_n data p (unat data_size);
          cmd \<leftarrow> append_buf (5 + SFUD_WRITE_MAX_PAGE_SIZE) (SFUD_CMD_PAGE_PROGRAM # make_adress_byte_array flash addr) bs;
          case spi_write_read ops cmd [] dev of (result, _, dev) \<Rightarrow>
            if result \<noteq> SFUD_SUCCESS then Some (result, dev)
            else do {
              (result, dev) \<leftarrow> wait_busy ops flash dev;
              if result \<noteq> SFUD_SUCCESS then Some (result, dev)
              else page_write_loop ops flash gran data (p + unat data_size) (addr + data_size) (n - data_size) result dev } } })"
  by pat_completeness auto
termination
proof (relation "measure (\<lambda>(ops, flash, gran, data, p, addr, n, result, dev). unat n)", goal_cases)
  case (2 ops flash gran data p addr n result dev r res dev' room data_size)
  then show ?case using next_step(1) [of gran addr] by (auto simp: word_less_nat_alt unat_sub word_le_nat_alt unat_gt_0)
qed simp

definition page256_or_1_byte_write :: "'w rt_spi_ops \<Rightarrow> sfud_flash \<Rightarrow> u32 \<Rightarrow> u32 \<Rightarrow> u32 \<Rightarrow> u8 list \<Rightarrow> nat \<Rightarrow> 'w spi_dev \<Rightarrow>
    (int \<times> 'w spi_dev) option" where
  "page256_or_1_byte_write ops flash addr n gran data p dev =
     (if addr + n > capacity (chip flash) then Some (SFUD_ERR_ADDR_OUT_OF_BOUND, dev)
      else do { (result, dev) \<leftarrow> page_write_loop ops flash gran data p addr n SFUD_SUCCESS dev; sfud_exit ops result dev })"

text \<open>The loop of \<open>aai_write\<close>, two bytes at a time; what is left of the size and the position are results.\<close>

function aai_loop :: "'w rt_spi_ops \<Rightarrow> sfud_flash \<Rightarrow> bool \<Rightarrow> u8 list \<Rightarrow> nat \<Rightarrow> u32 \<Rightarrow> u32 \<Rightarrow> 'w spi_dev \<Rightarrow>
    (int \<times> nat \<times> u32 \<times> u32 \<times> 'w spi_dev) option" where
  "aai_loop ops flash first_write data p addr n dev =
     (if n < 2 then Some (SFUD_SUCCESS, p, addr, n, dev)
      else do {
        bs \<leftarrow> rd_n data p 2;
        case spi_write_read ops (SFUD_CMD_AAI_WORD_PROGRAM # (if first_write then make_adress_byte_array flash addr else []) @ bs) [] dev of
          (result, _, dev) \<Rightarrow>
            if result \<noteq> SFUD_SUCCESS then Some (result, p, addr, n, dev)
            else do {
              (result, dev) \<leftarrow> wait_busy ops flash dev;
              if result \<noteq> SFUD_SUCCESS then Some (result, p, addr, n, dev)
              else aai_loop ops flash False data (p + 2) (addr + 2) (n - 2) dev } })"
  by pat_completeness auto
termination
  by (relation "measure (\<lambda>(ops, flash, first_write, data, p, addr, n, dev). unat n)")
    (auto simp: word_less_nat_alt unat_sub word_le_nat_alt)

definition aai_exit :: "'w rt_spi_ops \<Rightarrow> int \<Rightarrow> 'w spi_dev \<Rightarrow> (int \<times> 'w spi_dev) option" where
  "aai_exit ops result dev = (if result \<noteq> SFUD_SUCCESS then sfud_exit ops result dev else Some (result, dev))"

definition aai_write :: "'w rt_spi_ops \<Rightarrow> sfud_flash \<Rightarrow> u32 \<Rightarrow> u32 \<Rightarrow> u8 list \<Rightarrow> 'w spi_dev \<Rightarrow> (int \<times> 'w spi_dev) option" where
  "aai_write ops flash addr n data dev =
     (if addr + n > capacity (chip flash) then Some (SFUD_ERR_ADDR_OUT_OF_BOUND, dev)
      else do {
        (result, p, addr, n, dev) \<leftarrow>
          (if addr mod 2 \<noteq> 0 then
             do { (result, dev) \<leftarrow> page256_or_1_byte_write ops flash addr 1 1 data 0 dev;
                  Some (result, 1, addr + 1, n - 1, dev) }
           else Some (SFUD_SUCCESS, 0, addr, n, dev));
        if result \<noteq> SFUD_SUCCESS then aai_exit ops result dev
        else do {
          (result, dev) \<leftarrow> set_write_enabled ops True dev;
          if result \<noteq> SFUD_SUCCESS then aai_exit ops result dev
          else do {
            (result, p, addr, n, dev) \<leftarrow> aai_loop ops flash True data p addr n dev;
            if result \<noteq> SFUD_SUCCESS then aai_exit ops result dev
            else do {
              (result, dev) \<leftarrow> set_write_enabled ops False dev;
              (result, dev) \<leftarrow> (if result = SFUD_SUCCESS \<and> n = 1 then page256_or_1_byte_write ops flash addr 1 1 data p dev
                                else Some (result, dev));
              aai_exit ops result dev } } } })"

definition sfud_write :: "'w rt_spi_ops \<Rightarrow> sfud_flash \<Rightarrow> u32 \<Rightarrow> u8 list \<Rightarrow> 'w spi_dev \<Rightarrow> (int \<times> 'w spi_dev) option" where
  "sfud_write ops flash addr data dev =
     (if write_mode (chip flash) AND SFUD_WM_PAGE_256B \<noteq> 0 then
        page256_or_1_byte_write ops flash addr (buf_size data) 256 data 0 dev
      else if write_mode (chip flash) AND SFUD_WM_AAI \<noteq> 0 then aai_write ops flash addr (buf_size data) data dev
      else Some (SFUD_SUCCESS, dev))"

definition sfud_erase_write :: "'w rt_spi_ops \<Rightarrow> sfud_flash \<Rightarrow> u32 \<Rightarrow> u8 list \<Rightarrow> 'w spi_dev \<Rightarrow> (int \<times> 'w spi_dev) option" where
  "sfud_erase_write ops flash addr data dev =
     do { (result, dev) \<leftarrow> sfud_erase ops flash addr (buf_size data) dev;
          if result = SFUD_SUCCESS then sfud_write ops flash addr data dev else Some (result, dev) }"

declare wait_busy_loop.simps [simp del] sfud_erase_loop.simps [simp del] page_write_loop.simps [simp del] aai_loop.simps [simp del]

end
