(* ===== verification/Sfud_Chip.thy ===== *)
theory Sfud_Chip
  imports Sfud
begin

text \<open>
  What the serial flash library does to a chip: over the commands of a serial NOR flash, reading,
  erasing and writing satisfy the laws that the flash devices rest on.
\<close>

section \<open>The chip\<close>

text \<open>
  The observable state of a chip of \<open>NOR_SIZE\<close> bytes behind the bus: what it holds, its write enable
  latch, the number of polls that it is still busy for, and its erase commands with the size of
  the block each erases. \<open>serial_nor\<close> states how it answers the commands the library sends, as in the data
  sheet of such a chip: addresses have three bytes, a page of 256 bytes can be programmed at once,
  and programming clears bits. A transfer always succeeds, the driver of the bus waits until it is
  done. A program or erase command is carried out when writing is enabled, and the chip is ready
  again within \<open>BUSY_MAX\<close> polls.
\<close>

record 'w nor_chip =
  cells :: "'w \<Rightarrow> nat \<Rightarrow> u8"
  wel :: "'w \<Rightarrow> bool"
  busy :: "'w \<Rightarrow> nat"
  erasers :: "(u32 \<times> u8) list"

definition BUSY_MAX :: nat where "BUSY_MAX = 600000"

definition nor_addr :: "u32 \<Rightarrow> u8 list" where
  "nor_addr a = [ucast (drop_bit 16 a), ucast (drop_bit 8 a), ucast a]"

definition program_cells :: "nat \<Rightarrow> u8 list \<Rightarrow> (nat \<Rightarrow> u8) \<Rightarrow> nat \<Rightarrow> u8" where
  "program_cells a bs c = (\<lambda>i. if a \<le> i \<and> i < a + length bs then c i AND bs ! (i - a) else c i)"

definition blank_cells :: "(nat \<Rightarrow> bool) \<Rightarrow> (nat \<Rightarrow> u8) \<Rightarrow> nat \<Rightarrow> u8" where
  "blank_cells S c = (\<lambda>i. if S i then 0xFF else c i)"

definition same_chip :: "'w nor_chip \<Rightarrow> 'w \<Rightarrow> 'w \<Rightarrow> bool" where
  "same_chip nc w w' \<longleftrightarrow> cells nc w' = cells nc w \<and> wel nc w' = wel nc w \<and> busy nc w' \<le> busy nc w"

lemma same_chip_trans: "same_chip nc u v \<Longrightarrow> same_chip nc v w \<Longrightarrow> same_chip nc u w"
  by (auto simp: same_chip_def)

text \<open>A command that an idle chip answers without a change of its contents, and one that changes them.\<close>

definition nor_quiet :: "'w rt_spi_ops \<Rightarrow> 'w nor_chip \<Rightarrow> u8 list \<Rightarrow> u8 list \<Rightarrow> ((nat \<Rightarrow> u8) \<Rightarrow> u8 list) \<Rightarrow> bool" where
  "nor_quiet ops nc cmd rbuf answer \<longleftrightarrow>
     (\<forall>w. busy nc w = 0 \<longrightarrow> (case bus_cmd ops cmd rbuf w of (ok, bs, w') \<Rightarrow>
        ok \<and> bs = answer (cells nc w) \<and> cells nc w' = cells nc w \<and> busy nc w' = 0))"

definition nor_modifies :: "'w rt_spi_ops \<Rightarrow> 'w nor_chip \<Rightarrow> u8 list \<Rightarrow> ((nat \<Rightarrow> u8) \<Rightarrow> nat \<Rightarrow> u8) \<Rightarrow> bool" where
  "nor_modifies ops nc cmd f \<longleftrightarrow>
     (\<forall>w. busy nc w = 0 \<and> wel nc w \<longrightarrow> (case bus_cmd ops cmd [] w of (ok, bs, w') \<Rightarrow>
        ok \<and> cells nc w' = f (cells nc w) \<and> busy nc w' \<le> BUSY_MAX))"

definition nor_status_law :: "'w rt_spi_ops \<Rightarrow> 'w nor_chip \<Rightarrow> bool" where
  "nor_status_law ops nc \<longleftrightarrow>
     (\<forall>w j. case bus_cmd ops [SFUD_CMD_READ_STATUS_REGISTER] [j] w of (ok, bs, w') \<Rightarrow>
        ok \<and> same_chip nc w w' \<and>
        (\<exists>s. bs = [s] \<and> (s AND SFUD_STATUS_REGISTER_BUSY = 0 \<longleftrightarrow> busy nc w = 0) \<and> (s AND SFUD_STATUS_REGISTER_WEL = 0 \<longleftrightarrow> \<not> wel nc w)))"

definition serial_nor :: "'w rt_spi_ops \<Rightarrow> 'w nor_chip \<Rightarrow> bool" where
  "serial_nor ops nc \<longleftrightarrow>
     (\<forall>w. case spi_configure ops w of (rc, w') \<Rightarrow> rc = RT_EOK \<and> same_chip nc w w') \<and>
     (\<forall>w. same_chip nc w (rt_spi_delay ops w) \<and> busy nc (rt_spi_delay ops w) \<le> busy nc w - 1) \<and>
     nor_status_law ops nc \<and>
     nor_quiet ops nc [SFUD_CMD_WRITE_ENABLE] [] (\<lambda>_. []) \<and>
     nor_quiet ops nc [SFUD_CMD_WRITE_DISABLE] [] (\<lambda>_. []) \<and>
     (\<forall>a buf. unat a + length buf \<le> NOR_SIZE \<longrightarrow>
        nor_quiet ops nc (SFUD_CMD_READ_DATA # nor_addr a) buf (\<lambda>c. map c [unat a..<unat a + length buf])) \<and>
     (\<forall>a bs. bs \<noteq> [] \<and> unat a mod 256 + length bs \<le> 256 \<and> unat a + length bs \<le> NOR_SIZE \<longrightarrow>
        nor_modifies ops nc (SFUD_CMD_PAGE_PROGRAM # nor_addr a @ bs) (program_cells (unat a) bs)) \<and>
     (\<forall>a g c. (g, c) \<in> set (erasers nc) \<and> unat a < NOR_SIZE \<longrightarrow>
        nor_modifies ops nc (c # nor_addr a) (blank_cells (\<lambda>i. i div unat g = unat a div unat g))) \<and>
     nor_modifies ops nc [SFUD_CMD_ERASE_CHIP] (blank_cells (\<lambda>i. i < NOR_SIZE))"

text \<open>An initialised device for such a chip.\<close>

definition sfud_ready :: "sfud_flash \<Rightarrow> 'w nor_chip \<Rightarrow> bool" where
  "sfud_ready flash nc \<longleftrightarrow>
     unat (capacity (chip flash)) = NOR_SIZE \<and> write_mode (chip flash) AND SFUD_WM_PAGE_256B \<noteq> 0 \<and>
     write_mode (chip flash) AND SFUD_WM_DUAL_BUFFER = 0 \<and> \<not> addr_in_4_byte flash \<and> BUSY_MAX \<le> retry_times flash \<and>
     (if sfdp_available (sfdp flash) then
        length (eraser (sfdp flash)) = SFUD_SFDP_ERASE_TYPE_MAX_NUM \<and> fst (eraser (sfdp flash) ! 0) = 4096 \<and>
        (\<forall>(g, c) \<in> set (eraser (sfdp flash)). g \<noteq> 0 \<longrightarrow> FLASH_SECTOR dvd unat g \<and> (g, c) \<in> set (erasers nc))
      else erase_gran (chip flash) = 4096 \<and> (4096, erase_gran_cmd (chip flash)) \<in> set (erasers nc))"

section \<open>Commands through the port\<close>

abbreviation dev_cells :: "'w nor_chip \<Rightarrow> 'w spi_dev \<Rightarrow> nat \<Rightarrow> u8" where
  "dev_cells nc dev \<equiv> cells nc (spi_world dev)"

definition dev_idle :: "'w nor_chip \<Rightarrow> 'w spi_dev \<Rightarrow> bool" where
  "dev_idle nc dev \<longleftrightarrow> busy nc (spi_world dev) = 0"

lemma nor_quietD:
  assumes "nor_quiet ops nc cmd rbuf answer" "busy nc w = 0" "bus_cmd ops cmd rbuf w = (ok, bs, w')"
  shows "ok \<and> bs = answer (cells nc w) \<and> cells nc w' = cells nc w \<and> busy nc w' = 0"
  using assms unfolding nor_quiet_def by (metis (mono_tags, lifting) case_prod_conv)

lemma nor_modifiesD:
  assumes "nor_modifies ops nc cmd f" "busy nc w = 0" "wel nc w" "bus_cmd ops cmd [] w = (ok, bs, w')"
  shows "ok \<and> cells nc w' = f (cells nc w) \<and> busy nc w' \<le> BUSY_MAX"
  using assms unfolding nor_modifies_def by (metis (mono_tags, lifting) case_prod_conv)

lemma nor_statusD:
  assumes "nor_status_law ops nc" "bus_cmd ops [SFUD_CMD_READ_STATUS_REGISTER] [j] w = (ok, bs, w')"
  shows "ok \<and> same_chip nc w w' \<and>
    (\<exists>s. bs = [s] \<and> (s AND SFUD_STATUS_REGISTER_BUSY = 0 \<longleftrightarrow> busy nc w = 0) \<and> (s AND SFUD_STATUS_REGISTER_WEL = 0 \<longleftrightarrow> \<not> wel nc w))"
  using assms(1) [unfolded nor_status_law_def, rule_format, of w j] unfolding assms(2) by simp

lemma serial_nor_erase:
  "serial_nor ops nc \<Longrightarrow> (g, c) \<in> set (erasers nc) \<Longrightarrow> unat a < NOR_SIZE \<Longrightarrow>
   nor_modifies ops nc (c # nor_addr a) (blank_cells (\<lambda>i. i div unat g = unat a div unat g))"
  by (simp add: serial_nor_def)

lemma serial_nor_program:
  "serial_nor ops nc \<Longrightarrow> bs \<noteq> [] \<Longrightarrow> unat a mod 256 + length bs \<le> 256 \<Longrightarrow> unat a + length bs \<le> NOR_SIZE \<Longrightarrow>
   nor_modifies ops nc (SFUD_CMD_PAGE_PROGRAM # nor_addr a @ bs) (program_cells (unat a) bs)"
  by (simp add: serial_nor_def)

lemma spi_own_chip:
  assumes "serial_nor ops nc"
  shows "\<exists>dev1. spi_own ops dev = (True, dev1) \<and> same_chip nc (spi_world dev) (spi_world dev1)"
  using assms by (auto simp: serial_nor_def spi_own_def same_chip_def split: prod.splits)

lemma cmd_quiet:
  assumes "serial_nor ops nc" "nor_quiet ops nc cmd rbuf answer" "cmd \<noteq> []" "dev_idle nc dev"
  shows "\<exists>dev'. spi_write_read ops cmd rbuf dev = (SFUD_SUCCESS, answer (dev_cells nc dev), dev') \<and>
    dev_cells nc dev' = dev_cells nc dev \<and> dev_idle nc dev'"
proof -
  obtain dev1 where o: "spi_own ops dev = (True, dev1)" "same_chip nc (spi_world dev) (spi_world dev1)"
    using spi_own_chip [OF assms(1)] by blast
  obtain ok bs w where c: "bus_cmd ops cmd rbuf (spi_world dev1) = (ok, bs, w)" using prod_cases3 by blast
  have "ok \<and> bs = answer (dev_cells nc dev) \<and> cells nc w = dev_cells nc dev \<and> busy nc w = 0"
    using nor_quietD [OF assms(2) _ c] assms(4) o(2) by (simp add: dev_idle_def same_chip_def)
  then show ?thesis using spi_write_read_cmd [OF assms(3) o(1) c] by (simp add: dev_idle_def)
qed

lemma cmd_modifies:
  assumes "serial_nor ops nc" "nor_modifies ops nc cmd f" "cmd \<noteq> []" "dev_idle nc dev" "wel nc (spi_world dev)"
  shows "\<exists>bs dev'. spi_write_read ops cmd [] dev = (SFUD_SUCCESS, bs, dev') \<and>
    dev_cells nc dev' = f (dev_cells nc dev) \<and> busy nc (spi_world dev') \<le> BUSY_MAX"
proof -
  obtain dev1 where o: "spi_own ops dev = (True, dev1)" "same_chip nc (spi_world dev) (spi_world dev1)"
    using spi_own_chip [OF assms(1)] by blast
  obtain ok bs w where c: "bus_cmd ops cmd [] (spi_world dev1) = (ok, bs, w)" using prod_cases3 by blast
  have "ok \<and> cells nc w = f (dev_cells nc dev) \<and> busy nc w \<le> BUSY_MAX"
    using nor_modifiesD [OF assms(2) _ _ c] assms(4,5) o(2) by (simp add: dev_idle_def same_chip_def)
  then show ?thesis using spi_write_read_cmd [OF assms(3) o(1) c] by simp
qed

lemma read_status:
  assumes "serial_nor ops nc"
  shows "\<exists>s dev'. sfud_read_status ops j dev = (SFUD_SUCCESS, [s], dev') \<and> same_chip nc (spi_world dev) (spi_world dev') \<and>
    (s AND SFUD_STATUS_REGISTER_BUSY = 0 \<longrightarrow> busy nc (spi_world dev') = 0) \<and>
    (busy nc (spi_world dev) = 0 \<longrightarrow> s AND SFUD_STATUS_REGISTER_BUSY = 0) \<and>
    (s AND SFUD_STATUS_REGISTER_WEL = 0 \<longleftrightarrow> \<not> wel nc (spi_world dev))"
proof -
  obtain dev1 where o: "spi_own ops dev = (True, dev1)" "same_chip nc (spi_world dev) (spi_world dev1)"
    using spi_own_chip [OF assms] by blast
  obtain ok bs w where c: "bus_cmd ops [SFUD_CMD_READ_STATUS_REGISTER] [j] (spi_world dev1) = (ok, bs, w)"
    using prod_cases3 by blast
  have "nor_status_law ops nc" using assms by (simp add: serial_nor_def)
  from nor_statusD [OF this c] obtain s where s: "ok" "bs = [s]" "same_chip nc (spi_world dev1) w"
    "s AND SFUD_STATUS_REGISTER_BUSY = 0 \<longleftrightarrow> busy nc (spi_world dev1) = 0"
    "s AND SFUD_STATUS_REGISTER_WEL = 0 \<longleftrightarrow> \<not> wel nc (spi_world dev1)"
    by (elim conjE exE)
  have "sfud_read_status ops j dev = (SFUD_SUCCESS, [s], dev1\<lparr>spi_world := w\<rparr>)"
    using spi_write_read_cmd [OF _ o(1) c] s(1,2) by (simp add: sfud_read_status_def)
  moreover have "same_chip nc (spi_world dev) w" by (rule same_chip_trans [OF o(2) s(3)])
  moreover have "s AND SFUD_STATUS_REGISTER_BUSY = 0 \<longrightarrow> busy nc w = 0"
    "busy nc (spi_world dev) = 0 \<longrightarrow> s AND SFUD_STATUS_REGISTER_BUSY = 0"
    "s AND SFUD_STATUS_REGISTER_WEL = 0 \<longleftrightarrow> \<not> wel nc (spi_world dev)"
    using s(3,4,5) o(2) unfolding same_chip_def by (auto simp del: and_zero_eq)
  ultimately show ?thesis
    by (intro exI [of _ s] exI [of _ "dev1\<lparr>spi_world := w\<rparr>"] conjI) simp_all
qed

lemma wait_busy_loop_ends:
  assumes "serial_nor ops nc" "busy nc (spi_world dev) \<le> retry"
  shows "\<exists>dev'. wait_busy_loop ops retry j dev = Some (SFUD_SUCCESS, dev') \<and>
    dev_cells nc dev' = dev_cells nc dev \<and> dev_idle nc dev'"
  using assms(2)
proof (induction retry arbitrary: j dev)
  case 0
  then show ?case
    using read_status [OF assms(1), of j dev]
    by (auto simp: wait_busy_loop.simps [of ops 0] dev_idle_def same_chip_def rd_def)
next
  case (Suc r)
  obtain s dev1 where s: "sfud_read_status ops j dev = (SFUD_SUCCESS, [s], dev1)"
    "same_chip nc (spi_world dev) (spi_world dev1)"
    "s AND SFUD_STATUS_REGISTER_BUSY = 0 \<longrightarrow> busy nc (spi_world dev1) = 0"
    using read_status [OF assms(1), of j dev] by blast
  show ?case
  proof (cases "s AND SFUD_STATUS_REGISTER_BUSY = 0")
    case True
    then show ?thesis using s by (auto simp: wait_busy_loop.simps [of ops "Suc r"] dev_idle_def same_chip_def rd_def)
  next
    case False
    let ?d = "sfud_delay ops dev1"
    have d: "same_chip nc (spi_world dev1) (spi_world ?d)" "busy nc (spi_world ?d) \<le> busy nc (spi_world dev1) - 1"
      using assms(1) by (simp_all add: serial_nor_def sfud_delay_def)
    then have "busy nc (spi_world ?d) \<le> r" using Suc.prems s(2) unfolding same_chip_def by linarith
    from Suc.IH [OF this, of s] show ?thesis
      using False s(1,2) d(1) by (auto simp: wait_busy_loop.simps [of ops "Suc r"] same_chip_def rd_def)
  qed
qed

lemma wait_busy_ends:
  assumes "serial_nor ops nc" "sfud_ready flash nc" "busy nc (spi_world dev) \<le> BUSY_MAX"
  shows "\<exists>dev'. wait_busy ops flash dev = Some (SFUD_SUCCESS, dev') \<and>
    dev_cells nc dev' = dev_cells nc dev \<and> dev_idle nc dev'"
  using wait_busy_loop_ends [OF assms(1)] assms(2,3) by (auto simp: wait_busy_def sfud_ready_def)

lemma set_write_enabled_result:
  assumes "serial_nor ops nc" "dev_idle nc dev"
  shows "\<exists>rc dev'. set_write_enabled ops en dev = Some (rc, dev') \<and> dev_cells nc dev' = dev_cells nc dev \<and>
    dev_idle nc dev' \<and> (en \<and> rc = SFUD_SUCCESS \<longrightarrow> wel nc (spi_world dev'))"
proof -
  have "nor_quiet ops nc [if en then SFUD_CMD_WRITE_ENABLE else SFUD_CMD_WRITE_DISABLE] [] (\<lambda>_. [])"
    using assms(1) by (simp add: serial_nor_def)
  from cmd_quiet [OF assms(1) this _ assms(2)] obtain dev1 where
    c: "spi_write_read ops [if en then SFUD_CMD_WRITE_ENABLE else SFUD_CMD_WRITE_DISABLE] [] dev = (SFUD_SUCCESS, [], dev1)"
      "dev_cells nc dev1 = dev_cells nc dev" "dev_idle nc dev1" by auto
  obtain s dev2 where s: "sfud_read_status ops 0 dev1 = (SFUD_SUCCESS, [s], dev2)"
    "same_chip nc (spi_world dev1) (spi_world dev2)"
    "s AND SFUD_STATUS_REGISTER_WEL = 0 \<longleftrightarrow> \<not> wel nc (spi_world dev1)"
    using read_status [OF assms(1), of 0 dev1] by blast
  show ?thesis
    using c s by (auto simp: set_write_enabled_def rd_def same_chip_def dev_idle_def sfud_errs)
qed

lemma sfud_exit_result:
  assumes "serial_nor ops nc" "dev_idle nc dev"
  shows "\<exists>dev'. sfud_exit ops rc dev = Some (rc, dev') \<and> dev_cells nc dev' = dev_cells nc dev \<and> dev_idle nc dev'"
  using set_write_enabled_result [OF assms, of False] by (auto simp: sfud_exit_def)

text \<open>Either writing cannot be enabled and nothing changes, or the command is carried out and awaited.\<close>

lemma sfud_modify_result:
  assumes "serial_nor ops nc" "sfud_ready flash nc" "dev_idle nc dev" "nor_modifies ops nc cmd f" "cmd \<noteq> []"
  shows "\<exists>rc dev'. sfud_modify ops flash cmd dev = Some (rc, dev') \<and> dev_idle nc dev' \<and>
    dev_cells nc dev' = (if rc = SFUD_SUCCESS then f (dev_cells nc dev) else dev_cells nc dev)"
proof -
  obtain rc dev1 where e: "set_write_enabled ops True dev = Some (rc, dev1)" "dev_cells nc dev1 = dev_cells nc dev"
    "dev_idle nc dev1" "rc = SFUD_SUCCESS \<longrightarrow> wel nc (spi_world dev1)"
    using set_write_enabled_result [OF assms(1,3), of True] by blast
  show ?thesis
  proof (cases "rc = SFUD_SUCCESS")
    case True
    then obtain bs dev2 where c: "spi_write_read ops cmd [] dev1 = (SFUD_SUCCESS, bs, dev2)"
      "dev_cells nc dev2 = f (dev_cells nc dev1)" "busy nc (spi_world dev2) \<le> BUSY_MAX"
      using cmd_modifies [OF assms(1,4,5) e(3)] e(4) by blast
    then show ?thesis
      using wait_busy_ends [OF assms(1,2) c(3)] e True by (auto simp: sfud_modify_def)
  next
    case False
    then show ?thesis using e by (simp add: sfud_modify_def)
  qed
qed

section \<open>Reading\<close>

lemma make_address_3:
  "\<not> addr_in_4_byte flash \<Longrightarrow> make_adress_byte_array flash a = nor_addr a"
proof -
  have "x AND 0xFF = take_bit 8 x" for x :: u32 by (simp add: take_bit_eq_mask mask_eq_exp_minus_1)
  then have "ucast (x AND 0xFF) = (ucast x :: u8)" for x :: u32
    by (intro bit_word_eqI) (simp add: bit_simps)
  then show "\<not> addr_in_4_byte flash \<Longrightarrow> ?thesis"
    by (simp add: make_adress_byte_array_def nor_addr_def upt_rec)
qed

lemma sfud_bounds_pass:
  assumes "unat a + unat n \<le> NOR_SIZE" "sfud_ready flash nc"
  shows "\<not> capacity (chip flash) < a + n"
proof -
  have "unat (a + n) = unat a + unat n" using assms(1) by (simp add: unat_word_ariths NOR_SIZE_def)
  then show ?thesis using assms by (simp add: sfud_ready_def word_less_nat_alt)
qed

lemma sfud_read_result:
  assumes "serial_nor ops nc" "sfud_ready flash nc" "dev_idle nc dev" "unat a + length buf \<le> NOR_SIZE"
  shows "\<exists>dev'. sfud_read ops flash a buf dev = Some (SFUD_SUCCESS, map (dev_cells nc dev) [unat a..<unat a + length buf], dev') \<and>
    dev_cells nc dev' = dev_cells nc dev \<and> dev_idle nc dev'"
proof -
  have "unat (buf_size buf) = length buf" using assms(4) by (simp add: buf_size_def unat_of_nat NOR_SIZE_def)
  then have b: "\<not> capacity (chip flash) < a + buf_size buf" using sfud_bounds_pass [OF _ assms(2)] assms(4) by simp
  obtain dev1 where w: "wait_busy ops flash dev = Some (SFUD_SUCCESS, dev1)" "dev_cells nc dev1 = dev_cells nc dev" "dev_idle nc dev1"
    using wait_busy_ends [OF assms(1,2), of dev] assms(3) by (auto simp: dev_idle_def)
  have m: "make_adress_byte_array flash a = nor_addr a" using assms(2) by (simp add: sfud_ready_def make_address_3)
  have "nor_quiet ops nc (SFUD_CMD_READ_DATA # nor_addr a) buf (\<lambda>c. map c [unat a..<unat a + length buf])"
    using assms(1,4) by (simp add: serial_nor_def)
  from cmd_quiet [OF assms(1) this _ w(3)] show ?thesis using b w by (auto simp: sfud_read_def m)
qed

section \<open>Erasing\<close>

lemma sector_cover_append: "sector_cover a (m + n) i \<longleftrightarrow> sector_cover a m i \<or> sector_cover (a + m) n i"
proof -
  have "a \<le> j \<and> j < a + (m + n) \<longleftrightarrow> a \<le> j \<and> j < a + m \<or> a + m \<le> j \<and> j < a + m + n" for j :: nat by linarith
  then show ?thesis unfolding sector_cover_def by metis
qed

lemma sector_cover_within:
  assumes "0 < m" "a mod FLASH_SECTOR + m \<le> FLASH_SECTOR"
  shows "sector_cover a m i \<longleftrightarrow> i div FLASH_SECTOR = a div FLASH_SECTOR"
proof -
  have "(a + m - 1) div FLASH_SECTOR = a div FLASH_SECTOR"
  proof -
    have "a + m - 1 = (a mod FLASH_SECTOR + m - 1) + FLASH_SECTOR * (a div FLASH_SECTOR)"
      using assms(1) mod_mult_div_eq [of a FLASH_SECTOR] by linarith
    moreover have "a mod FLASH_SECTOR + m - 1 < FLASH_SECTOR" using assms by linarith
    ultimately show ?thesis by simp
  qed
  then show ?thesis using sector_cover_iff [OF assms(1)] by auto
qed

text \<open>The blocks that the loop erases are those that meet the range: one eraser, then the rest.\<close>

lemma sector_cover_step:
  assumes "0 < n" "FLASH_SECTOR dvd g" "0 < g" "g = FLASH_SECTOR \<or> a mod g = 0 \<and> g \<le> n"
  shows "sector_cover a n i \<longleftrightarrow>
    i div g = a div g \<or> g - a mod g < n \<and> sector_cover (a + (g - a mod g)) (n - (g - a mod g)) i"
proof -
  let ?s = "g - a mod g"
  have m: "a mod g < g" using assms(3) by simp
  have blk: "sector_cover a ?s i \<longleftrightarrow> i div g = a div g" if "?s \<le> n"
  proof (cases "g = FLASH_SECTOR")
    case True
    then show ?thesis using sector_cover_within [of ?s a i] m by simp
  next
    case False
    then have al: "a mod g = 0" using assms(4) by simp
    then have "a mod FLASH_SECTOR = 0" "g mod FLASH_SECTOR = 0" using assms(2) mod_mod_cancel [OF assms(2), of a] by auto
    from sector_cover_aligned [OF this] have "sector_cover a ?s i \<longleftrightarrow> a \<le> i \<and> i < a + g" using al by simp
    also have "\<dots> \<longleftrightarrow> i div g = a div g"
      using al assms(3) by (metis div_mod_decomp add.right_neutral mult.commute
          div_nat_eqI dividend_less_div_times div_times_less_eq_dividend add.commute mult_Suc_right)
    finally show ?thesis .
  qed
  show ?thesis
  proof (cases "?s < n")
    case True
    then show ?thesis using blk sector_cover_append [of a ?s "n - ?s" i] by simp
  next
    case False
    then have g: "g = FLASH_SECTOR \<or> ?s = n" using assms(4) by auto
    then have "sector_cover a n i \<longleftrightarrow> i div g = a div g"
    proof
      assume "g = FLASH_SECTOR"
      then show ?thesis using sector_cover_within [of n a i] assms(1) False m by simp
    qed (use blk in simp)
    then show ?thesis using False by simp
  qed
qed

text \<open>The eraser that the loop takes.\<close>

lemma eraser_scan_cases:
  "eraser_scan es a n k = 0 \<or>
   (let s = fst (es ! eraser_scan es a n k) in eraser_scan es a n k \<le> k \<and> s \<noteq> 0 \<and> s \<le> n \<and> a mod s = 0)"
  by (induction k) (auto simp: Let_def simp del: One_nat_def del: mod_0_imp_dvd)

lemma cur_eraser_result:
  assumes "sfud_ready flash nc"
  shows "\<exists>g c. cur_eraser flash a n = Some (g, c) \<and> (g, c) \<in> set (erasers nc) \<and> FLASH_SECTOR dvd unat g \<and> 0 < unat g \<and>
    (unat g = FLASH_SECTOR \<or> unat a mod unat g = 0 \<and> unat g \<le> unat n)"
proof (cases "sfdp_available (sfdp flash)")
  case True
  let ?es = "eraser (sfdp flash)"
  define k where "k = (if a mod fst (?es ! 0) \<noteq> 0 then 0 else eraser_scan ?es a n 3)"
  have es: "length ?es = 4" "fst (?es ! 0) = 4096" "\<forall>(g, c) \<in> set ?es. g \<noteq> 0 \<longrightarrow> FLASH_SECTOR dvd unat g \<and> (g, c) \<in> set (erasers nc)"
    using assms True by (simp_all add: sfud_ready_def SFUD_SFDP_ERASE_TYPE_MAX_NUM_def)
  have k: "k = 0 \<or> (k \<le> 3 \<and> fst (?es ! k) \<noteq> 0 \<and> fst (?es ! k) \<le> n \<and> a mod fst (?es ! k) = 0)"
    using eraser_scan_cases [of ?es a n 3] by (auto simp: k_def Let_def del: mod_0_imp_dvd)
  obtain g c where gc: "?es ! k = (g, c)" by fastforce
  have k4: "k < length ?es" using k es(1) by auto
  then have "(g, c) \<in> set ?es" using gc nth_mem by metis
  moreover have "g \<noteq> 0" using k gc es(2) by auto
  ultimately have "FLASH_SECTOR dvd unat g" "(g, c) \<in> set (erasers nc)" using es(3) by auto
  moreover have "unat g = FLASH_SECTOR \<or> unat a mod unat g = 0 \<and> unat g \<le> unat n"
    using k gc es(2) by (auto simp: FLASH_SECTOR_def word_le_nat_alt unat_mod word_unat_eq_iff)
  moreover have "cur_eraser flash a n = Some (g, c)"
  proof -
    have "sfud_sfdp_get_suitable_eraser flash a n = Some k"
      using es(1,2) by (auto simp: sfud_sfdp_get_suitable_eraser_def k_def rd_def SFUD_SFDP_ERASE_TYPE_MAX_NUM_def
          split: prod.splits del: mod_0_imp_dvd)
    then show ?thesis using True gc k4 by (simp add: cur_eraser_def rd_def)
  qed
  ultimately show ?thesis using \<open>g \<noteq> 0\<close> by (auto simp: unat_gt_0)
next
  case False
  then show ?thesis using assms by (auto simp: cur_eraser_def sfud_ready_def FLASH_SECTOR_def)
qed

definition erase_spec :: "nat \<Rightarrow> nat \<Rightarrow> int \<Rightarrow> (nat \<Rightarrow> u8) \<Rightarrow> (nat \<Rightarrow> u8) \<Rightarrow> bool" where
  "erase_spec a n rc c c' \<longleftrightarrow>
     (\<forall>i. \<not> sector_cover a n i \<longrightarrow> c' i = c i) \<and> (rc = SFUD_SUCCESS \<longrightarrow> (\<forall>i. sector_cover a n i \<longrightarrow> c' i = 0xFF))"

lemma sfud_erase_loop_result:
  assumes "serial_nor ops nc" "sfud_ready flash nc" "dev_idle nc dev" "unat a + unat n \<le> NOR_SIZE"
  shows "\<exists>rc dev'. sfud_erase_loop ops flash a n SFUD_SUCCESS dev = Some (rc, dev') \<and> dev_idle nc dev' \<and>
    erase_spec (unat a) (unat n) rc (dev_cells nc dev) (dev_cells nc dev')"
  using assms(3,4)
proof (induction "unat n" arbitrary: a n dev rule: less_induct)
  case less
  show ?case
  proof (cases "n = 0")
    case True
    then show ?thesis using less.prems
      by (subst sfud_erase_loop.simps) (auto simp: erase_spec_def sector_cover_def)
  next
    case False
    then have n: "0 < unat n" by (simp add: unat_gt_0)
    obtain g c where e: "cur_eraser flash a n = Some (g, c)" "(g, c) \<in> set (erasers nc)"
      and g: "FLASH_SECTOR dvd unat g" "0 < unat g" "unat g = FLASH_SECTOR \<or> unat a mod unat g = 0 \<and> unat g \<le> unat n"
      using cur_eraser_result [OF assms(2), of a n] by (elim exE conjE)
    have m: "make_adress_byte_array flash a = nor_addr a" using assms(2) by (simp add: sfud_ready_def make_address_3)
    have "unat a < NOR_SIZE" using less.prems(2) n by linarith
    then have "nor_modifies ops nc (c # nor_addr a) (blank_cells (\<lambda>i. i div unat g = unat a div unat g))"
      using serial_nor_erase [OF assms(1) e(2)] by simp
    from sfud_modify_result [OF assms(1,2) less.prems(1) this] obtain rc dev1 where
      r: "sfud_modify ops flash (c # nor_addr a) dev = Some (rc, dev1)" "dev_idle nc dev1"
        "dev_cells nc dev1 = (if rc = SFUD_SUCCESS then blank_cells (\<lambda>i. i div unat g = unat a div unat g) (dev_cells nc dev)
           else dev_cells nc dev)" by auto
    define s where "s = g - a mod g"
    have g0: "g \<noteq> 0" using g(2) by auto
    have s: "unat s = unat g - unat a mod unat g" "0 < unat s" using next_step [OF g0, of a] by (simp_all add: s_def)
    note step = sector_cover_step [OF n g, folded s(1)]
    have run: "sfud_erase_loop ops flash a n SFUD_SUCCESS dev =
      (if rc \<noteq> SFUD_SUCCESS then Some (rc, dev1)
       else if n > s then sfud_erase_loop ops flash (a + s) (n - s) rc dev1 else Some (rc, dev1))"
      using False e(1) r(1) g0 by (subst sfud_erase_loop.simps) (simp add: m s_def Let_def)
    show ?thesis
    proof (cases "rc = SFUD_SUCCESS \<and> n > s")
      case True
      then have sn: "unat (n - s) = unat n - unat s" "unat s < unat n" by (auto simp: word_less_nat_alt unat_sub word_le_nat_alt)
      have as: "unat (a + s) = unat a + unat s"
        using less.prems(2) sn(2) by (simp add: unat_word_ariths NOR_SIZE_def)
      obtain rc' dev' where i: "sfud_erase_loop ops flash (a + s) (n - s) SFUD_SUCCESS dev1 = Some (rc', dev')" "dev_idle nc dev'"
        "erase_spec (unat (a + s)) (unat (n - s)) rc' (dev_cells nc dev1) (dev_cells nc dev')"
        using less.hyps [of "n - s" dev1 "a + s"] r(2) less.prems(2) sn as s(2) n by auto
      have "erase_spec (unat a) (unat n) rc' (dev_cells nc dev) (dev_cells nc dev')"
        using i(3) sn as r(3) True unfolding erase_spec_def step by (auto simp: blank_cells_def)
      then show ?thesis using run True i(1,2) by auto
    next
      case F: False
      have "erase_spec (unat a) (unat n) rc (dev_cells nc dev) (dev_cells nc dev1)"
        using F r(3) unfolding erase_spec_def step by (auto simp: blank_cells_def word_less_nat_alt)
      then show ?thesis using run F r(2) by auto
    qed
  qed
qed

lemma sfud_erase_result:
  assumes "serial_nor ops nc" "sfud_ready flash nc" "dev_idle nc dev" "unat a + unat n \<le> NOR_SIZE"
  shows "\<exists>rc dev'. sfud_erase ops flash a n dev = Some (rc, dev') \<and> dev_idle nc dev' \<and>
    erase_spec (unat a) (unat n) rc (dev_cells nc dev) (dev_cells nc dev')"
proof (cases "a = 0 \<and> n = capacity (chip flash)")
  case True
  then have n: "unat a = 0" "unat n = NOR_SIZE" using assms(2) by (simp_all add: sfud_ready_def)
  have "sector_cover (unat a) (unat n) i \<longleftrightarrow> i < NOR_SIZE" for i
    using sector_cover_aligned [of "unat a" "unat n" i] n by (simp add: NOR_SIZE_def FLASH_SECTOR_def)
  moreover have "nor_modifies ops nc [SFUD_CMD_ERASE_CHIP] (blank_cells (\<lambda>i. i < NOR_SIZE))"
    using assms(1) by (simp add: serial_nor_def)
  from sfud_modify_result [OF assms(1-3) this] obtain rc dev1 where
    r: "sfud_modify ops flash [SFUD_CMD_ERASE_CHIP] dev = Some (rc, dev1)" "dev_idle nc dev1"
      "dev_cells nc dev1 = (if rc = SFUD_SUCCESS then blank_cells (\<lambda>i. i < NOR_SIZE) (dev_cells nc dev) else dev_cells nc dev)"
    by auto
  moreover obtain dev' where "sfud_exit ops rc dev1 = Some (rc, dev')" "dev_cells nc dev' = dev_cells nc dev1" "dev_idle nc dev'"
    using sfud_exit_result [OF assms(1) r(2)] by auto
  ultimately show ?thesis
    using True assms(2) sfud_bounds_pass [OF assms(4,2)]
    by (auto simp: sfud_erase_def sfud_chip_erase_def sfud_ready_def erase_spec_def blank_cells_def)
next
  case False
  obtain rc dev1 where r: "sfud_erase_loop ops flash a n SFUD_SUCCESS dev = Some (rc, dev1)" "dev_idle nc dev1"
    "erase_spec (unat a) (unat n) rc (dev_cells nc dev) (dev_cells nc dev1)"
    using sfud_erase_loop_result [OF assms] by auto
  moreover obtain dev' where "sfud_exit ops rc dev1 = Some (rc, dev')" "dev_cells nc dev' = dev_cells nc dev1" "dev_idle nc dev'"
    using sfud_exit_result [OF assms(1) r(2)] by auto
  ultimately show ?thesis using False sfud_bounds_pass [OF assms(4,2)] by (auto simp: sfud_erase_def)
qed

section \<open>Writing\<close>

definition write_spec :: "nat \<Rightarrow> u8 list \<Rightarrow> int \<Rightarrow> (nat \<Rightarrow> u8) \<Rightarrow> (nat \<Rightarrow> u8) \<Rightarrow> bool" where
  "write_spec a bs rc c c' \<longleftrightarrow>
     (\<forall>i. \<not> (a \<le> i \<and> i < a + length bs) \<longrightarrow> c' i = c i) \<and>
     (rc = SFUD_SUCCESS \<longrightarrow> (\<forall>i < length bs. c' (a + i) = c (a + i) AND bs ! i))"

lemma write_spec_append:
  assumes "write_spec (a + length xs) ys rc (program_cells a xs c) c'"
  shows "write_spec a (xs @ ys) rc c c'"
proof -
  have "c' (a + i) = c (a + i) AND (xs @ ys) ! i" if ok: "rc = SFUD_SUCCESS" and il: "i < length (xs @ ys)" for i
  proof (cases "i < length xs")
    case True
    then show ?thesis using assms by (auto simp: write_spec_def program_cells_def nth_append)
  next
    case False
    then obtain j where j: "i = length xs + j" "j < length ys" using il by (metis add_diff_inverse_nat length_append nat_add_left_cancel_less)
    have "c' (a + length xs + j) = program_cells a xs c (a + length xs + j) AND ys ! j"
      using assms ok j(2) unfolding write_spec_def by simp
    then show ?thesis using j by (simp add: program_cells_def nth_append add.assoc)
  qed
  moreover have "c' i = c i" if "\<not> (a \<le> i \<and> i < a + length (xs @ ys))" for i
    using that assms by (auto simp: write_spec_def program_cells_def)
  ultimately show ?thesis unfolding write_spec_def by blast
qed

text \<open>A page of the loop is one modifying command.\<close>

lemma page_write_step:
  assumes "n \<noteq> 0" "ds = (if n > 256 - a mod 256 then 256 - a mod 256 else n)" "p + unat ds \<le> length data" "\<not> addr_in_4_byte flash"
  shows "page_write_loop ops flash 256 data p a n rc dev =
    do { (result, dev) \<leftarrow> sfud_modify ops flash (SFUD_CMD_PAGE_PROGRAM # nor_addr a @ take (unat ds) (drop p data)) dev;
         if result \<noteq> SFUD_SUCCESS then Some (result, dev)
         else page_write_loop ops flash 256 data (p + unat ds) (a + ds) (n - ds) result dev }"
proof -
  have "ds \<le> 256"
    using assms(2) next_step(2) [of 256 a] by (auto simp: word_le_nat_alt word_less_nat_alt not_less)
  then have "unat ds \<le> 256" by (simp add: word_le_nat_alt)
  then have "append_buf (5 + SFUD_WRITE_MAX_PAGE_SIZE) (SFUD_CMD_PAGE_PROGRAM # nor_addr a) (take (unat ds) (drop p data)) =
      Some (SFUD_CMD_PAGE_PROGRAM # nor_addr a @ take (unat ds) (drop p data))"
    by (simp add: append_buf_def SFUD_WRITE_MAX_PAGE_SIZE_def nor_addr_def)
  then show ?thesis
    using assms(1,3,4) unfolding page_write_loop.simps [of ops flash 256 data p a n] assms(2) [symmetric] Let_def
    by (cases "set_write_enabled ops True dev")
      (auto simp: sfud_modify_def make_address_3 rd_n_Some split: prod.splits)
qed

lemma page_write_loop_result:
  assumes "serial_nor ops nc" "sfud_ready flash nc" "dev_idle nc dev" "unat a + unat n \<le> NOR_SIZE" "p + unat n \<le> length data"
  shows "\<exists>rc dev'. page_write_loop ops flash 256 data p a n SFUD_SUCCESS dev = Some (rc, dev') \<and> dev_idle nc dev' \<and>
    write_spec (unat a) (take (unat n) (drop p data)) rc (dev_cells nc dev) (dev_cells nc dev')"
  using assms(3-5)
proof (induction "unat n" arbitrary: a n p dev rule: less_induct)
  case less
  show ?case
  proof (cases "n = 0")
    case True
    then show ?thesis using less.prems by (subst page_write_loop.simps) (auto simp: write_spec_def)
  next
    case False
    define ds where "ds = (if n > 256 - a mod 256 then 256 - a mod 256 else n)"
    have r: "unat (256 - a mod 256) = 256 - unat a mod 256" using next_step(2) [of 256 a] by simp
    have ds: "0 < unat ds" "unat ds \<le> unat n" "unat a mod 256 + unat ds \<le> 256"
      using False r next_step(1) [of 256 a] by (auto simp: ds_def word_less_nat_alt unat_gt_0)
    define xs where "xs = take (unat ds) (drop p data)"
    have xs: "length xs = unat ds" "xs \<noteq> []" using ds less.prems(3) by (auto simp: xs_def)
    have "nor_modifies ops nc (SFUD_CMD_PAGE_PROGRAM # nor_addr a @ xs) (program_cells (unat a) xs)"
      using serial_nor_program [OF assms(1) xs(2), of a] xs(1) ds less.prems(2) by simp
    from sfud_modify_result [OF assms(1,2) less.prems(1) this] obtain rc dev1 where
      m: "sfud_modify ops flash (SFUD_CMD_PAGE_PROGRAM # nor_addr a @ xs) dev = Some (rc, dev1)" "dev_idle nc dev1"
        "dev_cells nc dev1 = (if rc = SFUD_SUCCESS then program_cells (unat a) xs (dev_cells nc dev) else dev_cells nc dev)" by auto
    have run: "page_write_loop ops flash 256 data p a n SFUD_SUCCESS dev =
        (if rc \<noteq> SFUD_SUCCESS then Some (rc, dev1)
         else page_write_loop ops flash 256 data (p + unat ds) (a + ds) (n - ds) rc dev1)"
    proof -
      have "p + unat ds \<le> length data" "\<not> addr_in_4_byte flash"
        using less.prems(3) ds(2) assms(2) by (simp_all add: sfud_ready_def)
      from page_write_step [OF False ds_def this, of ops SFUD_SUCCESS dev] show ?thesis
        using m(1) by (simp add: xs_def)
    qed
    show ?thesis
    proof (cases "rc = SFUD_SUCCESS")
      case True
      have nd: "unat (n - ds) = unat n - unat ds" using ds(2) by (simp add: unat_sub word_le_nat_alt)
      have ad: "unat (a + ds) = unat a + unat ds"
        using less.prems(2) ds(2) by (simp add: unat_word_ariths NOR_SIZE_def)
      obtain rc' dev' where i: "page_write_loop ops flash 256 data (p + unat ds) (a + ds) (n - ds) SFUD_SUCCESS dev1 = Some (rc', dev')"
        "dev_idle nc dev'"
        "write_spec (unat (a + ds)) (take (unat (n - ds)) (drop (p + unat ds) data)) rc' (dev_cells nc dev1) (dev_cells nc dev')"
        using less.hyps [of "n - ds" dev1 "a + ds" "p + unat ds"] m(2) less.prems ds nd ad by auto
      have "take (unat n) (drop p data) = xs @ take (unat (n - ds)) (drop (p + unat ds) data)"
        using ds(2) nd by (simp add: xs_def take_add [symmetric] add.commute [of p] flip: drop_drop)
      then have "write_spec (unat a) (take (unat n) (drop p data)) rc' (dev_cells nc dev) (dev_cells nc dev')"
        using write_spec_append [of "unat a" xs] i(3) ad xs(1) m(3) True by simp
      then show ?thesis using run True i(1,2) by auto
    next
      case rc: False
      then show ?thesis using run m by (auto simp: write_spec_def)
    qed
  qed
qed

lemma sfud_write_result:
  assumes "serial_nor ops nc" "sfud_ready flash nc" "dev_idle nc dev" "unat a + length buf \<le> NOR_SIZE"
  shows "\<exists>rc dev'. sfud_write ops flash a buf dev = Some (rc, dev') \<and> dev_idle nc dev' \<and>
    write_spec (unat a) buf rc (dev_cells nc dev) (dev_cells nc dev')"
proof -
  have b: "unat (buf_size buf) = length buf" using assms(4) by (simp add: buf_size_def unat_of_nat NOR_SIZE_def)
  obtain rc dev1 where r: "page_write_loop ops flash 256 buf 0 a (buf_size buf) SFUD_SUCCESS dev = Some (rc, dev1)" "dev_idle nc dev1"
    "write_spec (unat a) buf rc (dev_cells nc dev) (dev_cells nc dev1)"
    using page_write_loop_result [OF assms(1-3), of a "buf_size buf" 0 buf] assms(4) b by auto
  moreover obtain dev' where "sfud_exit ops rc dev1 = Some (rc, dev')" "dev_cells nc dev' = dev_cells nc dev1" "dev_idle nc dev'"
    using sfud_exit_result [OF assms(1) r(2)] by auto
  ultimately show ?thesis
    using assms(2) sfud_bounds_pass [of a "buf_size buf", OF _ assms(2)] assms(4) b
    by (auto simp: sfud_write_def page256_or_1_byte_write_def sfud_ready_def)
qed

section \<open>The serial flash device\<close>

text \<open>
  The library as the serial flash device of the theory \<open>Fal_Flash\<close>, over any on-chip flash \<open>hw\<close>. An
  operation that were undefined would be reported as an error; inside the chip none is.
\<close>

definition sfud_hw :: "'w rt_spi_ops \<Rightarrow> 'w nor_chip \<Rightarrow> sfud_flash \<Rightarrow> 'w spi_dev flash_hw \<Rightarrow> 'w spi_dev flash_hw" where
  "sfud_hw ops nc flash hw = hw\<lparr>sfud_flash_found := True,
     nor_read_op := (\<lambda>a buf dev. case sfud_read ops flash a buf dev of None \<Rightarrow> (SFUD_ERR_READ, buf, dev) | Some r \<Rightarrow> r),
     nor_write_op := (\<lambda>a buf dev. case sfud_write ops flash a buf dev of None \<Rightarrow> (SFUD_ERR_WRITE, dev) | Some r \<Rightarrow> r),
     nor_erase_op := (\<lambda>a n dev. case sfud_erase ops flash a n dev of None \<Rightarrow> (SFUD_ERR_WRITE, dev) | Some r \<Rightarrow> r),
     nor_cells := (\<lambda>dev. dev_cells nc dev), nor_idle := dev_idle nc\<rparr>"

lemma sfud_hw_laws:
  assumes "serial_nor ops nc" "sfud_ready flash nc"
  shows "nor_laws (sfud_hw ops nc flash hw)"
proof -
  have "nor_read_law (sfud_hw ops nc flash hw)"
    unfolding nor_read_law_def
  proof (intro allI impI, goal_cases)
    case (1 a buf w)
    then show ?case using sfud_read_result [OF assms, of w a buf] by (auto simp: sfud_hw_def)
  qed
  moreover have "nor_erase_law (sfud_hw ops nc flash hw)"
    unfolding nor_erase_law_def
  proof (intro allI impI, goal_cases)
    case (1 a n w)
    then show ?case using sfud_erase_result [OF assms, of w a n] by (auto simp: sfud_hw_def erase_spec_def)
  qed
  moreover have "nor_write_law (sfud_hw ops nc flash hw)"
    unfolding nor_write_law_def
  proof (intro allI impI, goal_cases)
    case (1 a buf w)
    then show ?case using sfud_write_result [OF assms, of w a buf] by (auto simp: sfud_hw_def write_spec_def)
  qed
  ultimately show ?thesis by (simp add: nor_laws_def)
qed

text \<open>
  (C25) Over the commands of a serial NOR chip the library implements the serial flash device: inside the
  chip a read delivers what the chip holds, an erase leaves all bits of the sectors that meet its
  range set and touches no other byte, with whichever erase commands the chip has, and a write of any length at any address
  clears bits of exactly its range, across pages; all return, and leave the chip idle. So the laws
  that the partitions and the environment rest on hold.
\<close>

theorem sfud_implements_device:
  assumes "serial_nor ops nc" "sfud_ready flash nc" "dev_idle nc dev" "unat a + length buf \<le> NOR_SIZE" "unat a + unat n \<le> NOR_SIZE"
  shows "(\<exists>dev'. sfud_read ops flash a buf dev = Some (SFUD_SUCCESS, map (dev_cells nc dev) [unat a..<unat a + length buf], dev') \<and>
            dev_cells nc dev' = dev_cells nc dev \<and> dev_idle nc dev') \<and>
         (\<exists>rc dev'. sfud_erase ops flash a n dev = Some (rc, dev') \<and> dev_idle nc dev' \<and>
            (\<forall>i. \<not> sector_cover (unat a) (unat n) i \<longrightarrow> dev_cells nc dev' i = dev_cells nc dev i) \<and>
            (rc = SFUD_SUCCESS \<longrightarrow> (\<forall>i. sector_cover (unat a) (unat n) i \<longrightarrow> dev_cells nc dev' i = 0xFF))) \<and>
         (\<exists>rc dev'. sfud_write ops flash a buf dev = Some (rc, dev') \<and> dev_idle nc dev' \<and>
            (\<forall>i. \<not> (unat a \<le> i \<and> i < unat a + length buf) \<longrightarrow> dev_cells nc dev' i = dev_cells nc dev i) \<and>
            (rc = SFUD_SUCCESS \<longrightarrow> (\<forall>i < length buf. dev_cells nc dev' (unat a + i) = dev_cells nc dev (unat a + i) AND buf ! i))) \<and>
         nor_laws (sfud_hw ops nc flash hw)"
  using sfud_read_result [OF assms(1-4)] sfud_erase_result [OF assms(1-3,5), unfolded erase_spec_def]
    sfud_write_result [OF assms(1-4), unfolded write_spec_def] sfud_hw_laws [OF assms(1,2)]
  by (intro conjI)

section \<open>A chip\<close>

text \<open>
  A chip for the witnesses, with one erase command for sectors of 4096 bytes. It is busy for one poll
  after each change, and reports no parameters.
\<close>

record demo_nor =
  dn_cells :: "nat \<Rightarrow> u8"
  dn_wel :: bool
  dn_busy :: nat
  dn_cmd :: "u8 list"

definition dn_addr :: "u8 list \<Rightarrow> u32" where
  "dn_addr r = push_bit 16 (ucast (r ! 0)) OR (push_bit 8 (ucast (r ! 1)) OR ucast (r ! 2))"

definition dn_change :: "((nat \<Rightarrow> u8) \<Rightarrow> nat \<Rightarrow> u8) \<Rightarrow> demo_nor \<Rightarrow> demo_nor" where
  "dn_change f w = (if dn_wel w then w\<lparr>dn_cells := f (dn_cells w), dn_wel := False, dn_busy := 1\<rparr> else w)"

fun dn_exec :: "u8 list \<Rightarrow> nat \<Rightarrow> demo_nor \<Rightarrow> u8 list \<times> demo_nor" where
  "dn_exec [] n w = ([], w)"
| "dn_exec (c # r) n w =
     (if c = 0x05 then (replicate n ((if dn_busy w = 0 then 0 else 1) OR (if dn_wel w then 2 else 0)), w)
      else if c = 0x06 then ([], w\<lparr>dn_wel := True\<rparr>)
      else if c = 0x04 then ([], w\<lparr>dn_wel := False\<rparr>)
      else if c = 0x03 then (map (dn_cells w) [unat (dn_addr r)..<unat (dn_addr r) + n], w)
      else if c = 0x02 then ([], dn_change (program_cells (unat (dn_addr r)) (drop 3 r)) w)
      else if c = 0x20 then ([], dn_change (blank_cells (\<lambda>i. i div 4096 = unat (dn_addr r) div 4096)) w)
      else if c = 0xC7 then ([], dn_change (blank_cells (\<lambda>i. i < NOR_SIZE)) w)
      else if c = 0x9F then ([0xEF, 0x40, 0x18], w)
      else if c = 0x5A then (replicate n 0xFF, w)
      else ([], w))"

definition demo_spi :: "demo_nor rt_spi_ops" where
  "demo_spi = \<lparr>spi_configure = (\<lambda>w. (0, w)),
     xfer = (\<lambda>m w. case send_buf m of
         Some cmd \<Rightarrow> if cs_release m then (case dn_exec cmd 0 w of (_, w) \<Rightarrow> (msg_len m, [], w)) else (msg_len m, [], w\<lparr>dn_cmd := cmd\<rparr>)
       | None \<Rightarrow> (case recv_buf m of None \<Rightarrow> (0, [], w)
           | Some buf \<Rightarrow> (case dn_exec (dn_cmd w) (length buf) w of (bs, w) \<Rightarrow> (msg_len m, bs, w)))),
     rt_spi_delay = (\<lambda>w. w\<lparr>dn_busy := dn_busy w - 1\<rparr>)\<rparr>"

definition demo_nc :: "demo_nor nor_chip" where
  "demo_nc = \<lparr>cells = dn_cells, wel = dn_wel, busy = dn_busy, erasers = [(4096, 0x20)]\<rparr>"

lemma dn_addr_3:
  assumes "unat a < 2 ^ 24"
  shows "dn_addr (nor_addr a @ r) = a"
proof -
  have "dn_addr (nor_addr a @ r) = take_bit 24 a"
  proof (rule bit_word_eqI)
    fix i
    assume "i < LENGTH(32)"
    consider "i < 8" | "8 \<le> i \<and> i < 16" | "16 \<le> i \<and> i < 24" | "24 \<le> i" by linarith
    then show "bit (dn_addr (nor_addr a @ r)) i = bit (take_bit 24 a) i"
      using \<open>i < LENGTH(32)\<close> by cases (auto simp: dn_addr_def nor_addr_def bit_simps)
  qed
  also have "\<dots> = a" using assms by (simp add: word_unat_eq_iff unsigned_take_bit_eq take_bit_nat_eq_self)
  finally show ?thesis .
qed

lemma len32_nonzero: "0 < length xs \<Longrightarrow> length xs < 2 ^ 32 \<Longrightarrow> len32 xs \<noteq> 0"
  by (simp add: len32_def word_unat_eq_iff unat_of_nat)

lemma demo_bus_cmd:
  assumes "cmd \<noteq> []" "length cmd < 2 ^ 32" "length buf < 2 ^ 32"
  shows "bus_cmd demo_spi cmd buf w =
    (True, case dn_exec cmd (length buf) (if buf = [] then w else w\<lparr>dn_cmd := cmd\<rparr>) of (bs, w) \<Rightarrow> (if buf = [] then [] else bs, w))"
  using assms len32_nonzero [of cmd] len32_nonzero [of buf]
  by (auto simp: bus_cmd_def demo_spi_def split: prod.splits)

lemma demo_serial_nor: "serial_nor demo_spi demo_nc"
proof -
  have l3: "length (nor_addr a) = 3" for a by (simp add: nor_addr_def)
  have d: "dn_addr (nor_addr a) = a" if "unat a < NOR_SIZE" for a
    using dn_addr_3 [of a "[]"] that by (simp add: NOR_SIZE_def)
  have "nor_status_law demo_spi demo_nc"
    by (auto simp: nor_status_law_def demo_bus_cmd sfud_cmds same_chip_def demo_nc_def
        SFUD_STATUS_REGISTER_BUSY_def SFUD_STATUS_REGISTER_WEL_def)
  moreover have "nor_quiet demo_spi demo_nc [SFUD_CMD_WRITE_ENABLE] [] (\<lambda>_. [])"
    "nor_quiet demo_spi demo_nc [SFUD_CMD_WRITE_DISABLE] [] (\<lambda>_. [])"
    by (simp_all add: nor_quiet_def demo_bus_cmd sfud_cmds demo_nc_def)
  moreover have "nor_quiet demo_spi demo_nc (SFUD_CMD_READ_DATA # nor_addr a) buf (\<lambda>c. map c [unat a..<unat a + length buf])"
    if "unat a + length buf \<le> NOR_SIZE" for a buf
  proof (cases "buf = []")
    case True
    then show ?thesis by (simp add: nor_quiet_def demo_bus_cmd sfud_cmds demo_nc_def nor_addr_def)
  next
    case False
    then have "unat a < NOR_SIZE" using that by (cases buf) auto
    moreover have "length buf < 2 ^ 32" using that by (simp add: NOR_SIZE_def)
    ultimately show ?thesis using False
      by (simp add: nor_quiet_def demo_bus_cmd sfud_cmds demo_nc_def d l3)
  qed
  moreover have "nor_modifies demo_spi demo_nc (SFUD_CMD_PAGE_PROGRAM # nor_addr a @ bs) (program_cells (unat a) bs)"
    if "bs \<noteq> []" "unat a mod 256 + length bs \<le> 256" "unat a + length bs \<le> NOR_SIZE" for a bs
  proof -
    have "unat a < 2 ^ 24" using that(1,3) by (cases bs) (auto simp: NOR_SIZE_def)
    from dn_addr_3 [OF this] show ?thesis using that(2)
      by (simp add: nor_modifies_def demo_bus_cmd sfud_cmds demo_nc_def l3 dn_change_def BUSY_MAX_def)
  qed
  moreover have "nor_modifies demo_spi demo_nc (c # nor_addr a) (blank_cells (\<lambda>i. i div unat g = unat a div unat g))"
    if "(g, c) \<in> set (erasers demo_nc)" "unat a < NOR_SIZE" for a g c
    using that d by (simp add: nor_modifies_def demo_bus_cmd sfud_cmds demo_nc_def l3 dn_change_def BUSY_MAX_def)
  moreover have "nor_modifies demo_spi demo_nc [SFUD_CMD_ERASE_CHIP] (blank_cells (\<lambda>i. i < NOR_SIZE))"
    by (simp add: nor_modifies_def demo_bus_cmd sfud_cmds demo_nc_def dn_change_def BUSY_MAX_def)
  moreover have "same_chip demo_nc w (rt_spi_delay demo_spi w) \<and> busy demo_nc (rt_spi_delay demo_spi w) \<le> busy demo_nc w - 1" for w
    by (simp add: same_chip_def demo_nc_def demo_spi_def)
  moreover have "case spi_configure demo_spi w of (rc, w') \<Rightarrow> rc = RT_EOK \<and> same_chip demo_nc w w'" for w
    by (simp add: same_chip_def demo_spi_def)
  ultimately show ?thesis unfolding serial_nor_def by (intro conjI allI impI) auto
qed

definition demo_flash0 :: sfud_flash where
  "demo_flash0 = sfud_flash_zero\<lparr>chip := \<lparr>chip_name = None, mf_id = 0xEF, type_id = 0x40, capacity_id = 0x18, capacity = 0x1000000,
      write_mode = SFUD_WM_PAGE_256B, erase_gran = 4096, erase_gran_cmd = 0x20\<rparr>,
    sfud_init_ok := True, retry_times := BUSY_MAX\<rparr>"

definition demo_dev :: "demo_nor spi_dev" where
  "demo_dev = \<lparr>bus_owner = False, spi_world = \<lparr>dn_cells = (\<lambda>i. 0xFF), dn_wel = False, dn_busy = 0, dn_cmd = []\<rparr>\<rparr>"

lemma demo_sfud_ready: "sfud_ready demo_flash0 demo_nc" "dev_idle demo_nc demo_dev"
  by (simp_all add: sfud_ready_def demo_flash0_def sfud_flash_zero_def demo_nc_def sfud_wms NOR_SIZE_def dev_idle_def demo_dev_def)

theorem sfud_implements_device_witness:
  "(\<exists>dev'. sfud_read demo_spi demo_flash0 255 [0, 0] demo_dev = Some (SFUD_SUCCESS, [0xFF, 0xFF], dev') \<and>
      dev_cells demo_nc dev' = dev_cells demo_nc demo_dev \<and> dev_idle demo_nc dev') \<and>
   (\<exists>rc dev'. sfud_write demo_spi demo_flash0 255 [0, 0] demo_dev = Some (rc, dev') \<and> dev_idle demo_nc dev')"
proof -
  have m: "map (dev_cells demo_nc demo_dev) [unat (255 :: u32)..<unat (255 :: u32) + length [0 :: u8, 0]] = [0xFF, 0xFF]"
    by (simp add: demo_nc_def demo_dev_def upt_rec)
  have n: "unat (255 :: u32) + length [0 :: u8, 0] \<le> NOR_SIZE" "unat (255 :: u32) + unat (1 :: u32) \<le> NOR_SIZE"
    by (simp_all add: NOR_SIZE_def)
  show ?thesis
    using sfud_implements_device [OF demo_serial_nor demo_sfud_ready n, unfolded m] by metis
qed

end
