(* ===== verification/Sfud_Init.thy ===== *)
theory Sfud_Init
  imports Sfud_Chip "HOL-Library.Multiset"
begin

text \<open>
  Initialising a serial flash device: \<open>sfud_sfdp.c\<close> reads the parameters that the chip reports of itself,
  and \<open>hardware_init\<close> and \<open>sfud_device_init\<close> of \<open>sfud.c\<close> settle from them, or from the table of known
  chips, how the chip is written and erased.
\<close>

section \<open>Reported parameters\<close>

text \<open>The buffers of these reads are set to zero before.\<close>

definition read_sfdp_data :: "'w rt_spi_ops \<Rightarrow> u32 \<Rightarrow> nat \<Rightarrow> 'w spi_dev \<Rightarrow> int \<times> u8 list \<times> 'w spi_dev" where
  "read_sfdp_data ops addr n dev =
     spi_write_read ops [SFUD_CMD_READ_SFDP_REGISTER, ucast (drop_bit 16 addr AND 0xFF), ucast (drop_bit 8 addr AND 0xFF),
       ucast (addr AND 0xFF), SFUD_DUMMY_DATA] (replicate n 0) dev"

definition SUPPORT_MAX_SFDP_MAJOR_REV :: u8 where "SUPPORT_MAX_SFDP_MAJOR_REV = 1"
definition BASIC_TABLE_LEN :: nat where "BASIC_TABLE_LEN = 9"

definition read_sfdp_header :: "'w rt_spi_ops \<Rightarrow> sfud_flash \<Rightarrow> 'w spi_dev \<Rightarrow> (bool \<times> sfud_flash \<times> 'w spi_dev) option" where
  "read_sfdp_header ops flash dev =
     (let flash = flash\<lparr>sfdp := (sfdp flash)\<lparr>sfdp_available := False\<rparr>\<rparr> in
      case read_sfdp_data ops 0 8 dev of (result, header, dev) \<Rightarrow>
        if result \<noteq> SFUD_SUCCESS then Some (False, flash, dev)
        else do {
          sig \<leftarrow> rd_n header 0 4;
          if sig \<noteq> [0x53, 0x46, 0x44, 0x50] then Some (False, flash, dev)
          else do {
            minor \<leftarrow> rd header 4;
            major \<leftarrow> rd header 5;
            let flash = flash\<lparr>sfdp := (sfdp flash)\<lparr>sfdp_minor_rev := minor, sfdp_major_rev := major\<rparr>\<rparr>;
            Some (\<not> major > SUPPORT_MAX_SFDP_MAJOR_REV, flash, dev) } })"

text \<open>Of the header of the basic table only its address is used later.\<close>

definition read_basic_header :: "'w rt_spi_ops \<Rightarrow> 'w spi_dev \<Rightarrow> (bool \<times> u32 \<times> 'w spi_dev) option" where
  "read_basic_header ops dev =
     (case read_sfdp_data ops 8 8 dev of (result, header, dev) \<Rightarrow>
        if result \<noteq> SFUD_SUCCESS then Some (False, 0, dev)
        else do {
          major \<leftarrow> rd header 2;
          len \<leftarrow> rd header 3;
          p0 \<leftarrow> rd header 4;
          p1 \<leftarrow> rd header 5;
          p2 \<leftarrow> rd header 6;
          let ptp = ucast p0 OR (push_bit 8 (ucast p1) OR push_bit 16 (ucast p2));
          Some (\<not> major > SUPPORT_MAX_SFDP_MAJOR_REV \<and> \<not> unat len < BASIC_TABLE_LEN, ptp, dev) })"

text \<open>
  A shift of a 32-bit value by 32 or more is undefined. The compilers of this program give
  \<open>1L << 31\<close> the expected bits.
\<close>

definition shl1 :: "nat \<Rightarrow> u32 option" where
  "shl1 n = (if n < 32 then Some (push_bit n 1) else None)"

text \<open>The capacity in the second word of the table, and whether it is supported.\<close>

definition sfdp_cap :: "u8 list \<Rightarrow> (bool \<times> u32) option" where
  "sfdp_cap table =
     do { b4 \<leftarrow> rd table 4;
          b5 \<leftarrow> rd table 5;
          b6 \<leftarrow> rd table 6;
          b7 \<leftarrow> rd table 7;
          let temp = push_bit 24 (ucast b7) OR (push_bit 16 (ucast b6) OR (push_bit 8 (ucast b5) OR ucast b4));
          if b7 AND 0x80 = 0 then Some (True, 1 + drop_bit 3 temp)
          else let temp = temp AND 0x7FFFFFFF in
               if temp > 4 * 8 + 3 then Some (False, 0)
               else if temp < 3 then None
               else do { c \<leftarrow> shl1 (unat (temp - 3)); Some (True, c) } }"

text \<open>The erasers of the table, from position \<open>i\<close> on, stored from index \<open>j\<close> on.\<close>

fun sfdp_erasers :: "u8 list \<Rightarrow> nat list \<Rightarrow> nat \<Rightarrow> (u32 \<times> u8) list \<Rightarrow> (u32 \<times> u8) list option" where
  "sfdp_erasers table [] j es = Some es"
| "sfdp_erasers table (i # is) j es =
     do { e \<leftarrow> rd table (28 + 2 * i);
          if e = 0 then sfdp_erasers table is j es
          else do { s \<leftarrow> shl1 (unat e);
                    c \<leftarrow> rd table (28 + 2 * i + 1);
                    es \<leftarrow> wr es j (s, c);
                    sfdp_erasers table is (j + 1) es } }"

text \<open>Sorting the erasers by size: entry \<open>i\<close> is exchanged with every smaller one behind it.\<close>

definition eraser_swap :: "nat \<Rightarrow> (u32 \<times> u8) list \<Rightarrow> nat \<Rightarrow> (u32 \<times> u8) list" where
  "eraser_swap i es j =
     (if fst (es ! j) \<noteq> 0 \<and> fst (es ! i) > fst (es ! j) then es[i := es ! j, j := es ! i] else es)"

definition eraser_sort :: "(u32 \<times> u8) list \<Rightarrow> (u32 \<times> u8) list" where
  "eraser_sort es =
     foldl (\<lambda>es i. if fst (es ! i) \<noteq> 0 then foldl (eraser_swap i) es [i + 1..<SFUD_SFDP_ERASE_TYPE_MAX_NUM] else es)
       es [0..<SFUD_SFDP_ERASE_TYPE_MAX_NUM]"

text \<open>The evaluation of the table, with what has been stored when it fails.\<close>

definition sfdp_parse :: "u8 list \<Rightarrow> sfud_sfdp \<Rightarrow> (bool \<times> sfud_sfdp) option" where
  "sfdp_parse table s =
     do { b0 \<leftarrow> rd table 0;
          b1 \<leftarrow> rd table 1;
          b2 \<leftarrow> rd table 2;
          let s = s\<lparr>erase_4k_cmd := b1\<rparr>;
          let e4 = b0 AND 0x03;
          if e4 \<noteq> 1 \<and> e4 \<noteq> 3 then Some (False, s)
          else do {
            let s = s\<lparr>erase_4k := (e4 = 1)\<rparr>;
            let s = s\<lparr>write_gran := (if b0 AND 0x04 = 0 then 1 else 256)\<rparr>;
            let s = (if b0 AND 0x08 = 0 then s\<lparr>sr_is_non_vola := True\<rparr>
                     else s\<lparr>sr_is_non_vola := False,
                            vola_sr_we_cmd := (if b0 AND 0x10 = 0 then SFUD_VOLATILE_SR_WRITE_ENABLE else SFUD_CMD_WRITE_ENABLE)\<rparr>);
            let ab = drop_bit 1 (b2 AND 0x06);
            let s = s\<lparr>addr_3_byte := (ab = 0 \<or> ab = 1), addr_4_byte := (ab = 1 \<or> ab = 2)\<rparr>;
            if ab = 3 then Some (False, s)
            else do {
              (ok, cap) \<leftarrow> sfdp_cap table;
              let s = s\<lparr>sfdp_capacity := cap\<rparr>;
              if \<not> ok then Some (False, s)
              else do {
                es \<leftarrow> sfdp_erasers table [0..<SFUD_SFDP_ERASE_TYPE_MAX_NUM] 0 (eraser s);
                Some (True, s\<lparr>eraser := eraser_sort es, sfdp_available := True\<rparr>) } } } }"

definition read_basic_table :: "'w rt_spi_ops \<Rightarrow> u32 \<Rightarrow> sfud_flash \<Rightarrow> 'w spi_dev \<Rightarrow> (bool \<times> sfud_flash \<times> 'w spi_dev) option" where
  "read_basic_table ops ptp flash dev =
     (case read_sfdp_data ops ptp (BASIC_TABLE_LEN * 4) dev of (result, table, dev) \<Rightarrow>
        if result \<noteq> SFUD_SUCCESS then Some (False, flash, dev)
        else do { (ok, s) \<leftarrow> sfdp_parse table (sfdp flash); Some (ok, flash\<lparr>sfdp := s\<rparr>, dev) })"

definition sfud_read_sfdp :: "'w rt_spi_ops \<Rightarrow> sfud_flash \<Rightarrow> 'w spi_dev \<Rightarrow> (bool \<times> sfud_flash \<times> 'w spi_dev) option" where
  "sfud_read_sfdp ops flash dev =
     do { (ok, flash, dev) \<leftarrow> read_sfdp_header ops flash dev;
          if \<not> ok then Some (False, flash, dev)
          else do { (ok, ptp, dev) \<leftarrow> read_basic_header ops dev;
                    if \<not> ok then Some (False, flash, dev) else read_basic_table ops ptp flash dev } }"

section \<open>Initialisation\<close>

definition chip_entry :: "string \<Rightarrow> u8 \<Rightarrow> u8 \<Rightarrow> u8 \<Rightarrow> u32 \<Rightarrow> u16 \<Rightarrow> u32 \<Rightarrow> u8 \<Rightarrow> sfud_flash_chip" where
  "chip_entry name mf ty ci ca wm eg ec = \<lparr>chip_name = Some name, mf_id = mf, type_id = ty, capacity_id = ci, capacity = ca,
     write_mode = wm, erase_gran = eg, erase_gran_cmd = ec\<rparr>"

definition SFUD_FLASH_CHIP_TABLE :: "sfud_flash_chip list" where
  "SFUD_FLASH_CHIP_TABLE =
     [chip_entry ''AT45DB161E'' 0x1F 0x26 0x00 (2*1024*1024) (SFUD_WM_BYTE OR SFUD_WM_DUAL_BUFFER) 512 0x81,
      chip_entry ''W25Q40BV'' 0xEF 0x40 0x13 (512*1024) SFUD_WM_PAGE_256B 4096 0x20,
      chip_entry ''W25Q16BV'' 0xEF 0x40 0x15 (2*1024*1024) SFUD_WM_PAGE_256B 4096 0x20,
      chip_entry ''W25Q128BV'' 0xEF 0x40 0x18 (16*1024*1024) SFUD_WM_PAGE_256B 4096 0x20,
      chip_entry ''W25Q256FV'' 0xEF 0x40 0x19 (32*1024*1024) SFUD_WM_PAGE_256B 4096 0x20,
      chip_entry ''SST25VF016B'' 0xBF 0x25 0x41 (2*1024*1024) (SFUD_WM_BYTE OR SFUD_WM_AAI) 4096 0x20,
      chip_entry ''M25P32'' 0x20 0x20 0x16 (4*1024*1024) SFUD_WM_PAGE_256B (64*1024) 0xD8,
      chip_entry ''M25P80'' 0x20 0x20 0x14 (1*1024*1024) SFUD_WM_PAGE_256B (64*1024) 0xD8,
      chip_entry ''M25P40'' 0x20 0x20 0x13 (512*1024) SFUD_WM_PAGE_256B (64*1024) 0xD8,
      chip_entry ''EN25Q32B'' 0x1C 0x30 0x16 (4*1024*1024) SFUD_WM_PAGE_256B 4096 0x20,
      chip_entry ''GD25Q64B'' 0xC8 0x40 0x17 (8*1024*1024) SFUD_WM_PAGE_256B 4096 0x20,
      chip_entry ''GD25Q16B'' 0xC8 0x40 0x15 (2*1024*1024) SFUD_WM_PAGE_256B 4096 0x20,
      chip_entry ''S25FL216K'' 0x01 0x40 0x15 (2*1024*1024) SFUD_WM_PAGE_256B 4096 0x20,
      chip_entry ''S25FL032P'' 0x01 0x02 0x15 (4*1024*1024) SFUD_WM_PAGE_256B 4096 0x20,
      chip_entry ''A25L080'' 0x37 0x30 0x14 (1*1024*1024) SFUD_WM_PAGE_256B 4096 0x20,
      chip_entry ''F25L004'' 0x8C 0x20 0x13 (512*1024) (SFUD_WM_BYTE OR SFUD_WM_AAI) 4096 0x20,
      chip_entry ''PCT25VF016B'' 0xBF 0x25 0x41 (2*1024*1024) (SFUD_WM_BYTE OR SFUD_WM_AAI) 4096 0x20]"

definition read_jedec_id :: "'w rt_spi_ops \<Rightarrow> sfud_flash \<Rightarrow> 'w spi_dev \<Rightarrow> (int \<times> sfud_flash \<times> 'w spi_dev) option" where
  "read_jedec_id ops flash dev =
     (case spi_write_read ops [SFUD_CMD_JEDEC_ID] (replicate 3 0) dev of (result, recv, dev) \<Rightarrow>
        if result \<noteq> SFUD_SUCCESS then Some (result, flash, dev)
        else do { a \<leftarrow> rd recv 0;
                  b \<leftarrow> rd recv 1;
                  c \<leftarrow> rd recv 2;
                  Some (result, flash\<lparr>chip := (chip flash)\<lparr>mf_id := a, type_id := b, capacity_id := c\<rparr>\<rparr>, dev) })"

text \<open>The result of waiting after the first command is dropped.\<close>

definition sfud_reset :: "'w rt_spi_ops \<Rightarrow> sfud_flash \<Rightarrow> 'w spi_dev \<Rightarrow> (int \<times> 'w spi_dev) option" where
  "sfud_reset ops flash dev =
     (case spi_write_read ops [SFUD_CMD_ENABLE_RESET] [] dev of (result, _, dev) \<Rightarrow>
        if result \<noteq> SFUD_SUCCESS then Some (result, dev)
        else do { (_, dev) \<leftarrow> wait_busy ops flash dev;
                  case spi_write_read ops [SFUD_CMD_RESET] [] dev of (result, _, dev) \<Rightarrow>
                    if result \<noteq> SFUD_SUCCESS then Some (result, dev) else wait_busy ops flash dev })"

definition sfud_spi_port_init :: "sfud_flash \<Rightarrow> int \<times> sfud_flash" where
  "sfud_spi_port_init flash = (SFUD_SUCCESS, flash\<lparr>retry_times := 60 * 10000\<rparr>)"

definition chip_unknown :: "sfud_flash \<Rightarrow> bool" where
  "chip_unknown flash \<longleftrightarrow> capacity (chip flash) = 0 \<or> write_mode (chip flash) = 0 \<or> erase_gran (chip flash) = 0 \<or>
     erase_gran_cmd (chip flash) = 0"

text \<open>The chip as its reported parameters describe it.\<close>

definition chip_from_sfdp :: "sfud_sfdp \<Rightarrow> sfud_flash_chip \<Rightarrow> sfud_flash_chip" where
  "chip_from_sfdp s ch =
     (let ch = ch\<lparr>chip_name := None, capacity := sfdp_capacity s,
                 write_mode := (if write_gran s = 1 then SFUD_WM_BYTE else SFUD_WM_PAGE_256B),
                 erase_gran := fst (eraser s ! 0), erase_gran_cmd := snd (eraser s ! 0)\<rparr>
      in foldl (\<lambda>ch i. if fst (eraser s ! i) \<noteq> 0 \<and> erase_gran ch > fst (eraser s ! i)
                       then ch\<lparr>erase_gran := fst (eraser s ! i), erase_gran_cmd := snd (eraser s ! i)\<rparr> else ch)
           ch [1..<SFUD_SFDP_ERASE_TYPE_MAX_NUM])"

fun chip_lookup :: "sfud_flash_chip list \<Rightarrow> sfud_flash_chip \<Rightarrow> sfud_flash_chip" where
  "chip_lookup [] ch = ch"
| "chip_lookup (e # es) ch =
     (if mf_id e = mf_id ch \<and> type_id e = type_id ch \<and> capacity_id e = capacity_id ch then
        ch\<lparr>chip_name := chip_name e, capacity := capacity e, write_mode := write_mode e,
           erase_gran := erase_gran e, erase_gran_cmd := erase_gran_cmd e\<rparr>
      else chip_lookup es ch)"

definition hardware_probe :: "'w rt_spi_ops \<Rightarrow> sfud_flash \<Rightarrow> 'w spi_dev \<Rightarrow> (int \<times> sfud_flash \<times> 'w spi_dev) option" where
  "hardware_probe ops flash dev =
     (if \<not> chip_unknown flash then Some (SFUD_SUCCESS, flash, dev)
      else do {
        (result, flash, dev) \<leftarrow> read_jedec_id ops flash dev;
        if result \<noteq> SFUD_SUCCESS then Some (result, flash, dev)
        else do {
          (ok, flash, dev) \<leftarrow> sfud_read_sfdp ops flash dev;
          Some (result, if ok then flash\<lparr>chip := chip_from_sfdp (sfdp flash) (chip flash)\<rparr>
                        else flash\<lparr>chip := chip_lookup SFUD_FLASH_CHIP_TABLE (chip flash)\<rparr>, dev) } })"

definition hardware_init :: "'w rt_spi_ops \<Rightarrow> sfud_flash \<Rightarrow> 'w spi_dev \<Rightarrow> (int \<times> sfud_flash \<times> 'w spi_dev) option" where
  "hardware_init ops flash dev =
     do { let (result, flash) = sfud_spi_port_init flash;
          (result, flash, dev) \<leftarrow> hardware_probe ops flash dev;
          if result \<noteq> SFUD_SUCCESS then Some (result, flash, dev)
          else if chip_unknown flash then Some (SFUD_ERR_NOT_FOUND, flash, dev)
          else do {
            (result, dev) \<leftarrow> sfud_reset ops flash dev;
            if result \<noteq> SFUD_SUCCESS then Some (result, flash, dev)
            else do {
              (result, dev) \<leftarrow> (if write_mode (chip flash) AND SFUD_WM_AAI \<noteq> 0 then sfud_write_status ops True 0x00 dev
                                else Some (result, dev));
              if result \<noteq> SFUD_SUCCESS then Some (result, flash, dev)
              else if capacity (chip flash) > 0x1000000 then set_4_byte_address_mode ops True flash dev
              else Some (result, flash\<lparr>addr_in_4_byte := False\<rparr>, dev) } } }"

definition sfud_device_init :: "'w rt_spi_ops \<Rightarrow> sfud_flash \<Rightarrow> 'w spi_dev \<Rightarrow> (int \<times> sfud_flash \<times> 'w spi_dev) option" where
  "sfud_device_init ops flash dev =
     do { (result, flash, dev) \<leftarrow> hardware_init ops flash dev;
          Some (result, flash\<lparr>sfud_init_ok := (result = SFUD_SUCCESS)\<rparr>, dev) }"

section \<open>Sorting the erasers\<close>

lemma length_eraser_swap [simp]: "length (eraser_swap i es j) = length es"
  by (simp add: eraser_swap_def)

lemma length_eraser_fold [simp]: "length (foldl (eraser_swap i) es js) = length es"
  by (induction js arbitrary: es) simp_all

lemma mset_eraser_swap: "i < length es \<Longrightarrow> j < length es \<Longrightarrow> mset (eraser_swap i es j) = mset es"
  by (simp add: eraser_swap_def mset_swap)

lemma mset_eraser_fold:
  "i < length es \<Longrightarrow> \<forall>j \<in> set js. j < length es \<Longrightarrow> mset (foldl (eraser_swap i) es js) = mset es"
  by (induction js arbitrary: es) (simp_all add: mset_eraser_swap)

lemma mset_eraser_sort:
  assumes "length es = SFUD_SFDP_ERASE_TYPE_MAX_NUM"
  shows "mset (eraser_sort es) = mset es"
proof -
  let ?N = SFUD_SFDP_ERASE_TYPE_MAX_NUM
  let ?f = "\<lambda>es i. if fst (es ! i) \<noteq> 0 then foldl (eraser_swap i) es [i + 1..<?N] else es"
  have "length es = ?N \<Longrightarrow> \<forall>i \<in> set is. i < ?N \<Longrightarrow> length (foldl ?f es is) = ?N \<and> mset (foldl ?f es is) = mset es" for "is" es
    by (induction "is" arbitrary: es) (simp_all add: mset_eraser_fold)
  from this [OF assms, of "[0..<?N]"] show ?thesis by (simp add: eraser_sort_def)
qed

text \<open>The used entries come out sorted, and the first is used if it was. Entry \<open>i\<close> of a pass ends as the least.\<close>

definition size_ok :: "(u32 \<times> u8) list \<Rightarrow> nat \<Rightarrow> nat \<Rightarrow> bool" where
  "size_ok es p q \<longleftrightarrow> fst (es ! p) \<noteq> 0 \<longrightarrow> fst (es ! q) \<noteq> 0 \<longrightarrow> fst (es ! p) \<le> fst (es ! q)"

lemma fold_other:
  "k \<noteq> i \<Longrightarrow> k \<notin> set js \<Longrightarrow> foldl (eraser_swap i) es js ! k = es ! k"
  by (induction js arbitrary: es) (simp_all add: eraser_swap_def)

lemma swap_min:
  assumes "i < length es" "j < length es" "i \<noteq> j" "fst (es ! i) \<noteq> 0"
  shows "fst (eraser_swap i es j ! i) \<noteq> 0" "fst (eraser_swap i es j ! i) \<le> fst (es ! i)"
    "fst (eraser_swap i es j ! j) \<noteq> 0 \<Longrightarrow> fst (eraser_swap i es j ! i) \<le> fst (eraser_swap i es j ! j)"
  using assms by (auto simp: eraser_swap_def)

lemma fold_min:
  assumes "i < length es" "\<forall>j \<in> set js. j < length es \<and> i \<noteq> j" "distinct js" "fst (es ! i) \<noteq> 0"
  shows "fst (foldl (eraser_swap i) es js ! i) \<noteq> 0 \<and> fst (foldl (eraser_swap i) es js ! i) \<le> fst (es ! i) \<and>
    (\<forall>k \<in> set js. size_ok (foldl (eraser_swap i) es js) i k)"
  using assms
proof (induction js arbitrary: es)
  case (Cons j js)
  let ?e = "eraser_swap i es j"
  have m: "fst (?e ! i) \<noteq> 0" "fst (?e ! i) \<le> fst (es ! i)" "fst (?e ! j) \<noteq> 0 \<Longrightarrow> fst (?e ! i) \<le> fst (?e ! j)"
    using swap_min [of i es j] Cons.prems by auto
  have ih: "fst (foldl (eraser_swap i) ?e js ! i) \<noteq> 0" "fst (foldl (eraser_swap i) ?e js ! i) \<le> fst (?e ! i)"
    "\<forall>k \<in> set js. size_ok (foldl (eraser_swap i) ?e js) i k"
    using Cons.IH [of ?e] Cons.prems m(1) by simp_all
  have "foldl (eraser_swap i) ?e js ! j = ?e ! j" using Cons.prems by (intro fold_other) auto
  then have "size_ok (foldl (eraser_swap i) ?e js) i j" using ih(2) m(3) by (auto simp: size_ok_def)
  then show ?case using ih m(2) by auto
qed simp

lemma fold_from:
  assumes "i < length es" "\<forall>j \<in> set js. i < j \<and> j < length es" "i \<le> q" "q < length es"
  shows "\<exists>r. i \<le> r \<and> r < length es \<and> foldl (eraser_swap i) es js ! q = es ! r"
  using assms
proof (induction js arbitrary: es)
  case (Cons j js)
  obtain r where r: "i \<le> r" "r < length es" "foldl (eraser_swap i) (eraser_swap i es j) js ! q = eraser_swap i es j ! r"
    using Cons.IH [of "eraser_swap i es j"] Cons.prems by auto
  have "\<exists>r'. i \<le> r' \<and> r' < length es \<and> eraser_swap i es j ! r = es ! r'"
  proof -
    have "eraser_swap i es j ! r = es ! r \<or> eraser_swap i es j ! r = es ! i \<or> eraser_swap i es j ! r = es ! j"
      using r(2) Cons.prems by (simp add: eraser_swap_def nth_list_update)
    then show ?thesis using r Cons.prems by (auto intro: less_imp_le)
  qed
  then show ?case using r(3) by simp
qed auto

lemma pass_sorted:
  assumes "\<forall>p < i. \<forall>q < n. p < q \<longrightarrow> size_ok es p q" "length es = n" "i < n"
    "es' = (if fst (es ! i) \<noteq> 0 then foldl (eraser_swap i) es [i + 1..<n] else es)"
  shows "\<forall>p < Suc i. \<forall>q < n. p < q \<longrightarrow> size_ok es' p q"
proof (intro allI impI)
  fix p q assume pq: "p < Suc i" "q < n" "p < q"
  show "size_ok es' p q"
  proof (cases "fst (es ! i) = 0")
    case True
    then show ?thesis using assms pq by (cases "p = i") (auto simp: size_ok_def)
  next
    case nz: False
    show ?thesis
    proof (cases "p = i")
      case True
      then show ?thesis using fold_min [of i es "[i + 1..<n]"] assms(2-4) nz pq by auto
    next
      case False
      then have p: "p < i" "es' ! p = es ! p" using pq nz assms(4) by (auto simp: fold_other)
      have "\<exists>r. p < r \<and> r < n \<and> es' ! q = es ! r"
      proof (cases "q < i")
        case True
        then have "es' ! q = es ! q" using nz assms(4) by (auto simp: fold_other)
        then show ?thesis using pq by auto
      next
        case False
        then show ?thesis using fold_from [of i es "[i + 1..<n]" q] assms(2-4) nz pq p(1)
          by (auto intro: less_le_trans)
      qed
      then show ?thesis using assms(1) p by (auto simp: size_ok_def)
    qed
  qed
qed

lemma eraser_sort_sorted:
  assumes "length es = SFUD_SFDP_ERASE_TYPE_MAX_NUM" "fst (es ! 0) \<noteq> 0"
  shows "\<forall>p q. p < q \<longrightarrow> q < SFUD_SFDP_ERASE_TYPE_MAX_NUM \<longrightarrow> size_ok (eraser_sort es) p q"
    "fst (eraser_sort es ! 0) \<noteq> 0"
proof -
  let ?N = SFUD_SFDP_ERASE_TYPE_MAX_NUM
  let ?f = "\<lambda>es i. if fst (es ! i) \<noteq> 0 then foldl (eraser_swap i) es [i + 1..<?N] else es"
  have inv: "length (foldl ?f es [0..<m]) = ?N \<and> (\<forall>p < m. \<forall>q < ?N. p < q \<longrightarrow> size_ok (foldl ?f es [0..<m]) p q) \<and>
      fst (foldl ?f es [0..<m] ! 0) \<noteq> 0" if "m \<le> ?N" for m
    using that
  proof (induction m)
    case (Suc m)
    let ?e = "foldl ?f es [0..<m]"
    have "fst (?f ?e m ! 0) \<noteq> 0"
      using Suc fold_min [of m ?e "[m + 1..<?N]"] by (cases "m = 0") (auto simp: fold_other)
    then show ?case using Suc pass_sorted [of m ?N ?e "?f ?e m"] by simp
  qed (simp add: assms)
  from inv [of ?N] show "\<forall>p q. p < q \<longrightarrow> q < ?N \<longrightarrow> size_ok (eraser_sort es) p q" "fst (eraser_sort es ! 0) \<noteq> 0"
    unfolding eraser_sort_def by auto
qed

section \<open>Evaluating the reported parameters\<close>

definition reported_erasers :: "(nat \<Rightarrow> u8) \<Rightarrow> nat list \<Rightarrow> (u32 \<times> u8) list" where
  "reported_erasers t is =
     map (\<lambda>i. (push_bit (unat (t (28 + 2 * i))) 1, t (28 + 2 * i + 1))) (filter (\<lambda>i. t (28 + 2 * i) \<noteq> 0) is)"

lemma sfdp_erasers_result:
  assumes "\<forall>i \<in> set is. i < 4 \<and> unat (t (28 + 2 * i)) < 32" "j + length is \<le> length es"
  shows "sfdp_erasers (map t [0..<36]) is j es =
    Some (take j es @ reported_erasers t is @ drop (j + length (reported_erasers t is)) es)"
  using assms
proof (induction "is" arbitrary: j es)
  case Nil
  then show ?case by (simp add: reported_erasers_def)
next
  case (Cons i "is")
  have i: "28 + 2 * i + 1 < 36" "unat (t (28 + 2 * i)) < 32" using Cons.prems(1) by auto
  show ?case
  proof (cases "t (28 + 2 * i) = 0")
    case True
    then show ?thesis using Cons i by (simp add: reported_erasers_def rd_def)
  next
    case False
    let ?e = "(push_bit (unat (t (28 + 2 * i))) 1, t (28 + 2 * i + 1))"
    have "sfdp_erasers (map t [0..<36]) (i # is) j es = sfdp_erasers (map t [0..<36]) is (j + 1) (es[j := ?e])"
      using False i Cons.prems(2) by (simp add: rd_def wr_def shl1_def)
    also have "\<dots> = Some (take (j + 1) (es[j := ?e]) @ reported_erasers t is @ drop (j + 1 + length (reported_erasers t is)) (es[j := ?e]))"
      using Cons by simp
    finally show ?thesis
      using False Cons.prems(2) by (simp add: reported_erasers_def take_Suc_conv_app_nth)
  qed
qed

definition sfdp_ptr :: "(nat \<Rightarrow> u8) \<Rightarrow> u32" where
  "sfdp_ptr sf = ucast (sf 12) OR (push_bit 8 (ucast (sf 13)) OR push_bit 16 (ucast (sf 14)))"

lemma sfdp_ptr_24: "unat (sfdp_ptr sf) < 2 ^ 24"
proof -
  have "sfdp_ptr sf = take_bit 24 (sfdp_ptr sf)"
    by (rule bit_word_eqI) (auto simp: sfdp_ptr_def bit_simps dest: bit_imp_le_length)
  then have "unat (sfdp_ptr sf) = take_bit 24 (unat (sfdp_ptr sf))" by (metis unsigned_take_bit_eq)
  then show ?thesis by (metis take_bit_nat_less_exp)
qed

text \<open>
  What a chip of \<open>NOR_SIZE\<close> bytes reports: the signature, supported revisions, writing by pages, its
  capacity, and erasers of at least a sector, one of them of a sector, with commands that the chip has.
\<close>

definition sfdp_table_ok :: "'w nor_chip \<Rightarrow> (nat \<Rightarrow> u8) \<Rightarrow> bool" where
  "sfdp_table_ok nc t \<longleftrightarrow>
     (t 0 AND 3 = 1 \<or> t 0 AND 3 = 3) \<and> t 0 AND 4 \<noteq> 0 \<and> drop_bit 1 (t 2 AND 6) \<noteq> 3 \<and>
     t 4 = 0xFF \<and> t 5 = 0xFF \<and> t 6 = 0xFF \<and> t 7 = 0x07 \<and>
     (\<forall>i < 4. t (28 + 2 * i) \<noteq> 0 \<longrightarrow> 12 \<le> unat (t (28 + 2 * i)) \<and> unat (t (28 + 2 * i)) < 32 \<and> t (28 + 2 * i + 1) \<noteq> 0 \<and>
        (push_bit (unat (t (28 + 2 * i))) 1, t (28 + 2 * i + 1)) \<in> set (erasers nc)) \<and>
     (\<exists>i < 4. t (28 + 2 * i) = 12)"

definition sfdp_reports :: "'w nor_chip \<Rightarrow> (nat \<Rightarrow> u8) \<Rightarrow> bool" where
  "sfdp_reports nc sf \<longleftrightarrow>
     map sf [0..<4] = [0x53, 0x46, 0x44, 0x50] \<and> sf 5 \<le> 1 \<and> sf 10 \<le> 1 \<and> 9 \<le> unat (sf 11) \<and>
     sfdp_table_ok nc (\<lambda>k. sf (unat (sfdp_ptr sf) + k))"

lemma unat_shl1: "n < 32 \<Longrightarrow> unat (push_bit n (1 :: u32)) = 2 ^ n"
  by (subst unsigned_push_bit_eq) (simp add: take_bit_nat_eq_self)

text \<open>The erasers that are kept: sorted, the smallest of one sector, all known to the chip.\<close>

lemma kept_erasers:
  assumes "sfdp_table_ok nc t" "es = eraser_sort (reported_erasers t [0..<4] @ drop (length (reported_erasers t [0..<4])) (replicate 4 (0, 0)))"
  shows "length es = 4" "fst (es ! 0) = 4096" "snd (es ! 0) \<noteq> 0"
    "\<forall>(g, c) \<in> set es. g \<noteq> 0 \<longrightarrow> FLASH_SECTOR dvd unat g \<and> (g, c) \<in> set (erasers nc)"
    "\<forall>p q. p < q \<longrightarrow> q < 4 \<longrightarrow> size_ok es p q"
proof -
  let ?r = "reported_erasers t [0..<4]"
  let ?u = "?r @ drop (length ?r) (replicate 4 (0, 0))"
  have t: "unat (t (28 + 2 * i)) < 32" "12 \<le> unat (t (28 + 2 * i))" "t (28 + 2 * i + 1) \<noteq> 0"
    "(push_bit (unat (t (28 + 2 * i))) 1, t (28 + 2 * i + 1)) \<in> set (erasers nc)" if "i < 4" "t (28 + 2 * i) \<noteq> 0" for i
    using assms(1) that unfolding sfdp_table_ok_def by auto
  have lr: "length ?r \<le> 4" unfolding reported_erasers_def using length_filter_le [of _ "[0..<4]"] by simp
  then have lu: "length ?u = SFUD_SFDP_ERASE_TYPE_MAX_NUM" by (simp add: SFUD_SFDP_ERASE_TYPE_MAX_NUM_def)
  have r: "4096 dvd unat g" "g \<noteq> 0" "c \<noteq> 0" "(g, c) \<in> set (erasers nc)" if gc: "(g, c) \<in> set ?r" for g c
  proof -
    obtain i where i: "i < 4" "t (28 + 2 * i) \<noteq> 0" "g = push_bit (unat (t (28 + 2 * i))) 1" "c = t (28 + 2 * i + 1)"
      using gc by (auto simp: reported_erasers_def)
    have g: "unat g = 2 ^ unat (t (28 + 2 * i))" using i t(1) [OF i(1,2)] unat_shl1 by simp
    have "(2 :: nat) ^ 12 dvd 2 ^ unat (t (28 + 2 * i))" by (rule le_imp_power_dvd [OF t(2) [OF i(1,2)]])
    then show "4096 dvd unat g" unfolding g by simp
    show "g \<noteq> 0" using g by auto
    show "c \<noteq> 0" "(g, c) \<in> set (erasers nc)" using t(3,4) [OF i(1,2)] i by simp_all
  qed
  obtain c0 where c0: "(4096, c0) \<in> set ?r"
  proof -
    obtain i where "i < 4" "t (28 + 2 * i) = 12" using assms(1) unfolding sfdp_table_ok_def by blast
    then have "(4096, t (28 + 2 * i + 1)) \<in> set ?r" by (force simp: reported_erasers_def)
    then show ?thesis by (rule that)
  qed
  then have ne: "?r \<noteq> []" by auto
  then have u0: "fst (?u ! 0) \<noteq> 0" using r(2) [of "fst (?r ! 0)" "snd (?r ! 0)"] by (simp add: nth_append)
  have m: "mset es = mset ?u" using mset_eraser_sort [OF lu] assms(2) by simp
  then have se: "set es = set ?u" by (rule mset_eq_setD)
  have le: "length es = length ?u" by (rule mset_eq_length [OF m])
  have es0: "fst (es ! 0) \<noteq> 0" using eraser_sort_sorted(2) [OF lu u0] assms(2) by simp
  show len: "length es = 4" using le lu by (simp add: SFUD_SFDP_ERASE_TYPE_MAX_NUM_def)
  show srt: "\<forall>p q. p < q \<longrightarrow> q < 4 \<longrightarrow> size_ok es p q"
    using eraser_sort_sorted(1) [OF lu u0] assms(2) by (simp add: SFUD_SFDP_ERASE_TYPE_MAX_NUM_def)
  have sub: "(g, c) \<in> set ?r" if "(g, c) \<in> set es" "g \<noteq> 0" for g c
    using that unfolding se by (auto dest: in_set_dropD)
  show "\<forall>(g, c) \<in> set es. g \<noteq> 0 \<longrightarrow> FLASH_SECTOR dvd unat g \<and> (g, c) \<in> set (erasers nc)"
    using sub r(1,4) by (auto simp: FLASH_SECTOR_def)
  have e0: "(fst (es ! 0), snd (es ! 0)) \<in> set ?r" using len es0 by (intro sub) simp_all
  show "snd (es ! 0) \<noteq> 0" by (rule r(3) [OF e0])
  have "4096 \<le> unat (fst (es ! 0))" using r(1) [OF e0] es0 by (intro dvd_imp_le) (simp_all add: unat_gt_0)
  moreover have "fst (es ! 0) \<le> 4096"
  proof -
    have "(4096, c0) \<in> set es" using c0 se by simp
    then obtain k where k: "k < 4" "es ! k = (4096, c0)" using len by (metis in_set_conv_nth)
    have "0 < k \<Longrightarrow> size_ok es 0 k" using srt k(1) by blast
    then show ?thesis using k es0 by (cases "k = 0") (simp_all add: size_ok_def)
  qed
  ultimately show "fst (es ! 0) = 4096" by (simp add: word_le_nat_alt word_unat_eq_iff)
qed

lemma sfdp_parse_result:
  assumes "sfdp_table_ok nc t" "eraser s = replicate 4 (0, 0)"
  shows "\<exists>s'. sfdp_parse (map t [0..<36]) s = Some (True, s') \<and> sfdp_available s' \<and> sfdp_capacity s' = 0x1000000 \<and> write_gran s' = 256 \<and>
    eraser s' = eraser_sort (reported_erasers t [0..<4] @ drop (length (reported_erasers t [0..<4])) (replicate 4 (0, 0)))"
proof -
  have t: "t 0 AND 3 = 1 \<or> t 0 AND 3 = 3" "t 0 AND 4 \<noteq> 0" "drop_bit 1 (t 2 AND 6) \<noteq> 3" "t 4 = 0xFF" "t 5 = 0xFF" "t 6 = 0xFF" "t 7 = 0x07"
    using assms(1) by (simp_all add: sfdp_table_ok_def)
  have cap: "sfdp_cap (map t [0..<36]) = Some (True, 0x1000000)"
    unfolding sfdp_cap_def rd_def using t(4-7) by simp
  have "unat (t (28 + 2 * i)) < 32" if "i < 4" for i
    using assms(1) that unfolding sfdp_table_ok_def by (cases "t (28 + 2 * i) = 0") auto
  then have e: "sfdp_erasers (map t [0..<36]) [0..<4] 0 (replicate 4 (0, 0)) =
      Some (reported_erasers t [0..<4] @ drop (length (reported_erasers t [0..<4])) (replicate 4 (0, 0)))"
    using sfdp_erasers_result [of "[0..<4]" t 0 "replicate 4 (0, 0)"] by simp
  have "rd (map t [0..<36]) 0 = Some (t 0)" "rd (map t [0..<36]) 1 = Some (t 1)" "rd (map t [0..<36]) 2 = Some (t 2)"
    by (simp_all add: rd_def numeral_2_eq_2)
  then show ?thesis
    using t(1-3) cap e assms(2)
    by (auto simp: sfdp_parse_def Let_def SFUD_SFDP_ERASE_TYPE_MAX_NUM_def simp del: upt_rec_numeral One_nat_def)
qed

section \<open>Initialising a chip\<close>

text \<open>
  How a chip identifies itself: its three identification bytes, the bytes \<open>sf\<close> of its parameters by
  address, and the two commands of a reset.
\<close>

definition nor_identity :: "'w rt_spi_ops \<Rightarrow> 'w nor_chip \<Rightarrow> u8 list \<Rightarrow> (nat \<Rightarrow> u8) \<Rightarrow> bool" where
  "nor_identity ops nc jid sf \<longleftrightarrow>
     length jid = 3 \<and> nor_quiet ops nc [SFUD_CMD_JEDEC_ID] (replicate 3 0) (\<lambda>_. jid) \<and>
     nor_quiet ops nc [SFUD_CMD_ENABLE_RESET] [] (\<lambda>_. []) \<and> nor_quiet ops nc [SFUD_CMD_RESET] [] (\<lambda>_. []) \<and>
     (\<forall>a n. unat a < 2 ^ 24 \<and> 0 < n \<and> n \<le> 36 \<longrightarrow>
        nor_quiet ops nc (SFUD_CMD_READ_SFDP_REGISTER # nor_addr a @ [SFUD_DUMMY_DATA]) (replicate n 0)
          (\<lambda>_. map (\<lambda>k. sf (unat a + k)) [0..<n]))"

lemma read_sfdp_data_result:
  assumes "serial_nor ops nc" "nor_identity ops nc jid sf" "dev_idle nc dev" "unat a < 2 ^ 24" "0 < n" "n \<le> 36"
  shows "\<exists>dev'. read_sfdp_data ops a n dev = (SFUD_SUCCESS, map (\<lambda>k. sf (unat a + k)) [0..<n], dev') \<and>
    dev_cells nc dev' = dev_cells nc dev \<and> dev_idle nc dev'"
proof -
  have c: "[SFUD_CMD_READ_SFDP_REGISTER, ucast (drop_bit 16 a AND 0xFF), ucast (drop_bit 8 a AND 0xFF),
       ucast (a AND 0xFF), SFUD_DUMMY_DATA] = SFUD_CMD_READ_SFDP_REGISTER # nor_addr a @ [SFUD_DUMMY_DATA]"
    using make_address_3 [of sfud_flash_zero a] by (simp add: make_adress_byte_array_def nor_addr_def sfud_flash_zero_def upt_rec)
  have "nor_quiet ops nc (SFUD_CMD_READ_SFDP_REGISTER # nor_addr a @ [SFUD_DUMMY_DATA]) (replicate n 0) (\<lambda>_. map (\<lambda>k. sf (unat a + k)) [0..<n])"
    using assms(2,4-6) by (simp add: nor_identity_def)
  from cmd_quiet [OF assms(1) this _ assms(3)] show ?thesis by (simp add: read_sfdp_data_def c)
qed

lemma sfud_reset_result:
  assumes "serial_nor ops nc" "nor_identity ops nc jid sf" "dev_idle nc dev"
  shows "\<exists>dev'. sfud_reset ops flash dev = Some (SFUD_SUCCESS, dev') \<and> dev_cells nc dev' = dev_cells nc dev \<and> dev_idle nc dev'"
proof -
  have q: "nor_quiet ops nc [SFUD_CMD_ENABLE_RESET] [] (\<lambda>_. [])" "nor_quiet ops nc [SFUD_CMD_RESET] [] (\<lambda>_. [])"
    using assms(2) by (simp_all add: nor_identity_def)
  have w: "\<exists>dev'. wait_busy ops flash dev = Some (SFUD_SUCCESS, dev') \<and> dev_cells nc dev' = dev_cells nc dev \<and> dev_idle nc dev'"
    if "dev_idle nc dev" for dev
    unfolding wait_busy_def using that by (intro wait_busy_loop_ends [OF assms(1)]) (simp add: dev_idle_def)
  obtain d1 where d1: "spi_write_read ops [SFUD_CMD_ENABLE_RESET] [] dev = (SFUD_SUCCESS, [], d1)" "dev_cells nc d1 = dev_cells nc dev" "dev_idle nc d1"
    using cmd_quiet [OF assms(1) q(1) _ assms(3)] by auto
  obtain d2 where d2: "wait_busy ops flash d1 = Some (SFUD_SUCCESS, d2)" "dev_cells nc d2 = dev_cells nc d1" "dev_idle nc d2"
    using w [OF d1(3)] by auto
  obtain d3 where d3: "spi_write_read ops [SFUD_CMD_RESET] [] d2 = (SFUD_SUCCESS, [], d3)" "dev_cells nc d3 = dev_cells nc d2" "dev_idle nc d3"
    using cmd_quiet [OF assms(1) q(2) _ d2(3)] by auto
  show ?thesis using w [OF d3(3)] d1 d2 d3 by (auto simp: sfud_reset_def)
qed

text \<open>With reported parameters, and for a chip of the table without them.\<close>

lemma sfud_read_sfdp_reports:
  assumes "serial_nor ops nc" "nor_identity ops nc jid sf" "dev_idle nc dev" "sfdp_reports nc sf" "eraser (sfdp flash) = replicate 4 (0, 0)"
  shows "\<exists>s dev'. sfud_read_sfdp ops flash dev = Some (True, flash\<lparr>sfdp := s\<rparr>, dev') \<and>
    sfdp_available s \<and> sfdp_capacity s = 0x1000000 \<and> write_gran s = 256 \<and>
    length (eraser s) = 4 \<and> fst (eraser s ! 0) = 4096 \<and> snd (eraser s ! 0) \<noteq> 0 \<and>
    (\<forall>(g, c) \<in> set (eraser s). g \<noteq> 0 \<longrightarrow> FLASH_SECTOR dvd unat g \<and> (g, c) \<in> set (erasers nc)) \<and>
    (\<forall>p q. p < q \<longrightarrow> q < 4 \<longrightarrow> size_ok (eraser s) p q) \<and>
    dev_cells nc dev' = dev_cells nc dev \<and> dev_idle nc dev'"
proof -
  let ?t = "\<lambda>k. sf (unat (sfdp_ptr sf) + k)"
  have h: "map sf [0..<4] = [0x53, 0x46, 0x44, 0x50]" "sf 5 \<le> 1" "sf 10 \<le> 1" "9 \<le> unat (sf 11)" "sfdp_table_ok nc ?t"
    using assms(4) unfolding sfdp_reports_def by simp_all
  note rd_data = read_sfdp_data_result [OF assms(1,2)]
  obtain d1 where d1: "read_sfdp_data ops 0 8 dev = (SFUD_SUCCESS, map sf [0..<8], d1)" "dev_cells nc d1 = dev_cells nc dev" "dev_idle nc d1"
    using rd_data [OF assms(3), of 0 8] by auto
  obtain d2 where d2: "read_sfdp_data ops 8 8 d1 = (SFUD_SUCCESS, map (\<lambda>k. sf (8 + k)) [0..<8], d2)" "dev_cells nc d2 = dev_cells nc d1" "dev_idle nc d2"
    using rd_data [OF d1(3), of 8 8] by auto
  obtain d3 where d3: "read_sfdp_data ops (sfdp_ptr sf) 36 d2 = (SFUD_SUCCESS, map ?t [0..<36], d3)" "dev_cells nc d3 = dev_cells nc d2" "dev_idle nc d3"
    using rd_data [OF d2(3) sfdp_ptr_24, of 36] by auto
  define fl where "fl = flash\<lparr>sfdp := (sfdp flash)\<lparr>sfdp_available := False, sfdp_minor_rev := sf 4, sfdp_major_rev := sf 5\<rparr>\<rparr>"
  have r1: "read_sfdp_header ops flash dev = Some (True, fl, d1)"
  proof -
    have "rd_n (map sf [0..<8]) 0 4 = Some [0x53, 0x46, 0x44, 0x50]"
      unfolding rd_n_def using h(1) by (simp add: take_map)
    moreover have "rd (map sf [0..<8]) 4 = Some (sf 4)" "rd (map sf [0..<8]) 5 = Some (sf 5)" by (simp_all add: rd_def)
    ultimately show ?thesis
      using d1(1) h(2) by (simp add: read_sfdp_header_def fl_def SUPPORT_MAX_SFDP_MAJOR_REV_def not_less Let_def)
  qed
  have r2: "read_basic_header ops d1 = Some (True, sfdp_ptr sf, d2)"
    using d2(1) h(3,4)
    by (simp add: read_basic_header_def rd_def SUPPORT_MAX_SFDP_MAJOR_REV_def BASIC_TABLE_LEN_def not_less sfdp_ptr_def Let_def)
  have "eraser (sfdp fl) = replicate 4 (0, 0)" using assms(5) by (simp add: fl_def)
  from sfdp_parse_result [OF h(5) this] obtain s where s: "sfdp_parse (map ?t [0..<36]) (sfdp fl) = Some (True, s)" "sfdp_available s" "sfdp_capacity s = 0x1000000"
    "write_gran s = 256" and es: "eraser s = eraser_sort (reported_erasers ?t [0..<4] @ drop (length (reported_erasers ?t [0..<4])) (replicate 4 (0, 0)))"
    by (elim exE conjE)
  have "read_basic_table ops (sfdp_ptr sf) fl d2 = Some (True, flash\<lparr>sfdp := s\<rparr>, d3)"
    using d3(1) s(1) by (simp add: read_basic_table_def BASIC_TABLE_LEN_def fl_def)
  then have "sfud_read_sfdp ops flash dev = Some (True, flash\<lparr>sfdp := s\<rparr>, d3)"
    by (simp add: sfud_read_sfdp_def r1 r2)
  then show ?thesis
    using s kept_erasers [OF h(5) es] d1 d2 d3 by (intro exI [of _ s] exI [of _ d3]) simp
qed

lemma sfud_read_sfdp_absent:
  assumes "serial_nor ops nc" "nor_identity ops nc jid sf" "dev_idle nc dev" "map sf [0..<4] \<noteq> [0x53, 0x46, 0x44, 0x50]"
  shows "\<exists>dev'. sfud_read_sfdp ops flash dev = Some (False, flash\<lparr>sfdp := (sfdp flash)\<lparr>sfdp_available := False\<rparr>\<rparr>, dev') \<and>
    dev_cells nc dev' = dev_cells nc dev \<and> dev_idle nc dev'"
proof -
  obtain d1 where d1: "read_sfdp_data ops 0 8 dev = (SFUD_SUCCESS, map sf [0..<8], d1)" "dev_cells nc d1 = dev_cells nc dev" "dev_idle nc d1"
    using read_sfdp_data_result [OF assms(1-3), of 0 8] by auto
  have "rd_n (map sf [0..<8]) 0 4 = Some (map sf [0..<4])" by (simp add: rd_n_def take_map)
  then show ?thesis using d1 assms(4) by (auto simp: sfud_read_sfdp_def read_sfdp_header_def Let_def)
qed

definition nor_known :: "'w nor_chip \<Rightarrow> u8 list \<Rightarrow> (nat \<Rightarrow> u8) \<Rightarrow> bool" where
  "nor_known nc jid sf \<longleftrightarrow> sfdp_reports nc sf \<or>
     map sf [0..<4] \<noteq> [0x53, 0x46, 0x44, 0x50] \<and> jid = [0xEF, 0x40, 0x18] \<and> (4096, 0x20) \<in> set (erasers nc)"

lemma chip_lookup_w25q128:
  "mf_id ch = 0xEF \<Longrightarrow> type_id ch = 0x40 \<Longrightarrow> capacity_id ch = 0x18 \<Longrightarrow>
   chip_lookup SFUD_FLASH_CHIP_TABLE ch = ch\<lparr>chip_name := Some ''W25Q128BV'', capacity := 16*1024*1024,
     write_mode := SFUD_WM_PAGE_256B, erase_gran := 4096, erase_gran_cmd := 0x20\<rparr>"
  by (simp add: SFUD_FLASH_CHIP_TABLE_def chip_entry_def)

lemma chip_from_sfdp_least:
  assumes "\<forall>p q. p < q \<longrightarrow> q < 4 \<longrightarrow> size_ok (eraser s) p q" "fst (eraser s ! 0) \<noteq> 0"
  shows "erase_gran (chip_from_sfdp s ch) = fst (eraser s ! 0)" "erase_gran_cmd (chip_from_sfdp s ch) = snd (eraser s ! 0)"
    "capacity (chip_from_sfdp s ch) = sfdp_capacity s"
    "write_mode (chip_from_sfdp s ch) = (if write_gran s = 1 then SFUD_WM_BYTE else SFUD_WM_PAGE_256B)"
proof -
  let ?c = "ch\<lparr>chip_name := None, capacity := sfdp_capacity s, write_mode := (if write_gran s = 1 then SFUD_WM_BYTE else SFUD_WM_PAGE_256B),
    erase_gran := fst (eraser s ! 0), erase_gran_cmd := snd (eraser s ! 0)\<rparr>"
  have lt: "\<not> (fst (eraser s ! i) \<noteq> 0 \<and> fst (eraser s ! i) < fst (eraser s ! 0))" if "0 < i \<and> i < 4" for i
    using assms(1) [rule_format, of 0 i] assms(2) that by (auto simp: size_ok_def)
  have "\<forall>i \<in> set is. 0 < i \<and> i < 4 \<Longrightarrow>
    foldl (\<lambda>ch i. if fst (eraser s ! i) \<noteq> 0 \<and> erase_gran ch > fst (eraser s ! i)
      then ch\<lparr>erase_gran := fst (eraser s ! i), erase_gran_cmd := snd (eraser s ! i)\<rparr> else ch) ?c is = ?c" for "is"
    using lt by (induction "is") auto
  from this [of "[1..<4]"] have "chip_from_sfdp s ch = ?c" by (simp add: chip_from_sfdp_def SFUD_SFDP_ERASE_TYPE_MAX_NUM_def Let_def)
  then show "erase_gran (chip_from_sfdp s ch) = fst (eraser s ! 0)" "erase_gran_cmd (chip_from_sfdp s ch) = snd (eraser s ! 0)"
    "capacity (chip_from_sfdp s ch) = sfdp_capacity s"
    "write_mode (chip_from_sfdp s ch) = (if write_gran s = 1 then SFUD_WM_BYTE else SFUD_WM_PAGE_256B)" by simp_all
qed

text \<open>What the probe finds.\<close>

lemma hardware_probe_ready:
  assumes "serial_nor ops nc" "nor_identity ops nc jid sf" "nor_known nc jid sf" "dev_idle nc dev"
    "fl = sfud_flash_zero\<lparr>retry_times := 60 * 10000\<rparr>"
  shows "\<exists>flash dev'. hardware_probe ops fl dev = Some (SFUD_SUCCESS, flash, dev') \<and> \<not> chip_unknown flash \<and>
    sfud_ready (flash\<lparr>addr_in_4_byte := False\<rparr>) nc \<and> write_mode (chip flash) = SFUD_WM_PAGE_256B \<and> capacity (chip flash) = 0x1000000 \<and>
    dev_cells nc dev' = dev_cells nc dev \<and> dev_idle nc dev'"
proof -
  have q: "nor_quiet ops nc [SFUD_CMD_JEDEC_ID] (replicate 3 0) (\<lambda>_. jid)" "length jid = 3"
    using assms(2) by (simp_all add: nor_identity_def)
  obtain d1 where d1: "spi_write_read ops [SFUD_CMD_JEDEC_ID] (replicate 3 0) dev = (SFUD_SUCCESS, jid, d1)"
    "dev_cells nc d1 = dev_cells nc dev" "dev_idle nc d1"
    using cmd_quiet [OF assms(1) q(1) _ assms(4)] by auto
  define f1 where "f1 = fl\<lparr>chip := (chip fl)\<lparr>mf_id := jid ! 0, type_id := jid ! 1, capacity_id := jid ! 2\<rparr>\<rparr>"
  have j: "read_jedec_id ops fl dev = Some (SFUD_SUCCESS, f1, d1)"
    using d1(1) q(2) by (auto simp: read_jedec_id_def f1_def rd_def)
  have u: "chip_unknown fl" by (simp add: assms(5) chip_unknown_def sfud_flash_zero_def)
  consider "sfdp_reports nc sf" | "map sf [0..<4] \<noteq> [0x53, 0x46, 0x44, 0x50]" "jid = [0xEF, 0x40, 0x18]" "(4096, 0x20) \<in> set (erasers nc)"
    using assms(3) unfolding nor_known_def by (elim disjE conjE)
  then show ?thesis
  proof cases
    case 1
    have "eraser (sfdp f1) = replicate 4 (0, 0)"
      by (simp add: f1_def assms(5) sfud_flash_zero_def SFUD_SFDP_ERASE_TYPE_MAX_NUM_def)
    from sfud_read_sfdp_reports [OF assms(1,2) d1(3) 1 this] obtain s d2 where
      r: "sfud_read_sfdp ops f1 d1 = Some (True, f1\<lparr>sfdp := s\<rparr>, d2)" "dev_cells nc d2 = dev_cells nc d1" "dev_idle nc d2"
      and s: "sfdp_available s" "sfdp_capacity s = 0x1000000" "write_gran s = 256" "length (eraser s) = 4" "fst (eraser s ! 0) = 4096"
        "snd (eraser s ! 0) \<noteq> 0" "\<forall>(g, c) \<in> set (eraser s). g \<noteq> 0 \<longrightarrow> FLASH_SECTOR dvd unat g \<and> (g, c) \<in> set (erasers nc)"
        "\<forall>p q. p < q \<longrightarrow> q < 4 \<longrightarrow> size_ok (eraser s) p q" by (elim exE conjE)
    have nz: "fst (eraser s ! 0) \<noteq> 0" using s(5) by simp
    note c = chip_from_sfdp_least [OF s(8) nz, of "chip f1"]
    let ?f = "f1\<lparr>sfdp := s, chip := chip_from_sfdp s (chip f1)\<rparr>"
    have h: "hardware_probe ops fl dev = Some (SFUD_SUCCESS, ?f, d2)" using u j r(1) by (simp add: hardware_probe_def)
    have k: "\<not> chip_unknown ?f" using c s by (simp add: chip_unknown_def sfud_wms)
    have "sfud_ready (?f\<lparr>addr_in_4_byte := False\<rparr>) nc"
      using c s by (simp add: sfud_ready_def NOR_SIZE_def sfud_wms SFUD_SFDP_ERASE_TYPE_MAX_NUM_def BUSY_MAX_def f1_def assms(5))
    then show ?thesis using h k r(2,3) c s d1(2) by (intro exI [of _ ?f] exI [of _ d2]) simp
  next
    case 2
    obtain d2 where r: "sfud_read_sfdp ops f1 d1 = Some (False, f1\<lparr>sfdp := (sfdp f1)\<lparr>sfdp_available := False\<rparr>\<rparr>, d2)"
      "dev_cells nc d2 = dev_cells nc d1" "dev_idle nc d2"
      using sfud_read_sfdp_absent [OF assms(1,2) d1(3) 2(1)] by blast
    have ch: "mf_id (chip f1) = 0xEF" "type_id (chip f1) = 0x40" "capacity_id (chip f1) = 0x18" using 2(2) by (simp_all add: f1_def)
    note c = chip_lookup_w25q128 [OF ch]
    have rt: "retry_times f1 = 600000" by (simp add: f1_def assms(5))
    let ?f = "f1\<lparr>sfdp := (sfdp f1)\<lparr>sfdp_available := False\<rparr>, chip := chip_lookup SFUD_FLASH_CHIP_TABLE (chip f1)\<rparr>"
    have h: "hardware_probe ops fl dev = Some (SFUD_SUCCESS, ?f, d2)" using u j r(1) by (simp add: hardware_probe_def)
    have k: "\<not> chip_unknown ?f" by (simp add: c chip_unknown_def sfud_wms)
    have "sfud_ready (?f\<lparr>addr_in_4_byte := False\<rparr>) nc"
      using 2(3) rt by (simp add: c sfud_ready_def NOR_SIZE_def sfud_wms BUSY_MAX_def)
    then show ?thesis using h k r(2,3) d1(2) by (intro exI [of _ ?f] exI [of _ d2]) (simp add: c)
  qed
qed


lemma demo_identity: "nor_identity demo_spi demo_nc [0xEF, 0x40, 0x18] (\<lambda>_. 0xFF)"
  by (auto simp: nor_identity_def nor_quiet_def demo_bus_cmd sfud_cmds demo_nc_def nor_addr_def SFUD_DUMMY_DATA_def map_replicate_const)


text \<open>
  A chip that reports a write granularity of one byte is initialised for byte writes, and for those
  \<open>sfud_write\<close> has no case: every write, at whatever address, reports success without any transfer.
\<close>

theorem sfud_byte_mode_write_lost:
  assumes "write_gran s = 1" "chip flash = chip_from_sfdp s ch"
  shows "sfud_write ops flash a data dev = Some (SFUD_SUCCESS, dev)"
proof -
  have "write_mode (foldl (\<lambda>ch i. if fst (eraser s ! i) \<noteq> 0 \<and> erase_gran ch > fst (eraser s ! i)
      then ch\<lparr>erase_gran := fst (eraser s ! i), erase_gran_cmd := snd (eraser s ! i)\<rparr> else ch) ch' is) = write_mode ch'" for ch' :: sfud_flash_chip and "is"
    by (induction "is" arbitrary: ch') auto
  then have "write_mode (chip flash) = SFUD_WM_BYTE" using assms by (simp add: chip_from_sfdp_def Let_def)
  then show ?thesis by (simp add: sfud_write_def sfud_wms)
qed

theorem sfud_byte_mode_write_lost_witness:
  "sfud_write demo_spi
     (demo_flash0\<lparr>chip := chip_from_sfdp ((sfdp demo_flash0)\<lparr>write_gran := 1, sfdp_capacity := 4096\<rparr>) (chip demo_flash0)\<rparr>)
     0 [1, 2, 3] demo_dev = Some (SFUD_SUCCESS, demo_dev)"
  by (rule sfud_byte_mode_write_lost [where s = "(sfdp demo_flash0)\<lparr>write_gran := 1, sfdp_capacity := 4096\<rparr>" and ch = "chip demo_flash0"])
    simp_all

end
