(* ===== verification/Rt_Heap.thy ===== *)
theory Rt_Heap
  imports C_Mem
begin

text \<open>
  The kernel allocator (\<open>src/mem.c\<close>), which gives every other component its memory. The heap is an
  array of bytes; each block of it starts with a header of twelve bytes that holds the offsets of the
  next and the previous header. Addresses and offsets are 32-bit words, headers are read and written
  as bytes, and an access outside the array or a failed assertion is undefined. Operations are called
  from threads; the hooks are not set in this firmware.
\<close>

section \<open>Headers\<close>

fun le16 :: "u8 list \<Rightarrow> u16" where
  "le16 (a # b # _) = ucast a OR push_bit 8 (ucast b)"
| "le16 _ = 0"

definition le16_bytes :: "u16 \<Rightarrow> u8 list" where
  "le16_bytes w = [ucast w, ucast (drop_bit 8 w)]"

record heap_mem =
  magic :: u16
  used :: u16
  next_mem :: u32
  prev_mem :: u32

definition HEAP_MAGIC :: u16 where "HEAP_MAGIC = 0x1ea0"

definition enc_mem :: "heap_mem \<Rightarrow> u8 list" where
  "enc_mem m = le16_bytes (magic m) @ le16_bytes (used m) @ le32_bytes (next_mem m) @ le32_bytes (prev_mem m)"

definition dec_mem :: "u8 list \<Rightarrow> heap_mem" where
  "dec_mem bs = \<lparr>magic = le16 bs, used = le16 (drop 2 bs), next_mem = le32 (drop 4 bs), prev_mem = le32 (drop 8 bs)\<rparr>"

section \<open>The heap\<close>

text \<open>\<open>heap_bytes\<close> are the bytes from the address \<open>heap_ptr\<close> on. A semaphore of value 0 blocks its caller.\<close>

record rt_heap =
  heap_ptr :: u32
  heap_bytes :: "u8 list"
  heap_end :: u32
  lfree :: u32
  heap_sem :: nat
  mem_size_aligned :: u32
  used_mem :: u32
  max_mem :: u32

definition rt_assert :: "bool \<Rightarrow> unit option" where
  "rt_assert b = (if b then Some () else None)"

definition get_mem :: "rt_heap \<Rightarrow> u32 \<Rightarrow> heap_mem option" where
  "get_mem h a = map_option dec_mem (rd_n (heap_bytes h) (unat (a - heap_ptr h)) 12)"

definition put_mem :: "rt_heap \<Rightarrow> u32 \<Rightarrow> heap_mem \<Rightarrow> rt_heap option" where
  "put_mem h a m = map_option (\<lambda>b. h\<lparr>heap_bytes := b\<rparr>)
     (wr_n (heap_bytes h) (unat (a - heap_ptr h)) (enc_mem m))"

definition upd_mem :: "rt_heap \<Rightarrow> u32 \<Rightarrow> (heap_mem \<Rightarrow> heap_mem) \<Rightarrow> rt_heap option" where
  "upd_mem h a f = get_mem h a \<bind> (\<lambda>m. put_mem h a (f m))"

text \<open>The client's (and \<open>memcpy\<close>'s and \<open>memset\<close>'s) access to the bytes of a block.\<close>

definition load_mem :: "rt_heap \<Rightarrow> u32 \<Rightarrow> nat \<Rightarrow> u8 list option" where
  "load_mem h a n = rd_n (heap_bytes h) (unat (a - heap_ptr h)) n"

definition store_mem :: "rt_heap \<Rightarrow> u32 \<Rightarrow> u8 list \<Rightarrow> rt_heap option" where
  "store_mem h a bs = map_option (\<lambda>b. h\<lparr>heap_bytes := b\<rparr>) (wr_n (heap_bytes h) (unat (a - heap_ptr h)) bs)"

definition heap_take :: "rt_heap \<Rightarrow> rt_heap option" where
  "heap_take h = (if heap_sem h = 0 then None else Some (h\<lparr>heap_sem := heap_sem h - 1\<rparr>))"

definition heap_release :: "rt_heap \<Rightarrow> rt_heap" where
  "heap_release h = h\<lparr>heap_sem := heap_sem h + 1\<rparr>"

definition align_up4 :: "u32 \<Rightarrow> u32" where
  "align_up4 n = (n + 4 - 1) AND NOT (4 - 1)"

definition align_down4 :: "u32 \<Rightarrow> u32" where
  "align_down4 n = n AND NOT (4 - 1)"

section \<open>Initialisation\<close>

text \<open>
  \<open>ram\<close> is what the memory holds before. The two statistics are static variables, which are 0 at the
  start. \<open>Inr\<close> is the heap, \<open>Inl\<close> the message about the addresses.
\<close>

definition heap_setup :: "rt_heap \<Rightarrow> rt_heap option" where
  "heap_setup h = do {
     let last = mem_size_aligned h + 12;
     h \<leftarrow> put_mem h (heap_ptr h) \<lparr>magic = HEAP_MAGIC, used = 0, next_mem = last, prev_mem = 0\<rparr>;
     m \<leftarrow> get_mem h (heap_ptr h);
     let h = h\<lparr>heap_end := heap_ptr h + next_mem m\<rparr>;
     h \<leftarrow> put_mem h (heap_end h) \<lparr>magic = HEAP_MAGIC, used = 1, next_mem = last, prev_mem = last\<rparr>;
     Some (h\<lparr>heap_sem := 1, lfree := heap_ptr h\<rparr>)
   }"

definition rt_system_heap_init :: "(u32 \<Rightarrow> u8) \<Rightarrow> u32 \<Rightarrow> u32 \<Rightarrow> (u32 \<times> u32 + rt_heap) option" where
  "rt_system_heap_init ram begin_addr end_addr = (
     let begin_align = align_up4 begin_addr; end_align = align_down4 end_addr in
     if end_align > 2 * 12 \<and> end_align - 2 * 12 \<ge> begin_align then
       map_option Inr (heap_setup
         \<lparr>heap_ptr = begin_align,
          heap_bytes = map (\<lambda>i. ram (begin_align + of_nat i)) [0..<unat (end_align - begin_align)],
          heap_end = 0, lfree = 0, heap_sem = 0, mem_size_aligned = end_align - begin_align - 2 * 12,
          used_mem = 0, max_mem = 0\<rparr>)
     else Some (Inl (begin_addr, end_addr)))"

section \<open>Joining free blocks\<close>

text \<open>The two halves of \<open>plug_holes\<close>: with the block after \<open>mem\<close> and with the one before.\<close>

definition plug_forward :: "rt_heap \<Rightarrow> u32 \<Rightarrow> rt_heap option" where
  "plug_forward h mem = do {
     m \<leftarrow> get_mem h mem;
     let nmem = heap_ptr h + next_mem m;
     if mem \<noteq> nmem then do {
       nm \<leftarrow> get_mem h nmem;
       if used nm = 0 \<and> nmem \<noteq> heap_end h then do {
         let h = (if lfree h = nmem then h\<lparr>lfree := mem\<rparr> else h);
         h \<leftarrow> upd_mem h mem (\<lambda>m. m\<lparr>next_mem := next_mem nm\<rparr>);
         nm \<leftarrow> get_mem h nmem;
         upd_mem h (heap_ptr h + next_mem nm) (\<lambda>m. m\<lparr>prev_mem := mem - heap_ptr h\<rparr>)
       } else Some h
     } else Some h
   }"

definition plug_backward :: "rt_heap \<Rightarrow> u32 \<Rightarrow> rt_heap option" where
  "plug_backward h mem = do {
     m \<leftarrow> get_mem h mem;
     let pmem = heap_ptr h + prev_mem m;
     if pmem \<noteq> mem then do {
       pm \<leftarrow> get_mem h pmem;
       if used pm = 0 then do {
         let h = (if lfree h = mem then h\<lparr>lfree := pmem\<rparr> else h);
         h \<leftarrow> upd_mem h pmem (\<lambda>pm. pm\<lparr>next_mem := next_mem m\<rparr>);
         m \<leftarrow> get_mem h mem;
         upd_mem h (heap_ptr h + next_mem m) (\<lambda>m. m\<lparr>prev_mem := pmem - heap_ptr h\<rparr>)
       } else Some h
     } else Some h
   }"

definition plug_holes :: "rt_heap \<Rightarrow> u32 \<Rightarrow> rt_heap option" where
  "plug_holes h mem = do {
     rt_assert (mem \<ge> heap_ptr h);
     rt_assert (mem < heap_end h);
     m \<leftarrow> get_mem h mem;
     rt_assert (used m = 0);
     h \<leftarrow> plug_forward h mem;
     plug_backward h mem
   }"

section \<open>Allocation\<close>

text \<open>The search for the first free block that is large enough; its result is the offset \<open>ptr\<close> it stops at.\<close>

partial_function (option) malloc_find :: "rt_heap \<Rightarrow> u32 \<Rightarrow> u32 \<Rightarrow> u32 option option" where
  "malloc_find h sz ptr =
     (if ptr < mem_size_aligned h - sz then do {
        m \<leftarrow> get_mem h (heap_ptr h + ptr);
        if used m = 0 \<and> next_mem m - (ptr + 12) \<ge> sz then Some (Some ptr)
        else malloc_find h sz (next_mem m)
      } else Some None)"

partial_function (option) lfree_scan :: "rt_heap \<Rightarrow> u32 \<Rightarrow> u32 option" where
  "lfree_scan h l = do {
     m \<leftarrow> get_mem h l;
     if used m \<noteq> 0 \<and> l \<noteq> heap_end h then lfree_scan h (heap_ptr h + next_mem m) else Some l
   }"

declare malloc_find.simps [code] lfree_scan.simps [code]

definition count_used :: "u32 \<Rightarrow> rt_heap \<Rightarrow> rt_heap" where
  "count_used n h = (let h = h\<lparr>used_mem := used_mem h + n\<rparr> in
     if max_mem h < used_mem h then h\<lparr>max_mem := used_mem h\<rparr> else h)"

text \<open>A new header inside the block at \<open>ptr\<close>, as \<open>rt_malloc\<close> and \<open>rt_realloc\<close> make it.\<close>

definition split_mem :: "rt_heap \<Rightarrow> u32 \<Rightarrow> u32 \<Rightarrow> (heap_mem \<Rightarrow> heap_mem) \<Rightarrow> rt_heap option" where
  "split_mem h ptr ptr2 f = do {
     let mem = heap_ptr h + ptr;
     let mem2 = heap_ptr h + ptr2;
     m \<leftarrow> get_mem h mem;
     h \<leftarrow> put_mem h mem2 \<lparr>magic = HEAP_MAGIC, used = 0, next_mem = next_mem m, prev_mem = ptr\<rparr>;
     h \<leftarrow> upd_mem h mem (\<lambda>m. f (m\<lparr>next_mem := ptr2\<rparr>));
     m2 \<leftarrow> get_mem h mem2;
     if next_mem m2 \<noteq> mem_size_aligned h + 12
     then upd_mem h (heap_ptr h + next_mem m2) (\<lambda>m. m\<lparr>prev_mem := ptr2\<rparr>) else Some h
   }"

text \<open>The block found becomes used: split when the rest can hold a header and data, otherwise as a whole.\<close>

definition claim_block :: "rt_heap \<Rightarrow> u32 \<Rightarrow> u32 \<Rightarrow> rt_heap option" where
  "claim_block h sz ptr = do {
     let mem = heap_ptr h + ptr;
     m \<leftarrow> get_mem h mem;
     if next_mem m - (ptr + 12) \<ge> sz + 12 + 12 then
       map_option (count_used (sz + 12)) (split_mem h ptr (ptr + 12 + sz) (\<lambda>m. m\<lparr>used := 1\<rparr>))
     else
       map_option (count_used (next_mem m - (mem - heap_ptr h))) (upd_mem h mem (\<lambda>m. m\<lparr>used := 1\<rparr>))
   }"

definition malloc_take :: "rt_heap \<Rightarrow> u32 \<Rightarrow> u32 \<Rightarrow> (u32 \<times> rt_heap) option" where
  "malloc_take h sz ptr = do {
     let mem = heap_ptr h + ptr;
     h \<leftarrow> claim_block h sz ptr;
     h \<leftarrow> upd_mem h mem (\<lambda>m. m\<lparr>magic := HEAP_MAGIC\<rparr>);
     h \<leftarrow> (if mem = lfree h then do {
            l \<leftarrow> lfree_scan h (lfree h);
            lm \<leftarrow> get_mem h l;
            rt_assert (l = heap_end h \<or> used lm = 0);
            Some (h\<lparr>lfree := l\<rparr>)
          } else Some h);
     let h = heap_release h;
     rt_assert (mem + 12 + sz \<le> heap_end h);
     rt_assert ((mem + 12) mod 4 = 0);
     rt_assert (mem AND (4 - 1) = 0);
     Some (mem + 12, h)
   }"

definition rt_malloc :: "rt_heap \<Rightarrow> u32 \<Rightarrow> (u32 \<times> rt_heap) option" where
  "rt_malloc h sz0 =
     (if sz0 = 0 then Some (0, h)
      else let sz = align_up4 sz0 in
        if sz > mem_size_aligned h then Some (0, h)
        else let sz = (if sz < 12 then 12 else sz) in do {
          h \<leftarrow> heap_take h;
          f \<leftarrow> malloc_find h sz (lfree h - heap_ptr h);
          (case f of Some ptr \<Rightarrow> malloc_take h sz ptr | None \<Rightarrow> Some (0, heap_release h))
        })"

section \<open>Release\<close>

definition rt_free :: "rt_heap \<Rightarrow> u32 \<Rightarrow> rt_heap option" where
  "rt_free h rmem =
     (if rmem = 0 then Some h
      else do {
        rt_assert (rmem AND (4 - 1) = 0);
        rt_assert (rmem \<ge> heap_ptr h \<and> rmem < heap_end h);
        if rmem < heap_ptr h \<or> rmem \<ge> heap_end h then Some h
        else do {
          let mem = rmem - 12;
          h \<leftarrow> heap_take h;
          m \<leftarrow> get_mem h mem;
          rt_assert (used m \<noteq> 0);
          rt_assert (magic m = HEAP_MAGIC);
          h \<leftarrow> upd_mem h mem (\<lambda>m. m\<lparr>used := 0, magic := HEAP_MAGIC\<rparr>);
          let h = (if mem < lfree h then h\<lparr>lfree := mem\<rparr> else h);
          m \<leftarrow> get_mem h mem;
          let h = h\<lparr>used_mem := used_mem h - (next_mem m - (mem - heap_ptr h))\<rparr>;
          h \<leftarrow> plug_holes h mem;
          Some (heap_release h)
        }
      })"

section \<open>Resizing\<close>

text \<open>The part after the size \<open>sz\<close> of the block at \<open>ptr\<close> has been read, with the semaphore taken.\<close>

definition realloc_block :: "rt_heap \<Rightarrow> u32 \<Rightarrow> u32 \<Rightarrow> u32 \<Rightarrow> u32 \<Rightarrow> (u32 \<times> rt_heap) option" where
  "realloc_block h rmem newsize ptr sz =
     (if sz = newsize then Some (rmem, heap_release h)
      else if newsize + 12 + 12 < sz then do {
        let h = h\<lparr>used_mem := used_mem h - (sz - newsize)\<rparr>;
        let ptr2 = ptr + 12 + newsize;
        h \<leftarrow> split_mem h ptr ptr2 (\<lambda>m. m);
        h \<leftarrow> plug_holes h (heap_ptr h + ptr2);
        Some (rmem, heap_release h)
      } else do {
        let h = heap_release h;
        (nmem, h) \<leftarrow> rt_malloc h newsize;
        if nmem \<noteq> 0 then do {
          bs \<leftarrow> load_mem h rmem (unat (if sz < newsize then sz else newsize));
          h \<leftarrow> store_mem h nmem bs;
          h \<leftarrow> rt_free h rmem;
          Some (nmem, h)
        } else Some (nmem, h)
      })"

definition rt_realloc :: "rt_heap \<Rightarrow> u32 \<Rightarrow> u32 \<Rightarrow> (u32 \<times> rt_heap) option" where
  "rt_realloc h rmem newsize0 = (
     let newsize = align_up4 newsize0 in
     if newsize > mem_size_aligned h then Some (0, h)
     else if newsize = 0 then map_option (\<lambda>h. (0, h)) (rt_free h rmem)
     else if rmem = 0 then rt_malloc h newsize
     else do {
       h \<leftarrow> heap_take h;
       if rmem < heap_ptr h \<or> rmem \<ge> heap_end h then Some (rmem, heap_release h)
       else do {
         let mem = rmem - 12;
         let ptr = mem - heap_ptr h;
         m \<leftarrow> get_mem h mem;
         realloc_block h rmem newsize ptr (next_mem m - ptr - 12)
       }
     })"

definition rt_calloc :: "rt_heap \<Rightarrow> u32 \<Rightarrow> u32 \<Rightarrow> (u32 \<times> rt_heap) option" where
  "rt_calloc h count sz = do {
     (p, h) \<leftarrow> rt_malloc h (count * sz);
     if p \<noteq> 0 then do {
       h \<leftarrow> store_mem h p (replicate (unat (count * sz)) 0);
       Some (p, h)
     } else Some (p, h)
   }"

definition rt_memory_info :: "rt_heap \<Rightarrow> u32 \<times> u32 \<times> u32" where
  "rt_memory_info h = (mem_size_aligned h, used_mem h, max_mem h)"

section \<open>Bytes and headers\<close>

definition sub_bytes :: "'a list \<Rightarrow> nat \<Rightarrow> nat \<Rightarrow> 'a list" where
  "sub_bytes b i j = take (j - i) (drop i b)"

definition mem_at :: "u8 list \<Rightarrow> nat \<Rightarrow> heap_mem" where
  "mem_at b p = dec_mem (sub_bytes b p (p + 12))"

definition set_bytes :: "'a list \<Rightarrow> nat \<Rightarrow> 'a list \<Rightarrow> 'a list" where
  "set_bytes b p bs = take p b @ bs @ drop (p + length bs) b"

abbreviation set_mem :: "u8 list \<Rightarrow> nat \<Rightarrow> heap_mem \<Rightarrow> u8 list" where
  "set_mem b p m \<equiv> set_bytes b p (enc_mem m)"

lemma enc_mem_length [simp]: "length (enc_mem m) = 12"
  by (simp add: enc_mem_def le16_bytes_def)

lemma le16_le16_bytes [simp]: "le16 (le16_bytes w @ r) = w"
proof (rule bit_word_eqI)
  fix n
  assume n: "n < LENGTH(16)"
  consider "n < 8" | "8 \<le> n" using n by linarith
  then show "bit (le16 (le16_bytes w @ r)) n \<longleftrightarrow> bit w n"
    by cases (use n in \<open>auto simp: le16_bytes_def bit_simps bit_ucast_iff\<close>)
qed

lemma dec_enc_mem [simp]: "dec_mem (enc_mem m) = m"
proof -
  have "le32 (le32_bytes w) = w" for w using le32_le32_bytes [of w "[]"] by simp
  moreover have "length (le16_bytes w) = 2" for w by (simp add: le16_bytes_def)
  ultimately show ?thesis by (simp add: dec_mem_def enc_mem_def)
qed

lemma set_bytes_length [simp]: "p + length bs \<le> length b \<Longrightarrow> length (set_bytes b p bs) = length b"
  by (simp add: set_bytes_def)

lemma nth_set_bytes:
  "p + length bs \<le> length b \<Longrightarrow> i < length b \<Longrightarrow>
     set_bytes b p bs ! i = (if p \<le> i \<and> i < p + length bs then bs ! (i - p) else b ! i)"
  by (auto simp: set_bytes_def nth_append)

lemma slice_length [simp]: "j \<le> length b \<Longrightarrow> length (sub_bytes b i j) = j - i"
  by (simp add: sub_bytes_def)

lemma nth_slice: "i + k < j \<Longrightarrow> j \<le> length b \<Longrightarrow> sub_bytes b i j ! k = b ! (i + k)"
  by (simp add: sub_bytes_def)

lemma slice_set_bytes_other:
  assumes "p + length bs \<le> length b" "j \<le> p \<or> p + length bs \<le> i" "j \<le> length b"
  shows "sub_bytes (set_bytes b p bs) i j = sub_bytes b i j"
  using assms by (intro nth_equalityI) (auto simp: nth_slice nth_set_bytes)

lemma slice_set_bytes_same:
  "p + length bs \<le> length b \<Longrightarrow> sub_bytes (set_bytes b p bs) p (p + length bs) = bs"
  by (intro nth_equalityI) (auto simp: nth_slice nth_set_bytes)

lemma slice_sub: "sub_bytes b i j = sub_bytes b' i j \<Longrightarrow> i \<le> k \<Longrightarrow> l \<le> j \<Longrightarrow> sub_bytes b k l = sub_bytes b' k l"
proof -
  assume eq: "sub_bytes b i j = sub_bytes b' i j" and kl: "i \<le> k" "l \<le> j"
  have "sub_bytes c k l = take (l - k) (drop (k - i) (sub_bytes c i j))" for c :: "'a list"
    using kl by (simp add: sub_bytes_def drop_take min_def)
  then show ?thesis using eq by simp
qed

lemma mem_at_set_same [simp]: "p + 12 \<le> length b \<Longrightarrow> mem_at (set_mem b p m) p = m"
  using slice_set_bytes_same [of p "enc_mem m" b] by (simp add: mem_at_def)

lemma mem_at_set_other:
  "p + length bs \<le> length b \<Longrightarrow> q + 12 \<le> length b \<Longrightarrow> q + 12 \<le> p \<or> p + length bs \<le> q \<Longrightarrow>
     mem_at (set_bytes b p bs) q = mem_at b q"
  by (simp add: mem_at_def slice_set_bytes_other)

section \<open>The list of blocks\<close>

text \<open>
  \<open>blocks_at b r p bs e\<close>: from offset \<open>p\<close> on, the headers in \<open>b\<close> lead through the blocks \<open>bs\<close> to offset
  \<open>e\<close>; a block is its offset, whether it is in use, and the offset of the next one. \<open>r\<close> is the offset
  that the first header has as its predecessor.
\<close>

type_synonym heap_block = "nat \<times> bool \<times> nat"

definition block_mem :: "bool \<Rightarrow> nat \<Rightarrow> nat \<Rightarrow> heap_mem" where
  "block_mem u n r = \<lparr>magic = HEAP_MAGIC, used = of_bool u, next_mem = of_nat n, prev_mem = of_nat r\<rparr>"

fun blocks_at :: "u8 list \<Rightarrow> nat \<Rightarrow> nat \<Rightarrow> heap_block list \<Rightarrow> nat \<Rightarrow> bool" where
  "blocks_at b r p [] e \<longleftrightarrow> p = e"
| "blocks_at b r p ((q, u, n) # bs) e \<longleftrightarrow>
     q = p \<and> mem_at b p = block_mem u n r \<and> p + 16 \<le> n \<and> 4 dvd n \<and> blocks_at b p n bs e"

fun last_off :: "nat \<Rightarrow> heap_block list \<Rightarrow> nat" where
  "last_off r [] = r"
| "last_off r ((q, u, n) # bs) = last_off q bs"

definition live_blocks :: "u8 list \<Rightarrow> heap_block list \<Rightarrow> nat \<rightharpoonup> u8 list" where
  "live_blocks b bs = map_of (map (\<lambda>(p, u, n). (p, sub_bytes b (p + 12) n)) (filter (\<lambda>(p, u, n). u) bs))"

definition used_total :: "heap_block list \<Rightarrow> nat" where
  "used_total bs = sum_list (map (\<lambda>(p, u, n). if u then n - p else 0) bs)"

definition no_holes :: "heap_block list \<Rightarrow> bool" where
  "no_holes = successively (\<lambda>(p, u, n) (p', u', n'). u \<or> u')"

lemma block_mem_sel [simp]:
  "magic (block_mem u n r) = HEAP_MAGIC" "used (block_mem u n r) = of_bool u"
  "next_mem (block_mem u n r) = of_nat n" "prev_mem (block_mem u n r) = of_nat r"
  by (simp_all add: block_mem_def)

lemma block_mem_upd [simp]:
  "(block_mem u n r)\<lparr>next_mem := of_nat n'\<rparr> = block_mem u n' r"
  "(block_mem u n r)\<lparr>prev_mem := of_nat r'\<rparr> = block_mem u n r'"
  "(block_mem u n r)\<lparr>used := 1\<rparr> = block_mem True n r"
  "(block_mem u n r)\<lparr>used := 0\<rparr> = block_mem False n r"
  "(block_mem u n r)\<lparr>magic := HEAP_MAGIC\<rparr> = block_mem u n r"
  "(block_mem u n r)\<lparr>used := 0, magic := HEAP_MAGIC\<rparr> = block_mem False n r"
  by (simp_all add: block_mem_def)

lemma blocks_at_le: "blocks_at b r p bs e \<Longrightarrow> p \<le> e"
  by (induction b r p bs e rule: blocks_at.induct) auto

lemma blocks_at_range:
  "blocks_at b r p bs e \<Longrightarrow> (q, u, n) \<in> set bs \<Longrightarrow> p \<le> q \<and> q + 16 \<le> n \<and> n \<le> e \<and> 4 dvd n \<and> (4 dvd p \<longrightarrow> 4 dvd q)"
  by (induction b r p bs e rule: blocks_at.induct) (auto dest: blocks_at_le)

lemma blocks_at_end: "blocks_at b r p bs e \<Longrightarrow> bs = [] \<and> p = e \<or> bs \<noteq> [] \<and> p + 16 \<le> e"
proof (cases bs)
  case (Cons x xs)
  assume b: "blocks_at b r p bs e"
  obtain q u n where x: "x = (q, u, n)" by (cases x)
  have "p + 16 \<le> n" "n \<le> e" using b blocks_at_le [of b p n xs e] by (auto simp: Cons x)
  then show ?thesis by (simp add: Cons)
qed simp

lemma blocks_at_append:
  "blocks_at b r p (xs @ ys) e \<longleftrightarrow> (\<exists>q. blocks_at b r p xs q \<and> blocks_at b (last_off r xs) q ys e)"
  by (induction r xs arbitrary: p rule: last_off.induct) auto

lemma last_off_append [simp]: "last_off r (xs @ ys) = last_off (last_off r xs) ys"
  by (induction r xs rule: last_off.induct) auto

lemma blocks_at_frame:
  "blocks_at b r p bs e \<Longrightarrow> sub_bytes b' p e = sub_bytes b p e \<Longrightarrow> blocks_at b' r p bs e"
proof (induction b r p bs e rule: blocks_at.induct)
  case (2 b r p q u n bs e)
  then have "n \<le> e" by (auto dest: blocks_at_le)
  moreover have "mem_at b' p = mem_at b p"
    using 2 calculation slice_sub [of b' p e b p "p + 12"] by (simp add: mem_at_def)
  moreover have "sub_bytes b' n e = sub_bytes b n e"
    using 2 slice_sub [of b' p e b n e] by simp
  ultimately show ?case using 2 by auto
qed simp

lemma live_frame:
  assumes "\<And>q n. (q, True, n) \<in> set bs \<Longrightarrow> sub_bytes b' (q + 12) n = sub_bytes b (q + 12) n"
  shows "live_blocks b' bs = live_blocks b bs"
  unfolding live_blocks_def by (intro arg_cong [of _ _ map_of] map_cong) (auto simp: assms)

lemma live_blocks_at_frame:
  assumes "blocks_at b r p bs e" "sub_bytes b' (p + 12) e = sub_bytes b (p + 12) e"
  shows "live_blocks b' bs = live_blocks b bs"
proof (rule live_frame)
  fix q n
  assume "(q, True, n) \<in> set bs"
  then have "p \<le> q" "n \<le> e" using blocks_at_range [OF assms(1)] by auto
  then show "sub_bytes b' (q + 12) n = sub_bytes b (q + 12) n"
    using slice_sub [OF assms(2), of "q + 12" n] by simp
qed

text \<open>A change of the first header's predecessor.\<close>

lemma blocks_at_reprev:
  assumes "blocks_at b r p bs e" "bs \<noteq> []" "e \<le> length b"
  shows "blocks_at (set_mem b p ((mem_at b p)\<lparr>prev_mem := of_nat r'\<rparr>)) r' p bs e"
proof (cases bs)
  case (Cons x xs)
  obtain q u n where x: "x = (q, u, n)" by (cases x)
  have p: "mem_at b p = block_mem u n r" "q = p" "p + 16 \<le> n" "4 dvd n" "blocks_at b p n xs e" "n \<le> e"
    using assms(1) blocks_at_le by (auto simp: Cons x)
  have "blocks_at (set_mem b p (block_mem u n r')) p n xs e"
    using p assms(3) by (intro blocks_at_frame [OF p(5)] slice_set_bytes_other) auto
  then show ?thesis using p assms(3) by (simp add: Cons x)
qed (use assms in simp)

lemma live_append: "live_blocks b (xs @ ys) = live_blocks b ys ++ live_blocks b xs"
  by (simp add: live_blocks_def)

lemma live_Cons:
  "live_blocks b ((p, u, n) # bs) = (if u then (live_blocks b bs)(p \<mapsto> sub_bytes b (p + 12) n) else live_blocks b bs)"
  by (simp add: live_blocks_def)

lemma live_Nil [simp]: "live_blocks b [] = Map.empty"
  by (simp add: live_blocks_def)

lemma live_dom: "live_blocks b bs p = Some c \<Longrightarrow> \<exists>n. (p, True, n) \<in> set bs \<and> c = sub_bytes b (p + 12) n"
  unfolding live_blocks_def by (drule map_of_SomeD) auto

lemma live_fresh: "(\<And>u n. (p, u, n) \<notin> set bs) \<Longrightarrow> live_blocks b bs p = None"
  using live_dom [of b bs p] by (cases "live_blocks b bs p") auto

lemma used_total_simps [simp]:
  "used_total [] = 0" "used_total (xs @ ys) = used_total xs + used_total ys"
  "used_total ((p, u, n) # bs) = (if u then n - p else 0) + used_total bs"
  by (simp_all add: used_total_def)

lemma used_total_le: "blocks_at b r p bs e \<Longrightarrow> used_total bs \<le> e - p"
  by (induction b r p bs e rule: blocks_at.induct) (auto dest: blocks_at_le)

section \<open>Changes of the list\<close>

lemma blocks_at_mid:
  "blocks_at b r0 p0 (xs @ (p, u, n) # ys) e \<longleftrightarrow>
     blocks_at b r0 p0 xs p \<and> mem_at b p = block_mem u n (last_off r0 xs) \<and> p + 16 \<le> n \<and> 4 dvd n \<and>
     blocks_at b p n ys e"
  by (auto simp: blocks_at_append)

text \<open>Writing inside one block and its header leaves the blocks before and after it.\<close>

lemma blocks_at_write:
  assumes b: "blocks_at b r0 p0 (xs @ (p, u, n) # ys) e" and len: "e \<le> length b" and wr: "p \<le> i" "i + length ws \<le> n"
  shows "blocks_at (set_bytes b i ws) r0 p0 xs p" "blocks_at (set_bytes b i ws) p n ys e"
    "live_blocks (set_bytes b i ws) xs = live_blocks b xs" "live_blocks (set_bytes b i ws) ys = live_blocks b ys"
proof -
  from b have parts: "blocks_at b r0 p0 xs p" "blocks_at b p n ys e" "p + 16 \<le> n" by (auto simp: blocks_at_mid)
  note le = blocks_at_le [OF parts(1)] blocks_at_le [OF parts(2)]
  have xs: "sub_bytes (set_bytes b i ws) k p = sub_bytes b k p" for k
    by (rule slice_set_bytes_other) (use wr le len parts(3) in auto)
  have ys: "sub_bytes (set_bytes b i ws) k e = sub_bytes b k e" if "n \<le> k" for k
    by (rule slice_set_bytes_other) (use wr le len that in auto)
  show "blocks_at (set_bytes b i ws) r0 p0 xs p" "live_blocks (set_bytes b i ws) xs = live_blocks b xs"
    by (rule blocks_at_frame [OF parts(1) xs], rule live_blocks_at_frame [OF parts(1) xs])
  show "blocks_at (set_bytes b i ws) p n ys e" "live_blocks (set_bytes b i ws) ys = live_blocks b ys"
    using ys by (auto intro: blocks_at_frame [OF parts(2)] live_blocks_at_frame [OF parts(2)])
qed

text \<open>A header whose predecessor field is rewritten, which may also be the end stub.\<close>

definition reprev :: "u8 list \<Rightarrow> nat \<Rightarrow> nat \<Rightarrow> u8 list" where
  "reprev b n q = set_mem b n ((mem_at b n)\<lparr>prev_mem := of_nat q\<rparr>)"

lemma reprev_frame:
  assumes "n + 12 \<le> length b"
  shows "length (reprev b n q) = length b"
    and "j \<le> length b \<Longrightarrow> j \<le> n \<or> n + 12 \<le> i \<Longrightarrow> sub_bytes (reprev b n q) i j = sub_bytes b i j"
    and "k + 12 \<le> length b \<Longrightarrow> k + 12 \<le> n \<or> n + 12 \<le> k \<Longrightarrow> mem_at (reprev b n q) k = mem_at b k"
    and "mem_at (reprev b n q) n = (mem_at b n)\<lparr>prev_mem := of_nat q\<rparr>"
  using assms by (auto simp: reprev_def slice_set_bytes_other mem_at_set_other)

lemma blocks_reprev:
  assumes ys: "blocks_at b r n ys e" and len: "e + 12 \<le> length b"
  shows "blocks_at (reprev b n q) q n ys e" "live_blocks (reprev b n q) ys = live_blocks b ys"
    "used (mem_at (reprev b n q) e) = used (mem_at b e)"
    "next_mem (mem_at (reprev b n q) e) = next_mem (mem_at b e)"
proof -
  note le = blocks_at_le [OF ys]
  have wide: "n + 12 \<le> e" if "n \<noteq> e" using blocks_at_end [OF ys] that by auto
  show "blocks_at (reprev b n q) q n ys e"
    using ys blocks_at_reprev [OF ys, of q] len by (cases "ys = []") (auto simp: reprev_def)
  show "live_blocks (reprev b n q) ys = live_blocks b ys"
    using le len by (intro live_blocks_at_frame [OF ys] reprev_frame) auto
  have "mem_at (reprev b n q) e = (if n = e then (mem_at b n)\<lparr>prev_mem := of_nat q\<rparr> else mem_at b e)"
    using le len wide reprev_frame [of n b] by auto
  then show "used (mem_at (reprev b n q) e) = used (mem_at b e)"
    "next_mem (mem_at (reprev b n q) e) = next_mem (mem_at b e)" by auto
qed

lemma blocks_flag:
  fixes v :: bool
  assumes b: "blocks_at b 0 0 (xs @ (p, u, n) # ys) e" and len: "e + 12 \<le> length b"
  defines "b' \<equiv> set_mem b p (block_mem v n (last_off 0 xs))"
  shows "blocks_at b' 0 0 (xs @ (p, v, n) # ys) e" "sub_bytes b' (p + 12) n = sub_bytes b (p + 12) n"
    "live_blocks b' xs = live_blocks b xs" "live_blocks b' ys = live_blocks b ys"
    "mem_at b' e = mem_at b e" "length b' = length b"
proof -
  have n: "p + 16 \<le> n" "n \<le> e" "4 dvd n" using b by (auto simp: blocks_at_mid dest: blocks_at_le)
  note w = blocks_at_write [OF b, of p "enc_mem (block_mem v n (last_off 0 xs))"]
  show "blocks_at b' 0 0 (xs @ (p, v, n) # ys) e" "live_blocks b' xs = live_blocks b xs"
    "live_blocks b' ys = live_blocks b ys"
    using w n len by (auto simp: b'_def blocks_at_mid)
  show "sub_bytes b' (p + 12) n = sub_bytes b (p + 12) n" "mem_at b' e = mem_at b e" "length b' = length b"
    using n len by (auto simp: b'_def slice_set_bytes_other mem_at_set_other)
qed

lemma blocks_split:
  fixes v :: bool
  assumes b: "blocks_at b 0 0 (xs @ (p, u, n) # ys) e" and len: "e + 12 \<le> length b"
    and q: "p + 16 \<le> q" "q + 16 \<le> n" "4 dvd q"
  defines "b2 \<equiv> set_mem (set_mem b q (block_mem False n p)) p (block_mem v q (last_off 0 xs))"
  defines "b' \<equiv> if n \<noteq> e then reprev b2 n q else b2"
  shows "blocks_at b' 0 0 (xs @ (p, v, q) # (q, False, n) # ys) e" "sub_bytes b' (p + 12) q = sub_bytes b (p + 12) q"
    "live_blocks b' xs = live_blocks b xs" "live_blocks b' ys = live_blocks b ys"
    "used (mem_at b' e) = used (mem_at b e)" "next_mem (mem_at b' e) = next_mem (mem_at b e)"
    "length b' = length b" "mem_at b2 q = block_mem False n p"
proof -
  let ?b1 = "set_mem b q (block_mem False n p)"
  have n: "n \<le> e" "4 dvd n" using b by (auto simp: blocks_at_mid dest: blocks_at_le)
  note w1 = blocks_at_write [OF b, of q "enc_mem (block_mem False n p)"]
  have "blocks_at ?b1 0 0 (xs @ (p, u, n) # ys) e"
    using w1 b n q len by (auto simp: blocks_at_mid mem_at_set_other)
  note w2 = blocks_at_write [OF this, of p "enc_mem (block_mem v q (last_off 0 xs))"]
  have l2: "length b2 = length b" using n q len by (simp add: b2_def)
  have ys2: "blocks_at b2 p n ys e" "live_blocks b2 ys = live_blocks b ys"
    and xs2: "blocks_at b2 0 0 xs p" "live_blocks b2 xs = live_blocks b xs"
    using w1 w2 n q len by (auto simp: b2_def)
  have h2: "mem_at b2 p = block_mem v q (last_off 0 xs)" and q2: "mem_at b2 q = block_mem False n p"
    and e2: "mem_at b2 e = mem_at b e" and s2: "sub_bytes b2 (p + 12) q = sub_bytes b (p + 12) q"
    using n q len by (auto simp: b2_def mem_at_set_other slice_set_bytes_other)
  show "mem_at b2 q = block_mem False n p" by (rule q2)
  have nil: "ys = []" if "n = e" using blocks_at_end [OF ys2(1)] that by auto
  have ys: "blocks_at b' q n ys e" "live_blocks b' ys = live_blocks b ys" "used (mem_at b' e) = used (mem_at b e)"
    "next_mem (mem_at b' e) = next_mem (mem_at b e)"
    using blocks_reprev [OF ys2(1), of q] len l2 ys2 e2 nil by (cases "n = e"; simp add: b'_def)+
  then show "live_blocks b' ys = live_blocks b ys" "used (mem_at b' e) = used (mem_at b e)"
    "next_mem (mem_at b' e) = next_mem (mem_at b e)" by auto
  show "length b' = length b" using l2 n len by (auto simp: b'_def reprev_frame)
  have keep: "sub_bytes b' i j = sub_bytes b2 i j" if "j \<le> n" for i j
    using that n len l2 by (auto simp: b'_def reprev_frame)
  have keep_mem: "mem_at b' k = mem_at b2 k" if "k + 12 \<le> n" for k
    using that keep by (simp add: mem_at_def)
  show "sub_bytes b' (p + 12) q = sub_bytes b (p + 12) q" using keep [of q] s2 q by simp
  show "live_blocks b' xs = live_blocks b xs"
    using live_blocks_at_frame [OF xs2(1), of b'] keep [of p] xs2(2) q by simp
  have "blocks_at b' 0 0 xs p" using blocks_at_frame [OF xs2(1), of b'] keep [of p] q by simp
  then show "blocks_at b' 0 0 (xs @ (p, v, q) # (q, False, n) # ys) e"
    using ys(1) h2 q2 keep_mem [of p] keep_mem [of q] n q by (simp add: blocks_at_mid)
qed

lemma blocks_merge:
  assumes b: "blocks_at b 0 0 (xs @ (p, u, n) # (n', v, m) # ys) e" and len: "e + 12 \<le> length b"
  defines "b' \<equiv> reprev (set_mem b p (block_mem u m (last_off 0 xs))) m p"
  shows "blocks_at b' 0 0 (xs @ (p, u, m) # ys) e"
    "live_blocks b' xs = live_blocks b xs" "live_blocks b' ys = live_blocks b ys"
    "used (mem_at b' e) = used (mem_at b e)" "next_mem (mem_at b' e) = next_mem (mem_at b e)"
    "length b' = length b"
proof -
  let ?b1 = "set_mem b p (block_mem u m (last_off 0 xs))"
  from b have parts: "blocks_at b n m ys e" "n' = n" "p + 16 \<le> n" "n + 16 \<le> m" "m \<le> e" "4 dvd m" 
    by (auto simp: blocks_at_mid dest: blocks_at_le)
  note w = blocks_at_write [OF b, of p "enc_mem (block_mem u m (last_off 0 xs))"]
  have l1: "length ?b1 = length b" using parts len by simp
  have xs1: "blocks_at ?b1 0 0 xs p" "live_blocks ?b1 xs = live_blocks b xs" 
    using w parts len by auto
  have sl: "sub_bytes ?b1 k e = sub_bytes b k e" if "m \<le> k" for k
    by (rule slice_set_bytes_other) (use parts len that in auto)
  have ys1: "blocks_at ?b1 n m ys e" "live_blocks ?b1 ys = live_blocks b ys" "mem_at ?b1 e = mem_at b e"
    using sl parts len by (auto intro!: blocks_at_frame [OF parts(1)] live_blocks_at_frame [OF parts(1)] mem_at_set_other)
  note r = blocks_reprev [OF ys1(1), of p]
  show "live_blocks b' ys = live_blocks b ys" "used (mem_at b' e) = used (mem_at b e)"
    "next_mem (mem_at b' e) = next_mem (mem_at b e)"
    using r l1 len ys1 by (auto simp: b'_def)
  show "length b' = length b" using l1 len parts by (simp add: b'_def reprev_frame)
  have keep: "sub_bytes b' i j = sub_bytes ?b1 i j" if "j \<le> m" for i j
    using that parts len l1 by (auto simp: b'_def intro!: reprev_frame)
  show "live_blocks b' xs = live_blocks b xs"
    using live_blocks_at_frame [OF xs1(1), of b'] keep [of p] xs1(2) parts by simp
  have "blocks_at b' 0 0 xs p" using blocks_at_frame [OF xs1(1), of b'] keep [of p] parts by simp
  moreover have "mem_at b' p = block_mem u m (last_off 0 xs)"
    using keep [of "p + 12" p] parts len mem_at_set_same [of p b "block_mem u m (last_off 0 xs)"] by (simp add: mem_at_def)
  ultimately show "blocks_at b' 0 0 (xs @ (p, u, m) # ys) e"
    using r(1) l1 len parts by (simp add: blocks_at_mid b'_def)
qed

section \<open>The heap and its blocks\<close>

abbreviation mem_addr :: "rt_heap \<Rightarrow> nat \<Rightarrow> u32" where
  "mem_addr h p \<equiv> heap_ptr h + of_nat p"

definition mem_off :: "rt_heap \<Rightarrow> u32 \<Rightarrow> nat" where
  "mem_off h a = unat (a - heap_ptr h)"

definition end_off :: "rt_heap \<Rightarrow> nat" where
  "end_off h = unat (mem_size_aligned h) + 12"

definition heap_rep :: "rt_heap \<Rightarrow> heap_block list \<Rightarrow> bool" where
  "heap_rep h bs \<longleftrightarrow>
     length (heap_bytes h) = end_off h + 12 \<and> unat (heap_ptr h) + end_off h + 12 < 2 ^ 32 \<and>
     4 dvd unat (heap_ptr h) \<and> 4 dvd end_off h \<and> 24 \<le> end_off h \<and> heap_end h = mem_addr h (end_off h) \<and>
     blocks_at (heap_bytes h) 0 0 bs (end_off h) \<and>
     used (mem_at (heap_bytes h) (end_off h)) = 1 \<and>
     next_mem (mem_at (heap_bytes h) (end_off h)) = of_nat (end_off h)"

text \<open>\<open>lfree\<close> is the end or a free block; \<open>lfree_low\<close>: no free block is below it.\<close>

definition lfree_in :: "rt_heap \<Rightarrow> heap_block list \<Rightarrow> bool" where
  "lfree_in h bs \<longleftrightarrow> lfree h = heap_end h \<or> (\<exists>p n. (p, False, n) \<in> set bs \<and> lfree h = mem_addr h p)"

definition lfree_low :: "rt_heap \<Rightarrow> heap_block list \<Rightarrow> bool" where
  "lfree_low h bs \<longleftrightarrow> (\<forall>p n. (p, False, n) \<in> set bs \<longrightarrow> mem_off h (lfree h) \<le> p)"

lemma u32_unat_of_nat: "p < 2 ^ 32 \<Longrightarrow> unat (of_nat p :: u32) = p"
  by (simp add: unat_of_nat)

lemma u32_of_nat_eq: "p < 2 ^ 32 \<Longrightarrow> q < 2 ^ 32 \<Longrightarrow> (of_nat p :: u32) = of_nat q \<longleftrightarrow> p = q"
  using u32_unat_of_nat by metis

lemma mem_off_addr: "p < 2 ^ 32 \<Longrightarrow> mem_off h (mem_addr h p) = p"
  by (simp add: mem_off_def u32_unat_of_nat)

lemma mem_addr_off: "mem_addr h (mem_off h a) = a"
  by (simp add: mem_off_def)

lemma unat_mem_addr: "unat (heap_ptr h) + p < 2 ^ 32 \<Longrightarrow> unat (mem_addr h p) = unat (heap_ptr h) + p"
  by (simp add: unat_word_ariths u32_unat_of_nat)

lemma mem_addr_less:
  "unat (heap_ptr h) + p < 2 ^ 32 \<Longrightarrow> unat (heap_ptr h) + q < 2 ^ 32 \<Longrightarrow> mem_addr h p < mem_addr h q \<longleftrightarrow> p < q"
  by (simp add: word_less_nat_alt unat_mem_addr)

lemma mem_addr_le:
  "unat (heap_ptr h) + p < 2 ^ 32 \<Longrightarrow> unat (heap_ptr h) + q < 2 ^ 32 \<Longrightarrow> mem_addr h p \<le> mem_addr h q \<longleftrightarrow> p \<le> q"
  by (simp add: word_le_nat_alt unat_mem_addr)

lemma get_mem_addr:
  "heap_ptr h = hp \<Longrightarrow> p + 12 \<le> length (heap_bytes h) \<Longrightarrow> length (heap_bytes h) < 2 ^ 32 \<Longrightarrow>
     get_mem h (hp + of_nat p) = Some (mem_at (heap_bytes h) p)"
  by (simp add: get_mem_def rd_n_def u32_unat_of_nat mem_at_def sub_bytes_def)

lemma put_mem_addr:
  "heap_ptr h = hp \<Longrightarrow> p + 12 \<le> length (heap_bytes h) \<Longrightarrow> length (heap_bytes h) < 2 ^ 32 \<Longrightarrow>
     put_mem h (hp + of_nat p) m = Some (h\<lparr>heap_bytes := set_mem (heap_bytes h) p m\<rparr>)"
  by (simp add: put_mem_def wr_n_def u32_unat_of_nat set_bytes_def)

lemma upd_mem_addr:
  "heap_ptr h = hp \<Longrightarrow> p + 12 \<le> length (heap_bytes h) \<Longrightarrow> length (heap_bytes h) < 2 ^ 32 \<Longrightarrow>
     upd_mem h (hp + of_nat p) f = Some (h\<lparr>heap_bytes := set_mem (heap_bytes h) p (f (mem_at (heap_bytes h) p))\<rparr>)"
  by (simp add: upd_mem_def get_mem_addr put_mem_addr)

lemmas mem_addr_ops = get_mem_addr put_mem_addr upd_mem_addr

lemma heap_rep_mid:
  assumes "heap_rep h (xs @ (p, u, n) # ys)"
  shows "p + 16 \<le> n" "n \<le> end_off h" "4 dvd p" "4 dvd n" "mem_at (heap_bytes h) p = block_mem u n (last_off 0 xs)"
    "length (heap_bytes h) = end_off h + 12" "end_off h + 12 < 2 ^ 32" "unat (heap_ptr h) + end_off h + 12 < 2 ^ 32"
    "blocks_at (heap_bytes h) 0 0 (xs @ (p, u, n) # ys) (end_off h)" "heap_end h = mem_addr h (end_off h)"
    "blocks_at (heap_bytes h) p n ys (end_off h)"
proof -
  have b: "blocks_at (heap_bytes h) 0 0 (xs @ (p, u, n) # ys) (end_off h)" using assms by (simp add: heap_rep_def)
  have "p + 16 \<le> n \<and> n \<le> end_off h \<and> 4 dvd n \<and> 4 dvd p" using blocks_at_range [OF b, of p u n] by simp
  then show "p + 16 \<le> n" "n \<le> end_off h" "4 dvd p" "4 dvd n" by simp_all
  show "mem_at (heap_bytes h) p = block_mem u n (last_off 0 xs)" "blocks_at (heap_bytes h) p n ys (end_off h)"
    "blocks_at (heap_bytes h) 0 0 (xs @ (p, u, n) # ys) (end_off h)"
    using b by (simp_all add: blocks_at_mid)
  show "length (heap_bytes h) = end_off h + 12" "end_off h + 12 < 2 ^ 32" "heap_end h = mem_addr h (end_off h)"
    "unat (heap_ptr h) + end_off h + 12 < 2 ^ 32"
    using assms by (simp_all add: heap_rep_def)
qed

lemma heap_repI:
  assumes "heap_rep h bs" "heap_ptr h' = heap_ptr h" "mem_size_aligned h' = mem_size_aligned h" "heap_end h' = heap_end h"
    "blocks_at (heap_bytes h') 0 0 bs' (end_off h)"
    "used (mem_at (heap_bytes h') (end_off h)) = used (mem_at (heap_bytes h) (end_off h))"
    "next_mem (mem_at (heap_bytes h') (end_off h)) = next_mem (mem_at (heap_bytes h) (end_off h))"
    "length (heap_bytes h') = length (heap_bytes h)"
  shows "heap_rep h' bs'"
  using assms by (simp add: heap_rep_def end_off_def)

end
