(* ===== verification/Rt_Heap_Ops.thy ===== *)
theory Rt_Heap_Ops
  imports Rt_Heap
begin

text \<open>What the operations of the kernel allocator do to the list of blocks.\<close>

section \<open>Joining free blocks\<close>

text \<open>Two heaps with the same blocks in use, that differ in bytes and \<open>lfree\<close> only.\<close>

definition same_stats :: "rt_heap \<Rightarrow> rt_heap \<Rightarrow> bool" where
  "same_stats h h' \<longleftrightarrow> heap_ptr h' = heap_ptr h \<and> heap_end h' = heap_end h \<and> heap_sem h' = heap_sem h \<and>
     mem_size_aligned h' = mem_size_aligned h \<and> used_mem h' = used_mem h \<and> max_mem h' = max_mem h"

definition heap_step :: "rt_heap \<Rightarrow> heap_block list \<Rightarrow> rt_heap \<Rightarrow> heap_block list \<Rightarrow> bool" where
  "heap_step h bs h' bs' \<longleftrightarrow>
     heap_rep h' bs' \<and> live_blocks (heap_bytes h') bs' = live_blocks (heap_bytes h) bs \<and>
     used_total bs' = used_total bs \<and> (lfree_in h bs \<longrightarrow> lfree_in h' bs') \<and> (lfree_low h bs \<longrightarrow> lfree_low h' bs') \<and>
     same_stats h h'"

lemma heap_step_refl: "heap_rep h bs \<Longrightarrow> heap_step h bs h bs"
  by (simp add: heap_step_def same_stats_def)

lemma heap_step_trans: "heap_step h bs h' bs' \<Longrightarrow> heap_step h' bs' h'' bs'' \<Longrightarrow> heap_step h bs h'' bs''"
  by (simp add: heap_step_def same_stats_def)

lemma merge_step:
  assumes rep: "heap_rep h (xs @ (p, False, n) # (n', False, m) # ys)"
    and h': "h' = h\<lparr>lfree := if lfree h = mem_addr h n then mem_addr h p else lfree h,
      heap_bytes := reprev (set_mem (heap_bytes h) p (block_mem False m (last_off 0 xs))) m p\<rparr>"
  shows "heap_step h (xs @ (p, False, n) # (n', False, m) # ys) h' (xs @ (p, False, m) # ys)"
proof -
  note mid = heap_rep_mid [OF rep]
  have b: "blocks_at (heap_bytes h) 0 0 (xs @ (p, False, n) # (n', False, m) # ys) (end_off h)" by (rule mid(9))
  then have n': "n' = n" by (simp add: blocks_at_mid)
  note mg = blocks_merge [OF b]
  have len: "end_off h + 12 \<le> length (heap_bytes h)" using mid(6) by simp
  have "heap_rep h' (xs @ (p, False, m) # ys)"
    by (rule heap_repI [OF rep]) (use mg [OF len] in \<open>simp_all add: h'\<close>)
  moreover have "live_blocks (heap_bytes h') (xs @ (p, False, m) # ys) =
      live_blocks (heap_bytes h) (xs @ (p, False, n) # (n', False, m) # ys)"
    using mg(2,3) [OF len] by (simp add: h' live_append live_Cons)
  moreover have "lfree_in h' (xs @ (p, False, m) # ys)" if "lfree_in h (xs @ (p, False, n) # (n', False, m) # ys)"
    using that mid(10) by (auto simp: lfree_in_def h' n')
  moreover have "lfree_low h' (xs @ (p, False, m) # ys)" if low: "lfree_low h (xs @ (p, False, n) # (n', False, m) # ys)"
  proof -
    have "mem_off h (lfree h) \<le> p" "n < 2 ^ 32" "p < n" using low mid by (auto simp: lfree_low_def)
    then have "lfree h \<noteq> mem_addr h n" using mem_off_addr [of n h] by auto
    then show ?thesis using low by (auto simp: lfree_low_def h' mem_off_def)
  qed
  ultimately show ?thesis by (simp add: heap_step_def same_stats_def h')
qed

lemma plug_forward_join:
  assumes rep: "heap_rep h (xs @ (p, False, n) # (n', False, m) # ys)"
  shows "\<exists>h'. plug_forward h (mem_addr h p) = Some h' \<and>
    heap_step h (xs @ (p, False, n) # (n', False, m) # ys) h' (xs @ (p, False, m) # ys)"
proof (intro exI conjI)
  note mid = heap_rep_mid [OF rep]
  have "heap_rep h ((xs @ [(p, False, n)]) @ (n', False, m) # ys)" using rep by simp
  note mid' = heap_rep_mid [OF this]
  have n': "n' = n" using mid(9) by (simp add: blocks_at_mid)
  have ne: "mem_addr h p \<noteq> mem_addr h n" "mem_addr h n \<noteq> mem_addr h (end_off h)"
    using mid mid' n' by (simp_all add: u32_of_nat_eq)
  have hn: "mem_at (heap_bytes h) n = block_mem False m p" using mid'(5) n' by simp
  define h' where "h' = h\<lparr>lfree := if lfree h = mem_addr h n then mem_addr h p else lfree h,
      heap_bytes := reprev (set_mem (heap_bytes h) p (block_mem False m (last_off 0 xs))) m p\<rparr>"
  let ?b1 = "set_mem (heap_bytes h) p (block_mem False m (last_off 0 xs))"
  have l1: "length ?b1 = length (heap_bytes h)" using mid by simp
  have hn1: "mem_at ?b1 n = block_mem False m p" using mid mid' n' hn by (simp add: mem_at_set_other)
  show "plug_forward h (mem_addr h p) = Some h'"
    using mid mid' ne hn hn1 l1 n'
    by (cases "lfree h = mem_addr h n") (simp_all add: plug_forward_def h'_def mem_addr_ops Let_def reprev_def)
  show "heap_step h (xs @ (p, False, n) # (n', False, m) # ys) h' (xs @ (p, False, m) # ys)"
    by (rule merge_step [OF rep h'_def])
qed

text \<open>The last block before an offset, and the first from an offset on.\<close>

abbreviation ends_used :: "heap_block list \<Rightarrow> bool" where
  "ends_used xs \<equiv> (\<forall>zs r p. xs \<noteq> zs @ [(r, False, p)])"

abbreviation starts_used :: "heap_block list \<Rightarrow> bool" where
  "starts_used ys \<equiv> (\<forall>n m zs. ys \<noteq> (n, False, m) # zs)"

lemma plug_forward_stay:
  assumes rep: "heap_rep h (xs @ (p, False, n) # ys)" and ys: "starts_used ys"
  shows "plug_forward h (mem_addr h p) = Some h"
proof -
  note mid = heap_rep_mid [OF rep]
  have "used (mem_at (heap_bytes h) n) \<noteq> 0"
  proof (cases ys)
    case Nil
    then show ?thesis using mid(9) rep by (simp add: blocks_at_mid heap_rep_def)
  next
    case (Cons y zs)
    obtain q v m where y: "y = (q, v, m)" by (cases y)
    have "heap_rep h ((xs @ [(p, False, n)]) @ (q, v, m) # zs)" using rep by (simp add: Cons y)
    note mid' = heap_rep_mid [OF this]
    have "q = n" using mid(9) by (simp add: blocks_at_mid Cons y)
    then show ?thesis using mid'(5) ys by (simp add: Cons y)
  qed
  then show ?thesis using mid by (simp add: plug_forward_def mem_addr_ops Let_def)
qed

lemma last_off_mem: "blocks_at b 0 0 xs p \<Longrightarrow> xs \<noteq> [] \<Longrightarrow> \<exists>zs r v. xs = zs @ [(r, v, p)] \<and> last_off 0 xs = r"
  by (cases xs rule: rev_cases) (auto simp: blocks_at_append)

lemma plug_backward_join:
  assumes rep: "heap_rep h (xs @ (r, False, p) # (p', False, n) # ys)"
  shows "\<exists>h'. plug_backward h (mem_addr h p) = Some h' \<and>
    heap_step h (xs @ (r, False, p) # (p', False, n) # ys) h' (xs @ (r, False, n) # ys)"
proof (intro exI conjI)
  note mid = heap_rep_mid [OF rep]
  have "heap_rep h ((xs @ [(r, False, p)]) @ (p', False, n) # ys)" using rep by simp
  note mid' = heap_rep_mid [OF this]
  have p': "p' = p" using mid(9) by (simp add: blocks_at_mid)
  have ne: "mem_addr h r \<noteq> mem_addr h p" using mid mid' p' by (simp add: u32_of_nat_eq)
  have hp: "mem_at (heap_bytes h) p = block_mem False n r" using mid'(5) p' by simp
  define h' where "h' = h\<lparr>lfree := if lfree h = mem_addr h p then mem_addr h r else lfree h,
      heap_bytes := reprev (set_mem (heap_bytes h) r (block_mem False n (last_off 0 xs))) n r\<rparr>"
  let ?b1 = "set_mem (heap_bytes h) r (block_mem False n (last_off 0 xs))"
  have l1: "length ?b1 = length (heap_bytes h)" using mid by simp
  have hp1: "mem_at ?b1 p = block_mem False n r" using mid mid' p' hp by (simp add: mem_at_set_other)
  show "plug_backward h (mem_addr h p) = Some h'"
    using mid mid' ne hp hp1 l1 p'
    by (cases "lfree h = mem_addr h p") (simp_all add: plug_backward_def h'_def mem_addr_ops Let_def reprev_def)
  show "heap_step h (xs @ (r, False, p) # (p', False, n) # ys) h' (xs @ (r, False, n) # ys)"
    by (rule merge_step [OF rep h'_def])
qed

lemma plug_backward_stay:
  assumes rep: "heap_rep h (xs @ (p, False, n) # ys)" and xs: "ends_used xs"
  shows "plug_backward h (mem_addr h p) = Some h"
proof (cases "xs = []")
  case True
  then have "p = 0" using heap_rep_mid(9) [OF rep] by (simp add: blocks_at_mid)
  then show ?thesis using heap_rep_mid [OF rep] True get_mem_addr [of h "heap_ptr h" 0]
    by (simp add: plug_backward_def)
next
  case False
  note mid = heap_rep_mid [OF rep]
  have "blocks_at (heap_bytes h) 0 0 xs p" using mid(9) by (simp add: blocks_at_mid)
  then obtain zs r v where z: "xs = zs @ [(r, v, p)]" "last_off 0 xs = r" using False last_off_mem by blast
  then have "heap_rep h (zs @ (r, v, p) # (p, False, n) # ys)" using rep by simp
  note mid' = heap_rep_mid [OF this]
  have "v" using xs z by auto
  then have "mem_at (heap_bytes h) r = block_mem True p (last_off 0 zs)" using mid'(5) by simp
  then show ?thesis using mid mid' z by (simp add: plug_backward_def mem_addr_ops Let_def)
qed

lemma no_holes_append:
  "no_holes (xs @ (p, u, n) # ys) \<longleftrightarrow>
     no_holes xs \<and> no_holes ys \<and> (u \<or> ends_used xs \<and> starts_used ys)"
  unfolding no_holes_def successively_append_iff successively_Cons
  by (cases xs rule: rev_cases; cases ys; auto)

lemma plug_holes_ok:
  assumes rep: "heap_rep h (xs @ (p, False, n) # ys)" and nh: "no_holes xs" "no_holes ys"
  shows "\<exists>h' bs'. plug_holes h (mem_addr h p) = Some h' \<and> heap_step h (xs @ (p, False, n) # ys) h' bs' \<and> no_holes bs'"
proof -
  note mid = heap_rep_mid [OF rep]
  have fwd: "\<exists>h1 n1 ys1. plug_forward h (mem_addr h p) = Some h1 \<and>
      heap_step h (xs @ (p, False, n) # ys) h1 (xs @ (p, False, n1) # ys1) \<and> no_holes ys1 \<and> starts_used ys1"
  proof (cases "starts_used ys")
    case True
    then show ?thesis using plug_forward_stay [OF rep] heap_step_refl [OF rep] nh(2) by blast
  next
    case False
    then obtain q m zs where ys: "ys = (q, False, m) # zs" by blast
    then show ?thesis using plug_forward_join [of h xs p n q m zs] rep nh(2) no_holes_append [of "[]" q False m zs]
      by auto
  qed
  then obtain h1 n1 ys1 where h1: "plug_forward h (mem_addr h p) = Some h1"
    "heap_step h (xs @ (p, False, n) # ys) h1 (xs @ (p, False, n1) # ys1)" "no_holes ys1" "starts_used ys1" by blast
  have rep1: "heap_rep h1 (xs @ (p, False, n1) # ys1)" and hp: "heap_ptr h1 = heap_ptr h"
    using h1(2) by (auto simp: heap_step_def same_stats_def)
  have "\<exists>h2 bs2. plug_backward h1 (mem_addr h1 p) = Some h2 \<and>
      heap_step h1 (xs @ (p, False, n1) # ys1) h2 bs2 \<and> no_holes bs2"
  proof (cases "ends_used xs")
    case True
    then show ?thesis
      using plug_backward_stay [OF rep1] heap_step_refl [OF rep1] no_holes_append [of xs p False n1 ys1] nh(1) h1(3,4) by blast
  next
    case False
    then obtain zs r q where xs: "xs = zs @ [(r, False, q)]" by blast
    then have q: "q = p" using heap_rep_mid(9) [OF rep1] by (simp add: blocks_at_append)
    have "no_holes (zs @ (r, False, n1) # ys1)"
      using nh(1) h1(3,4) no_holes_append [of zs r False q "[]"] no_holes_append [of zs r False n1 ys1] by (simp add: xs)
    then show ?thesis using plug_backward_join [of h1 zs r p p n1 ys1] rep1 by (auto simp: xs q)
  qed
  then obtain h2 bs2 where h2: "plug_backward h1 (mem_addr h1 p) = Some h2"
    "heap_step h1 (xs @ (p, False, n1) # ys1) h2 bs2" "no_holes bs2" by blast
  have "plug_holes h (mem_addr h p) = Some h2"
    using mid h1(1) h2(1) hp mem_addr_le [of h 0 p] mem_addr_less [of h p "end_off h"]
    by (simp add: plug_holes_def rt_assert_def mem_addr_ops)
  then show ?thesis using heap_step_trans [OF h1(2) h2(2)] h2(3) by blast
qed

section \<open>Alignment\<close>

lemma and_3: "(w :: u32) AND 3 = w mod 4"
proof -
  have "(3 :: u32) = mask 2" by (simp add: mask_eq_decr_exp)
  then show ?thesis by (metis take_bit_eq_mask take_bit_eq_mod power2_eq_square mult_2_right numeral_Bit0_eq_double)
qed

lemma unat_and_not_3: "unat ((w :: u32) AND NOT 3) = unat w div 4 * 4"
proof -
  have "(w AND NOT 3) + (w AND 3) = (w AND NOT 3) OR (w AND 3)"
    by (rule disjunctive_add) (auto simp: bit_simps)
  also have "\<dots> = w" by (rule bit_word_eqI) (auto simp: bit_simps)
  finally have "w AND NOT 3 = w - w mod 4" by (simp add: and_3 eq_diff_eq)
  moreover have "unat (w - w mod 4) = unat w - unat w mod 4"
    by (subst unat_sub) (simp_all add: word_le_nat_alt unat_mod)
  ultimately show ?thesis by (simp add: minus_mod_eq_div_mult)
qed

lemma unat_align_up4:
  "unat (align_up4 n) = (if unat n + 3 < 2 ^ 32 then (unat n + 3) div 4 * 4 else 0)"
proof -
  have "align_up4 n = (n + 3) AND NOT 3" by (simp add: align_up4_def add.commute)
  then have "unat (align_up4 n) = unat (n + 3) div 4 * 4" by (simp only: unat_and_not_3)
  moreover have "unat (n + 3) = (unat n + 3) mod 2 ^ 32" by (simp add: unat_word_ariths)
  moreover have lt: "unat n < 2 ^ 32" using unsigned_less [of n] by simp
  have "(unat n + 3) mod 2 ^ 32 < 4" if "\<not> unat n + 3 < 2 ^ 32"
    using that lt le_mod_geq [of "2 ^ 32" "unat n + 3"] by simp
  ultimately show ?thesis by auto
qed

lemma aligned_word: "4 dvd unat (w :: u32) \<Longrightarrow> w AND 3 = 0" "4 dvd unat (w :: u32) \<Longrightarrow> w mod 4 = 0"
  by (simp_all add: and_3 word_unat_eq_iff unat_mod dvd_eq_mod_eq_0)

section \<open>The search\<close>

text \<open>
  A free block of at least \<open>s\<close> bytes, which starts below the bound of the search: a block whose \<open>s\<close> bytes
  would end at the very end of the heap is passed over.
\<close>

definition fits :: "rt_heap \<Rightarrow> nat \<Rightarrow> heap_block \<Rightarrow> bool" where
  "fits h s = (\<lambda>(p, u, n). \<not> u \<and> p + 12 + s \<le> n \<and> p + s < unat (mem_size_aligned h))"

lemma fits_iff [simp]: "fits h s (p, u, n) \<longleftrightarrow> \<not> u \<and> p + 12 + s \<le> n \<and> p + s < unat (mem_size_aligned h)"
  by (simp add: fits_def)

definition first_free :: "nat \<Rightarrow> heap_block list \<Rightarrow> nat" where
  "first_free e bs = (case List.find (\<lambda>(p, u, n). \<not> u) bs of Some (p, u, n) \<Rightarrow> p | None \<Rightarrow> e)"

lemma u32_diff_of_nat: "q \<le> p \<Longrightarrow> (of_nat p :: u32) - of_nat q = of_nat (p - q)"
  by (simp add: of_nat_diff)

lemma block_room:
  assumes "p + 12 \<le> n" "n < 2 ^ 32"
  shows "(of_nat n :: u32) - (of_nat p + 12) = of_nat (n - (p + 12))" "unat ((of_nat n :: u32) - (of_nat p + 12)) = n - (p + 12)"
proof -
  show eq: "(of_nat n :: u32) - (of_nat p + 12) = of_nat (n - (p + 12))"
    using u32_diff_of_nat [of "p + 12" n] assms by simp
  show "unat ((of_nat n :: u32) - (of_nat p + 12)) = n - (p + 12)"
    unfolding eq by (rule u32_unat_of_nat) (use assms in simp)
qed

lemma search_bound:
  "sz \<le> mem_size_aligned h \<Longrightarrow> p < 2 ^ 32 \<Longrightarrow>
     of_nat p < mem_size_aligned h - sz \<longleftrightarrow> p + unat sz < unat (mem_size_aligned h)"
  by (auto simp: word_less_nat_alt unat_sub word_le_nat_alt u32_unat_of_nat)

lemma malloc_find_ok:
  assumes sz: "sz \<le> mem_size_aligned h" and len: "length (heap_bytes h) = end_off h + 12" "end_off h + 12 < 2 ^ 32"
  shows "blocks_at (heap_bytes h) r p bs (end_off h) \<Longrightarrow>
    malloc_find h sz (of_nat p) = Some (map_option (\<lambda>x. of_nat (fst x)) (List.find (fits h (unat sz)) bs))"
proof (induction bs arbitrary: r p)
  case Nil
  then show ?case using search_bound [OF sz, of p] len by (subst malloc_find.simps) (simp add: end_off_def)
next
  case (Cons x bs)
  obtain q u n where x: "x = (q, u, n)" by (cases x)
  have b: "q = p" "mem_at (heap_bytes h) p = block_mem u n r" "p + 16 \<le> n" "blocks_at (heap_bytes h) p n bs (end_off h)"
    "n \<le> end_off h"
    using Cons.prems blocks_at_le by (auto simp: x)
  note room = block_room [of p n]
  have get: "get_mem h (mem_addr h p) = Some (block_mem u n r)" using b len get_mem_addr [of h "heap_ptr h" p] by simp
  show ?case
  proof (cases "p + unat sz < unat (mem_size_aligned h)")
    case True
    have "sz \<le> of_nat n - (of_nat p + 12) \<longleftrightarrow> p + 12 + unat sz \<le> n"
      using b len room by (auto simp: word_le_nat_alt)
    then show ?thesis
      using True search_bound [OF sz, of p] b len get Cons.IH [OF b(4)]
      by (subst malloc_find.simps) (auto simp: x fits_iff)
  next
    case False
    have "\<not> fits h (unat sz) y" if "y \<in> set (x # bs)" for y
      using False that blocks_at_range [OF Cons.prems] by (cases y) fastforce
    then have "List.find (fits h (unat sz)) (x # bs) = None" unfolding find_None_iff by blast
    then show ?thesis using False search_bound [OF sz, of p] b len by (subst malloc_find.simps) simp
  qed
qed

lemma lfree_scan_ok:
  assumes len: "length (heap_bytes h) = end_off h + 12" "end_off h + 12 < 2 ^ 32"
    and e: "heap_end h = mem_addr h (end_off h)"
  shows "blocks_at (heap_bytes h) r p bs (end_off h) \<Longrightarrow>
    lfree_scan h (mem_addr h p) = Some (mem_addr h (first_free (end_off h) bs))"
proof (induction bs arbitrary: r p)
  case Nil
  then show ?case using len e get_mem_addr [of h "heap_ptr h" p] by (subst lfree_scan.simps) (simp add: first_free_def)
next
  case (Cons x bs)
  obtain q u n where x: "x = (q, u, n)" by (cases x)
  have b: "q = p" "mem_at (heap_bytes h) p = block_mem u n r" "p + 16 \<le> n" "blocks_at (heap_bytes h) p n bs (end_off h)"
    "n \<le> end_off h"
    using Cons.prems blocks_at_le by (auto simp: x)
  have "mem_addr h p \<noteq> heap_end h" using b e len by (simp add: u32_of_nat_eq)
  then show ?case using b len Cons.IH [OF b(4)] get_mem_addr [of h "heap_ptr h" p]
    by (subst lfree_scan.simps) (simp add: x first_free_def)
qed

lemma first_free_mem:
  "first_free e bs = e \<or> (\<exists>n. (first_free e bs, False, n) \<in> set bs)"
  by (auto simp: first_free_def find_Some_iff split: option.splits) (metis nth_mem)

lemma first_free_le:
  "blocks_at b r p bs e \<Longrightarrow> (q, False, n) \<in> set bs \<Longrightarrow> first_free e bs \<le> q"
proof (induction b r p bs e rule: blocks_at.induct)
  case (2 b r p q' u m bs e)
  then show ?case using blocks_at_range [of b p m bs e q False n] by (cases u) (auto simp: first_free_def)
qed simp

section \<open>Splitting and taking a block\<close>

lemma heap_rep_upd [simp]:
  "heap_rep (h\<lparr>lfree := l\<rparr>) bs = heap_rep h bs" "heap_rep (h\<lparr>heap_sem := k\<rparr>) bs = heap_rep h bs"
  "heap_rep (h\<lparr>used_mem := w\<rparr>) bs = heap_rep h bs" "heap_rep (h\<lparr>max_mem := w\<rparr>) bs = heap_rep h bs"
  "heap_rep (count_used w h) bs = heap_rep h bs" "heap_rep (heap_release h) bs = heap_rep h bs"
  by (simp_all add: heap_rep_def end_off_def count_used_def heap_release_def Let_def)

lemma count_used_sel [simp]:
  "heap_ptr (count_used w h) = heap_ptr h" "heap_bytes (count_used w h) = heap_bytes h"
  "heap_end (count_used w h) = heap_end h" "lfree (count_used w h) = lfree h"
  "heap_sem (count_used w h) = heap_sem h" "mem_size_aligned (count_used w h) = mem_size_aligned h"
  "used_mem (count_used w h) = used_mem h + w"
  by (simp_all add: count_used_def Let_def)

lemma count_used_max: "used_mem (count_used w h) \<le> max_mem (count_used w h)"
  by (auto simp: count_used_def Let_def)

lemma heap_release_sel [simp]:
  "heap_ptr (heap_release h) = heap_ptr h" "heap_bytes (heap_release h) = heap_bytes h"
  "heap_end (heap_release h) = heap_end h" "lfree (heap_release h) = lfree h"
  "heap_sem (heap_release h) = heap_sem h + 1" "mem_size_aligned (heap_release h) = mem_size_aligned h"
  "used_mem (heap_release h) = used_mem h" "max_mem (heap_release h) = max_mem h"
  by (simp_all add: heap_release_def)

lemma end_off_upd [simp]:
  "end_off (h\<lparr>heap_bytes := b\<rparr>) = end_off h" "end_off (h\<lparr>heap_end := x\<rparr>) = end_off h" "end_off (h\<lparr>lfree := l\<rparr>) = end_off h"
  "end_off (h\<lparr>heap_sem := k\<rparr>) = end_off h" "end_off (h\<lparr>used_mem := w\<rparr>) = end_off h"
  "end_off (count_used w h) = end_off h" "end_off (heap_release h) = end_off h"
  by (simp_all add: end_off_def)

lemma split_mem_ok:
  assumes rep: "heap_rep h (xs @ (p, u, n) # ys)" and q: "p + 16 \<le> q" "q + 16 \<le> n" "4 dvd q"
    and f: "\<And>r. f (block_mem u q r) = block_mem v q r"
  shows "\<exists>b. split_mem h (of_nat p) (of_nat q) f = Some (h\<lparr>heap_bytes := b\<rparr>) \<and>
    heap_rep (h\<lparr>heap_bytes := b\<rparr>) (xs @ (p, v, q) # (q, False, n) # ys) \<and>
    sub_bytes b (p + 12) q = sub_bytes (heap_bytes h) (p + 12) q \<and>
    live_blocks b xs = live_blocks (heap_bytes h) xs \<and> live_blocks b ys = live_blocks (heap_bytes h) ys"
proof -
  note mid = heap_rep_mid [OF rep]
  let ?b = "heap_bytes h"
  define b1 where "b1 = set_mem ?b q (block_mem False n p)"
  define b2 where "b2 = set_mem b1 p (block_mem v q (last_off 0 xs))"
  define b3 where "b3 = (if n \<noteq> end_off h then reprev b2 n q else b2)"
  have len: "end_off h + 12 \<le> length ?b" using mid(6) by simp
  note sp = blocks_split [OF mid(9) len q, of v, folded b1_def, folded b2_def, folded b3_def]
  have l: "length b1 = length ?b" "length b2 = length ?b" using mid q by (simp_all add: b1_def b2_def)
  have p1: "mem_at b1 p = block_mem u n (last_off 0 xs)" using mid q by (simp add: b1_def mem_at_set_other)
  have me: "mem_size_aligned h + 12 = of_nat (end_off h)" by (simp add: end_off_def)
  have lit: "\<lparr>magic = HEAP_MAGIC, used = 0, next_mem = of_nat n, prev_mem = of_nat p\<rparr> = block_mem False n p" for n p
    by (simp add: block_mem_def)
  have "split_mem h (of_nat p) (of_nat q) f = Some (h\<lparr>heap_bytes := b3\<rparr>)"
    using mid q l p1 sp(8) b1_def [symmetric] b2_def [symmetric]
    by (cases "n = end_off h") (simp_all add: split_mem_def mem_addr_ops lit f b3_def reprev_def me u32_of_nat_eq)
  moreover have "heap_rep (h\<lparr>heap_bytes := b3\<rparr>) (xs @ (p, v, q) # (q, False, n) # ys)"
    by (rule heap_repI [OF rep]) (use sp in simp_all)
  ultimately show ?thesis using sp by blast
qed

text \<open>The block that \<open>rt_malloc\<close> found becomes used, as a whole or after a split.\<close>

lemma claim_block_ok:
  assumes rep: "heap_rep h (xs @ (p, False, n) # ys)" and sz: "p + 12 + unat sz \<le> n" "4 dvd unat sz" "12 \<le> unat sz"
  shows "\<exists>b n' zs. claim_block h sz (of_nat p) = Some (count_used (of_nat (n' - p)) (h\<lparr>heap_bytes := b\<rparr>)) \<and>
    heap_rep (h\<lparr>heap_bytes := b\<rparr>) (xs @ (p, True, n') # zs) \<and> p + 12 + unat sz \<le> n' \<and>
    sub_bytes b (p + 12) n' = sub_bytes (heap_bytes h) (p + 12) n' \<and> live_blocks b xs = live_blocks (heap_bytes h) xs \<and>
    live_blocks b zs = live_blocks (heap_bytes h) ys \<and> (n' = n \<and> zs = ys \<or> zs = (n', False, n) # ys) \<and> n' < p + 36 + unat sz"
proof -
  note mid = heap_rep_mid [OF rep]
  let ?q = "p + 12 + unat sz"
  have get: "get_mem h (mem_addr h p) = Some (block_mem False n (last_off 0 xs))" using mid by (simp add: mem_addr_ops)
  have "unat (sz + 12 + 12) = unat sz + 24"
    using sz mid u32_unat_of_nat [of "unat sz + 24"] by (simp add: add.commute)
  then have room: "of_nat n - (of_nat p + 12) \<ge> sz + 12 + 12 \<longleftrightarrow> unat sz + 24 \<le> n - (p + 12)"
    using block_room [of p n] mid by (simp add: word_le_nat_alt)
  show ?thesis
  proof (cases "unat sz + 24 \<le> n - (p + 12)")
    case True
    have q: "of_nat p + 12 + sz = (of_nat ?q :: u32)" "sz + 12 = (of_nat (?q - p) :: u32)" by simp_all
    have "?q + 16 \<le> n" "p + 16 \<le> ?q" "4 dvd ?q" using True sz mid by simp_all
    then obtain b where "split_mem h (of_nat p) (of_nat ?q) (\<lambda>m. m\<lparr>used := 1\<rparr>) = Some (h\<lparr>heap_bytes := b\<rparr>)"
      "heap_rep (h\<lparr>heap_bytes := b\<rparr>) (xs @ (p, True, ?q) # (?q, False, n) # ys)"
      "sub_bytes b (p + 12) ?q = sub_bytes (heap_bytes h) (p + 12) ?q"
      "live_blocks b xs = live_blocks (heap_bytes h) xs" "live_blocks b ys = live_blocks (heap_bytes h) ys"
      using split_mem_ok [OF rep, of ?q "\<lambda>m. m\<lparr>used := 1\<rparr>" True] by auto
    note b = this
    have "claim_block h sz (of_nat p) = Some (count_used (of_nat (?q - p)) (h\<lparr>heap_bytes := b\<rparr>))"
      using True room get b(1) unfolding claim_block_def q(1) [symmetric] q(2) [symmetric] by simp
    then show ?thesis using b
      by (intro exI [of _ b] exI [of _ ?q] exI [of _ "(?q, False, n) # ys"]) (simp add: live_Cons)
  next
    case False
    let ?b = "set_mem (heap_bytes h) p (block_mem True n (last_off 0 xs))"
    have len: "end_off h + 12 \<le> length (heap_bytes h)" using mid by simp
    note fl = blocks_flag [OF mid(9) len, of True]
    have "heap_rep (h\<lparr>heap_bytes := ?b\<rparr>) (xs @ (p, True, n) # ys)"
      by (rule heap_repI [OF rep]) (use fl in simp_all)
    moreover have "upd_mem h (mem_addr h p) (\<lambda>m. m\<lparr>used := 1\<rparr>) = Some (h\<lparr>heap_bytes := ?b\<rparr>)"
      using mid by (simp add: mem_addr_ops)
    moreover have "(of_nat n :: u32) - (mem_addr h p - heap_ptr h) = of_nat (n - p)"
      by (subst add_diff_cancel_left', rule u32_diff_of_nat) (use mid in simp)
    ultimately show ?thesis using False room get sz fl
      by (intro exI [of _ ?b] exI [of _ n] exI [of _ ys]) (simp add: claim_block_def)
  qed
qed

section \<open>The invariant\<close>

definition heap_wf :: "rt_heap \<Rightarrow> heap_block list \<Rightarrow> bool" where
  "heap_wf h bs \<longleftrightarrow> heap_rep h bs \<and> no_holes bs \<and> lfree_in h bs \<and> heap_sem h = 1 \<and>
     unat (used_mem h) = used_total bs \<and> used_mem h \<le> max_mem h"

definition same_area :: "rt_heap \<Rightarrow> rt_heap \<Rightarrow> bool" where
  "same_area h h' \<longleftrightarrow> heap_ptr h' = heap_ptr h \<and> mem_size_aligned h' = mem_size_aligned h"

lemma used_total_bound: "heap_rep h bs \<Longrightarrow> used_total bs \<le> end_off h"
  using used_total_le [of "heap_bytes h" 0 0 bs "end_off h"] by (simp add: heap_rep_def)

lemma block_below:
  assumes "heap_rep h (xs @ (p, u, n) # ys)" "(q, v, m) \<in> set xs"
  shows "m \<le> p"
  using assms blocks_at_range [of "heap_bytes h" 0 0 xs p q v m] by (auto simp: heap_rep_def blocks_at_mid)

lemma heap_rep_block:
  assumes "heap_rep h bs" "(q, u, n) \<in> set bs"
  shows "\<exists>m. get_mem h (mem_addr h q) = Some m \<and> used m = of_bool u"
proof -
  obtain xs ys where "bs = xs @ (q, u, n) # ys" using assms(2) by (meson split_list)
  then show ?thesis using assms(1) heap_rep_mid [of h xs q u n ys] by (simp add: mem_addr_ops)
qed

lemma heap_rep_end: "heap_rep h bs \<Longrightarrow> \<exists>m. get_mem h (heap_end h) = Some m"
  by (simp add: heap_rep_def mem_addr_ops)

lemma live_mid:
  assumes "\<And>q v m. (q, v, m) \<in> set xs \<Longrightarrow> q < p"
  shows "live_blocks b (xs @ (p, True, n) # ys) = (live_blocks b ys ++ live_blocks b xs)(p \<mapsto> sub_bytes b (p + 12) n)"
proof -
  have "live_blocks b xs p = None" using assms by (intro live_fresh) blast
  then show ?thesis by (simp add: live_append live_Cons map_add_upd_left domIff)
qed

lemma unat_add_of_nat: "unat w + k < 2 ^ 32 \<Longrightarrow> unat ((w :: u32) + of_nat k) = unat w + k"
  by (simp add: unat_word_ariths u32_unat_of_nat)

lemma malloc_take_ok:
  assumes rep: "heap_rep h (xs @ (p, False, n) # ys)" and sz: "p + 12 + unat sz \<le> n" "4 dvd unat sz" "12 \<le> unat sz"
    and wf: "no_holes (xs @ (p, False, n) # ys)" "lfree_in h (xs @ (p, False, n) # ys)" "heap_sem h = 0"
      "unat (used_mem h) = used_total (xs @ (p, False, n) # ys)"
  shows "\<exists>h' n' zs. malloc_take h sz (of_nat p) = Some (mem_addr h (p + 12), h') \<and> heap_wf h' (xs @ (p, True, n') # zs) \<and>
    live_blocks (heap_bytes h') (xs @ (p, True, n') # zs) =
      (live_blocks (heap_bytes h) (xs @ (p, False, n) # ys))(p \<mapsto> sub_bytes (heap_bytes h) (p + 12) n') \<and>
    p + 12 + unat sz \<le> n' \<and> n' \<le> n \<and> n' < p + 36 + unat sz \<and> same_area h h' \<and>
    (lfree_low h (xs @ (p, False, n) # ys) \<longrightarrow> lfree_low h' (xs @ (p, True, n') # zs))"
proof -
  note mid = heap_rep_mid [OF rep]
  obtain b n' zs where cl: "claim_block h sz (of_nat p) = Some (count_used (of_nat (n' - p)) (h\<lparr>heap_bytes := b\<rparr>))"
    and rep1: "heap_rep (h\<lparr>heap_bytes := b\<rparr>) (xs @ (p, True, n') # zs)" and n': "p + 12 + unat sz \<le> n'"
    and sl: "sub_bytes b (p + 12) n' = sub_bytes (heap_bytes h) (p + 12) n'" "live_blocks b xs = live_blocks (heap_bytes h) xs"
      "live_blocks b zs = live_blocks (heap_bytes h) ys"
    and zs: "n' = n \<and> zs = ys \<or> zs = (n', False, n) # ys" and tight: "n' < p + 36 + unat sz"
    using claim_block_ok [OF rep sz] by blast
  note mid1 = heap_rep_mid [OF rep1, simplified]
  let ?b2 = "set_mem b p (block_mem True n' (last_off 0 xs))"
  have len1: "end_off h + 12 \<le> length b" using mid1 by simp
  note fl = blocks_flag [OF mid1(9) len1, of True]
  define h2 where "h2 = (count_used (of_nat (n' - p)) (h\<lparr>heap_bytes := b\<rparr>))\<lparr>heap_bytes := ?b2\<rparr>"
  have rep2: "heap_rep h2 (xs @ (p, True, n') # zs)"
    by (rule heap_repI [OF rep1]) (use fl in \<open>simp_all add: h2_def\<close>)
  define l where "l = (if mem_addr h p = lfree h then mem_addr h (first_free (end_off h) zs) else lfree h)"
  define h' where "h' = heap_release (h2\<lparr>lfree := l\<rparr>)"
  have n'_le: "n' \<le> n" using zs mid1 rep1 heap_rep_mid(1) [of "h\<lparr>heap_bytes := b\<rparr>" "xs @ [(p, True, n')]" n' False n ys] by auto
  have sel2: "heap_ptr h2 = heap_ptr h" "lfree h2 = lfree h" "end_off h2 = end_off h" "heap_end h2 = heap_end h"
    "heap_bytes h2 = ?b2" "mem_size_aligned h2 = mem_size_aligned h" by (simp_all add: h2_def)
  have scan: "lfree_scan h2 (mem_addr h p) = Some (mem_addr h (first_free (end_off h) zs))"
    using lfree_scan_ok [of h2 "last_off 0 xs" p "(p, True, n') # zs"] heap_rep_mid [OF rep2] sel2
    by (simp add: blocks_at_mid first_free_def)
  have ff: "mem_addr h (first_free (end_off h) zs) = heap_end h \<or>
      (\<exists>m. (first_free (end_off h) zs, False, m) \<in> set zs)"
    using first_free_mem [of "end_off h" zs] mid(10) by auto
  have lfree': "(if mem_addr h p = lfree h2 then do {
            l \<leftarrow> lfree_scan h2 (lfree h2);
            lm \<leftarrow> get_mem h2 l;
            rt_assert (l = heap_end h2 \<or> used lm = 0);
            Some (h2\<lparr>lfree := l\<rparr>)
          } else Some h2) = Some (h2\<lparr>lfree := l\<rparr>)"
  proof (cases "mem_addr h p = lfree h")
    case True
    obtain m where "get_mem h2 (mem_addr h (first_free (end_off h) zs)) = Some m"
      "mem_addr h (first_free (end_off h) zs) = heap_end h \<or> used m = 0"
      using ff heap_rep_end [OF rep2] heap_rep_block [OF rep2, of "first_free (end_off h) zs" False] sel2 by auto
    then show ?thesis using scan True sel2 by (simp add: rt_assert_def l_def)
  next
    case False
    then show ?thesis by (simp add: sel2 l_def)
  qed
  have upd: "upd_mem (count_used (of_nat (n' - p)) (h\<lparr>heap_bytes := b\<rparr>)) (mem_addr h p) (\<lambda>m. m\<lparr>magic := HEAP_MAGIC\<rparr>) = Some h2"
    using mid1 by (simp add: mem_addr_ops h2_def)
  have al: "4 dvd unat (mem_addr h p)" "4 dvd unat (mem_addr h (p + 12))"
    using mid rep unat_mem_addr [of h p] unat_mem_addr [of h "p + 12"] by (auto simp: heap_rep_def)
  have "mem_addr h (p + 12 + unat sz) \<le> mem_addr h (end_off h)"
    using mid sz mem_addr_le [of h "p + 12 + unat sz" "end_off h"] by simp
  then have "malloc_take h sz (of_nat p) = Some (mem_addr h (p + 12), h')"
    unfolding malloc_take_def Let_def cl bind.bind_lunit upd lfree'
    using aligned_word [OF al(1)] aligned_word [OF al(2)] mid(10) sel2
    by (simp add: rt_assert_def h'_def add.assoc)
  moreover have below: "m \<le> p" if "(q, v, m) \<in> set xs" for q v m using block_below [OF rep that] .
  have lt: "q < p" if "(q, v, m) \<in> set xs" for q v m
    using below [OF that] that mid(9) blocks_at_range [of "heap_bytes h" 0 0 "xs @ (p, False, n) # ys" "end_off h" q v m] by auto
  have "live_blocks (heap_bytes h') (xs @ (p, True, n') # zs) =
      (live_blocks (heap_bytes h) (xs @ (p, False, n) # ys))(p \<mapsto> sub_bytes (heap_bytes h) (p + 12) n')"
    using fl sl live_mid [where b = ?b2 and xs = xs and p = p and n = n' and ys = zs, OF lt] by (simp add: h'_def sel2 live_append live_Cons)
  moreover have "heap_wf h' (xs @ (p, True, n') # zs)"
  proof -
    have "no_holes (xs @ (p, True, n') # zs)"
      using wf(1) zs no_holes_append [of xs p False n ys] no_holes_append [of xs p True n' zs]
        no_holes_append [of "[]" n' False n ys] by (auto simp: no_holes_def)
    moreover have "lfree_in h' (xs @ (p, True, n') # zs)"
    proof (cases "mem_addr h p = lfree h")
      case True
      then show ?thesis using ff by (auto simp: lfree_in_def h'_def sel2 l_def)
    next
      case False
      then show ?thesis using wf(2) zs by (fastforce simp: lfree_in_def h'_def sel2 l_def)
    qed
    moreover have "used_total (xs @ (p, True, n') # zs) = unat (used_mem h) + (n' - p)"
      using wf(4) zs by auto
    moreover have "unat (used_mem h + of_nat (n' - p)) = unat (used_mem h) + (n' - p)"
      using used_total_bound [OF rep2] calculation(3) sel2 mid(7) by (intro unat_add_of_nat) simp
    moreover have "used_mem h' = used_mem h + of_nat (n' - p)" by (simp add: h'_def h2_def)
    moreover have "used_mem h' \<le> max_mem h'"
      using count_used_max [of "of_nat (n' - p)" "h\<lparr>heap_bytes := b\<rparr>"] by (simp add: h'_def h2_def)
    ultimately show ?thesis using rep2 wf(3) by (simp add: heap_wf_def h'_def h2_def del: of_nat_diff)
  qed
  moreover have "lfree_low h' (xs @ (p, True, n') # zs)" if "lfree_low h (xs @ (p, False, n) # ys)"
  proof (cases "mem_addr h p = lfree h")
    case True
    then have off: "mem_off h (lfree h) = p" using mid mem_off_addr [of p h] by simp
    have zs_at: "blocks_at ?b2 p n' zs (end_off h)" using fl(1) by (simp add: blocks_at_mid)
    have "first_free (end_off h) zs \<le> end_off h"
      using first_free_mem [of "end_off h" zs] blocks_at_range [OF zs_at] by fastforce
    then have "mem_off h' (lfree h') = first_free (end_off h) zs"
      using True mid mem_off_addr [of "first_free (end_off h) zs" h] by (simp add: h'_def sel2 l_def mem_off_def)
    then show ?thesis using first_free_le [OF zs_at] that off lt unfolding lfree_low_def by fastforce
  next
    case False
    then have "mem_off h' (lfree h') = mem_off h (lfree h)" by (simp add: h'_def sel2 l_def mem_off_def)
    then show ?thesis using that zs mid1(1) unfolding lfree_low_def by fastforce
  qed
  moreover have "same_area h h'" by (simp add: same_area_def h'_def sel2)
  ultimately show ?thesis using n' n'_le tight by blast
qed

section \<open>Allocation\<close>

definition request_size :: "u32 \<Rightarrow> nat" where
  "request_size sz = max 12 (unat (align_up4 sz))"

lemma lfree_start:
  assumes rep: "heap_rep h bs" and lf: "lfree_in h bs"
  shows "\<exists>xs ys l r. bs = xs @ ys \<and> lfree h - heap_ptr h = of_nat l \<and> mem_off h (lfree h) = l \<and>
    blocks_at (heap_bytes h) r l ys (end_off h) \<and> (\<forall>q u n. (q, u, n) \<in> set xs \<longrightarrow> q < l)"
proof (cases "lfree h = heap_end h")
  case True
  then have l: "lfree h = mem_addr h (end_off h)" "end_off h < 2 ^ 32" using rep by (auto simp: heap_rep_def)
  have "\<forall>q u n. (q, u, n) \<in> set bs \<longrightarrow> q < end_off h"
    using rep blocks_at_range [of "heap_bytes h" 0 0 bs "end_off h"] by (fastforce simp: heap_rep_def)
  then show ?thesis using l mem_off_addr [of "end_off h" h]
    by (intro exI [of _ bs] exI [of _ "[]"] exI [of _ "end_off h"] exI [of _ 0]) simp
next
  case False
  then obtain p n where p: "(p, False, n) \<in> set bs" "lfree h = mem_addr h p" using lf by (auto simp: lfree_in_def)
  then obtain xs ys where bs: "bs = xs @ (p, False, n) # ys" by (meson split_list)
  note mid = heap_rep_mid [OF rep [unfolded bs]]
  have xs: "\<forall>q u m. (q, u, m) \<in> set xs \<longrightarrow> q < p"
    using mid(9) blocks_at_range [of "heap_bytes h" 0 0 xs p] by (fastforce simp: blocks_at_mid)
  have "mem_off h (lfree h) = p" using mid mem_off_addr [of p h] p by simp
  then show ?thesis using mid(9) xs bs p
    by (intro exI [of _ xs] exI [of _ "(p, False, n) # ys"] exI [of _ p] exI [of _ "last_off 0 xs"]) (simp add: blocks_at_append)
qed

lemma heap_take_release: "heap_sem h = 1 \<Longrightarrow> heap_release (h\<lparr>heap_sem := 0\<rparr>) = h"
  by (simp add: heap_release_def)

text \<open>What \<open>rt_malloc\<close> does: no block fits, or the first one from \<open>lfree\<close> on is taken.\<close>

lemma rt_malloc_cases:
  assumes wf: "heap_wf h bs" and sz0: "sz0 \<noteq> 0"
  shows "rt_malloc h sz0 = Some (0, h) \<and> (lfree_low h bs \<longrightarrow> (\<forall>x \<in> set bs. \<not> fits h (request_size sz0) x)) \<or>
    (\<exists>xs p n ys h' n' zs. bs = xs @ (p, False, n) # ys \<and> fits h (request_size sz0) (p, False, n) \<and>
      rt_malloc h sz0 = Some (mem_addr h (p + 12), h') \<and> heap_wf h' (xs @ (p, True, n') # zs) \<and>
      live_blocks (heap_bytes h') (xs @ (p, True, n') # zs) =
        (live_blocks (heap_bytes h) bs)(p \<mapsto> sub_bytes (heap_bytes h) (p + 12) n') \<and>
      p + 12 + request_size sz0 \<le> n' \<and> n' \<le> n \<and> n' < p + 36 + request_size sz0 \<and> same_area h h' \<and>
      (lfree_low h bs \<longrightarrow> lfree_low h' (xs @ (p, True, n') # zs)))" (is "?none \<or> ?some")
proof (cases "align_up4 sz0 > mem_size_aligned h")
  case True
  have "\<not> fits h (request_size sz0) x" for x
    using True by (cases x) (auto simp: request_size_def word_less_nat_alt)
  then show ?thesis using True sz0 by (simp add: rt_malloc_def)
next
  case False
  have rep: "heap_rep h bs" "lfree_in h bs" "heap_sem h = 1" "no_holes bs" "unat (used_mem h) = used_total bs"
    using wf by (simp_all add: heap_wf_def)
  define sz where "sz = (if align_up4 sz0 < 12 then 12 else align_up4 sz0)"
  have req: "unat sz = request_size sz0" by (auto simp: sz_def request_size_def word_less_nat_alt)
  have "4 dvd unat (align_up4 sz0)" by (simp add: unat_align_up4)
  then have al: "4 dvd unat sz" "12 \<le> unat sz" by (auto simp: sz_def word_less_nat_alt)
  have "12 \<le> unat (mem_size_aligned h)" using rep(1) by (simp add: heap_rep_def end_off_def)
  then have le: "sz \<le> mem_size_aligned h" using False by (auto simp: sz_def word_le_nat_alt word_less_nat_alt)
  let ?h0 = "h\<lparr>heap_sem := 0\<rparr>"
  obtain xs0 ys0 l r where st: "bs = xs0 @ ys0" "lfree h - heap_ptr h = of_nat l" "mem_off h (lfree h) = l"
    "blocks_at (heap_bytes h) r l ys0 (end_off h)" "\<forall>q u n. (q, u, n) \<in> set xs0 \<longrightarrow> q < l"
    using lfree_start [OF rep(1,2)] by blast
  have fits0: "fits ?h0 = fits h" by (rule ext) (simp add: fits_def)
  have find: "malloc_find ?h0 sz (of_nat l) = Some (map_option (\<lambda>x. of_nat (fst x)) (List.find (fits h (unat sz)) ys0))"
    using malloc_find_ok [of sz ?h0 r l ys0] le rep(1) st(4) fits0 by (simp add: heap_rep_def)
  have run: "rt_malloc h sz0 = (case List.find (fits h (unat sz)) ys0 of
      Some x \<Rightarrow> malloc_take ?h0 sz (of_nat (fst x)) | None \<Rightarrow> Some (0, h))"
    using sz0 False rep(3) find st(2) heap_take_release [OF rep(3)]
    by (simp add: rt_malloc_def Let_def heap_take_def sz_def [symmetric] split: option.splits)
  show ?thesis
  proof (cases "List.find (fits h (unat sz)) ys0")
    case None
    have "\<not> fits h (unat sz) x" if low: "lfree_low h bs" and x: "x \<in> set bs" for x
    proof (cases "x \<in> set ys0")
      case True
      then show ?thesis using None unfolding find_None_iff by blast
    next
      case False
      obtain q u n where q: "x = (q, u, n)" by (cases x)
      have "q < l" using False x st(1,5) q by auto
      then have "u" using low x st(3) by (cases u) (auto simp: lfree_low_def q)
      then show ?thesis by (simp add: q)
    qed
    then show ?thesis using run None req by simp
  next
    case (Some x)
    obtain p u n where x: "x = (p, u, n)" by (cases x)
    have "fits h (unat sz) x \<and> x \<in> set ys0" using Some unfolding find_Some_iff by auto
    then have fit: "fits h (unat sz) (p, u, n)" "x \<in> set ys0" by (auto simp: x)
    then have u: "\<not> u" by simp
    obtain xs ys where bs: "bs = xs @ (p, False, n) # ys" using fit(2) st(1) x u by (metis (full_types) Un_iff set_append split_list)
    have "p + 12 + unat sz \<le> n" using fit by simp
    note mt = malloc_take_ok [of ?h0 xs p n ys sz, OF _ this al]
    have lf: "lfree_in ?h0 (xs @ (p, False, n) # ys)" "lfree_low ?h0 (xs @ (p, False, n) # ys) = lfree_low h bs"
      using rep(2) unfolding bs by (simp_all add: lfree_in_def lfree_low_def mem_off_def)
    obtain h' n' zs where t: "malloc_take ?h0 sz (of_nat p) = Some (mem_addr h (p + 12), h')"
      "heap_wf h' (xs @ (p, True, n') # zs)"
      "live_blocks (heap_bytes h') (xs @ (p, True, n') # zs) =
        (live_blocks (heap_bytes h) bs)(p \<mapsto> sub_bytes (heap_bytes h) (p + 12) n')"
      "p + 12 + unat sz \<le> n'" "n' \<le> n" "n' < p + 36 + unat sz" "same_area h h'" "lfree_low h bs \<longrightarrow> lfree_low h' (xs @ (p, True, n') # zs)"
      using mt lf rep unfolding bs by (auto simp: same_area_def)
    have "?some"
      using t run Some x fit(1) u unfolding req
      by (intro exI [of _ xs] exI [of _ p] exI [of _ n] exI [of _ ys] exI [of _ h'] exI [of _ n'] exI [of _ zs]) (simp add: bs)
    then show ?thesis ..
  qed
qed

section \<open>Release\<close>

lemma lfree_bound:
  assumes "heap_rep h bs" "lfree_in h bs"
  shows "mem_off h (lfree h) \<le> end_off h"
proof -
  obtain r ys where "blocks_at (heap_bytes h) r (mem_off h (lfree h)) ys (end_off h)"
    using lfree_start [OF assms] by auto
  then show ?thesis by (rule blocks_at_le)
qed

lemma mem_addr_minus: "mem_addr h (p + 12) - 12 = mem_addr h p"
  by simp

lemma user_addr:
  assumes rep: "heap_rep h (xs @ (p, u, n) # ys)"
  shows "mem_addr h (p + 12) \<noteq> 0" "mem_addr h (p + 12) AND 3 = 0" "mem_addr h (p + 12) \<ge> heap_ptr h"
    "mem_addr h (p + 12) < heap_end h"
proof -
  note mid = heap_rep_mid [OF rep]
  have un: "unat (mem_addr h (p + 12)) = unat (heap_ptr h) + (p + 12)" using mid by (intro unat_mem_addr) simp
  show "mem_addr h (p + 12) \<noteq> 0"
  proof
    assume "mem_addr h (p + 12) = 0"
    then have "unat (mem_addr h (p + 12)) = 0" by (simp only: unat_0)
    then show False using un by simp
  qed
  have "4 dvd unat (mem_addr h (p + 12))" unfolding un using mid rep by (auto simp: heap_rep_def)
  then show "mem_addr h (p + 12) AND 3 = 0" by (rule aligned_word)
  show "mem_addr h (p + 12) \<ge> heap_ptr h" using mid mem_addr_le [of h 0 "p + 12"] by simp
  show "mem_addr h (p + 12) < heap_end h" using mid mem_addr_less [of h "p + 12" "end_off h"] by simp
qed

lemma rt_free_ok:
  assumes wf: "heap_wf h bs" and bs: "bs = xs @ (p, True, n) # ys"
  shows "\<exists>h' bs'. rt_free h (mem_addr h (p + 12)) = Some h' \<and> heap_wf h' bs' \<and>
    live_blocks (heap_bytes h') bs' = (live_blocks (heap_bytes h) bs)(p := None) \<and> same_area h h' \<and>
    max_mem h' = max_mem h \<and> (lfree_low h bs \<longrightarrow> lfree_low h' bs')"
proof -
  have w: "heap_rep h bs" "lfree_in h bs" "heap_sem h = 1" "no_holes bs" "unat (used_mem h) = used_total bs"
    "used_mem h \<le> max_mem h" using wf by (simp_all add: heap_wf_def)
  note rep = w(1) [unfolded bs]
  note mid = heap_rep_mid [OF rep]
  let ?b = "set_mem (heap_bytes h) p (block_mem False n (last_off 0 xs))"
  let ?l = "if mem_addr h p < lfree h then mem_addr h p else lfree h"
  define h1 where "h1 = h\<lparr>heap_sem := 0, heap_bytes := ?b, lfree := ?l, used_mem := used_mem h - of_nat (n - p)\<rparr>"
  have len: "end_off h + 12 \<le> length (heap_bytes h)" using mid by simp
  note fl = blocks_flag [OF mid(9) len, of False]
  let ?bs1 = "xs @ (p, False, n) # ys"
  have rep1: "heap_rep h1 ?bs1" by (rule heap_repI [OF rep]) (use fl in \<open>simp_all add: h1_def\<close>)
  have nh: "no_holes xs" "no_holes ys" using w(4) by (simp_all add: bs no_holes_append)
  obtain h2 bs2 where p2: "plug_holes h1 (mem_addr h1 p) = Some h2" "heap_step h1 ?bs1 h2 bs2" "no_holes bs2"
    using plug_holes_ok [OF rep1 nh] by blast
  have sel: "heap_ptr h2 = heap_ptr h" "heap_sem h2 = 0" "mem_size_aligned h2 = mem_size_aligned h"
    "used_mem h2 = used_mem h - of_nat (n - p)" "max_mem h2 = max_mem h" "heap_rep h2 bs2"
    "live_blocks (heap_bytes h2) bs2 = live_blocks ?b ?bs1" "used_total bs2 = used_total xs + used_total ys"
    "lfree_in h1 ?bs1 \<longrightarrow> lfree_in h2 bs2" "lfree_low h1 ?bs1 \<longrightarrow> lfree_low h2 bs2"
    using p2(2) by (auto simp: heap_step_def same_stats_def h1_def)
  have get: "get_mem (h\<lparr>heap_sem := 0\<rparr>) (mem_addr h p) = Some (block_mem True n (last_off 0 xs))"
    using mid by (simp add: mem_addr_ops)
  have upd: "upd_mem (h\<lparr>heap_sem := 0\<rparr>) (mem_addr h p) (\<lambda>m. m\<lparr>used := 0, magic := HEAP_MAGIC\<rparr>) =
      Some (h\<lparr>heap_sem := 0, heap_bytes := ?b\<rparr>)" using mid by (simp add: mem_addr_ops)
  let ?h0 = "h\<lparr>heap_sem := 0, heap_bytes := ?b\<rparr>"
  have get1: "get_mem (?h0\<lparr>lfree := ?l\<rparr>) (mem_addr h p) = Some (block_mem False n (last_off 0 xs))"
    using mid by (simp add: mem_addr_ops)
  have diff: "(of_nat n :: u32) - (mem_addr h p - heap_ptr h) = of_nat (n - p)"
    by (subst add_diff_cancel_left', rule u32_diff_of_nat) (use mid in simp)
  have "rt_free h (mem_addr h (p + 12)) = Some (heap_release h2)"
    using user_addr [OF rep] user_addr(3) [OF rep, folded not_less] user_addr(4) [OF rep, folded not_le]
      w(3) get upd get1 p2(1) diff
    unfolding rt_free_def Let_def mem_addr_minus
    by (cases "mem_addr h p < lfree h") (simp_all add: heap_take_def rt_assert_def h1_def del: of_nat_diff of_nat_add)
  moreover have "heap_wf (heap_release h2) bs2"
  proof -
    have "lfree_in h1 ?bs1"
      using w(2) unfolding bs lfree_in_def by (auto simp: h1_def)
    moreover have le: "n - p \<le> unat (used_mem h)" using w(5) by (simp add: bs)
    moreover have "unat (used_mem h - of_nat (n - p)) = unat (used_mem h) - (n - p)"
      using le mid u32_unat_of_nat [of "n - p"] by (subst unat_sub) (simp_all add: word_le_nat_alt del: of_nat_diff)
    moreover have "used_mem h - of_nat (n - p) \<le> max_mem h"
      using calculation(3) w(6) by (simp add: word_le_nat_alt del: of_nat_diff)
    ultimately show ?thesis using sel p2(3) w(5) by (simp add: heap_wf_def lfree_in_def bs del: of_nat_diff)
  qed
  moreover have "live_blocks (heap_bytes (heap_release h2)) bs2 = (live_blocks (heap_bytes h) bs)(p := None)"
  proof -
    have lt: "(\<And>q v m. (q, v, m) \<in> set xs \<Longrightarrow> q < p)" "\<And>q v m. (q, v, m) \<in> set ys \<Longrightarrow> p < q"
      using mid blocks_at_range [of "heap_bytes h" 0 0 xs p] blocks_at_range [OF mid(11)] by (fastforce simp: blocks_at_mid)+
    have "live_blocks (heap_bytes h) xs p = None" "live_blocks (heap_bytes h) ys p = None"
      by (rule live_fresh, auto dest!: lt(1) lt(2))+
    then have "(live_blocks (heap_bytes h) bs)(p := None) = live_blocks (heap_bytes h) ys ++ live_blocks (heap_bytes h) xs"
      by (auto simp: bs live_append live_Cons fun_eq_iff map_add_def split: option.splits)
    then show ?thesis using sel(7) fl by (simp add: live_append live_Cons)
  qed
  moreover have "lfree_low (heap_release h2) bs2" if "lfree_low h bs"
  proof -
    have l: "lfree h = mem_addr h (mem_off h (lfree h))" by (simp add: mem_off_def)
    have le: "mem_off h (lfree h) \<le> end_off h" using lfree_bound [OF w(1,2)] .
    have "mem_addr h p < lfree h \<longleftrightarrow> p < mem_off h (lfree h)"
      by (subst l, rule mem_addr_less) (use le mid in simp_all)
    then have "mem_off h1 (lfree h1) = min p (mem_off h (lfree h))"
      using mem_off_addr [of p h] mid by (simp add: h1_def mem_off_def min_def)
    then have "lfree_low h1 ?bs1" using that unfolding bs lfree_low_def by (auto intro: min.coboundedI2)
    then show ?thesis using sel by (simp add: lfree_low_def mem_off_def)
  qed
  ultimately show ?thesis using sel by (auto simp: same_area_def)
qed

section \<open>The bytes of a block\<close>

lemma sub_bytes_store:
  "i + length ws \<le> n - s \<Longrightarrow> s \<le> n \<Longrightarrow> n \<le> length b \<Longrightarrow>
     sub_bytes (set_bytes b (s + i) ws) s n = set_bytes (sub_bytes b s n) i ws"
  by (intro nth_equalityI) (auto simp: nth_slice nth_set_bytes)

lemma set_bytes_all: "length ws = length c \<Longrightarrow> set_bytes c 0 ws = ws"
  by (simp add: set_bytes_def)

lemma store_mem_ok:
  assumes wf: "heap_wf h bs" and bs: "bs = xs @ (p, True, n) # ys" and i: "i + length ws \<le> n - (p + 12)"
  shows "\<exists>h'. store_mem h (mem_addr h (p + 12) + of_nat i) ws = Some h' \<and> heap_wf h' bs \<and>
    live_blocks (heap_bytes h') bs =
      (live_blocks (heap_bytes h) bs)(p \<mapsto> set_bytes (sub_bytes (heap_bytes h) (p + 12) n) i ws) \<and>
    same_area h h' \<and> lfree_low h' bs = lfree_low h bs"
proof (intro exI conjI)
  let ?b = "set_bytes (heap_bytes h) (p + 12 + i) ws" and ?h = "h\<lparr>heap_bytes := set_bytes (heap_bytes h) (p + 12 + i) ws\<rparr>"
  have rep: "heap_rep h bs" using wf by (simp add: heap_wf_def)
  note mid = heap_rep_mid [OF rep [unfolded bs]]
  have fit: "p + 12 + i + length ws \<le> n" using i mid by linarith
  have "p + 12 + i < 2 ^ 32" "p + 12 + i + length ws \<le> length (heap_bytes h)" using fit mid by linarith+
  then show "store_mem h (mem_addr h (p + 12) + of_nat i) ws = Some ?h"
    using u32_unat_of_nat [of "p + 12 + i"] by (simp add: store_mem_def wr_n_def set_bytes_def add.assoc)
  have "end_off h \<le> length (heap_bytes h)" using mid by simp
  note bw = blocks_at_write [OF mid(9) this, of "p + 12 + i" ws, OF _ fit, simplified]
  have at: "mem_at ?b p = mem_at (heap_bytes h) p" "mem_at ?b (end_off h) = mem_at (heap_bytes h) (end_off h)"
    by (rule mem_at_set_other; use fit mid in auto)+
  have "heap_rep ?h bs"
    by (rule heap_repI [OF rep]) (use bw at mid fit in \<open>simp_all add: bs blocks_at_mid\<close>)
  then show "heap_wf ?h bs" using wf by (simp add: heap_wf_def lfree_in_def)
  have lt: "\<And>q v m. (q, v, m) \<in> set xs \<Longrightarrow> q < p"
    using mid blocks_at_range [of "heap_bytes h" 0 0 xs p] by (fastforce simp: blocks_at_mid)
  show "live_blocks (heap_bytes ?h) bs =
      (live_blocks (heap_bytes h) bs)(p \<mapsto> set_bytes (sub_bytes (heap_bytes h) (p + 12) n) i ws)"
    using bw mid i fit sub_bytes_store [of i ws n "p + 12" "heap_bytes h"]
    by (simp add: bs live_mid [OF lt])
  show "same_area h ?h" "lfree_low ?h bs = lfree_low h bs"
    by (simp_all add: same_area_def lfree_low_def mem_off_def)
qed

section \<open>The contents of the heap\<close>

text \<open>
  The blocks read off the bytes, the invariant of the heap, and what a client sees of it: the
  addresses it got from the allocator with the bytes it may use there.
\<close>

function mem_walk :: "u8 list \<Rightarrow> nat \<Rightarrow> nat \<Rightarrow> heap_block list" where
  "mem_walk b p e = (let m = mem_at b p; n = unat (next_mem m) in
     if p < e \<and> p < n then (p, used m \<noteq> 0, n) # mem_walk b n e else [])"
  by pat_completeness auto
termination by (relation "measure (\<lambda>(b, p, e). e - p)") auto

declare mem_walk.simps [simp del]

definition heap_blocks :: "rt_heap \<Rightarrow> heap_block list" where
  "heap_blocks h = mem_walk (heap_bytes h) 0 (end_off h)"

definition heap_ok :: "rt_heap \<Rightarrow> bool" where
  "heap_ok h \<longleftrightarrow> heap_wf h (heap_blocks h)"

definition heap_low :: "rt_heap \<Rightarrow> bool" where
  "heap_low h \<longleftrightarrow> lfree_low h (heap_blocks h)"

definition heap_view :: "rt_heap \<Rightarrow> u32 \<rightharpoonup> u8 list" where
  "heap_view h a = live_blocks (heap_bytes h) (heap_blocks h) (mem_off h (a - 12))"

lemma mem_walk_blocks: "blocks_at b r p bs e \<Longrightarrow> e < 2 ^ 32 \<Longrightarrow> mem_walk b p e = bs"
proof (induction b r p bs e rule: blocks_at.induct)
  case (2 b r p q u n bs e)
  then have "n \<le> e" "p + 16 \<le> n" "mem_at b p = block_mem u n r" by (auto dest: blocks_at_le)
  then show ?case using 2 u32_unat_of_nat [of n] by (subst mem_walk.simps) (auto simp: Let_def)
qed (subst mem_walk.simps, simp)

lemma heap_wf_blocks: "heap_wf h bs \<Longrightarrow> heap_blocks h = bs"
  unfolding heap_blocks_def by (rule mem_walk_blocks [of _ 0]) (auto simp: heap_wf_def heap_rep_def)

lemma heap_wf_ok: "heap_wf h bs \<Longrightarrow> heap_ok h"
  by (simp add: heap_ok_def heap_wf_blocks)

lemma heap_low_wf: "heap_wf h bs \<Longrightarrow> heap_low h = lfree_low h bs"
  by (simp add: heap_low_def heap_wf_blocks)

lemma heap_view_wf: "heap_wf h bs \<Longrightarrow> heap_view h a = live_blocks (heap_bytes h) bs (mem_off h (a - 12))"
  by (simp add: heap_view_def heap_wf_blocks)

lemma mem_off_user: "p < 2 ^ 32 \<Longrightarrow> mem_off h (a - 12) = p \<longleftrightarrow> a = mem_addr h (p + 12)"
proof
  assume "mem_off h (a - 12) = p"
  then have "mem_addr h p = a - 12" using mem_addr_off [of h "a - 12"] by simp
  then show "a = mem_addr h (p + 12)" by (simp add: eq_diff_eq add.assoc)
qed (simp add: mem_off_def u32_unat_of_nat)

lemma heap_view_upd:
  assumes "heap_wf h bs" "heap_wf h' bs'" "same_area h h'" "p < 2 ^ 32"
    and "live_blocks (heap_bytes h') bs' = (live_blocks (heap_bytes h) bs)(p := v)"
  shows "heap_view h' = (heap_view h)(mem_addr h (p + 12) := v)"
proof
  fix a
  have "mem_off h' (a - 12) = mem_off h (a - 12)" using assms(3) by (simp add: mem_off_def same_area_def)
  then show "heap_view h' a = ((heap_view h)(mem_addr h (p + 12) := v)) a"
    using assms(5) mem_off_user [OF assms(4), of h a] by (simp add: heap_view_wf [OF assms(1)] heap_view_wf [OF assms(2)])
qed

lemma heap_view_SomeE:
  assumes "heap_wf h bs" "heap_view h a = Some c"
  obtains xs p n ys where "bs = xs @ (p, True, n) # ys" "a = mem_addr h (p + 12)" "c = sub_bytes (heap_bytes h) (p + 12) n"
    "p + 16 \<le> n" "n \<le> length (heap_bytes h)" "length c = n - (p + 12)" "n < 2 ^ 32"
proof -
  let ?p = "mem_off h (a - 12)"
  obtain n where n: "(?p, True, n) \<in> set bs" "c = sub_bytes (heap_bytes h) (?p + 12) n"
    using assms live_dom [of "heap_bytes h" bs ?p c] by (auto simp: heap_view_wf)
  then obtain xs ys where bs: "bs = xs @ (?p, True, n) # ys" by (meson split_list)
  have "heap_rep h bs" using assms(1) by (simp add: heap_wf_def)
  note mid = heap_rep_mid [OF this [unfolded bs]]
  have "a = mem_addr h (?p + 12)" using mid mem_off_user [of ?p h a] by simp
  then show thesis using that [of xs ?p n ys] bs n(2) mid by simp
qed

text \<open>The four contracts of the heap.\<close>

lemma malloc_contract:
  assumes ok: "heap_ok h"
  shows "\<exists>a h'. rt_malloc h sz = Some (a, h') \<and> heap_ok h' \<and> same_area h h' \<and> (heap_low h \<longrightarrow> heap_low h') \<and>
    (a = 0 \<and> h' = h \<or> a \<noteq> 0 \<and> heap_view h a = None \<and>
       (\<exists>c. heap_view h' = (heap_view h)(a \<mapsto> c) \<and> request_size sz \<le> length c))"
proof (cases "sz = 0")
  case True
  then show ?thesis using ok by (simp add: rt_malloc_def same_area_def)
next
  case False
  let ?bs = "heap_blocks h"
  have wf: "heap_wf h ?bs" using ok by (simp add: heap_ok_def)
  from rt_malloc_cases [OF wf False] show ?thesis
  proof (elim disjE conjE exE)
    assume "rt_malloc h sz = Some (0, h)"
    then show ?thesis using ok by (auto simp: same_area_def)
  next
    fix xs p n ys h' n' zs
    assume bs: "?bs = xs @ (p, False, n) # ys" and run: "rt_malloc h sz = Some (mem_addr h (p + 12), h')"
      and wf': "heap_wf h' (xs @ (p, True, n') # zs)" and area: "same_area h h'" and req: "p + 12 + request_size sz \<le> n'"
      and live: "live_blocks (heap_bytes h') (xs @ (p, True, n') # zs) =
        (live_blocks (heap_bytes h) ?bs)(p \<mapsto> sub_bytes (heap_bytes h) (p + 12) n')" and n': "n' \<le> n"
      and low: "lfree_low h ?bs \<longrightarrow> lfree_low h' (xs @ (p, True, n') # zs)"
    have "heap_rep h (xs @ (p, False, n) # ys)" using wf by (simp add: heap_wf_def bs)
    note mid = heap_rep_mid [OF this] and user = user_addr [OF this]
    have lt: "q < p" if "(q, v, m) \<in> set xs" for q v m
      using mid that blocks_at_range [of "heap_bytes h" 0 0 xs p q v m] by (auto simp: blocks_at_mid)
    have gt: "p < q" if "(q, v, m) \<in> set ys" for q v m
      using mid that blocks_at_range [OF mid(11), of q v m] by auto
    have "live_blocks (heap_bytes h) xs p = None" "live_blocks (heap_bytes h) ys p = None"
      by (rule live_fresh, auto dest!: lt gt)+
    then have fresh: "live_blocks (heap_bytes h) ?bs p = None" by (simp add: bs live_append live_Cons map_add_def)
    have "p < 2 ^ 32" using mid by simp
    then have "heap_view h (mem_addr h (p + 12)) = None"
      using fresh mem_off_user [of p h "mem_addr h (p + 12)"] by (simp add: heap_view_wf [OF wf])
    moreover have "heap_view h' = (heap_view h)(mem_addr h (p + 12) \<mapsto> sub_bytes (heap_bytes h) (p + 12) n')"
      by (rule heap_view_upd [OF wf wf' area]) (use mid live in simp_all)
    moreover have "request_size sz \<le> length (sub_bytes (heap_bytes h) (p + 12) n')"
      using req n' mid by simp
    moreover have "heap_low h \<longrightarrow> heap_low h'" using low heap_low_wf [OF wf] heap_low_wf [OF wf'] by simp
    ultimately show ?thesis using run user heap_wf_ok [OF wf'] area by blast
  qed
qed

lemma free_contract:
  assumes ok: "heap_ok h" and a: "heap_view h a = Some c"
  shows "\<exists>h'. rt_free h a = Some h' \<and> heap_ok h' \<and> same_area h h' \<and> (heap_low h \<longrightarrow> heap_low h') \<and>
    heap_view h' = (heap_view h)(a := None)"
proof -
  have wf: "heap_wf h (heap_blocks h)" using ok by (simp add: heap_ok_def)
  obtain xs p n ys where p: "heap_blocks h = xs @ (p, True, n) # ys" "a = mem_addr h (p + 12)" "p + 16 \<le> n" "n < 2 ^ 32"
    using heap_view_SomeE [OF wf a] by metis
  then have p32: "p < 2 ^ 32" by simp
  obtain h' bs' where f: "rt_free h a = Some h'" "heap_wf h' bs'" "same_area h h'"
    "live_blocks (heap_bytes h') bs' = (live_blocks (heap_bytes h) (heap_blocks h))(p := None)"
    "lfree_low h (heap_blocks h) \<longrightarrow> lfree_low h' bs'"
    using rt_free_ok [OF wf p(1)] p(2) by auto
  then show ?thesis using heap_wf_ok heap_view_upd [OF wf f(2,3) p32 f(4)] p(2) heap_low_wf [OF wf] heap_low_wf [OF f(2)] by auto
qed

lemma store_contract:
  assumes ok: "heap_ok h" and a: "heap_view h a = Some c" and i: "i + length ws \<le> length c"
  shows "\<exists>h'. store_mem h (a + of_nat i) ws = Some h' \<and> heap_ok h' \<and> same_area h h' \<and> (heap_low h \<longrightarrow> heap_low h') \<and>
    heap_view h' = (heap_view h)(a \<mapsto> set_bytes c i ws)"
proof -
  have wf: "heap_wf h (heap_blocks h)" using ok by (simp add: heap_ok_def)
  obtain xs p n ys where p: "heap_blocks h = xs @ (p, True, n) # ys" "a = mem_addr h (p + 12)"
    "c = sub_bytes (heap_bytes h) (p + 12) n" "p + 16 \<le> n" "length c = n - (p + 12)" "n < 2 ^ 32"
    using heap_view_SomeE [OF wf a] by metis
  then have p32: "p < 2 ^ 32" and i': "i + length ws \<le> n - (p + 12)" using i by simp_all
  obtain h' where f: "store_mem h (a + of_nat i) ws = Some h'" "heap_wf h' (heap_blocks h)"
    "live_blocks (heap_bytes h') (heap_blocks h) = (live_blocks (heap_bytes h) (heap_blocks h))(p \<mapsto> set_bytes c i ws)"
    "same_area h h'" "lfree_low h' (heap_blocks h) = lfree_low h (heap_blocks h)"
    using store_mem_ok [OF wf p(1) i'] p(2,3) by auto
  then show ?thesis using heap_wf_ok heap_view_upd [OF wf f(2,4) p32 f(3)] p(2) heap_low_wf [OF wf] heap_low_wf [OF f(2)] by auto
qed

lemma load_contract:
  assumes ok: "heap_ok h" and a: "heap_view h a = Some c" and i: "i + k \<le> length c"
  shows "load_mem h (a + of_nat i) k = Some (take k (drop i c))"
proof -
  have wf: "heap_wf h (heap_blocks h)" using ok by (simp add: heap_ok_def)
  obtain xs p n ys where p: "heap_blocks h = xs @ (p, True, n) # ys" "a = mem_addr h (p + 12)"
    "c = sub_bytes (heap_bytes h) (p + 12) n" "p + 16 \<le> n" "n \<le> length (heap_bytes h)" "length c = n - (p + 12)" "n < 2 ^ 32"
    using heap_view_SomeE [OF wf a] by metis
  have off: "unat (a + of_nat i - heap_ptr h) = p + 12 + i"
    using p(2,4,6,7) i u32_unat_of_nat [of "p + 12 + i"] by (simp add: add.assoc)
  have "p + 12 + i + k \<le> n" using i p(4,6) by linarith
  then have "take k (drop (p + 12 + i) (heap_bytes h)) = take k (drop i c)"
    using p(3,4) by (simp add: sub_bytes_def drop_take add.commute)
  then show ?thesis using off i p(4,5,6) by (simp add: load_mem_def rd_n_def)
qed

section \<open>Resizing\<close>

lemma shrink_ok:
  assumes wf: "heap_wf h bs" and bs: "bs = xs @ (p, True, n) # ys" and q: "p + 16 \<le> q" "q + 16 \<le> n" "4 dvd q"
  defines "h1 \<equiv> h\<lparr>heap_sem := 0, used_mem := used_mem h - of_nat (n - q)\<rparr>"
  shows "\<exists>h2 h' bs'. split_mem h1 (of_nat p) (of_nat q) (\<lambda>m. m) = Some h2 \<and> heap_ptr h2 = heap_ptr h \<and>
    plug_holes h2 (mem_addr h q) = Some h' \<and> heap_wf (heap_release h') bs' \<and> same_area h h' \<and>
    live_blocks (heap_bytes h') bs' = (live_blocks (heap_bytes h) bs)(p \<mapsto> sub_bytes (heap_bytes h) (p + 12) q)"
proof -
  have w: "heap_rep h bs" "lfree_in h bs" "no_holes bs" "unat (used_mem h) = used_total bs" "used_mem h \<le> max_mem h"
    using wf by (simp_all add: heap_wf_def)
  have rep1: "heap_rep h1 (xs @ (p, True, n) # ys)" using w(1) by (simp add: h1_def bs)
  note mid = heap_rep_mid [OF w(1) [unfolded bs]]
  obtain b where b: "split_mem h1 (of_nat p) (of_nat q) (\<lambda>m. m) = Some (h1\<lparr>heap_bytes := b\<rparr>)"
    "heap_rep (h1\<lparr>heap_bytes := b\<rparr>) (xs @ (p, True, q) # (q, False, n) # ys)"
    "sub_bytes b (p + 12) q = sub_bytes (heap_bytes h) (p + 12) q"
    "live_blocks b xs = live_blocks (heap_bytes h) xs" "live_blocks b ys = live_blocks (heap_bytes h) ys"
    using split_mem_ok [OF rep1 q, of "\<lambda>m. m" True] by (auto simp: h1_def)
  let ?h2 = "h1\<lparr>heap_bytes := b\<rparr>" and ?bs2 = "xs @ (p, True, q) # (q, False, n) # ys"
  have rep2: "heap_rep ?h2 ((xs @ [(p, True, q)]) @ (q, False, n) # ys)" using b(2) by simp
  have nh: "no_holes (xs @ [(p, True, q)])" "no_holes ys"
    using w(3) no_holes_append [of xs p True n ys] no_holes_append [of xs p True q "[]"] by (auto simp: bs no_holes_def)
  obtain h' bs' where h': "plug_holes ?h2 (mem_addr ?h2 q) = Some h'" "heap_step ?h2 ?bs2 h' bs'" "no_holes bs'"
    using plug_holes_ok [OF rep2 nh] by auto
  have lt: "r < p" if "(r, v, m) \<in> set xs" for r v m
    using mid that blocks_at_range [of "heap_bytes h" 0 0 xs p r v m] by (auto simp: blocks_at_mid)
  have "live_blocks b ?bs2 = (live_blocks (heap_bytes h) bs)(p \<mapsto> sub_bytes (heap_bytes h) (p + 12) q)"
    using b(3-5) by (simp add: bs live_mid [OF lt] live_Cons)
  moreover have "lfree_in ?h2 ?bs2" using w(2) by (fastforce simp: lfree_in_def h1_def bs)
  moreover have le: "n - q \<le> unat (used_mem h)" "q \<le> n" using w(4) q by (auto simp: bs)
  moreover have um: "unat (used_mem h - of_nat (n - q)) = unat (used_mem h) - (n - q)"
    using le mid u32_unat_of_nat [of "n - q"] by (subst unat_sub) (simp_all add: word_le_nat_alt del: of_nat_diff)
  moreover have "used_mem h - of_nat (n - q) \<le> max_mem h"
    using um w(5) by (simp add: word_le_nat_alt del: of_nat_diff)
  moreover have "used_total ?bs2 = unat (used_mem h) - (n - q)" using w(4) q le by (simp add: bs)
  moreover have "heap_ptr h' = heap_ptr h" "heap_sem h' = 0" "mem_size_aligned h' = mem_size_aligned h"
    "used_mem h' = used_mem h - of_nat (n - q)" "max_mem h' = max_mem h" "heap_rep h' bs'"
    "live_blocks (heap_bytes h') bs' = live_blocks b ?bs2" "used_total bs' = used_total ?bs2"
    "lfree_in ?h2 ?bs2 \<longrightarrow> lfree_in h' bs'"
    using h'(2) by (auto simp: heap_step_def same_stats_def h1_def)
  ultimately have "heap_wf (heap_release h') bs'" "same_area h h'"
    "live_blocks (heap_bytes h') bs' = (live_blocks (heap_bytes h) bs)(p \<mapsto> sub_bytes (heap_bytes h) (p + 12) q)"
    using h'(3) by (simp_all add: heap_wf_def lfree_in_def same_area_def del: of_nat_diff)
  then show ?thesis using b(1) h'(1) by (auto simp: h1_def)
qed

lemma align_up4_idem:
  assumes "4 dvd unat w" "unat w + 3 < 2 ^ 32"
  shows "unat (align_up4 w) = unat w"
proof -
  obtain k where k: "unat w = 4 * k" using assms(1) by (auto elim: dvdE)
  then have "(unat w + 3) div 4 * 4 = unat w" by simp
  then show ?thesis using assms(2) by (simp add: unat_align_up4)
qed

text \<open>The three ways of \<open>rt_realloc\<close>: the size stays, the block shrinks, it moves.\<close>

definition realloc_move :: "rt_heap \<Rightarrow> u32 \<Rightarrow> u32 \<Rightarrow> nat \<Rightarrow> (u32 \<times> rt_heap) option" where
  "realloc_move h a w k = do {
     (nmem, h1) \<leftarrow> rt_malloc h w;
     if nmem \<noteq> 0 then do {
       bs \<leftarrow> load_mem h1 a k;
       h2 \<leftarrow> store_mem h1 nmem bs;
       h3 \<leftarrow> rt_free h2 a;
       Some (nmem, h3)
     } else Some (nmem, h1)
   }"

definition realloc_shrink :: "rt_heap \<Rightarrow> u32 \<Rightarrow> nat \<Rightarrow> nat \<Rightarrow> nat \<Rightarrow> (u32 \<times> rt_heap) option" where
  "realloc_shrink h a p q n = do {
     h2 \<leftarrow> split_mem (h\<lparr>heap_sem := 0, used_mem := used_mem h - of_nat (n - q)\<rparr>) (of_nat p) (of_nat q) (\<lambda>m. m);
     h' \<leftarrow> plug_holes h2 (mem_addr h2 q);
     Some (a, heap_release h')
   }"

lemma aligned_size:
  assumes rep: "heap_rep h bs" and ns: "align_up4 sz \<le> mem_size_aligned h" "align_up4 sz \<noteq> 0"
  shows "4 dvd unat (align_up4 sz)" "0 < unat (align_up4 sz)" "unat (align_up4 sz) + 24 < 2 ^ 32"
    "unat (align_up4 sz + 12 + 12) = unat (align_up4 sz) + 24"
proof -
  show "4 dvd unat (align_up4 sz)" by (simp add: unat_align_up4)
  show "0 < unat (align_up4 sz)" using ns(2) by (simp add: unat_gt_0)
  have "unat (align_up4 sz) \<le> unat (mem_size_aligned h)" using ns(1) by (simp add: word_le_nat_alt)
  moreover have "unat (mem_size_aligned h) + 24 < 2 ^ 32" using rep by (simp add: heap_rep_def end_off_def)
  ultimately show small: "unat (align_up4 sz) + 24 < 2 ^ 32" by linarith
  show "unat (align_up4 sz + 12 + 12) = unat (align_up4 sz) + 24"
    using small unat_add_of_nat [of "align_up4 sz" 24] by (simp add: add.assoc)
qed

lemma realloc_run:
  assumes rep: "heap_rep h (xs @ (p, True, n) # ys)" and sem: "heap_sem h = 1"
    and ns: "align_up4 sz \<le> mem_size_aligned h" "align_up4 sz \<noteq> 0"
  defines "a \<equiv> mem_addr h (p + 12)" and "w \<equiv> align_up4 sz"
  shows "n - (p + 12) = unat w \<Longrightarrow> rt_realloc h a sz = Some (a, h)"
    and "unat w + 24 < n - (p + 12) \<Longrightarrow> rt_realloc h a sz = realloc_shrink h a p (p + 12 + unat w) n"
    and "n - (p + 12) \<noteq> unat w \<Longrightarrow> n - (p + 12) \<le> unat w + 24 \<Longrightarrow>
      rt_realloc h a sz = realloc_move h a w (min (unat w) (n - (p + 12)))"
proof -
  note mid = heap_rep_mid [OF rep] and user = user_addr [OF rep, folded a_def]
  note w = aligned_size [OF rep ns, folded w_def]
  have n32: "p + 12 \<le> n" "n < 2 ^ 32" using mid by simp_all
  let ?size = "(of_nat n :: u32) - of_nat p - 12"
  have size_eq: "?size = of_nat (n - (p + 12))" "unat ?size = n - (p + 12)"
    using block_room [OF n32] by (simp_all add: diff_diff_eq)
  have am: "a - 12 = mem_addr h p" by (simp add: a_def)
  have get: "get_mem (h\<lparr>heap_sem := 0\<rparr>) (a - 12) = Some (block_mem True n (last_off 0 xs))"
    using mid am by (simp add: mem_addr_ops)
  have inside: "\<not> a < heap_ptr h" "\<not> heap_end h \<le> a" "\<not> mem_size_aligned h < w" using user ns by (auto simp: w_def)
  have sub: "mem_addr h (p + 12) - 12 - heap_ptr h = of_nat p" by simp
  have run: "rt_realloc h a sz = realloc_block (h\<lparr>heap_sem := 0\<rparr>) a w (of_nat p) ?size"
    using user(1) sem ns(2) get inside unfolding a_def
    by (simp only: rt_realloc_def Let_def w_def [symmetric] heap_take_def sub rt_heap.simps block_mem_sel
        bind.bind_lunit if_False simp_thms) simp
  show "rt_realloc h a sz = Some (a, h)" if "n - (p + 12) = unat w"
  proof -
    have "?size = w" using that size_eq(2) by (metis word_unat_eq_iff)
    then show ?thesis by (simp add: run realloc_block_def heap_take_release [OF sem])
  qed
  show "rt_realloc h a sz = realloc_shrink h a p (p + 12 + unat w) n" if lt: "unat w + 24 < n - (p + 12)"
  proof -
    let ?q = "p + 12 + unat w"
    have "?size \<noteq> w" "w + 12 + 12 < ?size" using lt size_eq(2) w(4) by (auto simp: word_less_nat_alt)
    moreover have "?size - w = of_nat (n - ?q)"
      using u32_diff_of_nat [of "unat w" "n - (p + 12)"] lt size_eq(1) by (simp del: of_nat_diff)
    moreover have "of_nat p + 12 + w = (of_nat ?q :: u32)" by simp
    ultimately show ?thesis by (simp add: run realloc_block_def realloc_shrink_def Let_def del: of_nat_diff of_nat_add)
  qed
  show "rt_realloc h a sz = realloc_move h a w (min (unat w) (n - (p + 12)))"
    if mv: "n - (p + 12) \<noteq> unat w" "n - (p + 12) \<le> unat w + 24"
  proof -
    have "?size \<noteq> w" "\<not> w + 12 + 12 < ?size" using mv size_eq(2) w(4) by (auto simp: word_less_nat_alt)
    moreover have k: "unat (if ?size < w then ?size else w) = min (unat w) (n - (p + 12))"
      using size_eq(2) mv(1) by (auto simp: word_less_nat_alt min_def)
    ultimately show ?thesis
      unfolding run realloc_block_def realloc_move_def Let_def k heap_take_release [OF sem] by simp
  qed
qed

lemma realloc_move_ok:
  assumes ok: "heap_ok h" and a: "heap_view h a = Some c" and w: "4 dvd unat w" "unat w + 3 < 2 ^ 32"
  defines "k \<equiv> min (unat w) (length c)"
  shows "\<exists>a' h'. realloc_move h a w k = Some (a', h') \<and> heap_ok h' \<and> same_area h h' \<and>
    (a' = 0 \<and> h' = h \<or> a' \<noteq> 0 \<and> heap_view h a' = None \<and>
      (\<exists>c'. heap_view h' = (heap_view h)(a := None, a' \<mapsto> c') \<and> unat w \<le> length c' \<and> take k c' = take k c))"
proof -
  have req: "unat w \<le> request_size w" using align_up4_idem [OF w] by (simp add: request_size_def)
  obtain a' h1 where m: "rt_malloc h w = Some (a', h1)" "heap_ok h1" "same_area h h1"
    "a' = 0 \<and> h1 = h \<or> a' \<noteq> 0 \<and> heap_view h a' = None \<and>
      (\<exists>d. heap_view h1 = (heap_view h)(a' \<mapsto> d) \<and> request_size w \<le> length d)"
    using malloc_contract [OF ok, of w] by blast
  from m(4) show ?thesis
  proof (elim disjE conjE exE)
    assume "a' = 0" "h1 = h"
    then show ?thesis using m ok by (simp add: realloc_move_def same_area_def)
  next
    fix d
    assume a': "a' \<noteq> 0" "heap_view h a' = None" and v1: "heap_view h1 = (heap_view h)(a' \<mapsto> d)" and d: "request_size w \<le> length d"
    have ne: "a \<noteq> a'" using a a'(2) by auto
    have a1: "heap_view h1 a = Some c" and d1: "heap_view h1 a' = Some d" using v1 a ne by simp_all
    have load: "load_mem h1 a k = Some (take k c)" using load_contract [OF m(2) a1, of 0 k] by (simp add: k_def)
    have "0 + length (take k c) \<le> length d" using d req by (simp add: k_def)
    from store_contract [OF m(2) d1 this]
    obtain h2 where h2: "store_mem h1 a' (take k c) = Some h2" "heap_ok h2" "same_area h1 h2"
      "heap_view h2 = (heap_view h1)(a' \<mapsto> set_bytes d 0 (take k c))" by auto
    have "heap_view h2 a = Some c" using h2(4) a1 ne by simp
    from free_contract [OF h2(2) this]
    obtain h3 where h3: "rt_free h2 a = Some h3" "heap_ok h3" "same_area h2 h3" "heap_view h3 = (heap_view h2)(a := None)"
      by auto
    let ?c' = "set_bytes d 0 (take k c)"
    have "realloc_move h a w k = Some (a', h3)" using m(1) a'(1) load h2(1) h3(1) by (simp add: realloc_move_def)
    moreover have "heap_view h3 = (heap_view h)(a := None, a' \<mapsto> ?c')" using h3(4) h2(4) v1 ne by (simp add: fun_upd_twist)
    moreover have "unat w \<le> length ?c'" "take k ?c' = take k c" using d req by (simp_all add: set_bytes_def k_def)
    moreover have "same_area h h3" using m(3) h2(3) h3(3) by (simp add: same_area_def)
    ultimately show ?thesis using a' h3(2) by blast
  qed
qed

lemma realloc_contract:
  assumes ok: "heap_ok h" and a: "heap_view h a = Some c"
    and ns: "align_up4 sz \<le> mem_size_aligned h" "align_up4 sz \<noteq> 0"
  shows "\<exists>a' h'. rt_realloc h a sz = Some (a', h') \<and> heap_ok h' \<and> same_area h h' \<and>
    (a' = 0 \<and> h' = h \<or> a' \<noteq> 0 \<and> (a' = a \<or> heap_view h a' = None) \<and>
      (\<exists>c'. heap_view h' = (heap_view h)(a := None, a' \<mapsto> c') \<and>
       unat (align_up4 sz) \<le> length c' \<and> (let k = min (unat (align_up4 sz)) (length c) in take k c' = take k c)))"
proof -
  define w where "w = align_up4 sz"
  have wf: "heap_wf h (heap_blocks h)" using ok by (simp add: heap_ok_def)
  obtain xs p n ys where p: "heap_blocks h = xs @ (p, True, n) # ys" "a = mem_addr h (p + 12)"
    "c = sub_bytes (heap_bytes h) (p + 12) n" "p + 16 \<le> n" "length c = n - (p + 12)" "n < 2 ^ 32"
    using heap_view_SomeE [OF wf a] by metis
  have rep: "heap_rep h (xs @ (p, True, n) # ys)" and sem: "heap_sem h = 1" using wf by (auto simp: heap_wf_def p(1))
  note user = user_addr [OF rep, folded p(2)] and sz = aligned_size [OF rep ns, folded w_def]
    and run = realloc_run [OF rep sem ns, folded p(2) w_def p(5)]
  consider (same) "length c = unat w" | (shrink) "unat w + 24 < length c" | (move) "length c \<noteq> unat w" "length c \<le> unat w + 24"
    by linarith
  then show ?thesis
  proof cases
    case same
    then show ?thesis using run(1) ok a user by (auto simp: same_area_def w_def intro!: exI [of _ c])
  next
    case shrink
    let ?q = "p + 12 + unat w"
    have q: "p + 16 \<le> ?q" "?q + 16 \<le> n" "4 dvd ?q" using shrink sz heap_rep_mid [OF rep] p(5) by (auto elim!: dvdE)
    obtain h2 h' bs' where s: "split_mem (h\<lparr>heap_sem := 0, used_mem := used_mem h - of_nat (n - ?q)\<rparr>) (of_nat p) (of_nat ?q) (\<lambda>m. m) = Some h2"
      "heap_ptr h2 = heap_ptr h" "plug_holes h2 (mem_addr h ?q) = Some h'" "heap_wf (heap_release h') bs'" "same_area h h'"
      "live_blocks (heap_bytes h') bs' = (live_blocks (heap_bytes h) (heap_blocks h))(p \<mapsto> sub_bytes (heap_bytes h) (p + 12) ?q)"
      using shrink_ok [OF wf p(1) q] by blast
    have r: "rt_realloc h a sz = Some (a, heap_release h')"
      using run(2) [OF shrink] s(1-3) by (simp add: realloc_shrink_def del: of_nat_diff of_nat_add)
    have area: "same_area h (heap_release h')" using s(5) by (simp add: same_area_def)
    have "heap_view (heap_release h') = (heap_view h)(a \<mapsto> sub_bytes (heap_bytes h) (p + 12) ?q)"
      unfolding p(2) by (rule heap_view_upd [OF wf s(4) area]) (use s(6) p in simp_all)
    moreover have "sub_bytes (heap_bytes h) (p + 12) ?q = take (unat w) c"
      using q by (simp add: p(3) sub_bytes_def min_def)
    ultimately show ?thesis using r heap_wf_ok [OF s(4)] area shrink user(1) by (auto simp: w_def intro!: exI [of _ "take (unat w) c"])
  next
    case move
    have "unat w + 3 < 2 ^ 32" using sz(3) by linarith
    from realloc_move_ok [OF ok a sz(1) this] run(3) [OF move] show ?thesis
      unfolding w_def [symmetric] Let_def by auto
  qed
qed

end
