(* ===== verification/Rt_Heap_Spec.thy ===== *)
theory Rt_Heap_Spec
  imports Rt_Heap_Ops
begin

text \<open>
  The contract of the kernel allocator over its operations: what a client may rely on whatever other
  clients do, which request is refused, and where the code falls short of it.
\<close>

section \<open>A fresh heap\<close>

lemma heap_setup_ok:
  assumes len: "length (heap_bytes h) = end_off h + 12" "end_off h + 12 < 2 ^ 32"
  defines "b \<equiv> set_mem (set_mem (heap_bytes h) 0 (block_mem False (end_off h) 0)) (end_off h) (block_mem True (end_off h) (end_off h))"
  shows "heap_setup h = Some (h\<lparr>heap_bytes := b, heap_end := mem_addr h (end_off h), heap_sem := 1, lfree := heap_ptr h\<rparr>)"
    "length b = end_off h + 12" "mem_at b 0 = block_mem False (end_off h) 0"
    "mem_at b (end_off h) = block_mem True (end_off h) (end_off h)"
proof -
  let ?b1 = "set_mem (heap_bytes h) 0 (block_mem False (end_off h) 0)"
  have e: "12 \<le> end_off h" by (simp add: end_off_def)
  have l1: "length ?b1 = end_off h + 12" using len by simp
  then show "length b = end_off h + 12" "mem_at b 0 = block_mem False (end_off h) 0"
    "mem_at b (end_off h) = block_mem True (end_off h) (end_off h)"
    using len e by (simp_all add: b_def mem_at_set_other)
  have "mem_size_aligned h + 12 = of_nat (end_off h)" by (simp add: end_off_def)
  then have lit: "\<lparr>magic = HEAP_MAGIC, used = 0, next_mem = mem_size_aligned h + 12, prev_mem = 0\<rparr> = block_mem False (end_off h) 0"
    "\<lparr>magic = HEAP_MAGIC, used = 1, next_mem = mem_size_aligned h + 12, prev_mem = mem_size_aligned h + 12\<rparr> =
      block_mem True (end_off h) (end_off h)"
    by (simp_all add: block_mem_def)
  have put1: "put_mem h (heap_ptr h) m = Some (h\<lparr>heap_bytes := set_mem (heap_bytes h) 0 m\<rparr>)" for m
    using put_mem_addr [of h "heap_ptr h" 0] len by simp
  have get1: "get_mem (h\<lparr>heap_bytes := ?b1\<rparr>) (heap_ptr h) = Some (block_mem False (end_off h) 0)"
    using get_mem_addr [of "h\<lparr>heap_bytes := ?b1\<rparr>" "heap_ptr h" 0] len l1 by simp
  show "heap_setup h = Some (h\<lparr>heap_bytes := b, heap_end := mem_addr h (end_off h), heap_sem := 1, lfree := heap_ptr h\<rparr>)"
    using len l1 get1 by (simp add: heap_setup_def lit put1 mem_addr_ops b_def)
qed

lemma heap_init_ok:
  assumes b: "0 < unat b" "unat b + 3 < 2 ^ 32" and room: "(unat b + 3) div 4 * 4 + 24 \<le> unat e div 4 * 4"
  shows "\<exists>h. rt_system_heap_init ram b e = Some (Inr h) \<and> heap_sem h = 1 \<and> heap_ptr h = align_up4 b \<and>
    unat (mem_size_aligned h) = unat e div 4 * 4 - (unat b + 3) div 4 * 4 - 24 \<and>
    lfree h = heap_ptr h \<and> heap_end h = mem_addr h (end_off h) \<and> used_mem h = 0 \<and> max_mem h = 0 \<and>
    length (heap_bytes h) = end_off h + 12 \<and> unat (heap_ptr h) + end_off h + 12 < 2 ^ 32 \<and>
    4 dvd unat (heap_ptr h) \<and> 4 dvd end_off h \<and>
    mem_at (heap_bytes h) 0 = block_mem False (end_off h) 0 \<and>
    mem_at (heap_bytes h) (end_off h) = block_mem True (end_off h) (end_off h)"
proof -
  define B E where "B = (unat b + 3) div 4 * 4" and "E = unat e div 4 * 4"
  have dvd: "4 dvd B" "4 dvd E" "0 < B" using b(1) by (auto simp: B_def E_def)
  have room': "B + 24 \<le> E" using room by (simp add: B_def E_def)
  have B: "unat (align_up4 b) = B" using b by (simp add: unat_align_up4 B_def)
  have "align_down4 e = e AND NOT 3" by (simp add: align_down4_def)
  then have E: "unat (align_down4 e) = E" by (simp only: unat_and_not_3 E_def)
  have "unat (align_down4 e) < 2 ^ LENGTH(32)" by (rule unsigned_less)
  then have lt: "E < 2 ^ 32" unfolding E by simp
  define ba ea where "ba = align_up4 b" and "ea = align_down4 e"
  have w: "ba = of_nat B" "ea = of_nat E" unfolding B [symmetric] E [symmetric] ba_def ea_def by simp_all
  have msa: "ea - ba - 2 * 12 = of_nat (E - B - 24)" "ea - ba = of_nat (E - B)" "ea - 2 * 12 = of_nat (E - 24)"
    using room' by (simp_all add: w of_nat_diff)
  have un: "unat (of_nat k :: u32) = k" if "k \<le> E" for k by (rule u32_unat_of_nat) (use that lt in simp)
  have "unat (2 * 12 :: u32) = 24" by simp
  moreover have "unat (ea - 2 * 12) = E - 24" unfolding msa(3) by (rule un) simp
  ultimately have c: "2 * 12 < ea" "ba \<le> ea - 2 * 12"
    using room' dvd un [of E] un [of B] unfolding word_le_nat_alt word_less_nat_alt by (simp_all add: w)
  define h0 where "h0 = \<lparr>heap_ptr = ba, heap_bytes = map (\<lambda>i. ram (ba + of_nat i)) [0..<E - B],
      heap_end = 0, lfree = 0, heap_sem = 0, mem_size_aligned = of_nat (E - B - 24), used_mem = 0, max_mem = 0\<rparr>"
  have msz: "unat (mem_size_aligned h0) = E - B - 24" unfolding h0_def rt_heap.simps by (rule un) simp
  have e0: "end_off h0 + 12 = E - B" using msz room' by (simp add: end_off_def)
  have len0: "length (heap_bytes h0) = end_off h0 + 12" unfolding e0 by (simp add: h0_def)
  have small: "end_off h0 + 12 < 2 ^ 32" using e0 lt by simp
  note st = heap_setup_ok [OF len0 small]
  obtain bb where bb: "heap_setup h0 = Some (h0\<lparr>heap_bytes := bb, heap_end := mem_addr h0 (end_off h0), heap_sem := 1, lfree := heap_ptr h0\<rparr>)"
    "length bb = end_off h0 + 12" "mem_at bb 0 = block_mem False (end_off h0) 0"
    "mem_at bb (end_off h0) = block_mem True (end_off h0) (end_off h0)"
    using st by blast
  have h0': "h0 = \<lparr>heap_ptr = ba, heap_bytes = map (\<lambda>i. ram (ba + of_nat i)) [0..<unat (ea - ba)],
      heap_end = 0, lfree = 0, heap_sem = 0, mem_size_aligned = ea - ba - 2 * 12, used_mem = 0, max_mem = 0\<rparr>"
    unfolding h0_def msa(1) unfolding msa(2) using un [of "E - B"] by simp
  let ?h = "h0\<lparr>heap_bytes := bb, heap_end := mem_addr h0 (end_off h0), heap_sem := 1, lfree := heap_ptr h0\<rparr>"
  have run: "rt_system_heap_init ram b e = Some (Inr ?h)"
    unfolding rt_system_heap_init_def Let_def ba_def [symmetric] ea_def [symmetric] h0' [symmetric] using c bb(1) by simp
  have hp: "unat (heap_ptr h0) = B" "heap_ptr h0 = align_up4 b" using B by (simp_all add: h0_def ba_def)
  obtain i j where ij: "B = 4 * i" "E = 4 * j" using dvd by (auto elim!: dvdE)
  have "end_off h0 = 4 * (j - i - 3)" using e0 room' ij by simp
  then have "4 dvd end_off h0" by simp
  moreover have "unat (heap_ptr h0) + end_off h0 + 12 < 2 ^ 32" using hp(1) e0 lt room' by linarith
  moreover have "used_mem h0 = 0" "max_mem h0 = 0" by (simp_all add: h0_def)
  moreover have "4 dvd unat (heap_ptr h0)" using hp(1) dvd(1) by simp
  ultimately show ?thesis using run msz [unfolded B_def E_def] bb(2-4) hp(2)
    by (intro exI [of _ ?h] conjI) simp_all
qed

lemma fresh_heap:
  assumes init: "rt_system_heap_init ram b e = Some (Inr h)"
    and b: "0 < unat b" "unat b + 3 < 2 ^ 32" and room: "(unat b + 3) div 4 * 4 + 36 \<le> unat e div 4 * 4"
  shows "heap_ok h" "heap_low h" "heap_view h = Map.empty" "heap_blocks h = [(0, False, end_off h)]"
proof -
  have "(unat b + 3) div 4 * 4 + 24 \<le> unat e div 4 * 4" using room by simp
  from heap_init_ok [OF b this, of ram]
  have g: "heap_sem h = 1" "unat (mem_size_aligned h) = unat e div 4 * 4 - (unat b + 3) div 4 * 4 - 24"
    "lfree h = heap_ptr h" "heap_end h = mem_addr h (end_off h)" "used_mem h = 0" "max_mem h = 0"
    "length (heap_bytes h) = end_off h + 12" "unat (heap_ptr h) + end_off h + 12 < 2 ^ 32"
    "4 dvd unat (heap_ptr h)" "4 dvd end_off h" "mem_at (heap_bytes h) 0 = block_mem False (end_off h) 0"
    "mem_at (heap_bytes h) (end_off h) = block_mem True (end_off h) (end_off h)"
    using init by (auto simp only: option.inject sum.inject)
  have e: "24 \<le> end_off h" using g(2) room by (simp add: end_off_def)
  have "heap_rep h [(0, False, end_off h)]" using g e by (simp add: heap_rep_def)
  then have wf: "heap_wf h [(0, False, end_off h)]"
    using g by (simp add: heap_wf_def lfree_in_def no_holes_def)
  show bl: "heap_blocks h = [(0, False, end_off h)]" by (rule heap_wf_blocks [OF wf])
  show "heap_ok h" by (rule heap_wf_ok [OF wf])
  show "heap_low h" using g(3) by (simp add: heap_low_def lfree_low_def bl mem_off_def)
  show "heap_view h = Map.empty" by (rule ext) (simp add: heap_view_wf [OF wf] live_Cons)
qed

section \<open>Clients\<close>

text \<open>
  An operation of a client. \<open>Resize\<close> covers \<open>rt_realloc\<close> and \<open>Fill\<close> the writes through a pointer;
  \<open>heap_allowed\<close> says that a client releases, resizes and writes only what it got and has not given back,
  within its bounds, and that the product in \<open>rt_calloc\<close> does not overflow.
\<close>

datatype heap_op =
  Alloc u32 | Zalloc u32 u32 | Resize u32 u32 | Release u32 | Fill u32 nat "u8 list"

fun heap_exec :: "heap_op \<Rightarrow> rt_heap \<Rightarrow> rt_heap option" where
  "heap_exec (Alloc n) h = map_option snd (rt_malloc h n)"
| "heap_exec (Zalloc k n) h = map_option snd (rt_calloc h k n)"
| "heap_exec (Resize a n) h = map_option snd (rt_realloc h a n)"
| "heap_exec (Release a) h = rt_free h a"
| "heap_exec (Fill a i bs) h = store_mem h (a + of_nat i) bs"

fun heap_allowed :: "heap_op \<Rightarrow> rt_heap \<Rightarrow> bool" where
  "heap_allowed (Alloc n) h \<longleftrightarrow> True"
| "heap_allowed (Zalloc k n) h \<longleftrightarrow> unat k * unat n + 3 < 2 ^ 32"
| "heap_allowed (Resize a n) h \<longleftrightarrow> a = 0 \<or> heap_view h a \<noteq> None"
| "heap_allowed (Release a) h \<longleftrightarrow> a = 0 \<or> heap_view h a \<noteq> None"
| "heap_allowed (Fill a i bs) h \<longleftrightarrow> (case heap_view h a of Some c \<Rightarrow> i + length bs \<le> length c | None \<Rightarrow> False)"

fun op_address :: "heap_op \<Rightarrow> u32 option" where
  "op_address (Resize a n) = Some a"
| "op_address (Release a) = Some a"
| "op_address (Fill a i bs) = Some a"
| "op_address _ = None"

text \<open>The operations that clients perform in some order; one that is not allowed is not performed.\<close>

fun heap_clients :: "heap_op list \<Rightarrow> rt_heap \<Rightarrow> rt_heap option" where
  "heap_clients [] h = Some h"
| "heap_clients (x # xs) h =
     (if heap_allowed x h then heap_exec x h \<bind> heap_clients xs else heap_clients xs h)"

text \<open>
  The contract of an allocator for clients that share it: an allowed operation succeeds, keeps the
  allocator intact and the contents of every block but the one it is about.
\<close>

locale shared_allocator =
  fixes ok :: "'h \<Rightarrow> bool" and view :: "'h \<Rightarrow> 'a \<rightharpoonup> 'c" and exec :: "'op \<Rightarrow> 'h \<Rightarrow> 'h option"
    and allowed :: "'op \<Rightarrow> 'h \<Rightarrow> bool" and subject :: "'op \<Rightarrow> 'a option" and clients :: "'op list \<Rightarrow> 'h \<Rightarrow> 'h option"
  assumes exec_ok: "ok h \<Longrightarrow> allowed x h \<Longrightarrow>
      \<exists>h'. exec x h = Some h' \<and> ok h' \<and> (\<forall>a c. view h a = Some c \<and> subject x \<noteq> Some a \<longrightarrow> view h' a = Some c)"
    and clients_Nil: "clients [] h = Some h"
    and clients_Cons: "clients (x # xs) h = (if allowed x h then exec x h \<bind> clients xs else clients xs h)"
begin

lemma clients_safe:
  "ok h \<Longrightarrow> \<exists>h'. clients xs h = Some h' \<and> ok h' \<and>
     (\<forall>a c. view h a = Some c \<and> Some a \<notin> subject ` set xs \<longrightarrow> view h' a = Some c)"
proof (induction xs arbitrary: h)
  case Nil
  then show ?case by (simp add: clients_Nil)
next
  case (Cons x xs)
  show ?case
  proof (cases "allowed x h")
    case True
    obtain h1 where h1: "exec x h = Some h1" "ok h1" "\<forall>a c. view h a = Some c \<and> subject x \<noteq> Some a \<longrightarrow> view h1 a = Some c"
      using exec_ok [OF Cons.prems True] by blast
    obtain h' where "clients xs h1 = Some h'" "ok h'"
      "\<forall>a c. view h1 a = Some c \<and> Some a \<notin> subject ` set xs \<longrightarrow> view h' a = Some c"
      using Cons.IH [OF h1(2)] by blast
    then show ?thesis using h1 True by (auto simp: clients_Cons)
  next
    case False
    then show ?thesis using Cons.IH [OF Cons.prems] by (auto simp: clients_Cons)
  qed
qed

end

lemma request_size_ge: "unat n + 3 < 2 ^ 32 \<Longrightarrow> unat n \<le> request_size n"
  by (simp add: request_size_def unat_align_up4)

lemma request_size_le: "request_size n \<le> unat n + 15"
proof -
  have "(unat n + 3) div 4 * 4 \<le> unat n + 3" by (rule div_times_less_eq_dividend)
  then show ?thesis by (auto simp: request_size_def unat_align_up4)
qed

lemma calloc_contract:
  assumes ok: "heap_ok h" and small: "unat k * unat n + 3 < 2 ^ 32"
  shows "\<exists>a h'. rt_calloc h k n = Some (a, h') \<and> heap_ok h' \<and> (heap_low h \<longrightarrow> heap_low h') \<and>
    (a = 0 \<and> h' = h \<or> a \<noteq> 0 \<and> heap_view h a = None \<and>
       (\<exists>c. heap_view h' = (heap_view h)(a \<mapsto> c) \<and> unat k * unat n \<le> length c \<and>
         take (unat k * unat n) c = replicate (unat k * unat n) 0))"
proof -
  have m: "unat (k * n) = unat k * unat n" using small by (simp add: unat_word_ariths)
  obtain a h1 where r: "rt_malloc h (k * n) = Some (a, h1)" "heap_ok h1" "heap_low h \<longrightarrow> heap_low h1"
    "a = 0 \<and> h1 = h \<or> a \<noteq> 0 \<and> heap_view h a = None \<and>
       (\<exists>c. heap_view h1 = (heap_view h)(a \<mapsto> c) \<and> request_size (k * n) \<le> length c)"
    using malloc_contract [OF ok, of "k * n"] by blast
  from r(4) show ?thesis
  proof (elim disjE conjE exE)
    assume "a = 0" "h1 = h"
    then show ?thesis using r ok by (simp add: rt_calloc_def)
  next
    fix c
    assume a: "a \<noteq> 0" "heap_view h a = None" and v: "heap_view h1 = (heap_view h)(a \<mapsto> c)" and c: "request_size (k * n) \<le> length c"
    let ?z = "replicate (unat k * unat n) (0 :: u8)"
    have "unat k * unat n \<le> length c" using c request_size_ge [of "k * n"] small m by simp
    then have z: "0 + length ?z \<le> length c" by simp
    obtain h2 where "store_mem h1 a ?z = Some h2" "heap_ok h2" "heap_low h1 \<longrightarrow> heap_low h2" "heap_view h2 = (heap_view h1)(a \<mapsto> set_bytes c 0 ?z)"
      using store_contract [OF r(2) _ z, of a] v by auto
    then show ?thesis using r(1,3) a v z by (auto simp: rt_calloc_def m set_bytes_def)
  qed
qed

lemma resize_null:
  "rt_realloc h 0 n = (if align_up4 n > mem_size_aligned h \<or> align_up4 n = 0 then Some (0, h) else rt_malloc h (align_up4 n))"
  by (simp add: rt_realloc_def rt_free_def Let_def)

lemma resize_zero: "align_up4 n = 0 \<Longrightarrow> rt_realloc h a n = map_option (\<lambda>h. (0, h)) (rt_free h a)"
  by (simp add: rt_realloc_def)

lemma resize_large: "align_up4 n > mem_size_aligned h \<Longrightarrow> rt_realloc h a n = Some (0, h)"
  by (simp add: rt_realloc_def)

lemma heap_exec_ok:
  assumes ok: "heap_ok h" and al: "heap_allowed x h"
  shows "\<exists>h'. heap_exec x h = Some h' \<and> heap_ok h' \<and>
    (\<forall>a c. heap_view h a = Some c \<and> op_address x \<noteq> Some a \<longrightarrow> heap_view h' a = Some c)"
proof (cases x)
  case (Alloc n)
  then show ?thesis using malloc_contract [OF ok, of n] by force
next
  case (Zalloc k n)
  then show ?thesis using calloc_contract [OF ok, of k n] al by force
next
  case (Release a)
  show ?thesis
  proof (cases "a = 0")
    case True
    then show ?thesis using ok Release by (simp add: rt_free_def)
  next
    case False
    then show ?thesis using free_contract [OF ok, of a] al Release by force
  qed
next
  case (Fill a i bs)
  then obtain c where "heap_view h a = Some c" "i + length bs \<le> length c" using al by (auto split: option.splits)
  then show ?thesis using store_contract [OF ok, of a c i bs] Fill by force
next
  case (Resize a n)
  consider (large) "align_up4 n > mem_size_aligned h" | (null) "a = 0" "\<not> align_up4 n > mem_size_aligned h"
    | (zero) "a \<noteq> 0" "align_up4 n = 0" | (other) "a \<noteq> 0" "align_up4 n \<le> mem_size_aligned h" "align_up4 n \<noteq> 0"
    by force
  then show ?thesis
  proof cases
    case large
    then show ?thesis using ok Resize by (simp add: resize_large)
  next
    case null
    then show ?thesis using ok Resize malloc_contract [OF ok, of "align_up4 n"] by (force simp: resize_null)
  next
    case zero
    then show ?thesis using free_contract [OF ok, of a] al Resize by (force simp: resize_zero)
  next
    case other
    then obtain c where "heap_view h a = Some c" using al Resize by auto
    from realloc_contract [OF ok this other(2,3)] show ?thesis using Resize by force
  qed
qed

interpretation rt_alloc: shared_allocator heap_ok heap_view heap_exec heap_allowed op_address heap_clients
  by unfold_locales (auto simp: heap_exec_ok)

lemma heap_exec_low:
  assumes ok: "heap_ok h" "heap_low h" and al: "heap_allowed x h" and x: "\<forall>a n. x \<noteq> Resize a n"
    and run: "heap_exec x h = Some h'"
  shows "heap_low h'"
proof (cases x)
  case (Alloc n)
  then show ?thesis using malloc_contract [OF ok(1), of n] run ok(2) by auto
next
  case (Zalloc k n)
  then show ?thesis using calloc_contract [OF ok(1), of k n] run ok(2) al by auto
next
  case (Release a)
  then show ?thesis using free_contract [OF ok(1), of a] run ok(2) al by (cases "a = 0") (auto simp: rt_free_def)
next
  case (Fill a i bs)
  then obtain c where "heap_view h a = Some c" "i + length bs \<le> length c" using al by (auto split: option.splits)
  then show ?thesis using store_contract [OF ok(1), of a c i bs] Fill run ok(2) by auto
qed (use x in auto)

lemma heap_clients_low:
  "heap_ok h \<Longrightarrow> heap_low h \<Longrightarrow> (\<And>a n. Resize a n \<notin> set xs) \<Longrightarrow> heap_clients xs h = Some h' \<Longrightarrow> heap_low h'"
proof (induction xs arbitrary: h)
  case (Cons x xs)
  show ?case
  proof (cases "heap_allowed x h")
    case True
    obtain h1 where h1: "heap_exec x h = Some h1" "heap_ok h1" using heap_exec_ok [OF Cons.prems(1) True] by blast
    have "heap_low h1"
      by (rule heap_exec_low [OF Cons.prems(1,2) True _ h1(1)]) (use Cons.prems(3) in auto)
    then show ?thesis using Cons.IH [OF h1(2)] Cons.prems(3,4) True h1(1) by auto
  next
    case False
    then show ?thesis using Cons.IH [OF Cons.prems(1,2)] Cons.prems(3,4) by auto
  qed
qed simp

text \<open>Live blocks do not overlap, are aligned and lie inside the heap.\<close>

definition blocks_apart :: "rt_heap \<Rightarrow> bool" where
  "blocks_apart h \<longleftrightarrow>
     (\<forall>a c. heap_view h a = Some c \<longrightarrow> 4 dvd unat a \<and> unat (heap_ptr h) + 12 \<le> unat a \<and>
        unat a + length c \<le> unat (heap_end h)) \<and>
     (\<forall>a c b d. heap_view h a = Some c \<and> heap_view h b = Some d \<and> a \<noteq> b \<longrightarrow>
        unat a + length c \<le> unat b \<or> unat b + length d \<le> unat a)"

lemma heap_ok_apart:
  assumes ok: "heap_ok h"
  shows "blocks_apart h"
proof -
  have wf: "heap_wf h (heap_blocks h)" using ok by (simp add: heap_ok_def)
  have rep: "heap_rep h (heap_blocks h)" using wf by (simp add: heap_wf_def)
  have blk: "\<exists>xs p n ys. heap_blocks h = xs @ (p, True, n) # ys \<and> unat a = unat (heap_ptr h) + (p + 12) \<and>
      length c = n - (p + 12) \<and> p + 16 \<le> n \<and> n \<le> end_off h \<and> 4 dvd p" if a: "heap_view h a = Some c" for a c
  proof -
    obtain xs p n ys where p: "heap_blocks h = xs @ (p, True, n) # ys" "a = mem_addr h (p + 12)" "length c = n - (p + 12)"
      using heap_view_SomeE [OF wf a] by metis
    note mid = heap_rep_mid [OF rep [unfolded p(1)]]
    have "unat a = unat (heap_ptr h) + (p + 12)" unfolding p(2) by (rule unat_mem_addr) (use mid in simp)
    then show ?thesis using p mid by blast
  qed
  have hp: "4 dvd unat (heap_ptr h)" "unat (heap_end h) = unat (heap_ptr h) + end_off h"
    using rep unat_mem_addr [of h "end_off h"] by (auto simp: heap_rep_def)
  show ?thesis
    unfolding blocks_apart_def
  proof (intro conjI allI impI; (elim conjE)?)
    fix a c
    assume "heap_view h a = Some c"
    from blk [OF this] obtain p n where p: "unat a = unat (heap_ptr h) + (p + 12)" "length c = n - (p + 12)" "p + 16 \<le> n"
      "n \<le> end_off h" "4 dvd p" by auto
    then show "4 dvd unat a" "unat (heap_ptr h) + 12 \<le> unat a" "unat a + length c \<le> unat (heap_end h)" using hp by auto
  next
    fix a c b d
    assume a: "heap_view h a = Some c" and b: "heap_view h b = Some d" and ne: "a \<noteq> b"
    obtain xs p n ys where p: "heap_blocks h = xs @ (p, True, n) # ys" "unat a = unat (heap_ptr h) + (p + 12)"
      "length c = n - (p + 12)" "p + 16 \<le> n" using blk [OF a] by auto
    obtain us q m vs where q: "heap_blocks h = us @ (q, True, m) # vs" "unat b = unat (heap_ptr h) + (q + 12)"
      "length d = m - (q + 12)" "q + 16 \<le> m" using blk [OF b] by auto
    have pq: "p \<noteq> q" using ne p(2) q(2) by (auto simp: word_unat_eq_iff)
    have "(q, True, m) \<in> set (xs @ (p, True, n) # ys)" using q(1) unfolding p(1) [symmetric] by simp
    then consider "(q, True, m) \<in> set xs" | "(q, True, m) \<in> set ys" using pq by auto
    then have "m \<le> p \<or> n \<le> q"
      using block_below [OF rep [unfolded p(1)]] blocks_at_range [OF heap_rep_mid(11) [OF rep [unfolded p(1)]]] by cases blast+
    then show "unat a + length c \<le> unat b \<or> unat b + length d \<le> unat a" using p q by auto
  qed
qed

section \<open>Properties\<close>

lemma take_shorter: "take k xs = take k ys \<Longrightarrow> j \<le> k \<Longrightarrow> take j xs = take j ys"
  by (metis min.absorb1 take_take)

lemma demo_heap_init: "\<exists>h0. rt_system_heap_init (\<lambda>_. 0) 0x20000000 0x20001000 = Some (Inr h0)"
proof -
  have un: "unat (0x20000000 :: u32) = 0x20000000" "unat (0x20001000 :: u32) = 0x20001000" by simp_all
  show ?thesis using heap_init_ok [of "0x20000000" "0x20001000" "\<lambda>_. 0"] unfolding un by auto
qed

text \<open>
  (C9) The kernel heap is safe for all its users together: from a fresh heap on, every sequence of
  allocations, releases, resizings and writes by clients that use only their own blocks runs through
  without an access outside the heap, a failed assertion or a held semaphore; the live blocks are aligned, lie
  inside the heap and never overlap, the statistics count exactly the blocks in use, and whatever the
  clients do next, a block that none of these operations is about keeps its contents.
\<close>

theorem heap_clients_safe:
  assumes "rt_system_heap_init ram b e = Some (Inr h0)" "0 < unat b" "unat b + 3 < 2 ^ 32"
    "(unat b + 3) div 4 * 4 + 36 \<le> unat e div 4 * 4"
  shows "\<exists>h. heap_clients xs h0 = Some h \<and> heap_ok h \<and> blocks_apart h \<and>
    (case rt_memory_info h of (total_mem, used_now, used_max) \<Rightarrow>
       unat used_now = used_total (heap_blocks h) \<and> used_now \<le> used_max) \<and>
    (\<forall>ys. \<exists>h'. heap_clients ys h = Some h' \<and>
       (\<forall>a c. heap_view h a = Some c \<and> Some a \<notin> op_address ` set ys \<longrightarrow> heap_view h' a = Some c))"
proof -
  have ok0: "heap_ok h0" using assms by (rule fresh_heap)
  obtain h where h: "heap_clients xs h0 = Some h" "heap_ok h" using rt_alloc.clients_safe [OF ok0, of xs] by blast
  then have "unat (used_mem h) = used_total (heap_blocks h)" "used_mem h \<le> max_mem h"
    by (simp_all add: heap_ok_def heap_wf_def)
  moreover have "\<forall>ys. \<exists>h'. heap_clients ys h = Some h' \<and>
      (\<forall>a c. heap_view h a = Some c \<and> Some a \<notin> op_address ` set ys \<longrightarrow> heap_view h' a = Some c)"
    using rt_alloc.clients_safe [OF h(2)] by blast
  ultimately show ?thesis using h heap_ok_apart [OF h(2)] by (auto simp: rt_memory_info_def)
qed

theorem heap_clients_safe_witness:
  "\<exists>h0 h. rt_system_heap_init (\<lambda>_. 0) 0x20000000 0x20001000 = Some (Inr h0) \<and>
     heap_clients [Alloc 100, Alloc 20, Release 0] h0 = Some h \<and> blocks_apart h"
proof -
  have un: "unat (0x20000000 :: u32) = 0x20000000" "unat (0x20001000 :: u32) = 0x20001000" by simp_all
  obtain h0 where h0: "rt_system_heap_init (\<lambda>_. 0) 0x20000000 0x20001000 = Some (Inr h0)" using demo_heap_init by blast
  show ?thesis using heap_clients_safe [OF h0, of "[Alloc 100, Alloc 20, Release 0]"] h0 unfolding un by auto
qed

text \<open>
  (C10) When \<open>rt_malloc\<close> refuses a request: on a heap that clients have used without \<open>rt_realloc\<close>, a request
  of \<open>sz\<close> bytes is refused exactly when no free block can hold it. The request counts
  rounded up to a multiple of four and as twelve bytes at least; a block at the very end of the heap can
  hold only less than its size.
\<close>

theorem rt_malloc_refuses_iff:
  assumes "rt_system_heap_init ram b e = Some (Inr h0)" "0 < unat b" "unat b + 3 < 2 ^ 32"
    "(unat b + 3) div 4 * 4 + 36 \<le> unat e div 4 * 4"
    and "\<And>a n. Resize a n \<notin> set xs" "heap_clients xs h0 = Some h" "sz \<noteq> 0"
  shows "(\<exists>r. rt_malloc h sz = Some r) \<and>
    (rt_malloc h sz = Some (0, h) \<longleftrightarrow>
      \<not> (\<exists>p n. (p, False, n) \<in> set (heap_blocks h) \<and> p + 12 + request_size sz \<le> n \<and>
           p + 12 + request_size sz < end_off h))"
proof -
  have ok0: "heap_ok h0" "heap_low h0" using fresh_heap [OF assms(1-4)] by simp_all
  have ok: "heap_ok h" using rt_alloc.clients_safe [OF ok0(1), of xs] assms(6) by auto
  have low: "heap_low h" using heap_clients_low [OF ok0 assms(5,6)] .
  have wf: "heap_wf h (heap_blocks h)" "lfree_low h (heap_blocks h)" using ok low by (simp_all add: heap_ok_def heap_low_def)
  have fit: "fits h (request_size sz) (p, False, n) \<longleftrightarrow> p + 12 + request_size sz \<le> n \<and> p + 12 + request_size sz < end_off h" for p n
    by (auto simp: end_off_def)
  have none: "rt_malloc h sz = Some (0, h) \<and> \<not> (\<exists>p n. (p, False, n) \<in> set (heap_blocks h) \<and> fits h (request_size sz) (p, False, n)) \<or>
    (\<exists>r. rt_malloc h sz = Some r \<and> r \<noteq> (0, h)) \<and> (\<exists>p n. (p, False, n) \<in> set (heap_blocks h) \<and> fits h (request_size sz) (p, False, n))"
    using rt_malloc_cases [OF wf(1) assms(7)]
  proof (elim disjE conjE exE)
    fix xs p n ys h' n' zs
    assume bs: "heap_blocks h = xs @ (p, False, n) # ys" and "fits h (request_size sz) (p, False, n)"
      and run: "rt_malloc h sz = Some (mem_addr h (p + 12), h')"
    moreover have "mem_addr h (p + 12) \<noteq> 0" using wf(1) user_addr(1) [of h xs p False n ys] by (simp add: heap_wf_def bs)
    moreover have "(p, False, n) \<in> set (heap_blocks h)" by (simp add: bs)
    ultimately show ?thesis by (intro disjI2) blast
  qed (use wf(2) in blast)
  then show ?thesis unfolding fit by auto
qed

theorem rt_malloc_refuses_iff_witness:
  "\<exists>h0 h. rt_system_heap_init (\<lambda>_. 0) 0x20000000 0x20001000 = Some (Inr h0) \<and>
     heap_clients [Alloc 100, Release 0] h0 = Some h \<and> (\<exists>r. rt_malloc h 64 = Some r)"
proof -
  have un: "unat (0x20000000 :: u32) = 0x20000000" "unat (0x20001000 :: u32) = 0x20001000" by simp_all
  obtain h0 where h0: "rt_system_heap_init (\<lambda>_. 0) 0x20000000 0x20001000 = Some (Inr h0)" using demo_heap_init by blast
  have "heap_ok h0" by (rule fresh_heap [OF h0]) (simp_all add: un)
  then obtain h where h: "heap_clients [Alloc 100, Release 0] h0 = Some h" using rt_alloc.clients_safe by blast
  show ?thesis using rt_malloc_refuses_iff [OF h0 _ _ _ _ h, of 64] h0 h unfolding un by auto
qed

text \<open>
  (C11) What \<open>rt_realloc\<close> does to a live block on an intact heap: without room for the size it returns
  null and changes nothing; otherwise the block moves or stays, holds at least the size asked for, starts
  with the bytes it held, and no other block changes.
\<close>

theorem rt_realloc_keeps_contents:
  assumes "heap_ok h" "heap_view h a = Some c" "unat n + 3 < 2 ^ 32" "n \<noteq> 0"
  shows "\<exists>a' h'. rt_realloc h a n = Some (a', h') \<and> heap_ok h' \<and>
    (a' = 0 \<and> h' = h \<or> a' \<noteq> 0 \<and> (a' = a \<or> heap_view h a' = None) \<and>
      (\<exists>c'. heap_view h' = (heap_view h)(a := None, a' \<mapsto> c') \<and> unat n \<le> length c' \<and>
         take (min (unat n) (length c)) c' = take (min (unat n) (length c)) c))"
proof (cases "align_up4 n > mem_size_aligned h")
  case True
  then show ?thesis using assms(1) by (simp add: resize_large)
next
  case False
  have up: "unat n \<le> unat (align_up4 n)" "0 < unat n" using assms(3,4) by (simp_all add: unat_align_up4 unat_gt_0)
  then have "align_up4 n \<noteq> 0" by auto
  moreover have "align_up4 n \<le> mem_size_aligned h" using False by simp
  ultimately obtain a' h' where r: "rt_realloc h a n = Some (a', h')" "heap_ok h'"
    "a' = 0 \<and> h' = h \<or> a' \<noteq> 0 \<and> (a' = a \<or> heap_view h a' = None) \<and>
      (\<exists>c'. heap_view h' = (heap_view h)(a := None, a' \<mapsto> c') \<and> unat (align_up4 n) \<le> length c' \<and>
         (let k = min (unat (align_up4 n)) (length c) in take k c' = take k c))"
    using realloc_contract [OF assms(1,2)] by blast
  have "take (min (unat n) (length c)) c' = take (min (unat n) (length c)) c"
    if "take (min (unat (align_up4 n)) (length c)) c' = take (min (unat (align_up4 n)) (length c)) c" for c'
    by (rule take_shorter [OF that]) (use up in simp)
  then show ?thesis using r up(1) unfolding Let_def by (blast intro: le_trans)
qed

lemma align_wrap: "2 ^ 32 \<le> unat sz + 3 \<Longrightarrow> align_up4 sz = 0"
  by (metis leD unat_align_up4 unat_eq_zero)

lemma malloc_fresh:
  assumes "rt_system_heap_init ram b e = Some (Inr h)" "0 < unat b" "unat b + 3 < 2 ^ 32"
    "(unat b + 3) div 4 * 4 + 36 \<le> unat e div 4 * 4" and "sz \<noteq> 0" "request_size sz + 12 < end_off h"
  shows "\<exists>a h' c. rt_malloc h sz = Some (a, h') \<and> a \<noteq> 0 \<and> heap_ok h' \<and> heap_view h' a = Some c \<and> request_size sz \<le> length c"
proof -
  note fr = fresh_heap [OF assms(1-4)]
  have wf: "heap_wf h [(0, False, end_off h)]" using fr(1) by (simp add: heap_ok_def fr(4))
  have low: "lfree_low h [(0, False, end_off h)]" using fr(2) by (simp add: heap_low_def fr(4))
  have "fits h (request_size sz) (0, False, end_off h)" using assms(6) by (simp add: end_off_def)
  then have "rt_malloc h sz \<noteq> Some (0, h)"
    using rt_malloc_cases [OF wf assms(5)] low user_addr(1) wf by (fastforce simp: heap_wf_def Cons_eq_append_conv)
  moreover obtain a h' where "rt_malloc h sz = Some (a, h')" "heap_ok h'"
    "a = 0 \<and> h' = h \<or> a \<noteq> 0 \<and> heap_view h a = None \<and>
      (\<exists>c. heap_view h' = (heap_view h)(a \<mapsto> c) \<and> request_size sz \<le> length c)"
    using malloc_contract [OF fr(1), of sz] by blast
  ultimately show ?thesis by auto
qed

lemma live_length:
  assumes "heap_ok h" "heap_view h a = Some c"
  shows "length c + 12 < 2 ^ 32"
proof -
  have "unat (heap_ptr h) + 12 \<le> unat a" "unat a + length c \<le> unat (heap_end h)"
    using heap_ok_apart [OF assms(1)] assms(2) by (auto simp: blocks_apart_def)
  moreover have "unat (heap_end h) < 2 ^ LENGTH(32)" by (rule unsigned_less)
  ultimately show ?thesis by simp
qed

lemma calloc_fresh:
  assumes ok: "heap_ok h1" "rt_malloc h (k * n) = Some (a, h1)" "a \<noteq> 0" "heap_view h1 a = Some c" "unat (k * n) \<le> length c"
  shows "\<exists>h' c'. rt_calloc h k n = Some (a, h') \<and> heap_ok h' \<and> heap_view h' a = Some c'"
proof -
  have "0 + length (replicate (unat (k * n)) (0 :: u8)) \<le> length c" using ok(5) by simp
  from store_contract [OF ok(1,4) this] show ?thesis using ok(2,3) by (auto simp: rt_calloc_def)
qed

text \<open>
  Sizes that wrap around are granted: on a fresh heap, \<open>rt_malloc\<close> of at least \<open>2^32 - 3\<close> bytes, which
  the rounding turns into 0, and \<open>rt_calloc\<close> of arguments whose product wraps to a number
  the heap can serve, return a block, and the block is shorter than what was asked for.
\<close>

theorem heap_size_wraps:
  assumes "rt_system_heap_init ram b e = Some (Inr h)" "0 < unat b" "unat b + 3 < 2 ^ 32"
    "(unat b + 3) div 4 * 4 + 40 \<le> unat e div 4 * 4"
  shows "(2 ^ 32 \<le> unat sz + 3 \<longrightarrow>
      (\<exists>a h' c. rt_malloc h sz = Some (a, h') \<and> a \<noteq> 0 \<and> heap_view h' a = Some c \<and> length c < unat sz)) \<and>
    (2 ^ 32 \<le> unat k * unat n \<and> k * n \<noteq> 0 \<and> unat (k * n) + 30 < end_off h \<longrightarrow>
      (\<exists>a h' c. rt_calloc h k n = Some (a, h') \<and> a \<noteq> 0 \<and> heap_view h' a = Some c \<and> length c < unat k * unat n))"
proof (intro conjI impI)
  have room: "(unat b + 3) div 4 * 4 + 36 \<le> unat e div 4 * 4" using assms(4) by simp
  note fresh = malloc_fresh [OF assms(1-3) room]
  have ok: "heap_ok h" by (rule fresh_heap(1) [OF assms(1-3) room])
  have "(unat b + 3) div 4 * 4 + 24 \<le> unat e div 4 * 4" using room by simp
  from heap_init_ok [OF assms(2,3) this, of ram] have "24 < end_off h" using assms(1,4) by (simp add: end_off_def)
  moreover assume sz: "2 ^ 32 \<le> unat sz + 3"
  moreover have "request_size sz = 12" using align_wrap [OF sz] by (simp add: request_size_def)
  moreover have "sz \<noteq> 0" using sz by auto
  ultimately obtain a h' c where r: "rt_malloc h sz = Some (a, h')" "a \<noteq> 0" "heap_ok h'" "heap_view h' a = Some c"
    using fresh [of sz] by auto
  then have "length c < unat sz" using live_length [OF r(3,4)] sz by simp
  then show "\<exists>a h' c. rt_malloc h sz = Some (a, h') \<and> a \<noteq> 0 \<and> heap_view h' a = Some c \<and> length c < unat sz"
    using r by blast
next
  have room: "(unat b + 3) div 4 * 4 + 36 \<le> unat e div 4 * 4" using assms(4) by simp
  have ok: "heap_ok h" by (rule fresh_heap(1) [OF assms(1-3) room])
  have small: "end_off h + 12 < 2 ^ 32" using ok by (simp add: heap_ok_def heap_wf_def heap_rep_def)
  assume kn: "2 ^ 32 \<le> unat k * unat n \<and> k * n \<noteq> 0 \<and> unat (k * n) + 30 < end_off h"
  then have "request_size (k * n) + 12 < end_off h" "unat (k * n) \<le> request_size (k * n)" 
    using small request_size_ge [of "k * n"] request_size_le [of "k * n"] by simp_all
  then obtain a h1 c where r: "rt_malloc h (k * n) = Some (a, h1)" "a \<noteq> 0" "heap_ok h1" "heap_view h1 a = Some c"
    "unat (k * n) \<le> length c"
    using malloc_fresh [OF assms(1-3) room, of "k * n"] kn by (meson le_trans)
  obtain h' c' where r': "rt_calloc h k n = Some (a, h')" "heap_ok h'" "heap_view h' a = Some c'"
    using calloc_fresh [OF r(3,1,2,4,5)] by blast
  then show "\<exists>a h' c. rt_calloc h k n = Some (a, h') \<and> a \<noteq> 0 \<and> heap_view h' a = Some c \<and> length c < unat k * unat n"
    using r(2) live_length [OF r'(2,3)] kn by auto
qed

theorem heap_size_wraps_witness:
  "\<exists>h a h'. rt_system_heap_init (\<lambda>_. 0) 0x20000000 0x20001000 = Some (Inr h) \<and>
     rt_malloc h 0xFFFFFFFE = Some (a, h') \<and> a \<noteq> 0"
proof -
  have un: "unat (0x20000000 :: u32) = 0x20000000" "unat (0x20001000 :: u32) = 0x20001000" by simp_all
  obtain h where h: "rt_system_heap_init (\<lambda>_. 0) 0x20000000 0x20001000 = Some (Inr h)" using demo_heap_init by blast
  show ?thesis using heap_size_wraps [OF h, of "0xFFFFFFFE" 0 0] h unfolding un by auto
qed

lemma plug_holes_stay:
  assumes rep: "heap_rep h (xs @ (p, False, n) # ys)" and "ends_used xs" "starts_used ys"
  shows "plug_holes h (mem_addr h p) = Some h"
  using heap_rep_mid [OF rep] plug_forward_stay [OF rep assms(3)] plug_backward_stay [OF rep assms(2)]
    mem_addr_le [of h 0 p] mem_addr_less [of h p "end_off h"]
  by (simp add: plug_holes_def rt_assert_def mem_addr_ops)

lemma full_heap_used:
  assumes rep: "heap_rep h bs" and low: "lfree_low h bs" and full: "lfree h = heap_end h" and x: "(r, v, k) \<in> set bs"
  shows "v"
proof (rule ccontr)
  assume "\<not> v"
  then have "mem_off h (lfree h) \<le> r" using low x unfolding lfree_low_def by auto
  moreover have "mem_off h (lfree h) = end_off h"
    using full rep mem_off_addr [of "end_off h" h] by (simp add: heap_rep_def)
  moreover have "r + 16 \<le> end_off h" using rep blocks_at_range [of "heap_bytes h" 0 0 bs "end_off h", OF _ x] by (simp add: heap_rep_def)
  ultimately show False by simp
qed

lemma malloc_at_end:
  assumes wf: "heap_wf h bs" and full: "lfree h = heap_end h"
  shows "rt_malloc h sz = Some (0, h)"
proof (cases "sz = 0 \<or> align_up4 sz > mem_size_aligned h")
  case True
  then show ?thesis by (auto simp: rt_malloc_def)
next
  case False
  have w: "heap_rep h bs" "heap_sem h = 1" using wf by (simp_all add: heap_wf_def)
  define s where "s = (if align_up4 sz < 12 then 12 else align_up4 sz)"
  have "12 \<le> unat (mem_size_aligned h)" using w(1) by (simp add: heap_rep_def end_off_def)
  then have le: "s \<le> mem_size_aligned h" using False by (auto simp: s_def word_le_nat_alt word_less_nat_alt)
  have l: "lfree h - heap_ptr h = of_nat (end_off h)" using full w(1) by (simp add: heap_rep_def)
  have "malloc_find (h\<lparr>heap_sem := 0\<rparr>) s (of_nat (end_off h)) = Some None"
    using malloc_find_ok [of s "h\<lparr>heap_sem := 0\<rparr>" 0 "end_off h" "[]"] le w(1) by (simp add: heap_rep_def)
  then show ?thesis using False w(2) heap_take_release [OF w(2)]
    by (simp add: rt_malloc_def Let_def heap_take_def s_def [symmetric] l)
qed

text \<open>
  Memory that \<open>rt_realloc\<close> gives back is not found again: on a heap without a free block, shrinking a block
  makes a free block out of its rest but leaves \<open>lfree\<close> behind it, so that \<open>rt_malloc\<close> refuses
  every request from then on, also those the free block could hold.
\<close>

theorem rt_realloc_hides_free_memory:
  assumes ok: "heap_ok h" "heap_low h" and full: "lfree h = heap_end h" and a: "heap_view h a = Some c"
    and n: "align_up4 n \<noteq> 0" "unat (align_up4 n) + 24 < length c"
  shows "\<exists>h' q. rt_realloc h a n = Some (a, h') \<and> heap_ok h' \<and>
    (q, False, q + (length c - unat (align_up4 n))) \<in> set (heap_blocks h') \<and> (\<forall>sz. rt_malloc h' sz = Some (0, h'))"
proof -
  define w where "w = align_up4 n"
  have wf: "heap_wf h (heap_blocks h)" using ok by (simp add: heap_ok_def)
  obtain xs p m ys where p: "heap_blocks h = xs @ (p, True, m) # ys" "a = mem_addr h (p + 12)"
    "p + 16 \<le> m" "length c = m - (p + 12)"
    using heap_view_SomeE [OF wf a] by metis
  have rep: "heap_rep h (xs @ (p, True, m) # ys)" and sem: "heap_sem h = 1" using wf by (auto simp: heap_wf_def p(1))
  note mid = heap_rep_mid [OF rep]
  have "m - (p + 12) \<le> unat (mem_size_aligned h)" using mid by (simp add: end_off_def)
  then have le: "align_up4 n \<le> mem_size_aligned h" using n(2) p(4) by (simp add: word_le_nat_alt)
  note sz = aligned_size [OF rep le n(1), folded w_def] and run = realloc_run [OF rep sem le n(1), folded p(2) w_def p(4)]
  let ?q = "p + 12 + unat w"
  have q: "p + 16 \<le> ?q" "?q + 16 \<le> m" "4 dvd ?q" using n(2) sz mid p(4) by (auto simp: w_def elim!: dvdE)
  have used: "v" if "(r, v, k) \<in> set (xs @ (p, True, m) # ys)" for r v k
    by (rule full_heap_used [OF rep _ full that]) (use ok(2) in \<open>simp add: heap_low_def p(1)\<close>)
  let ?h1 = "h\<lparr>heap_sem := 0, used_mem := used_mem h - of_nat (m - ?q)\<rparr>"
  obtain h2 h' bs' where s: "split_mem ?h1 (of_nat p) (of_nat ?q) (\<lambda>m. m) = Some h2" "heap_ptr h2 = heap_ptr h"
      "plug_holes h2 (mem_addr h ?q) = Some h'" "heap_wf (heap_release h') bs'"
    using shrink_ok [OF wf p(1) q] by blast
  have rep1: "heap_rep ?h1 (xs @ (p, True, m) # ys)" using rep by simp
  from split_mem_ok [OF rep1 q, of "\<lambda>m. m" True, OF refl] obtain b where
    "split_mem ?h1 (of_nat p) (of_nat ?q) (\<lambda>m. m) = Some (?h1\<lparr>heap_bytes := b\<rparr>)"
    "heap_rep (?h1\<lparr>heap_bytes := b\<rparr>) (xs @ (p, True, ?q) # (?q, False, m) # ys)" by (elim exE conjE)
  then have b: "h2 = ?h1\<lparr>heap_bytes := b\<rparr>" "heap_rep h2 ((xs @ [(p, True, ?q)]) @ (?q, False, m) # ys)"
    unfolding s(1) option.inject by (metis, metis append.assoc append_Cons append_Nil)
  have "starts_used ys" using used by fastforce
  then have h': "h' = h2" using plug_holes_stay [OF b(2)] s(2,3) by auto
  have bs': "bs' = xs @ (p, True, ?q) # (?q, False, m) # ys"
    using heap_wf_blocks [OF s(4)] b(2) mem_walk_blocks [of "heap_bytes h2" 0 0 _ "end_off h2"] unfolding h'
    by (simp add: heap_blocks_def heap_rep_def)
  have "rt_realloc h a n = Some (a, heap_release h')"
    using run(2) n(2) s(1-3) by (simp add: realloc_shrink_def w_def del: of_nat_diff of_nat_add)
  moreover have "rt_malloc (heap_release h') z = Some (0, heap_release h')" for z
    by (rule malloc_at_end [OF s(4)]) (simp add: h' b(1) full)
  moreover have "(?q, False, ?q + (length c - unat w)) \<in> set (heap_blocks (heap_release h'))"
    using p(4) q unfolding heap_wf_blocks [OF s(4)] bs' by simp
  ultimately show ?thesis using heap_wf_ok [OF s(4)] unfolding w_def by blast
qed

text \<open>A small heap whose only block is in use.\<close>

definition demo_fresh :: rt_heap where
  "demo_fresh = (case rt_system_heap_init (\<lambda>_. 0) 0x1000 0x1060 of Some (Inr h) \<Rightarrow> h)"

definition demo_full :: rt_heap where
  "demo_full = (case rt_malloc demo_fresh 60 of Some (a, h) \<Rightarrow> h)"

definition heap_summary :: "rt_heap \<Rightarrow> heap_block list \<times> bool \<times> u32 \<times> nat" where
  "heap_summary h = (heap_blocks h, lfree h = heap_end h, heap_ptr h, length (heap_bytes h))"

lemma demo_full_summary: "heap_summary demo_full = ([(0, True, 84)], True, 0x1000, 96)"
  by code_simp

lemma demo_full_state:
  "heap_blocks demo_full = [(0, True, 84)]" "lfree demo_full = heap_end demo_full" "heap_ptr demo_full = 0x1000"
  "length (heap_bytes demo_full) = 96"
  using demo_full_summary by (simp_all add: heap_summary_def)

lemma demo_full_ok: "heap_ok demo_full" "heap_low demo_full"
  "\<exists>c. heap_view demo_full 0x100C = Some c \<and> length c = 72"
proof -
  have un: "unat (0x1000 :: u32) = 0x1000" "unat (0x1060 :: u32) = 0x1060" by simp_all
  obtain h where h: "rt_system_heap_init (\<lambda>_. 0) 0x1000 0x1060 = Some (Inr h)"
    using heap_init_ok [of "0x1000" "0x1060" "\<lambda>_. 0"] unfolding un by auto
  then have "heap_ok demo_fresh" by (auto simp: demo_fresh_def un intro: fresh_heap)
  then show ok: "heap_ok demo_full" using malloc_contract [of demo_fresh 60] by (auto simp: demo_full_def)
  show "heap_low demo_full" by (simp add: heap_low_def lfree_low_def demo_full_state)
  show "\<exists>c. heap_view demo_full 0x100C = Some c \<and> length c = 72"
    by (simp add: heap_view_def demo_full_state live_Cons mem_off_def)
qed

theorem rt_realloc_hides_free_memory_witness:
  "\<exists>h' q. rt_realloc demo_full 0x100C 4 = Some (0x100C, h') \<and> (q, False, q + 68) \<in> set (heap_blocks h') \<and>
     rt_malloc h' 12 = Some (0, h')"
proof -
  obtain c where c: "heap_view demo_full 0x100C = Some c" "length c = 72" using demo_full_ok(3) by blast
  have n: "unat (align_up4 4) = 4" by (simp add: unat_align_up4)
  then have "align_up4 4 \<noteq> 0" by auto
  then show ?thesis
    using rt_realloc_hides_free_memory [OF demo_full_ok(1,2) demo_full_state(2) c(1), of 4] c(2) n by auto
qed

theorem rt_realloc_keeps_contents_witness:
  "\<exists>a' h'. rt_realloc demo_full 0x100C 30 = Some (a', h') \<and> heap_ok h'"
proof -
  obtain c where c: "heap_view demo_full 0x100C = Some c" using demo_full_ok(3) by blast
  show ?thesis using rt_realloc_keeps_contents [OF demo_full_ok(1) c, of 30] by auto
qed

section \<open>Termination of the search\<close>

definition at_end_stub :: "rt_heap \<Rightarrow> u32 \<Rightarrow> u32 \<Rightarrow> bool" where
  "at_end_stub h sz p \<longleftrightarrow> p < mem_size_aligned h - sz \<and>
     (\<exists>m. get_mem h (heap_ptr h + p) = Some m \<and> used m = 1 \<and> next_mem m = p)"

lemma unat_sub_wrap:
  assumes "unat (a :: u32) < 12"
  shows "unat (a - 12) = 2 ^ 32 + unat a - 12"
proof -
  have "a - 12 = of_nat (2 ^ 32 - 12) + of_nat (unat a)" by simp
  also have "\<dots> = of_nat (2 ^ 32 + unat a - 12)" unfolding of_nat_add [symmetric] by (rule arg_cong) simp
  finally have "a - 12 = of_nat (2 ^ 32 + unat a - 12)" .
  moreover have "unat (of_nat (2 ^ 32 + unat a - 12) :: u32) = 2 ^ 32 + unat a - 12"
    by (rule u32_unat_of_nat) (use assms in simp)
  ultimately show ?thesis by (simp only:)
qed

lemma search_stuck:
  assumes "malloc_find h sz p = Some r"
  shows "\<not> at_end_stub h sz p"
proof (rule malloc_find.raw_induct [where P = "\<lambda>h sz p r. \<not> at_end_stub h sz p", OF _ assms])
  fix f h sz p r
  assume IH: "\<And>h sz p r. f h sz p = Some r \<Longrightarrow> \<not> at_end_stub h sz p"
    and body: "(if p < mem_size_aligned h - sz then do {
        m \<leftarrow> get_mem h (heap_ptr h + p);
        if used m = 0 \<and> next_mem m - (p + 12) \<ge> sz then Some (Some p) else f h sz (next_mem m)
      } else Some None) = Some r"
  show "\<not> at_end_stub h sz p"
  proof
    assume st: "at_end_stub h sz p"
    then have "f h sz p = Some r" using body by (auto simp: at_end_stub_def)
    then show False using IH st by blast
  qed
qed

text \<open>
  (C12) The search of \<open>rt_malloc\<close> on a fresh heap comes to an end exactly when the heap has room for the
  smallest block: with less than twelve bytes the bound of the loop, size of the heap minus size of
  the request, wraps around, and a request that passes the size check stays at the end of the heap forever.
\<close>

theorem rt_malloc_terminates_iff:
  assumes init: "rt_system_heap_init ram b e = Some (Inr h)" and b: "0 < unat b" "unat b + 3 < 2 ^ 32"
    and room: "(unat b + 3) div 4 * 4 + 24 \<le> unat e div 4 * 4"
    and sz: "sz \<noteq> 0" "align_up4 sz \<le> mem_size_aligned h"
  shows "(\<exists>r. rt_malloc h sz = Some r) \<longleftrightarrow> 12 \<le> unat (mem_size_aligned h)"
proof -
  from heap_init_ok [OF b room, of ram]
  have g: "heap_sem h = 1" "unat (mem_size_aligned h) = unat e div 4 * 4 - (unat b + 3) div 4 * 4 - 24"
    "lfree h = heap_ptr h" "length (heap_bytes h) = end_off h + 12" "unat (heap_ptr h) + end_off h + 12 < 2 ^ 32"
    "mem_at (heap_bytes h) 0 = block_mem False (end_off h) 0"
    "mem_at (heap_bytes h) (end_off h) = block_mem True (end_off h) (end_off h)"
    using init by (auto simp only: option.inject sum.inject)
  show ?thesis
  proof
    assume "12 \<le> unat (mem_size_aligned h)"
    then have "(unat b + 3) div 4 * 4 + 36 \<le> unat e div 4 * 4" using g(2) by linarith
    then have "heap_ok h" using init b by (intro fresh_heap)
    then show "\<exists>r. rt_malloc h sz = Some r" using malloc_contract by blast
  next
    assume run: "\<exists>r. rt_malloc h sz = Some r"
    show "12 \<le> unat (mem_size_aligned h)"
    proof (rule ccontr)
      assume "\<not> 12 \<le> unat (mem_size_aligned h)"
      then have small: "unat (mem_size_aligned h) < 12" by simp
      let ?h = "h\<lparr>heap_sem := 0\<rparr>" and ?e = "of_nat (end_off h) :: u32"
      have s12: "(if align_up4 sz < 12 then 12 else align_up4 sz) = 12"
        using small sz(2) by (auto simp: word_le_nat_alt word_less_nat_alt)
      have un: "unat ?e = end_off h" using g(5) by (intro u32_unat_of_nat) simp
      have bound: "unat (mem_size_aligned h - 12) = 2 ^ 32 + unat (mem_size_aligned h) - 12" by (rule unat_sub_wrap [OF small])
      have e12: "?e - 12 = mem_size_aligned h" by (simp add: end_off_def)
      have get0: "get_mem ?h (heap_ptr h) = Some (block_mem False (end_off h) 0)"
        using get_mem_addr [of ?h "heap_ptr h" 0] g by simp
      have gete: "get_mem ?h (heap_ptr h + ?e) = Some (block_mem True (end_off h) (end_off h))"
        using get_mem_addr [of ?h "heap_ptr h" "end_off h"] g by simp
      have "at_end_stub ?h 12 ?e"
        using gete bound un small by (simp add: at_end_stub_def word_less_nat_alt end_off_def)
      moreover have "malloc_find ?h 12 0 = malloc_find ?h 12 ?e"
        using get0 bound small by (subst malloc_find.simps) (simp add: word_less_nat_alt word_le_nat_alt e12)
      ultimately have "malloc_find ?h 12 0 = None" using search_stuck by fastforce
      moreover have "\<not> mem_size_aligned h < align_up4 sz" using sz(2) by simp
      ultimately have "rt_malloc h sz = None"
        using sz(1) g(1,3) unfolding rt_malloc_def Let_def s12 by (simp add: heap_take_def del: not_less)
      then show False using run by simp
    qed
  qed
qed

theorem rt_malloc_terminates_iff_witness:
  "\<exists>h h'. rt_system_heap_init (\<lambda>_. 0) 0x1000 0x1020 = Some (Inr h) \<and> rt_malloc h 4 = None \<and>
     rt_system_heap_init (\<lambda>_. 0) 0x1000 0x1060 = Some (Inr h') \<and> rt_malloc h' 4 \<noteq> None"
proof -
  have un: "unat (0x1000 :: u32) = 0x1000" "unat (0x1020 :: u32) = 0x1020" "unat (0x1060 :: u32) = 0x1060" by simp_all
  have four: "unat (align_up4 4) = 4" by (simp add: unat_align_up4)
  obtain h where h: "rt_system_heap_init (\<lambda>_. 0) 0x1000 0x1020 = Some (Inr h)" "unat (mem_size_aligned h) = 8"
    using heap_init_ok [of "0x1000" "0x1020" "\<lambda>_. 0"] unfolding un by auto
  obtain h' where h': "rt_system_heap_init (\<lambda>_. 0) 0x1000 0x1060 = Some (Inr h')" "unat (mem_size_aligned h') = 72"
    using heap_init_ok [of "0x1000" "0x1060" "\<lambda>_. 0"] unfolding un by auto
  show ?thesis
    using rt_malloc_terminates_iff [OF h(1), of 4] rt_malloc_terminates_iff [OF h'(1), of 4] h h' four
    unfolding un by (cases "rt_malloc h 4") (auto simp: word_le_nat_alt)
qed

end
