(* ===== verification/Wn_Path.thy ===== *)
theory Wn_Path
  imports C_Mem
begin

text \<open>
  Paths of web requests (\<open>wn_utils.c\<close>). \<open>str_normalize_path\<close> resolves \<open>.\<close> and \<open>..\<close> in place; it is compared
  with the resolution of the list of names that make up the path.
\<close>

section \<open>Normalising in place\<close>

text \<open>The loops over the array; \<open>src\<close> and \<open>dst\<close> are the positions of the two pointers.\<close>

partial_function (option) skip_slashes :: "u8 list \<Rightarrow> nat \<Rightarrow> nat option" where
  "skip_slashes buf src = do { c \<leftarrow> rd buf src; if c = 47 then skip_slashes buf (src + 1) else Some src }"

partial_function (option) copy_segment :: "u8 list \<Rightarrow> nat \<Rightarrow> nat \<Rightarrow> (u8 \<times> u8 list \<times> nat \<times> nat) option" where
  "copy_segment buf src dst = do {
     c \<leftarrow> rd buf src;
     if c \<noteq> 0 \<and> c \<noteq> 47 then do { buf \<leftarrow> wr buf dst c; copy_segment buf (src + 1) (dst + 1) }
     else Some (c, buf, src + 1, dst)
   }"

partial_function (option) up_one :: "u8 list \<Rightarrow> nat \<Rightarrow> nat option" where
  "up_one buf dst =
     (if dst = 0 then Some 0 else do { c \<leftarrow> rd buf (dst - 1); if c \<noteq> 47 then up_one buf (dst - 1) else Some dst })"

text \<open>The result is whether the path could be resolved, the array and the final \<open>dst\<close>.\<close>

partial_function (option) normalize_go :: "u8 list \<Rightarrow> nat \<Rightarrow> nat \<Rightarrow> (bool \<times> u8 list \<times> nat) option" where
  "normalize_go buf src dst = do {
     c \<leftarrow> rd buf src;
     d \<leftarrow> (if c = 46 then rd buf (src + 1) else Some 0);
     e \<leftarrow> (if c = 46 \<and> d = 46 then rd buf (src + 2) else Some 1);
     if c = 46 \<and> d = 47 then do { src \<leftarrow> skip_slashes buf (src + 2); normalize_go buf src dst }
     else if c = 46 \<and> d = 46 \<and> (e = 0 \<or> e = 47) then do {
       src \<leftarrow> (if e = 0 then Some (src + 2) else skip_slashes buf (src + 3));
       if dst = 0 then Some (False, buf, dst)
       else do { dst \<leftarrow> up_one buf (dst - 1); normalize_go buf src dst }
     } else do {
       let src = (if c = 46 \<and> d = 0 then src + 1 else src);
       (c, buf, src, dst) \<leftarrow> copy_segment buf src dst;
       if c = 47 then do {
         buf \<leftarrow> wr buf dst 47;
         src \<leftarrow> skip_slashes buf src;
         normalize_go buf src (dst + 1)
       } else Some (True, buf, dst)
     }
   }"

declare skip_slashes.simps [code] copy_segment.simps [code] up_one.simps [code] normalize_go.simps [code]

definition str_normalize_path :: "u8 list \<Rightarrow> (bool \<times> u8 list) option" where
  "str_normalize_path buf = do {
     (found, buf, dst) \<leftarrow> normalize_go buf 0 0;
     if \<not> found then Some (False, buf)
     else do {
       buf \<leftarrow> wr buf dst 0;
       if dst = 1 then Some (True, buf)
       else do {
         c \<leftarrow> rdi buf (int dst - 1);
         buf \<leftarrow> (if c = 47 then wri buf (int dst - 1) 0 else Some buf);
         Some (True, buf)
       }
     }
   }"

section \<open>Resolving names\<close>

text \<open>The names of a path, each with whether a slash follows; several slashes count as one.\<close>

lemma drop_slash: "dropWhile (\<lambda>c. c \<noteq> 47) s \<noteq> [] \<Longrightarrow> \<exists>r. dropWhile (\<lambda>c. c \<noteq> 47) s = (47 :: u8) # r"
  by (induction s) auto

function path_names :: "u8 list \<Rightarrow> (u8 list \<times> bool) list" where
  "path_names s =
     (if s = [] then []
      else let name = takeWhile (\<lambda>c. c \<noteq> 47) s; rest = dropWhile (\<lambda>c. c \<noteq> 47) s in
        if rest = [] then [(name, False)] else (name, True) # path_names (dropWhile (\<lambda>c. c = 47) rest))"
  by pat_completeness auto
termination
proof (relation "measure length")
  fix s n r :: "u8 list"
  assume r: "r = dropWhile (\<lambda>c. c \<noteq> 47) s" "r \<noteq> []"
  then obtain r' where r': "r = 47 # r'" using drop_slash [of s] by auto
  have "length r \<le> length s" unfolding r(1) by (rule length_dropWhile_le)
  moreover have "length (dropWhile (\<lambda>c. c = 47) r) \<le> length r'" unfolding r' using length_dropWhile_le [of "\<lambda>c. c = 47" r'] by simp
  ultimately show "(dropWhile (\<lambda>c. c = 47) r, s) \<in> measure length" by (simp add: r')
qed simp

declare path_names.simps [simp del]

fun resolve :: "(u8 list \<times> bool) list \<Rightarrow> (u8 list \<times> bool) list \<Rightarrow> (u8 list \<times> bool) list option" where
  "resolve st [] = Some st"
| "resolve st ((name, sl) # ns) =
     (if name = [46] then resolve st ns
      else if name = [46, 46] then if st = [] then None else resolve (butlast st) ns
      else resolve (st @ [(name, sl)]) ns)"

definition flat_path :: "(u8 list \<times> bool) list \<Rightarrow> u8 list" where
  "flat_path st = concat (map (\<lambda>(name, sl). name @ (if sl then [47] else [])) st)"

definition trim_slash :: "u8 list \<Rightarrow> u8 list" where
  "trim_slash s = (if 1 < length s \<and> last s = 47 then butlast s else s)"

section \<open>The loops\<close>

lemma rd_at: "i \<le> length b \<Longrightarrow> drop i b = c # r \<Longrightarrow> rd b i = Some c"
  by (cases "i < length b") (auto simp: rd_def Cons_nth_drop_Suc [symmetric])

lemma drop_add: "drop i b = xs @ r \<Longrightarrow> drop (i + length xs) b = r"
  by (metis add.commute append_eq_conv_conj drop_drop)

lemma drop_some_le: "drop i b = c # r \<Longrightarrow> i < length b"
  by (rule ccontr) simp

lemma skip_slashes_ok:
  "drop i b = s @ c # r \<Longrightarrow> (\<And>x. x \<in> set s \<Longrightarrow> x = 47) \<Longrightarrow> c \<noteq> 47 \<Longrightarrow> skip_slashes b i = Some (i + length s)"
proof (induction s arbitrary: i)
  case Nil
  then show ?case using drop_some_le [of i b c r] by (subst skip_slashes.simps) (simp add: rd_at)
next
  case (Cons x s)
  have "drop (i + 1) b = s @ c # r" using drop_add [of i b "[x]" "s @ c # r"] Cons.prems(1) by simp
  then have "skip_slashes b (i + 1) = Some (i + 1 + length s)" using Cons by simp
  moreover have "rd b i = Some 47" using Cons.prems drop_some_le [of i b x "s @ c # r"] by (simp add: rd_at)
  ultimately show ?case by (subst skip_slashes.simps) simp
qed

lemma copy_segment_ok:
  "take d b = out \<Longrightarrow> d \<le> i \<Longrightarrow> drop i b = s @ c # r \<Longrightarrow> 0 \<notin> set s \<Longrightarrow> 47 \<notin> set s \<Longrightarrow> c = 0 \<or> c = 47 \<Longrightarrow>
     \<exists>b'. copy_segment b i d = Some (c, b', i + length s + 1, d + length s) \<and> take (d + length s) b' = out @ s \<and>
       drop (i + length s) b' = c # r \<and> length b' = length b"
proof (induction s arbitrary: i d b out)
  case Nil
  then have "rd b i = Some c" using drop_some_le [of i b c r] by (simp add: rd_at)
  then show ?case using Nil by (subst copy_segment.simps) auto
next
  case (Cons x s)
  have i: "i < length b" using Cons.prems(3) drop_some_le [of i b x "s @ c # r"] by simp
  have x: "rd b i = Some x" "x \<noteq> 0" "x \<noteq> 47" using Cons.prems i by (auto simp: rd_at)
  let ?b = "b[d := x]"
  have "take (d + 1) ?b = out @ [x]" using Cons.prems(1,2) i by (simp add: take_Suc_conv_app_nth)
  moreover have "drop (i + 1) ?b = s @ c # r" using Cons.prems(2,3) drop_add [of i b "[x]" "s @ c # r"] by simp
  ultimately obtain b' where "copy_segment ?b (i + 1) (d + 1) = Some (c, b', i + 1 + length s + 1, d + 1 + length s)"
    "take (d + 1 + length s) b' = (out @ [x]) @ s" "drop (i + 1 + length s) b' = c # r" "length b' = length b"
    using Cons.IH [of "d + 1" ?b "out @ [x]" "i + 1"] Cons.prems by auto
  then show ?case using x Cons.prems(2) i by (subst copy_segment.simps) (simp add: wr_def)
qed

lemma up_one_ok:
  "take d b = out @ s \<Longrightarrow> d \<le> length b \<Longrightarrow> 47 \<notin> set s \<Longrightarrow> out = [] \<or> last out = 47 \<Longrightarrow> up_one b d = Some (length out)"
proof (induction s arbitrary: d rule: rev_induct)
  case Nil
  then have "d = length out" by (metis append_Nil2 length_take min.absorb2)
  show ?case
  proof (cases "out = []")
    case False
    then have "b ! (d - 1) = 47" using Nil \<open>d = length out\<close> nth_take [of "d - 1" d b] by (simp add: last_conv_nth)
    moreover have "d - 1 < length b" using False Nil(2) \<open>d = length out\<close> by (cases out) simp_all
    ultimately show ?thesis using False Nil \<open>d = length out\<close> by (subst up_one.simps) (simp add: rd_def)
  qed (use \<open>d = length out\<close> in \<open>subst up_one.simps, simp\<close>)
next
  case (snoc x s)
  have d: "d = length out + length s + 1" using arg_cong [OF snoc.prems(1), of length] snoc.prems(2) by simp
  have "take (d - 1) b = out @ s" using arg_cong [OF snoc.prems(1), of butlast] snoc.prems(2) d by (simp add: butlast_take butlast_append)
  then have "up_one b (d - 1) = Some (length out)" using snoc by simp
  moreover have "b ! (d - 1) = x" using arg_cong [OF snoc.prems(1), of "\<lambda>l. l ! (d - 1)"] snoc.prems(2) d by (simp add: nth_append)
  ultimately show ?case using snoc.prems d by (subst up_one.simps) (simp add: rd_def)
qed

text \<open>One round, by the name at hand; \<open>x\<close> is the character behind it.\<close>

lemma rd_ahead: "drop i b = xs @ c # r \<Longrightarrow> rd b (i + length xs) = Some c"
  using drop_add [of i b xs "c # r"] drop_some_le [of "i + length xs" b c r] by (simp add: rd_at)

lemma go_dot:
  assumes "drop i b = 46 # x # r" "x = 0 \<or> x = 47"
  shows "normalize_go b i d =
    (if x = 47 then do { src \<leftarrow> skip_slashes b (i + 2); normalize_go b src d }
     else do { (c, b, src, d) \<leftarrow> copy_segment b (i + 1) d; Some (True, b, d) })"
proof -
  have "rd b i = Some 46" "rd b (i + 1) = Some x" using rd_ahead [of i b "[]" 46 "x # r"] rd_ahead [of i b "[46]" x r] assms(1) by simp_all
  moreover have "x = 0 \<Longrightarrow> copy_segment b (i + 1) d = Some (0, b, i + 2, d)" using calculation by (subst copy_segment.simps) simp
  ultimately show ?thesis using assms(2) by (subst normalize_go.simps) auto
qed

lemma go_dotdot:
  assumes "drop i b = 46 # 46 # x # r" "x = 0 \<or> x = 47"
  shows "normalize_go b i d = do {
      src \<leftarrow> (if x = 0 then Some (i + 2) else skip_slashes b (i + 3));
      if d = 0 then Some (False, b, d) else do { d \<leftarrow> up_one b (d - 1); normalize_go b src d } }"
proof -
  have "rd b i = Some 46" "rd b (i + 1) = Some 46" "rd b (i + 2) = Some x"
    using rd_ahead [of i b "[]" 46 "46 # x # r"] rd_ahead [of i b "[46]" 46 "x # r"] rd_ahead [of i b "[46, 46]" x r] assms(1) by simp_all
  then show ?thesis using assms(2) by (subst normalize_go.simps) simp
qed

lemma go_name:
  assumes b: "drop i b = name @ x # r" and x: "x = 0 \<or> x = 47" and name: "0 \<notin> set name" "47 \<notin> set name" "name \<noteq> [46]" "name \<noteq> [46, 46]"
  shows "normalize_go b i d = do {
      (c, b, src, d) \<leftarrow> copy_segment b i d;
      if c = 47 then do { b \<leftarrow> wr b d 47; src \<leftarrow> skip_slashes b src; normalize_go b src (d + 1) } else Some (True, b, d) }"
proof -
  consider "name = [] \<or> hd name \<noteq> 46" | c n where "name = 46 # c # n" "c \<noteq> 46" | c n where "name = 46 # 46 # c # n"
    using name(3,4) by (cases name; cases "tl name"; cases "tl (tl name)") auto
  then show ?thesis
  proof cases
    case 1
    then have "\<exists>c. rd b i = Some c \<and> c \<noteq> 46" using rd_ahead [of i b "[]" "hd (name @ x # r)" "tl (name @ x # r)"] b x by (cases name) auto
    then show ?thesis by (subst normalize_go.simps) auto
  next
    case (2 c n)
    then have "rd b i = Some 46" "rd b (i + 1) = Some c" using rd_ahead [of i b "[]" 46 "c # n @ x # r"] rd_ahead [of i b "[46]" c "n @ x # r"] b by simp_all
    then show ?thesis using 2 name(1,2) by (subst normalize_go.simps) simp
  next
    case (3 c n)
    then have "rd b i = Some 46" "rd b (i + 1) = Some 46" "rd b (i + 2) = Some c"
      using rd_ahead [of i b "[]" 46 "46 # c # n @ x # r"] rd_ahead [of i b "[46]" 46 "c # n @ x # r"]
        rd_ahead [of i b "[46, 46]" c "n @ x # r"] b by simp_all
    then show ?thesis using 3 name(1,2) by (subst normalize_go.simps) simp
  qed
qed

text \<open>The names kept so far, all with a slash, are what has been written.\<close>

definition kept :: "(u8 list \<times> bool) list \<Rightarrow> bool" where
  "kept st \<longleftrightarrow> (\<forall>(name, sl) \<in> set st. sl \<and> 47 \<notin> set name)"

lemma flat_path_simps [simp]:
  "flat_path [] = []" "flat_path ((name, sl) # st) = name @ (if sl then [47] else []) @ flat_path st"
  "flat_path (st @ st') = flat_path st @ flat_path st'"
  by (simp_all add: flat_path_def)

lemma kept_snoc: "kept (st @ [(name, sl)]) \<longleftrightarrow> kept st \<and> sl \<and> 47 \<notin> set name"
  by (auto simp: kept_def)

lemma kept_last: "kept st \<Longrightarrow> flat_path st = [] \<or> last (flat_path st) = 47"
proof (cases st rule: rev_cases)
  case (snoc ys y)
  then show "kept st \<Longrightarrow> ?thesis" by (cases y) (simp add: kept_snoc)
qed simp

definition normalizes :: "u8 list \<Rightarrow> nat \<Rightarrow> nat \<Rightarrow> (u8 list \<times> bool) list \<Rightarrow> u8 list \<Rightarrow> bool" where
  "normalizes b i d st s \<longleftrightarrow> (case resolve st (path_names s) of
     None \<Rightarrow> \<exists>b'. normalize_go b i d = Some (False, b', 0) \<and> length b' = length b
   | Some st' \<Rightarrow> \<exists>b'. normalize_go b i d = Some (True, b', length (flat_path st')) \<and>
       take (length (flat_path st')) b' = flat_path st' \<and> length b' = length b \<and> length (flat_path st') < length b)"

definition at_path :: "u8 list \<Rightarrow> nat \<Rightarrow> nat \<Rightarrow> (u8 list \<times> bool) list \<Rightarrow> u8 list \<Rightarrow> bool" where
  "at_path b i d st s \<longleftrightarrow> (\<exists>r. drop i b = s @ 0 # r) \<and> 0 \<notin> set s \<and> take d b = flat_path st \<and> d = length (flat_path st) \<and>
     d \<le> i \<and> kept st"

text \<open>The names ahead: the last one, or one with a slash.\<close>

lemma path_split:
  obtains (none) "s = []"
  | (final) name where "s = name" "s \<noteq> []" "47 \<notin> set name" "path_names s = [(name, False)]"
  | (more) name ss t where "s = name @ 47 # ss @ t" "47 \<notin> set name" "\<And>x. x \<in> set ss \<Longrightarrow> x = 47" "t = [] \<or> hd t \<noteq> 47"
      "path_names s = (name, True) # path_names t"
proof -
  let ?n = "takeWhile (\<lambda>c. c \<noteq> 47) s" and ?r = "dropWhile (\<lambda>c. c \<noteq> 47) s"
  have s: "s = ?n @ ?r" and n: "47 \<notin> set ?n" by (auto dest: set_takeWhileD)
  consider "s = []" | "s \<noteq> []" "?r = []" | r where "?r = 47 # r" using drop_slash [of s] by blast
  then show thesis
  proof cases
    case 2
    then have "?n = s" using s by simp
    then show thesis using 2 n by (intro final [of s]) (auto simp: path_names.simps [of s])
  next
    case (3 r)
    let ?ss = "takeWhile (\<lambda>c. c = 47) r" and ?t = "dropWhile (\<lambda>c. c = 47) r"
    have "s = ?n @ 47 # ?ss @ ?t" using s 3 by simp
    moreover have "?t = [] \<or> hd ?t \<noteq> 47" using hd_dropWhile [of "\<lambda>c. c = 47" r] by blast
    moreover have "path_names s = (?n, True) # path_names ?t" using 3 by (subst path_names.simps) auto
    ultimately show thesis using n by (intro more [of ?n ?ss ?t]) (auto dest: set_takeWhileD)
  qed (rule none)
qed

lemma skip_to:
  assumes "drop i b = ss @ t @ 0 # r" "\<And>x. x \<in> set ss \<Longrightarrow> x = 47" "t = [] \<or> hd t \<noteq> 47"
  shows "skip_slashes b i = Some (i + length ss)" "drop (i + length ss) b = t @ 0 # r"
proof -
  obtain c r' where "t @ 0 # r = c # r'" "c \<noteq> 47" using assms(3) by (cases t) auto
  then show "skip_slashes b i = Some (i + length ss)" using skip_slashes_ok [of i b ss c r'] assms(1,2) by simp
  show "drop (i + length ss) b = t @ 0 # r" using drop_add [OF assms(1)] by simp
qed

lemma up_kept:
  assumes "kept st" "st \<noteq> []" "take d b = flat_path st" "d = length (flat_path st)" "d \<le> length b"
  shows "0 < d" "up_one b (d - 1) = Some (length (flat_path (butlast st)))"
    "take (length (flat_path (butlast st))) b = flat_path (butlast st)" "kept (butlast st)" "length (flat_path (butlast st)) \<le> d"
proof -
  obtain ys name where st: "st = ys @ [(name, True)]" "47 \<notin> set name" "kept ys"
    using assms(1,2) by (cases st rule: rev_cases) (auto simp: kept_snoc)
  have t: "take d b = flat_path ys @ name @ [47]" using assms(3) st by simp
  show "0 < d" "length (flat_path (butlast st)) \<le> d" "kept (butlast st)" using assms(4) st by simp_all
  have "take (d - 1) b = flat_path ys @ name" using arg_cong [OF t, of butlast] assms(5) by (simp add: butlast_take butlast_append)
  then have "up_one b (d - 1) = Some (length (flat_path ys))" using assms(5) st(2,3) kept_last [of ys] by (intro up_one_ok) auto
  then show "up_one b (d - 1) = Some (length (flat_path (butlast st)))" using st by simp
  have "take (length (flat_path ys)) (take d b) = flat_path ys" unfolding t by simp
  then show "take (length (flat_path (butlast st))) b = flat_path (butlast st)" using assms(4) st by (simp add: min_def)
qed

lemma flat_path_empty: "kept st \<Longrightarrow> length (flat_path st) = 0 \<longleftrightarrow> st = []"
  by (cases st) (auto simp: kept_def)

lemma normalizes_copy_last:
  assumes p: "at_path b i d st name" and name: "47 \<notin> set name" "name \<noteq> [46]" "name \<noteq> [46, 46]"
  shows "\<exists>b'. normalize_go b i d = Some (True, b', length (flat_path st @ name)) \<and>
    take (length (flat_path st @ name)) b' = flat_path st @ name \<and> length b' = length b \<and> length (flat_path st @ name) < length b"
proof -
  obtain r where r: "drop i b = name @ 0 # r" using p by (auto simp: at_path_def)
  have q: "0 \<notin> set name" "take d b = flat_path st" "d \<le> i" "d = length (flat_path st)" using p by (auto simp: at_path_def)
  obtain b' where b': "copy_segment b i d = Some (0, b', i + length name + 1, d + length name)"
    "take (d + length name) b' = flat_path st @ name" "drop (i + length name) b' = 0 # r" "length b' = length b"
    using copy_segment_ok [OF q(2,3) r q(1) name(1)] by auto
  have "normalize_go b i d = Some (True, b', d + length name)" using go_name [OF r _ q(1) name] b'(1) by simp
  moreover have "d + length name < length b" using drop_some_le [OF b'(3)] b'(4) q(3) by simp
  ultimately show ?thesis using b' q(4) by auto
qed

lemma normalizes_copy_more:
  assumes p: "at_path b i d st (name @ 47 # ss @ t)" and name: "47 \<notin> set name" "name \<noteq> [46]" "name \<noteq> [46, 46]"
    and ss: "\<And>x. x \<in> set ss \<Longrightarrow> x = 47" "t = [] \<or> hd t \<noteq> 47"
  shows "\<exists>b' i'. normalize_go b i d = normalize_go b' i' (d + length name + 1) \<and>
    at_path b' i' (d + length name + 1) (st @ [(name, True)]) t \<and> length b' = length b"
proof -
  obtain r where "drop i b = (name @ 47 # ss @ t) @ 0 # r" using p unfolding at_path_def by blast
  then have r: "drop i b = name @ 47 # ss @ t @ 0 # r" by simp
  have q: "0 \<notin> set name" "0 \<notin> set t" "take d b = flat_path st" "d \<le> i" "d = length (flat_path st)" "kept st"
    using p by (auto simp: at_path_def)
  obtain b' where b': "copy_segment b i d = Some (47, b', i + length name + 1, d + length name)"
    "take (d + length name) b' = flat_path st @ name" "drop (i + length name) b' = 47 # ss @ t @ 0 # r" "length b' = length b"
    using copy_segment_ok [OF q(3,4) r q(1) name(1)] by auto
  let ?b = "b'[d + length name := 47]"
  have lt: "i + length name < length b'" using drop_some_le [OF b'(3)] .
  have "drop (i + length name + 1) b' = ss @ t @ 0 # r" using drop_add [of "i + length name" b' "[47]" "ss @ t @ 0 # r"] b'(3) by simp
  then have d: "drop (i + length name + 1) ?b = ss @ t @ 0 # r" using q(4) by simp
  note sk = skip_to [OF d ss]
  have "normalize_go b i d = normalize_go ?b (i + length name + 1 + length ss) (d + length name + 1)"
    using go_name [OF r _ q(1) name] b'(1) sk(1) lt q(4) by (simp add: wr_def)
  moreover have "take (d + length name + 1) ?b = flat_path st @ name @ [47]" using b'(2) lt q(4) by (simp add: take_Suc_conv_app_nth)
  ultimately show ?thesis using sk(2) q name(1) b'(4) unfolding at_path_def kept_snoc
    by (intro exI [of _ ?b] exI [of _ "i + length name + 1 + length ss"]) auto
qed

text \<open>The two special names, with or without a slash behind them.\<close>

definition ahead :: "u8 list \<Rightarrow> nat \<Rightarrow> u8 \<Rightarrow> u8 list \<Rightarrow> bool" where
  "ahead b i x t \<longleftrightarrow> (x = 0 \<and> t = [] \<and> (\<exists>r. drop i b = 0 # r) \<or>
     x = 47 \<and> (\<exists>ss r. drop i b = 47 # ss @ t @ 0 # r \<and> (\<forall>y \<in> set ss. y = 47) \<and> (t = [] \<or> hd t \<noteq> 47)))"

lemma ahead_skip:
  assumes "ahead b i x t"
  shows "x = 0 \<or> x = 47" "\<exists>r. drop i b = x # r"
    "\<exists>j. (if x = 0 then Some i else skip_slashes b (i + 1)) = Some j \<and> (\<exists>r. drop j b = t @ 0 # r) \<and> i \<le> j"
proof -
  show "x = 0 \<or> x = 47" "\<exists>r. drop i b = x # r" using assms by (auto simp: ahead_def)
  have "\<exists>j. skip_slashes b (i + 1) = Some j \<and> (\<exists>r. drop j b = t @ 0 # r) \<and> i \<le> j"
    if h: "drop i b = 47 # ss @ t @ 0 # r" "\<forall>y \<in> set ss. y = 47" "t = [] \<or> hd t \<noteq> 47" for ss r
  proof -
    have "drop (i + 1) b = ss @ t @ 0 # r" using drop_add [of i b "[47]" "ss @ t @ 0 # r"] h(1) by simp
    from skip_to [OF this _ h(3)] h(2) show ?thesis by (intro exI [of _ "i + 1 + length ss"]) auto
  qed
  then show "\<exists>j. (if x = 0 then Some i else skip_slashes b (i + 1)) = Some j \<and> (\<exists>r. drop j b = t @ 0 # r) \<and> i \<le> j"
    using assms unfolding ahead_def by auto
qed

lemma normalizes_dot:
  assumes p: "at_path b i d st (46 # s)" and a: "ahead b (i + 1) x t" and t: "0 \<notin> set t"
  shows "\<exists>j. normalize_go b i d = normalize_go b j d \<and> at_path b j d st t"
proof -
  obtain q where q: "drop i b = 46 # q" using p by (auto simp: at_path_def)
  obtain r where r: "drop (i + 1) b = x # r" using ahead_skip(2) [OF a] by blast
  have "q = x # r" using drop_add [of i b "[46]" q] q r by simp
  then have go: "normalize_go b i d = (if x = 47 then do { src \<leftarrow> skip_slashes b (i + 2); normalize_go b src d }
     else do { (c, b, src, d) \<leftarrow> copy_segment b (i + 1) d; Some (True, b, d) })" using go_dot [of i b x r d] q ahead_skip(1) [OF a] by simp
  obtain j where j: "(if x = 0 then Some (i + 1) else skip_slashes b (i + 2)) = Some j" "\<exists>r. drop j b = t @ 0 # r" "i + 1 \<le> j"
    using ahead_skip(3) [OF a] unfolding add.assoc one_add_one by blast
  have at: "at_path b j d st t" using p j(2,3) t by (auto simp: at_path_def)
  have "normalize_go b i d = normalize_go b j d"
  proof (cases "x = 0")
    case True
    then have "t = []" using a by (simp add: ahead_def)
    then show ?thesis using True go j(1) at go_name [of j b "[]" 0] copy_segment_ok [of d b "flat_path st" j "[]" 0] by (auto simp: at_path_def)
  next
    case False
    then show ?thesis using go j(1) ahead_skip(1) [OF a] by auto
  qed
  then show ?thesis using at by blast
qed

lemma normalizes_dotdot:
  assumes p: "at_path b i d st (46 # 46 # s)" and a: "ahead b (i + 2) x t" and t: "0 \<notin> set t"
  shows "if st = [] then normalize_go b i d = Some (False, b, 0)
    else \<exists>j d'. normalize_go b i d = normalize_go b j d' \<and> at_path b j d' (butlast st) t"
proof -
  obtain q where q: "drop i b = 46 # 46 # q" using p by (auto simp: at_path_def)
  obtain r where r: "drop (i + 2) b = x # r" using ahead_skip(2) [OF a] by blast
  have "q = x # r" using drop_add [of i b "[46, 46]" q] q r by simp
  then have go: "normalize_go b i d = do { src \<leftarrow> (if x = 0 then Some (i + 2) else skip_slashes b (i + 3));
      if d = 0 then Some (False, b, d) else do { d \<leftarrow> up_one b (d - 1); normalize_go b src d } }"
    using go_dotdot [of i b x r d] q ahead_skip(1) [OF a] by simp
  have 3: "(2 :: nat) + 1 = 3" by simp
  obtain j where j: "(if x = 0 then Some (i + 2) else skip_slashes b (i + 3)) = Some j" "\<exists>r. drop j b = t @ 0 # r" "i + 2 \<le> j"
    using ahead_skip(3) [OF a] unfolding add.assoc 3 by blast
  have st: "take d b = flat_path st" "d = length (flat_path st)" "d \<le> i" "kept st" using p by (auto simp: at_path_def)
  show ?thesis
  proof (cases "st = []")
    case True
    then show ?thesis using go j(1) st(2) by simp
  next
    case False
    have "d \<le> length b" using drop_some_le [OF q] st(3) by simp
    note up = up_kept [OF st(4) False st(1,2) this]
    have "normalize_go b i d = normalize_go b j (length (flat_path (butlast st)))" using go j(1) up(1,2) by simp
    moreover have "at_path b j (length (flat_path (butlast st))) (butlast st) t"
      using up(3-5) j(2,3) st(3) t by (auto simp: at_path_def)
    ultimately show ?thesis using False by auto
  qed
qed

lemma normalizes_step:
  "normalize_go b i d = normalize_go b' j d' \<Longrightarrow> normalizes b' j d' st' t \<Longrightarrow> resolve st (path_names s) = resolve st' (path_names t) \<Longrightarrow>
     length b' = length b \<Longrightarrow> normalizes b i d st s"
  by (simp add: normalizes_def split: option.splits)

lemma normalizes_special:
  assumes p: "at_path b i d st s" and s: "s = name @ u" "path_names s = (name, sl) # path_names t" "name = [46] \<or> name = [46, 46]"
    and a: "ahead b (i + length name) x t" and t: "0 \<notin> set t" and IH: "\<And>b i d st. at_path b i d st t \<Longrightarrow> normalizes b i d st t"
  shows "normalizes b i d st s"
proof (cases "name = [46]")
  case True
  then obtain j where "normalize_go b i d = normalize_go b j d" "at_path b j d st t"
    using normalizes_dot [of b i d st u x t] p s a t by auto
  then show ?thesis using IH [of b j d st] True s(2) by (auto intro: normalizes_step)
next
  case False
  then have n: "name = [46, 46]" using s(3) by simp
  have up: "if st = [] then normalize_go b i d = Some (False, b, 0)
    else \<exists>j d'. normalize_go b i d = normalize_go b j d' \<and> at_path b j d' (butlast st) t"
    by (rule normalizes_dotdot [of b i d st u x t]) (use p s(1) a t n in \<open>simp_all add: numeral_2_eq_2\<close>)
  show ?thesis
  proof (cases "st = []")
    case True
    then show ?thesis using up n s(2) by (simp add: normalizes_def)
  next
    case False
    then obtain j d' where "normalize_go b i d = normalize_go b j d'" "at_path b j d' (butlast st) t" using up by auto
    then show ?thesis using IH [of b j d' "butlast st"] False n s(2) by (auto intro: normalizes_step)
  qed
qed

lemma normalize_go_ok: "at_path b i d st s \<Longrightarrow> normalizes b i d st s"
proof (induction s arbitrary: b i d st rule: measure_induct_rule [of length])
  case (less s)
  note p = less.prems
  obtain r where r: "drop i b = s @ 0 # r" and z: "0 \<notin> set s" using p by (auto simp: at_path_def)
  show ?case
  proof (cases s rule: path_split)
    case none
    then show ?thesis using normalizes_copy_last [of b i d st "[]"] p by (simp add: normalizes_def path_names.simps)
  next
    case (final name)
    show ?thesis
    proof (cases "name = [46] \<or> name = [46, 46]")
      case True
      have "ahead b (i + length name) 0 []" using drop_add [OF r] final(1) by (simp add: ahead_def)
      then show ?thesis using normalizes_special [OF p, of name "[]" False "[]" 0] final True less.IH [of "[]"]
        by (simp add: path_names.simps [of "[]"])
    next
      case False
      then show ?thesis using normalizes_copy_last [of b i d st name] p final by (simp add: normalizes_def)
    qed
  next
    case (more name ss t)
    have len: "length t < length s" using more(1) by simp
    show ?thesis
    proof (cases "name = [46] \<or> name = [46, 46]")
      case True
      have "drop (i + length name) b = 47 # ss @ t @ 0 # r" using drop_add [of i b name "47 # ss @ t @ 0 # r"] r more(1) by simp
      then have "ahead b (i + length name) 47 t" using more(3,4) by (auto simp: ahead_def)
      then show ?thesis using normalizes_special [OF p more(1) more(5) True] z more(1) less.IH [OF len] by auto
    next
      case False
      obtain b' i' where "normalize_go b i d = normalize_go b' i' (d + length name + 1)"
        "at_path b' i' (d + length name + 1) (st @ [(name, True)]) t" "length b' = length b"
        using normalizes_copy_more [of b i d st name ss t] p more False by auto
      then show ?thesis using less.IH [OF len, of b' i' "d + length name + 1" "st @ [(name, True)]"] more(5) False
        by (auto intro: normalizes_step)
    qed
  qed
qed

text \<open>
  What \<open>str_normalize_path\<close> leaves in the array.
\<close>

lemma normalize_path:
  assumes s: "0 \<notin> set s"
  shows "case resolve [] (path_names s) of
      None \<Rightarrow> \<exists>b'. str_normalize_path (s @ 0 # r) = Some (False, b') \<and> length b' = length (s @ 0 # r)
    | Some st \<Rightarrow> if flat_path st = [] then str_normalize_path (s @ 0 # r) = None
        else \<exists>r'. str_normalize_path (s @ 0 # r) = Some (True, trim_slash (flat_path st) @ 0 # r') \<and>
          length (trim_slash (flat_path st) @ 0 # r') = length (s @ 0 # r)"
proof -
  have "at_path (s @ 0 # r) 0 0 [] s" using s by (simp add: at_path_def kept_def)
  then have n: "normalizes (s @ 0 # r) 0 0 [] s" by (rule normalize_go_ok)
  show ?thesis
  proof (cases "resolve [] (path_names s)")
    case None
    then show ?thesis using n by (auto simp: normalizes_def str_normalize_path_def)
  next
    case (Some st)
    define f where "f = flat_path st"
    obtain b where b: "normalize_go (s @ 0 # r) 0 0 = Some (True, b, length f)" "take (length f) b = f" "length b = length (s @ 0 # r)"
      "length f < length b" using n by (auto simp: normalizes_def Some f_def)
    have b0: "b[length f := 0] = f @ 0 # drop (length f + 1) b" using b(2,4) by (simp add: upd_conv_take_nth_drop)
    have run: "str_normalize_path (s @ 0 # r) = (let b = b[length f := 0] in if length f = 1 then Some (True, b)
        else do { c \<leftarrow> rdi b (int (length f) - 1); b \<leftarrow> (if c = 47 then wri b (int (length f) - 1) 0 else Some b); Some (True, b) })"
      using b(1,4) by (simp add: str_normalize_path_def wr_def Let_def)
    show ?thesis
    proof (cases f rule: rev_cases)
      case Nil
      then show ?thesis using run by (simp add: Some f_def [symmetric] rdi_def)
    next
      case (snoc g x)
      have "rdi (b[length f := 0]) (int (length f) - 1) = Some x" unfolding b0 by (simp add: snoc rdi_def rd_def nth_append)
      moreover have "wri (b[length f := 0]) (int (length f) - 1) 0 = Some (g @ 0 # 0 # drop (length f + 1) b)"
        unfolding b0 by (simp add: snoc wri_def wr_def list_update_append)
      moreover have "length (drop (length f + 1) b) = length b - length f - 1" by simp
      ultimately show ?thesis using run b0 b(3,4) snoc by (auto simp: Some f_def [symmetric] trim_slash_def Let_def)
    qed
  qed
qed

lemma resolve_names: "list_all (\<lambda>(n, sl). n \<noteq> [46] \<and> n \<noteq> [46, 46]) st \<Longrightarrow> resolve st ns = Some st' \<Longrightarrow>
    list_all (\<lambda>(n, sl). n \<noteq> [46] \<and> n \<noteq> [46, 46]) st'"
proof (induction st ns rule: resolve.induct)
  case (2 st name sl ns)
  moreover have "list_all P (butlast xs)" if "list_all P xs" for P and xs :: "(u8 list \<times> bool) list"
    using that by (auto simp: list_all_iff dest: in_set_butlastD)
  ultimately show ?case by (auto split: if_splits)
qed simp

text \<open>
  (C31) \<open>str_normalize_path\<close> against the resolution of names: for every string in an array of any size, it returns null exactly
  when some \<open>..\<close> has no name left to remove; otherwise it leaves in the array the remaining names with single
  slashes, none of them \<open>.\<close> or \<open>..\<close>, without a slash at the end; and when no name remains at all, it reads the byte before the array.
\<close>

theorem str_normalize_path_resolves:
  assumes "0 \<notin> set s"
  shows "case resolve [] (path_names s) of
      None \<Rightarrow> \<exists>b'. str_normalize_path (s @ 0 # r) = Some (False, b') \<and> length b' = length (s @ 0 # r)
    | Some st \<Rightarrow> list_all (\<lambda>(n, sl). n \<noteq> [46] \<and> n \<noteq> [46, 46]) st \<and>
        (if flat_path st = [] then str_normalize_path (s @ 0 # r) = None
         else \<exists>r'. str_normalize_path (s @ 0 # r) = Some (True, trim_slash (flat_path st) @ 0 # r') \<and>
           length (trim_slash (flat_path st) @ 0 # r') = length (s @ 0 # r))"
  using normalize_path [OF assms, of r] resolve_names [of "[]" "path_names s"] by (auto split: option.splits)

text \<open>\<open>/a//b/../c/\<close> becomes \<open>/a/c\<close>.\<close>

theorem str_normalize_path_resolves_witness:
  "\<exists>r'. str_normalize_path [47, 97, 47, 47, 98, 47, 46, 46, 47, 99, 47, 0] = Some (True, [47, 97, 47, 99, 0] @ r')"
proof -
  have "resolve [] (path_names [47, 97, 47, 47, 98, 47, 46, 46, 47, 99, 47]) = Some [([], True), ([97], True), ([99], True)]" by code_simp
  then show ?thesis using str_normalize_path_resolves [of "[47, 97, 47, 47, 98, 47, 46, 46, 47, 99, 47]" "[]"]
    by (auto simp: trim_slash_def)
qed

end
