(* ===== verification/C_Float.thy ===== *)
theory C_Float
  imports C_Text
begin

text \<open>
  Floating-point numbers and their texts as \<open>printf\<close> writes them. A \<open>double\<close> is its exact value, a sign with a
  magnitude \<open>m * 2 ^ e\<close>, or an infinity or a NaN; texts are the correctly rounded decimals (ties to even)
  of the C library. The comparisons are those of the exact values.
\<close>

section \<open>Values\<close>

datatype dbl = Fin bool nat int | Inf bool | Nan bool

text \<open>A \<open>float\<close> from its 32 bits; the conversion to \<open>double\<close> is exact.\<close>

definition float_value :: "u32 \<Rightarrow> dbl" where
  "float_value w = (
     let s = bit w 31; x = unat (drop_bit 23 w AND 0xFF); f = unat (w AND 0x7FFFFF) in
     if x = 255 then if f = 0 then Inf s else Nan s
     else if x = 0 then Fin s f (- 149) else Fin s (2 ^ 23 + f) (int x - 150))"

definition dbl_of_int :: "int \<Rightarrow> dbl" where
  "dbl_of_int i = Fin (i < 0) (nat \<bar>i\<bar>) 0"

text \<open>The magnitude \<open>m * 2 ^ e\<close> as a fraction.\<close>

definition mag_num :: "nat \<Rightarrow> int \<Rightarrow> nat" where
  "mag_num m e = m * 2 ^ nat e"

definition mag_den :: "int \<Rightarrow> nat" where
  "mag_den e = 2 ^ nat (- e)"

definition mag_less :: "nat \<Rightarrow> int \<Rightarrow> nat \<Rightarrow> int \<Rightarrow> bool" where
  "mag_less m e m' e' \<longleftrightarrow> mag_num m e * mag_den e' < mag_num m' e' * mag_den e"

definition signed :: "bool \<Rightarrow> nat \<Rightarrow> int" where
  "signed s n = (if s then - int n else int n)"

text \<open>\<open>d <= i\<close> and \<open>d >= i\<close> for an integer \<open>i\<close>, the conversion \<open>(int)d\<close>, which is undefined out of range.\<close>

definition dbl_le_int :: "dbl \<Rightarrow> int \<Rightarrow> bool" where
  "dbl_le_int d i = (case d of Fin s m e \<Rightarrow> signed s (mag_num m e) \<le> i * int (mag_den e) | Inf s \<Rightarrow> s | Nan s \<Rightarrow> False)"

definition dbl_ge_int :: "dbl \<Rightarrow> int \<Rightarrow> bool" where
  "dbl_ge_int d i = (case d of Fin s m e \<Rightarrow> signed s (mag_num m e) \<ge> i * int (mag_den e) | Inf s \<Rightarrow> \<not> s | Nan s \<Rightarrow> False)"

definition dbl_to_int :: "dbl \<Rightarrow> int option" where
  "dbl_to_int d = (case d of
     Fin s m e \<Rightarrow> let i = signed s (mag_num m e div mag_den e) in
       if - (2 ^ 31) \<le> i \<and> i < 2 ^ 31 then Some i else None
   | _ \<Rightarrow> None)"

section \<open>Rounding to decimals\<close>

text \<open>\<open>n / d\<close> rounded to the nearest integer, ties to even.\<close>

definition rdiv :: "nat \<Rightarrow> nat \<Rightarrow> nat" where
  "rdiv n d = (let q = n div d; r = n mod d in if 2 * r < d \<or> 2 * r = d \<and> even q then q else q + 1)"

lemma rdiv_nearest:
  assumes "0 < d"
  shows "2 * \<bar>int (rdiv n d) * int d - int n\<bar> \<le> int d"
proof -
  have n: "int n = int (n div d) * int d + int (n mod d)"
    unfolding of_nat_mult [symmetric] of_nat_add [symmetric] by simp
  have "n mod d < d" using assms by simp
  then show ?thesis unfolding n by (auto simp: rdiv_def Let_def algebra_simps)
qed

lemma rdiv_less: "n \<le> k * d \<Longrightarrow> 0 < d \<Longrightarrow> rdiv n d \<le> k"
proof -
  assume "n \<le> k * d" "0 < d"
  then have "n div d \<le> k" by (metis div_le_mono div_mult_self_is_m)
  moreover have "n div d = k \<Longrightarrow> n mod d = 0"
    using \<open>n \<le> k * d\<close> \<open>0 < d\<close> by (metis div_mult_mod_eq le_add1 le_antisym less_irrefl add_diff_cancel_left' diff_is_0_eq)
  ultimately show ?thesis using \<open>0 < d\<close> by (cases "n div d = k") (auto simp: rdiv_def Let_def)
qed

text \<open>A number with exactly \<open>p\<close> digits.\<close>

primrec pad_text :: "nat \<Rightarrow> nat \<Rightarrow> u8 list" where
  "pad_text 0 k = []"
| "pad_text (Suc p) k = pad_text p (k div 10) @ [48 + word_of_nat (k mod 10)]"

definition sign_text :: "bool \<Rightarrow> u8 list" where
  "sign_text s = (if s then [45] else [])"

section \<open>The conversions of \<open>printf\<close>\<close>

text \<open>\<open>%d\<close>, \<open>%.pf\<close> and \<open>%e\<close>.\<close>

definition fmt_d :: "int \<Rightarrow> u8 list" where
  "fmt_d i = sign_text (i < 0) @ dec_text (nat \<bar>i\<bar>)"

definition fixed_text :: "nat \<Rightarrow> nat \<Rightarrow> u8 list" where
  "fixed_text p q = dec_text (q div 10 ^ p) @ (if p = 0 then [] else 46 # pad_text p (q mod 10 ^ p))"

definition special_text :: "dbl \<Rightarrow> u8 list" where
  "special_text d = (case d of Inf s \<Rightarrow> sign_text s @ [105, 110, 102] | Nan s \<Rightarrow> sign_text s @ [110, 97, 110] | _ \<Rightarrow> [])"

definition fmt_f :: "nat \<Rightarrow> dbl \<Rightarrow> u8 list" where
  "fmt_f p d = (case d of
     Fin s m e \<Rightarrow> sign_text s @ fixed_text p (rdiv (mag_num m e * 10 ^ p) (mag_den e))
   | _ \<Rightarrow> special_text d)"

text \<open>How often a fraction below 1 is multiplied by 10 until it is not.\<close>

function tenths :: "nat \<Rightarrow> nat \<Rightarrow> nat" where
  "tenths n d = (if n = 0 \<or> d \<le> n then 0 else Suc (tenths (10 * n) d))"
  by pat_completeness auto
termination by (relation "measure (\<lambda>(n, d). d - n)") auto

declare tenths.simps [simp del]

definition dec_exp :: "nat \<Rightarrow> nat \<Rightarrow> int" where
  "dec_exp n d = (if d \<le> n then int (length (dec_text (n div d))) - 1 else - int (tenths n d))"

definition fmt_e :: "dbl \<Rightarrow> u8 list" where
  "fmt_e d = (case d of
     Fin s m e \<Rightarrow>
       let n = mag_num m e; k = mag_den e; x = dec_exp n k;
           q = (if m = 0 then 0 else if x \<le> 6 then rdiv (n * 10 ^ nat (6 - x)) k else rdiv n (k * 10 ^ nat (x - 6)));
           (q, x) = (if q = 10 ^ 7 then (10 ^ 6, x + 1) else (q, x)) in
       sign_text s @ fixed_text 6 q @ [101, if x < 0 then 45 else 43] @
         (if \<bar>x\<bar> < 10 then [48] else []) @ dec_text (nat \<bar>x\<bar>)
   | _ \<Rightarrow> special_text d)"

text \<open>\<open>snprintf\<close> into an array of \<open>n\<close> characters: at most \<open>n - 1\<close> of the text, then the terminator.\<close>

definition snprintf :: "nat \<Rightarrow> u8 list \<Rightarrow> u8 list" where
  "snprintf n s = take (n - 1) s"

section \<open>Lengths and characters\<close>

lemma dec_text_length: "n < 10 ^ k \<Longrightarrow> 0 < k \<Longrightarrow> length (dec_text n) \<le> k"
proof (induction n arbitrary: k rule: dec_text.induct)
  case (1 n)
  show ?case
  proof (cases "n < 10")
    case True
    then show ?thesis using 1 by (subst dec_text.simps) simp
  next
    case False
    then obtain j where k: "k = Suc j" "0 < j" using 1 by (cases k; cases "k - 1") auto
    then have "n div 10 < 10 ^ j" using 1 by auto
    then have "length (dec_text (n div 10)) \<le> j" using 1 False k by simp
    then show ?thesis using False k by (subst dec_text.simps) simp
  qed
qed

lemma pad_text_length [simp]: "length (pad_text p k) = p"
  by (induction p arbitrary: k) auto

lemma pad_text_digits: "list_all c_isdigit (pad_text p k)"
  by (induction p arbitrary: k) (auto simp: digit_char)

lemma pad_text_value: "k < 10 ^ p \<Longrightarrow> foldl (\<lambda>a c. a * 10 + (uint c - 48)) 0 (pad_text p k) = int k"
proof (induction p arbitrary: k)
  case (Suc p)
  have "int k = int (k div 10) * 10 + int (k mod 10)" by (simp add: zdiv_int zmod_int)
  moreover have "k div 10 < 10 ^ p" using Suc.prems by auto
  ultimately show ?case using Suc.IH [of "k div 10"] by (simp add: digit_char)
qed simp

text \<open>The characters of number texts: digits, signs, the point, and letters.\<close>

definition num_char :: "u8 \<Rightarrow> bool" where
  "num_char c \<longleftrightarrow> c_isdigit c \<or> c = 43 \<or> c = 45 \<or> c = 46 \<or> 97 \<le> c \<and> c \<le> 122"

lemma num_charI: "c_isdigit c \<Longrightarrow> num_char c"
  by (simp add: num_char_def)

lemma num_text_chars:
  "list_all num_char (dec_text n)" "list_all num_char (pad_text p k)" "list_all num_char (sign_text s)"
  "list_all num_char (special_text d)"
  using dec_text_digits [of n] pad_text_digits [of p k]
  by (auto simp: list_all_iff num_charI sign_text_def special_text_def num_char_def split: dbl.splits)

lemma fmt_chars:
  "list_all num_char (fmt_d i)" "list_all num_char (fixed_text p q)" "list_all num_char (fmt_f p d)"
  "list_all num_char (fmt_e d)"
proof -
  have 46: "num_char 46" "num_char 101" "num_char 45" "num_char 43" "num_char 48" by (simp_all add: num_char_def c_isdigit_def)
  show "list_all num_char (fmt_d i)" by (simp add: fmt_d_def num_text_chars)
  show fixed: "list_all num_char (fixed_text p q)" for p q by (simp add: fixed_text_def num_text_chars 46)
  show "list_all num_char (fmt_f p d)" by (simp add: fmt_f_def num_text_chars fixed split: dbl.splits)
  show "list_all num_char (fmt_e d)"
    by (auto simp: fmt_e_def Let_def num_text_chars fixed 46 split: dbl.splits prod.splits)
qed

lemma fixed_text_length: "q < 10 ^ (k + p) \<Longrightarrow> 0 < k \<Longrightarrow> length (fixed_text p q) \<le> k + p + 1"
proof -
  assume "q < 10 ^ (k + p)" "0 < k"
  then have "q div 10 ^ p < 10 ^ k" by (simp add: power_add less_mult_imp_div_less)
  then show ?thesis using dec_text_length [of "q div 10 ^ p" k] \<open>0 < k\<close> by (auto simp: fixed_text_def)
qed

lemma mag_den_pos [simp]: "0 < mag_den e"
  by (simp add: mag_den_def)

text \<open>A number up to \<open>b\<close> in magnitude has a text no longer than the digits of \<open>b\<close> and of the fraction allow.\<close>

lemma fmt_f_length:
  assumes "mag_num m e \<le> b * mag_den e" "b < 10 ^ k" "0 < k"
  shows "length (fmt_f p (Fin s m e)) \<le> k + p + 2"
proof -
  have "rdiv (mag_num m e * 10 ^ p) (mag_den e) \<le> b * 10 ^ p" using assms(1) by (intro rdiv_less) auto
  also have "\<dots> < 10 ^ k * 10 ^ p" using assms(2) by simp
  finally have "length (fixed_text p (rdiv (mag_num m e * 10 ^ p) (mag_den e))) \<le> k + p + 1"
    using assms(3) by (intro fixed_text_length) (simp_all add: power_add)
  then show ?thesis by (simp add: fmt_f_def sign_text_def)
qed

lemma fmt_d_length: "\<bar>i\<bar> < 10 ^ k \<Longrightarrow> 0 < k \<Longrightarrow> length (fmt_d i) \<le> k + 1"
proof -
  assume "\<bar>i\<bar> < 10 ^ k" "0 < k"
  then have "nat \<bar>i\<bar> < 10 ^ k" by (simp add: nat_less_iff)
  then have "length (dec_text (nat \<bar>i\<bar>)) \<le> k" using \<open>0 < k\<close> by (rule dec_text_length)
  then show ?thesis by (cases "i < 0") (auto simp: fmt_d_def sign_text_def)
qed

text \<open>The numbers a \<open>double\<close> can hold.\<close>

definition dbl_ok :: "dbl \<Rightarrow> bool" where
  "dbl_ok d = (case d of Fin s m e \<Rightarrow> m < 2 ^ 53 \<and> - 1074 \<le> e \<and> e \<le> 971 | _ \<Rightarrow> True)"

lemma float_value_ok: "dbl_ok (float_value w)"
proof -
  define x f where "x = unat (drop_bit 23 w AND 0xFF)" "f = unat (w AND 0x7FFFFF)"
  have "w AND mask 23 \<le> mask 23" "drop_bit 23 w AND mask 8 \<le> mask 8" by (rule word_and_le1)+
  then have "f \<le> 0x7FFFFF" "x \<le> 255" by (simp_all add: mask_eq_exp_minus_1 word_le_nat_alt x_f_def)
  then show ?thesis unfolding float_value_def Let_def x_f_def [symmetric] by (auto simp: dbl_ok_def)
qed

lemma dbl_of_int_ok: "\<bar>i\<bar> < 2 ^ 53 \<Longrightarrow> dbl_ok (dbl_of_int i)"
  by (simp add: dbl_of_int_def dbl_ok_def nat_less_iff)

lemma tenths_bound: "0 < n \<Longrightarrow> d \<le> n * 10 ^ k \<Longrightarrow> tenths n d \<le> k"
proof (induction n d arbitrary: k rule: tenths.induct)
  case (1 n d)
  show ?case
  proof (cases "d \<le> n")
    case True
    then show ?thesis by (subst tenths.simps) simp
  next
    case False
    then obtain j where k: "k = Suc j" using 1 by (cases k) auto
    then have "tenths (10 * n) d \<le> j" using 1 False by (intro "1.IH") auto
    then show ?thesis using False k 1 by (subst tenths.simps) simp
  qed
qed

lemma tenths_low: "0 < n \<Longrightarrow> n < d \<Longrightarrow> n * 10 ^ (tenths n d - 1) < d \<and> 0 < tenths n d"
proof (induction n d rule: tenths.induct)
  case (1 n d)
  show ?case
  proof (cases "d \<le> 10 * n")
    case True
    then have "tenths (10 * n) d = 0" by (subst tenths.simps) simp
    then have "tenths n d = 1" using 1 by (subst tenths.simps) simp
    then show ?thesis using 1 by simp
  next
    case False
    then have "10 * n * 10 ^ (tenths (10 * n) d - 1) < d \<and> 0 < tenths (10 * n) d" using 1 by auto
    moreover have "tenths n d = Suc (tenths (10 * n) d)" using 1 by (subst tenths.simps) simp
    ultimately show ?thesis by (cases "tenths (10 * n) d") auto
  qed
qed

lemma dec_text_less: "n < 10 ^ length (dec_text n)"
proof (induction n rule: dec_text.induct)
  case (1 n)
  show ?case
  proof (cases "n < 10")
    case True
    then show ?thesis by (subst dec_text.simps) simp
  next
    case False
    then have "n div 10 < 10 ^ length (dec_text (n div 10))" using 1 by simp
    then have "n < 10 * 10 ^ length (dec_text (n div 10))" by linarith
    then show ?thesis using False by (subst dec_text.simps) simp
  qed
qed

text \<open>The digits that \<open>%e\<close> prints are a number below \<open>10 ^ 7\<close>, or \<open>10 ^ 7\<close> after rounding up.\<close>

lemma dec_exp_scale:
  assumes "0 < k" "0 < n"
  shows "x = dec_exp n k \<Longrightarrow> x \<le> 6 \<Longrightarrow> n * 10 ^ nat (6 - x) \<le> 10 ^ 7 * k"
    and "x = dec_exp n k \<Longrightarrow> 6 < x \<Longrightarrow> n \<le> 10 ^ 7 * (k * 10 ^ nat (x - 6))"
proof -
  define l where "l = length (dec_text (n div k))"
  have "0 < l" using dec_text_nonempty [of "n div k"] by (simp add: l_def)
  have up: "n \<le> 10 ^ l * k"
  proof -
    have "n div k < 10 ^ l" unfolding l_def by (rule dec_text_less)
    then have "n < 10 ^ l * k" using assms(1) by (simp add: div_less_iff_less_mult)
    then show ?thesis by simp
  qed
  { assume x: "x = dec_exp n k" "6 < x"
    then have "k \<le> n" "x = int l - 1" by (auto simp: dec_exp_def l_def split: if_splits)
    then have "l = 7 + nat (x - 6)" using x by simp
    then show "n \<le> 10 ^ 7 * (k * 10 ^ nat (x - 6))" using up by (simp add: power_add mult_ac) }
  { assume x: "x = dec_exp n k" "x \<le> 6"
    show "n * 10 ^ nat (6 - x) \<le> 10 ^ 7 * k"
    proof (cases "k \<le> n")
      case True
      then have "x = int l - 1" using x by (simp add: dec_exp_def l_def)
      then have "7 = l + nat (6 - x)" using x \<open>0 < l\<close> by simp
      then have "(10 :: nat) ^ 7 = 10 ^ l * 10 ^ nat (6 - x)" by (simp only: power_add [symmetric])
      then show ?thesis using mult_right_mono [OF up, of "10 ^ nat (6 - x)"] by (simp add: mult_ac)
    next
      case False
      then have t: "n * 10 ^ (tenths n k - 1) < k" "0 < tenths n k" "x = - int (tenths n k)"
        using tenths_low [of n k] assms x by (simp_all add: dec_exp_def)
      then have "nat (6 - x) = (tenths n k - 1) + 7" by simp
      then show ?thesis using t(1) by (simp add: power_add mult.assoc [symmetric])
    qed }
qed

lemma pow2_dec: "(2 :: nat) ^ 1024 < 10 ^ 309" "(2 :: nat) ^ 1074 < 10 ^ 324"
  by simp_all

lemma mag_bounds:
  assumes "m < 2 ^ 53" "- 1074 \<le> e" "e \<le> 971"
  shows "mag_num m e < 10 ^ 309" "mag_den e < 10 ^ 324"
proof -
  have "mag_num m e \<le> (2 ^ 53 - 1) * 2 ^ 971"
    unfolding mag_num_def using assms by (intro mult_mono power_increasing) auto
  also have "\<dots> < (2 ^ 53) * (2 :: nat) ^ 971" by (intro mult_strict_right_mono) simp_all
  also have "\<dots> = 2 ^ 1024" by (simp only: power_add [symmetric]) simp
  finally show "mag_num m e < 10 ^ 309" using pow2_dec(1) by (rule less_trans)
  have "mag_den e \<le> 2 ^ 1074" unfolding mag_den_def using assms by (intro power_increasing) auto
  then show "mag_den e < 10 ^ 324" using pow2_dec(2) by (rule le_less_trans)
qed

lemma dec_exp_bound:
  assumes "0 < n" "0 < k" "n < 10 ^ 309" "k < 10 ^ 324"
  shows "\<bar>dec_exp n k\<bar> < 1000"
proof -
  have "n div k < 10 ^ 309" using assms(3) by (rule le_less_trans [OF div_le_dividend])
  then have "length (dec_text (n div k)) \<le> 309" by (rule dec_text_length) simp
  moreover have "1 * 10 ^ 324 \<le> n * 10 ^ 324" using assms(1) by (intro mult_right_mono) auto
  then have "k \<le> n * 10 ^ 324" using assms(4) by linarith
  then have "tenths n k \<le> 324" by (rule tenths_bound [OF assms(1)])
  ultimately show ?thesis using dec_text_nonempty [of "n div k"] by (auto simp: dec_exp_def)
qed

text \<open>Texts of \<open>%e\<close> have at most 18 characters.\<close>

lemma fmt_e_length:
  assumes "dbl_ok d"
  shows "length (fmt_e d) \<le> 18"
proof (cases d)
  case (Fin s m e)
  define n k x where "n = mag_num m e" "k = mag_den e" "x = dec_exp n k"
  define q where "q = (if m = 0 then 0 else if x \<le> 6 then rdiv (n * 10 ^ nat (6 - x)) k else rdiv n (k * 10 ^ nat (x - 6)))"
  define y where "y = (if q = 10 ^ 7 then x + 1 else x)"
  have k: "0 < k" by (simp add: n_k_x_def)
  have b: "n < 10 ^ 309" "k < 10 ^ 324" using assms mag_bounds [of m e] unfolding n_k_x_def Fin dbl_ok_def dbl.case by blast+
  have q: "q \<le> 10 ^ 7"
  proof (cases "m = 0")
    case False
    then have n: "0 < n" by (simp add: n_k_x_def mag_num_def)
    have "rdiv (n * 10 ^ nat (6 - x)) k \<le> 10 ^ 7" if "x \<le> 6"
      by (rule rdiv_less [OF dec_exp_scale(1) [OF k n n_k_x_def(3) that] k])
    moreover have "rdiv n (k * 10 ^ nat (x - 6)) \<le> 10 ^ 7" if "6 < x"
      by (rule rdiv_less [OF dec_exp_scale(2) [OF k n n_k_x_def(3) that]]) (use k in simp)
    ultimately show ?thesis by (simp add: q_def)
  qed (simp add: q_def)
  have "\<bar>x\<bar> < 1000"
  proof (cases "m = 0")
    case True
    then have "n = 0" by (simp add: n_k_x_def mag_num_def)
    then have "x = 0" using k unfolding n_k_x_def(3) dec_exp_def by (simp add: tenths.simps dec_text.simps)
    then show ?thesis by simp
  next
    case False
    then have "0 < n" by (simp add: n_k_x_def mag_num_def)
    then show ?thesis unfolding n_k_x_def(3) using k b by (rule dec_exp_bound)
  qed
  then have "nat \<bar>y\<bar> < 10 ^ 4" by (auto simp: y_def)
  then have "length (dec_text (nat \<bar>y\<bar>)) \<le> 4" by (rule dec_text_length) simp
  moreover have "\<bar>y\<bar> < 10 \<Longrightarrow> length (dec_text (nat \<bar>y\<bar>)) \<le> 1" by (rule dec_text_length) auto
  moreover define q' where "q' = (if q = 10 ^ 7 then 10 ^ 6 else q)"
  have "length (fixed_text 6 q') \<le> 8" using q fixed_text_length [of q' 1 6] by (simp add: q'_def)
  moreover have "fmt_e d = sign_text s @ fixed_text 6 q' @ [101, if y < 0 then 45 else 43] @
      (if \<bar>y\<bar> < 10 then [48] else []) @ dec_text (nat \<bar>y\<bar>)"
    unfolding fmt_e_def Fin dbl.case Let_def n_k_x_def [symmetric] q_def [symmetric]
    by (cases "q = 10 ^ 7") (simp_all only: y_def q'_def refl if_True if_False prod.case)
  ultimately show ?thesis by (auto simp: sign_text_def)
qed (auto simp: fmt_e_def special_text_def sign_text_def)

end
