(* ===== verification/Cjson.thy ===== *)
theory Cjson
  imports C_Float
begin

text \<open>
  The JSON library (\<open>packages/cJSON-v1.0.2\<close>). Items and strings are blocks of memory with identity:
  \<open>jm_nodes\<close> and \<open>jm_texts\<close> are the items and strings the library keeps at an address, \<open>jm_heap\<close> is the
  state of the allocator. The allocator is the pair of functions in \<open>cJSON_Hooks\<close>, as in the code; an access to
  an address that holds nothing (a null pointer, released memory) is undefined, and so is a write past the
  size a buffer was requested with. A string is the list of its characters before the terminator.
\<close>

section \<open>Items and memory\<close>

record cJSON =
  n_next :: u32
  n_prev :: u32
  n_child :: u32
  n_type :: u32
  n_valuestring :: u32
  n_valueint :: int
  n_valuedouble :: dbl
  n_string :: u32

definition cJSON_False :: u32 where "cJSON_False = 0"
definition cJSON_True :: u32 where "cJSON_True = 1"
definition cJSON_NULL :: u32 where "cJSON_NULL = 2"
definition cJSON_Number :: u32 where "cJSON_Number = 3"
definition cJSON_String :: u32 where "cJSON_String = 4"
definition cJSON_Array :: u32 where "cJSON_Array = 5"
definition cJSON_Object :: u32 where "cJSON_Object = 6"
definition cJSON_IsReference :: u32 where "cJSON_IsReference = 256"
definition cJSON_StringIsConst :: u32 where "cJSON_StringIsConst = 512"

lemmas cJSON_types [simp] =
  cJSON_False_def cJSON_True_def cJSON_NULL_def cJSON_Number_def cJSON_String_def cJSON_Array_def
  cJSON_Object_def cJSON_IsReference_def cJSON_StringIsConst_def

record 'h cJSON_Hooks =
  malloc_fn :: "u32 \<Rightarrow> 'h \<Rightarrow> (u32 \<times> 'h) option"
  free_fn :: "u32 \<Rightarrow> 'h \<Rightarrow> 'h option"

record 'h jmem =
  jm_heap :: 'h
  jm_nodes :: "u32 \<rightharpoonup> cJSON"
  jm_texts :: "u32 \<rightharpoonup> u8 list"

text \<open>
  Sizes are computed in \<open>int\<close>, so one of \<open>2 ^ 31\<close> or more is undefined. Released memory is forgotten.
\<close>

definition cJSON_malloc :: "'h cJSON_Hooks \<Rightarrow> nat \<Rightarrow> 'h jmem \<Rightarrow> (u32 \<times> 'h jmem) option" where
  "cJSON_malloc hk n st =
     (if 2 ^ 31 \<le> n then None
      else do { (a, h) \<leftarrow> malloc_fn hk (of_nat n) (jm_heap st); Some (a, st\<lparr>jm_heap := h\<rparr>) })"

definition cJSON_free :: "'h cJSON_Hooks \<Rightarrow> u32 \<Rightarrow> 'h jmem \<Rightarrow> 'h jmem option" where
  "cJSON_free hk a st = do {
     h \<leftarrow> free_fn hk a (jm_heap st);
     Some (st\<lparr>jm_heap := h, jm_nodes := (jm_nodes st)(a := None), jm_texts := (jm_texts st)(a := None)\<rparr>)
   }"

definition set_node :: "u32 \<Rightarrow> (cJSON \<Rightarrow> cJSON) \<Rightarrow> 'h jmem \<Rightarrow> 'h jmem option" where
  "set_node a f st = do {
     n \<leftarrow> jm_nodes st a;
     Some (st\<lparr>jm_nodes := (jm_nodes st)(a \<mapsto> f n)\<rparr>)
   }"

text \<open>A block of \<open>n\<close> characters that is filled with a text and its terminator.\<close>

definition new_text :: "'h cJSON_Hooks \<Rightarrow> nat \<Rightarrow> u8 list \<Rightarrow> 'h jmem \<Rightarrow> (u32 \<times> 'h jmem) option" where
  "new_text hk n s st = do {
     (a, st) \<leftarrow> cJSON_malloc hk n st;
     if a = 0 then Some (0, st)
     else if length s + 1 \<le> n then Some (a, st\<lparr>jm_texts := (jm_texts st)(a \<mapsto> s)\<rparr>) else None
   }"

definition cJSON_strdup :: "'h cJSON_Hooks \<Rightarrow> u8 list \<Rightarrow> 'h jmem \<Rightarrow> (u32 \<times> 'h jmem) option" where
  "cJSON_strdup hk str st = new_text hk (length str + 1) str st"

definition zero_node :: cJSON where
  "zero_node = \<lparr>n_next = 0, n_prev = 0, n_child = 0, n_type = 0, n_valuestring = 0, n_valueint = 0,
     n_valuedouble = Fin False 0 0, n_string = 0\<rparr>"

definition cJSON_New_Item :: "'h cJSON_Hooks \<Rightarrow> 'h jmem \<Rightarrow> (u32 \<times> 'h jmem) option" where
  "cJSON_New_Item hk st = do {
     (a, st) \<leftarrow> cJSON_malloc hk 40 st;
     Some (a, if a = 0 then st else st\<lparr>jm_nodes := (jm_nodes st)(a \<mapsto> zero_node)\<rparr>)
   }"

text \<open>The release of a string field that belongs to the item.\<close>

definition free_field :: "'h cJSON_Hooks \<Rightarrow> (cJSON \<Rightarrow> u32) \<Rightarrow> u32 \<Rightarrow> u32 \<Rightarrow> 'h jmem \<Rightarrow> 'h jmem option" where
  "free_field hk fld flag c st = do {
     n \<leftarrow> jm_nodes st c;
     if n_type n AND flag = 0 \<and> fld n \<noteq> 0 then cJSON_free hk (fld n) st else Some st
   }"

partial_function (option) cJSON_Delete :: "'h cJSON_Hooks \<Rightarrow> u32 \<Rightarrow> 'h jmem \<Rightarrow> 'h jmem option" where
  "cJSON_Delete hk c st =
     (if c = 0 then Some st
      else do {
        n \<leftarrow> jm_nodes st c;
        st \<leftarrow> (if n_type n AND cJSON_IsReference = 0 \<and> n_child n \<noteq> 0 then cJSON_Delete hk (n_child n) st else Some st);
        st \<leftarrow> free_field hk n_valuestring cJSON_IsReference c st;
        st \<leftarrow> free_field hk n_string cJSON_StringIsConst c st;
        st \<leftarrow> cJSON_free hk c st;
        cJSON_Delete hk (n_next n) st
      })"

declare cJSON_Delete.simps [code]

section \<open>Building\<close>

definition create_item :: "'h cJSON_Hooks \<Rightarrow> (cJSON \<Rightarrow> cJSON) \<Rightarrow> 'h jmem \<Rightarrow> (u32 \<times> 'h jmem) option" where
  "create_item hk f st = do {
     (item, st) \<leftarrow> cJSON_New_Item hk st;
     if item = 0 then Some (0, st) else do { st \<leftarrow> set_node item f st; Some (item, st) }
   }"

definition cJSON_CreateNull :: "'h cJSON_Hooks \<Rightarrow> 'h jmem \<Rightarrow> (u32 \<times> 'h jmem) option" where
  "cJSON_CreateNull hk = create_item hk (\<lambda>n. n\<lparr>n_type := cJSON_NULL\<rparr>)"

definition cJSON_CreateTrue :: "'h cJSON_Hooks \<Rightarrow> 'h jmem \<Rightarrow> (u32 \<times> 'h jmem) option" where
  "cJSON_CreateTrue hk = create_item hk (\<lambda>n. n\<lparr>n_type := cJSON_True\<rparr>)"

definition cJSON_CreateFalse :: "'h cJSON_Hooks \<Rightarrow> 'h jmem \<Rightarrow> (u32 \<times> 'h jmem) option" where
  "cJSON_CreateFalse hk = create_item hk (\<lambda>n. n\<lparr>n_type := cJSON_False\<rparr>)"

definition cJSON_CreateBool :: "'h cJSON_Hooks \<Rightarrow> int \<Rightarrow> 'h jmem \<Rightarrow> (u32 \<times> 'h jmem) option" where
  "cJSON_CreateBool hk b = create_item hk (\<lambda>n. n\<lparr>n_type := if b \<noteq> 0 then cJSON_True else cJSON_False\<rparr>)"

definition cJSON_CreateArray :: "'h cJSON_Hooks \<Rightarrow> 'h jmem \<Rightarrow> (u32 \<times> 'h jmem) option" where
  "cJSON_CreateArray hk = create_item hk (\<lambda>n. n\<lparr>n_type := cJSON_Array\<rparr>)"

definition cJSON_CreateObject :: "'h cJSON_Hooks \<Rightarrow> 'h jmem \<Rightarrow> (u32 \<times> 'h jmem) option" where
  "cJSON_CreateObject hk = create_item hk (\<lambda>n. n\<lparr>n_type := cJSON_Object\<rparr>)"

definition cJSON_CreateNumber :: "'h cJSON_Hooks \<Rightarrow> dbl \<Rightarrow> 'h jmem \<Rightarrow> (u32 \<times> 'h jmem) option" where
  "cJSON_CreateNumber hk num st = do {
     (item, st) \<leftarrow> cJSON_New_Item hk st;
     if item = 0 then Some (0, st)
     else do {
       i \<leftarrow> dbl_to_int num;
       st \<leftarrow> set_node item (\<lambda>n. n\<lparr>n_type := cJSON_Number, n_valuedouble := num, n_valueint := i\<rparr>) st;
       Some (item, st)
     }
   }"

definition cJSON_CreateString :: "'h cJSON_Hooks \<Rightarrow> u8 list \<Rightarrow> 'h jmem \<Rightarrow> (u32 \<times> 'h jmem) option" where
  "cJSON_CreateString hk str st = do {
     (item, st) \<leftarrow> create_item hk (\<lambda>n. n\<lparr>n_type := cJSON_String\<rparr>) st;
     if item = 0 then Some (0, st)
     else do {
       (a, st) \<leftarrow> cJSON_strdup hk str st;
       st \<leftarrow> set_node item (\<lambda>n. n\<lparr>n_valuestring := a\<rparr>) st;
       Some (item, st)
     }
   }"

text \<open>The last item of a chain, which must not be empty.\<close>

partial_function (option) chain_last :: "'h jmem \<Rightarrow> u32 \<Rightarrow> u32 option" where
  "chain_last st c = do {
     n \<leftarrow> jm_nodes st c;
     if n_next n = 0 then Some c else chain_last st (n_next n)
   }"

definition suffix_object :: "u32 \<Rightarrow> u32 \<Rightarrow> 'h jmem \<Rightarrow> 'h jmem option" where
  "suffix_object prv item st = do {
     st \<leftarrow> set_node prv (\<lambda>n. n\<lparr>n_next := item\<rparr>) st;
     set_node item (\<lambda>n. n\<lparr>n_prev := prv\<rparr>) st
   }"

definition cJSON_AddItemToArray :: "u32 \<Rightarrow> u32 \<Rightarrow> 'h jmem \<Rightarrow> 'h jmem option" where
  "cJSON_AddItemToArray arr item st = do {
     n \<leftarrow> jm_nodes st arr;
     let c = n_child n;
     if item = 0 then Some st
     else if c = 0 then set_node arr (\<lambda>n. n\<lparr>n_child := item\<rparr>) st
     else do { l \<leftarrow> chain_last st c; suffix_object l item st }
   }"

definition cJSON_AddItemToObject :: "'h cJSON_Hooks \<Rightarrow> u32 \<Rightarrow> u8 list \<Rightarrow> u32 \<Rightarrow> 'h jmem \<Rightarrow> 'h jmem option" where
  "cJSON_AddItemToObject hk object str item st =
     (if item = 0 then Some st
      else do {
        n \<leftarrow> jm_nodes st item;
        st \<leftarrow> (if n_string n \<noteq> 0 then cJSON_free hk (n_string n) st else Some st);
        (a, st) \<leftarrow> cJSON_strdup hk str st;
        st \<leftarrow> set_node item (\<lambda>n. n\<lparr>n_string := a\<rparr>) st;
        cJSON_AddItemToArray object item st
      })"

definition create_reference :: "'h cJSON_Hooks \<Rightarrow> u32 \<Rightarrow> 'h jmem \<Rightarrow> (u32 \<times> 'h jmem) option" where
  "create_reference hk item st = do {
     (r, st) \<leftarrow> cJSON_New_Item hk st;
     if r = 0 then Some (0, st)
     else do {
       n \<leftarrow> jm_nodes st item;
       st \<leftarrow> set_node r (\<lambda>_. n\<lparr>n_string := 0, n_type := n_type n OR cJSON_IsReference, n_next := 0, n_prev := 0\<rparr>) st;
       Some (r, st)
     }
   }"

definition cJSON_AddItemReferenceToArray :: "'h cJSON_Hooks \<Rightarrow> u32 \<Rightarrow> u32 \<Rightarrow> 'h jmem \<Rightarrow> 'h jmem option" where
  "cJSON_AddItemReferenceToArray hk arr item st = do {
     (r, st) \<leftarrow> create_reference hk item st;
     cJSON_AddItemToArray arr r st
   }"

definition cJSON_AddItemReferenceToObject ::
    "'h cJSON_Hooks \<Rightarrow> u32 \<Rightarrow> u8 list \<Rightarrow> u32 \<Rightarrow> 'h jmem \<Rightarrow> 'h jmem option" where
  "cJSON_AddItemReferenceToObject hk object str item st = do {
     (r, st) \<leftarrow> create_reference hk item st;
     cJSON_AddItemToObject hk object str r st
   }"

section \<open>Looking up, detaching and replacing\<close>

text \<open>The number of items in a chain; the item \<open>which\<close> steps along it, or null.\<close>

partial_function (option) chain_length :: "'h jmem \<Rightarrow> u32 \<Rightarrow> nat option" where
  "chain_length st c =
     (if c = 0 then Some 0
      else do { n \<leftarrow> jm_nodes st c; k \<leftarrow> chain_length st (n_next n); Some (Suc k) })"

partial_function (option) chain_nth :: "'h jmem \<Rightarrow> u32 \<Rightarrow> int \<Rightarrow> u32 option" where
  "chain_nth st c which =
     (if c = 0 \<or> which \<le> 0 then Some c
      else do { n \<leftarrow> jm_nodes st c; chain_nth st (n_next n) (which - 1) })"

definition cJSON_GetArraySize :: "'h jmem \<Rightarrow> u32 \<Rightarrow> nat option" where
  "cJSON_GetArraySize st arr = do { n \<leftarrow> jm_nodes st arr; chain_length st (n_child n) }"

definition cJSON_GetArrayItem :: "'h jmem \<Rightarrow> u32 \<Rightarrow> int \<Rightarrow> u32 option" where
  "cJSON_GetArrayItem st arr item = do { n \<leftarrow> jm_nodes st arr; chain_nth st (n_child n) item }"

text \<open>\<open>cJSON_strcasecmp\<close>: 0 for strings that are equal but for case, with null pointers as the code treats them.\<close>

definition tolower :: "u8 \<Rightarrow> u8" where
  "tolower c = (if 65 \<le> c \<and> c \<le> 90 then c + 32 else c)"

definition cJSON_strcasecmp_eq :: "'h jmem \<Rightarrow> u32 \<Rightarrow> u8 list \<Rightarrow> bool option" where
  "cJSON_strcasecmp_eq st s1 s2 =
     (if s1 = 0 then Some False
      else do { t \<leftarrow> jm_texts st s1; Some (map tolower t = map tolower s2) })"

text \<open>The first item with the name, and how many come before it.\<close>

partial_function (option) chain_find :: "'h jmem \<Rightarrow> u32 \<Rightarrow> u8 list \<Rightarrow> (nat \<times> u32) option" where
  "chain_find st c str =
     (if c = 0 then Some (0, 0)
      else do {
        n \<leftarrow> jm_nodes st c;
        same \<leftarrow> cJSON_strcasecmp_eq st (n_string n) str;
        if same then Some (0, c)
        else do { (i, r) \<leftarrow> chain_find st (n_next n) str; Some (Suc i, r) }
      })"

declare chain_last.simps [code] chain_length.simps [code] chain_nth.simps [code] chain_find.simps [code]

definition cJSON_GetObjectItem :: "'h jmem \<Rightarrow> u32 \<Rightarrow> u8 list \<Rightarrow> u32 option" where
  "cJSON_GetObjectItem st object str = do {
     n \<leftarrow> jm_nodes st object;
     map_option snd (chain_find st (n_child n) str)
   }"

text \<open>Writing a neighbour's field when there is a neighbour.\<close>

definition set_node_if :: "u32 \<Rightarrow> (cJSON \<Rightarrow> cJSON) \<Rightarrow> 'h jmem \<Rightarrow> 'h jmem option" where
  "set_node_if a f st = (if a = 0 then Some st else set_node a f st)"

definition cJSON_DetachItemFromArray :: "u32 \<Rightarrow> int \<Rightarrow> 'h jmem \<Rightarrow> (u32 \<times> 'h jmem) option" where
  "cJSON_DetachItemFromArray arr which st = do {
     n \<leftarrow> jm_nodes st arr;
     c \<leftarrow> chain_nth st (n_child n) which;
     if c = 0 then Some (0, st)
     else do {
       m \<leftarrow> jm_nodes st c;
       st \<leftarrow> set_node_if (n_prev m) (\<lambda>p. p\<lparr>n_next := n_next m\<rparr>) st;
       st \<leftarrow> set_node_if (n_next m) (\<lambda>q. q\<lparr>n_prev := n_prev m\<rparr>) st;
       st \<leftarrow> (if c = n_child n then set_node arr (\<lambda>n. n\<lparr>n_child := n_next m\<rparr>) st else Some st);
       st \<leftarrow> set_node c (\<lambda>m. m\<lparr>n_prev := 0, n_next := 0\<rparr>) st;
       Some (c, st)
     }
   }"

definition cJSON_DeleteItemFromArray :: "'h cJSON_Hooks \<Rightarrow> u32 \<Rightarrow> int \<Rightarrow> 'h jmem \<Rightarrow> 'h jmem option" where
  "cJSON_DeleteItemFromArray hk arr which st = do {
     (c, st) \<leftarrow> cJSON_DetachItemFromArray arr which st;
     cJSON_Delete hk c st
   }"

definition cJSON_DetachItemFromObject :: "u32 \<Rightarrow> u8 list \<Rightarrow> 'h jmem \<Rightarrow> (u32 \<times> 'h jmem) option" where
  "cJSON_DetachItemFromObject object str st = do {
     n \<leftarrow> jm_nodes st object;
     (i, c) \<leftarrow> chain_find st (n_child n) str;
     if c \<noteq> 0 then cJSON_DetachItemFromArray object (int i) st else Some (0, st)
   }"

definition cJSON_DeleteItemFromObject :: "'h cJSON_Hooks \<Rightarrow> u32 \<Rightarrow> u8 list \<Rightarrow> 'h jmem \<Rightarrow> 'h jmem option" where
  "cJSON_DeleteItemFromObject hk object str st = do {
     (c, st) \<leftarrow> cJSON_DetachItemFromObject object str st;
     cJSON_Delete hk c st
   }"

text \<open>Linking the new item to the array's head, or to the item before it.\<close>

definition relink :: "u32 \<Rightarrow> u32 \<Rightarrow> u32 \<Rightarrow> 'h jmem \<Rightarrow> 'h jmem option" where
  "relink arr c newitem st = do {
     n \<leftarrow> jm_nodes st arr;
     if c = n_child n then set_node arr (\<lambda>n. n\<lparr>n_child := newitem\<rparr>) st
     else do { m \<leftarrow> jm_nodes st newitem; set_node (n_prev m) (\<lambda>p. p\<lparr>n_next := newitem\<rparr>) st }
   }"

definition cJSON_InsertItemInArray :: "u32 \<Rightarrow> int \<Rightarrow> u32 \<Rightarrow> 'h jmem \<Rightarrow> 'h jmem option" where
  "cJSON_InsertItemInArray arr which newitem st = do {
     n \<leftarrow> jm_nodes st arr;
     c \<leftarrow> chain_nth st (n_child n) which;
     if c = 0 then cJSON_AddItemToArray arr newitem st
     else do {
       m \<leftarrow> jm_nodes st c;
       st \<leftarrow> set_node newitem (\<lambda>x. x\<lparr>n_next := c, n_prev := n_prev m\<rparr>) st;
       st \<leftarrow> set_node c (\<lambda>m. m\<lparr>n_prev := newitem\<rparr>) st;
       relink arr c newitem st
     }
   }"

definition cJSON_ReplaceItemInArray :: "'h cJSON_Hooks \<Rightarrow> u32 \<Rightarrow> int \<Rightarrow> u32 \<Rightarrow> 'h jmem \<Rightarrow> 'h jmem option" where
  "cJSON_ReplaceItemInArray hk arr which newitem st = do {
     n \<leftarrow> jm_nodes st arr;
     c \<leftarrow> chain_nth st (n_child n) which;
     if c = 0 then Some st
     else do {
       m \<leftarrow> jm_nodes st c;
       st \<leftarrow> set_node newitem (\<lambda>x. x\<lparr>n_next := n_next m, n_prev := n_prev m\<rparr>) st;
       st \<leftarrow> set_node_if (n_next m) (\<lambda>q. q\<lparr>n_prev := newitem\<rparr>) st;
       st \<leftarrow> relink arr c newitem st;
       st \<leftarrow> set_node c (\<lambda>m. m\<lparr>n_next := 0, n_prev := 0\<rparr>) st;
       cJSON_Delete hk c st
     }
   }"

definition cJSON_ReplaceItemInObject ::
    "'h cJSON_Hooks \<Rightarrow> u32 \<Rightarrow> u8 list \<Rightarrow> u32 \<Rightarrow> 'h jmem \<Rightarrow> 'h jmem option" where
  "cJSON_ReplaceItemInObject hk object str newitem st = do {
     n \<leftarrow> jm_nodes st object;
     (i, c) \<leftarrow> chain_find st (n_child n) str;
     if c = 0 then Some st
     else do {
       (a, st) \<leftarrow> cJSON_strdup hk str st;
       st \<leftarrow> set_node newitem (\<lambda>x. x\<lparr>n_string := a\<rparr>) st;
       cJSON_ReplaceItemInArray hk object (int i) newitem st
     }
   }"

end
