(* ===== verification/Cjson_Print.thy ===== *)
theory Cjson_Print
  imports Cjson
begin

text \<open>
  The printing half of the JSON library, with a block of memory per text (\<open>cJSON_Print\<close> and
  \<open>cJSON_PrintUnformatted\<close>). \<open>fmt\<close> asks for the formatted text.
\<close>

section \<open>Numbers\<close>

text \<open>\<open>fabs(i - d) <= DBL_EPSILON\<close> and \<open>fabs(floor(d) - d) <= DBL_EPSILON\<close>; the differences are exact where it matters.\<close>

definition near_int :: "int \<Rightarrow> dbl \<Rightarrow> bool" where
  "near_int i d = (case d of
     Fin s m e \<Rightarrow> \<bar>i * int (mag_den e) - signed s (mag_num m e)\<bar> * 2 ^ 52 \<le> int (mag_den e)
   | _ \<Rightarrow> False)"

definition near_floor :: "dbl \<Rightarrow> bool" where
  "near_floor d = (case d of
     Fin s m e \<Rightarrow> (signed s (mag_num m e) mod int (mag_den e)) * 2 ^ 52 \<le> int (mag_den e)
   | _ \<Rightarrow> False)"

text \<open>The comparisons of \<open>fabs(d)\<close> with the nearest numbers to \<open>1.0e60\<close>, \<open>1.0e-6\<close> and \<open>1.0e9\<close>.\<close>

definition abs_below_1e60 :: "dbl \<Rightarrow> bool" where
  "abs_below_1e60 d = (case d of Fin s m e \<Rightarrow> mag_less m e 0x13E9E4E4C2F344 147 | _ \<Rightarrow> False)"

definition abs_below_1e_6 :: "dbl \<Rightarrow> bool" where
  "abs_below_1e_6 d = (case d of Fin s m e \<Rightarrow> mag_less m e 0x10C6F7A0B5ED8D (- 72) | _ \<Rightarrow> False)"

definition abs_above_1e9 :: "dbl \<Rightarrow> bool" where
  "abs_above_1e9 d = (case d of Fin s m e \<Rightarrow> mag_less 1000000000 0 m e | Inf s \<Rightarrow> True | Nan s \<Rightarrow> False)"

definition dbl_is_zero :: "dbl \<Rightarrow> bool" where
  "dbl_is_zero d = (case d of Fin s m e \<Rightarrow> m = 0 | _ \<Rightarrow> False)"

definition prints_as_int :: "int \<Rightarrow> dbl \<Rightarrow> bool" where
  "prints_as_int i d \<longleftrightarrow> near_int i d \<and> dbl_le_int d (2 ^ 31 - 1) \<and> dbl_ge_int d (- (2 ^ 31))"

definition print_number :: "'h cJSON_Hooks \<Rightarrow> cJSON \<Rightarrow> 'h jmem \<Rightarrow> (u32 \<times> 'h jmem) option" where
  "print_number hk item st = (
     let d = n_valuedouble item in
     if dbl_is_zero d then new_text hk 2 [48] st
     else if prints_as_int (n_valueint item) d then new_text hk 21 (fmt_d (n_valueint item)) st
     else new_text hk 64
       (if near_floor d \<and> abs_below_1e60 d then fmt_f 0 d
        else if abs_below_1e_6 d \<or> abs_above_1e9 d then fmt_e d else fmt_f 6 d) st)"

section \<open>Strings\<close>

definition needs_escape :: "u8 \<Rightarrow> bool" where
  "needs_escape c \<longleftrightarrow> 0 < c \<and> c < 32 \<or> c = 34 \<or> c = 92"

text \<open>The counting pass, and the pass that writes into the buffer of \<open>cap\<close> characters.\<close>

fun escaped_len :: "u8 list \<Rightarrow> nat" where
  "escaped_len [] = 0"
| "escaped_len (c # s) = (if c \<in> {34, 92, 8, 12, 10, 13, 9} then 2 else if c < 32 then 6 else 1) + escaped_len s"

definition hex_digit :: "nat \<Rightarrow> u8" where
  "hex_digit k = (if k < 10 then 48 + of_nat k else 87 + of_nat k)"

definition fmt_04x :: "u8 \<Rightarrow> u8 list" where
  "fmt_04x c = [48, 48, hex_digit (unat c div 16), hex_digit (unat c mod 16)]"

definition escape_char :: "u8 \<Rightarrow> u8 list" where
  "escape_char c =
     (if c = 92 then [92] else if c = 34 then [34] else if c = 8 then [98] else if c = 12 then [102]
      else if c = 10 then [110] else if c = 13 then [114] else if c = 9 then [116] else 117 # fmt_04x c)"

fun escape_write :: "nat \<Rightarrow> u8 list \<Rightarrow> u8 list \<Rightarrow> u8 list option" where
  "escape_write cap out [] = Some out"
| "escape_write cap out (c # s) =
     (if c > 31 \<and> c \<noteq> 34 \<and> c \<noteq> 92 then push cap out c \<bind> (\<lambda>out. escape_write cap out s)
      else do {
        out \<leftarrow> push cap out 92;
        out \<leftarrow> append_buf cap out (escape_char c);
        escape_write cap out s
      })"

text \<open>
  \<open>str\<close> is the pointer; the first loop reads through it before it is compared with null. The block is filled as
  \<open>new_text\<close> does, but for the string with escapes, which the loop writes.
\<close>

definition print_string_ptr :: "'h cJSON_Hooks \<Rightarrow> u32 \<Rightarrow> 'h jmem \<Rightarrow> (u32 \<times> 'h jmem) option" where
  "print_string_ptr hk str st = do {
     s \<leftarrow> jm_texts st str;
     if \<not> list_ex needs_escape s then new_text hk (length s + 3) (34 # s @ [34]) st
     else do {
       let len = escaped_len s;
       (a, st) \<leftarrow> cJSON_malloc hk (len + 3) st;
       if a = 0 then Some (0, st)
       else do {
         out \<leftarrow> push (len + 3) [] 34;
         out \<leftarrow> escape_write (len + 3) out s;
         out \<leftarrow> push (len + 3) out 34;
         _ \<leftarrow> push (len + 3) out 0;
         Some (a, st\<lparr>jm_texts := (jm_texts st)(a \<mapsto> out)\<rparr>)
       }
     }
   }"

definition print_string :: "'h cJSON_Hooks \<Rightarrow> cJSON \<Rightarrow> 'h jmem \<Rightarrow> (u32 \<times> 'h jmem) option" where
  "print_string hk item st = print_string_ptr hk (n_valuestring item) st"

section \<open>Arrays and objects\<close>

text \<open>Releasing the texts that exist, and the two arrays of pointers.\<close>

fun free_all :: "'h cJSON_Hooks \<Rightarrow> u32 list \<Rightarrow> 'h jmem \<Rightarrow> 'h jmem option" where
  "free_all hk [] st = Some st"
| "free_all hk (a # as) st = do {
     st \<leftarrow> (if a \<noteq> 0 then cJSON_free hk a st else Some st);
     free_all hk as st
   }"

text \<open>The loop that joins the texts of the elements, and releases each.\<close>

fun compose_array :: "'h cJSON_Hooks \<Rightarrow> bool \<Rightarrow> nat \<Rightarrow> u8 list \<Rightarrow> u32 list \<Rightarrow> 'h jmem \<Rightarrow> (u8 list \<times> 'h jmem) option" where
  "compose_array hk fmt cap out [] st = Some (out, st)"
| "compose_array hk fmt cap out (e # es) st = do {
     s \<leftarrow> jm_texts st e;
     out \<leftarrow> append_buf cap out s;
     out \<leftarrow> (if es \<noteq> [] then append_buf cap out (44 # (if fmt then [32] else [])) else Some out);
     st \<leftarrow> cJSON_free hk e st;
     compose_array hk fmt cap out es st
   }"

definition finish_array :: "'h cJSON_Hooks \<Rightarrow> bool \<Rightarrow> u32 \<Rightarrow> u32 list \<Rightarrow> nat \<Rightarrow> 'h jmem \<Rightarrow> (u32 \<times> 'h jmem) option" where
  "finish_array hk fmt entries es len st = do {
     (out, st) \<leftarrow> (if 0 \<in> set es then Some (0, st) else cJSON_malloc hk len st);
     if out = 0 then do {
       st \<leftarrow> free_all hk es st;
       st \<leftarrow> cJSON_free hk entries st;
       Some (0, st)
     } else do {
       s \<leftarrow> append_buf len [] [91];
       (s, st) \<leftarrow> compose_array hk fmt len s es st;
       st \<leftarrow> cJSON_free hk entries st;
       s \<leftarrow> append_buf len s [93];
       _ \<leftarrow> append_buf len s [0];
       Some (out, st\<lparr>jm_texts := (jm_texts st)(out \<mapsto> s)\<rparr>)
     }
   }"

definition tabs :: "bool \<Rightarrow> nat \<Rightarrow> u8 list" where
  "tabs fmt n = (if fmt then replicate n 9 else [])"

definition print_empty_object :: "'h cJSON_Hooks \<Rightarrow> bool \<Rightarrow> nat \<Rightarrow> 'h jmem \<Rightarrow> (u32 \<times> 'h jmem) option" where
  "print_empty_object hk fmt depth st =
     new_text hk (if fmt then depth + 4 else 3) ([123] @ (if fmt then [10] else []) @ tabs fmt (depth - 1) @ [125]) st"

text \<open>The same for the members of an object; \<open>es\<close> holds the texts of the names and of the values.\<close>

fun compose_object ::
    "'h cJSON_Hooks \<Rightarrow> bool \<Rightarrow> nat \<Rightarrow> nat \<Rightarrow> u8 list \<Rightarrow> (u32 \<times> u32) list \<Rightarrow> 'h jmem \<Rightarrow> (u8 list \<times> 'h jmem) option" where
  "compose_object hk fmt cap depth out [] st = Some (out, st)"
| "compose_object hk fmt cap depth out ((k, v) # es) st = do {
     out \<leftarrow> append_buf cap out (tabs fmt depth);
     s \<leftarrow> jm_texts st k;
     out \<leftarrow> append_buf cap out s;
     out \<leftarrow> append_buf cap out (58 # tabs fmt 1);
     s \<leftarrow> jm_texts st v;
     out \<leftarrow> append_buf cap out s;
     out \<leftarrow> append_buf cap out ((if es \<noteq> [] then [44] else []) @ (if fmt then [10] else []));
     st \<leftarrow> cJSON_free hk k st;
     st \<leftarrow> cJSON_free hk v st;
     compose_object hk fmt cap depth out es st
   }"

fun pair_list :: "('a \<times> 'a) list \<Rightarrow> 'a list" where
  "pair_list [] = []"
| "pair_list ((k, v) # es) = k # v # pair_list es"

definition finish_object ::
    "'h cJSON_Hooks \<Rightarrow> bool \<Rightarrow> nat \<Rightarrow> u32 \<Rightarrow> u32 \<Rightarrow> (u32 \<times> u32) list \<Rightarrow> nat \<Rightarrow> 'h jmem \<Rightarrow> (u32 \<times> 'h jmem) option" where
  "finish_object hk fmt depth entries names es len st = do {
     (out, st) \<leftarrow> (if 0 \<in> set (pair_list es) then Some (0, st) else cJSON_malloc hk len st);
     if out = 0 then do {
       st \<leftarrow> free_all hk (pair_list es) st;
       st \<leftarrow> cJSON_free hk names st;
       st \<leftarrow> cJSON_free hk entries st;
       Some (0, st)
     } else do {
       s \<leftarrow> append_buf len [] (123 # (if fmt then [10] else []));
       (s, st) \<leftarrow> compose_object hk fmt len depth s es st;
       st \<leftarrow> cJSON_free hk names st;
       st \<leftarrow> cJSON_free hk entries st;
       s \<leftarrow> append_buf len s (tabs fmt (depth - 1));
       s \<leftarrow> append_buf len s [125];
       _ \<leftarrow> append_buf len s [0];
       Some (out, st\<lparr>jm_texts := (jm_texts st)(out \<mapsto> s)\<rparr>)
     }
   }"

text \<open>
  \<open>print_value\<close>, \<open>print_array\<close> and \<open>print_object\<close> call each other, so they are one recursion over what is to be
  printed: a value, the elements from \<open>child\<close> on (up to the first that fails), or the members from \<open>child\<close> on. The
  result has the texts of the elements or members, a value's own text as its only element, and what
  the loop adds to \<open>len\<close>.
\<close>

datatype print_call = P_value u32 nat | P_elems u32 nat | P_members u32 nat

partial_function (option) print_go ::
    "'h cJSON_Hooks \<Rightarrow> bool \<Rightarrow> print_call \<Rightarrow> 'h jmem \<Rightarrow> ((u32 \<times> u32) list \<times> nat \<times> 'h jmem) option" where
  "print_go hk fmt call st = (case call of
     P_value item depth \<Rightarrow>
       if item = 0 then Some ([(0, 0)], 0, st)
       else do {
         n \<leftarrow> jm_nodes st item;
         let ty = n_type n AND 255;
         (r, st) \<leftarrow>
          (if ty = cJSON_NULL then cJSON_strdup hk [110, 117, 108, 108] st
           else if ty = cJSON_False then cJSON_strdup hk [102, 97, 108, 115, 101] st
           else if ty = cJSON_True then cJSON_strdup hk [116, 114, 117, 101] st
           else if ty = cJSON_Number then print_number hk n st
           else if ty = cJSON_String then print_string hk n st
           else if ty = cJSON_Array then do {
             numentries \<leftarrow> chain_length st (n_child n);
             if numentries = 0 then new_text hk 3 [91, 93] st
             else do {
               (entries, st) \<leftarrow> cJSON_malloc hk (numentries * 4) st;
               if entries = 0 then Some (0, st)
               else do {
                 (es, len, st) \<leftarrow> print_go hk fmt (P_elems (n_child n) (depth + 1)) st;
                 finish_array hk fmt entries (map fst es) (5 + len) st
               }
             }
           }
           else if ty = cJSON_Object then do {
             numentries \<leftarrow> chain_length st (n_child n);
             if numentries = 0 then print_empty_object hk fmt depth st
             else do {
               (entries, st) \<leftarrow> cJSON_malloc hk (numentries * 4) st;
               if entries = 0 then Some (0, st)
               else do {
                 (names, st) \<leftarrow> cJSON_malloc hk (numentries * 4) st;
                 if names = 0 then do { st \<leftarrow> cJSON_free hk entries st; Some (0, st) }
                 else do {
                   (es, len, st) \<leftarrow> print_go hk fmt (P_members (n_child n) (depth + 1)) st;
                   finish_object hk fmt (depth + 1) entries names es (7 + (if fmt then depth + 1 else 0) + len) st
                 }
               }
             }
           }
           else Some (0, st));
         Some ([(r, 0)], 0, st)
       }
   | P_elems child depth \<Rightarrow>
       if child = 0 then Some ([], 0, st)
       else do {
         n \<leftarrow> jm_nodes st child;
         (r, _, st) \<leftarrow> print_go hk fmt (P_value child depth) st;
         let ret = fst (hd r);
         if ret = 0 then Some ([(0, 0)], 0, st)
         else do {
           s \<leftarrow> jm_texts st ret;
           (es, len, st) \<leftarrow> print_go hk fmt (P_elems (n_next n) depth) st;
           Some ((ret, 0) # es, length s + 2 + (if fmt then 1 else 0) + len, st)
         }
       }
   | P_members child depth \<Rightarrow>
       if child = 0 then Some ([], 0, st)
       else do {
         n \<leftarrow> jm_nodes st child;
         (str, st) \<leftarrow> print_string_ptr hk (n_string n) st;
         (r, _, st) \<leftarrow> print_go hk fmt (P_value child depth) st;
         let ret = fst (hd r);
         add \<leftarrow> (if str \<noteq> 0 \<and> ret \<noteq> 0 then do {
                  s \<leftarrow> jm_texts st ret;
                  t \<leftarrow> jm_texts st str;
                  Some (length s + length t + 2 + (if fmt then 2 + depth else 0))
                } else Some 0);
         (es, len, st) \<leftarrow> print_go hk fmt (P_members (n_next n) depth) st;
         Some ((str, ret) # es, add + len, st)
       })"

declare print_go.simps [code]

definition print_value :: "'h cJSON_Hooks \<Rightarrow> u32 \<Rightarrow> nat \<Rightarrow> bool \<Rightarrow> 'h jmem \<Rightarrow> (u32 \<times> 'h jmem) option" where
  "print_value hk item depth fmt st = do {
     (r, _, st) \<leftarrow> print_go hk fmt (P_value item depth) st;
     Some (fst (hd r), st)
   }"

definition cJSON_Print :: "'h cJSON_Hooks \<Rightarrow> u32 \<Rightarrow> 'h jmem \<Rightarrow> (u32 \<times> 'h jmem) option" where
  "cJSON_Print hk item st = print_value hk item 0 True st"

definition cJSON_PrintUnformatted :: "'h cJSON_Hooks \<Rightarrow> u32 \<Rightarrow> 'h jmem \<Rightarrow> (u32 \<times> 'h jmem) option" where
  "cJSON_PrintUnformatted hk item st = print_value hk item 0 False st"

end
