(* ===== verification/Cjson_Tree.thy ===== *)
theory Cjson_Tree
  imports Cjson
begin

text \<open>
  Trees of JSON items. \<open>jtree\<close> is a tree with the addresses of its items and strings, \<open>tree_rep\<close> says that
  the memory holds it, with all the pointers between the items, and \<open>owned\<close> are its blocks. The locale
  \<open>json_alloc\<close> states what the library needs of the allocator it is given.
\<close>

section \<open>Trees in memory\<close>

type_synonym jstring = "(u32 \<times> u8 list) option"

datatype jtree = JT (jt_addr: u32) (jt_type: u32) (jt_vs: jstring) (jt_int: int) (jt_dbl: dbl) (jt_str: jstring)
  (jt_kids: "jtree list")

definition str_addr :: "jstring \<Rightarrow> u32" where
  "str_addr s = (case s of None \<Rightarrow> 0 | Some (a, _) \<Rightarrow> a)"

definition str_own :: "jstring \<Rightarrow> u32 list" where
  "str_own s = (case s of None \<Rightarrow> [] | Some (a, _) \<Rightarrow> [a])"

definition str_rep :: "(u32 \<rightharpoonup> u8 list) \<Rightarrow> jstring \<Rightarrow> bool" where
  "str_rep T s = (case s of None \<Rightarrow> True | Some (a, t) \<Rightarrow> a \<noteq> 0 \<and> T a = Some t)"

definition head_addr :: "jtree list \<Rightarrow> u32" where
  "head_addr ts = (case ts of [] \<Rightarrow> 0 | t # _ \<Rightarrow> jt_addr t)"

definition jt_node :: "u32 \<Rightarrow> u32 \<Rightarrow> jtree \<Rightarrow> cJSON" where
  "jt_node nx pv t = \<lparr>n_next = nx, n_prev = pv, n_child = head_addr (jt_kids t), n_type = jt_type t,
     n_valuestring = str_addr (jt_vs t), n_valueint = jt_int t, n_valuedouble = jt_dbl t, n_string = str_addr (jt_str t)\<rparr>"

text \<open>The chain of items \<open>ts\<close>, of which the first has the predecessor \<open>pv\<close>.\<close>

function tree_rep :: "(u32 \<rightharpoonup> cJSON) \<Rightarrow> (u32 \<rightharpoonup> u8 list) \<Rightarrow> u32 \<Rightarrow> jtree list \<Rightarrow> bool" where
  "tree_rep N T pv [] \<longleftrightarrow> True"
| "tree_rep N T pv (t # ts) \<longleftrightarrow>
     jt_addr t \<noteq> 0 \<and> N (jt_addr t) = Some (jt_node (head_addr ts) pv t) \<and> str_rep T (jt_vs t) \<and> str_rep T (jt_str t) \<and>
     tree_rep N T 0 (jt_kids t) \<and> tree_rep N T (jt_addr t) ts"
  by pat_completeness auto
termination
proof (relation "measure (\<lambda>(N, T, pv, ts). size_list size ts)")
  show "((N, T, 0, jt_kids t), N, T, pv, t # ts) \<in> measure (\<lambda>(N, T, pv, ts). size_list size ts)" for N T pv t ts
    by (cases t) simp
qed auto

function owned :: "jtree list \<Rightarrow> u32 list" where
  "owned [] = []"
| "owned (t # ts) = owned (jt_kids t) @ str_own (jt_vs t) @ str_own (jt_str t) @ jt_addr t # owned ts"
  by pat_completeness auto
termination
proof (relation "measure (size_list size)")
  show "(jt_kids t, t # ts) \<in> measure (size_list size)" for t ts by (cases t) simp
qed auto

text \<open>Trees without references and borrowed strings own all their blocks.\<close>

function plain :: "jtree list \<Rightarrow> bool" where
  "plain [] \<longleftrightarrow> True"
| "plain (t # ts) \<longleftrightarrow> jt_type t < 256 \<and> plain (jt_kids t) \<and> plain ts"
  by pat_completeness auto
termination
proof (relation "measure (size_list size)")
  show "(jt_kids t, t # ts) \<in> measure (size_list size)" for t ts by (cases t) simp
qed auto

lemma head_addr_simps [simp]: "head_addr [] = 0" "head_addr (t # ts) = jt_addr t"
  by (simp_all add: head_addr_def)

lemma jt_node_sel [simp]:
  "n_next (jt_node nx pv t) = nx" "n_prev (jt_node nx pv t) = pv" "n_child (jt_node nx pv t) = head_addr (jt_kids t)"
  "n_type (jt_node nx pv t) = jt_type t" "n_valuestring (jt_node nx pv t) = str_addr (jt_vs t)"
  "n_valueint (jt_node nx pv t) = jt_int t" "n_valuedouble (jt_node nx pv t) = jt_dbl t"
  "n_string (jt_node nx pv t) = str_addr (jt_str t)"
  by (simp_all add: jt_node_def)

lemma owned_append [simp]: "owned (xs @ ys) = owned xs @ owned ys"
  by (induction xs) auto

lemma plain_append [simp]: "plain (xs @ ys) \<longleftrightarrow> plain xs \<and> plain ys"
  by (induction xs) auto

text \<open>Where a tree is depends on its own blocks only.\<close>

lemma str_rep_frame: "str_rep T s \<Longrightarrow> (\<And>a. a \<in> set (str_own s) \<Longrightarrow> T' a = T a) \<Longrightarrow> str_rep T' s"
  by (auto simp: str_rep_def str_own_def split: option.splits)

lemma tree_rep_frame:
  "tree_rep N T pv ts \<Longrightarrow> (\<And>a. a \<in> set (owned ts) \<Longrightarrow> N' a = N a \<and> T' a = T a) \<Longrightarrow> tree_rep N' T' pv ts"
proof (induction N T pv ts rule: tree_rep.induct)
  case (2 N T pv t ts)
  have "tree_rep N' T' 0 (jt_kids t)" "tree_rep N' T' (jt_addr t) ts"
    using 2 by (auto intro!: "2.IH")
  moreover have "str_rep T' (jt_vs t)" "str_rep T' (jt_str t)"
    using 2 by (auto elim!: str_rep_frame)
  ultimately show ?case using 2 by simp
qed simp

lemma str_rep_addr: "str_rep T s \<Longrightarrow> str_addr s = 0 \<longleftrightarrow> s = None"
  by (auto simp: str_rep_def str_addr_def split: option.splits)

lemma tree_rep_head: "tree_rep N T pv ts \<Longrightarrow> head_addr ts = 0 \<longleftrightarrow> ts = []"
  by (cases ts) auto

lemma tree_rep_dom: "tree_rep N T pv ts \<Longrightarrow> set (owned ts) \<subseteq> dom N \<union> dom T"
proof (induction N T pv ts rule: tree_rep.induct)
  case (2 N T pv t ts)
  then show ?case by (auto simp: str_rep_def str_own_def split: option.splits)
qed simp

lemma type_flags: "(w :: u32) < 256 \<Longrightarrow> w AND 256 = 0 \<and> w AND 512 = 0 \<and> w AND 255 = w"
proof -
  assume w: "w < 256"
  have lt: "\<not> bit w n" if "8 \<le> n" for n
  proof -
    have "unat w < 2 ^ 8" using w by (simp add: word_less_nat_alt)
    also have "(2 :: nat) ^ 8 \<le> 2 ^ n" using that by (rule power_increasing) simp
    finally have "\<not> bit (unat w) n" by (simp add: bit_iff_odd)
    then show ?thesis by (simp add: bit_unsigned_iff)
  qed
  have "w AND 2 ^ k = 0" if "8 \<le> k" for k by (rule bit_word_eqI) (use that lt in \<open>auto simp: bit_simps\<close>)
  from this [of 8] this [of 9] have "w AND 256 = 0" "w AND 512 = 0" by simp_all
  moreover have "w AND mask 8 = w" by (rule bit_word_eqI) (use lt not_le in \<open>auto simp: bit_simps\<close>)
  ultimately show ?thesis by (simp add: mask_eq_exp_minus_1)
qed

section \<open>The allocator\<close>

text \<open>
  A request delivers null or a block that was not in use, a release gives one back, and where there is
  room for \<open>b\<close> bytes a request of \<open>n\<close> bytes succeeds and leaves room for all but \<open>n + 51\<close> of them.
\<close>

locale json_alloc =
  fixes hk :: "'h cJSON_Hooks" and ok :: "'h \<Rightarrow> bool" and live :: "'h \<Rightarrow> u32 set" and room :: "nat \<Rightarrow> 'h \<Rightarrow> bool"
  assumes malloc_law: "ok h \<Longrightarrow> \<exists>a h'. malloc_fn hk n h = Some (a, h') \<and> ok h' \<and>
      (a = 0 \<and> live h' = live h \<or> a \<noteq> 0 \<and> a \<notin> live h \<and> live h' = insert a (live h)) \<and>
      (\<forall>b. room b h \<and> n \<noteq> 0 \<and> unat n + 51 \<le> b \<longrightarrow> a \<noteq> 0 \<and> room (b - (unat n + 51)) h')"
    and free_law: "ok h \<Longrightarrow> a \<in> live h \<Longrightarrow> \<exists>h'. free_fn hk a h = Some h' \<and> ok h' \<and> live h' = live h - {a} \<and>
      (\<forall>b. room b h \<longrightarrow> room b h')"
    and null_dead: "ok h \<Longrightarrow> 0 \<notin> live h"
    and room_mono: "room b h \<Longrightarrow> c \<le> b \<Longrightarrow> room c h"
begin

definition lv :: "'h jmem \<Rightarrow> u32 set" where
  "lv st = live (jm_heap st)"

definition jm_ok :: "'h jmem \<Rightarrow> bool" where
  "jm_ok st \<longleftrightarrow> ok (jm_heap st) \<and> dom (jm_nodes st) \<subseteq> lv st \<and> dom (jm_texts st) \<subseteq> lv st \<and>
     dom (jm_nodes st) \<inter> dom (jm_texts st) = {}"

text \<open>What an operation that uses \<open>c\<close> bytes does to the room there is; \<open>p\<close> says that it succeeds.\<close>

definition uses :: "nat \<Rightarrow> bool \<Rightarrow> 'h jmem \<Rightarrow> 'h jmem \<Rightarrow> bool" where
  "uses c p st st' \<longleftrightarrow> (\<forall>b. room b (jm_heap st) \<and> c \<le> b \<longrightarrow> p \<and> room (b - c) (jm_heap st'))"

lemma uses_trans: "uses c p st st' \<Longrightarrow> (p \<Longrightarrow> uses d q st' st'') \<Longrightarrow> uses (c + d) (p \<and> q) st st''"
  unfolding uses_def by (metis add_leD1 diff_diff_add le_diff_conv2 add.commute)

lemma uses_weaken: "uses c p st st' \<Longrightarrow> c \<le> d \<Longrightarrow> (p \<Longrightarrow> q) \<Longrightarrow> uses d q st st'"
  unfolding uses_def by (meson diff_le_mono2 le_trans room_mono)

lemma jm_ok_null: "jm_ok st \<Longrightarrow> 0 \<notin> lv st"
  using null_dead by (simp add: jm_ok_def lv_def)

lemma jm_ok_fresh: "jm_ok st \<Longrightarrow> a \<notin> lv st \<Longrightarrow> jm_nodes st a = None \<and> jm_texts st a = None"
  by (auto simp: jm_ok_def)

lemma jm_ok_live: "jm_ok st \<Longrightarrow> jm_nodes st a = Some n \<Longrightarrow> a \<in> lv st" "jm_ok st \<Longrightarrow> jm_texts st a = Some s \<Longrightarrow> a \<in> lv st"
  by (auto simp: jm_ok_def)

text \<open>A request, and a release: \<open>got\<close> relates the states before and after a request that delivered \<open>a\<close>.\<close>

definition got :: "u32 \<Rightarrow> 'h jmem \<Rightarrow> 'h jmem \<Rightarrow> bool" where
  "got a st st' \<longleftrightarrow> (if a = 0 then lv st' = lv st else a \<notin> lv st \<and> lv st' = insert a (lv st))"

lemma malloc_ok:
  assumes ok: "jm_ok st" and n: "0 < n" "n < 2 ^ 31"
  obtains a st' where "cJSON_malloc hk n st = Some (a, st')" "jm_ok st'" "uses (n + 51) (a \<noteq> 0) st st'"
    "got a st st'" "jm_nodes st' = jm_nodes st" "jm_texts st' = jm_texts st"
proof -
  have un: "unat (of_nat n :: u32) = n" using n(2) by (simp add: unat_of_nat take_bit_nat_eq_self)
  then have nz: "(of_nat n :: u32) \<noteq> 0" using n(1) by auto
  obtain a h' where r: "malloc_fn hk (of_nat n) (jm_heap st) = Some (a, h')" "ok h'"
    "a = 0 \<and> live h' = live (jm_heap st) \<or> a \<noteq> 0 \<and> a \<notin> live (jm_heap st) \<and> live h' = insert a (live (jm_heap st))"
    "\<forall>b. room b (jm_heap st) \<and> (of_nat n :: u32) \<noteq> 0 \<and> unat (of_nat n :: u32) + 51 \<le> b \<longrightarrow>
       a \<noteq> 0 \<and> room (b - (unat (of_nat n :: u32) + 51)) h'"
    using malloc_law [of "jm_heap st" "of_nat n"] ok by (auto simp: jm_ok_def)
  let ?st = "st\<lparr>jm_heap := h'\<rparr>"
  show thesis
  proof (rule that)
    show "cJSON_malloc hk n st = Some (a, ?st)" using r(1) n by (simp add: cJSON_malloc_def)
    show "uses (n + 51) (a \<noteq> 0) st ?st" using r(4) nz by (simp add: uses_def un)
    show "got a st ?st" using r(3) by (auto simp: got_def lv_def)
    show "jm_ok ?st" using ok r(2,3) by (auto simp: jm_ok_def lv_def)
  qed simp_all
qed

definition dropped :: "u32 set \<Rightarrow> 'h jmem \<Rightarrow> 'h jmem \<Rightarrow> bool" where
  "dropped A st st' \<longleftrightarrow> jm_ok st' \<and> lv st' = lv st - A \<and> uses 0 True st st' \<and>
     jm_nodes st' = (\<lambda>a. if a \<in> A then None else jm_nodes st a) \<and>
     jm_texts st' = (\<lambda>a. if a \<in> A then None else jm_texts st a)"

lemma free_ok:
  assumes ok: "jm_ok st" and a: "a \<in> lv st"
  obtains st' where "cJSON_free hk a st = Some st'" "dropped {a} st st'"
proof -
  obtain h' where r: "free_fn hk a (jm_heap st) = Some h'" "ok h'" "live h' = live (jm_heap st) - {a}"
    "\<forall>b. room b (jm_heap st) \<longrightarrow> room b h'"
    using free_law [of "jm_heap st" a] ok a by (auto simp: jm_ok_def lv_def)
  let ?st = "st\<lparr>jm_heap := h', jm_nodes := (jm_nodes st)(a := None), jm_texts := (jm_texts st)(a := None)\<rparr>"
  show thesis
  proof (rule that)
    show "cJSON_free hk a st = Some ?st" using r(1) by (simp add: cJSON_free_def)
    show "dropped {a} st ?st" using ok r by (auto simp: dropped_def jm_ok_def lv_def uses_def fun_eq_iff)
  qed
qed

lemma dropped_trans: "dropped A st st' \<Longrightarrow> dropped B st' st'' \<Longrightarrow> dropped (A \<union> B) st st''"
  using uses_trans [of 0 True st st' 0 True st''] by (auto simp: dropped_def fun_eq_iff)

lemma dropped_refl: "jm_ok st \<Longrightarrow> dropped {} st st"
  by (simp add: dropped_def uses_def)

section \<open>Deleting a tree\<close>

lemma free_field_ok:
  assumes ok: "jm_ok st" and c: "jm_nodes st c = Some n" "n_type n AND flag = 0" "fld n = str_addr s"
    and s: "str_rep (jm_texts st) s"
  obtains st' where "free_field hk fld flag c st = Some st'" "dropped (set (str_own s)) st st'"
proof (cases s)
  case None
  then have "free_field hk fld flag c st = Some st" using c by (simp add: free_field_def str_addr_def)
  moreover have "dropped (set (str_own s)) st st" using dropped_refl [OF ok] None by (simp add: str_own_def)
  ultimately show thesis by (rule that)
next
  case (Some p)
  obtain a t where s': "s = Some (a, t)" "a \<noteq> 0" "jm_texts st a = Some t"
    using s Some by (cases p) (auto simp: str_rep_def)
  then have "a \<in> lv st" using ok by (auto simp: jm_ok_def)
  then obtain st' where "cJSON_free hk a st = Some st'" "dropped {a} st st'" by (rule free_ok [OF ok])
  then show thesis using c s' by (intro that [of st']) (simp_all add: free_field_def str_addr_def str_own_def)
qed

lemma delete_ok:
  "jm_ok st \<Longrightarrow> tree_rep (jm_nodes st) (jm_texts st) pv ts \<Longrightarrow> distinct (owned ts) \<Longrightarrow> plain ts \<Longrightarrow>
     \<exists>st'. cJSON_Delete hk (head_addr ts) st = Some st' \<and> dropped (set (owned ts)) st st'"
proof (induction ts arbitrary: st pv rule: owned.induct)
  case 1
  then show ?case using dropped_refl by (subst cJSON_Delete.simps) auto
next
  case (2 t ts)
  let ?a = "jt_addr t"
  note rep = "2.prems"(2)
  have na: "?a \<noteq> 0" "jm_nodes st ?a = Some (jt_node (head_addr ts) pv t)" using rep by simp_all
  have fl: "jt_type t AND 256 = 0" "jt_type t AND 512 = 0" using "2.prems"(4) type_flags by simp_all
  have dj: "?a \<notin> set (owned (jt_kids t))" "?a \<notin> set (str_own (jt_vs t))" "?a \<notin> set (str_own (jt_str t))"
    using "2.prems"(3) by auto
  obtain st1 where st1: "cJSON_Delete hk (head_addr (jt_kids t)) st = Some st1"
    "dropped (set (owned (jt_kids t))) st st1"
    using "2.IH"(1) [of st 0] "2.prems" by auto
  have keep: "jm_nodes st' ?a = jm_nodes st ?a" if "dropped A st st'" "?a \<notin> A" for A st'
    using that by (simp add: dropped_def)
  have step1: "(if n_type (jt_node (head_addr ts) pv t) AND cJSON_IsReference = 0 \<and>
        n_child (jt_node (head_addr ts) pv t) \<noteq> 0 then cJSON_Delete hk (n_child (jt_node (head_addr ts) pv t)) st else Some st) =
      Some st1"
    using st1(1) fl by (cases "head_addr (jt_kids t) = 0") (auto simp: cJSON_Delete.simps [of hk 0])
  have vs1: "str_rep (jm_texts st1) (jt_vs t)" "str_rep (jm_texts st1) (jt_str t)"
    using st1(2) rep "2.prems"(3) by (auto simp: dropped_def elim!: str_rep_frame)
  obtain st2 where st2: "free_field hk n_valuestring cJSON_IsReference ?a st1 = Some st2"
    "dropped (set (str_own (jt_vs t))) st1 st2"
    by (rule free_field_ok [of st1 ?a _ cJSON_IsReference n_valuestring "jt_vs t"])
      (use st1 keep [OF st1(2) dj(1)] na fl vs1 in \<open>auto simp: dropped_def\<close>)
  have d2: "dropped (set (owned (jt_kids t)) \<union> set (str_own (jt_vs t))) st st2" using dropped_trans [OF st1(2) st2(2)] .
  have vs2: "str_rep (jm_texts st2) (jt_str t)"
    using d2 rep "2.prems"(3) by (auto simp: dropped_def elim!: str_rep_frame)
  obtain st3 where st3: "free_field hk n_string cJSON_StringIsConst ?a st2 = Some st3"
    "dropped (set (str_own (jt_str t))) st2 st3"
    by (rule free_field_ok [of st2 ?a _ cJSON_StringIsConst n_string "jt_str t"])
      (use d2 keep [OF d2] dj na fl vs2 in \<open>auto simp: dropped_def\<close>)
  note d3 = dropped_trans [OF d2 st3(2)]
  have "?a \<in> lv st3" by (rule jm_ok_live(1) [of st3]) (use d3 keep [OF d3] dj na in \<open>simp_all add: dropped_def\<close>)
  then obtain st4 where st4: "cJSON_free hk ?a st3 = Some st4" "dropped {?a} st3 st4"
    using d3 by (auto simp: dropped_def intro: free_ok)
  note d4 = dropped_trans [OF d3 st4(2)]
  have "tree_rep (jm_nodes st4) (jm_texts st4) ?a ts"
    by (rule tree_rep_frame [of "jm_nodes st" "jm_texts st"]) (use rep d4 "2.prems"(3) in \<open>auto simp: dropped_def\<close>)
  then obtain st5 where st5: "cJSON_Delete hk (head_addr ts) st4 = Some st5" "dropped (set (owned ts)) st4 st5"
    using "2.IH"(2) [of st4 ?a] d4 "2.prems"(3,4) by (auto simp: dropped_def)
  have "cJSON_Delete hk (head_addr (t # ts)) st = Some st5"
    using na step1 st2(1) st3(1) st4(1) st5(1) by (subst cJSON_Delete.simps) simp
  moreover have "dropped (set (owned (t # ts))) st st5"
    using dropped_trans [OF d4 st5(2)] by (simp add: Un_assoc)
  ultimately show ?case by blast
qed

end

end
