(* ===== verification/Cjson_Text.thy ===== *)
theory Cjson_Text
  imports Cjson_Print Cjson_Tree
begin

text \<open>
  What the JSON library prints. \<open>json\<close> is a JSON value, \<open>json_text\<close> its text and \<open>json_cost\<close> the memory that
  printing asks for in all; the lemmas show that printing a tree in memory delivers the text of its value, or
  null when memory is short, and gives back everything else.
\<close>

section \<open>Values and their texts\<close>

datatype json = JFalse | JTrue | JNull | JNumber int dbl | JString "u8 list" | JArray "json list"
  | JObject "(u8 list \<times> json) list"

definition escape_one :: "u8 \<Rightarrow> u8 list" where
  "escape_one c = (if c > 31 \<and> c \<noteq> 34 \<and> c \<noteq> 92 then [c] else 92 # escape_char c)"

definition escape_text :: "u8 list \<Rightarrow> u8 list" where
  "escape_text s = concat (map escape_one s)"

definition quote_text :: "u8 list \<Rightarrow> u8 list" where
  "quote_text s = 34 # escape_text s @ [34]"

text \<open>The text of a number, and the size of the buffer it goes to.\<close>

definition number_text :: "int \<Rightarrow> dbl \<Rightarrow> u8 list" where
  "number_text i d =
     (if dbl_is_zero d then [48] else if prints_as_int i d then fmt_d i
      else if near_floor d \<and> abs_below_1e60 d then fmt_f 0 d
      else if abs_below_1e_6 d \<or> abs_above_1e9 d then fmt_e d else fmt_f 6 d)"

definition number_size :: "int \<Rightarrow> dbl \<Rightarrow> nat" where
  "number_size i d = (if dbl_is_zero d then 2 else if prints_as_int i d then 21 else 64)"

fun join_text :: "u8 list \<Rightarrow> u8 list list \<Rightarrow> u8 list" where
  "join_text sep [] = []"
| "join_text sep (s # ss) = s @ (if ss = [] then [] else sep @ join_text sep ss)"

fun join_members :: "bool \<Rightarrow> nat \<Rightarrow> (u8 list \<times> u8 list) list \<Rightarrow> u8 list" where
  "join_members fmt d [] = []"
| "join_members fmt d ((k, v) # ms) = tabs fmt d @ k @ 58 # tabs fmt 1 @ v @
     (if ms \<noteq> [] then [44] else []) @ (if fmt then [10] else []) @ join_members fmt d ms"

fun json_text :: "bool \<Rightarrow> nat \<Rightarrow> json \<Rightarrow> u8 list" where
  "json_text fmt d JFalse = [102, 97, 108, 115, 101]"
| "json_text fmt d JTrue = [116, 114, 117, 101]"
| "json_text fmt d JNull = [110, 117, 108, 108]"
| "json_text fmt d (JNumber i x) = number_text i x"
| "json_text fmt d (JString s) = quote_text s"
| "json_text fmt d (JArray vs) = 91 # join_text (44 # (if fmt then [32] else [])) (map (json_text fmt (d + 1)) vs) @ [93]"
| "json_text fmt d (JObject ms) =
     (if ms = [] then [123] @ (if fmt then [10] else []) @ tabs fmt (d - 1) @ [125]
      else 123 # (if fmt then [10] else []) @
        join_members fmt (d + 1) (map (\<lambda>(k, v). (quote_text k, json_text fmt (d + 1) v)) ms) @ tabs fmt d @ [125])"

text \<open>The size of the buffer for the members of an array or object, as the code computes it.\<close>

definition array_size :: "bool \<Rightarrow> u8 list list \<Rightarrow> nat" where
  "array_size fmt ss = 5 + sum_list (map (\<lambda>s. length s + 2 + (if fmt then 1 else 0)) ss)"

definition object_size :: "bool \<Rightarrow> nat \<Rightarrow> (u8 list \<times> u8 list) list \<Rightarrow> nat" where
  "object_size fmt d ms = 7 + (if fmt then d else 0) +
     sum_list (map (\<lambda>(k, v). length v + length k + 2 + (if fmt then 2 + d else 0)) ms)"

fun json_cost :: "bool \<Rightarrow> nat \<Rightarrow> json \<Rightarrow> nat" where
  "json_cost fmt d JFalse = 6 + 51"
| "json_cost fmt d JTrue = 5 + 51"
| "json_cost fmt d JNull = 5 + 51"
| "json_cost fmt d (JNumber i x) = number_size i x + 51"
| "json_cost fmt d (JString s) = length (quote_text s) + 1 + 51"
| "json_cost fmt d (JArray vs) =
     (if vs = [] then 3 + 51
      else (length vs * 4 + 51) + sum_list (map (json_cost fmt (d + 1)) vs) +
        (array_size fmt (map (json_text fmt (d + 1)) vs) + 51))"
| "json_cost fmt d (JObject ms) =
     (if ms = [] then (if fmt then d + 4 else 3) + 51
      else 2 * (length ms * 4 + 51) + sum_list (map (\<lambda>(k, v). length (quote_text k) + 1 + 51 + json_cost fmt (d + 1) v) ms) +
        (object_size fmt (d + 1) (map (\<lambda>(k, v). (quote_text k, json_text fmt (d + 1) v)) ms) + 51))"

text \<open>The value of a tree, and the trees that can be printed: the types are known, the strings are there and
  the numbers are doubles.\<close>

definition str_text :: "jstring \<Rightarrow> u8 list" where
  "str_text s = (case s of None \<Rightarrow> [] | Some (a, t) \<Rightarrow> t)"

function tree_json :: "jtree \<Rightarrow> json" where
  "tree_json t =
     (if jt_type t = cJSON_False then JFalse else if jt_type t = cJSON_True then JTrue
      else if jt_type t = cJSON_NULL then JNull else if jt_type t = cJSON_Number then JNumber (jt_int t) (jt_dbl t)
      else if jt_type t = cJSON_String then JString (str_text (jt_vs t))
      else if jt_type t = cJSON_Array then JArray (map tree_json (jt_kids t))
      else JObject (map (\<lambda>k. (str_text (jt_str k), tree_json k)) (jt_kids t)))"
  by pat_completeness auto
termination
proof (relation "measure size")
  have "k \<in> set (jt_kids t) \<Longrightarrow> size k < size t" for k t
    by (cases t) (auto dest: size_list_estimation' [of _ _ _ size] simp: less_Suc_eq_le)
  then show "z \<in> set (jt_kids t) \<Longrightarrow> (z, t) \<in> measure size" "z \<in> set (jt_kids t) \<Longrightarrow> (z, t) \<in> measure size" for z t by simp_all
qed simp

declare tree_json.simps [simp del]

definition str_ok :: "jstring \<Rightarrow> bool" where
  "str_ok s = (case s of None \<Rightarrow> False | Some (a, t) \<Rightarrow> cstr t)"

function printable :: "jtree list \<Rightarrow> bool" where
  "printable [] \<longleftrightarrow> True"
| "printable (t # ts) \<longleftrightarrow> jt_type t \<le> cJSON_Object \<and> (jt_type t = cJSON_String \<longrightarrow> str_ok (jt_vs t)) \<and>
     (jt_type t = cJSON_Number \<longrightarrow> dbl_ok (jt_dbl t)) \<and>
     (jt_type t = cJSON_Object \<longrightarrow> (\<forall>k \<in> set (jt_kids t). str_ok (jt_str k))) \<and> printable (jt_kids t) \<and> printable ts"
  by pat_completeness auto
termination
proof (relation "measure (size_list size)")
  show "(jt_kids t, t # ts) \<in> measure (size_list size)" for t ts by (cases t) simp
qed auto

section \<open>Sizes\<close>

text \<open>The counting pass counts what the writing pass writes, and no buffer overflows.\<close>

lemma escape_one_length:
  "length (escape_one c) = (if c \<in> {34, 92, 8, 12, 10, 13, 9} then 2 else if c < 32 then 6 else 1)"
proof (cases "c > 31 \<and> c \<noteq> 34 \<and> c \<noteq> 92")
  case True
  then have "c \<notin> {34, 92, 8, 12, 10, 13, 9}" "\<not> c < 32" by (auto simp: word_less_nat_alt)
  then show ?thesis using True by (simp add: escape_one_def)
next
  case False
  then have "c < 32 \<or> c = 34 \<or> c = 92" by (auto simp: word_less_nat_alt)
  then show ?thesis using False by (auto simp: escape_one_def escape_char_def fmt_04x_def)
qed

lemma escaped_len: "escaped_len s = length (escape_text s)"
  by (induction s) (simp_all add: escape_text_def escape_one_length)

lemma escape_write_ok: "length out + length (escape_text s) \<le> cap \<Longrightarrow> escape_write cap out s = Some (out @ escape_text s)"
proof (induction s arbitrary: out)
  case (Cons c s)
  then show ?case by (auto simp: escape_text_def escape_one_def push_def append_buf_def)
qed (simp add: escape_text_def)

lemma escape_text_none: "cstr s \<Longrightarrow> \<not> list_ex needs_escape s \<Longrightarrow> escape_text s = s"
proof (induction s)
  case (Cons c s)
  then have "c > 31 \<and> c \<noteq> 34 \<and> c \<noteq> 92" by (auto simp: needs_escape_def word_less_nat_alt word_gt_0_no unat_gt_0)
  then show ?case using Cons by (simp add: escape_text_def escape_one_def)
qed (simp add: escape_text_def)

text \<open>The buffers of \<open>print_number\<close> hold the text of every number.\<close>

lemma prints_as_int_small: "prints_as_int i d \<Longrightarrow> \<bar>i\<bar> < 10 ^ 10"
proof (cases d)
  case (Fin s m e)
  assume p: "prints_as_int i d"
  define k v where "k = int (mag_den e)" "v = signed s (mag_num m e)"
  have k: "0 < k" by (simp add: k_v_def)
  have "\<bar>i * k - v\<bar> * 2 ^ 52 \<le> k" "v \<le> (2 ^ 31 - 1) * k" "- (2 ^ 31) * k \<le> v"
    using p by (simp_all add: Fin prints_as_int_def near_int_def dbl_le_int_def dbl_ge_int_def k_v_def)
  moreover define z where "z = i * k"
  ultimately have "\<bar>z - v\<bar> * 2 ^ 52 \<le> k" "v \<le> (2 ^ 31 - 1) * k" "- (2 ^ 31) * k \<le> v" by simp_all
  moreover have "\<bar>z - v\<bar> \<le> \<bar>z - v\<bar> * 2 ^ 52" by simp
  ultimately have "\<bar>z - v\<bar> \<le> k" "v \<le> 2147483647 * k" "- (2147483648 * k) \<le> v" by simp_all
  then have "z \<le> 2 ^ 31 * k" "- (2 ^ 31 + 1) * k \<le> z" by auto
  then have "i * k \<le> 2 ^ 31 * k" "- (2 ^ 31 + 1) * k \<le> i * k" by (simp_all only: z_def)
  then have "i \<le> 2 ^ 31" "- (2 ^ 31 + 1) \<le> i" using k by (simp_all only: mult_le_cancel_right_pos)
  then show ?thesis by simp
qed (simp_all add: prints_as_int_def near_int_def)

lemma number_text_fits:
  assumes "dbl_ok d"
  shows "length (number_text i d) + 1 \<le> number_size i d"
proof -
  consider "dbl_is_zero d" | "\<not> dbl_is_zero d" "prints_as_int i d" | "\<not> dbl_is_zero d" "\<not> prints_as_int i d" by blast
  then show ?thesis
  proof cases
    case 2
    then have "length (fmt_d i) \<le> 10 + 1" by (intro fmt_d_length prints_as_int_small) simp_all
    then show ?thesis using 2 by (simp add: number_text_def number_size_def)
  next
    case 3
    have "length (fmt_f 0 d) \<le> 63" if "abs_below_1e60 d"
    proof (cases d)
      case (Fin s m e)
      have "mag_num m e \<le> (0x13E9E4E4C2F344 * 2 ^ 147) * mag_den e"
        using that by (simp add: Fin abs_below_1e60_def mag_less_def mag_num_def [of _ 147] mag_den_def [of 147])
      then have "length (fmt_f 0 (Fin s m e)) \<le> 61 + 0 + 2" by (rule fmt_f_length) simp_all
      then show ?thesis by (simp add: Fin)
    qed (use that in \<open>simp_all add: abs_below_1e60_def\<close>)
    moreover have "length (fmt_e d) \<le> 18" using assms by (rule fmt_e_length)
    moreover have "length (fmt_f 6 d) \<le> 18" if "\<not> abs_above_1e9 d"
    proof (cases d)
      case (Fin s m e)
      have "mag_num m e \<le> 1000000000 * mag_den e"
        using that by (simp add: Fin abs_above_1e9_def mag_less_def mag_num_def [of _ 0] mag_den_def [of 0] not_less)
      then have "length (fmt_f 6 (Fin s m e)) \<le> 10 + 6 + 2" by (rule fmt_f_length) simp_all
      then show ?thesis by (simp add: Fin)
    qed (simp_all add: fmt_f_def special_text_def sign_text_def)
    ultimately show ?thesis using 3 by (auto simp: number_text_def number_size_def)
  qed (simp add: number_text_def number_size_def)
qed

lemma join_text_length: "ss \<noteq> [] \<Longrightarrow> length (join_text sep ss) + length sep = sum_list (map (\<lambda>s. length s + length sep) ss)"
  by (induction ss) (auto split: if_splits)

lemma array_text_fits:
  "length (join_text (44 # (if fmt then [32] else [])) ss) + 3 \<le> array_size fmt ss"
proof (induction ss)
  case (Cons s ss)
  then show ?case by (auto simp: array_size_def)
qed (simp add: array_size_def)

lemma object_text_fits:
  "length (join_members fmt d ms) + (if fmt then d + 4 else 3) \<le> object_size fmt d ms"
proof (induction ms)
  case (Cons m ms)
  then show ?case by (cases m) (auto simp: object_size_def tabs_def)
qed (simp add: object_size_def)

section \<open>Printing\<close>

context json_alloc
begin

text \<open>The outcome \<open>r\<close> of printing the text \<open>s\<close>.\<close>

definition text_post :: "nat \<Rightarrow> u8 list \<Rightarrow> u32 \<Rightarrow> 'h jmem \<Rightarrow> 'h jmem \<Rightarrow> bool" where
  "text_post c s r st st' \<longleftrightarrow> jm_ok st' \<and> got r st st' \<and> uses c (r \<noteq> 0) st st' \<and> jm_nodes st' = jm_nodes st \<and>
     jm_texts st' = (if r = 0 then jm_texts st else (jm_texts st)(r \<mapsto> s))"

lemma fill_text:
  assumes ok: "jm_ok st" "jm_ok st1" and st1: "got a st st1" "a \<noteq> 0" "jm_nodes st1 = jm_nodes st"
  shows "jm_ok (st1\<lparr>jm_texts := (jm_texts st1)(a \<mapsto> s)\<rparr>)"
  using assms by (auto simp: jm_ok_def lv_def got_def)

lemma new_text_ok:
  assumes ok: "jm_ok st" and n: "length s + 1 \<le> n" "n < 2 ^ 31"
  obtains r st' where "new_text hk n s st = Some (r, st')" "text_post (n + 51) s r st st'"
proof -
  have "0 < n" using n by simp
  then obtain a st1 where m: "cJSON_malloc hk n st = Some (a, st1)" "jm_ok st1" "uses (n + 51) (a \<noteq> 0) st st1"
    "got a st st1" "jm_nodes st1 = jm_nodes st" "jm_texts st1 = jm_texts st"
    by (rule malloc_ok [OF ok _ n(2)])
  show thesis
  proof (cases "a = 0")
    case True
    then show ?thesis using m by (intro that [of a st1]) (simp_all add: new_text_def text_post_def)
  next
    case False
    let ?st = "st1\<lparr>jm_texts := (jm_texts st1)(a \<mapsto> s)\<rparr>"
    have "jm_ok ?st" by (rule fill_text [OF ok m(2,4) False m(5)])
    then show ?thesis using m False n
      by (intro that [of a ?st]) (simp_all add: new_text_def text_post_def uses_def got_def lv_def)
  qed
qed

lemma print_string_ok:
  assumes ok: "jm_ok st" and s: "jm_texts st p = Some s" "cstr s" and n: "length (quote_text s) + 1 < 2 ^ 31"
  obtains r st' where "print_string_ptr hk p st = Some (r, st')" "text_post (length (quote_text s) + 1 + 51) (quote_text s) r st st'"
proof (cases "list_ex needs_escape s")
  case False
  then have e: "quote_text s = 34 # s @ [34]" using escape_text_none [OF s(2)] by (simp add: quote_text_def)
  obtain r st' where "new_text hk (length s + 3) (34 # s @ [34]) st = Some (r, st')"
    "text_post (length s + 3 + 51) (34 # s @ [34]) r st st'"
    by (rule new_text_ok [OF ok, of "34 # s @ [34]" "length s + 3"]) (use n in \<open>simp_all add: e\<close>)
  then show thesis using False s(1) by (intro that [of r st']) (simp_all add: print_string_ptr_def e)
next
  case True
  let ?n = "escaped_len s + 3"
  have len: "length (quote_text s) + 1 = ?n" by (simp add: quote_text_def escaped_len)
  have "0 < ?n" "?n < 2 ^ 31" using n len by simp_all
  then obtain a st1 where m: "cJSON_malloc hk ?n st = Some (a, st1)" "jm_ok st1" "uses (?n + 51) (a \<noteq> 0) st st1"
    "got a st st1" "jm_nodes st1 = jm_nodes st" "jm_texts st1 = jm_texts st"
    by (rule malloc_ok [OF ok])
  show thesis
  proof (cases "a = 0")
    case True
    have "print_string_ptr hk p st = Some (a, st1)" using True m s(1) \<open>list_ex needs_escape s\<close> by (simp add: print_string_ptr_def)
    moreover have "text_post (?n + 51) (quote_text s) a st st1" using True m by (simp add: text_post_def)
    ultimately show ?thesis unfolding len [symmetric] by (rule that)
  next
    case False
    let ?st = "st1\<lparr>jm_texts := (jm_texts st1)(a \<mapsto> quote_text s)\<rparr>"
    have "escape_write ?n [34] s = Some (34 # escape_text s)"
      using escape_write_ok [of "[34]" s ?n] by (simp add: escaped_len)
    then have "print_string_ptr hk p st = Some (a, ?st)"
      using m s(1) \<open>list_ex needs_escape s\<close> False
      by (simp add: print_string_ptr_def push_def escaped_len quote_text_def)
    moreover have "jm_ok ?st" by (rule fill_text [OF ok m(2,4) False m(5)])
    then have "text_post (?n + 51) (quote_text s) a st ?st" using m False by (simp add: text_post_def uses_def got_def lv_def)
    ultimately show ?thesis unfolding len [symmetric] by (rule that)
  qed
qed

lemma chain_length_ok: "tree_rep (jm_nodes st) T pv ts \<Longrightarrow> chain_length st (head_addr ts) = Some (length ts)"
proof (induction ts arbitrary: pv)
  case Nil
  then show ?case by (subst chain_length.simps) simp
next
  case (Cons t ts)
  then have "chain_length st (head_addr ts) = Some (length ts)" by (intro Cons.IH [of "jt_addr t"]) simp
  then show ?case using Cons.prems by (subst chain_length.simps) simp
qed

text \<open>The texts \<open>rs\<close> printed for the members with the texts \<open>ss\<close>; a null stands for a failure.\<close>

definition batch :: "nat \<Rightarrow> u8 list list \<Rightarrow> u32 list \<Rightarrow> 'h jmem \<Rightarrow> 'h jmem \<Rightarrow> bool" where
  "batch c ss rs st st' \<longleftrightarrow> jm_ok st' \<and> jm_nodes st' = jm_nodes st \<and> distinct (filter ((\<noteq>) 0) rs) \<and> set rs \<inter> lv st = {} \<and>
     lv st' = lv st \<union> (set rs - {0}) \<and> (\<forall>a. a \<notin> set rs - {0} \<longrightarrow> jm_texts st' a = jm_texts st a) \<and>
     uses c (0 \<notin> set rs) st st' \<and>
     (0 \<notin> set rs \<longrightarrow> list_all2 (\<lambda>s r. jm_texts st' r = Some s) ss rs)"

lemma batch_Nil: "jm_ok st \<Longrightarrow> batch 0 [] [] st st"
  by (simp add: batch_def uses_def)

lemma batch_fail: "jm_ok st \<Longrightarrow> text_post c s 0 st st' \<Longrightarrow> batch (c + d) ss [0] st st'"
  using jm_ok_null [of st] by (auto simp: batch_def text_post_def uses_def got_def)

lemma batch_Cons:
  assumes ok: "jm_ok st" and t: "text_post c s r st st1" and b: "batch d ss rs st1 st'"
  shows "batch (c + d) (s # ss) (r # rs) st st'"
proof -
  have lv: "set rs \<inter> lv st1 = {}" "lv st1 = (if r = 0 then lv st else insert r (lv st))" "r \<noteq> 0 \<Longrightarrow> r \<notin> lv st"
    using t b by (auto simp: batch_def text_post_def got_def split: if_splits)
  then have r: "r \<noteq> 0 \<Longrightarrow> r \<notin> set rs" by auto
  have use: "uses (c + d) (0 \<notin> set (r # rs)) st st'"
    using uses_trans [of c "r \<noteq> 0" st st1 d "0 \<notin> set rs" st'] t b by (auto simp: text_post_def batch_def)
  have null: "0 \<notin> lv st" using jm_ok_null [OF ok] .
  have "list_all2 (\<lambda>s r. jm_texts st' r = Some s) (s # ss) (r # rs)" if "0 \<notin> set (r # rs)"
  proof -
    have "jm_texts st' r = jm_texts st1 r" using b r that by (auto simp: batch_def)
    then show ?thesis using b t that by (auto simp: batch_def text_post_def)
  qed
  moreover have "jm_texts st' a = jm_texts st a" if "a \<notin> set (r # rs) - {0}" for a
  proof -
    have "a \<notin> set rs - {0}" "a = r \<Longrightarrow> r = 0" using that by auto
    then show ?thesis using t b by (auto simp: text_post_def batch_def)
  qed
  ultimately show ?thesis using use t b lv r null by (auto simp: batch_def text_post_def)
qed

lemma free_all_ok:
  "jm_ok st \<Longrightarrow> set rs - {0} \<subseteq> lv st \<Longrightarrow> distinct (filter ((\<noteq>) 0) rs) \<Longrightarrow>
     \<exists>st'. free_all hk rs st = Some st' \<and> dropped (set rs - {0}) st st'"
proof (induction rs arbitrary: st)
  case Nil
  then show ?case using dropped_refl by simp
next
  case (Cons r rs)
  show ?case
  proof (cases "r = 0")
    case True
    then show ?thesis using Cons by (auto simp: insert_Diff_if)
  next
    case False
    then have r: "r \<in> lv st" "r \<notin> set rs" using Cons.prems by auto
    obtain st1 where st1: "cJSON_free hk r st = Some st1" "dropped {r} st st1" by (rule free_ok [OF Cons.prems(1) r(1)])
    then obtain st' where st': "free_all hk rs st1 = Some st'" "dropped (set rs - {0}) st1 st'"
      using Cons.IH [of st1] Cons.prems False r by (auto simp: dropped_def)
    have "insert r (set rs) - {0} = {r} \<union> (set rs - {0})" using False by auto
    then show ?thesis using st1 st' False dropped_trans [OF st1(2) st'(2)] by simp
  qed
qed

lemma uses_False: "uses c False st st' \<Longrightarrow> c \<le> d \<Longrightarrow> uses d p st st''"
  by (auto simp: uses_def)

text \<open>Blocks that were requested and given back leave no trace.\<close>

lemma regain:
  assumes "jm_ok st" "X \<inter> lv st = {}" "dropped X st2 st3" "jm_nodes st2 = jm_nodes st" "\<And>a. a \<notin> X \<Longrightarrow> jm_texts st2 a = jm_texts st a"
  shows "jm_nodes st3 = jm_nodes st" "jm_texts st3 = jm_texts st"
proof -
  have none: "jm_nodes st a = None" "jm_texts st a = None" if "a \<in> X" for a
    using jm_ok_fresh [OF assms(1), of a] assms(2) that by blast+
  show "jm_nodes st3 = jm_nodes st" "jm_texts st3 = jm_texts st"
    using assms(3,4,5) none by (auto simp: dropped_def fun_eq_iff)
qed

lemma compose_array_ok:
  "jm_ok st \<Longrightarrow> distinct rs \<Longrightarrow> set rs \<subseteq> lv st \<Longrightarrow> list_all2 (\<lambda>s r. jm_texts st r = Some s) ss rs \<Longrightarrow>
     length out + length (join_text (44 # (if fmt then [32] else [])) ss) \<le> cap \<Longrightarrow>
     \<exists>st'. compose_array hk fmt cap out rs st = Some (out @ join_text (44 # (if fmt then [32] else [])) ss, st') \<and>
       dropped (set rs) st st'"
proof (induction rs arbitrary: st ss out)
  case Nil
  then show ?case using dropped_refl by simp
next
  case (Cons r rs)
  obtain s ss' where ss: "ss = s # ss'" "jm_texts st r = Some s" "list_all2 (\<lambda>s r. jm_texts st r = Some s) ss' rs"
    using Cons.prems(4) by (auto simp: list_all2_Cons2)
  have e: "rs = [] \<longleftrightarrow> ss' = []" using ss(3) by auto
  obtain st1 where st1: "cJSON_free hk r st = Some st1" "dropped {r} st st1"
    using Cons.prems by (auto intro: free_ok)
  let ?sep = "44 # (if fmt then [32] else []) :: u8 list"
  let ?out = "out @ s @ (if ss' = [] then [] else ?sep)"
  have "list_all2 (\<lambda>s r. jm_texts st1 r = Some s) ss' rs"
    using ss(3) st1(2) Cons.prems(2) by (auto simp: dropped_def list_all2_conv_all_nth)
  then obtain st' where st': "compose_array hk fmt cap ?out rs st1 = Some (?out @ join_text ?sep ss', st')" "dropped (set rs) st1 st'"
    using Cons.IH [of st1 ss' ?out] Cons.prems st1(2) by (auto simp: dropped_def ss(1) split: if_splits)
  have "compose_array hk fmt cap out (r # rs) st = Some (out @ join_text ?sep ss, st')"
    using Cons.prems(5) ss(2) st1(1) st'(1) e by (auto simp: ss(1) append_buf_def)
  then show ?case using dropped_trans [OF st1(2) st'(2)] by auto
qed

text \<open>
  The state before the texts are joined: the pointer arrays \<open>A\<close> and the texts \<open>rs\<close> have been requested. From
  there on either all of that is given back, or a block for the joined text is requested first.
\<close>

definition pending :: "nat \<Rightarrow> u32 set \<Rightarrow> u8 list list \<Rightarrow> u32 list \<Rightarrow> 'h jmem \<Rightarrow> 'h jmem \<Rightarrow> bool" where
  "pending n A ss rs st st2 \<longleftrightarrow> jm_ok st \<and> jm_ok st2 \<and> jm_nodes st2 = jm_nodes st \<and> distinct (filter ((\<noteq>) 0) rs) \<and>
     A \<inter> set rs = {} \<and> A \<inter> lv st = {} \<and> set rs \<inter> lv st = {} \<and> 0 \<notin> A \<and> lv st2 = lv st \<union> (A \<union> (set rs - {0})) \<and>
     (\<forall>a. a \<notin> set rs - {0} \<longrightarrow> jm_texts st2 a = jm_texts st a) \<and> uses n (0 \<notin> set rs) st st2 \<and>
     (0 \<notin> set rs \<longrightarrow> list_all2 (\<lambda>s r. jm_texts st2 r = Some s) ss rs)"

lemma pending_batch:
  assumes "pending n A [] [] st st1" "batch c ss rs st1 st2"
  shows "pending (n + c) A ss rs st st2"
proof -
  have "uses (n + c) (0 \<notin> set rs) st st2" using uses_trans [of n True st st1 c "0 \<notin> set rs" st2] assms by (auto simp: pending_def batch_def)
  then show ?thesis using assms by (auto simp: pending_def batch_def)
qed

lemma pending_give_back:
  assumes p: "pending n A ss rs st st2" and m: "got a st2 st3" "jm_nodes st3 = jm_nodes st2" "jm_texts st3 = jm_texts st2"
    and d: "dropped (A \<union> (set rs - {0})) st3 st4"
  shows "jm_nodes st4 = jm_nodes st" "jm_texts st4 = jm_texts st" "got a st st4" "jm_ok st4"
proof -
  let ?X = "A \<union> (set rs - {0})"
  have X: "?X \<inter> lv st = {}" "\<And>a. a \<notin> ?X \<Longrightarrow> jm_texts st3 a = jm_texts st a" using p m by (auto simp: pending_def)
  have ok: "jm_ok st" "jm_nodes st3 = jm_nodes st" using p m(2) by (simp_all add: pending_def)
  show "jm_nodes st4 = jm_nodes st" "jm_texts st4 = jm_texts st"
    using regain [OF ok(1) X(1) d ok(2) X(2)] by simp_all
  show "jm_ok st4" using d by (simp add: dropped_def)
  have lv: "lv st2 = lv st \<union> ?X" "lv st4 = lv st3 - ?X" using p d by (simp_all add: pending_def dropped_def)
  show "got a st st4"
  proof (cases "a = 0")
    case True
    then have "lv st4 = lv st" using lv X(1) m(1) by (auto simp: got_def)
    then show ?thesis using True by (simp add: got_def)
  next
    case False
    then have "a \<notin> lv st2" "lv st3 = insert a (lv st2)" using m(1) by (auto simp: got_def)
    then have "a \<notin> lv st" "lv st4 = insert a (lv st)" using lv X(1) by auto
    then show ?thesis using False by (simp add: got_def)
  qed
qed

lemma pending_fail:
  assumes "pending n A ss rs st st2" "got 0 st2 st3" "jm_nodes st3 = jm_nodes st2" "jm_texts st3 = jm_texts st2"
    "dropped (A \<union> (set rs - {0})) st3 st4" "uses k False st st3"
  shows "text_post k s 0 st st4"
  using pending_give_back [OF assms(1-5)] uses_False [OF assms(6) le_refl] by (simp add: text_post_def)

lemma pending_done:
  assumes p: "pending n A ss rs st st2" and m: "got a st2 st3" "jm_nodes st3 = jm_nodes st2" "jm_texts st3 = jm_texts st2"
    and d: "dropped (A \<union> (set rs - {0})) st3 st4" and a: "a \<noteq> 0" "uses k True st st3"
  shows "text_post k s a st (st4\<lparr>jm_texts := (jm_texts st4)(a \<mapsto> s)\<rparr>)"
proof -
  note g = pending_give_back [OF p m d]
  have "jm_ok st" using p by (simp add: pending_def)
  then have "jm_ok (st4\<lparr>jm_texts := (jm_texts st4)(a \<mapsto> s)\<rparr>)" using g a(1) by (intro fill_text) simp_all
  moreover have "uses k True st st4" using uses_trans [of k True st st3 0 True st4] a(2) d by (simp add: dropped_def)
  ultimately show ?thesis using g a(1) by (simp add: text_post_def uses_def got_def lv_def)
qed

lemma pending_malloc:
  assumes p: "pending n A ss rs st st2" and rs: "0 \<notin> set rs" and len: "0 < len" "len < 2 ^ 31"
  obtains a st3 where "cJSON_malloc hk len st2 = Some (a, st3)" "jm_ok st3" "got a st2 st3" "jm_nodes st3 = jm_nodes st2"
    "jm_texts st3 = jm_texts st2" "uses (n + (len + 51)) (a \<noteq> 0) st st3" "set rs \<subseteq> lv st3" "A \<subseteq> lv st3" "distinct rs"
    "list_all2 (\<lambda>s r. jm_texts st3 r = Some s) ss rs"
proof -
  have ok: "jm_ok st2" using p by (simp add: pending_def)
  obtain a st3 where a: "cJSON_malloc hk len st2 = Some (a, st3)" "jm_ok st3" "uses (len + 51) (a \<noteq> 0) st2 st3"
    "got a st2 st3" "jm_nodes st3 = jm_nodes st2" "jm_texts st3 = jm_texts st2"
    by (rule malloc_ok [OF ok len])
  show thesis
  proof (rule that [OF a(1,2,4,5,6)])
    show "uses (n + (len + 51)) (a \<noteq> 0) st st3"
      using uses_trans [of n "0 \<notin> set rs" st st2 "len + 51" "a \<noteq> 0" st3] p a(3) rs by (simp add: pending_def)
    show "set rs \<subseteq> lv st3" "A \<subseteq> lv st3" using p a(4) rs by (auto simp: pending_def got_def split: if_splits)
    have "filter ((\<noteq>) 0) rs = rs" using rs by (intro filter_True) auto
    then show "distinct rs" using p by (simp add: pending_def)
    show "list_all2 (\<lambda>s r. jm_texts st3 r = Some s) ss rs" using p rs a(6) by (simp add: pending_def)
  qed
qed

lemma pending_free_all:
  assumes p: "pending n A ss rs st st2" and m: "jm_ok st3" "got a st2 st3"
  obtains st4 where "free_all hk rs st3 = Some st4" "dropped (set rs - {0}) st3 st4" "A \<subseteq> lv st4"
proof -
  have lv: "set rs - {0} \<subseteq> lv st3" "A \<subseteq> lv st3" using p m(2) by (auto simp: pending_def got_def split: if_splits)
  have "distinct (filter ((\<noteq>) 0) rs)" using p by (simp add: pending_def)
  then obtain st4 where st4: "free_all hk rs st3 = Some st4" "dropped (set rs - {0}) st3 st4"
    using free_all_ok [OF m(1) lv(1)] by blast
  moreover have "A \<subseteq> lv st4" using lv(2) st4(2) p by (auto simp: dropped_def pending_def)
  ultimately show thesis by (rule that)
qed

lemma free_dropped:
  assumes "dropped X st st1" "a \<in> lv st1"
  obtains st2 where "cJSON_free hk a st1 = Some st2" "dropped (insert a X) st st2"
proof -
  have "jm_ok st1" using assms(1) by (simp add: dropped_def)
  then obtain st2 where st2: "cJSON_free hk a st1 = Some st2" "dropped {a} st1 st2" using assms(2) by (rule free_ok)
  show thesis using dropped_trans [OF assms(1) st2(2)] st2(1) by (intro that [of st2]) simp_all
qed

lemma finish_array_ok:
  assumes p: "pending n {entries} ss rs st st2" and len: "0 \<notin> set rs \<Longrightarrow> len = array_size fmt ss"
    and small: "array_size fmt ss < 2 ^ 31"
  obtains r st3 where "finish_array hk fmt entries rs len st2 = Some (r, st3)"
    "text_post (n + (array_size fmt ss + 51)) (91 # join_text (44 # (if fmt then [32] else [])) ss @ [93]) r st st3"
proof (cases "0 \<in> set rs")
  case True
  have g: "got 0 st2 st2" and ok: "jm_ok st2" using p by (simp_all add: got_def pending_def)
  obtain st3 where st3: "free_all hk rs st2 = Some st3" "dropped (set rs - {0}) st2 st3" "{entries} \<subseteq> lv st3"
    by (rule pending_free_all [OF p ok g])
  obtain st4 where st4: "cJSON_free hk entries st3 = Some st4" "dropped (insert entries (set rs - {0})) st2 st4"
    by (rule free_dropped [OF st3(2), of entries]) (use st3(3) in simp)
  have "uses (n + (array_size fmt ss + 51)) False st st2" using p True uses_False [of n st st2] by (simp add: pending_def)
  note post = pending_fail [OF p g refl refl _ this]
  have "finish_array hk fmt entries rs len st2 = Some (0, st4)" using True st3(1) st4(1) by (simp add: finish_array_def)
  then show thesis by (rule that) (rule post, use st4(2) in simp)
next
  case rs: False
  then have len': "len = array_size fmt ss" by (rule len)
  have "0 < len" "len < 2 ^ 31" using small by (simp_all add: len' array_size_def)
  then obtain a st3 where a: "cJSON_malloc hk len st2 = Some (a, st3)" "jm_ok st3" "got a st2 st3" "jm_nodes st3 = jm_nodes st2"
    "jm_texts st3 = jm_texts st2" "uses (n + (len + 51)) (a \<noteq> 0) st st3" "set rs \<subseteq> lv st3" "{entries} \<subseteq> lv st3" "distinct rs"
    "list_all2 (\<lambda>s r. jm_texts st3 r = Some s) ss rs"
    by (rule pending_malloc [OF p rs])
  show thesis
  proof (cases "a = 0")
    case True
    obtain st4 where st4: "free_all hk rs st3 = Some st4" "dropped (set rs - {0}) st3 st4" "{entries} \<subseteq> lv st4"
      by (rule pending_free_all [OF p a(2,3)])
    obtain st5 where st5: "cJSON_free hk entries st4 = Some st5" "dropped (insert entries (set rs - {0})) st3 st5"
      by (rule free_dropped [OF st4(2), of entries]) (use st4(3) in simp)
    have "finish_array hk fmt entries rs len st2 = Some (0, st5)" using True rs a(1) st4(1) st5(1) by (simp add: finish_array_def)
    then show thesis by (rule that) (rule pending_fail [OF p _ a(4,5)], use st5(2) a(3,6) True len' in simp_all)
  next
    case nz: False
    have fit: "length (join_text (44 # (if fmt then [32] else [])) ss) + 3 \<le> len" unfolding len' by (rule array_text_fits)
    obtain st4 where st4: "compose_array hk fmt len [91] rs st3 = Some ([91] @ join_text (44 # (if fmt then [32] else [])) ss, st4)"
      "dropped (set rs) st3 st4"
      using compose_array_ok [OF a(2,9,7,10), of "[91]" fmt len] fit by auto
    obtain st5 where st5: "cJSON_free hk entries st4 = Some st5" "dropped (insert entries (set rs)) st3 st5"
      by (rule free_dropped [OF st4(2), of entries]) (use a(8) st4(2) p in \<open>auto simp: dropped_def pending_def\<close>)
    have "finish_array hk fmt entries rs len st2 =
        Some (a, st5\<lparr>jm_texts := (jm_texts st5)(a \<mapsto> 91 # join_text (44 # (if fmt then [32] else [])) ss @ [93])\<rparr>)"
      using rs nz a(1) st4(1) st5(1) fit by (simp add: finish_array_def append_buf_def)
    then show thesis by (rule that) (rule pending_done [OF p a(3,4,5)], use st5(2) a(6) nz rs len' in simp_all)
  qed
qed

lemma compose_object_ok:
  "jm_ok st \<Longrightarrow> distinct (pair_list es) \<Longrightarrow> set (pair_list es) \<subseteq> lv st \<Longrightarrow>
     list_all2 (\<lambda>s r. jm_texts st r = Some s) (pair_list ms) (pair_list es) \<Longrightarrow>
     length out + length (join_members fmt d ms) \<le> cap \<Longrightarrow>
     \<exists>st'. compose_object hk fmt cap d out es st = Some (out @ join_members fmt d ms, st') \<and> dropped (set (pair_list es)) st st'"
proof (induction es arbitrary: st ms out rule: pair_list.induct)
  case 1
  then have "ms = []" by (cases ms rule: pair_list.cases) auto
  then show ?case using 1 dropped_refl by simp
next
  case (2 k v es)
  obtain sk sv ms' where ms: "ms = (sk, sv) # ms'" "jm_texts st k = Some sk" "jm_texts st v = Some sv"
    "list_all2 (\<lambda>s r. jm_texts st r = Some s) (pair_list ms') (pair_list es)"
    using "2.prems"(4) by (cases ms rule: pair_list.cases) (auto simp: list_all2_Cons2)
  have "pair_list es = [] \<longleftrightarrow> pair_list ms' = []" using ms(4) by auto
  then have e: "es = [] \<longleftrightarrow> ms' = []" by (cases es rule: pair_list.cases; cases ms' rule: pair_list.cases) auto
  obtain st1 where st1: "cJSON_free hk k st = Some st1" "dropped {k} st st1"
    using "2.prems" by (auto intro: free_ok)
  obtain st2 where st2: "cJSON_free hk v st1 = Some st2" "dropped {v, k} st st2"
    by (rule free_dropped [OF st1(2), of v]) (use "2.prems" st1(2) in \<open>auto simp: dropped_def\<close>)
  let ?out = "out @ tabs fmt d @ sk @ 58 # tabs fmt 1 @ sv @ (if ms' \<noteq> [] then [44] else []) @ (if fmt then [10] else [])"
  have "list_all2 (\<lambda>s r. jm_texts st2 r = Some s) (pair_list ms') (pair_list es)"
    by (rule list.rel_mono_strong [OF ms(4)]) (use st2(2) "2.prems"(2) in \<open>auto simp: dropped_def\<close>)
  moreover have "jm_ok st2" "set (pair_list es) \<subseteq> lv st2" using st2(2) "2.prems"(2,3) by (auto simp: dropped_def)
  ultimately obtain st' where st': "compose_object hk fmt cap d ?out es st2 = Some (?out @ join_members fmt d ms', st')"
    "dropped (set (pair_list es)) st2 st'"
    using "2.IH" [of st2 ms' ?out] "2.prems" by (auto simp: ms(1))
  have "compose_object hk fmt cap d out ((k, v) # es) st = Some (out @ join_members fmt d ms, st')"
    using "2.prems"(5) ms(2,3) st1(1) st2(1) st'(1) e by (simp add: ms(1) append_buf_def)
  moreover have "dropped (set (pair_list ((k, v) # es))) st st'"
    using dropped_trans [OF st2(2) st'(2)] by (simp add: insert_commute)
  ultimately show ?case by blast
qed

lemma object_size_fits:
  "1 + (if fmt then 1 else 0) + length (join_members fmt d ms) + length (tabs fmt (d - 1)) + 2 \<le> object_size fmt d ms"
  using object_text_fits [of fmt d ms] by (auto simp: tabs_def split: if_splits)

lemma finish_object_ok:
  assumes p: "pending n {names, entries} (pair_list ms) (pair_list es) st st2" and ne: "names \<noteq> entries"
    and len: "0 \<notin> set (pair_list es) \<Longrightarrow> len = object_size fmt d ms" and small: "object_size fmt d ms < 2 ^ 31"
  obtains r st3 where "finish_object hk fmt d entries names es len st2 = Some (r, st3)"
    "text_post (n + (object_size fmt d ms + 51))
       (123 # (if fmt then [10] else []) @ join_members fmt d ms @ tabs fmt (d - 1) @ [125]) r st st3"
proof (cases "0 \<in> set (pair_list es)")
  let ?rs = "pair_list es"
  case True
  have g: "got 0 st2 st2" and ok: "jm_ok st2" using p by (simp_all add: got_def pending_def)
  obtain st3 where st3: "free_all hk ?rs st2 = Some st3" "dropped (set ?rs - {0}) st2 st3" "{names, entries} \<subseteq> lv st3"
    by (rule pending_free_all [OF p ok g])
  obtain st4 where st4: "cJSON_free hk names st3 = Some st4" "dropped (insert names (set ?rs - {0})) st2 st4"
    by (rule free_dropped [OF st3(2), of names]) (use st3(3) in simp)
  obtain st5 where st5: "cJSON_free hk entries st4 = Some st5" "dropped (insert entries (insert names (set ?rs - {0}))) st2 st5"
    by (rule free_dropped [OF st4(2), of entries]) (use st3(2,3) st4(2) ne in \<open>auto simp: dropped_def\<close>)
  have "uses (n + (object_size fmt d ms + 51)) False st st2" using p True uses_False [of n st st2] by (simp add: pending_def)
  note post = pending_fail [OF p g refl refl _ this]
  have "finish_object hk fmt d entries names es len st2 = Some (0, st5)"
    using True st3(1) st4(1) st5(1) by (simp add: finish_object_def)
  then show thesis by (rule that) (rule post, use st5(2) in \<open>simp add: insert_commute\<close>)
next
  let ?rs = "pair_list es"
  case rs: False
  then have len': "len = object_size fmt d ms" by (rule len)
  have "0 < len" "len < 2 ^ 31" using small by (simp_all add: len' object_size_def)
  then obtain a st3 where a: "cJSON_malloc hk len st2 = Some (a, st3)" "jm_ok st3" "got a st2 st3" "jm_nodes st3 = jm_nodes st2"
    "jm_texts st3 = jm_texts st2" "uses (n + (len + 51)) (a \<noteq> 0) st st3" "set ?rs \<subseteq> lv st3" "{names, entries} \<subseteq> lv st3" "distinct ?rs"
    "list_all2 (\<lambda>s r. jm_texts st3 r = Some s) (pair_list ms) ?rs"
    by (rule pending_malloc [OF p rs])
  show thesis
  proof (cases "a = 0")
    case True
    obtain st4 where st4: "free_all hk ?rs st3 = Some st4" "dropped (set ?rs - {0}) st3 st4" "{names, entries} \<subseteq> lv st4"
      by (rule pending_free_all [OF p a(2,3)])
    obtain st5 where st5: "cJSON_free hk names st4 = Some st5" "dropped (insert names (set ?rs - {0})) st3 st5"
      by (rule free_dropped [OF st4(2), of names]) (use st4(3) in simp)
    obtain st6 where st6: "cJSON_free hk entries st5 = Some st6" "dropped (insert entries (insert names (set ?rs - {0}))) st3 st6"
      by (rule free_dropped [OF st5(2), of entries]) (use st4(2,3) st5(2) ne in \<open>auto simp: dropped_def\<close>)
    have "finish_object hk fmt d entries names es len st2 = Some (0, st6)"
      using True rs a(1) st4(1) st5(1) st6(1) by (simp add: finish_object_def)
    then show thesis
      by (rule that) (rule pending_fail [OF p _ a(4,5)], use st6(2) a(3,6) True len' in \<open>simp_all add: insert_commute\<close>)
  next
    case nz: False
    note fit = object_size_fits [of fmt d ms, folded len']
    obtain st4 where st4: "compose_object hk fmt len d (123 # (if fmt then [10] else [])) es st3 =
        Some (123 # (if fmt then [10] else []) @ join_members fmt d ms, st4)" "dropped (set ?rs) st3 st4"
      using compose_object_ok [OF a(2,9,7,10), of "123 # (if fmt then [10] else [])" fmt d len] fit by (cases fmt) auto
    obtain st5 where st5: "cJSON_free hk names st4 = Some st5" "dropped (insert names (set ?rs)) st3 st5"
      by (rule free_dropped [OF st4(2), of names]) (use a(8) st4(2) p in \<open>auto simp: dropped_def pending_def\<close>)
    obtain st6 where st6: "cJSON_free hk entries st5 = Some st6" "dropped (insert entries (insert names (set ?rs))) st3 st6"
      by (rule free_dropped [OF st5(2), of entries]) (use a(8) st5(2) p ne in \<open>auto simp: dropped_def pending_def\<close>)
    have "finish_object hk fmt d entries names es len st2 = Some (a, st6\<lparr>jm_texts := (jm_texts st6)(a \<mapsto>
        123 # (if fmt then [10] else []) @ join_members fmt d ms @ tabs fmt (d - 1) @ [125])\<rparr>)"
      using rs nz a(1) st4(1) st5(1) st6(1) fit by (cases fmt) (simp_all add: finish_object_def append_buf_def)
    then show thesis
      by (rule that) (rule pending_done [OF p a(3,4,5)], use st6(2) a(6) nz rs len' in \<open>simp_all add: insert_commute\<close>)
  qed
qed

text \<open>The tree stays in memory while texts are printed.\<close>

lemma jm_ok_owned: "jm_ok st \<Longrightarrow> tree_rep (jm_nodes st) (jm_texts st) pv ts \<Longrightarrow> set (owned ts) \<subseteq> lv st"
  using tree_rep_dom [of "jm_nodes st" "jm_texts st" pv ts] unfolding jm_ok_def by blast

lemma text_post_rep:
  assumes "jm_ok st" "text_post c s r st st'" "tree_rep (jm_nodes st) (jm_texts st) pv ts"
  shows "tree_rep (jm_nodes st') (jm_texts st') pv ts"
proof (rule tree_rep_frame [OF assms(3)])
  fix a
  assume "a \<in> set (owned ts)"
  then have "a \<in> lv st" using jm_ok_owned [OF assms(1,3)] by blast
  then show "jm_nodes st' a = jm_nodes st a \<and> jm_texts st' a = jm_texts st a"
    using assms(2) by (auto simp: text_post_def got_def split: if_splits)
qed

definition prints :: "bool \<Rightarrow> jtree \<Rightarrow> bool" where
  "prints fmt t \<longleftrightarrow> (\<forall>st d nx pv. jm_ok st \<longrightarrow> jt_addr t \<noteq> 0 \<longrightarrow> jm_nodes st (jt_addr t) = Some (jt_node nx pv t) \<longrightarrow>
     str_rep (jm_texts st) (jt_vs t) \<longrightarrow> tree_rep (jm_nodes st) (jm_texts st) 0 (jt_kids t) \<longrightarrow> printable [t] \<longrightarrow>
     json_cost fmt d (tree_json t) < 2 ^ 31 \<longrightarrow>
     (\<exists>r st'. print_go hk fmt (P_value (jt_addr t) d) st = Some ([(r, 0)], 0, st') \<and>
        text_post (json_cost fmt d (tree_json t)) (json_text fmt d (tree_json t)) r st st'))"

lemma printsE:
  assumes "prints fmt t" "jm_ok st" "tree_rep (jm_nodes st) (jm_texts st) pv (t # ts)" "printable [t]" "json_cost fmt d (tree_json t) < 2 ^ 31"
  obtains r st' where "print_go hk fmt (P_value (jt_addr t) d) st = Some ([(r, 0)], 0, st')"
    "text_post (json_cost fmt d (tree_json t)) (json_text fmt d (tree_json t)) r st st'"
proof -
  have "jt_addr t \<noteq> 0" "jm_nodes st (jt_addr t) = Some (jt_node (head_addr ts) pv t)" "str_rep (jm_texts st) (jt_vs t)"
    "tree_rep (jm_nodes st) (jm_texts st) 0 (jt_kids t)" using assms(3) by simp_all
  then show thesis using assms(1,2,4,5) that unfolding prints_def by blast
qed

lemma print_elems_ok:
  "\<forall>t \<in> set ts. prints fmt t \<Longrightarrow> jm_ok st \<Longrightarrow> tree_rep (jm_nodes st) (jm_texts st) pv ts \<Longrightarrow> printable ts \<Longrightarrow>
     sum_list (map (\<lambda>t. json_cost fmt d (tree_json t)) ts) < 2 ^ 31 \<Longrightarrow>
     \<exists>es len st'. print_go hk fmt (P_elems (head_addr ts) d) st = Some (es, len, st') \<and>
       batch (sum_list (map (\<lambda>t. json_cost fmt d (tree_json t)) ts)) (map (\<lambda>t. json_text fmt d (tree_json t)) ts) (map fst es) st st' \<and>
       (0 \<notin> set (map fst es) \<longrightarrow> 5 + len = array_size fmt (map (\<lambda>t. json_text fmt d (tree_json t)) ts))"
proof (induction ts arbitrary: st pv)
  case Nil
  then show ?case using batch_Nil by (subst print_go.simps) (simp add: array_size_def)
next
  case (Cons t ts)
  let ?c = "json_cost fmt d (tree_json t)" and ?s = "json_text fmt d (tree_json t)"
  have t: "jt_addr t \<noteq> 0" "jm_nodes st (jt_addr t) = Some (jt_node (head_addr ts) pv t)" "printable [t]" "?c < 2 ^ 31"
    using Cons.prems by simp_all
  obtain r st1 where r: "print_go hk fmt (P_value (jt_addr t) d) st = Some ([(r, 0)], 0, st1)" "text_post ?c ?s r st st1"
    by (rule printsE [OF _ Cons.prems(2,3) t(3,4)]) (use Cons.prems(1) in simp)
  show ?case
  proof (cases "r = 0")
    case True
    then have "print_go hk fmt (P_elems (head_addr (t # ts)) d) st = Some ([(0, 0)], 0, st1)"
      using t r(1) by (subst print_go.simps) simp
    moreover have "batch (?c + sum_list (map (\<lambda>t. json_cost fmt d (tree_json t)) ts)) (map (\<lambda>t. json_text fmt d (tree_json t)) (t # ts)) [0] st st1"
      using batch_fail [OF Cons.prems(2)] r(2) True by simp
    ultimately show ?thesis by simp
  next
    case False
    have "jm_ok st1" "jm_texts st1 r = Some ?s" using r(2) False by (auto simp: text_post_def)
    have "tree_rep (jm_nodes st) (jm_texts st) (jt_addr t) ts" using Cons.prems(3) by simp
    note rep = text_post_rep [OF Cons.prems(2) r(2) this]
    from Cons.IH [OF _ \<open>jm_ok st1\<close> rep] Cons.prems obtain es len st' where
      es: "print_go hk fmt (P_elems (head_addr ts) d) st1 = Some (es, len, st')"
      "batch (sum_list (map (\<lambda>t. json_cost fmt d (tree_json t)) ts)) (map (\<lambda>t. json_text fmt d (tree_json t)) ts) (map fst es) st1 st'"
      "0 \<notin> set (map fst es) \<longrightarrow> 5 + len = array_size fmt (map (\<lambda>t. json_text fmt d (tree_json t)) ts)" by auto
    have "print_go hk fmt (P_elems (head_addr (t # ts)) d) st =
        Some ((r, 0) # es, length ?s + 2 + (if fmt then 1 else 0) + len, st')"
      using t r(1) False es(1) \<open>jm_texts st1 r = Some ?s\<close> by (subst print_go.simps) simp
    moreover note batch_Cons [OF Cons.prems(2) r(2) es(2)]
    ultimately show ?thesis using es(3) by (auto simp: array_size_def)
  qed
qed

definition member_texts :: "bool \<Rightarrow> nat \<Rightarrow> jtree list \<Rightarrow> (u8 list \<times> u8 list) list" where
  "member_texts fmt d ts = map (\<lambda>t. (quote_text (str_text (jt_str t)), json_text fmt d (tree_json t))) ts"

definition members_cost :: "bool \<Rightarrow> nat \<Rightarrow> jtree list \<Rightarrow> nat" where
  "members_cost fmt d ts =
     sum_list (map (\<lambda>t. length (quote_text (str_text (jt_str t))) + 1 + 51 + json_cost fmt d (tree_json t)) ts)"

lemma print_members_ok:
  "\<forall>t \<in> set ts. prints fmt t \<Longrightarrow> jm_ok st \<Longrightarrow> tree_rep (jm_nodes st) (jm_texts st) pv ts \<Longrightarrow> printable ts \<Longrightarrow>
     \<forall>t \<in> set ts. str_ok (jt_str t) \<Longrightarrow> members_cost fmt d ts < 2 ^ 31 \<Longrightarrow>
     \<exists>es len st'. print_go hk fmt (P_members (head_addr ts) d) st = Some (es, len, st') \<and>
       batch (members_cost fmt d ts) (pair_list (member_texts fmt d ts)) (pair_list es) st st' \<and>
       (0 \<notin> set (pair_list es) \<longrightarrow> 7 + (if fmt then d else 0) + len = object_size fmt d (member_texts fmt d ts))"
proof (induction ts arbitrary: st pv)
  case Nil
  then show ?case using batch_Nil by (subst print_go.simps) (simp add: object_size_def members_cost_def member_texts_def)
next
  case (Cons t ts)
  let ?c = "json_cost fmt d (tree_json t)" and ?s = "json_text fmt d (tree_json t)" and ?k = "quote_text (str_text (jt_str t))"
  have cost: "members_cost fmt d (t # ts) = length ?k + 1 + 51 + (?c + members_cost fmt d ts)" by (simp add: members_cost_def)
  have t: "jt_addr t \<noteq> 0" "jm_nodes st (jt_addr t) = Some (jt_node (head_addr ts) pv t)" "printable [t]" "?c < 2 ^ 31"
    "length ?k + 1 < 2 ^ 31"
    using Cons.prems cost by simp_all
  obtain a n where n: "jt_str t = Some (a, n)" "cstr n" "jm_texts st a = Some n"
    using Cons.prems(3,5) by (auto simp: str_ok_def str_rep_def split: option.splits)
  obtain k st1 where k: "print_string_ptr hk a st = Some (k, st1)" "text_post (length ?k + 1 + 51) ?k k st st1"
    by (rule print_string_ok [OF Cons.prems(2) n(3,2)]) (use t(5) n in \<open>simp_all add: str_text_def\<close>)
  have ok1: "jm_ok st1" using k(2) by (simp add: text_post_def)
  have rep1: "tree_rep (jm_nodes st1) (jm_texts st1) pv (t # ts)" by (rule text_post_rep [OF Cons.prems(2) k(2) Cons.prems(3)])
  obtain r st2 where r: "print_go hk fmt (P_value (jt_addr t) d) st1 = Some ([(r, 0)], 0, st2)" "text_post ?c ?s r st1 st2"
    by (rule printsE [OF _ ok1 rep1 t(3,4)]) (use Cons.prems(1) in simp)
  have ok2: "jm_ok st2" using r(2) by (simp add: text_post_def)
  have rep2: "tree_rep (jm_nodes st2) (jm_texts st2) pv (t # ts)" by (rule text_post_rep [OF ok1 r(2) rep1])
  from Cons.IH [OF _ ok2, of "jt_addr t"] rep2 Cons.prems cost obtain es len st' where
    es: "print_go hk fmt (P_members (head_addr ts) d) st2 = Some (es, len, st')"
    "batch (members_cost fmt d ts) (pair_list (member_texts fmt d ts)) (pair_list es) st2 st'"
    "0 \<notin> set (pair_list es) \<longrightarrow> 7 + (if fmt then d else 0) + len = object_size fmt d (member_texts fmt d ts)" by auto
  have tx: "k \<noteq> 0 \<Longrightarrow> jm_texts st2 k = Some ?k" "r \<noteq> 0 \<Longrightarrow> jm_texts st2 r = Some ?s"
    using k(2) r(2) by (auto simp: text_post_def got_def)
  let ?add = "if k \<noteq> 0 \<and> r \<noteq> 0 then length ?s + length ?k + 2 + (if fmt then 2 + d else 0) else 0"
  have "print_go hk fmt (P_members (head_addr (t # ts)) d) st = Some ((k, r) # es, ?add + len, st')"
    using t k(1) r(1) es(1) tx n(1) by (subst print_go.simps) (simp add: str_addr_def)
  moreover have "batch (members_cost fmt d (t # ts)) (pair_list (member_texts fmt d (t # ts))) (pair_list ((k, r) # es)) st st'"
    using batch_Cons [OF Cons.prems(2) k(2) batch_Cons [OF ok1 r(2) es(2)]] by (simp add: cost member_texts_def)
  moreover have "0 \<notin> set (pair_list ((k, r) # es)) \<longrightarrow>
      7 + (if fmt then d else 0) + (?add + len) = object_size fmt d (member_texts fmt d (t # ts))"
    using es(3) by (auto simp: object_size_def member_texts_def)
  ultimately show ?case by blast
qed

lemma pending_refl: "jm_ok st \<Longrightarrow> pending 0 {} [] [] st st"
  by (simp add: pending_def uses_def)

lemma pending_more:
  assumes p: "pending n A [] [] st st1" and m: "got b st1 st2" "b \<noteq> 0" "jm_ok st2" "jm_nodes st2 = jm_nodes st1"
    "jm_texts st2 = jm_texts st1" "uses k (b \<noteq> 0) st1 st2"
  shows "pending (n + k) (insert b A) [] [] st st2"
proof -
  have "uses (n + k) True st st2" using uses_trans [of n True st st1 k True st2] p m(2,6) by (simp add: pending_def)
  then show ?thesis using p m by (auto simp: pending_def got_def)
qed

lemma text_post_fail:
  "got 0 st st' \<Longrightarrow> jm_ok st' \<Longrightarrow> jm_nodes st' = jm_nodes st \<Longrightarrow> jm_texts st' = jm_texts st \<Longrightarrow> uses c False st st' \<Longrightarrow>
     c \<le> k \<Longrightarrow> text_post k s 0 st st'"
  using uses_False [of c st st' k] by (simp add: text_post_def)

lemma u32_le_6: "(w :: u32) \<le> 6 \<Longrightarrow> w \<in> {0, 1, 2, 3, 4, 5, 6}"
proof -
  assume "w \<le> 6"
  then have le: "unat w \<le> 6" by (simp add: word_le_nat_alt)
  define k where "k = unat w"
  have w: "w = of_nat k" by (simp add: k_def)
  have "k \<le> 6" using le by (simp add: k_def)
  then have "k \<in> {0, 1, 2, 3, 4, 5, 6}" by auto
  then show ?thesis unfolding w by auto
qed

lemma print_array_case:
  assumes kids: "\<forall>k \<in> set ts. prints fmt k" "ts \<noteq> []" and ok: "jm_ok st" "tree_rep (jm_nodes st) (jm_texts st) 0 ts"
    and pr: "printable ts" and small: "json_cost fmt d (JArray (map tree_json ts)) < 2 ^ 31"
  obtains r st' where "(do {
      (entries, st) \<leftarrow> cJSON_malloc hk (length ts * 4) st;
      if entries = 0 then Some (0, st)
      else do {
        (es, len, st) \<leftarrow> print_go hk fmt (P_elems (head_addr ts) (d + 1)) st;
        finish_array hk fmt entries (map fst es) (5 + len) st
      } }) = Some (r, st')"
    "text_post (json_cost fmt d (JArray (map tree_json ts))) (json_text fmt d (JArray (map tree_json ts))) r st st'"
proof -
  let ?ss = "map (\<lambda>t. json_text fmt (d + 1) (tree_json t)) ts" and ?n = "length ts * 4"
  let ?cs = "sum_list (map (\<lambda>t. json_cost fmt (d + 1) (tree_json t)) ts)"
  have cost: "json_cost fmt d (JArray (map tree_json ts)) = ?n + 51 + ?cs + (array_size fmt ?ss + 51)"
    and tx: "json_text fmt d (JArray (map tree_json ts)) = 91 # join_text (44 # (if fmt then [32] else [])) ?ss @ [93]"
    using kids(2) by (simp_all add: comp_def)
  have n: "0 < ?n" "?n < 2 ^ 31" "array_size fmt ?ss < 2 ^ 31" "?cs < 2 ^ 31" using kids(2) small unfolding cost by auto
  obtain a st1 where a: "cJSON_malloc hk ?n st = Some (a, st1)" "jm_ok st1" "uses (?n + 51) (a \<noteq> 0) st st1"
    "got a st st1" "jm_nodes st1 = jm_nodes st" "jm_texts st1 = jm_texts st"
    by (rule malloc_ok [OF ok(1) n(1,2)])
  show thesis
  proof (cases "a = 0")
    case True
    then have "text_post (json_cost fmt d (JArray (map tree_json ts))) (json_text fmt d (JArray (map tree_json ts))) 0 st st1"
      using a unfolding cost by (intro text_post_fail [of st st1 "?n + 51"]) simp_all
    then show ?thesis using True a(1) by (intro that [of 0 st1]) simp_all
  next
    case False
    have p: "pending (0 + (?n + 51)) {a} [] [] st st1" using pending_more [OF pending_refl [OF ok(1)] a(4) False a(2,5,6,3)] .
    obtain es len st2 where es: "print_go hk fmt (P_elems (head_addr ts) (d + 1)) st1 = Some (es, len, st2)"
      "batch ?cs ?ss (map fst es) st1 st2" "0 \<notin> set (map fst es) \<longrightarrow> 5 + len = array_size fmt ?ss"
      using print_elems_ok [OF kids(1) a(2), of 0 "d + 1"] ok(2) pr n(4) by (auto simp: a(5,6))
    obtain r st3 where r: "finish_array hk fmt a (map fst es) (5 + len) st2 = Some (r, st3)"
      "text_post (0 + (?n + 51) + ?cs + (array_size fmt ?ss + 51)) (91 # join_text (44 # (if fmt then [32] else [])) ?ss @ [93]) r st st3"
      by (rule finish_array_ok [OF pending_batch [OF p es(2)], of "5 + len" fmt]) (use es(3) n(3) in auto)
    show ?thesis by (rule that [of r st3]) (use False a(1) es(1) r in \<open>simp_all add: cost tx del: json_cost.simps json_text.simps\<close>)
  qed
qed

lemma print_object_case:
  assumes kids: "\<forall>k \<in> set ts. prints fmt k" "ts \<noteq> []" and ok: "jm_ok st" "tree_rep (jm_nodes st) (jm_texts st) 0 ts"
    and pr: "printable ts" "\<forall>k \<in> set ts. str_ok (jt_str k)"
    and j: "j = JObject (map (\<lambda>k. (str_text (jt_str k), tree_json k)) ts)" and small: "json_cost fmt d j < 2 ^ 31"
  obtains r st' where "(do {
      (entries, st) \<leftarrow> cJSON_malloc hk (length ts * 4) st;
      if entries = 0 then Some (0, st)
      else do {
        (names, st) \<leftarrow> cJSON_malloc hk (length ts * 4) st;
        if names = 0 then do { st \<leftarrow> cJSON_free hk entries st; Some (0, st) }
        else do {
          (es, len, st) \<leftarrow> print_go hk fmt (P_members (head_addr ts) (d + 1)) st;
          finish_object hk fmt (d + 1) entries names es (7 + (if fmt then d + 1 else 0) + len) st
        }
      } }) = Some (r, st')"
    "text_post (json_cost fmt d j) (json_text fmt d j) r st st'"
proof -
  let ?ms = "member_texts fmt (d + 1) ts" and ?n = "length ts * 4" and ?cs = "members_cost fmt (d + 1) ts"
  have cost: "json_cost fmt d j = (?n + 51) + (?n + 51) + ?cs + (object_size fmt (d + 1) ?ms + 51)"
    and tx: "json_text fmt d j = 123 # (if fmt then [10] else []) @ join_members fmt (d + 1) ?ms @ tabs fmt (d + 1 - 1) @ [125]"
    using kids(2) by (simp_all add: j comp_def members_cost_def member_texts_def)
  have n: "0 < ?n" "?n < 2 ^ 31" "object_size fmt (d + 1) ?ms < 2 ^ 31" "?cs < 2 ^ 31" using kids(2) small unfolding cost by auto
  obtain a st1 where a: "cJSON_malloc hk ?n st = Some (a, st1)" "jm_ok st1" "uses (?n + 51) (a \<noteq> 0) st st1"
    "got a st st1" "jm_nodes st1 = jm_nodes st" "jm_texts st1 = jm_texts st"
    by (rule malloc_ok [OF ok(1) n(1,2)])
  show thesis
  proof (cases "a = 0")
    case True
    then have "text_post (json_cost fmt d j) (json_text fmt d j) 0 st st1"
      using a unfolding cost by (intro text_post_fail [of st st1 "?n + 51"]) simp_all
    then show ?thesis using True a(1) by (intro that [of 0 st1]) simp_all
  next
    case nz: False
    note p1 = pending_more [OF pending_refl [OF ok(1)] a(4) nz a(2,5,6,3)]
    obtain b st2 where b: "cJSON_malloc hk ?n st1 = Some (b, st2)" "jm_ok st2" "uses (?n + 51) (b \<noteq> 0) st1 st2"
      "got b st1 st2" "jm_nodes st2 = jm_nodes st1" "jm_texts st2 = jm_texts st1"
      by (rule malloc_ok [OF a(2) n(1,2)])
    have use2: "uses (?n + 51 + (?n + 51)) (b \<noteq> 0) st st2" using uses_trans [OF a(3), of "?n + 51" "b \<noteq> 0" st2] b(3) nz by simp
    show ?thesis
    proof (cases "b = 0")
      case True
      have "a \<in> lv st2" using a(4) b(4) nz True by (simp add: got_def)
      then obtain st3 where st3: "cJSON_free hk a st2 = Some st3" "dropped {a} st2 st3" by (rule free_ok [OF b(2)])
      have "uses (json_cost fmt d j) False st st2" using use2 True unfolding cost by (auto intro: uses_False)
      note post = pending_fail [OF p1 _ b(5,6) _ this, of st3]
      show ?thesis by (rule that [of 0 st3]) (use nz a(1) b(1,4) st3 True in \<open>auto intro: post\<close>)
    next
      case False
      note p2 = pending_more [OF p1 b(4) False b(2,5,6,3)]
      obtain es len st3 where es: "print_go hk fmt (P_members (head_addr ts) (d + 1)) st2 = Some (es, len, st3)"
        "batch ?cs (pair_list ?ms) (pair_list es) st2 st3"
        "0 \<notin> set (pair_list es) \<longrightarrow> 7 + (if fmt then d + 1 else 0) + len = object_size fmt (d + 1) ?ms"
        using print_members_ok [OF kids(1) b(2), of 0 "d + 1"] ok(2) pr n(4) by (auto simp: a(5,6) b(5,6))
      have ne: "b \<noteq> a" using a(4) b(4) nz False by (auto simp: got_def)
      obtain r st4 where r: "finish_object hk fmt (d + 1) a b es (7 + (if fmt then d + 1 else 0) + len) st3 = Some (r, st4)"
        "text_post (0 + (?n + 51) + (?n + 51) + ?cs + (object_size fmt (d + 1) ?ms + 51))
          (123 # (if fmt then [10] else []) @ join_members fmt (d + 1) ?ms @ tabs fmt (d + 1 - 1) @ [125]) r st st4"
        by (rule finish_object_ok [OF pending_batch [OF p2 es(2)] ne, of "7 + (if fmt then d + 1 else 0) + len" fmt "d + 1"])
          (use es(3) n(3) in auto)
      show ?thesis by (rule that [of r st4]) (use nz False a(1) b(1) es(1) r in \<open>simp_all add: cost tx\<close>)
    qed
  qed
qed

lemma strdup_ok:
  assumes "jm_ok st" "length s + 1 < 2 ^ 31"
  shows "\<exists>r st'. cJSON_strdup hk s st = Some (r, st') \<and> text_post (length s + 52) s r st st'"
  unfolding cJSON_strdup_def by (rule new_text_ok [OF assms(1), of s "length s + 1"]) (use assms(2) in \<open>auto simp: add.commute\<close>)

text \<open>
  The part of \<open>print_value\<close> for an item of each type, as \<open>print_go\<close> calls it.
\<close>

lemma print_item_ok:
  assumes kids: "\<And>k. k \<in> set (jt_kids t) \<Longrightarrow> prints fmt k" and ok: "jm_ok st" and a: "jt_addr t \<noteq> 0"
    and nd: "jm_nodes st (jt_addr t) = Some (jt_node nx pv t)" and vs: "str_rep (jm_texts st) (jt_vs t)"
    and rep: "tree_rep (jm_nodes st) (jm_texts st) 0 (jt_kids t)" and pr: "printable [t]"
    and small: "json_cost fmt d (tree_json t) < 2 ^ 31"
  shows "\<exists>r st'. print_go hk fmt (P_value (jt_addr t) d) st = Some ([(r, 0)], 0, st') \<and>
    text_post (json_cost fmt d (tree_json t)) (json_text fmt d (tree_json t)) r st st'"
proof -
  have le: "jt_type t \<le> 6" using pr by simp
  have and255: "(0 :: u32) AND 255 = 0" "(1 :: u32) AND 255 = 1" "(2 :: u32) AND 255 = 2" "(3 :: u32) AND 255 = 3"
    "(4 :: u32) AND 255 = 4" "(5 :: u32) AND 255 = 5" "(6 :: u32) AND 255 = 6" by simp_all
  have all: "\<forall>k \<in> set (jt_kids t). prints fmt k" using kids by blast
  have len: "chain_length st (head_addr (jt_kids t)) = Some (length (jt_kids t))" using rep by (rule chain_length_ok)
  note go = print_go.simps [of hk fmt "P_value (jt_addr t) d" st]
  consider "jt_type t = 0" | "jt_type t = 1" | "jt_type t = 2" | "jt_type t = 3" | "jt_type t = 4" | "jt_type t = 5" | "jt_type t = 6"
    using u32_le_6 [OF le] by auto
  then show ?thesis
  proof cases
    case 1
    then show ?thesis using a nd strdup_ok [OF ok, of "[102, 97, 108, 115, 101]"] by (auto simp: go tree_json.simps)
  next
    case 2
    then show ?thesis using a nd strdup_ok [OF ok, of "[116, 114, 117, 101]"] by (auto simp: go tree_json.simps)
  next
    case 3
    then show ?thesis using a nd strdup_ok [OF ok, of "[110, 117, 108, 108]"] by (auto simp: go tree_json.simps)
  next
    case 4
    let ?n = "number_size (jt_int t) (jt_dbl t)" and ?s = "number_text (jt_int t) (jt_dbl t)"
    have "length ?s + 1 \<le> ?n" "?n < 2 ^ 31" using number_text_fits [of "jt_dbl t" "jt_int t"] pr 4 by (auto simp: number_size_def)
    then obtain r st' where "new_text hk ?n ?s st = Some (r, st')" "text_post (?n + 51) ?s r st st'"
      by (rule new_text_ok [OF ok])
    moreover have "print_number hk (jt_node nx pv t) st = new_text hk ?n ?s st"
      by (simp add: print_number_def number_size_def number_text_def Let_def)
    ultimately show ?thesis using 4 a nd by (intro exI [of _ r] exI [of _ st']) (simp add: go tree_json.simps)
  next
    case 5
    obtain p s where p: "jt_vs t = Some (p, s)" "cstr s" "jm_texts st p = Some s"
      using pr vs 5 by (auto simp: str_ok_def str_rep_def split: option.splits)
    have j: "tree_json t = JString s" using 5 p(1) by (simp add: tree_json.simps str_text_def)
    obtain r st' where "print_string_ptr hk p st = Some (r, st')" "text_post (length (quote_text s) + 1 + 51) (quote_text s) r st st'"
      by (rule print_string_ok [OF ok p(3,2)]) (use small j in auto)
    then show ?thesis using 5 a nd p(1)
      by (intro exI [of _ r] exI [of _ st']) (simp add: go j print_string_def str_addr_def)
  next
    case 6
    have j: "tree_json t = JArray (map tree_json (jt_kids t))" using 6 by (simp add: tree_json.simps [of t])
    show ?thesis
    proof (cases "jt_kids t = []")
      case True
      have "length [91, 93 :: u8] + 1 \<le> 3" "(3 :: nat) < 2 ^ 31" by simp_all
      then obtain r st' where "new_text hk 3 [91, 93] st = Some (r, st')" "text_post (3 + 51) [91, 93] r st st'"
        by (rule new_text_ok [OF ok])
      then show ?thesis using 6 a nd len True by (intro exI [of _ r] exI [of _ st']) (simp add: go j)
    next
      case False
      have "printable (jt_kids t)" "json_cost fmt d (JArray (map tree_json (jt_kids t))) < 2 ^ 31" using pr small j by simp_all
      note arr = print_array_case [OF all False ok rep this]
      show ?thesis
      proof (rule arr)
        fix r st'
        assume "(do {
            (entries, st) \<leftarrow> cJSON_malloc hk (length (jt_kids t) * 4) st;
            if entries = 0 then Some (0, st)
            else do {
              (es, len, st) \<leftarrow> print_go hk fmt (P_elems (head_addr (jt_kids t)) (d + 1)) st;
              finish_array hk fmt entries (map fst es) (5 + len) st
            } }) = Some (r, st')"
          "text_post (json_cost fmt d (JArray (map tree_json (jt_kids t)))) (json_text fmt d (JArray (map tree_json (jt_kids t)))) r st st'"
        then show ?thesis using 6 a nd len False
          by (intro exI [of _ r] exI [of _ st']) (simp add: go j del: Option.bind_assoc json_cost.simps json_text.simps cong del: if_weak_cong)
      qed
    qed
  next
    case 7
    have j: "tree_json t = JObject (map (\<lambda>k. (str_text (jt_str k), tree_json k)) (jt_kids t))" using 7 by (simp add: tree_json.simps [of t])
    show ?thesis
    proof (cases "jt_kids t = []")
      case True
      let ?n = "if fmt then d + 4 else 3" and ?s = "[123] @ (if fmt then [10] else []) @ tabs fmt (d - 1) @ [125]"
      have "length ?s + 1 \<le> ?n" "?n < 2 ^ 31" using small True by (auto simp: tabs_def j)
      then obtain r st' where "new_text hk ?n ?s st = Some (r, st')" "text_post (?n + 51) ?s r st st'"
        by (rule new_text_ok [OF ok])
      then show ?thesis using 7 a nd len True
        by (intro exI [of _ r] exI [of _ st']) (simp add: go j print_empty_object_def split del: if_split)
    next
      case False
      have "printable (jt_kids t)" "\<forall>k \<in> set (jt_kids t). str_ok (jt_str k)" using pr 7 by simp_all
      note obj = print_object_case [OF all False ok rep this j small]
      show ?thesis
      proof (rule obj)
        fix r st'
        assume "(do {
            (entries, st) \<leftarrow> cJSON_malloc hk (length (jt_kids t) * 4) st;
            if entries = 0 then Some (0, st)
            else do {
              (names, st) \<leftarrow> cJSON_malloc hk (length (jt_kids t) * 4) st;
              if names = 0 then do { st \<leftarrow> cJSON_free hk entries st; Some (0, st) }
              else do {
                (es, len, st) \<leftarrow> print_go hk fmt (P_members (head_addr (jt_kids t)) (d + 1)) st;
                finish_object hk fmt (d + 1) entries names es (7 + (if fmt then d + 1 else 0) + len) st
              }
            } }) = Some (r, st')" "text_post (json_cost fmt d (tree_json t)) (json_text fmt d (tree_json t)) r st st'"
        then show ?thesis using 7 a nd len False
          by (intro exI [of _ r] exI [of _ st']) (simp add: go del: Option.bind_assoc split del: if_split cong del: if_weak_cong)
      qed
    qed
  qed
qed

lemma prints_all: "prints fmt t"
proof (induction t rule: measure_induct_rule [of size])
  case (less t)
  have "size k < size t" if "k \<in> set (jt_kids t)" for k
    using that by (cases t) (auto dest: size_list_estimation' [of _ _ _ size] simp: less_Suc_eq_le)
  then show ?case unfolding prints_def using less by (auto intro!: print_item_ok)
qed

end

end
