(* ===== verification/Cjson_Build.thy ===== *)
theory Cjson_Build
  imports Cjson_Text "HOL-Library.Multiset"
begin

text \<open>
  Building a tree of JSON items, printing it and deleting it, where memory suffices. \<open>built b st0 ts st\<close>
  says that \<open>ts\<close> are separate trees in memory, that nothing else has changed since \<open>st0\<close>, and that there is
  room for \<open>b\<close> more bytes.
\<close>

section \<open>Appending to a chain\<close>

definition add_kid :: "jtree \<Rightarrow> jtree \<Rightarrow> jtree" where
  "add_kid p t = JT (jt_addr p) (jt_type p) (jt_vs p) (jt_int p) (jt_dbl p) (jt_str p) (jt_kids p @ [t])"

definition with_name :: "jstring \<Rightarrow> jtree \<Rightarrow> jtree" where
  "with_name s t = JT (jt_addr t) (jt_type t) (jt_vs t) (jt_int t) (jt_dbl t) s (jt_kids t)"

definition with_vs :: "jstring \<Rightarrow> jtree \<Rightarrow> jtree" where
  "with_vs s t = JT (jt_addr t) (jt_type t) s (jt_int t) (jt_dbl t) (jt_str t) (jt_kids t)"

definition with_kids :: "jtree list \<Rightarrow> jtree \<Rightarrow> jtree" where
  "with_kids ks t = JT (jt_addr t) (jt_type t) (jt_vs t) (jt_int t) (jt_dbl t) (jt_str t) ks"

lemma add_kid_sel [simp]:
  "jt_addr (add_kid p t) = jt_addr p" "jt_type (add_kid p t) = jt_type p" "jt_vs (add_kid p t) = jt_vs p"
  "jt_str (add_kid p t) = jt_str p" "jt_kids (add_kid p t) = jt_kids p @ [t]" "jt_int (add_kid p t) = jt_int p"
  "jt_dbl (add_kid p t) = jt_dbl p"
  by (simp_all add: add_kid_def)

lemma with_name_sel [simp]:
  "jt_addr (with_name s t) = jt_addr t" "jt_type (with_name s t) = jt_type t" "jt_vs (with_name s t) = jt_vs t"
  "jt_str (with_name s t) = s" "jt_kids (with_name s t) = jt_kids t" "jt_int (with_name s t) = jt_int t"
  "jt_dbl (with_name s t) = jt_dbl t"
  by (simp_all add: with_name_def)

lemma with_kids_sel [simp]:
  "jt_addr (with_kids ks t) = jt_addr t" "jt_type (with_kids ks t) = jt_type t" "jt_vs (with_kids ks t) = jt_vs t"
  "jt_str (with_kids ks t) = jt_str t" "jt_kids (with_kids ks t) = ks" "jt_int (with_kids ks t) = jt_int t"
  "jt_dbl (with_kids ks t) = jt_dbl t"
  by (simp_all add: with_kids_def)

lemma with_vs_sel [simp]:
  "jt_addr (with_vs s t) = jt_addr t" "jt_type (with_vs s t) = jt_type t" "jt_vs (with_vs s t) = s"
  "jt_str (with_vs s t) = jt_str t" "jt_kids (with_vs s t) = jt_kids t" "jt_int (with_vs s t) = jt_int t"
  "jt_dbl (with_vs s t) = jt_dbl t"
  by (simp_all add: with_vs_def)

lemma str_simps [simp]:
  "str_own None = []" "str_own (Some (a, s)) = [a]" "str_addr None = 0" "str_addr (Some (a, s)) = a"
  "str_rep T None" "str_rep T (Some (a, s)) \<longleftrightarrow> a \<noteq> 0 \<and> T a = Some s" "str_text (Some (a, s)) = s"
  by (simp_all add: str_own_def str_addr_def str_rep_def str_text_def)

lemma chain_last_ok: "tree_rep (jm_nodes st) T pv (ks @ [l]) \<Longrightarrow> chain_last st (head_addr (ks @ [l])) = Some (jt_addr l)"
proof (induction ks arbitrary: pv)
  case Nil
  then show ?case by (subst chain_last.simps) simp
next
  case (Cons k ks)
  then have "chain_last st (head_addr (ks @ [l])) = Some (jt_addr l)" by (intro Cons.IH [of "jt_addr k"]) simp
  moreover have "head_addr (ks @ [l]) \<noteq> 0" using Cons.prems tree_rep_head [of "jm_nodes st" T "jt_addr k" "ks @ [l]"] by simp
  ultimately show ?case using Cons.prems by (subst chain_last.simps) simp
qed

lemma tree_rep_node: "tree_rep N T pv ts \<Longrightarrow> x \<in> set ts \<Longrightarrow> \<exists>nx pv'. N (jt_addr x) = Some (jt_node nx pv' x)"
  by (induction ts arbitrary: pv) auto

text \<open>Linking \<open>t\<close> behind the last item \<open>l\<close> of a chain.\<close>

definition link_nodes :: "(u32 \<rightharpoonup> cJSON) \<Rightarrow> u32 \<Rightarrow> u32 \<Rightarrow> u32 \<rightharpoonup> cJSON" where
  "link_nodes N l t = N(l := map_option (\<lambda>n. n\<lparr>n_next := t\<rparr>) (N l), t := map_option (\<lambda>n. n\<lparr>n_prev := l\<rparr>) (N t))"

lemma tree_rep_link:
  "tree_rep N T pv (ks @ [l]) \<Longrightarrow> tree_rep N T 0 [t] \<Longrightarrow> distinct (owned (ks @ [l]) @ owned [t]) \<Longrightarrow>
     tree_rep (link_nodes N (jt_addr l) (jt_addr t)) T pv (ks @ [l, t])"
proof (induction ks arbitrary: pv)
  case Nil
  have kids: "tree_rep (link_nodes N (jt_addr l) (jt_addr t)) T 0 (jt_kids x)" if "x = l \<or> x = t" for x
    by (rule tree_rep_frame [of N T]) (use Nil that in \<open>auto simp: link_nodes_def\<close>)
  have "jt_addr l \<noteq> jt_addr t" using Nil.prems(3) by auto
  then have "link_nodes N (jt_addr l) (jt_addr t) (jt_addr l) = Some (jt_node (jt_addr t) pv l)"
    "link_nodes N (jt_addr l) (jt_addr t) (jt_addr t) = Some (jt_node 0 (jt_addr l) t)"
    using Nil.prems(1,2) by (simp_all add: link_nodes_def jt_node_def)
  then show ?case using Nil.prems(1,2) kids [of l] kids [of t] by simp
next
  case (Cons k ks)
  have "tree_rep (link_nodes N (jt_addr l) (jt_addr t)) T (jt_addr k) (ks @ [l, t])" using Cons by simp
  moreover have "tree_rep (link_nodes N (jt_addr l) (jt_addr t)) T 0 (jt_kids k)"
    by (rule tree_rep_frame [of N T]) (use Cons.prems in \<open>auto simp: link_nodes_def\<close>)
  moreover have "head_addr (ks @ [l, t]) = head_addr (ks @ [l])" by (cases ks) simp_all
  moreover have "link_nodes N (jt_addr l) (jt_addr t) (jt_addr k) = N (jt_addr k)" using Cons.prems(3) by (auto simp: link_nodes_def)
  ultimately show ?case using Cons.prems by simp
qed

text \<open>What \<open>cJSON_AddItemToArray\<close> does to the items.\<close>

definition added_nodes :: "(u32 \<rightharpoonup> cJSON) \<Rightarrow> jtree \<Rightarrow> u32 \<Rightarrow> u32 \<rightharpoonup> cJSON" where
  "added_nodes N p t =
     (if jt_kids p = [] then N(jt_addr p := map_option (\<lambda>n. n\<lparr>n_child := t\<rparr>) (N (jt_addr p)))
      else link_nodes N (jt_addr (last (jt_kids p))) t)"

lemma add_item_run:
  assumes p: "jm_nodes st (jt_addr p) = Some (jt_node nx pv p)" "tree_rep (jm_nodes st) T 0 (jt_kids p)"
    and t: "tree_rep (jm_nodes st) T 0 [t]" and d: "distinct (owned (jt_kids p) @ owned [t])"
  shows "cJSON_AddItemToArray (jt_addr p) (jt_addr t) st = Some (st\<lparr>jm_nodes := added_nodes (jm_nodes st) p (jt_addr t)\<rparr>)"
proof (cases "jt_kids p" rule: rev_cases)
  case Nil
  then show ?thesis using p t by (simp add: cJSON_AddItemToArray_def set_node_def added_nodes_def)
next
  case (snoc ks l)
  have last: "chain_last st (head_addr (jt_kids p)) = Some (jt_addr l)" "head_addr (jt_kids p) \<noteq> 0"
    using chain_last_ok [of st T 0 ks l] p(2) tree_rep_head [OF p(2)] by (auto simp: snoc)
  obtain n where n: "jm_nodes st (jt_addr l) = Some n" using tree_rep_node [OF p(2), of l] by (auto simp: snoc)
  have "jt_addr l \<noteq> jt_addr t" using d by (auto simp: snoc)
  then show ?thesis using p(1) t n last
    by (simp add: cJSON_AddItemToArray_def suffix_object_def set_node_def added_nodes_def link_nodes_def snoc fun_upd_twist)
qed

lemma added_rep:
  assumes p: "N (jt_addr p) = Some (jt_node nx pv p)" "tree_rep N T 0 (jt_kids p)"
    and t: "tree_rep N T 0 [t]" and d: "distinct (jt_addr p # owned (jt_kids p) @ owned [t])"
  shows "added_nodes N p (jt_addr t) (jt_addr p) = Some (jt_node nx pv (add_kid p t))"
    and "tree_rep (added_nodes N p (jt_addr t)) T 0 (jt_kids p @ [t])"
    and "a \<notin> set (jt_addr p # owned (jt_kids p) @ owned [t]) \<Longrightarrow> added_nodes N p (jt_addr t) a = N a"
    and "dom (added_nodes N p (jt_addr t)) = dom N"
proof -
  have "added_nodes N p (jt_addr t) (jt_addr p) = Some (jt_node nx pv (add_kid p t)) \<and>
      tree_rep (added_nodes N p (jt_addr t)) T 0 (jt_kids p @ [t]) \<and>
      (a \<notin> set (jt_addr p # owned (jt_kids p) @ owned [t]) \<longrightarrow> added_nodes N p (jt_addr t) a = N a) \<and>
      dom (added_nodes N p (jt_addr t)) = dom N"
  proof (cases "jt_kids p" rule: rev_cases)
    case Nil
    have "tree_rep (N(jt_addr p \<mapsto> x)) T 0 [t]" for x
      by (rule tree_rep_frame [OF t]) (use d in auto)
    then show ?thesis using Nil p(1) by (auto simp: added_nodes_def jt_node_def)
  next
    case (snoc ks l)
    obtain m where m: "N (jt_addr l) = Some m" using tree_rep_node [OF p(2), of l] by (auto simp: snoc)
    obtain k where k: "N (jt_addr t) = Some k" using t by auto
    have "tree_rep (link_nodes N (jt_addr l) (jt_addr t)) T 0 (ks @ [l, t])"
      using tree_rep_link [of N T 0 ks l t] p(2) t d by (auto simp: snoc)
    moreover have "jt_addr p \<noteq> jt_addr l" "jt_addr p \<noteq> jt_addr t" using d by (auto simp: snoc)
    moreover have "head_addr (ks @ [l, t]) = head_addr (ks @ [l])" by (cases ks) simp_all
    ultimately show ?thesis using p(1) m k by (auto simp: added_nodes_def snoc link_nodes_def jt_node_def)
  qed
  then show "added_nodes N p (jt_addr t) (jt_addr p) = Some (jt_node nx pv (add_kid p t))"
    "tree_rep (added_nodes N p (jt_addr t)) T 0 (jt_kids p @ [t])"
    "a \<notin> set (jt_addr p # owned (jt_kids p) @ owned [t]) \<Longrightarrow> added_nodes N p (jt_addr t) a = N a"
    "dom (added_nodes N p (jt_addr t)) = dom N" by blast+
qed

section \<open>Separate trees\<close>

lemma printable_plain: "printable ts \<Longrightarrow> plain ts"
proof (induction ts rule: printable.induct)
  case (2 t ts)
  then have "jt_type t \<le> 6" by simp
  then have "jt_type t < 256" by (rule le_less_trans) simp
  then show ?case using 2 by simp
qed simp

lemma owned_mem: "t \<in> set ts \<Longrightarrow> set (owned [t]) \<subseteq> set (owned ts)"
  by (induction ts) auto

lemma owned_disjoint: "distinct (owned (t # ts)) \<Longrightarrow> x \<in> set ts \<Longrightarrow> set (owned [x]) \<inter> set (owned [t]) = {}"
  using owned_mem [of x ts] by fastforce

context json_alloc
begin

definition built :: "nat \<Rightarrow> 'h jmem \<Rightarrow> jtree list \<Rightarrow> 'h jmem \<Rightarrow> bool" where
  "built b st0 ts st \<longleftrightarrow> jm_ok st0 \<and> jm_ok st \<and> room b (jm_heap st) \<and> (\<forall>t \<in> set ts. tree_rep (jm_nodes st) (jm_texts st) 0 [t]) \<and>
     distinct (owned ts) \<and> set (owned ts) \<inter> lv st0 = {} \<and> lv st = lv st0 \<union> set (owned ts) \<and>
     (\<forall>a. a \<notin> set (owned ts) \<longrightarrow> jm_nodes st a = jm_nodes st0 a \<and> jm_texts st a = jm_texts st0 a)"

lemma built_start: "jm_ok st \<Longrightarrow> room b (jm_heap st) \<Longrightarrow> built b st [] st"
  by (simp add: built_def)

text \<open>Changing the first tree: the others stay, and so does everything else.\<close>

lemma built_change:
  assumes b: "built b st0 (ts @ us) st" and st': "jm_ok st'" "room c (jm_heap st')" "lv st' = lv st \<union> A" "A \<inter> lv st = {}"
    and same: "\<And>a. a \<notin> set (owned ts) \<union> A \<Longrightarrow> jm_nodes st' a = jm_nodes st a \<and> jm_texts st' a = jm_texts st a"
    and t: "tree_rep (jm_nodes st') (jm_texts st') 0 [t]" "set (owned [t]) = set (owned ts) \<union> A" "distinct (owned [t])"
  shows "built c st0 (t # us) st'"
proof -
  have d: "distinct (owned ts @ owned us)" "set (owned (ts @ us)) \<inter> lv st0 = {}" "lv st = lv st0 \<union> set (owned (ts @ us))"
    using b by (simp_all add: built_def)
  have "tree_rep (jm_nodes st') (jm_texts st') 0 [u]" if u: "u \<in> set us" for u
  proof (rule tree_rep_frame [of "jm_nodes st" "jm_texts st"])
    show "tree_rep (jm_nodes st) (jm_texts st) 0 [u]" using b u by (simp add: built_def)
    have "set (owned [u]) \<inter> (set (owned ts) \<union> A) = {}" using owned_mem [OF u] d st'(4) by auto
    then show "a \<in> set (owned [u]) \<Longrightarrow> jm_nodes st' a = jm_nodes st a \<and> jm_texts st' a = jm_texts st a" for a
      using same [of a] by blast
  qed
  moreover have "jm_nodes st' a = jm_nodes st0 a \<and> jm_texts st' a = jm_texts st0 a" if "a \<notin> set (owned (t # us))" for a
  proof -
    have "a \<notin> set (owned ts) \<union> A" "a \<notin> set (owned (ts @ us))" using that t(2) by auto
    then show ?thesis using same [of a] b by (simp add: built_def)
  qed
  moreover have split: "owned (t # us) = owned [t] @ owned us" by simp
  moreover have "distinct (owned [t] @ owned us)" "set (owned [t] @ owned us) \<inter> lv st0 = {}" "lv st' = lv st0 \<union> set (owned [t] @ owned us)"
    using d st'(3,4) t(2,3) by auto
  ultimately show ?thesis using b st'(1,2) t(1) unfolding built_def split by simp
qed

lemma built_leaf:
  assumes b: "built b st0 ts st" and c: "91 \<le> b"
    and f: "f zero_node = zero_node\<lparr>n_type := ty, n_valueint := vi, n_valuedouble := vd\<rparr>"
  obtains r st' where "create_item hk f st = Some (r, st')" "r \<noteq> 0" "built (b - 91) st0 (JT r ty None vi vd None [] # ts) st'"
proof -
  have ok: "jm_ok st" "room b (jm_heap st)" using b by (simp_all add: built_def)
  have "(0 :: nat) < 40" "(40 :: nat) < 2 ^ 31" by simp_all
  then obtain r st1 where r: "cJSON_malloc hk 40 st = Some (r, st1)" "jm_ok st1" "uses (40 + 51) (r \<noteq> 0) st st1" "got r st st1"
    "jm_nodes st1 = jm_nodes st" "jm_texts st1 = jm_texts st" by (rule malloc_ok [OF ok(1)])
  have nz: "r \<noteq> 0" "room (b - 91) (jm_heap st1)" using r(3) ok(2) c by (auto simp: uses_def)
  let ?t = "JT r ty None vi vd None []"
  let ?st = "st1\<lparr>jm_nodes := (jm_nodes st1)(r \<mapsto> jt_node 0 0 ?t)\<rparr>"
  have "jt_node 0 0 ?t = f zero_node" unfolding f by (simp add: zero_node_def jt_node_def)
  then have "create_item hk f st = Some (r, ?st)" using r(1) nz by (simp add: create_item_def cJSON_New_Item_def set_node_def)
  moreover have "jm_ok ?st" using r(2,4) nz jm_ok_fresh [OF ok(1), of r] by (auto simp: jm_ok_def lv_def got_def r(5,6))
  then have "built (b - 91) st0 (?t # ts) ?st"
    using built_change [of b st0 "[]" ts st ?st "b - 91" "{r}" ?t] b nz r(4,5,6)
    by (simp add: lv_def got_def)
  ultimately show thesis using nz(1) by (intro that)
qed

text \<open>Giving the first tree a string.\<close>

lemma built_text:
  assumes b: "built b st0 (t # ts) st" and c: "length s + 52 \<le> b" "length s + 1 < 2 ^ 31"
    and f: "(jt_str t = None \<and> f = (\<lambda>p n. n\<lparr>n_string := p\<rparr>) \<and> g = with_name) \<or>
      (jt_vs t = None \<and> f = (\<lambda>p n. n\<lparr>n_valuestring := p\<rparr>) \<and> g = with_vs)"
  obtains p st1 st' where "cJSON_strdup hk s st = Some (p, st1)" "set_node (jt_addr t) (f p) st1 = Some st'"
    "built (b - (length s + 52)) st0 (g (Some (p, s)) t # ts) st'"
proof -
  have ok: "jm_ok st" "room b (jm_heap st)" and rep: "tree_rep (jm_nodes st) (jm_texts st) 0 [t]" using b by (simp_all add: built_def)
  have dt: "distinct (owned [t])" using b by (auto simp: built_def)
  obtain p st1 where p: "cJSON_strdup hk s st = Some (p, st1)" "text_post (length s + 52) s p st st1"
    using strdup_ok [OF ok(1) c(2)] by blast
  have p': "p \<noteq> 0" "room (b - (length s + 52)) (jm_heap st1)" "jm_ok st1" "p \<notin> lv st" "lv st1 = insert p (lv st)"
    "jm_nodes st1 = jm_nodes st" "jm_texts st1 = (jm_texts st)(p \<mapsto> s)"
    using p(2) ok(2) c(1) by (auto simp: text_post_def uses_def got_def)
  let ?t = "g (Some (p, s)) t"
  let ?st = "st1\<lparr>jm_nodes := (jm_nodes st1)(jt_addr t \<mapsto> jt_node 0 0 ?t)\<rparr>"
  have sel: "jt_addr ?t = jt_addr t" "jt_kids ?t = jt_kids t" and own: "set (owned [?t]) = set (owned [t]) \<union> {p}"
    using f by auto
  have fresh: "p \<notin> set (owned [t])" using jm_ok_owned [OF ok(1) rep] p'(4) by blast
  have nd: "jm_nodes st (jt_addr t) = Some (jt_node 0 0 t)" using rep by simp
  have "set_node (jt_addr t) (f p) st1 = Some ?st"
    using f nd by (auto simp: set_node_def p'(6) jt_node_def)
  moreover have "jm_ok ?st" using p'(3) nd by (auto simp: jm_ok_def lv_def p'(6))
  moreover have "distinct (owned [?t])" using f fresh dt by auto
  moreover have "tree_rep (jm_nodes ?st) (jm_texts ?st) 0 [?t]"
  proof -
    have "tree_rep (jm_nodes ?st) (jm_texts ?st) 0 (jt_kids t)"
      by (rule tree_rep_frame [of "jm_nodes st" "jm_texts st"]) (use rep dt fresh p'(6,7) in auto)
    moreover have "str_rep (jm_texts ?st) (jt_vs t)" "str_rep (jm_texts ?st) (jt_str t)"
      using rep fresh by (auto simp: p'(7) elim!: str_rep_frame)
    ultimately show ?thesis using f rep p'(1,7) sel by auto
  qed
  ultimately have "built (b - (length s + 52)) st0 (?t # ts) ?st"
    using built_change [of b st0 "[t]" ts st ?st "b - (length s + 52)" "{p}" ?t] b p' own by (simp add: lv_def)
  with p(1) \<open>set_node (jt_addr t) (f p) st1 = Some ?st\<close> show thesis by (rule that)
qed

lemma built_distinct: "built b st0 (t # p # ts) st \<Longrightarrow> distinct (owned [t] @ owned [p])"
proof -
  assume "built b st0 (t # p # ts) st"
  then have "distinct (owned ([t] @ [p] @ ts))" by (simp add: built_def)
  then show ?thesis unfolding owned_append by (simp only: distinct_append set_append) blast
qed

lemma built_add:
  assumes b: "built b st0 (t # p # ts) st"
  obtains st' where "cJSON_AddItemToArray (jt_addr p) (jt_addr t) st = Some st'" "built b st0 (add_kid p t # ts) st'"
proof -
  let ?N = "added_nodes (jm_nodes st) p (jt_addr t)"
  let ?st = "st\<lparr>jm_nodes := ?N\<rparr>"
  have ok: "jm_ok st" "room b (jm_heap st)" and rt: "tree_rep (jm_nodes st) (jm_texts st) 0 [t]" and rp: "tree_rep (jm_nodes st) (jm_texts st) 0 [p]"
    using b by (simp_all add: built_def)
  have d: "distinct (owned [t] @ owned [p])" using built_distinct [OF b] .
  have p: "jm_nodes st (jt_addr p) = Some (jt_node 0 0 p)" "tree_rep (jm_nodes st) (jm_texts st) 0 (jt_kids p)" using rp by simp_all
  have dp: "distinct (jt_addr p # owned (jt_kids p) @ owned [t])" using d by auto
  note run = add_item_run [OF p rt] and ad = added_rep [OF p rt dp]
  have "tree_rep ?N (jm_texts st) 0 [add_kid p t]" using ad(1,2) rp by simp
  moreover have "jm_ok ?st" using ok(1) ad(4) by (auto simp: jm_ok_def lv_def)
  moreover have "?N a = jm_nodes st a" if "a \<notin> set (owned [t, p])" for a by (rule ad(3)) (use that in auto)
  moreover have "distinct (owned [add_kid p t])" using d by auto
  ultimately have "built b st0 (add_kid p t # ts) ?st"
    using built_change [of b st0 "[t, p]" ts st ?st b "{}" "add_kid p t"] b ok(2) by (auto simp: lv_def)
  then show thesis using run dp by (intro that) simp_all
qed

text \<open>Appending to the first child of the second tree.\<close>

lemma built_add_first:
  assumes b: "built b st0 (t # p # ts) st" and kids: "jt_kids p = i # ks"
  obtains st' where "cJSON_AddItemToArray (jt_addr i) (jt_addr t) st = Some st'" "built b st0 (with_kids (add_kid i t # ks) p # ts) st'"
proof -
  let ?N = "added_nodes (jm_nodes st) i (jt_addr t)" and ?p = "with_kids (add_kid i t # ks) p"
  let ?st = "st\<lparr>jm_nodes := ?N\<rparr>"
  have ok: "jm_ok st" "room b (jm_heap st)" and rt: "tree_rep (jm_nodes st) (jm_texts st) 0 [t]" and rp: "tree_rep (jm_nodes st) (jm_texts st) 0 [p]"
    using b by (simp_all add: built_def)
  have d: "distinct (owned [t] @ owned [p])" using built_distinct [OF b] .
  have i: "jm_nodes st (jt_addr i) = Some (jt_node (head_addr ks) 0 i)" "tree_rep (jm_nodes st) (jm_texts st) 0 (jt_kids i)"
    using rp kids by simp_all
  have own: "owned [p] = owned [i] @ (owned ks @ str_own (jt_vs p) @ str_own (jt_str p) @ [jt_addr p])" by (simp add: kids)
  then have dt: "distinct (owned [t] @ owned [i])" using d by (simp only: distinct_append set_append) blast
  then have di: "distinct (jt_addr i # owned (jt_kids i) @ owned [t])" by auto
  note run = add_item_run [OF i rt] and ad = added_rep [OF i rt di]
  have same: "?N a = jm_nodes st a" if "a \<notin> set (jt_addr i # owned (jt_kids i) @ owned [t])" for a using ad(3) [OF that] .
  have "tree_rep ?N (jm_texts st) (jt_addr i) ks"
    by (rule tree_rep_frame [of "jm_nodes st" "jm_texts st"]) (use rp kids d in \<open>auto intro!: same\<close>)
  moreover have "?N (jt_addr p) = jm_nodes st (jt_addr p)" by (rule same) (use d kids in auto)
  ultimately have "tree_rep ?N (jm_texts st) 0 [?p]" using ad(1,2) rp kids by (simp add: with_kids_def jt_node_def)
  moreover have "jm_ok ?st" using ok(1) ad(4) by (auto simp: jm_ok_def lv_def)
  moreover have "?N a = jm_nodes st a" if "a \<notin> set (owned [t, p])" for a by (rule same) (use that kids in auto)
  moreover have perm: "mset (owned [?p]) = mset (owned [t] @ owned [p])" by (simp add: with_kids_def kids ac_simps)
  then have "distinct (owned [?p])" "set (owned [?p]) = set (owned [t, p])"
    using mset_eq_imp_distinct_iff [OF perm] mset_eq_setD [OF perm] d by simp_all
  ultimately have "built b st0 (?p # ts) ?st"
    using built_change [of b st0 "[t, p]" ts st ?st b "{}" ?p] b ok(2) by (auto simp: lv_def)
  then show thesis using run di by (intro that) simp_all
qed

section \<open>The operations of the library\<close>

lemma create_object_ok:
  assumes "built b st0 ts st" "91 \<le> b"
  obtains r st' where "cJSON_CreateObject hk st = Some (r, st')" "r \<noteq> 0"
    "built (b - 91) st0 (JT r 6 None 0 (Fin False 0 0) None [] # ts) st'"
  by (rule built_leaf [OF assms, where f = "\<lambda>n. n\<lparr>n_type := cJSON_Object\<rparr>" and ty = 6 and vi = 0 and vd = "Fin False 0 0"])
    (auto simp: zero_node_def cJSON_CreateObject_def)

lemma create_array_ok:
  assumes "built b st0 ts st" "91 \<le> b"
  obtains r st' where "cJSON_CreateArray hk st = Some (r, st')" "r \<noteq> 0"
    "built (b - 91) st0 (JT r 5 None 0 (Fin False 0 0) None [] # ts) st'"
  by (rule built_leaf [OF assms, where f = "\<lambda>n. n\<lparr>n_type := cJSON_Array\<rparr>" and ty = 5 and vi = 0 and vd = "Fin False 0 0"])
    (auto simp: zero_node_def cJSON_CreateArray_def)

lemma create_number_ok:
  assumes "built b st0 ts st" "91 \<le> b" "dbl_to_int d = Some i"
  obtains r st' where "cJSON_CreateNumber hk d st = Some (r, st')" "r \<noteq> 0" "built (b - 91) st0 (JT r 3 None i d None [] # ts) st'"
proof -
  let ?f = "\<lambda>n. n\<lparr>n_type := cJSON_Number, n_valuedouble := d, n_valueint := i\<rparr>"
  obtain r st' where r: "create_item hk ?f st = Some (r, st')" "r \<noteq> 0" "built (b - 91) st0 (JT r 3 None i d None [] # ts) st'"
    by (rule built_leaf [OF assms(1,2), where f = ?f and ty = 3 and vi = i and vd = d]) (simp_all add: zero_node_def)
  have "cJSON_CreateNumber hk d st = create_item hk ?f st"
    using assms(3) by (simp add: cJSON_CreateNumber_def create_item_def cong: if_cong)
  then show thesis using r by (intro that) simp_all
qed

lemma create_string_ok:
  assumes b: "built b st0 ts st" and c: "length s + 143 \<le> b" "length s + 1 < 2 ^ 31"
  obtains r p st' where "cJSON_CreateString hk s st = Some (r, st')" "r \<noteq> 0"
    "built (b - (length s + 143)) st0 (JT r 4 (Some (p, s)) 0 (Fin False 0 0) None [] # ts) st'"
proof -
  obtain r st1 where r: "create_item hk (\<lambda>n. n\<lparr>n_type := cJSON_String\<rparr>) st = Some (r, st1)" "r \<noteq> 0"
    "built (b - 91) st0 (JT r 4 None 0 (Fin False 0 0) None [] # ts) st1"
    by (rule built_leaf [OF b, where f = "\<lambda>n. n\<lparr>n_type := cJSON_String\<rparr>" and ty = 4 and vi = 0 and vd = "Fin False 0 0"]) (use c in \<open>simp_all add: zero_node_def\<close>)
  obtain p st2 st3 where p: "cJSON_strdup hk s st1 = Some (p, st2)"
    "set_node (jt_addr (JT r 4 None 0 (Fin False 0 0) None [])) (\<lambda>n. n\<lparr>n_valuestring := p\<rparr>) st2 = Some st3"
    "built (b - 91 - (length s + 52)) st0 (with_vs (Some (p, s)) (JT r 4 None 0 (Fin False 0 0) None []) # ts) st3"
    by (rule built_text [OF r(3), of s "\<lambda>p n. n\<lparr>n_valuestring := p\<rparr>" with_vs]) (use c in simp_all)
  show thesis by (rule that [of r st3 p]) (use r p in \<open>simp_all add: cJSON_CreateString_def with_vs_def add.commute\<close>)
qed

lemma add_to_object_ok:
  assumes b: "built b st0 (t # p # ts) st" and t: "jt_str t = None" and c: "length s + 52 \<le> b" "length s + 1 < 2 ^ 31"
  obtains k st' where "cJSON_AddItemToObject hk (jt_addr p) s (jt_addr t) st = Some st'"
    "built (b - (length s + 52)) st0 (add_kid p (with_name (Some (k, s)) t) # ts) st'"
proof -
  have nd: "jt_addr t \<noteq> 0" "jm_nodes st (jt_addr t) = Some (jt_node 0 0 t)" using b by (simp_all add: built_def)
  obtain k st1 st2 where k: "cJSON_strdup hk s st = Some (k, st1)" "set_node (jt_addr t) (\<lambda>n. n\<lparr>n_string := k\<rparr>) st1 = Some st2"
    "built (b - (length s + 52)) st0 (with_name (Some (k, s)) t # p # ts) st2"
    by (rule built_text [OF b c, of "\<lambda>p n. n\<lparr>n_string := p\<rparr>" with_name]) (use t in simp_all)
  obtain st3 where st3: "cJSON_AddItemToArray (jt_addr p) (jt_addr (with_name (Some (k, s)) t)) st2 = Some st3"
    "built (b - (length s + 52)) st0 (add_kid p (with_name (Some (k, s)) t) # ts) st3"
    by (rule built_add [OF k(3)])
  show thesis by (rule that [of st3 k]) (use nd t k(1,2) st3 in \<open>simp_all add: cJSON_AddItemToObject_def\<close>)
qed

text \<open>Printing the tree that was built, and deleting it, leaves the text only.\<close>

lemma print_and_delete:
  assumes b: "built b st0 [t] st" and pr: "printable [t]" and c: "json_cost False 0 (tree_json t) \<le> b" "b < 2 ^ 31"
  obtains r st1 st2 where "cJSON_PrintUnformatted hk (jt_addr t) st = Some (r, st1)" "cJSON_Delete hk (jt_addr t) st1 = Some st2"
    "r \<noteq> 0" "jm_ok st2" "r \<notin> lv st0" "lv st2 = insert r (lv st0)" "jm_nodes st2 = jm_nodes st0"
    "jm_texts st2 = (jm_texts st0)(r \<mapsto> json_text False 0 (tree_json t))"
proof -
  have ok: "jm_ok st" "room b (jm_heap st)" "jm_ok st0" and rep: "tree_rep (jm_nodes st) (jm_texts st) 0 [t]"
    and d: "distinct (owned [t])" "set (owned [t]) \<inter> lv st0 = {}" "lv st = lv st0 \<union> set (owned [t])"
    and same: "\<And>a. a \<notin> set (owned [t]) \<Longrightarrow> jm_nodes st a = jm_nodes st0 a \<and> jm_texts st a = jm_texts st0 a"
    using b by (simp_all only: built_def list.set insert_iff simp_thms empty_iff ball_simps)
  have "json_cost False 0 (tree_json t) < 2 ^ 31" using c by simp
  then obtain r st1 where r: "print_go hk False (P_value (jt_addr t) 0) st = Some ([(r, 0)], 0, st1)"
    "text_post (json_cost False 0 (tree_json t)) (json_text False 0 (tree_json t)) r st st1"
    by (rule printsE [OF prints_all ok(1) rep pr])
  have r': "r \<noteq> 0" "jm_ok st1" "r \<notin> lv st" "lv st1 = insert r (lv st)" "jm_nodes st1 = jm_nodes st"
    "jm_texts st1 = (jm_texts st)(r \<mapsto> json_text False 0 (tree_json t))"
    using r(2) ok(2) c(1) by (auto simp: text_post_def uses_def got_def)
  have "plain [t]" using pr by (rule printable_plain)
  then obtain st2 where st2: "cJSON_Delete hk (head_addr [t]) st1 = Some st2" "dropped (set (owned [t])) st1 st2"
    using delete_ok [OF r'(2) text_post_rep [OF ok(1) r(2) rep] d(1)] by blast
  have r: "cJSON_PrintUnformatted hk (jt_addr t) st = Some (r, st1)" using r(1) by (simp add: cJSON_PrintUnformatted_def print_value_def)
  define B where "B = set (owned [t])"
  have st2': "cJSON_Delete hk (jt_addr t) st1 = Some st2" "jm_ok st2" "lv st2 = lv st1 - B"
    "jm_nodes st2 = (\<lambda>a. if a \<in> B then None else jm_nodes st1 a)" "jm_texts st2 = (\<lambda>a. if a \<in> B then None else jm_texts st1 a)"
    using st2 by (simp_all only: dropped_def B_def head_addr_simps)
  note d' = d(2,3) [folded B_def] and same' = same [folded B_def]
  have rO: "r \<notin> B" "r \<notin> lv st0" using r'(3) d'(2) by blast+
  have fresh: "jm_nodes st0 a = None \<and> jm_texts st0 a = None" if "a \<in> B" for a
    using jm_ok_fresh [OF ok(3), of a] d'(1) that by blast
  show thesis
  proof (rule that [OF r st2'(1) r'(1) st2'(2) rO(2)])
    show "lv st2 = insert r (lv st0)" unfolding st2'(3) r'(4) d'(2) using rO d'(1) by blast
    show "jm_nodes st2 = jm_nodes st0" unfolding st2'(4) r'(5) using same' fresh by (auto simp: fun_eq_iff)
    show "jm_texts st2 = (jm_texts st0)(r \<mapsto> json_text False 0 (tree_json t))"
      unfolding st2'(5) r'(6) using same' fresh rO(1) by (auto simp: fun_eq_iff)
  qed
qed

end

end
