(* ===== verification/Rt_Heap_Room.thy ===== *)
theory Rt_Heap_Room
  imports Rt_Heap_Spec
begin

text \<open>
  Requests to the kernel allocator that are sure to succeed. A stretch of the heap that no block in use
  touches lies inside one free block, so that a client can be promised room in advance.
\<close>

section \<open>Room in the heap\<close>

lemma covering:
  "blocks_at b r p bs e \<Longrightarrow> no_holes bs \<Longrightarrow> p \<le> i \<Longrightarrow> i < j \<Longrightarrow> j \<le> e \<Longrightarrow>
     (\<And>q m. (q, True, m) \<in> set bs \<Longrightarrow> m \<le> i \<or> j \<le> q) \<Longrightarrow> \<exists>q m. (q, False, m) \<in> set bs \<and> q \<le> i \<and> j \<le> m"
proof (induction b r p bs e rule: blocks_at.induct)
  case (2 b r p q u n bs e)
  show ?case
  proof (cases "n \<le> i")
    case True
    have "no_holes bs" using "2.prems"(2) by (cases bs) (auto simp: no_holes_def)
    then obtain q' m where "(q', False, m) \<in> set bs" "q' \<le> i" "j \<le> m" using 2 True by auto
    then show ?thesis by auto
  next
    case False
    have u: "\<not> u" using "2.prems"(6) [of q n] False "2.prems" by auto
    have "j \<le> n"
    proof (rule ccontr)
      assume j: "\<not> j \<le> n"
      then obtain u' n' bs' where bs: "bs = (n, u', n') # bs'" "n + 16 \<le> n'"
        using "2.prems" by (cases bs) auto
      then have "u'" using "2.prems"(2) u by (auto simp: no_holes_def)
      then show False using "2.prems"(6) [of n n'] bs False j by auto
    qed
    then show ?thesis using u "2.prems" by auto
  qed
qed simp

definition rt_live :: "rt_heap \<Rightarrow> u32 set" where
  "rt_live h = dom (heap_view h)"

definition rt_room :: "nat \<Rightarrow> rt_heap \<Rightarrow> bool" where
  "rt_room b h \<longleftrightarrow> heap_low h \<and> (b = 0 \<or> (\<exists>i. i + b \<le> end_off h \<and> (\<forall>q m. (q, True, m) \<in> set (heap_blocks h) \<longrightarrow> m \<le> i \<or> i + b \<le> q)))"

lemma used_live:
  assumes "heap_wf h bs" "(q, True, m) \<in> set bs"
  shows "live_blocks (heap_bytes h) bs q = Some (sub_bytes (heap_bytes h) (q + 12) m)"
proof -
  obtain xs ys where bs: "bs = xs @ (q, True, m) # ys" using assms(2) by (meson split_list)
  have "heap_rep h (xs @ (q, True, m) # ys)" using assms(1) by (simp add: heap_wf_def bs)
  note mid = heap_rep_mid [OF this]
  have "r < q" if "(r, v, k) \<in> set xs" for r v k
    using mid that blocks_at_range [of "heap_bytes h" 0 0 xs q r v k] by (auto simp: blocks_at_mid)
  then show ?thesis unfolding bs by (subst live_mid) auto
qed

lemma block_bounds:
  assumes "heap_wf h bs" "(q, u, m) \<in> set bs"
  shows "q + 16 \<le> m" "m \<le> end_off h" "length (sub_bytes (heap_bytes h) (q + 12) m) = m - (q + 12)"
  using assms blocks_at_range [of "heap_bytes h" 0 0 bs "end_off h" q u m] by (auto simp: heap_wf_def heap_rep_def)

text \<open>A block in use is where one was before, unless it is new.\<close>

lemma used_before:
  assumes wf: "heap_wf h bs" "heap_wf h' bs'" and live: "live_blocks (heap_bytes h') bs' q = live_blocks (heap_bytes h) bs q"
    and q: "(q, True, m) \<in> set bs'"
  shows "(q, True, m) \<in> set bs"
proof -
  have "live_blocks (heap_bytes h) bs q = Some (sub_bytes (heap_bytes h') (q + 12) m)"
    using live used_live [OF wf(2) q] by simp
  then obtain k where k: "(q, True, k) \<in> set bs" "sub_bytes (heap_bytes h') (q + 12) m = sub_bytes (heap_bytes h) (q + 12) k"
    using live_dom [of "heap_bytes h" bs q] by blast
  have "m - (q + 12) = k - (q + 12)" using arg_cong [OF k(2), of length] block_bounds [OF wf(2) q] block_bounds [OF wf(1) k(1)] by simp
  then have "m = k" using block_bounds [OF wf(2) q] block_bounds [OF wf(1) k(1)] by linarith
  then show ?thesis using k(1) by simp
qed

lemma room_free:
  assumes ok: "heap_ok h" and a: "heap_view h a = Some c" and run: "rt_free h a = Some h'" and room: "rt_room b h"
  shows "rt_room b h'"
proof -
  have wf: "heap_wf h (heap_blocks h)" using ok by (simp add: heap_ok_def)
  obtain xs p n ys where p: "heap_blocks h = xs @ (p, True, n) # ys" "a = mem_addr h (p + 12)"
    using heap_view_SomeE [OF wf a] by metis
  obtain bs' where f: "heap_wf h' bs'" "same_area h h'"
    "live_blocks (heap_bytes h') bs' = (live_blocks (heap_bytes h) (heap_blocks h))(p := None)"
    "lfree_low h (heap_blocks h) \<longrightarrow> lfree_low h' bs'"
    using rt_free_ok [OF wf p(1)] p(2) run by auto
  have "(q, True, m) \<in> set (heap_blocks h)" if q: "(q, True, m) \<in> set (heap_blocks h')" for q m
  proof (rule used_before [OF wf f(1) _ q [unfolded heap_wf_blocks [OF f(1)]]])
    have "live_blocks (heap_bytes h') bs' q \<noteq> None" using used_live [OF f(1)] q unfolding heap_wf_blocks [OF f(1)] by simp
    then show "live_blocks (heap_bytes h') bs' q = live_blocks (heap_bytes h) (heap_blocks h) q" unfolding f(3) by (auto split: if_splits)
  qed
  moreover have "end_off h' = end_off h" using f(2) by (simp add: same_area_def end_off_def)
  moreover have "heap_low h'" using room f(4) heap_low_wf [OF f(1)] by (simp add: rt_room_def heap_low_def)
  ultimately show ?thesis using room unfolding rt_room_def by (elim conjE disjE exE) (metis (lifting))+
qed

lemma room_block:
  assumes "heap_ok h" "rt_room b h" "0 < b"
  obtains i q m where "(q, False, m) \<in> set (heap_blocks h)" "q \<le> i" "i + b \<le> m"
    "\<And>q m. (q, True, m) \<in> set (heap_blocks h) \<Longrightarrow> m \<le> i \<or> i + b \<le> q"
proof -
  obtain i where i: "i + b \<le> end_off h" "\<And>q m. (q, True, m) \<in> set (heap_blocks h) \<Longrightarrow> m \<le> i \<or> i + b \<le> q"
    using assms(2,3) by (auto simp: rt_room_def)
  have "blocks_at (heap_bytes h) 0 0 (heap_blocks h) (end_off h)" "no_holes (heap_blocks h)"
    using assms(1) by (simp_all add: heap_ok_def heap_wf_def heap_rep_def)
  from covering [OF this, of i "i + b"] i assms(3) obtain q m where "(q, False, m) \<in> set (heap_blocks h)" "q \<le> i" "i + b \<le> m" by auto
  then show thesis using i(2) by (rule that)
qed

lemma blocks_apart_offsets:
  assumes "heap_wf h bs" "(q, u, m) \<in> set bs" "(p, v, n) \<in> set bs"
  shows "q = p \<and> u = v \<and> m = n \<or> m \<le> p \<or> n \<le> q"
proof -
  obtain xs ys where bs: "bs = xs @ (p, v, n) # ys" using assms(3) by (meson split_list)
  have rep: "heap_rep h (xs @ (p, v, n) # ys)" using assms(1) by (simp add: heap_wf_def bs)
  consider "(q, u, m) \<in> set xs" | "(q, u, m) = (p, v, n)" | "(q, u, m) \<in> set ys" using assms(2) bs by auto
  then show ?thesis
  proof cases
    case 1
    then show ?thesis using block_below [OF rep] by blast
  next
    case 3
    then show ?thesis using blocks_at_range [OF heap_rep_mid(11) [OF rep]] by blast
  qed simp
qed

lemma room_malloc:
  assumes ok: "heap_ok h" and room: "rt_room b h" and n: "n \<noteq> 0" "unat n + 51 \<le> b"
  shows "\<exists>a h'. rt_malloc h n = Some (a, h') \<and> a \<noteq> 0 \<and> rt_room (b - (unat n + 51)) h'"
proof -
  have wf: "heap_wf h (heap_blocks h)" and low: "lfree_low h (heap_blocks h)"
    using ok room by (simp_all add: heap_ok_def rt_room_def heap_low_def)
  have "0 < b" using n(2) by simp
  obtain i q m where q: "(q, False, m) \<in> set (heap_blocks h)" "q \<le> i" "i + b \<le> m"
    and clear: "\<And>q m. (q, True, m) \<in> set (heap_blocks h) \<Longrightarrow> m \<le> i \<or> i + b \<le> q"
    by (rule room_block [OF ok room \<open>0 < b\<close>]) blast
  have req: "request_size n \<le> unat n + 15" by (rule request_size_le)
  have "fits h (request_size n) (q, False, m)" using req q n(2) block_bounds(2) [OF wf q(1)] by (simp add: end_off_def)
  with rt_malloc_cases [OF wf n(1)] low q(1) obtain xs p k ys h' k' zs where
    c: "heap_blocks h = xs @ (p, False, k) # ys" "rt_malloc h n = Some (mem_addr h (p + 12), h')" "heap_wf h' (xs @ (p, True, k') # zs)"
      "live_blocks (heap_bytes h') (xs @ (p, True, k') # zs) =
        (live_blocks (heap_bytes h) (heap_blocks h))(p \<mapsto> sub_bytes (heap_bytes h) (p + 12) k')"
      "p + 12 + request_size n \<le> k'" "k' \<le> k" "k' < p + 36 + request_size n" "same_area h h'" "lfree_low h' (xs @ (p, True, k') # zs)"
    by blast
  let ?bs = "xs @ (p, True, k') # zs"
  have pk: "(p, False, k) \<in> set (heap_blocks h)" using c(1) by simp
  have used: "(r, True, l) \<in> set (heap_blocks h) \<or> r = p \<and> l = k'" if r: "(r, True, l) \<in> set ?bs" for r l
  proof (cases "r = p")
    case True
    then show ?thesis using blocks_apart_offsets [OF c(3) r, of p True k'] block_bounds(1) [OF c(3) r] block_bounds(1) [OF c(3), of p True k']
      by auto
  next
    case False
    then have "(r, True, l) \<in> set (heap_blocks h)" by (intro used_before [OF wf c(3) _ r]) (simp add: c(4))
    then show ?thesis ..
  qed
  have room': "rt_room (b - (unat n + 51)) h'"
  proof (cases "b = unat n + 51")
    case True
    then show ?thesis using heap_low_wf [OF c(3)] c(9) by (simp add: rt_room_def)
  next
    case False
    define i' where "i' = (if p = q then max i k' else i)"
    have le: "i \<le> i'" "i' + (b - (unat n + 51)) \<le> i + b" using n(2) req c(7) q(2) False by (auto simp: i'_def)
    have "l \<le> i' \<or> i' + (b - (unat n + 51)) \<le> r" if "(r, True, l) \<in> set ?bs" for r l
      using used [OF that]
    proof
      assume "(r, True, l) \<in> set (heap_blocks h)"
      then show ?thesis using clear [of r l] le by linarith
    next
      assume "r = p \<and> l = k'"
      then show ?thesis
      proof (cases "p = q")
        case True
        then show ?thesis using \<open>r = p \<and> l = k'\<close> by (simp add: i'_def)
      next
        case pq: False
        have "m \<le> p \<or> k \<le> q" using blocks_apart_offsets [OF wf q(1) pk] pq by auto
        then show ?thesis using \<open>r = p \<and> l = k'\<close> q(2,3) c(6) le by auto
      qed
    qed
    moreover have "i' + (b - (unat n + 51)) \<le> end_off h'" using le q(3) block_bounds(2) [OF wf q(1)] c(8) by (simp add: same_area_def end_off_def)
    ultimately show ?thesis unfolding rt_room_def heap_wf_blocks [OF c(3)] using heap_low_wf [OF c(3)] c(9) by blast
  qed
  have "heap_rep h (xs @ (p, False, k) # ys)" using wf by (simp add: heap_wf_def c(1))
  then have "mem_addr h (p + 12) \<noteq> 0" by (rule user_addr)
  then show ?thesis using c(2) room' by blast
qed

end
