(* ===== verification/Cjson_Port.thy ===== *)
theory Cjson_Port
  imports Cjson_Build Rt_Heap_Room
begin

text \<open>
  The JSON library on the kernel allocator (\<open>cJSON_port.c\<close>), which satisfies what the library needs of an
  allocator.
\<close>

definition cJSON_hook_init :: "rt_heap cJSON_Hooks" where
  "cJSON_hook_init = \<lparr>malloc_fn = (\<lambda>n h. rt_malloc h n), free_fn = (\<lambda>a h. rt_free h a)\<rparr>"

lemma rt_malloc_null: "heap_ok h \<Longrightarrow> heap_view h 0 = None"
proof (rule ccontr)
  assume ok: "heap_ok h" and "heap_view h 0 \<noteq> None"
  then obtain c where c: "heap_view h 0 = Some c" by auto
  have wf: "heap_wf h (heap_blocks h)" using ok by (simp add: heap_ok_def)
  obtain xs p n ys where p: "heap_blocks h = xs @ (p, True, n) # ys" "0 = mem_addr h (p + 12)"
    using heap_view_SomeE [OF wf c] by metis
  have "heap_rep h (xs @ (p, True, n) # ys)" using wf by (simp add: heap_wf_def p(1))
  then have "mem_addr h (p + 12) \<noteq> 0" by (rule user_addr(1))
  then show False using p(2) by simp
qed

lemma rt_room_mono: "rt_room b h \<Longrightarrow> c \<le> b \<Longrightarrow> rt_room c h"
  unfolding rt_room_def
proof (elim conjE disjE exE)
  fix i
  assume c: "c \<le> b" and low: "heap_low h" and i: "i + b \<le> end_off h" "\<forall>q m. (q, True, m) \<in> set (heap_blocks h) \<longrightarrow> m \<le> i \<or> i + b \<le> q"
  have "i + c \<le> end_off h" using i(1) c by simp
  moreover have "m \<le> i \<or> i + c \<le> q" if "(q, True, m) \<in> set (heap_blocks h)" for q m
    using i(2) [rule_format, OF that] c by linarith
  ultimately show "heap_low h \<and> (c = 0 \<or> (\<exists>i. i + c \<le> end_off h \<and> (\<forall>q m. (q, True, m) \<in> set (heap_blocks h) \<longrightarrow> m \<le> i \<or> i + c \<le> q)))"
    using low by blast
qed simp

text \<open>An intact heap of a given size.\<close>

definition rt_ok :: "u32 \<Rightarrow> rt_heap \<Rightarrow> bool" where
  "rt_ok sz h \<longleftrightarrow> heap_ok h \<and> mem_size_aligned h = sz"

interpretation rt_json: json_alloc cJSON_hook_init "rt_ok sz" rt_live rt_room for sz
proof
  fix h :: rt_heap and n :: u32
  assume rt: "rt_ok sz h"
  then have ok: "heap_ok h" by (simp add: rt_ok_def)
  obtain a h' where r: "rt_malloc h n = Some (a, h')" "heap_ok h'" "same_area h h'"
    "a = 0 \<and> h' = h \<or> a \<noteq> 0 \<and> heap_view h a = None \<and> (\<exists>c. heap_view h' = (heap_view h)(a \<mapsto> c) \<and> request_size n \<le> length c)"
    using malloc_contract [OF ok, of n] by blast
  have ok': "rt_ok sz h'" using rt r(2,3) by (simp add: rt_ok_def same_area_def)
  have "a \<noteq> 0 \<and> rt_room (b - (unat n + 51)) h'" if "rt_room b h \<and> n \<noteq> 0 \<and> unat n + 51 \<le> b" for b
    using room_malloc [OF ok, of b n] that r(1) by auto
  then have "\<forall>b. rt_room b h \<and> n \<noteq> 0 \<and> unat n + 51 \<le> b \<longrightarrow> a \<noteq> 0 \<and> rt_room (b - (unat n + 51)) h'" by blast
  moreover have "a = 0 \<and> rt_live h' = rt_live h \<or> a \<noteq> 0 \<and> a \<notin> rt_live h \<and> rt_live h' = insert a (rt_live h)"
    using r(4) by (auto simp: rt_live_def)
  ultimately show "\<exists>a h'. malloc_fn cJSON_hook_init n h = Some (a, h') \<and> rt_ok sz h' \<and>
      (a = 0 \<and> rt_live h' = rt_live h \<or> a \<noteq> 0 \<and> a \<notin> rt_live h \<and> rt_live h' = insert a (rt_live h)) \<and>
      (\<forall>b. rt_room b h \<and> n \<noteq> 0 \<and> unat n + 51 \<le> b \<longrightarrow> a \<noteq> 0 \<and> rt_room (b - (unat n + 51)) h')"
    using r(1) ok' unfolding cJSON_hook_init_def cJSON_Hooks.simps by (intro exI conjI) assumption+
next
  fix h :: rt_heap and a :: u32
  assume rt: "rt_ok sz h" and a: "a \<in> rt_live h"
  then have ok: "heap_ok h" by (simp add: rt_ok_def)
  obtain c where c: "heap_view h a = Some c" using a by (auto simp: rt_live_def)
  obtain h' where r: "rt_free h a = Some h'" "heap_ok h'" "same_area h h'" "heap_view h' = (heap_view h)(a := None)"
    using free_contract [OF ok c] by blast
  have "rt_live h' = rt_live h - {a}" using r(4) by (auto simp: rt_live_def)
  moreover have "rt_ok sz h'" using rt r(2,3) by (simp add: rt_ok_def same_area_def)
  ultimately show "\<exists>h'. free_fn cJSON_hook_init a h = Some h' \<and> rt_ok sz h' \<and> rt_live h' = rt_live h - {a} \<and>
      (\<forall>b. rt_room b h \<longrightarrow> rt_room b h')"
    using r(1) room_free [OF ok c r(1)] by (intro exI [of _ h']) (simp add: cJSON_hook_init_def)
next
  show "rt_ok sz h \<Longrightarrow> 0 \<notin> rt_live h" for h using rt_malloc_null by (simp add: rt_ok_def rt_live_def domIff)
  show "rt_room b h \<Longrightarrow> c \<le> b \<Longrightarrow> rt_room c h" for b h c
    by (rule rt_room_mono)
qed

text \<open>A freshly initialised heap has room for all of its bytes but one header.\<close>

lemma fresh_room:
  assumes "rt_system_heap_init ram b e = Some (Inr h)" "0 < unat b" "unat b + 3 < 2 ^ 32"
    "(unat b + 3) div 4 * 4 + 36 \<le> unat e div 4 * 4"
  shows "rt_room (unat e div 4 * 4 - (unat b + 3) div 4 * 4 - 12) h"
proof -
  have "(unat b + 3) div 4 * 4 + 24 \<le> unat e div 4 * 4" using assms(4) by simp
  from heap_init_ok [OF assms(2,3) this, of ram] assms(1)
  have "unat (mem_size_aligned h) = unat e div 4 * 4 - (unat b + 3) div 4 * 4 - 24" by auto
  then have "end_off h = unat e div 4 * 4 - (unat b + 3) div 4 * 4 - 12" using assms(4) unfolding end_off_def by linarith
  then show ?thesis using fresh_heap [OF assms] by (auto simp: rt_room_def)
qed

text \<open>Memory in order: the heap is intact, and items and strings lie in blocks of their own.\<close>

definition jmem_ok :: "rt_heap jmem \<Rightarrow> bool" where
  "jmem_ok st \<longleftrightarrow> heap_ok (jm_heap st) \<and> dom (jm_nodes st) \<subseteq> rt_live (jm_heap st) \<and> dom (jm_texts st) \<subseteq> rt_live (jm_heap st) \<and>
     dom (jm_nodes st) \<inter> dom (jm_texts st) = {}"

lemma jmem_ok_rt: "rt_json.jm_ok sz st \<longleftrightarrow> jmem_ok st \<and> mem_size_aligned (jm_heap st) = sz"
  by (auto simp: rt_json.jm_ok_def rt_json.lv_def rt_ok_def jmem_ok_def)

section \<open>Printing and deleting on the kernel heap\<close>

definition cjson_print :: "bool \<Rightarrow> u32 \<Rightarrow> rt_heap jmem \<Rightarrow> (u32 \<times> rt_heap jmem) option" where
  "cjson_print fmt = (if fmt then cJSON_Print cJSON_hook_init else cJSON_PrintUnformatted cJSON_hook_init)"

text \<open>
  (C20) Printing a tree of JSON items on the kernel heap, formatted or not, and whatever the allocator answers: the
  code stays inside its buffers and returns. It delivers null and leaves everything as it was, or a new block with exactly the text of the
  value that the tree stands for; all memory it used on the way has been given back. With room for what it asks for in all, it delivers the text.
\<close>

theorem cJSON_print_exact:
  assumes "jmem_ok st" "tree_rep (jm_nodes st) (jm_texts st) 0 [t]" "printable [t]" "json_cost fmt 0 (tree_json t) < 2 ^ 31"
  shows "\<exists>r st'. cjson_print fmt (jt_addr t) st = Some (r, st') \<and> jmem_ok st' \<and> jm_nodes st' = jm_nodes st \<and>
    (if r = 0 then rt_live (jm_heap st') = rt_live (jm_heap st) \<and> jm_texts st' = jm_texts st
     else r \<notin> rt_live (jm_heap st) \<and> rt_live (jm_heap st') = insert r (rt_live (jm_heap st)) \<and>
       jm_texts st' = (jm_texts st)(r \<mapsto> json_text fmt 0 (tree_json t))) \<and>
    (rt_room (json_cost fmt 0 (tree_json t)) (jm_heap st) \<longrightarrow> r \<noteq> 0)"
proof -
  define sz where "sz = mem_size_aligned (jm_heap st)"
  have ok: "rt_json.jm_ok sz st" using assms(1) by (simp add: jmem_ok_rt sz_def)
  obtain r st' where r: "print_go cJSON_hook_init fmt (P_value (jt_addr t) 0) st = Some ([(r, 0)], 0, st')"
    "rt_json.text_post sz (json_cost fmt 0 (tree_json t)) (json_text fmt 0 (tree_json t)) r st st'"
    by (rule rt_json.printsE [OF rt_json.prints_all ok assms(2-4)])
  have "cjson_print fmt (jt_addr t) st = Some (r, st')"
    using r(1) by (cases fmt) (simp_all add: cjson_print_def cJSON_Print_def cJSON_PrintUnformatted_def print_value_def)
  then show ?thesis using r(2) by (auto simp: rt_json.text_post_def rt_json.got_def rt_json.uses_def jmem_ok_rt rt_json.lv_def)
qed

text \<open>
  (C32) Deleting a tree of JSON items on the kernel heap returns, releases each item and each string of the tree exactly once,
  and nothing else.
\<close>

theorem cJSON_delete_exact:
  assumes "jmem_ok st" "tree_rep (jm_nodes st) (jm_texts st) 0 [t]" "plain [t]" "distinct (owned [t])"
  shows "\<exists>st'. cJSON_Delete cJSON_hook_init (jt_addr t) st = Some st' \<and> jmem_ok st' \<and>
    rt_live (jm_heap st') = rt_live (jm_heap st) - set (owned [t]) \<and>
    jm_nodes st' = (jm_nodes st) |` (- set (owned [t])) \<and> jm_texts st' = (jm_texts st) |` (- set (owned [t]))"
proof -
  define sz where "sz = mem_size_aligned (jm_heap st)"
  have ok: "rt_json.jm_ok sz st" using assms(1) by (simp add: jmem_ok_rt sz_def)
  obtain st' where d: "cJSON_Delete cJSON_hook_init (head_addr [t]) st = Some st'" "rt_json.dropped sz (set (owned [t])) st st'"
    using rt_json.delete_ok [OF ok assms(2,4,3)] by blast
  then show ?thesis by (auto simp: rt_json.dropped_def jmem_ok_rt rt_json.lv_def restrict_map_def fun_eq_iff)
qed

lemma demo_array:
  obtains a h st where "rt_system_heap_init (\<lambda>_. 0) 0x20000000 0x20001000 = Some (Inr h)"
    "cJSON_CreateArray cJSON_hook_init \<lparr>jm_heap = h, jm_nodes = Map.empty, jm_texts = Map.empty\<rparr> = Some (a, st)" "jmem_ok st"
    "tree_rep (jm_nodes st) (jm_texts st) 0 [JT a cJSON_Array None 0 (Fin False 0 0) None []]" "rt_room 1000 (jm_heap st)"
    "rt_live (jm_heap st) = {a}" "jm_texts st = Map.empty" "a \<noteq> 0"
proof -
  have un: "unat (0x20000000 :: u32) = 0x20000000" "unat (0x20001000 :: u32) = 0x20001000" by simp_all
  obtain h where h: "rt_system_heap_init (\<lambda>_. 0) 0x20000000 0x20001000 = Some (Inr h)" using demo_heap_init by blast
  let ?st = "\<lparr>jm_heap = h, jm_nodes = Map.empty, jm_texts = Map.empty\<rparr>"
  have f: "heap_ok h" "heap_view h = Map.empty" by (rule fresh_heap [OF h]; simp add: un)+
  have "rt_room (unat (0x20001000 :: u32) div 4 * 4 - (unat (0x20000000 :: u32) + 3) div 4 * 4 - 12) h"
    by (rule fresh_room [OF h]) (simp_all add: un)
  then have "rt_room 1091 h" by (rule rt_room_mono) (simp add: un)
  then have room: "rt_room 1091 (jm_heap ?st)" by simp
  define sz where "sz = mem_size_aligned h"
  have ok: "rt_json.jm_ok sz ?st" using f by (simp add: jmem_ok_rt jmem_ok_def sz_def)
  obtain a st where a: "cJSON_CreateArray cJSON_hook_init ?st = Some (a, st)" "a \<noteq> 0"
    "rt_json.built sz (1091 - 91) ?st [JT a 5 None 0 (Fin False 0 0) None []] st"
    by (rule rt_json.create_array_ok [OF rt_json.built_start [OF ok room]]) simp_all
  have "jm_texts st x = None" for x
    using a(3) by (cases "x = a") (auto simp: rt_json.built_def rt_json.jm_ok_def)
  then have "jm_texts st = Map.empty" by auto
  then show thesis using a f by (intro that [OF h a(1)]) (auto simp: rt_json.built_def jmem_ok_rt rt_json.lv_def rt_live_def)
qed

theorem cJSON_print_exact_witness:
  "\<exists>h a st r st'. rt_system_heap_init (\<lambda>_. 0) 0x20000000 0x20001000 = Some (Inr h) \<and>
     cJSON_CreateArray cJSON_hook_init \<lparr>jm_heap = h, jm_nodes = Map.empty, jm_texts = Map.empty\<rparr> = Some (a, st) \<and>
     cjson_print True a st = Some (r, st') \<and> r \<noteq> 0 \<and> jm_texts st' r = Some [91, 93]"
proof -
  obtain a h st where a: "rt_system_heap_init (\<lambda>_. 0) 0x20000000 0x20001000 = Some (Inr h)"
    "cJSON_CreateArray cJSON_hook_init \<lparr>jm_heap = h, jm_nodes = Map.empty, jm_texts = Map.empty\<rparr> = Some (a, st)" "jmem_ok st"
    "tree_rep (jm_nodes st) (jm_texts st) 0 [JT a cJSON_Array None 0 (Fin False 0 0) None []]" "rt_room 1000 (jm_heap st)"
    by (rule demo_array)
  have j: "tree_json (JT a 5 None 0 (Fin False 0 0) None []) = JArray []" by (simp add: tree_json.simps)
  have "rt_room 54 (jm_heap st)" by (rule rt_room_mono [OF a(5)]) simp
  then show ?thesis using cJSON_print_exact [OF a(3,4), of True] a(1,2) by (auto simp: j split: if_splits cong: if_cong)
qed

theorem cJSON_delete_exact_witness:
  "\<exists>h a st st'. rt_system_heap_init (\<lambda>_. 0) 0x20000000 0x20001000 = Some (Inr h) \<and>
     cJSON_CreateArray cJSON_hook_init \<lparr>jm_heap = h, jm_nodes = Map.empty, jm_texts = Map.empty\<rparr> = Some (a, st) \<and>
     cJSON_Delete cJSON_hook_init a st = Some st' \<and> rt_live (jm_heap st') = {}"
proof -
  obtain a h st where a: "rt_system_heap_init (\<lambda>_. 0) 0x20000000 0x20001000 = Some (Inr h)"
    "cJSON_CreateArray cJSON_hook_init \<lparr>jm_heap = h, jm_nodes = Map.empty, jm_texts = Map.empty\<rparr> = Some (a, st)" "jmem_ok st"
    "tree_rep (jm_nodes st) (jm_texts st) 0 [JT a cJSON_Array None 0 (Fin False 0 0) None []]" "rt_live (jm_heap st) = {a}"
    by (rule demo_array)
  show ?thesis using cJSON_delete_exact [OF a(3,4)] a(1,2,5) by auto
qed

end
