(* ===== verification/Json_Pages.thy ===== *)
theory Json_Pages
  imports Cjson_Port Collect
begin

text \<open>
  The pages with the measured values and with the state of the memory (\<open>json_create.c\<close>), built with the JSON
  library. \<open>json_create_collect_items\<close> and \<open>json_create_mem\<close> are the two functions of the code; \<open>collect_page\<close>
  and \<open>mem_page\<close> are the values their texts stand for.
\<close>

section \<open>The functions\<close>

definition ascii :: "string \<Rightarrow> u8 list" where
  "ascii s = map of_char s"

text \<open>The text in \<open>char value[10]\<close>.\<close>

definition item_value :: "collect_item \<Rightarrow> u8 list option" where
  "item_value it =
     (if ci_type it = COLLECT_ITEM_TYPE_FLOAT then do {
        w \<leftarrow> modbus_get_float_abcd (le_regs (ci_value it));
        Some (snprintf 10 (fmt_f 2 (float_value w)))
      } else if ci_type it = COLLECT_ITEM_TYPE_SHORT then do {
        r \<leftarrow> rd (le_regs (ci_value it)) 0;
        Some (snprintf 10 (fmt_d (uint r)))
      } else Some [])"

fun json_add_items :: "'h cJSON_Hooks \<Rightarrow> u32 \<Rightarrow> collect_item list \<Rightarrow> 'h jmem \<Rightarrow> 'h jmem option" where
  "json_add_items hk items [] st = Some st"
| "json_add_items hk items (it # its) st = do {
     (item, st) \<leftarrow> cJSON_CreateObject hk st;
     (s, st) \<leftarrow> cJSON_CreateString hk (ascii (ci_name it)) st;
     st \<leftarrow> cJSON_AddItemToObject hk item (ascii ''name'') s st;
     value \<leftarrow> item_value it;
     (s, st) \<leftarrow> cJSON_CreateString hk value st;
     st \<leftarrow> cJSON_AddItemToObject hk item (ascii ''value'') s st;
     st \<leftarrow> cJSON_AddItemToArray items item st;
     json_add_items hk items its st
   }"

definition print_delete :: "'h cJSON_Hooks \<Rightarrow> u32 \<Rightarrow> 'h jmem \<Rightarrow> (u32 \<times> 'h jmem) option" where
  "print_delete hk root st = do {
     (json_data, st) \<leftarrow> cJSON_PrintUnformatted hk root st;
     st \<leftarrow> (if root \<noteq> 0 then cJSON_Delete hk root st else Some st);
     Some (json_data, st)
   }"

definition json_add_number :: "'h cJSON_Hooks \<Rightarrow> u32 \<Rightarrow> string \<Rightarrow> int \<Rightarrow> 'h jmem \<Rightarrow> 'h jmem option" where
  "json_add_number hk root name i st = do {
     (n, st) \<leftarrow> cJSON_CreateNumber hk (dbl_of_int i) st;
     cJSON_AddItemToObject hk root (ascii name) n st
   }"

definition json_create_collect_items :: "'h cJSON_Hooks \<Rightarrow> collect_item list \<Rightarrow> 'h jmem \<Rightarrow> (u32 \<times> 'h jmem) option" where
  "json_create_collect_items hk its st = do {
     (root, st) \<leftarrow> cJSON_CreateObject hk st;
     (items, st) \<leftarrow> cJSON_CreateArray hk st;
     st \<leftarrow> cJSON_AddItemToObject hk root (ascii ''items'') items st;
     st \<leftarrow> json_add_number hk root ''code'' 0 st;
     st \<leftarrow> json_add_number hk root ''count'' (int (length its)) st;
     st \<leftarrow> json_add_items hk items its st;
     print_delete hk root st
   }"

definition json_create_mem :: "rt_heap jmem \<Rightarrow> (u32 \<times> rt_heap jmem) option" where
  "json_create_mem st = do {
     (root, st) \<leftarrow> cJSON_CreateObject cJSON_hook_init st;
     st \<leftarrow> json_add_number cJSON_hook_init root ''code'' 0 st;
     let (total_mem, used_mem, max_used_mem) = rt_memory_info (jm_heap st);
     st \<leftarrow> json_add_number cJSON_hook_init root ''total_mem'' (uint total_mem) st;
     st \<leftarrow> json_add_number cJSON_hook_init root ''used_mem'' (uint used_mem) st;
     print_delete cJSON_hook_init root st
   }"

section \<open>The values of the pages\<close>

definition json_int :: "int \<Rightarrow> json" where
  "json_int i = JNumber i (dbl_of_int i)"

definition item_json :: "collect_item \<Rightarrow> json" where
  "item_json it = JObject [(ascii ''name'', JString (ascii (ci_name it))), (ascii ''value'', JString (the (item_value it)))]"

definition collect_page :: "collect_item list \<Rightarrow> json" where
  "collect_page its = JObject [(ascii ''items'', JArray (map item_json its)), (ascii ''code'', json_int 0),
     (ascii ''count'', json_int (int (length its)))]"

definition mem_page :: "u32 \<Rightarrow> u32 \<Rightarrow> json" where
  "mem_page tm um = JObject [(ascii ''code'', json_int 0), (ascii ''total_mem'', json_int (uint tm)),
     (ascii ''used_mem'', json_int (uint um))]"

text \<open>What building an item asks for.\<close>

definition item_cost :: "collect_item \<Rightarrow> nat" where
  "item_cost it = length (ci_name it) + length (the (item_value it)) + 490"

definition item_ok :: "collect_item \<Rightarrow> bool" where
  "item_ok it \<longleftrightarrow> (\<exists>v. item_value it = Some v \<and> cstr v \<and> length v \<le> 9) \<and> cstr (ascii (ci_name it)) \<and> length (ci_name it) < 2 ^ 30"

lemma length_ascii [simp]: "length (ascii s) = length s"
  by (simp add: ascii_def)

lemma number_value: "\<bar>i\<bar> < 2 ^ 31 \<Longrightarrow> dbl_to_int (dbl_of_int i) = Some i"
  by (auto simp: dbl_to_int_def dbl_of_int_def mag_num_def mag_den_def signed_def)

section \<open>Building the pages\<close>

lemma jt_eqI: "jt_type t = jt_type u \<Longrightarrow> jt_vs t = jt_vs u \<Longrightarrow> jt_int t = jt_int u \<Longrightarrow> jt_dbl t = jt_dbl u \<Longrightarrow>
    map tree_json (jt_kids t) = map tree_json (jt_kids u) \<Longrightarrow> 
    map (str_text \<circ> jt_str) (jt_kids t) = map (str_text \<circ> jt_str) (jt_kids u) \<Longrightarrow> tree_json t = tree_json u"
proof -
  assume a: "jt_type t = jt_type u" "jt_vs t = jt_vs u" "jt_int t = jt_int u" "jt_dbl t = jt_dbl u"
    "map tree_json (jt_kids t) = map tree_json (jt_kids u)" "map (str_text \<circ> jt_str) (jt_kids t) = map (str_text \<circ> jt_str) (jt_kids u)"
  have "map (\<lambda>k. (str_text (jt_str k), tree_json k)) ts = zip (map (str_text \<circ> jt_str) ts) (map tree_json ts)" for ts
    by (simp add: zip_map_map zip_same_conv_map)
  then show ?thesis using a by (subst (1 2) tree_json.simps) simp
qed

lemma tree_json_with_name [simp]: "tree_json (with_name s t) = tree_json t"
  by (rule jt_eqI) simp_all

lemma printable_append: "printable (ts @ us) \<longleftrightarrow> printable ts \<and> printable us"
  by (induction ts) auto

text \<open>What building and printing the page asks for in all.\<close>

definition page_cost :: "collect_item list \<Rightarrow> nat" where
  "page_cost its = 534 + sum_list (map item_cost its) + json_cost False 0 (collect_page its)"

context json_alloc
begin

lemma add_number_ok:
  assumes b: "built b st0 [p] st" and i: "\<bar>i\<bar> < 2 ^ 31" and c: "length s + 143 \<le> b" "length s < 2 ^ 30"
  obtains n st' where "json_add_number hk (jt_addr p) s i st = Some st'"
    "built (b - (length s + 143)) st0 [add_kid p n] st'" "printable [n]" "tree_json n = json_int i"
    "str_ok (jt_str n) \<longleftrightarrow> cstr (ascii s)" "str_text (jt_str n) = ascii s"
proof -
  obtain r st1 where r: "cJSON_CreateNumber hk (dbl_of_int i) st = Some (r, st1)" "r \<noteq> 0"
    "built (b - 91) st0 (JT r 3 None i (dbl_of_int i) None [] # [p]) st1"
    by (rule create_number_ok [OF b _ number_value [OF i]]) (use c in simp_all)
  obtain k st' where k: "cJSON_AddItemToObject hk (jt_addr p) (ascii s) (jt_addr (JT r 3 None i (dbl_of_int i) None [])) st1 = Some st'"
    "built (b - 91 - (length (ascii s) + 52)) st0 [add_kid p (with_name (Some (k, ascii s)) (JT r 3 None i (dbl_of_int i) None []))] st'"
    by (rule add_to_object_ok [OF r(3), where s = "ascii s"]) (use c in simp_all)
  let ?n = "JT r 3 None i (dbl_of_int i) (Some (k, ascii s)) []"
  have "tree_json ?n = json_int i" by (simp add: tree_json.simps json_int_def)
  moreover have "printable [?n]" using i by (simp add: dbl_of_int_ok)
  ultimately show thesis using r(1) k
    by (intro that [of st' ?n]) (simp_all add: json_add_number_def with_name_def str_ok_def add.commute)
qed

lemma add_string_ok:
  assumes b: "built b st0 (p # ts) st" and c: "length v + length s + 195 \<le> b" "length s < 2 ^ 30" "length v < 2 ^ 30"
  obtains n r st1 st' where "cJSON_CreateString hk v st = Some (r, st1)" "cJSON_AddItemToObject hk (jt_addr p) (ascii s) r st1 = Some st'"
    "built (b - (length v + length s + 195)) st0 (add_kid p n # ts) st'" "printable [n] \<longleftrightarrow> cstr v" "tree_json n = JString v"
    "str_ok (jt_str n) \<longleftrightarrow> cstr (ascii s)" "str_text (jt_str n) = ascii s"
proof -
  obtain r q st1 where r: "cJSON_CreateString hk v st = Some (r, st1)" "r \<noteq> 0"
    "built (b - (length v + 143)) st0 (JT r 4 (Some (q, v)) 0 (Fin False 0 0) None [] # p # ts) st1"
    by (rule create_string_ok [OF b, of v]) (use c in simp_all)
  obtain k st' where k: "cJSON_AddItemToObject hk (jt_addr p) (ascii s) (jt_addr (JT r 4 (Some (q, v)) 0 (Fin False 0 0) None [])) st1 = Some st'"
    "built (b - (length v + 143) - (length (ascii s) + 52)) st0 (add_kid p (with_name (Some (k, ascii s)) (JT r 4 (Some (q, v)) 0 (Fin False 0 0) None [])) # ts) st'"
    by (rule add_to_object_ok [OF r(3), where s = "ascii s"]) (use c in simp_all)
  let ?n = "JT r 4 (Some (q, v)) 0 (Fin False 0 0) (Some (k, ascii s)) []"
  have "tree_json ?n = JString v" by (simp add: tree_json.simps)
  moreover have "printable [?n] \<longleftrightarrow> cstr v" by (simp add: str_ok_def)
  ultimately show thesis using r(1) k
    by (intro that [of r st1 st' ?n]) (simp_all add: with_name_def str_ok_def ac_simps)
qed

text \<open>One item of the page.\<close>

lemma add_item_ok:
  assumes b: "built b st0 [p] st" and kids: "jt_kids p = i # ks" and it: "item_ok it" and c: "item_cost it \<le> b"
  obtains item st1 st2 r st3 st4 s st5 n st' where "cJSON_CreateObject hk st = Some (item, st1)"
    "cJSON_CreateString hk (ascii (ci_name it)) st1 = Some (r, st2)" "cJSON_AddItemToObject hk item (ascii ''name'') r st2 = Some st3"
    "cJSON_CreateString hk (the (item_value it)) st3 = Some (s, st4)" "cJSON_AddItemToObject hk item (ascii ''value'') s st4 = Some st5"
    "cJSON_AddItemToArray (jt_addr i) item st5 = Some st'" "built (b - item_cost it) st0 [with_kids (add_kid i n # ks) p] st'"
    "printable [n]" "tree_json n = item_json it"
proof -
  note it' = it [unfolded item_ok_def]
  have c': "length (ci_name it) + length (the (item_value it)) + 490 \<le> b" "length (the (item_value it)) \<le> 9" "cstr (the (item_value it))"
    using c it' by (auto simp: item_cost_def)
  obtain item st1 where item: "cJSON_CreateObject hk st = Some (item, st1)" "built (b - 91) st0 (JT item 6 None 0 (Fin False 0 0) None [] # [p]) st1"
    by (rule create_object_ok [OF b]) (use c' in simp_all)
  let ?t = "JT item 6 None 0 (Fin False 0 0) None []"
  have nm: "length (ascii (ci_name it)) + length ''name'' + 195 \<le> b - 91" "length (ascii (ci_name it)) < 2 ^ 30" "length ''name'' < 2 ^ 30"
    using c' it' by simp_all
  obtain n1 r st2 st3 where n1: "cJSON_CreateString hk (ascii (ci_name it)) st1 = Some (r, st2)"
    "cJSON_AddItemToObject hk (jt_addr ?t) (ascii ''name'') r st2 = Some st3"
    "built (b - 91 - (length (ascii (ci_name it)) + length ''name'' + 195)) st0 (add_kid ?t n1 # [p]) st3"
    "printable [n1] \<longleftrightarrow> cstr (ascii (ci_name it))" "tree_json n1 = JString (ascii (ci_name it))"
    "str_ok (jt_str n1) \<longleftrightarrow> cstr (ascii ''name'')" "str_text (jt_str n1) = ascii ''name''"
    by (rule add_string_ok [OF item(2) nm(1,3,2)])
  have vl: "length (the (item_value it)) + length ''value'' + 195 \<le> b - 91 - (length (ascii (ci_name it)) + length ''name'' + 195)"
    "length (the (item_value it)) < 2 ^ 30" "length ''value'' < 2 ^ 30" using c' by simp_all
  obtain n2 s st4 st5 where n2: "cJSON_CreateString hk (the (item_value it)) st3 = Some (s, st4)"
    "cJSON_AddItemToObject hk (jt_addr (add_kid ?t n1)) (ascii ''value'') s st4 = Some st5"
    "built (b - 91 - (length (ascii (ci_name it)) + length ''name'' + 195) - (length (the (item_value it)) + length ''value'' + 195)) st0
      (add_kid (add_kid ?t n1) n2 # [p]) st5"
    "printable [n2] \<longleftrightarrow> cstr (the (item_value it))" "tree_json n2 = JString (the (item_value it))"
    "str_ok (jt_str n2) \<longleftrightarrow> cstr (ascii ''value'')" "str_text (jt_str n2) = ascii ''value''"
    by (rule add_string_ok [OF n1(3) vl(1,3,2)])
  let ?n = "add_kid (add_kid ?t n1) n2"
  obtain st' where st': "cJSON_AddItemToArray (jt_addr i) (jt_addr ?n) st5 = Some st'"
    "built (b - 91 - (length (ascii (ci_name it)) + length ''name'' + 195) - (length (the (item_value it)) + length ''value'' + 195)) st0
      [with_kids (add_kid i ?n # ks) p] st'"
    by (rule built_add_first [OF n2(3) kids])
  have "cstr (ascii ''name'')" "cstr (ascii ''value'')" by (simp_all add: ascii_def)
  then have "printable [?n]" using n1(4,6) n2(4,6) it' c' by simp
  moreover have "tree_json ?n = item_json it" using n1(5,7) n2(5,7) by (subst tree_json.simps) (simp add: item_json_def)
  moreover have "b - 91 - (length (ascii (ci_name it)) + length ''name'' + 195) - (length (the (item_value it)) + length ''value'' + 195) =
      b - item_cost it" by (simp add: item_cost_def)
  note st' [unfolded this]
  ultimately show thesis using item(1) n1(1,2) n2(1,2)
    by (intro that [of item st1 r st2 st3 s st4 st5 st' ?n]) (simp_all only: add_kid_sel jtree.sel)
qed

lemma add_items_ok:
  assumes "built b st0 [p] st" "jt_kids p = i # ks" "list_all item_ok its" "sum_list (map item_cost its) \<le> b"
    "printable [p]" "jt_type p = 6" "jt_type i = 5"
  shows "\<exists>p' i' st'. json_add_items hk (jt_addr i) its st = Some st' \<and> built (b - sum_list (map item_cost its)) st0 [p'] st' \<and>
    printable [p'] \<and> jt_addr p' = jt_addr p \<and> jt_type p' = 6 \<and> jt_kids p' = i' # ks \<and> jt_str i' = jt_str i \<and>
    jt_type i' = 5 \<and> map tree_json (jt_kids i') = map tree_json (jt_kids i) @ map item_json its"
  using assms
proof (induction its arbitrary: b p i st)
  case Nil
  then show ?case by (intro exI [of _ p] exI [of _ i] exI [of _ st]) simp
next
  case (Cons it its)
  have it: "item_ok it" "item_cost it \<le> b" using Cons.prems by simp_all
  obtain item st1 st2 r st3 st4 s st5 n st' where run: "cJSON_CreateObject hk st = Some (item, st1)"
    "cJSON_CreateString hk (ascii (ci_name it)) st1 = Some (r, st2)" "cJSON_AddItemToObject hk item (ascii ''name'') r st2 = Some st3"
    "cJSON_CreateString hk (the (item_value it)) st3 = Some (s, st4)" "cJSON_AddItemToObject hk item (ascii ''value'') s st4 = Some st5"
    "cJSON_AddItemToArray (jt_addr i) item st5 = Some st'"
    and b: "built (b - item_cost it) st0 [with_kids (add_kid i n # ks) p] st'" and n: "printable [n]" "tree_json n = item_json it"
    by (rule add_item_ok [OF Cons.prems(1,2) it])
  obtain v where "item_value it = Some v" using it(1) by (auto simp: item_ok_def)
  then have "json_add_items hk (jt_addr i) (it # its) st = json_add_items hk (jt_addr (add_kid i n)) its st'" using run by simp
  moreover have "printable [with_kids (add_kid i n # ks) p]" using Cons.prems n(1) by (simp add: printable_append)
  moreover have "sum_list (map item_cost its) \<le> b - item_cost it" using Cons.prems(4) by simp
  ultimately show ?case using Cons.IH [OF b with_kids_sel(5)] Cons.prems(3,6,7) n(2) by simp
qed


lemma collect_page_ok:
  assumes ok: "jm_ok st0" and room: "room b (jm_heap st0)" and its: "list_all item_ok its" "length its < 2 ^ 31"
    and c: "page_cost its \<le> b" "b < 2 ^ 31"
  shows "\<exists>r st'. json_create_collect_items hk its st0 = Some (r, st') \<and> r \<noteq> 0 \<and> jm_ok st' \<and> r \<notin> lv st0 \<and>
    lv st' = insert r (lv st0) \<and> jm_nodes st' = jm_nodes st0 \<and>
    jm_texts st' = (jm_texts st0)(r \<mapsto> json_text False 0 (collect_page its))"
proof -
  have c': "534 + sum_list (map item_cost its) + json_cost False 0 (collect_page its) \<le> b" using c(1) by (simp add: page_cost_def)
  obtain a st1 where a: "cJSON_CreateObject hk st0 = Some (a, st1)" "a \<noteq> 0"
    "built (b - 91) st0 [JT a 6 None 0 (Fin False 0 0) None []] st1"
    by (rule create_object_ok [OF built_start [OF ok room]]) (use c' in simp_all)
  obtain i st2 where i: "cJSON_CreateArray hk st1 = Some (i, st2)"
    "built (b - 91 - 91) st0 [JT i 5 None 0 (Fin False 0 0) None [], JT a 6 None 0 (Fin False 0 0) None []] st2"
    by (rule create_array_ok [OF a(3)]) (use c' in simp_all)
  let ?p = "JT a 6 None 0 (Fin False 0 0) None []" and ?i = "JT i 5 None 0 (Fin False 0 0) None []"
  obtain k st3 where k: "cJSON_AddItemToObject hk (jt_addr ?p) (ascii ''items'') (jt_addr ?i) st2 = Some st3"
    "built (b - 91 - 91 - (length (ascii ''items'') + 52)) st0 [add_kid ?p (with_name (Some (k, ascii ''items'')) ?i)] st3"
    by (rule add_to_object_ok [OF i(2), where s = "ascii ''items''"]) (use c' in simp_all)
  let ?j = "with_name (Some (k, ascii ''items'')) ?i"
  obtain n1 st4 where n1: "json_add_number hk (jt_addr (add_kid ?p ?j)) ''code'' 0 st3 = Some st4"
    "built (b - 91 - 91 - (length (ascii ''items'') + 52) - (length ''code'' + 143)) st0 [add_kid (add_kid ?p ?j) n1] st4"
    "printable [n1]" "tree_json n1 = json_int 0" "str_ok (jt_str n1) \<longleftrightarrow> cstr (ascii ''code'')" "str_text (jt_str n1) = ascii ''code''"
    by (rule add_number_ok [OF k(2), of 0 "''code''"]) (use c' in simp_all)
  let ?q = "add_kid (add_kid ?p ?j) n1"
  obtain n2 st5 where n2: "json_add_number hk (jt_addr ?q) ''count'' (int (length its)) st4 = Some st5"
    "built (b - 91 - 91 - (length (ascii ''items'') + 52) - (length ''code'' + 143) - (length ''count'' + 143)) st0 [add_kid ?q n2] st5"
    "printable [n2]" "tree_json n2 = json_int (int (length its))" "str_ok (jt_str n2) \<longleftrightarrow> cstr (ascii ''count'')" "str_text (jt_str n2) = ascii ''count''"
    by (rule add_number_ok [OF n1(2), of "int (length its)" "''count''"]) (use c' its in simp_all)
  have b5: "built (b - 534) st0 [add_kid ?q n2] st5" using n2(2) by simp
  have cs: "cstr (ascii ''items'')" "cstr (ascii ''code'')" "cstr (ascii ''count'')" by (simp_all add: ascii_def)
  have pr: "printable [add_kid ?q n2]" using n1(3,5) n2(3,5) cs by (simp add: str_ok_def)
  have le: "sum_list (map item_cost its) \<le> b - 534" using c' by simp
  obtain p' i' st6 where p': "json_add_items hk (jt_addr ?j) its st5 = Some st6" "built (b - 534 - sum_list (map item_cost its)) st0 [p'] st6"
    "printable [p']" "jt_addr p' = a" "jt_type p' = 6" "jt_kids p' = [i', n1, n2]" "jt_str i' = Some (k, ascii ''items'')"
    "jt_type i' = 5" "map tree_json (jt_kids i') = map item_json its"
    using add_items_ok [OF b5 _ its(1) le pr, of ?j "[n1, n2]"] by (auto simp del: printable.simps)
  have page: "tree_json p' = collect_page its"
    using p'(5-9) n1(4,6) n2(4,6) by (simp add: tree_json.simps [of p'] tree_json.simps [of i'] collect_page_def)
  have fin: "json_cost False 0 (tree_json p') \<le> b - 534 - sum_list (map item_cost its)" "b - 534 - sum_list (map item_cost its) < 2 ^ 31"
    using c' c(2) page by simp_all
  obtain r st7 st8 where r: "cJSON_PrintUnformatted hk (jt_addr p') st6 = Some (r, st7)" "cJSON_Delete hk (jt_addr p') st7 = Some st8"
    "r \<noteq> 0" "jm_ok st8" "r \<notin> lv st0" "lv st8 = insert r (lv st0)" "jm_nodes st8 = jm_nodes st0"
    "jm_texts st8 = (jm_texts st0)(r \<mapsto> json_text False 0 (tree_json p'))"
    by (rule print_and_delete [OF p'(2,3) fin])
  have "json_create_collect_items hk its st0 = Some (r, st8)"
    using a(1,2) i(1) k(1) n1(1) n2(1) p'(1,4) r(1,2) by (simp add: json_create_collect_items_def print_delete_def)
  then show ?thesis using r(3-8) page by auto
qed

end

lemma uint_small: "unat (x :: u32) < 2 ^ 31 \<Longrightarrow> \<bar>uint x\<bar> < 2 ^ 31"
proof -
  assume "unat x < 2 ^ 31"
  then have "int (unat x) < int (2 ^ 31)" by (simp only: of_nat_less_iff)
  then show ?thesis by simp
qed

lemma used_small: "rt_ok sz h \<Longrightarrow> unat (used_mem h) \<le> unat sz + 12"
  using used_total_bound [of h "heap_blocks h"] by (simp add: rt_ok_def heap_ok_def heap_wf_def end_off_def)

lemma int_cost:
  assumes "\<bar>i\<bar> < 2 ^ 31"
  shows "json_cost fmt d (json_int i) \<le> 115" "length (json_text fmt d (json_int i)) \<le> 63"
proof -
  have "number_size i (dbl_of_int i) \<le> 64" by (simp add: number_size_def)
  moreover have "length (number_text i (dbl_of_int i)) + 1 \<le> number_size i (dbl_of_int i)"
    using assms by (intro number_text_fits dbl_of_int_ok) simp
  ultimately show "json_cost fmt d (json_int i) \<le> 115" "length (json_text fmt d (json_int i)) \<le> 63"
    by (simp_all add: json_int_def)
qed

lemma mem_cost:
  assumes "\<bar>uint tm\<bar> < 2 ^ 31" "\<bar>uint um\<bar> < 2 ^ 31"
  shows "json_cost False d (mem_page tm um) \<le> 959"
proof -
  have "length (quote_text (ascii ''code'')) = 6" "length (quote_text (ascii ''total_mem'')) = 11" "length (quote_text (ascii ''used_mem'')) = 10"
    by (simp_all add: quote_text_def escape_text_def escape_one_def ascii_def)
  moreover have "json_cost False (d + 1) (json_int 0) \<le> 115" "length (json_text False (d + 1) (json_int 0)) \<le> 63"
    by (rule int_cost; simp)+
  moreover note int_cost [OF assms(1), of False "d + 1"] int_cost [OF assms(2), of False "d + 1"]
  ultimately show ?thesis by (simp add: mem_page_def object_size_def)
qed

text \<open>The page about the memory, on the kernel allocator; the statistics are those at the moment they are read.\<close>

lemma mem_page_ok:
  assumes ok: "rt_json.jm_ok sz st0" and room: "rt_room b (jm_heap st0)"
    and mem: "unat sz < 2 ^ 30" and c: "1500 \<le> b" "b < 2 ^ 31"
  shows "\<exists>r st' h1. json_create_mem st0 = Some (r, st') \<and> r \<noteq> 0 \<and> rt_json.jm_ok sz st' \<and> r \<notin> rt_json.lv st0 \<and>
    rt_json.lv st' = insert r (rt_json.lv st0) \<and> jm_nodes st' = jm_nodes st0 \<and>
    rt_ok sz h1 \<and> rt_live (jm_heap st0) \<subseteq> rt_live h1 \<and>
    jm_texts st' = (jm_texts st0)(r \<mapsto> json_text False 0 (mem_page sz (used_mem h1)))"
proof -
  obtain a st1 where a: "cJSON_CreateObject cJSON_hook_init st0 = Some (a, st1)" "a \<noteq> 0"
    "rt_json.built sz (b - 91) st0 [JT a 6 None 0 (Fin False 0 0) None []] st1"
    by (rule rt_json.create_object_ok [OF rt_json.built_start [OF ok room]]) (use c in simp_all)
  let ?p = "JT a 6 None 0 (Fin False 0 0) None []"
  obtain n1 st2 where n1: "json_add_number cJSON_hook_init (jt_addr ?p) ''code'' 0 st1 = Some st2"
    "rt_json.built sz (b - 91 - (length ''code'' + 143)) st0 [add_kid ?p n1] st2"
    "printable [n1]" "tree_json n1 = json_int 0" "str_ok (jt_str n1) \<longleftrightarrow> cstr (ascii ''code'')" "str_text (jt_str n1) = ascii ''code''"
    by (rule rt_json.add_number_ok [OF a(3), of 0 "''code''"]) (use c in simp_all)
  define h1 where "h1 = jm_heap st2"
  have h1: "rt_ok sz h1" "rt_live (jm_heap st0) \<subseteq> rt_live h1" using n1(2) by (auto simp: rt_json.built_def rt_json.jm_ok_def rt_json.lv_def h1_def)
  then have "unat (mem_size_aligned h1) < 2 ^ 31" "unat (used_mem h1) < 2 ^ 31" using used_small [of sz h1] mem by (auto simp: rt_ok_def)
  then have mem': "\<bar>uint (mem_size_aligned h1)\<bar> < 2 ^ 31" "\<bar>uint (used_mem h1)\<bar> < 2 ^ 31" by (blast intro: uint_small)+
  let ?q = "add_kid ?p n1"
  obtain n2 st3 where n2: "json_add_number cJSON_hook_init (jt_addr ?q) ''total_mem'' (uint (mem_size_aligned h1)) st2 = Some st3"
    "rt_json.built sz (b - 91 - (length ''code'' + 143) - (length ''total_mem'' + 143)) st0 [add_kid ?q n2] st3"
    "printable [n2]" "tree_json n2 = json_int (uint (mem_size_aligned h1))" "str_ok (jt_str n2) \<longleftrightarrow> cstr (ascii ''total_mem'')"
    "str_text (jt_str n2) = ascii ''total_mem''"
    by (rule rt_json.add_number_ok [OF n1(2) mem'(1), of "''total_mem''"]) (use c in simp_all)
  let ?r = "add_kid ?q n2"
  obtain n3 st4 where n3: "json_add_number cJSON_hook_init (jt_addr ?r) ''used_mem'' (uint (used_mem h1)) st3 = Some st4"
    "rt_json.built sz (b - 91 - (length ''code'' + 143) - (length ''total_mem'' + 143) - (length ''used_mem'' + 143)) st0 [add_kid ?r n3] st4"
    "printable [n3]" "tree_json n3 = json_int (uint (used_mem h1))" "str_ok (jt_str n3) \<longleftrightarrow> cstr (ascii ''used_mem'')"
    "str_text (jt_str n3) = ascii ''used_mem''"
    by (rule rt_json.add_number_ok [OF n2(2) mem'(2), of "''used_mem''"]) (use c in simp_all)
  let ?t = "add_kid ?r n3"
  have page: "tree_json ?t = mem_page sz (used_mem h1)"
    using n1(4,6) n2(4,6) n3(4,6) h1(1) by (subst tree_json.simps) (simp add: mem_page_def rt_ok_def)
  have b4: "rt_json.built sz (b - 541) st0 [?t] st4" using n3(2) by simp
  have fin: "json_cost False 0 (tree_json ?t) \<le> b - 541" "b - 541 < 2 ^ 31" using mem_cost [OF mem', of 0] c h1(1) unfolding page by (simp_all add: rt_ok_def)
  have pr: "printable [?t]" using n1(3,5) n2(3,5) n3(3,5) by (simp add: ascii_def)
  obtain r st5 st6 where r: "cJSON_PrintUnformatted cJSON_hook_init (jt_addr ?t) st4 = Some (r, st5)" "cJSON_Delete cJSON_hook_init (jt_addr ?t) st5 = Some st6"
    "r \<noteq> 0" "rt_json.jm_ok sz st6" "r \<notin> rt_json.lv st0" "rt_json.lv st6 = insert r (rt_json.lv st0)" "jm_nodes st6 = jm_nodes st0"
    "jm_texts st6 = (jm_texts st0)(r \<mapsto> json_text False 0 (tree_json ?t))"
    by (rule rt_json.print_and_delete [OF b4 pr fin])
  have "json_create_mem st0 = Some (r, st6)"
    using a(1,2) n1(1) n2(1) n3(1) r(1,2) by (simp add: json_create_mem_def print_delete_def rt_memory_info_def h1_def)
  then show ?thesis using r(3-8) page h1 by auto
qed

section \<open>The values shown\<close>

text \<open>A shown value is the start of the text of a number, and never needs escaping.\<close>

lemma item_value_ok:
  assumes "length (ci_value it) = 4"
  obtains v where "item_value it = Some v" "length v \<le> 9" "list_all num_char v"
proof -
  have len: "2 \<le> length (le_regs (ci_value it))" using assms by simp
  then obtain a b rs where r: "le_regs (ci_value it) = a # b # rs" by (cases "le_regs (ci_value it)" rule: list.exhaust) (auto simp: Suc_le_length_iff)
  define v where "v = (if ci_type it = COLLECT_ITEM_TYPE_FLOAT then snprintf 10 (fmt_f 2 (float_value (push_bit 16 (ucast a) + ucast b)))
    else if ci_type it = COLLECT_ITEM_TYPE_SHORT then snprintf 10 (fmt_d (uint a)) else [])"
  have "item_value it = Some v" by (simp add: item_value_def v_def r modbus_get_float_abcd_def rd_def)
  moreover have "length v \<le> 9" by (simp add: v_def snprintf_def)
  moreover have "list_all num_char v" using fmt_chars by (auto simp: v_def snprintf_def list_all_iff dest: in_set_takeD)
  ultimately show thesis by (rule that)
qed

lemma num_char_plain: "num_char c \<Longrightarrow> c \<noteq> 0 \<and> c \<noteq> 37 \<and> c > 31 \<and> c \<noteq> 34 \<and> c \<noteq> 92"
  by (auto simp: num_char_def c_isdigit_def word_less_nat_alt word_le_nat_alt)

lemma escape_plain: "(\<And>c. c \<in> set s \<Longrightarrow> c > 31 \<and> c \<noteq> 34 \<and> c \<noteq> 92) \<Longrightarrow> quote_text s = 34 # s @ [34]"
proof -
  have "(\<And>c. c \<in> set s \<Longrightarrow> c > 31 \<and> c \<noteq> 34 \<and> c \<noteq> 92) \<Longrightarrow> escape_text s = s"
    by (induction s) (auto simp: escape_text_def escape_one_def)
  then show "(\<And>c. c \<in> set s \<Longrightarrow> c > 31 \<and> c \<noteq> 34 \<and> c \<noteq> 92) \<Longrightarrow> quote_text s = 34 # s @ [34]" by (simp add: quote_text_def)
qed

text \<open>The names of the items are those of the table.\<close>

lemma collect_ok_items:
  assumes "collect_ok its" "it \<in> set its"
  shows "ci_name it \<in> {''Ua'', ''Ub'', ''Uc'', ''DO1'', ''DO2''}" "length (ci_value it) = 4"
proof -
  have "ci_name it \<in> ci_name ` set its" using assms(2) by (rule imageI)
  also have "\<dots> = set (map ci_name its)" by simp
  also have "map ci_name its = map (fst \<circ> (\<lambda>c. (ci_name c, ci_type c, ci_addr c))) its" by simp
  also have "\<dots> = map fst (map (\<lambda>c. (ci_name c, ci_type c, ci_addr c)) collect_items)"
    using assms(1) by (simp only: collect_ok_def map_map [symmetric])
  finally show "ci_name it \<in> {''Ua'', ''Ub'', ''Uc'', ''DO1'', ''DO2''}" by (simp add: collect_items_def)
  show "length (ci_value it) = 4" using assms by (simp add: collect_ok_def)
qed

lemma item_text:
  assumes "collect_ok its" "it \<in> set its"
  obtains n v where "ascii (ci_name it) = n" "item_value it = Some v" "item_ok it" "length n \<le> 3" "length v \<le> 9"
    "quote_text n = 34 # n @ [34]" "quote_text v = 34 # v @ [34]" "37 \<notin> set n" "37 \<notin> set v"
proof -
  obtain v where v: "item_value it = Some v" "length v \<le> 9" "list_all num_char v"
    by (rule item_value_ok [OF collect_ok_items(2) [OF assms]])
  have vp: "c \<noteq> 0 \<and> c \<noteq> 37 \<and> c > 31 \<and> c \<noteq> 34 \<and> c \<noteq> 92" if "c \<in> set v" for c using v(3) that num_char_plain by (auto simp: list_all_iff)
  have np: "c \<noteq> 0 \<and> c \<noteq> 37 \<and> c > 31 \<and> c \<noteq> 34 \<and> c \<noteq> 92" if "c \<in> set (ascii (ci_name it))" for c
    using that collect_ok_items(1) [OF assms] by (auto simp: ascii_def)
  have "length (ci_name it) \<le> 3" using collect_ok_items(1) [OF assms] by auto
  moreover have "item_ok it" unfolding item_ok_def using v vp np \<open>length (ci_name it) \<le> 3\<close> by auto
  ultimately show thesis using v vp np by (intro that [OF refl v(1)] escape_plain) auto
qed

text \<open>The size of the page and of what making it asks for.\<close>

lemma quote_names:
  "quote_text (ascii ''name'') = 34 # ascii ''name'' @ [34]" "quote_text (ascii ''value'') = 34 # ascii ''value'' @ [34]"
  "quote_text (ascii ''items'') = 34 # ascii ''items'' @ [34]" "quote_text (ascii ''code'') = 34 # ascii ''code'' @ [34]"
  "quote_text (ascii ''count'') = 34 # ascii ''count'' @ [34]"
  by (simp_all add: quote_text_def escape_text_def escape_one_def ascii_def)

lemma item_page:
  assumes "collect_ok its" "it \<in> set its"
  shows "json_cost False d (item_json it) \<le> 446" "length (json_text False d (item_json it)) \<le> 34"
    "37 \<notin> set (json_text False d (item_json it))" "item_cost it \<le> 502" "item_ok it"
proof -
  obtain n v where i: "ascii (ci_name it) = n" "item_value it = Some v" "item_ok it" "length n \<le> 3" "length v \<le> 9"
    "quote_text n = 34 # n @ [34]" "quote_text v = 34 # v @ [34]" "37 \<notin> set n" "37 \<notin> set v" by (rule item_text [OF assms])
  have "length (ci_name it) \<le> 3" using i(1,4) by auto
  then show "item_cost it \<le> 502" using i(2,5) by (simp add: item_cost_def)
  show "item_ok it" by (rule i(3))
  have j: "item_json it = JObject [(ascii ''name'', JString n), (ascii ''value'', JString v)]" by (simp add: item_json_def i(1,2))
  show "json_cost False d (item_json it) \<le> 446" using i(4,5) by (simp add: j i(6,7) object_size_def quote_names)
  show "length (json_text False d (item_json it)) \<le> 34" using i(4,5) by (simp add: j i(6,7) quote_names tabs_def)
  show "37 \<notin> set (json_text False d (item_json it))" using i(8,9) by (simp add: j i(6,7) quote_names tabs_def) (simp add: ascii_def)
qed

lemma sum_list_le: "(\<And>x. x \<in> set xs \<Longrightarrow> f x \<le> (k :: nat)) \<Longrightarrow> sum_list (map f xs) \<le> length xs * k"
  by (induction xs) (simp_all add: add_mono)

lemma join_text_set: "set (join_text sep ss) \<subseteq> set sep \<union> (\<Union>s \<in> set ss. set s)"
  by (induction ss) auto

lemma number_chars: "list_all num_char (number_text i d)"
  using fmt_chars num_charI [of 48] by (simp add: number_text_def c_isdigit_def)

lemma collect_page_size:
  assumes "collect_ok its"
  shows "page_cost its \<le> 6600" "length (json_text False 0 (collect_page its)) \<le> 400" "37 \<notin> set (json_text False 0 (collect_page its))"
    "list_all item_ok its" "length its = 5"
proof -
  note p = item_page [OF assms]
  show len: "length its = 5" using assms by (rule collect_ok_length)
  show "list_all item_ok its" using p(5) by (simp add: list_all_iff)
  define vs where "vs = map (json_text False (0 + 1 + 1)) (map item_json its)"
  have vs: "length vs = 5" by (simp add: vs_def len)
  have sz: "sum_list (map (json_cost False (0 + 1 + 1)) (map item_json its)) \<le> 5 * 446" "sum_list (map item_cost its) \<le> 5 * 502"
    "sum_list (map (\<lambda>s. length s + 2) vs) \<le> 5 * 36"
    using sum_list_le [of "map item_json its" "json_cost False (0 + 1 + 1)" 446] sum_list_le [of its item_cost 502]
      sum_list_le [of vs "\<lambda>s. length s + 2" 36] p by (auto simp: len vs_def)
  have n: "json_cost False (0 + 1) (json_int i) \<le> 115" "length (json_text False (0 + 1) (json_int i)) \<le> 63" if "\<bar>i\<bar> < 2 ^ 31" for i
    by (rule int_cost [OF that])+
  have arr: "length (join_text [44] vs) + 3 \<le> 185" using array_text_fits [of False vs] sz(3) by (simp add: array_size_def)
  show "page_cost its \<le> 6600"
    using sz n [of 0] n [of 5] arr
    by (simp add: page_cost_def collect_page_def object_size_def array_size_def quote_names len vs_def)
  show "length (json_text False 0 (collect_page its)) \<le> 400"
    using n [of 0] n [of 5] arr by (simp add: collect_page_def quote_names tabs_def len vs_def)
  have "37 \<notin> set (join_text [44] vs)" using join_text_set [of "[44]" vs] p(3) by (auto simp: vs_def)
  moreover have "37 \<notin> set (json_text False d (json_int i))" for d i
    using number_chars [of i "dbl_of_int i"] num_char_plain [of 37] by (auto simp: json_int_def list_all_iff)
  ultimately show "37 \<notin> set (json_text False 0 (collect_page its))"
    by (simp add: collect_page_def quote_names tabs_def vs_def) (simp add: ascii_def)
qed

text \<open>How a value of type \<open>float\<close> appears: rounded to two decimals, and cut off after nine characters.\<close>

lemma float_item:
  assumes "ci_type it = COLLECT_ITEM_TYPE_FLOAT" "modbus_get_float_abcd (le_regs (ci_value it)) = Some w" "float_value w = Fin s m e"
  shows "item_value it = Some (take 9 (sign_text s @ fixed_text 2 (rdiv (100 * mag_num m e) (mag_den e))))"
  using assms by (simp add: item_value_def snprintf_def fmt_f_def mult.commute)

lemma near_le: "2 * \<bar>x - y\<bar> \<le> d \<Longrightarrow> x \<le> y + (d :: int)"
  by arith

lemma hundredth_le: "q \<le> 100 * m + d \<Longrightarrow> 100 * n \<le> q \<Longrightarrow> 0 \<le> d \<Longrightarrow> n \<le> m + (d :: int)"
  by arith

lemma dec_text_long: "10 ^ k \<le> n \<Longrightarrow> k < length (dec_text n)"
proof (induction k arbitrary: n)
  case (Suc k)
  then have "10 ^ k \<le> n div 10" "\<not> n < 10" by (simp_all add: div_le_mono [of "10 ^ k * 10" n 10, simplified] mult.commute) (metis Suc.prems le_trans not_less one_le_numeral one_le_power power_Suc mult.right_neutral mult_le_mono2)
  then show ?case using Suc.IH [of "n div 10"] by (subst dec_text.simps) simp
qed (simp add: dec_text.simps)

definition demo_item :: "u32 \<Rightarrow> collect_item" where
  "demo_item w = \<lparr>ci_name = ''Ua'', ci_value = le_bytes [ucast (drop_bit 16 w), ucast w], ci_type = COLLECT_ITEM_TYPE_FLOAT, ci_addr = 0\<rparr>"

lemma pad_two: "pad_text 2 k = [48 + word_of_nat (k div 10 mod 10), 48 + word_of_nat (k mod 10)]"
  by (simp add: numeral_2_eq_2)



text \<open>
  A measured value of a thousand million or more is shown as a smaller number: the text breaks off inside the digits before the
  point, so that what is shown has nine digits and looks like a whole number.
\<close>

theorem large_value_shown_smaller:
  assumes "ci_type it = COLLECT_ITEM_TYPE_FLOAT" "modbus_get_float_abcd (le_regs (ci_value it)) = Some w" "float_value w = Fin False m e"
    and "10 ^ 9 * mag_den e \<le> mag_num m e"
  shows "\<exists>n. int n * int (mag_den e) \<le> int (mag_num m e) + int (mag_den e) \<and> 10 ^ 9 \<le> n \<and> 10 \<le> length (dec_text n) \<and>
    item_value it = Some (take 9 (dec_text n))"
proof -
  define q where "q = rdiv (100 * mag_num m e) (mag_den e)"
  have den: "0 < mag_den e" by (simp add: mag_den_def)
  have "10 ^ 11 * mag_den e \<le> 100 * mag_num m e" using assms(4) by simp
  then have "10 ^ 11 \<le> 100 * mag_num m e div mag_den e" using den by (simp add: less_eq_div_iff_mult_less_eq)
  also have "\<dots> \<le> q" by (simp add: q_def rdiv_def Let_def)
  finally have n: "10 ^ 9 \<le> q div 100" by simp
  have "2 * \<bar>int q * int (mag_den e) - int (100 * mag_num m e)\<bar> \<le> int (mag_den e)" using den unfolding q_def by (rule rdiv_nearest)
  from near_le [OF this] have a: "int q * int (mag_den e) \<le> 100 * int (mag_num m e) + int (mag_den e)" by (simp only: of_nat_mult of_nat_numeral)
  have "100 * (q div 100) * mag_den e \<le> q * mag_den e" by (intro mult_le_mono1) simp
  then have "int (100 * (q div 100) * mag_den e) \<le> int (q * mag_den e)" by (simp only: of_nat_le_iff)
  then have "100 * (int (q div 100) * int (mag_den e)) \<le> int q * int (mag_den e)" by (simp only: of_nat_mult of_nat_numeral mult.assoc)
  then have "int (q div 100) * int (mag_den e) \<le> int (mag_num m e) + int (mag_den e)" by (rule hundredth_le [OF a]) simp
  moreover have len: "10 \<le> length (dec_text (q div 100))" using dec_text_long [OF n] by simp
  moreover have "item_value it = Some (take 9 (dec_text (q div 100)))"
    using float_item [OF assms(1-3)] len unfolding q_def [symmetric] by (simp add: fixed_text_def sign_text_def)
  ultimately show ?thesis using n by blast
qed

theorem large_value_shown_smaller_witness:
  "item_value (demo_item 0x4E6E6B28) = Some (ascii ''100000000'') \<and> float_value 0x4E6E6B28 = Fin False 15625000 6 \<and>
     mag_num 15625000 6 = 10 ^ 9 * mag_den 6"
proof -
  have v: "modbus_get_float_abcd (le_regs (ci_value (demo_item 0x4E6E6B28))) = Some 0x4E6E6B28"
    by (simp add: demo_item_def modbus_get_float_abcd_def rd_def)
  have f: "float_value 0x4E6E6B28 = Fin False 15625000 6" by (simp add: float_value_def)
  have g: "10 ^ 9 * mag_den 6 \<le> mag_num 15625000 6" "mag_den 6 = 1" "mag_num 15625000 6 = 10 ^ 9" by (simp_all add: mag_den_def mag_num_def)
  obtain n where n: "int n * int (mag_den 6) \<le> int (mag_num 15625000 6) + int (mag_den 6)" "10 ^ 9 \<le> n"
    "item_value (demo_item 0x4E6E6B28) = Some (take 9 (dec_text n))"
    using large_value_shown_smaller [OF _ v f g(1)] by (auto simp: demo_item_def)
  have "n = 1000000000 \<or> n = 1000000001" using n(1,2) g(2,3) by auto
  moreover have "dec_text 100000000 = ascii ''100000000''"
    by (simp add: dec_text.simps [of 100000000] dec_text.simps [of 10000000] dec_text.simps [of 1000000] dec_text.simps [of 100000]
        dec_text.simps [of 10000] dec_text.simps [of 1000] dec_text.simps [of 100] dec_text.simps [of 10] dec_text.simps [of "Suc 0"] ascii_def)
  ultimately show ?thesis using n(3) f g(2,3) by (auto simp: dec_text.simps [of 1000000000] dec_text.simps [of 1000000001] ascii_def)
qed

end
