(* ===== verification/Wn_Session.thy ===== *)
theory Wn_Session
  imports Wn_Path Json_Pages App
begin

text \<open>
  The responses of the web server: sessions (\<open>wn_session.c\<close>), types of contents (\<open>wn_mimetype.c\<close>), the CGI
  module and the pages of the application (\<open>wn_cgi.c\<close>). What is handed to \<open>send\<close> is kept in the order it is
  sent; its result is not used by the code.
\<close>

section \<open>Comparing strings\<close>

text \<open>Whether \<open>strncasecmp\<close> returns 0.\<close>

fun strncasecmp_eq :: "nat \<Rightarrow> u8 list \<Rightarrow> u8 list \<Rightarrow> bool option" where
  "strncasecmp_eq 0 s t = Some True"
| "strncasecmp_eq (Suc n) (a # s) (b # t) =
     (if tolower a \<noteq> tolower b then Some False else if a = 0 then Some True else strncasecmp_eq n s t)"
| "strncasecmp_eq (Suc n) _ _ = None"

definition str_begin_with :: "u8 list \<Rightarrow> u8 list \<Rightarrow> bool option" where
  "str_begin_with s t = do { n \<leftarrow> strlen t; strncasecmp_eq n s t }"

definition str_end_with :: "u8 list \<Rightarrow> u8 list \<Rightarrow> bool option" where
  "str_end_with s t = do {
     s_len \<leftarrow> strlen s;
     t_len \<leftarrow> strlen t;
     if s_len < t_len then Some False else strncasecmp_eq t_len (drop (s_len - t_len) s) t
   }"

text \<open>A string literal, with its terminator.\<close>

definition lit :: "string \<Rightarrow> u8 list" where
  "lit s = ascii s @ [0]"

definition mime_tables :: "(string \<times> string) list" where
  "mime_tables =
     [(''any'', ''application/binary''), (''html'', ''text/html''), (''htm'', ''text/html''), (''css'', ''text/css''),
      (''txt'', ''text/plain''), (''pdf'', ''application/pdf''), (''gif'', ''image/gif''), (''png'', ''image/png''),
      (''jpeg'', ''image/jpeg''), (''jpg'', ''image/jpeg''), (''avi'', ''video/x-msvideo''), (''mp3'', ''audio/mpeg''),
      (''ogg'', ''audio/x-oggvorbis''), (''wav'', ''audio/x-wav''), (''class'', ''application/octet-stream''),
      (''js'', ''application/x-javascript''), (''tar'', ''application/x-tar''), (''zip'', ''application/zip''),
      (''xml'', ''text/xml'')]"

fun mime_find :: "u8 list \<Rightarrow> (string \<times> string) list \<Rightarrow> string option" where
  "mime_find url [] = Some (snd (mime_tables ! 0))"
| "mime_find url ((name, ty) # ts) = do { m \<leftarrow> str_end_with url (lit name); if m then Some ty else mime_find url ts }"

text \<open>\<open>None\<close> as the argument is the null pointer.\<close>

definition mime_get_type :: "u8 list option \<Rightarrow> string option" where
  "mime_get_type url = (case url of None \<Rightarrow> Some (snd (mime_tables ! 0)) | Some u \<Rightarrow> mime_find u mime_tables)"

section \<open>Sessions\<close>

datatype webnet_connection = WEBNET_CONN_CLOSE | WEBNET_CONN_KEEPALIVE

datatype webnet_method = WEBNET_UNKNOWN | WEBNET_GET | WEBNET_POST | WEBNET_HEADER | WEBNET_HEAD | WEBNET_PUT
  | WEBNET_OPTIONS | WEBNET_PROPFIND | WEBNET_PROPPATCH | WEBNET_DELETE | WEBNET_CONNECT | WEBNET_MKCOL | WEBNET_MOVE
  | WEBNET_SUBSCRIBE | WEBNET_UNSUBSCRIBE | WEBNET_NOTIFY

datatype webnet_session_phase = WEB_PHASE_METHOD | WEB_PHASE_HEADER | WEB_PHASE_QUERY | WEB_PHASE_RESPONSE | WEB_PHASE_CLOSE

text \<open>A string field of a request is null or the characters of its own block of memory.\<close>

record webnet_request =
  rq_method :: webnet_method
  rq_result_code :: int
  rq_content_length :: int
  rq_path :: "u8 list option"
  rq_host :: "u8 list option"
  rq_user_agent :: "u8 list option"
  rq_accept_language :: "u8 list option"
  rq_cookie :: "u8 list option"
  rq_referer :: "u8 list option"
  rq_Range :: "u8 list option"
  rq_soap_action :: "u8 list option"
  rq_callback :: "u8 list option"
  rq_content_type :: "u8 list option"
  rq_query :: "u8 list option"
  rq_query_offset :: int
  rq_query_items :: "(u8 list \<times> u8 list option) list"
  rq_query_counter :: u16
  rq_connection :: webnet_connection

record webnet_session =
  ws_request :: webnet_request
  ws_buffer_offset :: nat
  ws_buffer :: "u8 list"
  ws_phase :: webnet_session_phase
  ws_sent :: "u8 list list"

definition WEBNET_SESSION_BUFSZ :: nat where "WEBNET_SESSION_BUFSZ = 4096"

definition WEBNET_SERVER :: "u8 list" where
  "WEBNET_SERVER = ascii ''Server: webnet 2.0.0'' @ [13, 10]"

definition WEBNET_ROOT :: string where "WEBNET_ROOT = ''/webnet''"

text \<open>
  \<open>webnet_session_printf\<close> with the text that the format gives. At most \<open>sizeof(buffer) - 2\<close> characters and the
  terminator are written, but the length is that of the whole text.
\<close>

definition webnet_session_printf :: "u8 list \<Rightarrow> webnet_session \<Rightarrow> webnet_session option" where
  "webnet_session_printf txt s = do {
     buf \<leftarrow> wr_n (ws_buffer s) 0 (take (WEBNET_SESSION_BUFSZ - 2) txt @ [0]);
     buf \<leftarrow> wr buf (length txt) 0;
     d \<leftarrow> rd_n buf 0 (length txt);
     Some (s\<lparr>ws_buffer := buf, ws_sent := ws_sent s @ [d]\<rparr>)
   }"

text \<open>The text of a format string without arguments: a conversion would read an argument that is not there.\<close>

fun plain_format :: "u8 list \<Rightarrow> u8 list option" where
  "plain_format [] = Some []"
| "plain_format (c # f) =
     (if c \<noteq> 37 then map_option ((#) c) (plain_format f)
      else case f of [] \<Rightarrow> None | d # f' \<Rightarrow> if d = 37 then map_option ((#) 37) (plain_format f') else None)"

definition webnet_session_write :: "u8 list \<Rightarrow> nat \<Rightarrow> webnet_session \<Rightarrow> webnet_session option" where
  "webnet_session_write data n s = do { d \<leftarrow> rd_n data 0 n; Some (s\<lparr>ws_sent := ws_sent s @ [d]\<rparr>) }"

text \<open>\<open>rt_snprintf\<close> from a position of the buffer to its end; the length returned is that of the whole text.\<close>

definition rt_snprintf_at :: "nat \<Rightarrow> u8 list \<Rightarrow> u8 list \<Rightarrow> (nat \<times> u8 list) option" where
  "rt_snprintf_at ptr txt buf =
     (if ptr < length buf then do { buf \<leftarrow> wr_n buf ptr (take (length buf - ptr - 1) txt @ [0]); Some (ptr + length txt, buf) }
      else None)"

definition crlf :: "u8 list" where "crlf = [13, 10]"

definition str_arg :: "u8 list option \<Rightarrow> u8 list" where
  "str_arg s = (case s of None \<Rightarrow> ascii ''(NULL)'' | Some t \<Rightarrow> t)"

definition webnet_session_set_header :: "string \<Rightarrow> int \<Rightarrow> string \<Rightarrow> int \<Rightarrow> webnet_session \<Rightarrow> webnet_session option" where
  "webnet_session_set_header mimetype code title len s = do {
     let rq = ws_request s;
     (ptr, buf) \<leftarrow> rt_snprintf_at 0 (ascii ''HTTP/1.1 '' @ fmt_d code @ ascii '' '' @ ascii title @ crlf @ WEBNET_SERVER) (ws_buffer s);
     (ptr, buf) \<leftarrow> (if code = 401 then
         rt_snprintf_at ptr (ascii ''WWW-Authenticate: Basic realm='' @ str_arg (rq_host rq) @ crlf) buf
       else Some (ptr, buf));
     (ptr, buf) \<leftarrow> (if 0 \<le> len then
         rt_snprintf_at ptr (ascii ''Content-Type: '' @ ascii mimetype @ crlf @ ascii ''Content-Length: '' @ fmt_d len @ crlf @
           ascii ''Connection: '' @ ascii (if rq_connection rq = WEBNET_CONN_CLOSE then ''close'' else ''Keep-Alive'') @ crlf @ crlf) buf
       else rt_snprintf_at ptr (ascii ''Content-Type: '' @ ascii mimetype @ crlf @ ascii ''Connection: close'' @ crlf @ crlf) buf);
     webnet_session_write buf ptr (s\<lparr>ws_buffer := buf\<rparr>)
   }"

definition webnet_session_set_header_status_line :: "int \<Rightarrow> string \<Rightarrow> webnet_session \<Rightarrow> webnet_session option" where
  "webnet_session_set_header_status_line code reason_phrase s = do {
     t \<leftarrow> plain_format (snprintf 15 (ascii ''HTTP/1.1 '' @ fmt_d code @ ascii '' ''));
     s \<leftarrow> webnet_session_printf t s;
     t \<leftarrow> plain_format (ascii reason_phrase);
     s \<leftarrow> webnet_session_printf t s;
     s \<leftarrow> webnet_session_printf crlf s;
     webnet_session_printf WEBNET_SERVER s
   }"

definition badrequest_title :: "int \<Rightarrow> string" where
  "badrequest_title code =
     (if code = 304 then ''Not Modified'' else if code = 400 then ''Bad Request'' else if code = 401 then ''Authorization Required''
      else if code = 403 then ''Forbidden'' else if code = 404 then ''Not Found'' else if code = 405 then ''Method Not Allowed''
      else if code = 500 then ''Internal Server Error'' else if code = 501 then ''Not Implemented''
      else if code = 505 then ''HTTP Version Not Supported'' else ''Unknown'')"

definition webnet_session_badrequest :: "int \<Rightarrow> webnet_session \<Rightarrow> webnet_session option" where
  "webnet_session_badrequest code s = do {
     let title = badrequest_title code;
     let s = (if 400 \<le> code then s\<lparr>ws_request := (ws_request s)\<lparr>rq_connection := WEBNET_CONN_CLOSE\<rparr>\<rparr> else s);
     s \<leftarrow> webnet_session_set_header ''text/html'' code title (- 1) s;
     webnet_session_printf (ascii ''<html><head><title>'' @ fmt_d code @ ascii '' '' @ ascii title @ ascii ''</title></head><body>'' @
       fmt_d code @ ascii '' '' @ ascii title @ ascii ''</body></html>'' @ crlf) s
   }"

section \<open>The pages of the application\<close>

text \<open>The session, the memory, the measured values and the rest of the application.\<close>

record web =
  web_session :: webnet_session
  web_mem :: "rt_heap jmem"
  web_items :: "collect_item list"
  web_app :: app

definition set_result_code :: "int \<Rightarrow> webnet_session \<Rightarrow> webnet_session" where
  "set_result_code code s = s\<lparr>ws_request := (ws_request s)\<lparr>rq_result_code := code\<rparr>\<rparr>"

definition cgi_head :: "webnet_session \<Rightarrow> webnet_session option" where
  "cgi_head s = do {
     mimetype \<leftarrow> mime_get_type (Some (lit ''.html''));
     webnet_session_set_header mimetype 200 ''Ok'' (- 1) (set_result_code 200 s)
   }"

text \<open>Sending the text at an address as a format string.\<close>

definition print_body :: "u32 \<Rightarrow> webnet_session \<Rightarrow> rt_heap jmem \<Rightarrow> webnet_session option" where
  "print_body body s st = do { f \<leftarrow> jm_texts st body; t \<leftarrow> plain_format f; webnet_session_printf t s }"

definition cgi_sysreset_page :: "web \<Rightarrow> web option" where
  "cgi_sysreset_page w = do {
     s \<leftarrow> cgi_head (web_session w);
     t \<leftarrow> plain_format (ascii ''{\"code\":0}'');
     s \<leftarrow> webnet_session_printf t s;
     a \<leftarrow> cgi_sysreset_handler (web_app w);
     Some (w\<lparr>web_session := s, web_app := a\<rparr>)
   }"

definition cgi_devdata_handler :: "web \<Rightarrow> web option" where
  "cgi_devdata_handler w = do {
     s \<leftarrow> cgi_head (web_session w);
     if rq_query_counter (ws_request s) \<noteq> 0 then do {
       (body, st) \<leftarrow> json_create_collect_items cJSON_hook_init (web_items w) (web_mem w);
       if body \<noteq> 0 then do {
         s \<leftarrow> print_body body s st;
         st \<leftarrow> cJSON_free cJSON_hook_init body st;
         Some (w\<lparr>web_session := s, web_mem := st\<rparr>)
       } else do {
         t \<leftarrow> plain_format (ascii ''{\"code\":-1}'');
         s \<leftarrow> webnet_session_printf t s;
         Some (w\<lparr>web_session := s, web_mem := st\<rparr>)
       }
     } else Some (w\<lparr>web_session := s\<rparr>)
   }"

definition cgi_mem_handler :: "web \<Rightarrow> web option" where
  "cgi_mem_handler w = do {
     s \<leftarrow> cgi_head (web_session w);
     (body, st) \<leftarrow> json_create_mem (web_mem w);
     s \<leftarrow> print_body body s st;
     st \<leftarrow> (if body \<noteq> 0 then cJSON_free cJSON_hook_init body st else Some st);
     Some (w\<lparr>web_session := s, web_mem := st\<rparr>)
   }"

section \<open>The CGI module\<close>

definition cgi_root :: string where "cgi_root = ''/cgi-bin/''"

text \<open>The handlers in the order \<open>webnet_create\<close> registers them.\<close>

definition webnet_create :: "(string \<times> (web \<Rightarrow> web option)) list" where
  "webnet_create = [(''sysreset'', cgi_sysreset_page), (''dev_data'', cgi_devdata_handler), (''mem'', cgi_mem_handler)]"

text \<open>\<open>strstr\<close> from a position of an array on.\<close>

function strstr :: "u8 list \<Rightarrow> nat \<Rightarrow> u8 list \<Rightarrow> nat option option" where
  "strstr s i t =
     (if take (length t) (drop i s) = t then Some (Some i)
      else if length s \<le> i then None
      else if s ! i = 0 then Some None else strstr s (i + 1) t)"
  by pat_completeness auto
termination by (relation "measure (\<lambda>(s, i, t). length s - i)") auto

declare strstr.simps [simp del]

fun cgi_search :: "u8 list \<Rightarrow> (string \<times> 'f) list \<Rightarrow> 'f option option" where
  "cgi_search cgi_name [] = Some None"
| "cgi_search cgi_name ((name, f) # items) = do {
     n \<leftarrow> strlen cgi_name;
     m \<leftarrow> strlen (lit name);
     eq \<leftarrow> (if n = m then strncasecmp_eq m cgi_name (lit name) else Some False);
     if eq then Some (Some f) else cgi_search cgi_name items
   }"

text \<open>Whether the module has finished the request, and the state.\<close>

definition webnet_module_cgi :: "(string \<times> (web \<Rightarrow> web option)) list \<Rightarrow> web \<Rightarrow> (bool \<times> web) option" where
  "webnet_module_cgi items w = do {
     path \<leftarrow> rq_path (ws_request (web_session w));
     cgi_path \<leftarrow> strstr (path @ [0]) 0 (ascii cgi_root);
     case cgi_path of None \<Rightarrow> Some (False, w)
     | Some p \<Rightarrow> do {
         f \<leftarrow> cgi_search (drop (p + length cgi_root) (path @ [0])) items;
         case f of
           Some handler \<Rightarrow> do { w \<leftarrow> handler w; Some (True, w) }
         | None \<Rightarrow> Some (False, w\<lparr>web_session := set_result_code 404 (web_session w)\<rparr>)
       }
   }"

section \<open>Files\<close>

text \<open>
  \<open>webnet_module_handle_uri\<close> up to the handling of the file: which path of the file system a request stands for.
  \<open>fs\<close> says which paths are files (\<open>stat\<close>), \<open>buf\<close> is the block of \<open>WEBNET_PATH_MAX\<close> bytes for the path. The result is whether
  the path is accepted, and the path.
\<close>

definition WEBNET_PATH_MAX :: nat where "WEBNET_PATH_MAX = 256"

definition default_files :: "string list" where
  "default_files = [[], ''/index.html'', ''/index.htm'']"

definition make_path :: "u8 list \<Rightarrow> u8 list \<Rightarrow> u8 list option" where
  "make_path txt buf = do {
     (n, buf) \<leftarrow> rt_snprintf_at 0 txt buf;
     (found, buf) \<leftarrow> str_normalize_path buf;
     Some buf
   }"

definition c_string :: "u8 list \<Rightarrow> u8 list" where
  "c_string buf = takeWhile (\<lambda>c. c \<noteq> 0) buf"

fun try_files :: "(u8 list \<Rightarrow> bool) \<Rightarrow> u8 list \<Rightarrow> string list \<Rightarrow> u8 list \<Rightarrow> (bool \<times> u8 list) option" where
  "try_files fs path [] buf = Some (False, buf)"
| "try_files fs path (d # ds) buf = do {
     buf \<leftarrow> make_path (ascii WEBNET_ROOT @ [47] @ path @ ascii d) buf;
     if fs (c_string buf) then Some (True, buf) else try_files fs path ds buf
   }"

definition uri_path :: "(u8 list \<Rightarrow> bool) \<Rightarrow> webnet_method \<Rightarrow> u8 list \<Rightarrow> u8 list \<Rightarrow> (bool \<times> u8 list) option" where
  "uri_path fs method path buf = do {
     (found, buf) \<leftarrow> (if method = WEBNET_GET \<or> method = WEBNET_POST then try_files fs path default_files buf else Some (False, buf));
     buf \<leftarrow> (if found then Some buf else make_path (ascii WEBNET_ROOT @ [47] @ path) buf);
     ok \<leftarrow> str_begin_with buf (lit WEBNET_ROOT);
     Some (ok, c_string buf)
   }"

end
