(* ===== verification/Wn_Pages.thy ===== *)
theory Wn_Pages
  imports Wn_Session
begin

text \<open>
  What the web server answers: the pages of the application from the request on, with the memory they use, and the files
  that requests reach.
\<close>

section \<open>Sending\<close>

lemma printf_ok:
  assumes "length (ws_buffer s) = 4096" "length txt \<le> 4094"
  shows "webnet_session_printf txt s =
    Some (s\<lparr>ws_buffer := txt @ 0 # drop (length txt + 1) (ws_buffer s), ws_sent := ws_sent s @ [txt]\<rparr>)"
  using assms by (simp add: webnet_session_printf_def WEBNET_SESSION_BUFSZ_def access_simps wr_def)

text \<open>A text of 4096 characters or more makes \<open>webnet_session_printf\<close> write behind its buffer.\<close>

lemma printf_overflow:
  assumes "length (ws_buffer s) = 4096" "4096 \<le> length txt"
  shows "webnet_session_printf txt s = None"
  using assms by (simp add: webnet_session_printf_def WEBNET_SESSION_BUFSZ_def wr_n_def wr_def)

lemma plain_format_id: "37 \<notin> set f \<Longrightarrow> plain_format f = Some f"
  by (induction f) auto

lemma snprintf_at_ok:
  "ptr + length txt < length buf \<Longrightarrow>
     rt_snprintf_at ptr txt buf = Some (ptr + length txt, take ptr buf @ txt @ 0 # drop (ptr + length txt + 1) buf)"
  by (simp add: rt_snprintf_at_def access_simps)

lemma snprintf_twice:
  assumes "length a + length b < length buf"
  shows "rt_snprintf_at 0 a buf = Some (length a, a @ 0 # drop (length a + 1) buf)"
    "rt_snprintf_at (length a) b (a @ 0 # drop (length a + 1) buf) = Some (length a + length b, a @ b @ 0 # drop (length a + length b + 1) buf)"
  using assms snprintf_at_ok [of 0 a buf] snprintf_at_ok [of "length a" b "a @ 0 # drop (length a + 1) buf"] by (simp_all add: add.commute)

definition cgi_header :: "u8 list" where
  "cgi_header = ascii ''HTTP/1.1 200 Ok'' @ crlf @ WEBNET_SERVER @ ascii ''Content-Type: text/html'' @ crlf @ ascii ''Connection: close'' @ crlf @ crlf"

lemma fmt_200: "fmt_d 200 = ascii ''200''"
  by (simp add: fmt_d_def sign_text_def dec_text.simps [of 200] dec_text.simps [of 20] dec_text.simps [of 2] ascii_def)

lemma mime_html: "mime_get_type (Some (lit ''.html'')) = Some ''text/html''"
  by (simp add: mime_get_type_def mime_tables_def str_end_with_def lit_def ascii_def tolower_def)

lemma cgi_head_ok:
  assumes "length (ws_buffer s) = 4096"
  obtains s' where "cgi_head s = Some s'" "length (ws_buffer s') = 4096" "ws_sent s' = ws_sent s @ [cgi_header]"
    "ws_request s' = (ws_request s)\<lparr>rq_result_code := 200\<rparr>" "ws_phase s' = ws_phase s" "ws_buffer_offset s' = ws_buffer_offset s"
proof -
  define a b where "a = ascii ''HTTP/1.1 '' @ fmt_d 200 @ ascii '' '' @ ascii ''Ok'' @ crlf @ WEBNET_SERVER"
    and "b = ascii ''Content-Type: '' @ ascii ''text/html'' @ crlf @ ascii ''Connection: close'' @ crlf @ crlf"
  have len: "length a + length b = 85" by (simp add: a_def b_def fmt_200 crlf_def WEBNET_SERVER_def)
  have head: "cgi_header = a @ b" by (simp add: cgi_header_def a_def b_def fmt_200 ascii_def)
  let ?buf = "a @ b @ 0 # drop (length a + length b + 1) (ws_buffer s)"
  have "rd_n ?buf 0 (length a + length b) = Some cgi_header" using assms len by (simp add: head rd_n_def)
  then have run: "cgi_head s = Some ((set_result_code 200 s)\<lparr>ws_buffer := ?buf, ws_sent := ws_sent s @ [cgi_header]\<rparr>)"
    using snprintf_twice [of a b "ws_buffer s"] assms len
    by (simp add: cgi_head_def mime_html webnet_session_set_header_def set_result_code_def webnet_session_write_def a_def [symmetric] b_def [symmetric])
  show thesis by (rule that [OF run]) (use assms len in \<open>simp_all add: set_result_code_def\<close>)
qed

section \<open>The page with the measured values\<close>

lemma cgi_route:
  assumes "rq_path (ws_request (web_session w)) = Some (ascii ''/cgi-bin/dev_data'')"
  shows "webnet_module_cgi webnet_create w = do { w \<leftarrow> cgi_devdata_handler w; Some (True, w) }"
proof -
  have "strstr (ascii ''/cgi-bin/dev_data'' @ [0]) 0 (ascii cgi_root) = Some (Some 0)"
    by (subst strstr.simps) (simp add: ascii_def cgi_root_def)
  moreover have "cgi_search (drop (0 + length cgi_root) (ascii ''/cgi-bin/dev_data'' @ [0])) webnet_create = Some (Some cgi_devdata_handler)"
    by (simp add: cgi_root_def ascii_def webnet_create_def lit_def tolower_def)
  ultimately show ?thesis by (simp add: webnet_module_cgi_def assms)
qed

lemma devdata_ok:
  assumes mem: "jmem_ok (web_mem w)" "rt_room 6600 (jm_heap (web_mem w))" and its: "collect_ok (web_items w)"
    and buf: "length (ws_buffer (web_session w)) = WEBNET_SESSION_BUFSZ" and q: "rq_query_counter (ws_request (web_session w)) \<noteq> 0"
  shows "\<exists>w'. cgi_devdata_handler w = Some w' \<and> web_items w' = web_items w \<and> web_app w' = web_app w \<and>
    ws_sent (web_session w') = ws_sent (web_session w) @ [cgi_header, json_text False 0 (collect_page (web_items w))] \<and>
    ws_request (web_session w') = (ws_request (web_session w))\<lparr>rq_result_code := 200\<rparr> \<and>
    jmem_ok (web_mem w') \<and> rt_live (jm_heap (web_mem w')) = rt_live (jm_heap (web_mem w)) \<and>
    jm_nodes (web_mem w') = jm_nodes (web_mem w) \<and> jm_texts (web_mem w') = jm_texts (web_mem w)"
proof -
  let ?st = "web_mem w"
  obtain s where s: "cgi_head (web_session w) = Some s" "length (ws_buffer s) = 4096" "ws_sent s = ws_sent (web_session w) @ [cgi_header]"
    "ws_request s = (ws_request (web_session w))\<lparr>rq_result_code := 200\<rparr>"
    using buf by (auto simp: WEBNET_SESSION_BUFSZ_def elim: cgi_head_ok [of "web_session w"])
  define sz where "sz = mem_size_aligned (jm_heap ?st)"
  have ok: "rt_json.jm_ok sz ?st" using mem(1) by (simp add: jmem_ok_rt sz_def)
  note page = collect_page_size [OF its]
  obtain r st where r: "json_create_collect_items cJSON_hook_init (web_items w) ?st = Some (r, st)" "r \<noteq> 0" "rt_json.jm_ok sz st"
    "r \<notin> rt_json.lv ?st" "rt_json.lv st = insert r (rt_json.lv ?st)" "jm_nodes st = jm_nodes ?st"
    "jm_texts st = (jm_texts ?st)(r \<mapsto> json_text False 0 (collect_page (web_items w)))"
    using rt_json.collect_page_ok [OF ok mem(2) page(4) _ page(1)] page(5) by auto
  have "r \<in> rt_json.lv st" using r(5) by simp
  then obtain st2 where st2: "cJSON_free cJSON_hook_init r st = Some st2" "rt_json.dropped sz {r} st st2"
    by (rule rt_json.free_ok [OF r(3)])
  have fresh: "jm_nodes ?st r = None" "jm_texts ?st r = None" using rt_json.jm_ok_fresh [OF ok r(4)] by auto
  have mem': "rt_json.jm_ok sz st2" "rt_json.lv st2 = rt_json.lv ?st" "jm_nodes st2 = jm_nodes ?st" "jm_texts st2 = jm_texts ?st"
    using st2(2) r(4-7) fresh by (auto simp: rt_json.dropped_def fun_eq_iff)
  let ?page = "json_text False 0 (collect_page (web_items w))"
  let ?s = "s\<lparr>ws_buffer := ?page @ 0 # drop (length ?page + 1) (ws_buffer s), ws_sent := ws_sent s @ [?page]\<rparr>"
  have "print_body r s st = Some ?s"
    using r(7) plain_format_id [OF page(3)] printf_ok [OF s(2), of ?page] page(2) by (simp add: print_body_def)
  then have "cgi_devdata_handler w = Some (w\<lparr>web_session := ?s, web_mem := st2\<rparr>)"
    using s(1,4) q r(1,2) st2(1) by (simp add: cgi_devdata_handler_def)
  then show ?thesis using s(3,4) mem' by (simp add: jmem_ok_rt rt_json.lv_def)
qed

section \<open>The page as the client sees it\<close>

lemma zero_float: "fmt_f 2 (float_value 0) = ascii ''0.00''"
  by (simp add: fmt_f_def float_value_def mag_num_def rdiv_def fixed_text_def sign_text_def numeral_2_eq_2 dec_text.simps [of 0] ascii_def)

lemma zero_short: "fmt_d 0 = ascii ''0''"
  by (simp add: fmt_d_def sign_text_def dec_text.simps [of 0] ascii_def)

lemma first_page:
  "json_text False 0 (collect_page collect_items) =
     ascii ''{\"items\":[{\"name\":\"Ua\",\"value\":\"0.00\"},{\"name\":\"Ub\",\"value\":\"0.00\"},{\"name\":\"Uc\",\"value\":\"0.00\"},'' @
     ascii ''{\"name\":\"DO1\",\"value\":\"0\"},{\"name\":\"DO2\",\"value\":\"0\"}],\"code\":0,\"count\":5}''"
proof -
  have v: "item_value \<lparr>ci_name = n, ci_value = [0, 0, 0, 0], ci_type = 0, ci_addr = a\<rparr> = Some (ascii ''0.00'')"
    "item_value \<lparr>ci_name = n, ci_value = [0, 0, 0, 0], ci_type = 1, ci_addr = a\<rparr> = Some (ascii ''0'')" for n a
    by (simp_all add: item_value_def modbus_get_float_abcd_def rd_def COLLECT_ITEM_TYPE_FLOAT_def COLLECT_ITEM_TYPE_SHORT_def
        zero_float zero_short snprintf_def ascii_def)
  have n: "number_text 0 (dbl_of_int 0) = ascii ''0''" "number_text 5 (dbl_of_int 5) = ascii ''5''"
    by (simp_all add: number_text_def dbl_is_zero_def dbl_of_int_def prints_as_int_def near_int_def dbl_le_int_def dbl_ge_int_def signed_def
        mag_num_def mag_den_def fmt_d_def sign_text_def dec_text.simps [of 5] ascii_def)
  show ?thesis
    by (simp add: collect_page_def collect_items_def item_json_def json_int_def v n quote_text_def escape_text_def escape_one_def ascii_def tabs_def)
qed

definition demo_request :: webnet_request where
  "demo_request = \<lparr>rq_method = WEBNET_UNKNOWN, rq_result_code = 200, rq_content_length = 0, rq_path = None, rq_host = None,
     rq_user_agent = None, rq_accept_language = None, rq_cookie = None, rq_referer = None, rq_Range = None, rq_soap_action = None,
     rq_callback = None, rq_content_type = None, rq_query = None, rq_query_offset = 0, rq_query_items = [], rq_query_counter = 0,
     rq_connection = WEBNET_CONN_CLOSE\<rparr>"

text \<open>A session that waits for a request, with an empty bus and the items as they are at the start.\<close>

definition demo_web :: "rt_heap \<Rightarrow> web" where
  "demo_web h = \<lparr>web_session = \<lparr>ws_request = demo_request, ws_buffer_offset = 0, ws_buffer = replicate 4096 0,
       ws_phase = WEB_PHASE_METHOD, ws_sent = []\<rparr>,
     web_mem = \<lparr>jm_heap = h, jm_nodes = Map.empty, jm_texts = Map.empty\<rparr>, web_items = collect_items, web_app = demo_app demo_empty_bus\<rparr>"

lemma demo_web_ready:
  obtains h where "rt_system_heap_init (\<lambda>_. 0) 0x20000000 0x20004000 = Some (Inr h)" "rt_room 6600 h" "jmem_ok (web_mem (demo_web h))" "rt_live h = {}"
proof -
  have un: "unat (0x20000000 :: u32) = 0x20000000" "unat (0x20004000 :: u32) = 0x20004000" by simp_all
  obtain h where h: "rt_system_heap_init (\<lambda>_. 0) 0x20000000 0x20004000 = Some (Inr h)"
    using heap_init_ok [of "0x20000000" "0x20004000" "\<lambda>_. 0"] unfolding un by auto
  have f: "heap_ok h" "heap_view h = Map.empty" by (rule fresh_heap [OF h]; simp add: un)+
  have "rt_room (unat (0x20004000 :: u32) div 4 * 4 - (unat (0x20000000 :: u32) + 3) div 4 * 4 - 12) h"
    by (rule fresh_room [OF h]) (simp_all add: un)
  then have "rt_room 6600 h" by (rule rt_room_mono) (simp add: un)
  then show thesis using h f by (intro that) (simp_all add: jmem_ok_def demo_web_def rt_live_def)
qed

section \<open>Files\<close>

lemma path_names_last: "47 \<notin> set n \<Longrightarrow> n \<noteq> [] \<Longrightarrow> path_names n = [(n, False)]"
proof -
  assume n: "47 \<notin> set n" "n \<noteq> []"
  then have "takeWhile (\<lambda>c. c \<noteq> 47) n = n" "dropWhile (\<lambda>c. c \<noteq> 47) n = []" by (auto simp: takeWhile_eq_all_conv)
  then show ?thesis using n by (subst path_names.simps) simp
qed

lemma path_names_more:
  assumes "47 \<notin> set n"
  shows "path_names (n @ 47 # t) = (n, True) # path_names (dropWhile (\<lambda>c. c = 47) t)"
proof -
  have "takeWhile (\<lambda>c. c \<noteq> 47) (n @ 47 # t) = n" "dropWhile (\<lambda>c. c \<noteq> 47) (n @ 47 # t) = 47 # t"
    using assms by (auto simp: takeWhile_append2 takeWhile_append dropWhile_append)
  then show ?thesis by (subst path_names.simps) simp
qed

lemma strncasecmp_prefix: "strncasecmp_eq (length t) (t @ s) (t @ u) = Some True"
  by (induction t) auto

text \<open>
  (C40) Requests reach files outside the directory of the web server. The test behind the normalisation compares only the first
  characters: for every directory whose name starts with that of the web directory, the request \<open>/../webnetX/name\<close> is served
  with the file \<open>/webnetX/name\<close>.
\<close>

theorem uri_leaves_root:
  assumes "47 \<notin> set x" "0 \<notin> set x" "47 \<notin> set f" "0 \<notin> set f" "f \<noteq> []" "f \<noteq> [46]" "f \<noteq> [46, 46]" "length x + length f \<le> 230"
    and "length buf = WEBNET_PATH_MAX" "fs (ascii ''/webnet'' @ x @ 47 # f)"
  shows "uri_path fs WEBNET_GET (ascii ''/../webnet'' @ x @ 47 # f) buf = Some (True, ascii ''/webnet'' @ x @ 47 # f)"
proof -
  let ?p = "ascii ''/webnet'' @ x @ 47 # f" and ?w = "[119, 101, 98, 110, 101, 116] :: u8 list"
  let ?s = "ascii WEBNET_ROOT @ [47] @ (ascii ''/../webnet'' @ x @ 47 # f)"
  have s: "?s = [] @ 47 # (?w @ 47 # (47 # [46, 46] @ 47 # (?w @ x) @ 47 # f))" by (simp add: ascii_def WEBNET_ROOT_def)
  have p: "?p = 47 # ?w @ x @ 47 # f" by (simp add: ascii_def)
  have f: "dropWhile (\<lambda>c. c = 47) f = f" using assms(3,5) by (cases f) auto
  have "path_names ?s = [([], True), (?w, True), ([46, 46], True), (?w @ x, True), (f, False)]"
    unfolding s using assms(1,3,5) path_names_more [of "[]"] path_names_more [of ?w] path_names_more [of "[46, 46]"] path_names_more [of "?w @ x"]
    by (simp add: path_names_last f)
  then have r: "resolve [] (path_names ?s) = Some [([], True), (?w @ x, True), (f, False)]" using assms(6,7) by simp
  have lf: "last f \<noteq> 47" using assms(3,5) last_in_set [of f] by metis
  have t: "trim_slash (flat_path [([], True), (?w @ x, True), (f, False)]) = ?p" "flat_path [([], True), (?w @ x, True), (f, False)] \<noteq> []"
    using assms(5) lf by (simp_all add: trim_slash_def p)
  have len: "length ?s < 256" using assms(8) by (simp add: WEBNET_ROOT_def)
  have z: "0 \<notin> set ?s" using assms(2,4) by (simp add: ascii_def WEBNET_ROOT_def)
  obtain r' where n: "str_normalize_path (?s @ 0 # drop (length ?s + 1) buf) = Some (True, ?p @ 0 # r')"
    using normalize_path [OF z, of "drop (length ?s + 1) buf"] r t by auto
  have "make_path (?s @ ascii []) buf = Some (?p @ 0 # r')"
    using snprintf_at_ok [of 0 ?s buf] len assms(9) n by (simp add: make_path_def WEBNET_PATH_MAX_def ascii_def [of "[]"])
  moreover have c: "c_string (?p @ 0 # r') = ?p" using assms(2,4) by (simp add: c_string_def p takeWhile_append2 takeWhile_append)
  moreover have "str_begin_with (?p @ 0 # r') (lit WEBNET_ROOT) = Some True"
    using strncasecmp_prefix [of "ascii ''/webnet''" "x @ 47 # f @ 0 # r'" "[0]"]
    by (simp add: str_begin_with_def lit_def WEBNET_ROOT_def ascii_def)
  ultimately show ?thesis using assms(10) by (simp add: uri_path_def default_files_def)
qed

theorem uri_leaves_root_witness:
  "uri_path (\<lambda>p. p = ascii ''/webnet.bak/key'') WEBNET_GET (ascii ''/../webnet.bak/key'') (replicate 256 0) =
     Some (True, ascii ''/webnet.bak/key'')"
  using uri_leaves_root [of "ascii ''.bak''" "ascii ''key''" "replicate 256 0" "\<lambda>p. p = ascii ''/webnet.bak/key''"]
  by (simp add: ascii_def WEBNET_PATH_MAX_def)

end
