(* ===== verification/Wn_Request.thy ===== *)
theory Wn_Request
  imports Wn_Session
begin

text \<open>
  Requests to the web server: the parser of \<open>wn_request.c\<close> and the way the bytes of a connection reach it
  (\<open>wn_session.c\<close>). The parser works on the buffer of the session, in which it puts terminators; what a string function reads or writes
  beyond the buffer is undefined. The outcomes of the allocations are a list; behind its end they succeed.
\<close>

section \<open>The state\<close>

record wn =
  wn_ses :: webnet_session
  wn_alloc :: "bool list"

definition rq :: "wn \<Rightarrow> webnet_request" where
  "rq w = ws_request (wn_ses w)"

definition set_rq :: "(webnet_request \<Rightarrow> webnet_request) \<Rightarrow> wn \<Rightarrow> wn" where
  "set_rq f w = w\<lparr>wn_ses := (wn_ses w)\<lparr>ws_request := f (rq w)\<rparr>\<rparr>"

definition set_buf :: "u8 list \<Rightarrow> wn \<Rightarrow> wn" where
  "set_buf b w = w\<lparr>wn_ses := (wn_ses w)\<lparr>ws_buffer := b\<rparr>\<rparr>"

definition set_phase :: "webnet_session_phase \<Rightarrow> wn \<Rightarrow> wn" where
  "set_phase p w = w\<lparr>wn_ses := (wn_ses w)\<lparr>ws_phase := p\<rparr>\<rparr>"

definition set_offset :: "nat \<Rightarrow> wn \<Rightarrow> wn" where
  "set_offset n w = w\<lparr>wn_ses := (wn_ses w)\<lparr>ws_buffer_offset := n\<rparr>\<rparr>"

abbreviation wn_buf :: "wn \<Rightarrow> u8 list" where
  "wn_buf w \<equiv> ws_buffer (wn_ses w)"

definition wn_malloc :: "wn \<Rightarrow> bool \<times> wn" where
  "wn_malloc w = (case wn_alloc w of [] \<Rightarrow> (True, w) | b # bs \<Rightarrow> (b, w\<lparr>wn_alloc := bs\<rparr>))"

text \<open>A string in an array, and its copy in a block of its own.\<close>

definition str_at :: "u8 list \<Rightarrow> nat \<Rightarrow> u8 list option" where
  "str_at b i = do { n \<leftarrow> strlen (drop i b); Some (take n (drop i b)) }"

definition wn_strdup :: "u8 list \<Rightarrow> wn \<Rightarrow> u8 list option \<times> wn" where
  "wn_strdup s w = (let (ok, w) = wn_malloc w in (if ok then Some s else None, w))"

section \<open>Queries\<close>

definition isxdigit :: "u8 \<Rightarrow> bool" where
  "isxdigit c \<longleftrightarrow> 48 \<le> c \<and> c \<le> 57 \<or> 65 \<le> c \<and> c \<le> 70 \<or> 97 \<le> c \<and> c \<le> 102"

definition hex_value :: "u8 \<Rightarrow> u8" where
  "hex_value c = (let c = tolower c in if 48 \<le> c \<and> c \<le> 57 then c - 48 else c - 97 + 10)"

fun decode_bytes :: "u8 list \<Rightarrow> u8 list" where
  "decode_bytes [] = []"
| "decode_bytes (c # s) =
     (if c = 43 then 32 # decode_bytes s
      else case s of a # b # s' \<Rightarrow>
          if c = 37 \<and> isxdigit a \<and> isxdigit b then (hex_value a * 16 + hex_value b) # decode_bytes s' else c # decode_bytes s
        | _ \<Rightarrow> c # decode_bytes s)"

text \<open>\<open>urldecode\<close> of the string at a position, in place.\<close>

definition urldecode :: "u8 list \<Rightarrow> nat \<Rightarrow> u8 list option" where
  "urldecode q i = do { s \<leftarrow> str_at q i; wr_n q i (decode_bytes s @ [0]) }"

text \<open>The number of parameters behind the first one, as the counting loop finds them.\<close>

function count_query :: "u8 list \<Rightarrow> nat" where
  "count_query s =
     (case s of [] \<Rightarrow> 0
      | c # s' \<Rightarrow> if c = 38 then (case dropWhile (\<lambda>c. c = 38) s' of [] \<Rightarrow> 0 | d # t \<Rightarrow> 1 + count_query t) else count_query s')"
  by pat_completeness auto
termination
proof (relation "measure length")
  fix c d :: u8 and s s' t :: "u8 list"
  assume "s = c # s'" "dropWhile (\<lambda>c. c = 38) s' = d # t"
  then show "(t, s) \<in> measure length" using length_dropWhile_le [of "\<lambda>c. c = 38" s'] by simp
qed auto

declare count_query.simps [simp del]

text \<open>One parameter: the position of its value, and where the scan stops.\<close>

partial_function (option) query_value :: "u8 list \<Rightarrow> nat \<Rightarrow> nat option \<Rightarrow> (u8 list \<times> nat \<times> nat option) option" where
  "query_value q i v = do {
     c \<leftarrow> rd q i;
     if c = 38 \<or> c = 0 then Some (q, i, v)
     else if c = 61 then do {
       q \<leftarrow> wr q i 0;
       q \<leftarrow> urldecode q (i + 1);
       query_value q (i + 1) (Some (i + 1))
     } else query_value q (i + 1) v
   }"

partial_function (option) skip_amp :: "u8 list \<Rightarrow> nat \<Rightarrow> nat option" where
  "skip_amp q i = do { c \<leftarrow> rd q i; if c = 38 then skip_amp q (i + 1) else Some i }"

declare query_value.simps [code] skip_amp.simps [code]

text \<open>The loop over the parameters, which may end before all of them are filled in.\<close>

primrec query_items :: "nat \<Rightarrow> u8 list \<Rightarrow> nat \<Rightarrow> (u8 list \<times> (nat \<times> nat option) list) option" where
  "query_items 0 q i = Some (q, [])"
| "query_items (Suc k) q i = do {
     (q, j, v) \<leftarrow> query_value q i None;
     c \<leftarrow> rd q j;
     if c = 0 then Some (q, [(i, v)])
     else do {
       q \<leftarrow> wr q j 0;
       j \<leftarrow> skip_amp q (j + 1);
       c \<leftarrow> rd q j;
       if c = 0 then Some (q, [(i, v)])
       else do { (q, items) \<leftarrow> query_items k q j; Some (q, (i, v) # items) }
     }
   }"

fun read_items :: "u8 list \<Rightarrow> (nat \<times> nat option) list \<Rightarrow> (u8 list \<times> u8 list option) list option" where
  "read_items q [] = Some []"
| "read_items q ((n, v) # items) = do {
     name \<leftarrow> str_at q n;
     value \<leftarrow> (case v of None \<Rightarrow> Some None | Some i \<Rightarrow> map_option Some (str_at q i));
     rest \<leftarrow> read_items q items;
     Some ((name, value) # rest)
   }"

text \<open>\<open>rq_query\<close> is the block with its terminators.\<close>

definition parse_query :: "wn \<Rightarrow> wn option" where
  "parse_query w = (case rq_query (rq w) of
     None \<Rightarrow> Some w
   | Some q \<Rightarrow> do {
       s \<leftarrow> str_at q 0;
       if s = [] then Some w
       else do {
         let k = 1 + count_query s;
         let w = set_rq (\<lambda>r. r\<lparr>rq_query_counter := of_nat k\<rparr>) w;
         if (of_nat k :: u16) = 0 then Some w
         else do {
           let (ok, w) = wn_malloc w;
           if \<not> ok then Some (set_rq (\<lambda>r. r\<lparr>rq_result_code := 500\<rparr>) w)
           else do {
             (q, items) \<leftarrow> query_items (unat (of_nat k :: u16)) q 0;
             its \<leftarrow> read_items q items;
             Some (set_rq (\<lambda>r. r\<lparr>rq_query := Some q, rq_query_items := its\<rparr>) w)
           }
         }
       }
     })"

section \<open>The request line\<close>

definition methods :: "(string \<times> webnet_method) list" where
  "methods = [(''GET '', WEBNET_GET), (''POST '', WEBNET_POST), (''HEADER '', WEBNET_HEADER), (''HEAD '', WEBNET_HEAD),
     (''PUT '', WEBNET_PUT), (''OPTIONS '', WEBNET_OPTIONS), (''PROPFIND '', WEBNET_PROPFIND), (''PROPPATCH '', WEBNET_PROPPATCH),
     (''DELETE '', WEBNET_DELETE), (''CONNECT '', WEBNET_CONNECT), (''MKCOL '', WEBNET_MKCOL), (''MOVE '', WEBNET_MOVE),
     (''SUBSCRIBE '', WEBNET_SUBSCRIBE), (''UNSUBSCRIBE '', WEBNET_UNSUBSCRIBE), (''NOTIFY '', WEBNET_NOTIFY)]"

fun find_method :: "u8 list \<Rightarrow> (string \<times> webnet_method) list \<Rightarrow> (string \<times> webnet_method) option option" where
  "find_method b [] = Some None"
| "find_method b ((n, m) # ms) = do { e \<leftarrow> str_begin_with b (lit n); if e then Some (Some (n, m)) else find_method b ms }"

definition set_code :: "int \<Rightarrow> wn \<Rightarrow> wn" where
  "set_code c w = set_rq (\<lambda>r. r\<lparr>rq_result_code := c\<rparr>) w"

text \<open>The part of the path before a question mark is the path, the part behind it the query.\<close>

definition split_query :: "u8 list \<Rightarrow> wn \<Rightarrow> wn option" where
  "split_query path w =
     (if 63 \<in> set path then do {
        let w = set_rq (\<lambda>r. r\<lparr>rq_path := Some (takeWhile (\<lambda>c. c \<noteq> 63) path)\<rparr>) w;
        let ch = dropWhile (\<lambda>c. c = 32) (tl (dropWhile (\<lambda>c. c \<noteq> 63) path));
        let (query, w) = wn_strdup ch w;
        parse_query (set_rq (\<lambda>r. r\<lparr>rq_query := map_option (\<lambda>s. s @ [0]) query\<rparr>) w)
      } else Some (set_rq (\<lambda>r. r\<lparr>rq_path := Some path\<rparr>) w))"

definition webnet_request_parse_method :: "wn \<Rightarrow> (nat \<times> wn) option" where
  "webnet_request_parse_method w = do {
     e \<leftarrow> strstr (wn_buf w) 0 crlf;
     m \<leftarrow> find_method (wn_buf w) methods;
     case (e, m) of
       (None, _) \<Rightarrow> Some (0, w)
     | (Some _, None) \<Rightarrow> Some (0, set_code 501 w)
     | (Some _, Some (name, method)) \<Rightarrow> do {
         let w = set_rq (\<lambda>r. r\<lparr>rq_method := method\<rparr>) w;
         let n = length name;
         ch \<leftarrow> strchr (wn_buf w) n 32;
         case ch of
           None \<Rightarrow> Some (n, set_code 400 w)
         | Some i \<Rightarrow> do {
             b \<leftarrow> wr (wn_buf w) i 0;
             path \<leftarrow> str_at b n;
             let (p, w) = wn_strdup path (set_buf b w);
             path \<leftarrow> p;
             w \<leftarrow> split_query path w;
             v \<leftarrow> str_begin_with (drop (i + 1) (wn_buf w)) (lit ''HTTP/1'');
             if \<not> v then Some (i + 1, set_code 501 w)
             else do {
               e \<leftarrow> strstr (wn_buf w) (i + 1) crlf;
               j \<leftarrow> e;
               b \<leftarrow> wr_n (wn_buf w) j [0, 0];
               Some (j + 2, set_phase WEB_PHASE_HEADER (set_buf b w))
             }
           }
       }
   }"

section \<open>The header\<close>

partial_function (option) skip_spaces :: "u8 list \<Rightarrow> nat \<Rightarrow> nat option" where
  "skip_spaces b i = do { c \<leftarrow> rd b i; if c = 32 then skip_spaces b (i + 1) else Some i }"

declare skip_spaces.simps [code]

text \<open>The fields that are copied, and what is done with the copy.\<close>

definition copied_fields :: "(string \<times> (u8 list option \<Rightarrow> webnet_request \<Rightarrow> webnet_request)) list" where
  "copied_fields =
     [(''Host:'', \<lambda>s r. r\<lparr>rq_host := s\<rparr>), (''User-Agent:'', \<lambda>s r. r\<lparr>rq_user_agent := s\<rparr>),
      (''Accept-Language:'', \<lambda>s r. r\<lparr>rq_accept_language := s\<rparr>), (''Content-Type:'', \<lambda>s r. r\<lparr>rq_content_type := s\<rparr>),
      (''Referer:'', \<lambda>s r. r\<lparr>rq_referer := s\<rparr>), (''Range:'', \<lambda>s r. r\<lparr>rq_Range := s\<rparr>),
      (''Cookie:'', \<lambda>s r. r\<lparr>rq_cookie := s\<rparr>), (''SOAPACTION:'', \<lambda>s r. r\<lparr>rq_soap_action := s\<rparr>),
      (''CALLBACK:'', \<lambda>s r. r\<lparr>rq_callback := s\<rparr>)]"

fun find_field :: "u8 list \<Rightarrow> nat \<Rightarrow> (string \<times> 'f) list \<Rightarrow> (string \<times> 'f) option option" where
  "find_field b i [] = Some None"
| "find_field b i ((n, f) # fs) = do { e \<leftarrow> str_begin_with (drop i b) (lit n); if e then Some (Some (n, f)) else find_field b i fs }"

definition header_field :: "nat \<Rightarrow> wn \<Rightarrow> wn option" where
  "header_field i w = do {
     let b = wn_buf w;
     len \<leftarrow> str_begin_with (drop i b) (lit ''Content-Length:'');
     con \<leftarrow> str_begin_with (drop i b) (lit ''Connection:'');
     f \<leftarrow> find_field b i copied_fields;
     if len then do {
       j \<leftarrow> skip_spaces b (i + 15);
       n \<leftarrow> atoi b j;
       Some (set_rq (\<lambda>r. r\<lparr>rq_content_length := n\<rparr>) w)
     } else if con then do {
       j \<leftarrow> skip_spaces b (i + 11);
       close \<leftarrow> str_begin_with (drop j b) (lit ''close'');
       Some (set_rq (\<lambda>r. r\<lparr>rq_connection := if close then WEBNET_CONN_CLOSE else WEBNET_CONN_KEEPALIVE\<rparr>) w)
     } else case f of
         None \<Rightarrow> Some w
       | Some (n, g) \<Rightarrow> do {
           j \<leftarrow> skip_spaces b (i + length n);
           s \<leftarrow> str_at b j;
           let (t, w) = wn_strdup s w;
           Some (set_rq (g t) w)
         }
   }"

definition POST_BUFSZ_MAX :: int where "POST_BUFSZ_MAX = 8192"

text \<open>The empty line: what follows depends on the method and on the announced length of the body.\<close>

definition header_end :: "wn \<Rightarrow> wn option" where
  "header_end w =
     (if rq_content_length (rq w) \<noteq> 0 \<and> rq_method (rq w) = WEBNET_POST then do {
        let w = set_phase WEB_PHASE_RESPONSE w;
        t \<leftarrow> rq_content_type (rq w);
        m \<leftarrow> str_begin_with (t @ [0]) (lit ''multipart/form-data'');
        if \<not> m \<and> rq_content_length (rq w) < POST_BUFSZ_MAX then do {
          let w = set_phase WEB_PHASE_QUERY w;
          let n = rq_content_length (rq w) + 1;
          let (ok, w) = wn_malloc w;
          if n = 0 then Some (set_rq (\<lambda>r. r\<lparr>rq_query := None, rq_query_offset := 0\<rparr>) w)
          else if n < 0 \<or> \<not> ok then None
          else Some (set_rq (\<lambda>r. r\<lparr>rq_query := Some (replicate (nat n) 0), rq_query_offset := 0\<rparr>) w)
        } else Some w
      } else Some (set_phase WEB_PHASE_RESPONSE (set_code 200 w)))"

partial_function (option) header_lines :: "nat \<Rightarrow> wn \<Rightarrow> (nat \<times> wn) option" where
  "header_lines i w = do {
     e \<leftarrow> str_begin_with (drop i (wn_buf w)) (crlf @ [0]);
     if e then do { w \<leftarrow> header_end w; Some (i + 2, w) }
     else do {
       c \<leftarrow> rd (wn_buf w) i;
       if c = 0 then Some (i, w)
       else do {
         p \<leftarrow> strstr (wn_buf w) i crlf;
         case p of None \<Rightarrow> Some (i, w)
         | Some j \<Rightarrow> do {
             b \<leftarrow> wr_n (wn_buf w) j [0, 0];
             w \<leftarrow> header_field i (set_buf b w);
             header_lines (j + 2) w
           }
       }
     }
   }"

declare header_lines.simps [code]

definition webnet_request_parse_header :: "wn \<Rightarrow> (nat \<times> wn) option" where
  "webnet_request_parse_header w = header_lines 0 w"

section \<open>The body\<close>

definition webnet_request_parse_post :: "nat \<Rightarrow> wn \<Rightarrow> (nat \<times> wn) option" where
  "webnet_request_parse_post len w = (case rq_query (rq w) of
     None \<Rightarrow> Some (len, w)
   | Some q \<Rightarrow>
       if len = 0 then Some (len, w)
       else do {
         let off = rq_query_offset (rq w);
         let cl = rq_content_length (rq w);
         let n = (if off + int len > cl then cl - off else int len);
         d \<leftarrow> (if n < 0 \<or> off < 0 then None else rd_n (wn_buf w) 0 (nat n));
         q \<leftarrow> wr_n q (nat off) d;
         let w = set_rq (\<lambda>r. r\<lparr>rq_query := Some q, rq_query_offset := off + n\<rparr>) w;
         if off + n = cl then do {
           b \<leftarrow> wri (wn_buf w) cl 0;
           let w = set_buf b w;
           t \<leftarrow> rq_content_type (rq w);
           m \<leftarrow> str_begin_with (t @ [0]) (lit ''application/x-www-form-urlencoded'');
           w \<leftarrow> (if m then parse_query w else Some w);
           Some (nat n, set_phase WEB_PHASE_RESPONSE (set_code 200 w))
         } else Some (nat n, w)
       })"

section \<open>Reading\<close>

text \<open>Dropping what has been parsed: the rest moves to the front, and the bytes behind it stay as they were.\<close>

definition consume :: "nat \<Rightarrow> wn \<Rightarrow> wn option" where
  "consume n w =
     (let k = ws_buffer_offset (wn_ses w) in
      if n = 0 then Some w
      else if n < k then do {
        d \<leftarrow> rd_n (wn_buf w) n (k - n);
        b \<leftarrow> wr_n (wn_buf w) 0 d;
        Some (set_buf b (set_offset (k - n) w))
      } else Some (set_offset 0 w))"

definition in_phase :: "webnet_session_phase \<Rightarrow> (wn \<Rightarrow> (nat \<times> wn) option) \<Rightarrow> wn \<Rightarrow> wn option" where
  "in_phase p f w = (if ws_phase (wn_ses w) = p then do { (n, w) \<leftarrow> f w; consume n w } else Some w)"

text \<open>\<open>data\<close> is what \<open>recvfrom\<close> delivers, at most what fits into the buffer; an empty one is an error or the end of the connection.\<close>

definition webnet_session_handle_read :: "u8 list \<Rightarrow> wn \<Rightarrow> wn option" where
  "webnet_session_handle_read data w = do {
     w \<leftarrow> (if data = [] then Some (set_phase WEB_PHASE_CLOSE w)
       else do {
         b \<leftarrow> wr_n (wn_buf w) (ws_buffer_offset (wn_ses w)) data;
         Some (set_offset (ws_buffer_offset (wn_ses w) + length data) (set_buf b w))
       });
     if ws_buffer_offset (wn_ses w) = 0 then Some w
     else do {
       w \<leftarrow> in_phase WEB_PHASE_METHOD webnet_request_parse_method w;
       w \<leftarrow> in_phase WEB_PHASE_HEADER webnet_request_parse_header w;
       in_phase WEB_PHASE_QUERY (\<lambda>w. webnet_request_parse_post (ws_buffer_offset (wn_ses w)) w) w
     }
   }"

end
