(* ===== verification/Wn_Query.thy ===== *)
theory Wn_Query
  imports Wn_Request
begin

text \<open>
  Queries: the parameters of a query text without encoded characters are found by \<open>_webnet_request_parse_query\<close>, which cuts the text
  into strings in place.
\<close>

section \<open>Query texts\<close>

definition plain_query :: "u8 list \<Rightarrow> bool" where
  "plain_query s \<longleftrightarrow> set s \<inter> {0, 13, 32, 37, 38, 43, 61} = {}"

fun query_text :: "(u8 list \<times> u8 list) list \<Rightarrow> u8 list" where
  "query_text [] = []"
| "query_text [(a, v)] = a @ 61 # v"
| "query_text ((a, v) # ps) = a @ 61 # v @ 38 # query_text ps"

definition plain_pairs :: "(u8 list \<times> u8 list) list \<Rightarrow> bool" where
  "plain_pairs ps \<longleftrightarrow> (\<forall>(a, v) \<in> set ps. plain_query a \<and> plain_query v)"

text \<open>The text as the parser leaves it, and the positions of the strings in it.\<close>

fun query_block :: "(u8 list \<times> u8 list) list \<Rightarrow> u8 list" where
  "query_block [] = []"
| "query_block ((a, v) # ps) = a @ 0 # v @ 0 # query_block ps"

fun positions :: "nat \<Rightarrow> (u8 list \<times> u8 list) list \<Rightarrow> (nat \<times> nat option) list" where
  "positions i [] = []"
| "positions i ((a, v) # ps) = (i, Some (i + length a + 1)) # positions (i + length a + 1 + length v + 1) ps"

lemma query_text_Cons: "query_text ((a, v) # ps) = a @ 61 # v @ (if ps = [] then [] else 38 # query_text ps)"
  by (cases ps) auto

lemma query_text_start: "plain_pairs ps \<Longrightarrow> ps \<noteq> [] \<Longrightarrow> \<exists>d t. query_text ps = d # t \<and> d \<noteq> 38 \<and> d \<noteq> 0"
proof (cases ps)
  case (Cons av ps')
  obtain a v where "av = (a, v)" by (cases av)
  moreover assume "plain_pairs ps"
  ultimately show ?thesis using Cons by (cases a) (auto simp: query_text_Cons plain_pairs_def plain_query_def)
qed simp

lemma query_text_chars: "plain_pairs ps \<Longrightarrow> set (query_text ps) \<inter> {0, 13, 32, 37, 43} = {}"
proof (induction ps)
  case (Cons av ps)
  then show ?case by (cases av) (simp add: query_text_Cons plain_pairs_def plain_query_def)
qed simp

lemma count_query_run: "38 \<notin> set l \<Longrightarrow> count_query (l @ s) = count_query s"
proof (induction l)
  case (Cons c l)
  then show ?case by (subst count_query.simps) simp
qed simp

lemma count_query_pairs: "plain_pairs ps \<Longrightarrow> ps \<noteq> [] \<Longrightarrow> 1 + count_query (query_text ps) = length ps"
proof (induction ps)
  case (Cons av ps)
  obtain a v where av: "av = (a, v)" by (cases av)
  have "38 \<notin> set (a @ 61 # v)" using Cons.prems(1) by (auto simp: plain_pairs_def plain_query_def av)
  note run = count_query_run [OF this]
  show ?case
  proof (cases "ps = []")
    case True
    then show ?thesis using run [of "[]"] by (simp add: av query_text_Cons) (simp add: count_query.simps [of "[]"])
  next
    case False
    obtain d t where d: "query_text ps = d # t" "d \<noteq> 38" using query_text_start [of ps] Cons.prems(1) False by (auto simp: plain_pairs_def)
    have "count_query (38 # d # t) = 1 + count_query t" using d(2) by (subst count_query.simps) simp
    moreover have "count_query (d # t) = count_query t" using d(2) by (subst count_query.simps) simp
    ultimately show ?thesis using run [of "38 # d # t"] Cons.IH Cons.prems(1) False d(1) by (simp add: av query_text_Cons plain_pairs_def)
  qed
qed simp

section \<open>Scanning\<close>

lemma decode_step: "c \<noteq> 37 \<Longrightarrow> c \<noteq> 43 \<Longrightarrow> decode_bytes (c # s) = c # decode_bytes s"
  by (subst decode_bytes.simps(2)) (simp split: list.split del: decode_bytes.simps)

lemma decode_plain: "37 \<notin> set s \<Longrightarrow> 43 \<notin> set s \<Longrightarrow> decode_bytes s = s"
  by (induction s) (simp_all add: decode_step del: decode_bytes.simps(2))

lemma urldecode_plain:
  assumes "drop i q = s @ 0 # r" "cstr s" "37 \<notin> set s" "43 \<notin> set s"
  shows "urldecode q i = Some q"
proof -
  have i: "i < length q" using assms(1) by (cases "i < length q") auto
  have "q = take i q @ s @ 0 # r" using assms(1) append_take_drop_id [of i q] by simp
  moreover have "length q = i + length s + 1 + length r" using i arg_cong [OF assms(1), of length] by simp
  moreover have "drop (i + length (s @ [0])) q = r" using drop_add [of i q "s @ [0]" r] assms(1) by simp
  ultimately show ?thesis using assms by (simp add: urldecode_def str_at_def decode_plain wr_n_def)
qed

lemma query_value_run:
  "drop i q = l @ r \<Longrightarrow> set l \<inter> {0, 38, 61} = {} \<Longrightarrow> query_value q i x = query_value q (i + length l) x"
proof (induction l arbitrary: i)
  case (Cons c l)
  have "rd q i = Some c" "drop (i + 1) q = l @ r"
    using rd_ahead [of i q "[]" c "l @ r"] drop_add [of i q "[c]" "l @ r"] Cons.prems(1) by simp_all
  then have "query_value q i x = query_value q (i + 1) x" using Cons.prems(2) by (subst query_value.simps) auto
  then show ?case using Cons.IH [of "i + 1"] \<open>drop (i + 1) q = l @ r\<close> Cons.prems(2) by simp
qed simp

lemma query_value_pair:
  assumes d: "drop i q = a @ 61 # v @ c # r" and a: "plain_query a" "plain_query v" and c: "c = 38 \<or> c = 0"
    and s: "v @ c # r = s @ 0 # r0" "cstr s" "37 \<notin> set s" "43 \<notin> set s"
  shows "query_value q i x = Some (q[i + length a := 0], i + length a + 1 + length v, Some (i + length a + 1))"
proof -
  let ?j = "i + length a" and ?q = "q[i + length a := 0]"
  have pl: "set a \<inter> {0, 38, 61} = {}" "set v \<inter> {0, 38, 61} = {}" using a by (auto simp: plain_query_def)
  have rdj: "rd q ?j = Some 61" using rd_ahead [OF d] .
  then have j: "?j < length q" by (simp add: rd_eq_Some_iff)
  have "drop (?j + 1) q = v @ c # r" using drop_add [of i q "a @ [61]" "v @ c # r"] d by simp
  then have d2: "drop (?j + 1) ?q = v @ c # r" by simp
  have "query_value q i x = query_value q ?j x" using query_value_run [OF d pl(1)] .
  also have "\<dots> = query_value ?q (?j + 1) (Some (?j + 1))"
    using rdj j urldecode_plain [of "?j + 1" ?q s r0] d2 s by (subst query_value.simps) (simp add: wr_def)
  also have "\<dots> = query_value ?q (?j + 1 + length v) (Some (?j + 1))" using query_value_run [OF d2 pl(2)] .
  also have "\<dots> = Some (?q, ?j + 1 + length v, Some (?j + 1))" using rd_ahead [OF d2] c by (subst query_value.simps) simp
  finally show ?thesis .
qed

lemma read_positions:
  "drop i q = query_block ps @ r \<Longrightarrow> plain_pairs ps \<Longrightarrow> read_items q (positions i ps) = Some (map (\<lambda>(a, v). (a, Some v)) ps)"
proof (induction ps arbitrary: i)
  case (Cons av ps)
  obtain a v where av: "av = (a, v)" by (cases av)
  have pl: "cstr a" "cstr v" "plain_pairs ps" using Cons.prems(2) by (auto simp: plain_pairs_def plain_query_def av)
  have d: "drop i q = a @ 0 # v @ 0 # query_block ps @ r" using Cons.prems(1) by (simp add: av)
  have dv: "drop (i + length a + 1) q = v @ 0 # query_block ps @ r"
    using drop_add [of i q "a @ [0]" "v @ 0 # query_block ps @ r"] d by simp
  have dr: "drop (i + length a + 1 + length v + 1) q = query_block ps @ r"
    using drop_add [of "i + length a + 1" q "v @ [0]" "query_block ps @ r"] dv by (simp add: add.assoc)
  have "str_at q i = Some a" "str_at q (i + length a + 1) = Some v" using d dv pl(1,2) by (simp_all add: str_at_def)
  then show ?case using Cons.IH [OF dr pl(3)] by (simp add: av)
qed simp

lemma query_items_pairs:
  "plain_pairs ps \<Longrightarrow> ps \<noteq> [] \<Longrightarrow>
     query_items (length ps) (pre @ query_text ps @ 0 # r) (length pre) = Some (pre @ query_block ps @ r, positions (length pre) ps)"
proof (induction ps arbitrary: pre)
  case (Cons av ps)
  obtain a v where av: "av = (a, v)" by (cases av)
  have pl: "plain_query a" "plain_query v" "plain_pairs ps" using Cons.prems(1) by (auto simp: plain_pairs_def av)
  let ?j = "length pre + length a + 1 + length v" and ?q = "\<lambda>c t. pre @ a @ 0 # v @ c # t"
  have val: "query_value (pre @ query_text (av # ps) @ 0 # r) (length pre) None =
      Some (?q (if ps = [] then 0 else 38) (if ps = [] then r else query_text ps @ 0 # r), ?j, Some (length pre + length a + 1))"
    using query_value_pair [of "length pre" "pre @ query_text (av # ps) @ 0 # r" a v "if ps = [] then 0 else 38"
        "if ps = [] then r else query_text ps @ 0 # r" "v @ (if ps = [] then [] else 38 # query_text ps)" r None]
      pl query_text_chars [OF pl(3)]
    by (auto simp: av query_text_Cons list_update_append plain_query_def)
  have rdj: "rd (?q c t) ?j = Some c" for c t by (simp add: rd_def nth_append)
  show ?case
  proof (cases "ps = []")
    case True
    then show ?thesis using val rdj [of 0 r] by (simp add: av)
  next
    case False
    obtain d t where d: "query_text ps = d # t" "d \<noteq> 38" "d \<noteq> 0" using query_text_start [OF pl(3) False] by blast
    let ?pre = "pre @ a @ 0 # v @ [0]"
    have wr: "wr (?q 38 (query_text ps @ 0 # r)) ?j 0 = Some (?pre @ query_text ps @ 0 # r)" by (simp add: wr_def list_update_append)
    have rdd: "rd (?pre @ query_text ps @ 0 # r) (?j + 1) = Some d" by (simp add: rd_def nth_append d(1))
    have "skip_amp (?pre @ query_text ps @ 0 # r) (?j + 1) = Some (?j + 1)" using rdd d(2) by (subst skip_amp.simps) simp
    moreover have "length ?pre = ?j + 1" by simp
    then have "query_items (length ps) (?pre @ query_text ps @ 0 # r) (?j + 1) = Some (?pre @ query_block ps @ r, positions (?j + 1) ps)"
      using Cons.IH [OF pl(3) False, of ?pre] by (simp only:)
    ultimately show ?thesis using val rdj [of 38] wr rdd d(3) False by (simp add: av)
  qed
qed simp

lemma pairs_counter:
  "length ps < 65536 \<Longrightarrow> unat (of_nat (length ps) :: u16) = length ps"
  "length ps < 65536 \<Longrightarrow> ps \<noteq> [] \<Longrightarrow> (of_nat (length ps) :: u16) \<noteq> 0"
proof -
  show *: "length ps < 65536 \<Longrightarrow> unat (of_nat (length ps) :: u16) = length ps" by (simp add: unsigned_of_nat take_bit_nat_eq_self)
  assume "length ps < 65536" "ps \<noteq> []"
  then show "(of_nat (length ps) :: u16) \<noteq> 0" using * by (metis length_0_conv unat_0)
qed

text \<open>The whole function.\<close>

lemma parse_query_pairs:
  assumes "plain_pairs ps" "ps \<noteq> []" "length ps < 65536" "rq_query (rq w) = Some (query_text ps @ [0])" "wn_alloc w = []"
  shows "parse_query w = Some (set_rq (\<lambda>r. r\<lparr>rq_query := Some (query_block ps), rq_query_items := map (\<lambda>(a, v). (a, Some v)) ps,
    rq_query_counter := of_nat (length ps)\<rparr>) w)"
proof -
  have c: "cstr (query_text ps)" using query_text_chars [OF assms(1)] by auto
  have ne: "query_text ps \<noteq> []" using query_text_start [OF assms(1,2)] by auto
  note k = pairs_counter(1) [OF assms(3)] and k0 = pairs_counter(2) [OF assms(3,2)]
  have at: "str_at (query_text ps @ [0]) 0 = Some (query_text ps)" using c by (simp add: str_at_def)
  have items: "query_items (length ps) (query_text ps @ [0]) 0 = Some (query_block ps, positions 0 ps)"
    using query_items_pairs [OF assms(1,2), of "[]" "[]"] by simp
  have read: "read_items (query_block ps) (positions 0 ps) = Some (map (\<lambda>(a, v). (a, Some v)) ps)"
    using read_positions [of 0 "query_block ps" ps "[]"] assms(1) by simp
  show ?thesis using assms(4,5) at ne k0 items read count_query_pairs [OF assms(1,2)]
    by (simp add: parse_query_def k wn_malloc_def Let_def) (simp add: set_rq_def rq_def k)
qed

section \<open>The target of a request\<close>

definition target_text :: "u8 list \<Rightarrow> (u8 list \<times> u8 list) list \<Rightarrow> u8 list" where
  "target_text p ps = p @ (if ps = [] then [] else 63 # query_text ps)"

definition with_target :: "u8 list \<Rightarrow> (u8 list \<times> u8 list) list \<Rightarrow> webnet_request \<Rightarrow> webnet_request" where
  "with_target p ps r =
     (if ps = [] then r\<lparr>rq_path := Some p\<rparr>
      else r\<lparr>rq_path := Some p, rq_query := Some (query_block ps), rq_query_items := map (\<lambda>(a, v). (a, Some v)) ps,
        rq_query_counter := of_nat (length ps)\<rparr>)"

lemma with_target_method [simp]: "rq_method (with_target p ps r) = rq_method r"
  by (simp add: with_target_def)

lemma query_text_length: "length ps \<le> length (query_text ps)"
  by (induction ps) (auto simp: query_text_Cons)

lemma split_query_ok:
  assumes "63 \<notin> set p" "plain_pairs ps" "length ps < 65536" "wn_alloc w = []"
  shows "split_query (target_text p ps) w = Some (set_rq (with_target p ps) w)"
proof (cases "ps = []")
  case True
  then show ?thesis using assms(1) by (simp add: split_query_def target_text_def with_target_def set_rq_def)
next
  case False
  let ?t = "p @ 63 # query_text ps"
  have "takeWhile (\<lambda>c. c \<noteq> 63) ?t = p" "dropWhile (\<lambda>c. c \<noteq> 63) ?t = 63 # query_text ps"
    using assms(1) by (induction p) auto
  moreover have "dropWhile (\<lambda>c. c = 32) (query_text ps) = query_text ps"
    using query_text_chars [OF assms(2)] by (cases "query_text ps") auto
  moreover define w' where "w' = set_rq (\<lambda>r. r\<lparr>rq_query := Some (query_text ps @ [0])\<rparr>) (set_rq (\<lambda>r. r\<lparr>rq_path := Some p\<rparr>) w)"
  moreover have "parse_query w' = Some (set_rq (with_target p ps) w)"
    using parse_query_pairs [OF assms(2) False assms(3), of w'] assms(4) False by (simp add: w'_def set_rq_def rq_def with_target_def)
  ultimately show ?thesis using False assms(4)
    by (simp add: split_query_def target_text_def wn_strdup_def wn_malloc_def Let_def) (simp add: set_rq_def)
qed

end
