(* ===== verification/Wn_Parse.thy ===== *)
theory Wn_Parse
  imports Wn_Query
begin

text \<open>
  What the web server makes of requests: a request that arrives in one piece is understood, whatever the buffer held before; and
  requests that make the parser write outside its memory.
\<close>

section \<open>Comparing with literals\<close>

text \<open>A string that starts with a literal, whatever the case of the letters.\<close>

definition starts :: "string \<Rightarrow> u8 list \<Rightarrow> bool" where
  "starts n s \<longleftrightarrow> map tolower (take (length n) s) = map tolower (ascii n)"

lemma tolower_0 [simp]: "tolower 0 = 0"
  by (simp add: tolower_def)

lemma tolower_eq_0 [simp]: "tolower c = 0 \<longleftrightarrow> c = 0"
proof -
  have "65 \<le> c \<Longrightarrow> c \<le> 90 \<Longrightarrow> c + 32 \<noteq> 0" by (simp add: word_le_nat_alt unat_word_ariths word_unat_eq_iff)
  then show ?thesis by (auto simp: tolower_def)
qed

lemma tolower_0_eq [simp]: "0 = tolower c \<longleftrightarrow> c = 0"
  using tolower_eq_0 [of c] by (metis (no_types))

lemma strncasecmp_starts:
  "cstr t \<Longrightarrow> length t \<le> length s \<Longrightarrow>
     strncasecmp_eq (length t) s (t @ r) = Some (map tolower (take (length t) s) = map tolower t)"
proof (induction t arbitrary: s)
  case (Cons b t)
  then obtain a s' where "s = a # s'" by (cases s) auto
  then show ?case using Cons by auto
qed simp

lemma strncasecmp_cstr:
  "cstr t \<Longrightarrow> cstr l \<Longrightarrow>
     strncasecmp_eq (length t) (l @ 0 # r') (t @ r) = Some (map tolower (take (length t) l) = map tolower t)"
proof (induction t arbitrary: l)
  case (Cons b t)
  then show ?case by (cases l) auto
qed simp

lemma begin_starts: "cstr (ascii n) \<Longrightarrow> length n \<le> length s \<Longrightarrow> str_begin_with s (lit n) = Some (starts n s)"
  using strncasecmp_starts [of "ascii n" s "[0]"] by (simp add: str_begin_with_def lit_def starts_def)

lemma begin_cstr: "cstr (ascii n) \<Longrightarrow> cstr l \<Longrightarrow> str_begin_with (l @ 0 # r) (lit n) = Some (starts n l)"
  using strncasecmp_cstr [of "ascii n" l r "[0]"] by (simp add: str_begin_with_def lit_def starts_def)

lemma begin_crlf:
  "str_begin_with (13 # 10 # r) (crlf @ [0]) = Some True"
  "c \<noteq> 13 \<Longrightarrow> str_begin_with (c # r) (crlf @ [0]) = Some False"
proof -
  have "tolower c = 13 \<Longrightarrow> c = 13" for c
  proof -
    have "65 \<le> c \<Longrightarrow> c \<le> 90 \<Longrightarrow> c + 32 \<noteq> 13" by (simp add: word_le_nat_alt unat_word_ariths word_unat_eq_iff)
    then show "tolower c = 13 \<Longrightarrow> c = 13" by (auto simp: tolower_def split: if_splits)
  qed
  then show "c \<noteq> 13 \<Longrightarrow> str_begin_with (c # r) (crlf @ [0]) = Some False"
    by (auto simp: str_begin_with_def crlf_def tolower_def [of 13])
qed (simp add: str_begin_with_def crlf_def tolower_def)

lemma strstr_crlf:
  "drop i b = l @ crlf @ r \<Longrightarrow> cstr l \<Longrightarrow> 13 \<notin> set l \<Longrightarrow> strstr b i crlf = Some (Some (i + length l))"
proof (induction l arbitrary: i)
  case Nil
  then show ?case by (subst strstr.simps) (simp add: crlf_def)
next
  case (Cons c l)
  have i: "i < length b" using Cons.prems(1) by (cases "i < length b") auto
  have "b ! i = c" "drop (i + 1) b = l @ crlf @ r" using Cons.prems(1) Cons_nth_drop_Suc [OF i] by auto
  then show ?case using Cons i by (subst strstr.simps) (auto simp: crlf_def)
qed

lemma skip_spaces_at:
  "drop i b = s @ 0 # r \<Longrightarrow> skip_spaces b i = Some (i + (length s - length (dropWhile (\<lambda>c. c = 32) s)))"
proof (induction s arbitrary: i)
  case Nil
  then show ?case using rd_ahead [of i b "[]" 0 r] by (subst skip_spaces.simps) simp
next
  case (Cons c s)
  have "drop (i + 1) b = s @ 0 # r" using drop_add [of i b "[c]" "s @ 0 # r"] Cons.prems by simp
  then show ?case using Cons.IH [of "i + 1"] rd_ahead [of i b "[]" c "s @ 0 # r"] Cons.prems length_dropWhile_le [of "\<lambda>c. c = 32" s]
    by (subst skip_spaces.simps) (auto simp: Suc_diff_le)
qed

lemma drop_spaces:
  assumes "drop i b = s @ 0 # r"
  obtains j where "skip_spaces b i = Some j" "drop j b = dropWhile (\<lambda>c. c = 32) s @ 0 # r"
proof -
  define t k where "t = dropWhile (\<lambda>c. c = 32) s" and "k = takeWhile (\<lambda>c. c = 32) s"
  have s: "s = k @ t" by (simp add: t_def k_def)
  have "drop (i + length k) b = t @ 0 # r" using drop_add [of i b k "t @ 0 # r"] assms s by simp
  moreover have "length s - length t = length k" using s by simp
  ultimately show thesis using skip_spaces_at [OF assms] that [of "i + length k"] by (simp add: t_def [symmetric])
qed

section \<open>Header lines\<close>

text \<open>What a line of the header, other than \<open>Content-Length\<close>, changes in the request.\<close>

definition field_value :: "string \<Rightarrow> u8 list \<Rightarrow> u8 list" where
  "field_value n l = dropWhile (\<lambda>c. c = 32) (drop (length n) l)"

definition header_line :: "u8 list \<Rightarrow> webnet_request \<Rightarrow> webnet_request" where
  "header_line l r =
     (if starts ''Connection:'' l
      then r\<lparr>rq_connection := if starts ''close'' (field_value ''Connection:'' l) then WEBNET_CONN_CLOSE else WEBNET_CONN_KEEPALIVE\<rparr>
      else case find (\<lambda>(n, f). starts n l) copied_fields of None \<Rightarrow> r | Some (n, f) \<Rightarrow> f (Some (field_value n l)) r)"

definition header_text :: "u8 list \<Rightarrow> bool" where
  "header_text l \<longleftrightarrow> l \<noteq> [] \<and> cstr l \<and> 13 \<notin> set l \<and> \<not> starts ''Content-Length:'' l"

definition lines_text :: "u8 list list \<Rightarrow> u8 list" where
  "lines_text ls = concat (map (\<lambda>l. l @ crlf) ls)"

lemma header_line_method: "rq_method (header_line l r) = rq_method r"
  by (auto simp: header_line_def copied_fields_def)

lemma header_line_target:
  "rq_path (header_line l r) = rq_path r" "rq_query_counter (header_line l r) = rq_query_counter r"
  by (auto simp: header_line_def copied_fields_def)

lemma header_lines_target:
  "rq_path (fold header_line ls r) = rq_path r" "rq_query_counter (fold header_line ls r) = rq_query_counter r"
  by (induction ls arbitrary: r) (auto simp: header_line_target)

lemma header_lines_method: "rq_method (fold header_line ls r) = rq_method r"
  by (induction ls arbitrary: r) (auto simp: header_line_method)

lemmas wn_simps = set_rq_def rq_def set_buf_def set_phase_def set_offset_def set_code_def

lemma wn_buf_set: "wn_buf (set_rq f w) = wn_buf w" "wn_buf (set_buf b w) = b"
  by (simp_all add: wn_simps)

lemma find_field_starts:
  "drop i b = l @ 0 # r \<Longrightarrow> cstr l \<Longrightarrow> \<forall>(n, f) \<in> set fs. cstr (ascii n) \<Longrightarrow>
     find_field b i fs = Some (find (\<lambda>(n, f). starts n l) fs)"
  by (induction fs) (auto simp: begin_cstr)

lemma copied_fields_cstr: "\<forall>(n, f) \<in> set copied_fields. cstr (ascii n)"
  by (simp add: copied_fields_def ascii_def)

lemma starts_length: "starts n l \<Longrightarrow> length n \<le> length l"
  by (auto simp: starts_def ascii_def dest!: arg_cong [where f = length])

lemma after_name:
  assumes "drop i b = l @ 0 # r" "starts n l"
  shows "drop (i + length n) b = drop (length n) l @ 0 # r"
  using assms starts_length [OF assms(2)] drop_drop [of "length n" i b] by (simp add: add.commute)

lemma header_field_ok:
  assumes b: "drop i (wn_buf w) = l @ 0 # r" "cstr l" and cl: "\<not> starts ''Content-Length:'' l" and al: "wn_alloc w = []"
  shows "header_field i w = Some (set_rq (header_line l) w)"
proof -
  have lits: "cstr (ascii ''Content-Length:'')" "cstr (ascii ''Connection:'')" "cstr (ascii ''close'')" by (simp_all add: ascii_def)
  have field: "\<exists>j. skip_spaces (wn_buf w) (i + length n) = Some j \<and> drop j (wn_buf w) = field_value n l @ 0 # r" if "starts n l" for n
    by (rule drop_spaces [OF after_name [OF b(1) that]]) (simp add: field_value_def)
  have val: "cstr (field_value n l)" for n using b(2) by (auto simp: field_value_def dest: set_dropWhileD in_set_dropD)
  note first = begin_cstr [OF lits(1) b(2), of r] begin_cstr [OF lits(2) b(2), of r] find_field_starts [OF b copied_fields_cstr]
  show ?thesis
  proof (cases "starts ''Connection:'' l")
    case True
    have n: "length ''Connection:'' = 11" by simp
    obtain j where j: "skip_spaces (wn_buf w) (i + 11) = Some j" "drop j (wn_buf w) = field_value ''Connection:'' l @ 0 # r"
      using field [OF True] unfolding n by blast
    have "str_begin_with (drop j (wn_buf w)) (lit ''close'') = Some (starts ''close'' (field_value ''Connection:'' l))"
      unfolding j(2) by (rule begin_cstr [OF lits(3) val])
    then show ?thesis using True cl j by (simp add: header_field_def b(1) first header_line_def set_rq_def)
  next
    case False
    show ?thesis
    proof (cases "find (\<lambda>(n, f). starts n l) copied_fields")
      case None
      then show ?thesis using False cl by (simp add: header_field_def b(1) first header_line_def wn_simps)
    next
      case (Some nf)
      obtain n f where nf: "nf = (n, f)" by (cases nf)
      then have "starts n l" using Some by (auto simp: find_Some_iff)
      then obtain j where j: "skip_spaces (wn_buf w) (i + length n) = Some j" "drop j (wn_buf w) = field_value n l @ 0 # r" using field by blast
      have "str_at (wn_buf w) j = Some (field_value n l)" using val by (simp add: str_at_def j(2))
      then show ?thesis using j(1) Some False cl al by (simp add: header_field_def b(1) first header_line_def nf wn_strdup_def wn_malloc_def set_rq_def)
    qed
  qed
qed

lemma header_lines_ok:
  assumes "drop i (wn_buf w) = lines_text ls @ crlf @ r" "\<forall>l \<in> set ls. header_text l" "wn_alloc w = []"
    "rq_method (rq w) \<noteq> WEBNET_POST"
  shows "\<exists>b. length b = length (wn_buf w) \<and> header_lines i w =
    Some (i + length (lines_text ls) + 2,
      set_phase WEB_PHASE_RESPONSE (set_code 200 (set_rq (fold header_line ls) (set_buf b w))))"
  using assms
proof (induction ls arbitrary: i w)
  case Nil
  have "str_begin_with (drop i (wn_buf w)) (crlf @ [0]) = Some True" using Nil.prems(1) begin_crlf(1) [of r] by (simp add: lines_text_def crlf_def)
  then have "header_lines i w = Some (i + 2, set_phase WEB_PHASE_RESPONSE (set_code 200 w))"
    using Nil.prems(4) by (subst header_lines.simps) (simp add: header_end_def)
  then show ?case by (intro exI [of _ "wn_buf w"]) (simp add: lines_text_def wn_simps)
next
  case (Cons l ls)
  define j b where "j = i + length l" and "b = take j (wn_buf w) @ [0, 0] @ drop (j + 2) (wn_buf w)"
  have l: "l \<noteq> []" "cstr l" "13 \<notin> set l" "\<not> starts ''Content-Length:'' l" using Cons.prems(2) by (auto simp: header_text_def)
  let ?r = "lines_text ls @ crlf @ r"
  have d: "drop i (wn_buf w) = l @ crlf @ ?r" using Cons.prems(1) by (simp add: lines_text_def)
  have dj: "drop (j + 2) (wn_buf w) = ?r" using drop_add [of i "wn_buf w" "l @ crlf" ?r] d by (simp add: j_def crlf_def add.assoc)
  have "length (drop i (wn_buf w)) = length (l @ crlf @ ?r)" using d by simp
  then have len: "j + 2 \<le> length (wn_buf w)" by (simp add: j_def crlf_def)
  have wr: "wr_n (wn_buf w) j [0, 0] = Some b" using len by (simp add: b_def wr_n_def)
  have blen: "length b = length (wn_buf w)" using len by (simp add: b_def)
  have "take j (wn_buf w) = take i (wn_buf w) @ l" using d by (simp add: j_def take_add)
  then have di: "drop i b = l @ 0 # 0 # ?r" using len dj by (simp add: b_def j_def)
  have db: "drop (j + 2) b = ?r" using dj len by (simp add: b_def)
  obtain c l' where c: "l = c # l'" "c \<noteq> 13" "c \<noteq> 0" using l by (cases l) auto
  have "str_begin_with (drop i (wn_buf w)) (crlf @ [0]) = Some False" "rd (wn_buf w) i = Some c"
    using begin_crlf(2) [OF c(2)] rd_ahead [of i "wn_buf w" "[]" c] d c(1) by simp_all
  moreover have "strstr (wn_buf w) i crlf = Some (Some j)" using strstr_crlf [OF d l(2,3)] by (simp add: j_def)
  moreover have "header_field i (set_buf b w) = Some (set_rq (header_line l) (set_buf b w))"
    using header_field_ok [of i "set_buf b w" l] di l(2,4) Cons.prems(3) by (simp add: set_buf_def)
  ultimately have step: "header_lines i w = header_lines (j + 2) (set_rq (header_line l) (set_buf b w))"
    using c(3) wr by (subst header_lines.simps) simp
  obtain b' where "length b' = length b" "header_lines (j + 2) (set_rq (header_line l) (set_buf b w)) =
      Some (j + 2 + length (lines_text ls) + 2,
        set_phase WEB_PHASE_RESPONSE (set_code 200 (set_rq (fold header_line ls) (set_buf b' (set_rq (header_line l) (set_buf b w))))))"
    using Cons.IH [of "j + 2" "set_rq (header_line l) (set_buf b w)"] db Cons.prems(2-4) by (auto simp: wn_simps header_line_method)
  then show ?case using step blen
    by (intro exI [of _ b']) (simp add: wn_simps lines_text_def j_def crlf_def)
qed

section \<open>The request line\<close>

fun clash :: "u8 list \<Rightarrow> u8 list \<Rightarrow> bool" where
  "clash (a # s) (b # t) \<longleftrightarrow> a = b \<and> clash s t"
| "clash _ _ \<longleftrightarrow> True"

definition lower :: "string \<Rightarrow> u8 list" where
  "lower n = map tolower (ascii n)"

lemma clash_take: "take (length s) (t @ r) = s \<Longrightarrow> clash s t"
  by (induction s t rule: clash.induct) auto

lemma starts_clash: "starts n (ascii m @ r) \<Longrightarrow> clash (lower n) (lower m)"
  using clash_take [of "lower n" "lower m" "map tolower r"] by (simp add: starts_def lower_def take_map ascii_def)

lemma lower_methods: "map (\<lambda>(n, m). lower n) methods =
  [[103, 101, 116, 32], [112, 111, 115, 116, 32], [104, 101, 97, 100, 101, 114, 32], [104, 101, 97, 100, 32], [112, 117, 116, 32],
   [111, 112, 116, 105, 111, 110, 115, 32], [112, 114, 111, 112, 102, 105, 110, 100, 32], [112, 114, 111, 112, 112, 97, 116, 99, 104, 32],
   [100, 101, 108, 101, 116, 101, 32], [99, 111, 110, 110, 101, 99, 116, 32], [109, 107, 99, 111, 108, 32], [109, 111, 118, 101, 32],
   [115, 117, 98, 115, 99, 114, 105, 98, 101, 32], [117, 110, 115, 117, 98, 115, 99, 114, 105, 98, 101, 32], [110, 111, 116, 105, 102, 121, 32]]"
  by (simp add: methods_def lower_def ascii_def tolower_def)

lemma lower_distinct: "distinct (map (\<lambda>(n, m). lower n) methods)"
  unfolding lower_methods by simp

lemma lower_clash: "\<forall>s \<in> set (map (\<lambda>(n, m). lower n) methods). \<forall>t \<in> set (map (\<lambda>(n, m). lower n) methods). clash s t \<longrightarrow> s = t"
  unfolding lower_methods by simp

lemma methods_clash:
  assumes "(n, m) \<in> set methods" "(n', m') \<in> set methods" "clash (lower n) (lower n')"
  shows "(n, m) = (n', m')"
proof -
  have "lower n = lower n'" using lower_clash assms by fastforce
  then show ?thesis using lower_distinct assms(1,2) inj_onD [of "\<lambda>(n, m). lower n" "set methods" "(n, m)" "(n', m')"]
    by (simp add: distinct_map)
qed

lemma find_unique:
  "x \<in> set xs \<Longrightarrow> P x \<Longrightarrow> (\<And>y. y \<in> set xs \<Longrightarrow> P y \<Longrightarrow> y = x) \<Longrightarrow> find P xs = Some x"
proof (induction xs)
  case (Cons z zs)
  show ?case
  proof (cases "P z")
    case True
    then show ?thesis using Cons.prems(3) [of z] by simp
  next
    case False
    then have "x \<in> set zs" using Cons.prems(1,2) by auto
    then have "find P zs = Some x" by (rule Cons.IH [OF _ Cons.prems(2)]) (rule Cons.prems(3); simp)
    then show ?thesis using False by simp
  qed
qed simp

lemma methods_names: "\<forall>(n, m) \<in> set methods. cstr (ascii n) \<and> length n \<le> 12"
  by (simp add: methods_def ascii_def)

lemma find_method_ok:
  assumes "(n, m) \<in> set methods" "12 \<le> length s" "take (length n) s = ascii n"
  shows "find_method s methods = Some (Some (n, m))"
proof -
  obtain r where s: "s = ascii n @ r" using assms(3) by (metis append_take_drop_id)
  have "find_method s ms = Some (find (\<lambda>(n, m). starts n s) ms)" if "\<forall>(n, m) \<in> set ms. cstr (ascii n) \<and> length n \<le> 12" for ms
    using that assms(2) by (induction ms) (auto simp: begin_starts split: prod.splits)
  then have run: "find_method s methods = Some (find (\<lambda>(n, m). starts n s) methods)" using methods_names .
  have here: "case (n, m) of (n, m) \<Rightarrow> starts n s" by (simp add: starts_def s ascii_def)
  have "y = (n, m)" if y: "y \<in> set methods" "case y of (n, m) \<Rightarrow> starts n s" for y
  proof -
    obtain n' m' where y': "y = (n', m')" by (cases y)
    then have "clash (lower n') (lower n)" using y(2) starts_clash [of n' n r] by (simp add: s)
    then show ?thesis using methods_clash [of n' m' n m] y(1) assms(1) by (simp only: y')
  qed
  then have "find (\<lambda>(n, m). starts n s) methods = Some (n, m)" by (rule find_unique [of "(n, m)" methods "\<lambda>(n, m). starts n s", OF assms(1) here])
  then show ?thesis using run by (simp only:)
qed

lemma starts_append: "starts n v \<Longrightarrow> starts n (v @ r)"
  using starts_length [of n v] by (simp add: starts_def)

lemma method_chars: "(n, m) \<in> set methods \<Longrightarrow> 0 \<notin> set (ascii n) \<and> 13 \<notin> set (ascii n)"
proof -
  have "\<forall>(n, m) \<in> set methods. 0 \<notin> set (ascii n) \<and> 13 \<notin> set (ascii n)" by (simp add: methods_def ascii_def)
  then show "(n, m) \<in> set methods \<Longrightarrow> ?thesis" by auto
qed

lemma parse_method_ok:
  assumes buf: "wn_buf w = ascii n @ target_text p ps @ 32 # v @ crlf @ t" and m: "(n, m) \<in> set methods" and len: "12 \<le> length (wn_buf w)"
    and p: "set p \<inter> {0, 13, 32, 63} = {}" "plain_pairs ps" "length ps < 65536" and v: "cstr v" "13 \<notin> set v" "starts ''HTTP/1'' v" and al: "wn_alloc w = []"
  shows "webnet_request_parse_method w = Some (length n + length (target_text p ps) + length v + 3,
    set_phase WEB_PHASE_HEADER (set_buf (ascii n @ target_text p ps @ 0 # v @ 0 # 0 # t) (set_rq (\<lambda>r. with_target p ps (r\<lparr>rq_method := m\<rparr>)) w)))"
proof -
  define g where "g = target_text p ps"
  let ?i = "length n + length g" and ?b = "ascii n @ g @ 0 # v @ crlf @ t"
  have nc: "0 \<notin> set (ascii n)" "13 \<notin> set (ascii n)" using method_chars [OF m] by auto
  have pc: "cstr g" "13 \<notin> set g" "32 \<notin> set g" using p(1) query_text_chars [OF p(2)] by (auto simp: g_def target_text_def)
  note buf = buf [folded g_def]
  have p63: "63 \<notin> set p" using p(1) by auto
  have "strstr (wn_buf w) 0 crlf = Some (Some (0 + length (ascii n @ g @ 32 # v)))"
    by (rule strstr_crlf [where r = t]) (use nc pc v in \<open>simp_all add: buf\<close>)
  moreover have "find_method (wn_buf w) methods = Some (Some (n, m))" using find_method_ok [OF m len] by (simp add: buf)
  moreover have "strchr (wn_buf w) (length n) 32 = Some (Some ?i)"
    using strchr_found [of g 32 "ascii n" "v @ crlf @ t"] pc by (simp add: buf)
  moreover have "wr (wn_buf w) ?i 0 = Some ?b" by (simp add: wr_def buf list_update_append)
  moreover have "str_at ?b (length n) = Some g" using pc by (simp add: str_at_def)
  moreover have "drop (?i + 1) ?b = v @ crlf @ t" by simp
  moreover have "str_begin_with (v @ crlf @ t) (lit ''HTTP/1'') = Some True"
    using begin_starts [of "''HTTP/1''" "v @ crlf @ t"] starts_append [OF v(3)] starts_length [OF v(3)] by (simp add: ascii_def)
  moreover have "strstr ?b (?i + 1) crlf = Some (Some (?i + 1 + length v))"
    by (rule strstr_crlf [where r = t]) (use v in simp_all)
  moreover have "wr_n ?b (?i + 1 + length v) [0, 0] = Some (ascii n @ g @ 0 # v @ 0 # 0 # t)" by (simp add: wr_n_def crlf_def numeral_3_eq_3)
  moreover have "split_query g w' = Some (set_rq (with_target p ps) w')" if "wn_alloc w' = []" for w'
    unfolding g_def by (rule split_query_ok [OF p63 p(2,3) that])
  ultimately show ?thesis using al
    by (simp add: webnet_request_parse_method_def wn_strdup_def wn_malloc_def g_def [symmetric] wn_simps)
qed

section \<open>A whole request\<close>

lemma consume_rest:
  assumes "wn_buf w = a @ t @ r" "ws_buffer_offset (wn_ses w) = length a + length t" "t \<noteq> []" "a \<noteq> []"
  shows "consume (length a) w = Some (set_buf (t @ drop (length t) (wn_buf w)) (set_offset (length t) w))"
  using assms by (simp add: consume_def Let_def rd_n_def wr_n_def)

lemma method_phase_ok:
  assumes buf: "wn_buf w = ascii n @ target_text p ps @ 32 # v @ crlf @ t @ old" and m: "(n, m) \<in> set methods" and len: "12 \<le> length (wn_buf w)"
    and p: "set p \<inter> {0, 13, 32, 63} = {}" "plain_pairs ps" "length ps < 65536" and v: "cstr v" "13 \<notin> set v" "starts ''HTTP/1'' v" and al: "wn_alloc w = []"
    and ph: "ws_phase (wn_ses w) = WEB_PHASE_METHOD" and t: "t \<noteq> []"
    and off: "ws_buffer_offset (wn_ses w) = length n + length (target_text p ps) + length v + 3 + length t"
  shows "\<exists>r. length (t @ r) = length (wn_buf w) \<and> in_phase WEB_PHASE_METHOD webnet_request_parse_method w =
    Some (set_buf (t @ r) (set_offset (length t) (set_phase WEB_PHASE_HEADER (set_rq (\<lambda>r. with_target p ps (r\<lparr>rq_method := m\<rparr>)) w))))"
proof -
  define a where "a = ascii n @ target_text p ps @ 0 # v @ [0, 0 :: u8]"
  define w' where "w' = set_phase WEB_PHASE_HEADER (set_buf (a @ t @ old) (set_rq (\<lambda>r. with_target p ps (r\<lparr>rq_method := m\<rparr>)) w))"
  let ?r = "drop (length t) (a @ t @ old)"
  have "webnet_request_parse_method w = Some (length a, w')"
    using parse_method_ok [OF buf m len p v al] by (simp add: w'_def a_def)
  moreover have "consume (length a) w' = Some (set_buf (t @ ?r) (set_offset (length t) w'))"
    using consume_rest [of w' a t old] t off by (simp add: w'_def wn_simps a_def)
  moreover have "length (t @ ?r) = length (wn_buf w)" by (simp add: buf a_def crlf_def)
  ultimately show ?thesis using ph by (intro exI [of _ ?r]) (simp add: in_phase_def w'_def wn_simps)
qed

lemma header_phase_ok:
  assumes "wn_buf w = lines_text ls @ crlf @ r" "\<forall>l \<in> set ls. header_text l" "wn_alloc w = []" "rq_method (rq w) \<noteq> WEBNET_POST"
    and "ws_phase (wn_ses w) = WEB_PHASE_HEADER" "ws_buffer_offset (wn_ses w) = length (lines_text ls) + 2"
  shows "\<exists>b. length b = length (wn_buf w) \<and> in_phase WEB_PHASE_HEADER webnet_request_parse_header w =
    Some (set_offset 0 (set_phase WEB_PHASE_RESPONSE (set_code 200 (set_rq (fold header_line ls) (set_buf b w)))))"
proof -
  obtain b where b: "length b = length (wn_buf w)" "header_lines 0 w = Some (0 + length (lines_text ls) + 2,
      set_phase WEB_PHASE_RESPONSE (set_code 200 (set_rq (fold header_line ls) (set_buf b w))))"
    using header_lines_ok [of 0 w ls r] assms(1-4) by auto
  have "in_phase WEB_PHASE_HEADER webnet_request_parse_header w =
      Some (set_offset 0 (set_phase WEB_PHASE_RESPONSE (set_code 200 (set_rq (fold header_line ls) (set_buf b w)))))"
    using assms(5,6) by (simp add: in_phase_def webnet_request_parse_header_def b(2) consume_def Let_def set_offset_def) (simp add: wn_simps)
  then show ?thesis using b(1) by blast
qed

definition request_text :: "string \<Rightarrow> u8 list \<Rightarrow> (u8 list \<times> u8 list) list \<Rightarrow> u8 list \<Rightarrow> u8 list list \<Rightarrow> u8 list" where
  "request_text n p ps v ls = ascii n @ target_text p ps @ 32 # v @ crlf @ lines_text ls @ crlf"

lemma request_read:
  assumes "(n, m) \<in> set methods" "m \<noteq> WEBNET_POST" "set p \<inter> {0, 13, 32, 63} = {}" "plain_pairs ps"
    and "cstr v" "13 \<notin> set v" "starts ''HTTP/1'' v" "\<forall>l \<in> set ls. header_text l"
    and "length (wn_buf w) = WEBNET_SESSION_BUFSZ" "length (request_text n p ps v ls) \<le> WEBNET_SESSION_BUFSZ"
    and "ws_phase (wn_ses w) = WEB_PHASE_METHOD" "ws_buffer_offset (wn_ses w) = 0" "wn_alloc w = []"
  shows "\<exists>b. length b = WEBNET_SESSION_BUFSZ \<and> webnet_session_handle_read (request_text n p ps v ls) w =
    Some (w\<lparr>wn_ses := (wn_ses w)\<lparr>ws_phase := WEB_PHASE_RESPONSE, ws_buffer := b, ws_request :=
      (fold header_line ls (with_target p ps ((rq w)\<lparr>rq_method := m\<rparr>)))\<lparr>rq_result_code := 200\<rparr>\<rparr>\<rparr>)"
proof -
  let ?txt = "request_text n p ps v ls" and ?t = "lines_text ls @ crlf"
  define old w1 where "old = drop (length ?txt) (wn_buf w)" and "w1 = set_offset (length ?txt) (set_buf (?txt @ old) w)"
  have ps: "length ps < 65536" using assms(10) query_text_length [of ps]
    by (simp add: request_text_def target_text_def WEBNET_SESSION_BUFSZ_def split: if_splits)
  have read: "wr_n (wn_buf w) 0 ?txt = Some (?txt @ old)" using assms(9,10) by (simp add: wr_n_def old_def)
  have b1: "length (wn_buf w1) = WEBNET_SESSION_BUFSZ" using assms(9,10) by (simp add: w1_def wn_simps old_def)
  have w1: "wn_buf w1 = ascii n @ target_text p ps @ 32 # v @ crlf @ ?t @ old" "wn_alloc w1 = []" "ws_phase (wn_ses w1) = WEB_PHASE_METHOD" "?t \<noteq> []"
      "ws_buffer_offset (wn_ses w1) = length n + length (target_text p ps) + length v + 3 + length ?t" "12 \<le> length (wn_buf w1)"
    using assms(11,13) b1 by (simp_all add: w1_def wn_simps request_text_def WEBNET_SESSION_BUFSZ_def crlf_def)
  define set2 where "set2 b = set_buf b (set_offset (length ?t) (set_phase WEB_PHASE_HEADER (set_rq (\<lambda>r. with_target p ps (r\<lparr>rq_method := m\<rparr>)) w1)))" for b
  obtain r x where r: "length (?t @ r) = WEBNET_SESSION_BUFSZ" "in_phase WEB_PHASE_METHOD webnet_request_parse_method w1 = Some x" "x = set2 (?t @ r)"
    using method_phase_ok [OF w1(1) assms(1) w1(6) assms(3,4) ps assms(5-7) w1(2,3,4,5)] by (auto simp: b1 set2_def)
  have w2: "wn_buf x = lines_text ls @ crlf @ r" "wn_alloc x = []" "rq_method (rq x) \<noteq> WEBNET_POST"
      "ws_phase (wn_ses x) = WEB_PHASE_HEADER" "ws_buffer_offset (wn_ses x) = length (lines_text ls) + 2"
    using assms(2,13) by (simp_all add: r(3) set2_def w1_def wn_simps crlf_def)
  have l2: "length (wn_buf x) = WEBNET_SESSION_BUFSZ" using r(1) unfolding w2(1) by simp
  obtain b w4 where b: "length b = WEBNET_SESSION_BUFSZ" "in_phase WEB_PHASE_HEADER webnet_request_parse_header x = Some w4"
      "w4 = set_offset 0 (set_phase WEB_PHASE_RESPONSE (set_code 200 (set_rq (fold header_line ls) (set_buf b x))))"
    using header_phase_ok [OF w2(1) assms(8) w2(2-5)] unfolding l2 by blast
  have "in_phase WEB_PHASE_QUERY f w4 = Some w4" for f by (simp add: in_phase_def b(3) wn_simps)
  then have run: "webnet_session_handle_read ?txt w = Some w4"
    using w1(5) by (simp add: webnet_session_handle_read_def assms(12) read w1_def [symmetric] r(2) b(2)) (simp add: request_text_def)
  obtain s where s: "wn_ses w = s" by simp
  have "w4 = w\<lparr>wn_ses := s\<lparr>ws_phase := WEB_PHASE_RESPONSE, ws_buffer := b, ws_request :=
      (fold header_line ls (with_target p ps ((ws_request s)\<lparr>rq_method := m\<rparr>)))\<lparr>rq_result_code := 200\<rparr>\<rparr>\<rparr>"
    using assms(12) by (cases s) (simp add: b(3) r(3) set2_def w1_def wn_simps s)
  then show ?thesis using run b(1) by (intro exI [of _ b]) (simp add: rq_def s)
qed


definition demo_wn :: wn where
  "demo_wn = \<lparr>wn_ses = \<lparr>ws_request = \<lparr>rq_method = WEBNET_UNKNOWN, rq_result_code = 0, rq_content_length = 0, rq_path = None, rq_host = None,
       rq_user_agent = None, rq_accept_language = None, rq_cookie = None, rq_referer = None, rq_Range = None, rq_soap_action = None,
       rq_callback = None, rq_content_type = None, rq_query = None, rq_query_offset = 0, rq_query_items = [], rq_query_counter = 0,
       rq_connection = WEBNET_CONN_CLOSE\<rparr>, ws_buffer_offset = 0, ws_buffer = replicate 4096 0, ws_phase = WEB_PHASE_METHOD, ws_sent = []\<rparr>,
     wn_alloc = []\<rparr>"


section \<open>A request line without an end\<close>

lemma strstr_absent:
  "drop i b = l @ 0 # r \<Longrightarrow> 13 \<notin> set l \<Longrightarrow> strstr b i crlf = Some None"
proof (induction l arbitrary: i)
  case Nil
  have "i < length b" using Nil(1) by (cases "i < length b") auto
  then show ?case using Nil Cons_nth_drop_Suc [of i b] by (subst strstr.simps) (auto simp: crlf_def)
next
  case (Cons c l)
  have i: "i < length b" using Cons.prems(1) by (cases "i < length b") auto
  have d: "b ! i = c" "drop (i + 1) b = l @ 0 # r" using Cons.prems(1) Cons_nth_drop_Suc [OF i] by auto
  then have "strstr b (i + 1) crlf = Some None" using Cons by simp
  then show ?case using Cons.prems i d(1) by (subst strstr.simps) (auto simp: crlf_def)
qed

lemma str_at_mid: "cstr s \<Longrightarrow> str_at (a @ s @ 0 # r) (length a) = Some s"
  by (simp add: str_at_def)

lemma parse_query_buf: "parse_query w = Some w' \<Longrightarrow> wn_buf w' = wn_buf w"
  by (auto simp: parse_query_def wn_simps wn_malloc_def Let_def split: option.splits if_splits list.splits bind_splits)

lemma split_query_buf: "split_query path w = Some w' \<Longrightarrow> wn_buf w' = wn_buf w"
  by (auto simp: split_query_def wn_strdup_def wn_malloc_def wn_simps Let_def dest!: parse_query_buf split: if_splits list.splits prod.splits)

lemma after_path_none:
  assumes "\<And>w'. wn_buf w' = wn_buf w \<Longrightarrow> f w' = None"
  shows "(case wn_strdup path w of (p, w) \<Rightarrow> do { path \<leftarrow> p; w \<leftarrow> split_query path w; f w }) = None"
proof -
  obtain p w2 where p: "wn_strdup path w = (p, w2)" by (cases "wn_strdup path w")
  have "wn_buf (snd (wn_strdup path w)) = wn_buf w" by (auto simp: wn_strdup_def wn_malloc_def split: list.splits)
  then have b: "wn_buf w2 = wn_buf w" by (simp add: p)
  show ?thesis
  proof (cases p)
    case (Some path')
    then show ?thesis using assms b split_query_buf [of path' w2] by (cases "split_query path' w2") (auto simp: p)
  qed (simp add: p)
qed



section \<open>The body of a request\<close>

text \<open>The parts of a body as they arrive, one per read.\<close>

fun read_parts :: "u8 list list \<Rightarrow> wn \<Rightarrow> wn option" where
  "read_parts [] w = Some w"
| "read_parts (d # ds) w = webnet_session_handle_read d w \<bind> read_parts ds"

definition waits_for :: "nat \<Rightarrow> u8 list \<Rightarrow> wn \<Rightarrow> bool" where
  "waits_for cl got w \<longleftrightarrow> ws_phase (wn_ses w) = WEB_PHASE_QUERY \<and> ws_buffer_offset (wn_ses w) = 0 \<and>
     length (wn_buf w) = WEBNET_SESSION_BUFSZ \<and> rq_content_length (rq w) = int cl \<and> rq_query_offset (rq w) = int (length got) \<and>
     rq_query (rq w) = Some (got @ replicate (cl + 1 - length got) 0) \<and>
     (\<exists>t. rq_content_type (rq w) = Some t \<and> cstr t \<and> \<not> starts ''application/x-www-form-urlencoded'' t)"

definition has_body :: "u8 list \<Rightarrow> wn \<Rightarrow> wn \<Rightarrow> bool" where
  "has_body body w w' \<longleftrightarrow> (\<exists>b. length b = WEBNET_SESSION_BUFSZ \<and> w' = w\<lparr>wn_ses := (wn_ses w)\<lparr>ws_phase := WEB_PHASE_RESPONSE, ws_buffer := b,
     ws_request := (rq w)\<lparr>rq_query := Some (body @ [0]), rq_query_offset := int (length body), rq_result_code := 200\<rparr>\<rparr>\<rparr>)"

lemma read_part:
  assumes w: "waits_for cl got w" and d: "d \<noteq> []" "length d \<le> WEBNET_SESSION_BUFSZ" and len: "length got + length d \<le> cl"
  shows "if length got + length d < cl
    then \<exists>b. length b = WEBNET_SESSION_BUFSZ \<and> webnet_session_handle_read d w = Some (set_buf b (set_rq (\<lambda>r. r\<lparr>rq_query := Some ((got @ d) @ replicate (cl + 1 - length (got @ d)) 0),
        rq_query_offset := int (length (got @ d))\<rparr>) w))
    else if cl < WEBNET_SESSION_BUFSZ then \<exists>w'. webnet_session_handle_read d w = Some w' \<and> has_body (got @ d) w w'
    else webnet_session_handle_read d w = None"
proof -
  obtain t where t: "rq_content_type (rq w) = Some t" "cstr t" "\<not> starts ''application/x-www-form-urlencoded'' t" using w by (auto simp: waits_for_def)
  have form: "str_begin_with (t @ [0]) (lit ''application/x-www-form-urlencoded'') = Some False"
    using begin_cstr [OF _ t(2), of "''application/x-www-form-urlencoded''" "[]"] t(3) by (simp add: ascii_def)
  define b1 w1 q' where "b1 = d @ drop (length d) (wn_buf w)" and "w1 = set_offset (length d) (set_buf b1 w)"
    and "q' = (got @ d) @ replicate (cl + 1 - length (got @ d)) 0"
  have s: "ws_phase (wn_ses w) = WEB_PHASE_QUERY" "ws_buffer_offset (wn_ses w) = 0" "length (wn_buf w) = WEBNET_SESSION_BUFSZ"
    "rq_content_length (rq w) = int cl" "rq_query_offset (rq w) = int (length got)" "rq_query (rq w) = Some (got @ replicate (cl + 1 - length got) 0)"
    using w by (simp_all add: waits_for_def)
  have b1: "wr_n (wn_buf w) 0 d = Some b1" "length b1 = WEBNET_SESSION_BUFSZ" "rd_n b1 0 (length d) = Some d"
    using d(2) s(3) by (simp_all add: wr_n_def b1_def rd_n_def)
  have q: "wr_n (got @ replicate (cl + 1 - length got) 0) (length got) d = Some q'" using len by (simp add: wr_n_def q'_def)
  have run: "webnet_session_handle_read d w = webnet_request_parse_post (length d) w1 \<bind> (\<lambda>(n, w). consume n w)"
    using d(1) s(1,2) b1(1) by (simp add: webnet_session_handle_read_def in_phase_def w1_def wn_simps)
  let ?w2 = "set_rq (\<lambda>r. r\<lparr>rq_query := Some q', rq_query_offset := int (length (got @ d))\<rparr>) w1"
  have post: "webnet_request_parse_post (length d) w1 =
      (if length got + length d = cl then do { b \<leftarrow> wr b1 cl 0; Some (length d, set_phase WEB_PHASE_RESPONSE (set_code 200 (set_buf b ?w2))) }
       else Some (length d, ?w2))"
    using d(1) len s(4-6) b1(3) q t(1) form by (simp add: webnet_request_parse_post_def w1_def wn_simps wri_def) auto
  show ?thesis
  proof (cases "length got + length d < cl")
    case True
    have "consume (length d) ?w2 = Some (set_offset 0 ?w2)" using d(1) by (simp add: consume_def w1_def wn_simps)
    moreover have "set_offset 0 ?w2 = set_buf b1 (set_rq (\<lambda>r. r\<lparr>rq_query := Some q', rq_query_offset := int (length (got @ d))\<rparr>) w)"
      using s(2) by (cases w; cases "wn_ses w") (simp add: w1_def wn_simps)
    ultimately have "webnet_session_handle_read d w =
        Some (set_buf b1 (set_rq (\<lambda>r. r\<lparr>rq_query := Some q', rq_query_offset := int (length (got @ d))\<rparr>) w))"
      using True by (simp only: run post) simp
    then show ?thesis using True b1(2) unfolding q'_def by (simp only: if_True) blast
  next
    case False
    then have cl: "cl = length got + length d" using len by simp
    show ?thesis
    proof (cases "cl < WEBNET_SESSION_BUFSZ")
      case True
      let ?w3 = "set_phase WEB_PHASE_RESPONSE (set_code 200 (set_buf (b1[cl := 0]) ?w2))"
      have "consume (length d) ?w3 = Some (set_offset 0 ?w3)" using d(1) by (simp add: consume_def w1_def wn_simps)
      moreover have "has_body (got @ d) w (set_offset 0 ?w3)"
        unfolding has_body_def using s(2) b1(2) cl
        by (intro exI [of _ "b1[cl := 0]"]) (cases w; cases "wn_ses w"; simp add: w1_def wn_simps q'_def)
      moreover have "wr b1 cl 0 = Some (b1[cl := 0])" using True b1(2) by (simp add: wr_def)
      ultimately show ?thesis using True cl by (simp add: run post)
    next
      case False
      then show ?thesis using cl b1(2) by (simp add: run post wr_def)
    qed
  qed
qed

lemma parts_ok:
  assumes "waits_for cl got w" "length got < cl" "length got + length (concat ds) = cl"
    "\<forall>d \<in> set ds. d \<noteq> [] \<and> length d \<le> WEBNET_SESSION_BUFSZ"
  shows "if cl < WEBNET_SESSION_BUFSZ then \<exists>w'. read_parts ds w = Some w' \<and> has_body (got @ concat ds) w w' else read_parts ds w = None"
  using assms
proof (induction ds arbitrary: got w)
  case (Cons d ds)
  have d: "d \<noteq> []" "length d \<le> WEBNET_SESSION_BUFSZ" "length got + length d \<le> cl" using Cons.prems(3,4) by auto
  note part = read_part [OF Cons.prems(1) d]
  show ?case
  proof (cases "length got + length d < cl")
    case True
    then obtain b w2 where b: "length b = WEBNET_SESSION_BUFSZ" "webnet_session_handle_read d w = Some w2"
      "w2 = set_buf b (set_rq (\<lambda>r. r\<lparr>rq_query := Some ((got @ d) @ replicate (cl + 1 - length (got @ d)) 0), rq_query_offset := int (length (got @ d))\<rparr>) w)"
      using part by auto
    have "waits_for cl (got @ d) w2" using Cons.prems(1) b(1) by (auto simp: waits_for_def b(3) wn_simps)
    then have "if cl < WEBNET_SESSION_BUFSZ then \<exists>w'. read_parts ds w2 = Some w' \<and> has_body ((got @ d) @ concat ds) w2 w' else read_parts ds w2 = None"
      using Cons.IH [of "got @ d" w2] True Cons.prems(3,4) by simp
    moreover have "has_body x w w'" if "has_body x w2 w'" for x w'
      using that by (auto simp: has_body_def b(3) wn_simps)
    ultimately show ?thesis using b(2) by (auto split: if_splits)
  next
    case False
    moreover have "length got + length d + length (concat ds) = cl" using Cons.prems(3) by simp
    ultimately have "length (concat ds) = 0" using d(3) by linarith
    then have "ds = []" using Cons.prems(4) by (cases ds) auto
    then show ?thesis using part False by (auto split: if_splits)
  qed
qed simp

text \<open>
  (C34) The body of a \<open>POST\<close> request that is not a form is collected in the block for the query, however it is cut into parts: if
  it is shorter than the buffer of the session, the session goes on to the response with the code 200, and the block holds exactly the body; a body
  of the length of the buffer or more, up to the 8192 bytes that are accepted, makes the server write behind the buffer
  of the session when its last part arrives.
\<close>

theorem post_body_collected:
  assumes "ws_phase (wn_ses w) = WEB_PHASE_QUERY" "ws_buffer_offset (wn_ses w) = 0" "length (wn_buf w) = WEBNET_SESSION_BUFSZ"
    and "rq_content_type (rq w) = Some t" "cstr t" "\<not> starts ''application/x-www-form-urlencoded'' t"
    and "rq_content_length (rq w) = int (length (concat ds))" "rq_query_offset (rq w) = 0" "rq_query (rq w) = Some (replicate (length (concat ds) + 1) 0)"
    and "ds \<noteq> []" "\<forall>d \<in> set ds. d \<noteq> [] \<and> length d \<le> WEBNET_SESSION_BUFSZ"
  shows "if length (concat ds) < WEBNET_SESSION_BUFSZ then \<exists>w'. read_parts ds w = Some w' \<and> has_body (concat ds) w w' else read_parts ds w = None"
proof -
  have "waits_for (length (concat ds)) [] w" using assms(1-9) by (simp add: waits_for_def)
  moreover have "0 < length (concat ds)" using assms(10,11) by (cases ds) auto
  ultimately show ?thesis using parts_ok [of "length (concat ds)" "[]" w ds, unfolded append_Nil] assms(11) by simp
qed

definition demo_post :: "nat \<Rightarrow> wn" where
  "demo_post n = set_phase WEB_PHASE_QUERY (set_rq (\<lambda>r. r\<lparr>rq_method := WEBNET_POST, rq_content_length := int n, rq_content_type := Some (ascii ''text/plain''),
     rq_query := Some (replicate (n + 1) 0)\<rparr>) demo_wn)"

theorem post_body_collected_witness:
  "(\<exists>w'. read_parts [[1, 2], [3]] (demo_post 3) = Some w' \<and> rq_query (rq w') = Some [1, 2, 3, 0] \<and> ws_phase (wn_ses w') = WEB_PHASE_RESPONSE) \<and>
   read_parts [replicate 4096 7, [3]] (demo_post 4097) = None"
proof
  have t: "cstr (ascii ''text/plain'')" "\<not> starts ''application/x-www-form-urlencoded'' (ascii ''text/plain'')"
    by (simp_all add: starts_def ascii_def tolower_def)
  show "\<exists>w'. read_parts [[1, 2], [3]] (demo_post 3) = Some w' \<and> rq_query (rq w') = Some [1, 2, 3, 0] \<and> ws_phase (wn_ses w') = WEB_PHASE_RESPONSE"
    using post_body_collected [of "demo_post 3" "ascii ''text/plain''" "[[1, 2], [3]]"] t
    by (simp add: demo_post_def demo_wn_def wn_simps WEBNET_SESSION_BUFSZ_def del: read_parts.simps replicate.simps) (auto simp: has_body_def rq_def)
  show "read_parts [replicate 4096 7, [3]] (demo_post 4097) = None"
    using post_body_collected [of "demo_post 4097" "ascii ''text/plain''" "[replicate 4096 7, [3]]"] t
    by (simp add: demo_post_def demo_wn_def wn_simps WEBNET_SESSION_BUFSZ_def del: read_parts.simps)
qed

end
