(* ===== verification/Wn_System.thy ===== *)
theory Wn_System
  imports Wn_Pages Wn_Parse
begin

text \<open>
  The web server as a whole, for requests that the handlers of the application answer: reading, parsing, finding the handler, and the
  page.
\<close>

text \<open>
  \<open>_webnet_session_handle\<close> for data that has arrived, with the step of \<open>webnet_module_handle_uri\<close> that asks the CGI module.
  The result says whether the request has been finished there; otherwise it waits for more data, or goes on to the other modules
  and the files, which is not part of the function. \<open>al\<close> are the outcomes of the allocations for the request.
\<close>

definition webnet_session_handle :: "bool list \<Rightarrow> u8 list \<Rightarrow> web \<Rightarrow> (bool \<times> web) option" where
  "webnet_session_handle al data w = do {
     s \<leftarrow> webnet_session_handle_read data \<lparr>wn_ses = web_session w, wn_alloc = al\<rparr>;
     let w = w\<lparr>web_session := wn_ses s\<rparr>;
     if ws_phase (web_session w) = WEB_PHASE_RESPONSE then webnet_module_cgi webnet_create w else Some (False, w)
   }"

text \<open>
  \<open>webnet_sessions_handle_fds\<close> before it closes a session that is finished.
\<close>

definition session_end :: "webnet_session \<Rightarrow> webnet_session option" where
  "session_end s = (let code = rq_result_code (ws_request s) in if code \<noteq> 200 then webnet_session_badrequest code s else Some s)"



end
