(* ===== verification/Cloud.thy ===== *)
theory Cloud
  imports Json_Pages
begin

text \<open>
  The connection to the cloud: one round of \<open>cloud_publish\<close> (\<open>applications/cloud.c\<close>) and the messages it sends
  (\<open>onenet_mqtt.c\<close>). The message is a JSON text behind three bytes of header, put together in a block of the kernel heap; its
  bytes are those of the heap. Whether the MQTT client accepts a message is a parameter.
\<close>

section \<open>The functions\<close>

text \<open>Filling the block: the text without a terminator, its length as \<open>strlen\<close> finds it, and the header.\<close>

definition onenet_frame :: "u32 \<Rightarrow> u8 list \<Rightarrow> rt_heap \<Rightarrow> (nat \<times> rt_heap) option" where
  "onenet_frame out msg h = do {
     h \<leftarrow> store_mem h (out + 3) msg;
     len \<leftarrow> strlen (drop (unat (out + 3 - heap_ptr h)) (heap_bytes h));
     h \<leftarrow> store_mem h out [3, word_of_nat (len div 256 mod 256), word_of_nat (len mod 256)];
     Some (len + 3, h)
   }"

text \<open>The error code, the block and the length of the message.\<close>

definition onenet_mqtt_get_string_data :: "u8 list \<Rightarrow> u8 list \<Rightarrow> rt_heap jmem \<Rightarrow> (int \<times> u32 \<times> nat \<times> rt_heap jmem) option" where
  "onenet_mqtt_get_string_data ds_name str st = do {
     (root, st) \<leftarrow> cJSON_CreateObject cJSON_hook_init st;
     if root = 0 then Some (- RT_ENOMEM, 0, 0, st)
     else do {
       (s, st) \<leftarrow> cJSON_CreateString cJSON_hook_init str st;
       st \<leftarrow> cJSON_AddItemToObject cJSON_hook_init root ds_name s st;
       (msg_str, st) \<leftarrow> cJSON_PrintUnformatted cJSON_hook_init root st;
       if msg_str = 0 then do { st \<leftarrow> cJSON_Delete cJSON_hook_init root st; Some (- RT_ENOMEM, 0, 0, st) }
       else do {
         msg \<leftarrow> jm_texts st msg_str;
         (out, h) \<leftarrow> rt_malloc (jm_heap st) (of_nat (length msg + 3));
         if out = 0 then Some (- RT_ENOMEM, 0, 0, st\<lparr>jm_heap := h\<rparr>)
         else do {
           (len, h) \<leftarrow> onenet_frame out msg h;
           st \<leftarrow> cJSON_Delete cJSON_hook_init root (st\<lparr>jm_heap := h\<rparr>);
           st \<leftarrow> cJSON_free cJSON_hook_init msg_str st;
           Some (RT_EOK, out, len, st)
         }
       }
     }
   }"

text \<open>\<open>publish\<close> says whether the client takes the message; the result has the messages handed to it.\<close>

definition onenet_mqtt_upload_string ::
    "(u8 list \<Rightarrow> bool) \<Rightarrow> u8 list \<Rightarrow> u8 list \<Rightarrow> rt_heap jmem \<Rightarrow> (int \<times> u8 list list \<times> rt_heap jmem) option" where
  "onenet_mqtt_upload_string publish ds_name str st = do {
     (result, out, len, st) \<leftarrow> onenet_mqtt_get_string_data ds_name str st;
     if result < 0 then Some (result, [], st)
     else do {
       payload \<leftarrow> load_mem (jm_heap st) out len;
       h \<leftarrow> rt_free (jm_heap st) out;
       Some (if publish payload then 0 else - 1, [payload], st\<lparr>jm_heap := h\<rparr>)
     }
   }"

text \<open>One round over the items; the results of the uploads are not looked at.\<close>

fun cloud_round :: "(u8 list \<Rightarrow> bool) \<Rightarrow> collect_item list \<Rightarrow> rt_heap jmem \<Rightarrow> (u8 list list \<times> rt_heap jmem) option" where
  "cloud_round publish [] st = Some ([], st)"
| "cloud_round publish (it # its) st = do {
     value \<leftarrow> item_value it;
     (_, sent, st) \<leftarrow> onenet_mqtt_upload_string publish (ascii (ci_name it)) value st;
     (sent', st) \<leftarrow> cloud_round publish its st;
     Some (sent @ sent', st)
   }"

section \<open>The message in memory\<close>

lemma word16_bytes:
  assumes "ucast x OR push_bit 8 (ucast y) = (w :: u16)"
  shows "(x :: u8) = ucast w" "(y :: u8) = ucast (drop_bit 8 w)"
  unfolding assms [symmetric] by (auto simp: bit_eq_iff bit_simps dest: bit_imp_le_length)

lemma header_bytes:
  assumes "mem_at b n = block_mem u m r" "n + 12 \<le> length b"
  shows "\<exists>t. drop n b = 0xa0 # 0x1e # t \<and> 0 \<in> set t"
proof -
  have "length (sub_bytes b n (n + 12)) = 12" using slice_length [OF assms(2), of n] by simp
  then obtain x y z v rest where s: "sub_bytes b n (n + 12) = x # y # z # v # rest"
    by (auto simp: length_Suc_conv numeral_eq_Suc)
  have "ucast x OR push_bit 8 (ucast y) = HEAP_MAGIC" "ucast z OR push_bit 8 (ucast v) = (of_bool u :: u16)"
    using assms(1) by (auto simp: mem_at_def dec_mem_def s block_mem_def)
  then have "x = 0xa0" "y = 0x1e" "v = 0" using word16_bytes [of x y HEAP_MAGIC] word16_bytes [of z v "of_bool u"]
    by (auto simp: HEAP_MAGIC_def)
  moreover have "sub_bytes b n (n + 12) = take 12 (drop n b)" by (simp add: sub_bytes_def)
  then have "drop n b = sub_bytes b n (n + 12) @ drop 12 (drop n b)" using append_take_drop_id [of 12 "drop n b"] by simp
  then obtain r where "drop n b = x # y # z # v # r" unfolding s by auto
  ultimately show ?thesis by simp
qed

lemma strlen_run: "0 \<notin> set s \<Longrightarrow> 0 \<in> set t \<Longrightarrow> strlen (s @ t) = Some (length s + length (takeWhile (\<lambda>c. c \<noteq> 0) t))"
proof (induction s)
  case Nil
  then show ?case by (induction t) auto
qed auto

lemma rd_n_mid: "rd_n (b @ x @ y) (length b) (length x) = Some x"
  by (simp add: rd_n_def)

lemma frame_overrun:
  assumes ok: "heap_ok h" and bl: "heap_blocks h = xs @ (p, True, n) # (n, u, m) # ys" and out: "out = mem_addr h (p + 12)"
    and n: "n = p + 15 + length msg" and msg: "0 \<notin> set msg"
  shows "\<exists>len h' g. onenet_frame out msg h = Some (len, h') \<and> len = length msg + 5 + length g \<and>
    load_mem h' out len = Some (3 # word_of_nat ((len - 3) div 256 mod 256) # word_of_nat ((len - 3) mod 256) # msg @ 0xa0 # 0x1e # g)"
proof -
  have rep: "heap_rep h (xs @ (p, True, n) # (n, u, m) # ys)" using ok by (simp add: heap_ok_def heap_wf_def bl)
  note mid = heap_rep_mid [OF rep]
  have nx: "mem_at (heap_bytes h) n = block_mem u m p" "n + 16 \<le> m" "m \<le> end_off h"
    using mid(11) blocks_at_le by fastforce+
  obtain t where t: "drop n (heap_bytes h) = 0xa0 # 0x1e # t" "0 \<in> set t" using header_bytes [OF nx(1)] nx(2,3) mid(6) by auto
  define g where "g = takeWhile (\<lambda>c. c \<noteq> 0) t"
  let ?o = "p + 12" and ?L = "length msg + 2 + length g"
  define b where "b = take ?o (heap_bytes h)"
  define q where "q = take 3 (drop ?o (heap_bytes h))"
  have len: "n + 12 \<le> length (heap_bytes h)" "n < 2 ^ 32" "length b = ?o" "length q = 3" using nx(2,3) mid(6,7) n by (auto simp: b_def q_def)
  have off: "unat (out - heap_ptr h) = ?o" "unat (out + 3 - heap_ptr h) = ?o + 3"
    using out len(2) n u32_unat_of_nat [of "p + 12"] u32_unat_of_nat [of "p + 12 + 3"] by (simp_all add: add.assoc add.commute)
  have "take (?o + 3) (heap_bytes h) = b @ q" unfolding b_def q_def by (rule take_add)
  moreover have "?o + 3 + length msg = n" using n by simp
  ultimately have 1: "store_mem h (out + 3) msg = Some (h\<lparr>heap_bytes := b @ q @ msg @ 0xa0 # 0x1e # t\<rparr>)"
    using off(2) t(1) len(1) by (simp add: store_mem_def wr_n_def)
  have 2: "strlen (drop (?o + 3) (b @ q @ msg @ 0xa0 # 0x1e # t)) = Some ?L"
    using len(3,4) strlen_run [OF msg, of "0xa0 # 0x1e # t"] t(2) by (simp add: g_def)
  let ?h = "[3, word_of_nat (?L div 256 mod 256), word_of_nat (?L mod 256)] :: u8 list"
  have 3: "store_mem (h\<lparr>heap_bytes := b @ q @ msg @ 0xa0 # 0x1e # t\<rparr>) out ?h = Some (h\<lparr>heap_bytes := b @ ?h @ msg @ 0xa0 # 0x1e # t\<rparr>)"
    using off(1) len(3,4) by (simp add: store_mem_def wr_n_def)
  have run: "onenet_frame out msg h = Some (?L + 3, h\<lparr>heap_bytes := b @ ?h @ msg @ 0xa0 # 0x1e # t\<rparr>)"
    using 1 2 3 off by (simp add: onenet_frame_def)
  have "t = g @ dropWhile (\<lambda>c. c \<noteq> 0) t" by (simp add: g_def)
  then have "b @ ?h @ msg @ 0xa0 # 0x1e # t = b @ (?h @ msg @ 0xa0 # 0x1e # g) @ dropWhile (\<lambda>c. c \<noteq> 0) t" by simp
  moreover have "length (?h @ msg @ 0xa0 # 0x1e # g) = ?L + 3" by simp
  moreover have "load_mem (h\<lparr>heap_bytes := x\<rparr>) out k = rd_n x (length b) k" for x k using off(1) len(3) by (simp add: load_mem_def)
  ultimately have "load_mem (h\<lparr>heap_bytes := b @ ?h @ msg @ 0xa0 # 0x1e # t\<rparr>) out (?L + 3) = Some (?h @ msg @ 0xa0 # 0x1e # g)"
    using rd_n_mid [of b "?h @ msg @ 0xa0 # 0x1e # g" "dropWhile (\<lambda>c. c \<noteq> 0) t"] by (simp only:)
  with run show ?thesis by (intro exI [of _ "?L + 3"] exI [of _ g] exI conjI) auto
qed

section \<open>The length of a message\<close>


definition demo_block :: rt_heap where
  "demo_block = (case rt_malloc demo_fresh 16 of Some (a, h) \<Rightarrow> h)"

lemma demo_block_summary: "heap_summary demo_block = ([(0, True, 28), (28, False, 84)], False, 0x1000, 96)"
  by code_simp


end
