(* ===== verification/Spec2Isabelle.thy ===== *)
theory Spec2Isabelle
  imports Collect App Wifi_Config Firm_Upload Sfud_Init Rt_Heap_Spec Wn_System Cloud
begin

text \<open>
  Verification of the W601 data collector: a firmware on RT-Thread that polls a device over Modbus
  TCP, shows its state on LEDs, is configured with a button and a web page, and keeps its settings
  in flash.

  \<^bold>\<open>The parts and how they interact.\<close> The collector thread (\<open>applications/collect.c\<close>) reads registers
  with the libmodbus client over a socket. The threads of the application (\<open>dcu.c\<close>, \<open>led.c\<close>, \<open>key.c\<close>,
  the web handlers of \<open>func/wn_cgi.c\<close>) send each other messages over the bus of \<open>func/zmq.c\<close>, which is a
  kernel message queue (\<open>rt-thread/src/ipc.c\<close>) per receiver. The packages agile_led and agile_button
  each have a thread that walks a list of objects once per tick interval and drives or samples pins.
  Settings of the WLAN go through \<open>ports/wifi/wifi_config.c\<close> and the environment of EasyFlash, and
  firmware images through \<open>func/wn_firm_upload.c\<close>, to partitions of the flash (FAL), which lie on the
  on-chip flash or on a serial flash chip. A web server (\<open>packages/webnet-latest\<close>) hands requests to the handlers
  of the application, which answer with JSON texts of the measured values (\<open>func/json_create.c\<close>); the same
  values go to the cloud (\<open>applications/cloud.c\<close>). JSON items, texts and cloud messages live in the kernel heap.

  \<^bold>\<open>How the code is modelled.\<close> A C function is a HOL function with the state it touches as argument
  and result. The value \<^const>\<open>None\<close> stands for an undefined operation (an access outside an array, a
  read of a byte nobody wrote, a failed assertion), so that a theorem with the conclusion
  \<open>f x = Some y\<close> says that the function ends and does nothing undefined. Error codes are ordinary
  results. Machine integers are words of their width, or integers in places where the C code uses
  \<open>int\<close> for small numbers; structures are records, objects with identity live in a store of numbered
  nodes. Loops are structural recursion, recursion with a measure, or recursion over a bound that the
  code itself has; the loops that run for ever (threads) are step relations, and the theorems speak
  of each step from every reachable state. No loop has fuel: one whose end depends on the state (the
  walks over the LED and button lists, the reset of a queue, resending and receiving, erasing) is a
  partial function into the option type, for which not ending is \<^const>\<open>None\<close> as well, and the theorems
  show that it returns.

  \<^bold>\<open>The theories.\<close>

  \<^item> \<open>Prelude\<close>, \<open>C_Mem\<close>, \<open>C_Text\<close>: words, checked array access, error codes, C strings,
    little-endian words, decimal numbers. Model of the language and its library.

  \<^item> \<open>Modbus_Data\<close> (\<open>modbus-data.c\<close>), \<open>Modbus_Core\<close> (\<open>modbus-tcp.c\<close> and the context), \<open>Modbus_Msg\<close>,
    \<open>Modbus_Client\<close>, \<open>Modbus_Server\<close> (\<open>modbus.c\<close>), with \<open>Modbus_Confirm\<close> and \<open>Modbus_System\<close> for the
    lemmas that connect them. The socket calls are a parameter; the locale \<open>stream_socket\<close> states
    what a stream socket does, and is interpreted on the socket that is connected to a modelled
    server. The locale \<open>modbus_receiver\<close> states what the reception of a message needs of the
    backend, and is interpreted on the TCP backend. Shown: what a client writes it reads back; for
    every peer, however malicious, requests end and stay inside the caller's array; the server stays
    inside its tables, provided that the request carries the data it announces, and a proof that
    the proviso is needed.

  \<^item> \<open>Collect\<close> (\<open>applications/collect.c\<close>): the collector never gets stuck, one round stores the
    registers of every item, the timeout it asks for is refused.

  \<^item> \<open>Rt_Mq\<close> (message queues of \<open>ipc.c\<close>): the queue with its linked lists in a memory pool refines a
    bounded FIFO (locale \<open>bounded_fifo\<close>, interpreted on the queue's operations); the critical
    sections of any number of threads, interleaved, keep the queue's order and contents.
    \<open>Rt_Kernel\<close>: tick conversions, singly linked lists, pins.

  \<^item> \<open>Rt_Heap\<close>, \<open>Rt_Heap_Ops\<close>, \<open>Rt_Heap_Spec\<close> (\<open>rt-thread/src/mem.c\<close>): the kernel allocator on the bytes of
    its heap. \<open>blocks_at\<close> reads the list of blocks off the headers, \<open>heap_ok\<close> is the invariant, and
    \<open>heap_view\<close> the map from addresses to contents that clients see. The locale \<open>shared_allocator\<close>
    states the contract for clients that share the heap and is interpreted on the operations. Shown:
    whatever a sequence of clients does, live blocks stay apart and keep their contents, and the statistics
    are exact; which requests are refused; \<open>rt_realloc\<close> keeps the contents; when the search
    ends; sizes that wrap around and free memory that is not found again.

  \<^item> \<open>Agile_Led\<close>, \<open>Agile_Button\<close>: all operations of the two packages and the pass of their threads.
    Shown: list and flags agree in every reachable state, no access to a deleted object, the LED
    plays its pattern, the button reports debounced whole presses, the exact hold time.

  \<^item> \<open>Zmq\<close>, \<open>App\<close> (\<open>func/zmq.c\<close>, \<open>applications/*.c\<close>, \<open>func/wn_cgi.c\<close>): publishing and subscribing with
    private copies of the payload, no leak when a queue is full, and the way of a reset request from
    the web page through the bus to the reset of the processor.

  \<^item> \<open>Fal_Flash\<close>, \<open>Fal\<close> (\<open>drivers/drv_flash.c\<close>, \<open>ports/fal\<close>, \<open>packages/fal-v0.3.0\<close>): the flash devices
    and the partition table, which is searched and loaded from the flash byte by byte. Shown: the
    initialisation completes for every contents, accesses to a partition stay inside it as long as
    address plus size do not wrap around, and what happens when they do.

  \<^item> \<open>Spi\<close>, \<open>Sfud\<close>, \<open>Sfud_Chip\<close>, \<open>Sfud_Init\<close> (\<open>components/drivers/spi\<close>): transfers over an SPI bus and
    the serial flash library, with its detection of the chip. \<open>serial_nor\<close> states how a chip answers
    commands; over such a chip the library is shown to satisfy the laws \<open>nor_laws\<close> that the
    partitions and the environment rest on, and the initialisation to recognise the chip; a chip that
    asks for byte-wise writing is accepted, and writes to it are lost.

  \<^item> \<open>Ef_Crc\<close>, \<open>Ef_Port\<close>, \<open>Ef_Env\<close> (\<open>packages/EasyFlash-v3.3.0\<close>, \<open>ports/easyflash\<close>): the environment as the
    byte image the code keeps in its cache. The locale \<open>flash_store\<close> states what the environment needs
    of the port and is interpreted on the port over FAL. Shown: the cache refines a finite map from
    keys to values; what was saved is there after a restart; changed bytes are noticed by the CRC,
    which is the bit-serial CRC-32; a failed write is forgotten.

  \<^item> \<open>Wifi_Config\<close>, \<open>Firm_Upload\<close> (\<open>ports/wifi/wifi_config.c\<close>, \<open>func/wn_firm_upload.c\<close>): Base64 and the
    round trip of the WLAN settings through the environment; an uploaded image is what the partition
    holds.

  \<^item> \<open>C_Float\<close>: floating-point numbers as exact values and their texts as \<open>printf\<close> writes them. \<open>Cjson\<close>,
    \<open>Cjson_Print\<close> (\<open>packages/cJSON-v1.0.2\<close>): the operations on JSON items and their printing, over any pair of allocation
    functions. \<open>Cjson_Tree\<close>, \<open>Cjson_Text\<close>, \<open>Cjson_Build\<close>: trees of items in memory (\<open>tree_rep\<close>), the values they stand
    for (\<open>tree_json\<close>), the text of a value (\<open>json_text\<close>) and what printing it asks of the allocator (\<open>json_cost\<close>). The locale \<open>json_alloc\<close> states
    what the library needs of an allocator; \<open>Cjson_Port\<close> interprets it on the kernel allocator, for which
    \<open>Rt_Heap_Room\<close> defines how much room a heap has. Shown: printing delivers exactly the text or fails without a trace; deleting releases
    every block once.

  \<^item> \<open>Json_Pages\<close> (\<open>func/json_create.c\<close>), \<open>Cloud\<close> (\<open>applications/cloud.c\<close>, \<open>onenet_mqtt.c\<close>): the pages as JSON values, the room they need
    (6600 bytes), the rounding of the values shown; the frame of a cloud message and its overrun.

  \<^item> \<open>Wn_Path\<close>, \<open>Wn_Session\<close>, \<open>Wn_Request\<close>, \<open>Wn_Pages\<close> (\<open>packages/webnet-latest\<close>, \<open>func/wn_cgi.c\<close>): paths, types of contents,
    sessions with their buffer, the parser of requests, the CGI module and the pages. \<open>Wn_Query\<close>, \<open>Wn_Parse\<close> and \<open>Wn_System\<close> have the lemmas on queries,
    on requests and on the server as a whole. Shown: requests are parsed into their parts and bodies collected; a browser's request for the measured values
    is answered with their JSON text, and the memory given back; the normalisation of paths agrees with the resolution of names; which
    requests leave the web directory, and which make the server write outside its memory.

  \<^bold>\<open>Parameters.\<close> Sockets and the network (\<open>Modbus_Core\<close>); the flash calls of the vendor's library
  (\<open>Fal_Flash\<close>, with the law \<open>chip_read_law\<close>) and the driver of the SPI bus with the chip behind it
  (\<open>Spi\<close>, with the laws \<open>serial_nor\<close> and \<open>nor_identity\<close>). The theories above the flash devices take the operations
  of the serial flash as a parameter with the laws \<open>nor_laws\<close>, which \<open>Sfud_Chip\<close> proves for the library,
  and \<open>nor_reliable\<close>, that a chip does its work. Further parameters are the outcome of
  each allocation in the theories above the kernel that do not run on the modelled heap; what the network delivers to the web
  server; which paths are files; whether the MQTT client takes a message; the bytes of uninitialised variables; the clock and the pins.
  The functions of the C library are modelled as the standard describes them. Every theorem that
  assumes a law of a parameter has a witness on a concrete one.

  \<^bold>\<open>Not modelled.\<close> The scheduler (its effect is the interleaving of steps), semaphores, mutexes,
  events and mailboxes of \<open>ipc.c\<close>, and timers; the JSON parser and the functions of the JSON library that the program does
  not call; of the web server the sending of files, the dispatch to the upload module and the loop over its sockets; the MQTT client and the
  commands from the cloud; the listening side and the IPv6 variant of the Modbus
  backend; modes of EasyFlash that are not compiled in; output to the console; the register accesses
  of the drivers; the third-party network stack, file systems, shell and vendor libraries. These parts are driven by
  threads, sockets or registers, or are third-party code that the program only calls.
\<close>

end
